(* ===== verification/Cbcl_Prelude.thy ===== *)
theory Cbcl_Prelude
  imports
    Main
    "HOL-Library.Char_ord"
    "HOL-Library.List_Lexorder"
    "HOL-Library.Word"
    "HOL-Library.Monad_Syntax"
begin

text \<open>
  Shared vocabulary of the CBCL development.

  \<^item> Rust strings are modelled by their UTF-8 bytes: \<^typ>\<open>string\<close> is a list of 8-bit
    characters, \<open>len()\<close> is \<^const>\<open>length\<close>, and the derived \<open>Ord\<close> of \<open>String\<close> is the
    bytewise lexicographic order of \<open>HOL-Library.List_Lexorder\<close> over \<open>HOL-Library.Char_ord\<close>.
    Every character the modelled code distinguishes is ASCII, and an ASCII byte never occurs
    inside a multi-byte UTF-8 sequence, so walking the bytes and walking the scalar values
    take the same branches.
  \<^item> \<open>Result<T, E>\<close> is the sum \<open>E + T\<close> with \<^const>\<open>Inl\<close> for \<open>Err\<close>.
  \<^item> \<open>BTreeMap\<close> and \<open>BTreeSet\<close> are strictly sorted association lists and lists
    (\<open>bt_*\<close> and \<open>bs_*\<close>), so that iteration is in key order as in the source and every
    definition computes; their contracts are the locales \<open>ordered_map\<close> and \<open>ordered_set\<close>.
  \<^item> Decimal rendering and \<open>str::parse::<i64>\<close>, used by the serializer and the parsers.
\<close>

section \<open>Named collections\<close>

named_theorems result_simps \<open>computing with Result values\<close>
named_theorems btree_simps \<open>lookups in ordered maps and sets\<close>

section \<open>Machine integers\<close>

text \<open>\<open>u32\<close> and \<open>u64\<close>: addition wraps, as in a release build.\<close>

type_synonym u32 = "32 word"
type_synonym u64 = "64 word"

definition u_max :: "'a::len word \<Rightarrow> 'a word \<Rightarrow> 'a word" where
  "u_max a b = (if a \<le> b then b else a)"

definition saturating_sub :: "'a::len word \<Rightarrow> 'a word \<Rightarrow> 'a word" where
  "saturating_sub a b = (if b \<le> a then a - b else 0)"

definition saturating_add :: "'a::len word \<Rightarrow> 'a word \<Rightarrow> 'a word" where
  "saturating_add a b = (if unat a + unat b < 2 ^ LENGTH('a) then a + b else - 1)"

definition checked_add :: "'a::len word \<Rightarrow> 'a word \<Rightarrow> 'a word option" where
  "checked_add a b = (if unat a + unat b < 2 ^ LENGTH('a) then Some (a + b) else None)"

lemma unat_add_no_wrap:
  "unat a + unat b < 2 ^ LENGTH('a) \<Longrightarrow> unat (a + b :: 'a::len word) = unat a + unat b"
  by (simp add: unat_word_ariths)

lemma unat_of_nat_no_wrap: "n < 2 ^ LENGTH('a) \<Longrightarrow> unat (of_nat n :: 'a::len word) = n"
  by (simp add: unat_of_nat take_bit_eq_mod)

lemma unat_saturating_sub: "unat (saturating_sub a b) = unat a - unat b"
  by (auto simp: saturating_sub_def word_le_nat_alt unat_sub)

lemma checked_add_eq_Some:
  "checked_add a b = Some c \<longleftrightarrow> unat a + unat b < 2 ^ LENGTH('a) \<and> c = (a + b :: 'a::len word)"
  by (auto simp: checked_add_def)

lemma unat_u_max: "unat (u_max a b) = max (unat a) (unat b)"
  by (auto simp: u_max_def word_le_nat_alt)

section \<open>Results\<close>

type_synonym ('e, 'a) result = "'e + 'a"

definition bind_result :: "('e, 'a) result \<Rightarrow> ('a \<Rightarrow> ('e, 'b) result) \<Rightarrow> ('e, 'b) result" where
  "bind_result r f = (case r of Inl e \<Rightarrow> Inl e | Inr a \<Rightarrow> f a)"

lemma bind_result_simps [simp, result_simps]:
  "bind_result (Inl e) f = Inl e"
  "bind_result (Inr a) f = f a"
  by (simp_all add: bind_result_def)

lemma bind_result_eq_Inr [result_simps]:
  "bind_result r f = Inr b \<longleftrightarrow> (\<exists>a. r = Inr a \<and> f a = Inr b)"
  by (cases r) auto

definition ok_or :: "'e \<Rightarrow> 'a option \<Rightarrow> ('e, 'a) result" where
  "ok_or e x = (case x of None \<Rightarrow> Inl e | Some a \<Rightarrow> Inr a)"

lemma ok_or_simps [simp, result_simps]:
  "ok_or e None = Inl e"
  "ok_or e (Some a) = Inr a"
  by (simp_all add: ok_or_def)

lemma ok_or_eq_Inr [result_simps]: "ok_or e x = Inr a \<longleftrightarrow> x = Some a"
  by (cases x) auto

definition is_ok :: "('e, 'a) result \<Rightarrow> bool" where
  "is_ok r = (case r of Inl _ \<Rightarrow> False | Inr _ \<Rightarrow> True)"

lemma is_ok_simps [simp, result_simps]: "is_ok (Inr a)" "\<not> is_ok (Inl e)"
  by (simp_all add: is_ok_def)


section \<open>Ordered maps: BTreeMap\<close>

text \<open>
  The keys of an ordered map are strictly increasing; \<^term>\<open>bt_insert\<close> replaces the value
  of a present key and otherwise inserts at the key's place, as \<open>BTreeMap::insert\<close> does.
\<close>

type_synonym ('k, 'v) btmap = "('k \<times> 'v) list"

abbreviation bt_get :: "('k, 'v) btmap \<Rightarrow> 'k \<Rightarrow> 'v option" where
  "bt_get \<equiv> map_of"

abbreviation bt_keys :: "('k, 'v) btmap \<Rightarrow> 'k list" where
  "bt_keys m \<equiv> map fst m"

abbreviation bt_values :: "('k, 'v) btmap \<Rightarrow> 'v list" where
  "bt_values m \<equiv> map snd m"

fun bt_insert :: "'k::linorder \<Rightarrow> 'v \<Rightarrow> ('k, 'v) btmap \<Rightarrow> ('k, 'v) btmap" where
  "bt_insert k v [] = [(k, v)]"
| "bt_insert k v ((k', v') # m) =
     (if k < k' then (k, v) # (k', v') # m
      else if k = k' then (k, v) # m
      else (k', v') # bt_insert k v m)"

definition bt_remove :: "'k \<Rightarrow> ('k, 'v) btmap \<Rightarrow> ('k, 'v) btmap" where
  "bt_remove k m = filter (\<lambda>(k', _). k' \<noteq> k) m"

definition bt_contains_key :: "('k, 'v) btmap \<Rightarrow> 'k \<Rightarrow> bool" where
  "bt_contains_key m k \<longleftrightarrow> bt_get m k \<noteq> None"

definition bt_sorted :: "('k::linorder, 'v) btmap \<Rightarrow> bool" where
  "bt_sorted m \<longleftrightarrow> sorted_wrt (<) (bt_keys m)"

definition bt_of_list :: "('k::linorder \<times> 'v) list \<Rightarrow> ('k, 'v) btmap" where
  "bt_of_list kvs = foldl (\<lambda>m (k, v). bt_insert k v m) [] kvs"

lemma bt_get_insert [simp, btree_simps]:
  "bt_get (bt_insert k v m) = (bt_get m)(k \<mapsto> v)"
  by (induction k v m rule: bt_insert.induct) (auto simp: fun_eq_iff)

lemma bt_get_remove [simp, btree_simps]:
  "bt_get (bt_remove k m) = (bt_get m)(k := None)"
  by (induction m) (auto simp: bt_remove_def fun_eq_iff)

lemma bt_contains_key_iff [btree_simps]: "bt_contains_key m k \<longleftrightarrow> k \<in> set (bt_keys m)"
  by (simp add: bt_contains_key_def map_of_eq_None_iff image_def)

lemma bt_keys_insert [simp, btree_simps]:
  "set (bt_keys (bt_insert k v m)) = insert k (set (bt_keys m))"
  by (induction k v m rule: bt_insert.induct) auto

lemma bt_fst_insert [simp, btree_simps]:
  "fst ` set (bt_insert k v m) = insert k (fst ` set m)"
  using bt_keys_insert [of k v m] by simp

lemma bt_sorted_Nil [simp]: "bt_sorted []"
  by (simp add: bt_sorted_def)

lemma bt_sorted_insert [simp, intro]: "bt_sorted m \<Longrightarrow> bt_sorted (bt_insert k v m)"
  unfolding bt_sorted_def
  by (induction k v m rule: bt_insert.induct) auto

lemma bt_sorted_remove [simp, intro]: "bt_sorted m \<Longrightarrow> bt_sorted (bt_remove k m)"
  unfolding bt_sorted_def bt_remove_def
  by (induction m) auto

lemma bt_sorted_distinct: "bt_sorted m \<Longrightarrow> distinct (bt_keys m)"
  by (simp add: bt_sorted_def strict_sorted_iff)

lemma bt_get_eq_Some [btree_simps]:
  "bt_sorted m \<Longrightarrow> bt_get m k = Some v \<longleftrightarrow> (k, v) \<in> set m"
  by (simp add: bt_sorted_distinct)

lemma bt_insert_length_new:
  "bt_get m k = None \<Longrightarrow> length (bt_insert k v m) = Suc (length m)"
  by (induction k v m rule: bt_insert.induct) (auto split: if_splits)

lemma bt_sorted_eqI:
  assumes "bt_sorted m" "bt_sorted m'" "bt_get m = bt_get m'"
  shows "m = m'"
proof -
  have "set m = set m'"
    using assms by (metis bt_get_eq_Some subrelI subset_antisym)
  moreover have "sorted_wrt (<) (bt_keys m)" "sorted_wrt (<) (bt_keys m')"
    using assms by (auto simp: bt_sorted_def)
  ultimately show ?thesis
  proof (induction m arbitrary: m')
    case Nil
    then show ?case by simp
  next
    case (Cons kv m)
    then obtain kv' n where m': "m' = kv' # n" by (cases m') auto
    have keys: "\<forall>x \<in> set m. fst kv < fst x" "\<forall>x \<in> set n. fst kv' < fst x"
      using Cons.prems m' by auto
    have "kv' = kv \<or> kv' \<in> set m" "kv = kv' \<or> kv \<in> set n"
      using Cons.prems(1) m' by auto
    then have eq: "kv' = kv"
      using keys by (metis less_asym)
    have "kv \<notin> set m" "kv \<notin> set n"
      using keys eq by blast+
    then have "set m = set n"
      using Cons.prems(1) m' eq by auto
    then show ?case
      using Cons.IH [of n] Cons.prems m' eq by simp
  qed
qed

lemma bt_sorted_of_list [simp]: "bt_sorted (bt_of_list kvs)"
proof -
  have "bt_sorted m \<Longrightarrow> bt_sorted (foldl (\<lambda>m (k, v). bt_insert k v m) m kvs)" for m
    by (induction kvs arbitrary: m) auto
  then show ?thesis by (simp add: bt_of_list_def)
qed

section \<open>Ordered sets: BTreeSet\<close>

type_synonym 'a btset = "'a list"

fun bs_insert :: "'a::linorder \<Rightarrow> 'a btset \<Rightarrow> 'a btset" where
  "bs_insert x [] = [x]"
| "bs_insert x (y # ys) =
     (if x < y then x # y # ys else if x = y then y # ys else y # bs_insert x ys)"

definition bs_sorted :: "'a::linorder btset \<Rightarrow> bool" where
  "bs_sorted s \<longleftrightarrow> sorted_wrt (<) s"

definition bs_of_list :: "'a::linorder list \<Rightarrow> 'a btset" where
  "bs_of_list xs = foldl (\<lambda>s x. bs_insert x s) [] xs"

lemma set_bs_insert [simp, btree_simps]: "set (bs_insert x s) = insert x (set s)"
  by (induction x s rule: bs_insert.induct) auto

lemma bs_sorted_Nil [simp]: "bs_sorted []"
  by (simp add: bs_sorted_def)

lemma bs_sorted_insert [simp, intro]: "bs_sorted s \<Longrightarrow> bs_sorted (bs_insert x s)"
  unfolding bs_sorted_def
  by (induction x s rule: bs_insert.induct) auto

lemma set_foldl_bs_insert: "set (foldl (\<lambda>s x. bs_insert x s) s xs) = set s \<union> set xs"
  by (induction xs arbitrary: s) auto

lemma set_bs_of_list [simp, btree_simps]: "set (bs_of_list xs) = set xs"
  by (simp add: bs_of_list_def set_foldl_bs_insert)

lemma bs_sorted_of_list [simp]: "bs_sorted (bs_of_list xs)"
proof -
  have "bs_sorted s \<Longrightarrow> bs_sorted (foldl (\<lambda>s x. bs_insert x s) s xs)" for s
    by (induction xs arbitrary: s) auto
  then show ?thesis by (simp add: bs_of_list_def)
qed

lemma bs_sorted_eqI:
  "bs_sorted s \<Longrightarrow> bs_sorted t \<Longrightarrow> set s = set t \<Longrightarrow> s = t"
  by (simp add: bs_sorted_def strict_sorted_equal)

lemma bs_insert_snoc: "\<forall>y \<in> set s. y < x \<Longrightarrow> bs_insert x s = s @ [x]"
  by (induction s) auto

lemma foldl_bs_insert_sorted:
  "sorted_wrt (<) (s @ xs) \<Longrightarrow> foldl (\<lambda>s x. bs_insert x s) s xs = s @ xs"
proof (induction xs arbitrary: s)
  case Nil
  then show ?case by simp
next
  case (Cons x xs)
  then have "bs_insert x s = s @ [x]"
    by (intro bs_insert_snoc) (auto simp: sorted_wrt_append)
  then show ?case
    using Cons.IH [of "s @ [x]"] Cons.prems by simp
qed

lemma bs_of_list_sorted [simp]: "bs_sorted s \<Longrightarrow> bs_of_list s = s"
  using foldl_bs_insert_sorted [of "[]" s] by (simp add: bs_of_list_def bs_sorted_def)

lemma bs_sorted_distinct: "bs_sorted s \<Longrightarrow> distinct s"
  by (simp add: bs_sorted_def strict_sorted_iff)

lemma set_map_filter: "set (List.map_filter f xs) = {y. \<exists>x \<in> set xs. f x = Some y}"
  by (induction xs) (auto simp: map_filter_simps split: option.splits)

section \<open>The map and set contracts\<close>

text \<open>
  What the clients of \<open>BTreeMap\<close> and \<open>BTreeSet\<close> rely on. The lemmas of the locales are the
  facts about collecting an iterator into a map or a set that the components use.
\<close>

locale ordered_map =
  fixes ins :: "'k \<Rightarrow> 'v \<Rightarrow> 'm \<Rightarrow> 'm"
    and get :: "'m \<Rightarrow> 'k \<Rightarrow> 'v option"
    and empty :: 'm
    and inv :: "'m \<Rightarrow> bool"
  assumes get_empty: "get empty k = None"
    and get_ins: "inv m \<Longrightarrow> get (ins k v m) = (get m)(k \<mapsto> v)"
    and inv_empty: "inv empty"
    and inv_ins: "inv m \<Longrightarrow> inv (ins k v m)"
begin

lemma inv_collect: "inv m \<Longrightarrow> inv (foldl (\<lambda>m (k, v). ins k v m) m kvs)"
  by (induction kvs arbitrary: m) (auto simp: inv_ins)

lemma get_collect:
  "inv m \<Longrightarrow> get (foldl (\<lambda>m (k, v). ins k v m) m kvs) = (get m) ++ map_of (rev kvs)"
proof (induction kvs arbitrary: m)
  case Nil
  then show ?case by simp
next
  case (Cons kv kvs)
  then show ?case
    by (cases kv) (auto simp: get_ins inv_ins fun_eq_iff map_add_def split: option.splits)
qed

lemma collect_last_wins:
  "get (foldl (\<lambda>m (k, v). ins k v m) empty kvs) k = map_of (rev kvs) k"
  using get_collect [OF inv_empty, of kvs] by (simp add: map_add_def get_empty split: option.split)

end

interpretation btree_map: ordered_map bt_insert bt_get "[]" bt_sorted
  by unfold_locales auto

lemma bt_get_of_list [btree_simps]: "bt_get (bt_of_list kvs) k = map_of (rev kvs) k"
  unfolding bt_of_list_def by (rule btree_map.collect_last_wins)

lemma bt_get_of_list_distinct:
  "distinct (map fst kvs) \<Longrightarrow> bt_get (bt_of_list kvs) k = map_of kvs k"
proof -
  assume "distinct (map fst kvs)"
  then have "map_of (rev kvs) = map_of kvs"
    by (simp add: map_of_inject_set rev_map [symmetric])
  then show ?thesis by (simp add: bt_get_of_list)
qed

locale ordered_set =
  fixes ins :: "'a \<Rightarrow> 's \<Rightarrow> 's"
    and elems :: "'s \<Rightarrow> 'a set"
    and empty :: 's
    and inv :: "'s \<Rightarrow> bool"
  assumes elems_empty: "elems empty = {}"
    and elems_ins: "inv s \<Longrightarrow> elems (ins x s) = insert x (elems s)"
    and inv_empty: "inv empty"
    and inv_ins: "inv s \<Longrightarrow> inv (ins x s)"
    and canonical: "inv s \<Longrightarrow> inv t \<Longrightarrow> elems s = elems t \<Longrightarrow> s = t"
begin

lemma collect_props:
  "inv s \<Longrightarrow> inv (foldl (\<lambda>s x. ins x s) s xs) \<and>
     elems (foldl (\<lambda>s x. ins x s) s xs) = elems s \<union> set xs"
  by (induction xs arbitrary: s) (auto simp: inv_ins elems_ins)

lemma collect_set_eq:
  assumes "set xs = set ys"
  shows "foldl (\<lambda>s x. ins x s) empty xs = foldl (\<lambda>s x. ins x s) empty ys"
  using assms collect_props [OF inv_empty, of xs] collect_props [OF inv_empty, of ys]
  by (intro canonical) (auto simp: elems_empty)

end

interpretation btree_set: ordered_set bs_insert set "[]" bs_sorted
  by unfold_locales (auto intro: bs_sorted_eqI)

lemma bs_of_list_set_eq: "set xs = set ys \<Longrightarrow> bs_of_list xs = bs_of_list ys"
  unfolding bs_of_list_def by (rule btree_set.collect_set_eq)

section \<open>Characters and decimal numbers\<close>

abbreviation byte :: "char \<Rightarrow> nat" where
  "byte c \<equiv> (of_char c :: nat)"

definition is_ascii_digit :: "char \<Rightarrow> bool" where
  "is_ascii_digit c \<longleftrightarrow> 48 \<le> byte c \<and> byte c \<le> 57"

definition is_ascii_alphabetic :: "char \<Rightarrow> bool" where
  "is_ascii_alphabetic c \<longleftrightarrow>
     65 \<le> byte c \<and> byte c \<le> 90 \<or> 97 \<le> byte c \<and> byte c \<le> 122"

definition is_ascii_alphanumeric :: "char \<Rightarrow> bool" where
  "is_ascii_alphanumeric c \<longleftrightarrow> is_ascii_alphabetic c \<or> is_ascii_digit c"

text \<open>\<open>char::is_ascii_whitespace\<close>: space, tab, line feed, form feed, carriage return.\<close>

definition is_ascii_whitespace :: "char \<Rightarrow> bool" where
  "is_ascii_whitespace c \<longleftrightarrow>
     c = CHR 0x20 \<or> c = CHR 0x09 \<or> c = CHR 0x0A \<or> c = CHR 0x0C \<or> c = CHR 0x0D"

text \<open>The bytes of the first scalar value of a UTF-8 string.\<close>

definition utf8_len :: "char \<Rightarrow> nat" where
  "utf8_len c = (if byte c < 0x80 then 1 else if byte c < 0xE0 then 2
     else if byte c < 0xF0 then 3 else 4)"

definition first_scalar :: "string \<Rightarrow> string" where
  "first_scalar s = (case s of [] \<Rightarrow> [] | c # _ \<Rightarrow> take (utf8_len c) s)"

definition digit_char :: "nat \<Rightarrow> char" where
  "digit_char d = char_of (48 + d)"

fun show_nat :: "nat \<Rightarrow> string" where
  "show_nat n = (if n < 10 then [digit_char n] else show_nat (n div 10) @ [digit_char (n mod 10)])"

declare show_nat.simps [simp del]

definition show_int :: "int \<Rightarrow> string" where
  "show_int n = (if n < 0 then CHR ''-'' # show_nat (nat (- n)) else show_nat (nat n))"

definition digits_value :: "string \<Rightarrow> nat" where
  "digits_value s = foldl (\<lambda>a c. 10 * a + (byte c - 48)) 0 s"

definition in_i64 :: "int \<Rightarrow> bool" where
  "in_i64 n \<longleftrightarrow> - (2 ^ 63) \<le> n \<and> n < 2 ^ 63"

text \<open>\<open>str::parse::<i64>\<close>: an optional sign, at least one digit, nothing else, in range.\<close>

definition parse_digits :: "string \<Rightarrow> nat option" where
  "parse_digits s = (if s \<noteq> [] \<and> list_all is_ascii_digit s then Some (digits_value s) else None)"

definition parse_i64 :: "string \<Rightarrow> int option" where
  "parse_i64 s =
     (let (neg, ds) = (case s of
          [] \<Rightarrow> (False, [])
        | c # cs \<Rightarrow> if c = CHR ''-'' then (True, cs)
                   else if c = CHR ''+'' then (False, cs) else (False, s))
      in case parse_digits ds of
           None \<Rightarrow> None
         | Some n \<Rightarrow> (let v = (if neg then - int n else int n)
                     in if in_i64 v then Some v else None))"

lemma byte_digit_char: "d < 10 \<Longrightarrow> byte (digit_char d) = 48 + d"
  by (simp add: digit_char_def)

lemma digit_char_is_digit: "d < 10 \<Longrightarrow> is_ascii_digit (digit_char d)"
  by (simp add: is_ascii_digit_def byte_digit_char)

lemma show_nat_digits: "list_all is_ascii_digit (show_nat n)"
proof (induction n rule: show_nat.induct)
  case (1 n)
  then show ?case
    by (subst show_nat.simps) (simp add: digit_char_is_digit)
qed

lemma show_nat_nonempty [simp]: "show_nat n \<noteq> []"
  by (subst show_nat.simps) simp

lemma digits_value_snoc: "digits_value (s @ [c]) = 10 * digits_value s + (byte c - 48)"
  by (simp add: digits_value_def)

lemma digits_value_show_nat [simp]: "digits_value (show_nat n) = n"
proof (induction n rule: show_nat.induct)
  case (1 n)
  show ?case
  proof (cases "n < 10")
    case True
    then show ?thesis
      by (subst show_nat.simps) (simp add: digits_value_def byte_digit_char)
  next
    case False
    then have "show_nat n = show_nat (n div 10) @ [digit_char (n mod 10)]"
      by (subst show_nat.simps) simp
    then show ?thesis
      using 1 False by (simp add: digits_value_snoc byte_digit_char)
  qed
qed

lemma parse_digits_show_nat [simp]: "parse_digits (show_nat n) = Some n"
  by (simp add: parse_digits_def show_nat_digits)

lemma show_nat_hd: "is_ascii_digit (hd (show_nat n))"
  using show_nat_digits [of n] by (cases "show_nat n") auto

lemma is_ascii_digit_sign [simp]:
  "\<not> is_ascii_digit CHR ''-''" "\<not> is_ascii_digit CHR ''+''"
  by (simp_all add: is_ascii_digit_def)

lemma parse_i64_show_nat: "in_i64 (int n) \<Longrightarrow> parse_i64 (show_nat n) = Some (int n)"
  using show_nat_hd [of n] parse_digits_show_nat [of n]
  by (cases "show_nat n") (auto simp: parse_i64_def simp del: parse_digits_show_nat)

lemma parse_i64_show_int:
  assumes "in_i64 n"
  shows "parse_i64 (show_int n) = Some n"
proof (cases "n < 0")
  case True
  then show ?thesis using assms by (simp add: show_int_def parse_i64_def)
next
  case False
  then show ?thesis using assms parse_i64_show_nat [of "nat n"] by (simp add: show_int_def)
qed

lemma parse_i64_in_range: "parse_i64 s = Some n \<Longrightarrow> in_i64 n"
  by (auto simp: parse_i64_def Let_def split: list.splits option.splits if_splits)

end
