(* ===== verification/Cbcl_Sexpr.thy ===== *)
theory Cbcl_Sexpr
  imports Cbcl_Prelude
begin

text \<open>
  The S-expressions of \<open>cbcl-core/src/sexpr.rs\<close>, their measures and the \<open>Display\<close>
  rendering, and the canonical serializer of \<open>serializer.rs\<close>, with the proof that they agree.
  The wire parser of the parser crate is in \<open>Cbcl_Parser\<close>.
\<close>

section \<open>Data\<close>

datatype atom = Symbol string | Str string | Num int | Bool bool | Keyword string

datatype sexpr = Atom atom | List "sexpr list"

section \<open>Measures\<close>

fun sexpr_size :: "sexpr \<Rightarrow> nat" where
  "sexpr_size (Atom _) = 1"
| "sexpr_size (List items) = 1 + sum_list (map sexpr_size items)"

fun byte_size :: "sexpr \<Rightarrow> nat" where
  "byte_size (Atom a) = (case a of
       Symbol s \<Rightarrow> length s
     | Str s \<Rightarrow> length s
     | Keyword s \<Rightarrow> length s
     | Num _ \<Rightarrow> 8
     | Bool _ \<Rightarrow> 1)"
| "byte_size (List items) = sum_list (map byte_size items)"

text \<open>\<open>iter().max().unwrap_or(0)\<close> over natural numbers.\<close>

definition max_or_zero :: "nat list \<Rightarrow> nat" where
  "max_or_zero ns = foldr max ns 0"

fun depth :: "sexpr \<Rightarrow> nat" where
  "depth (Atom _) = 0"
| "depth (List items) = 1 + max_or_zero (map depth items)"

definition is_symbol :: "sexpr \<Rightarrow> string \<Rightarrow> bool" where
  "is_symbol e name = (case e of Atom (Symbol s) \<Rightarrow> s = name | _ \<Rightarrow> False)"

section \<open>Rendering\<close>

definition escape_char :: "char \<Rightarrow> string" where
  "escape_char c =
     (if c = CHR 0x22 then [CHR 0x5C, CHR 0x22]
      else if c = CHR 0x5C then [CHR 0x5C, CHR 0x5C]
      else if c = CHR 0x0A then [CHR 0x5C, CHR ''n'']
      else if c = CHR 0x0D then [CHR 0x5C, CHR ''r'']
      else if c = CHR 0x09 then [CHR 0x5C, CHR ''t'']
      else [c])"

definition display_atom :: "atom \<Rightarrow> string" where
  "display_atom a = (case a of
       Symbol s \<Rightarrow> s
     | Str s \<Rightarrow> [CHR 0x22] @ concat (map escape_char s) @ [CHR 0x22]
     | Num n \<Rightarrow> show_int n
     | Bool b \<Rightarrow> (if b then ''#t'' else ''#f'')
     | Keyword k \<Rightarrow> '':'' @ k)"

text \<open>Items separated by single spaces: the loop over \<open>enumerate\<close> with its \<open>i > 0\<close> test.\<close>

fun separated :: "string list \<Rightarrow> string" where
  "separated [] = []"
| "separated [s] = s"
| "separated (s # t # ss) = s @ '' '' @ separated (t # ss)"

fun display_sexpr :: "sexpr \<Rightarrow> string" where
  "display_sexpr (Atom a) = display_atom a"
| "display_sexpr (List items) = ''('' @ separated (map display_sexpr items) @ '')''"

text \<open>
  \<open>serializer.rs\<close> writes into a buffer; \<^term>\<open>write_items buf i items\<close> is its loop, with the
  index that decides whether a separating space is pushed.
\<close>

definition write_atom :: "atom \<Rightarrow> string \<Rightarrow> string" where
  "write_atom a buf = (case a of
       Symbol s \<Rightarrow> buf @ s
     | Str s \<Rightarrow> foldl (\<lambda>b c. b @ escape_char c) (buf @ [CHR 0x22]) s @ [CHR 0x22]
     | Num n \<Rightarrow> buf @ show_int n
     | Bool b \<Rightarrow> buf @ (if b then ''#t'' else ''#f'')
     | Keyword k \<Rightarrow> (buf @ '':'') @ k)"

fun write_sexpr :: "sexpr \<Rightarrow> string \<Rightarrow> string"
and write_items :: "sexpr list \<Rightarrow> nat \<Rightarrow> string \<Rightarrow> string" where
  "write_sexpr (Atom a) buf = write_atom a buf"
| "write_sexpr (List items) buf = write_items items 0 (buf @ ''('') @ '')''"
| "write_items [] i buf = buf"
| "write_items (e # es) i buf =
     write_items es (i + 1) (write_sexpr e (if 0 < i then buf @ '' '' else buf))"

definition serialize :: "sexpr \<Rightarrow> string" where
  "serialize e = write_sexpr e []"

section \<open>Lemmas on measures\<close>

lemma max_or_zero_ge: "n \<in> set ns \<Longrightarrow> n \<le> max_or_zero ns"
  by (induction ns) (auto simp: max_or_zero_def)

lemma max_or_zero_le: "\<forall>n \<in> set ns. n \<le> b \<Longrightarrow> max_or_zero ns \<le> b"
  by (induction ns) (auto simp: max_or_zero_def)

lemma sexpr_size_pos [simp]: "0 < sexpr_size e"
  by (cases e) auto

lemma sum_list_ge_member: "(x::nat) \<in> set xs \<Longrightarrow> x \<le> sum_list xs"
  by (induction xs) auto

lemma depth_le_size: "depth e \<le> sexpr_size e"
proof (induction e)
  case (List items)
  have "max_or_zero (map depth items) \<le> sum_list (map sexpr_size items)"
  proof (rule max_or_zero_le, clarsimp)
    fix e assume "e \<in> set items"
    then show "depth e \<le> sum_list (map sexpr_size items)"
      using List sum_list_ge_member [of "sexpr_size e" "map sexpr_size items"] by force
  qed
  then show ?case by simp
qed simp

section \<open>The two renderers agree\<close>

lemma foldl_escape: "foldl (\<lambda>b c. b @ escape_char c) buf s = buf @ concat (map escape_char s)"
  by (induction s arbitrary: buf) auto

lemma write_atom_eq: "write_atom a buf = buf @ display_atom a"
  by (cases a) (auto simp: write_atom_def display_atom_def foldl_escape)

definition spaced :: "string list \<Rightarrow> string" where
  "spaced ss = concat (map (\<lambda>s. '' '' @ s) ss)"

lemma separated_Cons: "separated (s # ss) = s @ spaced ss"
  by (induction ss arbitrary: s) (auto simp: spaced_def)

lemma write_sexpr_eq:
  "write_sexpr e buf = buf @ display_sexpr e"
  "write_items es i buf =
     buf @ (if i = 0 then separated (map display_sexpr es) else spaced (map display_sexpr es))"
proof (induction e buf and es i buf rule: write_sexpr_write_items.induct)
  case (4 e es i buf)
  then show ?case by (cases "i = 0") (auto simp: separated_Cons spaced_def)
qed (auto simp: write_atom_eq spaced_def)

lemma serialize_eq_display_sexpr: "serialize e = display_sexpr e"
  by (simp add: serialize_def write_sexpr_eq)

end
