(* ===== verification/Cbcl_Parser.thy ===== *)
theory Cbcl_Parser
  imports Cbcl_Sexpr
begin

text \<open>
  The fuel-bounded recursive-descent parser of \<open>cbcl-parser/src/parser.rs\<close>. The cursor is the
  unread suffix of the input together with its byte offset; \<^term>\<open>fuel\<close> is the parser's own
  fuel, spent by every \<open>parse_expr\<close>. The theory shows that the parser inverts the canonical
  serializer, that its default fuel is never exhausted, and that fuel bounds the parsed tree.
\<close>

section \<open>State and errors\<close>

datatype parse_error =
    UnexpectedChar nat string string
  | UnexpectedEof nat string
  | FuelExhausted nat
  | InvalidEscape nat string
  | IntegerOverflow nat

record parser_state =
  p_rest :: string
  p_pos :: nat
  p_fuel :: nat

text \<open>Move the cursor to a suffix of the unread input.\<close>

definition moved :: "parser_state \<Rightarrow> string \<Rightarrow> parser_state" where
  "moved s r = s\<lparr>p_rest := r, p_pos := p_pos s + (length (p_rest s) - length r)\<rparr>"

definition new_state :: "string \<Rightarrow> nat option \<Rightarrow> parser_state" where
  "new_state input f = \<lparr>p_rest = input, p_pos = 0,
     p_fuel = (case f of None \<Rightarrow> max (length input) 1 | Some n \<Rightarrow> n)\<rparr>"

text \<open>The \<open>expected\<close> texts that contain quotation marks.\<close>

definition quoted :: "string \<Rightarrow> string" where
  "quoted s = [CHR 0x27] @ s @ [CHR 0x27]"

definition expected_quote :: string where
  "expected_quote = ''closing '' @ quoted [CHR 0x22]"

definition expected_bool :: string where
  "expected_bool = quoted ''t'' @ '' or '' @ quoted ''f''"

definition expected_paren :: string where
  "expected_paren = quoted '')''"

definition is_symbol_char :: "char \<Rightarrow> bool" where
  "is_symbol_char c \<longleftrightarrow> is_ascii_alphanumeric c \<or> c = CHR ''_'' \<or> c = CHR ''-'' \<or> c = CHR ''.''
     \<or> c = CHR ''/'' \<or> c = CHR ''!'' \<or> c = CHR ''?'' \<or> c = CHR ''+'' \<or> c = CHR ''*''
     \<or> c = CHR ''<'' \<or> c = CHR ''>'' \<or> c = CHR ''='' \<or> c = CHR ''@''"

section \<open>Whitespace and comments\<close>

fun skip_comment :: "string \<Rightarrow> string" where
  "skip_comment [] = []"
| "skip_comment (c # cs) = (if c = CHR 0x0A then cs else skip_comment cs)"

lemma skip_comment_length: "length (skip_comment s) \<le> length s"
  by (induction s) auto

function skip_ws :: "string \<Rightarrow> string" where
  "skip_ws [] = []"
| "skip_ws (c # cs) =
     (if is_ascii_whitespace c then skip_ws cs
      else if c = CHR '';'' then skip_ws (skip_comment cs)
      else c # cs)"
  by pat_completeness auto
termination
  by (relation "measure length") (auto simp: skip_comment_length le_imp_less_Suc)

definition skip_whitespace :: "parser_state \<Rightarrow> parser_state" where
  "skip_whitespace s = moved s (skip_ws (p_rest s))"

section \<open>Atoms\<close>

fun string_body :: "string \<Rightarrow> nat \<Rightarrow> string \<Rightarrow> (parse_error, string \<times> string) result" where
  "string_body [] p acc = Inl (UnexpectedEof p expected_quote)"
| "string_body (c # cs) p acc =
     (if c = CHR 0x22 then Inr (acc, cs)
      else if c = CHR 0x5C then
        (case cs of
           [] \<Rightarrow> Inl (UnexpectedEof (p + 1) ''escape character'')
         | d # ds \<Rightarrow>
             if d = CHR ''n'' then string_body ds (p + 2) (acc @ [CHR 0x0A])
             else if d = CHR ''r'' then string_body ds (p + 2) (acc @ [CHR 0x0D])
             else if d = CHR ''t'' then string_body ds (p + 2) (acc @ [CHR 0x09])
             else if d = CHR 0x5C then string_body ds (p + 2) (acc @ [CHR 0x5C])
             else if d = CHR 0x22 then string_body ds (p + 2) (acc @ [CHR 0x22])
             else Inl (InvalidEscape (p + 1) (first_scalar cs)))
      else string_body cs (p + 1) (acc @ [c]))"

definition parse_string :: "parser_state \<Rightarrow> (parse_error, sexpr \<times> parser_state) result" where
  "parse_string s =
     (case string_body (tl (p_rest s)) (p_pos s + 1) [] of
        Inl e \<Rightarrow> Inl e
      | Inr (str, r) \<Rightarrow> Inr (Atom (Str str), moved s r))"

definition parse_bool :: "parser_state \<Rightarrow> (parse_error, sexpr \<times> parser_state) result" where
  "parse_bool s =
     (case tl (p_rest s) of
        [] \<Rightarrow> Inl (UnexpectedEof (p_pos s + 1) expected_bool)
      | c # cs \<Rightarrow>
          if c = CHR ''t'' then Inr (Atom (Bool True), moved s cs)
          else if c = CHR ''f'' then Inr (Atom (Bool False), moved s cs)
          else Inl (UnexpectedChar (p_pos s + 1) (first_scalar (c # cs)) expected_bool))"

definition parse_keyword :: "parser_state \<Rightarrow> (parse_error, sexpr \<times> parser_state) result" where
  "parse_keyword s =
     (let r = tl (p_rest s); name = takeWhile is_symbol_char r
      in if name = [] then Inl (UnexpectedEof (p_pos s + 1) ''keyword name'')
         else Inr (Atom (Keyword name), moved s (dropWhile is_symbol_char r)))"

definition parse_symbol :: "parser_state \<Rightarrow> (parse_error, sexpr \<times> parser_state) result" where
  "parse_symbol s =
     (let name = takeWhile is_symbol_char (p_rest s)
      in if name = []
         then Inl (UnexpectedChar (p_pos s)
                (if p_rest s = [] then [CHR 0x00] else first_scalar (p_rest s)) ''symbol'')
         else Inr (Atom (Symbol name), moved s (dropWhile is_symbol_char (p_rest s))))"

definition is_int_char :: "char \<Rightarrow> bool" where
  "is_int_char c \<longleftrightarrow> c = CHR ''-'' \<or> is_ascii_digit c"

definition parse_integer :: "parser_state \<Rightarrow> (parse_error, sexpr \<times> parser_state) result" where
  "parse_integer s =
     (case parse_i64 (takeWhile is_int_char (p_rest s)) of
        Some n \<Rightarrow> Inr (Atom (Num n), moved s (dropWhile is_int_char (p_rest s)))
      | None \<Rightarrow> Inl (IntegerOverflow (p_pos s)))"

definition parse_number_or_symbol ::
  "parser_state \<Rightarrow> (parse_error, sexpr \<times> parser_state) result" where
  "parse_number_or_symbol s =
     (case p_rest s of
        c # d # _ \<Rightarrow>
          if c = CHR ''-'' \<and> \<not> is_ascii_digit d then parse_symbol s else parse_integer s
      | [c] \<Rightarrow> if c = CHR ''-'' then parse_symbol s else parse_integer s
      | [] \<Rightarrow> parse_integer s)"

section \<open>Expressions and lists\<close>

text \<open>The arms of \<open>parse_expr\<close> other than the list, by the first character.\<close>

definition parse_atom ::
  "char \<Rightarrow> parser_state \<Rightarrow> (parse_error, sexpr \<times> parser_state) result" where
  "parse_atom c s =
     (if c = CHR 0x22 then parse_string s
      else if c = CHR ''#'' then parse_bool s
      else if c = CHR '':'' then parse_keyword s
      else if c = CHR ''-'' \<or> is_ascii_digit c then parse_number_or_symbol s
      else parse_symbol s)"

function parse_expr :: "parser_state \<Rightarrow> (parse_error, sexpr \<times> parser_state) result"
and parse_list_loop ::
  "parser_state \<Rightarrow> sexpr list \<Rightarrow> (parse_error, sexpr \<times> parser_state) result" where
  "parse_expr s0 =
     (if p_fuel s0 = 0 then Inl (FuelExhausted (p_pos s0))
      else (let s = skip_whitespace (s0\<lparr>p_fuel := p_fuel s0 - 1\<rparr>)
            in case p_rest s of
                 [] \<Rightarrow> Inl (UnexpectedEof (p_pos s) ''expression'')
               | c # cs \<Rightarrow>
                   if c = CHR ''('' then parse_list_loop (moved s cs) []
                   else parse_atom c s))"
| "parse_list_loop s0 items =
     (let s = skip_whitespace s0
      in case p_rest s of
           [] \<Rightarrow> Inl (UnexpectedEof (p_pos s) expected_paren)
         | c # cs \<Rightarrow>
             if c = CHR '')'' then Inr (List items, moved s cs)
             else (case parse_expr s of
                     Inl e \<Rightarrow> Inl e
                   | Inr (item, s') \<Rightarrow> parse_list_loop s' (items @ [item])))"
  by pat_completeness auto

lemma fuel_moved [simp]: "p_fuel (moved s r) = p_fuel s"
  by (simp add: moved_def)

lemma rest_moved [simp]: "p_rest (moved s r) = r"
  by (simp add: moved_def)

lemma fuel_skip_whitespace [simp]: "p_fuel (skip_whitespace s) = p_fuel s"
  by (simp add: skip_whitespace_def)

lemma rest_skip_whitespace [simp]: "p_rest (skip_whitespace s) = skip_ws (p_rest s)"
  by (simp add: skip_whitespace_def)

lemma string_body_suffix:
  "string_body s p acc = Inr (t, r) \<Longrightarrow> length r < length s"
  by (induction s p acc rule: string_body.induct)
     (auto split: if_splits list.splits intro: less_SucI)

lemma dropWhile_shorter: "takeWhile P s \<noteq> [] \<Longrightarrow> length (dropWhile P s) < length s"
  by (cases s) (auto simp: le_imp_less_Suc length_dropWhile_le split: if_splits)

lemma parse_i64_nonempty: "parse_i64 [] = None"
  by (simp add: parse_i64_def parse_digits_def)

text \<open>What a successful atom parser does to the state: fuel is kept, input is consumed.\<close>

definition consumes_atom :: "parser_state \<Rightarrow> sexpr \<Rightarrow> parser_state \<Rightarrow> bool" where
  "consumes_atom s e s' \<longleftrightarrow>
     p_fuel s' = p_fuel s \<and> sexpr_size e = 1 \<and> length (p_rest s') < length (p_rest s)"

lemma parse_string_consumes:
  "parse_string s = Inr (e, s') \<Longrightarrow> p_rest s \<noteq> [] \<Longrightarrow> consumes_atom s e s'"
  by (cases "p_rest s")
     (auto simp: parse_string_def consumes_atom_def dest!: string_body_suffix split: sum.splits)

lemma parse_bool_consumes:
  "parse_bool s = Inr (e, s') \<Longrightarrow> p_rest s \<noteq> [] \<Longrightarrow> consumes_atom s e s'"
  by (cases "p_rest s") (auto simp: parse_bool_def consumes_atom_def split: list.splits if_splits)

lemma parse_keyword_consumes:
  "parse_keyword s = Inr (e, s') \<Longrightarrow> p_rest s \<noteq> [] \<Longrightarrow> consumes_atom s e s'"
  by (cases "p_rest s")
     (auto simp: parse_keyword_def consumes_atom_def Let_def le_imp_less_Suc length_dropWhile_le
       split: if_splits)

lemma parse_symbol_consumes: "parse_symbol s = Inr (e, s') \<Longrightarrow> consumes_atom s e s'"
  by (auto simp: parse_symbol_def consumes_atom_def Let_def dropWhile_shorter split: if_splits)

lemma parse_integer_consumes: "parse_integer s = Inr (e, s') \<Longrightarrow> consumes_atom s e s'"
  by (cases "takeWhile is_int_char (p_rest s) = []")
     (auto simp: parse_integer_def consumes_atom_def parse_i64_nonempty dropWhile_shorter
       split: option.splits)

lemma parse_number_or_symbol_cases:
  "parse_number_or_symbol s = parse_symbol s \<or> parse_number_or_symbol s = parse_integer s"
  by (simp add: parse_number_or_symbol_def split: list.split)

lemma parse_atom_cases:
  "parse_atom c s = parse_string s \<or> parse_atom c s = parse_bool s
   \<or> parse_atom c s = parse_keyword s \<or> parse_atom c s = parse_symbol s
   \<or> parse_atom c s = parse_integer s"
  using parse_number_or_symbol_cases [of s] by (simp add: parse_atom_def)

lemma parse_atom_ok:
  assumes "parse_atom c s = Inr (e, s')" "p_rest s = c # cs"
  shows "p_fuel s' = p_fuel s" "sexpr_size e = 1" "length (p_rest s') < length (p_rest s)"
proof -
  have "consumes_atom s e s'"
    using parse_atom_cases [of c s]
  proof (elim disjE)
    assume "parse_atom c s = parse_string s"
    then show ?thesis using assms parse_string_consumes by simp
  next
    assume "parse_atom c s = parse_bool s"
    then show ?thesis using assms parse_bool_consumes by simp
  next
    assume "parse_atom c s = parse_keyword s"
    then show ?thesis using assms parse_keyword_consumes by simp
  next
    assume "parse_atom c s = parse_symbol s"
    then show ?thesis using assms parse_symbol_consumes by simp
  next
    assume "parse_atom c s = parse_integer s"
    then show ?thesis using assms parse_integer_consumes by simp
  qed
  then show "p_fuel s' = p_fuel s" "sexpr_size e = 1" "length (p_rest s') < length (p_rest s)"
    by (auto simp: consumes_atom_def)
qed

lemma string_body_no_fuel_error: "string_body r q acc \<noteq> Inl (FuelExhausted p)"
  by (induction r q acc rule: string_body.induct) (auto split: list.splits)

lemma atom_parsers_no_fuel_error:
  "parse_string s \<noteq> Inl (FuelExhausted p)"
  "parse_bool s \<noteq> Inl (FuelExhausted p)"
  "parse_keyword s \<noteq> Inl (FuelExhausted p)"
  "parse_symbol s \<noteq> Inl (FuelExhausted p)"
  "parse_integer s \<noteq> Inl (FuelExhausted p)"
  subgoal
    using string_body_no_fuel_error by (auto simp: parse_string_def split: sum.splits)
  subgoal by (simp add: parse_bool_def split: list.split)
  subgoal by (simp add: parse_keyword_def Let_def)
  subgoal by (simp add: parse_symbol_def Let_def)
  subgoal by (simp add: parse_integer_def split: option.split)
  done

lemma parse_atom_no_fuel_error: "parse_atom c s \<noteq> Inl (FuelExhausted p)"
  using parse_atom_cases [of c s] atom_parsers_no_fuel_error [of s p] by metis

lemma parse_fuel_decreases:
  "parse_expr_parse_list_loop_dom (Inl s) \<Longrightarrow> parse_expr s = Inr (e, s') \<Longrightarrow> p_fuel s' < p_fuel s"
  "parse_expr_parse_list_loop_dom (Inr (s, items)) \<Longrightarrow>
     parse_list_loop s items = Inr (e, s') \<Longrightarrow> p_fuel s' \<le> p_fuel s"
proof (induction s and s items arbitrary: e s' and e s'
    rule: parse_expr_parse_list_loop.pinduct)
  case (1 s0)
  show ?case
    using "1.prems" "1.IH"
    by (auto simp: parse_expr.psimps [OF "1.hyps"] Let_def
        split: if_splits list.splits dest!: parse_atom_ok(1))
       fastforce+
next
  case (2 s0 items)
  show ?case
    using "2.prems" "2.IH"
    by (auto simp: parse_list_loop.psimps [OF "2.hyps"] Let_def
        split: if_splits list.splits sum.splits prod.splits) force
qed

termination parse_expr
proof (relation "measures [\<lambda>x. case x of Inl s \<Rightarrow> p_fuel s | Inr (s, _) \<Rightarrow> p_fuel s,
      \<lambda>x. case x of Inl _ \<Rightarrow> 0 | Inr _ \<Rightarrow> 1]", goal_cases)
  case (4 s0 items x c cs y item s')
  then show ?case using parse_fuel_decreases(1) by fastforce
qed auto

section \<open>Entry points\<close>

definition parse_with_fuel :: "string \<Rightarrow> nat option \<Rightarrow> (parse_error, sexpr) result" where
  "parse_with_fuel input f =
     (case parse_expr (skip_whitespace (new_state input f)) of
        Inl e \<Rightarrow> Inl e
      | Inr (expr, s) \<Rightarrow>
          (let s' = skip_whitespace s
           in if p_rest s' \<noteq> []
              then Inl (UnexpectedChar (p_pos s') (first_scalar (p_rest s')) ''end of input'')
              else Inr expr))"

definition parse :: "string \<Rightarrow> (parse_error, sexpr) result" where
  "parse input = parse_with_fuel input None"

declare parse_expr.simps [simp del] parse_list_loop.simps [simp del]

section \<open>Fuel accounting\<close>

lemma parse_expr_cases:
  assumes "parse_expr s0 = Inr (e, s')"
  obtains (list) cs where "0 < p_fuel s0" "skip_ws (p_rest s0) = CHR ''('' # cs"
      "parse_list_loop (moved (skip_whitespace (s0\<lparr>p_fuel := p_fuel s0 - 1\<rparr>)) cs) [] = Inr (e, s')"
  | (atom) c cs where "0 < p_fuel s0" "skip_ws (p_rest s0) = c # cs"
      "parse_atom c (skip_whitespace (s0\<lparr>p_fuel := p_fuel s0 - 1\<rparr>)) = Inr (e, s')"
  using assms
  by (simp add: parse_expr.simps [of s0] Let_def split: if_splits list.splits)

lemma parse_list_loop_cases:
  assumes "parse_list_loop s0 items = Inr (e, s')"
  obtains (close) cs where "skip_ws (p_rest s0) = CHR '')'' # cs" "e = List items"
      "s' = moved (skip_whitespace s0) cs"
  | (item) c cs x s1 where "skip_ws (p_rest s0) = c # cs" "c \<noteq> CHR '')''"
      "parse_expr (skip_whitespace s0) = Inr (x, s1)"
      "parse_list_loop s1 (items @ [x]) = Inr (e, s')"
  using assms
  by (auto simp: parse_list_loop.simps [of s0] Let_def
      split: if_splits list.splits sum.splits prod.splits)

text \<open>Every successful run spends exactly one unit of fuel per node of the tree it returns.\<close>

lemma parse_fuel_exact:
  "parse_expr s = Inr (e, s') \<Longrightarrow> p_fuel s = p_fuel s' + sexpr_size e"
  "parse_list_loop s items = Inr (e, s') \<Longrightarrow>
     p_fuel s + sum_list (map sexpr_size items) + 1 = p_fuel s' + sexpr_size e"
proof (induction s and s items arbitrary: e s' and e s' rule: parse_expr_parse_list_loop.induct)
  case (1 s0)
  from "1.prems" show ?case
  proof (cases rule: parse_expr_cases)
    case (list cs)
    then show ?thesis using "1.IH" [OF _ refl, of _ cs] by fastforce
  next
    case (atom c cs)
    then show ?thesis using parse_atom_ok [OF atom(3)] by simp
  qed
next
  case (2 s0 items)
  from "2.prems" show ?case
  proof (cases rule: parse_list_loop_cases)
    case (close cs)
    then show ?thesis by simp
  next
    case (item c cs x s1)
    then show ?thesis
      using "2.IH"(1) [OF refl _ _ item(3)] "2.IH"(2) [OF refl _ _ item(3) refl item(4)]
      by fastforce
  qed
qed

lemma parse_fuel_decreasing:
  "parse_expr s = Inr (e, s') \<Longrightarrow> p_fuel s' \<le> p_fuel s"
  "parse_list_loop s items = Inr (e, s') \<Longrightarrow> p_fuel s' \<le> p_fuel s"
proof (induction s and s items arbitrary: e s' and e s' rule: parse_expr_parse_list_loop.induct)
  case (1 s0)
  then show ?case using parse_fuel_exact(1) by simp
next
  case (2 s0 items)
  from "2.prems" show ?case
  proof (cases rule: parse_list_loop_cases)
    case (close cs)
    then show ?thesis by simp
  next
    case (item c cs x s1)
    then show ?thesis
      using "2.IH"(1) [OF refl _ _ item(3)] "2.IH"(2) [OF refl _ _ item(3) refl item(4)]
      by fastforce
  qed
qed

lemma skip_ws_length: "length (skip_ws s) \<le> length s"
  by (induction s rule: skip_ws.induct)
     (auto intro: le_SucI order_trans [OF _ skip_comment_length])

text \<open>Each unit of fuel pays for at least one byte of input.\<close>

lemma parse_consumes:
  "parse_expr s = Inr (e, s') \<Longrightarrow> length (p_rest s') + p_fuel s \<le> length (p_rest s) + p_fuel s'"
  "parse_list_loop s items = Inr (e, s') \<Longrightarrow>
     length (p_rest s') + p_fuel s \<le> length (p_rest s) + p_fuel s'"
proof (induction s and s items arbitrary: e s' and e s' rule: parse_expr_parse_list_loop.induct)
  case (1 s0)
  note len = skip_ws_length [of "p_rest s0"]
  from "1.prems" show ?case
  proof (cases rule: parse_expr_cases)
    case (list cs)
    then show ?thesis using "1.IH" [OF _ refl, of _ cs] len by fastforce
  next
    case (atom c cs)
    then show ?thesis using parse_atom_ok [OF atom(3)] len by fastforce
  qed
next
  case (2 s0 items)
  note len = skip_ws_length [of "p_rest s0"]
  from "2.prems" show ?case
  proof (cases rule: parse_list_loop_cases)
    case (close cs)
    then show ?thesis using len by simp
  next
    case (item c cs x s1)
    then show ?thesis
      using "2.IH"(1) [OF refl _ _ item(3)] "2.IH"(2) [OF refl _ _ item(3) refl item(4)] len
      by fastforce
  qed
qed

lemma parse_expr_unfold:
  assumes "0 < p_fuel s0" "s = skip_whitespace (s0\<lparr>p_fuel := p_fuel s0 - 1\<rparr>)" "p_rest s = c # cs"
  shows "parse_expr s0 =
    (if c = CHR ''('' then parse_list_loop (moved s cs) [] else parse_atom c s)"
  using assms by (simp add: parse_expr.simps [of s0])

lemma parse_enough_fuel:
  "length (p_rest s) \<le> p_fuel s \<Longrightarrow> 0 < p_fuel s \<Longrightarrow> parse_expr s \<noteq> Inl (FuelExhausted p)"
  "length (p_rest s) \<le> p_fuel s \<Longrightarrow> parse_list_loop s items \<noteq> Inl (FuelExhausted p)"
proof (induction s and s items rule: parse_expr_parse_list_loop.induct)
  case (1 s0)
  define s where "s = skip_whitespace (s0\<lparr>p_fuel := p_fuel s0 - 1\<rparr>)"
  have len: "length (p_rest s) \<le> length (p_rest s0)" "p_fuel s = p_fuel s0 - 1"
    using skip_ws_length [of "p_rest s0"] by (auto simp: s_def)
  show ?case
  proof (cases "p_rest s")
    case Nil
    then show ?thesis using "1.prems" by (simp add: parse_expr.simps [of s0] s_def)
  next
    case (Cons c cs)
    then show ?thesis
      using "1.IH" [OF _ s_def Cons] "1.prems" len parse_atom_no_fuel_error [of c s p]
        parse_expr_unfold [OF _ s_def Cons]
      by simp
  qed
next
  case (2 s0 items)
  define s where "s = skip_whitespace s0"
  have len: "length (p_rest s) \<le> p_fuel s"
    using skip_ws_length [of "p_rest s0"] "2.prems" by (simp add: s_def)
  show ?case
  proof (cases "p_rest s")
    case Nil
    then show ?thesis by (simp add: parse_list_loop.simps [of s0] s_def)
  next
    case (Cons c cs)
    have expr: "parse_expr s \<noteq> Inl (FuelExhausted p)" if "c \<noteq> CHR '')''"
      using "2.IH"(1) [OF s_def Cons that] len Cons by simp
    have loop: "parse_list_loop s1 (items @ [x]) \<noteq> Inl (FuelExhausted p)"
      if "c \<noteq> CHR '')''" "parse_expr s = Inr (x, s1)" for x s1
      using "2.IH"(2) [OF s_def Cons that refl] parse_consumes(1) [OF that(2)] len by simp
    show ?thesis
      using expr loop Cons
      by (auto simp: parse_list_loop.simps [of s0] s_def Let_def split: sum.splits if_splits)
  qed
qed

section \<open>Parsing serialized expressions\<close>

text \<open>
  The trees whose serialization the wire grammar can express: a symbol is a non-empty run of
  symbol characters that does not start like a number, a keyword a non-empty run of symbol
  characters, and a number an \<open>i64\<close>. Strings are arbitrary.
\<close>

definition wf_symbol :: "string \<Rightarrow> bool" where
  "wf_symbol s \<longleftrightarrow> s \<noteq> [] \<and> list_all is_symbol_char s \<and> \<not> is_ascii_digit (hd s)
     \<and> \<not> (hd s = CHR ''-'' \<and> tl s \<noteq> [] \<and> is_ascii_digit (hd (tl s)))"

definition wf_keyword :: "string \<Rightarrow> bool" where
  "wf_keyword s \<longleftrightarrow> s \<noteq> [] \<and> list_all is_symbol_char s"

definition wf_atom :: "atom \<Rightarrow> bool" where
  "wf_atom a = (case a of
       Symbol s \<Rightarrow> wf_symbol s
     | Keyword s \<Rightarrow> wf_keyword s
     | Num n \<Rightarrow> in_i64 n
     | Str _ \<Rightarrow> True
     | Bool _ \<Rightarrow> True)"

fun wf_sexpr :: "sexpr \<Rightarrow> bool" where
  "wf_sexpr (Atom a) = wf_atom a"
| "wf_sexpr (List items) = list_all wf_sexpr items"

text \<open>What may follow an expression in serialized text.\<close>

definition delimited :: "string \<Rightarrow> bool" where
  "delimited t \<longleftrightarrow> (case t of [] \<Rightarrow> True | c # _ \<Rightarrow> c = CHR '' '' \<or> c = CHR '')'')"

lemma takeWhile_delimited:
  assumes "list_all P s" "delimited t" "\<not> P CHR '' ''" "\<not> P CHR '')''"
  shows "takeWhile P (s @ t) = s" "dropWhile P (s @ t) = t"
proof -
  have t: "takeWhile P t = [] \<and> dropWhile P t = t"
    using assms(2-4) by (auto simp: delimited_def split: list.splits)
  show "takeWhile P (s @ t) = s" "dropWhile P (s @ t) = t"
    using assms(1) t by (induction s) auto
qed

lemma symbol_char_delim [simp]: "\<not> is_symbol_char CHR '' ''" "\<not> is_symbol_char CHR '')''"
  by (simp_all add: is_symbol_char_def is_ascii_alphanumeric_def is_ascii_alphabetic_def
      is_ascii_digit_def)

lemma int_char_delim [simp]: "\<not> is_int_char CHR '' ''" "\<not> is_int_char CHR '')''"
  by (simp_all add: is_int_char_def is_ascii_digit_def)

lemma string_body_escape: "string_body (escape_char c @ s) p acc =
    string_body s (p + length (escape_char c)) (acc @ [c])"
  by (auto simp: escape_char_def)

lemma string_body_serialized:
  "string_body (concat (map escape_char s) @ CHR 0x22 # t) p acc = Inr (acc @ s, t)"
  by (induction s arbitrary: p acc) (simp_all add: string_body_escape)

lemma show_int_chars: "list_all is_int_char (show_int n)"
  using show_nat_digits [of "nat n"] show_nat_digits [of "nat (- n)"]
  by (auto simp: show_int_def is_int_char_def list_all_iff)

lemma parse_integer_display:
  assumes "in_i64 n" "p_rest s = show_int n @ t" "delimited t"
  shows "\<exists>s'. parse_integer s = Inr (Atom (Num n), s') \<and> p_rest s' = t"
  using takeWhile_delimited [OF show_int_chars [of n] assms(3)] assms
  by (simp add: parse_integer_def parse_i64_show_int)

lemma show_int_head:
  obtains (neg) d ds where "show_int n = CHR ''-'' # d # ds" "is_ascii_digit d"
  | (p_pos) d ds where "show_int n = d # ds" "is_ascii_digit d"
proof (cases "n < 0")
  case True
  obtain d ds where "show_nat (nat (- n)) = d # ds" by (cases "show_nat (nat (- n))") auto
  then show ?thesis
    using neg True show_nat_hd [of "nat (- n)"] by (simp add: show_int_def)
next
  case False
  obtain d ds where "show_nat (nat n) = d # ds" by (cases "show_nat (nat n)") auto
  then show ?thesis
    using p_pos False show_nat_hd [of "nat n"] by (simp add: show_int_def)
qed

lemma parse_number_display:
  assumes "in_i64 n" "p_rest s = show_int n @ t" "delimited t"
  shows "\<exists>s'. parse_number_or_symbol s = Inr (Atom (Num n), s') \<and> p_rest s' = t"
proof -
  have "parse_number_or_symbol s = parse_integer s"
    using assms(2)
    by (cases rule: show_int_head [of n]) (auto simp: parse_number_or_symbol_def split: list.splits)
  then show ?thesis using parse_integer_display [OF assms] by simp
qed

lemma parse_symbol_display:
  assumes "wf_symbol name" "p_rest s = name @ t" "delimited t"
  shows "\<exists>s'. parse_symbol s = Inr (Atom (Symbol name), s') \<and> p_rest s' = t"
  using takeWhile_delimited [of is_symbol_char name t] assms
  by (simp add: parse_symbol_def wf_symbol_def Let_def)

lemma delimited_not_digit: "delimited (d # t) \<Longrightarrow> \<not> is_ascii_digit d"
  by (auto simp: delimited_def is_ascii_digit_def)

lemma parse_minus_symbol_display:
  assumes "wf_symbol name" "p_rest s = name @ t" "delimited t" "hd name = CHR ''-''"
  shows "parse_number_or_symbol s = parse_symbol s"
proof -
  obtain ds where name: "name = CHR ''-'' # ds" using assms by (cases name) (auto simp: wf_symbol_def)
  have "\<not> is_ascii_digit d" if "ds @ t = d # r" for d r
    using assms that delimited_not_digit
    by (cases ds) (auto simp: name wf_symbol_def)
  then show ?thesis
    using assms(2) by (auto simp: parse_number_or_symbol_def name split: list.splits)
qed

lemma symbol_char_special [simp]:
  "\<not> is_symbol_char CHR 0x22" "\<not> is_symbol_char CHR ''#''" "\<not> is_symbol_char CHR '':''"
  "\<not> is_symbol_char CHR ''(''" "\<not> is_symbol_char CHR '';''"
  by (simp_all add: is_symbol_char_def is_ascii_alphanumeric_def is_ascii_alphabetic_def
      is_ascii_digit_def)

lemma digit_special [simp]:
  "\<not> is_ascii_digit CHR 0x22" "\<not> is_ascii_digit CHR ''#''" "\<not> is_ascii_digit CHR '':''"
  "\<not> is_ascii_digit CHR ''(''" "\<not> is_ascii_digit CHR '';''" "\<not> is_ascii_digit CHR '')''"
  by (simp_all add: is_ascii_digit_def)

lemma wf_symbol_head:
  assumes "wf_symbol name"
  obtains c cs where "name = c # cs" "is_symbol_char c" "\<not> is_ascii_digit c"
  using assms by (cases name) (auto simp: wf_symbol_def)

lemma parse_atom_symbol_display:
  assumes "wf_symbol name" "p_rest s = name @ t" "delimited t"
  shows "\<exists>s'. parse_atom (hd name) s = Inr (Atom (Symbol name), s') \<and> p_rest s' = t"
proof -
  obtain c cs where name: "name = c # cs" "is_symbol_char c" "\<not> is_ascii_digit c"
    using assms(1) by (rule wf_symbol_head)
  then have "c \<noteq> CHR 0x22" "c \<noteq> CHR ''#''" "c \<noteq> CHR '':''" by auto
  then have "parse_atom (hd name) s = parse_symbol s"
    using name parse_minus_symbol_display [OF assms] by (simp add: parse_atom_def)
  then show ?thesis using parse_symbol_display [OF assms] by simp
qed

lemma parse_atom_display:
  assumes "wf_atom a" "p_rest s = display_atom a @ t" "delimited t"
  shows "\<exists>s'. parse_atom (hd (display_atom a)) s = Inr (Atom a, s') \<and> p_rest s' = t"
proof (cases a)
  case (Symbol name)
  then show ?thesis
    using parse_atom_symbol_display [of name s t] assms by (simp add: wf_atom_def display_atom_def)
next
  case (Str str)
  then show ?thesis
    using assms string_body_serialized [of str t "p_pos s + 1" "[]"]
    by (simp add: display_atom_def parse_atom_def parse_string_def)
next
  case (Num n)
  have "parse_atom (hd (show_int n)) s = parse_number_or_symbol s"
    by (cases rule: show_int_head [of n]) (auto simp: parse_atom_def)
  then show ?thesis
    using parse_number_display [of n s t] assms Num by (simp add: wf_atom_def display_atom_def)
next
  case (Bool b)
  then show ?thesis
    using assms by (cases b) (simp_all add: display_atom_def parse_atom_def parse_bool_def)
next
  case (Keyword k)
  then show ?thesis
    using assms takeWhile_delimited [of is_symbol_char k t]
    by (simp add: display_atom_def parse_atom_def parse_keyword_def wf_atom_def wf_keyword_def Let_def)
qed

text \<open>A serialized expression starts with a character that is neither skipped nor closes a list.\<close>

definition plain_start :: "char \<Rightarrow> bool" where
  "plain_start c \<longleftrightarrow> \<not> is_ascii_whitespace c \<and> c \<noteq> CHR '';'' \<and> c \<noteq> CHR '')''"

lemma symbol_char_plain: "is_symbol_char c \<Longrightarrow> plain_start c"
  by (auto simp: plain_start_def is_ascii_whitespace_def is_symbol_char_def
      is_ascii_alphanumeric_def is_ascii_alphabetic_def is_ascii_digit_def)

lemma digit_symbol_char: "is_ascii_digit c \<Longrightarrow> is_symbol_char c"
  by (simp add: is_symbol_char_def is_ascii_alphanumeric_def)

lemma plain_start_special [simp]:
  "plain_start CHR 0x22" "plain_start CHR ''#''" "plain_start CHR '':''" "plain_start CHR ''(''"
  "plain_start CHR ''-''"
  by (simp_all add: plain_start_def is_ascii_whitespace_def)

lemma display_start:
  assumes "wf_sexpr e"
  obtains c cs where "display_sexpr e = c # cs" "plain_start c"
proof (cases e)
  case (List items)
  then show ?thesis using that by simp
next
  case (Atom a)
  show ?thesis
  proof (cases a)
    case (Symbol name)
    then show ?thesis
      using that Atom assms by (auto simp: wf_atom_def display_atom_def elim!: wf_symbol_head
          intro: symbol_char_plain)
  next
    case (Num n)
    then show ?thesis
      using that Atom
      by (cases rule: show_int_head [of n])
         (auto simp: display_atom_def intro: symbol_char_plain digit_symbol_char)
  next
    case (Bool b)
    then show ?thesis using that Atom by (cases b) (auto simp: display_atom_def)
  qed (use that Atom in \<open>auto simp: display_atom_def\<close>)
qed

lemma skip_ws_plain: "plain_start c \<Longrightarrow> skip_ws (c # cs) = c # cs"
  by (simp add: plain_start_def)

lemma skip_ws_display: "wf_sexpr e \<Longrightarrow> skip_ws (display_sexpr e @ t) = display_sexpr e @ t"
  by (erule display_start) (simp add: plain_start_def)

lemma parse_list_loop_display:
  assumes items: "\<And>e s t. e \<in> set es \<Longrightarrow> p_rest s = display_sexpr e @ t \<Longrightarrow> delimited t \<Longrightarrow>
      sexpr_size e \<le> p_fuel s \<Longrightarrow> \<exists>s'. parse_expr s = Inr (e, s') \<and> p_rest s' = t"
    and wf: "list_all wf_sexpr es"
    and p_rest: "skip_ws (p_rest s) = skip_ws (separated (map display_sexpr es) @ CHR '')'' # t)"
    and p_fuel: "sum_list (map sexpr_size es) \<le> p_fuel s"
  shows "\<exists>s'. parse_list_loop s acc = Inr (List (acc @ es), s') \<and> p_rest s' = t"
  using assms
proof (induction es arbitrary: s acc)
  case Nil
  then show ?case by (simp add: parse_list_loop.simps [of s] is_ascii_whitespace_def)
next
  case (Cons e es)
  define r where "r = spaced (map display_sexpr es) @ CHR '')'' # t"
  have wf: "wf_sexpr e" "list_all wf_sexpr es" using Cons.prems(2) by auto
  have s: "p_rest (skip_whitespace s) = display_sexpr e @ r"
    using Cons.prems(3) skip_ws_display [OF wf(1)] by (simp add: separated_Cons r_def)
  have "delimited r"
    by (cases es) (auto simp: r_def delimited_def spaced_def)
  with Cons.prems(1) [of e "skip_whitespace s" r] s Cons.prems(4) obtain s1
    where s1: "parse_expr (skip_whitespace s) = Inr (e, s1)" "p_rest s1 = r" by auto
  have "skip_ws (p_rest s1) = skip_ws (separated (map display_sexpr es) @ CHR '')'' # t)"
    by (cases es) (auto simp: s1 r_def spaced_def separated_Cons is_ascii_whitespace_def)
  moreover have "sum_list (map sexpr_size es) \<le> p_fuel s1"
    using parse_fuel_exact(1) [OF s1(1)] Cons.prems(4) by simp
  ultimately obtain s' where
    "parse_list_loop s1 (acc @ [e]) = Inr (List (acc @ e # es), s')" "p_rest s' = t"
    using Cons.IH [of s1 "acc @ [e]"] Cons.prems(1) wf(2) by fastforce
  moreover obtain c cs where "display_sexpr e = c # cs" "plain_start c"
    using wf(1) by (rule display_start)
  ultimately show ?case
    using s s1(1) by (simp add: parse_list_loop.simps [of s] plain_start_def)
qed

lemma parse_expr_display:
  "wf_sexpr e \<Longrightarrow> p_rest s = display_sexpr e @ t \<Longrightarrow> delimited t \<Longrightarrow> sexpr_size e \<le> p_fuel s \<Longrightarrow>
     \<exists>s'. parse_expr s = Inr (e, s') \<and> p_rest s' = t"
proof (induction e arbitrary: s t)
  case (Atom a)
  define s1 where "s1 = skip_whitespace (s\<lparr>p_fuel := p_fuel s - 1\<rparr>)"
  have r: "p_rest s1 = display_atom a @ t"
    using skip_ws_display [OF Atom.prems(1), of t] Atom.prems(2) by (simp add: s1_def)
  obtain c cs where d: "display_atom a = c # cs" "plain_start c"
    using display_start [OF Atom.prems(1)] by auto
  have "c \<noteq> CHR ''(''"
    using Atom.prems(1) d(1)
    by (cases a; cases rule: show_int_head [of "case a of Num n \<Rightarrow> n | _ \<Rightarrow> 0"])
       (auto simp: display_atom_def wf_atom_def elim!: wf_symbol_head split: if_splits)
  then have "parse_expr s = parse_atom c s1"
    using parse_expr_unfold [OF _ s1_def, of c "cs @ t"] r d(1) Atom.prems(4) by simp
  then show ?case
    using parse_atom_display [of a s1 t] r d(1) Atom.prems by simp
next
  case (List items)
  define s1 where "s1 = skip_whitespace (s\<lparr>p_fuel := p_fuel s - 1\<rparr>)"
  define body where "body = separated (map display_sexpr items) @ CHR '')'' # t"
  have r: "p_rest s1 = CHR ''('' # body"
    using skip_ws_display [OF List.prems(1), of t] List.prems(2) by (simp add: s1_def body_def)
  have "parse_expr s = parse_list_loop (moved s1 body) []"
    using parse_expr_unfold [OF _ s1_def r] List.prems(4) by simp
  moreover have "\<exists>s'. parse_list_loop (moved s1 body) [] = Inr (List ([] @ items), s') \<and> p_rest s' = t"
  proof (rule parse_list_loop_display)
    show "list_all wf_sexpr items" using List.prems(1) by simp
    show "skip_ws (p_rest (moved s1 body)) =
        skip_ws (separated (map display_sexpr items) @ CHR '')'' # t)"
      by (simp add: body_def)
    show "sum_list (map sexpr_size items) \<le> p_fuel (moved s1 body)"
      using List.prems(4) by (simp add: s1_def)
  qed (use List.IH List.prems(1) in \<open>auto simp: list_all_iff\<close>)
  ultimately show ?case by simp
qed

lemma size_le_display: "wf_sexpr e \<Longrightarrow> sexpr_size e \<le> length (display_sexpr e)"
proof (induction e)
  case (Atom a)
  then show ?case using display_start [OF Atom.prems] by fastforce
next
  case (List items)
  have "sum_list (map sexpr_size items) \<le> length (separated (map display_sexpr items))"
    using List
  proof (induction items)
    case (Cons x xs)
    then show ?case by (cases xs) fastforce+
  qed simp
  then show ?case by simp
qed

section \<open>Changing the fuel\<close>

abbreviation with_fuel :: "parser_state \<Rightarrow> nat \<Rightarrow> parser_state" where
  "with_fuel s m \<equiv> s\<lparr>p_fuel := m\<rparr>"

lemma moved_with_fuel [simp]: "moved (with_fuel s m) r = with_fuel (moved s r) m"
  by (simp add: moved_def)

lemma skip_whitespace_with_fuel [simp]:
  "skip_whitespace (with_fuel s m) = with_fuel (skip_whitespace s) m"
  by (simp add: skip_whitespace_def)

lemma parse_atom_with_fuel:
  assumes "parse_atom c s = Inr (e, s')"
  shows "parse_atom c (with_fuel s m) = Inr (e, with_fuel s' m)"
proof -
  have sym: "parse_symbol s = Inr (e, s') \<Longrightarrow> parse_symbol (with_fuel s m) = Inr (e, with_fuel s' m)"
    by (auto simp: parse_symbol_def Let_def split: if_splits)
  have int: "parse_integer s = Inr (e, s') \<Longrightarrow>
      parse_integer (with_fuel s m) = Inr (e, with_fuel s' m)"
    by (auto simp: parse_integer_def split: option.splits)
  have num: "parse_number_or_symbol s = Inr (e, s') \<Longrightarrow>
      parse_number_or_symbol (with_fuel s m) = Inr (e, with_fuel s' m)"
    using sym int by (auto simp: parse_number_or_symbol_def split: list.splits if_splits)
  have str: "parse_string s = Inr (e, s') \<Longrightarrow> parse_string (with_fuel s m) = Inr (e, with_fuel s' m)"
    by (auto simp: parse_string_def split: sum.splits)
  have bool: "parse_bool s = Inr (e, s') \<Longrightarrow> parse_bool (with_fuel s m) = Inr (e, with_fuel s' m)"
    by (auto simp: parse_bool_def split: list.splits if_splits)
  have kw: "parse_keyword s = Inr (e, s') \<Longrightarrow> parse_keyword (with_fuel s m) = Inr (e, with_fuel s' m)"
    by (auto simp: parse_keyword_def Let_def split: if_splits)
  show ?thesis
    using assms sym num str bool kw by (auto simp: parse_atom_def split: if_splits)
qed

lemma parse_refuel:
  "parse_expr s = Inr (e, s') \<Longrightarrow>
     parse_expr (with_fuel s (m + sexpr_size e)) = Inr (e, with_fuel s' m)"
  "parse_list_loop s items = Inr (e, s') \<Longrightarrow>
     parse_list_loop (with_fuel s (m + sexpr_size e - 1 - sum_list (map sexpr_size items))) items
       = Inr (e, with_fuel s' m)"
proof (induction s and s items arbitrary: e s' m and e s' m
    rule: parse_expr_parse_list_loop.induct)
  case (1 s0)
  have p_pos: "0 < p_fuel (with_fuel s0 (m + sexpr_size e))" by simp
  from "1.prems" show ?case
  proof (cases rule: parse_expr_cases)
    case (list cs)
    have "parse_list_loop (with_fuel (moved (skip_whitespace (with_fuel s0 (p_fuel s0 - 1))) cs)
        (m + sexpr_size e - 1 - 0)) [] = Inr (e, with_fuel s' m)"
      using "1.IH" [OF _ refl, of _ cs] list by fastforce
    then show ?thesis
      using parse_expr_unfold [OF p_pos refl, of "CHR ''(''" cs] list(2) by simp
  next
    case (atom c cs)
    have "c \<noteq> CHR ''(''"
      using atom(3) parse_symbol_def [of "skip_whitespace (with_fuel s0 (p_fuel s0 - 1))"] atom(2)
      by (auto simp: parse_atom_def)
    moreover have "sexpr_size e = 1"
      using parse_atom_ok(2) [OF atom(3)] atom(2) by simp
    ultimately show ?thesis
      using parse_expr_unfold [OF p_pos refl, of c cs] atom(2) parse_atom_with_fuel [OF atom(3), of m]
      by simp
  qed
next
  case (2 s0 items)
  from "2.prems" show ?case
  proof (cases rule: parse_list_loop_cases)
    case (close cs)
    then show ?thesis by (simp add: parse_list_loop.simps [of "with_fuel s0 _"])
  next
    case (item c cs x s1)
    define k where "k = m + sexpr_size e - 1 - sum_list (map sexpr_size (items @ [x]))"
    have "sum_list (map sexpr_size (items @ [x])) + 1 \<le> sexpr_size e"
      using parse_fuel_exact(2) [OF item(4)] parse_fuel_decreasing(2) [OF item(4)] by simp
    then have k: "m + sexpr_size e - 1 - sum_list (map sexpr_size items) = k + sexpr_size x"
      by (simp add: k_def)
    have "parse_expr (with_fuel (skip_whitespace s0) (k + sexpr_size x)) = Inr (x, with_fuel s1 k)"
      using "2.IH"(1) [OF refl _ _ item(3)] item by simp
    moreover have "parse_list_loop (with_fuel s1 k) (items @ [x]) = Inr (e, with_fuel s' m)"
      using "2.IH"(2) [OF refl _ _ item(3) refl item(4)] item unfolding k_def by fastforce
    ultimately show ?thesis
      using item(1,2) unfolding k by (simp add: parse_list_loop.simps [of "with_fuel s0 _"])
  qed
qed

lemma parse_of_serialize:
  assumes "wf_sexpr e"
  shows "parse (serialize e) = Inr e"
proof -
  define s where "s = skip_whitespace (new_state (serialize e) None)"
  have "p_rest s = display_sexpr e @ []"
    using skip_ws_display [OF assms, of "[]"]
    by (simp add: s_def new_state_def serialize_eq_display_sexpr)
  moreover have "sexpr_size e \<le> p_fuel s"
    using size_le_display [OF assms] by (simp add: s_def new_state_def serialize_eq_display_sexpr)
  ultimately obtain s' where "parse_expr s = Inr (e, s')" "p_rest s' = []"
    using parse_expr_display [OF assms, of s "[]"] by (auto simp: delimited_def)
  then show ?thesis by (simp add: parse_def parse_with_fuel_def s_def)
qed

section \<open>Properties of the wire parser\<close>

text \<open>C1: the wire parser inverts the canonical serializer on every tree whose symbols, keywords
  and numbers the grammar can write; strings may hold arbitrary bytes.\<close>

theorem parse_serialize:
  assumes "wf_sexpr e"
  shows "parse (serialize e) = Inr e"
  using assms by (rule parse_of_serialize)

definition sample_sexpr :: sexpr where
  "sample_sexpr = List [Atom (Symbol ''tell''), Atom (Symbol ''@bob''),
     Atom (Str [CHR 0x22, CHR 0x0A, CHR 0xC3, CHR 0xA9]), Atom (Keyword ''n''), Atom (Num (- 7)),
     List [], Atom (Bool True)]"

theorem parse_serialize_witness:
  "wf_sexpr sample_sexpr \<and> parse (serialize sample_sexpr) = Inr sample_sexpr"
proof -
  have "wf_sexpr sample_sexpr" by code_simp
  then show ?thesis using parse_serialize by blast
qed

text \<open>C4: with its default fuel (the byte length of the input, at least one) the parser never
  reports fuel exhaustion: the bound costs no input its parse.\<close>

theorem parse_never_exhausts_fuel: "parse input \<noteq> Inl (FuelExhausted p)"
proof -
  define s where "s = skip_whitespace (new_state input None)"
  have "length (p_rest s) \<le> p_fuel s" "0 < p_fuel s"
    using skip_ws_length [of input] by (auto simp: s_def new_state_def)
  then have "parse_expr s \<noteq> Inl (FuelExhausted p)"
    by (rule parse_enough_fuel(1))
  then show ?thesis
    by (auto simp: parse_def parse_with_fuel_def Let_def s_def split: sum.splits)
qed

text \<open>Fuel is exactly a bound on the size of the tree: an accepted input is accepted with an
  explicit fuel limit, with the same tree, precisely when the limit is at least the number of
  nodes, and that number never exceeds the byte length of the input.\<close>

lemma parse_with_fuel_iff_size:
  assumes "parse input = Inr e"
  shows "(parse_with_fuel input (Some n) = Inr e \<longleftrightarrow> sexpr_size e \<le> n)
     \<and> sexpr_size e \<le> length input"
proof -
  define s where "s = skip_whitespace (new_state input None)"
  have s_n: "skip_whitespace (new_state input (Some n)) = with_fuel s n"
    by (simp add: s_def new_state_def flip: skip_whitespace_with_fuel)
  obtain s' where run: "parse_expr s = Inr (e, s')" and "skip_ws (p_rest s') = []"
    using assms by (auto simp: parse_def parse_with_fuel_def s_def Let_def
        split: sum.splits if_splits)
  then have le: "parse_with_fuel input (Some n) = Inr e" if "sexpr_size e \<le> n"
    using parse_refuel(1) [OF run, of "n - sexpr_size e"] that
    by (simp add: parse_with_fuel_def s_n)
  moreover have "sexpr_size e \<le> n" if "parse_with_fuel input (Some n) = Inr e"
    using that parse_fuel_exact(1) [of "with_fuel s n" e]
    by (auto simp: parse_with_fuel_def s_n Let_def split: sum.splits if_splits)
  moreover have "sexpr_size e \<le> length input"
    using parse_consumes(1) [OF run] parse_fuel_exact(1) [OF run] skip_ws_length [of input]
    by (simp add: s_def new_state_def)
  ultimately show ?thesis by blast
qed

lemma parse_with_fuel_iff_size_witness:
  "parse ''(a (b 1))'' = Inr (List [Atom (Symbol ''a''), List [Atom (Symbol ''b''), Atom (Num 1)]])
   \<and> parse_with_fuel ''(a (b 1))'' (Some 5)
       = Inr (List [Atom (Symbol ''a''), List [Atom (Symbol ''b''), Atom (Num 1)]])
   \<and> parse_with_fuel ''(a (b 1))'' (Some 4)
       \<noteq> Inr (List [Atom (Symbol ''a''), List [Atom (Symbol ''b''), Atom (Num 1)]])"
proof -
  have p: "parse ''(a (b 1))'' =
      Inr (List [Atom (Symbol ''a''), List [Atom (Symbol ''b''), Atom (Num 1)]])"
    by code_simp
  show ?thesis
    using p parse_with_fuel_iff_size [OF p, of 5] parse_with_fuel_iff_size [OF p, of 4] by simp
qed

end
