(* ===== verification/Cbcl_Message.thy ===== *)
theory Cbcl_Message
  imports Cbcl_Parser
begin

text \<open>
  The messages of \<open>cbcl-core/src/message.rs\<close>: their data, the accessors, the conversion to
  S-expressions and the recogniser \<open>TryFrom<&SExpr>\<close> with its \<open>(lang ...)\<close> scoping rule.
  The properties show that the recogniser accepts exactly the well-formed messages, that the
  two conversions are inverse on them, down to the wire bytes, and that a custom performative
  is only ever recognised under a dialect name.
\<close>

section \<open>Data\<close>

datatype caused_by = Begin | Single string | Multiple "string list"

datatype core_performative = Tell | Ask | Reply | Error | Ok | Cancel | Hello | Bye

definition core_as_str :: "core_performative \<Rightarrow> string" where
  "core_as_str c = (case c of
       Tell \<Rightarrow> ''tell'' | Ask \<Rightarrow> ''ask'' | Reply \<Rightarrow> ''reply'' | Error \<Rightarrow> ''error''
     | Ok \<Rightarrow> ''ok'' | Cancel \<Rightarrow> ''cancel'' | Hello \<Rightarrow> ''hello'' | Bye \<Rightarrow> ''bye'')"

definition core_parse :: "string \<Rightarrow> core_performative option" where
  "core_parse s =
     (if s = ''tell'' then Some Tell
      else if s = ''ask'' then Some Ask
      else if s = ''reply'' then Some Reply
      else if s = ''error'' then Some Error
      else if s = ''ok'' then Some Ok
      else if s = ''cancel'' then Some Cancel
      else if s = ''hello'' then Some Hello
      else if s = ''bye'' then Some Bye
      else None)"

definition CORE_PERFORMATIVE_NAMES :: "string list" where
  "CORE_PERFORMATIVE_NAMES =
     [''tell'', ''ask'', ''reply'', ''error'', ''ok'', ''cancel'', ''hello'', ''bye'']"

definition is_core_performative_name :: "string \<Rightarrow> bool" where
  "is_core_performative_name s \<longleftrightarrow> (s \<in> set CORE_PERFORMATIVE_NAMES)"

datatype performative = Core core_performative | Custom string

definition performative_name :: "performative \<Rightarrow> string" where
  "performative_name p = (case p of Core c \<Rightarrow> core_as_str c | Custom s \<Rightarrow> s)"

definition is_core :: "performative \<Rightarrow> bool" where
  "is_core p = (case p of Core _ \<Rightarrow> True | Custom _ \<Rightarrow> False)"

datatype recipients = One string | RSet "string btset"

definition as_single :: "recipients \<Rightarrow> string option" where
  "as_single r = (case r of One s \<Rightarrow> Some s | RSet _ \<Rightarrow> None)"

definition as_set :: "recipients \<Rightarrow> string btset" where
  "as_set r = (case r of One s \<Rightarrow> bs_insert s [] | RSet rs \<Rightarrow> bs_of_list rs)"

datatype message_type = SimpleType | MetaType | DialectType | WrappedType

datatype wrapper_type = Envelope | Signed | WithLimits | WithRoles

definition wrapper_as_str :: "wrapper_type \<Rightarrow> string" where
  "wrapper_as_str w = (case w of
       Envelope \<Rightarrow> ''envelope'' | Signed \<Rightarrow> ''signed''
     | WithLimits \<Rightarrow> ''with-limits'' | WithRoles \<Rightarrow> ''with-roles'')"

definition wrapper_parse :: "string \<Rightarrow> wrapper_type option" where
  "wrapper_parse s =
     (if s = ''envelope'' then Some Envelope
      else if s = ''signed'' then Some Signed
      else if s = ''with-limits'' then Some WithLimits
      else if s = ''with-roles'' then Some WithRoles
      else None)"

text \<open>The fields of \<open>Message::Simple\<close> and the four variants.\<close>

record simple_message =
  m_performative :: performative
  m_recipient :: "recipients option"
  m_content :: sexpr
  m_params :: "sexpr list"
  m_thread :: "string option"
  m_sender :: "string option"
  m_caused_by :: "caused_by option"

datatype message =
    Simple simple_message
  | Meta sexpr
  | Dialect string message
  | Wrapped wrapper_type "sexpr list" message

section \<open>Accessors\<close>

definition message_type :: "message \<Rightarrow> message_type" where
  "message_type m = (case m of
       Simple _ \<Rightarrow> SimpleType | Meta _ \<Rightarrow> MetaType
     | Dialect _ _ \<Rightarrow> DialectType | Wrapped _ _ _ \<Rightarrow> WrappedType)"

definition performative_of :: "message \<Rightarrow> performative option" where
  "performative_of m = (case m of Simple s \<Rightarrow> Some (m_performative s) | _ \<Rightarrow> None)"

definition recipient_of :: "message \<Rightarrow> string option" where
  "recipient_of m = (case m of
       Simple s \<Rightarrow> Option.bind (m_recipient s) as_single
     | _ \<Rightarrow> None)"

definition recipient_set :: "message \<Rightarrow> string btset" where
  "recipient_set m = (case m of
       Simple s \<Rightarrow> (case m_recipient s of Some r \<Rightarrow> as_set r | None \<Rightarrow> [])
     | _ \<Rightarrow> [])"

definition content_of :: "message \<Rightarrow> sexpr option" where
  "content_of m = (case m of Simple s \<Rightarrow> Some (m_content s) | _ \<Rightarrow> None)"

definition thread_of :: "message \<Rightarrow> string option" where
  "thread_of m = (case m of Simple s \<Rightarrow> m_thread s | _ \<Rightarrow> None)"

definition sender_of :: "message \<Rightarrow> string option" where
  "sender_of m = (case m of Simple s \<Rightarrow> m_sender s | _ \<Rightarrow> None)"

definition caused_by_of :: "message \<Rightarrow> caused_by option" where
  "caused_by_of m = (case m of Simple s \<Rightarrow> m_caused_by s | _ \<Rightarrow> None)"

definition dialect_def_of :: "message \<Rightarrow> sexpr option" where
  "dialect_def_of m = (case m of Meta d \<Rightarrow> Some d | _ \<Rightarrow> None)"

definition dialect_name_of :: "message \<Rightarrow> string option" where
  "dialect_name_of m = (case m of Dialect n _ \<Rightarrow> Some n | _ \<Rightarrow> None)"

definition inner_message :: "message \<Rightarrow> message option" where
  "inner_message m = (case m of
       Dialect _ i \<Rightarrow> Some i | Wrapped _ _ c \<Rightarrow> Some c | _ \<Rightarrow> None)"

text \<open>The loop through the wrappers, as recursion on the message.\<close>

fun innermost_simple :: "message \<Rightarrow> message option" where
  "innermost_simple (Simple s) = Some (Simple s)"
| "innermost_simple (Wrapped _ _ c) = innermost_simple c"
| "innermost_simple (Dialect _ i) = innermost_simple i"
| "innermost_simple (Meta _) = None"

definition wrapper_type_of :: "message \<Rightarrow> wrapper_type option" where
  "wrapper_type_of m = (case m of Wrapped w _ _ \<Rightarrow> Some w | _ \<Rightarrow> None)"

section \<open>From messages to S-expressions\<close>

abbreviation Sym :: "string \<Rightarrow> sexpr" where "Sym s \<equiv> Atom (Symbol s)"
abbreviation Kw :: "string \<Rightarrow> sexpr" where "Kw s \<equiv> Atom (Keyword s)"

definition BEGIN_KEYWORD :: string where "BEGIN_KEYWORD = ''begin''"

definition recipient_items :: "recipients option \<Rightarrow> sexpr list" where
  "recipient_items r = (case r of
       Some (One s) \<Rightarrow> [Sym s]
     | Some (RSet rs) \<Rightarrow> [List (map Sym rs)]
     | None \<Rightarrow> [])"

definition caused_by_value :: "caused_by \<Rightarrow> sexpr" where
  "caused_by_value cb = (case cb of
       Begin \<Rightarrow> Sym BEGIN_KEYWORD
     | Single h \<Rightarrow> Sym h
     | Multiple hs \<Rightarrow> List (map Sym hs))"

definition keyword_items :: "simple_message \<Rightarrow> sexpr list" where
  "keyword_items s =
     (case m_thread s of Some t \<Rightarrow> [Kw ''thread'', Atom (Str t)] | None \<Rightarrow> []) @
     (case m_sender s of Some t \<Rightarrow> [Kw ''sender'', Atom (Str t)] | None \<Rightarrow> []) @
     (case m_caused_by s of Some cb \<Rightarrow> [Kw ''caused-by'', caused_by_value cb] | None \<Rightarrow> [])"

fun sexpr_of_message :: "message \<Rightarrow> sexpr" where
  "sexpr_of_message (Simple s) =
     List ([Sym (performative_name (m_performative s))] @ recipient_items (m_recipient s) @
           [m_content s] @ m_params s @ keyword_items s)"
| "sexpr_of_message (Meta d) = List [Sym ''meta'', d]"
| "sexpr_of_message (Dialect n i) = List [Sym ''lang'', Sym n, sexpr_of_message i]"
| "sexpr_of_message (Wrapped w ps c) =
     List ([Sym (wrapper_as_str w)] @ ps @ [sexpr_of_message c])"

section \<open>Recognising messages\<close>

datatype message_parse_error = MessageParseError string

datatype lang_scope = Unscoped | Scoped | Lax

definition starts_with_at :: "string \<Rightarrow> bool" where
  "starts_with_at s = (case s of c # _ \<Rightarrow> c = CHR ''@'' | [] \<Rightarrow> False)"

definition is_address :: "sexpr \<Rightarrow> bool" where
  "is_address e = (case e of Atom (Symbol s) \<Rightarrow> starts_with_at s | _ \<Rightarrow> False)"

definition is_address_group :: "sexpr \<Rightarrow> bool" where
  "is_address_group e = (case e of
       Atom (Symbol s) \<Rightarrow> starts_with_at s
     | List items \<Rightarrow> items \<noteq> [] \<and> list_all is_address items
     | _ \<Rightarrow> False)"

definition symbol_text :: "sexpr \<Rightarrow> string" where
  "symbol_text e = (case e of Atom (Symbol s) \<Rightarrow> s | _ \<Rightarrow> [])"

definition extract_string_or_symbol :: "sexpr \<Rightarrow> string" where
  "extract_string_or_symbol e = (case e of
       Atom (Str s) \<Rightarrow> s
     | Atom (Symbol s) \<Rightarrow> s
     | other \<Rightarrow> display_sexpr other)"

fun caused_by_hashes :: "sexpr list \<Rightarrow> string list \<Rightarrow> (message_parse_error, string list) result" where
  "caused_by_hashes [] hashes = Inr hashes"
| "caused_by_hashes (item # items) hashes = (case item of
       Atom (Symbol s) \<Rightarrow> caused_by_hashes items (hashes @ [s])
     | Atom (Str s) \<Rightarrow> caused_by_hashes items (hashes @ [s])
     | _ \<Rightarrow> Inl (MessageParseError '':caused-by list elements must be symbols or strings''))"

definition parse_caused_by :: "sexpr \<Rightarrow> (message_parse_error, caused_by) result" where
  "parse_caused_by val = (case val of
       Atom (Symbol s) \<Rightarrow> if s = BEGIN_KEYWORD then Inr Begin else Inr (Single s)
     | Atom (Str s) \<Rightarrow> if s = BEGIN_KEYWORD then Inr Begin else Inr (Single s)
     | List items \<Rightarrow>
         if items = [] then Inl (MessageParseError '':caused-by list must not be empty'')
         else bind_result (caused_by_hashes items []) (\<lambda>hashes. Inr (Multiple (sort hashes)))
     | _ \<Rightarrow> Inl (MessageParseError
              '':caused-by value must be a symbol, string, or list of hashes''))"

text \<open>The local variables of \<open>parse_simple\<close>'s argument loop.\<close>

record simple_args =
  a_content :: "sexpr option"
  a_params :: "sexpr list"
  a_thread :: "string option"
  a_sender :: "string option"
  a_caused_by :: "caused_by option"

definition keyword_arg ::
  "string \<Rightarrow> sexpr \<Rightarrow> simple_args \<Rightarrow> (message_parse_error, simple_args) result" where
  "keyword_arg k val a =
     (if k = ''thread'' then Inr (a\<lparr>a_thread := Some (extract_string_or_symbol val)\<rparr>)
      else if k = ''sender'' then Inr (a\<lparr>a_sender := Some (extract_string_or_symbol val)\<rparr>)
      else if k = ''caused-by'' then
        bind_result (parse_caused_by val) (\<lambda>cb. Inr (a\<lparr>a_caused_by := Some cb\<rparr>))
      else Inr (a\<lparr>a_params := a_params a @ [Kw k, val]\<rparr>))"

definition positional_arg :: "sexpr \<Rightarrow> simple_args \<Rightarrow> simple_args" where
  "positional_arg x a =
     (case a_content a of
        None \<Rightarrow> a\<lparr>a_content := Some x\<rparr>
      | Some _ \<Rightarrow> a\<lparr>a_params := a_params a @ [x]\<rparr>)"

definition address_message :: "sexpr \<Rightarrow> string" where
  "address_message x =
     ''address(es) '' @ [CHR 0x27] @ display_sexpr x @ [CHR 0x27] @
     '' in content position; addresses go in the recipient slot or a keyword value''"

definition as_keyword :: "sexpr \<Rightarrow> string option" where
  "as_keyword e = (case e of Atom (Keyword k) \<Rightarrow> Some k | _ \<Rightarrow> None)"

fun parse_args :: "sexpr list \<Rightarrow> simple_args \<Rightarrow> (message_parse_error, simple_args) result" where
  "parse_args [] a = Inr a"
| "parse_args (x # xs) a = (case as_keyword x of
       Some k \<Rightarrow> (case xs of
           [] \<Rightarrow> Inl (MessageParseError (''keyword :'' @ k @ '' missing value''))
         | val # ys \<Rightarrow> (case keyword_arg k val a of
               Inl e \<Rightarrow> Inl e
             | Inr a' \<Rightarrow> parse_args ys a'))
     | None \<Rightarrow>
         if is_address_group x then Inl (MessageParseError (address_message x))
         else parse_args xs (positional_arg x a))"

definition take_recipient :: "sexpr list \<Rightarrow> recipients option \<times> sexpr list" where
  "take_recipient tail = (case tail of
       [] \<Rightarrow> (None, [])
     | x # xs \<Rightarrow> (case x of
           Atom (Symbol s) \<Rightarrow> if starts_with_at s then (Some (One s), xs) else (None, tail)
         | List items \<Rightarrow>
             if items \<noteq> [] \<and> list_all is_address items
             then (Some (RSet (bs_of_list (map symbol_text items))), xs)
             else (None, tail)
         | _ \<Rightarrow> (None, tail)))"

definition unscoped_message :: "string \<Rightarrow> string" where
  "unscoped_message head =
     [CHR 0x27] @ head @ [CHR 0x27] @
     '' is not a core performative; a dialect performative must be '' @
     ''invoked inside (lang <dialect> ...) so the message names the dialect that defines it''"

definition empty_args :: simple_args where
  "empty_args = \<lparr>a_content = None, a_params = [], a_thread = None, a_sender = None,
     a_caused_by = None\<rparr>"

definition performative_scoped ::
  "string \<Rightarrow> lang_scope \<Rightarrow> (message_parse_error, performative) result" where
  "performative_scoped head scope = (case core_parse head of
       Some cp \<Rightarrow> Inr (Core cp)
     | None \<Rightarrow>
         if scope = Unscoped then Inl (MessageParseError (unscoped_message head))
         else Inr (Custom head))"

definition parse_simple ::
  "string \<Rightarrow> sexpr list \<Rightarrow> lang_scope \<Rightarrow> (message_parse_error, message) result" where
  "parse_simple head tail scope =
     bind_result (performative_scoped head scope) (\<lambda>p.
       case take_recipient tail of (recipient, args) \<Rightarrow>
         bind_result (parse_args args empty_args) (\<lambda>a.
           Inr (Simple \<lparr>m_performative = p, m_recipient = recipient,
             m_content = (case a_content a of Some c \<Rightarrow> c | None \<Rightarrow> List []),
             m_params = a_params a, m_thread = a_thread a, m_sender = a_sender a,
             m_caused_by = a_caused_by a\<rparr>)))"

definition parse_meta :: "sexpr list \<Rightarrow> (message_parse_error, message) result" where
  "parse_meta tail = (case tail of
       [] \<Rightarrow> Inl (MessageParseError ''meta message requires an operation'')
     | d # _ \<Rightarrow> Inr (Meta d))"

definition is_list :: "sexpr \<Rightarrow> bool" where
  "is_list e = (case e of List _ \<Rightarrow> True | _ \<Rightarrow> False)"

text \<open>
  \<open>rposition\<close> of the last list: the items before it and the list itself.
\<close>

fun split_last_list :: "sexpr list \<Rightarrow> (sexpr list \<times> sexpr) option" where
  "split_last_list [] = None"
| "split_last_list (x # xs) = (case split_last_list xs of
       Some (ps, e) \<Rightarrow> Some (x # ps, e)
     | None \<Rightarrow> if is_list x then Some ([], x) else None)"

lemma split_last_list_member: "split_last_list xs = Some (ps, e) \<Longrightarrow> e \<in> set xs"
  by (induction xs arbitrary: ps e) (auto split: option.splits if_splits)

lemma member_smaller: "e \<in> set xs \<Longrightarrow> size e < Suc (size_list size xs)"
  by (induction xs) auto

function parse_message_scoped ::
  "sexpr \<Rightarrow> lang_scope \<Rightarrow> (message_parse_error, message) result" where
  "parse_message_scoped e scope = (case e of
       Atom _ \<Rightarrow> Inl (MessageParseError ''message must be a list'')
     | List [] \<Rightarrow> Inl (MessageParseError ''empty message'')
     | List (h # tail) \<Rightarrow> (case h of
           Atom (Symbol head) \<Rightarrow>
             if head = ''meta'' then parse_meta tail
             else if head = ''lang'' then
               (case tail of
                  name # inner # _ \<Rightarrow> (case name of
                      Atom (Symbol dialect_name) \<Rightarrow>
                        (case parse_message_scoped inner Scoped of
                           Inl err \<Rightarrow> Inl err
                         | Inr m \<Rightarrow> Inr (Dialect dialect_name m))
                    | _ \<Rightarrow> Inl (MessageParseError ''dialect name must be a symbol''))
                | _ \<Rightarrow> Inl (MessageParseError
                         ''dialect message requires dialect name and inner message''))
             else (case wrapper_parse head of
                 Some w \<Rightarrow> (case split_last_list tail of
                     Some (params, inner) \<Rightarrow>
                       (case parse_message_scoped inner scope of
                          Inl err \<Rightarrow> Inl err
                        | Inr m \<Rightarrow> Inr (Wrapped w params m))
                   | None \<Rightarrow> Inl (MessageParseError ''wrapped message requires an inner message''))
               | None \<Rightarrow> parse_simple head tail scope)
         | _ \<Rightarrow> Inl (MessageParseError ''message head must be a symbol'')))"
  by pat_completeness auto
termination
  by (relation "measure (\<lambda>(e, _). size e)")
     (auto dest!: split_last_list_member simp: less_Suc_eq_le dest: member_smaller)

declare parse_message_scoped.simps [simp del]

definition message_try_from :: "sexpr \<Rightarrow> (message_parse_error, message) result" where
  "message_try_from e = parse_message_scoped e Unscoped"

definition parse_lax :: "sexpr \<Rightarrow> (message_parse_error, message) result" where
  "parse_lax e = parse_message_scoped e Lax"

section \<open>Well-formed messages\<close>

text \<open>
  The messages the recogniser can produce in a scope. A custom performative needs a scope other
  than \<^const>\<open>Unscoped\<close> and a name the recogniser does not read as a core performative or a
  wrapper; content and positional parameters are not address groups.
\<close>

definition reserved_head :: "string \<Rightarrow> bool" where
  "reserved_head s \<longleftrightarrow> s = ''meta'' \<or> s = ''lang'' \<or> wrapper_parse s \<noteq> None"

definition wf_performative :: "lang_scope \<Rightarrow> performative \<Rightarrow> bool" where
  "wf_performative scope p = (case p of
       Core _ \<Rightarrow> True
     | Custom s \<Rightarrow> scope \<noteq> Unscoped \<and> core_parse s = None \<and> \<not> reserved_head s)"

definition wf_recipient :: "recipients option \<Rightarrow> bool" where
  "wf_recipient r = (case r of
       None \<Rightarrow> True
     | Some (One s) \<Rightarrow> starts_with_at s
     | Some (RSet rs) \<Rightarrow> rs \<noteq> [] \<and> bs_sorted rs \<and> list_all starts_with_at rs)"

definition wf_caused_by :: "caused_by \<Rightarrow> bool" where
  "wf_caused_by cb = (case cb of
       Begin \<Rightarrow> True
     | Single h \<Rightarrow> h \<noteq> BEGIN_KEYWORD
     | Multiple hs \<Rightarrow> hs \<noteq> [] \<and> sorted hs)"

definition own_keyword :: "string \<Rightarrow> bool" where
  "own_keyword k \<longleftrightarrow> k = ''thread'' \<or> k = ''sender'' \<or> k = ''caused-by''"

definition wf_positional :: "sexpr \<Rightarrow> bool" where
  "wf_positional e \<longleftrightarrow> as_keyword e = None \<and> \<not> is_address_group e"

fun wf_params :: "sexpr list \<Rightarrow> bool" where
  "wf_params [] = True"
| "wf_params (x # xs) = (case as_keyword x of
       Some k \<Rightarrow> (case xs of [] \<Rightarrow> False | _ # ys \<Rightarrow> \<not> own_keyword k \<and> wf_params ys)
     | None \<Rightarrow> \<not> is_address_group x \<and> wf_params xs)"

definition wf_simple :: "lang_scope \<Rightarrow> simple_message \<Rightarrow> bool" where
  "wf_simple scope s \<longleftrightarrow> wf_performative scope (m_performative s) \<and> wf_recipient (m_recipient s) \<and>
     wf_positional (m_content s) \<and> wf_params (m_params s) \<and> pred_option wf_caused_by (m_caused_by s)"

fun wf_message :: "lang_scope \<Rightarrow> message \<Rightarrow> bool" where
  "wf_message scope (Simple s) = wf_simple scope s"
| "wf_message scope (Meta _) = True"
| "wf_message scope (Dialect _ i) = wf_message Scoped i"
| "wf_message scope (Wrapped _ _ c) = wf_message scope c"

text \<open>Whether a \<open>(lang ...)\<close> wrapper lies around the innermost message.\<close>

fun under_lang :: "message \<Rightarrow> bool" where
  "under_lang (Dialect _ _) = True"
| "under_lang (Wrapped _ _ c) = under_lang c"
| "under_lang _ = False"

section \<open>Lemmas on the recogniser\<close>

lemma core_parse_as_str [simp]: "core_parse (core_as_str c) = Some c"
  by (cases c) (simp_all add: core_parse_def core_as_str_def)

lemma core_parse_eq_Some: "core_parse s = Some c \<longleftrightarrow> s = core_as_str c"
  by (cases c) (auto simp: core_parse_def core_as_str_def split: if_splits)

lemma core_as_str_not_reserved [simp]: "\<not> reserved_head (core_as_str c)"
  by (cases c) (simp_all add: reserved_head_def wrapper_parse_def core_as_str_def)

lemma wrapper_parse_as_str [simp]: "wrapper_parse (wrapper_as_str w) = Some w"
  by (cases w) (simp_all add: wrapper_parse_def wrapper_as_str_def)

lemma wrapper_as_str_other [simp]: "wrapper_as_str w \<noteq> ''meta''" "wrapper_as_str w \<noteq> ''lang''"
  by (cases w; simp add: wrapper_as_str_def)+

lemma wf_positional_Nil [simp]: "wf_positional (List [])"
  by (simp add: wf_positional_def as_keyword_def is_address_group_def)

lemma as_keyword_eq_Some: "as_keyword e = Some k \<longleftrightarrow> e = Kw k"
  by (auto simp: as_keyword_def split: sexpr.splits atom.splits)

lemma as_keyword_Kw [simp]: "as_keyword (Kw k) = Some k"
  by (simp add: as_keyword_def)

lemma wf_params_append: "wf_params ps \<Longrightarrow> wf_params (ps @ qs) = wf_params qs"
  by (induction ps rule: wf_params.induct) (auto split: option.splits list.splits)

lemma parse_args_params:
  assumes "wf_params ps" "a_content a \<noteq> None"
  shows "parse_args (ps @ xs) a = parse_args xs (a\<lparr>a_params := a_params a @ ps\<rparr>)"
  using assms
proof (induction ps arbitrary: a rule: wf_params.induct)
  case (2 x ys)
  show ?case
  proof (cases "as_keyword x")
    case None
    then show ?thesis using 2 by (auto simp: positional_arg_def)
  next
    case (Some k)
    then obtain val zs where "ys = val # zs" using "2.prems" by (cases ys) auto
    then show ?thesis
      using 2 Some by (auto simp: keyword_arg_def own_keyword_def as_keyword_eq_Some)
  qed
qed simp

lemma caused_by_hashes_symbols: "caused_by_hashes (map Sym hs) acc = Inr (acc @ hs)"
  by (induction hs arbitrary: acc) auto

lemma parse_caused_by_value [simp]: "wf_caused_by cb \<Longrightarrow> parse_caused_by (caused_by_value cb) = Inr cb"
  by (cases cb)
     (auto simp: parse_caused_by_def caused_by_value_def wf_caused_by_def caused_by_hashes_symbols
        sorted_sort_id)

lemma parse_args_keyword_items:
  assumes "pred_option wf_caused_by (m_caused_by s)"
  shows "parse_args (keyword_items s) \<lparr>a_content = c, a_params = ps, a_thread = None,
      a_sender = None, a_caused_by = None\<rparr> = Inr \<lparr>a_content = c, a_params = ps,
      a_thread = m_thread s, a_sender = m_sender s, a_caused_by = m_caused_by s\<rparr>"
  using assms
  by (auto simp: keyword_items_def keyword_arg_def extract_string_or_symbol_def split: option.splits)

lemma is_address_Sym [simp]: "is_address (Sym s) = starts_with_at s"
  by (simp add: is_address_def)

lemma symbol_text_Sym [simp]: "symbol_text \<circ> Sym = id"
  by (auto simp: symbol_text_def)

lemma is_address_symbol_text: "is_address e \<Longrightarrow> starts_with_at (symbol_text e)"
  by (auto simp: is_address_def symbol_text_def split: sexpr.splits atom.splits)

lemma take_recipient_items:
  assumes "wf_recipient r" "wf_positional c"
  shows "take_recipient (recipient_items r @ c # xs) = (r, c # xs)"
proof (cases r)
  case None
  then show ?thesis
    using assms by (auto simp: recipient_items_def take_recipient_def wf_positional_def
        is_address_group_def split: sexpr.splits atom.splits)
next
  case (Some a)
  show ?thesis
  proof (cases a)
    case (RSet rs)
    then have "rs \<noteq> []" "bs_of_list rs = rs" "list_all is_address (map Sym rs)"
      using assms Some by (auto simp: wf_recipient_def list_all_iff)
    then show ?thesis
      using Some RSet by (simp add: recipient_items_def take_recipient_def)
  qed (use assms Some in \<open>simp add: recipient_items_def take_recipient_def wf_recipient_def\<close>)
qed

lemma performative_scoped_name:
  "wf_performative scope p \<Longrightarrow> performative_scoped (performative_name p) scope = Inr p"
  by (cases p) (auto simp: wf_performative_def performative_name_def performative_scoped_def)

lemma parse_simple_items:
  assumes "wf_simple scope s"
  shows "parse_simple (performative_name (m_performative s))
      (recipient_items (m_recipient s) @ m_content s # m_params s @ keyword_items s) scope
    = Inr (Simple s)"
proof -
  have wf: "wf_performative scope (m_performative s)" "wf_recipient (m_recipient s)"
      "wf_positional (m_content s)" "wf_params (m_params s)"
      "pred_option wf_caused_by (m_caused_by s)"
    using assms by (simp_all add: wf_simple_def)
  have "parse_args (m_content s # m_params s @ keyword_items s) empty_args = Inr
      \<lparr>a_content = Some (m_content s), a_params = m_params s, a_thread = m_thread s,
       a_sender = m_sender s, a_caused_by = m_caused_by s\<rparr>"
    using wf(3) parse_args_params [OF wf(4)] parse_args_keyword_items [OF wf(5)]
    by (simp add: wf_positional_def positional_arg_def empty_args_def)
  then show ?thesis
    using take_recipient_items [OF wf(2,3)] performative_scoped_name [OF wf(1)]
    by (simp add: parse_simple_def)
qed

lemma performative_name_not_reserved:
  "wf_performative scope p \<Longrightarrow> \<not> reserved_head (performative_name p)"
  by (cases p) (auto simp: wf_performative_def performative_name_def)

lemma is_list_sexpr_of_message [simp]: "is_list (sexpr_of_message m)"
  by (cases m) (simp_all add: is_list_def)

lemma split_last_list_append [simp]: "is_list e \<Longrightarrow> split_last_list (ps @ [e]) = Some (ps, e)"
  by (induction ps) auto

lemma parse_sexpr_of_message:
  "wf_message scope m \<Longrightarrow> parse_message_scoped (sexpr_of_message m) scope = Inr m"
proof (induction m arbitrary: scope)
  case (Simple s)
  then have wf: "wf_simple scope s" by simp
  have "\<not> reserved_head (performative_name (m_performative s))"
    using wf performative_name_not_reserved by (auto simp: wf_simple_def)
  then show ?case
    using parse_simple_items [OF wf]
    by (subst parse_message_scoped.simps) (simp add: reserved_head_def)
qed (subst parse_message_scoped.simps; simp add: parse_meta_def)+

text \<open>Everything the recogniser returns is well-formed.\<close>

definition wf_args :: "simple_args \<Rightarrow> bool" where
  "wf_args a \<longleftrightarrow> pred_option wf_positional (a_content a) \<and> wf_params (a_params a) \<and>
     pred_option wf_caused_by (a_caused_by a)"

lemma bs_of_list_eq_Nil [simp]: "bs_of_list xs = [] \<longleftrightarrow> xs = []"
  by (metis set_bs_of_list set_empty)

lemma sort_eq_Nil [simp]: "sort xs = [] \<longleftrightarrow> xs = []"
  by (metis length_0_conv length_sort)

lemma caused_by_hashes_length: "caused_by_hashes items acc = Inr hs \<Longrightarrow> length hs = length acc + length items"
  by (induction items acc rule: caused_by_hashes.induct) (auto split: sexpr.splits atom.splits)

lemma caused_by_hashes_nonempty: "caused_by_hashes items [] = Inr [] \<Longrightarrow> items = []"
  by (drule caused_by_hashes_length) simp

lemma parse_caused_by_wf: "parse_caused_by v = Inr cb \<Longrightarrow> wf_caused_by cb"
  by (auto simp: parse_caused_by_def wf_caused_by_def bind_result_eq_Inr
      dest: caused_by_hashes_nonempty split: sexpr.splits atom.splits if_splits)

lemma keyword_arg_wf: "keyword_arg k v a = Inr b \<Longrightarrow> wf_args a \<Longrightarrow> wf_args b"
  by (auto simp: keyword_arg_def wf_args_def own_keyword_def wf_params_append bind_result_eq_Inr
      dest: parse_caused_by_wf split: if_splits)

lemma parse_args_wf: "parse_args xs a = Inr b \<Longrightarrow> wf_args a \<Longrightarrow> wf_args b"
proof (induction xs a arbitrary: b rule: parse_args.induct)
  case (2 x xs a)
  show ?case
  proof (cases "as_keyword x")
    case None
    then have "\<not> is_address_group x" "parse_args xs (positional_arg x a) = Inr b"
      using "2.prems"(1) by (auto split: if_splits)
    moreover have "wf_args (positional_arg x a)"
      using \<open>\<not> is_address_group x\<close> None "2.prems"(2)
      by (auto simp: positional_arg_def wf_args_def wf_positional_def wf_params_append
          split: option.splits)
    ultimately show ?thesis using "2.IH"(1) [OF None] by blast
  next
    case (Some k)
    then obtain v ys a' where "xs = v # ys" "keyword_arg k v a = Inr a'" "parse_args ys a' = Inr b"
      using "2.prems"(1) by (auto split: list.splits sum.splits)
    then show ?thesis using "2.IH"(2) Some "2.prems"(2) keyword_arg_wf by blast
  qed
qed simp

lemma take_recipient_wf: "take_recipient xs = (r, ys) \<Longrightarrow> wf_recipient r"
  by (auto simp: take_recipient_def wf_recipient_def list_all_iff is_address_symbol_text
      split: list.splits sexpr.splits atom.splits if_splits)

lemma parse_simple_wf:
  assumes "parse_simple head xs scope = Inr m" "\<not> reserved_head head"
  shows "wf_message scope m"
proof -
  obtain p r ys a where *: "performative_scoped head scope = Inr p" "take_recipient xs = (r, ys)"
      "parse_args ys empty_args = Inr a"
      "m = Simple \<lparr>m_performative = p, m_recipient = r,
             m_content = (case a_content a of Some c \<Rightarrow> c | None \<Rightarrow> List []),
             m_params = a_params a, m_thread = a_thread a, m_sender = a_sender a,
             m_caused_by = a_caused_by a\<rparr>"
    using assms(1)
    by (cases "take_recipient xs") (auto simp: parse_simple_def bind_result_eq_Inr)
  have "wf_args a"
    using parse_args_wf [OF *(3)] by (simp add: wf_args_def empty_args_def)
  moreover have "wf_performative scope p"
    using *(1) assms(2) by (auto simp: performative_scoped_def wf_performative_def
        split: option.splits if_splits)
  ultimately show ?thesis
    using take_recipient_wf [OF *(2)] *(4)
    by (auto simp: wf_simple_def wf_args_def split: option.splits)
qed

lemma parse_message_scoped_wf: "parse_message_scoped e scope = Inr m \<Longrightarrow> wf_message scope m"
proof (induction e scope arbitrary: m rule: parse_message_scoped.induct)
  case (1 e scope)
  obtain head xs where e: "e = List (Sym head # xs)"
    using "1.prems"
    by (auto simp: parse_message_scoped.simps [of e] split: sexpr.splits list.splits atom.splits)
  note unf = "1.prems" [unfolded e] and u = parse_message_scoped.simps [of "List (Sym _ # xs)" scope]
  consider "head = ''meta''" | "head = ''lang''" | w where "head \<noteq> ''meta''" "head \<noteq> ''lang''"
    "wrapper_parse head = Some w" | "\<not> reserved_head head"
    by (cases "wrapper_parse head") (auto simp: reserved_head_def)
  then show ?case
  proof cases
    case 1
    then show ?thesis using unf by (auto simp: u parse_meta_def split: list.splits)
  next
    case 2
    then obtain n i ys m' where "xs = Sym n # i # ys" "parse_message_scoped i Scoped = Inr m'"
        "m = Dialect n m'"
      using unf by (auto simp: u split: list.splits sexpr.splits atom.splits sum.splits)
    then show ?thesis using "1.IH"(1) [OF e refl refl] 2 by fastforce
  next
    case (3 w)
    then obtain ps i m' where "split_last_list xs = Some (ps, i)"
        "parse_message_scoped i scope = Inr m'" "m = Wrapped w ps m'"
      using unf by (auto simp: u split: option.splits sum.splits)
    then show ?thesis using "1.IH"(2) [OF e refl refl] 3 by fastforce
  next
    case 4
    then show ?thesis using unf parse_simple_wf by (auto simp: u reserved_head_def)
  qed
qed

lemma wf_message_core_or_lang:
  "wf_message scope m \<Longrightarrow> scope = Unscoped \<Longrightarrow> innermost_simple m = Some (Simple s) \<Longrightarrow>
     is_core (m_performative s) \<or> under_lang m"
  by (induction scope m rule: wf_message.induct)
     (auto simp: wf_simple_def wf_performative_def is_core_def split: performative.splits)

section \<open>Properties of the recogniser\<close>

text \<open>C2: recognition is exact: the recogniser returns a message for some S-expression if and only
  if the message is well-formed, and then the rendering of that message is recognised as the same
  message, so that recognising, rendering and recognising again changes nothing.\<close>

theorem message_try_from_exact:
  "((\<exists>e. message_try_from e = Inr m) \<longleftrightarrow> wf_message Unscoped m) \<and>
   (message_try_from (sexpr_of_message m) = Inr m \<longleftrightarrow> wf_message Unscoped m)"
  using parse_message_scoped_wf parse_sexpr_of_message unfolding message_try_from_def by blast

definition sample_message :: message where
  "sample_message = Wrapped WithLimits [Kw ''depth'', Atom (Num 4)]
     (Simple \<lparr>m_performative = Core Tell, m_recipient = Some (RSet [''@a'', ''@b'']),
        m_content = List [Sym ''price'', Sym ''@bob''],
        m_params = [Kw ''n'', Atom (Num 7)], m_thread = Some ''t-1'', m_sender = Some ''@me'',
        m_caused_by = Some (Multiple [''h1'', ''h2''])\<rparr>)"

text \<open>C3: a well-formed message whose symbols the grammar can write survives the wire: its
  serialized bytes parse to the tree it renders to, and that tree is recognised as the message.\<close>

theorem message_wire_roundtrip:
  assumes "wf_message Unscoped m" "wf_sexpr (sexpr_of_message m)"
  shows "\<exists>e. parse (serialize (sexpr_of_message m)) = Inr e \<and> message_try_from e = Inr m"
  using parse_of_serialize [OF assms(2)] parse_sexpr_of_message [OF assms(1)]
  by (simp add: message_try_from_def)

theorem message_wire_roundtrip_witness:
  "\<exists>e. parse (serialize (sexpr_of_message sample_message)) = Inr e \<and>
     message_try_from e = Inr sample_message"
proof (rule message_wire_roundtrip)
  show "wf_message Unscoped sample_message"
    by (code_simp, simp only: option.pred_inject, code_simp)
  show "wf_sexpr (sexpr_of_message sample_message)" by code_simp
qed

text \<open>The scoping rule: in every message the recogniser accepts, the innermost simple message
  has a core performative, or a \<open>(lang <dialect> ...)\<close> wrapper around it names the dialect; no
  wrapper smuggles a custom performative past the rule.\<close>

lemma custom_performative_needs_lang:
  assumes "message_try_from e = Inr m" "innermost_simple m = Some (Simple s)"
    "m_performative s = Custom name"
  shows "under_lang m"
  using parse_message_scoped_wf [OF assms(1) [unfolded message_try_from_def]]
    wf_message_core_or_lang [OF _ refl assms(2)] assms(3) by (simp add: is_core_def)

definition sample_offer :: simple_message where
  "sample_offer = \<lparr>m_performative = Custom ''offer'', m_recipient = None, m_content = Atom (Num 1),
     m_params = [], m_thread = None, m_sender = None, m_caused_by = None\<rparr>"

lemma custom_performative_needs_lang_witness:
  "under_lang (Wrapped Signed [Atom (Str ''sig'')] (Dialect ''market'' (Simple sample_offer)))"
proof (rule custom_performative_needs_lang)
  show "message_try_from (sexpr_of_message
      (Wrapped Signed [Atom (Str ''sig'')] (Dialect ''market'' (Simple sample_offer)))) =
    Inr (Wrapped Signed [Atom (Str ''sig'')] (Dialect ''market'' (Simple sample_offer)))"
    by code_simp
  show "innermost_simple (Wrapped Signed [Atom (Str ''sig'')] (Dialect ''market''
      (Simple sample_offer))) = Some (Simple sample_offer)"
    by simp
  show "m_performative sample_offer = Custom ''offer''"
    by (simp add: sample_offer_def)
qed

text \<open>A quoted causal hash is accepted but rendered back as a bare symbol. A content address of the
  form \<open>sha256:...\<close> is not a symbol of the wire grammar, so the canonical rendering of an accepted
  message is rejected when it is read again.\<close>

lemma quoted_caused_by_not_reread:
  "\<exists>e m. parse (''(ok () :caused-by '' @ [CHR 0x22] @ ''sha256:ab'' @ [CHR 0x22] @ '')'') = Inr e \<and>
     message_try_from e = Inr m \<and>
     (\<exists>e'. parse (serialize (sexpr_of_message m)) = Inr e' \<and>
        message_try_from e' = Inl (MessageParseError ''keyword :ab missing value''))"
  by (intro exI conjI, code_simp, code_simp, code_simp, code_simp)

end
