(* ===== verification/Cbcl_Template.thy ===== *)
theory Cbcl_Template
  imports Cbcl_Message
begin

text \<open>
  Resource accounting (\<open>cbcl-core/src/r2.rs\<close>), template expansion (\<open>template.rs\<close>) and the
  tag dispatch of \<open>msg_tag.rs\<close> and \<open>pattern.rs\<close>. The counters are \<^typ>\<open>u32\<close> words whose
  addition wraps and whose \<open>as u32\<close> casts truncate, as in the release build of the source.
\<close>

section \<open>Resource state\<close>

record resource_state =
  current_depth :: u32
  expansion_size :: u32
  rs_max_depth :: u32
  max_exp_size :: u32

definition resource_new :: "u32 \<Rightarrow> u32 \<Rightarrow> resource_state" where
  "resource_new d m =
     \<lparr>current_depth = 0, expansion_size = 0, rs_max_depth = d, max_exp_size = m\<rparr>"

definition enter_depth :: "resource_state \<Rightarrow> resource_state option" where
  "enter_depth rs =
     (let new_depth = current_depth rs + 1
      in if new_depth < rs_max_depth rs then Some (rs\<lparr>current_depth := new_depth\<rparr>) else None)"

definition add_expansion :: "resource_state \<Rightarrow> u32 \<Rightarrow> resource_state option" where
  "add_expansion rs sz =
     (let new_size = expansion_size rs + sz
      in if new_size < max_exp_size rs then Some (rs\<lparr>expansion_size := new_size\<rparr>) else None)"

definition exit_depth :: "resource_state \<Rightarrow> resource_state" where
  "exit_depth rs = rs\<lparr>current_depth := saturating_sub (current_depth rs) 1\<rparr>"

definition remaining_depth :: "resource_state \<Rightarrow> u32" where
  "remaining_depth rs = saturating_sub (rs_max_depth rs) (current_depth rs)"

text \<open>\<open>expr.byte_size() as u32\<close>.\<close>

definition byte_size_u32 :: "sexpr \<Rightarrow> u32" where
  "byte_size_u32 e = of_nat (byte_size e)"

fun bounded_eval :: "nat \<Rightarrow> sexpr \<Rightarrow> resource_state \<Rightarrow> (sexpr \<times> resource_state) option" where
  "bounded_eval 0 expr rs = None"
| "bounded_eval (Suc fuel) expr rs = (case expr of
       Atom _ \<Rightarrow> Some (expr, rs)
     | List [] \<Rightarrow> Some (expr, rs)
     | List (item # _) \<Rightarrow>
         Option.bind (enter_depth rs) (\<lambda>rs1.
         Option.bind (add_expansion rs1 (byte_size_u32 expr)) (\<lambda>rs2.
         Option.bind (bounded_eval fuel item rs2) (\<lambda>(_, rs3).
           Some (expr, exit_depth rs3)))))"

section \<open>Template expansion\<close>

type_synonym bindings = "(string, sexpr) btmap"

datatype expanded_template = TSingle sexpr | TSequence "sexpr list"

definition eval_type_predicate :: "sexpr \<Rightarrow> string \<Rightarrow> bool" where
  "eval_type_predicate value type_name =
     (if type_name = ''number'' then (case value of Atom (Num _) \<Rightarrow> True | _ \<Rightarrow> False)
      else if type_name = ''string'' then (case value of Atom (Str _) \<Rightarrow> True | _ \<Rightarrow> False)
      else if type_name = ''symbol'' then (case value of Atom (Symbol _) \<Rightarrow> True | _ \<Rightarrow> False)
      else if type_name = ''bool'' then (case value of Atom (Bool _) \<Rightarrow> True | _ \<Rightarrow> False)
      else if type_name = ''agent'' then
        (case value of Atom (Symbol s) \<Rightarrow> starts_with_at s | _ \<Rightarrow> False)
      else False)"

text \<open>\<open>zip\<close> stops at the shorter list; parameters that are not symbols bind nothing.\<close>

definition build_bindings :: "sexpr list \<Rightarrow> sexpr list \<Rightarrow> bindings" where
  "build_bindings params args =
     foldl (\<lambda>b (param, arg). case param of
         Atom (Symbol name) \<Rightarrow> bt_insert name arg b
       | _ \<Rightarrow> b) [] (zip params args)"

definition resolve_value :: "sexpr \<Rightarrow> bindings \<Rightarrow> sexpr" where
  "resolve_value expr b = (case expr of
       Atom (Symbol name) \<Rightarrow> (case bt_get b name of Some v \<Rightarrow> v | None \<Rightarrow> expr)
     | _ \<Rightarrow> expr)"

definition values_equal :: "sexpr \<Rightarrow> sexpr \<Rightarrow> bool" where
  "values_equal a b =
     (if a = b then True
      else (case (a, b) of
          (Atom (Symbol sa), Atom (Symbol sb)) \<Rightarrow> sa = sb
        | _ \<Rightarrow> False))"

definition substitute_atom :: "sexpr \<Rightarrow> bindings \<Rightarrow> sexpr" where
  "substitute_atom expr b = (case expr of
       Atom (Symbol name) \<Rightarrow> (case bt_get b name of Some v \<Rightarrow> v | None \<Rightarrow> expr)
     | _ \<Rightarrow> expr)"

fun substitute_expr :: "bindings \<Rightarrow> sexpr \<Rightarrow> sexpr" where
  "substitute_expr b (Atom a) = (case a of
       Symbol name \<Rightarrow> (case bt_get b name of Some v \<Rightarrow> v | None \<Rightarrow> Atom a)
     | _ \<Rightarrow> Atom a)"
| "substitute_expr b (List items) = List (map (substitute_expr b) items)"

definition eval_condition :: "sexpr \<Rightarrow> bindings \<Rightarrow> bool" where
  "eval_condition condition b = (case condition of
       List [op, x, y] \<Rightarrow>
         if is_symbol op ''='' then values_equal (resolve_value x b) (resolve_value y b)
         else if is_symbol op ''member'' then
           (case y of
              List members \<Rightarrow>
                list_ex (\<lambda>m. values_equal (resolve_value x b) (resolve_value m b)) members
            | _ \<Rightarrow> False)
         else if is_symbol op ''type?'' then
           (case y of
              Atom (Symbol type_name) \<Rightarrow> eval_type_predicate (resolve_value x b) type_name
            | _ \<Rightarrow> False)
         else False
     | _ \<Rightarrow> False)"

definition is_sequence_template :: "sexpr list \<Rightarrow> bool" where
  "is_sequence_template items \<longleftrightarrow> items \<noteq> [] \<and> list_all (\<lambda>item. case item of
       List (h # _) \<Rightarrow> is_symbol h ''literal'' \<or> is_symbol h ''cond''
     | _ \<Rightarrow> False) items"

definition eval_literal :: "sexpr list \<Rightarrow> bindings \<Rightarrow> expanded_template option" where
  "eval_literal items b = (case items of
       [_, body] \<Rightarrow> Some (TSingle (substitute_expr b body))
     | _ \<Rightarrow> None)"

text \<open>
  \<open>eval_form\<close>, \<open>eval_cond\<close> and \<open>eval_sequence\<close> receive the resource state in the source but
  neither read nor change it; the accounting happens once, in \<open>eval_template\<close>.
\<close>

fun eval_form :: "sexpr \<Rightarrow> bindings \<Rightarrow> expanded_template option"
and eval_cond :: "sexpr list \<Rightarrow> bindings \<Rightarrow> expanded_template option"
and eval_sequence :: "sexpr list \<Rightarrow> bindings \<Rightarrow> sexpr list \<Rightarrow> expanded_template option" where
  "eval_form (Atom a) b = Some (TSingle (substitute_atom (Atom a) b))"
| "eval_form (List []) b = Some (TSingle (List []))"
| "eval_form (List (head # tail)) b =
     (if is_symbol head ''literal'' then eval_literal (head # tail) b
      else if is_symbol head ''cond'' then eval_cond tail b
      else if is_sequence_template (head # tail) then eval_sequence (head # tail) b []
      else Some (TSingle (substitute_expr b (List (head # tail)))))"
| "eval_cond [] b = None"
| "eval_cond (clause # clauses) b = (case clause of
       List [test, body] \<Rightarrow>
         if is_symbol test ''else'' then eval_form body b
         else if eval_condition test b then eval_form body b
         else eval_cond clauses b
     | _ \<Rightarrow> None)"
| "eval_sequence [] b results = Some (TSequence results)"
| "eval_sequence (item # items) b results = (case eval_form item b of
       None \<Rightarrow> None
     | Some (TSingle e) \<Rightarrow> eval_sequence items b (results @ [e])
     | Some (TSequence es) \<Rightarrow> eval_sequence items b (results @ es))"

definition expanded_size_u32 :: "expanded_template \<Rightarrow> u32" where
  "expanded_size_u32 r = (case r of
       TSingle e \<Rightarrow> byte_size_u32 e
     | TSequence es \<Rightarrow> sum_list (map byte_size_u32 es))"

definition eval_template ::
  "sexpr \<Rightarrow> bindings \<Rightarrow> resource_state \<Rightarrow> (expanded_template \<times> resource_state) option" where
  "eval_template template b rs =
     Option.bind (enter_depth rs) (\<lambda>rs1.
     Option.bind (eval_form template b) (\<lambda>result.
     Option.bind (add_expansion rs1 (expanded_size_u32 result)) (\<lambda>rs2.
       Some (result, rs2))))"

text \<open>
  \<open>expand_template\<close> reads two fields of the performative definition, its parameters and its
  template; they are arguments here and are supplied from the record in \<open>Cbcl_Dialect\<close>.
\<close>

definition expand_template ::
  "sexpr list \<Rightarrow> sexpr \<Rightarrow> sexpr list \<Rightarrow> resource_state \<Rightarrow> (sexpr \<times> resource_state) option" where
  "expand_template params template args rs =
     Option.bind (eval_template template (build_bindings params args) rs) (\<lambda>(result, rs').
       Some (case result of TSingle e \<Rightarrow> e | TSequence es \<Rightarrow> List es, rs'))"

definition expand_template_with_bindings ::
  "sexpr \<Rightarrow> bindings \<Rightarrow> resource_state \<Rightarrow> (expanded_template \<times> resource_state) option" where
  "expand_template_with_bindings template b rs = eval_template template b rs"

section \<open>Tags and dispatch\<close>

datatype msg_tag = Head string | HeadAndSecond string string | UnknownTag

definition msg_tag_of :: "sexpr \<Rightarrow> msg_tag" where
  "msg_tag_of expr = (case expr of
       List (Atom (Symbol head) # rest) \<Rightarrow>
         if head = ''lang'' then
           (case rest of
              Atom (Symbol second) # _ \<Rightarrow> HeadAndSecond head second
            | _ \<Rightarrow> Head head)
         else Head head
     | _ \<Rightarrow> UnknownTag)"

record match_arm =
  arm_tag :: msg_tag
  handler_index :: nat

definition dispatch :: "sexpr \<Rightarrow> match_arm list \<Rightarrow> nat option" where
  "dispatch expr arms =
     map_option handler_index (List.find (\<lambda>arm. arm_tag arm = msg_tag_of expr) arms)"

section \<open>Lemmas\<close>

text \<open>The chain of first elements that bounded evaluation descends, and the bytes it records.\<close>

fun spine_depth :: "sexpr \<Rightarrow> nat" where
  "spine_depth (List (x # _)) = Suc (spine_depth x)"
| "spine_depth _ = 0"

fun spine_bytes :: "sexpr \<Rightarrow> nat" where
  "spine_bytes (List (x # xs)) = byte_size (List (x # xs)) + spine_bytes x"
| "spine_bytes _ = 0"

lemma enter_depth_no_wrap:
  assumes "unat (current_depth rs) + 1 < 2 ^ 32"
  shows "enter_depth rs = (if unat (current_depth rs) + 1 < unat (rs_max_depth rs)
    then Some (rs\<lparr>current_depth := current_depth rs + 1\<rparr>) else None)"
  using assms unat_add_no_wrap [of "current_depth rs" 1]
  by (simp add: enter_depth_def Let_def word_less_nat_alt)

lemma add_expansion_no_wrap:
  assumes "unat (expansion_size rs) + n < 2 ^ 32"
  shows "add_expansion rs (of_nat n) = (if unat (expansion_size rs) + n < unat (max_exp_size rs)
    then Some (rs\<lparr>expansion_size := expansion_size rs + of_nat n\<rparr>) else None)"
proof -
  have "unat (of_nat n :: u32) = n" using assms by (intro unat_of_nat_no_wrap) simp
  then have "unat (expansion_size rs + of_nat n) = unat (expansion_size rs) + n"
    using assms unat_add_no_wrap [of "expansion_size rs" "of_nat n"] by simp
  then show ?thesis by (simp add: add_expansion_def Let_def word_less_nat_alt)
qed

definition spine_fits :: "sexpr \<Rightarrow> resource_state \<Rightarrow> bool" where
  "spine_fits e rs \<longleftrightarrow> spine_depth e = 0 \<or>
     (unat (current_depth rs) + spine_depth e < unat (rs_max_depth rs) \<and>
      unat (expansion_size rs) + spine_bytes e < unat (max_exp_size rs))"

lemma spine_zero: "spine_depth e = 0 \<Longrightarrow> spine_bytes e = 0"
  by (cases e rule: spine_depth.cases) auto

lemma bounded_eval_closed_form:
  assumes "unat (current_depth rs) + spine_depth e < 2 ^ 32"
    "unat (expansion_size rs) + spine_bytes e < 2 ^ 32"
  shows "bounded_eval fuel e rs = (if spine_depth e < fuel \<and> spine_fits e rs
    then Some (e, rs\<lparr>expansion_size := expansion_size rs + of_nat (spine_bytes e)\<rparr>) else None)"
  using assms
proof (induction fuel e rs rule: bounded_eval.induct)
  case (2 fuel e rs)
  show ?case
  proof (cases e rule: spine_depth.cases)
    case (1 x xs)
    let ?n = "byte_size e" and ?d = "unat (current_depth rs)" and ?s = "unat (expansion_size rs)"
    define rs2 where "rs2 = rs\<lparr>current_depth := current_depth rs + 1,
      expansion_size := expansion_size rs + of_nat ?n\<rparr>"
    have d: "?d + 1 < 2 ^ 32" and n: "?s + ?n < 2 ^ 32" using "2.prems" 1 by simp_all
    have ud: "unat (current_depth rs + 1) = ?d + 1"
      using d unat_add_no_wrap [of "current_depth rs" 1] by simp
    have un: "unat (expansion_size rs + of_nat ?n) = ?s + ?n"
      using n unat_add_no_wrap [of "expansion_size rs" "of_nat ?n"]
        unat_of_nat_no_wrap [of ?n, where 'a = 32] by simp
    show ?thesis
    proof (cases "?d + 1 < unat (rs_max_depth rs) \<and> ?s + ?n < unat (max_exp_size rs)")
      case False
      then show ?thesis
        using 1 d n enter_depth_no_wrap [OF d] add_expansion_no_wrap [of "rs\<lparr>current_depth := _\<rparr>" ?n]
        by (auto simp: spine_fits_def byte_size_u32_def)
    next
      case True
      then have pre: "enter_depth rs = Some (rs\<lparr>current_depth := current_depth rs + 1\<rparr>)"
          "add_expansion (rs\<lparr>current_depth := current_depth rs + 1\<rparr>) (byte_size_u32 e) = Some rs2"
        using enter_depth_no_wrap [OF d] n
          add_expansion_no_wrap [of "rs\<lparr>current_depth := current_depth rs + 1\<rparr>" ?n]
        by (simp_all add: rs2_def byte_size_u32_def)
      have IH: "bounded_eval fuel x rs2 = (if spine_depth x < fuel \<and> spine_fits x rs2
        then Some (x, rs2\<lparr>expansion_size := expansion_size rs2 + of_nat (spine_bytes x)\<rparr>) else None)"
        using "2.IH" [OF 1 refl pre(1) pre(2)] "2.prems" 1 ud un by (simp add: rs2_def)
      have fits: "spine_fits x rs2 \<longleftrightarrow> spine_fits e rs"
        using 1 True ud un spine_zero [of x] by (auto simp: spine_fits_def rs2_def)
      have "saturating_sub (current_depth rs + 1) 1 = current_depth rs"
        using ud by (simp add: saturating_sub_def word_le_nat_alt)
      then show ?thesis
        using 1 pre IH fits by (auto simp: rs2_def exit_depth_def add.assoc)
    qed
  qed (auto simp: spine_fits_def)
qed simp

definition expanded_sexpr :: "expanded_template \<Rightarrow> sexpr" where
  "expanded_sexpr r = (case r of TSingle e \<Rightarrow> e | TSequence es \<Rightarrow> List es)"

lemma sum_list_of_nat: "sum_list (map (\<lambda>e. of_nat (f e)) es) = of_nat (sum_list (map f es))"
  by (induction es) auto

lemma expanded_size_u32_eq: "expanded_size_u32 r = of_nat (byte_size (expanded_sexpr r))"
  by (cases r) (simp_all add: expanded_size_u32_def byte_size_u32_def [abs_def] sum_list_of_nat
      expanded_sexpr_def)

text \<open>Substitution deepens a template by at most the depth of the values it inserts.\<close>

definition bindings_depth_le :: "bindings \<Rightarrow> nat \<Rightarrow> bool" where
  "bindings_depth_le b d \<longleftrightarrow> (\<forall>n v. bt_get b n = Some v \<longrightarrow> depth v \<le> d)"

lemma depth_substitute:
  assumes "bindings_depth_le b d"
  shows "depth (substitute_expr b e) \<le> depth e + d"
proof (induction e)
  case (Atom a)
  then show ?case
    using assms by (auto simp: bindings_depth_le_def split: atom.splits option.splits)
next
  case (List items)
  have "max_or_zero (map depth (map (substitute_expr b) items)) \<le> max_or_zero (map depth items) + d"
  proof (rule max_or_zero_le, clarsimp)
    fix e assume e: "e \<in> set items"
    then have "depth e \<le> max_or_zero (map depth items)" by (simp add: max_or_zero_ge)
    then show "depth (substitute_expr b e) \<le> max_or_zero (map depth items) + d"
      using List [OF e] by linarith
  qed
  then show ?case by (simp add: o_def)
qed

lemma depth_member: "e \<in> set es \<Longrightarrow> depth e < depth (List es)"
  by (simp add: less_Suc_eq_le max_or_zero_ge)

lemma depth_List_le: "\<forall>e \<in> set es. depth e \<le> m \<Longrightarrow> depth (List es) \<le> Suc m"
  using max_or_zero_le [of "map depth es" m] by simp

lemma depth_substitute_atom: "bindings_depth_le b d \<Longrightarrow> depth (substitute_atom (Atom a) b) \<le> d"
  by (auto simp: substitute_atom_def bindings_depth_le_def split: atom.splits option.splits)

lemma foldr_max_append: "foldr max (xs @ ys) (0::nat) = max (foldr max xs 0) (foldr max ys 0)"
  by (induction xs) auto

lemma depth_List_append: "depth (List (xs @ ys)) = max (depth (List xs)) (depth (List ys))"
  by (simp add: max_or_zero_def foldr_max_append del: foldr_append)

lemma depth_List_single: "depth (List [e]) = Suc (depth e)"
  by (simp add: max_or_zero_def)

lemma depth_List_Cons: "depth e \<le> depth (List (e # es))" "depth (List es) \<le> depth (List (e # es))"
  by (simp_all add: max_or_zero_def)

lemma depth_eval_literal:
  assumes "eval_literal items b = Some r" "bindings_depth_le b d"
  shows "depth (expanded_sexpr r) \<le> depth (List items) + d"
proof -
  obtain h body where "items = [h, body]" "r = TSingle (substitute_expr b body)"
    using assms(1) by (auto simp: eval_literal_def split: list.splits)
  then show ?thesis
    using depth_substitute [OF assms(2), of body] depth_member [of body items]
    by (simp add: expanded_sexpr_def)
qed

lemma depth_eval:
  "eval_form t b = Some r \<Longrightarrow> bindings_depth_le b d \<Longrightarrow> depth (expanded_sexpr r) \<le> depth t + d"
  "eval_cond cs b = Some r \<Longrightarrow> bindings_depth_le b d \<Longrightarrow>
     depth (expanded_sexpr r) \<le> depth (List cs) + d"
  "eval_sequence items b acc = Some r \<Longrightarrow> bindings_depth_le b d \<Longrightarrow>
     depth (expanded_sexpr r) \<le> max (depth (List acc)) (depth (List items) + d)"
proof (induction t b and cs b and items b acc arbitrary: r and r and r
    rule: eval_form_eval_cond_eval_sequence.induct)
  case (1 a b)
  then show ?case using depth_substitute_atom by (auto simp: expanded_sexpr_def)
next
  case (3 head tail b)
  then show ?case
    using depth_eval_literal [of "head # tail" b r d] depth_substitute [of b d "List (head # tail)"]
      depth_List_Cons(2) [of tail head]
    by (fastforce simp: expanded_sexpr_def max_or_zero_def split: if_splits)
next
  case (5 clause clauses b)
  then obtain test body where c: "clause = List [test, body]"
    by (auto split: sexpr.splits list.splits)
  have "depth body \<le> depth (List (clause # clauses))"
    using c depth_member [of body "[test, body]"] depth_List_Cons(1) [of clause clauses] by simp
  then show ?case
    using 5 c depth_List_Cons(2) [of clauses clause] by (fastforce split: if_splits)
next
  case (7 item items b acc)
  then obtain x where x: "eval_form item b = Some x"
    by (auto split: option.splits)
  have IH: "depth (expanded_sexpr x) \<le> depth item + d"
    using "7.IH"(1) x "7.prems"(2) by blast
  have item: "depth item < depth (List (item # items))" by (rule depth_member) simp
  show ?case
  proof (cases x)
    case (TSingle e)
    have "depth (List (acc @ [e])) \<le> max (depth (List acc)) (depth (List (item # items)) + d)"
      using IH item TSingle unfolding depth_List_append depth_List_single
      by (simp add: expanded_sexpr_def del: depth.simps)
    then show ?thesis
      using 7 x TSingle depth_List_Cons(2) [of items item] by fastforce
  next
    case (TSequence es)
    have "depth (List (acc @ es)) \<le> max (depth (List acc)) (depth (List (item # items)) + d)"
      using IH item TSequence unfolding depth_List_append
      by (simp add: expanded_sexpr_def del: depth.simps)
    then show ?thesis
      using 7 x TSequence depth_List_Cons(2) [of items item] by fastforce
  qed
qed (auto simp: expanded_sexpr_def max_or_zero_def)

section \<open>Properties\<close>

text \<open>Bounded evaluation, exactly. Unless a counter wraps, it succeeds if and only if the fuel
  exceeds the length of the chain of first elements and both strict bounds hold for that chain; it
  then returns the expression unchanged, restores the depth and charges every byte on the chain.\<close>

lemma bounded_eval_exact:
  assumes "unat (current_depth rs) + spine_depth e < 2 ^ 32"
    "unat (expansion_size rs) + spine_bytes e < 2 ^ 32"
  shows "bounded_eval n e rs =
    (if spine_depth e < n \<and> (spine_depth e = 0 \<or>
          (unat (current_depth rs) + spine_depth e < unat (rs_max_depth rs) \<and>
           unat (expansion_size rs) + spine_bytes e < unat (max_exp_size rs)))
     then Some (e, rs\<lparr>expansion_size := expansion_size rs + of_nat (spine_bytes e)\<rparr>) else None)"
  using bounded_eval_closed_form [OF assms] by (simp add: spine_fits_def)

lemma bounded_eval_exact_witness:
  "bounded_eval 3 (List [List [Sym ''ab''], Sym ''c'']) (resource_new 3 6) =
     Some (List [List [Sym ''ab''], Sym ''c''], (resource_new 3 6)\<lparr>expansion_size := 5\<rparr>)"
  using bounded_eval_exact [of "resource_new 3 6" "List [List [Sym ''ab''], Sym ''c'']" 3]
  by (simp add: resource_new_def)

text \<open>Expansion accounting. With a fresh resource state, and results below 4 GiB, expansion
  succeeds exactly when the template evaluates, the depth limit is at least two and the result has
  fewer bytes than the size limit; nested conditionals and sequences are not charged.\<close>

lemma expand_template_exact:
  assumes "\<And>r. eval_form template (build_bindings params args) = Some r \<Longrightarrow>
      byte_size (expanded_sexpr r) < 2 ^ 32"
  shows "map_option fst (expand_template params template args (resource_new d m)) =
    (case eval_form template (build_bindings params args) of
       None \<Rightarrow> None
     | Some r \<Rightarrow> if 1 < unat d \<and> byte_size (expanded_sexpr r) < unat m
         then Some (expanded_sexpr r) else None)"
proof (cases "eval_form template (build_bindings params args)")
  case None
  then show ?thesis
    by (cases "enter_depth (resource_new d m)") (simp_all add: expand_template_def eval_template_def)
next
  case (Some r)
  let ?rs = "(resource_new d m)\<lparr>current_depth := 1\<rparr>"
  have "enter_depth (resource_new d m) = (if 1 < unat d then Some ?rs else None)"
    using enter_depth_no_wrap [of "resource_new d m"] by (simp add: resource_new_def)
  moreover have "add_expansion ?rs (expanded_size_u32 r) =
    (if byte_size (expanded_sexpr r) < unat m
     then Some (?rs\<lparr>expansion_size := expanded_size_u32 r\<rparr>) else None)"
    using add_expansion_no_wrap [of ?rs "byte_size (expanded_sexpr r)"] assms [OF Some]
    by (simp add: resource_new_def expanded_size_u32_eq)
  ultimately show ?thesis
    using Some by (simp add: expand_template_def eval_template_def expanded_sexpr_def)
qed

definition sample_template :: sexpr where
  "sample_template = List [Sym ''cond'',
     List [List [Sym ''='', Sym ''kind'', Sym ''urgent''], List [Sym ''page'', Sym ''who'']],
     List [Sym ''else'', List [Sym ''mail'', Sym ''who'']]]"

lemma expand_template_exact_witness:
  "map_option fst (expand_template [Sym ''who'', Sym ''kind''] sample_template
     [Sym ''@bob'', Sym ''urgent''] (resource_new 2 16)) = Some (List [Sym ''page'', Sym ''@bob''])"
proof -
  have e: "eval_form sample_template
      (build_bindings [Sym ''who'', Sym ''kind''] [Sym ''@bob'', Sym ''urgent'']) =
    Some (TSingle (List [Sym ''page'', Sym ''@bob'']))"
    by code_simp
  show ?thesis
    by (subst expand_template_exact) (simp_all add: e expanded_sexpr_def)
qed

text \<open>Evaluating a template form never nests deeper than the template plus the deepest argument,
  through any combination of literals, conditionals and sequences.\<close>

lemma expansion_depth_bounded:
  assumes "eval_form template b = Some r" "\<And>name v. bt_get b name = Some v \<Longrightarrow> depth v \<le> d"
  shows "depth (expanded_sexpr r) \<le> depth template + d"
  using depth_eval(1) [OF assms(1)] assms(2) by (auto simp: bindings_depth_le_def)

lemma expansion_depth_bounded_witness:
  "depth (List [Sym ''page'', List [Sym ''a'', Sym ''b'']]) \<le> depth sample_template + 1"
proof -
  let ?b = "[(''kind'', Sym ''urgent''), (''who'', List [Sym ''a'', Sym ''b''])]"
  have e: "eval_form sample_template ?b = Some (TSingle (List [Sym ''page'', List [Sym ''a'', Sym ''b'']]))"
    by code_simp
  have "bt_get ?b name = Some v \<Longrightarrow> depth v \<le> 1" for name v
    by (auto simp: max_or_zero_def split: if_splits)
  from expansion_depth_bounded [OF e this] show ?thesis
    by (simp add: expanded_sexpr_def)
qed

text \<open>The size check compares a truncated byte count: an expansion of exactly 4 GiB is charged
  as zero bytes and passes every nonzero limit.\<close>

lemma expansion_size_truncated:
  "\<exists>e. byte_size e = 2 ^ 32 \<and>
     expand_template [Sym ''x''] (Sym ''x'') [e] (resource_new 2 1) =
       Some (e, (resource_new 2 1)\<lparr>current_depth := 1\<rparr>)"
proof (intro exI conjI)
  let ?e = "Atom (Str (replicate (2 ^ 32) CHR ''a''))"
  show size: "byte_size ?e = 2 ^ 32" by simp
  have "byte_size_u32 ?e = 0"
    unfolding byte_size_u32_def size by simp
  then show "expand_template [Sym ''x''] (Sym ''x'') [?e] (resource_new 2 1) =
      Some (?e, (resource_new 2 1)\<lparr>current_depth := 1\<rparr>)"
    by (simp add: expand_template_def eval_template_def build_bindings_def resource_new_def
        substitute_atom_def expanded_size_u32_def enter_depth_def add_expansion_def
        del: byte_size.simps)
qed

end
