(* ===== verification/Cbcl_Hlc.thy ===== *)
theory Cbcl_Hlc
  imports Cbcl_Prelude
begin

text \<open>
  The hybrid logical clock evidence of \<open>cbcl-core/src/hlc.rs\<close>: its derived order, the fixed
  canonical spelling and the overflow-refusing advance. The locale \<open>event_clock\<close> states what a
  host relies on when it stamps a run of events; it is interpreted on the code's own advance.
\<close>

section \<open>Data\<close>

datatype hlc = Hlc (physical_ms: u64) (logical: u32)

text \<open>\<open>derive(PartialOrd, Ord)\<close>: lexicographic in the order of the fields.\<close>

instantiation hlc :: linorder
begin

definition less_eq_hlc :: "hlc \<Rightarrow> hlc \<Rightarrow> bool" where
  "less_eq_hlc a b \<longleftrightarrow> physical_ms a < physical_ms b \<or>
     (physical_ms a = physical_ms b \<and> logical a \<le> logical b)"

definition less_hlc :: "hlc \<Rightarrow> hlc \<Rightarrow> bool" where
  "less_hlc a b \<longleftrightarrow> physical_ms a < physical_ms b \<or>
     (physical_ms a = physical_ms b \<and> logical a < logical b)"

instance
  by standard (auto simp: less_eq_hlc_def less_hlc_def hlc.expand)

end

section \<open>Spelling\<close>

definition WIRE_LEN :: nat where "WIRE_LEN = 29"

definition lower_hex :: "char \<Rightarrow> bool" where
  "lower_hex c \<longleftrightarrow> is_ascii_digit c \<or> (97 \<le> byte c \<and> byte c \<le> 102)"

definition hex_digit_value :: "char \<Rightarrow> nat" where
  "hex_digit_value c = (if is_ascii_digit c then byte c - 48 else byte c - 87)"

text \<open>\<open>from_str_radix(_, 16)\<close> on digits already checked to be lowercase hexadecimal.\<close>

definition hex_value :: "string \<Rightarrow> nat" where
  "hex_value s = foldl (\<lambda>n c. 16 * n + hex_digit_value c) 0 s"

definition hex_digit :: "nat \<Rightarrow> char" where
  "hex_digit n = char_of (if n < 10 then 48 + n else 87 + n)"

text \<open>Zero-padded lowercase hexadecimal of a fixed width, most significant digit first.\<close>

fun hex_fixed :: "nat \<Rightarrow> nat \<Rightarrow> string" where
  "hex_fixed 0 n = []"
| "hex_fixed (Suc w) n = hex_fixed w (n div 16) @ [hex_digit (n mod 16)]"

definition hlc_parse :: "string \<Rightarrow> hlc option" where
  "hlc_parse t =
     (if length t \<noteq> WIRE_LEN \<or> take 4 t \<noteq> ''hlc-'' \<or> t ! 20 \<noteq> CHR ''-'' then None
      else if \<not> list_all lower_hex (take 16 (drop 4 t)) \<or> \<not> list_all lower_hex (drop 21 t) then None
      else Some (Hlc (of_nat (hex_value (take 16 (drop 4 t)))) (of_nat (hex_value (drop 21 t)))))"

definition hlc_render :: "hlc \<Rightarrow> string" where
  "hlc_render h =
     ''hlc-'' @ hex_fixed 16 (unat (physical_ms h)) @ ''-'' @ hex_fixed 8 (unat (logical h))"

section \<open>Advance\<close>

definition hlc_advance :: "hlc \<Rightarrow> u64 \<Rightarrow> hlc option \<Rightarrow> hlc option" where
  "hlc_advance self now_ms remote =
     (let physical = u_max (u_max (physical_ms self) now_ms)
            (case remote of None \<Rightarrow> 0 | Some r \<Rightarrow> physical_ms r);
          bump = (\<lambda>l. map_option (Hlc physical) (checked_add l 1))
      in case remote of
           Some r \<Rightarrow>
             if physical = physical_ms self \<and> physical = physical_ms r then
               bump (u_max (logical self) (logical r))
             else if physical = physical_ms self then bump (logical self)
             else if physical = physical_ms r then bump (logical r)
             else Some (Hlc physical 0)
         | None \<Rightarrow>
             if physical = physical_ms self then bump (logical self)
             else Some (Hlc physical 0))"

section \<open>Spelling lemmas\<close>

lemma length_hex_fixed [simp]: "length (hex_fixed w n) = w"
  by (induction w n rule: hex_fixed.induct) auto

lemma byte_hex_digit: "n < 16 \<Longrightarrow> byte (hex_digit n) = (if n < 10 then 48 + n else 87 + n)"
  by (simp add: hex_digit_def)

lemma hex_digit_value_digit [simp]: "n < 16 \<Longrightarrow> hex_digit_value (hex_digit n) = n"
  by (simp add: hex_digit_value_def is_ascii_digit_def byte_hex_digit)

lemma lower_hex_digit [simp]: "n < 16 \<Longrightarrow> lower_hex (hex_digit n)"
  by (auto simp: lower_hex_def is_ascii_digit_def byte_hex_digit)

lemma hex_digit_of_value: "lower_hex c \<Longrightarrow> hex_digit (hex_digit_value c) = c"
  by (auto simp: lower_hex_def hex_digit_value_def hex_digit_def is_ascii_digit_def)

lemma hex_digit_value_less: "lower_hex c \<Longrightarrow> hex_digit_value c < 16"
  by (auto simp: lower_hex_def hex_digit_value_def is_ascii_digit_def)

lemma hex_value_snoc [simp]: "hex_value (s @ [c]) = 16 * hex_value s + hex_digit_value c"
  by (simp add: hex_value_def)

lemma hex_value_fixed: "n < 16 ^ w \<Longrightarrow> hex_value (hex_fixed w n) = n"
proof (induction w n rule: hex_fixed.induct)
  case (1 n)
  then show ?case by (simp add: hex_value_def)
next
  case (2 w n)
  then have "n div 16 < 16 ^ w" by (simp add: less_mult_imp_div_less mult.commute)
  then show ?case using 2 by simp
qed

lemma lower_hex_fixed: "list_all lower_hex (hex_fixed w n)"
  by (induction w n rule: hex_fixed.induct) auto

lemma hex_value_less: "list_all lower_hex s \<Longrightarrow> hex_value s < 16 ^ length s"
proof (induction s rule: rev_induct)
  case (snoc c s)
  then have "hex_value s + 1 \<le> 16 ^ length s" by simp
  then have "16 * (hex_value s + 1) \<le> 16 * 16 ^ length s" by (rule mult_le_mono2)
  moreover have "hex_digit_value c < 16" using snoc.prems hex_digit_value_less by simp
  ultimately show ?case by simp
qed (simp add: hex_value_def)

lemma hex_fixed_value: "list_all lower_hex s \<Longrightarrow> hex_fixed (length s) (hex_value s) = s"
proof (induction s rule: rev_induct)
  case (snoc c s)
  then have "hex_digit_value c < 16" using hex_digit_value_less by simp
  then show ?case using snoc hex_digit_of_value by simp
qed simp

lemma hlc_parse_render: "hlc_parse (hlc_render h) = Some h"
proof -
  let ?p = "hex_fixed 16 (unat (physical_ms h))" and ?l = "hex_fixed 8 (unat (logical h))"
  have r: "hlc_render h = ''hlc-'' @ ?p @ ''-'' @ ?l" by (simp add: hlc_render_def)
  have pieces: "take 4 (hlc_render h) = ''hlc-''" "take 16 (drop 4 (hlc_render h)) = ?p"
      "drop 21 (hlc_render h) = ?l" "hlc_render h ! 20 = CHR ''-''" "length (hlc_render h) = 29"
    unfolding r by (simp_all add: nth_append)
  have "unat (physical_ms h) < 16 ^ 16" "unat (logical h) < 16 ^ 8"
    using unsigned_less [of "physical_ms h", where 'a = nat] unsigned_less [of "logical h", where 'a = nat]
    by simp_all
  then show ?thesis
    using pieces hex_value_fixed lower_hex_fixed by (simp add: hlc_parse_def WIRE_LEN_def)
qed

lemma hlc_render_parse:
  assumes "hlc_parse t = Some h"
  shows "t = hlc_render h"
proof -
  define p where "p = take 16 (drop 4 t)"
  define l where "l = drop 21 t"
  have len: "length t = 29" and pre: "take 4 t = ''hlc-''" and dash: "t ! 20 = CHR ''-''"
    and hex: "list_all lower_hex p" "list_all lower_hex l"
    and h: "h = Hlc (of_nat (hex_value p)) (of_nat (hex_value l))"
    using assms by (auto simp: hlc_parse_def WIRE_LEN_def p_def l_def split: if_splits)
  have lens: "length p = 16" "length l = 8" using len by (simp_all add: p_def l_def)
  have "unat (of_nat (hex_value p) :: u64) = hex_value p" "unat (of_nat (hex_value l) :: u32) = hex_value l"
    using hex_value_less [OF hex(1)] hex_value_less [OF hex(2)] lens
    by (simp_all add: unat_of_nat_no_wrap)
  then have "hlc_render h = ''hlc-'' @ p @ ''-'' @ l"
    using hex_fixed_value [OF hex(1)] hex_fixed_value [OF hex(2)] lens h
    by (simp add: hlc_render_def)
  moreover have "t = take 4 t @ take 16 (drop 4 t) @ [t ! 20] @ drop 21 t"
  proof -
    have "drop 20 t = t ! 20 # drop 21 t" using Cons_nth_drop_Suc [of 20 t] len by simp
    moreover have "drop 4 t = take 16 (drop 4 t) @ drop 20 t"
      using append_take_drop_id [of 16 "drop 4 t"] by simp
    ultimately show ?thesis using append_take_drop_id [of 4 t] by simp
  qed
  ultimately show ?thesis using pre dash by (simp add: p_def l_def)
qed

section \<open>Clocks that stamp events\<close>

text \<open>
  What a host needs of an advance function: each stamp is above the previous one and above the
  remote evidence it merges. Stamping a run of events (the physical time and the received
  evidence of each) then yields strictly increasing stamps.
\<close>

fun stamp_events ::
  "('t \<Rightarrow> 'p \<Rightarrow> 't option \<Rightarrow> 't option) \<Rightarrow> 't \<Rightarrow> ('p \<times> 't option) list \<Rightarrow> 't list option" where
  "stamp_events tick t [] = Some []"
| "stamp_events tick t ((now, remote) # evs) = (case tick t now remote of
       None \<Rightarrow> None
     | Some t' \<Rightarrow> map_option ((#) t') (stamp_events tick t' evs))"

locale event_clock =
  fixes tick :: "'t::linorder \<Rightarrow> 'p \<Rightarrow> 't option \<Rightarrow> 't option"
  assumes tick_self: "tick t now remote = Some t' \<Longrightarrow> t < t'"
    and tick_remote: "tick t now (Some r) = Some t' \<Longrightarrow> r < t'"
begin

lemma stamps_increasing:
  "stamp_events tick t evs = Some ts \<Longrightarrow>
     sorted_wrt (<) (t # ts) \<and> length ts = length evs \<and>
     (\<forall>i < length evs. \<forall>r. snd (evs ! i) = Some r \<longrightarrow> r < ts ! i)"
proof (induction evs arbitrary: t ts)
  case (Cons e evs)
  obtain now remote where e: "e = (now, remote)" by (cases e)
  then obtain t' ts' where t': "tick t now remote = Some t'" "stamp_events tick t' evs = Some ts'"
      "ts = t' # ts'"
    using Cons.prems by (auto split: option.splits)
  note IH = Cons.IH [OF t'(2)]
  have "r < ts ! i" if "i < length (e # evs)" "snd ((e # evs) ! i) = Some r" for i r
    using that IH t' tick_remote e by (cases i) auto
  moreover have "sorted_wrt (<) (t # ts)"
    using IH t'(3) tick_self [OF t'(1)] by auto
  ultimately show ?case using IH t'(3) by simp
qed simp

end

lemma checked_add_one: "checked_add l (1::'a::len word) = Some l' \<Longrightarrow> l < l'"
  by (auto simp: checked_add_eq_Some word_less_nat_alt unat_add_no_wrap split: if_splits)

lemma checked_add_one_None: "checked_add l (1::'a::len word) = None \<longleftrightarrow> l = - 1"
proof -
  have "unat l < 2 ^ LENGTH('a)" by (rule unsigned_less)
  then have "unat l + 1 < 2 ^ LENGTH('a) \<longleftrightarrow> unat l \<noteq> 2 ^ LENGTH('a) - 1" by linarith
  then have "unat l + 1 < 2 ^ LENGTH('a) \<longleftrightarrow> l \<noteq> - 1"
    by (simp add: word_unat_eq_iff unsigned_minus_1_eq_mask mask_eq_exp_minus_1)
  then show ?thesis by (auto simp: checked_add_def split: if_splits)
qed

lemma u_max_ge: "a \<le> u_max a b" "b \<le> u_max a b"
  by (auto simp: u_max_def)

lemma u_max_less: "u_max a b < c \<longleftrightarrow> a < c \<and> b < c"
  by (auto simp: u_max_def)

definition advance_physical :: "hlc \<Rightarrow> u64 \<Rightarrow> hlc option \<Rightarrow> u64" where
  "advance_physical h now remote =
     u_max (u_max (physical_ms h) now) (case remote of None \<Rightarrow> 0 | Some r \<Rightarrow> physical_ms r)"

lemma advance_physical_ge:
  "physical_ms h \<le> advance_physical h now remote" "now \<le> advance_physical h now remote"
  "remote = Some r \<Longrightarrow> physical_ms r \<le> advance_physical h now remote"
  unfolding advance_physical_def
  by (rule order_trans [OF u_max_ge(1) u_max_ge(1)], rule order_trans [OF u_max_ge(2) u_max_ge(1)],
      simp add: u_max_ge)

lemma hlc_advance_Some:
  assumes "hlc_advance h now remote = Some h'"
  shows "physical_ms h' = advance_physical h now remote"
    "physical_ms h' = physical_ms h \<Longrightarrow> logical h < logical h'"
    "remote = Some r \<Longrightarrow> physical_ms h' = physical_ms r \<Longrightarrow> logical r < logical h'"
  using assms
  by (auto simp: hlc_advance_def Let_def advance_physical_def u_max_less dest!: checked_add_one
      split: option.splits if_splits)

lemma hlc_advance_above:
  assumes "hlc_advance h now remote = Some h'"
  shows "h < h'" "remote = Some r \<Longrightarrow> r < h'" "now \<le> physical_ms h'"
  using hlc_advance_Some [OF assms] advance_physical_ge [where h = h and now = now and remote = remote]
  by (auto simp: less_hlc_def order_le_less)

lemma u_max_eq_max: "u_max a b = - 1 \<longleftrightarrow> a = - 1 \<or> b = (- 1 :: 'a::len word)"
  by (auto simp: u_max_def intro: order.antisym)

lemma hlc_advance_None:
  "hlc_advance h now remote = None \<longleftrightarrow>
     (advance_physical h now remote = physical_ms h \<and> logical h = - 1) \<or>
     (\<exists>r. remote = Some r \<and> advance_physical h now remote = physical_ms r \<and> logical r = - 1)"
  by (auto simp: hlc_advance_def Let_def advance_physical_def checked_add_one_None u_max_eq_max
      split: option.splits)

interpretation hlc_clock: event_clock hlc_advance
  by unfold_locales (rule hlc_advance_above; simp)+

section \<open>Properties\<close>

text \<open>The spelling is canonical: a text is recognised as a timestamp exactly when it is that
  timestamp's own rendering.\<close>

lemma hlc_parse_exact: "hlc_parse t = Some h \<longleftrightarrow> t = hlc_render h"
  using hlc_parse_render hlc_render_parse by blast

text \<open>An advance returns evidence above the local clock and above the merged remote evidence,
  at the largest of the three physical times, and refuses exactly when the logical counter it would
  have to increment is saturated.\<close>

lemma hlc_advance_spec:
  "(hlc_advance h now remote = None \<longleftrightarrow>
      (\<exists>s \<in> insert h (set_option remote). logical s = - 1 \<and> now \<le> physical_ms s \<and>
         physical_ms ` insert h (set_option remote) \<subseteq> {..physical_ms s})) \<and>
   (case hlc_advance h now remote of
      None \<Rightarrow> True
    | Some h' \<Rightarrow> h < h' \<and> pred_option (\<lambda>r. r < h') remote \<and>
        physical_ms h' \<in> insert now (physical_ms ` insert h (set_option remote)) \<and>
        insert now (physical_ms ` insert h (set_option remote)) \<subseteq> {..physical_ms h'})"
proof (rule conjI)
  note ge = advance_physical_ge [where h = h and now = now and remote = remote]
  have mem: "advance_physical h now remote \<in> insert now (physical_ms ` insert h (set_option remote))"
    by (auto simp: advance_physical_def u_max_def split: option.splits)
  have top: "advance_physical h now remote = physical_ms s"
    if "s \<in> insert h (set_option remote)" "now \<le> physical_ms s"
      "physical_ms ` insert h (set_option remote) \<subseteq> {..physical_ms s}" for s
  proof (rule order.antisym)
    show "advance_physical h now remote \<le> physical_ms s" using mem that by auto
    show "physical_ms s \<le> advance_physical h now remote" using ge that(1) by auto
  qed
  show "hlc_advance h now remote = None \<longleftrightarrow>
      (\<exists>s \<in> insert h (set_option remote). logical s = - 1 \<and> now \<le> physical_ms s \<and>
         physical_ms ` insert h (set_option remote) \<subseteq> {..physical_ms s})"
  proof -
    have "hlc_advance h now remote = None \<longleftrightarrow> (\<exists>s \<in> insert h (set_option remote).
        logical s = - 1 \<and> advance_physical h now remote = physical_ms s)"
      unfolding hlc_advance_None by (cases remote) auto
    also have "\<dots> \<longleftrightarrow> (\<exists>s \<in> insert h (set_option remote). logical s = - 1 \<and> now \<le> physical_ms s \<and>
        physical_ms ` insert h (set_option remote) \<subseteq> {..physical_ms s})"
    proof (rule bex_cong [OF refl], rule conj_cong [OF refl], rule iffI)
      fix s assume s: "advance_physical h now remote = physical_ms s"
      show "now \<le> physical_ms s \<and> physical_ms ` insert h (set_option remote) \<subseteq> {..physical_ms s}"
        using ge [unfolded s] by (auto simp: s [symmetric])
    qed (use top in blast)
    finally show ?thesis .
  qed
  show "case hlc_advance h now remote of
      None \<Rightarrow> True
    | Some h' \<Rightarrow> h < h' \<and> pred_option (\<lambda>r. r < h') remote \<and>
        physical_ms h' \<in> insert now (physical_ms ` insert h (set_option remote)) \<and>
        insert now (physical_ms ` insert h (set_option remote)) \<subseteq> {..physical_ms h'}"
  proof (cases "hlc_advance h now remote")
    case (Some h')
    then show ?thesis
      using hlc_advance_above [OF Some] hlc_advance_Some(1) [OF Some] mem ge
      by (cases remote) simp_all
  qed simp
qed

text \<open>Stamping a run of events, each merging evidence received from others, gives strictly
  increasing timestamps, each above the evidence it merged: issued stamps never repeat.\<close>

lemma hlc_stamps_increasing:
  assumes "stamp_events hlc_advance h evs = Some hs"
  shows "sorted_wrt (<) (h # hs) \<and> length hs = length evs \<and>
    (\<forall>i < length evs. \<forall>r. snd (evs ! i) = Some r \<longrightarrow> r < hs ! i)"
  using assms by (rule hlc_clock.stamps_increasing)

lemma hlc_stamps_increasing_witness:
  "sorted_wrt (<) [Hlc 5 0, Hlc 5 1, Hlc 9 4]"
  using hlc_stamps_increasing [of "Hlc 5 0" "[(3, None), (7, Some (Hlc 9 3))]" "[Hlc 5 1, Hlc 9 4]"]
  by (simp add: hlc_advance_def u_max_def checked_add_def Let_def)

end
