(* ===== verification/Cbcl_Shape.thy ===== *)
theory Cbcl_Shape
  imports Cbcl_Sexpr Cbcl_Hlc
begin

text \<open>
  The structural shape constraints of \<open>cbcl-core/src/shape.rs\<close>: rules, the run-time check of an
  expanded message with its violations, and the install-time walks over a rule tree (declared
  depth bounds, duplicate keywords) that R5 uses.
\<close>

section \<open>Data\<close>

datatype type_constraint = TString | THlc | TNumber | TBool | TSymbol | TKeyword | TList

definition type_constraint_from_str :: "string \<Rightarrow> type_constraint option" where
  "type_constraint_from_str s =
     (if s = ''string'' then Some TString
      else if s = ''hlc'' then Some THlc
      else if s = ''number'' then Some TNumber
      else if s = ''bool'' then Some TBool
      else if s = ''symbol'' then Some TSymbol
      else if s = ''keyword'' then Some TKeyword
      else if s = ''list'' then Some TList
      else None)"

definition type_matches :: "type_constraint \<Rightarrow> sexpr \<Rightarrow> bool" where
  "type_matches tc e = (case (tc, e) of
       (THlc, Atom (Str t)) \<Rightarrow> hlc_parse t \<noteq> None
     | (TString, Atom (Str _)) \<Rightarrow> True
     | (TNumber, Atom (Num _)) \<Rightarrow> True
     | (TBool, Atom (Bool _)) \<Rightarrow> True
     | (TSymbol, Atom (Symbol _)) \<Rightarrow> True
     | (TKeyword, Atom (Keyword _)) \<Rightarrow> True
     | (TList, List _) \<Rightarrow> True
     | _ \<Rightarrow> False)"

definition display_type :: "type_constraint \<Rightarrow> string" where
  "display_type tc = (case tc of
       TString \<Rightarrow> ''string'' | THlc \<Rightarrow> ''hlc'' | TNumber \<Rightarrow> ''number'' | TBool \<Rightarrow> ''bool''
     | TSymbol \<Rightarrow> ''symbol'' | TKeyword \<Rightarrow> ''keyword'' | TList \<Rightarrow> ''list'')"

datatype shape_rule =
    Require string "type_constraint option" "shape_rule list"
  | Optional string "type_constraint option" "sexpr option" "shape_rule list"
  | MaxDepth u32

record shape_constraint =
  shape_performative :: string
  shape_rules :: "shape_rule list"

record shape_violation =
  v_rule :: string
  v_field :: "string option"
  v_expected :: "string option"
  v_found :: "string option"
  v_detail :: string

section \<open>The run-time check\<close>

definition describe_type :: "sexpr \<Rightarrow> string" where
  "describe_type e = (case e of
       Atom (Str _) \<Rightarrow> ''string'' | Atom (Num _) \<Rightarrow> ''number'' | Atom (Bool _) \<Rightarrow> ''bool''
     | Atom (Symbol _) \<Rightarrow> ''symbol'' | Atom (Keyword _) \<Rightarrow> ''keyword'' | List _ \<Rightarrow> ''list'')"

text \<open>The scan for the first occurrence of the keyword, then \<open>items.get(i + 1)\<close>.\<close>

fun keyword_scan :: "sexpr list \<Rightarrow> string \<Rightarrow> sexpr option" where
  "keyword_scan [] keyword = None"
| "keyword_scan (x # xs) keyword =
     (if x = Atom (Keyword keyword) then (case xs of [] \<Rightarrow> None | v # _ \<Rightarrow> Some v)
      else keyword_scan xs keyword)"

definition find_keyword_value :: "sexpr \<Rightarrow> string \<Rightarrow> sexpr option" where
  "find_keyword_value e keyword = (case e of List items \<Rightarrow> keyword_scan items keyword | _ \<Rightarrow> None)"

definition missing_violation :: "string \<Rightarrow> shape_violation" where
  "missing_violation k =
     \<lparr>v_rule = ''require :'' @ k, v_field = Some ('':'' @ k), v_expected = Some ''present'',
      v_found = Some ''missing'', v_detail = ''required parameter :'' @ k @ '' is missing''\<rparr>"

definition type_violation :: "string \<Rightarrow> string \<Rightarrow> type_constraint \<Rightarrow> sexpr \<Rightarrow> shape_violation" where
  "type_violation kind k tc value =
     \<lparr>v_rule = kind @ '' :'' @ k @ '' '' @ display_type tc, v_field = Some ('':'' @ k),
      v_expected = Some (display_type tc), v_found = Some (describe_type value),
      v_detail = ''parameter :'' @ k @ '' expected type '' @ display_type tc @ '', found '' @
        describe_type value\<rparr>"

definition depth_violation :: "u32 \<Rightarrow> u32 \<Rightarrow> shape_violation" where
  "depth_violation d m =
     \<lparr>v_rule = ''max-depth '' @ show_nat (unat m), v_field = None,
      v_expected = Some (''<= '' @ show_nat (unat m)), v_found = Some (show_nat (unat d)),
      v_detail = ''message depth '' @ show_nat (unat d) @ '' exceeds max-depth '' @
        show_nat (unat m)\<rparr>"

definition check_type ::
  "string \<Rightarrow> string \<Rightarrow> type_constraint option \<Rightarrow> sexpr \<Rightarrow> (shape_violation, unit) result" where
  "check_type kind k tco value = (case tco of
       Some tc \<Rightarrow> if type_matches tc value then Inr () else Inl (type_violation kind k tc value)
     | None \<Rightarrow> Inr ())"

fun check_rule :: "shape_rule \<Rightarrow> sexpr \<Rightarrow> (shape_violation, unit) result"
and check_rules :: "shape_rule list \<Rightarrow> sexpr \<Rightarrow> (shape_violation, unit) result" where
  "check_rule (Require k tco children) e = (case find_keyword_value e k of
       None \<Rightarrow> Inl (missing_violation k)
     | Some value \<Rightarrow> (case check_type ''require'' k tco value of
           Inl v \<Rightarrow> Inl v
         | Inr _ \<Rightarrow> check_rules children value))"
| "check_rule (Optional k tco _ children) e = (case find_keyword_value e k of
       None \<Rightarrow> Inr ()
     | Some value \<Rightarrow> (case check_type ''optional'' k tco value of
           Inl v \<Rightarrow> Inl v
         | Inr _ \<Rightarrow> check_rules children value))"
| "check_rule (MaxDepth m) e =
     (let d = of_nat (depth e) :: u32 in if m < d then Inl (depth_violation d m) else Inr ())"
| "check_rules [] e = Inr ()"
| "check_rules (r # rs) e = (case check_rule r e of Inl v \<Rightarrow> Inl v | Inr _ \<Rightarrow> check_rules rs e)"

definition shape_check :: "shape_constraint \<Rightarrow> sexpr \<Rightarrow> (shape_violation, unit) result" where
  "shape_check c e = check_rules (shape_rules c) e"

section \<open>The install-time walks\<close>

fun rule_max_depths :: "shape_rule \<Rightarrow> u32 list"
and collect_max_depths :: "shape_rule list \<Rightarrow> u32 list" where
  "rule_max_depths (MaxDepth d) = [d]"
| "rule_max_depths (Require _ _ children) = collect_max_depths children"
| "rule_max_depths (Optional _ _ _ children) = collect_max_depths children"
| "collect_max_depths [] = []"
| "collect_max_depths (r # rs) = rule_max_depths r @ collect_max_depths rs"

definition max_depths :: "shape_constraint \<Rightarrow> u32 list" where
  "max_depths c = collect_max_depths (shape_rules c)"

definition shape_max_depth :: "shape_constraint \<Rightarrow> u32 option" where
  "shape_max_depth c = (case max_depths c of [] \<Rightarrow> None | d # _ \<Rightarrow> Some d)"

definition rule_parts :: "shape_rule \<Rightarrow> (string \<times> shape_rule list) option" where
  "rule_parts r = (case r of
       Require k _ children \<Rightarrow> Some (k, children)
     | Optional k _ _ children \<Rightarrow> Some (k, children)
     | MaxDepth _ \<Rightarrow> None)"

lemma rule_parts_smaller: "rule_parts r = Some (k, children) \<Longrightarrow> size_list size children < size r"
  by (auto simp: rule_parts_def split: shape_rule.splits)

function walk_keywords ::
  "shape_rule list \<Rightarrow> nat \<Rightarrow> string btset \<Rightarrow> (string, unit) result" where
  "walk_keywords [] d seen = Inr ()"
| "walk_keywords (r # rs) d seen = (case rule_parts r of
       None \<Rightarrow> walk_keywords rs d seen
     | Some (k, children) \<Rightarrow>
         if k \<in> set seen
         then Inl (''duplicate keyword :'' @ k @ '' at depth '' @ show_nat d)
         else (case walk_keywords children (d + 1) [] of
             Inl e \<Rightarrow> Inl e
           | Inr _ \<Rightarrow> walk_keywords rs d (bs_insert k seen)))"
  by pat_completeness auto
termination
  by (relation "measure (\<lambda>(rs, _, _). size_list size rs)") (auto dest: rule_parts_smaller)

definition no_duplicate_keywords :: "shape_constraint \<Rightarrow> (string, unit) result" where
  "no_duplicate_keywords c = walk_keywords (shape_rules c) 0 []"

fun empty_keywords_rule :: "shape_rule \<Rightarrow> string list"
and check_keywords_valid :: "shape_rule list \<Rightarrow> string list" where
  "empty_keywords_rule (Require k _ children) =
     (if k = [] then [''shape rule has empty keyword''] else []) @ check_keywords_valid children"
| "empty_keywords_rule (Optional k _ _ children) =
     (if k = [] then [''shape rule has empty keyword''] else []) @ check_keywords_valid children"
| "empty_keywords_rule (MaxDepth _) = []"
| "check_keywords_valid [] = []"
| "check_keywords_valid (r # rs) = empty_keywords_rule r @ check_keywords_valid rs"

section \<open>What the check means\<close>

text \<open>
  \<open>shape_applies rules e r v\<close>: checking \<open>e\<close> against \<open>rules\<close> requires rule \<open>r\<close> of the subtree
  \<open>v\<close>: a rule of the list applies to \<open>e\<close> itself, and a child of an applied rule applies to the
  value its parent's keyword has there.
\<close>

inductive shape_applies :: "shape_rule list \<Rightarrow> sexpr \<Rightarrow> shape_rule \<Rightarrow> sexpr \<Rightarrow> bool"
  for rules e where
  top: "r \<in> set rules \<Longrightarrow> shape_applies rules e r e"
| child: "shape_applies rules e p w \<Longrightarrow> rule_parts p = Some (k, children) \<Longrightarrow>
    find_keyword_value w k = Some v \<Longrightarrow> r \<in> set children \<Longrightarrow> shape_applies rules e r v"

definition type_ok :: "type_constraint option \<Rightarrow> sexpr option \<Rightarrow> bool" where
  "type_ok tco v \<longleftrightarrow> (\<forall>tc x. tco = Some tc \<longrightarrow> v = Some x \<longrightarrow> type_matches tc x)"

definition rule_ok :: "shape_rule \<Rightarrow> sexpr \<Rightarrow> bool" where
  "rule_ok r v = (case r of
       Require k tco _ \<Rightarrow> find_keyword_value v k \<noteq> None \<and> type_ok tco (find_keyword_value v k)
     | Optional k tco _ _ \<Rightarrow> type_ok tco (find_keyword_value v k)
     | MaxDepth m \<Rightarrow> (of_nat (depth v) :: u32) \<le> m)"

lemma check_type_ok: "check_type kind k tco v = Inr u \<longleftrightarrow> type_ok tco (Some v)"
  by (auto simp: check_type_def type_ok_def split: option.splits)

lemma check_type_fails: "check_type kind k tco v = Inl x \<Longrightarrow> \<not> type_ok tco (Some v)"
  by (auto simp: check_type_def type_ok_def split: option.splits if_splits)

lemma check_rules_ok: "check_rules rs e = Inr u \<longleftrightarrow> (\<forall>r \<in> set rs. check_rule r e = Inr ())"
  by (induction rs) (auto split: sum.splits)

lemma check_rule_ok:
  "check_rule r e = Inr u \<longleftrightarrow> rule_ok r e \<and>
     (\<forall>k children v. rule_parts r = Some (k, children) \<longrightarrow> find_keyword_value e k = Some v \<longrightarrow>
        check_rules children v = Inr ())"
  by (cases r)
     (auto simp: rule_ok_def rule_parts_def Let_def type_ok_def [of _ None] not_less check_type_ok
        split: option.splits sum.splits dest: check_type_fails)

lemma checked_rule_ok: "check_rule r e = Inr u \<Longrightarrow> rule_ok r e"
  using check_rule_ok [of r e u] by blast

lemma checked_children:
  "check_rule r e = Inr u \<Longrightarrow> rule_parts r = Some (k, children) \<Longrightarrow>
     find_keyword_value e k = Some v \<Longrightarrow> check_rules children v = Inr ()"
  using check_rule_ok [of r e u] by blast

lemma shape_applies_checked:
  "shape_applies rules e r v \<Longrightarrow> check_rules rules e = Inr () \<Longrightarrow> check_rule r v = Inr ()"
proof (induction rule: shape_applies.induct)
  case (top r)
  then show ?case by (simp add: check_rules_ok)
next
  case (child p w k children v r)
  then have "check_rules children v = Inr ()" using checked_children by blast
  then show ?case using child.hyps(4) by (simp add: check_rules_ok)
qed

lemma shape_applies_complete:
  assumes "\<And>r v. shape_applies rules e r v \<Longrightarrow> rule_ok r v"
  shows "check_rules rules e = Inr ()"
proof -
  have "shape_applies [r] e r e \<and> (\<forall>r' v. shape_applies [r] e r' v \<longrightarrow> rule_ok r' v) \<longrightarrow>
      check_rule r e = Inr ()" for r :: shape_rule and e
  proof (induction "size r" arbitrary: r e rule: less_induct)
    case less
    show ?case
    proof
      assume *: "shape_applies [r] e r e \<and> (\<forall>r' v. shape_applies [r] e r' v \<longrightarrow> rule_ok r' v)"
      have "check_rules children v = Inr ()"
        if p: "rule_parts r = Some (k, children)" and v: "find_keyword_value e k = Some v"
        for k children v
      proof -
        have "check_rule c v = Inr ()" if c: "c \<in> set children" for c
        proof (rule less.hyps [THEN mp])
          have "size c \<le> size_list size children" using c by (rule size_list_estimation') simp
          then show "size c < size r" using rule_parts_smaller [OF p] by simp
          have "shape_applies [r] e r' w" if "shape_applies [c] v r' w" for r' w
            using that
          proof (induction rule: shape_applies.induct)
            case (top r')
            then show ?case
              using shape_applies.child [OF shape_applies.top p v c, of "[r]"] by simp
          next
            case (child p' w' k' children' v' r')
            then show ?case using shape_applies.child by blast
          qed
          then show "shape_applies [c] v c v \<and> (\<forall>r' w. shape_applies [c] v r' w \<longrightarrow> rule_ok r' w)"
            using * shape_applies.top [of c "[c]"] by auto
        qed
        then show ?thesis by (simp add: check_rules_ok)
      qed
      then show "check_rule r e = Inr ()" using * check_rule_ok [of r e "()"] by blast
    qed
  qed
  moreover have "shape_applies rules e r' v" if "r \<in> set rules" "shape_applies [r] e r' v" for r r' v
    using that(2)
  proof (induction rule: shape_applies.induct)
    case (top r')
    then show ?case using that(1) shape_applies.top by simp
  next
    case (child p' w' k' children' v' r')
    then show ?case using shape_applies.child by blast
  qed
  moreover have "shape_applies [r] e r e" for r by (simp add: shape_applies.top)
  ultimately have "\<forall>r \<in> set rules. check_rule r e = Inr ()" using assms by blast
  then show ?thesis by (simp add: check_rules_ok)
qed

text \<open>All lists of sibling rules of a rule tree.\<close>

fun sibling_lists_rule :: "shape_rule \<Rightarrow> shape_rule list list"
and sibling_lists_below :: "shape_rule list \<Rightarrow> shape_rule list list" where
  "sibling_lists_rule (Require _ _ children) = children # sibling_lists_below children"
| "sibling_lists_rule (Optional _ _ _ children) = children # sibling_lists_below children"
| "sibling_lists_rule (MaxDepth _) = []"
| "sibling_lists_below [] = []"
| "sibling_lists_below (r # rs) = sibling_lists_rule r @ sibling_lists_below rs"

definition rule_keywords :: "shape_rule list \<Rightarrow> string list" where
  "rule_keywords rs = List.map_filter (map_option fst \<circ> rule_parts) rs"

lemma rule_keywords_Cons:
  "rule_keywords (r # rs) =
     (case rule_parts r of None \<Rightarrow> rule_keywords rs | Some (k, _) \<Rightarrow> k # rule_keywords rs)"
  by (auto simp: rule_keywords_def List.map_filter_simps split: option.splits)

lemma sibling_lists_rule_parts:
  "sibling_lists_rule r = (case rule_parts r of
     None \<Rightarrow> [] | Some (_, children) \<Rightarrow> children # sibling_lists_below children)"
  by (cases r) (simp_all add: rule_parts_def)

definition siblings_distinct :: "shape_rule list \<Rightarrow> bool" where
  "siblings_distinct rs \<longleftrightarrow> list_all (\<lambda>l. distinct (rule_keywords l)) (sibling_lists_below rs)"

lemma walk_keywords_ok:
  "walk_keywords rs d seen = Inr u \<longleftrightarrow>
     distinct (rule_keywords rs) \<and> set (rule_keywords rs) \<inter> set seen = {} \<and> siblings_distinct rs"
proof (induction rs d seen arbitrary: u rule: walk_keywords.induct)
  case (2 r rs d seen)
  show ?case
  proof (cases "rule_parts r")
    case None
    then show ?thesis
      using 2 by (simp add: rule_keywords_Cons siblings_distinct_def sibling_lists_rule_parts)
  next
    case (Some kc)
    obtain k children where kc: "kc = (k, children)" by (cases kc)
    show ?thesis
    proof (cases "k \<in> set seen")
      case True
      then show ?thesis using Some kc by (simp add: rule_keywords_Cons)
    next
      case False
      have IH: "walk_keywords children (d + 1) [] = Inr u \<longleftrightarrow>
          distinct (rule_keywords children) \<and> siblings_distinct children" for u
        using 2(2) [OF Some kc [symmetric]] False by simp
      have IH2: "walk_keywords children (d + 1) [] = Inr u' \<Longrightarrow>
         walk_keywords rs d (bs_insert k seen) = Inr u \<longleftrightarrow> distinct (rule_keywords rs) \<and>
          set (rule_keywords rs) \<inter> set (bs_insert k seen) = {} \<and> siblings_distinct rs" for u' u
        using 2(3) [OF Some kc [symmetric]] False by simp
      show ?thesis
        using Some kc False IH IH2
        by (cases "walk_keywords children (d + 1) []")
           (auto simp: rule_keywords_Cons siblings_distinct_def sibling_lists_rule_parts)
    qed
  qed
qed (simp add: rule_keywords_def siblings_distinct_def List.map_filter_simps)

section \<open>Properties\<close>

text \<open>The shape check accepts a message exactly when every rule that applies anywhere below it
  holds of the subtree it applies to: required keywords are present, constrained values have their
  type and depth bounds hold.\<close>

lemma shape_check_exact:
  "shape_check c e = Inr () \<longleftrightarrow>
     {(r, v). shape_applies (shape_rules c) e r v} \<subseteq> {(r, v). rule_ok r v}"
  using shape_applies_checked [of "shape_rules c" e] shape_applies_complete [of "shape_rules c" e]
    checked_rule_ok unfolding shape_check_def by blast

text \<open>The duplicate-keyword walk accepts a rule tree exactly when, in every list of sibling rules
  anywhere in the tree, no keyword is constrained twice.\<close>

lemma no_duplicate_keywords_exact:
  "no_duplicate_keywords c = Inr () \<longleftrightarrow>
     distinct (rule_keywords (shape_rules c)) \<and>
     list_all (\<lambda>siblings. distinct (rule_keywords siblings)) (sibling_lists_below (shape_rules c))"
  by (simp add: no_duplicate_keywords_def walk_keywords_ok siblings_distinct_def)

end
