(* ===== verification/Cbcl_Graph.thy ===== *)
theory Cbcl_Graph
  imports Cbcl_Prelude
begin

text \<open>
  The graph searches the install-time checks run over \<open>BTreeMap<name, BTreeSet<name>>\<close>: the
  three-colour depth-first search \<open>dfs_cycle\<close> and the worklist of \<open>check_reachability\<close>
  (\<open>cbcl-core/src/protocol.rs\<close>), and the path search \<open>reaches_cycle\<close> of \<open>r1.rs\<close>. Each is shown
  to decide the relation it is meant to decide.
\<close>

section \<open>Graphs\<close>

type_synonym digraph = "(string, string btset) btmap"

definition neighbors :: "digraph \<Rightarrow> string \<Rightarrow> string list" where
  "neighbors g n = (case bt_get g n of None \<Rightarrow> [] | Some ns \<Rightarrow> ns)"

definition edges :: "digraph \<Rightarrow> (string \<times> string) set" where
  "edges g = {(a, b). b \<in> set (neighbors g a)}"

lemma edges_iff [simp]: "(a, b) \<in> edges g \<longleftrightarrow> b \<in> set (neighbors g a)"
  by (simp add: edges_def)

lemma neighbors_key: "b \<in> set (neighbors g a) \<Longrightarrow> a \<in> set (bt_keys g)"
  by (cases "bt_get g a") (auto simp: neighbors_def map_of_eq_None_iff dest: map_of_SomeD intro: rev_image_eqI)

section \<open>Worklist reachability\<close>

text \<open>
  \<open>queue.pop()\<close> takes the newest entry: the queue is a list with its top first. One step visits
  the neighbours in order, pushing those that \<open>visited.insert\<close> reports as new.
\<close>

definition visit_neighbor :: "string list \<times> string btset \<Rightarrow> string \<Rightarrow> string list \<times> string btset" where
  "visit_neighbor qv next = (case qv of (queue, visited) \<Rightarrow>
     if next \<in> set visited then (queue, visited) else (next # queue, bs_insert next visited))"

definition visit_neighbors :: "string list \<Rightarrow> string list \<times> string btset \<Rightarrow> string list \<times> string btset" where
  "visit_neighbors ns qv = foldl visit_neighbor qv ns"

definition unvisited :: "digraph \<Rightarrow> string btset \<Rightarrow> nat" where
  "unvisited g visited = card ((\<Union>n. set (neighbors g n)) - set visited)"

lemma finite_neighbors: "finite (\<Union>n. set (neighbors g n))"
proof (rule finite_subset)
  show "(\<Union>n. set (neighbors g n)) \<subseteq> (\<Union>n \<in> set (bt_keys g). set (neighbors g n))"
    using neighbors_key by blast
qed simp

lemma visit_neighbors_measure:
  "set ns \<subseteq> N \<Longrightarrow> finite N \<Longrightarrow> visit_neighbors ns (q, v) = (q', v') \<Longrightarrow>
     length q' + card (N - set v') = length q + card (N - set v)"
proof (induction ns arbitrary: q v)
  case (Cons n ns)
  show ?case
  proof (cases "n \<in> set v")
    case True
    then show ?thesis using Cons by (simp add: visit_neighbors_def visit_neighbor_def)
  next
    case False
    have "N - set (bs_insert n v) = (N - set v) - {n}" by auto
    moreover have "Suc (card (N - set v - {n})) = card (N - set v)"
      using Cons.prems(1,2) False by (intro card_Suc_Diff1) auto
    ultimately have "Suc (card (N - set (bs_insert n v))) = card (N - set v)" by simp
    then show ?thesis
      using Cons.IH [of "n # q" "bs_insert n v"] Cons.prems False
      by (simp add: visit_neighbors_def visit_neighbor_def)
  qed
qed (simp add: visit_neighbors_def)

lemma visit_neighbors_step:
  "(q', v') = visit_neighbors (neighbors g c) (q, v) \<Longrightarrow>
     length q' + unvisited g v' = length q + unvisited g v"
  unfolding unvisited_def by (intro visit_neighbors_measure [OF _ finite_neighbors]) auto

function reach_loop :: "digraph \<Rightarrow> string list \<Rightarrow> string btset \<Rightarrow> string btset" where
  "reach_loop g [] visited = visited"
| "reach_loop g (current # queue) visited =
     (case visit_neighbors (neighbors g current) (queue, visited) of
        (queue', visited') \<Rightarrow> reach_loop g queue' visited')"
  by pat_completeness auto
termination
  by (relation "measure (\<lambda>(g, queue, visited). length queue + unvisited g visited)",
      simp, drule visit_neighbors_step, simp)

lemma visit_neighbors_sets:
  "visit_neighbors ns (q, v) = (q', v') \<Longrightarrow>
     set v' = set v \<union> set ns \<and> set q \<subseteq> set q' \<and> set q' \<subseteq> set q \<union> set ns \<and> set v' - set v \<subseteq> set q'"
proof (induction ns arbitrary: q v)
  case (Cons n ns)
  show ?case
  proof (cases "n \<in> set v")
    case True
    then show ?thesis using Cons by (fastforce simp: visit_neighbors_def visit_neighbor_def)
  next
    case False
    then have "visit_neighbors ns (n # q, bs_insert n v) = (q', v')"
      using Cons.prems by (simp add: visit_neighbors_def visit_neighbor_def)
    from Cons.IH [OF this] show ?thesis by auto
  qed
qed (simp add: visit_neighbors_def)

lemma reach_loop_exact:
  assumes "set queue \<subseteq> set visited"
    "\<And>a b. a \<in> set visited - set queue \<Longrightarrow> (a, b) \<in> edges g \<Longrightarrow> b \<in> set visited"
  shows "set (reach_loop g queue visited) = (edges g)\<^sup>* `` set visited"
  using assms
proof (induction g queue visited rule: reach_loop.induct)
  case (1 g visited)
  then have "edges g `` set visited \<subseteq> set visited" by auto
  then show ?case by (simp add: Image_closed_trancl)
next
  case (2 g current queue visited)
  obtain q v where qv: "visit_neighbors (neighbors g current) (queue, visited) = (q, v)"
    by fastforce
  note sets = visit_neighbors_sets [OF qv]
  have cur: "current \<in> set visited" using "2.prems"(1) by simp
  have "set q \<subseteq> set v" using sets "2.prems"(1) by auto
  moreover have "b \<in> set v" if "a \<in> set v - set q" "(a, b) \<in> edges g" for a b
    using that sets "2.prems"(2) [of a b] by (cases "a = current") auto
  ultimately have "set (reach_loop g q v) = (edges g)\<^sup>* `` set v"
    using "2.IH" [OF qv [symmetric]] by blast
  also have "\<dots> = (edges g)\<^sup>* `` set visited"
  proof -
    have "(edges g)\<^sup>* `` set (neighbors g current) \<subseteq> (edges g)\<^sup>* `` set visited"
      using cur converse_rtrancl_into_rtrancl [of current _ "edges g"] by fastforce
    then show ?thesis using sets by (auto simp: Image_Un)
  qed
  finally show ?case using qv by simp
qed

section \<open>Three-colour depth-first search\<close>

text \<open>
  Colours are the \<open>u8\<close> values 0 (white, also for an absent entry), 1 (gray) and 2 (black). The
  search threads the colours, the path and the cycles found so far.
\<close>

record dfs_state =
  color :: "(string, nat) btmap"
  path :: "string list"
  cycles :: "string list list"

definition color_of :: "dfs_state \<Rightarrow> string \<Rightarrow> nat" where
  "color_of st n = (case bt_get (color st) n of None \<Rightarrow> 0 | Some c \<Rightarrow> c)"

definition paint :: "string \<Rightarrow> nat \<Rightarrow> dfs_state \<Rightarrow> dfs_state" where
  "paint n c st = st\<lparr>color := bt_insert n c (color st)\<rparr>"

definition enter_node :: "string \<Rightarrow> dfs_state \<Rightarrow> dfs_state" where
  "enter_node n st = (paint n 1 st)\<lparr>path := path st @ [n]\<rparr>"

definition leave_node :: "string \<Rightarrow> dfs_state \<Rightarrow> dfs_state" where
  "leave_node n st = paint n 2 (st\<lparr>path := butlast (path st)\<rparr>)"

text \<open>A back edge: the path from the first occurrence of the gray target on.\<close>

definition back_edge :: "string \<Rightarrow> dfs_state \<Rightarrow> dfs_state" where
  "back_edge next st =
     (if next \<in> set (path st)
      then st\<lparr>cycles := cycles st @ [dropWhile (\<lambda>n. n \<noteq> next) (path st)]\<rparr>
      else st)"

definition white_count :: "digraph \<Rightarrow> dfs_state \<Rightarrow> nat" where
  "white_count g st = card {n \<in> set (bt_keys g). color_of st n = 0}"

function (domintros) dfs_cycle :: "digraph \<Rightarrow> string \<Rightarrow> dfs_state \<Rightarrow> dfs_state"
and dfs_neighbors :: "digraph \<Rightarrow> string list \<Rightarrow> dfs_state \<Rightarrow> dfs_state" where
  "dfs_cycle g node st = leave_node node (dfs_neighbors g (neighbors g node) (enter_node node st))"
| "dfs_neighbors g [] st = st"
| "dfs_neighbors g (next # rest) st =
     dfs_neighbors g rest
       (if color_of st next = 0 then dfs_cycle g next st
        else if color_of st next = 1 then back_edge next st
        else st)"
  by pat_completeness auto

lemma color_of_paint [simp]: "color_of (paint n c st) m = (if m = n then c else color_of st m)"
  by (simp add: color_of_def paint_def)

lemma color_of_enter [simp]: "color_of (enter_node n st) m = (if m = n then 1 else color_of st m)"
  using color_of_paint [of n 1 st m] by (simp add: enter_node_def color_of_def paint_def)

lemma color_of_leave [simp]: "color_of (leave_node n st) m = (if m = n then 2 else color_of st m)"
  by (simp add: leave_node_def color_of_def paint_def)

lemma color_of_back_edge [simp]: "color_of (back_edge n st) m = color_of st m"
  by (simp add: back_edge_def color_of_def)

text \<open>Colours never become white again.\<close>

lemma dfs_nonwhite:
  "dfs_cycle_dfs_neighbors_dom (Inl (g, node, st)) \<Longrightarrow>
     color_of st n \<noteq> 0 \<Longrightarrow> color_of (dfs_cycle g node st) n \<noteq> 0"
  "dfs_cycle_dfs_neighbors_dom (Inr (g, ns, st)) \<Longrightarrow>
     color_of st n \<noteq> 0 \<Longrightarrow> color_of (dfs_neighbors g ns st) n \<noteq> 0"
  by (induction g node st and g ns st rule: dfs_cycle_dfs_neighbors.pinduct)
     (auto simp: dfs_cycle.psimps dfs_neighbors.psimps)

lemma white_count_mono:
  assumes "\<And>n. color_of st n \<noteq> 0 \<Longrightarrow> color_of st' n \<noteq> 0"
  shows "white_count g st' \<le> white_count g st"
  unfolding white_count_def
proof (rule card_mono)
  show "{n \<in> set (bt_keys g). color_of st' n = 0} \<subseteq> {n \<in> set (bt_keys g). color_of st n = 0}"
    using assms by blast
qed simp

lemma white_count_enter:
  assumes "color_of st n = 0" "n \<in> set (bt_keys g)"
  shows "white_count g (enter_node n st) < white_count g st"
  unfolding white_count_def by (rule psubset_card_mono) (use assms in auto)

lemma white_count_enter_le: "white_count g (enter_node n st) \<le> white_count g st"
  by (rule white_count_mono) auto

termination dfs_cycle
proof (relation "inv_image (less_than <*lex*> less_than) (case_sum
    (\<lambda>(g, node, st). (white_count g (enter_node node st), 3 * length (neighbors g node) + 2))
    (\<lambda>(g, ns, st). (white_count g st, 3 * length ns + 1)))")
  fix g :: digraph and "next" rest st
  show "(Inl (g, next, st), Inr (g, next # rest, st)) \<in> inv_image (less_than <*lex*> less_than) (case_sum
    (\<lambda>(g, node, st). (white_count g (enter_node node st), 3 * length (neighbors g node) + 2))
    (\<lambda>(g, ns, st). (white_count g st, 3 * length ns + 1)))" if "color_of st next = 0"
  proof (cases "next \<in> set (bt_keys g)")
    case True
    then show ?thesis using white_count_enter [OF that] by simp
  next
    case False
    then have "neighbors g next = []" using neighbors_key [of _ g "next"] by (cases "neighbors g next") auto
    then show ?thesis using white_count_enter_le [of g "next" st] by (auto simp: order_le_less)
  qed
next
  fix g :: digraph and "next" rest st
  assume dom: "color_of st next = 0 \<Longrightarrow> dfs_cycle_dfs_neighbors_dom (Inl (g, next, st))"
  let ?st = "if color_of st next = 0 then dfs_cycle g next st
    else if color_of st next = 1 then back_edge next st else st"
  have "white_count g ?st \<le> white_count g st"
    by (rule white_count_mono) (use dfs_nonwhite(1) dom in auto)
  then show "(Inr (g, rest, ?st), Inr (g, next # rest, st)) \<in> inv_image (less_than <*lex*> less_than) (case_sum
    (\<lambda>(g, node, st). (white_count g (enter_node node st), 3 * length (neighbors g node) + 2))
    (\<lambda>(g, ns, st). (white_count g st, 3 * length ns + 1)))"
    by (auto simp: order_le_less)
qed auto

definition find_cycles :: "digraph \<Rightarrow> string list list" where
  "find_cycles g =
     cycles (foldl (\<lambda>st node. if color_of st node = 0 then dfs_cycle g node st else st)
       \<lparr>color = [], path = [], cycles = []\<rparr> (bt_keys g))"

declare dfs_cycle.simps [simp del]

lemma path_simps [simp]:
  "path (enter_node n st) = path st @ [n]" "path (leave_node n st) = butlast (path st)"
  "path (back_edge n st) = path st"
  "cycles (enter_node n st) = cycles st" "cycles (leave_node n st) = cycles st"
  by (simp_all add: enter_node_def leave_node_def back_edge_def paint_def)

lemma dfs_path: "path (dfs_cycle g node st) = path st" "path (dfs_neighbors g ns st) = path st"
  by (induction g node st and g ns st rule: dfs_cycle_dfs_neighbors.induct)
     (simp_all add: dfs_cycle.simps)

text \<open>Soundness: every reported list is a closed walk of the graph.\<close>

definition closed_walk :: "digraph \<Rightarrow> string list \<Rightarrow> bool" where
  "closed_walk g c \<longleftrightarrow> c \<noteq> [] \<and> successively (\<lambda>a b. (a, b) \<in> edges g) c \<and> (last c, hd c) \<in> edges g"

definition walks :: "digraph \<Rightarrow> dfs_state \<Rightarrow> bool" where
  "walks g st \<longleftrightarrow> successively (\<lambda>a b. (a, b) \<in> edges g) (path st) \<and> list_all (closed_walk g) (cycles st)"

lemma back_edge_walks:
  assumes "walks g st" "path st \<noteq> []" "(last (path st), n) \<in> edges g"
  shows "walks g (back_edge n st)"
proof (cases "n \<in> set (path st)")
  case True
  define c where "c = dropWhile (\<lambda>m. m \<noteq> n) (path st)"
  obtain pre where p: "path st = pre @ c" unfolding c_def by (metis takeWhile_dropWhile_id)
  have c: "c \<noteq> []" "hd c = n"
    using True hd_dropWhile [of "\<lambda>m. m \<noteq> n" "path st"] by (auto simp: c_def dropWhile_eq_Nil_conv)
  then have "closed_walk g c"
    using assms p by (auto simp: closed_walk_def walks_def successively_append_iff)
  then show ?thesis using assms(1) True by (simp add: walks_def back_edge_def c_def)
next
  case False
  then show ?thesis using assms(1) by (simp add: back_edge_def)
qed

lemma dfs_walks:
  "walks g st \<Longrightarrow> path st = [] \<or> (last (path st), node) \<in> edges g \<Longrightarrow> walks g (dfs_cycle g node st)"
  "walks g st \<Longrightarrow> path st \<noteq> [] \<Longrightarrow> set ns \<subseteq> set (neighbors g (last (path st))) \<Longrightarrow>
     walks g (dfs_neighbors g ns st)"
proof (induction g node st and g ns st rule: dfs_cycle_dfs_neighbors.induct)
  case (1 g node st)
  have "walks g (enter_node node st)"
    using "1.prems" by (cases "path st = []") (auto simp: walks_def successively_append_iff)
  then have "walks g (dfs_neighbors g (neighbors g node) (enter_node node st))"
    using "1.IH" by simp
  then show ?case
    by (simp add: dfs_cycle.simps walks_def dfs_path)
       (metis append_butlast_last_id successively_append_iff)
next
  case (3 g "next" rest st)
  let ?st = "if color_of st next = 0 then dfs_cycle g next st
    else if color_of st next = 1 then back_edge next st else st"
  have "walks g ?st" using 3 back_edge_walks by auto
  moreover have "path ?st = path st" by (simp add: dfs_path)
  ultimately show ?case using "3.IH"(2) "3.prems" by simp
qed simp

text \<open>Completeness: a search that reports nothing leaves an acyclic, closed set of black nodes.\<close>

definition black_edges :: "digraph \<Rightarrow> dfs_state \<Rightarrow> (string \<times> string) set" where
  "black_edges g st = {(a, b) \<in> edges g. color_of st a = 2}"

definition settled :: "digraph \<Rightarrow> dfs_state \<Rightarrow> bool" where
  "settled g st \<longleftrightarrow> (\<forall>a b. (a, b) \<in> black_edges g st \<longrightarrow> color_of st b = 2) \<and>
     acyclic (black_edges g st) \<and> (\<forall>n. color_of st n = 1 \<longleftrightarrow> n \<in> set (path st)) \<and>
     distinct (path st) \<and> (\<forall>n. color_of st n \<le> 2)"

lemma dfs_cycles_grow:
  "\<exists>xs. cycles (dfs_cycle g node st) = cycles st @ xs"
  "\<exists>xs. cycles (dfs_neighbors g ns st) = cycles st @ xs"
  by (induction g node st and g ns st rule: dfs_cycle_dfs_neighbors.induct)
     (auto simp: dfs_cycle.simps back_edge_def split: if_splits)

lemma acyclic_add_source:
  assumes "acyclic R" "\<And>a. (a, n) \<notin> R" "n \<notin> S"
  shows "acyclic (R \<union> {n} \<times> S)"
proof -
  let ?R = "R \<union> {n} \<times> S"
  have into: "(a, b) \<in> ?R\<^sup>+ \<Longrightarrow> b \<noteq> n" for a b
    using assms(2,3) by (auto elim: tranclE)
  have "(a, b) \<in> ?R\<^sup>+ \<Longrightarrow> a \<noteq> n \<Longrightarrow> (a, b) \<in> R\<^sup>+" for a b
  proof (induction rule: trancl_induct)
    case (step y z)
    then have "(y, z) \<in> R" using into by blast
    then show ?case using step by auto
  qed auto
  then show ?thesis using assms(1) into unfolding acyclic_def by blast
qed

lemma settled_enter:
  assumes "settled g st" "color_of st n = 0"
  shows "settled g (enter_node n st)"
proof -
  have "black_edges g (enter_node n st) = black_edges g st"
    using assms(2) by (auto simp: black_edges_def split: if_splits)
  moreover have "n \<notin> set (path st)" using assms unfolding settled_def by (metis zero_neq_one)
  ultimately show ?thesis using assms by (auto simp: settled_def)
qed

lemma settled_leave:
  assumes "settled g st" "path st = p @ [n]" "\<And>b. b \<in> set (neighbors g n) \<Longrightarrow> color_of st b = 2"
  shows "settled g (leave_node n st)"
proof -
  have n: "color_of st n = 1" "n \<notin> set p" using assms(1,2) by (auto simp: settled_def)
  have eq: "black_edges g (leave_node n st) = black_edges g st \<union> {n} \<times> set (neighbors g n)"
    using n(1) by (auto simp: black_edges_def split: if_splits)
  have "acyclic (black_edges g (leave_node n st))"
    unfolding eq by (rule acyclic_add_source) (use assms n in \<open>fastforce simp: settled_def\<close>)+
  moreover have "color_of (leave_node n st) b = 2" if "(a, b) \<in> black_edges g (leave_node n st)" for a b
    using that assms(1,3) unfolding eq by (auto simp: settled_def)
  ultimately show ?thesis
    using assms(1,2) n(2) by (auto simp: settled_def)
qed

lemma settled_black:
  assumes "settled g st" "color_of st n \<noteq> 0" "color_of st n \<noteq> 1"
  shows "color_of st n = 2"
proof -
  have "color_of st n \<le> 2" using assms(1) by (simp add: settled_def)
  then show ?thesis using assms(2,3) by linarith
qed

lemma dfs_settled:
  "settled g st \<Longrightarrow> color_of st node = 0 \<Longrightarrow> cycles (dfs_cycle g node st) = cycles st \<Longrightarrow>
     settled g (dfs_cycle g node st) \<and> color_of (dfs_cycle g node st) node = 2 \<and>
     (\<forall>n. color_of st n = 2 \<longrightarrow> color_of (dfs_cycle g node st) n = 2)"
  "settled g st \<Longrightarrow> cycles (dfs_neighbors g ns st) = cycles st \<Longrightarrow>
     settled g (dfs_neighbors g ns st) \<and>
     (\<forall>n. n \<in> set ns \<or> color_of st n = 2 \<longrightarrow> color_of (dfs_neighbors g ns st) n = 2)"
proof (induction g node st and g ns st rule: dfs_cycle_dfs_neighbors.induct)
  case (1 g node st)
  let ?st = "dfs_neighbors g (neighbors g node) (enter_node node st)"
  have IH: "settled g ?st" "\<And>n. n \<in> set (neighbors g node) \<or> color_of (enter_node node st) n = 2 \<Longrightarrow>
      color_of ?st n = 2"
    using "1.IH" [OF settled_enter [OF "1.prems"(1,2)]] "1.prems"(3)
    by (auto simp: dfs_cycle.simps)
  have "settled g (leave_node node ?st)"
    by (rule settled_leave [OF IH(1)]) (use IH(2) dfs_path in auto)
  then show ?case using IH(2) "1.prems"(2) by (auto simp: dfs_cycle.simps)
next
  case (3 g "next" rest st)
  let ?st = "if color_of st next = 0 then dfs_cycle g next st
    else if color_of st next = 1 then back_edge next st else st"
  obtain xs where xs: "cycles (dfs_neighbors g rest ?st) = cycles ?st @ xs"
    using dfs_cycles_grow(2) by blast
  have "\<exists>ys. cycles ?st = cycles st @ ys"
    using dfs_cycles_grow(1) [of g "next" st] by (simp add: back_edge_def)
  then obtain ys where ys: "cycles ?st = cycles st @ ys" by blast
  have same: "cycles ?st = cycles st" "cycles (dfs_neighbors g rest ?st) = cycles ?st"
    using "3.prems"(2) xs ys by simp_all
  have "color_of st next \<noteq> 1"
  proof
    assume gray: "color_of st next = 1"
    then have "next \<in> set (path st)" using "3.prems"(1) unfolding settled_def by blast
    then show False using same(1) gray by (simp add: back_edge_def)
  qed
  then have next2: "settled g ?st \<and> color_of ?st next = 2 \<and> (\<forall>n. color_of st n = 2 \<longrightarrow> color_of ?st n = 2)"
    using "3.IH"(1) "3.prems"(1) same(1) settled_black [OF "3.prems"(1), of "next"]
    by (cases "color_of st next = 0") simp_all
  then show ?case
    using "3.IH"(2) same(2) by auto
qed simp

lemma closed_walk_cycle:
  assumes "closed_walk g c"
  shows "\<not> acyclic (edges g)"
proof -
  have "(hd c, last c) \<in> (edges g)\<^sup>*" if "c \<noteq> []" "successively (\<lambda>a b. (a, b) \<in> edges g) c" for c
    using that by (induction c rule: induct_list012) (auto intro: converse_rtrancl_into_rtrancl)
  then have "(hd c, last c) \<in> (edges g)\<^sup>*" using assms by (simp add: closed_walk_def)
  moreover have "(last c, hd c) \<in> edges g" using assms by (simp add: closed_walk_def)
  ultimately have "(hd c, hd c) \<in> (edges g)\<^sup>+" by (rule rtrancl_into_trancl1)
  then show ?thesis by (auto simp: acyclic_def)
qed

definition dfs_root :: "digraph \<Rightarrow> dfs_state \<Rightarrow> string \<Rightarrow> dfs_state" where
  "dfs_root g st node = (if color_of st node = 0 then dfs_cycle g node st else st)"

lemma dfs_roots_walks:
  "walks g st \<Longrightarrow> path st = [] \<Longrightarrow> walks g (foldl (dfs_root g) st ns)"
proof (induction ns arbitrary: st)
  case (Cons n ns)
  then show ?case using dfs_walks(1) [of g st n] by (auto simp: dfs_root_def dfs_path)
qed simp

lemma dfs_roots_grow: "\<exists>xs. cycles (foldl (dfs_root g) st ns) = cycles st @ xs"
proof (induction ns arbitrary: st)
  case (Cons n ns)
  obtain xs ys where "cycles (foldl (dfs_root g) (dfs_root g st n) ns) = cycles (dfs_root g st n) @ xs"
      "cycles (dfs_root g st n) = cycles st @ ys"
    using Cons dfs_cycles_grow(1) [of g n st] by (fastforce simp: dfs_root_def)
  then show ?case by simp
qed simp

lemma dfs_roots_settled:
  assumes "settled g st" "path st = []" "cycles (foldl (dfs_root g) st ns) = cycles st"
  shows "settled g (foldl (dfs_root g) st ns) \<and>
    (\<forall>n. n \<in> set ns \<or> color_of st n = 2 \<longrightarrow> color_of (foldl (dfs_root g) st ns) n = 2)"
  using assms
proof (induction ns arbitrary: st)
  case (Cons n ns)
  let ?st = "dfs_root g st n"
  obtain xs ys where grow: "cycles (foldl (dfs_root g) ?st ns) = cycles ?st @ xs" "cycles ?st = cycles st @ ys"
    using dfs_roots_grow [of g ?st ns] dfs_cycles_grow(1) [of g n st] by (fastforce simp: dfs_root_def)
  then have same: "cycles ?st = cycles st" "cycles (foldl (dfs_root g) ?st ns) = cycles ?st"
    using Cons.prems(3) by simp_all
  have "color_of st n \<noteq> 1" using Cons.prems(1,2) by (auto simp: settled_def)
  then have "settled g ?st \<and> color_of ?st n = 2 \<and> (\<forall>m. color_of st m = 2 \<longrightarrow> color_of ?st m = 2)"
    using dfs_settled(1) [OF Cons.prems(1)] Cons.prems(1) same(1) settled_black [OF Cons.prems(1), of n]
    by (cases "color_of st n = 0") (simp_all add: dfs_root_def)
  moreover have "path ?st = []" using Cons.prems(2) by (simp add: dfs_root_def dfs_path)
  ultimately show ?case using Cons.IH [of ?st] same(2) by auto
qed simp

lemma find_cycles_exact: "find_cycles g = [] \<longleftrightarrow> acyclic (edges g)"
  "list_all (closed_walk g) (find_cycles g)"
proof -
  let ?initial = "\<lparr>color = [], path = [], cycles = []\<rparr> :: dfs_state"
  let ?st = "foldl (dfs_root g) ?initial (bt_keys g)"
  have fc: "find_cycles g = cycles ?st"
    unfolding find_cycles_def dfs_root_def [abs_def] by simp
  have init: "color_of ?initial n = 0" for n by (simp add: color_of_def)
  have "settled g ?initial" by (simp add: settled_def black_edges_def init acyclic_def)
  show walks: "list_all (closed_walk g) (find_cycles g)"
    using dfs_roots_walks [of g ?initial "bt_keys g"] by (simp add: walks_def fc)
  show "find_cycles g = [] \<longleftrightarrow> acyclic (edges g)"
  proof
    assume "find_cycles g = []"
    then have "settled g ?st" "\<And>n. n \<in> set (bt_keys g) \<Longrightarrow> color_of ?st n = 2"
      using dfs_roots_settled [OF \<open>settled g ?initial\<close>, of "bt_keys g"] by (auto simp: fc)
    moreover from this have "black_edges g ?st = edges g"
      unfolding black_edges_def using neighbors_key by fastforce
    ultimately show "acyclic (edges g)" by (simp add: settled_def)
  next
    assume "acyclic (edges g)"
    then show "find_cycles g = []"
      using walks closed_walk_cycle by (cases "find_cycles g") auto
  qed
qed

section \<open>The path search of R1\<close>

text \<open>
  \<open>reaches_cycle\<close> walks simple paths: \<open>visiting\<close> holds the nodes of the current path, and a
  dependency is removed again when its subtree did not succeed. The flag is the \<open>bool\<close> the
  source returns, with the path set restored on failure.
\<close>

function reaches_cycle :: "string \<Rightarrow> digraph \<Rightarrow> string list \<Rightarrow> string btset \<Rightarrow> bool" where
  "reaches_cycle start g [] visiting = False"
| "reaches_cycle start g (dependency # dependencies) visiting =
     (if dependency = start then True
      else if dependency \<in> set visiting then reaches_cycle start g dependencies visiting
      else if reaches_cycle start g (neighbors g dependency) (bs_insert dependency visiting) then True
      else reaches_cycle start g dependencies visiting)"
  by pat_completeness auto

definition unvisiting :: "digraph \<Rightarrow> string btset \<Rightarrow> nat" where
  "unvisiting g visiting = card (set (bt_keys g) - set visiting)"

lemma unvisiting_insert:
  assumes "n \<notin> set v" "n \<in> set (bt_keys g)"
  shows "unvisiting g (bs_insert n v) < unvisiting g v"
  unfolding unvisiting_def by (rule psubset_card_mono) (use assms in auto)

lemma unvisiting_insert_le: "unvisiting g (bs_insert n v) \<le> unvisiting g v"
  unfolding unvisiting_def by (rule card_mono) auto

lemma neighbors_not_key: "n \<notin> set (bt_keys g) \<Longrightarrow> neighbors g n = []"
  using neighbors_key [of _ g n] by (cases "neighbors g n") auto

termination reaches_cycle
proof (relation "inv_image (less_than <*lex*> less_than)
    (\<lambda>(start, g, ds, v). (unvisiting g v, length ds))")
  fix start d :: string and g :: digraph and ds :: "string list" and v :: "string btset"
  assume "d \<notin> set v"
  then show "((start, g, neighbors g d, bs_insert d v), (start, g, d # ds, v)) \<in>
      inv_image (less_than <*lex*> less_than) (\<lambda>(start, g, ds, v). (unvisiting g v, length ds))"
    using unvisiting_insert [of d v g] unvisiting_insert_le [of g d v] neighbors_not_key [of d g]
    by (cases "d \<in> set (bt_keys g)") (auto simp: order_le_less)
qed auto

definition cyclic_performatives :: "digraph \<Rightarrow> string list" where
  "cyclic_performatives g = filter (\<lambda>n. reaches_cycle n g (neighbors g n) []) (bt_keys g)"

text \<open>
  The search succeeds exactly when a path through unvisited nodes leads to the start.
\<close>

definition avoiding :: "digraph \<Rightarrow> string set \<Rightarrow> (string \<times> string) set" where
  "avoiding g V = {(a, b) \<in> edges g. a \<notin> V}"

lemma reaches_cycle_sound:
  "reaches_cycle start g ds v \<Longrightarrow> \<exists>d \<in> set ds. (d, start) \<in> (edges g)\<^sup>*"
proof (induction start g ds v rule: reaches_cycle.induct)
  case (2 start g d ds v)
  then show ?case
    by (auto split: if_splits intro: converse_rtrancl_into_rtrancl)
qed simp

lemma avoid_first:
  assumes "(a, b) \<in> (avoiding g V)\<^sup>*" "a \<noteq> b"
  shows "a \<notin> V \<and> (\<exists>c. (a, c) \<in> edges g \<and> (c, b) \<in> (avoiding g (insert a V))\<^sup>*)"
  using assms
proof (induction rule: rtrancl_induct)
  case (step y z)
  show ?case
  proof (cases "y = a")
    case True
    then show ?thesis using step.hyps(2) by (auto simp: avoiding_def)
  next
    case False
    then have "(y, z) \<in> avoiding g (insert a V)" using step.hyps(2) by (auto simp: avoiding_def)
    then show ?thesis
      using step.IH [OF False [symmetric]] by (meson rtrancl.rtrancl_into_rtrancl)
  qed
qed simp

lemma reaches_cycle_complete:
  assumes "d \<in> set ds" "(d, start) \<in> (avoiding g (set v))\<^sup>*"
  shows "reaches_cycle start g ds v"
  using assms
proof (induction start g ds v arbitrary: d rule: reaches_cycle.induct)
  case (2 start g x ds v)
  show ?case
  proof (cases "x = start")
    case False
    show ?thesis
    proof (cases "d = x")
      case True
      from avoid_first [OF "2.prems"(2)] False True obtain c where
        "x \<notin> set v" "c \<in> set (neighbors g x)" "(c, start) \<in> (avoiding g (insert x (set v)))\<^sup>*"
        by auto
      then have "reaches_cycle start g (neighbors g x) (bs_insert x v)"
        using "2.IH"(2) [OF False] by simp
      then show ?thesis using \<open>x \<notin> set v\<close> by simp
    next
      case False
      then show ?thesis
        using 2 \<open>x \<noteq> start\<close>
        by (cases "x \<in> set v"; cases "reaches_cycle start g (neighbors g x) (bs_insert x v)") auto
    qed
  qed simp
qed simp

lemma cyclic_performatives_exact: "set (cyclic_performatives g) = {n. (n, n) \<in> (edges g)\<^sup>+}"
proof -
  have "reaches_cycle n g (neighbors g n) [] \<longleftrightarrow> (n, n) \<in> (edges g)\<^sup>+" for n
  proof
    assume "reaches_cycle n g (neighbors g n) []"
    then show "(n, n) \<in> (edges g)\<^sup>+"
      using reaches_cycle_sound by (fastforce intro: rtrancl_into_trancl2)
  next
    assume "(n, n) \<in> (edges g)\<^sup>+"
    then obtain d where "d \<in> set (neighbors g n)" "(d, n) \<in> (edges g)\<^sup>*"
      by (auto dest: tranclD)
    then show "reaches_cycle n g (neighbors g n) []"
      by (intro reaches_cycle_complete [of d]) (simp_all add: avoiding_def edges_def)
  qed
  moreover have "n \<in> set (bt_keys g)" if "(n, n) \<in> (edges g)\<^sup>+" for n
    using tranclD [OF that] neighbors_key by auto
  ultimately show ?thesis by (auto simp: cyclic_performatives_def)
qed

end
