(* ===== verification/Cbcl_Protocol.thy ===== *)
theory Cbcl_Protocol
  imports Cbcl_Message Cbcl_Graph
begin

text \<open>
  The causal protocol declarations of \<open>cbcl-core/src/protocol.rs\<close>: steps and node references, the
  R5 checks (uniqueness, acyclicity, reachability, definedness), and the three-valued verification
  lattice. The R5 checks are shown to accept exactly the protocols whose successor graph is an
  acyclic graph rooted at \<open>begin\<close> over defined performatives.
\<close>

section \<open>Names\<close>

definition REPEAT_SEPARATOR :: char where "REPEAT_SEPARATOR = CHR ''#''"

definition repeat_base_name :: "string \<Rightarrow> string" where
  "repeat_base_name name = takeWhile (\<lambda>c. c \<noteq> REPEAT_SEPARATOR) name"

section \<open>Declarations\<close>

datatype node_ref = NSingle string | NAny "string btset" | NAll "string btset"

definition performatives_of :: "node_ref \<Rightarrow> string list" where
  "performatives_of nr = (case nr of NSingle s \<Rightarrow> [s] | NAny ss \<Rightarrow> ss | NAll ss \<Rightarrow> ss)"

record step_decl =
  step_performative :: string
  predecessors :: "node_ref list"
  successors :: "node_ref list"

record causal_protocol =
  steps :: "(string, step_decl) btmap"

datatype protocol_violation =
    Cycle "string list"
  | Unreachable string
  | UndefinedPerformative string
  | DuplicateStep string

definition joined :: "string \<Rightarrow> string list \<Rightarrow> string" where
  "joined sep ss = (case ss of [] \<Rightarrow> [] | s # rest \<Rightarrow> s @ concat (map (\<lambda>t. sep @ t) rest))"

definition arrow :: string where
  "arrow = '' '' @ [CHR 0xE2, CHR 0x86, CHR 0x92] @ '' ''"

definition display_protocol_violation :: "protocol_violation \<Rightarrow> string" where
  "display_protocol_violation v = (case v of
       Cycle participants \<Rightarrow> ''cycle detected: '' @ joined arrow participants
     | Unreachable step \<Rightarrow> ''step '' @ quoted step @ '' is unreachable from begin''
     | UndefinedPerformative name \<Rightarrow> ''performative '' @ quoted name @ '' is not defined''
     | DuplicateStep name \<Rightarrow> ''duplicate step declaration for '' @ quoted name)"

section \<open>Checks\<close>

fun has_duplicate :: "node_ref list \<Rightarrow> bool" where
  "has_duplicate [] = False"
| "has_duplicate (r # rs) = (list_ex (\<lambda>r'. r = r') rs \<or> has_duplicate rs)"

definition insert_unless_begin :: "string btset \<Rightarrow> string \<Rightarrow> string btset" where
  "insert_unless_begin names p = (if p = BEGIN_KEYWORD then names else bs_insert p names)"

definition all_referenced_performatives :: "causal_protocol \<Rightarrow> string btset" where
  "all_referenced_performatives cp =
     foldl (\<lambda>names (name, step).
         foldl insert_unless_begin (insert_unless_begin names name)
           (concat (map performatives_of (predecessors step @ successors step))))
       [] (steps cp)"

definition ensure_node :: "digraph \<Rightarrow> string \<Rightarrow> digraph" where
  "ensure_node g n = (if bt_contains_key g n then g else bt_insert n [] g)"

definition add_edge :: "string \<Rightarrow> digraph \<Rightarrow> string \<Rightarrow> digraph" where
  "add_edge name g s = ensure_node (bt_insert name (bs_insert s (neighbors g name)) g) s"

definition successor_graph :: "causal_protocol \<Rightarrow> digraph" where
  "successor_graph cp =
     foldl (\<lambda>g (name, step).
         foldl (add_edge name) (ensure_node g name) (concat (map performatives_of (successors step))))
       [] (steps cp)"

definition check_acyclicity :: "causal_protocol \<Rightarrow> protocol_violation list" where
  "check_acyclicity cp = map Cycle (find_cycles (successor_graph cp))"

definition visited_from_begin :: "causal_protocol \<Rightarrow> string btset" where
  "visited_from_begin cp =
     (let g = successor_graph cp
      in if bt_contains_key g BEGIN_KEYWORD
         then reach_loop g [BEGIN_KEYWORD] (bs_insert BEGIN_KEYWORD []) else [])"

definition check_reachability :: "causal_protocol \<Rightarrow> protocol_violation list" where
  "check_reachability cp =
     map Unreachable
       (filter (\<lambda>name. name \<noteq> BEGIN_KEYWORD \<and> name \<notin> set (visited_from_begin cp)) (bt_keys (steps cp)))"

text \<open>Each undefined base name is flagged once.\<close>

fun flag_undefined :: "string list \<Rightarrow> string list \<Rightarrow> string btset \<Rightarrow> protocol_violation list" where
  "flag_undefined defined [] flagged = []"
| "flag_undefined defined (name # names) flagged =
     (let base = repeat_base_name name
      in if base \<notin> set defined \<and> base \<notin> set flagged
         then UndefinedPerformative base # flag_undefined defined names (bs_insert base flagged)
         else flag_undefined defined names flagged)"

definition check_performative_definedness ::
  "causal_protocol \<Rightarrow> string list \<Rightarrow> protocol_violation list" where
  "check_performative_definedness cp defined =
     flag_undefined defined (all_referenced_performatives cp) []"

definition expansion_size_of :: "causal_protocol \<Rightarrow> u32" where
  "expansion_size_of cp =
     (let n = length (filter (\<lambda>name. name \<noteq> BEGIN_KEYWORD) (bt_keys (steps cp)))
      in if n < 2 ^ 32 then of_nat n else - 1)"

definition check_step_uniqueness :: "causal_protocol \<Rightarrow> protocol_violation list" where
  "check_step_uniqueness cp =
     map (\<lambda>(name, _). DuplicateStep name)
       (filter (\<lambda>(_, step). has_duplicate (predecessors step) \<or> has_duplicate (successors step))
         (steps cp))"

definition verify_r5_protocol :: "causal_protocol \<Rightarrow> string list \<Rightarrow> protocol_violation list" where
  "verify_r5_protocol cp defined =
     check_step_uniqueness cp @ check_acyclicity cp @ check_reachability cp @
     check_performative_definedness cp defined"

section \<open>The verification lattice\<close>

datatype causal_violation =
    UnknownPredecessor string
  | InvalidPredecessor string "string list" string
  | MissingCausedBy
  | IncompleteFanIn "string list"
  | ExtraneousPredecessor string string
  | FanInWithoutAllDecl string
  | RoleConformance string

datatype verification_result = Unknown | Valid | Violation causal_violation

definition vr_meet :: "verification_result \<Rightarrow> verification_result \<Rightarrow> verification_result" where
  "vr_meet a b = (case (a, b) of
       (Violation _, _) \<Rightarrow> a
     | (_, Violation _) \<Rightarrow> b
     | (Unknown, _) \<Rightarrow> Unknown
     | (_, Unknown) \<Rightarrow> Unknown
     | (Valid, Valid) \<Rightarrow> Valid)"

definition vr_join :: "verification_result \<Rightarrow> verification_result \<Rightarrow> verification_result" where
  "vr_join a b = (case (a, b) of
       (Valid, _) \<Rightarrow> Valid
     | (_, Valid) \<Rightarrow> Valid
     | (Unknown, _) \<Rightarrow> Unknown
     | (_, Unknown) \<Rightarrow> Unknown
     | (Violation _, Violation _) \<Rightarrow> a)"

definition is_resolved :: "verification_result \<Rightarrow> bool" where
  "is_resolved r \<longleftrightarrow> r \<noteq> Unknown"

definition is_stable :: "verification_result \<Rightarrow> bool" where
  "is_stable r = is_resolved r"

datatype ordering = Less | Equal | Greater

definition partial_cmp :: "verification_result \<Rightarrow> verification_result \<Rightarrow> ordering option" where
  "partial_cmp a b = (case (a, b) of
       (Unknown, Unknown) \<Rightarrow> Some Equal
     | (Valid, Valid) \<Rightarrow> Some Equal
     | (Violation _, Violation _) \<Rightarrow> Some Equal
     | (Unknown, _) \<Rightarrow> Some Less
     | (_, Unknown) \<Rightarrow> Some Greater
     | (Valid, Violation _) \<Rightarrow> None
     | (Violation _, Valid) \<Rightarrow> None)"

section \<open>The successor graph\<close>

lemma bt_get_ensure_node:
  "bt_get (ensure_node g n) m = (if m = n \<and> bt_get g n = None then Some [] else bt_get g m)"
  by (simp add: ensure_node_def bt_contains_key_def)

lemma neighbors_ensure_node [simp]: "neighbors (ensure_node g n) m = neighbors g m"
  by (auto simp: neighbors_def bt_get_ensure_node)

lemma edges_ensure_node [simp]: "edges (ensure_node g n) = edges g"
  by (simp add: edges_def)

lemma neighbors_bt_insert [simp]: "neighbors (bt_insert n ns g) m = (if m = n then ns else neighbors g m)"
  by (simp add: neighbors_def)

lemma edges_add_edge [simp]: "edges (add_edge a g b) = insert (a, b) (edges g)"
  by (auto simp: add_edge_def edges_def split: if_splits)

lemma edges_foldl_add_edge: "edges (foldl (add_edge a) g bs) = {a} \<times> set bs \<union> edges g"
  by (induction bs arbitrary: g) auto

definition step_edges :: "(string \<times> step_decl) list \<Rightarrow> (string \<times> string) set" where
  "step_edges ss = {(a, b). \<exists>step. (a, step) \<in> set ss \<and> (\<exists>nr \<in> set (successors step). b \<in> set (performatives_of nr))}"

lemma edges_successor_graph: "edges (successor_graph cp) = step_edges (steps cp)"
proof -
  have "edges (foldl (\<lambda>g (name, step). foldl (add_edge name) (ensure_node g name)
      (concat (map performatives_of (successors step)))) g ss) = step_edges ss \<union> edges g" for g ss
    by (induction ss arbitrary: g) (auto simp: edges_foldl_add_edge step_edges_def)
  from this [of "[]"] show ?thesis
    by (simp add: successor_graph_def edges_def neighbors_def)
qed

section \<open>What the checks decide\<close>

lemma has_duplicate_iff: "has_duplicate rs \<longleftrightarrow> \<not> distinct rs"
  by (induction rs) (auto simp: list_ex_iff)

lemma check_step_uniqueness_ok:
  "check_step_uniqueness cp = [] \<longleftrightarrow>
     list_all (\<lambda>(_, step). distinct (predecessors step) \<and> distinct (successors step)) (steps cp)"
  by (auto simp: check_step_uniqueness_def filter_empty_conv has_duplicate_iff list_all_iff)

lemma check_acyclicity_ok: "check_acyclicity cp = [] \<longleftrightarrow> acyclic (step_edges (steps cp))"
  by (simp add: check_acyclicity_def find_cycles_exact edges_successor_graph)

lemma visited_from_begin_iff:
  assumes "name \<noteq> BEGIN_KEYWORD"
  shows "name \<in> set (visited_from_begin cp) \<longleftrightarrow> (BEGIN_KEYWORD, name) \<in> (step_edges (steps cp))\<^sup>*"
proof (cases "bt_contains_key (successor_graph cp) BEGIN_KEYWORD")
  case True
  have "set (reach_loop (successor_graph cp) [BEGIN_KEYWORD] (bs_insert BEGIN_KEYWORD [])) =
      (edges (successor_graph cp))\<^sup>* `` set (bs_insert BEGIN_KEYWORD [])"
    by (rule reach_loop_exact) auto
  then show ?thesis using True by (simp add: visited_from_begin_def Let_def edges_successor_graph)
next
  case False
  then have "(BEGIN_KEYWORD, b) \<notin> edges (successor_graph cp)" for b
    using neighbors_key [of b "successor_graph cp"] by (auto simp: bt_contains_key_iff)
  then have "(BEGIN_KEYWORD, name) \<notin> (step_edges (steps cp))\<^sup>*"
    using assms by (auto simp: edges_successor_graph elim: converse_rtranclE)
  then show ?thesis using False by (simp add: visited_from_begin_def Let_def)
qed

lemma check_reachability_ok:
  "check_reachability cp = [] \<longleftrightarrow>
     set (bt_keys (steps cp)) \<subseteq> (step_edges (steps cp))\<^sup>* `` {BEGIN_KEYWORD}"
proof -
  have "check_reachability cp = [] \<longleftrightarrow> (\<forall>name \<in> set (bt_keys (steps cp)).
      name = BEGIN_KEYWORD \<or> name \<in> set (visited_from_begin cp))"
    unfolding check_reachability_def map_is_Nil_conv filter_empty_conv by blast
  also have "\<dots> \<longleftrightarrow> (\<forall>name \<in> set (bt_keys (steps cp)). (BEGIN_KEYWORD, name) \<in> (step_edges (steps cp))\<^sup>*)"
    using visited_from_begin_iff [of _ cp] by (metis rtrancl.rtrancl_refl)
  finally show ?thesis by blast
qed

definition step_mentions :: "string \<Rightarrow> step_decl \<Rightarrow> string set" where
  "step_mentions name step =
     insert name (set (concat (map performatives_of (predecessors step @ successors step))))"

definition mentioned :: "causal_protocol \<Rightarrow> string set" where
  "mentioned cp = (\<Union>(name, step) \<in> set (steps cp). step_mentions name step)"

lemma set_insert_unless_begin [simp]:
  "set (insert_unless_begin names p) = ({p} - {BEGIN_KEYWORD}) \<union> set names"
  by (simp add: insert_unless_begin_def)

lemma set_foldl_insert_unless_begin:
  "set (foldl insert_unless_begin names ps) = (set ps - {BEGIN_KEYWORD}) \<union> set names"
  by (induction ps arbitrary: names) auto

definition reference_step :: "string btset \<Rightarrow> string \<times> step_decl \<Rightarrow> string btset" where
  "reference_step names ns = (case ns of (name, step) \<Rightarrow>
     foldl insert_unless_begin (insert_unless_begin names name)
       (concat (map performatives_of (predecessors step @ successors step))))"

lemma set_reference_step:
  "set (reference_step names (name, step)) = (step_mentions name step - {BEGIN_KEYWORD}) \<union> set names"
  unfolding reference_step_def prod.case set_foldl_insert_unless_begin set_insert_unless_begin
    step_mentions_def by blast

lemma set_foldl_reference_step:
  "set (foldl reference_step names ss) =
     ((\<Union>(name, step) \<in> set ss. step_mentions name step) - {BEGIN_KEYWORD}) \<union> set names"
proof (induction ss arbitrary: names)
  case (Cons ns ss)
  obtain name step where "ns = (name, step)" by (cases ns)
  then show ?case using Cons set_reference_step [of names name step] by auto
qed simp

lemma set_all_referenced: "set (all_referenced_performatives cp) = mentioned cp - {BEGIN_KEYWORD}"
proof -
  have "all_referenced_performatives cp = foldl reference_step [] (steps cp)"
    unfolding all_referenced_performatives_def reference_step_def [abs_def] by simp
  then show ?thesis by (simp add: set_foldl_reference_step mentioned_def)
qed

lemma flag_undefined_ok:
  "flag_undefined defined names flagged = [] \<longleftrightarrow>
     repeat_base_name ` set names \<subseteq> set defined \<union> set flagged"
  by (induction defined names flagged rule: flag_undefined.induct) (auto simp: Let_def)

lemma check_definedness_ok:
  "check_performative_definedness cp defined = [] \<longleftrightarrow>
     repeat_base_name ` (mentioned cp - {BEGIN_KEYWORD}) \<subseteq> set defined"
  by (simp add: check_performative_definedness_def flag_undefined_ok set_all_referenced)

section \<open>Verdict classes\<close>

text \<open>The truth order of the verdict classes: violation, unknown, valid.\<close>

datatype verdict = VViolation | VUnknown | VValid

fun verdict_rank :: "verdict \<Rightarrow> nat" where
  "verdict_rank VViolation = 0" | "verdict_rank VUnknown = 1" | "verdict_rank VValid = 2"

instantiation verdict :: linorder
begin

definition less_eq_verdict :: "verdict \<Rightarrow> verdict \<Rightarrow> bool" where
  "less_eq_verdict a b \<longleftrightarrow> verdict_rank a \<le> verdict_rank b"

definition less_verdict :: "verdict \<Rightarrow> verdict \<Rightarrow> bool" where
  "less_verdict a b \<longleftrightarrow> verdict_rank a < verdict_rank b"

instance
proof
  fix a b :: verdict
  show "a \<le> b \<Longrightarrow> b \<le> a \<Longrightarrow> a = b" by (cases a; cases b) (simp_all add: less_eq_verdict_def)
qed (auto simp: less_eq_verdict_def less_verdict_def)

end

definition verdict_of :: "verification_result \<Rightarrow> verdict" where
  "verdict_of r = (case r of Unknown \<Rightarrow> VUnknown | Valid \<Rightarrow> VValid | Violation _ \<Rightarrow> VViolation)"

text \<open>The knowledge order: what more evidence may turn a verdict into.\<close>

definition refines :: "verification_result \<Rightarrow> verification_result \<Rightarrow> bool" where
  "refines a b \<longleftrightarrow> partial_cmp a b = Some Less \<or> partial_cmp a b = Some Equal"

lemma refines_iff: "refines a b \<longleftrightarrow> verdict_of a = VUnknown \<or> verdict_of a = verdict_of b"
  by (cases a; cases b) (simp_all add: refines_def partial_cmp_def verdict_of_def)

lemma verdict_of_meet: "verdict_of (vr_meet a b) = min (verdict_of a) (verdict_of b)"
  by (cases a; cases b) (simp_all add: vr_meet_def verdict_of_def min_def less_eq_verdict_def)

lemma verdict_of_join: "verdict_of (vr_join a b) = max (verdict_of a) (verdict_of b)"
  by (cases a; cases b) (simp_all add: vr_join_def verdict_of_def max_def less_eq_verdict_def)

section \<open>Properties\<close>

text \<open>C26: the R5 protocol checks report nothing exactly when no step repeats a node reference, the
  declared successor relation is acyclic, every declared step is reachable from \<open>begin\<close>, and the base
  name of every mentioned performative is defined.\<close>

theorem verify_r5_protocol_exact:
  "verify_r5_protocol cp defined = [] \<longleftrightarrow>
     list_all (\<lambda>(_, step). distinct (predecessors step) \<and> distinct (successors step)) (steps cp) \<and>
     acyclic (step_edges (steps cp)) \<and>
     set (bt_keys (steps cp)) \<subseteq> (step_edges (steps cp))\<^sup>* `` {BEGIN_KEYWORD} \<and>
     repeat_base_name ` (mentioned cp - {BEGIN_KEYWORD}) \<subseteq> set defined"
  by (simp add: verify_r5_protocol_def check_step_uniqueness_ok check_acyclicity_ok
      check_reachability_ok check_definedness_ok)

text \<open>Every cycle the acyclicity check reports is a genuine cycle of the declared successor
  relation: consecutive participants and the closing pair are declared edges.\<close>

lemma reported_cycles_are_cycles:
  "list_all (\<lambda>v. \<exists>c. v = Cycle c \<and> c \<noteq> [] \<and> (last c, hd c) \<in> step_edges (steps cp) \<and>
       successively (\<lambda>a b. (a, b) \<in> step_edges (steps cp)) c) (check_acyclicity cp)"
  using find_cycles_exact(2) [of "successor_graph cp"]
  unfolding check_acyclicity_def closed_walk_def edges_successor_graph
  by (auto simp: list_all_iff)

text \<open>Meet and join are the strong Kleene conjunction and disjunction: on verdict classes they are
  the minimum and maximum of the truth order violation, unknown, valid; meet is associative with its
  diagnostics; and both are monotone in the knowledge order, so new evidence only resolves.\<close>

lemma kleene_connectives:
  "verdict_of (vr_meet a b) = min (verdict_of a) (verdict_of b) \<and>
   verdict_of (vr_join a b) = max (verdict_of a) (verdict_of b) \<and>
   vr_meet (vr_meet a b) c = vr_meet a (vr_meet b c) \<and>
   (refines a a' \<and> refines b b' \<longrightarrow>
      refines (vr_meet a b) (vr_meet a' b') \<and> refines (vr_join a b) (vr_join a' b'))"
proof (intro conjI impI)
  show "vr_meet (vr_meet a b) c = vr_meet a (vr_meet b c)"
    by (cases a; cases b; cases c) (simp_all add: vr_meet_def)
  assume "refines a a' \<and> refines b b'"
  then show "refines (vr_meet a b) (vr_meet a' b')" "refines (vr_join a b) (vr_join a' b')"
    unfolding refines_iff verdict_of_meet verdict_of_join
    by (cases "verdict_of a"; cases "verdict_of b"; cases "verdict_of a'"; cases "verdict_of b'";
        simp add: min_def max_def less_eq_verdict_def)+
qed (rule verdict_of_meet verdict_of_join)+

lemma kleene_connectives_witness:
  "refines (vr_meet Unknown (Violation MissingCausedBy)) (vr_meet Valid (Violation MissingCausedBy))"
proof -
  have "refines Unknown Valid \<and> refines (Violation MissingCausedBy) (Violation MissingCausedBy)"
    by (simp add: refines_iff verdict_of_def)
  then show ?thesis using kleene_connectives by blast
qed

end
