(* ===== verification/Cbcl_Canonical.thy ===== *)
theory Cbcl_Canonical
  imports Cbcl_Sexpr
begin

text \<open>
  The RFC 9804 canonical encoding of \<open>cbcl-core/src/canonical.rs\<close>: typed atoms as tagged,
  length-prefixed octet strings, lists in parentheses. Octets are 8-bit characters. The encoding
  is shown to be prefix-free, hence injective, which is what signing and hashing rely on.
\<close>

section \<open>The encoder\<close>

definition atom_to_octets :: "atom \<Rightarrow> string" where
  "atom_to_octets a = (case a of
       Symbol s \<Rightarrow> CHR ''S'' # s
     | Keyword k \<Rightarrow> CHR ''K'' # k
     | Str s \<Rightarrow> CHR ''Q'' # s
     | Num n \<Rightarrow> CHR ''N'' # show_int n
     | Bool b \<Rightarrow> if b then ''Bt'' else ''Bf'')"

text \<open>The loop that fills the digit buffer from its end, as recursion on the magnitude.\<close>

function fill_digits :: "nat \<Rightarrow> string \<Rightarrow> string" where
  "fill_digits m buf =
     (let buf' = digit_char (m mod 10) # buf
      in if m div 10 = 0 then buf' else fill_digits (m div 10) buf')"
  by pat_completeness auto
termination
  by (relation "measure fst") auto

declare fill_digits.simps [simp del]

definition encode_tagged :: "char \<Rightarrow> string \<Rightarrow> string" where
  "encode_tagged tag octets = fill_digits (length octets + 1) [] @ '':'' @ [tag] @ octets"

definition encode_symbol :: "string \<Rightarrow> string" where
  "encode_symbol s = encode_tagged CHR ''S'' s"

definition encode_num :: "int \<Rightarrow> string" where
  "encode_num n =
     (let digits = fill_digits (nat \<bar>n\<bar>) []
      in encode_tagged CHR ''N'' (if n < 0 then CHR ''-'' # digits else digits))"

fun encode_to :: "sexpr \<Rightarrow> string" where
  "encode_to (Atom a) = (case a of
       Symbol s \<Rightarrow> encode_symbol s
     | Keyword s \<Rightarrow> encode_tagged CHR ''K'' s
     | Str s \<Rightarrow> encode_tagged CHR ''Q'' s
     | Bool b \<Rightarrow> encode_tagged CHR ''B'' (if b then ''t'' else ''f'')
     | Num n \<Rightarrow> encode_num n)"
| "encode_to (List items) = ''('' @ concat (map encode_to items) @ '')''"

definition canonical_encode :: "sexpr \<Rightarrow> string" where
  "canonical_encode e = encode_to e"

section \<open>Atoms\<close>

lemma fill_digits_show_nat: "fill_digits m buf = show_nat m @ buf"
proof (induction m buf rule: fill_digits.induct)
  case (1 m buf)
  show ?case
  proof (cases "m < 10")
    case True
    then show ?thesis by (subst fill_digits.simps, subst show_nat.simps) simp
  next
    case False
    then show ?thesis
      using 1 by (subst fill_digits.simps, subst show_nat.simps) (simp add: Let_def)
  qed
qed

lemma encode_tagged_eq: "encode_tagged tag octets = show_nat (length octets + 1) @ '':'' @ [tag] @ octets"
  by (simp add: encode_tagged_def fill_digits_show_nat)

lemma encode_Atom: "encode_to (Atom a) = show_nat (length (atom_to_octets a)) @ '':'' @ atom_to_octets a"
  by (cases a)
     (simp_all add: encode_tagged_eq encode_symbol_def encode_num_def atom_to_octets_def
        fill_digits_show_nat show_int_def Let_def)

lemma show_nat_inject: "show_nat m = show_nat n \<Longrightarrow> m = n"
  by (metis digits_value_show_nat)

lemma show_int_inject: "show_int m = show_int n \<Longrightarrow> m = n"
proof -
  have "show_nat k \<noteq> CHR ''-'' # s" for k s
    using show_nat_hd [of k] by (auto simp: is_ascii_digit_def)
  then have "CHR ''-'' # s \<noteq> show_nat k" for k s by metis
  then show "show_int m = show_int n \<Longrightarrow> m = n"
    using \<open>\<And>k s. show_nat k \<noteq> CHR ''-'' # s\<close>
    by (auto simp: show_int_def dest!: show_nat_inject split: if_splits)
qed

lemma atom_to_octets_inject: "atom_to_octets a = atom_to_octets b \<Longrightarrow> a = b"
  by (cases a; cases b) (auto simp: atom_to_octets_def dest: show_int_inject split: if_splits)

text \<open>A run of digits up to a colon can be read in one way only.\<close>

lemma digits_colon_unique:
  assumes "list_all is_ascii_digit s" "list_all is_ascii_digit t" "s @ CHR '':'' # r = t @ CHR '':'' # r'"
  shows "s = t \<and> r = r'"
proof -
  have colon: "\<not> is_ascii_digit CHR '':''" by (simp add: is_ascii_digit_def)
  have tw: "takeWhile is_ascii_digit (u @ CHR '':'' # v) = u" if "list_all is_ascii_digit u" for u v
    using that colon by (simp add: takeWhile_append list_all_iff)
  have "s = t" using tw [OF assms(1)] tw [OF assms(2)] assms(3) by metis
  then show ?thesis using assms(3) by simp
qed

lemma encode_Atom_unique:
  assumes "encode_to (Atom a) @ r = encode_to (Atom b) @ r'"
  shows "a = b \<and> r = r'"
proof -
  have "show_nat (length (atom_to_octets a)) = show_nat (length (atom_to_octets b)) \<and>
      atom_to_octets a @ r = atom_to_octets b @ r'"
    using digits_colon_unique [OF show_nat_digits show_nat_digits] assms unfolding encode_Atom
    by (simp del: encode_to.simps)
  then show ?thesis
    using show_nat_inject atom_to_octets_inject by (metis append_eq_append_conv)
qed

section \<open>Trees\<close>

lemma encode_Atom_hd: "is_ascii_digit (hd (encode_to (Atom a)))" "encode_to (Atom a) \<noteq> []"
  unfolding encode_Atom using show_nat_hd by simp_all

lemma encode_not_close: "encode_to e @ r \<noteq> CHR '')'' # r'"
proof (cases e)
  case (Atom a)
  have "\<not> is_ascii_digit CHR '')''" by (simp add: is_ascii_digit_def)
  then have "hd (encode_to e) \<noteq> CHR '')''" "encode_to e \<noteq> []" using encode_Atom_hd [of a] Atom by metis+
  then show ?thesis by (metis hd_append2 list.sel(1))
qed simp

lemma encode_Atom_List: "encode_to (Atom a) @ r \<noteq> encode_to (List es) @ r'"
proof
  assume "encode_to (Atom a) @ r = encode_to (List es) @ r'"
  then have "hd (encode_to (Atom a)) = CHR ''(''"
    using encode_Atom_hd(2) [of a] by (metis append_Cons encode_to.simps(2) hd_append2 list.sel(1))
  then show False using encode_Atom_hd(1) [of a] by (simp add: is_ascii_digit_def)
qed

lemma encode_unique: "encode_to e @ r = encode_to e' @ r' \<Longrightarrow> e = e' \<and> r = r'"
proof (induction e arbitrary: e' r r')
  case (Atom a)
  then show ?case using encode_Atom_unique encode_Atom_List by (cases e') blast+
next
  case (List items)
  obtain items' where e': "e' = List items'"
    using List.prems encode_Atom_List by (cases e') metis+
  have "concat (map encode_to items) @ CHR '')'' # r = concat (map encode_to items') @ CHR '')'' # r'"
    using List.prems e' by simp
  then have "items = items' \<and> r = r'"
    using List.IH
  proof (induction items arbitrary: items')
    case Nil
    then show ?case
      using encode_not_close by (cases items') (simp, simp del: encode_to.simps, metis)
  next
    case (Cons x xs)
    then obtain y ys where y: "items' = y # ys"
      using encode_not_close by (cases items') (simp del: encode_to.simps, blast)
    have "encode_to x @ (concat (map encode_to xs) @ CHR '')'' # r) =
        encode_to y @ (concat (map encode_to ys) @ CHR '')'' # r')"
      using Cons.prems(1) y by simp
    then have "x = y" "concat (map encode_to xs) @ CHR '')'' # r = concat (map encode_to ys) @ CHR '')'' # r'"
      using Cons.prems(2) [of x] by auto
    then show ?case using Cons.IH [of ys] Cons.prems(2) y by auto
  qed
  then show ?case using e' by simp
qed

lemma encode_symbol_unique: "encode_symbol s @ r = encode_symbol t @ r' \<Longrightarrow> s = t \<and> r = r'"
  using encode_Atom_unique [of "Symbol s" r "Symbol t" r'] by simp

lemma canonical_encode_inject: "canonical_encode e = canonical_encode e' \<longleftrightarrow> e = e'"
  using encode_unique [of e "[]" e' "[]"] by (auto simp: canonical_encode_def)

section \<open>Properties\<close>

text \<open>C27: the canonical encoding is prefix-free: two encodings that agree on a common byte stream are of
  the same tree and end at the same place. In particular it is injective, as its documentation
  claims.\<close>

theorem canonical_encode_prefix_free:
  "canonical_encode e @ r = canonical_encode e' @ r' \<longleftrightarrow> e = e' \<and> r = r'"
  using encode_unique by (auto simp: canonical_encode_def)

text \<open>The streaming encoder agrees with the atom-to-octets table: every atom is the decimal length
  of its octets, a colon and the octets.\<close>

lemma canonical_encode_atom:
  "canonical_encode (Atom a) = show_nat (length (atom_to_octets a)) @ '':'' @ atom_to_octets a"
  unfolding canonical_encode_def by (rule encode_Atom)

end
