(* ===== verification/Cbcl_Keyid.thy ===== *)
theory Cbcl_Keyid
  imports Cbcl_Prelude
begin

text \<open>
  The suite-typed key identities of \<open>cbcl-core/src/keyid.rs\<close>: parsing \<open>@[suite:]name\<close>,
  canonical spelling, and the derived order that sorts recipient sets.
\<close>

section \<open>Data\<close>

definition DEFAULT_SUITE_NAME :: string where "DEFAULT_SUITE_NAME = ''ed25519''"

datatype signature_suite = Ed25519 | OtherSuite string

definition suite_parse :: "string \<Rightarrow> signature_suite" where
  "suite_parse s = (if s = DEFAULT_SUITE_NAME then Ed25519 else OtherSuite s)"

definition suite_as_str :: "signature_suite \<Rightarrow> string" where
  "suite_as_str s = (case s of Ed25519 \<Rightarrow> DEFAULT_SUITE_NAME | OtherSuite n \<Rightarrow> n)"

definition is_implemented :: "signature_suite \<Rightarrow> bool" where
  "is_implemented s = (case s of Ed25519 \<Rightarrow> True | OtherSuite _ \<Rightarrow> False)"

datatype key_id_error = MissingSigil | EmptySuite | EmptyName

datatype key_id = KeyId (key_suite: signature_suite) (key_name: string)

text \<open>\<open>derive(PartialOrd, Ord)\<close>: by variant, then by the fields in order.\<close>

instantiation signature_suite :: linorder
begin

definition less_eq_signature_suite :: "signature_suite \<Rightarrow> signature_suite \<Rightarrow> bool" where
  "less_eq_signature_suite a b = (case (a, b) of
       (Ed25519, _) \<Rightarrow> True
     | (OtherSuite _, Ed25519) \<Rightarrow> False
     | (OtherSuite x, OtherSuite y) \<Rightarrow> x \<le> y)"

definition less_signature_suite :: "signature_suite \<Rightarrow> signature_suite \<Rightarrow> bool" where
  "less_signature_suite a b \<longleftrightarrow> a \<le> b \<and> a \<noteq> (b :: signature_suite)"

instance
proof
  fix a b c :: signature_suite
  show "a < b \<longleftrightarrow> a \<le> b \<and> \<not> b \<le> a"
    by (cases a; cases b) (auto simp: less_eq_signature_suite_def less_signature_suite_def)
  show "a \<le> a" by (cases a) (simp_all add: less_eq_signature_suite_def)
  show "a \<le> b \<Longrightarrow> b \<le> c \<Longrightarrow> a \<le> c"
    by (cases a; cases b; cases c) (auto simp: less_eq_signature_suite_def)
  show "a \<le> b \<Longrightarrow> b \<le> a \<Longrightarrow> a = b"
    by (cases a; cases b) (auto simp: less_eq_signature_suite_def)
  show "a \<le> b \<or> b \<le> a"
    by (cases a; cases b) (auto simp: less_eq_signature_suite_def)
qed

end

instantiation key_id :: linorder
begin

definition less_eq_key_id :: "key_id \<Rightarrow> key_id \<Rightarrow> bool" where
  "less_eq_key_id a b \<longleftrightarrow> key_suite a < key_suite b \<or>
     (key_suite a = key_suite b \<and> key_name a \<le> key_name b)"

definition less_key_id :: "key_id \<Rightarrow> key_id \<Rightarrow> bool" where
  "less_key_id a b \<longleftrightarrow> key_suite a < key_suite b \<or>
     (key_suite a = key_suite b \<and> key_name a < key_name b)"

instance
  by standard (auto simp: less_eq_key_id_def less_key_id_def key_id.expand)

end

section \<open>Parsing and spelling\<close>

definition split_once :: "char \<Rightarrow> string \<Rightarrow> (string \<times> string) option" where
  "split_once c s = (case dropWhile (\<lambda>d. d \<noteq> c) s of
       [] \<Rightarrow> None
     | _ # after \<Rightarrow> Some (takeWhile (\<lambda>d. d \<noteq> c) s, after))"

definition key_id_named :: "signature_suite \<Rightarrow> string \<Rightarrow> (key_id_error, key_id) result" where
  "key_id_named suite name = (if name = [] then Inl EmptyName else Inr (KeyId suite name))"

definition key_id_parse :: "string \<Rightarrow> (key_id_error, key_id) result" where
  "key_id_parse spelling = (case spelling of
       [] \<Rightarrow> Inl MissingSigil
     | c # rest \<Rightarrow>
         if c \<noteq> CHR ''@'' then Inl MissingSigil
         else (case split_once CHR '':'' rest of
             Some (s, n) \<Rightarrow> if s = [] then Inl EmptySuite else key_id_named (suite_parse s) n
           | None \<Rightarrow> key_id_named Ed25519 rest))"

definition canonical_spelling :: "key_id \<Rightarrow> string" where
  "canonical_spelling k = ''@'' @ suite_as_str (key_suite k) @ '':'' @ key_name k"

section \<open>Canonical identities\<close>

text \<open>The identities that parsing produces.\<close>

definition wf_key_id :: "key_id \<Rightarrow> bool" where
  "wf_key_id k \<longleftrightarrow> key_name k \<noteq> [] \<and> (case key_suite k of
       Ed25519 \<Rightarrow> True
     | OtherSuite s \<Rightarrow> s \<noteq> [] \<and> s \<noteq> DEFAULT_SUITE_NAME \<and> CHR '':'' \<notin> set s)"

lemma split_once_append: "c \<notin> set s \<Longrightarrow> split_once c (s @ c # t) = Some (s, t)"
  by (simp add: split_once_def takeWhile_append dropWhile_append)

lemma split_once_Some:
  assumes "split_once c s = Some (a, b)"
  shows "s = a @ c # b \<and> c \<notin> set a"
proof -
  obtain d where d: "dropWhile (\<lambda>d. d \<noteq> c) s = d # b" and a: "a = takeWhile (\<lambda>d. d \<noteq> c) s"
    using assms by (auto simp: split_once_def split: list.splits)
  have "d = c" using hd_dropWhile [of "\<lambda>d. d \<noteq> c" s] d by simp
  moreover have "s = a @ d # b" using takeWhile_dropWhile_id [of "\<lambda>d. d \<noteq> c" s] a d by simp
  moreover have "c \<notin> set a" unfolding a by (auto dest: set_takeWhileD)
  ultimately show ?thesis by simp
qed

lemma suite_parse_as_str:
  "suite_as_str s = n \<Longrightarrow> (case s of Ed25519 \<Rightarrow> True | OtherSuite m \<Rightarrow> m \<noteq> DEFAULT_SUITE_NAME) \<Longrightarrow>
     suite_parse n = s"
  by (cases s) (auto simp: suite_as_str_def suite_parse_def)

lemma key_id_parse_wf: "key_id_parse s = Inr k \<Longrightarrow> wf_key_id k"
  by (auto simp: key_id_parse_def key_id_named_def wf_key_id_def suite_parse_def
      dest!: split_once_Some split: list.splits if_splits option.splits)

lemma key_id_parse_spelling:
  assumes "wf_key_id k"
  shows "key_id_parse (canonical_spelling k) = Inr k"
proof -
  let ?s = "suite_as_str (key_suite k)"
  have "CHR '':'' \<notin> set ?s" "?s \<noteq> []" "suite_parse ?s = key_suite k" "key_name k \<noteq> []"
    using assms
    by (auto simp: wf_key_id_def suite_as_str_def suite_parse_def DEFAULT_SUITE_NAME_def
        split: signature_suite.splits)
  then show ?thesis
    using split_once_append [of "CHR '':''" ?s "key_name k"]
    by (simp add: canonical_spelling_def key_id_parse_def key_id_named_def)
qed

lemma canonical_spelling_inject:
  "wf_key_id k \<Longrightarrow> wf_key_id k' \<Longrightarrow> canonical_spelling k = canonical_spelling k' \<Longrightarrow> k = k'"
  by (metis Inr_inject key_id_parse_spelling)

section \<open>Properties\<close>

text \<open>Key identity is canonical: the identities parsing returns are exactly those that are parsed
  back from their own suite-explicit spelling, so alias spellings collapse to one identity.\<close>

lemma key_id_parse_exact:
  "(\<exists>s. key_id_parse s = Inr k) \<longleftrightarrow> key_id_parse (canonical_spelling k) = Inr k"
  using key_id_parse_wf key_id_parse_spelling by blast

end
