(* ===== verification/Cbcl_Address.thy ===== *)
theory Cbcl_Address
  imports Cbcl_Message Cbcl_Canonical Cbcl_Hlc
begin

text \<open>
  The typed content address of \<open>cbcl-core/src/typed_addr.rs\<close>: a Merkle commitment over the six
  fields of a message, with openings that disclose one field. SHA-256 comes from a library and is
  the parameter \<open>sha256\<close>, a function from octets to octets; the results that need its strength
  say so by asking that it does not collide on the finitely many inputs actually hashed.
\<close>

section \<open>Fields\<close>

datatype field_id = FPerformative | FFrom | FTo | FCausedBy | FThread | FPayload

definition FIELD_ORDER :: "field_id list" where
  "FIELD_ORDER = [FPerformative, FFrom, FTo, FCausedBy, FThread, FPayload]"

definition domain_tag :: "field_id \<Rightarrow> string" where
  "domain_tag f = (case f of
       FPerformative \<Rightarrow> ''cbcl-taddr-v1/field-0-performative''
     | FFrom \<Rightarrow> ''cbcl-taddr-v1/field-1-from''
     | FTo \<Rightarrow> ''cbcl-taddr-v1/field-2-to''
     | FCausedBy \<Rightarrow> ''cbcl-taddr-v1/field-3-caused-by''
     | FThread \<Rightarrow> ''cbcl-taddr-v1/field-4-thread''
     | FPayload \<Rightarrow> ''cbcl-taddr-v1/field-5-payload'')"

datatype side = SLeft | SRight

record field_opening =
  o_field :: field_id
  o_value :: sexpr
  o_path :: "(string \<times> side) list"

definition opt_sexpr :: "sexpr option \<Rightarrow> sexpr" where
  "opt_sexpr v = (case v of Some e \<Rightarrow> List [e] | None \<Rightarrow> List [])"

definition caused_by_sexpr :: "caused_by \<Rightarrow> sexpr" where
  "caused_by_sexpr cb = (case cb of
       Begin \<Rightarrow> Sym BEGIN_KEYWORD
     | Single h \<Rightarrow> Sym h
     | Multiple hs \<Rightarrow> List (map Sym hs))"

definition field_sexpr :: "message \<Rightarrow> field_id \<Rightarrow> sexpr" where
  "field_sexpr msg f = (case msg of
       Simple s \<Rightarrow> (case f of
           FPerformative \<Rightarrow> Sym (performative_name (m_performative s))
         | FFrom \<Rightarrow> opt_sexpr (map_option (\<lambda>t. Atom (Str t)) (m_sender s))
         | FTo \<Rightarrow> List (map Sym (recipient_set msg))
         | FCausedBy \<Rightarrow> opt_sexpr (map_option caused_by_sexpr (m_caused_by s))
         | FThread \<Rightarrow> opt_sexpr (map_option (\<lambda>t. Atom (Str t)) (m_thread s))
         | FPayload \<Rightarrow> List (m_content s # m_params s))
     | _ \<Rightarrow> (case f of
           FPayload \<Rightarrow> List [sexpr_of_message msg]
         | FPerformative \<Rightarrow> (case msg of
               Meta _ \<Rightarrow> Sym ''meta''
             | Dialect _ _ \<Rightarrow> Sym ''lang''
             | Wrapped w _ _ \<Rightarrow> Sym (wrapper_as_str w))
         | _ \<Rightarrow> List []))"

section \<open>The tree\<close>

definition leaf_input :: "field_id \<Rightarrow> sexpr \<Rightarrow> string" where
  "leaf_input f v = [CHR 0x00] @ ''('' @ encode_symbol (domain_tag f) @ encode_to v @ '')''"

definition node_input :: "string \<Rightarrow> string \<Rightarrow> string" where
  "node_input l r = [CHR 0x01] @ l @ r"

definition leaf_hash :: "(string \<Rightarrow> string) \<Rightarrow> field_id \<Rightarrow> sexpr \<Rightarrow> string" where
  "leaf_hash sha256 f v = sha256 (leaf_input f v)"

definition node_hash :: "(string \<Rightarrow> string) \<Rightarrow> string \<Rightarrow> string \<Rightarrow> string" where
  "node_hash sha256 l r = sha256 (node_input l r)"

definition leaves :: "(string \<Rightarrow> string) \<Rightarrow> message \<Rightarrow> string list" where
  "leaves sha256 msg = map (\<lambda>f. leaf_hash sha256 f (field_sexpr msg f)) FIELD_ORDER"

record tree =
  t_l :: "string list"
  t_n0 :: string
  t_n1 :: string
  t_n2 :: string
  t_m0 :: string
  t_root :: string

definition build_tree :: "(string \<Rightarrow> string) \<Rightarrow> message \<Rightarrow> tree" where
  "build_tree sha256 msg =
     (let l = leaves sha256 msg;
          n0 = node_hash sha256 (l ! 0) (l ! 1);
          n1 = node_hash sha256 (l ! 2) (l ! 3);
          n2 = node_hash sha256 (l ! 4) (l ! 5);
          m0 = node_hash sha256 n0 n1;
          root = node_hash sha256 m0 n2
      in \<lparr>t_l = l, t_n0 = n0, t_n1 = n1, t_n2 = n2, t_m0 = m0, t_root = root\<rparr>)"

definition hex32 :: "string \<Rightarrow> string" where
  "hex32 bs = concat (map (\<lambda>b. [hex_digit (byte b div 16), hex_digit (byte b mod 16)]) bs)"

definition typed_root :: "(string \<Rightarrow> string) \<Rightarrow> message \<Rightarrow> string" where
  "typed_root sha256 msg = ''sha256:'' @ hex32 (t_root (build_tree sha256 msg))"

definition open_path :: "tree \<Rightarrow> field_id \<Rightarrow> (string \<times> side) list" where
  "open_path t f = (case f of
       FPerformative \<Rightarrow> [(t_l t ! 1, SRight), (t_n1 t, SRight), (t_n2 t, SRight)]
     | FFrom \<Rightarrow> [(t_l t ! 0, SLeft), (t_n1 t, SRight), (t_n2 t, SRight)]
     | FTo \<Rightarrow> [(t_l t ! 3, SRight), (t_n0 t, SLeft), (t_n2 t, SRight)]
     | FCausedBy \<Rightarrow> [(t_l t ! 2, SLeft), (t_n0 t, SLeft), (t_n2 t, SRight)]
     | FThread \<Rightarrow> [(t_l t ! 5, SRight), (t_m0 t, SLeft)]
     | FPayload \<Rightarrow> [(t_l t ! 4, SLeft), (t_m0 t, SLeft)])"

definition open_field :: "(string \<Rightarrow> string) \<Rightarrow> message \<Rightarrow> field_id \<Rightarrow> field_opening" where
  "open_field sha256 msg f =
     \<lparr>o_field = f, o_value = field_sexpr msg f, o_path = open_path (build_tree sha256 msg) f\<rparr>"

fun fold_path :: "(string \<Rightarrow> string) \<Rightarrow> string \<Rightarrow> (string \<times> side) list \<Rightarrow> string" where
  "fold_path sha256 cur [] = cur"
| "fold_path sha256 cur ((sibling, side) # path) =
     fold_path sha256 (case side of
         SLeft \<Rightarrow> node_hash sha256 sibling cur
       | SRight \<Rightarrow> node_hash sha256 cur sibling) path"

definition strip_prefix :: "string \<Rightarrow> string \<Rightarrow> string option" where
  "strip_prefix p s = (if take (length p) s = p then Some (drop (length p) s) else None)"

definition verify_opening ::
  "(string \<Rightarrow> string) \<Rightarrow> string \<Rightarrow> field_id \<Rightarrow> sexpr \<Rightarrow> field_opening \<Rightarrow> bool" where
  "verify_opening sha256 root f value op =
     (if o_field op \<noteq> f then False
      else let cur = fold_path sha256 (leaf_hash sha256 f value) (o_path op)
           in (case strip_prefix ''sha256:'' root of
                 None \<Rightarrow> False
               | Some expected \<Rightarrow> hex32 cur = expected))"

section \<open>Binding\<close>

text \<open>Merkle trees over field values, their digests, and the inputs hashed to compute them.\<close>

datatype mtree = MLeaf field_id sexpr | MNode mtree mtree

fun digest :: "(string \<Rightarrow> string) \<Rightarrow> mtree \<Rightarrow> string" where
  "digest sha256 (MLeaf f v) = leaf_hash sha256 f v"
| "digest sha256 (MNode a b) = node_hash sha256 (digest sha256 a) (digest sha256 b)"

fun mtree_inputs :: "(string \<Rightarrow> string) \<Rightarrow> mtree \<Rightarrow> string list" where
  "mtree_inputs sha256 (MLeaf f v) = [leaf_input f v]"
| "mtree_inputs sha256 (MNode a b) =
     node_input (digest sha256 a) (digest sha256 b) # mtree_inputs sha256 a @ mtree_inputs sha256 b"

fun mtree_leaves :: "mtree \<Rightarrow> (field_id \<times> sexpr) list" where
  "mtree_leaves (MLeaf f v) = [(f, v)]"
| "mtree_leaves (MNode a b) = mtree_leaves a @ mtree_leaves b"

definition field_leaf :: "message \<Rightarrow> field_id \<Rightarrow> mtree" where
  "field_leaf msg f = MLeaf f (field_sexpr msg f)"

definition message_mtree :: "message \<Rightarrow> mtree" where
  "message_mtree msg = MNode
     (MNode (MNode (field_leaf msg FPerformative) (field_leaf msg FFrom))
        (MNode (field_leaf msg FTo) (field_leaf msg FCausedBy)))
     (MNode (field_leaf msg FThread) (field_leaf msg FPayload))"

text \<open>The inputs hashed when an opening is verified.\<close>

fun path_inputs :: "(string \<Rightarrow> string) \<Rightarrow> string \<Rightarrow> (string \<times> side) list \<Rightarrow> string list" where
  "path_inputs sha256 cur [] = []"
| "path_inputs sha256 cur ((sibling, side) # path) =
     (let inp = (case side of SLeft \<Rightarrow> node_input sibling cur | SRight \<Rightarrow> node_input cur sibling)
      in inp # path_inputs sha256 (sha256 inp) path)"

definition opening_inputs :: "(string \<Rightarrow> string) \<Rightarrow> field_id \<Rightarrow> sexpr \<Rightarrow> (string \<times> side) list \<Rightarrow> string list" where
  "opening_inputs sha256 f v path = leaf_input f v # path_inputs sha256 (leaf_hash sha256 f v) path"

lemma domain_tag_inject: "domain_tag f = domain_tag g \<Longrightarrow> f = g"
  by (cases f; cases g) (simp_all add: domain_tag_def)

lemma leaf_input_inject: "leaf_input f v = leaf_input g w \<Longrightarrow> f = g \<and> v = w"
proof -
  assume "leaf_input f v = leaf_input g w"
  then have "encode_symbol (domain_tag f) @ (encode_to v @ '')'') =
      encode_symbol (domain_tag g) @ (encode_to w @ '')'')"
    by (simp add: leaf_input_def)
  then have "domain_tag f = domain_tag g" "encode_to v @ '')'' = encode_to w @ '')''"
    using encode_symbol_unique by blast+
  then show ?thesis using encode_unique domain_tag_inject by blast
qed

lemma leaf_not_node: "leaf_input f v \<noteq> node_input l r"
  by (simp add: leaf_input_def node_input_def)

lemma node_input_inject: "length l = length l' \<Longrightarrow> node_input l r = node_input l' r' \<longleftrightarrow> l = l' \<and> r = r'"
  by (auto simp: node_input_def)

lemma digest_length: "(\<And>x. length (sha256 x) = 32) \<Longrightarrow> length (digest sha256 t) = 32"
  by (cases t) (simp_all add: leaf_hash_def node_hash_def)

lemma fold_path_append:
  "fold_path sha256 cur (p @ q) = fold_path sha256 (fold_path sha256 cur p) q"
  by (induction sha256 cur p rule: fold_path.induct) auto

lemma path_inputs_append:
  "path_inputs sha256 cur (p @ q) = path_inputs sha256 cur p @ path_inputs sha256 (fold_path sha256 cur p) q"
  by (induction sha256 cur p rule: path_inputs.induct)
     (auto simp: Let_def node_hash_def split: side.splits)

lemma fold_path_length:
  "(\<And>x. length (sha256 x) = 32) \<Longrightarrow> length cur = 32 \<Longrightarrow> length (fold_path sha256 cur p) = 32"
  by (induction sha256 cur p rule: fold_path.induct) (auto simp: node_hash_def split: side.splits)

lemma opening_reaches_leaf:
  assumes "fold_path sha256 (leaf_hash sha256 f v) path = digest sha256 t"
    and "inj_on sha256 (set (mtree_inputs sha256 t) \<union> set (opening_inputs sha256 f v path))"
    and len: "\<And>x. length (sha256 x) = 32" and "list_all (\<lambda>(d, _). length d = 32) path"
  shows "(f, v) \<in> set (mtree_leaves t)"
  using assms(1,2,4)
proof (induction path arbitrary: t rule: rev_induct)
  case Nil
  show ?case
  proof (cases t)
    case (MLeaf g w)
    have "leaf_input f v = leaf_input g w"
      by (rule inj_onD [OF Nil.prems(2)])
         (use Nil.prems(1) MLeaf in \<open>simp_all add: leaf_hash_def opening_inputs_def\<close>)
    then show ?thesis using MLeaf leaf_input_inject by auto
  next
    case (MNode a b)
    have "leaf_input f v = node_input (digest sha256 a) (digest sha256 b)"
      by (rule inj_onD [OF Nil.prems(2)])
         (use Nil.prems(1) MNode in \<open>simp_all add: leaf_hash_def node_hash_def opening_inputs_def\<close>)
    then show ?thesis using leaf_not_node by blast
  qed
next
  case (snoc e path)
  obtain sib sd where e: "e = (sib, sd)" by (cases e)
  define cur where "cur = fold_path sha256 (leaf_hash sha256 f v) path"
  define inp where "inp = (case sd of SLeft \<Rightarrow> node_input sib cur | SRight \<Rightarrow> node_input cur sib)"
  have inputs: "opening_inputs sha256 f v (path @ [e]) = opening_inputs sha256 f v path @ [inp]"
    by (cases sd) (simp_all add: opening_inputs_def path_inputs_append e inp_def cur_def Let_def)
  have eq: "sha256 inp = digest sha256 t"
    using snoc.prems(1) e by (cases sd) (simp_all add: fold_path_append inp_def cur_def node_hash_def)
  have cur32: "length cur = 32"
    unfolding cur_def by (rule fold_path_length [OF len]) (simp add: leaf_hash_def len)
  have sib32: "length sib = 32" using snoc.prems(3) e by simp
  show ?case
  proof (cases t)
    case (MLeaf g w)
    have "inp = leaf_input g w"
      by (rule inj_onD [OF snoc.prems(2)]) (use eq MLeaf in \<open>simp_all add: inputs leaf_hash_def\<close>)
    then show ?thesis using leaf_not_node by (metis inp_def side.exhaust side.simps(3,4))
  next
    case (MNode a b)
    have "inp = node_input (digest sha256 a) (digest sha256 b)"
      by (rule inj_onD [OF snoc.prems(2)]) (use eq MNode in \<open>simp_all add: inputs node_hash_def\<close>)
    then have "cur = digest sha256 (if sd = SLeft then b else a)"
      using cur32 sib32 digest_length [OF len] unfolding inp_def
      by (cases sd) (simp_all add: node_input_inject)
    moreover have "inj_on sha256 (set (mtree_inputs sha256 (if sd = SLeft then b else a)) \<union>
        set (opening_inputs sha256 f v path))"
      by (rule inj_on_subset [OF snoc.prems(2)]) (auto simp: inputs MNode)
    ultimately have "(f, v) \<in> set (mtree_leaves (if sd = SLeft then b else a))"
      using snoc.IH snoc.prems(3) unfolding cur_def by auto
    then show ?thesis using MNode by (auto split: if_splits)
  qed
qed

lemma t_root_digest: "t_root (build_tree sha256 msg) = digest sha256 (message_mtree msg)"
  by (simp add: build_tree_def message_mtree_def field_leaf_def leaves_def FIELD_ORDER_def Let_def)

lemma mtree_leaves_message: "(f, v) \<in> set (mtree_leaves (message_mtree msg)) \<longleftrightarrow> v = field_sexpr msg f"
  by (cases f) (auto simp: message_mtree_def field_leaf_def)

lemma hex_digit_inject: "m < 16 \<Longrightarrow> n < 16 \<Longrightarrow> hex_digit m = hex_digit n \<Longrightarrow> m = n"
  by (metis hex_digit_value_digit)

lemma hex32_inject: "hex32 a = hex32 b \<Longrightarrow> a = b"
proof (induction a arbitrary: b)
  case Nil
  then show ?case by (cases b) (simp_all add: hex32_def)
next
  case (Cons c cs)
  then obtain d ds where b: "b = d # ds" by (cases b) (simp_all add: hex32_def)
  then have eqs: "hex_digit (byte c div 16) = hex_digit (byte d div 16)"
      "hex_digit (byte c mod 16) = hex_digit (byte d mod 16)" "hex32 cs = hex32 ds"
    using Cons.prems by (simp_all add: hex32_def)
  have small: "byte c div 16 < 16" "byte d div 16 < 16"
    by (simp_all add: less_mult_imp_div_less)
  have "byte c div 16 = byte d div 16" "byte c mod 16 = byte d mod 16"
    using eqs small by (auto intro: hex_digit_inject)
  then have "byte c = byte d" by (metis div_mult_mod_eq)
  then show ?case using Cons.IH eqs(3) b by simp
qed

lemma strip_prefix_append [simp]: "strip_prefix p (p @ s) = Some s"
  by (simp add: strip_prefix_def)

lemma strip_typed_root:
  "strip_prefix ''sha256:'' (typed_root sha256 msg) = Some (hex32 (t_root (build_tree sha256 msg)))"
  unfolding typed_root_def by (rule strip_prefix_append)

lemma verify_opening_iff:
  "verify_opening sha256 (typed_root sha256 msg) f v op \<longleftrightarrow> o_field op = f \<and>
     fold_path sha256 (leaf_hash sha256 f v) (o_path op) = digest sha256 (message_mtree msg)"
  unfolding verify_opening_def strip_typed_root by (auto simp: t_root_digest dest: hex32_inject)

lemma open_verifies: "verify_opening sha256 (typed_root sha256 msg) f (field_sexpr msg f) (open_field sha256 msg f)"
  unfolding verify_opening_iff
  by (cases f) (simp_all add: open_field_def open_path_def build_tree_def message_mtree_def
      field_leaf_def leaves_def FIELD_ORDER_def Let_def)

lemma o_value_open [simp]: "o_value (open_field sha256 msg f) = field_sexpr msg f"
  by (simp add: open_field_def)

lemma open_path_lengths:
  "(\<And>x. length (sha256 x) = 32) \<Longrightarrow> list_all (\<lambda>(d, _). length d = 32) (o_path (open_field sha256 msg f))"
  by (cases f) (simp_all add: open_field_def open_path_def build_tree_def leaves_def FIELD_ORDER_def
      Let_def leaf_hash_def node_hash_def)

section \<open>Properties\<close>

text \<open>Completeness of openings: the opening of any field of any message verifies against the
  message's typed root, for every hash function.\<close>

lemma open_field_verifies:
  "verify_opening sha256 (typed_root sha256 msg) f (o_value (open_field sha256 msg f))
     (open_field sha256 msg f)"
  using open_verifies by simp

text \<open>C28: binding of openings: if SHA-256 returns 32 octets and does not collide on the inputs hashed
  for this message and this verification, a verifying opening discloses the message's own value of
  the field, whatever path of whatever length the opening claims.\<close>

theorem verify_opening_binding:
  assumes "\<And>x. length (sha256 x) = 32"
    and "inj_on sha256 (set (mtree_inputs sha256 (message_mtree msg)) \<union>
      set (opening_inputs sha256 f v (o_path op)))"
    and "list_all (\<lambda>(d, _). length d = 32) (o_path op)"
    and "verify_opening sha256 (typed_root sha256 msg) f v op"
  shows "v = field_sexpr msg f"
  using opening_reaches_leaf [OF _ assms(2,1,3)] assms(4)
  by (simp add: verify_opening_iff mtree_leaves_message)

text \<open>The first 32 octets, padded with zeros: enough to tell the inputs of one small message apart.\<close>

definition head32 :: "string \<Rightarrow> string" where
  "head32 x = take 32 (x @ replicate 32 (CHR 0x00))"

definition sample_tell :: message where
  "sample_tell = Simple \<lparr>m_performative = Core Tell, m_recipient = Some (One ''@b''),
     m_content = Atom (Num 7), m_params = [], m_thread = Some ''t'', m_sender = Some ''@a'',
     m_caused_by = Some Begin\<rparr>"

lemma inj_on_distinct_map: "distinct (map f (remdups xs)) \<Longrightarrow> inj_on f (set xs)"
  by (metis distinct_map set_remdups)

theorem verify_opening_binding_witness:
  "o_value (open_field head32 sample_tell FThread) = field_sexpr sample_tell FThread"
proof (rule verify_opening_binding)
  let ?op = "open_field head32 sample_tell FThread"
  show len: "length (head32 x) = 32" for x by (simp add: head32_def)
  have "distinct (map head32 (remdups (mtree_inputs head32 (message_mtree sample_tell) @
      opening_inputs head32 FThread (o_value ?op) (o_path ?op))))"
    by code_simp
  from inj_on_distinct_map [OF this]
  show "inj_on head32 (set (mtree_inputs head32 (message_mtree sample_tell)) \<union>
      set (opening_inputs head32 FThread (o_value ?op) (o_path ?op)))"
    by simp
  show "list_all (\<lambda>(d, _). length d = 32) (o_path ?op)"
    using len by (rule open_path_lengths)
  show "verify_opening head32 (typed_root head32 sample_tell) FThread (o_value ?op) ?op"
    using open_verifies by simp
qed

text \<open>The typed address does not see the recipient form: a message to one recipient and the
  multicast to the set of just that recipient have the same address although they differ on the
  wire.\<close>

lemma typed_root_ignores_recipient_form:
  "typed_root sha256 (Simple (s\<lparr>m_recipient := Some (One r)\<rparr>)) =
     typed_root sha256 (Simple (s\<lparr>m_recipient := Some (RSet [r])\<rparr>)) \<and>
   sexpr_of_message (Simple (s\<lparr>m_recipient := Some (One r)\<rparr>)) \<noteq>
     sexpr_of_message (Simple (s\<lparr>m_recipient := Some (RSet [r])\<rparr>))"
proof
  have "field_sexpr (Simple (s\<lparr>m_recipient := Some (One r)\<rparr>)) f =
      field_sexpr (Simple (s\<lparr>m_recipient := Some (RSet [r])\<rparr>)) f" for f
    by (cases f) (simp_all add: field_sexpr_def recipient_set_def as_set_def bs_of_list_def)
  then show "typed_root sha256 (Simple (s\<lparr>m_recipient := Some (One r)\<rparr>)) =
     typed_root sha256 (Simple (s\<lparr>m_recipient := Some (RSet [r])\<rparr>))"
    by (simp add: typed_root_def build_tree_def leaves_def)
  show "sexpr_of_message (Simple (s\<lparr>m_recipient := Some (One r)\<rparr>)) \<noteq>
     sexpr_of_message (Simple (s\<lparr>m_recipient := Some (RSet [r])\<rparr>))"
    by (simp add: recipient_items_def)
qed

end
