(* ===== verification/Cbcl_Attest.thy ===== *)
theory Cbcl_Attest
  imports Cbcl_Address Cbcl_Keyid
begin

text \<open>
  The signing disciplines of \<open>cbcl-core/src/attest.rs\<close> and the \<open>Signer\<close> trait of \<open>r4.rs\<close>: the v2
  attestation over a header, the v3 attestation over a typed root, and the dispatch on the declared
  discipline. The cryptography is the trait's and is a record of two functions.
\<close>

section \<open>Signers and headers\<close>

record signer =
  signer_sign :: "string \<Rightarrow> string"
  signer_verify :: "string \<Rightarrow> string \<Rightarrow> bool"

record attestation_header =
  h_content_hash :: string
  h_performative :: string
  h_from :: key_id
  h_to :: "key_id btset"
  h_thread :: string
  h_caused_by :: "caused_by option"

definition ATTEST_DOMAIN_TAG :: string where "ATTEST_DOMAIN_TAG = ''cbcl-attest-v2''"

definition ATTEST_V3_DOMAIN_TAG :: string where "ATTEST_V3_DOMAIN_TAG = ''cbcl-attest-v3''"

definition attestation_sexpr :: "attestation_header \<Rightarrow> sexpr" where
  "attestation_sexpr h = List (
     [Sym ATTEST_DOMAIN_TAG, Sym (suite_as_str (key_suite (h_from h))), Sym (h_content_hash h),
      Sym (h_performative h), Sym (canonical_spelling (h_from h)),
      List (map (\<lambda>k. Sym (canonical_spelling k)) (h_to h)), Atom (Str (h_thread h))] @
     (case h_caused_by h of
        Some cb \<Rightarrow> [case cb of
            Begin \<Rightarrow> Sym BEGIN_KEYWORD
          | Single hash \<Rightarrow> Sym hash
          | Multiple hashes \<Rightarrow> List (map Sym hashes)]
      | None \<Rightarrow> []))"

definition attestation_preimage :: "attestation_header \<Rightarrow> string" where
  "attestation_preimage h = canonical_encode (attestation_sexpr h)"

definition attestation_v3_sexpr :: "signature_suite \<Rightarrow> string \<Rightarrow> sexpr" where
  "attestation_v3_sexpr suite root = List [Sym ATTEST_V3_DOMAIN_TAG, Sym (suite_as_str suite), Sym root]"

definition attestation_v3_preimage :: "signature_suite \<Rightarrow> string \<Rightarrow> string" where
  "attestation_v3_preimage suite root = canonical_encode (attestation_v3_sexpr suite root)"

section \<open>Disciplines\<close>

datatype signature_discipline = DV1Full | DV2Attested | DV3Root

datatype attest_error =
    UnknownSuite string
  | UnknownDiscipline string
  | DisciplineMismatch signature_discipline signature_discipline
  | KeyMismatch
  | InvalidSignature

definition discipline_as_str :: "signature_discipline \<Rightarrow> string" where
  "discipline_as_str d = (case d of
       DV1Full \<Rightarrow> ''v1'' | DV2Attested \<Rightarrow> ATTEST_DOMAIN_TAG | DV3Root \<Rightarrow> ATTEST_V3_DOMAIN_TAG)"

definition discipline_parse :: "string \<Rightarrow> (attest_error, signature_discipline) result" where
  "discipline_parse s =
     (if s = ''v1'' then Inr DV1Full
      else if s = ATTEST_DOMAIN_TAG then Inr DV2Attested
      else if s = ATTEST_V3_DOMAIN_TAG then Inr DV3Root
      else Inl (UnknownDiscipline s))"

definition sign_attestation_v2 :: "signer \<Rightarrow> attestation_header \<Rightarrow> (attest_error, string) result" where
  "sign_attestation_v2 signer header = (case key_suite (h_from header) of
       Ed25519 \<Rightarrow> Inr (signer_sign signer (attestation_preimage header))
     | OtherSuite s \<Rightarrow> Inl (UnknownSuite s))"

definition verify_attestation_v2 ::
  "signer \<Rightarrow> key_id \<Rightarrow> attestation_header \<Rightarrow> string \<Rightarrow> (attest_error, unit) result" where
  "verify_attestation_v2 signer key header sig = (case key_suite (h_from header) of
       OtherSuite s \<Rightarrow> Inl (UnknownSuite s)
     | Ed25519 \<Rightarrow> (case key_suite key of
           OtherSuite s \<Rightarrow> Inl (UnknownSuite s)
         | Ed25519 \<Rightarrow>
             if key \<noteq> h_from header then Inl KeyMismatch
             else if signer_verify signer (attestation_preimage header) sig then Inr ()
             else Inl InvalidSignature))"

definition sign_attestation_v3 ::
  "signature_suite \<Rightarrow> string \<Rightarrow> signer \<Rightarrow> (attest_error, string) result" where
  "sign_attestation_v3 suite root signer = (case suite of
       Ed25519 \<Rightarrow> Inr (signer_sign signer (attestation_v3_preimage suite root))
     | OtherSuite s \<Rightarrow> Inl (UnknownSuite s))"

definition verify_attestation_v3 ::
  "signature_suite \<Rightarrow> string \<Rightarrow> string \<Rightarrow> signer \<Rightarrow> (attest_error, unit) result" where
  "verify_attestation_v3 suite root sig signer = (case suite of
       OtherSuite s \<Rightarrow> Inl (UnknownSuite s)
     | Ed25519 \<Rightarrow>
         if signer_verify signer (attestation_v3_preimage suite root) sig then Inr ()
         else Inl InvalidSignature)"

datatype signing_input =
    IV1Full string
  | IV2Attested key_id attestation_header
  | IV3Root signature_suite string

definition input_discipline :: "signing_input \<Rightarrow> signature_discipline" where
  "input_discipline i = (case i of
       IV1Full _ \<Rightarrow> DV1Full | IV2Attested _ _ \<Rightarrow> DV2Attested | IV3Root _ _ \<Rightarrow> DV3Root)"

definition verify_with_discipline ::
  "signature_discipline \<Rightarrow> signing_input \<Rightarrow> signer \<Rightarrow> string \<Rightarrow> (attest_error, unit) result" where
  "verify_with_discipline marker input signer sig = (case (marker, input) of
       (DV1Full, IV1Full bytes) \<Rightarrow>
         if signer_verify signer bytes sig then Inr () else Inl InvalidSignature
     | (DV2Attested, IV2Attested key header) \<Rightarrow> verify_attestation_v2 signer key header sig
     | (DV3Root, IV3Root suite root) \<Rightarrow> verify_attestation_v3 suite root sig signer
     | _ \<Rightarrow> Inl (DisciplineMismatch marker (input_discipline input)))"

section \<open>Reconstructing a header from a message\<close>

datatype member_defect =
    NotSimple | MissingSender | SenderSpelling key_id_error | MissingThread
  | RecipientSpelling key_id_error

definition message_content_hash :: "(string \<Rightarrow> string) \<Rightarrow> message \<Rightarrow> string" where
  "message_content_hash sha256 msg = typed_root sha256 msg"

fun parse_recipients :: "string list \<Rightarrow> key_id btset \<Rightarrow> (member_defect, key_id btset) result" where
  "parse_recipients [] to = Inr to"
| "parse_recipients (r # rs) to = (case key_id_parse r of
       Inl e \<Rightarrow> Inl (RecipientSpelling e)
     | Inr k \<Rightarrow> parse_recipients rs (bs_insert k to))"

definition attestation_header_for ::
  "(string \<Rightarrow> string) \<Rightarrow> message \<Rightarrow> (member_defect, attestation_header) result" where
  "attestation_header_for sha256 msg = (case msg of
       Simple s \<Rightarrow> (case m_sender s of
           None \<Rightarrow> Inl MissingSender
         | Some spelling \<Rightarrow> (case key_id_parse spelling of
               Inl e \<Rightarrow> Inl (SenderSpelling e)
             | Inr from \<Rightarrow> (case m_thread s of
                   None \<Rightarrow> Inl MissingThread
                 | Some thread \<Rightarrow> (case parse_recipients (recipient_set msg) [] of
                       Inl e \<Rightarrow> Inl e
                     | Inr to \<Rightarrow> Inr \<lparr>h_content_hash = message_content_hash sha256 msg,
                         h_performative = performative_name (m_performative s), h_from = from,
                         h_to = to, h_thread = thread, h_caused_by = m_caused_by s\<rparr>))))
     | _ \<Rightarrow> Inl NotSimple)"

section \<open>Preimages\<close>

text \<open>Headers whose keys come from parsing and whose causal reference is one the message layer builds.\<close>

definition wf_header :: "attestation_header \<Rightarrow> bool" where
  "wf_header h \<longleftrightarrow> wf_key_id (h_from h) \<and> list_all wf_key_id (h_to h) \<and>
     pred_option (\<lambda>cb. cb \<noteq> Single BEGIN_KEYWORD) (h_caused_by h)"

lemma spelling_list_inject:
  "list_all wf_key_id ks \<Longrightarrow> list_all wf_key_id ks' \<Longrightarrow>
     map (\<lambda>k. Sym (canonical_spelling k)) ks = map (\<lambda>k. Sym (canonical_spelling k)) ks' \<Longrightarrow> ks = ks'"
proof (induction ks arbitrary: ks')
  case (Cons k ks)
  then show ?case using canonical_spelling_inject by (cases ks') auto
qed simp

lemma map_Sym_inject: "map Sym xs = map Sym ys \<longleftrightarrow> xs = ys"
  by (rule inj_map_eq_map) (simp add: inj_on_def)

definition caused_item :: "caused_by option \<Rightarrow> sexpr list" where
  "caused_item cbo = (case cbo of
       Some cb \<Rightarrow> [case cb of
           Begin \<Rightarrow> Sym BEGIN_KEYWORD | Single hash \<Rightarrow> Sym hash | Multiple hashes \<Rightarrow> List (map Sym hashes)]
     | None \<Rightarrow> [])"

lemma caused_item_inject:
  assumes "pred_option (\<lambda>cb. cb \<noteq> Single BEGIN_KEYWORD) a" "pred_option (\<lambda>cb. cb \<noteq> Single BEGIN_KEYWORD) b"
    "caused_item a = caused_item b"
  shows "a = b"
  using assms by (auto simp: caused_item_def map_Sym_inject split: option.splits caused_by.splits)

lemma attestation_sexpr_inject:
  assumes "wf_header h" "wf_header h'" "attestation_sexpr h = attestation_sexpr h'"
  shows "h = h'"
proof -
  have *: "attestation_sexpr x = List ([Sym ATTEST_DOMAIN_TAG, Sym (suite_as_str (key_suite (h_from x))),
      Sym (h_content_hash x), Sym (h_performative x), Sym (canonical_spelling (h_from x)),
      List (map (\<lambda>k. Sym (canonical_spelling k)) (h_to x)), Atom (Str (h_thread x))] @
      caused_item (h_caused_by x))" for x
    by (simp add: attestation_sexpr_def caused_item_def)
  have "h_from h = h_from h'" "h_to h = h_to h'" "h_caused_by h = h_caused_by h'"
    using assms canonical_spelling_inject spelling_list_inject caused_item_inject
    by (auto simp: * wf_header_def)
  moreover have "h_content_hash h = h_content_hash h'" "h_performative h = h_performative h'"
      "h_thread h = h_thread h'"
    using assms(3) by (simp_all add: *)
  ultimately show ?thesis by simp
qed

lemma attestation_v3_sexpr_inject:
  "is_implemented s \<Longrightarrow> is_implemented s' \<Longrightarrow> attestation_v3_sexpr s r = attestation_v3_sexpr s' r' \<Longrightarrow> s = s' \<and> r = r'"
  by (cases s; cases s') (simp_all add: attestation_v3_sexpr_def is_implemented_def)

lemma preimages_disjoint: "attestation_preimage h \<noteq> attestation_v3_preimage s r"
  by (auto simp: attestation_preimage_def attestation_v3_preimage_def canonical_encode_inject
      attestation_sexpr_def attestation_v3_sexpr_def)

section \<open>Properties\<close>

text \<open>C29: a v2 signature binds its whole header: for headers with parsed keys the signed octets
  determine every field, and they never coincide with the octets of a v3 signature.\<close>

theorem attestation_preimage_binding:
  assumes "wf_header h" "wf_header h'"
  shows "(attestation_preimage h = attestation_preimage h' \<longleftrightarrow> h = h') \<and>
    attestation_preimage h \<noteq> attestation_v3_preimage suite root"
  using attestation_sexpr_inject [OF assms] preimages_disjoint
  by (auto simp: attestation_preimage_def canonical_encode_inject)

definition sample_header :: attestation_header where
  "sample_header = \<lparr>h_content_hash = ''h0'', h_performative = ''tell'', h_from = KeyId Ed25519 ''alice'',
     h_to = [KeyId Ed25519 ''bob''], h_thread = ''t'', h_caused_by = Some Begin\<rparr>"

theorem attestation_preimage_binding_witness:
  "attestation_preimage sample_header \<noteq> attestation_preimage (sample_header\<lparr>h_to := []\<rparr>)"
proof -
  have "wf_header sample_header" "wf_header (sample_header\<lparr>h_to := []\<rparr>)"
    by (simp_all add: wf_header_def sample_header_def wf_key_id_def)
  from attestation_preimage_binding [OF this] show ?thesis
    by (simp add: sample_header_def)
qed

text \<open>Dispatch, never guess: verification under a marker succeeds exactly when the marker is the
  discipline of the input and the signer accepts the signature over that discipline's own octets,
  under an implemented suite and, for v2, the header's own key.\<close>

lemma verify_with_discipline_exact:
  "verify_with_discipline marker input signer sig = Inr () \<longleftrightarrow>
     marker = input_discipline input \<and>
     (case input of
        IV1Full bytes \<Rightarrow> signer_verify signer bytes sig
      | IV2Attested key header \<Rightarrow> key = h_from header \<and> is_implemented (key_suite key) \<and>
          signer_verify signer (attestation_preimage header) sig
      | IV3Root suite root \<Rightarrow> is_implemented suite \<and>
          signer_verify signer (attestation_v3_preimage suite root) sig)"
  by (cases marker; cases input)
     (auto simp: verify_with_discipline_def input_discipline_def verify_attestation_v2_def
        verify_attestation_v3_def is_implemented_def split: signature_suite.splits)

end
