(* ===== verification/Cbcl_Envelope.thy ===== *)
theory Cbcl_Envelope
  imports Cbcl_Attest
begin

text \<open>
  The envelopes of \<open>cbcl-core/src/envelope.rs\<close>: redacted envelopes with their S-expression form and
  strict parser, and opened envelopes that carry field openings under a v3 root signature.
\<close>

section \<open>Redacted envelopes\<close>

record redacted_envelope =
  e_header :: attestation_header
  e_signature :: string

definition ENVELOPE_HEAD :: string where "ENVELOPE_HEAD = ''envelope''"

definition envelope_verify :: "redacted_envelope \<Rightarrow> signer \<Rightarrow> (attest_error, unit) result" where
  "envelope_verify env signer =
     verify_attestation_v2 signer (h_from (e_header env)) (e_header env) (e_signature env)"

definition envelope_verify_under_marker ::
  "redacted_envelope \<Rightarrow> signature_discipline \<Rightarrow> signer \<Rightarrow> (attest_error, unit) result" where
  "envelope_verify_under_marker env marker signer =
     verify_with_discipline marker (IV2Attested (h_from (e_header env)) (e_header env)) signer
       (e_signature env)"

definition hex_encode :: "string \<Rightarrow> string" where
  "hex_encode bs = concat (map (\<lambda>b. [hex_digit (byte b div 16), hex_digit (byte b mod 16)]) bs)"

definition nibble :: "char \<Rightarrow> nat option" where
  "nibble b =
     (if is_ascii_digit b then Some (byte b - 48)
      else if 97 \<le> byte b \<and> byte b \<le> 102 then Some (byte b - 97 + 10)
      else None)"

fun hex_pairs :: "string \<Rightarrow> string option" where
  "hex_pairs (a # b # s) = (case (nibble a, nibble b) of
       (Some x, Some y) \<Rightarrow> map_option ((#) (char_of (x * 16 + y))) (hex_pairs s)
     | _ \<Rightarrow> None)"
| "hex_pairs _ = Some []"

definition hex_decode :: "string \<Rightarrow> string option" where
  "hex_decode s = (if s = [] \<or> length s mod 2 \<noteq> 0 then None else hex_pairs s)"

definition envelope_to_sexpr :: "redacted_envelope \<Rightarrow> sexpr" where
  "envelope_to_sexpr env =
     (let h = e_header env
      in List (
        [Sym ENVELOPE_HEAD, Sym (h_content_hash h), Sym (h_performative h),
         List [Sym (canonical_spelling (h_from h))],
         List (map (\<lambda>k. Sym (canonical_spelling k)) (h_to h)),
         Atom (Str (h_thread h)), Atom (Str (hex_encode (e_signature env)))] @
        (case h_caused_by h of
           Some cb \<Rightarrow> [Kw ''caused-by'', case cb of
               Begin \<Rightarrow> Sym BEGIN_KEYWORD
             | Single hash \<Rightarrow> Sym hash
             | Multiple hashes \<Rightarrow> List (map Sym hashes)]
         | None \<Rightarrow> [])))"

definition redact ::
  "(string \<Rightarrow> string) \<Rightarrow> message \<Rightarrow> string \<Rightarrow> (member_defect, redacted_envelope) result" where
  "redact sha256 msg sig =
     bind_result (attestation_header_for sha256 msg) (\<lambda>h. Inr \<lparr>e_header = h, e_signature = sig\<rparr>)"

section \<open>Parsing envelopes\<close>

datatype envelope_parse_error =
    NotAnEnvelopeForm | WrongArity nat | MalformedHash | MalformedPerformative | MalformedFromList
  | MalformedKey key_id_error | MalformedToList | RecipientBoundExceeded nat nat | MalformedThread
  | MalformedSignature | UnexpectedField | MalformedCausedBy

definition is_content_hash :: "string \<Rightarrow> bool" where
  "is_content_hash s = (case strip_prefix ''sha256:'' s of
       Some hex \<Rightarrow> length hex = 64 \<and> list_all lower_hex hex
     | None \<Rightarrow> False)"

definition parse_key :: "sexpr \<Rightarrow> (envelope_parse_error, key_id) result" where
  "parse_key item = (case item of
       Atom (Symbol s) \<Rightarrow> (case key_id_parse s of Inl e \<Rightarrow> Inl (MalformedKey e) | Inr k \<Rightarrow> Inr k)
     | _ \<Rightarrow> Inl (MalformedKey MissingSigil))"

fun parse_keys :: "sexpr list \<Rightarrow> key_id btset \<Rightarrow> (envelope_parse_error, key_id btset) result" where
  "parse_keys [] to = Inr to"
| "parse_keys (k # ks) to = (case parse_key k of
       Inl e \<Rightarrow> Inl e
     | Inr key \<Rightarrow> parse_keys ks (bs_insert key to))"

definition as_hash :: "string \<Rightarrow> (envelope_parse_error, string) result" where
  "as_hash s = (if is_content_hash s then Inr s else Inl MalformedCausedBy)"

fun parse_hashes :: "sexpr list \<Rightarrow> string list \<Rightarrow> (envelope_parse_error, string list) result" where
  "parse_hashes [] hashes = Inr hashes"
| "parse_hashes (it # items) hashes = (case it of
       Atom (Symbol s) \<Rightarrow> (case as_hash s of Inl e \<Rightarrow> Inl e | Inr h \<Rightarrow> parse_hashes items (hashes @ [h]))
     | Atom (Str s) \<Rightarrow> (case as_hash s of Inl e \<Rightarrow> Inl e | Inr h \<Rightarrow> parse_hashes items (hashes @ [h]))
     | _ \<Rightarrow> Inl MalformedCausedBy)"

definition parse_caused_ref :: "sexpr \<Rightarrow> (envelope_parse_error, caused_by) result" where
  "parse_caused_ref item = (case item of
       Atom (Symbol s) \<Rightarrow>
         if s = BEGIN_KEYWORD then Inr Begin else bind_result (as_hash s) (\<lambda>h. Inr (Single h))
     | Atom (Str s) \<Rightarrow> bind_result (as_hash s) (\<lambda>h. Inr (Single h))
     | List items \<Rightarrow>
         if items = [] then Inl MalformedCausedBy
         else bind_result (parse_hashes items []) (\<lambda>hs. Inr (Multiple (sort hs)))
     | _ \<Rightarrow> Inl MalformedCausedBy)"

definition envelope_hash :: "sexpr \<Rightarrow> (envelope_parse_error, string) result" where
  "envelope_hash item = (case item of
       Atom (Symbol s) \<Rightarrow> if is_content_hash s then Inr s else Inl MalformedHash
     | _ \<Rightarrow> Inl MalformedHash)"

definition envelope_performative :: "sexpr \<Rightarrow> (envelope_parse_error, string) result" where
  "envelope_performative item = (case item of
       Atom (Symbol s) \<Rightarrow> Inr s | _ \<Rightarrow> Inl MalformedPerformative)"

definition envelope_from :: "sexpr \<Rightarrow> (envelope_parse_error, key_id) result" where
  "envelope_from item = (case item of List [k] \<Rightarrow> parse_key k | _ \<Rightarrow> Inl MalformedFromList)"

definition envelope_recipients :: "nat \<Rightarrow> sexpr \<Rightarrow> (envelope_parse_error, key_id btset) result" where
  "envelope_recipients max_recipients item = (case item of
       List ks \<Rightarrow>
         if max_recipients < length ks then Inl (RecipientBoundExceeded (length ks) max_recipients)
         else parse_keys ks []
     | _ \<Rightarrow> Inl MalformedToList)"

definition envelope_thread :: "sexpr \<Rightarrow> (envelope_parse_error, string) result" where
  "envelope_thread item = (case item of
       Atom (Str s) \<Rightarrow> Inr s | Atom (Symbol s) \<Rightarrow> Inr s | _ \<Rightarrow> Inl MalformedThread)"

definition envelope_signature :: "sexpr \<Rightarrow> (envelope_parse_error, string) result" where
  "envelope_signature item = (case item of
       Atom (Str s) \<Rightarrow> ok_or MalformedSignature (hex_decode s)
     | _ \<Rightarrow> Inl MalformedSignature)"

definition envelope_caused_by :: "sexpr list \<Rightarrow> (envelope_parse_error, caused_by option) result" where
  "envelope_caused_by items =
     (if length items = 9 then
        (if items ! 7 = Kw ''caused-by''
         then bind_result (parse_caused_ref (items ! 8)) (\<lambda>cb. Inr (Some cb))
         else Inl UnexpectedField)
      else Inr None)"

definition parse_envelope ::
  "sexpr \<Rightarrow> nat \<Rightarrow> (envelope_parse_error, redacted_envelope) result" where
  "parse_envelope e max_recipients = (case e of
       List items \<Rightarrow>
         if items = [] \<or> \<not> is_symbol (hd items) ENVELOPE_HEAD then Inl NotAnEnvelopeForm
         else if length items \<noteq> 7 \<and> length items \<noteq> 9 then Inl (WrongArity (length items))
         else
           bind_result (envelope_hash (items ! 1)) (\<lambda>content_hash.
           bind_result (envelope_performative (items ! 2)) (\<lambda>perf.
           bind_result (envelope_from (items ! 3)) (\<lambda>from.
           bind_result (envelope_recipients max_recipients (items ! 4)) (\<lambda>to.
           bind_result (envelope_thread (items ! 5)) (\<lambda>thread.
           bind_result (envelope_signature (items ! 6)) (\<lambda>sig.
           bind_result (envelope_caused_by items) (\<lambda>cb.
             Inr \<lparr>e_header = \<lparr>h_content_hash = content_hash, h_performative = perf, h_from = from,
                    h_to = to, h_thread = thread, h_caused_by = cb\<rparr>,
                  e_signature = sig\<rparr>)))))))
     | _ \<Rightarrow> Inl NotAnEnvelopeForm)"

section \<open>Opened envelopes\<close>

definition HEADER_FIELDS :: "field_id list" where
  "HEADER_FIELDS = [FPerformative, FFrom, FTo, FCausedBy, FThread]"

record opened_envelope =
  oe_root :: string
  oe_suite :: signature_suite
  oe_signature :: string
  oe_openings :: "field_opening list"

definition opening_of :: "opened_envelope \<Rightarrow> field_id \<Rightarrow> field_opening option" where
  "opening_of env f = List.find (\<lambda>op. o_field op = f) (oe_openings env)"

definition opt_leaf_str :: "sexpr \<Rightarrow> string option" where
  "opt_leaf_str v = (case v of
       List [Atom (Str s)] \<Rightarrow> Some s
     | List [Atom (Symbol s)] \<Rightarrow> Some s
     | _ \<Rightarrow> None)"

definition opened_performative :: "opened_envelope \<Rightarrow> string option" where
  "opened_performative env = Option.bind (opening_of env FPerformative) (\<lambda>op. case o_value op of
       Atom (Symbol s) \<Rightarrow> Some s | _ \<Rightarrow> None)"

definition opened_causal_reference :: "opened_envelope \<Rightarrow> caused_by option option" where
  "opened_causal_reference env = Option.bind (opening_of env FCausedBy) (\<lambda>op. case o_value op of
       List [] \<Rightarrow> Some None
     | List [item] \<Rightarrow> (case parse_caused_ref item of Inr cb \<Rightarrow> Some (Some cb) | Inl _ \<Rightarrow> None)
     | _ \<Rightarrow> None)"

definition opened_thread :: "opened_envelope \<Rightarrow> string option" where
  "opened_thread env = Option.bind (opening_of env FThread) (\<lambda>op. opt_leaf_str (o_value op))"

definition opened_from_spelling :: "opened_envelope \<Rightarrow> string option" where
  "opened_from_spelling env = Option.bind (opening_of env FFrom) (\<lambda>op. opt_leaf_str (o_value op))"

fun symbol_texts :: "sexpr list \<Rightarrow> string list option" where
  "symbol_texts [] = Some []"
| "symbol_texts (i # is) = (case i of
       Atom (Symbol s) \<Rightarrow> map_option ((#) s) (symbol_texts is)
     | _ \<Rightarrow> None)"

definition opened_to_spellings :: "opened_envelope \<Rightarrow> string list option" where
  "opened_to_spellings env = Option.bind (opening_of env FTo) (\<lambda>op. case o_value op of
       List items \<Rightarrow> symbol_texts items
     | _ \<Rightarrow> None)"

datatype opened_error = Attestation attest_error | OpeningFailed field_id | MissingField field_id

definition build_opened ::
  "(string \<Rightarrow> string) \<Rightarrow> message \<Rightarrow> field_id list \<Rightarrow> signature_suite \<Rightarrow> signer \<Rightarrow>
    (attest_error, opened_envelope) result" where
  "build_opened sha256 msg fs suite signer =
     (let root = typed_root sha256 msg
      in bind_result (sign_attestation_v3 suite root signer) (\<lambda>sig.
           Inr \<lparr>oe_root = root, oe_suite = suite, oe_signature = sig,
                oe_openings = map (open_field sha256 msg) fs\<rparr>))"

fun verify_openings ::
  "(string \<Rightarrow> string) \<Rightarrow> string \<Rightarrow> field_opening list \<Rightarrow> (opened_error, unit) result" where
  "verify_openings sha256 root [] = Inr ()"
| "verify_openings sha256 root (op # ops) =
     (if verify_opening sha256 root (o_field op) (o_value op) op then verify_openings sha256 root ops
      else Inl (OpeningFailed (o_field op)))"

definition verify_opened ::
  "(string \<Rightarrow> string) \<Rightarrow> opened_envelope \<Rightarrow> signer \<Rightarrow> (opened_error, unit) result" where
  "verify_opened sha256 env signer =
     (case verify_attestation_v3 (oe_suite env) (oe_root env) (oe_signature env) signer of
        Inl e \<Rightarrow> Inl (Attestation e)
      | Inr _ \<Rightarrow> verify_openings sha256 (oe_root env) (oe_openings env))"

section \<open>Round trip\<close>

lemma nibble_hex_digit: "n < 16 \<Longrightarrow> nibble (hex_digit n) = Some n"
  by (simp add: nibble_def is_ascii_digit_def byte_hex_digit)

lemma hex_pairs_encode: "hex_pairs (hex_encode bs) = Some bs"
proof (induction bs)
  case (Cons b bs)
  have "byte b div 16 < 16" "byte b mod 16 < 16" by (simp_all add: less_mult_imp_div_less)
  then show ?case
    using Cons by (simp add: hex_encode_def nibble_hex_digit)
qed (simp add: hex_encode_def)

lemma length_hex_encode: "length (hex_encode bs) = 2 * length bs"
  by (induction bs) (simp_all add: hex_encode_def)

lemma hex_decode_encode: "bs \<noteq> [] \<Longrightarrow> hex_decode (hex_encode bs) = Some bs"
  using length_hex_encode [of bs] by (auto simp: hex_decode_def hex_pairs_encode)

lemma hex_decode_nonempty: "hex_decode s = Some bs \<Longrightarrow> bs \<noteq> []"
  by (cases s rule: hex_pairs.cases) (auto simp: hex_decode_def split: if_splits option.splits)

lemma parse_key_wf: "parse_key item = Inr k \<Longrightarrow> wf_key_id k"
  by (auto simp: parse_key_def dest: key_id_parse_wf split: sexpr.splits atom.splits sum.splits)

lemma parse_key_spelling: "wf_key_id k \<Longrightarrow> parse_key (Sym (canonical_spelling k)) = Inr k"
  by (simp add: parse_key_def key_id_parse_spelling)

lemma parse_keys_result:
  assumes "parse_keys ks to = Inr r" "bs_sorted to" "list_all wf_key_id to"
  shows "bs_sorted r \<and> list_all wf_key_id r \<and> length r \<le> length to + length ks"
  using assms
proof (induction ks to rule: parse_keys.induct)
  case (2 k ks to)
  then obtain key where key: "parse_key k = Inr key" by (auto split: sum.splits)
  have "length (bs_insert key to) \<le> Suc (length to)"
    by (induction key to rule: bs_insert.induct) auto
  moreover have "bs_sorted (bs_insert key to)" "list_all wf_key_id (bs_insert key to)"
    using 2(3,4) parse_key_wf [OF key] by (simp_all add: list_all_iff)
  ultimately show ?case using 2(1) [OF key] 2(2) key by simp
qed simp

lemma parse_keys_spelling:
  assumes "list_all wf_key_id ks"
  shows "parse_keys (map (\<lambda>k. Sym (canonical_spelling k)) ks) to =
    Inr (foldl (\<lambda>s x. bs_insert x s) to ks)"
  using assms by (induction ks arbitrary: to) (simp_all add: parse_key_spelling)

lemma envelope_recipients_reread:
  assumes "envelope_recipients n item = Inr to"
  shows "envelope_recipients n (List (map (\<lambda>k. Sym (canonical_spelling k)) to)) = Inr to"
proof -
  obtain ks where ks: "item = List ks" "length ks \<le> n" "parse_keys ks [] = Inr to"
    using assms by (auto simp: envelope_recipients_def split: sexpr.splits if_splits)
  have "bs_sorted to" "list_all wf_key_id to" "length to \<le> n"
    using parse_keys_result [OF ks(3)] ks(2) by auto
  then show ?thesis
    using parse_keys_spelling [of to "[]"] bs_of_list_sorted [of to]
    by (simp add: envelope_recipients_def bs_of_list_def)
qed

lemma parse_hashes_result:
  "parse_hashes items acc = Inr hs \<Longrightarrow> list_all is_content_hash acc \<Longrightarrow>
     list_all is_content_hash hs \<and> length hs = length acc + length items"
  by (induction items acc rule: parse_hashes.induct)
     (auto simp: as_hash_def split: sexpr.splits atom.splits if_splits sum.splits)

lemma parse_hashes_syms:
  "list_all is_content_hash hs \<Longrightarrow> parse_hashes (map Sym hs) acc = Inr (acc @ hs)"
  by (induction hs arbitrary: acc) (simp_all add: as_hash_def)

lemma begin_not_hash: "\<not> is_content_hash BEGIN_KEYWORD"
  by (simp add: is_content_hash_def BEGIN_KEYWORD_def strip_prefix_def)

lemma parse_caused_ref_reread:
  assumes "parse_caused_ref item = Inr cb"
  shows "parse_caused_ref (hd (caused_item (Some cb))) = Inr cb"
proof (cases cb)
  case Begin
  then show ?thesis by (simp add: parse_caused_ref_def caused_item_def)
next
  case (Single h)
  then have "is_content_hash h"
    using assms by (auto simp: parse_caused_ref_def as_hash_def result_simps
        split: sexpr.splits atom.splits if_splits)
  then show ?thesis
    using Single begin_not_hash by (auto simp: parse_caused_ref_def caused_item_def as_hash_def)
next
  case (Multiple hs)
  then obtain items hs' where items: "items \<noteq> []" "parse_hashes items [] = Inr hs'" "hs = sort hs'"
    using assms by (auto simp: parse_caused_ref_def as_hash_def result_simps
        split: sexpr.splits atom.splits if_splits)
  then have "list_all is_content_hash hs" "hs \<noteq> []"
    using parse_hashes_result [OF items(2)] by (auto simp: list_all_iff simp flip: length_greater_0_conv)
  then show ?thesis
    using Multiple items(3)
    by (simp add: parse_caused_ref_def caused_item_def parse_hashes_syms sorted_sort_id)
qed

lemma envelope_caused_by_reread:
  assumes "envelope_caused_by items = Inr cb" and that: "length xs = 7"
  shows "envelope_caused_by (xs @ (case caused_item cb of [] \<Rightarrow> [] | c # _ \<Rightarrow> [Kw ''caused-by'', c])) = Inr cb"
proof (cases cb)
  case None
  then show ?thesis using that by (simp add: caused_item_def envelope_caused_by_def)
next
  case (Some c)
  then have "parse_caused_ref (items ! 8) = Inr c"
    using assms by (auto simp: envelope_caused_by_def result_simps split: if_splits)
  from parse_caused_ref_reread [OF this] show ?thesis
    using Some that by (simp add: caused_item_def envelope_caused_by_def nth_append)
qed

lemma envelope_to_sexpr_items:
  "envelope_to_sexpr env = List (
     [Sym ENVELOPE_HEAD, Sym (h_content_hash (e_header env)), Sym (h_performative (e_header env)),
      List [Sym (canonical_spelling (h_from (e_header env)))],
      List (map (\<lambda>k. Sym (canonical_spelling k)) (h_to (e_header env))),
      Atom (Str (h_thread (e_header env))), Atom (Str (hex_encode (e_signature env)))] @
     (case caused_item (h_caused_by (e_header env)) of [] \<Rightarrow> [] | c # _ \<Rightarrow> [Kw ''caused-by'', c]))"
  by (simp add: envelope_to_sexpr_def caused_item_def Let_def split: option.split)

lemma envelope_from_reread:
  "envelope_from item = Inr k \<Longrightarrow> envelope_from (List [Sym (canonical_spelling k)]) = Inr k"
  using parse_key_spelling parse_key_wf
  by (auto simp: envelope_from_def split: sexpr.splits list.splits)

lemma envelope_signature_reread:
  "envelope_signature item = Inr sig \<Longrightarrow> envelope_signature (Atom (Str (hex_encode sig))) = Inr sig"
  by (auto simp: envelope_signature_def ok_or_eq_Inr hex_decode_encode dest: hex_decode_nonempty
      split: sexpr.splits atom.splits)

lemma parse_envelope_parts:
  assumes "parse_envelope e n = Inr env"
  obtains items where "e = List items"
    "envelope_hash (items ! 1) = Inr (h_content_hash (e_header env))"
    "envelope_from (items ! 3) = Inr (h_from (e_header env))"
    "envelope_recipients n (items ! 4) = Inr (h_to (e_header env))"
    "envelope_signature (items ! 6) = Inr (e_signature env)"
    "envelope_caused_by items = Inr (h_caused_by (e_header env))"
  using assms by (auto simp: parse_envelope_def result_simps split: sexpr.splits if_splits)

lemma parse_envelope_reread:
  assumes "parse_envelope e n = Inr env"
  shows "parse_envelope (envelope_to_sexpr env) n = Inr env"
proof -
  let ?h = "e_header env"
  let ?tail = "case caused_item (h_caused_by ?h) of [] \<Rightarrow> [] | c # _ \<Rightarrow> [Kw ''caused-by'', c]"
  obtain items where parts: "e = List items"
    "envelope_hash (items ! 1) = Inr (h_content_hash (e_header env))"
    "envelope_from (items ! 3) = Inr (h_from (e_header env))"
    "envelope_recipients n (items ! 4) = Inr (h_to (e_header env))"
    "envelope_signature (items ! 6) = Inr (e_signature env)"
    "envelope_caused_by items = Inr (h_caused_by (e_header env))"
    using assms by (rule parse_envelope_parts)
  have len: "length ?tail = 0 \<or> length ?tail = 2" by (simp split: list.split)
  have hash: "envelope_hash (Sym (h_content_hash ?h)) = Inr (h_content_hash ?h)"
    using parts(2) by (auto simp: envelope_hash_def split: sexpr.splits atom.splits if_splits)
  show ?thesis
    using len hash envelope_from_reread [OF parts(3)] envelope_recipients_reread [OF parts(4)]
      envelope_signature_reread [OF parts(5)]
      envelope_caused_by_reread [OF parts(6), of "[Sym ENVELOPE_HEAD, Sym (h_content_hash ?h),
        Sym (h_performative ?h), List [Sym (canonical_spelling (h_from ?h))],
        List (map (\<lambda>k. Sym (canonical_spelling k)) (h_to ?h)), Atom (Str (h_thread ?h)),
        Atom (Str (hex_encode (e_signature env)))]"]
    unfolding envelope_to_sexpr_items
    by (auto simp: parse_envelope_def is_symbol_def envelope_performative_def envelope_thread_def)
qed

section \<open>Opened envelopes verify\<close>

lemma verify_openings_iff:
  "verify_openings sha256 root ops = Inr () \<longleftrightarrow>
     list_all (\<lambda>op. verify_opening sha256 root (o_field op) (o_value op) op) ops"
  by (induction ops) simp_all

lemma verify_opened_iff:
  "verify_opened sha256 env signer = Inr () \<longleftrightarrow>
     verify_attestation_v3 (oe_suite env) (oe_root env) (oe_signature env) signer = Inr () \<and>
     list_all (\<lambda>op. verify_opening sha256 (oe_root env) (o_field op) (o_value op) op) (oe_openings env)"
  by (simp add: verify_opened_def verify_openings_iff split: sum.split)

section \<open>Properties\<close>

text \<open>C30: the envelope form is canonical: an envelope that the strict parser accepted is printed to
  an S-expression that the parser accepts again, under the same recipient bound, with the same
  result.\<close>

theorem envelope_roundtrip:
  assumes "parse_envelope e max_recipients = Inr env"
  shows "parse_envelope (envelope_to_sexpr env) max_recipients = Inr env"
  using assms by (rule parse_envelope_reread)

definition sample_envelope :: sexpr where
  "sample_envelope = List [Sym ''envelope'', Sym (''sha256:'' @ replicate 64 CHR ''a''), Sym ''tell'',
     List [Sym ''@alice''], List [Sym ''@bob'', Sym ''@bob''], Sym ''t'', Atom (Str ''0f''),
     Kw ''caused-by'', Sym ''begin'']"

theorem envelope_roundtrip_witness:
  "\<exists>env. parse_envelope sample_envelope 2 = Inr env \<and> h_to (e_header env) = [KeyId Ed25519 ''bob''] \<and>
     parse_envelope (envelope_to_sexpr env) 2 = Inr env"
proof -
  define env where "env = (case parse_envelope sample_envelope 2 of Inr env \<Rightarrow> env)"
  have "is_ok (parse_envelope sample_envelope 2) \<and>
      h_to (e_header (case parse_envelope sample_envelope 2 of Inr env \<Rightarrow> env)) = [KeyId Ed25519 ''bob'']"
    by code_simp
  then have ok: "parse_envelope sample_envelope 2 = Inr env" "h_to (e_header env) = [KeyId Ed25519 ''bob'']"
    by (auto simp: env_def is_ok_def split: sum.splits)
  then show ?thesis using envelope_roundtrip [OF ok(1)] by blast
qed

text \<open>An opened envelope built from a message verifies, for any choice of disclosed fields,
  whenever the signer accepts its own signature over the root it signs.\<close>

lemma build_opened_verifies:
  assumes "build_opened sha256 msg fs suite signer = Inr env"
    and "signer_verify signer (attestation_v3_preimage suite (typed_root sha256 msg))
      (signer_sign signer (attestation_v3_preimage suite (typed_root sha256 msg)))"
  shows "verify_opened sha256 env signer = Inr () \<and> oe_root env = typed_root sha256 msg \<and>
    map o_field (oe_openings env) = fs"
proof -
  have env: "suite = Ed25519" "env = \<lparr>oe_root = typed_root sha256 msg, oe_suite = suite,
      oe_signature = signer_sign signer (attestation_v3_preimage suite (typed_root sha256 msg)),
      oe_openings = map (open_field sha256 msg) fs\<rparr>"
    using assms(1) by (auto simp: build_opened_def sign_attestation_v3_def Let_def result_simps
        split: signature_suite.splits)
  have "o_field (open_field sha256 msg f) = f" for f by (simp add: open_field_def)
  then show ?thesis
    using env assms(2) open_verifies
    by (auto simp: verify_opened_iff verify_attestation_v3_def list_all_iff o_def)
qed

definition echo_signer :: signer where
  "echo_signer = \<lparr>signer_sign = (\<lambda>m. m), signer_verify = (\<lambda>m s. m = s)\<rparr>"

lemma build_opened_verifies_witness:
  "\<exists>env. build_opened head32 sample_tell HEADER_FIELDS Ed25519 echo_signer = Inr env \<and>
     verify_opened head32 env echo_signer = Inr ()"
proof -
  obtain env where env: "build_opened head32 sample_tell HEADER_FIELDS Ed25519 echo_signer = Inr env"
    by (simp add: build_opened_def sign_attestation_v3_def Let_def)
  have "signer_verify echo_signer m (signer_sign echo_signer m)" for m
    by (simp add: echo_signer_def)
  then show ?thesis using build_opened_verifies [OF env] env by blast
qed

end
