(* ===== verification/Cbcl_Store.thy ===== *)
theory Cbcl_Store
  imports Cbcl_Envelope
begin

text \<open>
  The message store of \<open>cbcl-core/src/store.rs\<close>: the hash index, the append-only threaded store with
  its frontier and causal closure, and the shelves for redacted and opened envelopes. A \<open>HashMap\<close> or
  \<open>HashSet\<close> is represented by its sorted listing, which no modelled operation observes. The locale
  \<open>message_store\<close> is the contract of the \<open>MessageStore\<close> trait; it is interpreted on the threaded
  store.
\<close>

section \<open>Hash index\<close>

type_synonym content_hash = string
type_synonym thread_id = string
type_synonym hash_index = "(content_hash, thread_id \<times> nat) btmap"

definition hi_insert :: "content_hash \<Rightarrow> thread_id \<Rightarrow> nat \<Rightarrow> hash_index \<Rightarrow> hash_index \<times> bool" where
  "hi_insert hash thread i index =
     (if bt_contains_key index hash then (index, False) else (bt_insert hash (thread, i) index, True))"

definition hi_lookup :: "hash_index \<Rightarrow> content_hash \<Rightarrow> thread_id \<Rightarrow> nat option" where
  "hi_lookup index hash thread = (case bt_get index hash of
       Some (t, i) \<Rightarrow> if t = thread then Some i else None
     | None \<Rightarrow> None)"

definition hi_contains :: "hash_index \<Rightarrow> content_hash \<Rightarrow> thread_id \<Rightarrow> bool" where
  "hi_contains index hash thread \<longleftrightarrow> hi_lookup index hash thread \<noteq> None"

definition hi_rebuild :: "(content_hash \<times> thread_id \<times> nat) list \<Rightarrow> hash_index \<Rightarrow> hash_index" where
  "hi_rebuild entries index = foldl (\<lambda>ix (h, t, i). fst (hi_insert h t i ix)) [] entries"

section \<open>The threaded store\<close>

record threaded_store =
  threads :: "(thread_id, (content_hash \<times> message) list) btmap"
  st_index :: hash_index
  referenced :: "(thread_id, content_hash btset) btmap"
  envelopes :: "(content_hash, redacted_envelope) btmap"
  opened :: "(content_hash, opened_envelope) btmap"

definition new_store :: threaded_store where
  "new_store = \<lparr>threads = [], st_index = [], referenced = [], envelopes = [], opened = []\<rparr>"

definition get_or_default :: "('k, 'v list) btmap \<Rightarrow> 'k \<Rightarrow> 'v list" where
  "get_or_default m k = (case bt_get m k of Some v \<Rightarrow> v | None \<Rightarrow> [])"

definition get_slot :: "(content_hash \<times> message) list \<Rightarrow> nat \<Rightarrow> message option" where
  "get_slot msgs i = (if i < length msgs then Some (snd (msgs ! i)) else None)"

definition append_envelope ::
  "redacted_envelope \<Rightarrow> signer \<Rightarrow> threaded_store \<Rightarrow> (attest_error, threaded_store \<times> bool) result" where
  "append_envelope env signer s =
     bind_result (envelope_verify env signer) (\<lambda>_.
       let key = h_content_hash (e_header env)
       in if bt_contains_key (envelopes s) key then Inr (s, False)
          else Inr (s\<lparr>envelopes := bt_insert key env (envelopes s)\<rparr>, True))"

definition append_opened ::
  "(string \<Rightarrow> string) \<Rightarrow> opened_envelope \<Rightarrow> signer \<Rightarrow> threaded_store \<Rightarrow>
    (opened_error, threaded_store \<times> bool) result" where
  "append_opened sha256 env signer s =
     bind_result (verify_opened sha256 env signer) (\<lambda>_.
       if opened_thread env = None then Inl (MissingField FThread)
       else if bt_contains_key (opened s) (oe_root env) then Inr (s, False)
       else Inr (s\<lparr>opened := bt_insert (oe_root env) env (opened s)\<rparr>, True))"

definition lookup :: "threaded_store \<Rightarrow> content_hash \<Rightarrow> message option" where
  "lookup s hash = (case bt_get (st_index s) hash of
       Some (thread, i) \<Rightarrow> Option.bind (bt_get (threads s) thread) (\<lambda>msgs. get_slot msgs i)
     | None \<Rightarrow> None)"

definition lookup_in_thread :: "threaded_store \<Rightarrow> content_hash \<Rightarrow> thread_id \<Rightarrow> message option" where
  "lookup_in_thread s hash thread = (case hi_lookup (st_index s) hash thread of
       Some i \<Rightarrow> Option.bind (bt_get (threads s) thread) (\<lambda>msgs. get_slot msgs i)
     | None \<Rightarrow> None)"

definition store_contains :: "threaded_store \<Rightarrow> content_hash \<Rightarrow> thread_id \<Rightarrow> bool" where
  "store_contains s hash thread = hi_contains (st_index s) hash thread"

text \<open>The references a causal reference makes.\<close>

definition caused_refs :: "caused_by option \<Rightarrow> content_hash list" where
  "caused_refs cb = (case cb of
       Some (Single h) \<Rightarrow> [h] | Some (Multiple hs) \<Rightarrow> hs | _ \<Rightarrow> [])"

definition note_references ::
  "thread_id \<Rightarrow> caused_by option \<Rightarrow> (thread_id, content_hash btset) btmap \<Rightarrow>
    (thread_id, content_hash btset) btmap" where
  "note_references thread cb refd = (case cb of
       None \<Rightarrow> refd
     | Some _ \<Rightarrow> bt_insert thread
         (foldl (\<lambda>refs h. bs_insert h refs) (get_or_default refd thread) (caused_refs cb)) refd)"

definition append ::
  "content_hash \<Rightarrow> thread_id \<Rightarrow> message \<Rightarrow> threaded_store \<Rightarrow> threaded_store \<times> bool" where
  "append hash thread msg s =
     (let thread_msgs = get_or_default (threads s) thread
      in case hi_insert hash thread (length thread_msgs) (st_index s) of
           (_, False) \<Rightarrow> (s\<lparr>threads := bt_insert thread thread_msgs (threads s)\<rparr>, False)
         | (index', True) \<Rightarrow>
             (s\<lparr>threads := bt_insert thread (thread_msgs @ [(hash, msg)]) (threads s),
                st_index := index',
                referenced := note_references thread (caused_by_of msg) (referenced s)\<rparr>, True))"

definition frontier :: "threaded_store \<Rightarrow> thread_id \<Rightarrow> content_hash list" where
  "frontier s thread = (case bt_get (threads s) thread of
       None \<Rightarrow> []
     | Some msgs \<Rightarrow> filter (\<lambda>h. h \<notin> set (get_or_default (referenced s) thread)) (map fst msgs))"

definition envelope_in_thread ::
  "threaded_store \<Rightarrow> content_hash \<Rightarrow> thread_id \<Rightarrow> redacted_envelope option" where
  "envelope_in_thread s hash thread = (case bt_get (envelopes s) hash of
       Some e \<Rightarrow> if h_thread (e_header e) = thread then Some e else None
     | None \<Rightarrow> None)"

definition opened_in_thread ::
  "threaded_store \<Rightarrow> content_hash \<Rightarrow> thread_id \<Rightarrow> opened_envelope option" where
  "opened_in_thread s hash thread = (case bt_get (opened s) hash of
       Some e \<Rightarrow> if opened_thread e = Some thread then Some e else None
     | None \<Rightarrow> None)"

section \<open>Reachable stores\<close>

text \<open>The three ways a store grows, and the stores they reach from the empty one.\<close>

inductive store_step :: "(string \<Rightarrow> string) \<Rightarrow> threaded_store \<Rightarrow> threaded_store \<Rightarrow> bool"
  for sha256 :: "string \<Rightarrow> string" where
  step_append: "store_step sha256 s (fst (append h t m s))"
| step_envelope: "append_envelope env signer s = Inr (s', b) \<Longrightarrow> store_step sha256 s s'"
| step_opened: "append_opened sha256 oenv signer s = Inr (s', b) \<Longrightarrow> store_step sha256 s s'"

inductive_cases store_stepE: "store_step sha256 s s'"

abbreviation store_reachable :: "(string \<Rightarrow> string) \<Rightarrow> threaded_store \<Rightarrow> bool" where
  "store_reachable sha256 s \<equiv> (store_step sha256)\<^sup>*\<^sup>* new_store s"

text \<open>The well-formedness of a store: the index finds every stored message at its place and nothing
  else, and the referenced sets are exactly the references of the stored messages.\<close>

definition index_ok :: "threaded_store \<Rightarrow> bool" where
  "index_ok s \<longleftrightarrow> (\<forall>h t i. bt_get (st_index s) h = Some (t, i) \<longleftrightarrow>
     (\<exists>msgs. bt_get (threads s) t = Some msgs \<and> i < length msgs \<and> fst (msgs ! i) = h))"

definition thread_refs :: "threaded_store \<Rightarrow> thread_id \<Rightarrow> content_hash set" where
  "thread_refs s t = (\<Union>(h, m) \<in> set (get_or_default (threads s) t). set (caused_refs (caused_by_of m)))"

definition refs_ok :: "threaded_store \<Rightarrow> bool" where
  "refs_ok s \<longleftrightarrow> (\<forall>t. set (get_or_default (referenced s) t) = thread_refs s t)"

definition shelves_ok :: "threaded_store \<Rightarrow> bool" where
  "shelves_ok s \<longleftrightarrow>
     (\<forall>h e. bt_get (envelopes s) h = Some e \<longrightarrow> h_content_hash (e_header e) = h) \<and>
     (\<forall>h e. bt_get (opened s) h = Some e \<longrightarrow> oe_root e = h \<and> opened_thread e \<noteq> None)"

definition wf_store :: "threaded_store \<Rightarrow> bool" where
  "wf_store s \<longleftrightarrow> index_ok s \<and> refs_ok s \<and> shelves_ok s"

lemma get_or_default_insert [simp]:
  "get_or_default (bt_insert k v m) k' = (if k' = k then v else get_or_default m k')"
  by (simp add: get_or_default_def)

lemma append_duplicate:
  "bt_contains_key (st_index s) h \<Longrightarrow>
     append h t m s = (s\<lparr>threads := bt_insert t (get_or_default (threads s) t) (threads s)\<rparr>, False)"
  by (simp add: append_def hi_insert_def Let_def)

lemma append_fresh:
  "\<not> bt_contains_key (st_index s) h \<Longrightarrow>
     append h t m s = (s\<lparr>threads := bt_insert t (get_or_default (threads s) t @ [(h, m)]) (threads s),
        st_index := bt_insert h (t, length (get_or_default (threads s) t)) (st_index s),
        referenced := note_references t (caused_by_of m) (referenced s)\<rparr>, True)"
  by (simp add: append_def hi_insert_def Let_def)

lemmas append_cases = append_duplicate append_fresh

lemma index_ok_position:
  assumes "index_ok s"
  shows "bt_get (st_index s) h = Some (t, i) \<longleftrightarrow>
    i < length (get_or_default (threads s) t) \<and> fst (get_or_default (threads s) t ! i) = h"
  using assms by (auto simp: index_ok_def get_or_default_def split: option.splits)

lemma index_okI:
  assumes "\<And>h t i. bt_get (st_index s) h = Some (t, i) \<longleftrightarrow>
    i < length (get_or_default (threads s) t) \<and> fst (get_or_default (threads s) t ! i) = h"
  shows "index_ok s"
  using assms by (fastforce simp: index_ok_def get_or_default_def split: option.splits)

lemma index_ok_append:
  assumes "index_ok s"
  shows "index_ok (fst (append h t m s))"
proof (cases "bt_contains_key (st_index s) h")
  case True
  show ?thesis
    by (rule index_okI) (simp add: append_duplicate [OF True] index_ok_position [OF assms])
next
  case False
  then have "bt_get (st_index s) h = None" unfolding bt_contains_key_def by blast
  then have "\<not> (i < length (get_or_default (threads s) t') \<and> fst (get_or_default (threads s) t' ! i) = h)"
    for t' i
    using index_ok_position [OF assms, of h t' i] by simp
  then show ?thesis
    by (intro index_okI)
       (auto simp: append_fresh [OF False] index_ok_position [OF assms] nth_append less_Suc_eq)
qed

lemma set_note_references:
  "set (get_or_default (note_references t cb refd) t') =
     set (get_or_default refd t') \<union> (if t' = t then set (caused_refs cb) else {})"
  by (cases cb) (auto simp: note_references_def caused_refs_def set_foldl_bs_insert)

lemma refs_ok_append:
  assumes "refs_ok s"
  shows "refs_ok (fst (append h t m s))"
proof (cases "bt_contains_key (st_index s) h")
  case True
  then show ?thesis using assms by (simp add: append_duplicate refs_ok_def thread_refs_def)
next
  case False
  then show ?thesis
    using assms by (auto simp: append_fresh refs_ok_def thread_refs_def set_note_references)
qed

lemma shelves_ok_append [simp]: "shelves_ok (fst (append h t m s)) = shelves_ok s"
  by (cases "bt_contains_key (st_index s) h") (simp_all add: append_cases shelves_ok_def)

lemma wf_new_store: "wf_store new_store"
  by (simp add: wf_store_def index_ok_def refs_ok_def shelves_ok_def thread_refs_def new_store_def
      get_or_default_def)

lemma wf_append: "wf_store s \<Longrightarrow> wf_store (fst (append h t m s))"
  by (simp add: wf_store_def index_ok_append refs_ok_append)

lemma wf_append_envelope:
  assumes "wf_store s" "append_envelope env signer s = Inr (s', b)"
  shows "wf_store s'"
proof -
  have "threads s' = threads s" "st_index s' = st_index s" "referenced s' = referenced s"
    using assms(2) by (auto simp: append_envelope_def result_simps Let_def split: if_splits)
  then have "index_ok s' = index_ok s" "refs_ok s' = refs_ok s"
    by (simp_all add: index_ok_def refs_ok_def thread_refs_def)
  moreover have "shelves_ok s'"
    using assms by (auto simp: append_envelope_def wf_store_def shelves_ok_def result_simps Let_def
        split: if_splits)
  ultimately show ?thesis using assms(1) by (simp add: wf_store_def)
qed

lemma wf_append_opened:
  assumes "wf_store s" "append_opened sha256 env signer s = Inr (s', b)"
  shows "wf_store s'"
proof -
  have "threads s' = threads s" "st_index s' = st_index s" "referenced s' = referenced s"
    using assms(2) by (auto simp: append_opened_def result_simps split: if_splits)
  then have "index_ok s' = index_ok s" "refs_ok s' = refs_ok s"
    by (simp_all add: index_ok_def refs_ok_def thread_refs_def)
  moreover have "shelves_ok s'"
    using assms by (auto simp: append_opened_def wf_store_def shelves_ok_def result_simps
        split: if_splits)
  ultimately show ?thesis using assms(1) by (simp add: wf_store_def)
qed

lemma wf_store_step: "store_step sha256 s s' \<Longrightarrow> wf_store s \<Longrightarrow> wf_store s'"
  by (erule store_stepE) (auto intro: wf_append wf_append_envelope wf_append_opened)

lemma reachable_wf: "store_reachable sha256 s \<Longrightarrow> wf_store s"
  by (induction rule: rtranclp_induct) (auto intro: wf_new_store wf_store_step)

section \<open>What the store contains\<close>

lemma lookup_in_thread_iff:
  assumes "index_ok s"
  shows "lookup_in_thread s h t = Some m \<longleftrightarrow> (h, m) \<in> set (get_or_default (threads s) t)"
proof -
  let ?msgs = "get_or_default (threads s) t"
  have "lookup_in_thread s h t = Some m \<longleftrightarrow>
      (\<exists>i. bt_get (st_index s) h = Some (t, i) \<and> i < length ?msgs \<and> snd (?msgs ! i) = m)"
    by (auto simp: lookup_in_thread_def hi_lookup_def get_slot_def get_or_default_def
        split: option.splits)
  also have "\<dots> \<longleftrightarrow> (\<exists>i < length ?msgs. ?msgs ! i = (h, m))"
    unfolding index_ok_position [OF assms] by (auto simp: prod_eq_iff)
  finally show ?thesis by (auto simp: in_set_conv_nth)
qed

lemma lookup_in_thread_None:
  "index_ok s \<Longrightarrow> lookup_in_thread s h t = None \<longleftrightarrow> h \<notin> fst ` set (get_or_default (threads s) t)"
  using lookup_in_thread_iff [of s h t] by (cases "lookup_in_thread s h t") force+

lemma contains_iff:
  assumes "index_ok s"
  shows "store_contains s h t \<longleftrightarrow> lookup_in_thread s h t \<noteq> None"
proof -
  have "store_contains s h t \<longleftrightarrow> (\<exists>i. bt_get (st_index s) h = Some (t, i))"
    by (auto simp: store_contains_def hi_contains_def hi_lookup_def split: option.splits)
  also have "\<dots> \<longleftrightarrow> h \<in> fst ` set (get_or_default (threads s) t)"
    unfolding index_ok_position [OF assms] by (force simp: in_set_conv_nth image_iff)
  finally show ?thesis using lookup_in_thread_None [OF assms] by simp
qed

lemma index_contains_iff:
  assumes "index_ok s"
  shows "bt_contains_key (st_index s) h \<longleftrightarrow> (\<exists>t. lookup_in_thread s h t \<noteq> None)"
proof
  assume "bt_contains_key (st_index s) h"
  then obtain t i where "bt_get (st_index s) h = Some (t, i)" by (auto simp: bt_contains_key_def)
  then have "i < length (get_or_default (threads s) t)" "fst (get_or_default (threads s) t ! i) = h"
    using index_ok_position [OF assms] by simp_all
  then show "\<exists>t. lookup_in_thread s h t \<noteq> None"
    unfolding lookup_in_thread_None [OF assms] by (metis image_eqI nth_mem)
next
  assume "\<exists>t. lookup_in_thread s h t \<noteq> None"
  then show "bt_contains_key (st_index s) h"
    by (auto simp: lookup_in_thread_def hi_lookup_def bt_contains_key_def split: option.splits)
qed

lemma threads_append:
  "get_or_default (threads (fst (append h t m s))) t' =
     get_or_default (threads s) t' @
       (if t' = t \<and> \<not> bt_contains_key (st_index s) h then [(h, m)] else [])"
  by (cases "bt_contains_key (st_index s) h") (simp_all add: append_cases)

lemma lookup_append:
  assumes "wf_store s"
  shows "lookup_in_thread (fst (append h t m s)) h' t' =
    (if snd (append h t m s) \<and> h' = h \<and> t' = t then Some m else lookup_in_thread s h' t')"
proof -
  have ok: "index_ok s" "index_ok (fst (append h t m s))"
    using assms wf_append [OF assms] by (auto simp: wf_store_def)
  have fresh: "snd (append h t m s) \<longleftrightarrow> \<not> bt_contains_key (st_index s) h"
    by (cases "bt_contains_key (st_index s) h") (simp_all add: append_cases)
  have none: "\<not> bt_contains_key (st_index s) h \<Longrightarrow> (h, x) \<notin> set (get_or_default (threads s) t)" for x
    using index_contains_iff [OF ok(1), of h] lookup_in_thread_iff [OF ok(1), of h t x] by auto
  have "lookup_in_thread (fst (append h t m s)) h' t' = Some x \<longleftrightarrow>
    (if snd (append h t m s) \<and> h' = h \<and> t' = t then Some m else lookup_in_thread s h' t') = Some x" for x
    unfolding lookup_in_thread_iff [OF ok(2)] threads_append fresh
    using none lookup_in_thread_iff [OF ok(1), of h' t' x] by auto
  then show ?thesis by (metis option.exhaust)
qed

lemma append_result:
  assumes "wf_store s"
  shows "snd (append h t m s) \<longleftrightarrow> (\<forall>t'. lookup_in_thread s h t' = None)"
  using index_contains_iff [of s h] assms
  by (cases "bt_contains_key (st_index s) h") (auto simp: append_cases wf_store_def)

lemma lookup_isolated:
  "lookup_in_thread s h t = Some m \<Longrightarrow> lookup_in_thread s h t' = Some m' \<Longrightarrow> t = t'"
  by (auto simp: lookup_in_thread_def hi_lookup_def split: option.splits if_splits)

section \<open>The contract of a message store\<close>

text \<open>
  What the \<open>MessageStore\<close> trait promises: appends are first-wins per hash, and a hash belongs to one
  thread. The lemmas are the grow-only-set laws clients rely on: deliveries of content-addressed
  messages commute, repeat harmlessly and merge as unions.
\<close>

definition consistent_entries :: "(content_hash \<times> thread_id \<times> message) list \<Rightarrow> bool" where
  "consistent_entries xs \<longleftrightarrow>
     (\<forall>h t m t' m'. (h, t, m) \<in> set xs \<longrightarrow> (h, t', m') \<in> set xs \<longrightarrow> t = t' \<and> m = m')"

locale message_store =
  fixes lookup_thread :: "'s \<Rightarrow> content_hash \<Rightarrow> thread_id \<Rightarrow> message option"
    and app :: "content_hash \<Rightarrow> thread_id \<Rightarrow> message \<Rightarrow> 's \<Rightarrow> 's \<times> bool"
    and inv :: "'s \<Rightarrow> bool"
  assumes lookup_app: "inv s \<Longrightarrow> lookup_thread (fst (app h t m s)) h' t' =
      (if snd (app h t m s) \<and> h' = h \<and> t' = t then Some m else lookup_thread s h' t')"
    and app_result: "inv s \<Longrightarrow> snd (app h t m s) \<longleftrightarrow> (\<forall>t'. lookup_thread s h t' = None)"
    and inv_app: "inv s \<Longrightarrow> inv (fst (app h t m s))"
begin

lemma inv_deliver: "inv s \<Longrightarrow> inv (foldl (\<lambda>s (h, t, m). fst (app h t m s)) s xs)"
  by (induction xs arbitrary: s) (auto intro: inv_app)

lemma deliver_lookup:
  assumes "inv s" "consistent_entries xs"
  shows "lookup_thread (foldl (\<lambda>s (h, t, m). fst (app h t m s)) s xs) h t = Some m \<longleftrightarrow>
    lookup_thread s h t = Some m \<or> ((\<forall>t'. lookup_thread s h t' = None) \<and> (h, t, m) \<in> set xs)"
  using assms(2)
proof (induction xs arbitrary: h t m rule: rev_induct)
  case (snoc x xs)
  obtain h0 t0 m0 where x: "x = (h0, t0, m0)" by (cases x)
  let ?s = "foldl (\<lambda>s (h, t, m). fst (app h t m s)) s xs"
  have "consistent_entries xs" using snoc.prems by (auto simp: consistent_entries_def)
  note IH = snoc.IH [OF this]
  have inv: "inv ?s" using assms(1) by (rule inv_deliver)
  have fresh: "snd (app h0 t0 m0 ?s) \<longleftrightarrow>
      (\<forall>t'. lookup_thread s h0 t' = None) \<and> (\<forall>t' m'. (h0, t', m') \<notin> set xs)"
    unfolding app_result [OF inv] using IH [of h0] by (metis not_Some_eq)
  have "(h0, t0, m0) \<in> set (xs @ [x])" by (simp add: x)
  then have unique: "t' = t0 \<and> m' = m0" if "(h0, t', m') \<in> set xs" for t' m'
    using snoc.prems that unfolding consistent_entries_def by (metis Un_iff set_append)
  show ?case
  proof (cases "snd (app h0 t0 m0 ?s) \<and> h = h0 \<and> t = t0")
    case True
    then show ?thesis using fresh by (simp add: x lookup_app [OF inv]) blast
  next
    case False
    then have "(h, t, m) = (h0, t0, m0) \<Longrightarrow> (\<forall>t'. lookup_thread s h t' = None) \<Longrightarrow> (h, t, m) \<in> set xs"
      using fresh unique by auto
    then show ?thesis using False IH [of h t m] by (auto simp add: x lookup_app [OF inv])
  qed
qed simp

lemma deliver_order:
  assumes "inv s" "consistent_entries xs" "set ys = set xs"
  shows "lookup_thread (foldl (\<lambda>s (h, t, m). fst (app h t m s)) s ys) =
    lookup_thread (foldl (\<lambda>s (h, t, m). fst (app h t m s)) s xs)"
proof (intro ext)
  fix h t
  have "consistent_entries ys" using assms(2,3) by (auto simp: consistent_entries_def)
  then have "lookup_thread (foldl (\<lambda>s (h, t, m). fst (app h t m s)) s ys) h t = Some m \<longleftrightarrow>
      lookup_thread (foldl (\<lambda>s (h, t, m). fst (app h t m s)) s xs) h t = Some m" for m
    using deliver_lookup [OF assms(1), of ys h t m] deliver_lookup [OF assms(1,2), of h t m] assms(3)
    by simp
  then show "lookup_thread (foldl (\<lambda>s (h, t, m). fst (app h t m s)) s ys) h t =
      lookup_thread (foldl (\<lambda>s (h, t, m). fst (app h t m s)) s xs) h t"
    by (metis option.exhaust)
qed

lemma app_persists:
  "inv s \<Longrightarrow> lookup_thread s h t = Some m \<Longrightarrow> lookup_thread (fst (app h' t' m' s)) h t = Some m"
  using app_result [of s h' t' m'] lookup_app [of s h' t' m' h t] by auto

lemma lookup_persists:
  "inv s \<Longrightarrow> lookup_thread s h t = Some m \<Longrightarrow>
     lookup_thread (foldl (\<lambda>s (h, t, m). fst (app h t m s)) s xs) h t = Some m"
  by (induction xs arbitrary: s) (auto intro: inv_app app_persists)

end

interpretation threaded: message_store lookup_in_thread append wf_store
  by unfold_locales (auto simp: lookup_append append_result wf_append)

text \<open>The entries of a delivery, given to a store in order.\<close>

definition deliver :: "threaded_store \<Rightarrow> (content_hash \<times> thread_id \<times> message) list \<Rightarrow> threaded_store" where
  "deliver s xs = foldl (\<lambda>s (h, t, m). fst (append h t m s)) s xs"

lemma frontier_iff:
  assumes "wf_store s"
  shows "h \<in> set (frontier s t) \<longleftrightarrow> lookup_in_thread s h t \<noteq> None \<and>
    (\<forall>h' m. lookup_in_thread s h' t = Some m \<longrightarrow> h \<notin> set (caused_refs (caused_by_of m)))"
proof -
  have ok: "index_ok s" "refs_ok s" using assms by (auto simp: wf_store_def)
  have "h \<in> set (frontier s t) \<longleftrightarrow> h \<in> fst ` set (get_or_default (threads s) t) \<and> h \<notin> thread_refs s t"
    using ok(2) unfolding refs_ok_def
    by (auto simp: frontier_def get_or_default_def [of "threads s"] split: option.splits)
  then show ?thesis
    using lookup_in_thread_None [OF ok(1), of h t] lookup_in_thread_iff [OF ok(1), of _ t]
    by (auto simp: thread_refs_def)
qed

section \<open>Causal closure\<close>

text \<open>The depth-first walks of this crate keep a stack of hashes and a set of visited ones; they end
  because every hash that is pushed is cited by something the store holds.\<close>

definition unseen :: "content_hash set \<Rightarrow> content_hash list \<Rightarrow> content_hash btset \<Rightarrow> nat" where
  "unseen u stack visited = card ((u \<union> set stack) - set visited)"

lemma unseen_pop: "finite u \<Longrightarrow> unseen u stack v \<le> unseen u (c # stack) v"
  unfolding unseen_def by (rule card_mono) auto

lemma unseen_visit:
  assumes "finite u" "c \<notin> set v" "set new \<subseteq> u \<union> set stack"
  shows "unseen u new (bs_insert c v) < unseen u (c # stack) v"
  unfolding unseen_def
  using assms by (intro psubset_card_mono) auto

definition push_refs :: "content_hash btset \<Rightarrow> content_hash list \<Rightarrow> content_hash list \<Rightarrow> content_hash list" where
  "push_refs visited refs stack = foldl (\<lambda>st h. if h \<in> set visited then st else h # st) stack refs"

lemma set_push_refs: "set (push_refs v refs stack) = set stack \<union> (set refs - set v)"
proof -
  have "set (foldl (\<lambda>st h. if h \<in> set v then st else h # st) stack refs) = set stack \<union> (set refs - set v)"
    by (induction refs arbitrary: stack) auto
  then show ?thesis by (simp add: push_refs_def)
qed

definition cites :: "threaded_store \<Rightarrow> thread_id \<Rightarrow> content_hash \<Rightarrow> content_hash list" where
  "cites s thread h = (case lookup_in_thread s h thread of
       Some m \<Rightarrow> caused_refs (caused_by_of m)
     | None \<Rightarrow> [])"

definition stored_refs :: "threaded_store \<Rightarrow> content_hash set" where
  "stored_refs s = (\<Union>(t, msgs) \<in> set (threads s). \<Union>(h, m) \<in> set msgs. set (caused_refs (caused_by_of m)))"

lemma finite_stored_refs: "finite (stored_refs s)"
  by (auto simp: stored_refs_def)

lemma lookup_in_thread_stored:
  "lookup_in_thread s h t = Some m \<Longrightarrow> \<exists>msgs. (t, msgs) \<in> set (threads s) \<and> m \<in> snd ` set msgs"
  by (auto simp: lookup_in_thread_def get_slot_def dest!: map_of_SomeD split: option.splits if_splits bind_splits)

lemma cites_stored: "set (cites s t h) \<subseteq> stored_refs s"
proof (cases "lookup_in_thread s h t")
  case (Some m)
  then obtain msgs k where "(t, msgs) \<in> set (threads s)" "(k, m) \<in> set msgs"
    using lookup_in_thread_stored by fastforce
  then have "set (caused_refs (caused_by_of m)) \<subseteq> stored_refs s"
    unfolding stored_refs_def by blast
  then show ?thesis using Some by (simp add: cites_def)
qed (simp add: cites_def)

function closure_loop ::
  "threaded_store \<Rightarrow> thread_id \<Rightarrow> content_hash list \<Rightarrow> content_hash btset \<Rightarrow> content_hash list \<Rightarrow>
    content_hash list" where
  "closure_loop s thread [] visited result = result"
| "closure_loop s thread (current # stack) visited result =
     (if current \<in> set visited then closure_loop s thread stack visited result
      else let visited' = bs_insert current visited
           in closure_loop s thread (push_refs visited' (cites s thread current) stack) visited'
                (result @ [current]))"
  by pat_completeness auto

definition walk_measure :: "(content_hash set \<times> content_hash list \<times> content_hash btset) rel" where
  "walk_measure = inv_image (less_than <*lex*> less_than) (\<lambda>(u, st, v). (unseen u st v, length st))"

lemma wf_walk_measure [simp, intro]: "wf walk_measure"
  by (auto simp: walk_measure_def)

lemma walk_measure_pop: "finite u \<Longrightarrow> ((u, st, v), (u, c # st, v)) \<in> walk_measure"
  using unseen_pop [of u st v c] by (auto simp: walk_measure_def)

lemma walk_measure_visit:
  "finite u \<Longrightarrow> c \<notin> set v \<Longrightarrow> set refs \<subseteq> u \<Longrightarrow>
     ((u, push_refs w refs st, bs_insert c v), (u, c # st, v)) \<in> walk_measure"
  using unseen_visit [of u c v "push_refs w refs st" st] by (auto simp: walk_measure_def set_push_refs)

termination closure_loop
proof (relation "inv_image walk_measure (\<lambda>(s, t, st, v, r). (stored_refs s, st, v))", goal_cases)
  case 1
  then show ?case by auto
next
  case (2 s t c st v r)
  then show ?case using finite_stored_refs by (simp add: walk_measure_pop)
next
  case (3 s t c st v r v')
  then show ?case using finite_stored_refs cites_stored by (simp add: walk_measure_visit)
qed

definition causal_closure :: "threaded_store \<Rightarrow> content_hash \<Rightarrow> thread_id \<Rightarrow> content_hash list" where
  "causal_closure s hash thread =
     closure_loop s thread (if hi_contains (st_index s) hash thread then [hash] else []) [] []"

definition cites_rel :: "threaded_store \<Rightarrow> thread_id \<Rightarrow> (content_hash \<times> content_hash) set" where
  "cites_rel s t = {(a, b). b \<in> set (cites s t a)}"

lemma closed_reach: "R `` V \<subseteq> V \<Longrightarrow> R\<^sup>* `` V = V"
  by (metis Image_closed_trancl)

lemma reach_push:
  assumes "set refs = R `` {c}"
  shows "R\<^sup>* `` (insert c V \<union> (S \<union> (set refs - insert c V))) = R\<^sup>* `` (V \<union> insert c S)"
proof -
  have "R `` {c} \<subseteq> R\<^sup>* `` {c}" by auto
  then have "R\<^sup>* `` (set refs) \<subseteq> R\<^sup>* `` {c}" using assms by (auto intro: rtrancl_trans)
  then show ?thesis by auto
qed

lemma closure_loop_exact:
  assumes "cites_rel s t `` set v \<subseteq> set v \<union> set st" "set r = set v" "distinct r"
  shows "distinct (closure_loop s t st v r) \<and>
    set (closure_loop s t st v r) = (cites_rel s t)\<^sup>* `` (set v \<union> set st)"
  using assms
proof (induction s t st v r rule: closure_loop.induct)
  case (1 s t v r)
  then show ?case using closed_reach [of "cites_rel s t" "set v"] by simp
next
  case (2 s t c st v r)
  show ?case
  proof (cases "c \<in> set v")
    case True
    then have "distinct (closure_loop s t st v r) \<and>
        set (closure_loop s t st v r) = (cites_rel s t)\<^sup>* `` (set v \<union> set st)"
      using "2.IH"(1) "2.prems" by (auto simp: insert_absorb)
    then show ?thesis using True by (simp add: insert_absorb)
  next
    case False
    have refs: "set (cites s t c) = cites_rel s t `` {c}" by (auto simp: cites_rel_def)
    let ?v = "bs_insert c v"
    let ?st = "push_refs ?v (cites s t c) st"
    have "distinct (closure_loop s t ?st ?v (r @ [c])) \<and>
        set (closure_loop s t ?st ?v (r @ [c])) = (cites_rel s t)\<^sup>* `` (set ?v \<union> set ?st)"
    proof (rule "2.IH"(2) [OF False refl])
      show "cites_rel s t `` set ?v \<subseteq> set ?v \<union> set ?st"
        using "2.prems"(1) refs by (auto simp: set_push_refs)
    qed (use "2.prems" False in auto)
    then show ?thesis
      using False reach_push [OF refs, of "set v" "set st"] by (simp add: set_push_refs Let_def)
  qed
qed

lemma causal_closure_reach:
  assumes "wf_store s"
  shows "distinct (causal_closure s h t) \<and> set (causal_closure s h t) =
    (if lookup_in_thread s h t = None then {} else (cites_rel s t)\<^sup>* `` {h})"
proof -
  have "hi_contains (st_index s) h t \<longleftrightarrow> lookup_in_thread s h t \<noteq> None"
    using contains_iff [of s h t] assms by (simp add: wf_store_def store_contains_def)
  then show ?thesis
    using closure_loop_exact [of s t "[]" "if hi_contains (st_index s) h t then [h] else []" "[]"]
    by (simp add: causal_closure_def)
qed

lemma reachable_deliver: "store_reachable sha256 s \<Longrightarrow> store_reachable sha256 (deliver s xs)"
  by (induction xs arbitrary: s)
     (auto simp: deliver_def intro: rtranclp.rtrancl_into_rtrancl store_step.step_append)

lemma deliver_converges:
  assumes "wf_store s" "consistent_entries xs" "set ys = set xs"
  shows "lookup_in_thread (deliver s ys) = lookup_in_thread (deliver s xs) \<and>
    set (frontier (deliver s ys) t) = set (frontier (deliver s xs) t)"
proof -
  have look: "lookup_in_thread (deliver s ys) = lookup_in_thread (deliver s xs)"
    using threaded.deliver_order [OF assms] by (simp add: deliver_def)
  have "wf_store (deliver s zs)" for zs
    using threaded.inv_deliver [OF assms(1)] by (simp add: deliver_def)
  then show ?thesis using look by (auto simp: frontier_iff)
qed

section \<open>Properties\<close>

text \<open>C7: the store converges: delivering the same content-addressed messages in any order, with
  any repetitions, to a store reached by any run gives the same lookups and the same frontier.\<close>

theorem store_deliveries_converge:
  assumes "store_reachable sha256 s" "consistent_entries xs" "set ys = set xs"
  shows "lookup_in_thread (deliver s ys) = lookup_in_thread (deliver s xs) \<and>
    set (frontier (deliver s ys) t) = set (frontier (deliver s xs) t)"
  using deliver_converges [OF reachable_wf [OF assms(1)] assms(2,3)] .

definition sample_reply :: message where
  "sample_reply = Simple \<lparr>m_performative = Core Reply, m_recipient = Some (One ''@a''),
     m_content = Atom (Num 8), m_params = [], m_thread = Some ''t'', m_sender = Some ''@b'',
     m_caused_by = Some (Single ''h1'')\<rparr>"

theorem store_deliveries_converge_witness:
  "set (frontier (deliver new_store
      [(''h2'', ''t'', sample_reply), (''h1'', ''t'', sample_tell), (''h2'', ''t'', sample_reply)]) ''t'') =
   {''h2''}"
proof -
  let ?xs = "[(''h1'', ''t'', sample_tell), (''h2'', ''t'', sample_reply)]"
  have "consistent_entries ?xs" by (auto simp: consistent_entries_def)
  then have "set (frontier (deliver new_store
      [(''h2'', ''t'', sample_reply), (''h1'', ''t'', sample_tell), (''h2'', ''t'', sample_reply)]) ''t'') =
      set (frontier (deliver new_store ?xs) ''t'')"
    using store_deliveries_converge [of head32 new_store ?xs
        "[(''h2'', ''t'', sample_reply), (''h1'', ''t'', sample_tell), (''h2'', ''t'', sample_reply)]"
        "''t''"]
    by auto
  also have "\<dots> = {''h2''}" by code_simp
  finally show ?thesis .
qed

text \<open>C8: the frontier of a thread is exactly the stored messages that no stored message of the
  thread cites, in every store that appends and envelope deliveries can reach.\<close>

theorem store_frontier_exact:
  assumes "store_reachable sha256 s"
  shows "h \<in> set (frontier s t) \<longleftrightarrow> lookup_in_thread s h t \<noteq> None \<and>
    (\<nexists>h' m. lookup_in_thread s h' t = Some m \<and> h \<in> set (caused_refs (caused_by_of m)))"
  using frontier_iff [OF reachable_wf [OF assms]] by blast

theorem store_frontier_exact_witness:
  "''h1'' \<notin> set (frontier (deliver new_store [(''h2'', ''t'', sample_reply), (''h1'', ''t'', sample_tell)]) ''t'')"
proof -
  let ?s = "deliver new_store [(''h2'', ''t'', sample_reply), (''h1'', ''t'', sample_tell)]"
  have "store_reachable head32 ?s" by (rule reachable_deliver) simp
  moreover have "lookup_in_thread ?s ''h2'' ''t'' = Some sample_reply"
      "''h1'' \<in> set (caused_refs (caused_by_of sample_reply))"
    by code_simp+
  ultimately show ?thesis using store_frontier_exact by blast
qed

text \<open>C9: the causal closure of a stored message lists, without repetition, exactly the hashes
  reachable from it through the citations of the messages the thread holds.\<close>

theorem causal_closure_exact:
  assumes "store_reachable sha256 s" "lookup_in_thread s h t \<noteq> None"
  shows "distinct (causal_closure s h t) \<and> set (causal_closure s h t) = (cites_rel s t)\<^sup>* `` {h}"
  using causal_closure_reach [OF reachable_wf [OF assms(1)], of h t] assms(2) by simp

theorem causal_closure_exact_witness:
  "(''h2'', ''h1'') \<in> (cites_rel (deliver new_store [(''h2'', ''t'', sample_reply)]) ''t'')\<^sup>*"
proof -
  let ?s = "deliver new_store [(''h2'', ''t'', sample_reply)]"
  have "store_reachable head32 ?s" by (rule reachable_deliver) simp
  moreover have "lookup_in_thread ?s ''h2'' ''t'' \<noteq> None" by code_simp
  ultimately have "set (causal_closure ?s ''h2'' ''t'') = (cites_rel ?s ''t'')\<^sup>* `` {''h2''}"
    using causal_closure_exact by blast
  moreover have "''h1'' \<in> set (causal_closure ?s ''h2'' ''t'')" by code_simp
  ultimately show ?thesis by blast
qed

end
