(* ===== verification/Cbcl_Causal.thy ===== *)
theory Cbcl_Causal
  imports Cbcl_Store Cbcl_Protocol "HOL-Library.Product_Lexorder"
begin

text \<open>
  Causal verification: the decision kernel of \<open>cbcl-core/src/causal_kernel.rs\<close>, the verifier
  \<open>verify_causal\<close> of \<open>protocol.rs\<close>, and the resolution of repeat copies of \<open>repeat.rs\<close>. The store is
  the threaded store, whose \<open>materialized_positions\<close> is the trait's default \<open>None\<close>, so that the
  branches of the resolver that read a materialized cache never run. \<open>None\<close> as the result of
  \<open>verify_causal\<close> is a panic, at an \<open>unreachable!\<close> or an \<open>expect\<close>.
\<close>

section \<open>The decision kernel\<close>

datatype lookup_evidence = LMissing | LAllowed | LWrong

datatype fan_in = FClear | FMissing | FWrong

datatype decision =
    DValid | DUnknown | DMissingCausedBy | DInvalidPredecessor | DExtraneousPredecessor
  | DFanInWithoutAllDecl | DIncompleteFanIn

definition absent :: "bool \<Rightarrow> decision" where
  "absent has_predecessors = (if has_predecessors then DMissingCausedBy else DValid)"

definition literal_begin :: "bool \<Rightarrow> decision" where
  "literal_begin allowed = (if allowed then DValid else DInvalidPredecessor)"

definition single :: "bool \<Rightarrow> lookup_evidence \<Rightarrow> decision" where
  "single has_predecessors ev = (case ev of
       LMissing \<Rightarrow> DUnknown
     | LAllowed \<Rightarrow> DValid
     | LWrong \<Rightarrow> if has_predecessors then DInvalidPredecessor else DExtraneousPredecessor)"

definition observe :: "fan_in \<Rightarrow> lookup_evidence \<Rightarrow> fan_in" where
  "observe state ev = (case (state, ev) of
       (FWrong, _) \<Rightarrow> FWrong
     | (_, LWrong) \<Rightarrow> FWrong
     | (FMissing, _) \<Rightarrow> FMissing
     | (_, LMissing) \<Rightarrow> FMissing
     | (FClear, LAllowed) \<Rightarrow> FClear)"

definition finish :: "bool \<Rightarrow> fan_in \<Rightarrow> bool \<Rightarrow> decision" where
  "finish has_all state complete =
     (if \<not> has_all then DFanInWithoutAllDecl
      else case state of
          FWrong \<Rightarrow> DInvalidPredecessor
        | FMissing \<Rightarrow> DUnknown
        | FClear \<Rightarrow> if complete then DValid else DIncompleteFanIn)"

section \<open>Evidence about predecessors\<close>

definition innermost_name :: "message \<Rightarrow> string option" where
  "innermost_name m = Option.bind (innermost_simple m) (\<lambda>s. map_option performative_name (performative_of s))"

definition predecessor_type :: "threaded_store \<Rightarrow> content_hash \<Rightarrow> thread_id \<Rightarrow> string option" where
  "predecessor_type s hash thread = (case lookup_in_thread s hash thread of
       Some m \<Rightarrow> Some (case innermost_name m of Some n \<Rightarrow> n | None \<Rightarrow> '''')
     | None \<Rightarrow> (case envelope_in_thread s hash thread of
           Some e \<Rightarrow> Some (h_performative (e_header e))
         | None \<Rightarrow> Option.bind (opened_in_thread s hash thread) opened_performative))"

definition allowed_single_predecessors :: "step_decl \<Rightarrow> string list" where
  "allowed_single_predecessors step = concat (map (\<lambda>nr. case nr of
       NSingle s \<Rightarrow> [s] | NAny ss \<Rightarrow> ss | NAll _ \<Rightarrow> []) (predecessors step))"

fun first_all :: "node_ref list \<Rightarrow> string btset option" where
  "first_all [] = None"
| "first_all (nr # nrs) = (case nr of NAll ss \<Rightarrow> Some ss | _ \<Rightarrow> first_all nrs)"

section \<open>Resolution of repeat copies\<close>

definition has_repeat :: "causal_protocol \<Rightarrow> bool" where
  "has_repeat cp = list_ex (\<lambda>name. REPEAT_SEPARATOR \<in> set name) (bt_keys (steps cp))"

definition metadata ::
  "threaded_store \<Rightarrow> content_hash \<Rightarrow> thread_id \<Rightarrow> (string \<times> caused_by option) option" where
  "metadata s hash thread = (case lookup_in_thread s hash thread of
       Some m \<Rightarrow> Option.bind (innermost_simple m) (\<lambda>simple.
         map_option (\<lambda>p. (performative_name p, caused_by_of simple)) (performative_of simple))
     | None \<Rightarrow> (case envelope_in_thread s hash thread of
           Some e \<Rightarrow> Some (h_performative (e_header e), h_caused_by (e_header e))
         | None \<Rightarrow> Option.bind (opened_in_thread s hash thread) (\<lambda>op.
             Option.bind (opened_performative op) (\<lambda>p.
               map_option (\<lambda>c. (p, c)) (opened_causal_reference op)))))"

type_synonym messages_table = "(content_hash, string \<times> caused_by option) btmap"
type_synonym rows_table = "(content_hash \<times> string, verification_result) btmap"

text \<open>Every reference that some stored evidence makes.\<close>

definition evidence_refs :: "threaded_store \<Rightarrow> content_hash set" where
  "evidence_refs s =
     (\<Union>(t, msgs) \<in> set (threads s). \<Union>(h, m) \<in> set msgs.
        \<Union>simple \<in> set_option (innermost_simple m). set (caused_refs (caused_by_of simple))) \<union>
     (\<Union>(h, e) \<in> set (envelopes s). set (caused_refs (h_caused_by (e_header e)))) \<union>
     (\<Union>(h, op) \<in> set (opened s). \<Union>c \<in> set_option (opened_causal_reference op). set (caused_refs c))"

lemma finite_evidence_refs: "finite (evidence_refs s)"
  by (auto simp: evidence_refs_def)

lemma metadata_refs:
  assumes "metadata s h t = Some (verb, cause)"
  shows "set (caused_refs cause) \<subseteq> evidence_refs s"
proof (cases "lookup_in_thread s h t")
  case (Some m)
  then obtain msgs k where "(t, msgs) \<in> set (threads s)" "(k, m) \<in> set msgs"
    using lookup_in_thread_stored by fastforce
  moreover obtain simple where "innermost_simple m = Some simple" "caused_by_of simple = cause"
    using assms Some by (auto simp: metadata_def split: bind_splits)
  ultimately show ?thesis unfolding evidence_refs_def by fastforce
next
  case None
  then consider
      e where "(h, e) \<in> set (envelopes s)" "h_caused_by (e_header e) = cause"
    | op where "(h, op) \<in> set (opened s)" "opened_causal_reference op = Some cause"
    using assms
    by (auto simp: metadata_def envelope_in_thread_def opened_in_thread_def
        dest!: map_of_SomeD split: option.splits if_splits bind_splits)
  then show ?thesis unfolding evidence_refs_def by cases fastforce+
qed

function resolve_loop ::
  "threaded_store \<Rightarrow> thread_id \<Rightarrow> content_hash list \<Rightarrow> content_hash btset \<Rightarrow> messages_table \<Rightarrow>
    messages_table" where
  "resolve_loop s thread [] seen messages = messages"
| "resolve_loop s thread (hash # todo) seen messages =
     (if hash \<in> set seen then resolve_loop s thread todo seen messages
      else (case metadata s hash thread of
          Some (verb, cause) \<Rightarrow> resolve_loop s thread (push_refs [] (caused_refs cause) todo)
            (bs_insert hash seen) (bt_insert hash (verb, cause) messages)
        | None \<Rightarrow> resolve_loop s thread todo (bs_insert hash seen) messages))"
  by pat_completeness auto

termination resolve_loop
proof (relation "inv_image walk_measure (\<lambda>(s, t, todo, seen, ms). (evidence_refs s, todo, seen))",
    goal_cases)
  case 1
  then show ?case by auto
next
  case (2 s t h todo seen ms)
  then show ?case using finite_evidence_refs by (simp add: walk_measure_pop)
next
  case (3 s t h todo seen ms)
  then show ?case
    using unseen_visit [of "evidence_refs s" h seen todo todo] finite_evidence_refs
    by (simp add: walk_measure_def)
next
  case (4 s t h todo seen ms p verb cause)
  then show ?case
    using finite_evidence_refs metadata_refs [of s h t verb cause] by (simp add: walk_measure_visit)
qed

definition ready_steps :: "causal_protocol \<Rightarrow> string btset \<Rightarrow> string list" where
  "ready_steps cp done_steps = map fst (filter (\<lambda>(name, step). name \<notin> set done_steps \<and>
     list_all (\<lambda>nr. list_all (\<lambda>p. p \<in> set done_steps) (performatives_of nr)) (predecessors step))
     (steps cp))"

function order_loop :: "causal_protocol \<Rightarrow> string btset \<Rightarrow> string list \<Rightarrow> string list" where
  "order_loop cp done_steps order =
     (let ready = ready_steps cp done_steps
      in if ready = [] then order
         else order_loop cp (foldl (\<lambda>d n. bs_insert n d) done_steps ready) (order @ ready))"
  by pat_completeness auto

termination order_loop
proof (relation "measure (\<lambda>(cp, d, r). card (set (bt_keys (steps cp)) - set d))", goal_cases)
  case 1
  then show ?case by simp
next
  case (2 cp d order ready)
  then obtain n where "n \<in> set ready" using 2(2) by (meson last_in_set)
  then have "n \<in> set (bt_keys (steps cp)) - set d" using 2 by (force simp: ready_steps_def)
  then show ?case
    using \<open>n \<in> set ready\<close> by (auto simp: set_foldl_bs_insert intro!: psubset_card_mono)
qed

declare order_loop.simps [simp del]

definition repeated_base :: "causal_protocol \<Rightarrow> string \<Rightarrow> bool" where
  "repeated_base cp found = list_ex (\<lambda>n. REPEAT_SEPARATOR \<in> set n \<and> repeat_base_name n = found)
     (bt_keys (steps cp))"

definition wrong :: "threaded_store \<Rightarrow> thread_id \<Rightarrow> content_hash \<Rightarrow> string list \<Rightarrow> verification_result" where
  "wrong s thread hash expected = Violation (InvalidPredecessor hash expected
     (case predecessor_type s hash thread of Some k \<Rightarrow> k | None \<Rightarrow> ''''))"

definition row_at ::
  "threaded_store \<Rightarrow> causal_protocol \<Rightarrow> thread_id \<Rightarrow> rows_table \<Rightarrow> content_hash \<Rightarrow> string \<Rightarrow>
    verification_result" where
  "row_at s cp thread rows hash step = (case predecessor_type s hash thread of
       None \<Rightarrow> Unknown
     | Some found \<Rightarrow>
         if found \<noteq> repeat_base_name step then wrong s thread hash [step]
         else if REPEAT_SEPARATOR \<notin> set step \<and> \<not> repeated_base cp found then Valid
         else if metadata s hash thread = None then Unknown
         else (case bt_get rows (hash, step) of Some v \<Rightarrow> v | None \<Rightarrow> wrong s thread hash [step]))"

fun alternatives_loop ::
  "(string \<Rightarrow> verification_result) \<Rightarrow> string list \<Rightarrow> bool \<Rightarrow> verification_result option \<times> bool" where
  "alternatives_loop at_step [] missing = (None, missing)"
| "alternatives_loop at_step (name # names) missing = (case at_step name of
       Valid \<Rightarrow> (Some Valid, missing)
     | Unknown \<Rightarrow> alternatives_loop at_step names True
     | Violation _ \<Rightarrow> alternatives_loop at_step names missing)"

definition alternatives ::
  "threaded_store \<Rightarrow> causal_protocol \<Rightarrow> thread_id \<Rightarrow> rows_table \<Rightarrow> content_hash \<Rightarrow> string list \<Rightarrow>
    verification_result" where
  "alternatives s cp thread rows hash allowed =
     (case alternatives_loop (row_at s cp thread rows hash) allowed
         (predecessor_type s hash thread = None) of
        (Some r, _) \<Rightarrow> r
      | (None, True) \<Rightarrow> Unknown
      | (None, False) \<Rightarrow> wrong s thread hash allowed)"

text \<open>One hash of a fan-in against the declared types: the types it matches, the types it may still
  match, whether it matched and whether that is open.\<close>

record fan_state =
  fs_found :: "string btset"
  fs_possible :: "string btset"
  fs_matched :: bool
  fs_unknown :: bool

fun fan_types :: "(string \<Rightarrow> verification_result) \<Rightarrow> string list \<Rightarrow> fan_state \<Rightarrow> fan_state" where
  "fan_types at_step [] st = st"
| "fan_types at_step (name # names) st = fan_types at_step names (case at_step name of
       Valid \<Rightarrow> st\<lparr>fs_found := bs_insert name (fs_found st), fs_matched := True\<rparr>
     | Unknown \<Rightarrow> st\<lparr>fs_possible := bs_insert name (fs_possible st), fs_unknown := True\<rparr>
     | Violation _ \<Rightarrow> st)"

text \<open>\<open>Inl\<close>: the early return on a hash that matches no declared type.\<close>

fun fan_hashes ::
  "threaded_store \<Rightarrow> causal_protocol \<Rightarrow> thread_id \<Rightarrow> rows_table \<Rightarrow> string btset \<Rightarrow> content_hash list \<Rightarrow>
    string btset \<Rightarrow> string btset \<Rightarrow> bool \<Rightarrow>
    (verification_result, string btset \<times> string btset \<times> bool) result" where
  "fan_hashes s cp thread rows all_set [] found possible missing = Inr (found, possible, missing)"
| "fan_hashes s cp thread rows all_set (h # hs) found possible missing =
     (let st = fan_types (row_at s cp thread rows h) all_set
            \<lparr>fs_found = found, fs_possible = possible, fs_matched = False,
             fs_unknown = (predecessor_type s h thread = None)\<rparr>
      in if \<not> fs_matched st \<and> \<not> fs_unknown st then Inl (wrong s thread h all_set)
         else fan_hashes s cp thread rows all_set hs (fs_found st) (fs_possible st)
                (missing \<or> (\<not> fs_matched st \<and> fs_unknown st)))"

definition rewrite_root :: "caused_by option \<Rightarrow> content_hash option \<Rightarrow> caused_by option" where
  "rewrite_root caused root = (case (caused, root) of
       (Some (Single h), Some r) \<Rightarrow>
         if h = r \<or> (case (strip_prefix ''sha256-'' h, strip_prefix ''sha256:'' r) of
               (Some a, Some b) \<Rightarrow> a = b | _ \<Rightarrow> False)
         then Some Begin else caused
     | _ \<Rightarrow> caused)"

definition step_verdict ::
  "threaded_store \<Rightarrow> causal_protocol \<Rightarrow> thread_id \<Rightarrow> content_hash option \<Rightarrow> rows_table \<Rightarrow> step_decl \<Rightarrow>
    caused_by option \<Rightarrow> verification_result" where
  "step_verdict s cp thread root rows step caused = (case rewrite_root caused root of
       None \<Rightarrow> if predecessors step = [] then Valid else Violation MissingCausedBy
     | Some Begin \<Rightarrow>
         (let allowed = allowed_single_predecessors step
          in if list_ex (\<lambda>n. n = BEGIN_KEYWORD) allowed then Valid
             else wrong s thread BEGIN_KEYWORD allowed)
     | Some (Single h) \<Rightarrow> alternatives s cp thread rows h (allowed_single_predecessors step)
     | Some (Multiple hashes) \<Rightarrow> (case first_all (predecessors step) of
           None \<Rightarrow> Violation (FanInWithoutAllDecl (step_performative step))
         | Some all_set \<Rightarrow> (case fan_hashes s cp thread rows all_set hashes [] [] False of
               Inl v \<Rightarrow> v
             | Inr (found, possible, missing) \<Rightarrow>
                 (let absent_types = filter (\<lambda>n. n \<notin> set found) all_set
                  in if missing \<or> list_ex (\<lambda>n. n \<in> set possible) absent_types then Unknown
                     else if absent_types = [] then Valid
                     else Violation (IncompleteFanIn absent_types)))))"

fun row_messages ::
  "threaded_store \<Rightarrow> causal_protocol \<Rightarrow> thread_id \<Rightarrow> content_hash option \<Rightarrow> string \<Rightarrow> step_decl \<Rightarrow>
    messages_table \<Rightarrow> rows_table \<Rightarrow> rows_table" where
  "row_messages s cp thread root name step [] rows = rows"
| "row_messages s cp thread root name step ((hash, (verb, cause)) # ms) rows =
     (if verb \<noteq> repeat_base_name name then row_messages s cp thread root name step ms rows
      else row_messages s cp thread root name step ms
             (bt_insert (hash, name) (step_verdict s cp thread root rows step cause) rows))"

fun row_steps ::
  "threaded_store \<Rightarrow> causal_protocol \<Rightarrow> thread_id \<Rightarrow> content_hash option \<Rightarrow> messages_table \<Rightarrow>
    string list \<Rightarrow> rows_table \<Rightarrow> rows_table" where
  "row_steps s cp thread root messages [] rows = rows"
| "row_steps s cp thread root messages (name # names) rows =
     (if name = BEGIN_KEYWORD then row_steps s cp thread root messages names rows
      else row_steps s cp thread root messages names
             (case bt_get (steps cp) name of
                Some step \<Rightarrow> row_messages s cp thread root name step messages rows
              | None \<Rightarrow> rows))"

definition resolution_rows ::
  "threaded_store \<Rightarrow> causal_protocol \<Rightarrow> thread_id \<Rightarrow> content_hash option \<Rightarrow> content_hash list \<Rightarrow>
    rows_table" where
  "resolution_rows s cp thread root hashes =
     (let messages = resolve_loop s thread (rev hashes) [] []
      in if messages = [] then []
         else row_steps s cp thread root messages (order_loop cp [] []) [])"

fun resolution_verify ::
  "threaded_store \<Rightarrow> causal_protocol \<Rightarrow> thread_id \<Rightarrow> content_hash option \<Rightarrow> rows_table \<Rightarrow> string \<Rightarrow>
    caused_by option \<Rightarrow> (string \<times> step_decl) list \<Rightarrow> bool \<Rightarrow> verification_result \<Rightarrow>
    verification_result" where
  "resolution_verify s cp thread root rows verb cause [] unknown error =
     (if unknown then Unknown else error)"
| "resolution_verify s cp thread root rows verb cause ((name, step) # others) unknown error =
     (if name = BEGIN_KEYWORD \<or> repeat_base_name name \<noteq> verb
      then resolution_verify s cp thread root rows verb cause others unknown error
      else (case step_verdict s cp thread root rows step cause of
          Valid \<Rightarrow> Valid
        | Unknown \<Rightarrow> resolution_verify s cp thread root rows verb cause others True error
        | Violation v \<Rightarrow>
            resolution_verify s cp thread root rows verb cause others unknown (Violation v)))"

definition repeat_verify ::
  "string \<Rightarrow> caused_by option \<Rightarrow> threaded_store \<Rightarrow> causal_protocol \<Rightarrow> thread_id \<Rightarrow>
    content_hash option \<Rightarrow> verification_result" where
  "repeat_verify verb cause s cp thread root =
     (if \<not> list_ex (\<lambda>name. repeat_base_name name = verb) (bt_keys (steps cp)) then Valid
      else resolution_verify s cp thread root
             (resolution_rows s cp thread root (caused_refs cause)) verb cause (steps cp) False
             (Violation MissingCausedBy))"

section \<open>The verifier\<close>

record fan_loop =
  fl_state :: fan_in
  fl_found :: "string btset"
  fl_error :: "causal_violation option"

definition fan_step ::
  "threaded_store \<Rightarrow> thread_id \<Rightarrow> string btset \<Rightarrow> fan_loop \<Rightarrow> content_hash \<Rightarrow> fan_loop" where
  "fan_step s thread all_set acc hash = (case predecessor_type s hash thread of
       None \<Rightarrow> acc\<lparr>fl_state := observe (fl_state acc) LMissing\<rparr>
     | Some p \<Rightarrow>
         if p \<in> set all_set
         then acc\<lparr>fl_found := bs_insert p (fl_found acc), fl_state := observe (fl_state acc) LAllowed\<rparr>
         else acc\<lparr>fl_error := (case fl_error acc of
                     None \<Rightarrow> Some (InvalidPredecessor hash all_set p) | Some e \<Rightarrow> Some e),
                  fl_state := observe (fl_state acc) LWrong\<rparr>)"

definition verify_fan_in ::
  "string \<Rightarrow> content_hash list \<Rightarrow> threaded_store \<Rightarrow> thread_id \<Rightarrow> step_decl \<Rightarrow>
    verification_result option" where
  "verify_fan_in msg_performative hashes s thread step =
     (let all_decl = first_all (predecessors step);
          start = \<lparr>fl_state = FClear, fl_found = [], fl_error = None\<rparr>;
          acc = (case all_decl of
              Some all_set \<Rightarrow> foldl (fan_step s thread all_set) start hashes
            | None \<Rightarrow> start);
          missing = (case all_decl of
              Some all_set \<Rightarrow> if fl_state acc = FClear
                then filter (\<lambda>t. t \<notin> set (fl_found acc)) all_set else []
            | None \<Rightarrow> [])
      in case finish (all_decl \<noteq> None) (fl_state acc) (missing = []) of
           DValid \<Rightarrow> Some Valid
         | DUnknown \<Rightarrow> Some Unknown
         | DInvalidPredecessor \<Rightarrow> map_option Violation (fl_error acc)
         | DIncompleteFanIn \<Rightarrow> Some (Violation (IncompleteFanIn missing))
         | DFanInWithoutAllDecl \<Rightarrow> Some (Violation (FanInWithoutAllDecl msg_performative))
         | _ \<Rightarrow> None)"

definition verify_single ::
  "content_hash \<Rightarrow> threaded_store \<Rightarrow> thread_id \<Rightarrow> step_decl \<Rightarrow> verification_result option" where
  "verify_single hash s thread step =
     (let pred_perf = predecessor_type s hash thread;
          allowed = (if pred_perf \<noteq> None then allowed_single_predecessors step else []);
          ev = (case pred_perf of
              None \<Rightarrow> LMissing
            | Some p \<Rightarrow> if list_ex (\<lambda>a. a = p) allowed then LAllowed else LWrong)
      in case single (predecessors step \<noteq> []) ev of
           DValid \<Rightarrow> Some Valid
         | DUnknown \<Rightarrow> Some Unknown
         | DExtraneousPredecessor \<Rightarrow>
             map_option (\<lambda>p. Violation (ExtraneousPredecessor hash p)) pred_perf
         | DInvalidPredecessor \<Rightarrow>
             map_option (\<lambda>p. Violation (InvalidPredecessor hash allowed p)) pred_perf
         | _ \<Rightarrow> None)"

definition begin_allowed :: "step_decl \<Rightarrow> bool" where
  "begin_allowed step = list_ex (\<lambda>nr. case nr of
       NSingle s \<Rightarrow> s = BEGIN_KEYWORD
     | NAny ss \<Rightarrow> BEGIN_KEYWORD \<in> set ss
     | NAll _ \<Rightarrow> False) (predecessors step)"

definition verify_causal ::
  "string \<Rightarrow> caused_by option \<Rightarrow> threaded_store \<Rightarrow> causal_protocol \<Rightarrow> thread_id \<Rightarrow>
    verification_result option" where
  "verify_causal msg_performative caused s cp thread =
     (if has_repeat cp then Some (repeat_verify msg_performative caused s cp thread None)
      else case bt_get (steps cp) msg_performative of
          None \<Rightarrow> Some Valid
        | Some step \<Rightarrow> (case caused of
              None \<Rightarrow> (case absent (predecessors step \<noteq> []) of
                  DValid \<Rightarrow> Some Valid
                | DMissingCausedBy \<Rightarrow> Some (Violation MissingCausedBy)
                | _ \<Rightarrow> None)
            | Some Begin \<Rightarrow> (case literal_begin (begin_allowed step) of
                  DValid \<Rightarrow> Some Valid
                | DInvalidPredecessor \<Rightarrow> Some (Violation (InvalidPredecessor BEGIN_KEYWORD
                    (allowed_single_predecessors step) BEGIN_KEYWORD))
                | _ \<Rightarrow> None)
            | Some (Single hash) \<Rightarrow> verify_single hash s thread step
            | Some (Multiple hashes) \<Rightarrow> verify_fan_in msg_performative hashes s thread step))"

section \<open>What the verifier decides\<close>

text \<open>The specification: a reference justifies a step, contradicts it, or leaves it open.\<close>

definition link_valid ::
  "(content_hash \<Rightarrow> string option) \<Rightarrow> step_decl \<Rightarrow> caused_by option \<Rightarrow> bool" where
  "link_valid ty step caused = (case caused of
       None \<Rightarrow> predecessors step = []
     | Some Begin \<Rightarrow> BEGIN_KEYWORD \<in> set (allowed_single_predecessors step)
     | Some (Single h) \<Rightarrow> (\<exists>p. ty h = Some p \<and> p \<in> set (allowed_single_predecessors step))
     | Some (Multiple hs) \<Rightarrow> (\<exists>types. first_all (predecessors step) = Some types \<and>
         ty ` set hs = Some ` set types))"

definition link_open ::
  "(content_hash \<Rightarrow> string option) \<Rightarrow> step_decl \<Rightarrow> caused_by option \<Rightarrow> bool" where
  "link_open ty step caused = (case caused of
       Some (Single h) \<Rightarrow> ty h = None
     | Some (Multiple hs) \<Rightarrow> (\<exists>types. first_all (predecessors step) = Some types \<and>
         None \<in> ty ` set hs \<and> ty ` set hs \<subseteq> insert None (Some ` set types))
     | _ \<Rightarrow> False)"

lemma begin_allowed_iff: "begin_allowed step \<longleftrightarrow> BEGIN_KEYWORD \<in> set (allowed_single_predecessors step)"
  by (auto simp: begin_allowed_def allowed_single_predecessors_def list_ex_iff split: node_ref.splits)

text \<open>The fan-in loop: its state, the types found and the diagnostic.\<close>

lemma fan_loop_result:
  fixes s thread types
  defines "ty \<equiv> \<lambda>h. predecessor_type s h thread"
  assumes "acc = foldl (fan_step s thread types) \<lparr>fl_state = FClear, fl_found = [], fl_error = None\<rparr> hs"
  shows "(fl_state acc = FWrong \<longleftrightarrow> \<not> ty ` set hs \<subseteq> insert None (Some ` set types)) \<and>
    (fl_state acc = FClear \<longleftrightarrow> ty ` set hs \<subseteq> Some ` set types) \<and>
    set (fl_found acc) = set types \<inter> {p. Some p \<in> ty ` set hs} \<and>
    (fl_error acc \<noteq> None \<longleftrightarrow> fl_state acc = FWrong)"
  using assms(2)
proof (induction hs arbitrary: acc rule: rev_induct)
  case Nil
  then show ?case by simp
next
  case (snoc h hs)
  let ?b = "foldl (fan_step s thread types) \<lparr>fl_state = FClear, fl_found = [], fl_error = None\<rparr> hs"
  have acc: "acc = fan_step s thread types ?b h" using snoc.prems by simp
  note IH = snoc.IH [OF refl]
  show ?case
  proof (cases "ty h")
    case None
    then have "acc = ?b\<lparr>fl_state := observe (fl_state ?b) LMissing\<rparr>"
      unfolding acc fan_step_def ty_def by simp
    then show ?thesis using IH None
      by (cases "fl_state ?b") (auto simp: observe_def)
  next
    case (Some p)
    then have "p \<in> set types \<Longrightarrow> acc = ?b\<lparr>fl_found := bs_insert p (fl_found ?b),
          fl_state := observe (fl_state ?b) LAllowed\<rparr>"
        "p \<notin> set types \<Longrightarrow> fl_found acc = fl_found ?b \<and> fl_error acc \<noteq> None \<and>
          fl_state acc = observe (fl_state ?b) LWrong"
      unfolding acc fan_step_def ty_def by (auto split: option.splits)
    then show ?thesis using IH Some
      by (cases "p \<in> set types"; cases "fl_state ?b") (auto simp: observe_def)
  qed
qed

lemma iff_set_eq: "(P \<longleftrightarrow> B \<subseteq> A) \<Longrightarrow> A \<subseteq> B \<Longrightarrow> P \<longleftrightarrow> A = B"
  by blast

lemma map_filter_empty: "filter (\<lambda>t. t \<notin> A) xs = [] \<longleftrightarrow> set xs \<subseteq> A"
  by (auto simp: filter_empty_conv)

text \<open>A verdict without its diagnostic.\<close>

definition decides :: "verification_result option \<Rightarrow> bool \<Rightarrow> bool \<Rightarrow> bool" where
  "decides r valid open \<longleftrightarrow> r \<noteq> None \<and> (r = Some Valid \<longleftrightarrow> valid) \<and> (r = Some Unknown \<longleftrightarrow> open)"

lemma decides_simps [simp]:
  "decides (Some Valid) v p \<longleftrightarrow> v \<and> \<not> p"
  "decides (Some Unknown) v p \<longleftrightarrow> \<not> v \<and> p"
  "decides (Some (Violation e)) v p \<longleftrightarrow> \<not> v \<and> \<not> p"
  by (auto simp: decides_def)

lemma verify_fan_in_decides:
  "decides (verify_fan_in p hs s thread step)
     (link_valid (\<lambda>h. predecessor_type s h thread) step (Some (Multiple hs)))
     (link_open (\<lambda>h. predecessor_type s h thread) step (Some (Multiple hs)))"
proof (cases "first_all (predecessors step)")
  case None
  then show ?thesis
    by (simp add: verify_fan_in_def finish_def link_valid_def link_open_def)
next
  case (Some types)
  let ?ty = "\<lambda>h. predecessor_type s h thread"
  define acc where "acc = foldl (fan_step s thread types)
    \<lparr>fl_state = FClear, fl_found = [], fl_error = None\<rparr> hs"
  define X where "X = ?ty ` set hs"
  note loop = fan_loop_result [OF acc_def, folded X_def]
  have valid: "link_valid ?ty step (Some (Multiple hs)) \<longleftrightarrow> X = Some ` set types"
    and opens: "link_open ?ty step (Some (Multiple hs)) \<longleftrightarrow>
      None \<in> X \<and> X \<subseteq> insert None (Some ` set types)"
    using Some by (simp_all add: link_valid_def link_open_def X_def)
  define M where "M = filter (\<lambda>t. t \<notin> set (fl_found acc)) types"
  have run: "verify_fan_in p hs s thread step =
      (let missing = (if fl_state acc = FClear then filter (\<lambda>t. t \<notin> set (fl_found acc)) types else [])
       in case finish True (fl_state acc) (missing = []) of
           DValid \<Rightarrow> Some Valid
         | DUnknown \<Rightarrow> Some Unknown
         | DInvalidPredecessor \<Rightarrow> map_option Violation (fl_error acc)
         | DIncompleteFanIn \<Rightarrow> Some (Violation (IncompleteFanIn missing))
         | DFanInWithoutAllDecl \<Rightarrow> Some (Violation (FanInWithoutAllDecl p))
         | _ \<Rightarrow> None)"
    unfolding verify_fan_in_def Some Let_def option.case acc_def by simp
  show ?thesis
  proof (cases "fl_state acc")
    case FClear
    then have sub: "X \<subseteq> Some ` set types" using loop by blast
    have found: "set (fl_found acc) = set types \<inter> {q. Some q \<in> X}" using loop by blast
    have "set types \<subseteq> set (fl_found acc) \<longleftrightarrow> Some ` set types \<subseteq> X"
      unfolding found image_subset_iff by blast
    then have "set types \<subseteq> set (fl_found acc) \<longleftrightarrow> X = Some ` set types"
      by (rule iff_set_eq [OF _ sub])
    then have complete: "M = [] \<longleftrightarrow> link_valid ?ty step (Some (Multiple hs))"
      unfolding valid M_def map_filter_empty .
    have closed: "\<not> link_open ?ty step (Some (Multiple hs))" unfolding opens using sub by (metis image_iff option.distinct(1) subsetD)
    have "verify_fan_in p hs s thread step =
        (if M = [] then Some Valid else Some (Violation (IncompleteFanIn M)))"
      unfolding run M_def [symmetric] FClear by (simp add: finish_def)
    then show ?thesis using complete closed by (cases "M = []") simp_all
  next
    case FMissing
    then have "X \<subseteq> insert None (Some ` set types)" "\<not> X \<subseteq> Some ` set types"
      using loop by auto
    then have "link_open ?ty step (Some (Multiple hs))" "\<not> link_valid ?ty step (Some (Multiple hs))"
      unfolding valid opens by blast+
    moreover have "verify_fan_in p hs s thread step = Some Unknown"
      unfolding run FMissing by (simp add: finish_def)
    ultimately show ?thesis by simp
  next
    case FWrong
    then obtain e where "fl_error acc = Some e" "\<not> X \<subseteq> insert None (Some ` set types)"
      using loop by auto
    then have "\<not> link_open ?ty step (Some (Multiple hs))" "\<not> link_valid ?ty step (Some (Multiple hs))"
      unfolding valid opens by blast+
    moreover have "verify_fan_in p hs s thread step = Some (Violation e)"
      unfolding run FWrong \<open>fl_error acc = Some e\<close> by (simp add: finish_def)
    ultimately show ?thesis by simp
  qed
qed

lemma verify_single_decides:
  "decides (verify_single h s thread step)
     (link_valid (\<lambda>h. predecessor_type s h thread) step (Some (Single h)))
     (link_open (\<lambda>h. predecessor_type s h thread) step (Some (Single h)))"
  by (cases "predecessor_type s h thread")
     (auto simp: verify_single_def single_def link_valid_def link_open_def list_ex_iff Let_def)

lemma verify_causal_decides:
  assumes "\<not> has_repeat cp" "bt_get (steps cp) p = Some step"
  shows "decides (verify_causal p caused s cp thread)
    (link_valid (\<lambda>h. predecessor_type s h thread) step caused)
    (link_open (\<lambda>h. predecessor_type s h thread) step caused)"
proof (cases caused)
  case None
  then show ?thesis
    using assms by (simp add: verify_causal_def absent_def link_valid_def link_open_def)
next
  case (Some cb)
  then show ?thesis
    using assms verify_single_decides verify_fan_in_decides
    by (cases cb)
       (simp_all add: verify_causal_def literal_begin_def begin_allowed_iff link_valid_def link_open_def)
qed

text \<open>The verifier never panics, so its result is always there to be taken.\<close>

lemma verify_causal_total: "\<exists>r. verify_causal p caused s cp t = Some r"
proof (cases "has_repeat cp \<or> bt_get (steps cp) p = None")
  case True
  then show ?thesis by (auto simp: verify_causal_def)
next
  case False
  then obtain step where "\<not> has_repeat cp" "bt_get (steps cp) p = Some step" by auto
  from verify_causal_decides [OF this, of caused s t] show ?thesis by (auto simp: decides_def)
qed

section \<open>Monotonicity\<close>

definition extends :: "threaded_store \<Rightarrow> threaded_store \<Rightarrow> thread_id \<Rightarrow> bool" where
  "extends s s' t \<longleftrightarrow> (\<forall>h p. predecessor_type s h t = Some p \<longrightarrow> predecessor_type s' h t = Some p)"

lemma link_mono:
  assumes "\<forall>h p. ty h = Some p \<longrightarrow> ty' h = Some p" "\<not> link_open ty step caused"
  shows "link_valid ty' step caused = link_valid ty step caused \<and> \<not> link_open ty' step caused"
proof -
  have same: "ty' ` set hs = ty ` set hs" if known: "None \<notin> ty ` set hs" for hs
  proof (rule image_cong)
    fix h assume "h \<in> set hs"
    then have "ty h \<noteq> None" using known by (metis imageI)
    then obtain p where "ty h = Some p" by blast
    then show "ty' h = ty h" using assms(1) by simp
  qed simp
  have bad: "\<not> ty' ` set hs \<subseteq> insert None (Some ` set A)"
    if wrong: "\<not> ty ` set hs \<subseteq> insert None (Some ` set A)" for hs A
  proof -
    obtain h where h: "h \<in> set hs" "ty h \<notin> insert None (Some ` set A)" using wrong by (metis image_subsetI)
    then have "ty' h = ty h" using assms(1) by (cases "ty h") auto
    then show ?thesis using h by auto
  qed
  have bad2: "X \<noteq> Some ` set A" if "\<not> X \<subseteq> insert None (Some ` set A)" for X :: "string option set" and A
    using that by auto
  consider "caused = None \<or> caused = Some Begin" | h where "caused = Some (Single h)"
    | hs where "caused = Some (Multiple hs)"
    by (metis caused_by.exhaust option.exhaust)
  then show ?thesis
  proof cases
    case 1
    then show ?thesis by (auto simp: link_valid_def link_open_def)
  next
    case 2
    then obtain p where "ty h = Some p" using assms(2) by (auto simp: link_open_def)
    then show ?thesis using 2 assms(1) by (simp add: link_valid_def link_open_def)
  next
    case 3
    show ?thesis
    proof (cases "first_all (predecessors step)")
      case None
      then show ?thesis using 3 by (simp add: link_valid_def link_open_def)
    next
      case (Some types)
      have v: "link_valid ty step caused \<longleftrightarrow> ty ` set hs = Some ` set types"
        and o: "link_open ty step caused \<longleftrightarrow>
          None \<in> ty ` set hs \<and> ty ` set hs \<subseteq> insert None (Some ` set types)" for ty
        using 3 Some by (simp_all add: link_valid_def link_open_def)
      have "None \<notin> ty ` set hs \<or> \<not> ty ` set hs \<subseteq> insert None (Some ` set types)"
        using assms(2) unfolding o by blast
      then show ?thesis
      proof
        assume "None \<notin> ty ` set hs"
        then show ?thesis unfolding v o using same by metis
      next
        assume w: "\<not> ty ` set hs \<subseteq> insert None (Some ` set types)"
        show ?thesis unfolding v o using bad [OF w] bad2 [OF w] bad2 [OF bad [OF w]] by metis
      qed
    qed
  qed
qed

lemma verify_causal_mono:
  assumes "\<not> has_repeat cp" "extends s s' t"
  shows "\<exists>r r'. verify_causal p caused s cp t = Some r \<and> verify_causal p caused s' cp t = Some r' \<and>
    partial_cmp r r' \<in> {Some Less, Some Equal}"
proof (cases "bt_get (steps cp) p")
  case None
  then show ?thesis using assms(1) by (simp add: verify_causal_def partial_cmp_def)
next
  case (Some step)
  let ?ty = "\<lambda>s h. predecessor_type s h t"
  note d = verify_causal_decides [OF assms(1) Some, of caused s t]
    and d' = verify_causal_decides [OF assms(1) Some, of caused s' t]
  obtain r r' where r: "verify_causal p caused s cp t = Some r" "verify_causal p caused s' cp t = Some r'"
    using d d' by (auto simp: decides_def)
  have "link_valid (?ty s') step caused = link_valid (?ty s) step caused \<and>
      \<not> link_open (?ty s') step caused" if "\<not> link_open (?ty s) step caused"
    using link_mono [OF _ that, of "?ty s'"] assms(2) by (simp add: extends_def)
  then have "partial_cmp r r' \<in> {Some Less, Some Equal}"
    using d d' unfolding r by (cases r; cases r') (auto simp: partial_cmp_def)
  then show ?thesis using r by blast
qed

section \<open>The resolver on protocols without copies\<close>

definition plain :: "string \<Rightarrow> bool" where
  "plain n \<longleftrightarrow> REPEAT_SEPARATOR \<notin> set n"

lemma repeat_base_plain: "plain n \<Longrightarrow> repeat_base_name n = n"
  by (auto simp: repeat_base_name_def plain_def takeWhile_eq_all_conv)

lemma row_at_plain:
  assumes "\<not> has_repeat cp" "plain n"
  shows "row_at s cp t rows h n = (case predecessor_type s h t of
      None \<Rightarrow> Unknown | Some p \<Rightarrow> if p = n then Valid else wrong s t h [n])"
proof -
  have "\<not> repeated_base cp n"
    using assms(1) by (auto simp: has_repeat_def repeated_base_def list_ex_iff)
  then show ?thesis
    using assms(2) repeat_base_plain [OF assms(2)]
    by (auto simp: row_at_def plain_def split: option.splits)
qed

lemma alternatives_loop_result:
  "alternatives_loop f names missing =
     (if Valid \<in> f ` set names then (Some Valid, snd (alternatives_loop f names missing))
      else (None, missing \<or> Unknown \<in> f ` set names))"
  by (induction names arbitrary: missing) (auto split: verification_result.splits)

lemma alternatives_plain:
  assumes "\<not> has_repeat cp" "list_all plain allowed"
  shows "decides (Some (alternatives s cp t rows h allowed))
    (\<exists>p. predecessor_type s h t = Some p \<and> p \<in> set allowed) (predecessor_type s h t = None)"
proof -
  let ?f = "row_at s cp t rows h"
  have f: "n \<in> set allowed \<Longrightarrow> ?f n = (case predecessor_type s h t of
      None \<Rightarrow> Unknown | Some p \<Rightarrow> if p = n then Valid else wrong s t h [n])" for n
    using row_at_plain [OF assms(1)] assms(2) by (simp add: list_all_iff)
  have valid: "Valid \<in> ?f ` set allowed \<longleftrightarrow> (\<exists>p. predecessor_type s h t = Some p \<and> p \<in> set allowed)"
    using f by (force simp: wrong_def split: option.splits if_splits)
  have unknown: "Unknown \<in> ?f ` set allowed \<Longrightarrow> predecessor_type s h t = None"
    using f by (force simp: wrong_def split: option.splits if_splits)
  show ?thesis
  proof (cases "Valid \<in> ?f ` set allowed")
    case True
    then show ?thesis
      using valid alternatives_loop_result [of ?f allowed "predecessor_type s h t = None"]
      by (auto simp: alternatives_def split: prod.splits)
  next
    case False
    then have "alternatives_loop ?f allowed (predecessor_type s h t = None) =
        (None, predecessor_type s h t = None)"
      by (subst alternatives_loop_result) (use unknown in auto)
    then show ?thesis
      using False valid
      by (cases "predecessor_type s h t = None") (auto simp: alternatives_def wrong_def)
  qed
qed

lemma fan_types_result:
  "set (fs_found (fan_types f names st)) = set (fs_found st) \<union> {n \<in> set names. f n = Valid} \<and>
   set (fs_possible (fan_types f names st)) = set (fs_possible st) \<union> {n \<in> set names. f n = Unknown} \<and>
   (fs_matched (fan_types f names st) \<longleftrightarrow> fs_matched st \<or> Valid \<in> f ` set names) \<and>
   (fs_unknown (fan_types f names st) \<longleftrightarrow> fs_unknown st \<or> Unknown \<in> f ` set names)"
  by (induction names arbitrary: st) (auto split: verification_result.splits)

lemma fan_types_plain:
  assumes "\<not> has_repeat cp" "list_all plain types"
    "st = fan_types (row_at s cp t rows h) types
      \<lparr>fs_found = found, fs_possible = possible, fs_matched = False, fs_unknown = (predecessor_type s h t = None)\<rparr>"
  shows "set (fs_found st) = set found \<union> {n \<in> set types. predecessor_type s h t = Some n} \<and>
    set (fs_possible st) = set possible \<union> (if predecessor_type s h t = None then set types else {}) \<and>
    (fs_matched st \<longleftrightarrow> predecessor_type s h t \<in> Some ` set types) \<and>
    (fs_unknown st \<longleftrightarrow> predecessor_type s h t = None)"
proof -
  let ?f = "row_at s cp t rows h"
  have f: "n \<in> set types \<Longrightarrow> ?f n = (case predecessor_type s h t of
      None \<Rightarrow> Unknown | Some p \<Rightarrow> if p = n then Valid else wrong s t h [n])" for n
    using row_at_plain [OF assms(1)] assms(2) by (simp add: list_all_iff)
  have "{n \<in> set types. ?f n = Valid} = {n \<in> set types. predecessor_type s h t = Some n}"
    using f by (auto simp: wrong_def split: option.splits if_splits)
  moreover have "{n \<in> set types. ?f n = Unknown} = (if predecessor_type s h t = None then set types else {})"
    using f by (auto simp: wrong_def split: option.splits if_splits)
  moreover have "Valid \<in> ?f ` set types \<longleftrightarrow> predecessor_type s h t \<in> Some ` set types"
    using f by (force simp: wrong_def split: option.splits if_splits)
  moreover have "Unknown \<in> ?f ` set types \<Longrightarrow> predecessor_type s h t = None"
    using f by (force simp: wrong_def split: option.splits if_splits)
  ultimately show ?thesis unfolding assms(3) using fan_types_result [of ?f types] by auto
qed

lemma fan_hashes_plain:
  assumes "\<not> has_repeat cp" "list_all plain types"
  shows "case fan_hashes s cp t rows types hs found possible missing of
      Inl v \<Rightarrow> (\<exists>e. v = Violation e) \<and> \<not> (\<lambda>h. predecessor_type s h t) ` set hs \<subseteq> insert None (Some ` set types)
    | Inr (found', possible', missing') \<Rightarrow>
        (\<lambda>h. predecessor_type s h t) ` set hs \<subseteq> insert None (Some ` set types) \<and>
        set found' = set found \<union> (set types \<inter> {n. Some n \<in> (\<lambda>h. predecessor_type s h t) ` set hs}) \<and>
        (set possible' \<subseteq> set possible \<union> set types \<and> (missing' \<or> set possible' = set possible)) \<and>
        (missing' \<longleftrightarrow> missing \<or> None \<in> (\<lambda>h. predecessor_type s h t) ` set hs)"
proof (induction hs arbitrary: found possible missing)
  case (Cons h hs)
  define st where "st = fan_types (row_at s cp t rows h) types
      \<lparr>fs_found = found, fs_possible = possible, fs_matched = False, fs_unknown = (predecessor_type s h t = None)\<rparr>"
  note st = fan_types_plain [OF assms st_def]
  show ?case
  proof (cases "\<not> fs_matched st \<and> \<not> fs_unknown st")
    case True
    then show ?thesis using st by (simp add: st_def [symmetric] Let_def wrong_def)
  next
    case False
    then have run: "fan_hashes s cp t rows types (h # hs) found possible missing =
        fan_hashes s cp t rows types hs (fs_found st) (fs_possible st)
          (missing \<or> (\<not> fs_matched st \<and> fs_unknown st))"
      unfolding fan_hashes.simps st_def [symmetric] Let_def by (rule if_not_P)
    have "fs_unknown st \<Longrightarrow> \<not> fs_matched st" using st by auto
    then show ?thesis
      using Cons.IH [of "fs_found st" "fs_possible st" "missing \<or> (\<not> fs_matched st \<and> fs_unknown st)"]
        False st unfolding run
      by (auto split: sum.splits)
  qed
qed simp

definition plain_protocol :: "causal_protocol \<Rightarrow> bool" where
  "plain_protocol cp = list_all (\<lambda>(name, step). plain name \<and>
     list_all (\<lambda>nr. list_all plain (performatives_of nr)) (predecessors step)) (steps cp)"

lemma plain_no_repeat: "plain_protocol cp \<Longrightarrow> \<not> has_repeat cp"
  by (auto simp: plain_protocol_def has_repeat_def plain_def list_all_iff list_ex_iff)

lemma first_all_member: "first_all nrs = Some types \<Longrightarrow> NAll types \<in> set nrs"
  by (induction nrs) (auto split: node_ref.splits)

lemma plain_step:
  assumes "plain_protocol cp" "bt_get (steps cp) p = Some step"
  shows "plain p \<and> list_all plain (allowed_single_predecessors step) \<and>
    (\<forall>types. first_all (predecessors step) = Some types \<longrightarrow> list_all plain types)"
proof -
  have "(p, step) \<in> set (steps cp)" using assms(2) by (rule map_of_SomeD)
  then have names: "plain p" "\<And>nr n. nr \<in> set (predecessors step) \<Longrightarrow> n \<in> set (performatives_of nr) \<Longrightarrow> plain n"
    using assms(1) by (auto simp: plain_protocol_def list_all_iff)
  then have "list_all plain (allowed_single_predecessors step)"
    by (fastforce simp: allowed_single_predecessors_def performatives_of_def list_all_iff
        split: node_ref.splits)
  moreover have "list_all plain types" if "first_all (predecessors step) = Some types" for types
    using names(2) [OF first_all_member [OF that]] by (simp add: performatives_of_def list_all_iff)
  ultimately show ?thesis using names(1) by blast
qed

lemma rewrite_root_None [simp]: "rewrite_root c None = c"
  by (simp add: rewrite_root_def split: option.split caused_by.split)

lemma step_verdict_decides:
  assumes "plain_protocol cp" "bt_get (steps cp) p = Some step"
  shows "decides (Some (step_verdict s cp t None rows step caused))
    (link_valid (\<lambda>h. predecessor_type s h t) step caused)
    (link_open (\<lambda>h. predecessor_type s h t) step caused)"
proof -
  let ?ty = "\<lambda>h. predecessor_type s h t"
  note nr = plain_no_repeat [OF assms(1)] and ps = plain_step [OF assms]
  consider "caused = None \<or> caused = Some Begin" | h where "caused = Some (Single h)"
    | hs where "caused = Some (Multiple hs)"
    by (metis caused_by.exhaust option.exhaust)
  then show ?thesis
  proof cases
    case 1
    then show ?thesis
      by (auto simp: step_verdict_def link_valid_def link_open_def wrong_def list_ex_iff Let_def)
  next
    case 2
    then show ?thesis
      using alternatives_plain [OF nr, of "allowed_single_predecessors step" s t rows h] ps
      by (simp add: step_verdict_def link_valid_def link_open_def)
  next
    case (3 hs)
    show ?thesis
    proof (cases "first_all (predecessors step)")
      case None
      then show ?thesis using 3 by (simp add: step_verdict_def link_valid_def link_open_def)
    next
      case (Some types)
      define X where "X = ?ty ` set hs"
      have v: "link_valid ?ty step caused \<longleftrightarrow> X = Some ` set types"
        and o: "link_open ?ty step caused \<longleftrightarrow> None \<in> X \<and> X \<subseteq> insert None (Some ` set types)"
        using 3 Some by (simp_all add: link_valid_def link_open_def X_def)
      have "list_all plain types" using ps Some by blast
      note fan = fan_hashes_plain [OF nr this, where s = s and t = t and rows = rows and hs = hs and
          found = "[]" and possible = "[]" and missing = False, folded X_def]
      show ?thesis
      proof (cases "fan_hashes s cp t rows types hs [] [] False")
        case (Inl e)
        then have "\<not> link_valid ?ty step caused" "\<not> link_open ?ty step caused" "\<exists>w. e = Violation w"
          unfolding v o using fan by auto
        then show ?thesis using 3 Some Inl by (auto simp: step_verdict_def)
      next
        case (Inr r)
        obtain found possible missing where r: "r = (found, possible, missing)" by (cases r)
        have sub: "X \<subseteq> insert None (Some ` set types)" and miss: "missing \<longleftrightarrow> None \<in> X"
          and found: "set found = set types \<inter> {n. Some n \<in> X}"
          and poss: "missing \<or> possible = []"
          using fan Inr r by auto
        have verdict: "step_verdict s cp t None rows step caused =
            (if missing then Unknown else if filter (\<lambda>n. n \<notin> set found) types = [] then Valid
             else Violation (IncompleteFanIn (filter (\<lambda>n. n \<notin> set found) types)))"
          using 3 Some Inr poss by (auto simp: step_verdict_def r Let_def list_ex_iff)
        show ?thesis
        proof (cases missing)
          case True
          then show ?thesis unfolding verdict v o using sub miss by auto
        next
          case False
          then have sub': "X \<subseteq> Some ` set types" using sub miss by blast
          have "set types \<subseteq> set found \<longleftrightarrow> Some ` set types \<subseteq> X"
            unfolding found image_subset_iff by blast
          then have "filter (\<lambda>n. n \<notin> set found) types = [] \<longleftrightarrow> X = Some ` set types"
            unfolding map_filter_empty by (rule iff_set_eq [OF _ sub'])
          then show ?thesis
            unfolding verdict v [symmetric] using False miss o
            by (cases "link_valid ?ty step caused") auto
        qed
      qed
    qed
  qed
qed

lemma resolution_verify_no_match:
  "list_all (\<lambda>(name, _). name = BEGIN_KEYWORD \<or> repeat_base_name name \<noteq> verb) ss \<Longrightarrow>
     resolution_verify s cp t root rows verb cause ss unknown error = (if unknown then Unknown else error)"
  by (induction ss) auto

lemma resolution_verify_skip:
  "list_all (\<lambda>(name, _). name = BEGIN_KEYWORD \<or> repeat_base_name name \<noteq> verb) ss \<Longrightarrow>
     resolution_verify s cp t root rows verb cause (ss @ ss') unknown error =
       resolution_verify s cp t root rows verb cause ss' unknown error"
  by (induction ss) auto

lemma resolution_verify_one:
  assumes "plain_protocol cp" "bt_sorted (steps cp)" "bt_get (steps cp) verb = Some step"
    "verb \<noteq> BEGIN_KEYWORD"
  shows "resolution_verify s cp t root rows verb cause (steps cp) False error =
    step_verdict s cp t root rows step cause"
proof -
  obtain xs ys where split: "steps cp = xs @ (verb, step) # ys"
    using split_list [OF map_of_SomeD [OF assms(3)]] by blast
  have "distinct (bt_keys (steps cp))" using assms(2) by (rule bt_sorted_distinct)
  then have "verb \<notin> fst ` set xs" "verb \<notin> fst ` set ys" by (simp_all add: split)
  moreover have "plain name" if "(name, st) \<in> set (steps cp)" for name st
    using assms(1) that by (auto simp: plain_protocol_def list_all_iff)
  ultimately have "list_all (\<lambda>(name, _). name = BEGIN_KEYWORD \<or> repeat_base_name name \<noteq> verb) xs"
      "list_all (\<lambda>(name, _). name = BEGIN_KEYWORD \<or> repeat_base_name name \<noteq> verb) ys"
    by (force simp: list_all_iff split repeat_base_plain)+
  moreover have "repeat_base_name verb = verb"
    using plain_step [OF assms(1,3)] repeat_base_plain by blast
  ultimately show ?thesis
    using assms(4) by (simp add: split resolution_verify_skip resolution_verify_no_match
        split: verification_result.split)
qed

lemma repeat_verify_agrees:
  assumes "plain_protocol cp" "bt_sorted (steps cp)" "verb \<noteq> BEGIN_KEYWORD"
  shows "\<exists>r. verify_causal verb caused s cp t = Some r \<and>
    partial_cmp (repeat_verify verb caused s cp t None) r = Some Equal"
proof (cases "bt_get (steps cp) verb")
  case None
  have "repeat_base_name name \<noteq> verb" if "name \<in> set (bt_keys (steps cp))" for name
  proof -
    have "plain name" using assms(1) that by (auto simp: plain_protocol_def list_all_iff)
    then show ?thesis using None that by (auto simp: repeat_base_plain map_of_eq_None_iff)
  qed
  then have "repeat_verify verb caused s cp t None = Valid"
    by (auto simp: repeat_verify_def list_ex_iff)
  then show ?thesis
    using None plain_no_repeat [OF assms(1)] by (simp add: verify_causal_def partial_cmp_def)
next
  case (Some step)
  let ?rows = "resolution_rows s cp t None (caused_refs caused)"
  have "verb \<in> set (bt_keys (steps cp))" using Some by (force dest: map_of_SomeD)
  moreover have "repeat_base_name verb = verb"
    using plain_step [OF assms(1) Some] repeat_base_plain by blast
  ultimately have "repeat_verify verb caused s cp t None = step_verdict s cp t None ?rows step caused"
    using resolution_verify_one [OF assms(1,2) Some assms(3)]
    by (auto simp: repeat_verify_def list_ex_iff)
  then have d: "decides (Some (repeat_verify verb caused s cp t None))
      (link_valid (\<lambda>h. predecessor_type s h t) step caused)
      (link_open (\<lambda>h. predecessor_type s h t) step caused)"
    using step_verdict_decides [OF assms(1) Some] by simp
  note d' = verify_causal_decides [OF plain_no_repeat [OF assms(1)] Some, of caused s t]
  obtain r where r: "verify_causal verb caused s cp t = Some r" using d' by (auto simp: decides_def)
  then show ?thesis
    using d d' by (cases r; cases "repeat_verify verb caused s cp t None") (auto simp: partial_cmp_def)
qed

section \<open>Growing stores\<close>

text \<open>Delivered messages agree with the shelved envelopes of the same hash and thread on the type.\<close>

definition agrees_with_shelves :: "threaded_store \<Rightarrow> (content_hash \<times> thread_id \<times> message) list \<Rightarrow> bool" where
  "agrees_with_shelves s xs = list_all (\<lambda>(h, t, m).
     let n = (case innermost_name m of Some n \<Rightarrow> n | None \<Rightarrow> '''')
     in (case envelope_in_thread s h t of Some e \<Rightarrow> h_performative (e_header e) = n | None \<Rightarrow> True) \<and>
        (case Option.bind (opened_in_thread s h t) opened_performative of Some p \<Rightarrow> p = n | None \<Rightarrow> True)) xs"

lemma shelves_append [simp]:
  "envelopes (fst (append h t m s)) = envelopes s" "opened (fst (append h t m s)) = opened s"
  by (cases "bt_contains_key (st_index s) h"; simp add: append_cases)+

lemma shelf_lookups_append [simp]:
  "envelope_in_thread (fst (append h t m s)) = envelope_in_thread s"
  "opened_in_thread (fst (append h t m s)) = opened_in_thread s"
  by (intro ext; simp add: envelope_in_thread_def opened_in_thread_def)+

lemma extends_append:
  assumes "wf_store s" "agrees_with_shelves s [(h, t', m)]"
  shows "extends s (fst (append h t' m s)) t"
  unfolding extends_def
proof (intro allI impI)
  fix h' p assume p: "predecessor_type s h' t = Some p"
  show "predecessor_type (fst (append h t' m s)) h' t = Some p"
  proof (cases "snd (append h t' m s) \<and> h' = h \<and> t = t'")
    case True
    then have "lookup_in_thread s h' t = None" using append_result [OF assms(1)] by simp
    then show ?thesis
      using p True assms(2) lookup_append [OF assms(1), of h t' m h' t]
      by (auto simp: predecessor_type_def agrees_with_shelves_def Let_def split: option.splits)
  next
    case False
    then have same: "lookup_in_thread (fst (append h t' m s)) h' t = lookup_in_thread s h' t"
      using lookup_append [OF assms(1), of h t' m h' t] by (simp only: if_False)
    show ?thesis using p unfolding predecessor_type_def same shelf_lookups_append .
  qed
qed

lemma extends_trans: "extends a b t \<Longrightarrow> extends b c t \<Longrightarrow> extends a c t"
  by (simp add: extends_def)

lemma extends_deliver:
  "wf_store s \<Longrightarrow> agrees_with_shelves s xs \<Longrightarrow> extends s (deliver s xs) t"
proof (induction xs arbitrary: s)
  case Nil
  then show ?case by (simp add: deliver_def extends_def)
next
  case (Cons x xs)
  obtain h t' m where x: "x = (h, t', m)" by (cases x)
  let ?s = "fst (append h t' m s)"
  have "agrees_with_shelves s [(h, t', m)]" "agrees_with_shelves ?s xs"
    using Cons.prems(2) by (simp_all add: x agrees_with_shelves_def)
  then have "extends s ?s t" "extends ?s (deliver ?s xs) t"
    using Cons extends_append wf_append by blast+
  then show ?case by (auto simp: x deliver_def intro: extends_trans)
qed

section \<open>Properties\<close>

text \<open>C5: the verifier's verdict on a declared step of a repeat-free protocol is exact: it never
  panics, it is \<open>Valid\<close> exactly when the reference justifies the step (for a fan-in: the cited
  messages carry exactly the types of the first \<open>all\<close> declaration), and \<open>Unknown\<close> exactly when no
  cited message has a wrong type and some cited message is missing.\<close>

theorem verify_causal_exact:
  assumes "\<not> has_repeat cp" "bt_get (steps cp) p = Some step"
  shows "verify_causal p caused s cp t \<noteq> None \<and>
    (verify_causal p caused s cp t = Some Valid \<longleftrightarrow> link_valid (\<lambda>h. predecessor_type s h t) step caused) \<and>
    (verify_causal p caused s cp t = Some Unknown \<longleftrightarrow> link_open (\<lambda>h. predecessor_type s h t) step caused)"
  using verify_causal_decides [OF assms] by (simp add: decides_def)

definition sample_protocol :: causal_protocol where
  "sample_protocol = \<lparr>steps = [
     (''begin'', \<lparr>step_performative = ''begin'', predecessors = [], successors = [NSingle ''tell'']\<rparr>),
     (''reply'', \<lparr>step_performative = ''reply'', predecessors = [NAll [''ask'', ''tell'']], successors = []\<rparr>),
     (''tell'', \<lparr>step_performative = ''tell'', predecessors = [NSingle ''begin''], successors = [NSingle ''reply'']\<rparr>)]\<rparr>"

theorem verify_causal_exact_witness:
  "verify_causal ''reply'' (Some (Multiple [''h1'', ''h9''])) (deliver new_store [(''h1'', ''t'', sample_tell)])
     sample_protocol ''t'' = Some Unknown"
proof -
  let ?s = "deliver new_store [(''h1'', ''t'', sample_tell)]"
  let ?step = "\<lparr>step_performative = ''reply'', predecessors = [NAll [''ask'', ''tell'']], successors = []\<rparr>"
  have "\<not> has_repeat sample_protocol" "bt_get (steps sample_protocol) ''reply'' = Some ?step"
    by (simp_all add: sample_protocol_def has_repeat_def REPEAT_SEPARATOR_def)
  moreover have "predecessor_type ?s ''h1'' ''t'' = Some ''tell''" "predecessor_type ?s ''h9'' ''t'' = None"
    by code_simp+
  ultimately show ?thesis
    using verify_causal_exact [of sample_protocol "''reply''" ?step "Some (Multiple [''h1'', ''h9''])" ?s "''t''"]
    by (simp add: link_open_def)
qed

text \<open>The resolver of repeat copies is conservative: on a protocol that declares no copies it
  reaches the same verdict as the verifier's own route, diagnostics aside.\<close>

lemma repeat_verify_conservative:
  assumes "plain_protocol cp" "bt_sorted (steps cp)" "verb \<noteq> BEGIN_KEYWORD"
  shows "\<exists>r. verify_causal verb caused s cp t = Some r \<and>
    partial_cmp (repeat_verify verb caused s cp t None) r = Some Equal"
  using repeat_verify_agrees [OF assms] .

lemma repeat_verify_conservative_witness:
  "\<exists>r. verify_causal ''tell'' (Some Begin) new_store sample_protocol ''t'' = Some r \<and>
     partial_cmp (repeat_verify ''tell'' (Some Begin) new_store sample_protocol ''t'' None) r = Some Equal"
proof (rule repeat_verify_conservative)
  show "plain_protocol sample_protocol" "bt_sorted (steps sample_protocol)" "''tell'' \<noteq> BEGIN_KEYWORD"
    by code_simp+
qed

end
