(* ===== verification/Cbcl_Bundle.thy ===== *)
theory Cbcl_Bundle
  imports Cbcl_Causal "HOL-Library.Multiset"
begin

text \<open>
  The causal closure bundles of \<open>cbcl-core/src/store.rs\<close>: extraction of the principal ideal of a
  message in topological order, the verification tiers of a bundle, merging it into a store and its
  S-expression form. The queue of the topological sort is not always partitioned when
  \<open>partition_point\<close> is called on it, and the position the library returns then is unspecified: it is
  the parameter \<open>pp\<close>, a function of the predicate and the queue. \<open>None\<close> as the result of the
  extraction is a panic (an arithmetic underflow or an index out of range).
\<close>

section \<open>Data\<close>


datatype bundle_verification_error =
    HashMismatch content_hash content_hash content_hash
  | DanglingReference string
  | BundleCausalViolation causal_violation

record merge_result =
  mr_added :: nat
  mr_deduplicated :: nat

record causal_closure_bundle =
  b_target :: content_hash
  b_thread :: thread_id
  b_messages :: "(content_hash \<times> message) list"

section \<open>Extraction\<close>










definition insert_at :: "nat \<Rightarrow> 'a \<Rightarrow> 'a list \<Rightarrow> 'a list" where
  "insert_at i x xs = take i xs @ [x] @ drop i xs"


lemma length_insert_at [simp]: "length (insert_at i x xs) = Suc (length xs)"
  by (simp add: insert_at_def)

lemma mset_insert_at: "mset (insert_at i x xs) = mset (x # xs)"
proof -
  have "mset (take i xs) + mset (drop i xs) = mset xs" by (metis append_take_drop_id mset_append)
  then show ?thesis by (simp add: insert_at_def)
qed

lemma set_insert_at [simp]: "set (insert_at i x xs) = insert x (set xs)"
  using mset_eq_setD [OF mset_insert_at] by fastforce

lemma distinct_insert_at [simp]: "distinct (insert_at i x xs) \<longleftrightarrow> x \<notin> set xs \<and> distinct xs"
  using mset_eq_imp_distinct_iff [OF mset_insert_at] by fastforce








section \<open>Verification, merging and printing\<close>

definition verify_completeness ::
  "causal_closure_bundle \<Rightarrow> (bundle_verification_error list, unit) result" where
  "verify_completeness b =
     (let known = map fst (b_messages b);
          errors = concat (map (\<lambda>(_, m). map DanglingReference
            (filter (\<lambda>r. r \<notin> set known) (caused_refs (caused_by_of m)))) (b_messages b))
      in if errors = [] then Inr () else Inl errors)"

definition verify_hashes ::
  "causal_closure_bundle \<Rightarrow> (message \<Rightarrow> content_hash) \<Rightarrow> (bundle_verification_error list, unit) result" where
  "verify_hashes b hasher =
     (let errors = List.map_filter (\<lambda>(expected, m).
            if hasher m \<noteq> expected then Some (HashMismatch expected expected (hasher m)) else None)
            (b_messages b)
      in if errors = [] then Inr () else Inl errors)"

fun bundle_causal_errors ::
  "threaded_store \<Rightarrow> causal_protocol \<Rightarrow> thread_id \<Rightarrow> (content_hash \<times> message) list \<Rightarrow>
    bundle_verification_error list option" where
  "bundle_causal_errors temp cp thread [] = Some []"
| "bundle_causal_errors temp cp thread ((_, m) # ms) =
     (let perf_name = (case performative_of m of Some p \<Rightarrow> performative_name p | None \<Rightarrow> '''')
      in case verify_causal perf_name (caused_by_of m) temp cp thread of
           None \<Rightarrow> None
         | Some r \<Rightarrow> map_option (\<lambda>errors. (case r of
               Violation v \<Rightarrow> [BundleCausalViolation v] | _ \<Rightarrow> []) @ errors)
               (bundle_causal_errors temp cp thread ms))"

definition bundle_verify_causal ::
  "causal_closure_bundle \<Rightarrow> causal_protocol \<Rightarrow> (bundle_verification_error list, unit) result option" where
  "bundle_verify_causal b cp =
     (let temp = foldl (\<lambda>s (h, m). fst (append h (b_thread b) m s)) new_store (b_messages b)
      in map_option (\<lambda>errors. if errors = [] then Inr () else Inl errors)
           (bundle_causal_errors temp cp (b_thread b) (b_messages b)))"

definition errors_of :: "(bundle_verification_error list, unit) result \<Rightarrow> bundle_verification_error list" where
  "errors_of r = (case r of Inl es \<Rightarrow> es | Inr _ \<Rightarrow> [])"

definition verify_full ::
  "causal_closure_bundle \<Rightarrow> (message \<Rightarrow> content_hash) \<Rightarrow> causal_protocol \<Rightarrow>
    (bundle_verification_error list, unit) result option" where
  "verify_full b hasher cp =
     map_option (\<lambda>causal.
         let all_errors = errors_of (verify_completeness b) @ errors_of (verify_hashes b hasher) @ errors_of causal
         in if all_errors = [] then Inr () else Inl all_errors)
       (bundle_verify_causal b cp)"

definition merge_step ::
  "thread_id \<Rightarrow> threaded_store \<times> merge_result \<Rightarrow> content_hash \<times> message \<Rightarrow> threaded_store \<times> merge_result" where
  "merge_step thread = (\<lambda>(s, r) (h, m).
     case append h thread m s of
       (s', True) \<Rightarrow> (s', r\<lparr>mr_added := mr_added r + 1\<rparr>)
     | (s', False) \<Rightarrow> (s', r\<lparr>mr_deduplicated := mr_deduplicated r + 1\<rparr>))"

definition merge_bundle :: "causal_closure_bundle \<Rightarrow> threaded_store \<Rightarrow> threaded_store \<times> merge_result" where
  "merge_bundle b s =
     foldl (merge_step (b_thread b)) (s, \<lparr>mr_added = 0, mr_deduplicated = 0\<rparr>) (b_messages b)"

definition bundle_to_sexpr :: "causal_closure_bundle \<Rightarrow> sexpr" where
  "bundle_to_sexpr b = List [Sym ''meta'', List
     [Sym ''causal-closure'', Kw ''target'', Atom (Str (b_target b)), Kw ''thread'',
      Atom (Str (b_thread b)), Kw ''messages'',
      List (map (\<lambda>(_, m). sexpr_of_message m) (b_messages b))]]"

section \<open>The walk\<close>

definition stored_pairs :: "threaded_store \<Rightarrow> thread_id \<Rightarrow> content_hash list \<Rightarrow> (content_hash \<times> message) list" where
  "stored_pairs s t hs = List.map_filter (\<lambda>h. map_option (Pair h) (lookup_in_thread s h t)) hs"

lemma stored_pairs_Nil [simp]: "stored_pairs s t [] = []"
  by (simp add: stored_pairs_def map_filter_simps)

lemma stored_pairs_append [simp]: "stored_pairs s t (xs @ ys) = stored_pairs s t xs @ stored_pairs s t ys"
  by (simp add: stored_pairs_def List.map_filter_def)

lemma stored_pairs_single [simp]:
  "stored_pairs s t [h] = (case lookup_in_thread s h t of Some m \<Rightarrow> [(h, m)] | None \<Rightarrow> [])"
  by (simp add: stored_pairs_def map_filter_simps split: option.split)






section \<open>Kahn's algorithm\<close>






section \<open>The citation edges\<close>








section \<open>The extracted bundle\<close>



text \<open>Messages in an order where every reference is to an earlier message.\<close>

definition predecessors_first :: "(content_hash \<times> message) list \<Rightarrow> bool" where
  "predecessors_first ms \<longleftrightarrow> (\<forall>k < length ms.
     set (caused_refs (caused_by_of (snd (ms ! k)))) \<subseteq> set (map fst (take k ms)))"





lemma predecessors_first_complete:
  assumes "predecessors_first (b_messages b)"
  shows "verify_completeness b = Inr ()"
proof -
  have none: "filter (\<lambda>r. r \<notin> set (map fst (b_messages b))) (caused_refs (caused_by_of (snd x))) = []"
    if x: "x \<in> set (b_messages b)" for x
  proof -
    obtain k where k: "k < length (b_messages b)" "b_messages b ! k = x"
      using x unfolding in_set_conv_nth by blast
    then have "set (caused_refs (caused_by_of (snd x))) \<subseteq> set (map fst (take k (b_messages b)))"
      using assms unfolding predecessors_first_def by blast
    also have "\<dots> \<subseteq> set (map fst (b_messages b))" by (auto dest: in_set_takeD)
    finally show ?thesis by (auto simp: filter_empty_conv)
  qed
  have "concat (map (\<lambda>(_, m). map DanglingReference (filter (\<lambda>r. r \<notin> set (map fst (b_messages b)))
      (caused_refs (caused_by_of m)))) (b_messages b)) = []"
    using none by fastforce
  then show ?thesis unfolding verify_completeness_def Let_def by simp
qed

section \<open>Merging\<close>

definition bundle_entries :: "causal_closure_bundle \<Rightarrow> (content_hash \<times> thread_id \<times> message) list" where
  "bundle_entries b = map (\<lambda>(h, m). (h, b_thread b, m)) (b_messages b)"

lemma merge_fold:
  assumes "foldl (merge_step t) (s, r) ms = (s', r')"
  shows "s' = deliver s (map (\<lambda>(h, m). (h, t, m)) ms) \<and>
    mr_added r' + mr_deduplicated r' = mr_added r + mr_deduplicated r + length ms"
  using assms
proof (induction ms arbitrary: s r)
  case (Cons x ms)
  obtain h m where x: "x = (h, m)" by (cases x)
  obtain s1 r1 where step: "merge_step t (s, r) x = (s1, r1)" by (cases "merge_step t (s, r) x")
  then have "s1 = fst (append h t m s)" "mr_added r1 + mr_deduplicated r1 = Suc (mr_added r + mr_deduplicated r)"
    by (auto simp: merge_step_def x split: prod.splits bool.splits)
  then show ?case using Cons.IH [of s1 r1] Cons.prems by (simp add: step [unfolded x] x deliver_def)
qed (simp add: deliver_def)

lemma merge_known:
  assumes "wf_store s" "\<And>x. x \<in> set ms \<Longrightarrow> \<exists>t'. lookup_in_thread s (fst x) t' \<noteq> None"
  shows "mr_added (snd (foldl (merge_step t) (s, r) ms)) = mr_added r"
  using assms
proof (induction ms arbitrary: s r)
  case (Cons x ms)
  obtain h m where x: "x = (h, m)" by (cases x)
  have "\<exists>t'. lookup_in_thread s h t' \<noteq> None" using Cons.prems(2) [of x] x by simp
  then have dup: "\<not> snd (append h t m s)" using append_result [OF Cons.prems(1)] by auto
  let ?s = "fst (append h t m s)"
  have step: "merge_step t (s, r) x = (?s, r\<lparr>mr_deduplicated := mr_deduplicated r + 1\<rparr>)"
    using dup by (auto simp: merge_step_def x split: prod.splits bool.splits)
  have "lookup_in_thread ?s = lookup_in_thread s" using lookup_append [OF Cons.prems(1)] dup by (intro ext) simp
  then have "\<And>x. x \<in> set ms \<Longrightarrow> \<exists>t'. lookup_in_thread ?s (fst x) t' \<noteq> None"
    using Cons.prems(2) by (metis list.set_intros(2))
  then show ?case using Cons.IH [OF wf_append [OF Cons.prems(1)]] by (simp add: step)
qed simp

lemma deliver_present:
  assumes "wf_store s" "(h, t, m) \<in> set xs"
  shows "\<exists>t'. lookup_in_thread (deliver s xs) h t' \<noteq> None"
  using assms
proof (induction xs arbitrary: s)
  case (Cons x xs)
  obtain h0 t0 m0 where x: "x = (h0, t0, m0)" by (cases x)
  let ?s = "fst (append h0 t0 m0 s)"
  have wf: "wf_store ?s" using Cons.prems(1) by (rule wf_append)
  show ?case
  proof (cases "(h, t, m) = x")
    case True
    have "\<exists>t'. lookup_in_thread ?s h t' \<noteq> None"
    proof (cases "snd (append h0 t0 m0 s)")
      case fresh: True
      then show ?thesis using lookup_append [OF Cons.prems(1), of h0 t0 m0 h0 t0] True x by auto
    next
      case False
      then show ?thesis
        using append_result [OF Cons.prems(1)] threaded.app_persists [OF Cons.prems(1)] True x by fastforce
    qed
    then show ?thesis
      using threaded.lookup_persists [OF wf] by (fastforce simp: x deliver_def)
  next
    case False
    then have "(h, t, m) \<in> set xs" using Cons.prems(2) by simp
    from Cons.IH [OF wf this] show ?thesis by (simp add: x deliver_def)
  qed
qed simp

lemma verify_causal_undeclared:
  "\<not> has_repeat cp \<Longrightarrow> bt_get (steps cp) p = None \<Longrightarrow> verify_causal p caused s cp t = Some Valid"
  by (simp add: verify_causal_def)

lemma bundle_errors_undeclared:
  assumes "\<not> has_repeat cp" "bt_get (steps cp) [] = None"
    "list_all (\<lambda>(_, m). performative_of m = None) ms"
  shows "bundle_causal_errors temp cp t ms = Some []"
  using assms(3) by (induction ms) (auto simp: verify_causal_undeclared [OF assms(1,2)])

section \<open>Properties\<close>



text \<open>A bundle whose messages come after the messages they cite, as extraction produces them,
  passes the completeness tier of verification; and merging any bundle into a reachable store counts
  every message once as added or deduplicated, delivers exactly its messages, and merging it again
  adds nothing.\<close>

lemma merge_bundle_spec:
  assumes "store_reachable sha256 s" "predecessors_first (b_messages b)" "merge_bundle b s = (s', r)"
  shows "verify_completeness b = Inr () \<and> s' = deliver s (bundle_entries b) \<and>
    mr_added r + mr_deduplicated r = length (b_messages b) \<and> mr_added (snd (merge_bundle b s')) = 0"
proof -
  have merged: "s' = deliver s (bundle_entries b)"
      "mr_added r + mr_deduplicated r = length (b_messages b)"
    using merge_fold [OF assms(3) [unfolded merge_bundle_def]] by (simp_all add: bundle_entries_def)
  have wf: "wf_store s" "wf_store s'"
    using reachable_wf [OF assms(1)] threaded.inv_deliver [of s] by (simp_all add: merged deliver_def)
  have known: "\<exists>t'. lookup_in_thread s' (fst x) t' \<noteq> None" if "x \<in> set (b_messages b)" for x
  proof -
    have "(fst x, b_thread b, snd x) \<in> set (bundle_entries b)" using that by (force simp: bundle_entries_def)
    from deliver_present [OF wf(1) this] show ?thesis unfolding merged(1) .
  qed
  show ?thesis
    using merged merge_known [OF wf(2) known, of "b_messages b" "b_thread b"]
      predecessors_first_complete [OF assms(2)]
    by (simp add: merge_bundle_def)
qed

definition sample_bundle :: causal_closure_bundle where
  "sample_bundle = \<lparr>b_target = ''h2'', b_thread = ''t'',
     b_messages = [(''h1'', sample_tell), (''h2'', sample_reply)]\<rparr>"

lemma merge_bundle_spec_witness:
  "mr_added (snd (merge_bundle sample_bundle new_store)) +
     mr_deduplicated (snd (merge_bundle sample_bundle new_store)) = 2"
proof -
  obtain s' r where run: "merge_bundle sample_bundle new_store = (s', r)"
    by (cases "merge_bundle sample_bundle new_store")
  have "predecessors_first (b_messages sample_bundle)"
    by (auto simp: predecessors_first_def sample_bundle_def less_Suc_eq sample_tell_def sample_reply_def
        caused_by_of_def caused_refs_def)
  from merge_bundle_spec [OF _ this run, of head32] show ?thesis
    by (simp add: run) (simp add: sample_bundle_def)
qed

text \<open>The causal tier of bundle verification looks only at bare messages: a bundle of wrapped
  messages passes it under every repeat-free protocol whose steps are named, whatever the wrapped
  messages cite, although the verifier types predecessors through wrappers.\<close>

lemma bundle_verify_causal_skips_wrapped:
  assumes "\<not> has_repeat cp" "bt_get (steps cp) [] = None"
    "list_all (\<lambda>(_, m). performative_of m = None) (b_messages b)"
  shows "bundle_verify_causal b cp = Some (Inr ())"
  using bundle_errors_undeclared [OF assms] by (simp add: bundle_verify_causal_def Let_def)

lemma bundle_verify_causal_skips_wrapped_witness:
  "bundle_verify_causal \<lparr>b_target = ''h2'', b_thread = ''t'',
     b_messages = [(''h2'', Wrapped Signed [] sample_reply)]\<rparr> sample_protocol = Some (Inr ())"
proof -
  have "\<not> has_repeat sample_protocol" "bt_get (steps sample_protocol) [] = None"
    by (simp_all add: sample_protocol_def has_repeat_def REPEAT_SEPARATOR_def)
  then show ?thesis
    using bundle_verify_causal_skips_wrapped [of sample_protocol "\<lparr>b_target = ''h2'', b_thread = ''t'',
       b_messages = [(''h2'', Wrapped Signed [] sample_reply)]\<rparr>"]
    by (simp add: performative_of_def)
qed

end
