(* ===== verification/Cbcl_Role.thy ===== *)
theory Cbcl_Role
  imports Cbcl_Protocol Cbcl_Address
begin

text \<open>
  The role layer of \<open>cbcl-core/src/role.rs\<close>: role declarations, \<open>:from\<close>/\<open>:to\<close> annotations, casts and
  their strict recognisers. The recogniser of a cast is shown to accept exactly the lists of bindings
  that assign every declared role once, with the keys its cardinality admits.
\<close>

section \<open>Data\<close>

datatype role_cardinality = Singleton | Indexed

record role_decl =
  role_name :: string
  cardinality :: role_cardinality

record role_annotation =
  ann_from :: string
  ann_to :: "string btset"

type_synonym agent_key = string

record cast =
  c_singleton :: "(string, agent_key) btmap"
  c_indexed :: "(string, agent_key btset) btmap"
  dialect_pin :: "string option"

definition cast_admits :: "cast \<Rightarrow> string \<Rightarrow> agent_key \<Rightarrow> bool" where
  "cast_admits c role key = (case bt_get (c_singleton c) role of
       Some k \<Rightarrow> k = key
     | None \<Rightarrow> (case bt_get (c_indexed c) role of None \<Rightarrow> False | Some ks \<Rightarrow> key \<in> set ks))"

record endpoint =
  ep_role :: string
  ep_occupant :: "agent_key option"

type_synonym envelope_routes = "(string, string btset) btmap"

definition routes_to :: "envelope_routes \<Rightarrow> string \<Rightarrow> string \<Rightarrow> bool" where
  "routes_to routes p role = (case bt_get routes p of None \<Rightarrow> False | Some s \<Rightarrow> role \<in> set s)"

datatype causal_locality = Reject | Derive envelope_routes

type_synonym occupant_envelope_routes = "(string, agent_key btset) btmap"

datatype r6_violation =
    MissingFromTo string
  | UndeclaredRole string string
  | StrayAnnotation string
  | ChooserIncoherent "string list"
  | NotCausallyLocal string string string
  | UnreachableRole string
  | MalformedRoles string
  | MalformedFromTo string string
  | MalformedCast string
  | UnknownRole string
  | ArityMismatch string nat
  | PerOccupantLocalityFailure string string
  | DialectPinMismatch string string

section \<open>Recognisers\<close>

definition role_form_detail :: "sexpr \<Rightarrow> string" where
  "role_form_detail item =
     ''role declaration must be a symbol or (* name), got '' @ display_sexpr item"

definition role_decl_of :: "sexpr \<Rightarrow> (r6_violation, role_decl) result" where
  "role_decl_of item = (case item of
       Atom (Symbol name) \<Rightarrow> Inr \<lparr>role_name = name, cardinality = Singleton\<rparr>
     | List [Atom (Symbol star), Atom (Symbol name)] \<Rightarrow>
         if star = ''*'' then Inr \<lparr>role_name = name, cardinality = Indexed\<rparr>
         else Inl (MalformedRoles (role_form_detail item))
     | _ \<Rightarrow> Inl (MalformedRoles (role_form_detail item)))"

fun parse_roles_loop :: "sexpr list \<Rightarrow> role_decl list \<Rightarrow> (r6_violation, role_decl list) result" where
  "parse_roles_loop [] decls = Inr decls"
| "parse_roles_loop (item # items) decls = bind_result (role_decl_of item) (\<lambda>decl.
     if role_name decl \<in> set (map role_name decls)
     then Inl (MalformedRoles (''duplicate role name '' @ quoted (role_name decl)))
     else parse_roles_loop items (decls @ [decl]))"

definition parse_roles :: "sexpr \<Rightarrow> (r6_violation, role_decl list) result" where
  "parse_roles v = (case v of
       List items \<Rightarrow> if items = [] then Inl (MalformedRoles ''empty :roles ()'')
         else parse_roles_loop items []
     | Atom _ \<Rightarrow> Inl (MalformedRoles '':roles value is not a list''))"

definition parse_from :: "string \<Rightarrow> sexpr \<Rightarrow> (r6_violation, string) result" where
  "parse_from p v = (case v of
       Atom (Symbol role) \<Rightarrow> Inr role
     | _ \<Rightarrow> Inl (MalformedFromTo p ('':from must be exactly one role symbol, got '' @ display_sexpr v)))"

fun recipient_loop :: "string \<Rightarrow> sexpr list \<Rightarrow> string btset \<Rightarrow> (r6_violation, string btset) result" where
  "recipient_loop p [] s = Inr s"
| "recipient_loop p (item # items) s = (case item of
       Atom (Symbol role) \<Rightarrow>
         if role \<in> set s then Inl (MalformedFromTo p (''duplicate :to member '' @ quoted role))
         else recipient_loop p items (bs_insert role s)
     | _ \<Rightarrow> Inl (MalformedFromTo p ('':to members must be role symbols, got '' @ display_sexpr item)))"

definition parse_recipient_set :: "string \<Rightarrow> sexpr \<Rightarrow> (r6_violation, string btset) result" where
  "parse_recipient_set p v = (case v of
       Atom (Symbol role) \<Rightarrow> Inr [role]
     | List items \<Rightarrow> recipient_loop p items []
     | _ \<Rightarrow> Inl (MalformedFromTo p ('':to must be a role symbol or a list, got '' @ display_sexpr v)))"

fun key_loop :: "string \<Rightarrow> sexpr list \<Rightarrow> agent_key btset \<Rightarrow> (r6_violation, agent_key btset) result" where
  "key_loop role [] s = Inr s"
| "key_loop role (key # keys) s = (case key of
       Atom (Symbol k) \<Rightarrow>
         if k \<in> set s
         then Inl (MalformedCast (''duplicate key '' @ quoted k @ '' for role '' @ quoted role))
         else key_loop role keys (bs_insert k s)
     | _ \<Rightarrow> Inl (MalformedCast (''key must be a symbol, got '' @ display_sexpr key)))"

definition find_role :: "role_decl list \<Rightarrow> string \<Rightarrow> role_decl option" where
  "find_role roles name = find (\<lambda>d. role_name d = name) roles"

definition bound_in :: "cast \<Rightarrow> string \<Rightarrow> bool" where
  "bound_in c name \<longleftrightarrow>
     bt_contains_key (c_singleton c) name \<or> bt_contains_key (c_indexed c) name"

definition bind_role ::
  "role_decl \<Rightarrow> agent_key btset \<Rightarrow> cast \<Rightarrow> (r6_violation, cast) result" where
  "bind_role decl keys c = (case cardinality decl of
       Singleton \<Rightarrow>
         if length keys \<noteq> 1 then Inl (ArityMismatch (role_name decl) (length keys))
         else Inr (c\<lparr>c_singleton := bt_insert (role_name decl) (hd keys) (c_singleton c)\<rparr>)
     | Indexed \<Rightarrow>
         if keys = []
         then Inl (MalformedCast (''indexed role '' @ quoted (role_name decl) @ '' bound to no keys''))
         else Inr (c\<lparr>c_indexed := bt_insert (role_name decl) keys (c_indexed c)\<rparr>))"

definition cast_binding ::
  "role_decl list \<Rightarrow> sexpr \<Rightarrow> cast \<Rightarrow> (r6_violation, cast) result" where
  "cast_binding roles item c = (case item of
       List (Atom (Symbol role) # keys) \<Rightarrow> (case find_role roles role of
           None \<Rightarrow> Inl (UnknownRole role)
         | Some decl \<Rightarrow>
             if bound_in c role
             then Inl (MalformedCast (''duplicate binding for role '' @ quoted role))
             else bind_result (key_loop role keys []) (\<lambda>s. bind_role decl s c))
     | List _ \<Rightarrow> Inl (MalformedCast
         (''binding must start with a role symbol, got '' @ display_sexpr item))
     | Atom _ \<Rightarrow> Inl (MalformedCast
         (''binding must be a (role key+) list, got '' @ display_sexpr item)))"

fun cast_loop :: "role_decl list \<Rightarrow> sexpr list \<Rightarrow> cast \<Rightarrow> (r6_violation, cast) result" where
  "cast_loop roles [] c = Inr c"
| "cast_loop roles (item # items) c =
     bind_result (cast_binding roles item c) (cast_loop roles items)"

definition empty_cast :: cast where
  "empty_cast = \<lparr>c_singleton = [], c_indexed = [], dialect_pin = None\<rparr>"

definition parse_cast :: "sexpr \<Rightarrow> role_decl list \<Rightarrow> (r6_violation, cast) result" where
  "parse_cast bindings roles = (case bindings of
       Atom _ \<Rightarrow> Inl (MalformedCast ''bindings must be a list of (role key+) forms'')
     | List items \<Rightarrow> bind_result (cast_loop roles items empty_cast) (\<lambda>c.
         case find (\<lambda>decl. \<not> bound_in c (role_name decl)) roles of
           Some decl \<Rightarrow> Inl (MalformedCast
             (''declared role '' @ quoted (role_name decl) @ '' is not bound by the cast''))
         | None \<Rightarrow> Inr c))"

definition PIN_HEX_LEN :: nat where "PIN_HEX_LEN = 64"

definition parse_dialect_pin :: "sexpr \<Rightarrow> (r6_violation, string) result" where
  "parse_dialect_pin v = (case v of
       Atom (Symbol pin) \<Rightarrow> (case strip_prefix ''sha256:'' pin of
           None \<Rightarrow> Inl (MalformedCast
             ('':dialect value must start with '' @ quoted ''sha256:'' @ '', got '' @ quoted pin))
         | Some hex \<Rightarrow>
             if length hex \<noteq> PIN_HEX_LEN \<or> \<not> list_all lower_hex hex
             then Inl (MalformedCast ('':dialect digest must be exactly '' @ show_nat PIN_HEX_LEN @
               '' lowercase hex characters, got '' @ quoted hex))
             else Inr pin)
     | _ \<Rightarrow> Inl (MalformedCast
         ('':dialect value must be a sha256:<hex64> symbol, got '' @ display_sexpr v)))"

definition wrapper_cast_detail :: string where
  "wrapper_cast_detail = ''with-roles wrapper must carry exactly one bindings list, '' @
     ''optionally followed by :dialect sha256:<hex64> (CON-601, REQ-628)''"

definition parse_wrapper_cast ::
  "sexpr list \<Rightarrow> role_decl list \<Rightarrow> (r6_violation, cast) result" where
  "parse_wrapper_cast params roles = (case params of
       [bindings] \<Rightarrow> parse_cast bindings roles
     | [bindings, Atom (Keyword k), value] \<Rightarrow>
         if k = ''dialect''
         then bind_result (parse_dialect_pin value) (\<lambda>pin.
           bind_result (parse_cast bindings roles) (\<lambda>c. Inr (c\<lparr>dialect_pin := Some pin\<rparr>)))
         else Inl (MalformedCast wrapper_cast_detail)
     | _ \<Rightarrow> Inl (MalformedCast wrapper_cast_detail))"

section \<open>What a cast assigns\<close>

text \<open>
  A list of bindings assigns the declared roles when it binds every declared role exactly once and
  no other, each to distinct keys: one for a singleton role, at least one for an indexed role.
\<close>

definition binding_sexpr :: "string \<times> agent_key list \<Rightarrow> sexpr" where
  "binding_sexpr b = List (Sym (fst b) # map Sym (snd b))"

definition arity_ok :: "role_decl list \<Rightarrow> string \<times> agent_key list \<Rightarrow> bool" where
  "arity_ok roles b \<longleftrightarrow> distinct (snd b) \<and> (case find_role roles (fst b) of
       None \<Rightarrow> False
     | Some d \<Rightarrow> (case cardinality d of Singleton \<Rightarrow> length (snd b) = 1 | Indexed \<Rightarrow> snd b \<noteq> []))"

definition assigns :: "role_decl list \<Rightarrow> (string \<times> agent_key list) list \<Rightarrow> bool" where
  "assigns roles bs \<longleftrightarrow> distinct (map fst bs) \<and> fst ` set bs = role_name ` set roles \<and>
     list_all (arity_ok roles) bs"

definition singleton_role :: "role_decl list \<Rightarrow> string \<Rightarrow> bool" where
  "singleton_role roles r \<longleftrightarrow> map_option cardinality (find_role roles r) = Some Singleton"

definition cast_step :: "role_decl list \<Rightarrow> cast \<Rightarrow> string \<times> agent_key list \<Rightarrow> cast" where
  "cast_step roles c b =
     (if singleton_role roles (fst b)
      then c\<lparr>c_singleton := bt_insert (fst b) (hd (snd b)) (c_singleton c)\<rparr>
      else c\<lparr>c_indexed := bt_insert (fst b) (bs_of_list (snd b)) (c_indexed c)\<rparr>)"

definition cast_of :: "role_decl list \<Rightarrow> (string \<times> agent_key list) list \<Rightarrow> cast" where
  "cast_of roles bs = foldl (cast_step roles) empty_cast bs"

lemma ex_Cons_eq_map:
  "(\<exists>ys. x # xs = map f ys \<and> P ys) \<longleftrightarrow> (\<exists>y ys. x = f y \<and> xs = map f ys \<and> P (y # ys))"
  by (metis list.inj_map_strong list.simps(9) Cons_eq_map_conv)

lemma key_loop_exact:
  "key_loop role keys s = Inr s' \<longleftrightarrow>
     (\<exists>ks. keys = map Sym ks \<and> distinct ks \<and> set ks \<inter> set s = {} \<and>
        s' = foldl (\<lambda>s k. bs_insert k s) s ks)"
proof (induction role keys s rule: key_loop.induct)
  case (1 role s)
  then show ?case by auto
next
  case (2 role key keys s)
  show ?case
  proof (cases "\<exists>k. key = Sym k \<and> k \<notin> set s")
    case True
    then obtain k where k: "key = Sym k" "k \<notin> set s" by blast
    have "key_loop role (key # keys) s = key_loop role keys (bs_insert k s)" using k by simp
    also have "\<dots> = Inr s' \<longleftrightarrow> (\<exists>ks. keys = map Sym ks \<and> distinct ks \<and>
        set ks \<inter> set (bs_insert k s) = {} \<and> s' = foldl (\<lambda>s k. bs_insert k s) (bs_insert k s) ks)"
      using 2 k by simp
    finally show ?thesis using k by (auto simp: ex_Cons_eq_map)
  next
    case False
    then have "\<exists>e. key_loop role (key # keys) s = Inl e"
      by (auto split: sexpr.split atom.split)
    then show ?thesis using False by (auto simp: ex_Cons_eq_map)
  qed
qed

lemma key_loop_start:
  "key_loop role keys [] = Inr s \<longleftrightarrow> (\<exists>ks. keys = map Sym ks \<and> distinct ks \<and> s = bs_of_list ks)"
  by (auto simp: key_loop_exact bs_of_list_def)

lemma length_bs_of_list_distinct: "distinct ks \<Longrightarrow> length (bs_of_list ks) = length ks"
  by (metis bs_sorted_distinct bs_sorted_of_list distinct_card set_bs_of_list)

lemma bound_in_cast_step: "bound_in (cast_step roles c b) name \<longleftrightarrow> name = fst b \<or> bound_in c name"
  by (auto simp: cast_step_def bound_in_def bt_contains_key_iff)

lemma bound_in_foldl:
  "bound_in (foldl (cast_step roles) c bs) name \<longleftrightarrow> name \<in> fst ` set bs \<or> bound_in c name"
  by (induction bs arbitrary: c) (auto simp: bound_in_cast_step)

lemma bind_role_exact:
  assumes "find_role roles role = Some decl" "distinct ks"
  shows "bind_role decl (bs_of_list ks) c = Inr c' \<longleftrightarrow>
    arity_ok roles (role, ks) \<and> c' = cast_step roles c (role, ks)"
proof -
  have name: "role_name decl = role" using assms(1) by (auto simp: find_role_def find_Some_iff)
  have "bs_of_list ks = [] \<longleftrightarrow> ks = []" by (metis set_bs_of_list set_empty)
  moreover have "hd (bs_of_list ks) = hd ks" if "length ks = 1"
    using that by (auto simp: length_Suc_conv bs_of_list_def)
  ultimately show ?thesis using assms name
    by (auto simp: bind_role_def arity_ok_def cast_step_def singleton_role_def length_bs_of_list_distinct
        split: role_cardinality.split)
qed

lemma cast_binding_exact:
  "cast_binding roles item c = Inr c' \<longleftrightarrow>
     (\<exists>b. item = binding_sexpr b \<and> \<not> bound_in c (fst b) \<and> arity_ok roles b \<and>
        c' = cast_step roles c b)"
proof (cases "\<exists>role keys. item = List (Sym role # keys)")
  case True
  then obtain role keys where item: "item = List (Sym role # keys)" by blast
  show ?thesis
  proof (cases "find_role roles role")
    case None
    then show ?thesis using item by (auto simp: cast_binding_def binding_sexpr_def arity_ok_def)
  next
    case (Some decl)
    have "cast_binding roles item c = Inr c' \<longleftrightarrow> \<not> bound_in c role \<and>
        (\<exists>ks. keys = map Sym ks \<and> distinct ks \<and> bind_role decl (bs_of_list ks) c = Inr c')"
      using item Some by (auto simp: cast_binding_def result_simps key_loop_start)
    also have "\<dots> \<longleftrightarrow> \<not> bound_in c role \<and> (\<exists>ks. keys = map Sym ks \<and>
        arity_ok roles (role, ks) \<and> c' = cast_step roles c (role, ks))"
      using bind_role_exact [OF Some] by (auto simp: arity_ok_def)
    finally show ?thesis using item by (auto simp: binding_sexpr_def)
  qed
next
  case False
  then have "\<exists>e. cast_binding roles item c = Inl e"
    by (auto simp: cast_binding_def split: sexpr.split list.split atom.split)
  then show ?thesis using False by (auto simp: binding_sexpr_def)
qed

lemma cast_loop_exact:
  "cast_loop roles items c = Inr c' \<longleftrightarrow>
     (\<exists>bs. items = map binding_sexpr bs \<and> distinct (map fst bs) \<and>
        list_all (\<lambda>b. \<not> bound_in c (fst b)) bs \<and> list_all (arity_ok roles) bs \<and>
        c' = foldl (cast_step roles) c bs)"
proof (induction items arbitrary: c)
  case Nil
  then show ?case by auto
next
  case (Cons item items)
  have "cast_loop roles (item # items) c = Inr c' \<longleftrightarrow>
      (\<exists>b. item = binding_sexpr b \<and> \<not> bound_in c (fst b) \<and> arity_ok roles b \<and>
        cast_loop roles items (cast_step roles c b) = Inr c')"
    by (auto simp: result_simps cast_binding_exact)
  also have "\<dots> \<longleftrightarrow> (\<exists>b bs. item = binding_sexpr b \<and> \<not> bound_in c (fst b) \<and> arity_ok roles b \<and>
      items = map binding_sexpr bs \<and> distinct (map fst bs) \<and>
      list_all (\<lambda>b'. fst b' \<noteq> fst b \<and> \<not> bound_in c (fst b')) bs \<and> list_all (arity_ok roles) bs \<and>
      c' = foldl (cast_step roles) (cast_step roles c b) bs)"
    by (auto simp: Cons.IH bound_in_cast_step)
  also have "\<dots> \<longleftrightarrow> (\<exists>bs. item # items = map binding_sexpr bs \<and> distinct (map fst bs) \<and>
        list_all (\<lambda>b. \<not> bound_in c (fst b)) bs \<and> list_all (arity_ok roles) bs \<and>
        c' = foldl (cast_step roles) c bs)"
    unfolding ex_Cons_eq_map by (simp add: list_all_iff image_iff) blast
  finally show ?case .
qed

lemma find_None_bound:
  "find (\<lambda>d. \<not> bound_in c (role_name d)) roles = None \<longleftrightarrow> role_name ` set roles \<subseteq> {r. bound_in c r}"
  by (auto simp: find_None_iff)

lemma find_role_Some: "find_role roles r = Some d \<Longrightarrow> d \<in> set roles \<and> role_name d = r"
  by (auto simp: find_role_def find_Some_iff)

lemma arity_ok_declared: "arity_ok roles b \<Longrightarrow> fst b \<in> role_name ` set roles"
  by (force simp: arity_ok_def dest!: find_role_Some split: option.splits)

lemma bound_in_empty [simp]: "\<not> bound_in empty_cast r"
  by (simp add: empty_cast_def bound_in_def bt_contains_key_iff)

lemma parse_cast_iff:
  "parse_cast b roles = Inr c \<longleftrightarrow>
     (\<exists>bs. b = List (map binding_sexpr bs) \<and> assigns roles bs \<and> c = cast_of roles bs)"
proof (cases b)
  case (Atom a)
  then show ?thesis by (simp add: parse_cast_def)
next
  case (List items)
  have covers: "role_name ` set roles \<subseteq> {r. bound_in (foldl (cast_step roles) empty_cast bs) r} \<longleftrightarrow>
      fst ` set bs = role_name ` set roles" if "list_all (arity_ok roles) bs" for bs
    using that arity_ok_declared by (auto simp: bound_in_foldl list_all_iff)
  have "parse_cast b roles = Inr c \<longleftrightarrow> cast_loop roles items empty_cast = Inr c \<and>
      role_name ` set roles \<subseteq> {r. bound_in c r}"
    using List by (auto simp: parse_cast_def result_simps find_None_bound [symmetric] split: option.splits)
  also have "\<dots> \<longleftrightarrow> (\<exists>bs. items = map binding_sexpr bs \<and> assigns roles bs \<and> c = cast_of roles bs)"
    unfolding cast_loop_exact assigns_def cast_of_def using covers by (auto simp: list_all_iff)
  finally show ?thesis using List by simp
qed

lemma cast_step_lookup:
  "bt_get (c_singleton (cast_step roles c b)) r =
     (if r = fst b \<and> singleton_role roles r then Some (hd (snd b))
      else bt_get (c_singleton c) r)"
  "bt_get (c_indexed (cast_step roles c b)) r =
     (if r = fst b \<and> \<not> singleton_role roles r
      then Some (bs_of_list (snd b)) else bt_get (c_indexed c) r)"
  by (auto simp: cast_step_def)

lemma cast_fold_lookup:
  assumes "distinct (map fst bs)"
  shows "bt_get (c_singleton (foldl (cast_step roles) c bs)) r =
      (case map_of bs r of
         Some ks \<Rightarrow> if singleton_role roles r then Some (hd ks)
           else bt_get (c_singleton c) r
       | None \<Rightarrow> bt_get (c_singleton c) r) \<and>
    bt_get (c_indexed (foldl (cast_step roles) c bs)) r =
      (case map_of bs r of
         Some ks \<Rightarrow> if \<not> singleton_role roles r
           then Some (bs_of_list ks) else bt_get (c_indexed c) r
       | None \<Rightarrow> bt_get (c_indexed c) r)"
  using assms
proof (induction bs arbitrary: c)
  case (Cons b bs)
  have later: "map_of bs (fst b) = None" using Cons.prems by (simp add: map_of_eq_None_iff)
  show ?case using Cons.IH [of "cast_step roles c b"] Cons.prems later
    by (cases b; cases "r = fst b"; cases "map_of bs r") (simp_all add: cast_step_lookup)
qed simp

lemma cast_of_admits:
  assumes "assigns roles bs"
  shows "cast_admits (cast_of roles bs) r k \<longleftrightarrow> (\<exists>ks. (r, ks) \<in> set bs \<and> k \<in> set ks)"
proof -
  have d: "distinct (map fst bs)" using assms by (simp add: assigns_def)
  note look = cast_fold_lookup [OF d, of roles empty_cast r]
  show ?thesis
  proof (cases "map_of bs r")
    case None
    then have "\<nexists>ks. (r, ks) \<in> set bs" by (force simp: map_of_eq_None_iff)
    then show ?thesis using None look by (simp add: cast_admits_def cast_of_def empty_cast_def)
  next
    case (Some ks)
    have ks: "(r, ks') \<in> set bs \<longleftrightarrow> ks' = ks" for ks'
      using d map_of_is_SomeI [OF d, of r ks'] map_of_SomeD [of bs r ks] Some by auto
    have "arity_ok roles (r, ks)" using assms ks by (auto simp: assigns_def list_all_iff)
    then obtain decl where decl: "find_role roles r = Some decl"
      and arity: "case cardinality decl of Singleton \<Rightarrow> length ks = 1 | Indexed \<Rightarrow> ks \<noteq> []"
      by (cases "find_role roles r") (simp_all add: arity_ok_def split: role_cardinality.splits)
    have single: "singleton_role roles r \<longleftrightarrow> cardinality decl = Singleton"
      using decl by (simp add: singleton_role_def)
    show ?thesis
    proof (cases "cardinality decl")
      case Singleton
      then obtain k' where "ks = [k']" using arity by (auto simp: length_Suc_conv)
      then have "cast_admits (cast_of roles bs) r k \<longleftrightarrow> k \<in> set ks"
        using Some look single Singleton by (auto simp: cast_admits_def cast_of_def)
      then show ?thesis using ks by simp
    next
      case Indexed
      then show ?thesis using Some look ks single by (simp add: cast_admits_def cast_of_def empty_cast_def)
    qed
  qed
qed

section \<open>Properties\<close>

text \<open>The recogniser of casts accepts exactly the binding lists that bind every declared role once
  and nothing else, with the number of keys the role's cardinality admits; the cast it builds admits
  a key to a role exactly when the binding of the role lists the key.\<close>

lemma parse_cast_exact:
  "((\<exists>c. parse_cast b roles = Inr c) \<longleftrightarrow>
      (\<exists>bs. b = List (map binding_sexpr bs) \<and> assigns roles bs)) \<and>
   (assigns roles bs \<longrightarrow> (\<exists>c. parse_cast (List (map binding_sexpr bs)) roles = Inr c \<and>
      cast_admits c = (\<lambda>r k. \<exists>ks. (r, ks) \<in> set bs \<and> k \<in> set ks)))"
  using cast_of_admits [of roles bs] by (auto simp: parse_cast_iff fun_eq_iff)

definition sample_roles :: "role_decl list" where
  "sample_roles = [\<lparr>role_name = ''auctioneer'', cardinality = Singleton\<rparr>,
     \<lparr>role_name = ''bidder'', cardinality = Indexed\<rparr>]"

lemma parse_cast_exact_witness:
  "\<exists>c. parse_cast (List [List [Sym ''bidder'', Sym ''@b'', Sym ''@c''],
      List [Sym ''auctioneer'', Sym ''@a'']]) sample_roles = Inr c \<and>
    cast_admits c ''bidder'' ''@c'' \<and> \<not> cast_admits c ''auctioneer'' ''@c''"
proof -
  let ?bs = "[(''bidder'', [''@b'', ''@c'']), (''auctioneer'', [''@a''])]"
  have "assigns sample_roles ?bs"
    by (auto simp: assigns_def sample_roles_def arity_ok_def find_role_def)
  then obtain c where "parse_cast (List (map binding_sexpr ?bs)) sample_roles = Inr c"
    "cast_admits c = (\<lambda>r k. \<exists>ks. (r, ks) \<in> set ?bs \<and> k \<in> set ks)"
    using parse_cast_exact [of _ sample_roles ?bs] by blast
  then show ?thesis by (auto simp: binding_sexpr_def)
qed

end
