(* ===== verification/Cbcl_Clause.thy ===== *)
theory Cbcl_Clause
  imports Cbcl_Protocol Cbcl_Shape "HOL-Library.Product_Lexorder"
begin

text \<open>
  The declarations a dialect's state layer is made of: the certification profiles and committees of
  \<open>cbcl-core/src/certification.rs\<close>, the counter rule of \<open>escrow.rs\<close>, and the rules, entries and bounds
  of the state clause of \<open>state.rs\<close>. A committee is shown to give quorums that intersect beyond the
  fault bound and that the non-faulty validators can always form.
\<close>

section \<open>Certification\<close>

datatype certification = HostGate | QuorumBudget "string list option" "u32 option"

record committee =
  validators :: "string list"
  faults :: u32
  quorum :: nat

definition validator_char :: "char \<Rightarrow> bool" where
  "validator_char c \<longleftrightarrow> is_ascii_alphanumeric c \<or> c \<in> set ''_-./!?+*<>=@''"

definition validator_key :: "string \<Rightarrow> bool" where
  "validator_key k \<longleftrightarrow> take 1 k = ''@'' \<and> 2 \<le> length k \<and> list_all validator_char k"

fun adjacent_equal :: "string list \<Rightarrow> bool" where
  "adjacent_equal (a # b # xs) \<longleftrightarrow> a = b \<or> adjacent_equal (b # xs)"
| "adjacent_equal _ \<longleftrightarrow> False"

definition roster :: "string list \<Rightarrow> (string, string list) result" where
  "roster keys =
     (if keys = [] then Inl ''validator roster must not be empty''
      else if list_ex (\<lambda>k. \<not> validator_key k) keys then Inl ''validators must be whole @key symbols''
      else if adjacent_equal (sort keys) then Inl ''duplicate validator''
      else Inr (sort keys))"

definition committee_new :: "string list \<Rightarrow> u32 option \<Rightarrow> (string, committee) result" where
  "committee_new keys fs = bind_result (roster keys) (\<lambda>vs.
     bind_result
       (case fs of
          Some f \<Rightarrow> Inr f
        | None \<Rightarrow> if (length vs - 1) div 3 < 2 ^ 32 then Inr (of_nat ((length vs - 1) div 3))
            else Inl ''committee too large'')
       (\<lambda>f. if unat f * 3 + 1 \<noteq> length vs
            then Inl ''quorum-budget requires exactly 3f+1 validators''
            else Inr \<lparr>validators = vs, faults = f, quorum = 2 * unat f + 1\<rparr>))"

definition quorum_budget ::
  "string list option \<Rightarrow> u32 option \<Rightarrow> (string, certification) result" where
  "quorum_budget keys fs = (case keys of
       Some ks \<Rightarrow> bind_result (committee_new ks fs) (\<lambda>c.
         Inr (QuorumBudget (Some (validators c)) (Some (faults c))))
     | None \<Rightarrow> Inr (QuorumBudget None fs))"

definition cert_validate :: "certification \<Rightarrow> (string, unit) result" where
  "cert_validate c = (case c of
       QuorumBudget (Some keys) fs \<Rightarrow> bind_result (committee_new keys fs) (\<lambda>_. Inr ())
     | _ \<Rightarrow> Inr ())"

definition cert_resolve ::
  "certification \<Rightarrow> string list option \<Rightarrow> (string, committee) result" where
  "cert_resolve c inst = (case c of
       HostGate \<Rightarrow> Inl ''counter uses host-gate certification''
     | QuorumBudget vs fs \<Rightarrow>
         bind_result (ok_or ''quorum-budget requires a pinned instance validator roster''
             (case vs of Some ks \<Rightarrow> Some ks | None \<Rightarrow> inst)) (\<lambda>keys.
           bind_result (committee_new keys fs) (\<lambda>cm.
             case (vs, inst) of
               (Some _, Some bound) \<Rightarrow> bind_result (roster bound) (\<lambda>r.
                 if r \<noteq> validators cm then Inl ''instance validator roster differs from dialect''
                 else Inr cm)
             | _ \<Rightarrow> Inr cm)))"

definition is_quorum :: "certification \<Rightarrow> bool" where
  "is_quorum c = (case c of HostGate \<Rightarrow> False | QuorumBudget _ _ \<Rightarrow> True)"

definition canonical_option :: "certification \<Rightarrow> sexpr option" where
  "canonical_option c = (case c of
       HostGate \<Rightarrow> None
     | QuorumBudget vs fs \<Rightarrow> Some (List (
         [Sym ''certification'', Sym ''quorum-budget''] @
         (case vs of Some keys \<Rightarrow> [List (Sym ''validators'' # map Sym (sort keys))] | None \<Rightarrow> []) @
         (case (case vs of
                  Some keys \<Rightarrow> (case committee_new keys fs of Inr cm \<Rightarrow> Some (faults cm) | Inl _ \<Rightarrow> None)
                | None \<Rightarrow> fs) of
            Some f \<Rightarrow> [List [Sym ''faults'', Atom (Num (uint f))]]
          | None \<Rightarrow> []))))"

section \<open>The counter rule\<close>

datatype ownership = Account | Collective

record counter_rule =
  ownership :: ownership
  certification :: certification
  floor_bound :: int
  ceiling_bound :: "int option"
  initial_verb :: string
  initial_key :: string
  headroom_key :: "string option"
  issuer :: string
  increment :: "string \<times> string"
  decrement :: "string \<times> string"
  transfer_op :: "(string \<times> string \<times> string) option"
  transfer_headroom :: "(string \<times> string \<times> string) option"

definition operation_verbs :: "counter_rule \<Rightarrow> string list" where
  "operation_verbs c = [fst (increment c), fst (decrement c)] @
     (case transfer_op c of Some t \<Rightarrow> [fst t] | None \<Rightarrow> []) @
     (case transfer_headroom c of Some t \<Rightarrow> [fst t] | None \<Rightarrow> [])"

definition counter_verbs :: "counter_rule \<Rightarrow> string list" where
  "counter_verbs c = operation_verbs c @ [initial_verb c]"

definition counter_data_fields :: "counter_rule \<Rightarrow> (string \<times> string) list" where
  "counter_data_fields c =
     [(initial_verb c, initial_key c), increment c, decrement c] @
     (case transfer_op c of Some (v, r, k) \<Rightarrow> [(v, r), (v, k)] | None \<Rightarrow> []) @
     (case headroom_key c of Some k \<Rightarrow> [(initial_verb c, k)] | None \<Rightarrow> []) @
     (case transfer_headroom c of Some (v, r, k) \<Rightarrow> [(v, r), (v, k)] | None \<Rightarrow> [])"

definition canonical_options :: "counter_rule \<Rightarrow> sexpr list" where
  "canonical_options c =
     [List [Sym ''floor'', Atom (Num (floor_bound c))]] @
     (case ceiling_bound c of Some n \<Rightarrow> [List [Sym ''ceiling'', Atom (Num n)]] | None \<Rightarrow> []) @
     (case canonical_option (certification c) of Some p \<Rightarrow> [p] | None \<Rightarrow> []) @
     (if ownership c = Collective then [List [Sym ''ownership'', Sym ''collective'']] else []) @
     [List [Sym (if ownership c = Collective then ''initial'' else ''initial-rights''),
        Sym (initial_verb c), Kw (initial_key c)]] @
     (case headroom_key c of
        Some k \<Rightarrow> [List [Sym ''initial-headroom'', Sym (initial_verb c), Kw k]] | None \<Rightarrow> []) @
     [List [Sym ''issuers'', if issuer c = [] then List [] else Sym (issuer c)],
      List [Sym ''increment'', Sym (fst (increment c)), Kw (snd (increment c))],
      List [Sym ''decrement'', Sym (fst (decrement c)), Kw (snd (decrement c))]] @
     (case transfer_op c of
        Some (v, r, k) \<Rightarrow> [List [Sym ''transfer'', Sym v, Kw r, Kw k]] | None \<Rightarrow> []) @
     (case transfer_headroom c of
        Some (v, r, k) \<Rightarrow> [List [Sym ''transfer-headroom'', Sym v, Kw r, Kw k]] | None \<Rightarrow> [])"

section \<open>The state clause\<close>

definition RESERVED_REPLACES :: string where "RESERVED_REPLACES = ''replaces''"

definition ROUTING_KEYWORDS :: "string list" where
  "ROUTING_KEYWORDS = [''caused-by'', ''thread'', ''from'', ''to'', ''sender'']"

record state_bounds =
  max_string :: u32
  max_list :: u32
  max_number :: int
  max_fields :: u32

definition default_bounds :: state_bounds where
  "default_bounds =
     \<lparr>max_string = 2048, max_list = 64, max_number = 1000000000000, max_fields = 32\<rparr>"

datatype rule =
    BoundedCounter counter_rule
  | LwwRegister string string string
  | LwwPerSigner string string string
  | LwwMap string string string string "string option"
  | Initial string string
  | Exists string
  | Count string
  | Progress string
  | Events string string
  | SetUnion string string
  | Values string string
  | ValuesPerKey string string string "string option"
  | ObservedSet string string string
  | Counter string string string
  | Histogram string
  | SumOf string

definition rule_head :: "rule \<Rightarrow> string" where
  "rule_head r = (case r of
       BoundedCounter _ \<Rightarrow> ''bounded-counter''
     | LwwRegister _ _ _ \<Rightarrow> ''lww-register''
     | LwwPerSigner _ _ _ \<Rightarrow> ''lww-per-signer''
     | LwwMap _ _ _ _ _ \<Rightarrow> ''lww-map''
     | Initial _ _ \<Rightarrow> ''initial''
     | Exists _ \<Rightarrow> ''exists''
     | Count _ \<Rightarrow> ''count''
     | Progress _ \<Rightarrow> ''progress''
     | Events _ _ \<Rightarrow> ''events''
     | SetUnion _ _ \<Rightarrow> ''set-union''
     | Values _ _ \<Rightarrow> ''values''
     | ValuesPerKey _ _ _ _ \<Rightarrow> ''values-per-key''
     | ObservedSet _ _ _ \<Rightarrow> ''observed-set''
     | Counter _ _ _ \<Rightarrow> ''counter''
     | Histogram _ \<Rightarrow> ''histogram''
     | SumOf _ \<Rightarrow> ''sum'')"

definition opt_list :: "'a option \<Rightarrow> 'a list" where
  "opt_list x = (case x of None \<Rightarrow> [] | Some a \<Rightarrow> [a])"

definition rule_verbs :: "rule \<Rightarrow> string list" where
  "rule_verbs r = (case r of
       BoundedCounter c \<Rightarrow> counter_verbs c
     | LwwRegister verb _ _ \<Rightarrow> [verb]
     | LwwPerSigner verb _ _ \<Rightarrow> [verb]
     | LwwMap verb _ _ _ delete \<Rightarrow> verb # opt_list delete
     | Initial verb _ \<Rightarrow> [verb]
     | Exists verb \<Rightarrow> [verb]
     | Count verb \<Rightarrow> [verb]
     | Progress verb \<Rightarrow> [verb]
     | Events verb _ \<Rightarrow> [verb]
     | SetUnion verb _ \<Rightarrow> [verb]
     | Values verb _ \<Rightarrow> [verb]
     | ValuesPerKey verb _ _ delete \<Rightarrow> verb # opt_list delete
     | ObservedSet add remove _ \<Rightarrow> [add, remove]
     | Counter inc dec _ \<Rightarrow> [inc, dec]
     | Histogram _ \<Rightarrow> []
     | SumOf _ \<Rightarrow> [])"

definition clock_field :: "rule \<Rightarrow> (string \<times> string) option" where
  "clock_field r = (case r of
       LwwRegister verb _ clock \<Rightarrow> Some (verb, clock)
     | LwwPerSigner verb _ clock \<Rightarrow> Some (verb, clock)
     | LwwMap verb _ _ clock _ \<Rightarrow> Some (verb, clock)
     | _ \<Rightarrow> None)"

definition rule_data_fields :: "rule \<Rightarrow> (string \<times> string) list" where
  "rule_data_fields r = (case r of
       BoundedCounter c \<Rightarrow> counter_data_fields c
     | LwwRegister verb key clock \<Rightarrow> [(verb, key), (verb, clock)]
     | LwwPerSigner verb key clock \<Rightarrow> [(verb, key), (verb, clock)]
     | LwwMap verb key value clock delete \<Rightarrow>
         [(verb, key), (verb, value), (verb, clock)] @ map (\<lambda>d. (d, key)) (opt_list delete)
     | Initial verb key \<Rightarrow> [(verb, key)]
     | Events verb key \<Rightarrow> [(verb, key)]
     | SetUnion verb key \<Rightarrow> [(verb, key)]
     | Values verb key \<Rightarrow> [(verb, key)]
     | ValuesPerKey verb key value delete \<Rightarrow>
         [(verb, key), (verb, value)] @ map (\<lambda>d. (d, key)) (opt_list delete)
     | ObservedSet add remove key \<Rightarrow> [(add, key), (remove, key)]
     | Counter inc dec key \<Rightarrow> [(inc, key), (dec, key)]
     | _ \<Rightarrow> [])"

definition rule_replaces_verbs :: "rule \<Rightarrow> string list" where
  "rule_replaces_verbs r = (case r of
       Values verb _ \<Rightarrow> [verb]
     | LwwPerSigner verb _ _ \<Rightarrow> [verb]
     | ValuesPerKey verb _ _ delete \<Rightarrow> verb # opt_list delete
     | LwwMap verb _ _ _ delete \<Rightarrow> verb # opt_list delete
     | ObservedSet _ remove _ \<Rightarrow> [remove]
     | _ \<Rightarrow> [])"

datatype clause_entry = EField string rule | EDomain string string string

record state_clause =
  entries :: "clause_entry list"

definition clause_fields :: "state_clause \<Rightarrow> (string \<times> rule) list" where
  "clause_fields c = List.map_filter (\<lambda>e. case e of
       EField name r \<Rightarrow> Some (name, r) | EDomain _ _ _ \<Rightarrow> None) (entries c)"

definition clause_domains :: "state_clause \<Rightarrow> (string \<times> string \<times> string) list" where
  "clause_domains c = List.map_filter (\<lambda>e. case e of
       EDomain verb key field \<Rightarrow> Some (verb, key, field) | EField _ _ \<Rightarrow> None) (entries c)"

definition state_bearing_verbs :: "state_clause \<Rightarrow> string btset" where
  "state_bearing_verbs c = bs_of_list
     (concat (map (\<lambda>(_, r). rule_verbs r) (clause_fields c)) @ map fst (clause_domains c))"

definition clause_replaces_verbs :: "state_clause \<Rightarrow> string btset" where
  "clause_replaces_verbs c = bs_of_list (concat (map (\<lambda>(_, r). rule_replaces_verbs r) (clause_fields c)))"

definition clause_data_fields :: "state_clause \<Rightarrow> (string \<times> string) btset" where
  "clause_data_fields c = bs_of_list
     (concat (map (\<lambda>(_, r). rule_data_fields r) (clause_fields c)) @
      map (\<lambda>(verb, key, _). (verb, key)) (clause_domains c))"

definition rule_of :: "state_clause \<Rightarrow> string \<Rightarrow> rule option" where
  "rule_of c field = map_option snd (find (\<lambda>(n, _). n = field) (clause_fields c))"

fun opener_loop :: "(string, step_decl) btmap \<Rightarrow> string option \<Rightarrow> string option" where
  "opener_loop [] found = found"
| "opener_loop ((name, step) # rest) found =
     (if name = BEGIN_KEYWORD then opener_loop rest found
      else if predecessors step = [NSingle BEGIN_KEYWORD] then
        (if found \<noteq> None then None else opener_loop rest (Some (repeat_base_name name)))
      else opener_loop rest found)"

definition opener_verb :: "causal_protocol \<Rightarrow> string option" where
  "opener_verb cp = opener_loop (steps cp) None"

section \<open>Committees\<close>

lemma adjacent_equal_iff: "sorted ks \<Longrightarrow> adjacent_equal ks \<longleftrightarrow> \<not> distinct ks"
proof (induction ks rule: adjacent_equal.induct)
  case (1 a b xs)
  then have "a \<in> set xs \<Longrightarrow> a = b" by (auto simp: antisym)
  then show ?case using 1 by auto
qed auto

lemma roster_iff:
  "roster keys = Inr vs \<longleftrightarrow> keys \<noteq> [] \<and> list_all validator_key keys \<and> distinct keys \<and> vs = sort keys"
  by (auto simp: roster_def adjacent_equal_iff list_all_iff list_ex_iff)

lemma committee_new_iff:
  "committee_new keys fs = Inr c \<longleftrightarrow> list_all validator_key keys \<and> distinct keys \<and>
     validators c = sort keys \<and> length keys = 3 * unat (faults c) + 1 \<and>
     quorum c = 2 * unat (faults c) + 1 \<and> (fs = None \<or> fs = Some (faults c))"
proof -
  have "length keys = 3 * unat f + 1 \<Longrightarrow> (length keys - 1) div 3 = unat f" for f :: u32 by simp
  moreover have "unat f < 2 ^ 32" for f :: u32 using unsigned_less [of f] by simp
  ultimately have auto_f: "(length keys - 1) div 3 < 2 ^ 32 \<and> f = of_nat ((length keys - 1) div 3)"
    if "length keys = 3 * unat f + 1" for f :: u32 using that by simp
  have eq: "c = \<lparr>validators = vs, faults = f, quorum = q\<rparr> \<longleftrightarrow>
      validators c = vs \<and> faults c = f \<and> quorum c = q" for vs f q by (cases c) auto
  show ?thesis
  proof (cases fs)
    case (Some f)
    then show ?thesis by (auto simp: committee_new_def result_simps roster_iff eq mult.commute split: if_splits)
  next
    case None
    then show ?thesis using auto_f
      by (auto simp: committee_new_def result_simps roster_iff eq mult.commute split: if_splits)
  qed
qed

section \<open>Properties\<close>

text \<open>Committees are safe and live: a roster is accepted only as \<open>3f + 1\<close> distinct validator keys,
  any two quorums of its members have more than \<open>f\<close> members in common, so a non-faulty one whatever
  \<open>f\<close> validators are faulty, and the validators that remain without any \<open>f\<close> of them form a quorum.\<close>

lemma committee_quorums:
  assumes "committee_new keys fs = Inr c" "A \<subseteq> set (validators c)" "B \<subseteq> set (validators c)"
    "quorum c \<le> card A" "quorum c \<le> card B" "F \<subseteq> set (validators c)" "card F \<le> unat (faults c)"
  shows "set (validators c) = set keys \<and> A \<inter> B - F \<noteq> {} \<and> quorum c \<le> card (set (validators c) - F)"
proof -
  have c: "validators c = sort keys" "distinct keys" "length keys = 3 * unat (faults c) + 1"
    "quorum c = 2 * unat (faults c) + 1" using assms(1) by (auto simp: committee_new_iff)
  define V where "V = set (validators c)"
  have V: "card V = 3 * unat (faults c) + 1" "finite V" "V = set keys"
    using c by (auto simp: V_def distinct_card)
  have fin: "finite A" "finite B" "finite F"
    using assms V_def V(2) by (auto intro: finite_subset)
  have "card (A \<union> B) \<le> card V" using assms V(2) by (auto intro!: card_mono simp: V_def)
  then have "unat (faults c) < card (A \<inter> B)"
    using card_Un_Int [OF fin(1,2)] assms(4,5) c(4) V(1) by linarith
  then have "\<not> A \<inter> B \<subseteq> F" using card_mono [OF fin(3)] assms(7) by (meson leD le_trans)
  moreover have "card (V - F) = card V - card F"
    using assms(6) fin(3) by (simp add: card_Diff_subset V_def)
  ultimately show ?thesis using V c(4) assms(7) by (auto simp: V_def)
qed

lemma committee_quorums_witness:
  "{''@a'', ''@b'', ''@c''} \<inter> {''@b'', ''@c'', ''@d''} - {''@b''} \<noteq> {} \<and>
   card (set [''@a'', ''@b'', ''@c'', ''@d''] - {''@b''}) \<ge> 3"
proof -
  let ?keys = "[''@d'', ''@a'', ''@b'', ''@c'']"
  let ?c = "\<lparr>validators = [''@a'', ''@b'', ''@c'', ''@d''], faults = 1, quorum = 3\<rparr>"
  have "committee_new ?keys (Some 1) = Inr ?c" by code_simp
  then show ?thesis
    using committee_quorums [of ?keys "Some 1" ?c "{''@a'', ''@b'', ''@c''}" "{''@b'', ''@c'', ''@d''}" "{''@b''}"]
    by simp
qed

end
