(* ===== verification/Cbcl_Dialect.thy ===== *)
theory Cbcl_Dialect
  imports Cbcl_Role Cbcl_Clause Cbcl_Attest
begin

text \<open>
  Dialects: the records and lookups of \<open>cbcl-core/src/dialect.rs\<close>, the base dialect, the signable form
  and the content hash of \<open>canonical.rs\<close>, and the install-time checks R1 (\<open>r1.rs\<close>), R2 (\<open>r2.rs\<close>), R3
  (\<open>r3.rs\<close>), R4 (\<open>r4.rs\<close>) and R5 (\<open>r5.rs\<close>). SHA-256 is a parameter. The signable form is shown to
  determine every part of a dialect that its documentation calls semantics-relevant.
\<close>

section \<open>Data\<close>

record resource_bounds =
  rb_max_depth :: u32
  rb_max_expansion_size :: u32
  verification_time_ms :: u32

definition bounds_is_valid :: "resource_bounds \<Rightarrow> bool" where
  "bounds_is_valid b \<longleftrightarrow> rb_max_depth b > 0 \<and> rb_max_depth b \<le> 64 \<and>
     rb_max_expansion_size b > 0 \<and> rb_max_expansion_size b \<le> 8192 \<and>
     verification_time_ms b > 0 \<and> verification_time_ms b \<le> 1000"

record performative_def =
  p_name :: string
  p_params :: "sexpr list"
  p_template :: sexpr
  p_role :: "role_annotation option"

record dialect =
  d_name :: string
  d_extends :: "string list"
  d_author :: "string option"
  d_performatives :: "performative_def list"
  d_resources :: resource_bounds
  d_examples :: "sexpr list"
  d_signature :: "string option"
  d_hash :: "string option"
  d_protocol :: "string option"
  d_causal_protocol :: "causal_protocol option"
  d_shapes :: "shape_constraint list"
  d_roles :: "role_decl list"
  d_causal_locality :: causal_locality
  d_state :: "state_clause option"
  d_state_bounds :: "state_bounds option"

definition performative_names :: "dialect \<Rightarrow> string list" where
  "performative_names d = map p_name (d_performatives d)"

definition defines_performative :: "dialect \<Rightarrow> string \<Rightarrow> bool" where
  "defines_performative d name \<longleftrightarrow> list_ex (\<lambda>p. p_name p = name) (d_performatives d)"

definition find_performative :: "dialect \<Rightarrow> string \<Rightarrow> performative_def option" where
  "find_performative d name = find (\<lambda>p. p_name p = name) (d_performatives d)"

definition effect_template :: "string \<Rightarrow> sexpr" where
  "effect_template action = List [Sym ''effect'', Sym action]"

definition CORE_EFFECT_ACTIONS :: "(string \<times> string) list" where
  "CORE_EFFECT_ACTIONS =
     [(''tell'', ''send-message''), (''ask'', ''send-query''), (''reply'', ''send-reply''),
      (''error'', ''signal-error''), (''ok'', ''acknowledge''), (''cancel'', ''cancel-conversation''),
      (''hello'', ''announce-presence''), (''bye'', ''announce-departure'')]"

definition BASE_NAME :: string where "BASE_NAME = ''cbcl-base''"

definition base_dialect :: dialect where
  "base_dialect =
     \<lparr>d_name = BASE_NAME, d_extends = [], d_author = Some ''@cbcl-system'',
      d_performatives = map (\<lambda>(name, action).
          \<lparr>p_name = name, p_params = [], p_template = effect_template action, p_role = None\<rparr>)
        CORE_EFFECT_ACTIONS,
      d_resources = \<lparr>rb_max_depth = 8, rb_max_expansion_size = 512, verification_time_ms = 10\<rparr>,
      d_examples = [], d_signature = None, d_hash = None, d_protocol = None,
      d_causal_protocol = None, d_shapes = [], d_roles = [], d_causal_locality = Reject,
      d_state = None, d_state_bounds = None\<rparr>"

section \<open>The signable form\<close>

abbreviation QStr :: "string \<Rightarrow> sexpr" where "QStr s \<equiv> Atom (Str s)"

abbreviation word_num :: "u32 \<Rightarrow> sexpr" where "word_num n \<equiv> Atom (Num (uint n))"

definition role_annotation_to_sexpr :: "role_annotation \<Rightarrow> sexpr" where
  "role_annotation_to_sexpr ann = List [Sym ''role'', List [Sym ''from'', QStr (ann_from ann)],
     List (Sym ''to'' # map QStr (ann_to ann))]"

definition perf_to_sexpr :: "performative_def \<Rightarrow> sexpr" where
  "perf_to_sexpr p = List ([Sym ''perf'', QStr (p_name p), List (Sym ''params'' # p_params p),
     p_template p] @ map role_annotation_to_sexpr (opt_list (p_role p)))"

definition node_ref_to_sexpr :: "node_ref \<Rightarrow> sexpr" where
  "node_ref_to_sexpr nr = (case nr of
       NSingle s \<Rightarrow> List [Sym ''single'', QStr s]
     | NAny ss \<Rightarrow> List (Sym ''any'' # map QStr ss)
     | NAll ss \<Rightarrow> List (Sym ''all'' # map QStr ss))"

definition step_to_sexpr :: "step_decl \<Rightarrow> sexpr" where
  "step_to_sexpr s = List [Sym ''step'', QStr (step_performative s),
     List (Sym ''predecessors'' # map node_ref_to_sexpr (predecessors s)),
     List (Sym ''successors'' # map node_ref_to_sexpr (successors s))]"

definition protocol_to_sexpr :: "causal_protocol \<Rightarrow> sexpr" where
  "protocol_to_sexpr cp = List (Sym ''causal-protocol'' # map step_to_sexpr (bt_values (steps cp)))"

definition type_constraint_to_sexpr :: "type_constraint option \<Rightarrow> sexpr" where
  "type_constraint_to_sexpr tc =
     List (Sym ''type'' # map (\<lambda>t. Sym (display_type t)) (opt_list tc))"

definition default_to_sexpr :: "sexpr option \<Rightarrow> sexpr" where
  "default_to_sexpr d = List (Sym ''default'' # opt_list d)"

fun shape_rule_to_sexpr :: "shape_rule \<Rightarrow> sexpr" where
  "shape_rule_to_sexpr (Require k tc children) =
     List ([Sym ''require'', QStr k, type_constraint_to_sexpr tc] @ map shape_rule_to_sexpr children)"
| "shape_rule_to_sexpr (Optional k tc dflt children) =
     List ([Sym ''optional'', QStr k, type_constraint_to_sexpr tc, default_to_sexpr dflt] @
       map shape_rule_to_sexpr children)"
| "shape_rule_to_sexpr (MaxDepth n) = List [Sym ''max-depth'', word_num n]"

definition shape_to_sexpr :: "shape_constraint \<Rightarrow> sexpr" where
  "shape_to_sexpr s = List ([Sym ''shape'', QStr (shape_performative s)] @
     map shape_rule_to_sexpr (shape_rules s))"

definition shapes_to_sexpr :: "shape_constraint list \<Rightarrow> sexpr" where
  "shapes_to_sexpr ss = List (Sym ''shapes'' # map shape_to_sexpr ss)"

definition roles_to_sexpr :: "role_decl list \<Rightarrow> sexpr" where
  "roles_to_sexpr rs = List (Sym ''roles'' # map (\<lambda>r. List [Sym ''role-decl'', QStr (role_name r),
     Sym (case cardinality r of Singleton \<Rightarrow> ''singleton'' | Indexed \<Rightarrow> ''indexed'')]) rs)"

definition rule_args :: "rule \<Rightarrow> sexpr list" where
  "rule_args r = (case r of
       BoundedCounter c \<Rightarrow> canonical_options c
     | LwwRegister verb key clock \<Rightarrow> map QStr [verb, key, clock]
     | LwwPerSigner verb key clock \<Rightarrow> map QStr [verb, key, clock]
     | LwwMap verb key value clock delete \<Rightarrow> map QStr ([verb, key, value, clock] @ opt_list delete)
     | Initial verb key \<Rightarrow> map QStr [verb, key]
     | Exists verb \<Rightarrow> map QStr [verb]
     | Count verb \<Rightarrow> map QStr [verb]
     | Progress verb \<Rightarrow> map QStr [verb]
     | Events verb key \<Rightarrow> map QStr [verb, key]
     | SetUnion verb key \<Rightarrow> map QStr [verb, key]
     | Values verb key \<Rightarrow> map QStr [verb, key]
     | ValuesPerKey verb key value delete \<Rightarrow> map QStr ([verb, key, value] @ opt_list delete)
     | ObservedSet add remove key \<Rightarrow> map QStr [add, remove, key]
     | Counter inc dec key \<Rightarrow> map QStr [inc, dec, key]
     | Histogram field \<Rightarrow> map QStr [field]
     | SumOf field \<Rightarrow> map QStr [field])"

definition entry_to_sexpr :: "clause_entry \<Rightarrow> sexpr" where
  "entry_to_sexpr e = (case e of
       EDomain verb key field \<Rightarrow> List [Sym ''domain'', QStr verb, QStr key, QStr field]
     | EField name r \<Rightarrow> List [Sym ''field'', QStr name, List (Sym (rule_head r) # rule_args r)])"

definition state_to_sexpr :: "state_clause \<Rightarrow> sexpr" where
  "state_to_sexpr c = List (Sym ''state'' # map entry_to_sexpr (entries c))"

definition state_bounds_to_sexpr :: "state_bounds \<Rightarrow> sexpr" where
  "state_bounds_to_sexpr b = List [Sym ''state-bounds'', word_num (max_string b), word_num (max_list b),
     Atom (Num (max_number b)), word_num (max_fields b)]"

text \<open>The clauses that are appended only when they are present, in the order of the source.\<close>

definition optional_clauses :: "dialect \<Rightarrow> sexpr option list" where
  "optional_clauses d =
     [map_option protocol_to_sexpr (d_causal_protocol d),
      if d_shapes d = [] then None else Some (shapes_to_sexpr (d_shapes d)),
      if d_roles d = [] then None else Some (roles_to_sexpr (d_roles d)),
      (case d_causal_locality d of
         Reject \<Rightarrow> None
       | Derive _ \<Rightarrow> Some (List [Sym ''causal-locality'', Sym ''derive''])),
      map_option state_to_sexpr (d_state d),
      map_option state_bounds_to_sexpr (d_state_bounds d)]"

definition to_signable_sexpr :: "dialect \<Rightarrow> sexpr" where
  "to_signable_sexpr d = List (
     [Sym ''dialect'', QStr (d_name d),
      List (Sym ''extends'' # map QStr (d_extends d)),
      List (Sym ''author'' # map QStr (opt_list (d_author d))),
      List (Sym ''performatives'' # map perf_to_sexpr (d_performatives d)),
      List [Sym ''resources'', word_num (rb_max_depth (d_resources d)),
        word_num (rb_max_expansion_size (d_resources d)),
        word_num (verification_time_ms (d_resources d))],
      List (Sym ''examples'' # d_examples d)] @ concat (map opt_list (optional_clauses d)))"

definition dialect_canonical_bytes :: "dialect \<Rightarrow> string" where
  "dialect_canonical_bytes d = canonical_encode (to_signable_sexpr d)"

definition dialect_body_hash :: "(string \<Rightarrow> string) \<Rightarrow> dialect \<Rightarrow> string" where
  "dialect_body_hash sha256 d = hex32 (sha256 (dialect_canonical_bytes (d\<lparr>d_name := []\<rparr>)))"

definition SELF_ADDRESS_PREFIX :: string where "SELF_ADDRESS_PREFIX = ''sha256-''"

definition dialect_name :: "(string \<Rightarrow> string) \<Rightarrow> dialect \<Rightarrow> string" where
  "dialect_name sha256 d = SELF_ADDRESS_PREFIX @ dialect_body_hash sha256 d"

definition dialect_hash :: "(string \<Rightarrow> string) \<Rightarrow> dialect \<Rightarrow> string" where
  "dialect_hash sha256 d = ''sha256:'' @ hex32 (sha256 (dialect_canonical_bytes d))"

section \<open>R1: no recursion\<close>

fun contains_self_reference :: "string \<Rightarrow> sexpr \<Rightarrow> bool" where
  "contains_self_reference name (Atom a) = (a = Symbol name)"
| "contains_self_reference name (List items) = list_ex (contains_self_reference name) items"

definition verify_r1 :: "string \<Rightarrow> sexpr \<Rightarrow> bool" where
  "verify_r1 name template \<longleftrightarrow> \<not> contains_self_reference name template"

fun collect_symbol_references :: "sexpr \<Rightarrow> string btset \<Rightarrow> string btset" where
  "collect_symbol_references (Atom a) acc = (case a of Symbol name \<Rightarrow> bs_insert name acc | _ \<Rightarrow> acc)"
| "collect_symbol_references (List items) acc =
     foldl (\<lambda>acc item. collect_symbol_references item acc) acc items"

definition dependency_graph :: "dialect \<Rightarrow> digraph" where
  "dependency_graph d = bt_of_list (map (\<lambda>p.
     (p_name p, filter (\<lambda>name. name \<in> set (performative_names d))
        (collect_symbol_references (p_template p) []))) (d_performatives d))"

definition r1_violations :: "dialect \<Rightarrow> string list" where
  "r1_violations d =
     (if d_name d = BASE_NAME then []
      else let cyclic = cyclic_performatives (dependency_graph d)
           in map p_name (filter (\<lambda>p. p_name p \<in> set cyclic) (d_performatives d)))"

definition verify_r1_dialect :: "dialect \<Rightarrow> bool" where
  "verify_r1_dialect d \<longleftrightarrow> d_name d = BASE_NAME \<or> r1_violations d = []"

section \<open>R2 to R5\<close>

definition verify_r2 :: "dialect \<Rightarrow> bool" where
  "verify_r2 d = bounds_is_valid (d_resources d)"

definition verify_r3 :: "dialect \<Rightarrow> bool" where
  "verify_r3 d \<longleftrightarrow> d_name d = BASE_NAME \<or>
     \<not> list_ex (\<lambda>p. is_core_performative_name (p_name p)) (d_performatives d)"

definition r3_violations :: "dialect \<Rightarrow> string list" where
  "r3_violations d =
     (if d_name d = BASE_NAME then []
      else map p_name (filter (\<lambda>p. is_core_performative_name (p_name p)) (d_performatives d)))"

datatype r4_result = R4Valid | R4Unsigned | R4Invalid

definition r4_is_acceptable :: "r4_result \<Rightarrow> bool" where
  "r4_is_acceptable r = (case r of R4Invalid \<Rightarrow> False | _ \<Rightarrow> True)"

definition dialect_sign_body :: "dialect \<Rightarrow> string" where
  "dialect_sign_body d = dialect_canonical_bytes d"

definition check_r4 :: "dialect \<Rightarrow> signer \<Rightarrow> r4_result" where
  "check_r4 d sg = (case d_signature d of
       None \<Rightarrow> R4Unsigned
     | Some sig \<Rightarrow> if signer_verify sg (dialect_sign_body d) sig then R4Valid else R4Invalid)"

definition verify_r4 :: "dialect \<Rightarrow> signer \<Rightarrow> bool" where
  "verify_r4 d sg \<longleftrightarrow> check_r4 d sg = R4Valid"

definition depth_excess :: "dialect \<Rightarrow> shape_constraint \<Rightarrow> u32 \<Rightarrow> string list" where
  "depth_excess d shape m =
     (if m > rb_max_depth (d_resources d)
      then [''shape '' @ quoted (shape_performative shape) @ '' max-depth '' @ show_nat (unat m) @
            '' exceeds dialect R2 bound '' @ show_nat (unat (rb_max_depth (d_resources d)))]
      else [])"

definition shape_violations :: "dialect \<Rightarrow> shape_constraint \<Rightarrow> string list" where
  "shape_violations d shape =
     (if defines_performative d (shape_performative shape) then []
      else [''shape targets unknown performative '' @ quoted (shape_performative shape)]) @
     check_keywords_valid (shape_rules shape) @
     concat (map (depth_excess d shape) (max_depths shape)) @
     (case no_duplicate_keywords shape of
        Inl msg \<Rightarrow> [''shape '' @ quoted (shape_performative shape) @ '': '' @ msg]
      | Inr _ \<Rightarrow> [])"

definition r5_violations_with_ancestors :: "dialect \<Rightarrow> dialect list \<Rightarrow> string list" where
  "r5_violations_with_ancestors d ancestors =
     (case d_causal_protocol d of
        Some cp \<Rightarrow> map display_protocol_violation
          (verify_r5_protocol cp (performative_names d @ concat (map performative_names ancestors)))
      | None \<Rightarrow> []) @
     concat (map (shape_violations d) (d_shapes d))"

definition verify_r5_with_ancestors :: "dialect \<Rightarrow> dialect list \<Rightarrow> bool" where
  "verify_r5_with_ancestors d ancestors \<longleftrightarrow> r5_violations_with_ancestors d ancestors = []"

section \<open>What R1 decides\<close>

lemma set_collect_symbol_references:
  "set (collect_symbol_references e acc) = set acc \<union> {n. contains_self_reference n e}"
proof (induction e acc rule: collect_symbol_references.induct)
  case (1 a acc)
  then show ?case by (cases a) auto
next
  case (2 items acc)
  have "set (foldl (\<lambda>acc item. collect_symbol_references item acc) acc xs) =
      set acc \<union> {n. \<exists>e \<in> set xs. contains_self_reference n e}" if "set xs \<subseteq> set items" for xs
    using that
  proof (induction xs arbitrary: acc)
    case (Cons x xs)
    have "set (collect_symbol_references x acc) = set acc \<union> {n. contains_self_reference n x}"
      using 2 Cons.prems by auto
    then show ?case using Cons by auto
  qed simp
  from this [of items] show ?case by (auto simp: list_ex_iff)
qed

text \<open>\<open>(a, b) \<in> mentions d\<close>: the definition of \<open>a\<close> in force for R1, the last one of that name, mentions the
  performative \<open>b\<close> of the same dialect.\<close>

definition last_template :: "dialect \<Rightarrow> string \<Rightarrow> sexpr option" where
  "last_template d a = map_option p_template (find (\<lambda>p. p_name p = a) (rev (d_performatives d)))"

definition mentions :: "dialect \<Rightarrow> (string \<times> string) set" where
  "mentions d = {(a, b). b \<in> set (performative_names d) \<and>
     (\<exists>t. last_template d a = Some t \<and> contains_self_reference b t)}"

lemma map_of_find: "map_of (map (\<lambda>x. (f x, g x)) xs) a = map_option g (find (\<lambda>x. f x = a) xs)"
  by (induction xs) auto

lemma edges_dependency_graph: "edges (dependency_graph d) = mentions d"
proof -
  let ?g = "\<lambda>p. filter (\<lambda>name. name \<in> set (performative_names d)) (collect_symbol_references (p_template p) [])"
  have get: "bt_get (dependency_graph d) a = map_option ?g (find (\<lambda>p. p_name p = a) (rev (d_performatives d)))" for a
    by (simp add: dependency_graph_def bt_get_of_list rev_map map_of_find)
  have "b \<in> set (neighbors (dependency_graph d) a) \<longleftrightarrow> (a, b) \<in> mentions d" for a b
    by (cases "find (\<lambda>p. p_name p = a) (rev (d_performatives d))")
      (auto simp: mentions_def last_template_def neighbors_def get set_collect_symbol_references)
  then show ?thesis by auto
qed

lemma r1_violations_exact:
  "d_name d \<noteq> BASE_NAME \<Longrightarrow>
     set (r1_violations d) = {n \<in> set (performative_names d). (n, n) \<in> (mentions d)\<^sup>+}"
  by (auto simp: r1_violations_def Let_def cyclic_performatives_exact edges_dependency_graph performative_names_def)

lemma mentions_defined: "(a, b) \<in> mentions d \<Longrightarrow> a \<in> set (performative_names d)"
  by (auto simp: mentions_def last_template_def find_Some_iff performative_names_def)
    (metis in_set_conv_nth imageI length_rev nth_mem set_rev)

lemma verify_r1_exact:
  "verify_r1_dialect d \<longleftrightarrow> d_name d = BASE_NAME \<or> acyclic (mentions d)"
proof (cases "d_name d = BASE_NAME")
  case False
  have "n \<in> set (performative_names d)" if "(n, n) \<in> (mentions d)\<^sup>+" for n
    using that by (auto dest!: tranclD simp: mentions_defined)
  then have "r1_violations d = [] \<longleftrightarrow> acyclic (mentions d)"
    using r1_violations_exact [OF False] by (auto simp: acyclic_def set_empty [symmetric])
  then show ?thesis using False by (simp add: verify_r1_dialect_def)
qed (simp add: verify_r1_dialect_def)

section \<open>What the signable form determines\<close>

text \<open>Optional items of a list are told apart by their head symbols.\<close>

definition tagged :: "string \<Rightarrow> sexpr \<Rightarrow> bool" where
  "tagged t e \<longleftrightarrow> (\<exists>es. e = List (Sym t # es))"

lemma tagged_List [simp]: "tagged t (List (Sym t' # es)) \<longleftrightarrow> t' = t"
  by (auto simp: tagged_def)

lemma opt_list_simps [simp]: "opt_list None = []" "opt_list (Some a) = [a]"
  by (simp_all add: opt_list_def)

lemma opt_list_inject [simp]: "opt_list a = opt_list b \<longleftrightarrow> a = b"
  by (cases a; cases b) auto

lemma set_opt_list [simp]: "set (opt_list a) = set_option a"
  by (cases a) auto

lemma opt_item_inject:
  assumes "opt_list a @ r = opt_list b @ s" "pred_option (tagged t) a" "pred_option (tagged t) b"
    "list_all (\<lambda>e. \<not> tagged t e) r" "list_all (\<lambda>e. \<not> tagged t e) s"
  shows "a = b \<and> r = s"
  using assms by (cases a; cases b) auto

lemma uint_word_num_inject [simp]: "uint (a :: u32) = uint b \<longleftrightarrow> a = b"
  by (rule word_uint_eq_iff [symmetric])

lemma map_inject_mem:
  "(\<And>x y. x \<in> set xs \<Longrightarrow> f x = f y \<longleftrightarrow> x = y) \<Longrightarrow> map f xs = map f ys \<longleftrightarrow> xs = ys"
proof (induction xs arbitrary: ys)
  case (Cons x xs)
  then show ?case by (cases ys) auto
qed auto

lemma map_inject: "(\<And>x y. f x = f y \<longleftrightarrow> x = y) \<Longrightarrow> map f xs = map f ys \<longleftrightarrow> xs = ys"
  by (rule map_inject_mem)

lemma map_QStr_inject [simp]: "map QStr xs = map QStr ys \<longleftrightarrow> xs = ys"
  by (rule map_inject) simp

lemma role_annotation_inject [simp]:
  "role_annotation_to_sexpr a = role_annotation_to_sexpr b \<longleftrightarrow> a = b"
  by (cases a; cases b) (simp add: role_annotation_to_sexpr_def)

lemma map_opt_list: "map f (opt_list a) = opt_list (map_option f a)"
  by (cases a) auto

lemma perf_to_sexpr_inject: "perf_to_sexpr p = perf_to_sexpr q \<longleftrightarrow> p = q"
proof -
  have "map_option role_annotation_to_sexpr a = map_option role_annotation_to_sexpr b \<longleftrightarrow> a = b" for a b
    by (cases a; cases b) auto
  then show ?thesis by (cases p; cases q) (auto simp: perf_to_sexpr_def map_opt_list)
qed

lemma node_ref_to_sexpr_inject: "node_ref_to_sexpr a = node_ref_to_sexpr b \<longleftrightarrow> a = b"
  by (cases a; cases b) (auto simp: node_ref_to_sexpr_def)

lemma step_to_sexpr_inject: "step_to_sexpr a = step_to_sexpr b \<longleftrightarrow> a = b"
  by (cases a; cases b)
    (auto simp: step_to_sexpr_def map_inject [OF node_ref_to_sexpr_inject])

lemma display_type_inject [simp]: "display_type a = display_type b \<longleftrightarrow> a = b"
  by (cases a; cases b) (simp_all add: display_type_def)

lemma type_constraint_to_sexpr_inject [simp]:
  "type_constraint_to_sexpr a = type_constraint_to_sexpr b \<longleftrightarrow> a = b"
  by (cases a; cases b) (auto simp: type_constraint_to_sexpr_def)

lemma default_to_sexpr_inject [simp]: "default_to_sexpr a = default_to_sexpr b \<longleftrightarrow> a = b"
  by (simp add: default_to_sexpr_def)

lemma shape_rule_to_sexpr_inject: "shape_rule_to_sexpr a = shape_rule_to_sexpr b \<longleftrightarrow> a = b"
proof (induction a arbitrary: b)
  case (Require k tc children)
  then show ?case by (cases b) (simp_all add: map_inject_mem)
next
  case (Optional k tc dflt children)
  then show ?case by (cases b) (simp_all add: map_inject_mem)
next
  case (MaxDepth n)
  then show ?case by (cases b) auto
qed

lemma shape_to_sexpr_inject: "shape_to_sexpr a = shape_to_sexpr b \<longleftrightarrow> a = b"
  by (cases a; cases b)
    (auto simp: shape_to_sexpr_def map_inject [OF shape_rule_to_sexpr_inject])

lemma shapes_to_sexpr_inject: "shapes_to_sexpr a = shapes_to_sexpr b \<longleftrightarrow> a = b"
  by (simp add: shapes_to_sexpr_def map_inject [OF shape_to_sexpr_inject])

lemma roles_to_sexpr_inject: "roles_to_sexpr a = roles_to_sexpr b \<longleftrightarrow> a = b"
proof -
  have "List [Sym ''role-decl'', QStr (role_name r),
      Sym (case cardinality r of Singleton \<Rightarrow> ''singleton'' | Indexed \<Rightarrow> ''indexed'')] =
    List [Sym ''role-decl'', QStr (role_name s),
      Sym (case cardinality s of Singleton \<Rightarrow> ''singleton'' | Indexed \<Rightarrow> ''indexed'')] \<longleftrightarrow> r = s" for r s :: role_decl
    by (cases r; cases s) (auto split: role_cardinality.splits)
  then show ?thesis unfolding roles_to_sexpr_def by (simp add: map_inject)
qed

text \<open>The rosters of a certification profile are signed sorted and with the fault bound they resolve
  to.\<close>

definition cert_norm :: "certification \<Rightarrow> certification" where
  "cert_norm c = (case c of
       HostGate \<Rightarrow> HostGate
     | QuorumBudget vs fs \<Rightarrow> QuorumBudget (map_option sort vs) (case vs of
           Some keys \<Rightarrow> (case committee_new keys fs of Inr cm \<Rightarrow> Some (faults cm) | Inl _ \<Rightarrow> None)
         | None \<Rightarrow> fs))"

definition counter_norm :: "counter_rule \<Rightarrow> counter_rule" where
  "counter_norm c = c\<lparr>certification := cert_norm (certification c)\<rparr>"

definition cert_sexpr :: "certification \<Rightarrow> sexpr option" where
  "cert_sexpr c = (case c of
       HostGate \<Rightarrow> None
     | QuorumBudget vs fs \<Rightarrow> Some (List ([Sym ''certification'', Sym ''quorum-budget''] @
         opt_list (map_option (\<lambda>keys. List (Sym ''validators'' # map Sym keys)) vs) @
         opt_list (map_option (\<lambda>f. List [Sym ''faults'', word_num f]) fs))))"

lemma canonical_option_norm: "canonical_option c = cert_sexpr (cert_norm c)"
proof (cases c)
  case (QuorumBudget vs fs)
  then show ?thesis
    by (cases vs) (auto simp: canonical_option_def cert_sexpr_def cert_norm_def split: option.splits sum.splits)
qed (simp add: canonical_option_def cert_sexpr_def cert_norm_def)

lemma map_Sym_eq [simp]: "map Sym xs = map Sym ys \<longleftrightarrow> xs = ys"
  by (rule map_inject) simp

lemma cert_sexpr_inject: "cert_sexpr a = cert_sexpr b \<longleftrightarrow> a = b"
proof (cases a; cases b)
  fix vs fs vs' fs'
  assume ab: "a = QuorumBudget vs fs" "b = QuorumBudget vs' fs'"
  show ?thesis unfolding ab
    by (cases vs; cases fs; cases vs'; cases fs') (simp_all add: cert_sexpr_def)
qed (simp_all add: cert_sexpr_def)

definition op_sexpr :: "string \<Rightarrow> string \<times> string \<times> string \<Rightarrow> sexpr" where
  "op_sexpr name t = List [Sym name, Sym (fst t), Kw (fst (snd t)), Kw (snd (snd t))]"

lemma op_sexpr_inject [simp]: "op_sexpr n t = op_sexpr n t' \<longleftrightarrow> t = t'"
  by (cases t; cases t') (auto simp: op_sexpr_def)

definition issuer_sexpr :: "string \<Rightarrow> sexpr" where
  "issuer_sexpr i = (if i = [] then List [] else Sym i)"

lemma issuer_sexpr_inject [simp]: "issuer_sexpr i = issuer_sexpr j \<longleftrightarrow> i = j"
  by (simp add: issuer_sexpr_def)

lemma canonical_options_parts:
  "canonical_options c = [List [Sym ''floor'', Atom (Num (floor_bound c))]] @
     opt_list (map_option (\<lambda>n. List [Sym ''ceiling'', Atom (Num n)]) (ceiling_bound c)) @
     opt_list (cert_sexpr (cert_norm (certification c))) @
     opt_list (if ownership c = Collective then Some (List [Sym ''ownership'', Sym ''collective'']) else None) @
     [List [Sym (if ownership c = Collective then ''initial'' else ''initial-rights''),
        Sym (initial_verb c), Kw (initial_key c)]] @
     opt_list (map_option (\<lambda>k. List [Sym ''initial-headroom'', Sym (initial_verb c), Kw k]) (headroom_key c)) @
     [List [Sym ''issuers'', issuer_sexpr (issuer c)],
      List [Sym ''increment'', Sym (fst (increment c)), Kw (snd (increment c))],
      List [Sym ''decrement'', Sym (fst (decrement c)), Kw (snd (decrement c))]] @
     opt_list (map_option (op_sexpr ''transfer'') (transfer_op c)) @
     opt_list (map_option (op_sexpr ''transfer-headroom'') (transfer_headroom c))"
  unfolding canonical_options_def canonical_option_norm
  by (auto simp: op_sexpr_def issuer_sexpr_def split: option.split)

lemma tagged_cert: "pred_option (tagged ''certification'') (cert_sexpr c)"
  by (auto simp: cert_sexpr_def split: certification.split)

lemma pred_option_map: "pred_option P (map_option f a) \<longleftrightarrow> pred_option (\<lambda>x. P (f x)) a"
  by (cases a) auto

lemma list_all_opt_list [simp]: "list_all P (opt_list a) \<longleftrightarrow> pred_option P a"
  by (cases a) auto

lemma not_tagged_cert: "t \<noteq> ''certification'' \<Longrightarrow> pred_option (\<lambda>e. \<not> tagged t e) (cert_sexpr c)"
  by (auto simp: cert_sexpr_def split: certification.split)

lemma map_option_inject: "(\<And>x y. f x = f y \<longleftrightarrow> x = y) \<Longrightarrow> map_option f a = map_option f b \<longleftrightarrow> a = b"
  by (cases a; cases b) auto

lemma canonical_options_inject:
  "canonical_options c = canonical_options c' \<longleftrightarrow> counter_norm c = counter_norm c'"
proof
  assume eq: "canonical_options c = canonical_options c'"
  note tags = tagged_cert not_tagged_cert pred_option_map op_sexpr_def option.pred_True
  let ?ceil = "\<lambda>c. map_option (\<lambda>n. List [Sym ''ceiling'', Atom (Num n)]) (ceiling_bound c)"
  let ?own = "\<lambda>c. if ownership c = Collective then Some (List [Sym ''ownership'', Sym ''collective'']) else None"
  let ?head = "\<lambda>c. map_option (\<lambda>k. List [Sym ''initial-headroom'', Sym (initial_verb c), Kw k]) (headroom_key c)"
  let ?tail = "\<lambda>c. opt_list (map_option (op_sexpr ''transfer'') (transfer_op c)) @
     opt_list (map_option (op_sexpr ''transfer-headroom'') (transfer_headroom c))"
  let ?ops = "\<lambda>c. [List [Sym ''issuers'', issuer_sexpr (issuer c)],
      List [Sym ''increment'', Sym (fst (increment c)), Kw (snd (increment c))],
      List [Sym ''decrement'', Sym (fst (decrement c)), Kw (snd (decrement c))]] @ ?tail c"
  let ?init = "\<lambda>c. [List [Sym (if ownership c = Collective then ''initial'' else ''initial-rights''),
        Sym (initial_verb c), Kw (initial_key c)]]"
  let ?r1 = "\<lambda>c. ?init c @ opt_list (?head c) @ ?ops c"
  let ?r2 = "\<lambda>c. opt_list (?own c) @ ?r1 c"
  let ?r3 = "\<lambda>c. opt_list (cert_sexpr (cert_norm (certification c))) @ ?r2 c"
  have 0: "floor_bound c = floor_bound c'" and a: "opt_list (?ceil c) @ ?r3 c = opt_list (?ceil c') @ ?r3 c'"
    using eq by (simp_all add: canonical_options_parts)
  have 1: "?ceil c = ?ceil c' \<and> ?r3 c = ?r3 c'"
    by (rule opt_item_inject [where t = "''ceiling''", OF a]) (simp_all add: tags)
  have 2: "cert_sexpr (cert_norm (certification c)) = cert_sexpr (cert_norm (certification c')) \<and> ?r2 c = ?r2 c'"
    by (rule opt_item_inject [where t = "''certification''", OF conjunct2 [OF 1]]) (simp_all add: tags)
  have 3: "?own c = ?own c' \<and> ?r1 c = ?r1 c'"
    by (rule opt_item_inject [where t = "''ownership''", OF conjunct2 [OF 2]]) (simp_all add: tags)
  have own: "ownership c = ownership c'"
    using conjunct1 [OF 3] by (cases "ownership c"; cases "ownership c'") simp_all
  have b: "initial_verb c = initial_verb c' \<and> initial_key c = initial_key c' \<and>
      opt_list (?head c) @ ?ops c = opt_list (?head c') @ ?ops c'"
    using conjunct2 [OF 3] unfolding own by (simp (no_asm_use))
  note 5 = b [THEN conjunct1] b [THEN conjunct2, THEN conjunct1]
  have 6: "?head c = ?head c' \<and> ?ops c = ?ops c'"
    by (rule opt_item_inject [where t = "''initial-headroom''", OF b [THEN conjunct2, THEN conjunct2]]) (simp_all add: tags)
  have 8: "issuer c = issuer c'" "increment c = increment c'" "decrement c = decrement c'"
    and d: "?tail c = ?tail c'"
    using conjunct2 [OF 6] by (simp_all add: prod_eq_iff)
  have 9: "map_option (op_sexpr ''transfer'') (transfer_op c) = map_option (op_sexpr ''transfer'') (transfer_op c') \<and>
    opt_list (map_option (op_sexpr ''transfer-headroom'') (transfer_headroom c)) =
    opt_list (map_option (op_sexpr ''transfer-headroom'') (transfer_headroom c'))"
    by (rule opt_item_inject [where t = "''transfer''", OF d]) (simp_all add: tags)
  have "ceiling_bound c = ceiling_bound c'" using 1 by (simp add: map_option_inject)
  moreover have "headroom_key c = headroom_key c'" using 6 5 by (simp add: map_option_inject)
  moreover have "transfer_op c = transfer_op c'" "transfer_headroom c = transfer_headroom c'"
    using 9 by (simp_all add: map_option_inject)
  ultimately show "counter_norm c = counter_norm c'"
    using 0 2 own 5 8 by (simp add: counter_norm_def cert_sexpr_inject)
next
  assume "counter_norm c = counter_norm c'"
  then show "canonical_options c = canonical_options c'"
    by (cases c; cases c') (simp add: counter_norm_def canonical_options_parts)
qed

definition rule_norm :: "rule \<Rightarrow> rule" where
  "rule_norm r = (case r of BoundedCounter c \<Rightarrow> BoundedCounter (counter_norm c) | _ \<Rightarrow> r)"

definition entry_norm :: "clause_entry \<Rightarrow> clause_entry" where
  "entry_norm e = (case e of EField name r \<Rightarrow> EField name (rule_norm r) | _ \<Rightarrow> e)"

lemma rule_args_inject:
  assumes "rule_head r = rule_head r'"
  shows "rule_args r = rule_args r' \<longleftrightarrow> rule_norm r = rule_norm r'"
  using assms
  by (cases r; cases r')
    (simp_all add: rule_head_def rule_args_def rule_norm_def canonical_options_inject map_opt_list
      map_option_inject)

lemma rule_head_norm: "rule_head (rule_norm r) = rule_head r"
  by (cases r) (simp_all add: rule_norm_def rule_head_def)

lemma rule_norm_head: "rule_norm r = rule_norm r' \<Longrightarrow> rule_head r = rule_head r'"
  by (metis rule_head_norm)

lemma entry_to_sexpr_inject: "entry_to_sexpr a = entry_to_sexpr b \<longleftrightarrow> entry_norm a = entry_norm b"
proof (cases a; cases b)
  fix n r n' r'
  assume ab: "a = EField n r" "b = EField n' r'"
  have "rule_head r = rule_head r' \<and> rule_args r = rule_args r' \<longleftrightarrow> rule_norm r = rule_norm r'"
    using rule_args_inject [of r r'] rule_norm_head [of r r'] by auto
  then show ?thesis unfolding ab by (auto simp: entry_to_sexpr_def entry_norm_def)
qed (simp_all add: entry_to_sexpr_def entry_norm_def)

lemma map_inject_norm:
  assumes "\<And>x y. f x = f y \<longleftrightarrow> g x = g y"
  shows "map f xs = map f ys \<longleftrightarrow> map g xs = map g ys"
proof (induction xs arbitrary: ys)
  case (Cons x xs)
  then show ?case using assms by (cases ys) auto
qed simp

definition clause_norm :: "state_clause \<Rightarrow> state_clause" where
  "clause_norm c = \<lparr>entries = map entry_norm (entries c)\<rparr>"

lemma state_to_sexpr_inject: "state_to_sexpr a = state_to_sexpr b \<longleftrightarrow> clause_norm a = clause_norm b"
  by (simp add: state_to_sexpr_def clause_norm_def map_inject_norm [OF entry_to_sexpr_inject])

lemma state_bounds_to_sexpr_inject: "state_bounds_to_sexpr a = state_bounds_to_sexpr b \<longleftrightarrow> a = b"
  by (cases a; cases b) (auto simp: state_bounds_to_sexpr_def)

text \<open>
  A protocol is keyed by the performatives of its steps; the signable form lists the steps without
  their keys. The part of a dialect under the signature: everything but the signature, the hash, the
  \<open>protocol\<close> label and the derived routes, with rosters in signed form.
\<close>

definition keyed_by_step :: "causal_protocol \<Rightarrow> bool" where
  "keyed_by_step cp \<longleftrightarrow> list_all (\<lambda>(name, step). step_performative step = name) (steps cp)"

definition signed_part :: "dialect \<Rightarrow> dialect" where
  "signed_part d = d\<lparr>d_signature := None, d_hash := None, d_protocol := None,
     d_causal_locality := (case d_causal_locality d of Reject \<Rightarrow> Reject | Derive _ \<Rightarrow> Derive []),
     d_state := map_option clause_norm (d_state d)\<rparr>"

lemma keyed_steps:
  "keyed_by_step cp \<Longrightarrow> steps cp = map (\<lambda>s. (step_performative s, s)) (bt_values (steps cp))"
  unfolding keyed_by_step_def list_all_iff map_map by (rule sym, rule map_idI) auto

lemma protocol_to_sexpr_inject:
  assumes "keyed_by_step a" "keyed_by_step b"
  shows "protocol_to_sexpr a = protocol_to_sexpr b \<longleftrightarrow> a = b"
proof -
  have "bt_values (steps a) = bt_values (steps b) \<longleftrightarrow> steps a = steps b"
    using keyed_steps [OF assms(1)] keyed_steps [OF assms(2)] by metis
  then show ?thesis unfolding protocol_to_sexpr_def
    by (cases a; cases b) (simp add: map_inject [OF step_to_sexpr_inject] del: map_map)
qed

lemma optional_clauses_tags:
  "list_all2 (\<lambda>t. pred_option (tagged t))
     [''causal-protocol'', ''shapes'', ''roles'', ''causal-locality'', ''state'', ''state-bounds'']
     (optional_clauses d)"
  by (auto simp: optional_clauses_def protocol_to_sexpr_def shapes_to_sexpr_def roles_to_sexpr_def
      state_to_sexpr_def state_bounds_to_sexpr_def pred_option_map option.pred_True
      split: causal_locality.split)

lemma tagged_unique: "tagged t e \<Longrightarrow> tagged t' e \<longleftrightarrow> t' = t"
  by (auto simp: tagged_def)

lemma optional_items_inject:
  assumes "list_all2 (\<lambda>t. pred_option (tagged t)) ts as" "list_all2 (\<lambda>t. pred_option (tagged t)) ts bs"
    "distinct ts" "concat (map opt_list as) = concat (map opt_list bs)"
  shows "as = bs"
  using assms
proof (induction ts arbitrary: as bs)
  case (Cons t ts)
  then obtain a as' b bs' where ab: "as = a # as'" "bs = b # bs'"
    and tags: "pred_option (tagged t) a" "pred_option (tagged t) b"
      "list_all2 (\<lambda>t. pred_option (tagged t)) ts as'" "list_all2 (\<lambda>t. pred_option (tagged t)) ts bs'"
    by (auto simp: list_all2_Cons1)
  have other: "list_all (\<lambda>e. \<not> tagged t e) (concat (map opt_list cs))"
    if "list_all2 (\<lambda>t. pred_option (tagged t)) us cs" "t \<notin> set us" for us cs
    using that
    by (induction rule: list_all2_induct) (auto simp: option.pred_set tagged_unique)
  have "a = b \<and> concat (map opt_list as') = concat (map opt_list bs')"
    by (rule opt_item_inject [where t = t])
      (use Cons.prems ab tags other in auto)
  then show ?case using Cons.IH [OF tags(3,4)] Cons.prems ab by simp
qed simp

lemma signable_inject:
  assumes "pred_option keyed_by_step (d_causal_protocol d)" "pred_option keyed_by_step (d_causal_protocol d')"
  shows "dialect_canonical_bytes d = dialect_canonical_bytes d' \<longleftrightarrow> signed_part d = signed_part d'"
proof -
  have "concat (map opt_list (optional_clauses d)) = concat (map opt_list (optional_clauses d')) \<longleftrightarrow>
      optional_clauses d = optional_clauses d'"
    using optional_items_inject [OF optional_clauses_tags [of d] optional_clauses_tags [of d']] by auto
  moreover have "map_option protocol_to_sexpr (d_causal_protocol d) = map_option protocol_to_sexpr (d_causal_protocol d')
      \<longleftrightarrow> d_causal_protocol d = d_causal_protocol d'"
    using assms protocol_to_sexpr_inject by (cases "d_causal_protocol d"; cases "d_causal_protocol d'") auto
  moreover have "map_option state_to_sexpr (d_state d) = map_option state_to_sexpr (d_state d')
      \<longleftrightarrow> map_option clause_norm (d_state d) = map_option clause_norm (d_state d')"
    using state_to_sexpr_inject by (cases "d_state d"; cases "d_state d'") auto
  ultimately have opt: "concat (map opt_list (optional_clauses d)) = concat (map opt_list (optional_clauses d')) \<longleftrightarrow>
      d_causal_protocol d = d_causal_protocol d' \<and> d_shapes d = d_shapes d' \<and> d_roles d = d_roles d' \<and>
      (d_causal_locality d = Reject \<longleftrightarrow> d_causal_locality d' = Reject) \<and>
      map_option clause_norm (d_state d) = map_option clause_norm (d_state d') \<and>
      d_state_bounds d = d_state_bounds d'"
    unfolding optional_clauses_def
    by (auto simp: shapes_to_sexpr_inject roles_to_sexpr_inject map_option_inject [OF state_bounds_to_sexpr_inject]
        split: causal_locality.splits)
  have bytes: "dialect_canonical_bytes d = dialect_canonical_bytes d' \<longleftrightarrow> d_name d = d_name d' \<and>
      d_extends d = d_extends d' \<and> d_author d = d_author d' \<and> d_performatives d = d_performatives d' \<and>
      d_resources d = d_resources d' \<and> d_examples d = d_examples d' \<and>
      concat (map opt_list (optional_clauses d)) = concat (map opt_list (optional_clauses d'))"
    by (cases "d_resources d"; cases "d_resources d'")
      (auto simp: dialect_canonical_bytes_def canonical_encode_inject to_signable_sexpr_def
        map_inject [OF perf_to_sexpr_inject])
  have locality: "(case l of Reject \<Rightarrow> Reject | Derive _ \<Rightarrow> Derive []) =
      (case l' of Reject \<Rightarrow> Reject | Derive _ \<Rightarrow> Derive []) \<longleftrightarrow> (l = Reject \<longleftrightarrow> l' = Reject)" for l l'
    by (cases l; cases l') auto
  show ?thesis unfolding bytes opt
    by (cases d; cases d') (auto simp: signed_part_def locality)
qed

section \<open>Properties\<close>

text \<open>The signature of a dialect binds its meaning: two dialects have the same signed octets exactly
  when they agree on everything but the signature, hash and label fields, the derived routes and the
  spelling of validator rosters.\<close>

lemma dialect_signature_binding:
  assumes "pred_option keyed_by_step (d_causal_protocol d)" "pred_option keyed_by_step (d_causal_protocol d')"
  shows "dialect_canonical_bytes d = dialect_canonical_bytes d' \<longleftrightarrow> signed_part d = signed_part d'"
  using assms by (rule signable_inject)

lemma dialect_signature_binding_witness:
  "dialect_canonical_bytes (base_dialect\<lparr>d_hash := Some ''h''\<rparr>) = dialect_canonical_bytes base_dialect \<and>
   dialect_canonical_bytes (base_dialect\<lparr>d_roles := sample_roles\<rparr>) \<noteq> dialect_canonical_bytes base_dialect"
  using dialect_signature_binding [of "base_dialect\<lparr>d_hash := Some ''h''\<rparr>" base_dialect]
    dialect_signature_binding [of "base_dialect\<lparr>d_roles := sample_roles\<rparr>" base_dialect]
  by (simp add: base_dialect_def signed_part_def sample_roles_def)

text \<open>R1 reports exactly the performatives that the mentions of each other's names lead back to
  themselves; with one definition per name it accepts a dialect exactly when expansion through
  template mentions can never come back.\<close>

lemma r1_exact:
  assumes "distinct (performative_names d)" "d_name d \<noteq> BASE_NAME"
  defines "uses \<equiv> {(p_name p, p_name q) | p q. p \<in> set (d_performatives d) \<and>
    q \<in> set (d_performatives d) \<and> contains_self_reference (p_name q) (p_template p)}"
  shows "set (r1_violations d) = {n. (n, n) \<in> uses\<^sup>+} \<and> (verify_r1_dialect d \<longleftrightarrow> acyclic uses)"
proof -
  have "last_template d (p_name p) = Some (p_template p)" if "p \<in> set (d_performatives d)" for p
  proof -
    have "map_of (map (\<lambda>x. (p_name x, p_template x)) (rev (d_performatives d))) (p_name p) = Some (p_template p)"
      using assms(1) that
      by (intro map_of_is_SomeI) (auto simp: performative_names_def comp_def rev_map [symmetric])
    then show ?thesis by (simp add: last_template_def map_of_find)
  qed
  moreover have "\<exists>p \<in> set (d_performatives d). p_name p = a" if "last_template d a = Some t" for a t
    using that by (auto simp: last_template_def find_Some_iff) (metis nth_mem length_rev set_rev)
  ultimately have "mentions d = uses"
    by (fastforce simp: mentions_def uses_def performative_names_def)
  moreover have "n \<in> set (performative_names d)" if "(n, n) \<in> (mentions d)\<^sup>+" for n
    using that by (auto dest!: tranclD simp: mentions_defined)
  ultimately show ?thesis
    using r1_violations_exact [OF assms(2)] verify_r1_exact [of d] assms(2) by auto
qed

definition sample_perf :: "string \<Rightarrow> sexpr \<Rightarrow> performative_def" where
  "sample_perf n t = \<lparr>p_name = n, p_params = [], p_template = t, p_role = None\<rparr>"

definition sample_ping :: dialect where
  "sample_ping = base_dialect\<lparr>d_name := ''ping'', d_performatives :=
     [sample_perf ''ping'' (List [Sym ''pong'']), sample_perf ''pong'' (List [Sym ''ping''])]\<rparr>"

lemma r1_exact_witness: "\<not> verify_r1_dialect sample_ping"
proof -
  define uses where "uses = {(p_name p, p_name q) | p q. p \<in> set (d_performatives sample_ping) \<and>
    q \<in> set (d_performatives sample_ping) \<and> contains_self_reference (p_name q) (p_template p)}"
  let ?a = "sample_perf ''ping'' (List [Sym ''pong''])" and ?b = "sample_perf ''pong'' (List [Sym ''ping''])"
  have members: "?a \<in> set (d_performatives sample_ping)" "?b \<in> set (d_performatives sample_ping)"
    and refs: "contains_self_reference (p_name ?b) (p_template ?a)"
      "contains_self_reference (p_name ?a) (p_template ?b)"
    by (simp_all add: sample_ping_def sample_perf_def)
  have edges: "(p_name ?a, p_name ?b) \<in> uses" "(p_name ?b, p_name ?a) \<in> uses"
    unfolding uses_def using members refs by blast+
  have "(p_name ?a, p_name ?a) \<in> uses\<^sup>+"
    by (rule trancl_into_trancl [OF r_into_trancl [OF edges(1)] edges(2)])
  then have "\<not> acyclic uses" by (auto simp only: acyclic_def)
  moreover have names: "distinct (performative_names sample_ping)" "d_name sample_ping \<noteq> BASE_NAME"
    by (simp_all add: sample_ping_def performative_names_def sample_perf_def BASE_NAME_def)
  ultimately show ?thesis using r1_exact [OF names] unfolding uses_def by (simp only: HOL.simp_thms)
qed

text \<open>R1 reads the last definition of a name and lookups read the first, so a recursive definition
  followed by a harmless one of the same name passes R1 and is the one that lookups return.\<close>

lemma r1_misses_shadowed_definition:
  "\<exists>d p. verify_r1_dialect d \<and> verify_r3 d \<and> find_performative d ''loop'' = Some p \<and>
     contains_self_reference ''loop'' (p_template p)"
proof -
  let ?d = "base_dialect\<lparr>d_name := ''dup'', d_performatives :=
    [sample_perf ''loop'' (List [Sym ''loop'']), sample_perf ''loop'' (List [])]\<rparr>"
  have "mentions ?d = {}"
    by (auto simp: mentions_def last_template_def sample_perf_def)
  then have "verify_r1_dialect ?d" unfolding verify_r1_exact by (simp add: acyclic_def)
  moreover have "verify_r3 ?d"
    by (simp add: verify_r3_def sample_perf_def is_core_performative_name_def CORE_PERFORMATIVE_NAMES_def)
  ultimately show ?thesis
    by (intro exI [of _ ?d] exI [of _ "sample_perf ''loop'' (List [Sym ''loop''])"])
      (simp add: find_performative_def sample_perf_def)
qed

end
