(* ===== verification/Cbcl_R6.thy ===== *)
theory Cbcl_R6
  imports Cbcl_Dialect
begin

text \<open>
  R6, the role checks of \<open>cbcl-core/src/r6.rs\<close>: the dialect-level violations, the cast-instantiated
  violations run at thread open, and the two derivations of envelope routes. The findings of a loop are
  listed in the order the source pushes them and \<open>push_unique\<close> drops repetitions; the operation
  counter that only tests read is left out. The dialect-level derivation is shown to compute the least
  routing table under which causal locality holds.
\<close>

section \<open>Dialect-level checks\<close>

definition endpoints :: "role_annotation \<Rightarrow> string btset" where
  "endpoints ann = bs_insert (ann_from ann) (ann_to ann)"

definition push_unique :: "r6_violation list \<Rightarrow> r6_violation \<Rightarrow> r6_violation list" where
  "push_unique vs v = (if v \<in> set vs then vs else vs @ [v])"

definition annotations :: "dialect \<Rightarrow> (string, role_annotation) btmap" where
  "annotations d = bt_of_list (List.map_filter
     (\<lambda>p. map_option (\<lambda>ann. (p_name p, ann)) (p_role p)) (d_performatives d))"

text \<open>A \<open>(repeat k \<dots>)\<close> copy inherits the annotation of its base performative.\<close>

definition annotation_of :: "dialect \<Rightarrow> string \<Rightarrow> role_annotation option" where
  "annotation_of d name = bt_get (annotations d) (repeat_base_name name)"

definition stray_findings :: "dialect \<Rightarrow> r6_violation list" where
  "stray_findings d = map (\<lambda>p. StrayAnnotation (p_name p)) (filter (\<lambda>p. p_role p \<noteq> None) (d_performatives d))"

definition undeclared_findings :: "dialect \<Rightarrow> r6_violation list" where
  "undeclared_findings d = concat (map (\<lambda>p. case p_role p of
       None \<Rightarrow> []
     | Some ann \<Rightarrow> map (UndeclaredRole (p_name p))
         (filter (\<lambda>r. r \<notin> role_name ` set (d_roles d)) (ann_from ann # ann_to ann)))
     (d_performatives d))"

definition missing_findings :: "dialect \<Rightarrow> causal_protocol \<Rightarrow> r6_violation list" where
  "missing_findings d cp = map (\<lambda>name. MissingFromTo (repeat_base_name name))
     (filter (\<lambda>name. name \<noteq> BEGIN_KEYWORD \<and> annotation_of d name = None) (bt_keys (steps cp)))"

definition check_choice :: "dialect \<Rightarrow> string list \<Rightarrow> r6_violation list" where
  "check_choice d members =
     (let named = filter (\<lambda>m. m \<noteq> BEGIN_KEYWORD) members
      in if length named < 2 then []
         else let senders = bs_of_list (List.map_filter
                  (\<lambda>m. map_option ann_from (annotation_of d m)) named)
              in if 1 < length senders then [ChooserIncoherent named] else [])"

definition step_choices :: "step_decl \<Rightarrow> string list list" where
  "step_choices step =
     List.map_filter (\<lambda>nr. case nr of NAny ss \<Rightarrow> Some ss | _ \<Rightarrow> None) (predecessors step @ successors step) @
     (if 2 \<le> length (predecessors step) then [concat (map performatives_of (predecessors step))] else [])"

definition choice_findings :: "dialect \<Rightarrow> causal_protocol \<Rightarrow> r6_violation list" where
  "choice_findings d cp =
     concat (map (\<lambda>step. concat (map (check_choice d) (step_choices step))) (bt_values (steps cp)))"

definition step_preds :: "step_decl \<Rightarrow> string list" where
  "step_preds step = filter (\<lambda>p. p \<noteq> BEGIN_KEYWORD) (concat (map performatives_of (predecessors step)))"

text \<open>The pairs the locality scan visits: an annotated step other than \<open>begin\<close> with an annotated
  predecessor other than \<open>begin\<close>, each with its annotation.\<close>

definition step_citations ::
  "dialect \<Rightarrow> step_decl \<Rightarrow> (string \<times> role_annotation \<times> string \<times> role_annotation) list" where
  "step_citations d step =
     (if step_performative step = BEGIN_KEYWORD then []
      else case annotation_of d (step_performative step) of
          None \<Rightarrow> []
        | Some t_ann \<Rightarrow> List.map_filter
            (\<lambda>pred. map_option (\<lambda>p_ann. (step_performative step, t_ann, pred, p_ann)) (annotation_of d pred))
            (step_preds step))"

definition citations ::
  "dialect \<Rightarrow> causal_protocol \<Rightarrow> (string \<times> role_annotation \<times> string \<times> role_annotation) list" where
  "citations d cp = concat (map (step_citations d) (bt_values (steps cp)))"

definition locality_findings :: "dialect \<Rightarrow> causal_protocol \<Rightarrow> r6_violation list" where
  "locality_findings d cp = concat (map (\<lambda>(t, t_ann, pred, p_ann).
     map (NotCausallyLocal t pred) (filter (\<lambda>role. role \<notin> set (endpoints p_ann)) (endpoints t_ann)))
     (citations d cp))"

definition relax :: "digraph \<Rightarrow> string \<times> string \<Rightarrow> digraph" where
  "relax g ab = bt_insert (fst ab) (bs_insert (snd ab) (neighbors g (fst ab))) g"

definition step_relations :: "step_decl \<Rightarrow> (string \<times> string) list" where
  "step_relations step =
     map (\<lambda>succ. (step_performative step, succ)) (concat (map performatives_of (successors step))) @
     map (\<lambda>pred. (pred, step_performative step)) (concat (map performatives_of (predecessors step)))"

definition forward_adjacency :: "causal_protocol \<Rightarrow> digraph" where
  "forward_adjacency cp = foldl relax [] (concat (map step_relations (bt_values (steps cp))))"

lemma visit_filtered_step:
  "(q', v') = visit_neighbors (filter P (neighbors g c)) (q, v) \<Longrightarrow>
     length q' + unvisited g v' = length q + unvisited g v"
  unfolding unvisited_def by (intro visit_neighbors_measure [OF _ finite_neighbors]) auto

text \<open>The frontier is a stack with its top at the head: what a pop pushes is popped last first.\<close>

function reach_from_begin :: "digraph \<Rightarrow> string list \<Rightarrow> string btset \<Rightarrow> string btset" where
  "reach_from_begin adj [] reachable = reachable"
| "reach_from_begin adj (name # frontier) reachable =
     (case visit_neighbors (filter (\<lambda>succ. succ \<noteq> BEGIN_KEYWORD) (neighbors adj name)) ([], reachable) of
        (pushed, reachable') \<Rightarrow> reach_from_begin adj (rev pushed @ frontier) reachable')"
  by pat_completeness auto
termination
  by (relation "measure (\<lambda>(g, frontier, visited). length frontier + unvisited g visited)",
      simp, drule visit_filtered_step, simp)

definition reachable_from_begin :: "causal_protocol \<Rightarrow> string btset" where
  "reachable_from_begin cp = reach_from_begin (forward_adjacency cp) [BEGIN_KEYWORD] []"

definition role_covered :: "dialect \<Rightarrow> causal_protocol \<Rightarrow> string \<Rightarrow> bool" where
  "role_covered d cp role = list_ex (\<lambda>name. case annotation_of d name of
       None \<Rightarrow> False | Some ann \<Rightarrow> role \<in> set (endpoints ann)) (reachable_from_begin cp)"

definition reach_findings :: "dialect \<Rightarrow> causal_protocol \<Rightarrow> r6_violation list" where
  "reach_findings d cp = map (\<lambda>r. UnreachableRole (role_name r))
     (filter (\<lambda>r. \<not> role_covered d cp (role_name r)) (d_roles d))"

definition r6_findings :: "dialect \<Rightarrow> r6_violation list" where
  "r6_findings d =
     (if d_roles d = [] then stray_findings d
      else undeclared_findings d @ (case d_causal_protocol d of
          None \<Rightarrow> map (\<lambda>r. UnreachableRole (role_name r)) (d_roles d)
        | Some cp \<Rightarrow> missing_findings d cp @ choice_findings d cp @ locality_findings d cp @
            reach_findings d cp))"

definition r6_violations :: "dialect \<Rightarrow> r6_violation list" where
  "r6_violations d = foldl push_unique [] (r6_findings d)"

section \<open>Derived envelope routes\<close>

definition pair_routes :: "envelope_routes \<Rightarrow> (string \<times> string) set" where
  "pair_routes routes = {(p, r). routes_to routes p r}"

definition widened_endpoints :: "envelope_routes \<Rightarrow> string \<Rightarrow> role_annotation \<Rightarrow> string btset" where
  "widened_endpoints routes name ann =
     foldl (\<lambda>s r. bs_insert r s) (endpoints ann) (case bt_get routes name of None \<Rightarrow> [] | Some extra \<Rightarrow> extra)"

definition route_frontier :: "dialect \<Rightarrow> causal_protocol \<Rightarrow> envelope_routes \<Rightarrow> (string \<times> string) list" where
  "route_frontier d cp routes = concat (map (\<lambda>(t, t_ann, pred, p_ann).
     map (\<lambda>role. (pred, role))
       (filter (\<lambda>role. \<not> (role \<in> set (endpoints p_ann) \<or> routes_to routes pred role))
         (widened_endpoints routes t t_ann))) (citations d cp))"

definition add_route :: "envelope_routes \<times> bool \<Rightarrow> string \<times> string \<Rightarrow> envelope_routes \<times> bool" where
  "add_route rc pr = (case (rc, pr) of ((routes, changed), (pred, role)) \<Rightarrow>
     let entry = neighbors routes pred
     in (bt_insert pred (bs_insert role entry) routes, changed \<or> role \<notin> set entry))"

lemma routes_to_neighbors: "routes_to routes p r \<longleftrightarrow> r \<in> set (neighbors routes p)"
  by (auto simp: routes_to_def neighbors_def split: option.split)

lemma set_widened: "set (widened_endpoints routes name ann) = set (endpoints ann) \<union> {r. routes_to routes name r}"
  by (cases "bt_get routes name") (auto simp: widened_endpoints_def set_foldl_bs_insert routes_to_def)

lemma pair_routes_iff: "(p, r) \<in> pair_routes routes \<longleftrightarrow> r \<in> set (neighbors routes p)"
  by (simp add: pair_routes_def routes_to_neighbors)

lemma pair_routes_add_route:
  "pair_routes (fst (add_route rc pr)) = insert pr (pair_routes (fst rc)) \<and>
   (snd (add_route rc pr) \<longleftrightarrow> snd rc \<or> pr \<notin> pair_routes (fst rc))"
proof -
  obtain routes changed p r where rc: "rc = (routes, changed)" "pr = (p, r)" by (cases rc; cases pr)
  have "add_route rc pr = (bt_insert p (bs_insert r (neighbors routes p)) routes, changed \<or> r \<notin> set (neighbors routes p))"
    by (simp add: rc add_route_def Let_def)
  moreover have "pair_routes (bt_insert p (bs_insert r (neighbors routes p)) routes) = insert (p, r) (pair_routes routes)"
    by (rule set_eqI) (auto simp: pair_routes_iff neighbors_bt_insert split: if_splits)
  ultimately show ?thesis by (simp add: rc pair_routes_iff)
qed

lemma pair_routes_fold:
  "pair_routes (fst (foldl add_route rc prs)) = set prs \<union> pair_routes (fst rc)"
  "snd (foldl add_route rc prs) \<longleftrightarrow> snd rc \<or> \<not> set prs \<subseteq> pair_routes (fst rc)"
  by (induction prs arbitrary: rc) (auto simp: pair_routes_add_route)

text \<open>
  \<open>role_of d\<close> relates a performative to its endpoint roles, and \<open>cited_by d cp\<close> relates an annotated
  performative to the annotated performatives whose steps cite it. One pass of the derivation adds
  the pairs that \<open>cited_by\<close> carries over from the citing performatives and that are not there yet.
\<close>

definition role_of :: "dialect \<Rightarrow> (string \<times> string) set" where
  "role_of d = {(t, r). \<exists>ann. annotation_of d t = Some ann \<and> r \<in> set (endpoints ann)}"

definition cited_by :: "dialect \<Rightarrow> causal_protocol \<Rightarrow> (string \<times> string) set" where
  "cited_by d cp = {(p, t). annotation_of d p \<noteq> None \<and> annotation_of d t \<noteq> None \<and> t \<noteq> BEGIN_KEYWORD \<and>
     (\<exists>step \<in> set (bt_values (steps cp)). step_performative step = t \<and> p \<in> set (step_preds step))}"

lemma role_of_iff: "annotation_of d t = Some ann \<Longrightarrow> (t, r) \<in> role_of d \<longleftrightarrow> r \<in> set (endpoints ann)"
  by (simp add: role_of_def)

lemma set_citations:
  "(t, t_ann, p, p_ann) \<in> set (citations d cp) \<longleftrightarrow>
     (p, t) \<in> cited_by d cp \<and> annotation_of d t = Some t_ann \<and> annotation_of d p = Some p_ann"
proof -
  have "(t, t_ann, p, p_ann) \<in> set (step_citations d step) \<longleftrightarrow> step_performative step = t \<and>
      t \<noteq> BEGIN_KEYWORD \<and> annotation_of d t = Some t_ann \<and> p \<in> set (step_preds step) \<and>
      annotation_of d p = Some p_ann" for step
    by (cases "annotation_of d (step_performative step)") (auto simp: step_citations_def set_map_filter)
  then show ?thesis by (auto simp: citations_def cited_by_def)
qed

lemma set_route_frontier:
  "set (route_frontier d cp routes) =
     cited_by d cp O (role_of d \<union> pair_routes routes) - (role_of d \<union> pair_routes routes)"
proof -
  have "(p, r) \<in> set (route_frontier d cp routes) \<longleftrightarrow>
      (\<exists>t t_ann p_ann. (t, t_ann, p, p_ann) \<in> set (citations d cp) \<and>
        r \<in> set (widened_endpoints routes t t_ann) \<and> r \<notin> set (endpoints p_ann) \<and> \<not> routes_to routes p r)" for p r
    by (auto simp: route_frontier_def) blast
  also have "\<dots> p r \<longleftrightarrow> (\<exists>t. (p, t) \<in> cited_by d cp \<and> (t, r) \<in> role_of d \<union> pair_routes routes) \<and>
      (p, r) \<notin> role_of d \<union> pair_routes routes" for p r
    unfolding set_citations set_widened Un_iff pair_routes_def role_of_def cited_by_def by auto
  finally show ?thesis by auto
qed

definition route_universe :: "dialect \<Rightarrow> causal_protocol \<Rightarrow> envelope_routes \<Rightarrow> (string \<times> string) set" where
  "route_universe d cp routes = Domain (cited_by d cp) \<times> (snd ` (role_of d \<union> pair_routes routes))"

lemma finite_pair_routes: "finite (pair_routes routes)"
proof (rule finite_subset)
  show "pair_routes routes \<subseteq> (\<Union>p \<in> set (bt_keys routes). {p} \<times> set (neighbors routes p))"
    using neighbors_key [where g = routes] by (auto simp: pair_routes_iff simp del: set_map)
qed simp

lemma finite_role_of: "finite (snd ` role_of d)"
proof (rule finite_subset)
  show "snd ` role_of d \<subseteq> (\<Union>ann \<in> snd ` set (annotations d). set (endpoints ann))"
  proof
    fix r assume "r \<in> snd ` role_of d"
    then obtain t ann where "annotation_of d t = Some ann" "r \<in> set (endpoints ann)"
      by (auto simp: role_of_def)
    then show "r \<in> (\<Union>ann \<in> snd ` set (annotations d). set (endpoints ann))"
      using map_of_SomeD [of "annotations d" "repeat_base_name t" ann]
      by (auto simp: annotation_of_def image_iff intro!: bexI [of _ "(repeat_base_name t, ann)"])
  qed
qed simp

lemma finite_cited: "finite (Domain (cited_by d cp))"
proof (rule finite_subset)
  show "Domain (cited_by d cp) \<subseteq> (\<Union>step \<in> set (bt_values (steps cp)). set (step_preds step))"
    by (auto simp: cited_by_def)
qed simp

lemma finite_route_universe: "finite (route_universe d cp routes)"
  by (simp add: route_universe_def finite_cited finite_role_of finite_pair_routes image_Un)

definition routes_left :: "dialect \<times> causal_protocol \<times> envelope_routes \<Rightarrow> nat" where
  "routes_left = (\<lambda>(d, cp, routes). card (route_universe d cp routes - pair_routes routes))"

lemma routes_left_decreases:
  assumes "foldl add_route (routes, False) (route_frontier d cp routes) = (routes', True)"
  shows "routes_left (d, cp, routes') < routes_left (d, cp, routes)"
proof -
  define F where "F = set (route_frontier d cp routes)"
  have new: "pair_routes routes' = F \<union> pair_routes routes" "\<not> F \<subseteq> pair_routes routes"
    using pair_routes_fold [of "(routes, False)" "route_frontier d cp routes"] assms by (auto simp: F_def)
  have F: "F \<subseteq> route_universe d cp routes"
    unfolding F_def set_route_frontier route_universe_def by force
  then have "snd ` F \<subseteq> snd ` (role_of d \<union> pair_routes routes)" unfolding route_universe_def by force
  then have "route_universe d cp routes' \<subseteq> route_universe d cp routes"
    unfolding route_universe_def new(1) by blast
  then have "route_universe d cp routes' - pair_routes routes' \<subset> route_universe d cp routes - pair_routes routes"
    using new F by blast
  then show ?thesis
    unfolding routes_left_def by (simp add: psubset_card_mono finite_route_universe)
qed

function derive_loop :: "dialect \<Rightarrow> causal_protocol \<Rightarrow> envelope_routes \<Rightarrow> envelope_routes" where
  "derive_loop d cp routes = (case foldl add_route (routes, False) (route_frontier d cp routes) of
       (routes', changed) \<Rightarrow> if changed then derive_loop d cp routes' else routes')"
  by pat_completeness auto
termination
  by (relation "measure routes_left") (auto intro: routes_left_decreases [OF sym])

definition derive_envelope_routes :: "dialect \<Rightarrow> envelope_routes" where
  "derive_envelope_routes d = (case d_causal_protocol d of
       None \<Rightarrow> []
     | Some cp \<Rightarrow> derive_loop d cp [])"

section \<open>The derived routes\<close>

declare derive_loop.simps [simp del]

lemma rtrancl_comp_closed:
  assumes "R O S \<subseteq> S" shows "R\<^sup>* O S \<subseteq> S"
proof -
  have "(a, b) \<in> R\<^sup>* \<Longrightarrow> (b, c) \<in> S \<Longrightarrow> (a, c) \<in> S" for a b c
    by (induction rule: converse_rtrancl_induct) (use assms in auto)
  then show ?thesis by auto
qed

lemma derive_loop_routes:
  "pair_routes routes \<subseteq> (cited_by d cp)\<^sup>* O role_of d - role_of d \<Longrightarrow>
     pair_routes (derive_loop d cp routes) = (cited_by d cp)\<^sup>* O role_of d - role_of d"
proof (induction d cp routes rule: derive_loop.induct [case_names step])
  case (step d cp routes)
  define C where "C = (cited_by d cp)\<^sup>* O role_of d"
  define F where "F = set (route_frontier d cp routes)"
  define T where "T = pair_routes routes"
  obtain routes' changed where r:
    "foldl add_route (routes, False) (route_frontier d cp routes) = (routes', changed)" by fastforce
  have T': "pair_routes routes' = F \<union> T" and ch: "changed \<longleftrightarrow> \<not> F \<subseteq> T"
    using pair_routes_fold [of "(routes, False)" "route_frontier d cp routes"] r by (auto simp: F_def T_def)
  have F: "F = cited_by d cp O (role_of d \<union> T) - (role_of d \<union> T)"
    unfolding F_def T_def by (rule set_route_frontier)
  have T: "T \<subseteq> C - role_of d" using step.prems by (simp add: C_def T_def)
  have E: "role_of d \<subseteq> C" by (auto simp: C_def)
  have closed: "cited_by d cp O C \<subseteq> C"
    unfolding C_def by (auto intro: converse_rtrancl_into_rtrancl)
  have FT: "F \<union> T \<subseteq> C - role_of d" using F T E closed by blast
  show ?case
  proof (cases changed)
    case True
    then show ?thesis using step.IH [OF r [symmetric] True] T' FT r
      by (simp add: derive_loop.simps [of d cp routes] C_def)
  next
    case False
    have "cited_by d cp O (role_of d \<union> T) \<subseteq> role_of d \<union> T" using F ch False by blast
    then have "(cited_by d cp)\<^sup>* O (role_of d \<union> T) \<subseteq> role_of d \<union> T" by (rule rtrancl_comp_closed)
    then have "C \<subseteq> role_of d \<union> T" by (auto simp: C_def)
    then have "F \<union> T = C - role_of d" using FT by blast
    then show ?thesis using False T' r by (simp add: derive_loop.simps [of d cp routes] C_def)
  qed
qed

lemma derived_routes_pairs:
  assumes "d_causal_protocol d = Some cp"
  shows "pair_routes (derive_envelope_routes d) = (cited_by d cp)\<^sup>* O role_of d - role_of d"
proof -
  have "pair_routes [] = {}" by (auto simp: pair_routes_def routes_to_def)
  then show ?thesis using derive_loop_routes [of "[]" d cp] assms by (simp add: derive_envelope_routes_def)
qed

text \<open>
  A set of routes makes a protocol causally local when every role that observes a performative, as an
  endpoint or through a route, observes the performatives it cites.
\<close>

definition causally_local :: "dialect \<Rightarrow> causal_protocol \<Rightarrow> (string \<times> string) set \<Rightarrow> bool" where
  "causally_local d cp T \<longleftrightarrow> cited_by d cp O (role_of d \<union> T) \<subseteq> role_of d \<union> T"

lemma derived_routes_local:
  assumes "d_causal_protocol d = Some cp"
  shows "causally_local d cp (pair_routes (derive_envelope_routes d))"
proof -
  have "role_of d \<union> pair_routes (derive_envelope_routes d) = (cited_by d cp)\<^sup>* O role_of d"
    unfolding derived_routes_pairs [OF assms] by auto
  then show ?thesis unfolding causally_local_def by (auto intro: converse_rtrancl_into_rtrancl)
qed

section \<open>What R6 decides\<close>

lemma set_push_unique: "set (foldl push_unique vs ws) = set vs \<union> set ws"
  by (induction ws arbitrary: vs) (auto simp: push_unique_def)

lemma set_r6_violations: "set (r6_violations d) = set (r6_findings d)"
  by (simp add: r6_violations_def set_push_unique)

lemma r6_violations_empty: "r6_violations d = [] \<longleftrightarrow> r6_findings d = []"
  by (metis set_r6_violations set_empty)

lemma locality_findings_exact:
  "NotCausallyLocal t p r \<in> set (locality_findings d cp) \<longleftrightarrow>
     (p, t) \<in> cited_by d cp \<and> (t, r) \<in> role_of d \<and> (p, r) \<notin> role_of d"
proof -
  have "NotCausallyLocal t p r \<in> set (locality_findings d cp) \<longleftrightarrow>
      (\<exists>t_ann p_ann. (t, t_ann, p, p_ann) \<in> set (citations d cp) \<and> r \<in> set (endpoints t_ann) \<and>
        r \<notin> set (endpoints p_ann))"
    by (auto simp: locality_findings_def) blast
  then show ?thesis unfolding set_citations role_of_def cited_by_def by auto
qed

lemma locality_findings_form: "v \<in> set (locality_findings d cp) \<Longrightarrow> \<exists>t p r. v = NotCausallyLocal t p r"
  by (auto simp: locality_findings_def)

lemma locality_findings_empty: "locality_findings d cp = [] \<longleftrightarrow> causally_local d cp {}"
proof -
  have "locality_findings d cp = [] \<longleftrightarrow> (\<nexists>t p r. NotCausallyLocal t p r \<in> set (locality_findings d cp))"
    using locality_findings_form by (metis list.set_intros(1) neq_Nil_conv empty_iff list.set(1))
  then show ?thesis unfolding locality_findings_exact causally_local_def by auto
qed

lemma edges_forward_adjacency:
  "edges (forward_adjacency cp) = (\<Union>step \<in> set (bt_values (steps cp)). set (step_relations step))"
proof -
  have "edges (foldl relax g abs) = edges g \<union> set abs" for g abs
  proof (induction abs arbitrary: g)
    case (Cons ab abs)
    have "edges (relax g ab) = insert ab (edges g)" by (cases ab) (auto simp: relax_def edges_def split: if_splits)
    then show ?case using Cons by simp
  qed simp
  moreover have "edges [] = {}" by (auto simp: edges_def neighbors_def)
  ultimately show ?thesis by (simp add: forward_adjacency_def)
qed

lemma reach_from_begin_exact:
  assumes "set frontier \<subseteq> insert BEGIN_KEYWORD (set reachable)"
    "\<And>a b. a \<in> insert BEGIN_KEYWORD (set reachable) - set frontier \<Longrightarrow> (a, b) \<in> edges adj \<Longrightarrow>
       b \<in> insert BEGIN_KEYWORD (set reachable)"
    "BEGIN_KEYWORD \<notin> set reachable"
  shows "set (reach_from_begin adj frontier reachable) =
    (edges adj)\<^sup>* `` insert BEGIN_KEYWORD (set reachable) - {BEGIN_KEYWORD}"
  using assms
proof (induction adj frontier reachable rule: reach_from_begin.induct)
  case (1 adj reachable)
  have "edges adj `` insert BEGIN_KEYWORD (set reachable) \<subseteq> insert BEGIN_KEYWORD (set reachable)"
    using "1.prems"(2) by (metis Diff_empty ImageE empty_set subsetI)
  then have "(edges adj)\<^sup>* `` insert BEGIN_KEYWORD (set reachable) = insert BEGIN_KEYWORD (set reachable)"
    by (rule Image_closed_trancl)
  then show ?case using 1 by auto
next
  case (2 adj name frontier reachable)
  let ?N = "filter (\<lambda>succ. succ \<noteq> BEGIN_KEYWORD) (neighbors adj name)"
  obtain q v where qv: "visit_neighbors ?N ([], reachable) = (q, v)" by fastforce
  let ?q = "rev q @ frontier"
  note sets = visit_neighbors_sets [OF qv]
  have name: "name \<in> insert BEGIN_KEYWORD (set reachable)" using "2.prems"(1) by simp
  have "set ?q \<subseteq> insert BEGIN_KEYWORD (set v)" using sets "2.prems"(1) by auto
  moreover have "b \<in> insert BEGIN_KEYWORD (set v)"
    if "a \<in> insert BEGIN_KEYWORD (set v) - set ?q" "(a, b) \<in> edges adj" for a b
    using that sets "2.prems"(2) [of a b] by (cases "a = name") auto
  moreover have "BEGIN_KEYWORD \<notin> set v" using sets "2.prems"(3) by auto
  ultimately have "set (reach_from_begin adj ?q v) = (edges adj)\<^sup>* `` insert BEGIN_KEYWORD (set v) - {BEGIN_KEYWORD}"
    using "2.IH" [OF qv [symmetric]] by blast
  also have "(edges adj)\<^sup>* `` insert BEGIN_KEYWORD (set v) = (edges adj)\<^sup>* `` insert BEGIN_KEYWORD (set reachable)"
  proof -
    have "(edges adj)\<^sup>* `` set (neighbors adj name) \<subseteq> (edges adj)\<^sup>* `` insert BEGIN_KEYWORD (set reachable)"
      using name converse_rtrancl_into_rtrancl [of name _ "edges adj"] by fastforce
    then have "(edges adj)\<^sup>* `` set ?N \<subseteq> (edges adj)\<^sup>* `` insert BEGIN_KEYWORD (set reachable)" by auto
    moreover have "insert BEGIN_KEYWORD (set v) = insert BEGIN_KEYWORD (set reachable) \<union> set ?N" using sets by auto
    ultimately show ?thesis by (metis Image_Un sup.absorb1)
  qed
  finally show ?case using qv by simp
qed

lemma set_reachable_from_begin:
  "set (reachable_from_begin cp) =
     ((\<Union>step \<in> set (bt_values (steps cp)). set (step_relations step))\<^sup>* `` {BEGIN_KEYWORD}) - {BEGIN_KEYWORD}"
  unfolding reachable_from_begin_def
  by (subst reach_from_begin_exact) (auto simp: edges_forward_adjacency)

text \<open>The sender of a performative, and choices whose annotated members share one sender.\<close>

definition sent_by :: "dialect \<Rightarrow> (string \<times> string) set" where
  "sent_by d = {(m, f). map_option ann_from (annotation_of d m) = Some f}"

definition coherent_choice :: "dialect \<Rightarrow> string list \<Rightarrow> bool" where
  "coherent_choice d members \<longleftrightarrow>
     (\<exists>f. sent_by d `` (set members - {BEGIN_KEYWORD}) \<subseteq> {f})"

lemma check_choice_ok: "check_choice d members = [] \<longleftrightarrow> coherent_choice d members"
proof -
  define named where "named = filter (\<lambda>m. m \<noteq> BEGIN_KEYWORD) members"
  define S where "S = bs_of_list (List.map_filter (\<lambda>m. map_option ann_from (annotation_of d m)) named)"
  have S: "set S = sent_by d `` (set members - {BEGIN_KEYWORD})"
    by (auto simp: S_def named_def set_map_filter sent_by_def)
  have d: "distinct S" by (simp add: S_def bs_sorted_distinct)
  have len: "length S \<le> 1 \<longleftrightarrow> (\<exists>f. set S \<subseteq> {f})"
  proof
    assume "length S \<le> 1"
    then show "\<exists>f. set S \<subseteq> {f}" by (cases S) auto
  next
    assume "\<exists>f. set S \<subseteq> {f}"
    then have "card (set S) \<le> 1" by (metis card_mono finite.emptyI finite_insert is_singletonI is_singleton_altdef)
    then show "length S \<le> 1" using distinct_card [OF d] by simp
  qed
  have short: "length S \<le> 1" if "length named < 2"
  proof -
    have "length (List.map_filter (\<lambda>m. map_option ann_from (annotation_of d m)) named) \<le> length named"
      by (simp add: List.map_filter_def)
    moreover have "length S \<le> length (List.map_filter (\<lambda>m. map_option ann_from (annotation_of d m)) named)"
      using distinct_card [OF d] card_length by (metis S_def set_bs_of_list)
    ultimately show ?thesis using that by simp
  qed
  have "check_choice d members = [] \<longleftrightarrow> length S \<le> 1"
    using short by (auto simp: check_choice_def Let_def named_def [symmetric] S_def [symmetric])
  then show ?thesis using len S by (simp add: coherent_choice_def)
qed

definition roles_declared :: "dialect \<Rightarrow> bool" where
  "roles_declared d \<longleftrightarrow> list_all (\<lambda>p. pred_option (\<lambda>ann.
     insert (ann_from ann) (set (ann_to ann)) \<subseteq> role_name ` set (d_roles d)) (p_role p)) (d_performatives d)"

lemma undeclared_findings_ok: "undeclared_findings d = [] \<longleftrightarrow> roles_declared d"
proof -
  have "(case p_role p of None \<Rightarrow> [] | Some ann \<Rightarrow> map (UndeclaredRole (p_name p))
      (filter (\<lambda>r. r \<notin> role_name ` set (d_roles d)) (ann_from ann # ann_to ann))) = [] \<longleftrightarrow>
    pred_option (\<lambda>ann. insert (ann_from ann) (set (ann_to ann)) \<subseteq> role_name ` set (d_roles d)) (p_role p)" for p
    by (cases "p_role p") (auto simp: filter_empty_conv)
  then show ?thesis unfolding undeclared_findings_def roles_declared_def concat_eq_Nil_conv list_all_iff by auto
qed

text \<open>
  The role layer is well formed: annotations use declared roles only, every step is annotated, every
  choice has one sender, citations are causally local, and every role takes part in a performative
  that is reachable from \<open>begin\<close>.
\<close>

definition roles_ok :: "dialect \<Rightarrow> causal_protocol \<Rightarrow> bool" where
  "roles_ok d cp \<longleftrightarrow> roles_declared d \<and>
     list_all (\<lambda>name. annotation_of d name \<noteq> None) (filter (\<lambda>n. n \<noteq> BEGIN_KEYWORD) (bt_keys (steps cp))) \<and>
     list_all (\<lambda>step. list_all (coherent_choice d) (step_choices step)) (bt_values (steps cp)) \<and>
     role_name ` set (d_roles d) \<subseteq> role_of d `` set (reachable_from_begin cp)"

lemma role_covered_iff: "role_covered d cp r \<longleftrightarrow> r \<in> role_of d `` set (reachable_from_begin cp)"
  unfolding role_covered_def list_ex_iff role_of_def by (auto split: option.splits)

lemma choice_findings_ok:
  "choice_findings d cp = [] \<longleftrightarrow>
     list_all (\<lambda>step. list_all (coherent_choice d) (step_choices step)) (bt_values (steps cp))"
  by (auto simp: choice_findings_def list_all_iff check_choice_ok)

lemma missing_findings_ok:
  "missing_findings d cp = [] \<longleftrightarrow>
     list_all (\<lambda>name. annotation_of d name \<noteq> None) (filter (\<lambda>n. n \<noteq> BEGIN_KEYWORD) (bt_keys (steps cp)))"
  by (auto simp: missing_findings_def filter_empty_conv list_all_iff)

lemma reach_findings_ok:
  "reach_findings d cp = [] \<longleftrightarrow> role_name ` set (d_roles d) \<subseteq> role_of d `` set (reachable_from_begin cp)"
  by (auto simp: reach_findings_def filter_empty_conv role_covered_iff)

lemma r6_findings_ok:
  assumes "d_roles d \<noteq> []"
  shows "r6_findings d = [] \<longleftrightarrow>
    (\<exists>cp. d_causal_protocol d = Some cp \<and> roles_ok d cp \<and> causally_local d cp {})"
  using assms
  by (cases "d_causal_protocol d")
    (auto simp: r6_findings_def roles_ok_def undeclared_findings_ok missing_findings_ok choice_findings_ok
      locality_findings_empty reach_findings_ok)

text \<open>Under \<open>derive\<close> the installer drops the locality findings; what remains is \<open>roles_ok\<close>.\<close>

definition is_locality :: "r6_violation \<Rightarrow> bool" where
  "is_locality v = (case v of NotCausallyLocal _ _ _ \<Rightarrow> True | _ \<Rightarrow> False)"

lemma other_findings_not_locality:
  "list_all (\<lambda>v. \<not> is_locality v) (stray_findings d)"
  "list_all (\<lambda>v. \<not> is_locality v) (undeclared_findings d)"
  "list_all (\<lambda>v. \<not> is_locality v) (missing_findings d cp)"
  "list_all (\<lambda>v. \<not> is_locality v) (choice_findings d cp)"
  "list_all (\<lambda>v. \<not> is_locality v) (reach_findings d cp)"
  by (auto simp: list_all_iff is_locality_def stray_findings_def undeclared_findings_def missing_findings_def
      choice_findings_def check_choice_def reach_findings_def Let_def split: option.splits if_splits)

lemma r6_residue_ok:
  assumes "d_roles d \<noteq> []"
  shows "filter (\<lambda>v. \<not> is_locality v) (r6_violations d) = [] \<longleftrightarrow>
    (\<exists>cp. d_causal_protocol d = Some cp \<and> roles_ok d cp)"
proof (cases "d_causal_protocol d")
  case None
  obtain r where "r \<in> set (d_roles d)" using assms by (cases "d_roles d") auto
  then have "UnreachableRole (role_name r) \<in> set (r6_violations d)"
    using None assms by (simp add: set_r6_violations r6_findings_def)
  then show ?thesis using None by (force simp: filter_empty_conv is_locality_def)
next
  case (Some cp)
  have "filter (\<lambda>v. \<not> is_locality v) (r6_violations d) = [] \<longleftrightarrow>
      (\<forall>v \<in> set (r6_findings d). is_locality v)" by (auto simp: filter_empty_conv set_r6_violations)
  also have "\<dots> \<longleftrightarrow> undeclared_findings d = [] \<and> missing_findings d cp = [] \<and> choice_findings d cp = [] \<and>
      reach_findings d cp = []"
  proof -
    have none: "(\<forall>v \<in> set vs. is_locality v) \<longleftrightarrow> vs = []" if "list_all (\<lambda>v. \<not> is_locality v) vs" for vs
      using that by (cases vs) auto
    have "\<forall>v \<in> set (locality_findings d cp). is_locality v"
      using locality_findings_form by (fastforce simp: is_locality_def)
    then show ?thesis using Some assms
      by (simp add: r6_findings_def ball_Un none other_findings_not_locality)
  qed
  finally show ?thesis using Some
    by (auto simp: roles_ok_def undeclared_findings_ok missing_findings_ok choice_findings_ok reach_findings_ok)
qed

section \<open>Thread open: occupants of indexed roles\<close>

definition occupants_of :: "cast \<Rightarrow> role_decl \<Rightarrow> agent_key btset" where
  "occupants_of c role =
     (if cardinality role = Indexed
      then (case bt_get (c_indexed c) (role_name role) of
              None \<Rightarrow> [] | Some ks \<Rightarrow> if length ks < 2 then [] else ks)
      else [])"

definition own_instance :: "node_ref \<Rightarrow> bool" where
  "own_instance nr = (case nr of NAll _ \<Rightarrow> False | _ \<Rightarrow> True)"

definition spanning_preds ::
  "dialect \<Rightarrow> string \<Rightarrow> (string \<Rightarrow> bool) \<Rightarrow> bool \<Rightarrow> bool \<Rightarrow> step_decl \<Rightarrow> string list" where
  "spanning_preds d role observed exposed receives step =
     (if \<not> exposed then []
      else concat (map (\<lambda>nr.
        if own_instance nr \<and> \<not> receives then []
        else filter (\<lambda>pred. case annotation_of d pred of
               None \<Rightarrow> False
             | Some p_ann \<Rightarrow> ann_from p_ann = role \<and> \<not> (role \<in> set (ann_to p_ann) \<or> observed pred))
           (performatives_of nr)) (predecessors step)))"

definition instantiated_findings :: "dialect \<Rightarrow> cast \<Rightarrow> causal_protocol \<Rightarrow> role_decl \<Rightarrow> r6_violation list" where
  "instantiated_findings d c cp role =
     (let occupants = occupants_of c role; r = role_name role
      in if occupants = [] then []
         else concat (map (\<lambda>step. case annotation_of d (step_performative step) of
             None \<Rightarrow> []
           | Some t_ann \<Rightarrow> concat (map
               (\<lambda>_. map (PerOccupantLocalityFailure (step_performative step)) occupants)
               (spanning_preds d r (\<lambda>_. False) (r \<in> set (endpoints t_ann)) (r \<in> set (ann_to t_ann)) step)))
           (bt_values (steps cp))))"

definition r6_instantiated_violations :: "dialect \<Rightarrow> cast \<Rightarrow> r6_violation list" where
  "r6_instantiated_violations d c = (case d_causal_protocol d of
       None \<Rightarrow> []
     | Some cp \<Rightarrow> foldl push_unique [] (concat (map (instantiated_findings d c cp) (d_roles d))))"

text \<open>The per-occupant closure: every occupant of the role becomes an envelope recipient of the spanning
  predecessors that not all occupants observe, until nothing changes.\<close>

definition occ_routed :: "occupant_envelope_routes \<Rightarrow> agent_key btset \<Rightarrow> string \<Rightarrow> bool" where
  "occ_routed routes occupants name = (case bt_get routes name of
       None \<Rightarrow> False | Some s \<Rightarrow> set occupants \<subseteq> set s)"

definition occupant_frontier ::
  "dialect \<Rightarrow> causal_protocol \<Rightarrow> envelope_routes \<Rightarrow> string \<Rightarrow> agent_key btset \<Rightarrow>
    occupant_envelope_routes \<Rightarrow> string list" where
  "occupant_frontier d cp installed r occupants routes =
     concat (map (\<lambda>step. case annotation_of d (step_performative step) of
         None \<Rightarrow> []
       | Some t_ann \<Rightarrow>
           let routed = routes_to installed (step_performative step) r \<or>
                 occ_routed routes occupants (step_performative step)
           in spanning_preds d r (\<lambda>pred. routes_to installed pred r \<or> occ_routed routes occupants pred)
                (r \<in> set (endpoints t_ann) \<or> routed) (r \<in> set (ann_to t_ann) \<or> routed) step)
       (bt_values (steps cp)))"

definition add_occupants ::
  "agent_key btset \<Rightarrow> occupant_envelope_routes \<times> bool \<Rightarrow> string \<Rightarrow> occupant_envelope_routes \<times> bool" where
  "add_occupants occupants rc pred = (case rc of (routes, changed) \<Rightarrow>
     let entry = neighbors routes pred
     in (bt_insert pred (foldl (\<lambda>s k. bs_insert k s) entry occupants) routes,
         changed \<or> \<not> set occupants \<subseteq> set entry))"

lemma pair_routes_add_occupants:
  "pair_routes (fst (add_occupants ks rc p)) = {p} \<times> set ks \<union> pair_routes (fst rc) \<and>
   (snd (add_occupants ks rc p) \<longleftrightarrow> snd rc \<or> \<not> {p} \<times> set ks \<subseteq> pair_routes (fst rc))"
proof -
  obtain routes changed where rc: "rc = (routes, changed)" by (cases rc)
  have "pair_routes (bt_insert p (foldl (\<lambda>s k. bs_insert k s) (neighbors routes p) ks) routes) =
      {p} \<times> set ks \<union> pair_routes routes"
    by (rule set_eqI) (auto simp: pair_routes_iff set_foldl_bs_insert split: if_splits)
  then show ?thesis by (auto simp: rc add_occupants_def Let_def pair_routes_iff)
qed

lemma pair_routes_fold_occupants:
  "pair_routes (fst (foldl (add_occupants ks) rc ps)) = set ps \<times> set ks \<union> pair_routes (fst rc)"
  "snd (foldl (add_occupants ks) rc ps) \<longleftrightarrow> snd rc \<or> \<not> set ps \<times> set ks \<subseteq> pair_routes (fst rc)"
  by (induction ps arbitrary: rc) (use pair_routes_add_occupants [of ks] in auto)

definition cited_names :: "causal_protocol \<Rightarrow> string set" where
  "cited_names cp = (\<Union>step \<in> set (bt_values (steps cp)). set (concat (map performatives_of (predecessors step))))"

lemma occupant_frontier_cited: "set (occupant_frontier d cp installed r ks routes) \<subseteq> cited_names cp"
proof -
  have "set (spanning_preds d r obs ex rec step) \<subseteq> set (concat (map performatives_of (predecessors step)))"
    for obs ex rec step by (auto simp: spanning_preds_def)
  then show ?thesis unfolding occupant_frontier_def cited_names_def Let_def
    by (fastforce split: option.splits)
qed

definition occupants_left :: "causal_protocol \<Rightarrow> agent_key btset \<Rightarrow> occupant_envelope_routes \<Rightarrow> nat" where
  "occupants_left cp ks routes = card (cited_names cp \<times> set ks - pair_routes routes)"

lemma occupants_left_decreases:
  assumes "(routes', True) = foldl (add_occupants ks) (routes, False) (occupant_frontier d cp installed r ks routes)"
  shows "occupants_left cp ks routes' < occupants_left cp ks routes"
proof -
  define P where "P = set (occupant_frontier d cp installed r ks routes) \<times> set ks"
  note fold = pair_routes_fold_occupants [of ks "(routes, False)" "occupant_frontier d cp installed r ks routes",
      folded assms P_def]
  have "P \<subseteq> cited_names cp \<times> set ks" unfolding P_def using occupant_frontier_cited by blast
  then have "cited_names cp \<times> set ks - pair_routes routes' \<subset> cited_names cp \<times> set ks - pair_routes routes"
    using fold by auto
  moreover have "finite (cited_names cp \<times> set ks)" by (simp add: cited_names_def)
  ultimately show ?thesis unfolding occupants_left_def by (simp add: psubset_card_mono)
qed

function occupant_loop ::
  "dialect \<Rightarrow> causal_protocol \<Rightarrow> envelope_routes \<Rightarrow> string \<Rightarrow> agent_key btset \<Rightarrow>
    occupant_envelope_routes \<Rightarrow> occupant_envelope_routes" where
  "occupant_loop d cp installed r ks routes =
     (case foldl (add_occupants ks) (routes, False) (occupant_frontier d cp installed r ks routes) of
        (routes', changed) \<Rightarrow> if changed then occupant_loop d cp installed r ks routes' else routes')"
  by pat_completeness auto
termination
  by (relation "measure (\<lambda>(d, cp, installed, r, ks, routes). occupants_left cp ks routes)")
    (auto intro: occupants_left_decreases)

definition derive_occupant_envelope_routes :: "dialect \<Rightarrow> cast \<Rightarrow> occupant_envelope_routes" where
  "derive_occupant_envelope_routes d c = (case d_causal_protocol d of
       None \<Rightarrow> []
     | Some cp \<Rightarrow>
         let installed = (case d_causal_locality d of Derive table \<Rightarrow> table | Reject \<Rightarrow> [])
         in foldl (\<lambda>routes role. let ks = occupants_of c role
              in if ks = [] then routes else occupant_loop d cp installed (role_name role) ks routes)
              [] (d_roles d))"

declare occupant_loop.simps [simp del]

text \<open>When the closure of a role stops, all its occupants observe every spanning predecessor it exposes.\<close>

lemma frontier_unrouted:
  "pred \<in> set (occupant_frontier d cp installed r ks routes) \<Longrightarrow> \<not> occ_routed routes ks pred"
  by (auto simp: occupant_frontier_def spanning_preds_def Let_def split: option.splits if_splits)

lemma occupant_loop_closed:
  "ks \<noteq> [] \<Longrightarrow> occupant_frontier d cp installed r ks (occupant_loop d cp installed r ks routes) = []"
proof (induction d cp installed r ks routes rule: occupant_loop.induct [case_names step])
  case (step d cp installed r ks routes)
  let ?F = "occupant_frontier d cp installed r ks routes"
  obtain routes' changed where f: "foldl (add_occupants ks) (routes, False) ?F = (routes', changed)" by fastforce
  show ?case
  proof (cases changed)
    case True
    then show ?thesis using step.IH [OF f [symmetric] True step.prems] f
      by (simp add: occupant_loop.simps [of d cp installed r ks routes])
  next
    case False
    have "set ?F \<times> set ks \<subseteq> pair_routes routes"
      using pair_routes_fold_occupants(2) [of ks "(routes, False)" ?F] f False by simp
    then have sub: "set ks \<subseteq> set (neighbors routes pred)" if "pred \<in> set ?F" for pred
      using that by (auto simp: pair_routes_iff)
    have "occ_routed routes ks pred" if "pred \<in> set ?F" for pred
      using sub [OF that] step.prems
      by (cases "bt_get routes pred") (simp_all add: occ_routed_def neighbors_def)
    then have empty: "?F = []" using frontier_unrouted by (metis list.set_intros(1) neq_Nil_conv)
    then have "occupant_loop d cp installed r ks routes = routes" by (subst occupant_loop.simps) simp
    then show ?thesis using empty by simp
  qed
qed

section \<open>Properties\<close>

text \<open>C33: R6 accepts a dialect with roles exactly when annotations name declared roles, every protocol
  step is annotated, every choice has a single sender, every role that is party to a performative is
  party to the performatives it cites, and every role takes part in something reachable from \<open>begin\<close>;
  a dialect without roles is accepted exactly when it carries no annotation.\<close>

theorem r6_violations_exact:
  "r6_violations d = [] \<longleftrightarrow>
     (if d_roles d = [] then list_all (\<lambda>p. p_role p = None) (d_performatives d)
      else \<exists>cp. d_causal_protocol d = Some cp \<and> roles_ok d cp \<and> causally_local d cp {})"
  using r6_findings_ok [of d]
  by (auto simp: r6_violations_empty r6_findings_def stray_findings_def filter_empty_conv list_all_iff)

text \<open>The derived envelope routes are the least repair of causal locality: a role receives the
  envelopes of a performative exactly when it is not already a party to it and is a party to some
  performative that cites it, directly or through others; with these routes the protocol is causally
  local, and every set of routes that makes it so contains them.\<close>

lemma derived_routes_least:
  assumes "d_causal_protocol d = Some cp"
  shows "{(p, r). routes_to (derive_envelope_routes d) p r} = (cited_by d cp)\<^sup>* O role_of d - role_of d \<and>
    causally_local d cp {(p, r). routes_to (derive_envelope_routes d) p r} \<and>
    (\<forall>T. causally_local d cp T \<longrightarrow> {(p, r). routes_to (derive_envelope_routes d) p r} \<subseteq> T)"
proof -
  have "(cited_by d cp)\<^sup>* O role_of d - role_of d \<subseteq> T" if "causally_local d cp T" for T
    using rtrancl_comp_closed [of "cited_by d cp" "role_of d \<union> T"] that unfolding causally_local_def by blast
  then show ?thesis
    using derived_routes_pairs [OF assms] derived_routes_local [OF assms] by (simp add: pair_routes_def)
qed

text \<open>A shipment: the warehouse acts on an acceptance that it was not addressed by.\<close>

definition sample_step :: "string \<Rightarrow> string list \<Rightarrow> step_decl" where
  "sample_step n ps = \<lparr>step_performative = n, predecessors = map NSingle ps, successors = []\<rparr>"

definition sample_shipping :: dialect where
  "sample_shipping = base_dialect\<lparr>d_name := ''shipping'',
     d_roles := map (\<lambda>n. \<lparr>role_name = n, cardinality = Singleton\<rparr>) [''buyer'', ''seller'', ''warehouse''],
     d_performatives := map (\<lambda>(n, f, t). \<lparr>p_name = n, p_params = [], p_template = List [],
         p_role = Some \<lparr>ann_from = f, ann_to = [t]\<rparr>\<rparr>)
       [(''offer'', ''seller'', ''buyer''), (''accept'', ''buyer'', ''seller''), (''ship'', ''seller'', ''warehouse'')],
     d_causal_protocol := Some \<lparr>steps = bt_of_list (map (\<lambda>s. (step_performative s, s))
       [sample_step ''offer'' [BEGIN_KEYWORD], sample_step ''accept'' [''offer''], sample_step ''ship'' [''accept'']])\<rparr>\<rparr>"

lemma derived_routes_least_witness:
  "routes_to (derive_envelope_routes sample_shipping) ''offer'' ''warehouse''"
proof -
  obtain cp where cp: "d_causal_protocol sample_shipping = Some cp" by (simp add: sample_shipping_def)
  have "derive_envelope_routes sample_shipping = [(''accept'', [''warehouse'']), (''offer'', [''warehouse''])]"
    by code_simp
  moreover have "causally_local sample_shipping cp {(p, r). routes_to (derive_envelope_routes sample_shipping) p r}"
    using derived_routes_least [OF cp] by blast
  ultimately show ?thesis by (simp add: routes_to_def)
qed

end
