(* ===== verification/Cbcl_Position.thy ===== *)
theory Cbcl_Position
  imports Cbcl_Protocol
begin

text \<open>
  The ordered occurrences of a verb in a protocol: \<open>position_chain\<close> of \<open>cbcl-core/src/repeat.rs\<close>. Steps
  are placed level by level once their predecessors are placed, each with the set of its ancestors.
  The chain is shown to exist exactly when the protocol is acyclic and the occurrences are totally
  ordered by its predecessor relation, and to list them in that order.
\<close>

section \<open>The computation\<close>

definition step_parents :: "step_decl \<Rightarrow> string list" where
  "step_parents step = concat (map performatives_of (predecessors step))"

definition parents_of :: "causal_protocol \<Rightarrow> string \<Rightarrow> string list" where
  "parents_of cp name = (case bt_get (steps cp) name of None \<Rightarrow> [] | Some step \<Rightarrow> step_parents step)"

definition ready_names :: "causal_protocol \<Rightarrow> digraph \<Rightarrow> string list" where
  "ready_names cp ancestors = map fst (filter (\<lambda>(name, step).
     \<not> bt_contains_key ancestors name \<and> list_all (bt_contains_key ancestors) (step_parents step)) (steps cp))"

definition inherited :: "causal_protocol \<Rightarrow> digraph \<Rightarrow> string \<Rightarrow> string btset" where
  "inherited cp ancestors name = foldl (\<lambda>s parent.
     foldl (\<lambda>s a. bs_insert a s) (bs_insert parent s) (neighbors ancestors parent)) [] (parents_of cp name)"

definition is_position :: "string \<Rightarrow> string \<Rightarrow> bool" where
  "is_position verb name \<longleftrightarrow> name \<noteq> BEGIN_KEYWORD \<and> repeat_base_name name = verb"

definition place ::
  "causal_protocol \<Rightarrow> string \<Rightarrow> (string, digraph \<times> string list) result \<Rightarrow> string \<Rightarrow>
    (string, digraph \<times> string list) result" where
  "place cp verb acc name = bind_result acc (\<lambda>(ancestors, positions).
     let inh = inherited cp ancestors name
     in if is_position verb name then
          (if positions \<noteq> [] \<and> last positions \<notin> set inh
           then Inl (''progress '' @ quoted verb @ '' has incomparable protocol positions'')
           else Inr (bt_insert name inh ancestors, positions @ [name]))
        else Inr (bt_insert name inh ancestors, positions))"

definition place_all ::
  "causal_protocol \<Rightarrow> string \<Rightarrow> digraph \<Rightarrow> string list \<Rightarrow> string list \<Rightarrow>
    (string, digraph \<times> string list) result" where
  "place_all cp verb ancestors positions names = foldl (place cp verb) (Inr (ancestors, positions)) names"

lemma foldl_place_Inl [simp]: "foldl (place cp verb) (Inl e) names = Inl e"
  by (induction names) (auto simp: place_def)

lemma place_all_Cons:
  "place_all cp verb ancestors positions (name # names) =
     bind_result (place cp verb (Inr (ancestors, positions)) name)
       (\<lambda>(a, p). place_all cp verb a p names)"
  by (cases "place cp verb (Inr (ancestors, positions)) name") (auto simp: place_all_def)

lemma place_cases:
  "place cp verb (Inr (ancestors, positions)) name = Inr (a, p) \<Longrightarrow>
     a = bt_insert name (inherited cp ancestors name) ancestors"
  by (auto simp: place_def Let_def split: if_splits)

lemma keys_place_all:
  "place_all cp verb ancestors positions names = Inr (a, p) \<Longrightarrow>
     set (bt_keys a) = set names \<union> set (bt_keys ancestors)"
proof (induction names arbitrary: ancestors positions)
  case (Cons name names)
  then obtain a' p' where place: "place cp verb (Inr (ancestors, positions)) name = Inr (a', p')"
    and rest: "place_all cp verb a' p' names = Inr (a, p)"
    by (auto simp: place_all_Cons result_simps)
  show ?case using Cons.IH [OF rest] place_cases [OF place] by auto
qed (simp add: place_all_def)

lemma set_ready_names:
  "name \<in> set (ready_names cp ancestors) \<longleftrightarrow> name \<notin> set (bt_keys ancestors) \<and>
     (\<exists>step. (name, step) \<in> set (steps cp) \<and> set (step_parents step) \<subseteq> set (bt_keys ancestors))"
proof -
  define K where "K = set (bt_keys ancestors)"
  have "bt_contains_key ancestors n \<longleftrightarrow> n \<in> K" for n by (simp add: K_def bt_contains_key_iff del: set_map)
  then have "set (ready_names cp ancestors) = fst ` {(n, step). (n, step) \<in> set (steps cp) \<and> n \<notin> K \<and>
      set (step_parents step) \<subseteq> K}"
    by (auto simp: ready_names_def list_all_iff)
  then show ?thesis unfolding K_def [symmetric] fst_eq_Domain by (simp add: Domain_iff) blast
qed

definition unplaced :: "causal_protocol \<Rightarrow> digraph \<Rightarrow> nat" where
  "unplaced cp ancestors = card (set (bt_keys (steps cp)) - set (bt_keys ancestors))"

lemma unplaced_decreases:
  assumes "ready_names cp ancestors \<noteq> []"
    "place_all cp verb ancestors positions (ready_names cp ancestors) = Inr (a, p)"
  shows "unplaced cp a < unplaced cp ancestors"
proof -
  obtain name where name: "name \<in> set (ready_names cp ancestors)"
    using assms(1) by (cases "ready_names cp ancestors") auto
  then have "name \<in> set (bt_keys (steps cp))" "name \<notin> set (bt_keys ancestors)"
    by (auto simp: set_ready_names intro: rev_image_eqI)
  then have "set (bt_keys (steps cp)) - set (bt_keys a) \<subset> set (bt_keys (steps cp)) - set (bt_keys ancestors)"
    using name keys_place_all [OF assms(2)] by blast
  then show ?thesis unfolding unplaced_def by (simp add: psubset_card_mono)
qed

function chain_loop ::
  "causal_protocol \<Rightarrow> string \<Rightarrow> digraph \<Rightarrow> string list \<Rightarrow> (string, digraph \<times> string list) result" where
  "chain_loop cp verb ancestors positions =
     (let ready = ready_names cp ancestors
      in if ready = [] then Inr (ancestors, positions)
         else case place_all cp verb ancestors positions ready of
             Inl e \<Rightarrow> Inl e
           | Inr (a, p) \<Rightarrow> chain_loop cp verb a p)"
  by pat_completeness auto
termination
  by (relation "measure (\<lambda>(cp, verb, ancestors, positions). unplaced cp ancestors)")
    (auto intro: unplaced_decreases)

definition position_chain :: "causal_protocol \<Rightarrow> string \<Rightarrow> (string, string list) result" where
  "position_chain cp verb = bind_result (chain_loop cp verb [] []) (\<lambda>(ancestors, positions).
     if length ancestors \<noteq> length (steps cp) \<or> positions = []
     then Inl (''progress '' @ quoted verb @ '' requires positions in an acyclic protocol'')
     else Inr positions)"

section \<open>What the loop maintains\<close>

definition parent_rel :: "causal_protocol \<Rightarrow> (string \<times> string) set" where
  "parent_rel cp = {(p, n). p \<in> set (parents_of cp n)}"

definition positions_of :: "causal_protocol \<Rightarrow> string \<Rightarrow> string set" where
  "positions_of cp verb = {n \<in> set (bt_keys (steps cp)). is_position verb n}"

definition chain_inv :: "causal_protocol \<Rightarrow> string \<Rightarrow> digraph \<Rightarrow> string list \<Rightarrow> bool" where
  "chain_inv cp verb anc pos \<longleftrightarrow> bt_sorted anc \<and> set (bt_keys anc) \<subseteq> set (bt_keys (steps cp)) \<and>
     (\<forall>n \<in> set (bt_keys anc). set (parents_of cp n) \<subseteq> set (bt_keys anc) \<and>
        set (neighbors anc n) = {a. (a, n) \<in> (parent_rel cp)\<^sup>+} \<and> (n, n) \<notin> (parent_rel cp)\<^sup>+) \<and>
     set pos = {n \<in> set (bt_keys anc). is_position verb n} \<and>
     sorted_wrt (\<lambda>a b. (a, b) \<in> (parent_rel cp)\<^sup>+) pos"

definition incomparable :: "causal_protocol \<Rightarrow> string \<Rightarrow> bool" where
  "incomparable cp verb \<longleftrightarrow> \<not> total_on (positions_of cp verb) ((parent_rel cp)\<^sup>+)"

lemma set_inherited:
  "set (inherited cp anc name) = set (parents_of cp name) \<union> (\<Union>p \<in> set (parents_of cp name). set (neighbors anc p))"
proof -
  have "set (foldl (\<lambda>s parent. foldl (\<lambda>s a. bs_insert a s) (bs_insert parent s) (neighbors anc parent)) s ps) =
      set s \<union> set ps \<union> (\<Union>p \<in> set ps. set (neighbors anc p))" for s ps
    by (induction ps arbitrary: s) (auto simp: set_foldl_bs_insert)
  then show ?thesis by (simp add: inherited_def)
qed

lemma ancestors_closed:
  assumes "\<And>n. n \<in> K \<Longrightarrow> set (parents_of cp n) \<subseteq> K" "(a, n) \<in> (parent_rel cp)\<^sup>+" "n \<in> K"
  shows "a \<in> K"
  using assms(2,3)
proof (induction rule: converse_trancl_induct)
  case (base y)
  then show ?case using assms(1) [of n] by (auto simp: parent_rel_def)
next
  case (step y z)
  then show ?case using assms(1) [of z] by (auto simp: parent_rel_def)
qed

lemma inherited_ancestors:
  assumes "chain_inv cp verb anc pos" "set (parents_of cp name) \<subseteq> set (bt_keys anc)"
  shows "set (inherited cp anc name) = {a. (a, name) \<in> (parent_rel cp)\<^sup>+}"
proof -
  have "set (neighbors anc p) = {a. (a, p) \<in> (parent_rel cp)\<^sup>+}" if "p \<in> set (parents_of cp name)" for p
    using assms that unfolding chain_inv_def by blast
  then have "set (inherited cp anc name) =
      {a. (a, name) \<in> parent_rel cp \<or> (\<exists>p. (a, p) \<in> (parent_rel cp)\<^sup>+ \<and> (p, name) \<in> parent_rel cp)}"
    by (auto simp: set_inherited parent_rel_def)
  moreover have "(a, name) \<in> (parent_rel cp)\<^sup>+ \<longleftrightarrow> (a, name) \<in> parent_rel cp \<or>
      (\<exists>p. (a, p) \<in> (parent_rel cp)\<^sup>+ \<and> (p, name) \<in> parent_rel cp)" for a
    by (subst trancl_unfold) auto
  ultimately show ?thesis by simp
qed

lemma place_inv:
  assumes inv: "chain_inv cp verb anc pos" and name: "name \<notin> set (bt_keys anc)" "name \<in> set (bt_keys (steps cp))"
    and parents: "set (parents_of cp name) \<subseteq> set (bt_keys anc)"
  shows "case place cp verb (Inr (anc, pos)) name of
    Inl _ \<Rightarrow> incomparable cp verb | Inr (a, p) \<Rightarrow> chain_inv cp verb a p"
proof -
  define K where "K = set (bt_keys anc)"
  define inh where "inh = inherited cp anc name"
  have inh: "set inh = {a. (a, name) \<in> (parent_rel cp)\<^sup>+}"
    unfolding inh_def by (rule inherited_ancestors [OF inv parents])
  note I = inv [unfolded chain_inv_def, folded K_def]
  have closed: "(a, n) \<in> (parent_rel cp)\<^sup>+ \<Longrightarrow> n \<in> K \<Longrightarrow> a \<in> K" for a n
    using ancestors_closed [of K cp a n] I by blast
  have up: "a \<in> K" if above: "(a, name) \<in> (parent_rel cp)\<^sup>+" for a
  proof -
    obtain p where "(a, p) \<in> (parent_rel cp)\<^sup>*" "(p, name) \<in> parent_rel cp" using tranclD2 [OF above] by blast
    moreover from this(2) have "p \<in> K" using parents unfolding K_def parent_rel_def by blast
    ultimately show ?thesis using closed by (auto simp: rtrancl_eq_or_trancl)
  qed
  have K': "set (bt_keys (bt_insert name inh anc)) = insert name K" by (simp add: K_def)
  have no_self: "(name, name) \<notin> (parent_rel cp)\<^sup>+" using up name(1) K_def by blast
  have nb: "neighbors (bt_insert name inh anc) n = (if n = name then inh else neighbors anc n)" for n by simp
  have step: "chain_inv cp verb (bt_insert name inh anc) p"
    if "set p = {n \<in> insert name K. is_position verb n}" "sorted_wrt (\<lambda>a b. (a, b) \<in> (parent_rel cp)\<^sup>+) p" for p
    unfolding chain_inv_def K' nb using that I name(2) parents [folded K_def] inh no_self by auto
  show ?thesis
  proof (cases "is_position verb name")
    case False
    then show ?thesis using step [of pos] I
      by (auto simp: place_def Let_def inh_def [symmetric])
  next
    case True
    show ?thesis
    proof (cases "pos \<noteq> [] \<and> last pos \<notin> set inh")
      case bad: True
      have q: "last pos \<in> K" "is_position verb (last pos)" using bad I last_in_set [of pos] by auto
      have "(last pos, name) \<notin> (parent_rel cp)\<^sup>+" using bad inh by blast
      moreover have "(name, last pos) \<notin> (parent_rel cp)\<^sup>+" using closed [of name "last pos"] q name(1) K_def by blast
      moreover have "last pos \<noteq> name" using q(1) name(1) K_def by blast
      ultimately have "incomparable cp verb"
        using q True name(2) I unfolding incomparable_def total_on_def positions_of_def by blast
      then show ?thesis using bad True by (simp add: place_def Let_def inh_def [symmetric])
    next
      case good: False
      have below: "(a, name) \<in> (parent_rel cp)\<^sup>+" if "a \<in> set pos" for a
      proof -
        have ne: "pos \<noteq> []" using that by auto
        have last: "(last pos, name) \<in> (parent_rel cp)\<^sup>+" using good ne inh by blast
        have "sorted_wrt (\<lambda>a b. (a, b) \<in> (parent_rel cp)\<^sup>+) (butlast pos @ [last pos])"
          using I ne by simp
        then have "a \<in> set (butlast pos) \<Longrightarrow> (a, last pos) \<in> (parent_rel cp)\<^sup>+" by (simp add: sorted_wrt_append)
        moreover have "a \<in> set (butlast pos) \<or> a = last pos"
          using that ne by (metis append_butlast_last_id in_set_conv_decomp set_ConsD append_self_conv2 Un_iff set_append list.set(1) empty_iff)
        ultimately show ?thesis using last by (metis trancl_trans)
      qed
      have "chain_inv cp verb (bt_insert name inh anc) (pos @ [name])"
        by (rule step) (use I True below in \<open>auto simp: sorted_wrt_append\<close>)
      then show ?thesis using good True by (auto simp: place_def Let_def inh_def [symmetric])
    qed
  qed
qed

lemma place_all_inv:
  assumes "chain_inv cp verb anc pos" "distinct names"
    "\<And>n. n \<in> set names \<Longrightarrow> n \<notin> set (bt_keys anc) \<and> n \<in> set (bt_keys (steps cp)) \<and>
      set (parents_of cp n) \<subseteq> set (bt_keys anc)"
  shows "case place_all cp verb anc pos names of
    Inl _ \<Rightarrow> incomparable cp verb | Inr (a, p) \<Rightarrow> chain_inv cp verb a p"
  using assms
proof (induction names arbitrary: anc pos)
  case (Cons name names)
  have first: "case place cp verb (Inr (anc, pos)) name of
      Inl _ \<Rightarrow> incomparable cp verb | Inr (a, p) \<Rightarrow> chain_inv cp verb a p"
    using Cons.prems by (intro place_inv) auto
  show ?case
  proof (cases "place cp verb (Inr (anc, pos)) name")
    case (Inl e)
    then show ?thesis using first by (simp add: place_all_Cons)
  next
    case (Inr ap)
    then obtain a p where ap: "place cp verb (Inr (anc, pos)) name = Inr (a, p)" by (cases ap) auto
    have keys: "set (bt_keys a) = insert name (set (bt_keys anc))" using place_cases [OF ap] by simp
    have "case place_all cp verb a p names of Inl _ \<Rightarrow> incomparable cp verb | Inr (a, p) \<Rightarrow> chain_inv cp verb a p"
    proof (rule Cons.IH)
      show "chain_inv cp verb a p" using first ap by simp
      show "distinct names" using Cons.prems(2) by simp
      show "n \<notin> set (bt_keys a) \<and> n \<in> set (bt_keys (steps cp)) \<and> set (parents_of cp n) \<subseteq> set (bt_keys a)"
        if "n \<in> set names" for n
        using that Cons.prems(2) Cons.prems(3) [of n] unfolding keys by auto
    qed
    then show ?thesis using ap by (simp add: place_all_Cons)
  qed
qed (simp add: place_all_def)

lemma ready_parents:
  assumes "bt_sorted (steps cp)" "name \<in> set (ready_names cp anc)"
  shows "name \<notin> set (bt_keys anc) \<and> name \<in> set (bt_keys (steps cp)) \<and> set (parents_of cp name) \<subseteq> set (bt_keys anc)"
proof -
  obtain step where step: "(name, step) \<in> set (steps cp)" "set (step_parents step) \<subseteq> set (bt_keys anc)"
    "name \<notin> set (bt_keys anc)" using assms(2) unfolding set_ready_names by blast
  have "parents_of cp name = step_parents step"
    using step(1) assms(1) by (simp add: parents_of_def bt_get_eq_Some [symmetric])
  then show ?thesis using step by (auto intro: rev_image_eqI)
qed

lemma distinct_ready: "bt_sorted (steps cp) \<Longrightarrow> distinct (ready_names cp anc)"
  unfolding ready_names_def by (rule distinct_map_filter) (rule bt_sorted_distinct)

declare chain_loop.simps [simp del]

lemma chain_loop_inv:
  "bt_sorted (steps cp) \<Longrightarrow> chain_inv cp verb anc pos \<Longrightarrow> case chain_loop cp verb anc pos of
    Inl _ \<Rightarrow> incomparable cp verb | Inr (a, p) \<Rightarrow> chain_inv cp verb a p \<and> ready_names cp a = []"
proof (induction cp verb anc pos rule: chain_loop.induct [case_names step])
  case (step cp verb anc pos)
  show ?case
  proof (cases "ready_names cp anc = []")
    case True
    then show ?thesis using step.prems by (simp add: chain_loop.simps)
  next
    case False
    have all: "case place_all cp verb anc pos (ready_names cp anc) of
        Inl _ \<Rightarrow> incomparable cp verb | Inr (a, p) \<Rightarrow> chain_inv cp verb a p"
      using step.prems by (intro place_all_inv distinct_ready ready_parents)
    show ?thesis
    proof (cases "place_all cp verb anc pos (ready_names cp anc)")
      case (Inl e)
      then show ?thesis using all False by (simp add: chain_loop.simps [of cp verb anc pos])
    next
      case (Inr ap)
      obtain a p where ap: "ap = (a, p)" by (cases ap)
      then show ?thesis using step.IH [OF refl False Inr ap [symmetric] step.prems(1)] all False Inr
        by (simp add: chain_loop.simps [of cp verb anc pos])
    qed
  qed
qed

lemma chain_inv_start: "chain_inv cp verb [] []"
  by (simp add: chain_inv_def)

lemma parent_rel_key: "(a, n) \<in> parent_rel cp \<Longrightarrow> n \<in> set (bt_keys (steps cp))"
proof -
  assume "(a, n) \<in> parent_rel cp"
  then have "bt_get (steps cp) n \<noteq> None" by (cases "bt_get (steps cp) n") (simp_all add: parent_rel_def parents_of_def)
  then show ?thesis using bt_contains_key_iff unfolding bt_contains_key_def by metis
qed

lemma finite_parent_rel: "finite (parent_rel cp)"
proof (rule finite_subset)
  show "parent_rel cp \<subseteq> (\<Union>n \<in> set (bt_keys (steps cp)). set (parents_of cp n) \<times> {n})"
    using parent_rel_key by (auto simp: parent_rel_def simp del: set_map)
qed simp

lemma placed_all:
  assumes "bt_sorted (steps cp)" "chain_inv cp verb anc pos" "ready_names cp anc = []"
    "acyclic (parent_rel cp)" "Domain (parent_rel cp) \<subseteq> set (bt_keys (steps cp))"
  shows "set (bt_keys anc) = set (bt_keys (steps cp))"
proof (rule ccontr)
  assume ne: "set (bt_keys anc) \<noteq> set (bt_keys (steps cp))"
  define Q where "Q = set (bt_keys (steps cp)) - set (bt_keys anc)"
  have "Q \<noteq> {}" using ne assms(2) unfolding Q_def chain_inv_def by blast
  moreover have "wf (parent_rel cp)" by (rule finite_acyclic_wf [OF finite_parent_rel assms(4)])
  ultimately obtain n where n: "n \<in> Q" and min: "\<And>y. (y, n) \<in> parent_rel cp \<Longrightarrow> y \<notin> Q"
    by (metis wf_eq_minimal ex_in_conv)
  have "set (parents_of cp n) \<subseteq> set (bt_keys anc)"
    using min assms(5) unfolding Q_def parent_rel_def by blast
  moreover obtain st where st: "(n, st) \<in> set (steps cp)" using n by (auto simp: Q_def)
  moreover have "parents_of cp n = step_parents st"
    using st assms(1) by (simp add: parents_of_def bt_get_eq_Some [symmetric])
  ultimately have "n \<in> set (ready_names cp anc)" using n unfolding set_ready_names Q_def by auto
  then show False using assms(3) by simp
qed

lemma same_keys_length:
  assumes "bt_sorted (a :: ('k::linorder, 'v) btmap)" "bt_sorted (b :: ('k, 'w) btmap)" "set (bt_keys a) \<subseteq> set (bt_keys b)"
  shows "length a = length b \<longleftrightarrow> set (bt_keys a) = set (bt_keys b)"
proof -
  have "length a = card (set (bt_keys a))" "length b = card (set (bt_keys b))"
    using distinct_card [OF bt_sorted_distinct [OF assms(1)]] distinct_card [OF bt_sorted_distinct [OF assms(2)]]
    by simp_all
  then show ?thesis using assms(3) by (metis List.finite_set card_subset_eq)
qed

section \<open>Properties\<close>

text \<open>The occurrences of a verb have a position chain exactly when every cited predecessor is a step,
  the protocol is acyclic, the verb occurs, and its occurrences are totally ordered by the
  transitive predecessor relation; the chain then lists all of them in that order.\<close>

lemma position_chain_exact:
  fixes verb :: string
  assumes "bt_sorted (steps cp)"
  defines "R \<equiv> {(p, n). p \<in> set (parents_of cp n)}"
    and "P \<equiv> {n \<in> set (bt_keys (steps cp)). is_position verb n}"
  shows "case position_chain cp verb of
    Inr ps \<Rightarrow> Domain R \<subseteq> set (bt_keys (steps cp)) \<and> acyclic R \<and> set ps = P \<and> ps \<noteq> [] \<and>
      sorted_wrt (\<lambda>a b. (a, b) \<in> R\<^sup>+) ps
  | Inl _ \<Rightarrow> \<not> (Domain R \<subseteq> set (bt_keys (steps cp)) \<and> acyclic R \<and> P \<noteq> {} \<and> total_on P (R\<^sup>+))"
proof -
  have R: "R = parent_rel cp" and P: "P = positions_of cp verb"
    by (simp_all add: R_def parent_rel_def P_def positions_of_def)
  note loop = chain_loop_inv [OF assms(1) chain_inv_start [of cp verb]]
  show ?thesis
  proof (cases "chain_loop cp verb [] []")
    case (Inl e)
    then show ?thesis using loop by (simp add: position_chain_def R P incomparable_def)
  next
    case (Inr ap)
    then obtain anc pos where ap: "chain_loop cp verb [] [] = Inr (anc, pos)" by (cases ap) auto
    have inv: "chain_inv cp verb anc pos" and ready: "ready_names cp anc = []" using loop ap by simp_all
    note I = inv [unfolded chain_inv_def]
    have len: "length anc = length (steps cp) \<longleftrightarrow> set (bt_keys anc) = set (bt_keys (steps cp))"
      using same_keys_length [of anc "steps cp"] I assms(1) by blast
    show ?thesis
    proof (cases "length anc = length (steps cp) \<and> pos \<noteq> []")
      case True
      have all: "set (bt_keys anc) = set (bt_keys (steps cp))" using True len by blast
      have "Domain R \<subseteq> set (bt_keys (steps cp))"
        using I parent_rel_key unfolding all R by (fastforce simp: parent_rel_def)
      moreover have "acyclic R"
        unfolding acyclic_def R using I all parent_rel_key by (metis tranclD2)
      moreover have "set pos = P" "sorted_wrt (\<lambda>a b. (a, b) \<in> R\<^sup>+) pos"
        using I unfolding all R P positions_of_def by blast+
      ultimately show ?thesis using True ap by (simp add: position_chain_def)
    next
      case False
      have "\<not> (Domain R \<subseteq> set (bt_keys (steps cp)) \<and> acyclic R \<and> P \<noteq> {})"
      proof
        assume wf: "Domain R \<subseteq> set (bt_keys (steps cp)) \<and> acyclic R \<and> P \<noteq> {}"
        then have "set (bt_keys anc) = set (bt_keys (steps cp))"
          using placed_all [OF assms(1) inv ready] by (simp add: R)
        moreover from this have "set pos = P" using I unfolding P positions_of_def by blast
        ultimately show False using False len wf by auto
      qed
      then show ?thesis using False ap by (auto simp: position_chain_def)
    qed
  qed
qed

definition sample_rounds :: causal_protocol where
  "sample_rounds = \<lparr>steps = bt_of_list
     [(''begin'', \<lparr>step_performative = ''begin'', predecessors = [], successors = []\<rparr>),
      (''x#2'', \<lparr>step_performative = ''x#2'', predecessors = [NSingle ''x''], successors = []\<rparr>),
      (''x'', \<lparr>step_performative = ''x'', predecessors = [NSingle ''begin''], successors = []\<rparr>)]\<rparr>"

lemma position_chain_exact_witness:
  "position_chain sample_rounds ''x'' = Inr [''x'', ''x#2''] \<and>
   set [''x'', ''x#2''] = {n \<in> set (bt_keys (steps sample_rounds)). is_position ''x'' n}"
proof -
  have chain: "position_chain sample_rounds ''x'' = Inr [''x'', ''x#2'']" by code_simp
  have "bt_sorted (steps sample_rounds)" by (simp add: sample_rounds_def)
  from position_chain_exact [OF this, of "''x''"] chain show ?thesis by (simp only: sum.case simp_thms)
qed

end
