(* ===== verification/Cbcl_R7.thy ===== *)
theory Cbcl_R7
  imports Cbcl_R6 Cbcl_Position
begin

text \<open>
  R7, the checks of a state clause when a dialect is installed (\<open>cbcl-core/src/r7.rs\<close>), with the counter
  declarations of \<open>escrow.rs\<close> it starts with. Each group of checks is one definition that returns its
  findings in the order the source pushes them. The checks are shown to establish what the fold over
  the accepted acts relies on.
\<close>

section \<open>Shapes as R7 reads them\<close>

definition keyword_type :: "shape_rule \<Rightarrow> (string \<times> type_constraint option) option" where
  "keyword_type r = (case r of
       Require k tc _ \<Rightarrow> Some (k, tc)
     | Optional k tc _ _ \<Rightarrow> Some (k, tc)
     | MaxDepth _ \<Rightarrow> None)"

definition verb_rules :: "shape_constraint list \<Rightarrow> string \<Rightarrow> shape_rule list" where
  "verb_rules shapes verb = concat (map shape_rules (filter (\<lambda>s. shape_performative s = verb) shapes))"

definition field_type :: "shape_constraint list \<Rightarrow> string \<Rightarrow> string \<Rightarrow> type_constraint option" where
  "field_type shapes verb key =
     (case find (\<lambda>(k, _). k = key) (List.map_filter keyword_type (verb_rules shapes verb)) of
        None \<Rightarrow> None | Some (_, tc) \<Rightarrow> tc)"

definition declared_keywords :: "shape_constraint list \<Rightarrow> string \<Rightarrow> string btset" where
  "declared_keywords shapes verb =
     bs_of_list (map fst (List.map_filter keyword_type (verb_rules shapes verb)))"

definition shape_has_replaces :: "shape_constraint list \<Rightarrow> string \<Rightarrow> bool" where
  "shape_has_replaces shapes verb \<longleftrightarrow> field_type shapes verb RESERVED_REPLACES \<noteq> None \<or>
     RESERVED_REPLACES \<in> set (map fst (List.map_filter keyword_type (verb_rules shapes verb)))"

definition requires_typed :: "shape_constraint list \<Rightarrow> string \<Rightarrow> string \<Rightarrow> type_constraint list \<Rightarrow> bool" where
  "requires_typed shapes verb key types = list_ex (\<lambda>r. case r of
       Require k (Some t) _ \<Rightarrow> k = key \<and> t \<in> set types | _ \<Rightarrow> False) (verb_rules shapes verb)"

definition is_scalar :: "type_constraint \<Rightarrow> bool" where
  "is_scalar tc = (case tc of TString \<Rightarrow> True | THlc \<Rightarrow> True | TNumber \<Rightarrow> True | TBool \<Rightarrow> True | _ \<Rightarrow> False)"

definition bounds_of :: "dialect \<Rightarrow> state_bounds" where
  "bounds_of d = (case d_state_bounds d of Some b \<Rightarrow> b | None \<Rightarrow> default_bounds)"

section \<open>Counter declarations\<close>

definition PREV :: string where "PREV = ''escrow-prev''"
definition DEPS :: string where "DEPS = ''escrow-deps''"
definition NONCE :: string where "NONCE = ''escrow-nonce''"

definition reserved_key :: "string \<Rightarrow> bool" where
  "reserved_key k \<longleftrightarrow> k \<in> set [PREV, DEPS, NONCE, RESERVED_REPLACES] \<or> k \<in> set ROUTING_KEYWORDS"

text \<open>\<open>as u64\<close> of an \<open>i64\<close>.\<close>

definition i64_as_u64 :: "int \<Rightarrow> int" where
  "i64_as_u64 n = (if n < 0 then n + 2 ^ 64 else n)"

definition counter_header_errors :: "dialect \<Rightarrow> string \<Rightarrow> counter_rule \<Rightarrow> string list" where
  "counter_header_errors d name c =
     (case cert_validate (certification c) of Inl e \<Rightarrow> [e] | Inr _ \<Rightarrow> []) @
     (if d_roles d = [] then [''bounded counters require an authenticated role cast''] else []) @
     (if Option.bind (d_causal_protocol d) opener_verb \<noteq> Some (initial_verb c)
      then [''bounded-counter '' @ quoted name @ '' must initialize from the unique opener''] else []) @
     (if issuer c \<noteq> [] \<and> \<not> list_ex (\<lambda>r. role_name r = issuer c) (d_roles d)
      then [''unknown bounded-counter issuer role '' @ quoted (issuer c)] else []) @
     (let m = i64_as_u64 (max_number (bounds_of d))
      in if \<bar>floor_bound c\<bar> > m \<or>
            (case ceiling_bound c of None \<Rightarrow> False | Some n \<Rightarrow> n < floor_bound c \<or> \<bar>n\<bar> > m)
         then [''counter bounds exceed numeric limits or ceiling is below floor''] else []) @
     (if (ownership c = Account \<and> (ceiling_bound c \<noteq> None) \<noteq> (headroom_key c \<noteq> None)) \<or>
         (transfer_headroom c \<noteq> None \<and> ceiling_bound c = None)
      then [''ceiling requires initial-headroom; headroom transfers require ceiling''] else [])"

definition ownership_errors :: "dialect \<Rightarrow> counter_rule \<Rightarrow> string list" where
  "ownership_errors d c =
     (if ownership c = Collective then
        (if \<not> is_quorum (certification c) \<or> headroom_key c \<noteq> None \<or> transfer_op c \<noteq> None \<or>
            transfer_headroom c \<noteq> None
         then [''collective counters require quorum-budget and scalar initialization without account transfers'']
         else []) @
        List.map_filter (\<lambda>verb.
          if Option.bind (find_performative d verb) p_role = None
          then Some (''collective verb '' @ quoted verb @ '' requires an explicit from role'') else None)
          (counter_verbs c)
      else if transfer_op c = None then [''account counters require a transfer mapping''] else [])"

fun owner_loop :: "counter_rule \<Rightarrow> string list \<Rightarrow> string btset \<Rightarrow> string list \<times> string btset" where
  "owner_loop c [] owned = ([], owned)"
| "owner_loop c (verb # verbs) owned =
     (let clash = (verb = initial_verb c \<or> verb \<in> set owned);
          owned' = (if verb = initial_verb c then owned else bs_insert verb owned)
      in case owner_loop c verbs owned' of (errs, o') \<Rightarrow>
           ((if clash then [''operation '' @ quoted verb @ '' must serve exactly one counter and operation kind'']
             else []) @ errs, o'))"

definition expected_fields :: "counter_rule \<Rightarrow> (string \<times> string \<times> type_constraint list) list" where
  "expected_fields c =
     [(initial_verb c, initial_key c, [if ownership c = Collective then TNumber else TList]),
      (fst (increment c), snd (increment c), [TNumber]),
      (fst (decrement c), snd (decrement c), [TNumber])] @
     (case transfer_op c of
        Some (v, r, k) \<Rightarrow> [(v, r, [TSymbol, TString]), (v, k, [TNumber])] | None \<Rightarrow> []) @
     (case headroom_key c of Some k \<Rightarrow> [(initial_verb c, k, [TList])] | None \<Rightarrow> []) @
     (case transfer_headroom c of
        Some (v, r, k) \<Rightarrow> [(v, r, [TSymbol, TString]), (v, k, [TNumber])] | None \<Rightarrow> [])"

definition distinct_field_errors :: "counter_rule \<Rightarrow> string list" where
  "distinct_field_errors c =
     (case transfer_op c of
        Some (_, r, k) \<Rightarrow> if r = k then [''counter data fields must be distinct''] else [] | None \<Rightarrow> []) @
     (if headroom_key c = Some (initial_key c) then [''counter data fields must be distinct''] else []) @
     (case transfer_headroom c of
        Some (_, r, k) \<Rightarrow> if r = k then [''headroom recipient and amount fields must differ''] else []
      | None \<Rightarrow> [])"

definition expected_field_errors :: "dialect \<Rightarrow> string \<Rightarrow> counter_rule \<Rightarrow> string list" where
  "expected_field_errors d name c = concat (map (\<lambda>(v, k, types).
     (if reserved_key k then [''counter data may not read reserved :'' @ k] else []) @
     (if requires_typed (d_shapes d) v k types then []
      else [''counter '' @ quoted name @ '': '' @ quoted v @ '' requires an appropriately typed :'' @ k]))
     (expected_fields c))"

definition hidden_errors :: "state_clause \<Rightarrow> counter_rule \<Rightarrow> string list" where
  "hidden_errors clause c = List.map_filter (\<lambda>(v, _, _).
     if v \<in> set (counter_verbs c) then Some (''domain may not hide resource acts of '' @ quoted v) else None)
     (clause_domains clause)"

fun counter_errors ::
  "dialect \<Rightarrow> state_clause \<Rightarrow> (string \<times> rule) list \<Rightarrow> string btset \<Rightarrow> string list" where
  "counter_errors d clause [] owned = []"
| "counter_errors d clause ((name, r) # rest) owned = (case r of
       BoundedCounter c \<Rightarrow> (case owner_loop c (operation_verbs c) owned of (errs, owned') \<Rightarrow>
         counter_header_errors d name c @ ownership_errors d c @ errs @ distinct_field_errors c @
         expected_field_errors d name c @ hidden_errors clause c @ counter_errors d clause rest owned')
     | _ \<Rightarrow> counter_errors d clause rest owned)"

definition bookkeeping_key :: "string \<Rightarrow> bool" where
  "bookkeeping_key k \<longleftrightarrow> k \<in> set [PREV, DEPS, NONCE]"

definition declaration_errors :: "dialect \<Rightarrow> string list" where
  "declaration_errors d = (case d_state d of
       None \<Rightarrow> []
     | Some clause \<Rightarrow>
         counter_errors d clause (clause_fields clause) [] @
         concat (map (\<lambda>(_, r). List.map_filter (\<lambda>(_, k).
           if bookkeeping_key k then Some ''state data may not read escrow bookkeeping'' else None)
           (rule_data_fields r)) (clause_fields clause)) @
         List.map_filter (\<lambda>(_, k, _).
           if bookkeeping_key k then Some ''domain may not read escrow bookkeeping'' else None)
           (clause_domains clause))"

definition rule_for :: "dialect \<Rightarrow> string \<Rightarrow> (string \<times> counter_rule) option" where
  "rule_for d verb = (case d_state d of
       None \<Rightarrow> None
     | Some clause \<Rightarrow> (case List.map_filter (\<lambda>(name, r). case r of
           BoundedCounter c \<Rightarrow> if verb \<in> set (operation_verbs c) then Some (name, c) else None
         | _ \<Rightarrow> None) (clause_fields clause) of
           [] \<Rightarrow> None | x # _ \<Rightarrow> Some x))"

definition transfer_recipient :: "(string \<times> string \<times> string) option \<Rightarrow> string \<Rightarrow> string \<Rightarrow> bool" where
  "transfer_recipient t verb key = (case t of None \<Rightarrow> False | Some (v, r, _) \<Rightarrow> v = verb \<and> r = key)"

definition recipient_field :: "dialect \<Rightarrow> string \<Rightarrow> string \<Rightarrow> bool" where
  "recipient_field d verb key = (case rule_for d verb of
       None \<Rightarrow> False
     | Some (_, c) \<Rightarrow> transfer_recipient (transfer_op c) verb key \<or>
         transfer_recipient (transfer_headroom c) verb key)"

section \<open>The clause checks\<close>

datatype r7_violation =
    R7Malformed string
  | R7UnknownVerb string
  | R7UnknownField string string
  | R7Typing string
  | R7Replaces string
  | R7Domain string
  | R7Bounds string
  | R7Name string string

definition bound_findings :: "dialect \<Rightarrow> r7_violation list" where
  "bound_findings d = (case d_state_bounds d of
       None \<Rightarrow> []
     | Some b \<Rightarrow>
         (if max_string b > max_string default_bounds \<or> max_list b > max_list default_bounds \<or>
             max_number b > max_number default_bounds \<or> max_fields b > max_fields default_bounds
          then [R7Bounds ''a bound may not exceed its default''] else []) @
         (if max_string b = 0 \<or> max_list b = 0 \<or> max_number b \<le> 0 \<or> max_fields b = 0
          then [R7Bounds ''a bound must be positive''] else []))"

definition check_name :: "(string \<Rightarrow> string) \<Rightarrow> dialect \<Rightarrow> r7_violation list" where
  "check_name sha256 d =
     (if strip_prefix SELF_ADDRESS_PREFIX (d_name d) \<noteq> None \<and> d_name d \<noteq> dialect_name sha256 d
      then [R7Name (dialect_name sha256 d) (d_name d)] else [])"

fun duplicate_fields :: "string list \<Rightarrow> string btset \<Rightarrow> r7_violation list" where
  "duplicate_fields [] names = []"
| "duplicate_fields (name # rest) names =
     (if name \<in> set names
      then R7Malformed (''duplicate field '' @ quoted name) # duplicate_fields rest names
      else duplicate_fields rest (bs_insert name names))"

definition field_count_findings :: "dialect \<Rightarrow> state_clause \<Rightarrow> r7_violation list" where
  "field_count_findings d clause =
     (let n = length (clause_fields clause); m = max_fields (bounds_of d)
      in (if n = 0 then [R7Malformed ''a state clause declares at least one field''] else []) @
         (if (of_nat n :: u32) > m
          then [R7Bounds (show_nat n @ '' fields exceed max-fields '' @ show_nat (unat m))] else []) @
         duplicate_fields (map fst (clause_fields clause)) [])"

definition opener_of :: "dialect \<Rightarrow> string option" where
  "opener_of d = Option.bind (d_causal_protocol d) opener_verb"

definition opener_findings :: "dialect \<Rightarrow> r7_violation list" where
  "opener_findings d = (case d_causal_protocol d of
       None \<Rightarrow> [R7Malformed ''a state clause requires a protocol clause'']
     | Some cp \<Rightarrow> if opener_verb cp = None
         then [R7Malformed ''the protocol must have exactly one performative whose only predecessor is begin'']
         else [])"

definition reference_findings :: "dialect \<Rightarrow> state_clause \<Rightarrow> r7_violation list" where
  "reference_findings d clause =
     map R7UnknownVerb (filter (\<lambda>v. \<not> defines_performative d v) (state_bearing_verbs clause))"

definition data_field_finding :: "dialect \<Rightarrow> string \<times> string \<Rightarrow> r7_violation list" where
  "data_field_finding d vk = (case vk of (verb, key) \<Rightarrow>
     if key = RESERVED_REPLACES then [R7Replaces (quoted verb @ '' reads :replaces as data'')]
     else case field_type (d_shapes d) verb key of
         None \<Rightarrow> if defines_performative d verb then [R7UnknownField verb key] else []
       | Some tc \<Rightarrow>
           if tc = TKeyword \<or> (tc = TSymbol \<and> \<not> recipient_field d verb key)
           then [R7Typing (''field :'' @ key @ '' of '' @ quoted verb @ '' is a symbol or keyword; '' @
             ''state-bearing fields are string, number, bool, or list'')]
           else [])"

definition clock_conflicts :: "rule \<Rightarrow> string \<Rightarrow> bool" where
  "clock_conflicts r clock = (case r of
       LwwRegister _ key _ \<Rightarrow> clock = key
     | LwwPerSigner _ key _ \<Rightarrow> clock = key
     | LwwMap _ key value _ _ \<Rightarrow> clock = key \<or> clock = value
     | _ \<Rightarrow> False)"

definition clock_findings :: "dialect \<Rightarrow> rule \<Rightarrow> r7_violation list" where
  "clock_findings d r = (case clock_field r of
       None \<Rightarrow> []
     | Some (verb, clock) \<Rightarrow>
         (if field_type (d_shapes d) verb clock \<noteq> Some THlc \<or> \<not> requires_typed (d_shapes d) verb clock [THlc]
          then [R7Typing (''LWW clock :'' @ clock @ '' of '' @ quoted verb @ '' must be a required hlc field'')]
          else []) @
         (if max_string (bounds_of d) < of_nat WIRE_LEN
          then [R7Bounds ''max-string cannot hold a canonical HLC''] else []) @
         (if clock_conflicts r clock \<or> reserved_key clock
          then [R7Typing ''LWW clock must be a distinct application field''] else []))"

definition scalar_finding :: "dialect \<Rightarrow> string \<Rightarrow> string \<Rightarrow> string \<Rightarrow> string \<Rightarrow> r7_violation list" where
  "scalar_finding d what verb key name = (case field_type (d_shapes d) verb key of
       None \<Rightarrow> []
     | Some tc \<Rightarrow> if is_scalar tc then []
         else [R7Typing (what @ '' :'' @ key @ '' of '' @ quoted verb @ '' must be scalar (field '' @
           quoted name @ '')'')])"

definition counter_findings :: "dialect \<Rightarrow> string \<Rightarrow> string \<Rightarrow> string \<Rightarrow> string \<Rightarrow> r7_violation list" where
  "counter_findings d name inc dec key =
     (if inc = dec then [R7Typing (''counter '' @ quoted name @ '' names the same verb twice'')] else []) @
     concat (map (\<lambda>v. case field_type (d_shapes d) v key of
         None \<Rightarrow> []
       | Some tc \<Rightarrow> if tc = TNumber then []
           else [R7Typing (''counter '' @ quoted name @ '': :'' @ key @ '' of '' @ quoted v @ '' must be a number'')])
       [inc, dec])"

definition map_like :: "rule \<Rightarrow> bool" where
  "map_like r = (case r of LwwPerSigner _ _ _ \<Rightarrow> True | LwwMap _ _ _ _ _ \<Rightarrow> True | Events _ _ \<Rightarrow> True | _ \<Rightarrow> False)"

definition numeric_rule :: "dialect \<Rightarrow> rule \<Rightarrow> bool" where
  "numeric_rule d r = (case r of
       LwwPerSigner verb key _ \<Rightarrow> field_type (d_shapes d) verb key = Some TNumber
     | Events verb key \<Rightarrow> field_type (d_shapes d) verb key = Some TNumber
     | LwwMap verb _ value _ _ \<Rightarrow> field_type (d_shapes d) verb value = Some TNumber
     | _ \<Rightarrow> False)"

definition earlier_rule :: "(string \<times> rule) list \<Rightarrow> string \<Rightarrow> string \<Rightarrow> rule option" where
  "earlier_rule frules name field =
     map_option snd (find (\<lambda>(n, _). n = field) (takeWhile (\<lambda>(n, _). n \<noteq> name) frules))"

definition derived_findings ::
  "dialect \<Rightarrow> (string \<times> rule) list \<Rightarrow> string \<Rightarrow> bool \<Rightarrow> string \<Rightarrow> r7_violation list" where
  "derived_findings d frules name is_sum field = (case earlier_rule frules name field of
       None \<Rightarrow> [R7Typing (quoted name @ '' references field '' @ quoted field @
         '', which is not defined earlier in the clause'')]
     | Some r \<Rightarrow>
         (if map_like r then []
          else [R7Typing (quoted name @ '' must reference an lww-per-signer, lww-map, or events field'')]) @
         (if \<not> is_sum \<and> (case r of Events _ _ \<Rightarrow> True | _ \<Rightarrow> False)
          then [R7Typing (''histogram '' @ quoted name @ '' may not reference an events field'')] else []) @
         (if is_sum \<and> \<not> numeric_rule d r
          then [R7Typing (''sum '' @ quoted name @ '' requires a numeric field'')] else []))"

definition rule_type_findings ::
  "dialect \<Rightarrow> (string \<times> rule) list \<Rightarrow> string \<Rightarrow> rule \<Rightarrow> r7_violation list" where
  "rule_type_findings d frules name r = (case r of
       Progress verb \<Rightarrow> (case d_causal_protocol d of
           None \<Rightarrow> []
         | Some cp \<Rightarrow> (case position_chain cp verb of Inl reason \<Rightarrow> [R7Typing reason] | Inr _ \<Rightarrow> []))
     | LwwMap verb key _ _ _ \<Rightarrow> scalar_finding d ''map key'' verb key name
     | ValuesPerKey verb key _ _ \<Rightarrow> scalar_finding d ''map key'' verb key name
     | SetUnion verb key \<Rightarrow> scalar_finding d ''value'' verb key name
     | ObservedSet add _ key \<Rightarrow> scalar_finding d ''value'' add key name
     | Counter inc dec key \<Rightarrow> counter_findings d name inc dec key
     | Histogram field \<Rightarrow> derived_findings d frules name False field
     | SumOf field \<Rightarrow> derived_findings d frules name True field
     | _ \<Rightarrow> [])"

text \<open>The writer, key and delete verb of a rule with a delete verb.\<close>

definition deletes :: "rule \<Rightarrow> (string \<times> string \<times> string) option" where
  "deletes r = (case r of
       ValuesPerKey verb key _ (Some dv) \<Rightarrow> Some (verb, key, dv)
     | LwwMap verb key _ _ (Some dv) \<Rightarrow> Some (verb, key, dv)
     | _ \<Rightarrow> None)"

definition delete_findings :: "dialect \<Rightarrow> string \<Rightarrow> rule \<Rightarrow> r7_violation list" where
  "delete_findings d name r = (case deletes r of
       None \<Rightarrow> []
     | Some (verb, key, dv) \<Rightarrow>
         (if dv = verb then [R7Replaces (''delete verb of '' @ quoted name @ '' equals its writer'')] else []) @
         (if defines_performative d dv \<and>
             declared_keywords (d_shapes d) dv \<noteq> bs_of_list [key, RESERVED_REPLACES]
          then [R7Replaces (''delete verb '' @ quoted dv @ '' must carry exactly :'' @ key @ '' and :replaces'')]
          else []) @
         (case (field_type (d_shapes d) verb key, field_type (d_shapes d) dv key) of
            (Some a, Some b) \<Rightarrow> if a = b then []
              else [R7Typing (''key :'' @ key @ '' differs in type between '' @ quoted verb @ '' and '' @ quoted dv)]
          | _ \<Rightarrow> []))"

definition replaces_findings :: "dialect \<Rightarrow> state_clause \<Rightarrow> r7_violation list" where
  "replaces_findings d clause = concat (map (\<lambda>p.
     let has = shape_has_replaces (d_shapes d) (p_name p);
         should = (p_name p \<in> set (clause_replaces_verbs clause))
     in (if has \<and> \<not> should then [R7Replaces (quoted (p_name p) @
           '' declares :replaces but no rule makes it a writer, delete, or remove verb'')] else []) @
        (if should \<and> \<not> has then [R7Replaces (quoted (p_name p) @
           '' is missing the reserved :replaces field'')] else [])) (d_performatives d))"

fun owner_findings :: "(string \<times> rule) list \<Rightarrow> (string, string) btmap \<Rightarrow> r7_violation list" where
  "owner_findings [] owner = []"
| "owner_findings ((name, r) # rest) owner = (case deletes r of
       None \<Rightarrow> owner_findings rest owner
     | Some (verb, _, dv) \<Rightarrow>
         (case bt_get owner dv of
            Some prev \<Rightarrow> if prev = verb then []
              else [R7Replaces (''delete verb '' @ quoted dv @ '' serves two registers (field '' @ quoted name @ '')'')]
          | None \<Rightarrow> []) @ owner_findings rest (bt_insert dv verb owner))"

definition initial_findings :: "dialect \<Rightarrow> state_clause \<Rightarrow> r7_violation list" where
  "initial_findings d clause = List.map_filter (\<lambda>(name, r). case r of
       Initial verb _ \<Rightarrow> if opener_of d = Some verb then None
         else Some (R7Typing (''initial field '' @ quoted name @ '' must name the unique protocol opener''))
     | _ \<Rightarrow> None) (clause_fields clause)"

definition domain_findings :: "dialect \<Rightarrow> state_clause \<Rightarrow> string \<times> string \<times> string \<Rightarrow> r7_violation list" where
  "domain_findings d clause entry = (case entry of (verb, key, field) \<Rightarrow>
     (if opener_of d = Some verb
      then [R7Domain (''a domain may not filter the opener '' @ quoted verb)] else []) @
     (case field_type (d_shapes d) verb key of
        Some tc \<Rightarrow> if tc = TString then []
          else [R7Domain (''domain key :'' @ key @ '' of '' @ quoted verb @ '' must be a string'')]
      | None \<Rightarrow> []) @
     (case rule_of clause field of
        None \<Rightarrow> [R7Domain (''domain names undefined field '' @ quoted field)]
      | Some r \<Rightarrow>
          (if \<not> list_all (\<lambda>v. opener_of d = Some v) (rule_verbs r) \<or> rule_verbs r = []
           then [R7Domain (''domain field '' @ quoted field @ '' must be a rule over the opener only'')] else []) @
          (case r of
             Initial v k \<Rightarrow> if field_type (d_shapes d) v k = Some TList then []
               else [R7Domain (''domain field '' @ quoted field @ '' must be list-valued'')]
           | _ \<Rightarrow> [R7Domain (''domain field '' @ quoted field @ '' must be an `initial` over the opener'' @
               [CHR 0x27] @ ''s list'')])))"

definition clause_findings :: "dialect \<Rightarrow> state_clause \<Rightarrow> r7_violation list" where
  "clause_findings d clause =
     (let frules = clause_fields clause
      in field_count_findings d clause @ opener_findings d @ reference_findings d clause @
         concat (map (data_field_finding d) (clause_data_fields clause)) @
         concat (map (\<lambda>(name, r). clock_findings d r @ rule_type_findings d frules name r @
           delete_findings d name r) frules) @
         replaces_findings d clause @ owner_findings frules [] @ initial_findings d clause @
         concat (map (domain_findings d clause) (clause_domains clause)))"

definition r7_violations :: "(string \<Rightarrow> string) \<Rightarrow> dialect \<Rightarrow> r7_violation list" where
  "r7_violations sha256 d =
     map R7Typing (declaration_errors d) @ bound_findings d @
     (case d_state d of None \<Rightarrow> [] | Some clause \<Rightarrow> clause_findings d clause) @
     check_name sha256 d"

section \<open>What an accepted clause guarantees\<close>

lemma duplicate_fields_ok: "duplicate_fields ns names = [] \<longleftrightarrow> distinct ns \<and> set ns \<inter> set names = {}"
  by (induction ns names rule: duplicate_fields.induct) auto

lemma set_clause_data_fields:
  "set (clause_data_fields c) = (\<Union>(_, r) \<in> set (clause_fields c). set (rule_data_fields r)) \<union>
     {(verb, key) | verb key field. (verb, key, field) \<in> set (clause_domains c)}"
  by (force simp: clause_data_fields_def)

lemma data_verbs_named: "(verb, key) \<in> set (clause_data_fields c) \<Longrightarrow> verb \<in> set (state_bearing_verbs c)"
proof -
  have "fst ` set (rule_data_fields r) \<subseteq> set (rule_verbs r)" for r
    by (cases r) (auto simp: rule_data_fields_def rule_verbs_def counter_data_fields_def counter_verbs_def
        operation_verbs_def opt_list_def split: option.splits)
  then show "(verb, key) \<in> set (clause_data_fields c) \<Longrightarrow> verb \<in> set (state_bearing_verbs c)"
    unfolding set_clause_data_fields state_bearing_verbs_def by force
qed

lemma data_field_ok:
  assumes "data_field_finding d (verb, key) = []" "defines_performative d verb"
  shows "key \<noteq> RESERVED_REPLACES \<and> (\<exists>tc. field_type (d_shapes d) verb key = Some tc \<and>
    (tc \<in> {TString, THlc, TNumber, TBool, TList} \<or> recipient_field d verb key))"
  using assms by (cases "the (field_type (d_shapes d) verb key)")
    (auto simp: data_field_finding_def split: if_splits option.splits)

lemma replaces_ok:
  assumes "replaces_findings d clause = []" "p \<in> set (d_performatives d)"
  shows "shape_has_replaces (d_shapes d) (p_name p) \<longleftrightarrow> p_name p \<in> set (clause_replaces_verbs clause)"
  using assms by (auto simp: replaces_findings_def Let_def split: if_splits)

lemma domain_ok:
  assumes "domain_findings d clause (verb, key, field) = []"
  shows "opener_of d \<noteq> Some verb \<and> (\<exists>v k. rule_of clause field = Some (Initial v k) \<and>
    opener_of d = Some v \<and> field_type (d_shapes d) v k = Some TList)"
proof -
  obtain r where r: "rule_of clause field = Some r"
    using assms by (cases "rule_of clause field") (simp_all add: domain_findings_def)
  show ?thesis using assms r
    by (cases r) (auto simp: domain_findings_def rule_verbs_def split: if_splits option.splits)
qed

lemma derived_ok:
  assumes "derived_findings d frules name is_sum field = []"
  shows "\<exists>r. earlier_rule frules name field = Some r \<and> map_like r \<and> (is_sum \<longrightarrow> numeric_rule d r)"
  using assms by (auto simp: derived_findings_def split: if_splits option.splits)

text \<open>
  \<open>clause_ok sha256 d clause\<close>: the fields are named apart, the protocol has one opener, every field a rule or
  domain reads is declared by the shape of a defined verb at a type the fold can read, \<open>:replaces\<close> is declared
  exactly on the verbs that replace, domains filter by a list that the opener fixes and never filter
  the opener, and sums and histograms read earlier map-like fields.
\<close>

definition clause_ok :: "dialect \<Rightarrow> state_clause \<Rightarrow> bool" where
  "clause_ok d clause \<longleftrightarrow>
     clause_fields clause \<noteq> [] \<and> distinct (map fst (clause_fields clause)) \<and> opener_of d \<noteq> None \<and>
     list_all (\<lambda>(verb, key). defines_performative d verb \<and> key \<noteq> RESERVED_REPLACES \<and>
       (\<exists>tc. field_type (d_shapes d) verb key = Some tc \<and>
         (tc \<in> {TString, THlc, TNumber, TBool, TList} \<or> recipient_field d verb key))) (clause_data_fields clause) \<and>
     list_all (\<lambda>p. shape_has_replaces (d_shapes d) (p_name p) \<longleftrightarrow> p_name p \<in> set (clause_replaces_verbs clause))
       (d_performatives d) \<and>
     list_all (\<lambda>(verb, key, field). opener_of d \<noteq> Some verb \<and> (\<exists>v k. rule_of clause field = Some (Initial v k) \<and>
       opener_of d = Some v \<and> field_type (d_shapes d) v k = Some TList)) (clause_domains clause) \<and>
     list_all (\<lambda>(name, r). case r of
         Histogram field \<Rightarrow> \<exists>s. earlier_rule (clause_fields clause) name field = Some s \<and> map_like s
       | SumOf field \<Rightarrow> \<exists>s. earlier_rule (clause_fields clause) name field = Some s \<and> map_like s \<and> numeric_rule d s
       | Progress verb \<Rightarrow> \<exists>cp ps. d_causal_protocol d = Some cp \<and> position_chain cp verb = Inr ps
       | _ \<Rightarrow> True) (clause_fields clause)"

lemma clause_findings_ok:
  assumes "clause_findings d clause = []"
  shows "clause_ok d clause"
proof -
  note parts = assms [unfolded clause_findings_def Let_def append_is_Nil_conv]
  have fields: "clause_fields clause \<noteq> []" "distinct (map fst (clause_fields clause))"
    using parts by (auto simp: field_count_findings_def Let_def duplicate_fields_ok split: if_splits)
  have opener: "opener_of d \<noteq> None"
    using parts by (auto simp: opener_findings_def opener_of_def split: option.splits if_splits)
  have verbs: "defines_performative d v" if "v \<in> set (state_bearing_verbs clause)" for v
    using parts that by (auto simp: reference_findings_def filter_empty_conv)
  have data: "data_field_finding d vk = []" if "vk \<in> set (clause_data_fields clause)" for vk
    using parts that by (simp add: concat_eq_Nil_conv)
  have rules: "rule_type_findings d (clause_fields clause) name r = []" if "(name, r) \<in> set (clause_fields clause)" for name r
    using parts that by (fastforce simp: concat_eq_Nil_conv)
  have doms: "domain_findings d clause e = []" if "e \<in> set (clause_domains clause)" for e
    using parts that by (simp add: concat_eq_Nil_conv)
  have 1: "list_all (\<lambda>(verb, key). defines_performative d verb \<and> key \<noteq> RESERVED_REPLACES \<and>
       (\<exists>tc. field_type (d_shapes d) verb key = Some tc \<and>
         (tc \<in> {TString, THlc, TNumber, TBool, TList} \<or> recipient_field d verb key))) (clause_data_fields clause)"
    unfolding list_all_iff
  proof (intro ballI, clarify)
    fix verb key assume vk: "(verb, key) \<in> set (clause_data_fields clause)"
    have "defines_performative d verb" using verbs data_verbs_named [OF vk] by blast
    then show "defines_performative d verb \<and> key \<noteq> RESERVED_REPLACES \<and>
       (\<exists>tc. field_type (d_shapes d) verb key = Some tc \<and>
         (tc \<in> {TString, THlc, TNumber, TBool, TList} \<or> recipient_field d verb key))"
      using data_field_ok [OF data [OF vk]] by blast
  qed
  have 2: "list_all (\<lambda>p. shape_has_replaces (d_shapes d) (p_name p) \<longleftrightarrow> p_name p \<in> set (clause_replaces_verbs clause))
       (d_performatives d)"
    using parts replaces_ok by (simp add: list_all_iff)
  have 3: "list_all (\<lambda>(verb, key, field). opener_of d \<noteq> Some verb \<and> (\<exists>v k. rule_of clause field = Some (Initial v k) \<and>
       opener_of d = Some v \<and> field_type (d_shapes d) v k = Some TList)) (clause_domains clause)"
    unfolding list_all_iff
  proof (intro ballI, clarify)
    fix verb key field assume "(verb, key, field) \<in> set (clause_domains clause)"
    from domain_ok [OF doms [OF this]]
    show "opener_of d \<noteq> Some verb \<and> (\<exists>v k. rule_of clause field = Some (Initial v k) \<and>
       opener_of d = Some v \<and> field_type (d_shapes d) v k = Some TList)" .
  qed
  have proto: "d_causal_protocol d \<noteq> None" using opener by (cases "d_causal_protocol d") (simp_all add: opener_of_def)
  have 4: "list_all (\<lambda>(name, r). case r of
         Histogram field \<Rightarrow> \<exists>s. earlier_rule (clause_fields clause) name field = Some s \<and> map_like s
       | SumOf field \<Rightarrow> \<exists>s. earlier_rule (clause_fields clause) name field = Some s \<and> map_like s \<and> numeric_rule d s
       | Progress verb \<Rightarrow> \<exists>cp ps. d_causal_protocol d = Some cp \<and> position_chain cp verb = Inr ps
       | _ \<Rightarrow> True) (clause_fields clause)"
    unfolding list_all_iff
  proof (intro ballI, clarify)
    fix name r assume "(name, r) \<in> set (clause_fields clause)"
    then have f: "rule_type_findings d (clause_fields clause) name r = []" by (rule rules)
    show "case r of
         Histogram field \<Rightarrow> \<exists>s. earlier_rule (clause_fields clause) name field = Some s \<and> map_like s
       | SumOf field \<Rightarrow> \<exists>s. earlier_rule (clause_fields clause) name field = Some s \<and> map_like s \<and> numeric_rule d s
       | Progress verb \<Rightarrow> \<exists>cp ps. d_causal_protocol d = Some cp \<and> position_chain cp verb = Inr ps
       | _ \<Rightarrow> True"
      using f proto derived_ok
      by (cases r) (fastforce simp: rule_type_findings_def split: option.splits sum.splits)+
  qed
  show ?thesis unfolding clause_ok_def using fields opener 1 2 3 4 by blast
qed

section \<open>Properties\<close>

text \<open>C34: a dialect that passes R7 has a state clause the fold can trust: named-apart fields, one opener,
  every field that is read declared at a readable type by a defined verb, \<open>:replaces\<close> exactly where a
  rule replaces, domains over a list fixed by the opener, derived fields over earlier numeric maps,
  ordered positions for progress; and a self-addressed name is the hash of the body.\<close>

theorem r7_sound:
  assumes "r7_violations sha256 d = []"
  shows "pred_option (clause_ok d) (d_state d) \<and>
    (strip_prefix SELF_ADDRESS_PREFIX (d_name d) = None \<or> d_name d = dialect_name sha256 d)"
proof (cases "d_state d")
  case None
  then show ?thesis using assms by (auto simp: r7_violations_def check_name_def split: if_splits)
next
  case (Some clause)
  then have "clause_findings d clause = []" "check_name sha256 d = []"
    using assms by (simp_all add: r7_violations_def)
  then show ?thesis using Some clause_findings_ok by (auto simp: check_name_def split: if_splits)
qed

definition sample_poll :: dialect where
  "sample_poll = base_dialect\<lparr>d_name := ''poll'',
     d_performatives := [sample_perf ''open'' (List []), sample_perf ''vote'' (List [])],
     d_causal_protocol := Some \<lparr>steps = bt_of_list
       [(''open'', sample_step ''open'' [BEGIN_KEYWORD]), (''vote'', sample_step ''vote'' [''open''])]\<rparr>,
     d_shapes := [\<lparr>shape_performative = ''open'', shape_rules = [Require ''voters'' (Some TList) []]\<rparr>,
       \<lparr>shape_performative = ''vote'', shape_rules = [Require ''who'' (Some TString) [],
          Require ''points'' (Some TNumber) []]\<rparr>],
     d_state := Some \<lparr>entries = [EField ''voters'' (Initial ''open'' ''voters''),
       EDomain ''vote'' ''who'' ''voters'', EField ''points'' (Events ''vote'' ''points''),
       EField ''total'' (SumOf ''points'')]\<rparr>\<rparr>"

theorem r7_sound_witness: "\<exists>clause. d_state sample_poll = Some clause \<and> clause_ok sample_poll clause"
proof -
  have "r7_violations id sample_poll = []" by code_simp
  then show ?thesis using r7_sound [of id sample_poll] by (simp add: sample_poll_def)
qed

end
