(* ===== verification/Cbcl_Registry.thy ===== *)
theory Cbcl_Registry
  imports Cbcl_R6 Cbcl_R7
begin

text \<open>
  The dialect registry of \<open>cbcl-core/src/dialect.rs\<close>: the two install paths with their gates R1 to R7, the
  lookups, and the registries that installs can produce. What every install path owes the registry is
  the locale \<open>install_path\<close>, interpreted on both \<open>install\<close> and \<open>install_with_signer\<close>.
\<close>

section \<open>State and errors\<close>

datatype dialect_install_error =
    R1Violation string "string list"
  | R2Violation string
  | R2ProtocolBudgetExceeded string u32 u32
  | R3Violation string "string list"
  | R4Violation string
  | R5Violation string "string list"
  | R6Violation string "r6_violation list"
  | R7Violation string "r7_violation list"

record dialect_registry =
  dialects :: "dialect list"

definition registry_new :: dialect_registry where
  "registry_new = \<lparr>dialects = [base_dialect]\<rparr>"

section \<open>Lookups\<close>

definition registry_len :: "dialect_registry \<Rightarrow> nat" where
  "registry_len reg = length (dialects reg)"

definition is_well_formed :: "dialect_registry \<Rightarrow> bool" where
  "is_well_formed reg \<longleftrightarrow> dialects reg \<noteq> [] \<and> hd (dialects reg) = base_dialect"

definition registry_get :: "dialect_registry \<Rightarrow> nat \<Rightarrow> dialect option" where
  "registry_get reg i = (if i < length (dialects reg) then Some (dialects reg ! i) else None)"

definition find_by_name :: "dialect_registry \<Rightarrow> string \<Rightarrow> dialect option" where
  "find_by_name reg name = find (\<lambda>d. d_name d = name) (dialects reg)"

definition base_definer_of :: "dialect_registry \<Rightarrow> string \<Rightarrow> dialect option" where
  "base_definer_of reg name = (case dialects reg of
       [] \<Rightarrow> None
     | d # _ \<Rightarrow> if defines_performative d name then Some d else None)"

definition dialects_defining :: "dialect_registry \<Rightarrow> string \<Rightarrow> dialect list" where
  "dialects_defining reg name = filter (\<lambda>d. defines_performative d name) (dialects reg)"

definition resolve_ancestors :: "dialect_registry \<Rightarrow> dialect \<Rightarrow> dialect list" where
  "resolve_ancestors reg d = List.map_filter
     (\<lambda>name. find_by_name reg (if name = ''cbcl'' then BASE_NAME else name)) (d_extends d)"

section \<open>Gates\<close>

definition check_protocol_expansion_budget :: "dialect \<Rightarrow> dialect_install_error option" where
  "check_protocol_expansion_budget d = (case d_causal_protocol d of
       Some cp \<Rightarrow>
         if expansion_size_of cp \<ge> rb_max_expansion_size (d_resources d)
         then Some (R2ProtocolBudgetExceeded (d_name d) (expansion_size_of cp) (rb_max_expansion_size (d_resources d)))
         else None
     | None \<Rightarrow> None)"

definition apply_r6 :: "dialect \<Rightarrow> dialect_install_error + dialect" where
  "apply_r6 d =
     (let r6 = r6_violations d;
          deriving = (case d_causal_locality d of Derive _ \<Rightarrow> True | Reject \<Rightarrow> False);
          violations = (if deriving then filter (\<lambda>v. \<not> is_locality v) r6 else r6)
      in if violations \<noteq> [] then Inl (R6Violation (d_name d) violations)
         else if deriving then Inr (d\<lparr>d_causal_locality := Derive (derive_envelope_routes d)\<rparr>)
         else Inr d)"

definition ensure_hash :: "(string \<Rightarrow> string) \<Rightarrow> dialect \<Rightarrow> dialect" where
  "ensure_hash sha256 d =
     (if d_hash d = None then d\<lparr>d_hash := Some (dialect_hash sha256 d)\<rparr> else d)"

text \<open>The checks that both install paths open with, in their order: R1, R2, the protocol budget, R3, R5.\<close>

definition r1_to_r5_error :: "dialect_registry \<Rightarrow> dialect \<Rightarrow> dialect_install_error option" where
  "r1_to_r5_error reg d =
     (if \<not> verify_r1_dialect d then Some (R1Violation (d_name d) (r1_violations d))
      else if \<not> verify_r2 d then Some (R2Violation (d_name d))
      else case check_protocol_expansion_budget d of
        Some e \<Rightarrow> Some e
      | None \<Rightarrow>
          if \<not> verify_r3 d then Some (R3Violation (d_name d) (r3_violations d))
          else let ancestors = resolve_ancestors reg d
               in if \<not> verify_r5_with_ancestors d ancestors
                  then Some (R5Violation (d_name d) (r5_violations_with_ancestors d ancestors))
                  else None)"

definition registry_push :: "dialect_registry \<Rightarrow> dialect \<Rightarrow> dialect_registry" where
  "registry_push reg d = reg\<lparr>dialects := dialects reg @ [d]\<rparr>"

definition install ::
  "(string \<Rightarrow> string) \<Rightarrow> dialect_registry \<Rightarrow> dialect \<Rightarrow> dialect_install_error + dialect_registry" where
  "install sha256 reg d =
     (case r1_to_r5_error reg d of
        Some e \<Rightarrow> Inl e
      | None \<Rightarrow> (case apply_r6 d of
          Inl e \<Rightarrow> Inl e
        | Inr d1 \<Rightarrow>
            (let r7 = r7_violations sha256 d1
             in if r7 \<noteq> [] then Inl (R7Violation (d_name d1) r7)
                else Inr (registry_push reg (ensure_hash sha256 d1)))))"

definition install_with_signer ::
  "(string \<Rightarrow> string) \<Rightarrow> signer \<Rightarrow> dialect_registry \<Rightarrow> dialect \<Rightarrow>
   dialect_install_error + dialect_registry \<times> r4_result" where
  "install_with_signer sha256 sg reg d =
     (case r1_to_r5_error reg d of
        Some e \<Rightarrow> Inl e
      | None \<Rightarrow> (case apply_r6 d of
          Inl e \<Rightarrow> Inl e
        | Inr d1 \<Rightarrow>
            (let r4 = check_r4 d1 sg
             in if r4 = R4Invalid then Inl (R4Violation (d_name d1))
                else Inr (registry_push reg (ensure_hash sha256 d1), r4))))"

section \<open>What the gates leave behind\<close>

text \<open>Neither the routing table nor the hash takes part in the gates.\<close>

definition same_body :: "dialect \<Rightarrow> dialect \<Rightarrow> bool" where
  "same_body d d' \<longleftrightarrow>
     d'\<lparr>d_hash := None, d_causal_locality := Reject\<rparr> = d\<lparr>d_hash := None, d_causal_locality := Reject\<rparr>"

lemma same_body_fields:
  assumes "same_body d d'"
  shows "d_name d' = d_name d" "d_performatives d' = d_performatives d" "d_roles d' = d_roles d"
    "d_causal_protocol d' = d_causal_protocol d" "d_state d' = d_state d" "d_extends d' = d_extends d"
    "d_resources d' = d_resources d" "d_shapes d' = d_shapes d"
  using assms by (cases d; cases d'; simp add: same_body_def)+

lemma same_body_gates:
  assumes "same_body d d'"
  shows "verify_r1_dialect d' = verify_r1_dialect d" "verify_r2 d' = verify_r2 d"
    "check_protocol_expansion_budget d' = check_protocol_expansion_budget d" "verify_r3 d' = verify_r3 d"
    "resolve_ancestors reg d' = resolve_ancestors reg d"
    "verify_r5_with_ancestors d' ancestors = verify_r5_with_ancestors d ancestors"
proof -
  note eqs = same_body_fields [OF assms]
  have "performative_names d' = performative_names d" unfolding performative_names_def eqs ..
  moreover have "shape_violations d' = shape_violations d"
    unfolding shape_violations_def [abs_def] depth_excess_def [abs_def] defines_performative_def eqs ..
  ultimately show "verify_r5_with_ancestors d' ancestors = verify_r5_with_ancestors d ancestors"
    unfolding verify_r5_with_ancestors_def r5_violations_with_ancestors_def eqs by presburger
  have "dependency_graph d' = dependency_graph d" unfolding dependency_graph_def performative_names_def eqs ..
  then show "verify_r1_dialect d' = verify_r1_dialect d"
    unfolding verify_r1_dialect_def r1_violations_def eqs by presburger
  show "verify_r2 d' = verify_r2 d" "verify_r3 d' = verify_r3 d"
    "check_protocol_expansion_budget d' = check_protocol_expansion_budget d"
    "resolve_ancestors reg d' = resolve_ancestors reg d"
    unfolding verify_r2_def verify_r3_def check_protocol_expansion_budget_def resolve_ancestors_def eqs by rule+
qed

lemma annotation_of_cong: "d_performatives d' = d_performatives d \<Longrightarrow> annotation_of d' = annotation_of d"
  by (simp add: fun_eq_iff annotation_of_def annotations_def)

lemma role_layer_cong:
  assumes "same_body d d'"
  shows "roles_ok d' = roles_ok d" "causally_local d' = causally_local d"
proof -
  note eqs = annotation_of_cong [OF same_body_fields(2) [OF assms]] same_body_fields(2,3) [OF assms]
  have "coherent_choice d' = coherent_choice d" "roles_declared d' = roles_declared d"
    "role_of d' = role_of d" "cited_by d' = cited_by d"
    using eqs by (auto simp: fun_eq_iff coherent_choice_def sent_by_def roles_declared_def role_of_def cited_by_def)
  then show "roles_ok d' = roles_ok d" "causally_local d' = causally_local d"
    unfolding roles_ok_def [abs_def] causally_local_def [abs_def] using eqs by simp_all
qed

lemma route_frontier_cong:
  assumes "d_performatives d' = d_performatives d"
  shows "route_frontier d' = route_frontier d"
proof -
  have "step_citations d' step = step_citations d step" for step
    unfolding step_citations_def annotation_of_cong [OF assms] ..
  then have "citations d' = citations d" unfolding citations_def [abs_def] by presburger
  then show ?thesis unfolding route_frontier_def [abs_def] by presburger
qed

lemma derive_loop_cong:
  "d_performatives d' = d_performatives d \<Longrightarrow> derive_loop d' cp routes = derive_loop d cp routes"
proof (induction d cp routes rule: derive_loop.induct [case_names step])
  case (step d cp routes)
  obtain routes' changed where f: "foldl add_route (routes, False) (route_frontier d cp routes) = (routes', changed)"
    by (rule prod.exhaust)
  have "derive_loop d' cp routes = (if changed then derive_loop d' cp routes' else routes')"
    by (simp add: derive_loop.simps [of d' cp routes] route_frontier_cong [OF step.prems] f)
  also have "\<dots> = (if changed then derive_loop d cp routes' else routes')"
    using step.IH [OF f [symmetric] _ step.prems] by simp
  also have "\<dots> = derive_loop d cp routes" by (simp add: derive_loop.simps [of d cp routes] f)
  finally show ?case .
qed

lemma derive_routes_cong: "same_body d d' \<Longrightarrow> derive_envelope_routes d' = derive_envelope_routes d"
  unfolding derive_envelope_routes_def
  by (cases "d_causal_protocol d") (simp_all add: same_body_fields(2,4) derive_loop_cong [of d' d])

text \<open>The envelope routes an installed dialect relays by, and the role layer that holds with them.\<close>

definition recorded_routes :: "dialect \<Rightarrow> (string \<times> string) set" where
  "recorded_routes d = (case d_causal_locality d of Reject \<Rightarrow> {} | Derive routes \<Rightarrow> pair_routes routes)"

definition roles_sound :: "dialect \<Rightarrow> bool" where
  "roles_sound d \<longleftrightarrow>
     (if d_roles d = [] then list_all (\<lambda>p. p_role p = None) (d_performatives d)
      else \<exists>cp. d_causal_protocol d = Some cp \<and> roles_ok d cp \<and> causally_local d cp (recorded_routes d)) \<and>
     (case d_causal_locality d of Reject \<Rightarrow> True | Derive routes \<Rightarrow> routes = derive_envelope_routes d)"

lemma apply_r6_sound:
  assumes "apply_r6 d = Inr d'"
  shows "same_body d d'" "d_hash d' = d_hash d" "roles_sound d'"
proof -
  obtain l where d': "d' = d\<lparr>d_causal_locality := l\<rparr>"
    using assms by (auto simp: apply_r6_def Let_def split: if_splits intro: that [of "d_causal_locality d"])
  then show "d_hash d' = d_hash d" by simp
  show body: "same_body d d'" by (simp add: same_body_def d')
  note same = same_body_fields(2,3,4) [OF body] role_layer_cong [OF body]
  show "roles_sound d'"
  proof (cases "d_causal_locality d")
    case Reject
    then have "d' = d" "r6_findings d = []"
      using assms by (auto simp: apply_r6_def Let_def r6_violations_empty split: if_splits)
    then show ?thesis
      using Reject r6_findings_ok [of d]
      by (auto simp: roles_sound_def recorded_routes_def r6_findings_def stray_findings_def filter_empty_conv list_all_iff)
  next
    case (Derive routes)
    then have d'l: "d_causal_locality d' = Derive (derive_envelope_routes d)"
      and residue: "filter (\<lambda>v. \<not> is_locality v) (r6_violations d) = []"
      using assms by (auto simp: apply_r6_def Let_def split: if_splits)
    have "list_all (\<lambda>p. p_role p = None) (d_performatives d)" if "d_roles d = []"
    proof -
      have "set (r6_violations d) = set (stray_findings d)"
        using that by (simp add: set_r6_violations r6_findings_def)
      then show ?thesis
        using residue by (auto simp: filter_empty_conv stray_findings_def is_locality_def list_all_iff)
    qed
    moreover have "\<exists>cp. d_causal_protocol d = Some cp \<and> roles_ok d cp \<and>
        causally_local d cp (pair_routes (derive_envelope_routes d))" if "d_roles d \<noteq> []"
      using residue r6_residue_ok [OF that] derived_routes_local by blast
    ultimately show ?thesis
      unfolding roles_sound_def recorded_routes_def d'l same derive_routes_cong [OF body] by simp
  qed
qed

lemma ensure_hash_sound: "same_body d (ensure_hash sha256 d)" "d_hash (ensure_hash sha256 d) \<noteq> None"
  "d_causal_locality (ensure_hash sha256 d) = d_causal_locality d"
  by (auto simp: same_body_def ensure_hash_def)

lemma same_body_trans: "same_body d d' \<Longrightarrow> same_body d' d'' \<Longrightarrow> same_body d d''"
  by (auto simp: same_body_def)

section \<open>What every install path promises\<close>

lemma find_append_Some: "find P xs = Some x \<Longrightarrow> find P (xs @ ys) = Some x"
  by (induction xs) auto

text \<open>A dialect as it stands in the registry after the gates, against the registry it was admitted to.\<close>

definition admitted :: "dialect_registry \<Rightarrow> dialect \<Rightarrow> bool" where
  "admitted reg d \<longleftrightarrow> verify_r1_dialect d \<and> verify_r2 d \<and> check_protocol_expansion_budget d = None \<and>
     verify_r3 d \<and> verify_r5_with_ancestors d (resolve_ancestors reg d) \<and> roles_sound d \<and> d_hash d \<noteq> None"

definition registry_prefix :: "dialect_registry \<Rightarrow> nat \<Rightarrow> dialect_registry" where
  "registry_prefix reg i = reg\<lparr>dialects := take i (dialects reg)\<rparr>"

definition registry_ok :: "dialect_registry \<Rightarrow> bool" where
  "registry_ok reg \<longleftrightarrow> is_well_formed reg \<and>
     list_all (\<lambda>i. admitted (registry_prefix reg i) (dialects reg ! i)) [1..<length (dialects reg)]"

lemma gates_admit:
  assumes "r1_to_r5_error reg d = None" "apply_r6 d = Inr d1"
  shows "same_body d (ensure_hash sha256 d1)" "admitted reg (ensure_hash sha256 d1)"
proof -
  let ?d = "ensure_hash sha256 d1"
  have hash: "same_body d1 ?d" "d_hash ?d \<noteq> None" "d_causal_locality ?d = d_causal_locality d1"
    by (rule ensure_hash_sound)+
  show body: "same_body d ?d" using same_body_trans [OF apply_r6_sound(1) [OF assms(2)] hash(1)] .
  have "roles_sound ?d"
    using apply_r6_sound(3) [OF assms(2)]
    unfolding roles_sound_def recorded_routes_def hash(3) same_body_fields [OF hash(1)] role_layer_cong [OF hash(1)]
      derive_routes_cong [OF hash(1)] .
  moreover have "verify_r1_dialect d \<and> verify_r2 d \<and> check_protocol_expansion_budget d = None \<and>
     verify_r3 d \<and> verify_r5_with_ancestors d (resolve_ancestors reg d)"
    using assms(1) by (auto simp: r1_to_r5_error_def Let_def split: if_splits option.splits)
  ultimately show "admitted reg ?d"
    unfolding admitted_def same_body_gates [OF body] using hash(2) by simp
qed

locale install_path =
  fixes path :: "dialect_registry \<Rightarrow> dialect \<Rightarrow> dialect_install_error + dialect_registry \<times> 'r"
  assumes path_appends: "path reg d = Inr (reg', r) \<Longrightarrow>
    \<exists>d'. same_body d d' \<and> admitted reg d' \<and> reg' = registry_push reg d'"
begin

lemma keeps_ok:
  assumes "registry_ok reg" "path reg d = Inr (reg', r)"
  shows "registry_ok reg'"
proof -
  obtain d' where d': "admitted reg d'" "reg' = registry_push reg d'" using path_appends [OF assms(2)] by blast
  have ne: "dialects reg \<noteq> []" using assms(1) by (simp add: registry_ok_def is_well_formed_def)
  have "admitted (registry_prefix reg' i) (dialects reg' ! i)" if "1 \<le> i" "i < length (dialects reg')" for i
  proof (cases "i = length (dialects reg)")
    case True
    then show ?thesis using d' by (simp add: registry_prefix_def registry_push_def)
  next
    case False
    then have "i < length (dialects reg)" using that d'(2) by (simp add: registry_push_def)
    then show ?thesis using assms(1) that(1) d'(2)
      by (simp add: registry_ok_def list_all_iff registry_prefix_def registry_push_def nth_append)
  qed
  then show ?thesis using assms(1) ne d'(2)
    by (auto simp: registry_ok_def list_all_iff is_well_formed_def registry_push_def)
qed

lemma keeps_entries:
  "path reg d = Inr (reg', r) \<Longrightarrow> \<exists>d'. same_body d d' \<and> dialects reg' = dialects reg @ [d']"
  using path_appends [of reg d reg' r] by (auto simp: registry_push_def)

lemma keeps_lookups:
  "path reg d = Inr (reg', r) \<Longrightarrow> find_by_name reg name = Some e \<Longrightarrow> find_by_name reg' name = Some e"
  using keeps_entries [of reg d reg' r] by (auto simp: find_by_name_def find_append_Some)

end

interpretation plain: install_path "\<lambda>reg d. map_sum id (\<lambda>reg'. (reg', ())) (install sha256 reg d)" for sha256
proof
  fix reg d reg' r assume "map_sum id (\<lambda>reg'. (reg', ())) (install sha256 reg d) = Inr (reg', r)"
  then have "install sha256 reg d = Inr reg'" by (cases "install sha256 reg d") auto
  then obtain d1 where "r1_to_r5_error reg d = None" "apply_r6 d = Inr d1" "reg' = registry_push reg (ensure_hash sha256 d1)"
    by (auto simp: install_def Let_def split: option.splits sum.splits if_splits)
  then show "\<exists>d'. same_body d d' \<and> admitted reg d' \<and> reg' = registry_push reg d'"
    using gates_admit [of reg d d1 sha256] by blast
qed

interpretation signed: install_path "install_with_signer sha256 sg" for sha256 sg
proof
  fix reg d reg' r assume "install_with_signer sha256 sg reg d = Inr (reg', r)"
  then obtain d1 where "r1_to_r5_error reg d = None" "apply_r6 d = Inr d1" "reg' = registry_push reg (ensure_hash sha256 d1)"
    by (auto simp: install_with_signer_def Let_def split: option.splits sum.splits if_splits)
  then show "\<exists>d'. same_body d d' \<and> admitted reg d' \<and> reg' = registry_push reg d'"
    using gates_admit [of reg d d1 sha256] by blast
qed

section \<open>Reachable registries\<close>

inductive reachable_registry :: "(string \<Rightarrow> string) \<Rightarrow> signer \<Rightarrow> dialect_registry \<Rightarrow> bool" for sha256 sg where
  new: "reachable_registry sha256 sg registry_new"
| plain: "reachable_registry sha256 sg reg \<Longrightarrow> install sha256 reg d = Inr reg' \<Longrightarrow> reachable_registry sha256 sg reg'"
| signed: "reachable_registry sha256 sg reg \<Longrightarrow> install_with_signer sha256 sg reg d = Inr (reg', r) \<Longrightarrow>
    reachable_registry sha256 sg reg'"

lemma reachable_ok: "reachable_registry sha256 sg reg \<Longrightarrow> registry_ok reg"
proof (induction rule: reachable_registry.induct)
  case new
  show ?case by (simp add: registry_ok_def registry_new_def is_well_formed_def)
next
  case (plain reg d reg')
  then show ?case using plain.keeps_ok [of reg sha256 d reg'] by simp
next
  case (signed reg d reg' r)
  then show ?case by (auto intro: signed.keeps_ok)
qed

lemma base_lookup: "is_well_formed reg \<Longrightarrow> find_by_name reg BASE_NAME = Some base_dialect"
  by (cases "dialects reg") (auto simp: is_well_formed_def find_by_name_def base_dialect_def)

lemma installed_admitted:
  assumes "registry_ok reg" "d \<in> set (tl (dialects reg))"
  shows "\<exists>i. d = dialects reg ! i \<and> admitted (registry_prefix reg i) d"
proof -
  obtain j where "j < length (tl (dialects reg))" "d = tl (dialects reg) ! j"
    using assms(2) by (auto simp: in_set_conv_nth)
  then have "d = dialects reg ! Suc j" "Suc j < length (dialects reg)" by (auto simp: nth_tl)
  then show ?thesis using assms(1) by (auto simp: registry_ok_def list_all_iff intro: exI [of _ "Suc j"])
qed

lemma base_defines_core: "defines_performative base_dialect name \<longleftrightarrow> is_core_performative_name name"
  by (auto simp: defines_performative_def base_dialect_def CORE_EFFECT_ACTIONS_def is_core_performative_name_def
      CORE_PERFORMATIVE_NAMES_def)

lemma core_definers:
  assumes "registry_ok reg" "BASE_NAME \<notin> d_name ` set (tl (dialects reg))" "is_core_performative_name name"
  shows "dialects_defining reg name = [base_dialect]"
proof -
  have wf: "dialects reg = base_dialect # tl (dialects reg)"
    using assms(1) by (auto simp: registry_ok_def is_well_formed_def) (metis list.collapse)
  have "\<not> defines_performative d name" if "d \<in> set (tl (dialects reg))" for d
  proof -
    have "verify_r3 d" using installed_admitted [OF assms(1) that] by (auto simp: admitted_def)
    moreover have "d_name d \<noteq> BASE_NAME" using that assms(2) by (metis imageI)
    ultimately show ?thesis using assms(3) by (auto simp: verify_r3_def defines_performative_def list_ex_iff)
  qed
  then have "filter (\<lambda>d. defines_performative d name) (tl (dialects reg)) = []" by (simp add: filter_empty_conv)
  then show ?thesis
    using assms(3) base_defines_core by (simp add: dialects_defining_def wf [symmetric]) (metis wf filter.simps(2))
qed

section \<open>Signatures and content hashes\<close>

text \<open>The signable form reads the declared mode and not the table.\<close>

lemma bytes_hash [simp]: "dialect_canonical_bytes (d\<lparr>d_hash := h\<rparr>) = dialect_canonical_bytes d"
  by (simp add: dialect_canonical_bytes_def to_signable_sexpr_def optional_clauses_def)

lemma bytes_routes:
  "(l = Reject) = (d_causal_locality d = Reject) \<Longrightarrow>
     dialect_canonical_bytes (d\<lparr>d_causal_locality := l\<rparr>) = dialect_canonical_bytes d"
  by (cases l; cases "d_causal_locality d")
    (simp_all add: dialect_canonical_bytes_def to_signable_sexpr_def optional_clauses_def)

lemma apply_r6_form:
  assumes "apply_r6 d = Inr d1"
  shows "\<exists>l. d1 = d\<lparr>d_causal_locality := l\<rparr> \<and> (l = Reject) = (d_causal_locality d = Reject)"
proof (cases "d_causal_locality d")
  case Reject
  then have "d1 = d\<lparr>d_causal_locality := d_causal_locality d\<rparr>"
    using assms by (simp add: apply_r6_def Let_def split: if_splits)
  then show ?thesis by blast
next
  case (Derive routes)
  then have "d1 = d\<lparr>d_causal_locality := Derive (derive_envelope_routes d)\<rparr>"
    using assms by (simp add: apply_r6_def Let_def split: if_splits)
  then show ?thesis using Derive by (intro exI [of _ "Derive (derive_envelope_routes d)"]) simp
qed

lemma installed_bytes:
  assumes "apply_r6 d = Inr d1"
  shows "dialect_canonical_bytes d1 = dialect_canonical_bytes d" "d_signature d1 = d_signature d"
    "d_hash d1 = d_hash d" "dialect_canonical_bytes (ensure_hash sha256 d1) = dialect_canonical_bytes d"
    "d_signature (ensure_hash sha256 d1) = d_signature d"
proof -
  obtain l where d1: "d1 = d\<lparr>d_causal_locality := l\<rparr>" "(l = Reject) = (d_causal_locality d = Reject)"
    using apply_r6_form [OF assms] by blast
  show bytes: "dialect_canonical_bytes d1 = dialect_canonical_bytes d" unfolding d1(1) by (rule bytes_routes [OF d1(2)])
  show "d_signature d1 = d_signature d" "d_hash d1 = d_hash d" by (simp_all add: d1(1))
  then show "dialect_canonical_bytes (ensure_hash sha256 d1) = dialect_canonical_bytes d"
    "d_signature (ensure_hash sha256 d1) = d_signature d"
    using bytes by (simp_all add: ensure_hash_def)
qed

lemma check_r4_cong:
  "dialect_canonical_bytes d' = dialect_canonical_bytes d \<Longrightarrow> d_signature d' = d_signature d \<Longrightarrow>
     check_r4 d' sg = check_r4 d sg"
  by (cases "d_signature d") (simp_all add: check_r4_def dialect_sign_body_def)

text \<open>R7 does not read the recorded hash: neither its checks of the clause, nor the self-address, which is
  computed over the signable form.\<close>

lemma r7_checks_without_hash:
  fixes d :: dialect and h :: "string option"
  defines "d' \<equiv> d\<lparr>d_hash := h\<rparr>"
  shows "declaration_errors d' = declaration_errors d" "bound_findings d' = bound_findings d"
    "clause_findings d' = clause_findings d" "check_name sha256 d' = check_name sha256 d"
proof -
  have fields: "d_name d' = d_name d" "d_performatives d' = d_performatives d" "d_roles d' = d_roles d"
      "d_causal_protocol d' = d_causal_protocol d" "d_state d' = d_state d" "d_state_bounds d' = d_state_bounds d"
      "d_shapes d' = d_shapes d"
    by (simp_all add: d'_def)
  have reads: "bounds_of d' = bounds_of d" "find_performative d' = find_performative d"
      "defines_performative d' = defines_performative d" "rule_for d' = rule_for d" "opener_of d' = opener_of d"
      "numeric_rule d' = numeric_rule d"
    unfolding bounds_of_def find_performative_def [abs_def] defines_performative_def [abs_def] rule_for_def [abs_def]
      opener_of_def numeric_rule_def [abs_def] fields by (rule refl)+
  have counters: "counter_header_errors d' = counter_header_errors d" "ownership_errors d' = ownership_errors d"
      "expected_field_errors d' = expected_field_errors d"
    unfolding counter_header_errors_def [abs_def] ownership_errors_def [abs_def] expected_field_errors_def [abs_def]
      fields reads by (rule refl)+
  have "counter_errors d' clause rs owned = counter_errors d clause rs owned" for clause rs owned
    by (induction rs arbitrary: owned) (auto simp: counters split: rule.split prod.split)
  then show "declaration_errors d' = declaration_errors d" unfolding declaration_errors_def fields by (simp split: option.split)
  show "bound_findings d' = bound_findings d" unfolding bound_findings_def fields ..
  have "d'\<lparr>d_name := []\<rparr> = (d\<lparr>d_name := []\<rparr>)\<lparr>d_hash := h\<rparr>" by (simp add: d'_def)
  then show "check_name sha256 d' = check_name sha256 d"
    unfolding check_name_def fields by (simp add: dialect_name_def dialect_body_hash_def)
  have recipients: "recipient_field d' = recipient_field d" unfolding recipient_field_def [abs_def] reads ..
  have rules: "clock_findings d' = clock_findings d" "scalar_finding d' = scalar_finding d"
      "counter_findings d' = counter_findings d" "derived_findings d' = derived_findings d"
      "delete_findings d' = delete_findings d" "data_field_finding d' = data_field_finding d"
    unfolding clock_findings_def [abs_def] scalar_finding_def [abs_def] counter_findings_def [abs_def]
      derived_findings_def [abs_def] delete_findings_def [abs_def] data_field_finding_def [abs_def] fields reads recipients
    by (rule refl)+
  have "rule_type_findings d' = rule_type_findings d" unfolding rule_type_findings_def [abs_def] fields rules ..
  then show "clause_findings d' = clause_findings d"
    unfolding clause_findings_def [abs_def] field_count_findings_def opener_findings_def reference_findings_def
      replaces_findings_def initial_findings_def domain_findings_def [abs_def] fields reads rules by simp
qed

lemma r7_violations_ensure_hash: "r7_violations sha256 (ensure_hash sha256 d) = r7_violations sha256 d"
  by (simp add: ensure_hash_def r7_violations_def r7_checks_without_hash split: option.split)

section \<open>Properties\<close>

text \<open>C31: whatever sequence of plain and signed installs built a registry, the base dialect is at index 0
  and is what the name \<open>cbcl-base\<close> resolves to, and every later entry was admitted against the entries
  before it: acyclic templates, valid resource bounds, a protocol within budget, no core performative
  redefined, shapes and protocol well formed against the ancestors installed then, a sound role layer
  with the derived routes recorded, and a content hash. As long as no entry reuses the name \<open>cbcl-base\<close>,
  the base dialect is the only definer of a core performative.\<close>

theorem registry_invariant:
  assumes "reachable_registry sha256 sg reg"
  shows "registry_ok reg \<and> find_by_name reg BASE_NAME = Some base_dialect \<and>
    (BASE_NAME \<notin> d_name ` set (tl (dialects reg)) \<longrightarrow> is_core_performative_name name \<longrightarrow>
      dialects_defining reg name = [base_dialect])"
  using reachable_ok [OF assms] base_lookup [of reg] core_definers [of reg name]
  by (auto simp: registry_ok_def)

definition sample_ballot :: dialect where
  "sample_ballot = sample_poll\<lparr>d_causal_protocol := Some \<lparr>steps = bt_of_list (map (\<lambda>s. (step_performative s, s))
     [\<lparr>step_performative = BEGIN_KEYWORD, predecessors = [], successors = [NSingle ''open'']\<rparr>,
      \<lparr>step_performative = ''open'', predecessors = [NSingle BEGIN_KEYWORD], successors = [NSingle ''vote'']\<rparr>,
      \<lparr>step_performative = ''vote'', predecessors = [NSingle ''open''], successors = []\<rparr>])\<rparr>\<rparr>"

lemma sample_ballot_r2:
  "verify_r2 sample_ballot" "check_protocol_expansion_budget sample_ballot = None"
proof -
  have resources: "d_resources sample_ballot = d_resources base_dialect" by (simp add: sample_ballot_def sample_poll_def)
  show "verify_r2 sample_ballot"
    unfolding verify_r2_def resources by (simp add: base_dialect_def bounds_is_valid_def)
  obtain cp where cp: "d_causal_protocol sample_ballot = Some cp" by (simp add: sample_ballot_def)
  have "map_option (\<lambda>cp. length (filter (\<lambda>n. n \<noteq> BEGIN_KEYWORD) (bt_keys (steps cp)))) (d_causal_protocol sample_ballot) =
      Some 2" by code_simp
  then have "length (filter (\<lambda>n. n \<noteq> BEGIN_KEYWORD) (bt_keys (steps cp))) = 2" using cp by simp
  then have "expansion_size_of cp = 2" unfolding expansion_size_of_def Let_def by (simp only:) simp
  then show "check_protocol_expansion_budget sample_ballot = None"
    by (simp add: check_protocol_expansion_budget_def cp resources base_dialect_def)
qed

lemma sample_ballot_checks:
  "verify_r1_dialect sample_ballot" "verify_r3 sample_ballot" "resolve_ancestors registry_new sample_ballot = []"
  "verify_r5_with_ancestors sample_ballot []" "r6_violations sample_ballot = []"
  "r7_violations id sample_ballot = []"
  by code_simp+

lemma sample_ballot_gates:
  "r1_to_r5_error registry_new sample_ballot = None" "apply_r6 sample_ballot = Inr sample_ballot"
proof -
  show "r1_to_r5_error registry_new sample_ballot = None"
    by (simp add: r1_to_r5_error_def sample_ballot_checks sample_ballot_r2)
  have "d_causal_locality sample_ballot = Reject"
    by (simp add: sample_ballot_def sample_poll_def base_dialect_def)
  then show "apply_r6 sample_ballot = Inr sample_ballot" by (simp add: apply_r6_def sample_ballot_checks)
qed

theorem registry_invariant_witness:
  "\<exists>reg. install id registry_new sample_ballot = Inr reg \<and> registry_len reg = 2 \<and> registry_ok reg"
proof -
  let ?reg = "registry_push registry_new (ensure_hash id sample_ballot)"
  have reg: "install id registry_new sample_ballot = Inr ?reg"
    by (simp add: install_def sample_ballot_gates sample_ballot_checks)
  then have "reachable_registry id s ?reg" for s
    using reachable_registry.plain [OF reachable_registry.new] by blast
  from registry_invariant [OF this] have "registry_ok ?reg" by blast
  then show ?thesis using reg by (simp add: registry_len_def registry_push_def registry_new_def)
qed

text \<open>C32: a plain install that succeeds appends exactly one entry, with the submitted body; that entry was
  admitted by the gates R1 to R6 and R7 has no finding on it as it stands in the registry, hash included. So its
  state clause is one the fold can trust and a self-addressed name is the hash of the body.\<close>

theorem install_sound:
  assumes "install sha256 reg d = Inr reg'"
  shows "\<exists>d'. dialects reg' = dialects reg @ [d'] \<and> same_body d d' \<and> admitted reg d' \<and>
    r7_violations sha256 d' = [] \<and> pred_option (clause_ok d') (d_state d') \<and>
    (strip_prefix SELF_ADDRESS_PREFIX (d_name d') = None \<or> d_name d' = dialect_name sha256 d')"
proof -
  obtain d1 where d1: "r1_to_r5_error reg d = None" "apply_r6 d = Inr d1" "r7_violations sha256 d1 = []"
      "reg' = registry_push reg (ensure_hash sha256 d1)"
    using assms by (auto simp: install_def Let_def split: option.splits sum.splits if_splits)
  let ?d = "ensure_hash sha256 d1"
  have r7: "r7_violations sha256 ?d = []" unfolding r7_violations_ensure_hash by (rule d1(3))
  then have "pred_option (clause_ok ?d) (d_state ?d)" "check_name sha256 ?d = []"
    by (cases "d_state ?d"; simp add: r7_violations_def clause_findings_ok)+
  then show ?thesis
    using r7 gates_admit [OF d1(1,2), of sha256] d1(4) by (auto simp: registry_push_def check_name_def split: if_splits)
qed

theorem install_sound_witness:
  "\<exists>reg d. install id registry_new sample_ballot = Inr reg \<and> dialects reg = [base_dialect, d] \<and>
     r7_violations id d = [] \<and> pred_option (clause_ok d) (d_state d)"
proof -
  let ?reg = "registry_push registry_new (ensure_hash id sample_ballot)"
  have reg: "install id registry_new sample_ballot = Inr ?reg"
    by (simp add: install_def sample_ballot_gates sample_ballot_checks)
  from install_sound [OF this] show ?thesis using reg by (auto simp: registry_new_def)
qed

text \<open>Recording routes and the hash at install does not disturb the signature: the entry that a signed
  install appends has the same signable bytes as the submitted dialect and verifies to the verdict that
  was returned, which is never \<open>Invalid\<close>; an absent hash becomes the content hash of the submitted
  dialect and a declared one is kept.\<close>

lemma signed_install_keeps_signature:
  assumes "install_with_signer sha256 sg reg d = Inr (reg', r4)"
  shows "\<exists>d'. dialects reg' = dialects reg @ [d'] \<and> dialect_canonical_bytes d' = dialect_canonical_bytes d \<and>
    check_r4 d' sg = r4 \<and> check_r4 d sg = r4 \<and> r4 \<noteq> R4Invalid \<and>
    d_hash d' = Some (case d_hash d of None \<Rightarrow> dialect_hash sha256 d | Some h \<Rightarrow> h)"
proof -
  obtain d1 where d1: "apply_r6 d = Inr d1" "reg' = registry_push reg (ensure_hash sha256 d1)"
      "r4 = check_r4 d1 sg" "r4 \<noteq> R4Invalid"
    using assms by (auto simp: install_with_signer_def Let_def split: option.splits sum.splits if_splits)
  note same = installed_bytes [OF d1(1)]
  have "check_r4 (ensure_hash sha256 d1) sg = r4" "check_r4 d sg = r4"
    unfolding d1(3) by (rule check_r4_cong; simp add: same)+
  moreover have "d_hash (ensure_hash sha256 d1) = Some (case d_hash d of None \<Rightarrow> dialect_hash sha256 d | Some h \<Rightarrow> h)"
    using same(1,3) by (cases "d_hash d") (simp_all add: ensure_hash_def dialect_hash_def)
  ultimately show ?thesis using d1(2,4) same(4) by (auto simp: registry_push_def)
qed

lemma signed_install_keeps_signature_witness:
  "\<exists>reg d. install_with_signer id \<lparr>signer_sign = id, signer_verify = (\<lambda>_ _. True)\<rparr> registry_new sample_ballot = Inr (reg, R4Unsigned) \<and>
     dialects reg = [base_dialect, d] \<and> d_hash d = Some (dialect_hash id sample_ballot)"
proof -
  let ?sg = "\<lparr>signer_sign = id, signer_verify = (\<lambda>_ _. True)\<rparr>"
  have "check_r4 sample_ballot ?sg = R4Unsigned" "d_hash sample_ballot = None"
    by (simp_all add: check_r4_def sample_ballot_def sample_poll_def base_dialect_def)
  moreover from this have reg: "install_with_signer id ?sg registry_new sample_ballot =
      Inr (registry_push registry_new (ensure_hash id sample_ballot), R4Unsigned)"
    by (simp add: install_with_signer_def sample_ballot_gates)
  ultimately show ?thesis using signed_install_keeps_signature [OF reg] reg by (auto simp: registry_new_def)
qed

text \<open>The signed install path does not run R7: a dialect whose state clause R7 rejects, and which the
  plain path therefore refuses, is installed by it.\<close>

lemma signed_install_skips_r7:
  "\<exists>d e reg'. install id registry_new d = Inl e \<and> install_with_signer id sg registry_new d = Inr (reg', R4Unsigned)"
proof -
  let ?d = "sample_ballot\<lparr>d_state := Some \<lparr>entries = []\<rparr>\<rparr>"
  have "verify_r1_dialect ?d" "verify_r3 ?d" "resolve_ancestors registry_new ?d = []"
    "verify_r5_with_ancestors ?d []" "r6_violations ?d = []" "r7_violations id ?d \<noteq> []"
    by code_simp+
  moreover have "verify_r2 ?d" "check_protocol_expansion_budget ?d = None"
    using sample_ballot_r2
    by (auto simp: verify_r2_def check_protocol_expansion_budget_def split: option.splits if_splits)
  moreover have "d_causal_locality ?d = Reject" "d_signature ?d = None"
    by (simp_all add: sample_ballot_def sample_poll_def base_dialect_def)
  ultimately have "r1_to_r5_error registry_new ?d = None" "apply_r6 ?d = Inr ?d" "r7_violations id ?d \<noteq> []"
      "check_r4 ?d sg = R4Unsigned"
    by (simp_all add: r1_to_r5_error_def apply_r6_def check_r4_def)
  then have "install id registry_new ?d = Inl (R7Violation (d_name ?d) (r7_violations id ?d))"
    "install_with_signer id sg registry_new ?d = Inr (registry_push registry_new (ensure_hash id ?d), R4Unsigned)"
    by (simp_all add: install_def install_with_signer_def)
  then show ?thesis by blast
qed

text \<open>A dialect that is itself named \<open>cbcl-base\<close> is exempt from R1 and R3, and the registry admits it:
  one that redefines \<open>tell\<close> by itself is installed, while the name still resolves to the genuine base
  dialect at index 0.\<close>

lemma base_name_is_exempt:
  "\<exists>d reg'. install id registry_new d = Inr reg' \<and> dialects_defining reg' ''tell'' \<noteq> [base_dialect] \<and>
     find_performative d ''tell'' = Some (sample_perf ''tell'' (List [Sym ''tell''])) \<and>
     find_by_name reg' BASE_NAME = Some base_dialect"
proof -
  let ?d = "base_dialect\<lparr>d_performatives := [sample_perf ''tell'' (List [Sym ''tell''])]\<rparr>"
  have "verify_r1_dialect ?d" "verify_r3 ?d" "resolve_ancestors registry_new ?d = []"
    "verify_r5_with_ancestors ?d []" "r6_violations ?d = []" "r7_violations id ?d = []"
    by code_simp+
  moreover have "verify_r2 ?d" "check_protocol_expansion_budget ?d = None" "d_causal_locality ?d = Reject"
    by (simp_all add: verify_r2_def check_protocol_expansion_budget_def base_dialect_def bounds_is_valid_def)
  ultimately have "r1_to_r5_error registry_new ?d = None" "apply_r6 ?d = Inr ?d" "r7_violations id ?d = []"
    by (simp_all add: r1_to_r5_error_def apply_r6_def)
  then have reg: "install id registry_new ?d = Inr (registry_push registry_new (ensure_hash id ?d))" (is "_ = Inr ?reg")
    by (simp add: install_def)
  have "dialects ?reg = [base_dialect, ensure_hash id ?d]" by (simp add: registry_push_def registry_new_def)
  moreover have "defines_performative (ensure_hash id ?d) ''tell''" "defines_performative base_dialect ''tell''"
    by (simp_all add: ensure_hash_def defines_performative_def sample_perf_def base_dialect_def CORE_EFFECT_ACTIONS_def)
  ultimately have "dialects_defining ?reg ''tell'' = [base_dialect, ensure_hash id ?d]"
    by (simp add: dialects_defining_def)
  moreover have "find_by_name ?reg BASE_NAME = Some base_dialect"
    by (rule base_lookup) (simp add: is_well_formed_def registry_push_def registry_new_def)
  moreover have "find_performative ?d ''tell'' = Some (sample_perf ''tell'' (List [Sym ''tell'']))"
    by (simp add: find_performative_def sample_perf_def)
  ultimately show ?thesis using reg by (intro exI [of _ ?d] exI [of _ ?reg]) simp
qed

end
