(* ===== verification/Cbcl_Evaluator.thy ===== *)
theory Cbcl_Evaluator
  imports Cbcl_Registry Cbcl_Template
begin

text \<open>
  The evaluator of \<open>cbcl-core/src/evaluator.rs\<close>: a message is resolved against the dialect its \<open>(lang \<dots>)\<close>
  wrapper names, or the base dialect for a core performative; its template is expanded under the
  resource bounds of that dialect, checked against the installed shapes and read as effects.
\<close>

section \<open>Effects, errors, results\<close>

datatype effect =
    SendMessage "string option" sexpr
  | SendQuery "string option" sexpr
  | SendReply "string option" sexpr
  | SignalError sexpr
  | Acknowledge
  | CancelConversation
  | AnnouncePresence
  | AnnounceDeparture
  | StoreBelief sexpr
  | RemoveBelief sexpr
  | InstallDialect sexpr
  | CustomEffect sexpr

datatype eval_error =
    UnknownPerformative string
  | UnscopedDialectPerformative string
  | TemplateExpansionFailed string
  | UnknownDialect string
  | MalformedMessage string
  | ShapeViolated shape_violation

record eval_result =
  er_expanded :: sexpr
  er_effects :: "effect list"
  er_thread :: "string option"

section \<open>Resolution and shapes\<close>

definition resolve_performative_dialect ::
  "performative \<Rightarrow> dialect_registry \<Rightarrow> dialect option \<Rightarrow> (eval_error, dialect) result" where
  "resolve_performative_dialect perf reg scope =
     (let name = performative_name perf
      in if \<not> is_core perf then
           (case scope of
              None \<Rightarrow> Inl (UnscopedDialectPerformative name)
            | Some d \<Rightarrow> if defines_performative d name then Inr d else Inl (UnknownPerformative name))
         else ok_or (UnknownPerformative name) (base_definer_of reg name))"

fun check_shape_list :: "string \<Rightarrow> sexpr \<Rightarrow> shape_constraint list \<Rightarrow> (eval_error, unit) result" where
  "check_shape_list name expanded [] = Inr ()"
| "check_shape_list name expanded (shape # shapes) =
     (if shape_performative shape = name then
        (case shape_check shape expanded of
           Inl v \<Rightarrow> Inl (ShapeViolated v)
         | Inr _ \<Rightarrow> check_shape_list name expanded shapes)
      else check_shape_list name expanded shapes)"

definition check_shapes :: "string \<Rightarrow> sexpr \<Rightarrow> dialect_registry \<Rightarrow> (eval_error, unit) result" where
  "check_shapes name expanded reg = check_shape_list name expanded (concat (map d_shapes (dialects reg)))"

section \<open>Effects of an expansion\<close>

definition extract_effect_action :: "sexpr \<Rightarrow> string option" where
  "extract_effect_action e = (case e of
       List [Atom (Symbol head), Atom (Symbol action)] \<Rightarrow> if head = ''effect'' then Some action else None
     | _ \<Rightarrow> None)"

definition interpret_effects :: "sexpr \<Rightarrow> string list \<Rightarrow> sexpr \<Rightarrow> effect list" where
  "interpret_effects expanded recipients content =
     (let targets = (if recipients = [] then [None] else map Some recipients)
      in case extract_effect_action expanded of
           None \<Rightarrow> [CustomEffect expanded]
         | Some action \<Rightarrow>
             if action = ''send-message''
             then map (\<lambda>r. SendMessage r content) targets @ [StoreBelief content]
             else if action = ''send-query'' then map (\<lambda>r. SendQuery r content) targets
             else if action = ''send-reply'' then map (\<lambda>r. SendReply r content) targets
             else if action = ''signal-error'' then [SignalError content]
             else if action = ''acknowledge'' then [Acknowledge]
             else if action = ''cancel-conversation'' then [CancelConversation]
             else if action = ''announce-presence'' then [AnnouncePresence]
             else if action = ''announce-departure'' then [AnnounceDeparture]
             else [CustomEffect expanded])"

section \<open>Evaluation\<close>

definition initial_resources :: "resource_bounds \<Rightarrow> resource_state" where
  "initial_resources b = resource_new (rb_max_depth b) (rb_max_expansion_size b)"

definition message_args :: "message \<Rightarrow> sexpr list" where
  "message_args msg = (case content_of msg of Some c \<Rightarrow> [c] | None \<Rightarrow> []) @
     (case msg of Simple s \<Rightarrow> m_params s | _ \<Rightarrow> [])"

definition evaluate_simple ::
  "message \<Rightarrow> dialect_registry \<Rightarrow> dialect option \<Rightarrow> bool \<Rightarrow> (eval_error, eval_result) result" where
  "evaluate_simple msg reg scope check_shape =
     bind_result (ok_or (MalformedMessage ''missing performative'') (performative_of msg)) (\<lambda>perf.
     bind_result (resolve_performative_dialect perf reg scope) (\<lambda>d.
     bind_result (ok_or (UnknownPerformative (performative_name perf))
         (find_performative d (performative_name perf))) (\<lambda>def.
     bind_result (ok_or (TemplateExpansionFailed (performative_name perf))
         (expand_template (p_params def) (p_template def) (message_args msg) (initial_resources (d_resources d))))
       (\<lambda>(expanded, _).
     bind_result (if check_shape then check_shapes (performative_name perf) expanded reg else Inr ()) (\<lambda>_.
       Inr \<lparr>er_expanded = expanded,
         er_effects = interpret_effects expanded (recipient_set msg)
           (case content_of msg of Some c \<Rightarrow> c | None \<Rightarrow> List []),
         er_thread = thread_of msg\<rparr>)))))"

definition evaluate_meta :: "message \<Rightarrow> (eval_error, eval_result) result" where
  "evaluate_meta msg =
     bind_result (ok_or (MalformedMessage ''meta message missing dialect definition'') (dialect_def_of msg)) (\<lambda>def.
       Inr \<lparr>er_expanded = List [Sym ''effect'', Sym ''install-dialect''],
         er_effects = [InstallDialect def], er_thread = None\<rparr>)"

fun evaluate_with_scope ::
  "message \<Rightarrow> dialect_registry \<Rightarrow> dialect option \<Rightarrow> bool \<Rightarrow> (eval_error, eval_result) result" where
  "evaluate_with_scope (Simple s) reg scope check_shape = evaluate_simple (Simple s) reg scope check_shape"
| "evaluate_with_scope (Meta def) reg scope check_shape = evaluate_meta (Meta def)"
| "evaluate_with_scope (Dialect name inner) reg scope check_shape =
     bind_result (ok_or (UnknownDialect name) (find_by_name reg name)) (\<lambda>d.
       evaluate_with_scope inner reg (Some d) check_shape)"
| "evaluate_with_scope (Wrapped w params inner) reg scope check_shape =
     evaluate_with_scope inner reg scope check_shape"

definition evaluate :: "message \<Rightarrow> dialect_registry \<Rightarrow> (eval_error, eval_result) result" where
  "evaluate msg reg = evaluate_with_scope msg reg None True"

definition evaluate_without_shape_check :: "message \<Rightarrow> dialect_registry \<Rightarrow> (eval_error, eval_result) result" where
  "evaluate_without_shape_check msg reg = evaluate_with_scope msg reg None False"

section \<open>What evaluation depends on\<close>

text \<open>The dialect names that a message is scoped by.\<close>

fun lang_names :: "message \<Rightarrow> string set" where
  "lang_names (Simple s) = {}"
| "lang_names (Meta def) = {}"
| "lang_names (Dialect name inner) = insert name (lang_names inner)"
| "lang_names (Wrapped w params inner) = lang_names inner"

lemma base_definer_wf: "is_well_formed reg \<Longrightarrow>
    base_definer_of reg name = (if is_core_performative_name name then Some base_dialect else None)"
  by (cases "dialects reg") (auto simp: base_definer_of_def is_well_formed_def base_defines_core)

lemma evaluate_with_scope_cong:
  assumes "is_well_formed reg" "is_well_formed reg'"
  shows "(\<And>name. name \<in> lang_names msg \<Longrightarrow> find_by_name reg name = find_by_name reg' name) \<Longrightarrow>
    evaluate_with_scope msg reg scope False = evaluate_with_scope msg reg' scope False"
proof (induction msg arbitrary: scope)
  case (Simple s)
  have "resolve_performative_dialect perf reg scope = resolve_performative_dialect perf reg' scope" for perf
    unfolding resolve_performative_dialect_def base_definer_wf [OF assms(1)] base_definer_wf [OF assms(2)] ..
  then show ?case by (simp add: evaluate_simple_def)
next
  case (Dialect name inner)
  have "find_by_name reg name = find_by_name reg' name" using Dialect.prems by simp
  moreover have "evaluate_with_scope inner reg scope' False = evaluate_with_scope inner reg' scope' False" for scope'
    using Dialect.prems by (intro Dialect.IH) simp
  ultimately show ?case by simp
qed simp_all

text \<open>The shape constraints an expansion has to meet.\<close>

lemma check_shape_list_ok:
  "check_shape_list name e shapes = Inr () \<longleftrightarrow>
     (\<forall>shape \<in> set shapes. shape_performative shape = name \<longrightarrow> shape_check shape e = Inr ())"
  by (induction shapes) (auto split: sum.splits)

lemma evaluate_simple_shapes:
  "evaluate_simple msg reg scope True = Inr r \<longleftrightarrow>
     evaluate_simple msg reg scope False = Inr r \<and>
     (\<forall>perf. performative_of msg = Some perf \<longrightarrow> check_shapes (performative_name perf) (er_expanded r) reg = Inr ())"
proof (cases "performative_of msg")
  case (Some perf)
  then show ?thesis
    by (auto simp: evaluate_simple_def result_simps split: prod.splits)
qed (simp add: evaluate_simple_def)

definition leaf_performative :: "message \<Rightarrow> performative option" where
  "leaf_performative msg = Option.bind (innermost_simple msg) performative_of"

lemma evaluate_with_scope_shapes:
  "evaluate_with_scope msg reg scope True = Inr r \<longleftrightarrow>
     evaluate_with_scope msg reg scope False = Inr r \<and>
     (\<forall>perf. leaf_performative msg = Some perf \<longrightarrow> check_shapes (performative_name perf) (er_expanded r) reg = Inr ())"
proof (induction msg arbitrary: scope)
  case (Simple s)
  then show ?case by (simp add: evaluate_simple_shapes leaf_performative_def)
next
  case (Dialect name inner)
  then show ?case by (cases "find_by_name reg name") (simp_all add: leaf_performative_def)
qed (simp_all add: leaf_performative_def)

section \<open>Core performatives\<close>

definition core_effects :: "core_performative \<Rightarrow> string option list \<Rightarrow> sexpr \<Rightarrow> effect list" where
  "core_effects c targets content = (case c of
       Tell \<Rightarrow> map (\<lambda>r. SendMessage r content) targets @ [StoreBelief content]
     | Ask \<Rightarrow> map (\<lambda>r. SendQuery r content) targets
     | Reply \<Rightarrow> map (\<lambda>r. SendReply r content) targets
     | Error \<Rightarrow> [SignalError content]
     | Ok \<Rightarrow> [Acknowledge]
     | Cancel \<Rightarrow> [CancelConversation]
     | Hello \<Rightarrow> [AnnouncePresence]
     | Bye \<Rightarrow> [AnnounceDeparture])"

definition core_action :: "core_performative \<Rightarrow> string" where
  "core_action c = (case c of
       Tell \<Rightarrow> ''send-message'' | Ask \<Rightarrow> ''send-query'' | Reply \<Rightarrow> ''send-reply'' | Error \<Rightarrow> ''signal-error''
     | Ok \<Rightarrow> ''acknowledge'' | Cancel \<Rightarrow> ''cancel-conversation'' | Hello \<Rightarrow> ''announce-presence''
     | Bye \<Rightarrow> ''announce-departure'')"

lemma find_core: "find_performative base_dialect (core_as_str c) =
    Some \<lparr>p_name = core_as_str c, p_params = [], p_template = effect_template (core_action c), p_role = None\<rparr>"
  by (cases c) (simp_all add: find_performative_def base_dialect_def CORE_EFFECT_ACTIONS_def core_as_str_def core_action_def)

lemma core_names: "is_core_performative_name (core_as_str c)"
  by (cases c) (simp_all add: is_core_performative_name_def CORE_PERFORMATIVE_NAMES_def core_as_str_def)

lemma core_interpret:
  "interpret_effects (effect_template (core_action c)) recipients content =
     core_effects c (if recipients = [] then [None] else map Some recipients) content"
  by (cases c) (simp_all add: interpret_effects_def extract_effect_action_def effect_template_def core_action_def core_effects_def)

lemma small_expansion:
  assumes "eval_form template (build_bindings params args) = Some (TSingle e)" "byte_size e < 512"
  shows "\<exists>rs. expand_template params template args (initial_resources (d_resources base_dialect)) = Some (e, rs)"
proof -
  have "add_expansion rs (byte_size_u32 e) \<noteq> None" if "expansion_size rs = 0" "max_exp_size rs = 512" for rs
    using that assms(2) add_expansion_no_wrap [of rs "byte_size e"] by (simp add: byte_size_u32_def)
  then have "add_expansion (\<lparr>current_depth = 1, expansion_size = 0, rs_max_depth = 8, max_exp_size = 512\<rparr>)
      (byte_size_u32 e) \<noteq> None" by simp
  then show ?thesis
    using assms(1) by (auto simp: expand_template_def eval_template_def enter_depth_def initial_resources_def
        resource_new_def base_dialect_def expanded_size_u32_def)
qed

lemma core_expansion:
  "\<exists>rs. expand_template [] (effect_template (core_action c)) args (initial_resources (d_resources base_dialect)) =
     Some (effect_template (core_action c), rs)"
proof (rule small_expansion)
  show "eval_form (effect_template (core_action c)) (build_bindings [] args) = Some (TSingle (effect_template (core_action c)))"
    by (simp add: effect_template_def is_symbol_def is_sequence_template_def build_bindings_def substitute_atom_def)
  show "byte_size (effect_template (core_action c)) < 512"
    by (cases c) (simp_all add: effect_template_def core_action_def)
qed

text \<open>R3 and R5 together keep shapes away from core performatives.\<close>

lemma shapes_not_core:
  assumes "registry_ok reg" "BASE_NAME \<notin> d_name ` set (tl (dialects reg))" "d \<in> set (dialects reg)" "shape \<in> set (d_shapes d)"
  shows "\<not> is_core_performative_name (shape_performative shape)"
proof -
  have "d = base_dialect \<or> d \<in> set (tl (dialects reg))"
    using assms(1,3) by (cases "dialects reg") (auto simp: registry_ok_def is_well_formed_def)
  then have d: "d \<in> set (tl (dialects reg))" using assms(4) by (auto simp: base_dialect_def)
  then have "verify_r3 d" and r5: "\<exists>as. verify_r5_with_ancestors d as"
    using installed_admitted [OF assms(1) d] by (auto simp: admitted_def)
  moreover have "d_name d \<noteq> BASE_NAME" using d assms(2) by (metis imageI)
  moreover have "defines_performative d (shape_performative shape)"
    using r5 assms(4)
    by (auto simp: verify_r5_with_ancestors_def r5_violations_with_ancestors_def shape_violations_def split: if_splits)
  ultimately show ?thesis by (auto simp: verify_r3_def defines_performative_def list_ex_iff)
qed

lemma core_shapes_ok:
  assumes "registry_ok reg" "BASE_NAME \<notin> d_name ` set (tl (dialects reg))"
  shows "check_shapes (core_as_str c) e reg = Inr ()"
  using shapes_not_core [OF assms] core_names [of c] unfolding check_shapes_def check_shape_list_ok by fastforce

section \<open>Properties\<close>

text \<open>The expansion of a message does not depend on what else the receiver has installed: two
  registries with the base dialect in place that hold the same dialects under the names the message is
  scoped by expand it to the same result, or fail with the same error.\<close>

lemma evaluation_receiver_independent:
  assumes "is_well_formed reg" "is_well_formed reg'"
    "\<And>name. name \<in> lang_names msg \<Longrightarrow> find_by_name reg name = find_by_name reg' name"
  shows "evaluate_without_shape_check msg reg = evaluate_without_shape_check msg reg'"
  unfolding evaluate_without_shape_check_def using evaluate_with_scope_cong [OF assms(1,2)] assms(3) by blast

definition sample_vote :: message where
  "sample_vote = Dialect ''poll'' (Simple \<lparr>m_performative = Custom ''vote'', m_recipient = None, m_content = Sym ''yes'',
     m_params = [], m_thread = None, m_sender = None, m_caused_by = None\<rparr>)"

lemma evaluation_receiver_independent_witness:
  "evaluate_without_shape_check sample_vote \<lparr>dialects = [base_dialect, sample_poll]\<rparr> =
   evaluate_without_shape_check sample_vote \<lparr>dialects = [base_dialect, sample_ping, sample_poll]\<rparr>"
  by (rule evaluation_receiver_independent)
    (auto simp: is_well_formed_def sample_vote_def find_by_name_def base_dialect_def BASE_NAME_def sample_poll_def sample_ping_def)

text \<open>Evaluation accepts exactly the expansions that meet every shape constraint that any installed
  dialect declares for the name of the innermost performative.\<close>

lemma evaluate_shapes_exact:
  "evaluate msg reg = Inr r \<longleftrightarrow>
     evaluate_without_shape_check msg reg = Inr r \<and>
     list_all (\<lambda>shape. shape_check shape (er_expanded r) = Inr ())
       (filter (\<lambda>shape. map_option performative_name (leaf_performative msg) = Some (shape_performative shape))
         (concat (map d_shapes (dialects reg))))"
  unfolding evaluate_def evaluate_without_shape_check_def evaluate_with_scope_shapes check_shapes_def check_shape_list_ok
  by (auto simp: list_all_iff)

text \<open>In a registry built by installs, without a second dialect named \<open>cbcl-base\<close>, a bare message with a
  core performative always evaluates: to the effect form of its performative and exactly the effects of
  that performative, one per recipient where it sends, whatever else is installed.\<close>

lemma core_evaluation_exact:
  assumes "reachable_registry sha256 sg reg" "BASE_NAME \<notin> d_name ` set (tl (dialects reg))" "m_performative s = Core c"
  shows "evaluate (Simple s) reg = Inr \<lparr>er_expanded = effect_template (core_action c),
    er_effects = core_effects c (let rs = recipient_set (Simple s) in if rs = [] then [None] else map Some rs) (m_content s),
    er_thread = m_thread s\<rparr>"
proof -
  note ok = reachable_ok [OF assms(1)]
  have "base_definer_of reg (core_as_str c) = Some base_dialect"
    using base_definer_wf [of reg] ok core_names [of c] by (simp add: registry_ok_def)
  moreover obtain rs where "expand_template [] (effect_template (core_action c)) (m_content s # m_params s)
      (initial_resources (d_resources base_dialect)) = Some (effect_template (core_action c), rs)"
    using core_expansion by blast
  ultimately show ?thesis
    using core_shapes_ok [OF ok assms(2), of c]
    by (simp add: evaluate_def evaluate_simple_def performative_of_def assms(3) performative_name_def is_core_def
        resolve_performative_dialect_def find_core message_args_def content_of_def thread_of_def core_interpret Let_def)
qed

definition sample_hello :: simple_message where
  "sample_hello = \<lparr>m_performative = Core Tell, m_recipient = Some (RSet [''@a'', ''@b'']), m_content = Sym ''hi'',
     m_params = [], m_thread = Some ''t'', m_sender = None, m_caused_by = None\<rparr>"

lemma core_evaluation_exact_witness:
  "evaluate (Simple sample_hello) registry_new = Inr \<lparr>er_expanded = effect_template ''send-message'',
     er_effects = [SendMessage (Some ''@a'') (Sym ''hi''), SendMessage (Some ''@b'') (Sym ''hi''), StoreBelief (Sym ''hi'')],
     er_thread = Some ''t''\<rparr>"
  using core_evaluation_exact [OF reachable_registry.new, of sample_hello Tell]
  by (simp add: registry_new_def sample_hello_def core_action_def core_effects_def recipient_set_def as_set_def
      bs_of_list_def)

text \<open>Although a custom performative is resolved in its own dialect only, its expansion is checked against the
  shapes that other dialects declare for the same name: installing an unrelated dialect can turn an
  accepted message into a shape violation.\<close>

lemma foreign_shape_rejects:
  "\<exists>d e r v. evaluate sample_vote \<lparr>dialects = [base_dialect, e]\<rparr> = Inr r \<and> d_name d \<noteq> d_name e \<and>
     evaluate sample_vote \<lparr>dialects = [base_dialect, e, d]\<rparr> = Inl (ShapeViolated v)"
proof -
  let ?e = "base_dialect\<lparr>d_name := ''poll'', d_performatives := [sample_perf ''vote'' (List [Sym ''ballot''])]\<rparr>"
  let ?d = "base_dialect\<lparr>d_name := ''census'', d_performatives := [sample_perf ''vote'' (List [Sym ''count''])],
    d_shapes := [\<lparr>shape_performative = ''vote'', shape_rules = [Require ''region'' None []]\<rparr>]\<rparr>"
  have "eval_form (List [Sym ''ballot'']) (build_bindings [] [Sym ''yes'']) = Some (TSingle (List [Sym ''ballot'']))"
    by code_simp
  then obtain rs where expand: "expand_template [] (List [Sym ''ballot'']) [Sym ''yes'']
      (initial_resources (d_resources base_dialect)) = Some (List [Sym ''ballot''], rs)"
    using small_expansion by fastforce
  let ?r = "\<lparr>er_expanded = List [Sym ''ballot''], er_effects = [CustomEffect (List [Sym ''ballot''])], er_thread = None\<rparr>"
  have found: "find_by_name \<lparr>dialects = base_dialect # ?e # ds\<rparr> ''poll'' = Some ?e" for ds
    by (simp add: find_by_name_def base_dialect_def BASE_NAME_def)
  have eval: "evaluate sample_vote \<lparr>dialects = base_dialect # ?e # ds\<rparr> =
      bind_result (check_shapes ''vote'' (List [Sym ''ballot'']) \<lparr>dialects = base_dialect # ?e # ds\<rparr>) (\<lambda>_. Inr ?r)" for ds
    using expand found [of ds]
    by (simp add: evaluate_def sample_vote_def evaluate_simple_def performative_of_def
        performative_name_def is_core_def resolve_performative_dialect_def defines_performative_def find_performative_def
        sample_perf_def message_args_def content_of_def recipient_set_def thread_of_def interpret_effects_def
        extract_effect_action_def)
  have shapes: "check_shapes ''vote'' (List [Sym ''ballot'']) \<lparr>dialects = [base_dialect, ?e]\<rparr> = Inr ()"
    "\<exists>v. check_shapes ''vote'' (List [Sym ''ballot'']) \<lparr>dialects = [base_dialect, ?e, ?d]\<rparr> = Inl (ShapeViolated v)"
    by (simp_all add: check_shapes_def base_dialect_def shape_check_def find_keyword_value_def)
  have "d_name ?d \<noteq> d_name ?e" by simp
  then show ?thesis using eval [of "[]"] eval [of "[?d]"] shapes by (metis bind_result_simps)
qed

end
