(* ===== verification/Cbcl_Policy.thy ===== *)
theory Cbcl_Policy
  imports Cbcl_Causal
begin

text \<open>
  What is done with a message whose predecessor is not known yet: the policies and the pending queue of
  \<open>cbcl-core/src/policy.rs\<close>. The queue keeps one bounded first-in first-out buffer per thread; the
  \<open>HashMap\<close> of buffers is represented by its sorted listing, so the order in which different threads
  contribute to a result is not part of the claims, which speak of one thread at a time. Timestamps are
  64-bit words. The locale \<open>fifo_buffer\<close> is the contract of a bounded buffer; it is interpreted on the
  buffer of a thread.
\<close>

section \<open>Data\<close>

datatype unknown_predecessor_policy = PolicyReject | PolicyBuffer nat u64

definition policy_buffer :: "u64 \<Rightarrow> unknown_predecessor_policy" where
  "policy_buffer ttl = PolicyBuffer 64 ttl"

datatype pending_reason = CausalPending

datatype drop_reason = CausalTimeout | Evicted

datatype policy_outcome = OAccept | OReject causal_violation | OPending pending_reason | OBuffered

definition apply_policy :: "verification_result \<Rightarrow> unknown_predecessor_policy \<Rightarrow> policy_outcome" where
  "apply_policy result policy = (case result of
       Valid \<Rightarrow> OAccept
     | Violation v \<Rightarrow> OReject v
     | Unknown \<Rightarrow> (case policy of PolicyReject \<Rightarrow> OPending CausalPending | PolicyBuffer _ _ \<Rightarrow> OBuffered))"

record pending_entry =
  pe_hash :: content_hash
  pe_message :: message
  pe_thread :: thread_id
  pe_performative :: string
  pe_caused_by :: "caused_by option"
  pe_inserted_at :: u64

record pending_queue =
  max_pending :: nat
  pq_ttl :: u64
  queues :: "(thread_id, pending_entry list) btmap"

section \<open>Operations\<close>

definition pending_new :: "nat \<Rightarrow> u64 \<Rightarrow> pending_queue" where
  "pending_new n ttl = \<lparr>max_pending = n, pq_ttl = ttl, queues = []\<rparr>"

text \<open>\<open>None\<close> is the panic of \<open>from_policy\<close>.\<close>

definition pending_from_policy :: "unknown_predecessor_policy \<Rightarrow> pending_queue option" where
  "pending_from_policy policy = (case policy of
       PolicyBuffer n ttl \<Rightarrow> Some (pending_new n ttl)
     | PolicyReject \<Rightarrow> None)"

definition buffer_push :: "nat \<Rightarrow> 'a list \<Rightarrow> 'a \<Rightarrow> 'a list \<times> 'a option" where
  "buffer_push n queue entry =
     (if length queue \<ge> n
      then (case queue of [] \<Rightarrow> ([entry], None) | front # rest \<Rightarrow> (rest @ [entry], Some front))
      else (queue @ [entry], None))"

definition enqueue ::
  "pending_queue \<Rightarrow> pending_entry \<Rightarrow> pending_queue \<times> (pending_entry \<times> drop_reason) option" where
  "enqueue q entry =
     (case buffer_push (max_pending q) (get_or_default (queues q) (pe_thread entry)) entry of
        (queue, evicted) \<Rightarrow>
          (q\<lparr>queues := bt_insert (pe_thread entry) queue (queues q)\<rparr>, map_option (\<lambda>e. (e, Evicted)) evicted))"

definition expired :: "u64 \<Rightarrow> u64 \<Rightarrow> pending_entry \<Rightarrow> bool" where
  "expired ttl now entry \<longleftrightarrow> saturating_sub now (pe_inserted_at entry) \<ge> ttl"

fun expire_front :: "u64 \<Rightarrow> u64 \<Rightarrow> pending_entry list \<Rightarrow> pending_entry list \<times> pending_entry list" where
  "expire_front ttl now [] = ([], [])"
| "expire_front ttl now (front # rest) =
     (if expired ttl now front
      then (case expire_front ttl now rest of (gone, kept) \<Rightarrow> (front # gone, kept))
      else ([], front # rest))"

definition expire :: "pending_queue \<Rightarrow> u64 \<Rightarrow> pending_queue \<times> (pending_entry \<times> drop_reason) list" where
  "expire q now =
     (q\<lparr>queues := map (\<lambda>(t, queue). (t, snd (expire_front (pq_ttl q) now queue))) (queues q)\<rparr>,
      map (\<lambda>e. (e, CausalTimeout))
        (concat (map (\<lambda>queue. fst (expire_front (pq_ttl q) now queue)) (bt_values (queues q)))))"

text \<open>The index loop of \<open>re_evaluate_with\<close> over one thread: an undecided entry is stepped over, a decided
  one is removed at its index.\<close>

function re_loop ::
  "(pending_entry \<Rightarrow> verification_result option) \<Rightarrow> nat \<Rightarrow> pending_entry list \<Rightarrow>
    (pending_entry \<times> policy_outcome) list \<Rightarrow> pending_entry list \<times> (pending_entry \<times> policy_outcome) list" where
  "re_loop decide i queue resolved =
     (if i < length queue then
        (let entry = queue ! i; without = take i queue @ drop (Suc i) queue
         in case decide entry of
              None \<Rightarrow> re_loop decide (Suc i) queue resolved
            | Some Unknown \<Rightarrow> re_loop decide (Suc i) queue resolved
            | Some Valid \<Rightarrow> re_loop decide i without (resolved @ [(entry, OAccept)])
            | Some (Violation v) \<Rightarrow> re_loop decide i without (resolved @ [(entry, OReject v)]))
      else (queue, resolved))"
  by pat_completeness auto
termination
  by (relation "measure (\<lambda>(decide, i, queue, resolved). length queue - i)") auto

fun re_threads ::
  "(pending_entry \<Rightarrow> thread_id \<Rightarrow> verification_result option) \<Rightarrow> (thread_id, pending_entry list) btmap \<Rightarrow>
    (pending_entry \<times> policy_outcome) list \<Rightarrow>
    (thread_id, pending_entry list) btmap \<times> (pending_entry \<times> policy_outcome) list" where
  "re_threads decide [] resolved = ([], resolved)"
| "re_threads decide ((t, queue) # rest) resolved =
     (case re_loop (\<lambda>e. decide e t) 0 queue resolved of
        (queue', resolved') \<Rightarrow>
          (case re_threads decide rest resolved' of (rest', out) \<Rightarrow> ((t, queue') # rest', out)))"

definition re_evaluate_with ::
  "(pending_entry \<Rightarrow> thread_id \<Rightarrow> verification_result option) \<Rightarrow> pending_queue \<Rightarrow>
    pending_queue \<times> (pending_entry \<times> policy_outcome) list" where
  "re_evaluate_with decide q = (case re_threads decide (queues q) [] of
     (qs, resolved) \<Rightarrow> (q\<lparr>queues := qs\<rparr>, resolved))"

definition causal_result ::
  "string \<Rightarrow> caused_by option \<Rightarrow> threaded_store \<Rightarrow> causal_protocol \<Rightarrow> thread_id \<Rightarrow> verification_result" where
  "causal_result p caused s cp t = the (verify_causal p caused s cp t)"

definition re_evaluate ::
  "threaded_store \<Rightarrow> causal_protocol \<Rightarrow> pending_queue \<Rightarrow>
    pending_queue \<times> (pending_entry \<times> policy_outcome) list" where
  "re_evaluate s cp q = re_evaluate_with (\<lambda>e t. Some (causal_result (pe_performative e) (pe_caused_by e) s cp t)) q"

definition pending_len :: "pending_queue \<Rightarrow> nat" where
  "pending_len q = sum_list (map length (bt_values (queues q)))"

definition pending_is_empty :: "pending_queue \<Rightarrow> bool" where
  "pending_is_empty q = list_all (\<lambda>queue. queue = []) (bt_values (queues q))"

definition thread_len :: "pending_queue \<Rightarrow> thread_id \<Rightarrow> nat" where
  "thread_len q t = length (get_or_default (queues q) t)"

definition thread_entries :: "pending_queue \<Rightarrow> thread_id \<Rightarrow> pending_entry list" where
  "thread_entries q t = get_or_default (queues q) t"

section \<open>Clocks\<close>

definition NO_CLOCK :: u64 where "NO_CLOCK = - 1"

declare re_loop.simps [simp del]

section \<open>Bounded buffers\<close>

text \<open>
  The contract: a push loses nothing but what it returns, the returned element being the oldest, and the
  buffer fills up to its capacity and stays there. It follows that a run of pushes leaves the latest
  elements and returns the others in order.
\<close>

definition evicted_list :: "'a option \<Rightarrow> 'a list" where
  "evicted_list e = (case e of None \<Rightarrow> [] | Some x \<Rightarrow> [x])"

lemma evicted_list_simps [simp]: "evicted_list None = []" "evicted_list (Some x) = [x]"
  by (simp_all add: evicted_list_def)

locale fifo_buffer =
  fixes push :: "'a list \<Rightarrow> 'a \<Rightarrow> 'a list \<times> 'a option" and cap :: nat
  assumes push_order: "evicted_list (snd (push q x)) @ fst (push q x) = q @ [x]"
    and push_size: "length q \<le> cap \<Longrightarrow> length (fst (push q x)) = min cap (Suc (length q))"
begin

definition push_all :: "'a list \<Rightarrow> 'a list \<Rightarrow> 'a list \<times> 'a list" where
  "push_all q xs = foldl (\<lambda>(q, out) x. (fst (push q x), out @ evicted_list (snd (push q x)))) (q, []) xs"

lemma push_all_snoc:
  "push_all q (xs @ [x]) = (case push_all q xs of (q', out) \<Rightarrow> (fst (push q' x), out @ evicted_list (snd (push q' x))))"
  by (simp add: push_all_def split: prod.splits)

lemma push_all_order: "snd (push_all q xs) @ fst (push_all q xs) = q @ xs"
proof (induction xs rule: rev_induct)
  case (snoc x xs)
  obtain q' out where q': "push_all q xs = (q', out)" by (rule prod.exhaust)
  then show ?case using snoc push_order [of q' x] by (simp add: push_all_snoc)
qed (simp add: push_all_def)

lemma push_all_size: "length q \<le> cap \<Longrightarrow> length (fst (push_all q xs)) = min cap (length q + length xs)"
proof (induction xs rule: rev_induct)
  case (snoc x xs)
  obtain q' out where q': "push_all q xs = (q', out)" by (rule prod.exhaust)
  then have "length q' \<le> cap" using snoc by auto
  then show ?case using snoc q' push_size [of q' x] by (auto simp: push_all_snoc min_def)
qed (simp add: push_all_def)

lemma push_all_latest:
  assumes "length q \<le> cap"
  shows "push_all q xs = (drop (length q + length xs - cap) (q @ xs), take (length q + length xs - cap) (q @ xs))"
proof -
  obtain q' out where q': "push_all q xs = (q', out)" by (rule prod.exhaust)
  then have "out @ q' = q @ xs" "length q' = min cap (length q + length xs)"
    using push_all_order [of q xs] push_all_size [OF assms, of xs] by auto
  moreover from this have "length out + length q' = length q + length xs"
    by (metis length_append)
  then have "length out = length q + length xs - cap" using calculation(2) by linarith
  ultimately show ?thesis using q' by (metis append_eq_conv_conj)
qed

end

interpretation thread_buffer: fifo_buffer "buffer_push n" "max 1 n" for n
  by unfold_locales (auto simp: buffer_push_def split: list.splits)

section \<open>The pending queue as one buffer per thread\<close>

definition enqueue_all ::
  "pending_queue \<Rightarrow> pending_entry list \<Rightarrow> pending_queue \<times> (pending_entry \<times> drop_reason) list" where
  "enqueue_all q es =
     foldl (\<lambda>(q, out) e. (fst (enqueue q e), out @ evicted_list (snd (enqueue q e)))) (q, []) es"

lemma enqueue_all_snoc:
  "enqueue_all q (es @ [e]) =
     (case enqueue_all q es of (q', out) \<Rightarrow> (fst (enqueue q' e), out @ evicted_list (snd (enqueue q' e))))"
  by (simp add: enqueue_all_def split: prod.splits)

lemma thread_entries_enqueue:
  "thread_entries (fst (enqueue q e)) t =
     (if t = pe_thread e then fst (buffer_push (max_pending q) (thread_entries q t) e) else thread_entries q t)"
  by (simp add: enqueue_def thread_entries_def get_or_default_def split: prod.splits)

lemma enqueue_settings [simp]:
  "max_pending (fst (enqueue q e)) = max_pending q" "pq_ttl (fst (enqueue q e)) = pq_ttl q"
  by (simp_all add: enqueue_def split: prod.splits)

lemma evicted_enqueue:
  "evicted_list (snd (enqueue q e)) =
     map (\<lambda>x. (x, Evicted)) (evicted_list (snd (buffer_push (max_pending q) (thread_entries q (pe_thread e)) e)))"
  by (cases "buffer_push (max_pending q) (get_or_default (queues q) (pe_thread e)) e")
    (simp add: enqueue_def thread_entries_def evicted_list_def split: option.splits)

lemma thread_entries_new [simp]: "thread_entries (pending_new n ttl) t = []"
  by (simp add: thread_entries_def pending_new_def get_or_default_def)

lemma buffer_push_members:
  "set (evicted_list (snd (buffer_push n q x))) \<union> set (fst (buffer_push n q x)) = insert x (set q)"
  using arg_cong [OF thread_buffer.push_order [of n q x], of set] by auto

lemma enqueue_all_threads:
  assumes "enqueue_all (pending_new n ttl) es = (q, out)"
  shows "max_pending q = n \<and> set (thread_entries q t) \<subseteq> {e. pe_thread e = t} \<and>
    (thread_entries q t, map fst (filter (\<lambda>(e, _). pe_thread e = t) out)) =
       thread_buffer.push_all n [] (filter (\<lambda>e. pe_thread e = t) es)"
  using assms
proof (induction es arbitrary: q out t rule: rev_induct)
  case (snoc e es)
  obtain q' out' where q': "enqueue_all (pending_new n ttl) es = (q', out')" by (rule prod.exhaust)
  let ?q = "thread_entries q' (pe_thread e)"
  have q: "q = fst (enqueue q' e)" "out = out' @ evicted_list (snd (enqueue q' e))"
    using snoc.prems q' by (simp_all add: enqueue_all_snoc)
  have IH: "max_pending q' = n" "set (thread_entries q' u) \<subseteq> {e. pe_thread e = u}"
      "(thread_entries q' u, map fst (filter (\<lambda>(e, _). pe_thread e = u) out')) =
        thread_buffer.push_all n [] (filter (\<lambda>e. pe_thread e = u) es)" for u
    using snoc.IH [OF q'] by blast+
  have mem: "set (evicted_list (snd (buffer_push n ?q e))) \<subseteq> {x. pe_thread x = pe_thread e}"
      "set (fst (buffer_push n ?q e)) \<subseteq> {x. pe_thread x = pe_thread e}"
    using IH(2) [of "pe_thread e"] buffer_push_members [of n ?q e] by auto
  have "set (thread_entries q t) \<subseteq> {e. pe_thread e = t}"
    using IH(2) [of t] mem(2) unfolding q(1) thread_entries_enqueue IH(1) by (cases "t = pe_thread e") simp_all
  moreover have "(thread_entries q t, map fst (filter (\<lambda>(e, _). pe_thread e = t) out)) =
       thread_buffer.push_all n [] (filter (\<lambda>e. pe_thread e = t) (es @ [e]))"
  proof (cases "t = pe_thread e")
    case True
    have "filter (\<lambda>x. pe_thread x = t) (evicted_list (snd (buffer_push n ?q e))) = evicted_list (snd (buffer_push n ?q e))"
      using mem(1) True by (auto simp: filter_id_conv)
    then show ?thesis
      using IH(3) [of t, symmetric] True
      by (simp add: q thread_entries_enqueue evicted_enqueue IH(1) thread_buffer.push_all_snoc filter_map comp_def)
  next
    case False
    have "filter (\<lambda>x. pe_thread x = t) (evicted_list (snd (buffer_push n ?q e))) = []"
      using mem(1) False by (auto simp: filter_empty_conv)
    then show ?thesis
      using IH(3) [of t] False by (simp add: q thread_entries_enqueue evicted_enqueue IH(1) filter_map comp_def)
  qed
  ultimately show ?case using IH(1) q(1) by simp
qed (auto simp: enqueue_all_def thread_buffer.push_all_def pending_new_def thread_entries_def get_or_default_def)

section \<open>Expiry and re-evaluation\<close>

lemma expire_front_while:
  "expire_front ttl now queue = (takeWhile (expired ttl now) queue, dropWhile (expired ttl now) queue)"
  by (induction queue) auto

lemma expired_antimono:
  "pe_inserted_at e \<le> pe_inserted_at e' \<Longrightarrow> expired ttl now e' \<Longrightarrow> expired ttl now e"
  unfolding expired_def word_le_nat_alt unat_saturating_sub by (meson diff_le_mono2 le_trans)

lemma sorted_split:
  assumes "sorted_wrt (\<lambda>x y. P y \<longrightarrow> P x) xs"
  shows "takeWhile P xs = filter P xs" "dropWhile P xs = filter (\<lambda>x. \<not> P x) xs"
  using assms by (induction xs) (auto simp: filter_empty_conv filter_id_conv)

lemma sorted_expiry:
  assumes "sorted (map pe_inserted_at queue)"
  shows "sorted_wrt (\<lambda>x y. expired ttl now y \<longrightarrow> expired ttl now x) queue"
  using assms by (induction queue) (auto intro: expired_antimono)

lemma thread_entries_expire:
  "thread_entries (fst (expire q now)) t = dropWhile (expired (pq_ttl q) now) (thread_entries q t)"
  by (cases "bt_get (queues q) t")
    (simp_all add: expire_def thread_entries_def get_or_default_def expire_front_while map_of_map)

lemma no_clock_not_expired:
  assumes "pe_inserted_at e = NO_CLOCK" "ttl \<noteq> 0"
  shows "\<not> expired ttl now e"
proof -
  have "saturating_sub now (- 1) = (0 :: u64)"
  proof (cases "now = - 1")
    case False
    then have "now < - 1" using word_n1_ge [of now] by (simp add: order.strict_iff_order)
    then show ?thesis by (auto simp: saturating_sub_def)
  qed (simp add: saturating_sub_def)
  then show ?thesis using assms by (simp add: expired_def NO_CLOCK_def)
qed

definition still_pending :: "verification_result option \<Rightarrow> bool" where
  "still_pending r \<longleftrightarrow> r = None \<or> r = Some Unknown"

definition outcome_of :: "verification_result option \<Rightarrow> policy_outcome" where
  "outcome_of r = (case r of Some (Violation v) \<Rightarrow> OReject v | _ \<Rightarrow> OAccept)"

text \<open>The index loop is a stable partition.\<close>

lemma re_loop_partition:
  "list_all (\<lambda>e. still_pending (decide e)) (take i queue) \<Longrightarrow> i \<le> length queue \<Longrightarrow>
     re_loop decide i queue resolved =
       (filter (\<lambda>e. still_pending (decide e)) queue,
        resolved @ map (\<lambda>e. (e, outcome_of (decide e))) (filter (\<lambda>e. \<not> still_pending (decide e)) (drop i queue)))"
proof (induction "length queue - i" arbitrary: i queue resolved rule: less_induct)
  case less
  let ?pend = "\<lambda>e. still_pending (decide e)" and ?out = "\<lambda>e. (e, outcome_of (decide e))"
  show ?case
  proof (cases "i < length queue")
    case True
    define entry where "entry = queue ! i"
    define without where "without = take i queue @ drop (Suc i) queue"
    have split: "drop i queue = entry # drop (Suc i) queue"
      using True by (simp add: entry_def Cons_nth_drop_Suc)
    have queue: "queue = take i queue @ entry # drop (Suc i) queue" using True by (simp add: entry_def id_take_nth_drop)
    have tw: "take i without = take i queue" "drop i without = drop (Suc i) queue" "length without = length queue - 1"
      using True by (simp_all add: without_def)
    show ?thesis
    proof (cases "?pend entry")
      case pend: True
      have "re_loop decide i queue resolved = re_loop decide (Suc i) queue resolved"
        using True pend by (subst re_loop.simps) (auto simp: Let_def still_pending_def entry_def)
      moreover have "list_all ?pend (take (Suc i) queue)"
        using less.prems pend True by (simp add: take_Suc_conv_app_nth entry_def)
      ultimately show ?thesis using less.hyps [of queue "Suc i" resolved] True pend split by simp
    next
      case decided: False
      have "re_loop decide i queue resolved = re_loop decide i without (resolved @ [?out entry])"
        using True decided
        by (subst re_loop.simps)
          (auto simp: Let_def still_pending_def entry_def without_def outcome_of_def
            split: option.splits verification_result.splits)
      moreover have "filter ?pend without = filter ?pend queue"
        unfolding without_def using decided by (subst (2) queue) simp
      ultimately show ?thesis
        using less.hyps [of without i "resolved @ [?out entry]"] less.prems True decided split tw by simp
    qed
  next
    case False
    then show ?thesis using less.prems
      by (subst re_loop.simps) (auto simp: list_all_iff filter_id_conv)
  qed
qed

lemma re_threads_partition:
  "re_threads decide m resolved =
     (map (\<lambda>(t, queue). (t, filter (\<lambda>e. still_pending (decide e t)) queue)) m,
      resolved @ concat (map (\<lambda>(t, queue). map (\<lambda>e. (e, outcome_of (decide e t)))
        (filter (\<lambda>e. \<not> still_pending (decide e t)) queue)) m))"
  by (induction decide m resolved rule: re_threads.induct) (simp_all add: re_loop_partition)

lemma re_evaluate_with_partition:
  "thread_entries (fst (re_evaluate_with decide q)) t =
     filter (\<lambda>e. still_pending (decide e t)) (thread_entries q t)"
  "snd (re_evaluate_with decide q) = concat (map (\<lambda>(t, queue). map (\<lambda>e. (e, outcome_of (decide e t)))
     (filter (\<lambda>e. \<not> still_pending (decide e t)) queue)) (queues q))"
proof -
  have get: "bt_get (map (\<lambda>(t, queue). (t, f t queue)) m) t = map_option (f t) (bt_get m t)"
    for f and m :: "(thread_id, pending_entry list) btmap"
    by (induction m) auto
  show "thread_entries (fst (re_evaluate_with decide q)) t =
     filter (\<lambda>e. still_pending (decide e t)) (thread_entries q t)"
    by (cases "bt_get (queues q) t")
      (simp_all add: re_evaluate_with_def re_threads_partition thread_entries_def get_or_default_def
        get [of "\<lambda>t queue. filter (\<lambda>e. still_pending (decide e t)) queue"])
qed (simp add: re_evaluate_with_def re_threads_partition)

section \<open>Properties\<close>

text \<open>Whatever messages are buffered, each thread holds exactly the latest of its messages, in order of
  arrival, up to the capacity (at least one even for a capacity of zero), and what was evicted are the
  earlier ones, in order; threads do not affect each other.\<close>

lemma pending_queue_latest:
  "case enqueue_all (pending_new n ttl) es of (q, out) \<Rightarrow>
     let xs = filter (\<lambda>e. pe_thread e = t) es; k = length xs - max 1 n
     in thread_entries q t = drop k xs \<and> map fst (filter (\<lambda>(e, _). pe_thread e = t) out) = take k xs"
proof -
  obtain q out where q: "enqueue_all (pending_new n ttl) es = (q, out)" by (rule prod.exhaust)
  then show ?thesis
    using enqueue_all_threads [OF q, of t] thread_buffer.push_all_latest [of "[]" n "filter (\<lambda>e. pe_thread e = t) es"]
    by (simp add: Let_def)
qed

text \<open>When the entries of every thread were stamped in order, an expiry run removes exactly the entries
  that have waited for the time to live or longer and keeps the others in order.\<close>

lemma expire_exact:
  assumes "list_all (\<lambda>queue. sorted (map pe_inserted_at queue)) (bt_values (queues q))"
  shows "thread_entries (fst (expire q now)) t = filter (\<lambda>e. \<not> expired (pq_ttl q) now e) (thread_entries q t) \<and>
    snd (expire q now) = map (\<lambda>e. (e, CausalTimeout)) (filter (expired (pq_ttl q) now) (concat (bt_values (queues q))))"
proof -
  have split: "takeWhile (expired (pq_ttl q) now) queue = filter (expired (pq_ttl q) now) queue"
      "dropWhile (expired (pq_ttl q) now) queue = filter (\<lambda>e. \<not> expired (pq_ttl q) now e) queue"
    if "sorted (map pe_inserted_at queue)" for queue
    using sorted_split [OF sorted_expiry [OF that]] by blast+
  have "sorted (map pe_inserted_at (thread_entries q t))"
    using assms by (cases "bt_get (queues q) t")
      (auto simp: thread_entries_def get_or_default_def list_all_iff dest!: map_of_SomeD)
  moreover have "map (\<lambda>queue. takeWhile (expired (pq_ttl q) now) queue) (bt_values (queues q)) =
      map (filter (expired (pq_ttl q) now)) (bt_values (queues q))"
    using assms split(1) by (auto simp: list_all_iff)
  then have "snd (expire q now) = map (\<lambda>e. (e, CausalTimeout)) (filter (expired (pq_ttl q) now) (concat (bt_values (queues q))))"
    unfolding expire_def expire_front_while filter_concat by (simp only: fst_conv snd_conv)
  ultimately show ?thesis using split(2) by (simp add: thread_entries_expire)
qed

definition sample_entry :: "u64 \<Rightarrow> pending_entry" where
  "sample_entry at = \<lparr>pe_hash = [], pe_message = Meta (List []), pe_thread = ''t'', pe_performative = ''ack'',
     pe_caused_by = None, pe_inserted_at = at\<rparr>"

lemma expire_exact_witness:
  "thread_entries (fst (expire \<lparr>max_pending = 4, pq_ttl = 10, queues = [(''t'', [sample_entry 1, sample_entry 8])]\<rparr> 12)) ''t'' =
     [sample_entry 8]"
proof -
  let ?q = "\<lparr>max_pending = 4, pq_ttl = 10, queues = [(''t'', [sample_entry 1, sample_entry 8])]\<rparr>"
  have "list_all (\<lambda>queue. sorted (map pe_inserted_at queue)) (bt_values (queues ?q))" by (simp add: sample_entry_def)
  from expire_exact [OF this, of 12 "''t''"] show ?thesis
    by (simp add: thread_entries_def get_or_default_def expired_def saturating_sub_def sample_entry_def)
qed

text \<open>Entries are drained from the front only, so an entry stamped later than one behind it, such as one
  stamped without a clock, keeps the expired entries behind it in the queue.\<close>

lemma expire_blocked_by_late_stamp:
  "\<exists>q now e. e \<in> set (thread_entries q ''t'') \<and> expired (pq_ttl q) now e \<and> expire q now = (q, [])"
proof -
  let ?q = "\<lparr>max_pending = 4, pq_ttl = 10, queues = [(''t'', [sample_entry NO_CLOCK, sample_entry 0])]\<rparr>"
  have "\<not> expired 10 50 (sample_entry NO_CLOCK)" by (rule no_clock_not_expired) (simp_all add: sample_entry_def)
  then have "expire ?q 50 = (?q, [])" by (simp add: expire_def)
  moreover have "expired 10 50 (sample_entry 0)" by (simp add: expired_def sample_entry_def saturating_sub_def)
  ultimately show ?thesis
    by (intro exI [of _ ?q] exI [of _ 50] exI [of _ "sample_entry 0"]) (simp add: thread_entries_def get_or_default_def)
qed

end
