(* ===== verification/Cbcl_Agent.thy ===== *)
theory Cbcl_Agent
  imports Cbcl_Evaluator Cbcl_Policy
begin

text \<open>
  The agent of \<open>cbcl-core/src/agent.rs\<close>: beliefs, installed dialects, message queue, conversation threads,
  message store and the buffer of messages whose predecessors are unknown. Live verification and
  re-evaluation of the buffer are modelled as the loops they are and shown to be the same decision.
  The order of a \<open>BTreeSet\<close> of beliefs is never observed, so beliefs are a set; the injected clock is
  the timestamp argument of the operations that read it.
\<close>

section \<open>State\<close>

datatype merge_policy = Conjunction | Disjunction

record agent =
  agent_id :: string
  beliefs :: "sexpr set"
  registry :: dialect_registry
  message_queue :: "message list"
  conversation_threads :: "(string, message list) btmap"
  message_store :: threaded_store
  policy :: unknown_predecessor_policy
  pending :: pending_queue
  merging :: merge_policy

datatype agent_outcome =
    Applied eval_result
  | CausalReject causal_violation
  | Pending pending_reason
  | Buffered
  | EvalFailed eval_error

definition with_policy :: "string \<Rightarrow> unknown_predecessor_policy \<Rightarrow> agent" where
  "with_policy i p = \<lparr>agent_id = i, beliefs = {}, registry = registry_new, message_queue = [],
     conversation_threads = [], message_store = new_store, policy = p,
     pending = (case p of PolicyBuffer n ttl \<Rightarrow> pending_new n ttl | PolicyReject \<Rightarrow> pending_new 0 0),
     merging = Conjunction\<rparr>"

definition agent_new :: "string \<Rightarrow> agent" where
  "agent_new i = with_policy i PolicyReject"

definition with_merge_policy :: "agent \<Rightarrow> merge_policy \<Rightarrow> agent" where
  "with_merge_policy a m = a\<lparr>merging := m\<rparr>"

definition agent_well_formed :: "agent \<Rightarrow> bool" where
  "agent_well_formed a = is_well_formed (registry a)"

section \<open>Simple operations\<close>

definition install_dialect ::
  "(string \<Rightarrow> string) \<Rightarrow> agent \<Rightarrow> dialect \<Rightarrow> (dialect_install_error, agent) result" where
  "install_dialect sha256 a d = bind_result (install sha256 (registry a) d) (\<lambda>reg. Inr (a\<lparr>registry := reg\<rparr>))"

definition add_belief :: "agent \<Rightarrow> sexpr \<Rightarrow> agent \<times> bool" where
  "add_belief a b = (a\<lparr>beliefs := insert b (beliefs a)\<rparr>, b \<notin> beliefs a)"

definition remove_belief :: "agent \<Rightarrow> sexpr \<Rightarrow> agent \<times> bool" where
  "remove_belief a b = (a\<lparr>beliefs := beliefs a - {b}\<rparr>, b \<in> beliefs a)"

definition has_belief :: "agent \<Rightarrow> sexpr \<Rightarrow> bool" where
  "has_belief a b \<longleftrightarrow> b \<in> beliefs a"

definition enqueue_message :: "agent \<Rightarrow> message \<Rightarrow> agent" where
  "enqueue_message a m = a\<lparr>message_queue := message_queue a @ [m]\<rparr>"

definition dequeue_message :: "agent \<Rightarrow> agent \<times> message option" where
  "dequeue_message a = (case message_queue a of
       [] \<Rightarrow> (a, None)
     | m # rest \<Rightarrow> (a\<lparr>message_queue := rest\<rparr>, Some m))"

definition agent_thread :: "agent \<Rightarrow> string \<Rightarrow> message list option" where
  "agent_thread a t = bt_get (conversation_threads a) t"

definition append_to_thread :: "agent \<Rightarrow> string \<Rightarrow> message \<Rightarrow> agent" where
  "append_to_thread a t m = a\<lparr>conversation_threads :=
     bt_insert t (get_or_default (conversation_threads a) t @ [m]) (conversation_threads a)\<rparr>"

section \<open>Causal decisions\<close>

definition merge_policy_outcomes :: "policy_outcome \<Rightarrow> policy_outcome \<Rightarrow> policy_outcome" where
  "merge_policy_outcomes a b = (case (a, b) of
       (OReject v, _) \<Rightarrow> OReject v
     | (_, OReject v) \<Rightarrow> OReject v
     | (OPending left, OPending _) \<Rightarrow> OPending left
     | (OPending r, _) \<Rightarrow> OPending r
     | (_, OPending r) \<Rightarrow> OPending r
     | (OBuffered, _) \<Rightarrow> OBuffered
     | (_, OBuffered) \<Rightarrow> OBuffered
     | (OAccept, OAccept) \<Rightarrow> OAccept)"

definition merge_policy_outcomes_disjunctive :: "policy_outcome \<Rightarrow> policy_outcome \<Rightarrow> policy_outcome" where
  "merge_policy_outcomes_disjunctive a b = (case (a, b) of
       (OAccept, _) \<Rightarrow> OAccept
     | (_, OAccept) \<Rightarrow> OAccept
     | (OPending r, _) \<Rightarrow> OPending r
     | (_, OPending r) \<Rightarrow> OPending r
     | (OBuffered, _) \<Rightarrow> OBuffered
     | (_, OBuffered) \<Rightarrow> OBuffered
     | (OReject v, _) \<Rightarrow> OReject v)"

definition caused_by_resolved :: "caused_by option \<Rightarrow> threaded_store \<Rightarrow> thread_id \<Rightarrow> bool" where
  "caused_by_resolved caused s t = (case caused of
       None \<Rightarrow> True
     | Some Begin \<Rightarrow> True
     | Some (Single h) \<Rightarrow> store_contains s h t
     | Some (Multiple hs) \<Rightarrow> list_all (\<lambda>h. store_contains s h t) hs)"

definition gate_unresolved_violation :: "verification_result \<Rightarrow> bool \<Rightarrow> verification_result" where
  "gate_unresolved_violation result resolved =
     (if \<not> resolved \<and> (case result of Violation _ \<Rightarrow> True | _ \<Rightarrow> False) then Unknown else result)"

definition default_thread :: "string option \<Rightarrow> thread_id" where
  "default_thread t = (case t of Some t \<Rightarrow> t | None \<Rightarrow> ''default'')"

definition constraining :: "string \<Rightarrow> dialect \<Rightarrow> causal_protocol option" where
  "constraining perf d = (case d_causal_protocol d of
       None \<Rightarrow> None
     | Some cp \<Rightarrow> if bt_contains_key (steps cp) perf then Some cp else None)"

definition gated_result ::
  "threaded_store \<Rightarrow> string \<Rightarrow> caused_by option \<Rightarrow> thread_id \<Rightarrow> causal_protocol \<Rightarrow> verification_result" where
  "gated_result s perf caused t cp =
     gate_unresolved_violation (causal_result perf caused s cp t) (caused_by_resolved caused s t)"

definition merge_outcomes :: "merge_policy \<Rightarrow> policy_outcome \<Rightarrow> policy_outcome \<Rightarrow> policy_outcome" where
  "merge_outcomes m = (case m of
       Conjunction \<Rightarrow> merge_policy_outcomes
     | Disjunction \<Rightarrow> merge_policy_outcomes_disjunctive)"

definition short_circuits :: "merge_policy \<Rightarrow> policy_outcome \<Rightarrow> bool" where
  "short_circuits m decision = (case (m, decision) of
       (Conjunction, OReject _) \<Rightarrow> True
     | (Disjunction, OAccept) \<Rightarrow> True
     | _ \<Rightarrow> False)"

text \<open>The loop of \<open>causal_verdict\<close> over the installed dialects, with its early exits.\<close>

fun verdict_loop ::
  "agent \<Rightarrow> string \<Rightarrow> caused_by option \<Rightarrow> thread_id \<Rightarrow> dialect list \<Rightarrow> policy_outcome option \<Rightarrow> policy_outcome option" where
  "verdict_loop a perf caused t [] decision = decision"
| "verdict_loop a perf caused t (d # ds) decision = (case constraining perf d of
       None \<Rightarrow> verdict_loop a perf caused t ds decision
     | Some cp \<Rightarrow>
         (let outcome = apply_policy (gated_result (message_store a) perf caused t cp) (policy a);
              decision' = (case decision of None \<Rightarrow> outcome | Some prev \<Rightarrow> merge_outcomes (merging a) prev outcome)
          in if short_circuits (merging a) decision' then Some decision'
             else verdict_loop a perf caused t ds (Some decision')))"

definition causal_verdict :: "agent \<Rightarrow> message \<Rightarrow> policy_outcome option" where
  "causal_verdict a msg = (case innermost_simple msg of
       Some (Simple s) \<Rightarrow> verdict_loop a (performative_name (m_performative s)) (m_caused_by s)
         (default_thread (m_thread s)) (dialects (registry a)) None
     | _ \<Rightarrow> None)"

definition buffered_entry :: "message \<Rightarrow> simple_message \<Rightarrow> u64 \<Rightarrow> pending_entry" where
  "buffered_entry msg s now = \<lparr>pe_hash = [], pe_message = msg, pe_thread = default_thread (m_thread s),
     pe_performative = performative_name (m_performative s), pe_caused_by = m_caused_by s, pe_inserted_at = now\<rparr>"

definition buffer_pending :: "agent \<Rightarrow> message \<Rightarrow> u64 \<Rightarrow> agent" where
  "buffer_pending a msg now = (case innermost_simple msg of
       Some (Simple s) \<Rightarrow> a\<lparr>pending := fst (enqueue (pending a) (buffered_entry msg s now))\<rparr>
     | _ \<Rightarrow> a)"

section \<open>Evaluation\<close>

definition apply_effect :: "agent \<Rightarrow> effect \<Rightarrow> agent" where
  "apply_effect a e = (case e of
       StoreBelief b \<Rightarrow> fst (add_belief a b)
     | RemoveBelief b \<Rightarrow> fst (remove_belief a b)
     | _ \<Rightarrow> a)"

definition evaluate_and_apply_at :: "agent \<Rightarrow> message \<Rightarrow> u64 \<Rightarrow> agent \<times> agent_outcome" where
  "evaluate_and_apply_at a msg now =
     (let proceed = (case evaluate msg (registry a) of
            Inl e \<Rightarrow> (a, EvalFailed e)
          | Inr r \<Rightarrow>
              (let a1 = foldl apply_effect a (er_effects r);
                   a2 = (case er_thread r of Some t \<Rightarrow> append_to_thread a1 t msg | None \<Rightarrow> a1)
               in (a2, Applied r)))
      in case causal_verdict a msg of
           None \<Rightarrow> proceed
         | Some OAccept \<Rightarrow> proceed
         | Some (OReject cv) \<Rightarrow> (a, CausalReject cv)
         | Some (OPending reason) \<Rightarrow> (a, Pending reason)
         | Some OBuffered \<Rightarrow> (buffer_pending a msg now, Buffered))"

definition evaluate_and_apply :: "u64 \<Rightarrow> agent \<Rightarrow> message \<Rightarrow> agent \<times> agent_outcome" where
  "evaluate_and_apply clock_now a msg = evaluate_and_apply_at a msg clock_now"

definition agent_expire :: "agent \<Rightarrow> u64 \<Rightarrow> agent \<times> (pending_entry \<times> drop_reason) list" where
  "agent_expire a now = (case expire (pending a) now of (q, out) \<Rightarrow> (a\<lparr>pending := q\<rparr>, out))"

definition combine_results :: "merge_policy \<Rightarrow> verification_result \<Rightarrow> verification_result \<Rightarrow> verification_result" where
  "combine_results m = (case m of Conjunction \<Rightarrow> vr_meet | Disjunction \<Rightarrow> vr_join)"

text \<open>The closure that \<open>reevaluate_pending\<close> passes: it combines verdicts and has no early exit.\<close>

fun reevaluate_loop ::
  "agent \<Rightarrow> pending_entry \<Rightarrow> thread_id \<Rightarrow> dialect list \<Rightarrow> verification_result option \<Rightarrow> verification_result option" where
  "reevaluate_loop a e t [] combined = combined"
| "reevaluate_loop a e t (d # ds) combined = (case constraining (pe_performative e) d of
       None \<Rightarrow> reevaluate_loop a e t ds combined
     | Some cp \<Rightarrow>
         (let r = gated_result (message_store a) (pe_performative e) (pe_caused_by e) t cp
          in reevaluate_loop a e t ds
               (Some (case combined of None \<Rightarrow> r | Some prev \<Rightarrow> combine_results (merging a) prev r))))"

definition reevaluation :: "agent \<Rightarrow> pending_entry \<Rightarrow> thread_id \<Rightarrow> verification_result option" where
  "reevaluation a e t = reevaluate_loop a e t (dialects (registry a)) None"

definition reevaluate_pending :: "agent \<Rightarrow> agent \<times> (pending_entry \<times> policy_outcome) list" where
  "reevaluate_pending a = (case re_evaluate_with (reevaluation a) (pending a) of
     (q, out) \<Rightarrow> (a\<lparr>pending := q\<rparr>, out))"

definition step_at :: "agent \<Rightarrow> u64 \<Rightarrow> agent \<times> agent_outcome option" where
  "step_at a now = (case dequeue_message a of
       (a', None) \<Rightarrow> (a', None)
     | (a', Some msg) \<Rightarrow> (case evaluate_and_apply_at a' msg now of (a'', out) \<Rightarrow> (a'', Some out)))"

definition agent_step :: "u64 \<Rightarrow> agent \<Rightarrow> agent \<times> agent_outcome option" where
  "agent_step clock_now a = step_at a clock_now"

section \<open>Live verification and re-evaluation\<close>

text \<open>Both loops fold the gated verdicts of the constraining protocols; the outcomes of a policy form an
  image of the verdict lattice, on which the early exits are absorbing.\<close>

definition constraining_results ::
  "threaded_store \<Rightarrow> string \<Rightarrow> caused_by option \<Rightarrow> thread_id \<Rightarrow> dialect list \<Rightarrow> verification_result list" where
  "constraining_results s perf caused t ds =
     map (gated_result s perf caused t) (List.map_filter (constraining perf) ds)"

definition combine_step ::
  "merge_policy \<Rightarrow> verification_result option \<Rightarrow> verification_result \<Rightarrow> verification_result option" where
  "combine_step m acc r = Some (case acc of None \<Rightarrow> r | Some prev \<Rightarrow> combine_results m prev r)"

lemma combine_step_simps [simp]:
  "combine_step m None r = Some r" "combine_step m (Some prev) r = Some (combine_results m prev r)"
  by (simp_all add: combine_step_def)

lemma merge_apply_policy:
  "merge_outcomes m (apply_policy x p) (apply_policy y p) = apply_policy (combine_results m x y) p"
  by (cases m; cases x; cases y; cases p)
    (simp_all add: merge_outcomes_def merge_policy_outcomes_def merge_policy_outcomes_disjunctive_def
      combine_results_def apply_policy_def vr_meet_def vr_join_def)

lemma short_circuit_absorbs:
  "short_circuits m (apply_policy r p) \<Longrightarrow> combine_results m r r' = r"
  by (cases m; cases r; cases p; cases r')
    (simp_all add: short_circuits_def combine_results_def apply_policy_def vr_meet_def vr_join_def)

lemma absorbing_fold:
  "(\<And>r'. combine_results m r r' = r) \<Longrightarrow> foldl (combine_step m) (Some r) rs = Some r"
  by (induction rs) simp_all

lemma constraining_results_Cons:
  "constraining_results s perf caused t (d # ds) =
     (case constraining perf d of None \<Rightarrow> [] | Some cp \<Rightarrow> [gated_result s perf caused t cp]) @
       constraining_results s perf caused t ds"
  by (simp add: constraining_results_def map_filter_simps split: option.splits)

lemma verdict_loop_fold:
  "verdict_loop a perf caused t ds (map_option (\<lambda>r. apply_policy r (policy a)) acc) =
     map_option (\<lambda>r. apply_policy r (policy a))
       (foldl (combine_step (merging a)) acc (constraining_results (message_store a) perf caused t ds))"
proof (induction ds arbitrary: acc)
  case (Cons d ds)
  show ?case
  proof (cases "constraining perf d")
    case None
    then show ?thesis using Cons by (simp add: constraining_results_Cons)
  next
    case (Some cp)
    define r where "r = gated_result (message_store a) perf caused t cp"
    obtain r' where r': "combine_step (merging a) acc r = Some r'" by (simp add: combine_step_def)
    have decision: "(case map_option (\<lambda>r. apply_policy r (policy a)) acc of None \<Rightarrow> apply_policy r (policy a)
        | Some prev \<Rightarrow> merge_outcomes (merging a) prev (apply_policy r (policy a))) = apply_policy r' (policy a)"
      using r' by (cases acc) (simp_all add: merge_apply_policy)
    show ?thesis
    proof (cases "short_circuits (merging a) (apply_policy r' (policy a))")
      case True
      then show ?thesis
        using Some r' decision absorbing_fold [OF short_circuit_absorbs [OF True]]
        by (simp add: constraining_results_Cons r_def [symmetric] Let_def)
    next
      case False
      then show ?thesis
        using Some r' decision Cons [of "Some r'"]
        by (simp add: constraining_results_Cons r_def [symmetric] Let_def)
    qed
  qed
qed (simp add: constraining_results_def map_filter_simps)

lemma reevaluate_loop_fold:
  "reevaluate_loop a e t ds acc = foldl (combine_step (merging a)) acc
     (constraining_results (message_store a) (pe_performative e) (pe_caused_by e) t ds)"
proof (induction ds arbitrary: acc)
  case (Cons d ds)
  then show ?case
    by (cases "constraining (pe_performative e) d")
      (simp_all add: constraining_results_Cons combine_step_def [symmetric] Let_def)
qed (simp add: constraining_results_def map_filter_simps)

lemma causal_verdict_fold:
  "innermost_simple msg = Some (Simple s) \<Longrightarrow>
     causal_verdict a msg = map_option (\<lambda>r. apply_policy r (policy a))
       (reevaluation a (buffered_entry msg s now) (default_thread (m_thread s)))"
  using verdict_loop_fold [of a _ _ _ _ None]
  by (simp add: causal_verdict_def reevaluation_def reevaluate_loop_fold buffered_entry_def)

lemma innermost_simple_form: "innermost_simple msg = Some m \<Longrightarrow> \<exists>s. m = Simple s"
  by (induction msg rule: innermost_simple.induct) auto

lemma conjunction_valid:
  "foldl (combine_step Conjunction) (Some r) rs = Some Valid \<longleftrightarrow> r = Valid \<and> (\<forall>r' \<in> set rs. r' = Valid)"
proof (induction rs arbitrary: r)
  case (Cons r' rs)
  have "combine_results Conjunction r r' = Valid \<longleftrightarrow> r = Valid \<and> r' = Valid"
    by (cases r; cases r') (simp_all add: combine_results_def vr_meet_def)
  then show ?case using Cons by simp
qed simp

section \<open>What evaluation changes\<close>

lemma interpret_no_removal: "RemoveBelief b \<notin> set (interpret_effects e recipients content)"
  by (auto simp: interpret_effects_def Let_def split: option.splits)

lemma evaluate_no_removal:
  "evaluate_with_scope msg reg scope chk = Inr r \<Longrightarrow> RemoveBelief b \<notin> set (er_effects r)"
proof (induction msg arbitrary: scope)
  case (Simple m)
  then show ?case
    using interpret_no_removal by (auto simp: evaluate_simple_def result_simps split: prod.splits if_splits)
qed (auto simp: evaluate_meta_def result_simps)

definition stored_beliefs :: "effect list \<Rightarrow> sexpr set" where
  "stored_beliefs es = {b. StoreBelief b \<in> set es}"

lemma apply_effects:
  "\<forall>b. RemoveBelief b \<notin> set es \<Longrightarrow> foldl apply_effect a es = a\<lparr>beliefs := beliefs a \<union> stored_beliefs es\<rparr>"
proof (induction es arbitrary: a)
  case (Cons e es)
  have "apply_effect a e = a\<lparr>beliefs := beliefs a \<union> stored_beliefs [e]\<rparr>"
    using Cons.prems by (cases e) (auto simp: apply_effect_def add_belief_def stored_beliefs_def)
  moreover have "stored_beliefs (e # es) = stored_beliefs [e] \<union> stored_beliefs es" by (auto simp: stored_beliefs_def)
  ultimately show ?case using Cons by (simp add: Un_assoc)
qed (simp add: stored_beliefs_def)

definition logged :: "agent \<Rightarrow> message \<Rightarrow> eval_result \<Rightarrow> agent" where
  "logged a msg r = (case er_thread r of
       None \<Rightarrow> a
     | Some t \<Rightarrow> append_to_thread a t msg)"

lemma evaluate_and_apply_cases:
  "evaluate_and_apply_at a msg now = (case causal_verdict a msg of
       Some (OReject cv) \<Rightarrow> (a, CausalReject cv)
     | Some (OPending reason) \<Rightarrow> (a, Pending reason)
     | Some OBuffered \<Rightarrow> (buffer_pending a msg now, Buffered)
     | _ \<Rightarrow> (case evaluate msg (registry a) of
           Inl e \<Rightarrow> (a, EvalFailed e)
         | Inr r \<Rightarrow> (logged (a\<lparr>beliefs := beliefs a \<union> stored_beliefs (er_effects r)\<rparr>) msg r, Applied r)))"
proof -
  have "foldl apply_effect a (er_effects r) = a\<lparr>beliefs := beliefs a \<union> stored_beliefs (er_effects r)\<rparr>"
    if "evaluate msg (registry a) = Inr r" for r
    using that evaluate_no_removal [of msg "registry a" None True r] by (intro apply_effects) (simp add: evaluate_def)
  then show ?thesis
    by (auto simp: evaluate_and_apply_at_def Let_def logged_def split: option.splits policy_outcome.splits sum.splits)
qed

lemma verdict_under_policy:
  assumes "causal_verdict a msg = Some v"
  shows "\<exists>r. v = apply_policy r (policy a)"
proof (cases "innermost_simple msg")
  case (Some m)
  then obtain m' where "m = Simple m'" using innermost_simple_form by blast
  then show ?thesis using assms causal_verdict_fold [of msg m' a 0] Some by auto
qed (use assms in \<open>simp add: causal_verdict_def\<close>)

lemma buffered_only: "OBuffered = apply_policy r p \<Longrightarrow> \<exists>n ttl. p = PolicyBuffer n ttl"
  by (cases r; cases p) (simp_all add: apply_policy_def)


section \<open>Reachable agents\<close>

text \<open>The operations of an agent in any order; \<open>message_store_mut\<close> hands the store to the caller.\<close>

inductive reachable_agent :: "(string \<Rightarrow> string) \<Rightarrow> agent \<Rightarrow> bool" for sha256 where
  created: "reachable_agent sha256 (with_policy i p)"
| merging: "reachable_agent sha256 a \<Longrightarrow> reachable_agent sha256 (with_merge_policy a m)"
| installed: "reachable_agent sha256 a \<Longrightarrow> install_dialect sha256 a d = Inr a' \<Longrightarrow> reachable_agent sha256 a'"
| believed: "reachable_agent sha256 a \<Longrightarrow> reachable_agent sha256 (fst (add_belief a b))"
| forgotten: "reachable_agent sha256 a \<Longrightarrow> reachable_agent sha256 (fst (remove_belief a b))"
| queued: "reachable_agent sha256 a \<Longrightarrow> reachable_agent sha256 (enqueue_message a msg)"
| dequeued: "reachable_agent sha256 a \<Longrightarrow> reachable_agent sha256 (fst (dequeue_message a))"
| threaded: "reachable_agent sha256 a \<Longrightarrow> reachable_agent sha256 (append_to_thread a t msg)"
| stored: "reachable_agent sha256 a \<Longrightarrow> reachable_agent sha256 (a\<lparr>message_store := s\<rparr>)"
| evaluated: "reachable_agent sha256 a \<Longrightarrow> reachable_agent sha256 (fst (evaluate_and_apply_at a msg now))"
| timed_out: "reachable_agent sha256 a \<Longrightarrow> reachable_agent sha256 (fst (agent_expire a now))"
| reevaluated: "reachable_agent sha256 a \<Longrightarrow> reachable_agent sha256 (fst (reevaluate_pending a))"

text \<open>The entries a thread can come to hold. An enqueue evicts from a full thread and then pushes, so a policy
  with \<open>max_pending = 0\<close> still keeps one entry, against the documented bound.\<close>

definition policy_capacity :: "unknown_predecessor_policy \<Rightarrow> nat" where
  "policy_capacity p = (case p of PolicyReject \<Rightarrow> 0 | PolicyBuffer n _ \<Rightarrow> max 1 n)"

definition waiting_entry :: "thread_id \<Rightarrow> pending_entry \<Rightarrow> bool" where
  "waiting_entry t e \<longleftrightarrow> pe_thread e = t \<and>
     (\<exists>s. innermost_simple (pe_message e) = Some (Simple s) \<and> e = buffered_entry (pe_message e) s (pe_inserted_at e))"

definition settings_ok :: "unknown_predecessor_policy \<Rightarrow> nat \<Rightarrow> u64 \<Rightarrow> bool" where
  "settings_ok p n ttl \<longleftrightarrow> p = PolicyReject \<or> p = PolicyBuffer n ttl"

definition buffer_ok :: "agent \<Rightarrow> bool" where
  "buffer_ok a \<longleftrightarrow> settings_ok (policy a) (max_pending (pending a)) (pq_ttl (pending a)) \<and>
     (\<forall>t. length (thread_entries (pending a) t) \<le> policy_capacity (policy a) \<and>
       set (thread_entries (pending a) t) \<subseteq> {e. waiting_entry t e})"

definition agent_ok :: "agent \<Rightarrow> bool" where
  "agent_ok a \<longleftrightarrow> registry_ok (registry a) \<and> buffer_ok a"

lemma buffer_ok_shrink:
  assumes "buffer_ok a" "policy a' = policy a" "max_pending (pending a') = max_pending (pending a)"
    "pq_ttl (pending a') = pq_ttl (pending a)"
    "\<And>t. length (thread_entries (pending a') t) \<le> length (thread_entries (pending a) t)"
    "\<And>t. set (thread_entries (pending a') t) \<subseteq> set (thread_entries (pending a) t)"
  shows "buffer_ok a'"
proof -
  have "length (thread_entries (pending a') t) \<le> policy_capacity (policy a) \<and>
       set (thread_entries (pending a') t) \<subseteq> {e. waiting_entry t e}" for t
    using assms(1) assms(5) [of t] assms(6) [of t] unfolding buffer_ok_def by (meson le_trans subset_trans)
  then show ?thesis using assms(1) unfolding buffer_ok_def assms(2-4) by blast
qed

lemma buffer_pending_ok:
  assumes "buffer_ok a" "causal_verdict a msg = Some OBuffered"
  shows "buffer_ok (buffer_pending a msg now)"
proof -
  obtain m where m: "innermost_simple msg = Some (Simple m)"
    using assms(2) innermost_simple_form by (cases "innermost_simple msg") (auto simp: causal_verdict_def)
  obtain n ttl where p: "policy a = PolicyBuffer n ttl"
    using verdict_under_policy [OF assms(2)] buffered_only by blast
  let ?e = "buffered_entry msg m now"
  have new: "waiting_entry (pe_thread ?e) ?e" using m by (auto simp: waiting_entry_def buffered_entry_def)
  define ok where "ok t q \<longleftrightarrow> length q \<le> max 1 n \<and> set q \<subseteq> {e. waiting_entry t e}" for t q
  have old: "ok t (thread_entries (pending a) t)" "max_pending (pending a) = n" "pq_ttl (pending a) = ttl" for t
    using assms(1) p by (auto simp: buffer_ok_def settings_ok_def ok_def policy_capacity_def)
  have push: "ok t (fst (buffer_push n q x))" if "ok t q" "waiting_entry t x" for t q x
    using that thread_buffer.push_size [of q n x] buffer_push_members [of n q x] unfolding ok_def by auto
  have pend: "pending (buffer_pending a msg now) = fst (enqueue (pending a) ?e)" "policy (buffer_pending a msg now) = policy a"
    using m by (simp_all add: buffer_pending_def)
  have "ok t (thread_entries (fst (enqueue (pending a) ?e)) t)" for t
    using push [OF old(1) [of t], of ?e] old new by (cases "t = pe_thread ?e") (simp_all add: thread_entries_enqueue)
  then show ?thesis
    unfolding buffer_ok_def pend using old p by (simp add: settings_ok_def ok_def policy_capacity_def)
qed

lemma expire_settings [simp]:
  "max_pending (fst (expire q now)) = max_pending q" "pq_ttl (fst (expire q now)) = pq_ttl q"
  by (simp_all add: expire_def)

lemma re_evaluate_settings [simp]:
  "max_pending (fst (re_evaluate_with decide q)) = max_pending q" "pq_ttl (fst (re_evaluate_with decide q)) = pq_ttl q"
  by (simp_all add: re_evaluate_with_def split: prod.splits)

lemma agent_expire_frame [simp]:
  "pending (fst (agent_expire a now)) = fst (expire (pending a) now)" "policy (fst (agent_expire a now)) = policy a"
  "registry (fst (agent_expire a now)) = registry a"
  by (simp_all add: agent_expire_def split: prod.splits)

lemma reevaluate_frame [simp]:
  "pending (fst (reevaluate_pending a)) = fst (re_evaluate_with (reevaluation a) (pending a))"
  "policy (fst (reevaluate_pending a)) = policy a" "registry (fst (reevaluate_pending a)) = registry a"
  "message_store (fst (reevaluate_pending a)) = message_store a" "merging (fst (reevaluate_pending a)) = merging a"
  "snd (reevaluate_pending a) = snd (re_evaluate_with (reevaluation a) (pending a))"
  by (simp_all add: reevaluate_pending_def split: prod.splits)

lemma set_dropWhile_subset: "set (dropWhile P xs) \<subseteq> set xs"
  by (auto dest: set_dropWhileD)

lemma evaluate_and_apply_frame:
  assumes "evaluate_and_apply_at a msg now = (a', out)" "out \<noteq> Buffered"
  shows "registry a' = registry a" "pending a' = pending a" "policy a' = policy a"
  using assms by (auto simp: evaluate_and_apply_cases logged_def append_to_thread_def
      split: option.splits policy_outcome.splits sum.splits)

lemma evaluate_and_apply_ok:
  assumes "agent_ok a"
  shows "agent_ok (fst (evaluate_and_apply_at a msg now))"
proof (cases "causal_verdict a msg = Some OBuffered")
  case True
  then have "evaluate_and_apply_at a msg now = (buffer_pending a msg now, Buffered)" by (simp add: evaluate_and_apply_cases)
  moreover have "registry (buffer_pending a msg now) = registry a"
    by (simp add: buffer_pending_def split: option.splits message.splits)
  ultimately show ?thesis using assms buffer_pending_ok [OF _ True] by (simp add: agent_ok_def)
next
  case False
  obtain a' out where e: "evaluate_and_apply_at a msg now = (a', out)" by (rule prod.exhaust)
  then have "out \<noteq> Buffered"
    using False by (auto simp: evaluate_and_apply_cases split: option.splits policy_outcome.splits sum.splits)
  note frame = evaluate_and_apply_frame [OF e this]
  then show ?thesis using assms e by (simp add: agent_ok_def buffer_ok_def)
qed

lemma reachable_agent_ok: "reachable_agent sha256 a \<Longrightarrow> agent_ok a"
proof (induction rule: reachable_agent.induct)
  case (created i p)
  have "registry_ok registry_new" by (simp add: registry_ok_def registry_new_def is_well_formed_def)
  then show ?case by (cases p) (simp_all add: agent_ok_def buffer_ok_def settings_ok_def with_policy_def pending_new_def
      thread_entries_def get_or_default_def)
next
  case (installed a d a')
  then obtain reg where reg: "install sha256 (registry a) d = Inr reg" "a' = a\<lparr>registry := reg\<rparr>"
    by (auto simp: install_dialect_def result_simps)
  then have "registry_ok reg" using installed.IH plain.keeps_ok [of "registry a" sha256 d reg] by (simp add: agent_ok_def)
  then show ?case using installed.IH reg(2) by (simp add: agent_ok_def buffer_ok_def)
next
  case (evaluated a msg now)
  then show ?case by (simp add: evaluate_and_apply_ok)
next
  case (timed_out a now)
  then have "buffer_ok a" by (simp add: agent_ok_def)
  then have "buffer_ok (fst (agent_expire a now))"
    by (rule buffer_ok_shrink) (simp_all add: thread_entries_expire length_dropWhile_le set_dropWhile_subset)
  then show ?case using timed_out.IH by (simp add: agent_ok_def)
next
  case (reevaluated a)
  then have "buffer_ok a" by (simp add: agent_ok_def)
  then have "buffer_ok (fst (reevaluate_pending a))"
    by (rule buffer_ok_shrink) (simp_all add: re_evaluate_with_partition)
  then show ?case using reevaluated.IH by (simp add: agent_ok_def)
qed (auto simp: agent_ok_def buffer_ok_def with_merge_policy_def add_belief_def remove_belief_def enqueue_message_def
    dequeue_message_def append_to_thread_def split: list.splits)

section \<open>When a buffered message is released\<close>

lemma causal_result_valid:
  assumes "\<not> has_repeat cp" "bt_get (steps cp) p = Some step"
  shows "causal_result p caused s cp t = Valid \<longleftrightarrow> link_valid (\<lambda>h. predecessor_type s h t) step caused"
  using verify_causal_decides [OF assms, of caused s t] by (auto simp: decides_def causal_result_def)

text \<open>Every installed protocol that constrains the entry is free of repeat copies and justified by the store.\<close>

definition all_justified :: "agent \<Rightarrow> pending_entry \<Rightarrow> thread_id \<Rightarrow> bool" where
  "all_justified a e t \<longleftrightarrow>
     List.map_filter (constraining (pe_performative e)) (dialects (registry a)) \<noteq> [] \<and>
     list_all (\<lambda>cp. \<not> has_repeat cp \<and> pred_option (\<lambda>step. link_valid (\<lambda>h. predecessor_type (message_store a) h t) step (pe_caused_by e))
         (bt_get (steps cp) (pe_performative e)))
       (List.map_filter (constraining (pe_performative e)) (dialects (registry a)))"

lemma justified_result_valid:
  assumes "all_justified a e t" "cp \<in> set (List.map_filter (constraining (pe_performative e)) (dialects (registry a)))"
  shows "gated_result (message_store a) (pe_performative e) (pe_caused_by e) t cp = Valid"
proof -
  obtain step where step: "bt_get (steps cp) (pe_performative e) = Some step"
    using assms(2)
    by (auto simp: set_map_filter constraining_def bt_contains_key_def split: option.splits if_splits)
  have ok: "\<not> has_repeat cp" "link_valid (\<lambda>h. predecessor_type (message_store a) h t) step (pe_caused_by e)"
    using assms step by (auto simp: all_justified_def list_all_iff)
  then have "causal_result (pe_performative e) (pe_caused_by e) (message_store a) cp t = Valid"
    using causal_result_valid [OF ok(1) step] by blast
  then show ?thesis by (simp add: gated_result_def gate_unresolved_violation_def)
qed

lemma justified_reevaluation:
  assumes "all_justified a e t" "merging a = Conjunction"
  shows "reevaluation a e t = Some Valid"
proof -
  let ?rs = "constraining_results (message_store a) (pe_performative e) (pe_caused_by e) t (dialects (registry a))"
  have "?rs \<noteq> []" "\<forall>r \<in> set ?rs. r = Valid"
    using assms(1) justified_result_valid [OF assms(1)] by (auto simp: all_justified_def constraining_results_def)
  then obtain rs where "?rs = Valid # rs" "\<forall>r \<in> set rs. r = Valid" by (cases ?rs) auto
  then show ?thesis
    using conjunction_valid [of Valid rs] by (simp add: reevaluation_def reevaluate_loop_fold assms(2))
qed

lemma reevaluation_frame: "reevaluation (fst (reevaluate_pending a)) e t = reevaluation a e t"
  by (simp add: reevaluation_def reevaluate_loop_fold)

section \<open>Properties\<close>

text \<open>C36: re-evaluating a buffered message decides exactly what live verification of it would decide, for
  both ways of combining several protocols: the early exits of the live path change nothing, and mapping
  each verdict through the policy before combining is the same as combining first.\<close>

theorem live_and_reevaluation_agree:
  "causal_verdict a msg = (case innermost_simple msg of
       Some (Simple s) \<Rightarrow> map_option (\<lambda>r. apply_policy r (policy a))
         (reevaluation a (buffered_entry msg s now) (pe_thread (buffered_entry msg s now)))
     | _ \<Rightarrow> None)"
proof (cases "innermost_simple msg")
  case (Some m)
  then obtain s where "m = Simple s" using innermost_simple_form by blast
  then show ?thesis using Some causal_verdict_fold [of msg s a now] by (simp add: buffered_entry_def)
qed (simp add: causal_verdict_def)


text \<open>C37: whatever operations built an agent, its registry satisfies the registry invariant, so it is
  well formed, its pending queue has the limits of its policy, a thread holds at most
  \<open>max 1 max_pending\<close> entries under the buffer policy and none under the reject policy, and every entry
  carries the performative, cause and thread of the message it buffers. The bound is \<open>max_pending\<close> itself
  except for \<open>max_pending = 0\<close>: an enqueue evicts from a full thread before it pushes, so one
  entry is then kept where \<open>policy.rs\<close> documents none.\<close>

theorem agent_invariant:
  assumes "reachable_agent sha256 a"
  shows "agent_well_formed a \<and> registry_ok (registry a) \<and> buffer_ok a \<and>
    (\<forall>t n ttl. policy a = PolicyBuffer n ttl \<longrightarrow> length (thread_entries (pending a) t) \<le> (if n = 0 then 1 else n)) \<and>
    (\<forall>t. policy a = PolicyReject \<longrightarrow> thread_entries (pending a) t = [])"
proof -
  have ok: "registry_ok (registry a)" "buffer_ok a" using reachable_agent_ok [OF assms] by (simp_all add: agent_ok_def)
  have held: "length (thread_entries (pending a) t) \<le> policy_capacity (policy a)" for t
    using ok(2) by (simp add: buffer_ok_def)
  have "length (thread_entries (pending a) t) \<le> (if n = 0 then 1 else n)" if "policy a = PolicyBuffer n ttl" for t n ttl
    using held [of t] that by (simp add: policy_capacity_def max_def split: if_splits)
  moreover have "thread_entries (pending a) t = []" if "policy a = PolicyReject" for t
    using held [of t] that by (simp add: policy_capacity_def)
  ultimately show ?thesis using ok by (simp add: agent_well_formed_def registry_ok_def)
qed

theorem agent_invariant_witness:
  "buffer_ok (fst (evaluate_and_apply_at (with_policy ''@a'' (policy_buffer 60)) (Simple sample_hello) 5))"
  using agent_invariant [OF reachable_agent.evaluated [OF reachable_agent.created]] by blast

text \<open>C38: a buffered message is released once the store justifies it: in an agent that merges by
  conjunction, when some installed protocol constrains the message and every one that does has no repeat
  copies and is satisfied by the messages stored by then, re-evaluation returns it as accepted and
  removes it from the queue, and handing it back to the agent evaluates it instead of rejecting or
  buffering it again.\<close>

theorem buffered_message_released:
  assumes "reachable_agent sha256 a" "merging a = Conjunction" "e \<in> set (thread_entries (pending a) t)" "all_justified a e t"
  shows "(e, OAccept) \<in> set (snd (reevaluate_pending a)) \<and>
    e \<notin> set (thread_entries (pending (fst (reevaluate_pending a))) t) \<and>
    snd (evaluate_and_apply_at (fst (reevaluate_pending a)) (pe_message e) now) =
      (case evaluate (pe_message e) (registry a) of Inl err \<Rightarrow> EvalFailed err | Inr r \<Rightarrow> Applied r)"
proof -
  note valid = justified_reevaluation [OF assms(4,2)]
  obtain queue where queue: "(t, queue) \<in> set (queues (pending a))" "e \<in> set queue"
    using assms(3) by (cases "bt_get (queues (pending a)) t")
      (auto simp: thread_entries_def get_or_default_def dest: map_of_SomeD)
  have "(e, OAccept) \<in> set (snd (reevaluate_pending a))"
  proof -
    have "\<not> still_pending (reevaluation a e t)" "outcome_of (reevaluation a e t) = OAccept"
      by (simp_all add: valid still_pending_def outcome_of_def)
    then have "(e, OAccept) \<in> set (map (\<lambda>e. (e, outcome_of (reevaluation a e t)))
        (filter (\<lambda>e. \<not> still_pending (reevaluation a e t)) queue))"
      using queue(2) by (auto intro!: rev_image_eqI [of e])
    then show ?thesis unfolding reevaluate_frame re_evaluate_with_partition set_concat
      using queue(1) by (auto intro!: bexI [of _ "(t, queue)"])
  qed
  moreover have "e \<notin> set (thread_entries (pending (fst (reevaluate_pending a))) t)"
    using valid by (simp add: re_evaluate_with_partition still_pending_def)
  moreover have "causal_verdict (fst (reevaluate_pending a)) (pe_message e) = Some OAccept"
  proof -
    have "waiting_entry t e" using reachable_agent_ok [OF assms(1)] assms(3) by (auto simp: agent_ok_def buffer_ok_def)
    then obtain s where s: "innermost_simple (pe_message e) = Some (Simple s)"
        "e = buffered_entry (pe_message e) s (pe_inserted_at e)" "pe_thread e = t"
      by (auto simp: waiting_entry_def)
    from s(2) have "default_thread (m_thread s) = pe_thread e" by (metis buffered_entry_def pending_entry.select_convs(3))
    then show ?thesis
      using causal_verdict_fold [OF s(1), of "fst (reevaluate_pending a)" "pe_inserted_at e"] valid s(2,3)
      by (simp add: reevaluation_frame apply_policy_def)
  qed
  ultimately show ?thesis by (simp add: evaluate_and_apply_cases split: sum.splits)
qed

text \<open>A vote that arrives before the opening of its poll.\<close>

definition early_vote :: message where
  "early_vote = Dialect ''poll'' (Simple \<lparr>m_performative = Custom ''vote'', m_recipient = None, m_content = Sym ''yes'',
     m_params = [], m_thread = None, m_sender = None, m_caused_by = Some (Single ''h1'')\<rparr>)"

definition poll_opening :: message where
  "poll_opening = Dialect ''poll'' (Simple \<lparr>m_performative = Custom ''open'', m_recipient = None, m_content = List [],
     m_params = [], m_thread = None, m_sender = None, m_caused_by = Some Begin\<rparr>)"

definition ballot_protocol :: causal_protocol where
  "ballot_protocol = the (d_causal_protocol sample_ballot)"

definition poll_store :: threaded_store where
  "poll_store = fst (append ''h1'' ''default'' poll_opening new_store)"

definition poll_agent :: agent where
  "poll_agent = (with_policy ''@a'' (policy_buffer 60))\<lparr>registry := registry_push registry_new (ensure_hash id sample_ballot)\<rparr>"

lemma poll_agent_reachable: "reachable_agent id poll_agent"
proof -
  have "install_dialect id (with_policy ''@a'' (policy_buffer 60)) sample_ballot = Inr poll_agent"
    by (simp add: install_dialect_def install_def sample_ballot_gates sample_ballot_checks poll_agent_def with_policy_def)
  from reachable_agent.installed [OF reachable_agent.created this] show ?thesis .
qed

lemma poll_constraining:
  "List.map_filter (constraining ''vote'') (dialects (registry poll_agent)) = [ballot_protocol]"
proof -
  have "constraining ''vote'' (ensure_hash id sample_ballot) = constraining ''vote'' sample_ballot"
    by (simp add: constraining_def ensure_hash_def)
  moreover have "constraining ''vote'' sample_ballot = Some ballot_protocol" "constraining ''vote'' base_dialect = None"
    by code_simp+
  ultimately show ?thesis
    by (simp add: poll_agent_def registry_push_def registry_new_def map_filter_simps)
qed

lemma poll_links:
  "\<not> has_repeat ballot_protocol"
  "bt_get (steps ballot_protocol) ''vote'' = Some \<lparr>step_performative = ''vote'', predecessors = [NSingle ''open''], successors = []\<rparr>"
  "verify_causal ''vote'' (Some (Single ''h1'')) new_store ballot_protocol ''default'' = Some Unknown"
  "predecessor_type poll_store ''h1'' ''default'' = Some ''open''"
  by code_simp+

definition waiting_vote :: pending_entry where
  "waiting_vote = \<lparr>pe_hash = [], pe_message = early_vote, pe_thread = ''default'', pe_performative = ''vote'',
     pe_caused_by = Some (Single ''h1''), pe_inserted_at = 5\<rparr>"

lemma early_vote_buffered:
  "evaluate_and_apply_at poll_agent early_vote 5 =
     (poll_agent\<lparr>pending := fst (enqueue (pending poll_agent) waiting_vote)\<rparr>, Buffered)"
proof -
  have entry: "innermost_simple early_vote = Some (Simple s) \<Longrightarrow> buffered_entry early_vote s 5 = waiting_vote" for s
    by (auto simp: early_vote_def waiting_vote_def buffered_entry_def default_thread_def performative_name_def)
  obtain s where s: "innermost_simple early_vote = Some (Simple s)" "m_thread s = None"
    by (simp add: early_vote_def)
  have "reevaluation poll_agent waiting_vote ''default'' = Some Unknown"
    by (simp add: reevaluation_def reevaluate_loop_fold constraining_results_def waiting_vote_def poll_constraining
        gated_result_def gate_unresolved_violation_def causal_result_def)
      (simp add: poll_agent_def with_policy_def poll_links)
  then have "causal_verdict poll_agent early_vote = Some OBuffered"
    using causal_verdict_fold [OF s(1), of poll_agent 5] s(2) entry [OF s(1)]
    by (simp add: default_thread_def apply_policy_def poll_agent_def with_policy_def policy_buffer_def)
  then show ?thesis using s(1) entry [OF s(1)] by (simp add: evaluate_and_apply_cases buffer_pending_def)
qed

theorem buffered_message_released_witness:
  "(waiting_vote, OAccept) \<in> set (snd (reevaluate_pending
     ((fst (evaluate_and_apply_at poll_agent early_vote 5))\<lparr>message_store := poll_store\<rparr>)))"
proof -
  let ?a = "(fst (evaluate_and_apply_at poll_agent early_vote 5))\<lparr>message_store := poll_store\<rparr>"
  have reach: "reachable_agent id ?a"
    by (rule reachable_agent.stored [OF reachable_agent.evaluated [OF poll_agent_reachable]])
  have state: "merging ?a = Conjunction" "registry ?a = registry poll_agent" "message_store ?a = poll_store"
    unfolding early_vote_buffered by (simp_all add: poll_agent_def with_policy_def)
  have waiting: "waiting_vote \<in> set (thread_entries (pending ?a) ''default'')"
    by (simp add: early_vote_buffered thread_entries_enqueue)
      (simp add: waiting_vote_def poll_agent_def with_policy_def policy_buffer_def buffer_push_def pending_new_def
        thread_entries_def get_or_default_def)
  have "link_valid (\<lambda>h. predecessor_type poll_store h ''default'')
      \<lparr>step_performative = ''vote'', predecessors = [NSingle ''open''], successors = []\<rparr> (Some (Single ''h1''))"
    by (simp add: link_valid_def poll_links allowed_single_predecessors_def)
  then have "all_justified ?a waiting_vote ''default''"
    unfolding all_justified_def state by (simp add: waiting_vote_def poll_constraining poll_links)
  from buffered_message_released [OF reach state(1) waiting this] show ?thesis by blast
qed

end
