(* ===== verification/Cbcl_Act.thy ===== *)
theory Cbcl_Act
  imports Cbcl_R7 Cbcl_Causal
begin

text \<open>
  Acts, the view of an accepted message that the state layer folds (\<open>cbcl-core/src/state.rs\<close>): the
  view of a message, its keyword fields and wire address, the check of a supplied view against its
  message, and the queries for the opener, the root and the frontier of a set of acts.

  \<open>Act::simple\<close> panics on an act whose message wraps no simple message. \<open>act_simple\<close> is
  \<^const>\<open>None\<close> there; it is never so for an act made by \<open>from_message\<close>.
\<close>

section \<open>Least and greatest elements of an iterator\<close>

text \<open>\<open>Iterator::min_by\<close> keeps the first of equal elements, \<open>Iterator::max_by\<close> the last.\<close>

definition min_by_key :: "('a \<Rightarrow> 'k::linorder) \<Rightarrow> 'a list \<Rightarrow> 'a option" where
  "min_by_key f xs = (case xs of [] \<Rightarrow> None
     | y # ys \<Rightarrow> Some (foldl (\<lambda>m x. if f x < f m then x else m) y ys))"

definition max_by_key :: "('a \<Rightarrow> 'k::linorder) \<Rightarrow> 'a list \<Rightarrow> 'a option" where
  "max_by_key f xs = (case xs of [] \<Rightarrow> None
     | y # ys \<Rightarrow> Some (foldl (\<lambda>m x. if f x < f m then m else x) y ys))"

section \<open>Acts\<close>

record act =
  act_address :: string
  act_verb :: string
  act_signer :: string
  act_predecessors :: "string list"
  act_recipients :: "string btset"
  act_fields :: "(string, sexpr) btmap"
  act_message :: message

text \<open>The scan of the parameters: a keyword takes the next parameter as its value, anything else is
  skipped, and a last parameter is never read.\<close>

fun keyword_scan :: "sexpr list \<Rightarrow> (string, sexpr) btmap \<Rightarrow> (string, sexpr) btmap" where
  "keyword_scan (x # y # rest) out = (case x of
       Atom (Keyword k) \<Rightarrow>
         keyword_scan rest (if k \<in> set ROUTING_KEYWORDS then out else bt_insert k y out)
     | _ \<Rightarrow> keyword_scan (y # rest) out)"
| "keyword_scan _ out = out"

definition keyword_fields :: "message \<Rightarrow> (string, sexpr) btmap" where
  "keyword_fields simple = (case simple of
       Simple s \<Rightarrow> keyword_scan (m_params s) []
     | _ \<Rightarrow> [])"

definition wire_address :: "(string \<Rightarrow> string) \<Rightarrow> message \<Rightarrow> string" where
  "wire_address sha256 simple =
     (let h = message_content_hash sha256 simple
      in case strip_prefix ''sha256:'' h of Some hex \<Rightarrow> ''sha256-'' @ hex | None \<Rightarrow> h)"

definition from_message :: "(string \<Rightarrow> string) \<Rightarrow> message \<Rightarrow> string \<Rightarrow> (string, act) result" where
  "from_message sha256 message signer =
     bind_result (ok_or ''an act must contain a simple message'' (innermost_simple message)) (\<lambda>simple.
     bind_result (ok_or ''an act must have a performative'' (performative_of simple)) (\<lambda>p.
       Inr \<lparr>act_address = wire_address sha256 simple, act_verb = performative_name p,
            act_signer = signer, act_predecessors = caused_refs (caused_by_of simple),
            act_recipients = bs_of_list (recipient_set simple),
            act_fields = keyword_fields simple, act_message = message\<rparr>))"

definition predecessors_match :: "caused_by option \<Rightarrow> string list \<Rightarrow> bool" where
  "predecessors_match cb ps = (case cb of
       Some (Single h) \<Rightarrow> ps = [h]
     | Some (Multiple hs) \<Rightarrow> ps = hs
     | _ \<Rightarrow> ps = [])"

definition validate_identity :: "(string \<Rightarrow> string) \<Rightarrow> act \<Rightarrow> (string, unit) result" where
  "validate_identity sha256 a =
     bind_result (ok_or ''an act must contain a simple message'' (innermost_simple (act_message a))) (\<lambda>simple.
     bind_result (ok_or ''an act must have a performative'' (performative_of simple)) (\<lambda>verb.
       let fields = keyword_fields simple;
           fields_match = (length fields = length (act_fields a) \<and>
             list_all (\<lambda>(k, v). bt_get (act_fields a) k = Some v) fields)
       in if act_address a \<noteq> wire_address sha256 simple \<or> act_verb a \<noteq> performative_name verb \<or>
             \<not> predecessors_match (caused_by_of simple) (act_predecessors a) \<or>
             act_recipients a \<noteq> recipient_set simple \<or> \<not> fields_match
          then Inl ''inconsistent act identity'' else Inr ()))"

definition act_simple :: "act \<Rightarrow> message option" where
  "act_simple a = innermost_simple (act_message a)"

definition act_root :: "act list \<Rightarrow> act option" where
  "act_root acts = min_by_key act_address
     (filter (\<lambda>a. act_predecessors a = [] \<and> wrapper_type_of (act_message a) = Some WithRoles) acts)"

definition act_opener :: "causal_protocol \<Rightarrow> act list \<Rightarrow> act option" where
  "act_opener cp acts = Option.bind (opener_verb cp) (\<lambda>verb.
     let repeated = list_ex (\<lambda>name. REPEAT_SEPARATOR \<in> set name \<and> repeat_base_name name = verb)
           (bt_keys (steps cp));
         root = act_root acts
     in min_by_key act_address (filter (\<lambda>a. act_verb a = verb \<and>
          (\<not> repeated \<or> Option.bind (act_simple a) caused_by_of = Some Begin \<or>
           (case root of Some r \<Rightarrow> act_predecessors a = [act_address r] | None \<Rightarrow> False))) acts))"

definition act_frontier :: "act list \<Rightarrow> string list" where
  "act_frontier acts =
     (let named = bs_of_list (concat (map act_predecessors acts))
      in remdups_adj (sort (map act_address (filter (\<lambda>a. act_address a \<notin> set named) acts))))"

text \<open>The representation invariant of an act: its collections are ordered as \<open>BTreeMap\<close> and
  \<open>BTreeSet\<close> keep them.\<close>

definition act_ordered :: "act \<Rightarrow> bool" where
  "act_ordered a \<longleftrightarrow> bt_sorted (act_fields a) \<and> bs_sorted (act_recipients a)"

text \<open>An act is genuine when it is the view of its own message under its own signer.\<close>

definition genuine :: "(string \<Rightarrow> string) \<Rightarrow> act \<Rightarrow> bool" where
  "genuine sha256 a \<longleftrightarrow> from_message sha256 (act_message a) (act_signer a) = Inr a"

section \<open>Least and greatest elements\<close>

lemma foldl_min_by:
  "foldl (\<lambda>m x. if f x < f m then x else m) y ys \<in> set (y # ys) \<and>
   (\<forall>x \<in> set (y # ys). f (foldl (\<lambda>m x. if f x < f m then x else m) y ys) \<le> (f x :: 'k::linorder))"
proof (induction ys arbitrary: y)
  case (Cons z zs)
  show ?case
  proof (cases "f z < f y")
    case True
    then show ?thesis using Cons.IH [of z] by (auto intro: order_trans [OF _ less_imp_le])
  next
    case False
    then show ?thesis using Cons.IH [of y] by (auto simp: not_less intro: order_trans)
  qed
qed simp

lemma foldl_max_by:
  "foldl (\<lambda>m x. if f x < f m then m else x) y ys \<in> set (y # ys) \<and>
   (\<forall>x \<in> set (y # ys). (f x :: 'k::linorder) \<le> f (foldl (\<lambda>m x. if f x < f m then m else x) y ys))"
proof (induction ys arbitrary: y)
  case (Cons z zs)
  show ?case
  proof (cases "f z < f y")
    case True
    then show ?thesis using Cons.IH [of y] by (auto intro: order_trans [OF less_imp_le])
  next
    case False
    then show ?thesis using Cons.IH [of z] by (auto simp: not_less intro: order_trans)
  qed
qed simp

lemma min_by_key_eq_None [simp]: "min_by_key f xs = None \<longleftrightarrow> xs = []"
  by (cases xs) (simp_all add: min_by_key_def)

lemma max_by_key_eq_None [simp]: "max_by_key f xs = None \<longleftrightarrow> xs = []"
  by (cases xs) (simp_all add: max_by_key_def)

lemma min_by_key_eq_Some:
  assumes "inj_on f (set xs)"
  shows "min_by_key f xs = Some m \<longleftrightarrow> m \<in> set xs \<and> (\<forall>x \<in> set xs. f m \<le> f x)"
proof (cases xs)
  case (Cons y ys)
  let ?r = "foldl (\<lambda>m x. if f x < f m then x else m) y ys"
  have r: "?r \<in> set xs" "\<forall>x \<in> set xs. f ?r \<le> f x" using foldl_min_by [of f y ys] Cons by simp_all
  have "m = ?r" if "m \<in> set xs" "\<forall>x \<in> set xs. f m \<le> f x"
    using that r assms by (meson antisym inj_onD)
  then show ?thesis using r Cons by (auto simp: min_by_key_def)
qed (simp add: min_by_key_def)

lemma max_by_key_eq_Some:
  assumes "inj_on f (set xs)"
  shows "max_by_key f xs = Some m \<longleftrightarrow> m \<in> set xs \<and> (\<forall>x \<in> set xs. f x \<le> f m)"
proof (cases xs)
  case (Cons y ys)
  let ?r = "foldl (\<lambda>m x. if f x < f m then m else x) y ys"
  have r: "?r \<in> set xs" "\<forall>x \<in> set xs. f x \<le> f ?r" using foldl_max_by [of f y ys] Cons by simp_all
  have "m = ?r" if "m \<in> set xs" "\<forall>x \<in> set xs. f x \<le> f m"
    using that r assms by (meson antisym inj_onD)
  then show ?thesis using r Cons by (auto simp: max_by_key_def)
qed (simp add: max_by_key_def)

text \<open>On keys that tell the elements apart the result depends on the set of elements alone.\<close>

lemma min_by_key_cong:
  assumes "set xs = set ys" "inj_on f (set xs)" shows "min_by_key f xs = min_by_key f ys"
proof (cases "min_by_key f xs")
  case (Some m)
  then have "min_by_key f ys = Some m" using assms by (simp add: min_by_key_eq_Some)
  then show ?thesis using Some by simp
next
  case None
  then show ?thesis using assms(1) by simp
qed

lemma max_by_key_cong:
  assumes "set xs = set ys" "inj_on f (set xs)" shows "max_by_key f xs = max_by_key f ys"
proof (cases "max_by_key f xs")
  case (Some m)
  then have "max_by_key f ys = Some m" using assms by (simp add: max_by_key_eq_Some)
  then show ?thesis using Some by simp
next
  case None
  then show ?thesis using assms(1) by simp
qed

section \<open>Views of messages\<close>

lemma bt_sorted_keyword_scan [simp]: "bt_sorted out \<Longrightarrow> bt_sorted (keyword_scan ps out)"
  by (induction ps out rule: keyword_scan.induct) (auto split: sexpr.splits atom.splits)

lemma bt_sorted_keyword_fields [simp]: "bt_sorted (keyword_fields m)"
  by (simp add: keyword_fields_def split: message.split)

lemma bs_sorted_recipient_set [simp]: "bs_sorted (recipient_set m)"
  by (simp add: recipient_set_def as_set_def bs_sorted_def split: message.split option.split recipients.split)
     (metis bs_sorted_def bs_sorted_of_list)

lemma predecessors_match_iff: "predecessors_match cb ps \<longleftrightarrow> ps = caused_refs cb"
  by (simp add: predecessors_match_def caused_refs_def split: option.split caused_by.split)

lemma wire_address_eq:
  "wire_address sha256 m = ''sha256-'' @ hex32 (t_root (build_tree sha256 m))"
  by (simp add: wire_address_def message_content_hash_def strip_typed_root del: append.simps)

lemma from_message_eq_Inr:
  "from_message sha256 m signer = Inr a \<longleftrightarrow> (\<exists>simple p. innermost_simple m = Some simple \<and>
     performative_of simple = Some p \<and> act_address a = wire_address sha256 simple \<and>
     act_verb a = performative_name p \<and> act_signer a = signer \<and>
     act_predecessors a = caused_refs (caused_by_of simple) \<and>
     act_recipients a = recipient_set simple \<and> act_fields a = keyword_fields simple \<and>
     act_message a = m)"
  by (cases a) (auto simp: from_message_def result_simps)

lemma genuine_simple: "genuine sha256 a \<Longrightarrow> act_simple a \<noteq> None"
  by (auto simp: genuine_def from_message_eq_Inr act_simple_def)

lemma genuine_ordered: "genuine sha256 a \<Longrightarrow> act_ordered a"
  by (auto simp: genuine_def from_message_eq_Inr act_ordered_def)

text \<open>Maps of one length, one inside the other, are equal.\<close>

lemma bt_same_length_submap:
  assumes "bt_sorted m" "bt_sorted n" "length m = length n"
    "list_all (\<lambda>(k, v). bt_get n k = Some v) m"
  shows "n = m"
proof (rule bt_sorted_eqI)
  have dist: "distinct m" "distinct n"
    using assms(1,2) bt_sorted_distinct distinct_map by blast+
  have "set m \<subseteq> set n" using assms(2,4) by (auto simp: list_all_iff bt_get_eq_Some)
  moreover have "card (set m) = card (set n)" using dist assms(3) by (simp add: distinct_card)
  ultimately have "set m = set n" by (simp add: card_subset_eq)
  then show "bt_get n = bt_get m"
    using assms(1,2) by (metis bt_sorted_distinct map_of_eqI map_of_inject_set set_map)
qed (use assms in auto)

lemma fields_match_iff:
  assumes "bt_sorted m" "bt_sorted n"
  shows "length m = length n \<and> list_all (\<lambda>(k, v). bt_get n k = Some v) m \<longleftrightarrow> n = m"
proof
  assume "n = m"
  then show "length m = length n \<and> list_all (\<lambda>(k, v). bt_get n k = Some v) m"
    using assms by (auto simp: list_all_iff bt_get_eq_Some)
qed (use bt_same_length_submap assms in blast)

lemma set_act_frontier:
  "set (act_frontier acts) = act_address ` set acts - (\<Union>a \<in> set acts. set (act_predecessors a))"
  by (auto simp: act_frontier_def Let_def)

lemma strict_sorted_remdups_adj: "sorted xs \<Longrightarrow> sorted_wrt (<) (remdups_adj xs)"
  by (induction xs rule: remdups_adj.induct) (auto simp: less_le intro: order.trans)

lemma sorted_act_frontier: "sorted_wrt (<) (act_frontier acts)"
  by (simp add: act_frontier_def Let_def strict_sorted_remdups_adj)

lemma act_frontier_cong: "set xs = set ys \<Longrightarrow> act_frontier xs = act_frontier ys"
  by (intro strict_sorted_equal sorted_act_frontier) (simp add: set_act_frontier)

section \<open>Properties\<close>

text \<open>The identity check accepts an act exactly when every field of it is what viewing its own
  message under its own signer derives, so an accepted act cannot misstate its address, verb,
  predecessors, recipients or fields.\<close>

lemma validate_identity_exact:
  assumes "act_ordered a"
  shows "validate_identity sha256 a = Inr () \<longleftrightarrow> from_message sha256 (act_message a) (act_signer a) = Inr a"
proof -
  have fm: "bt_sorted (act_fields a)" using assms by (simp add: act_ordered_def)
  show ?thesis
    unfolding validate_identity_def from_message_eq_Inr result_simps Let_def predecessors_match_iff
      fields_match_iff [OF bt_sorted_keyword_fields fm]
    by auto
qed

definition sample_message :: message where
  "sample_message = Simple \<lparr>m_performative = Custom ''say'', m_recipient = Some (One ''@bo''),
     m_content = Atom (Str ''hi''), m_params = [Kw ''text'', Atom (Str ''hello''), Kw ''to'', Sym ''@x''],
     m_thread = Some ''t'', m_sender = None, m_caused_by = Some (Single ''sha256-00'')\<rparr>"

definition sample_act :: "(string \<Rightarrow> string) \<Rightarrow> act" where
  "sample_act sha256 = \<lparr>act_address = wire_address sha256 sample_message,
     act_verb = ''say'', act_signer = ''@al'', act_predecessors = [''sha256-00''],
     act_recipients = [''@bo''], act_fields = [(''text'', Atom (Str ''hello''))],
     act_message = Dialect ''room'' sample_message\<rparr>"

lemma validate_identity_exact_witness:
  "validate_identity (\<lambda>_. []) (sample_act (\<lambda>_. [])) = Inr ()"
proof -
  have "act_ordered (sample_act (\<lambda>_. []))"
    by (simp add: act_ordered_def sample_act_def bt_sorted_def bs_sorted_def)
  moreover have "from_message (\<lambda>_. []) (act_message (sample_act (\<lambda>_. []))) (act_signer (sample_act (\<lambda>_. []))) =
      Inr (sample_act (\<lambda>_. []))"
    unfolding from_message_eq_Inr
    by (simp add: sample_act_def sample_message_def performative_of_def performative_name_def
        caused_refs_def caused_by_of_def recipient_set_def as_set_def keyword_fields_def ROUTING_KEYWORDS_def)
  ultimately show ?thesis by (simp only: validate_identity_exact)
qed

end
