(* ===== verification/Cbcl_Value.thy ===== *)
theory Cbcl_Value
  imports Cbcl_Act
begin

text \<open>
  State values and their canonical JSON rendering (\<open>cbcl-core/src/state.rs\<close>). An \<open>i128\<close> is an
  unbounded integer here: every integer in a value is an \<open>i64\<close> field, a count, or a sum of \<open>i64\<close>
  fields over a list of acts, which 128 bits hold for every list of fewer than \<open>2^64\<close> acts. The main
  result is that the rendering tells field values apart, which the fold relies on where it sorts,
  groups and removes duplicates by rendering.
\<close>

section \<open>Values\<close>

datatype state_value =
    VAbsent
  | VStr string
  | VInt int
  | VBool bool
  | VList "state_value list"
  | VSet "state_value list"
  | VMap "(state_value \<times> state_value) list"
  | VPair string state_value

fun from_sexpr :: "sexpr \<Rightarrow> state_value" where
  "from_sexpr (Atom (Str x)) = VStr x"
| "from_sexpr (Atom (Num n)) = VInt n"
| "from_sexpr (Atom (Bool b)) = VBool b"
| "from_sexpr (Atom (Symbol x)) = VStr x"
| "from_sexpr (Atom (Keyword x)) = VStr (CHR '':'' # x)"
| "from_sexpr (List items) = VList (map from_sexpr items)"

definition json_escape :: "char \<Rightarrow> string" where
  "json_escape c =
     (if c = CHR 0x22 then [CHR 0x5C, CHR 0x22]
      else if c = CHR 0x5C then [CHR 0x5C, CHR 0x5C]
      else if c = CHR 0x0A then [CHR 0x5C, CHR ''n'']
      else if c = CHR 0x0D then [CHR 0x5C, CHR ''r'']
      else if c = CHR 0x09 then [CHR 0x5C, CHR ''t'']
      else if c = CHR 0x08 then [CHR 0x5C, CHR ''b'']
      else if c = CHR 0x0C then [CHR 0x5C, CHR ''f'']
      else if byte c < 32 then [CHR 0x5C, CHR ''u''] @ hex_fixed 4 (byte c)
      else [c])"

definition json_string :: "string \<Rightarrow> string" where
  "json_string s = [CHR 0x22] @ concat (map json_escape s) @ [CHR 0x22]"

text \<open>The comma that every element but the first is preceded by.\<close>

fun comma_join :: "string list \<Rightarrow> string" where
  "comma_join [] = []"
| "comma_join [x] = x"
| "comma_join (x # y # zs) = x @ CHR '','' # comma_join (y # zs)"

text \<open>What \<open>render_into\<close> appends. A key of a map contributes a string as itself and anything else as
  its rendering (\<open>map_key_text\<close>).\<close>

function render :: "state_value \<Rightarrow> string" where
  "render VAbsent = ''null''"
| "render (VStr s) = json_string s"
| "render (VInt n) = show_int n"
| "render (VBool b) = (if b then ''true'' else ''false'')"
| "render (VList items) = ''['' @ comma_join (map render items) @ '']''"
| "render (VSet items) = ''['' @ comma_join (map render items) @ '']''"
| "render (VMap es) = ''{'' @ comma_join (map (\<lambda>(k, v).
     json_string (case k of VStr s \<Rightarrow> s | _ \<Rightarrow> render k) @ '':'' @ render v) es) @ ''}''"
| "render (VPair by v) =
     [CHR ''{'', CHR 0x22, CHR ''b'', CHR ''y'', CHR 0x22, CHR '':''] @ json_string by @
     [CHR '','', CHR 0x22] @ ''value'' @ [CHR 0x22, CHR '':''] @ render v @ ''}''"
  by pat_completeness auto

lemma size_map_entry:
  "(k, v) \<in> set es \<Longrightarrow> size k < Suc (size_list (size_prod size size) es) \<and>
     size v < Suc (size_list (size_prod size size) es)"
  by (induction es) auto

termination render
  by (relation "measure size")
     (auto dest: size_map_entry simp: less_Suc_eq_le intro: size_list_estimation')

definition map_key_text :: "state_value \<Rightarrow> string" where
  "map_key_text k = (case k of VStr s \<Rightarrow> s | _ \<Rightarrow> render k)"

fun as_int :: "state_value \<Rightarrow> int option" where
  "as_int (VInt n) = Some n"
| "as_int (VPair _ v) = as_int v"
| "as_int _ = None"

text \<open>\<open>dedup_by\<close> on the keys: of neighbours with one key the first stays.\<close>

fun dedup_by_key :: "('k \<times> 'v) list \<Rightarrow> ('k \<times> 'v) list" where
  "dedup_by_key (x # y # zs) =
     (if fst x = fst y then dedup_by_key (x # zs) else x # dedup_by_key (y # zs))"
| "dedup_by_key xs = xs"

definition sorted_distinct :: "state_value list \<Rightarrow> state_value list" where
  "sorted_distinct vs = map snd (dedup_by_key (sort_key fst (map (\<lambda>v. (render v, v)) vs)))"

definition render_json :: "(string \<times> state_value) list \<Rightarrow> string" where
  "render_json state = ''{'' @ comma_join (map (\<lambda>(name, v). json_string name @ '':'' @ render v) state) @ ''}''"

section \<open>The rendering of field values\<close>

text \<open>The values that \<open>from_sexpr\<close> makes.\<close>

fun data_value :: "state_value \<Rightarrow> bool" where
  "data_value (VStr _) = True"
| "data_value (VInt _) = True"
| "data_value (VBool _) = True"
| "data_value (VList vs) = list_all data_value vs"
| "data_value _ = False"

lemma data_value_from_sexpr [simp]: "data_value (from_sexpr e)"
  by (induction e rule: from_sexpr.induct) (auto simp: list_all_iff)

lemma hex_fixed_inject: "n < 16 ^ w \<Longrightarrow> m < 16 ^ w \<Longrightarrow> hex_fixed w n = hex_fixed w m \<longleftrightarrow> n = m"
  by (metis hex_value_fixed)

text \<open>Escapes are told apart by what they start with, and none starts with a quote.\<close>

lemma json_escape_not_quote [simp]: "json_escape c @ r \<noteq> CHR 0x22 # r'" "json_escape c \<noteq> []"
  by (auto simp: json_escape_def)

lemma byte_inject: "byte c = byte d \<longleftrightarrow> c = d"
  by (simp add: of_char_eq_iff)

definition json_unescape :: "string \<Rightarrow> char \<times> string" where
  "json_unescape s =
     (if hd s \<noteq> CHR 0x5C then (hd s, tl s)
      else if s ! 1 = CHR ''n'' then (CHR 0x0A, drop 2 s)
      else if s ! 1 = CHR ''r'' then (CHR 0x0D, drop 2 s)
      else if s ! 1 = CHR ''t'' then (CHR 0x09, drop 2 s)
      else if s ! 1 = CHR ''b'' then (CHR 0x08, drop 2 s)
      else if s ! 1 = CHR ''f'' then (CHR 0x0C, drop 2 s)
      else if s ! 1 = CHR ''u'' then (char_of (hex_value (take 4 (drop 2 s))), drop 6 s)
      else (s ! 1, drop 2 s))"

lemma json_unescape_escape: "json_unescape (json_escape c @ r) = (c, r)"
proof -
  have "hex_value (hex_fixed 4 (byte c)) = byte c"
    using less_trans [OF nat_of_char_less_256 [of c], of 65536] by (intro hex_value_fixed) simp
  then show ?thesis by (simp add: json_escape_def json_unescape_def)
qed

lemma json_escape_inject: "json_escape c @ r = json_escape d @ r' \<Longrightarrow> c = d \<and> r = r'"
  by (metis json_unescape_escape Pair_inject)

lemma json_body_inject:
  "concat (map json_escape s) @ CHR 0x22 # r = concat (map json_escape t) @ CHR 0x22 # r' \<Longrightarrow> s = t \<and> r = r'"
proof (induction s arbitrary: t)
  case Nil
  then show ?case by (cases t) (simp_all add: json_escape_not_quote(1) [THEN not_sym])
next
  case (Cons c s)
  show ?case
  proof (cases t)
    case Nil
    then show ?thesis using Cons.prems by simp
  next
    case (Cons d t')
    then have "c = d \<and> concat (map json_escape s) @ CHR 0x22 # r = concat (map json_escape t') @ CHR 0x22 # r'"
      using Cons.prems json_escape_inject [of c _ d] by simp
    then show ?thesis using Cons.IH [of t'] Cons by simp
  qed
qed

lemma json_string_inject: "json_string s @ r = json_string t @ r' \<Longrightarrow> s = t \<and> r = r'"
  using json_body_inject [of s r t r'] by (simp add: json_string_def)

text \<open>A number ends where the digits do.\<close>

definition ends_value :: "string \<Rightarrow> bool" where
  "ends_value r \<longleftrightarrow> (case r of [] \<Rightarrow> True | c # _ \<Rightarrow> c = CHR '','' \<or> c = CHR '']'')"

lemma takeWhile_digits_show_nat: "ends_value r \<Longrightarrow> takeWhile is_ascii_digit (show_nat n @ r) = show_nat n"
  using show_nat_digits [of n]
  by (cases r) (auto simp: ends_value_def takeWhile_append2 list_all_iff is_ascii_digit_def)

lemma show_nat_inject_append:
  assumes "ends_value r" "ends_value r'" "show_nat n @ r = show_nat m @ r'"
  shows "n = m \<and> r = r'"
proof -
  have "show_nat n = show_nat m" using assms takeWhile_digits_show_nat by metis
  then show ?thesis using assms(3) digits_value_show_nat by (metis same_append_eq)
qed

lemma show_nat_not_minus: "show_nat n @ r \<noteq> CHR ''-'' # r'"
  using show_nat_digits [of n] show_nat_nonempty [of n] by (cases "show_nat n") (auto simp: is_ascii_digit_def)

lemma show_int_inject_append:
  assumes "ends_value r" "ends_value r'" "show_int n @ r = show_int m @ r'"
  shows "n = m \<and> r = r'"
proof -
  consider "0 \<le> n" "0 \<le> m" | "n < 0" "m < 0" | "n < 0" "0 \<le> m" | "0 \<le> n" "m < 0" by linarith
  then show ?thesis
  proof cases
    case 1
    then show ?thesis using show_nat_inject_append [OF assms(1,2), of "nat n" "nat m"] assms(3)
      by (simp add: show_int_def nat_eq_iff2)
  next
    case 2
    then show ?thesis using show_nat_inject_append [OF assms(1,2), of "nat (- n)" "nat (- m)"] assms(3)
      by (simp add: show_int_def nat_eq_iff2)
  next
    case 3
    then show ?thesis using show_nat_not_minus [of "nat m" r'] assms(3)
      by (metis append_Cons linorder_not_less show_int_def)
  next
    case 4
    then show ?thesis using show_nat_not_minus [of "nat n" r] assms(3)
      by (metis append_Cons linorder_not_less show_int_def)
  qed
qed

lemma show_int_first: "\<exists>c s. show_int n = c # s \<and> (c = CHR ''-'' \<or> is_ascii_digit c)"
  using show_nat_digits [of "nat n"] show_nat_nonempty [of "nat n"]
  by (cases "show_nat (nat n)") (auto simp: show_int_def)

text \<open>The first character of a rendering decides its constructor.\<close>

fun lead :: "state_value \<Rightarrow> char \<Rightarrow> bool" where
  "lead (VStr _) c = (c = CHR 0x22)"
| "lead (VInt _) c = (c = CHR ''-'' \<or> is_ascii_digit c)"
| "lead (VBool b) c = (c = (if b then CHR ''t'' else CHR ''f''))"
| "lead (VList _) c = (c = CHR ''['')"
| "lead _ c = False"

lemma render_lead: "data_value v \<Longrightarrow> \<exists>c s. render v = c # s \<and> lead v c"
  using show_int_first by (cases v) (auto simp: json_string_def)

lemma lead_not_close: "lead v c \<Longrightarrow> c \<noteq> CHR '']''"
  by (cases v) (auto simp: is_ascii_digit_def split: if_splits)

lemma lead_disjoint:
  "lead v c \<Longrightarrow> lead w c \<Longrightarrow>
     (\<exists>s t. v = VStr s \<and> w = VStr t) \<or> (\<exists>n m. v = VInt n \<and> w = VInt m) \<or>
     (\<exists>b. v = VBool b \<and> w = VBool b) \<or> (\<exists>xs ys. v = VList xs \<and> w = VList ys)"
  by (cases v; cases w) (auto simp: is_ascii_digit_def split: if_splits)

definition prefix_decided :: "state_value \<Rightarrow> bool" where
  "prefix_decided v \<longleftrightarrow> (\<forall>w r r'. data_value w \<longrightarrow> ends_value r \<longrightarrow> ends_value r' \<longrightarrow>
     render v @ r = render w @ r' \<longrightarrow> v = w \<and> r = r')"

lemma prefix_decidedD:
  "prefix_decided v \<Longrightarrow> data_value w \<Longrightarrow> ends_value r \<Longrightarrow> ends_value r' \<Longrightarrow>
     render v @ r = render w @ r' \<Longrightarrow> v = w \<and> r = r'"
  unfolding prefix_decided_def by blast

text \<open>What follows an element of a list: the rest of the list with its comma, or the bracket.\<close>

definition list_tail :: "state_value list \<Rightarrow> string \<Rightarrow> string" where
  "list_tail vs r = (if vs = [] then CHR '']'' # r else CHR '','' # comma_join (map render vs) @ CHR '']'' # r)"

lemma ends_list_tail [simp]: "ends_value (list_tail vs r)"
  by (simp add: list_tail_def ends_value_def)

lemma join_Cons_tail: "comma_join (map render (v # vs)) @ CHR '']'' # r = render v @ list_tail vs r"
  by (cases vs) (simp_all add: list_tail_def)

lemma join_decided:
  assumes "list_all prefix_decided vs" "list_all data_value vs" "list_all data_value ws"
    "comma_join (map render vs) @ CHR '']'' # r = comma_join (map render ws) @ CHR '']'' # r'"
  shows "vs = ws \<and> r = r'"
  using assms
proof (induction vs arbitrary: ws)
  case Nil
  show ?case
  proof (cases ws)
    case (Cons w ws')
    then obtain c s where "render w = c # s" "c \<noteq> CHR '']''"
      using Nil.prems render_lead [of w] lead_not_close by auto
    then show ?thesis using Nil.prems(4) Cons join_Cons_tail [of w ws' r'] by simp
  qed (use Nil in simp)
next
  case (Cons v vs)
  show ?case
  proof (cases ws)
    case Nil
    obtain c s where "render v = c # s" "c \<noteq> CHR '']''"
      using Cons.prems render_lead [of v] lead_not_close by auto
    then show ?thesis using Cons.prems(4) Nil join_Cons_tail [of v vs r] by simp
  next
    case (Cons w ws')
    have "render v @ list_tail vs r = render w @ list_tail ws' r'"
      using Cons.prems(4) Cons join_Cons_tail by metis
    then have eq: "v = w" "list_tail vs r = list_tail ws' r'"
      using prefix_decidedD [of v w "list_tail vs r" "list_tail ws' r'"] Cons.prems Cons by simp_all
    have "vs = ws' \<and> r = r'"
    proof (cases "vs = [] \<or> ws' = []")
      case True
      then show ?thesis using eq(2) by (auto simp: list_tail_def split: if_splits)
    next
      case False
      then show ?thesis
        using eq(2) Cons.IH [of ws'] Cons.prems Cons by (simp add: list_tail_def)
    qed
    then show ?thesis using eq Cons by simp
  qed
qed

lemma same_shape:
  assumes "data_value v" "data_value w" "render v @ r = render w @ r'"
  shows "(\<exists>s t. v = VStr s \<and> w = VStr t) \<or> (\<exists>n m. v = VInt n \<and> w = VInt m) \<or>
     (\<exists>b. v = VBool b \<and> w = VBool b) \<or> (\<exists>xs ys. v = VList xs \<and> w = VList ys)"
proof -
  obtain c s where c: "render v = c # s" "lead v c" using render_lead [OF assms(1)] by blast
  obtain d t where d: "render w = d # t" "lead w d" using render_lead [OF assms(2)] by blast
  have "c = d" using c(1) d(1) assms(3) by simp
  then show ?thesis using lead_disjoint c(2) d(2) by blast
qed

lemma data_prefix_decided: "data_value v \<Longrightarrow> prefix_decided v"
proof (induction v)
  case (VList vs)
  show ?case
    unfolding prefix_decided_def
  proof (intro allI impI)
    fix w r r'
    assume w: "data_value w" "ends_value r" "ends_value r'" "render (VList vs) @ r = render w @ r'"
    then obtain ws where ws: "w = VList ws" using same_shape [OF VList.prems w(1,4)] by blast
    moreover have "list_all prefix_decided vs" using VList by (simp add: list_all_iff)
    ultimately show "VList vs = w \<and> r = r'"
      using join_decided [of vs ws r r'] VList.prems w(1,4) by simp
  qed
next
  case (VStr s)
  show ?case unfolding prefix_decided_def
  proof (intro allI impI)
    fix w r r'
    assume w: "data_value w" "ends_value r" "ends_value r'" "render (VStr s) @ r = render w @ r'"
    then obtain t where "w = VStr t" using same_shape [OF VStr w(1,4)] by blast
    then show "VStr s = w \<and> r = r'" using json_string_inject [of s r t r'] w by simp
  qed
next
  case (VInt n)
  show ?case unfolding prefix_decided_def
  proof (intro allI impI)
    fix w r r'
    assume w: "data_value w" "ends_value r" "ends_value r'" "render (VInt n) @ r = render w @ r'"
    then obtain m where "w = VInt m" using same_shape [OF VInt w(1,4)] by blast
    then show "VInt n = w \<and> r = r'" using show_int_inject_append [of r r' n m] w by simp
  qed
next
  case (VBool b)
  show ?case unfolding prefix_decided_def
  proof (intro allI impI)
    fix w r r'
    assume w: "data_value w" "ends_value r" "ends_value r'" "render (VBool b) @ r = render w @ r'"
    then have "w = VBool b" using same_shape [OF VBool w(1,4)] by blast
    then show "VBool b = w \<and> r = r'" using w by simp
  qed
qed simp_all

lemma render_inject: "data_value v \<Longrightarrow> data_value w \<Longrightarrow> render v = render w \<longleftrightarrow> v = w"
  using prefix_decidedD [OF data_prefix_decided, of v w "[]" "[]"] by (auto simp: ends_value_def)

section \<open>Sorting by rendering\<close>

lemma set_dedup_by_key_subset: "set (dedup_by_key xs) \<subseteq> set xs"
  by (induction xs rule: dedup_by_key.induct) auto

lemma keys_dedup_by_key: "fst ` set (dedup_by_key xs) = fst ` set xs"
proof (induction xs rule: dedup_by_key.induct)
  case (1 x y zs)
  then show ?case by (cases "fst x = fst y") auto
qed auto

lemma set_dedup_by_key:
  assumes "inj_on fst (set xs)" shows "set (dedup_by_key xs) = set xs"
proof
  show "set xs \<subseteq> set (dedup_by_key xs)"
  proof
    fix x assume x: "x \<in> set xs"
    then obtain y where y: "y \<in> set (dedup_by_key xs)" "fst y = fst x"
      using keys_dedup_by_key [of xs] by (metis (no_types, lifting) image_iff)
    then have "y = x" using assms x set_dedup_by_key_subset [of xs] by (metis inj_onD subsetD)
    then show "x \<in> set (dedup_by_key xs)" using y by simp
  qed
qed (rule set_dedup_by_key_subset)

lemma strict_sorted_dedup_by_key:
  "sorted (map fst xs) \<Longrightarrow> sorted_wrt (<) (map fst (dedup_by_key xs))"
proof (induction xs rule: dedup_by_key.induct)
  case (1 x y zs)
  show ?case
  proof (cases "fst x = fst y")
    case False
    have "fst x < fst z" if "z \<in> set (dedup_by_key (y # zs))" for z
    proof -
      have "z \<in> set (y # zs)" using that set_dedup_by_key_subset by blast
      then have "fst y \<le> fst z" using 1(3) by auto
      moreover have "fst x < fst y" using False 1(3) by (simp add: less_le)
      ultimately show ?thesis by simp
    qed
    then show ?thesis using 1 False by auto
  qed (use 1 in auto)
qed auto

text \<open>Lists strictly sorted by a key with one set of elements are equal.\<close>

lemma strict_sorted_key_unique:
  fixes f :: "'a \<Rightarrow> 'k::linorder"
  assumes "sorted_wrt (<) (map f xs)" "sorted_wrt (<) (map f ys)" "set xs = set ys"
  shows "xs = ys"
proof -
  have "set (map f xs) = set (map f ys)" using assms(3) by simp
  then have "map f xs = map f ys" by (rule strict_sorted_equal [OF assms(2,1)])
  moreover have "inj_on f (set xs \<union> set ys)"
    using assms by (simp add: distinct_map strict_sorted_iff)
  ultimately show ?thesis by (simp add: inj_on_map_eq_map)
qed

lemma inj_on_keyed: "inj_on fst (set (map (\<lambda>v. (f v, v)) xs)) \<longleftrightarrow> inj_on f (set xs)"
  by (auto simp: inj_on_def)

lemma sorted_distinct_rendering: "sorted_wrt (<) (map render (sorted_distinct vs))"
proof -
  let ?k = "sort_key fst (map (\<lambda>v. (render v, v)) vs)"
  have "fst x = render (snd x)" if "x \<in> set (dedup_by_key ?k)" for x
    using that set_dedup_by_key_subset [of ?k] by auto
  then have "map render (sorted_distinct vs) = map fst (dedup_by_key ?k)"
    by (simp add: sorted_distinct_def)
  then show ?thesis by (simp add: strict_sorted_dedup_by_key)
qed

lemma set_sorted_distinct:
  assumes "inj_on render (set vs)" shows "set (sorted_distinct vs) = set vs"
proof -
  let ?k = "sort_key fst (map (\<lambda>v. (render v, v)) vs)"
  have "inj_on fst (set ?k)" using assms inj_on_keyed [of render vs] by simp
  then show ?thesis by (simp add: sorted_distinct_def set_dedup_by_key image_image)
qed

lemma inj_on_render: "list_all data_value vs \<Longrightarrow> inj_on render (set vs)"
  by (auto simp: inj_on_def list_all_iff render_inject)

lemma sorted_distinct_cong:
  assumes "set vs = set ws" "list_all data_value vs"
  shows "sorted_distinct vs = sorted_distinct ws"
proof (rule strict_sorted_key_unique [of render])
  have "list_all data_value ws" using assms by (simp add: list_all_iff)
  then show "set (sorted_distinct vs) = set (sorted_distinct ws)"
    using assms by (simp add: set_sorted_distinct inj_on_render)
qed (rule sorted_distinct_rendering)+

section \<open>Properties\<close>

text \<open>The canonical JSON rendering tells the values of message fields apart, whatever follows them
  in a list, so that sorting, grouping and removing duplicates by rendering, as the fold does, is
  sorting, grouping and removing duplicates of the values themselves.\<close>

lemma render_injective:
  "render (from_sexpr e) = render (from_sexpr e') \<longleftrightarrow> from_sexpr e = from_sexpr e'"
  by (simp add: render_inject)

end
