(* ===== verification/Cbcl_Escrow.thy ===== *)
theory Cbcl_Escrow
  imports Cbcl_Value
begin

text \<open>
  The observation of a bounded counter (\<open>cbcl-core/src/escrow.rs\<close>, \<open>observe\<close> and what it calls): the
  projection of acts to resource facts, the reading of the cast and of the initial allocations, the
  operation nodes with their owner chains, the traversal in dependency order that checks every
  operation against the budget its issuer could see, and the final balances.

  \<open>i128\<close> arithmetic is checked as in the source. An index expression of the source panics on a missing
  key; the traversal returns \<^const>\<open>None\<close> there, and never does so.
\<close>

section \<open>Outcomes\<close>

record snapshot =
  sn_value :: int
  sn_rights :: "(string, int) btmap"
  sn_headroom :: "(string, int) btmap option"
  sn_tips :: "(string, string) btmap"
  sn_opener :: string

datatype outcome = Ready snapshot | Pending "string list" | Fault string "string list"

definition balances :: "(string, int) btmap \<Rightarrow> state_value" where
  "balances m = VMap (map (\<lambda>(k, v). (VStr k, VInt v)) m)"

definition outcome_value :: "outcome \<Rightarrow> state_value" where
  "outcome_value out = VMap (map (\<lambda>(k, v). (VStr k, v)) (case out of
       Ready s \<Rightarrow>
         (let m = bt_insert ''rights'' (balances (sn_rights s))
            (bt_insert ''value'' (VInt (sn_value s)) (bt_insert ''status'' (VStr ''ready'') []))
          in case sn_headroom s of Some h \<Rightarrow> bt_insert ''headroom'' (balances h) m | None \<Rightarrow> m)
     | Pending xs \<Rightarrow>
         bt_insert ''evidence'' (VList (map VStr xs)) (bt_insert ''status'' (VStr ''pending'') [])
     | Fault reason evidence \<Rightarrow>
         bt_insert ''evidence'' (VList (map VStr evidence))
           (bt_insert ''reason'' (VStr reason) (bt_insert ''status'' (VStr ''fault'') []))))"

section \<open>Reading fields\<close>

definition text_of :: "sexpr \<Rightarrow> string option" where
  "text_of x = (case x of Atom (Symbol s) \<Rightarrow> Some s | Atom (Str s) \<Rightarrow> Some s | _ \<Rightarrow> None)"

definition number_of :: "sexpr \<Rightarrow> int option" where
  "number_of x = (case x of Atom (Num n) \<Rightarrow> Some n | _ \<Rightarrow> None)"

definition account_of :: "sexpr \<Rightarrow> string option" where
  "account_of x = (case text_of x of
       Some s \<Rightarrow> if starts_with_at s \<and> 1 < length s then Some s else None
     | None \<Rightarrow> None)"

fun lang_of :: "message \<Rightarrow> string option" where
  "lang_of (Dialect name _) = Some name"
| "lang_of (Wrapped _ _ content) = lang_of content"
| "lang_of _ = None"

fun cast_of_message :: "message \<Rightarrow> sexpr list option" where
  "cast_of_message (Wrapped w params content) =
     (if w = WithRoles then (case params of List xs # _ \<Rightarrow> Some xs | _ \<Rightarrow> None)
      else cast_of_message content)"
| "cast_of_message (Dialect _ inner) = cast_of_message inner"
| "cast_of_message _ = None"

definition content_address :: "string \<Rightarrow> bool" where
  "content_address s = (case strip_prefix ''sha256-'' s of
       None \<Rightarrow> False | Some hex \<Rightarrow> length hex = 64 \<and> list_all lower_hex hex)"

fun alloc_loop :: "sexpr list \<Rightarrow> (string, int) btmap \<Rightarrow> (string, (string, int) btmap) result" where
  "alloc_loop [] m = Inr m"
| "alloc_loop (x # xs) m = (case x of
       List [p, q] \<Rightarrow>
         bind_result (ok_or ''allocation account must start with @'' (account_of p)) (\<lambda>a.
         bind_result (ok_or ''allocation amount must be a natural integer''
             (case number_of q of Some n \<Rightarrow> if 0 \<le> n then Some n else None | None \<Rightarrow> None)) (\<lambda>n.
           if bt_contains_key m a then Inl ''duplicate allocation account''
           else alloc_loop xs (bt_insert a n m)))
     | _ \<Rightarrow> Inl ''allocation must be (account natural)'')"

definition allocations :: "sexpr \<Rightarrow> (string, (string, int) btmap) result" where
  "allocations x = (case x of
       List xs \<Rightarrow> if xs = [] then Inl ''allocations must be nonempty'' else alloc_loop xs []
     | _ \<Rightarrow> Inl ''allocations must be a list'')"

section \<open>Resource facts\<close>

record resource_fact =
  rf_address :: string
  rf_verb :: string
  rf_signer :: string
  rf_predecessors :: "string list"
  rf_fields :: "(string, sexpr) btmap"
  rf_language :: "string option"
  rf_thread :: "string option"
  rf_from :: "sexpr option"
  rf_bindings :: "sexpr list option"
  rf_identity :: string

definition resource_state_id :: "string \<Rightarrow> string" where
  "resource_state_id ident = (case strip_prefix ''sha256:'' ident of
       Some hex \<Rightarrow> if length hex = 64 \<and> list_all lower_hex hex then ''sha256-'' @ hex else ident
     | None \<Rightarrow> ident)"

definition projected_link :: "sexpr \<Rightarrow> sexpr" where
  "projected_link x = (case x of
       Atom (Str s) \<Rightarrow> Atom (Str (resource_state_id s))
     | Atom (Symbol s) \<Rightarrow> Atom (Symbol (resource_state_id s))
     | _ \<Rightarrow> x)"

definition simple_identity :: "(string \<Rightarrow> string) \<Rightarrow> message \<Rightarrow> string" where
  "simple_identity sha256 m = sha256 (message_content_hash sha256 m)"

fun raw_scan :: "sexpr list \<Rightarrow> string \<Rightarrow> sexpr option" where
  "raw_scan (x # y # rest) key = (if x = Kw key then Some y else raw_scan (y # rest) key)"
| "raw_scan _ key = None"

definition raw_field :: "message \<Rightarrow> string \<Rightarrow> sexpr option" where
  "raw_field msg key = (case msg of Simple s \<Rightarrow> raw_scan (m_params s) key | _ \<Rightarrow> None)"

text \<open>Both callers have rebuilt the act from its message before, so \<open>simple\<close> does not panic here.\<close>

definition project_unchecked :: "(string \<Rightarrow> string) \<Rightarrow> counter_rule \<Rightarrow> act \<Rightarrow> resource_fact option" where
  "project_unchecked sha256 c a =
     (let bindings = cast_of_message (act_message a)
      in if act_verb a \<notin> set (counter_verbs c) \<and> bindings = None then None
         else (case act_simple a of None \<Rightarrow> None | Some simple \<Rightarrow>
           let names = bs_of_list (map snd (filter (\<lambda>(v, _). v = act_verb a) (counter_data_fields c)) @ [PREV, DEPS])
           in Some \<lparr>rf_address = act_address a, rf_verb = act_verb a, rf_signer = act_signer a,
                rf_predecessors = map resource_state_id (act_predecessors a),
                rf_fields = map (\<lambda>(k, v). (k, if k = PREV then projected_link v
                    else if k = DEPS then (case v of List xs \<Rightarrow> List (map projected_link xs) | _ \<Rightarrow> v)
                    else v))
                  (filter (\<lambda>(k, _). k \<in> set names) (act_fields a)),
                rf_language = lang_of (act_message a), rf_thread = thread_of simple,
                rf_from = raw_field simple ''from'', rf_bindings = bindings,
                rf_identity = simple_identity sha256 simple\<rparr>))"

definition project_resource_fact ::
  "(string \<Rightarrow> string) \<Rightarrow> counter_rule \<Rightarrow> act \<Rightarrow> (string, resource_fact option) result" where
  "project_resource_fact sha256 c a =
     bind_result (from_message sha256 (act_message a) (act_signer a)) (\<lambda>rebuilt.
       if rebuilt \<noteq> a then Inl ''inconsistent act identity'' else Inr (project_unchecked sha256 c a))"

section \<open>Operations\<close>

datatype op_kind = KIncrement | KDecrement | KTransfer | KHeadroom

record escrow_node =
  n_fact :: resource_fact
  n_prev :: string
  n_deps :: "string list"
  n_kind :: op_kind
  n_amount :: int
  n_recipient :: "string option"

definition operation_shape ::
  "counter_rule \<Rightarrow> string \<Rightarrow> (op_kind \<times> string \<times> string option) option" where
  "operation_shape c verb =
     (if verb = fst (increment c) then Some (KIncrement, snd (increment c), None)
      else if verb = fst (decrement c) then Some (KDecrement, snd (decrement c), None)
      else (case transfer_op c of
          Some (v, r, k) \<Rightarrow>
            if verb = v then Some (KTransfer, k, Some r)
            else (case transfer_headroom c of
                Some (v', r', k') \<Rightarrow> if verb = v' then Some (KHeadroom, k', Some r') else None
              | None \<Rightarrow> None)
        | None \<Rightarrow> (case transfer_headroom c of
                Some (v', r', k') \<Rightarrow> if verb = v' then Some (KHeadroom, k', Some r') else None
              | None \<Rightarrow> None)))"

definition operation :: "counter_rule \<Rightarrow> resource_fact \<Rightarrow> (op_kind \<times> sexpr \<times> sexpr option) option" where
  "operation c a = (case operation_shape c (rf_verb a) of
       None \<Rightarrow> None
     | Some (kind, key, recipient) \<Rightarrow> (case bt_get (rf_fields a) key of
           None \<Rightarrow> None
         | Some amount \<Rightarrow> Some (kind, amount, Option.bind recipient (bt_get (rf_fields a)))))"

definition in_i128 :: "int \<Rightarrow> bool" where
  "in_i128 n \<longleftrightarrow> - (2 ^ 127) \<le> n \<and> n < 2 ^ 127"

definition checked_i128 :: "int \<Rightarrow> int option" where
  "checked_i128 n = (if in_i128 n then Some n else None)"

definition add_balance ::
  "(string, int) btmap \<Rightarrow> string \<Rightarrow> int \<Rightarrow> (string, (string, int) btmap) result" where
  "add_balance m owner n =
     bind_result (ok_or ''unknown account'' (bt_get m owner)) (\<lambda>v.
     bind_result (ok_or ''arithmetic overflow'' (checked_i128 (v + n))) (\<lambda>v'.
       Inr (bt_insert owner v' m)))"

definition add_headroom ::
  "(string, int) btmap option \<Rightarrow> string \<Rightarrow> int \<Rightarrow> (string, (string, int) btmap option) result" where
  "add_headroom headroom owner n = (case headroom of
       None \<Rightarrow> Inr None
     | Some h \<Rightarrow> bind_result (add_balance h owner n) (\<lambda>h'. Inr (Some h')))"

definition apply_node ::
  "escrow_node \<Rightarrow> (string, int) btmap \<times> (string, int) btmap option \<Rightarrow>
    (string, (string, int) btmap \<times> (string, int) btmap option) result" where
  "apply_node n st = (case st of (rights, headroom) \<Rightarrow>
     let owner = rf_signer (n_fact n); amount = n_amount n
     in (case n_kind n of
          KIncrement \<Rightarrow>
            bind_result (add_headroom headroom owner (- amount)) (\<lambda>h.
            bind_result (add_balance rights owner amount) (\<lambda>r. Inr (r, h)))
        | KDecrement \<Rightarrow>
            bind_result (add_balance rights owner (- amount)) (\<lambda>r.
            bind_result (add_headroom headroom owner amount) (\<lambda>h. Inr (r, h)))
        | KTransfer \<Rightarrow>
            bind_result (add_balance rights owner (- amount)) (\<lambda>r.
            bind_result (ok_or ''missing recipient'' (n_recipient n)) (\<lambda>to.
            bind_result (add_balance r to amount) (\<lambda>r'. Inr (r', headroom))))
        | KHeadroom \<Rightarrow>
            bind_result (ok_or ''headroom transfer requires ceiling'' headroom) (\<lambda>h.
            bind_result (add_balance h owner (- amount)) (\<lambda>h1.
            bind_result (ok_or ''missing recipient'' (n_recipient n)) (\<lambda>to.
            bind_result (add_balance h1 to amount) (\<lambda>h2. Inr (rights, Some h2)))))))"

fun sum_checked :: "int list \<Rightarrow> int \<Rightarrow> int option" where
  "sum_checked [] acc = Some acc"
| "sum_checked (n # ns) acc = Option.bind (checked_i128 (acc + n)) (sum_checked ns)"

definition total :: "(string, int) btmap \<Rightarrow> int option" where
  "total m = sum_checked (bt_values m) 0"

section \<open>Summaries and budgets\<close>

record summary =
  s_sequence :: nat
  s_tips :: "(string, string) btmap"
  s_credited :: int
  s_debited :: int
  s_sent_rights :: "(string, int) btmap"
  s_sent_headroom :: "(string, int) btmap"

definition summary_default :: summary where
  "summary_default = \<lparr>s_sequence = 0, s_tips = [], s_credited = 0, s_debited = 0,
     s_sent_rights = [], s_sent_headroom = []\<rparr>"

definition get_or_zero :: "(string, int) btmap \<Rightarrow> string \<Rightarrow> int" where
  "get_or_zero m k = (case bt_get m k of Some n \<Rightarrow> n | None \<Rightarrow> 0)"

definition record_node :: "summary \<Rightarrow> escrow_node \<Rightarrow> (string, summary) result" where
  "record_node s n =
     (if \<not> s_sequence s + 1 < 2 ^ 64 then Inl ''sequence overflow''
      else let s = s\<lparr>s_sequence := s_sequence s + 1\<rparr> in (case n_kind n of
          KIncrement \<Rightarrow>
            bind_result (ok_or ''arithmetic overflow'' (checked_i128 (s_credited s + n_amount n)))
              (\<lambda>v. Inr (s\<lparr>s_credited := v\<rparr>))
        | KDecrement \<Rightarrow>
            bind_result (ok_or ''arithmetic overflow'' (checked_i128 (s_debited s + n_amount n)))
              (\<lambda>v. Inr (s\<lparr>s_debited := v\<rparr>))
        | KTransfer \<Rightarrow>
            bind_result (ok_or ''missing recipient'' (n_recipient n)) (\<lambda>to.
            bind_result (ok_or ''arithmetic overflow''
                (checked_i128 (get_or_zero (s_sent_rights s) to + n_amount n)))
              (\<lambda>v. Inr (s\<lparr>s_sent_rights := bt_insert to v (s_sent_rights s)\<rparr>)))
        | KHeadroom \<Rightarrow>
            bind_result (ok_or ''missing recipient'' (n_recipient n)) (\<lambda>to.
            bind_result (ok_or ''arithmetic overflow''
                (checked_i128 (get_or_zero (s_sent_headroom s) to + n_amount n)))
              (\<lambda>v. Inr (s\<lparr>s_sent_headroom := bt_insert to v (s_sent_headroom s)\<rparr>)))))"

text \<open>\<open>v + a - b - out\<close>, checked after every step.\<close>

definition checked_balance :: "int \<Rightarrow> int \<Rightarrow> int \<Rightarrow> (string, int) btmap \<Rightarrow> (string, int) result" where
  "checked_balance v a b sent =
     bind_result (ok_or ''arithmetic overflow'' (total sent)) (\<lambda>outgoing.
       ok_or ''arithmetic overflow'' (Option.bind (checked_i128 (v + a)) (\<lambda>x.
         Option.bind (checked_i128 (x - b)) (\<lambda>y. checked_i128 (y - outgoing)))))"

fun receive_loop ::
  "string \<Rightarrow> (string, summary) btmap \<Rightarrow> (string \<times> string) list \<Rightarrow> int \<times> int option \<Rightarrow>
    (string, int \<times> int option) result option" where
  "receive_loop owner summaries [] b = Some (Inr b)"
| "receive_loop owner summaries ((other, tip) # tips) (rights, space) =
     (if other = owner then receive_loop owner summaries tips (rights, space)
      else (case bt_get summaries tip of
          None \<Rightarrow> None
        | Some summary \<Rightarrow>
            (case checked_i128 (rights + get_or_zero (s_sent_rights summary) owner) of
               None \<Rightarrow> Some (Inl ''arithmetic overflow'')
             | Some rights' \<Rightarrow> (case space of
                   None \<Rightarrow> receive_loop owner summaries tips (rights', None)
                 | Some h \<Rightarrow>
                     (case checked_i128 (h + get_or_zero (s_sent_headroom summary) owner) of
                        None \<Rightarrow> Some (Inl ''arithmetic overflow'')
                      | Some h' \<Rightarrow> receive_loop owner summaries tips (rights', Some h'))))))"

definition local_budgets ::
  "string \<Rightarrow> (string, int) btmap \<Rightarrow> (string, int) btmap option \<Rightarrow> summary \<Rightarrow> (string, string) btmap \<Rightarrow>
    (string, summary) btmap \<Rightarrow> (string, int \<times> int option) result option" where
  "local_budgets owner initial headroom own tips summaries =
     (case bt_get initial owner of None \<Rightarrow> None | Some v0 \<Rightarrow>
       (case checked_balance v0 (s_credited own) (s_debited own) (s_sent_rights own) of
          Inl e \<Rightarrow> Some (Inl e)
        | Inr rights \<Rightarrow> (case headroom of
              None \<Rightarrow> receive_loop owner summaries tips (rights, None)
            | Some h \<Rightarrow> (case bt_get h owner of None \<Rightarrow> None | Some h0 \<Rightarrow>
                (case checked_balance h0 (s_debited own) (s_credited own) (s_sent_headroom own) of
                   Inl e \<Rightarrow> Some (Inl e)
                 | Inr space \<Rightarrow> receive_loop owner summaries tips (rights, Some space))))))"

section \<open>Reading the instance\<close>

fun cast_keys ::
  "bool \<Rightarrow> sexpr list \<Rightarrow> string btset \<times> string btset \<Rightarrow> (string, string btset \<times> string btset) result" where
  "cast_keys is_issuer [] st = Inr st"
| "cast_keys is_issuer (key # keys) (members, issuers) = (case account_of key of
       None \<Rightarrow> Inl ''malformed cast account''
     | Some k \<Rightarrow> cast_keys is_issuer keys
         (bs_insert k members, if is_issuer then bs_insert k issuers else issuers))"

fun cast_bindings ::
  "string \<Rightarrow> sexpr list \<Rightarrow> string btset \<times> string btset \<Rightarrow> (string, string btset \<times> string btset) result" where
  "cast_bindings issuer_role [] st = Inr st"
| "cast_bindings issuer_role (b # bs) st = (case b of
       List xs \<Rightarrow> (case xs of
           [] \<Rightarrow> Inl ''malformed cast role''
         | x # keys \<Rightarrow> (case text_of x of
               None \<Rightarrow> Inl ''malformed cast role''
             | Some role \<Rightarrow>
                 bind_result (cast_keys (role = issuer_role) keys st) (cast_bindings issuer_role bs)))
     | _ \<Rightarrow> Inl ''malformed cast'')"

definition read_allocations :: "resource_fact \<Rightarrow> string \<Rightarrow> string \<Rightarrow> string \<Rightarrow> (string, (string, int) btmap) result" where
  "read_allocations op key absent_error invalid_error = (case bt_get (rf_fields op) key of
       None \<Rightarrow> Inl absent_error
     | Some x \<Rightarrow> (case allocations x of Inl _ \<Rightarrow> Inl invalid_error | Inr m \<Rightarrow> Inr m))"

record escrow_instance =
  i_opener :: resource_fact
  i_issuers :: "string btset"
  i_initial :: "(string, int) btmap"
  i_headroom :: "(string, int) btmap option"

definition initial_headroom ::
  "counter_rule \<Rightarrow> resource_fact \<Rightarrow> (string, int) btmap \<Rightarrow> (outcome, (string, int) btmap option) result" where
  "initial_headroom c op initial = (case headroom_key c of
       None \<Rightarrow> Inr None
     | Some key \<Rightarrow>
         (case read_allocations op key ''missing headroom allocations'' ''invalid headroom allocations'' of
            Inr h \<Rightarrow> if bt_keys h = bt_keys initial then Inr (Some h)
              else Inl (Fault ''headroom accounts must match allocations'' [rf_address op])
          | Inl _ \<Rightarrow> Inl (Fault ''headroom accounts must match allocations'' [rf_address op])))"

text \<open>The ceiling is met exactly by the initial rights and headroom.\<close>

definition initial_conserved ::
  "counter_rule \<Rightarrow> resource_fact \<Rightarrow> (string, int) btmap \<Rightarrow> (string, int) btmap option \<Rightarrow> outcome option" where
  "initial_conserved c op initial headroom =
     (case Option.bind (total initial) (\<lambda>v. checked_i128 (v + floor_bound c)) of
        None \<Rightarrow> Some (Fault ''arithmetic overflow'' [rf_address op])
      | Some initial_total \<Rightarrow> (case ceiling_bound c of
            None \<Rightarrow> None
          | Some ceiling \<Rightarrow>
              if ceiling < floor_bound c \<or>
                 Option.bind (Option.bind headroom total) (\<lambda>h. checked_i128 (h + initial_total)) \<noteq> Some ceiling
              then Some (Fault ''initial rights plus headroom must equal ceiling minus floor'' [rf_address op])
              else None))"

definition read_instance ::
  "counter_rule \<Rightarrow> (string, resource_fact) btmap \<Rightarrow> (string \<Rightarrow> bool) \<Rightarrow> (outcome, escrow_instance) result" where
  "read_instance c facts present =
     (case filter (\<lambda>a. rf_verb a = initial_verb c) (bt_values facts) of
        [] \<Rightarrow> Inl (Pending [])
      | op # others \<Rightarrow>
        if others \<noteq> [] then Inl (Fault ''multiple resource openers'' (map rf_address (op # others)))
        else (case rf_predecessors op of
          [pred] \<Rightarrow> (case bt_get facts pred of
              None \<Rightarrow> Inl (if present pred then Fault ''missing authenticated cast'' [pred] else Pending [pred])
            | Some root \<Rightarrow> (case rf_bindings root of
                None \<Rightarrow> Inl (Fault ''missing authenticated cast'' [rf_address root])
              | Some bindings \<Rightarrow> (case cast_bindings (issuer c) bindings ([], []) of
                  Inl e \<Rightarrow> Inl (Fault e [rf_address root])
                | Inr (members, issuers) \<Rightarrow>
                  if rf_signer op \<notin> set members
                  then Inl (Fault ''resource opener signer is outside the cast'' [rf_address op])
                  else (case read_allocations op (initial_key c) ''missing initial allocations''
                              ''invalid initial allocations'' of
                    Inl e \<Rightarrow> Inl (Fault e [rf_address op])
                  | Inr initial \<Rightarrow>
                    if list_ex (\<lambda>k. k \<notin> set members) (bt_keys initial) \<or>
                       list_ex (\<lambda>k. \<not> bt_contains_key initial k) issuers
                    then Inl (Fault ''allocation accounts and issuer cast disagree'' [rf_address op])
                    else bind_result (initial_headroom c op initial) (\<lambda>headroom.
                      case initial_conserved c op initial headroom of
                        Some f \<Rightarrow> Inl f
                      | None \<Rightarrow> Inr \<lparr>i_opener = op, i_issuers = issuers, i_initial = initial,
                                    i_headroom = headroom\<rparr>)))))
        | _ \<Rightarrow> Inl (Fault ''resource opener needs a cast-bearing root'' [rf_address op])))"

section \<open>The operation nodes\<close>

fun read_deps :: "string \<Rightarrow> sexpr list \<Rightarrow> string btset \<Rightarrow> string list \<Rightarrow> (string, string list) result" where
  "read_deps prev [] seen deps = Inr deps"
| "read_deps prev (x # xs) seen deps = (case text_of x of
       None \<Rightarrow> Inl ''invalid escrow dependency''
     | Some dep \<Rightarrow>
         if \<not> (content_address dep \<and> dep \<noteq> prev) then Inl ''invalid escrow dependency''
         else if dep \<in> set seen then Inl ''duplicate escrow dependency''
         else read_deps prev xs (bs_insert dep seen) (deps @ [dep]))"

definition node_recipient ::
  "escrow_instance \<Rightarrow> resource_fact \<Rightarrow> op_kind \<Rightarrow> sexpr option \<Rightarrow> (string, string option) result" where
  "node_recipient inst a kind recipient =
     (if kind = KTransfer \<or> kind = KHeadroom
      then (case Option.bind recipient account_of of
          Some r \<Rightarrow> if bt_contains_key (i_initial inst) r \<and> r \<noteq> rf_signer a then Inr (Some r)
                    else Inl ''invalid resource recipient''
        | None \<Rightarrow> Inl ''invalid resource recipient'')
      else Inr None)"

definition node_links :: "resource_fact \<Rightarrow> (string, string \<times> string list) result" where
  "node_links a = (case Option.bind (bt_get (rf_fields a) PREV) text_of of
       None \<Rightarrow> Inl ''missing escrow previous address''
     | Some prev \<Rightarrow>
         if \<not> content_address prev then Inl ''missing escrow previous address''
         else (case bt_get (rf_fields a) DEPS of
             Some (List xs) \<Rightarrow> bind_result (read_deps prev xs [] []) (\<lambda>deps. Inr (prev, deps))
           | _ \<Rightarrow> Inl ''missing escrow dependencies''))"

definition make_node :: "counter_rule \<Rightarrow> escrow_instance \<Rightarrow> resource_fact \<Rightarrow> (string, escrow_node) result" where
  "make_node c inst a =
     (if rf_thread a \<noteq> rf_thread (i_opener inst) \<or> rf_language a \<noteq> rf_language (i_opener inst) \<or>
         \<not> bt_contains_key (i_initial inst) (rf_signer a)
      then Inl ''foreign resource instance or account''
      else if Option.bind (rf_from a) text_of \<noteq> Some (rf_signer a)
      then Inl ''resource signer disagrees with :from''
      else (case operation c a of
        None \<Rightarrow> Inl ''malformed resource operation''
      | Some (kind, amount_expr, recipient_expr) \<Rightarrow> (case number_of amount_expr of
          None \<Rightarrow> Inl ''resource amount must be positive''
        | Some amount \<Rightarrow>
          if \<not> 0 < amount then Inl ''resource amount must be positive''
          else if kind = KIncrement \<and> rf_signer a \<notin> set (i_issuers inst) then Inl ''unauthorized increment''
          else bind_result (node_recipient inst a kind recipient_expr) (\<lambda>recipient.
               bind_result (node_links a) (\<lambda>(prev, deps).
                 Inr \<lparr>n_fact = a, n_prev = prev, n_deps = deps, n_kind = kind, n_amount = amount,
                      n_recipient = recipient\<rparr>)))))"

type_synonym nodes = "(string, escrow_node) btmap"
type_synonym children = "(string \<times> string, string) btmap"

text \<open>One operation of one owner may follow a given address; a second one is a fork.\<close>

fun nodes_loop ::
  "counter_rule \<Rightarrow> escrow_instance \<Rightarrow> resource_fact list \<Rightarrow> nodes \<Rightarrow> children \<Rightarrow> (outcome, nodes \<times> children) result" where
  "nodes_loop c inst [] nodes children = Inr (nodes, children)"
| "nodes_loop c inst (a # facts) nodes children = (case make_node c inst a of
       Inl e \<Rightarrow> Inl (Fault e [rf_address a])
     | Inr n \<Rightarrow> (case bt_get children (rf_signer a, n_prev n) of
           Some other \<Rightarrow> Inl (Fault ''owner fork'' (sort [other, rf_address a]))
         | None \<Rightarrow> nodes_loop c inst facts (bt_insert (rf_address a) n nodes)
             (bt_insert (rf_signer a, n_prev n) (rf_address a) children)))"

definition operation_facts :: "counter_rule \<Rightarrow> (string, resource_fact) btmap \<Rightarrow> resource_fact list" where
  "operation_facts c facts = filter (\<lambda>a. rf_verb a \<in> set (operation_verbs c)) (bt_values facts)"

fun link_loop ::
  "string \<Rightarrow> nodes \<Rightarrow> (string \<Rightarrow> bool) \<Rightarrow> escrow_node \<Rightarrow> string list \<Rightarrow> string btset \<Rightarrow> (outcome, string btset) result" where
  "link_loop op nodes known n [] missing = Inr missing"
| "link_loop op nodes known n (dep # deps) missing =
     (if dep = op then link_loop op nodes known n deps missing
      else (case bt_get nodes dep of
          Some parent \<Rightarrow>
            if dep = n_prev n \<and> rf_signer (n_fact parent) \<noteq> rf_signer (n_fact n)
            then Inl (Fault ''wrong owner previous link'' [rf_address (n_fact n), dep])
            else link_loop op nodes known n deps missing
        | None \<Rightarrow>
            if known dep then Inl (Fault ''foreign resource dependency'' [rf_address (n_fact n), dep])
            else link_loop op nodes known n deps (bs_insert dep missing)))"

fun links_loop ::
  "string \<Rightarrow> nodes \<Rightarrow> (string \<Rightarrow> bool) \<Rightarrow> escrow_node list \<Rightarrow> string btset \<Rightarrow> (outcome, string btset) result" where
  "links_loop op nodes known [] missing = Inr missing"
| "links_loop op nodes known (n # ns) missing =
     bind_result (link_loop op nodes known n (n_prev n # n_deps n) missing) (links_loop op nodes known ns)"

section \<open>The traversal\<close>

definition dependencies :: "string \<Rightarrow> escrow_node \<Rightarrow> string btset" where
  "dependencies op n = bs_of_list (filter (\<lambda>d. d \<noteq> op) (n_prev n # n_deps n))"

record traversal =
  t_waiting :: "(string, string list) btmap"
  t_remaining :: "(string, nat) btmap"
  t_ready :: "string btset"

definition add_waiting :: "string \<Rightarrow> (string, string list) btmap \<Rightarrow> string \<Rightarrow> (string, string list) btmap" where
  "add_waiting child waiting parent = bt_insert parent (get_or_default waiting parent @ [child]) waiting"

definition enroll :: "string \<Rightarrow> traversal \<Rightarrow> string \<times> escrow_node \<Rightarrow> traversal" where
  "enroll op t an = (case an of (address, n) \<Rightarrow>
     let ds = dependencies op n
     in t\<lparr>t_remaining := bt_insert address (length ds) (t_remaining t),
          t_ready := (if ds = [] then bs_insert address (t_ready t) else t_ready t),
          t_waiting := foldl (add_waiting address) (t_waiting t) ds\<rparr>)"

definition start_traversal :: "string \<Rightarrow> nodes \<Rightarrow> traversal" where
  "start_traversal op nodes = foldl (enroll op) \<lparr>t_waiting = [], t_remaining = [], t_ready = []\<rparr> nodes"

fun merge_tips ::
  "(string, summary) btmap \<Rightarrow> (string \<times> string) list \<Rightarrow> (string, string) btmap \<Rightarrow> (string, string) btmap option" where
  "merge_tips summaries [] tips = Some tips"
| "merge_tips summaries ((owner, tip) # rest) tips = (case bt_get tips owner of
       None \<Rightarrow> merge_tips summaries rest (bt_insert owner tip tips)
     | Some old \<Rightarrow> (case (bt_get summaries old, bt_get summaries tip) of
           (Some so, Some st) \<Rightarrow>
             merge_tips summaries rest
               (if s_sequence so < s_sequence st then bt_insert owner tip tips else tips)
         | _ \<Rightarrow> None))"

fun merge_deps ::
  "string \<Rightarrow> (string, summary) btmap \<Rightarrow> string list \<Rightarrow> (string, string) btmap \<Rightarrow> (string, string) btmap option" where
  "merge_deps op summaries [] tips = Some tips"
| "merge_deps op summaries (dep # deps) tips =
     (if dep = op then merge_deps op summaries deps tips
      else (case bt_get summaries dep of
          None \<Rightarrow> None
        | Some s \<Rightarrow> (case merge_tips summaries (s_tips s) tips of
              None \<Rightarrow> None
            | Some tips' \<Rightarrow> merge_deps op summaries deps tips')))"

definition spends_headroom :: "op_kind \<Rightarrow> bool" where
  "spends_headroom k \<longleftrightarrow> k = KIncrement \<or> k = KHeadroom"

definition admit ::
  "escrow_node \<Rightarrow> string \<Rightarrow> summary \<Rightarrow> (string, string) btmap \<Rightarrow> (string, int \<times> int option) result \<Rightarrow>
    (outcome, summary) result" where
  "admit n address own tips budgets = (case budgets of
       Inl e \<Rightarrow> Inl (Fault e [address])
     | Inr (rights_budget, headroom_budget) \<Rightarrow>
         (let budget = (if spends_headroom (n_kind n) then headroom_budget else Some rights_budget)
          in if (case budget of Some b \<Rightarrow> b < n_amount n | None \<Rightarrow> False)
             then Inl (Fault (if spends_headroom (n_kind n) then ''insufficient headroom''
                              else ''insufficient rights'') [address])
             else (case record_node own n of
                 Inl e \<Rightarrow> Inl (Fault e [address])
               | Inr s \<Rightarrow> Inr (s\<lparr>s_tips := bt_insert (rf_signer (n_fact n)) address tips\<rparr>))))"

definition visit ::
  "escrow_instance \<Rightarrow> nodes \<Rightarrow> (string, summary) btmap \<Rightarrow> string \<Rightarrow> (outcome, summary) result option" where
  "visit inst nodes summaries address =
     (let op = rf_address (i_opener inst) in
      case bt_get nodes address of None \<Rightarrow> None | Some n \<Rightarrow>
      (case (if n_prev n = op then Some summary_default else bt_get summaries (n_prev n)) of
         None \<Rightarrow> None
       | Some own \<Rightarrow> (case merge_deps op summaries (n_deps n) (s_tips own) of
           None \<Rightarrow> None
         | Some tips \<Rightarrow> (case local_budgets (rf_signer (n_fact n)) (i_initial inst) (i_headroom inst) own tips summaries of
             None \<Rightarrow> None
           | Some budgets \<Rightarrow> Some (admit n address own tips budgets)))))"

fun release_children ::
  "string list \<Rightarrow> (string, nat) btmap \<Rightarrow> string btset \<Rightarrow> ((string, nat) btmap \<times> string btset) option" where
  "release_children [] remaining ready = Some (remaining, ready)"
| "release_children (child # children) remaining ready = (case bt_get remaining child of
       Some (Suc count) \<Rightarrow> release_children children (bt_insert child count remaining)
         (if count = 0 then bs_insert child ready else ready)
     | _ \<Rightarrow> None)"

function traverse ::
  "escrow_instance \<Rightarrow> nodes \<Rightarrow> traversal \<Rightarrow> (string, summary) btmap \<Rightarrow> (outcome, (string, summary) btmap) result option" where
  "traverse inst nodes t summaries = (case t_ready t of
       [] \<Rightarrow> Some (Inr summaries)
     | address # ready \<Rightarrow> (case visit inst nodes summaries address of
           None \<Rightarrow> None
         | Some (Inl f) \<Rightarrow> Some (Inl f)
         | Some (Inr s) \<Rightarrow>
             (let summaries' = bt_insert address s summaries
              in case bt_get (t_waiting t) address of
                   None \<Rightarrow> traverse inst nodes (t\<lparr>t_ready := ready\<rparr>) summaries'
                 | Some children \<Rightarrow> (case release_children children (t_remaining t) ready of
                       None \<Rightarrow> None
                     | Some (remaining', ready') \<Rightarrow>
                         traverse inst nodes (t\<lparr>t_waiting := bt_remove address (t_waiting t),
                           t_remaining := remaining', t_ready := ready'\<rparr>) summaries'))))"
  by pat_completeness auto

lemma length_bt_remove_less: "bt_get m k = Some v \<Longrightarrow> length (bt_remove k m) < length m"
  unfolding bt_remove_def by (rule length_filter_less [of "(k, v)"]) (auto dest: map_of_SomeD)

termination traverse
  by (relation "measures [\<lambda>(_, _, t, _). length (t_waiting t), \<lambda>(_, _, t, _). length (t_ready t)]")
     (auto simp: length_bt_remove_less)

declare traverse.simps [simp del]

section \<open>The observation\<close>

fun apply_nodes ::
  "escrow_node list \<Rightarrow> (string, int) btmap \<times> (string, int) btmap option \<Rightarrow>
    (outcome, (string, int) btmap \<times> (string, int) btmap option) result" where
  "apply_nodes [] st = Inr st"
| "apply_nodes (n # ns) st = (case apply_node n st of
       Inl e \<Rightarrow> Inl (Fault e [rf_address (n_fact n)])
     | Inr st' \<Rightarrow> apply_nodes ns st')"

definition owner_tips :: "escrow_node list \<Rightarrow> children \<Rightarrow> (string, string) btmap" where
  "owner_tips ns children = foldl (\<lambda>tips n.
     if bt_contains_key children (rf_signer (n_fact n), rf_address (n_fact n)) then tips
     else bt_insert (rf_signer (n_fact n)) (rf_address (n_fact n)) tips) [] ns"

definition settle :: "counter_rule \<Rightarrow> escrow_instance \<Rightarrow> nodes \<Rightarrow> children \<Rightarrow> outcome" where
  "settle c inst nodes children =
     (case apply_nodes (bt_values nodes) (i_initial inst, i_headroom inst) of
        Inl f \<Rightarrow> f
      | Inr (rights, headroom) \<Rightarrow>
          if list_ex (\<lambda>n. n < 0) (bt_values rights) \<or>
             (case headroom of Some h \<Rightarrow> list_ex (\<lambda>n. n < 0) (bt_values h) | None \<Rightarrow> False)
          then Fault ''negative escrow budget'' (bt_keys nodes)
          else (case Option.bind (total rights) (\<lambda>v. checked_i128 (v + floor_bound c)) of
              None \<Rightarrow> Fault ''arithmetic overflow'' []
            | Some v \<Rightarrow>
                if (case ceiling_bound c of None \<Rightarrow> False | Some ceiling \<Rightarrow>
                      Option.bind (Option.bind headroom total) (\<lambda>h. checked_i128 (v + h)) \<noteq> Some ceiling)
                then Fault ''headroom conservation failure'' []
                else Ready \<lparr>sn_value = v, sn_rights = rights, sn_headroom = headroom,
                            sn_tips = owner_tips (bt_values nodes) children,
                            sn_opener = rf_address (i_opener inst)\<rparr>))"

definition unsupported :: "counter_rule \<Rightarrow> outcome option" where
  "unsupported c =
     (if ownership c = Collective then Some (Fault ''collective counter requires the certificate runtime'' [])
      else if is_quorum (certification c) then Some (Fault
        ''quorum-budget requires an explicit certificate runtime; legacy fold cannot prove finality'' [])
      else None)"

definition observe_facts ::
  "counter_rule \<Rightarrow> (string, resource_fact) btmap \<Rightarrow> (string \<Rightarrow> bool) \<Rightarrow> outcome option" where
  "observe_facts c facts present = (case unsupported c of Some f \<Rightarrow> Some f | None \<Rightarrow>
     (case read_instance c facts present of
        Inl f \<Rightarrow> Some f
      | Inr inst \<Rightarrow> (case nodes_loop c inst (operation_facts c facts) [] [] of
          Inl f \<Rightarrow> Some f
        | Inr (nodes, children) \<Rightarrow>
          (let op = rf_address (i_opener inst);
               known = (\<lambda>dep. bt_contains_key facts dep \<or> present dep)
           in case links_loop op nodes known (bt_values nodes) [] of
             Inl f \<Rightarrow> Some f
           | Inr missing \<Rightarrow>
             if missing \<noteq> [] then Some (Pending missing)
             else (case traverse inst nodes (start_traversal op nodes) [] of
                 None \<Rightarrow> None
               | Some (Inl f) \<Rightarrow> Some f
               | Some (Inr summaries) \<Rightarrow>
                   if length summaries \<noteq> length nodes
                   then Some (Fault ''cyclic escrow dependencies'' (bt_keys nodes))
                   else Some (settle c inst nodes children))))))"

text \<open>The history by address. \<open>Inl\<close>: the first act that is not the view of its message, or that
  conflicts with an earlier one of its address.\<close>

definition same_view :: "act \<Rightarrow> act \<Rightarrow> bool" where
  "same_view a b \<longleftrightarrow> act_address a = act_address b \<and> act_verb a = act_verb b \<and> act_fields a = act_fields b \<and>
     act_predecessors a = act_predecessors b \<and> act_recipients a = act_recipients b"

definition same_identity :: "act \<Rightarrow> act \<Rightarrow> bool" where
  "same_identity prev a \<longleftrightarrow> act_signer prev = act_signer a \<and> act_simple prev = act_simple a \<and>
     lang_of (act_message prev) = lang_of (act_message a) \<and>
     cast_of_message (act_message prev) = cast_of_message (act_message a)"

fun history_loop ::
  "(string \<Rightarrow> string) \<Rightarrow> act list \<Rightarrow> (string, act) btmap \<Rightarrow> (outcome, (string, act) btmap) result" where
  "history_loop sha256 [] m = Inr m"
| "history_loop sha256 (a # acts) m = (case from_message sha256 (act_message a) (act_signer a) of
       Inl e \<Rightarrow> Inl (Fault e [act_address a])
     | Inr rebuilt \<Rightarrow>
         if \<not> same_view a rebuilt then Inl (Fault ''inconsistent act identity'' [act_address a])
         else if (case bt_get m (act_address a) of Some prev \<Rightarrow> \<not> same_identity prev a | None \<Rightarrow> False)
         then Inl (Fault ''conflicting authenticated identity'' [act_address a])
         else history_loop sha256 acts (bt_insert (act_address a) a m))"

definition history_facts :: "(string \<Rightarrow> string) \<Rightarrow> counter_rule \<Rightarrow> (string, act) btmap \<Rightarrow> (string, resource_fact) btmap" where
  "history_facts sha256 c history = bt_of_list
     (map (\<lambda>f. (rf_address f, f)) (List.map_filter (project_unchecked sha256 c) (bt_values history)))"

definition observe :: "(string \<Rightarrow> string) \<Rightarrow> counter_rule \<Rightarrow> act list \<Rightarrow> outcome option" where
  "observe sha256 c acts = (case unsupported c of Some f \<Rightarrow> Some f | None \<Rightarrow>
     (case history_loop sha256 acts [] of
        Inl f \<Rightarrow> Some f
      | Inr history \<Rightarrow> observe_facts c (history_facts sha256 c history) (bt_contains_key history)))"

definition check_candidate :: "(string \<Rightarrow> string) \<Rightarrow> counter_rule \<Rightarrow> act list \<Rightarrow> act \<Rightarrow> outcome option" where
  "check_candidate sha256 c acts candidate = (case observe sha256 c acts of
       Some (Ready _) \<Rightarrow> observe sha256 c (acts @ [candidate])
     | other \<Rightarrow> other)"

section \<open>The order of the history\<close>

text \<open>Acts that are views of their messages and agree on their addresses are one history in every
  order and with every repetition.\<close>

definition coherent :: "(string \<Rightarrow> string) \<Rightarrow> act list \<Rightarrow> bool" where
  "coherent sha256 acts \<longleftrightarrow> (\<forall>a \<in> set acts. genuine sha256 a) \<and> inj_on act_address (set acts)"

lemma bt_values_iff: "bt_sorted m \<Longrightarrow> x \<in> set (bt_values m) \<longleftrightarrow> (\<exists>k. bt_get m k = Some x)"
  unfolding bt_get_eq_Some set_map by force

lemma bt_values_insert_same:
  assumes "bt_sorted m" "\<And>v. bt_get m k = Some v \<Longrightarrow> v = a"
  shows "set (bt_values (bt_insert k a m)) = insert a (set (bt_values m))"
proof (rule set_eqI)
  fix x
  have "(\<exists>k'. bt_get (bt_insert k a m) k' = Some x) \<longleftrightarrow> x = a \<or> (\<exists>k'. bt_get m k' = Some x)"
    unfolding bt_get_insert fun_upd_apply using assms(2) by (metis option.inject)
  then show "x \<in> set (bt_values (bt_insert k a m)) \<longleftrightarrow> x \<in> insert a (set (bt_values m))"
    using bt_values_iff [OF assms(1), of x] bt_values_iff [OF bt_sorted_insert [OF assms(1)], of x k a] by simp
qed

lemma history_loop_coherent:
  assumes "\<forall>a \<in> set acts. genuine sha256 a" "inj_on act_address (set acts \<union> set (bt_values m))"
    "bt_sorted m" "\<forall>(k, a) \<in> set m. k = act_address a"
  shows "\<exists>m'. history_loop sha256 acts m = Inr m' \<and> bt_sorted m' \<and>
     (\<forall>k a. bt_get m' k = Some a \<longleftrightarrow> a \<in> set acts \<union> set (bt_values m) \<and> k = act_address a)"
  using assms
proof (induction acts arbitrary: m)
  case Nil
  then show ?case by (force simp: bt_get_eq_Some)
next
  case (Cons a acts)
  have gen: "from_message sha256 (act_message a) (act_signer a) = Inr a"
    using Cons.prems(1) by (simp add: genuine_def)
  have same: "prev = a" if "bt_get m (act_address a) = Some prev" for prev
  proof -
    have "(act_address a, prev) \<in> set m" using that by (rule map_of_SomeD)
    then have "act_address prev = act_address a" "prev \<in> set (bt_values m)"
      using Cons.prems(4) by force+
    then show ?thesis using inj_onD [OF Cons.prems(2), of prev a] by simp
  qed
  let ?m = "bt_insert (act_address a) a m"
  have vals: "set (bt_values ?m) = insert a (set (bt_values m))"
    by (rule bt_values_insert_same [OF Cons.prems(3) same])
  have "\<forall>(k, b) \<in> set ?m. k = act_address b"
    using Cons.prems(3,4) by (auto simp flip: bt_get_eq_Some split: if_splits)
  then obtain m' where "history_loop sha256 acts ?m = Inr m'" "bt_sorted m'"
    "\<forall>k b. bt_get m' k = Some b \<longleftrightarrow> b \<in> set acts \<union> set (bt_values ?m) \<and> k = act_address b"
    using Cons.IH [of ?m] Cons.prems vals by auto
  moreover have "history_loop sha256 (a # acts) m = history_loop sha256 acts ?m"
    using gen same by (cases "bt_get m (act_address a)") (auto simp: same_view_def same_identity_def)
  ultimately show ?case using vals by auto
qed

lemma observe_cong:
  assumes "coherent sha256 xs" "set xs = set ys"
  shows "observe sha256 c xs = observe sha256 c ys"
proof -
  obtain m where m: "history_loop sha256 xs [] = Inr m" "bt_sorted m"
    "\<forall>k a. bt_get m k = Some a \<longleftrightarrow> a \<in> set xs \<and> k = act_address a"
    using history_loop_coherent [of xs sha256 "[]"] assms(1) by (auto simp: coherent_def)
  obtain n where n: "history_loop sha256 ys [] = Inr n" "bt_sorted n"
    "\<forall>k a. bt_get n k = Some a \<longleftrightarrow> a \<in> set ys \<and> k = act_address a"
    using history_loop_coherent [of ys sha256 "[]"] assms by (auto simp: coherent_def)
  have "bt_get m = bt_get n"
    using m(3) n(3) assms(2) by (metis (no_types) ext not_Some_eq)
  then have "m = n" using m(2) n(2) by (metis bt_sorted_eqI)
  then show ?thesis by (simp only: observe_def m(1) n(1))
qed

section \<open>Balances\<close>

lemma add_balance_eq_Inr:
  "add_balance m k n = Inr m' \<longleftrightarrow> (\<exists>v. bt_get m k = Some v \<and> in_i128 (v + n) \<and> m' = bt_insert k (v + n) m)"
  by (auto simp: add_balance_def result_simps checked_i128_def)

lemma bt_insert_present:
  assumes "bt_sorted m" "bt_get m k = Some v"
  shows "bt_keys (bt_insert k w m) = bt_keys m \<and>
    sum_list (bt_values (bt_insert k w m)) = sum_list (bt_values m) + w - (v :: int)"
  using assms
proof (induction k w m rule: bt_insert.induct)
  case (2 k w k' v' m)
  consider "k = k'" | "k \<noteq> k'" by blast
  then show ?case
  proof cases
    case 1
    then show ?thesis using 2(3) by simp
  next
    case 2
    then have "(k, v) \<in> set m" using \<open>bt_get ((k', v') # m) k = Some v\<close> by (simp add: map_of_SomeD)
    then have "k' < k" using \<open>bt_sorted ((k', v') # m)\<close> by (auto simp: bt_sorted_def)
    moreover have "bt_sorted m" using \<open>bt_sorted ((k', v') # m)\<close> by (simp add: bt_sorted_def)
    ultimately show ?thesis using 2 \<open>bt_get ((k', v') # m) k = Some v\<close>
        \<open>\<lbrakk>\<not> k < k'; k \<noteq> k'; bt_sorted m; bt_get m k = Some v\<rbrakk> \<Longrightarrow> _\<close> by simp
  qed
qed simp

text \<open>The net change of an operation, and of its issuer's and recipient's accounts.\<close>

definition node_net :: "escrow_node \<Rightarrow> int" where
  "node_net n = (case n_kind n of KIncrement \<Rightarrow> n_amount n | KDecrement \<Rightarrow> - n_amount n | _ \<Rightarrow> 0)"

definition rights_delta :: "escrow_node \<Rightarrow> string \<Rightarrow> int" where
  "rights_delta n k =
     (if rf_signer (n_fact n) = k
      then (case n_kind n of KIncrement \<Rightarrow> n_amount n | KHeadroom \<Rightarrow> 0 | _ \<Rightarrow> - n_amount n) else 0) +
     (if n_kind n = KTransfer \<and> n_recipient n = Some k then n_amount n else 0)"

definition headroom_delta :: "escrow_node \<Rightarrow> string \<Rightarrow> int" where
  "headroom_delta n k =
     (if rf_signer (n_fact n) = k
      then (case n_kind n of KDecrement \<Rightarrow> n_amount n | KTransfer \<Rightarrow> 0 | _ \<Rightarrow> - n_amount n) else 0) +
     (if n_kind n = KHeadroom \<and> n_recipient n = Some k then n_amount n else 0)"

text \<open>A ledger moves from one set of balances to another by per-account deltas.\<close>

definition moved :: "(string, int) btmap \<Rightarrow> (string, int) btmap \<Rightarrow> (string \<Rightarrow> int) \<Rightarrow> int \<Rightarrow> bool" where
  "moved m m' delta net \<longleftrightarrow> bt_sorted m' \<and> bt_keys m' = bt_keys m \<and>
     sum_list (bt_values m') = sum_list (bt_values m) + net \<and>
     (\<forall>k v. bt_get m k = Some v \<longrightarrow> bt_get m' k = Some (v + delta k))"

lemma moved_refl: "bt_sorted m \<Longrightarrow> moved m m (\<lambda>_. 0) 0"
  by (simp add: moved_def)

lemma moved_trans: "moved a b d x \<Longrightarrow> moved b c e y \<Longrightarrow> moved a c (\<lambda>k. d k + e k) (x + y)"
  by (simp add: moved_def add.assoc)

lemma add_balance_moved:
  assumes "bt_sorted m" "add_balance m owner n = Inr m'"
  shows "moved m m' (\<lambda>k. if k = owner then n else 0) n"
proof -
  obtain v where v: "bt_get m owner = Some v" "m' = bt_insert owner (v + n) m"
    using assms(2) by (auto simp: add_balance_eq_Inr)
  then show ?thesis using bt_insert_present [OF assms(1) v(1), of "v + n"] assms(1)
    by (simp add: moved_def)
qed

text \<open>The same for an optional ledger.\<close>

definition moved_opt ::
  "(string, int) btmap option \<Rightarrow> (string, int) btmap option \<Rightarrow> (string \<Rightarrow> int) \<Rightarrow> int \<Rightarrow> bool" where
  "moved_opt h h' delta net = (case h of
       None \<Rightarrow> h' = None
     | Some m \<Rightarrow> (case h' of None \<Rightarrow> False | Some m' \<Rightarrow> moved m m' delta net))"

lemma moved_opt_trans: "moved_opt a b d x \<Longrightarrow> moved_opt b c e y \<Longrightarrow> moved_opt a c (\<lambda>k. d k + e k) (x + y)"
  by (auto simp: moved_opt_def moved_trans split: option.splits)

lemma moved_opt_refl: "pred_option bt_sorted h \<Longrightarrow> moved_opt h h (\<lambda>_. 0) 0"
  by (auto simp: moved_opt_def moved_refl split: option.splits)

lemma add_headroom_moved:
  "pred_option bt_sorted h \<Longrightarrow> add_headroom h owner n = Inr h' \<Longrightarrow>
     moved_opt h h' (\<lambda>k. if k = owner then n else 0) n"
  by (cases h) (auto simp: add_headroom_def moved_opt_def result_simps add_balance_moved)

lemma moved_sorted: "moved m m' d x \<Longrightarrow> bt_sorted m'"
  by (simp add: moved_def)

lemma moved_opt_sorted: "moved_opt h h' d x \<Longrightarrow> pred_option bt_sorted h'"
  by (auto simp: moved_opt_def moved_def split: option.splits)

lemma moved_cong: "moved m m' d x \<Longrightarrow> d = e \<Longrightarrow> x = y \<Longrightarrow> moved m m' e y"
  by simp

lemma moved_opt_cong: "moved_opt m m' d x \<Longrightarrow> d = e \<Longrightarrow> x = y \<Longrightarrow> moved_opt m m' e y"
  by simp

lemma apply_node_moved:
  assumes "bt_sorted rights" "pred_option bt_sorted headroom" "apply_node n (rights, headroom) = Inr (r, h)"
  shows "moved rights r (rights_delta n) (node_net n) \<and> moved_opt headroom h (headroom_delta n) (- node_net n)"
proof (cases "n_kind n")
  case KIncrement
  then have b: "add_headroom headroom (rf_signer (n_fact n)) (- n_amount n) = Inr h"
    "add_balance rights (rf_signer (n_fact n)) (n_amount n) = Inr r"
    using assms(3) by (auto simp: apply_node_def Let_def result_simps)
  have "moved rights r (rights_delta n) (node_net n)"
    by (rule moved_cong [OF add_balance_moved [OF assms(1) b(2)]]) (auto simp: KIncrement rights_delta_def node_net_def)
  moreover have "moved_opt headroom h (headroom_delta n) (- node_net n)"
    by (rule moved_opt_cong [OF add_headroom_moved [OF assms(2) b(1)]])
       (auto simp: KIncrement headroom_delta_def node_net_def)
  ultimately show ?thesis ..
next
  case KDecrement
  then have b: "add_headroom headroom (rf_signer (n_fact n)) (n_amount n) = Inr h"
    "add_balance rights (rf_signer (n_fact n)) (- n_amount n) = Inr r"
    using assms(3) by (auto simp: apply_node_def Let_def result_simps)
  have "moved rights r (rights_delta n) (node_net n)"
    by (rule moved_cong [OF add_balance_moved [OF assms(1) b(2)]]) (auto simp: KDecrement rights_delta_def node_net_def)
  moreover have "moved_opt headroom h (headroom_delta n) (- node_net n)"
    by (rule moved_opt_cong [OF add_headroom_moved [OF assms(2) b(1)]])
       (auto simp: KDecrement headroom_delta_def node_net_def)
  ultimately show ?thesis ..
next
  case KTransfer
  then obtain r1 to where r: "add_balance rights (rf_signer (n_fact n)) (- n_amount n) = Inr r1"
    "n_recipient n = Some to" "add_balance r1 to (n_amount n) = Inr r" "h = headroom"
    using assms(3) by (auto simp: apply_node_def Let_def result_simps)
  have m1: "moved rights r1 (\<lambda>k. if k = rf_signer (n_fact n) then - n_amount n else 0) (- n_amount n)"
    by (rule add_balance_moved [OF assms(1) r(1)])
  have "moved rights r (rights_delta n) (node_net n)"
    by (rule moved_cong [OF moved_trans [OF m1 add_balance_moved [OF moved_sorted [OF m1] r(3)]]])
       (auto simp: KTransfer r(2) rights_delta_def node_net_def)
  moreover have "headroom_delta n = (\<lambda>_. 0)" "node_net n = 0"
    by (auto simp: KTransfer headroom_delta_def node_net_def)
  ultimately show ?thesis using moved_opt_refl [OF assms(2)] r(4) by simp
next
  case KHeadroom
  then obtain h0 h1 to h2 where h: "headroom = Some h0" "add_balance h0 (rf_signer (n_fact n)) (- n_amount n) = Inr h1"
    "n_recipient n = Some to" "add_balance h1 to (n_amount n) = Inr h2" "h = Some h2" "r = rights"
    using assms(3) by (auto simp: apply_node_def Let_def result_simps)
  have m1: "moved h0 h1 (\<lambda>k. if k = rf_signer (n_fact n) then - n_amount n else 0) (- n_amount n)"
    using assms(2) h(1) by (intro add_balance_moved [OF _ h(2)]) simp
  have "moved h0 h2 (headroom_delta n) (- node_net n)"
    by (rule moved_cong [OF moved_trans [OF m1 add_balance_moved [OF moved_sorted [OF m1] h(4)]]])
       (auto simp: KHeadroom h(3) headroom_delta_def node_net_def)
  moreover have "rights_delta n = (\<lambda>_. 0)" "node_net n = 0"
    by (auto simp: KHeadroom rights_delta_def node_net_def)
  ultimately show ?thesis using moved_refl [OF assms(1)] h(1,5,6) by (simp add: moved_opt_def)
qed

lemma apply_nodes_moved:
  assumes "bt_sorted rights" "pred_option bt_sorted headroom" "apply_nodes ns (rights, headroom) = Inr (r, h)"
  shows "moved rights r (\<lambda>k. \<Sum>n\<leftarrow>ns. rights_delta n k) (\<Sum>n\<leftarrow>ns. node_net n) \<and>
    moved_opt headroom h (\<lambda>k. \<Sum>n\<leftarrow>ns. headroom_delta n k) (- (\<Sum>n\<leftarrow>ns. node_net n))"
  using assms
proof (induction ns arbitrary: rights headroom)
  case Nil
  then show ?case using moved_refl moved_opt_refl by auto
next
  case (Cons n ns)
  then obtain r1 h1 where 1: "apply_node n (rights, headroom) = Inr (r1, h1)"
    "apply_nodes ns (r1, h1) = Inr (r, h)" by (auto split: sum.splits)
  note m = apply_node_moved [OF Cons.prems(1,2) 1(1)]
  have "bt_sorted r1" "pred_option bt_sorted h1" using m moved_sorted moved_opt_sorted by blast+
  note m' = Cons.IH [OF this 1(2)]
  show ?case
    using moved_trans [of rights r1 _ _ r] moved_opt_trans [of headroom h1 _ _ h] m m' by fastforce
qed

end
