(* ===== verification/Cbcl_Budget.thy ===== *)
theory Cbcl_Budget
  imports Cbcl_Escrow
begin

text \<open>
  The safety of bounded counters over the definitions of \<open>Cbcl_Escrow\<close>. What the checks of
  \<open>observe\<close> establish about the nodes and their links is collected in \<open>well_linked\<close>; the
  traversal keeps an invariant that says which nodes are summarised, what a summary counts and that
  no issuer has spent more than it could see. From this follows that the traversal never reads a
  missing entry and that the balances of every account stay non-negative, whatever the interleaving of
  the issuers.
\<close>

section \<open>The instance\<close>

lemma alloc_loop_nonneg:
  "alloc_loop xs m = Inr m' \<Longrightarrow> bt_sorted m \<Longrightarrow> list_all (\<lambda>n. 0 \<le> n) (bt_values m) \<Longrightarrow>
     bt_sorted m' \<and> list_all (\<lambda>n. 0 \<le> n) (bt_values m')"
proof (induction xs arbitrary: m)
  case (Cons x xs)
  obtain p q where x: "x = List [p, q]"
    using Cons.prems(1) by (auto split: sexpr.splits list.splits)
  then obtain a n where n: "account_of p = Some a" "number_of q = Some n" "0 \<le> n" "\<not> bt_contains_key m a"
    "alloc_loop xs (bt_insert a n m) = Inr m'"
    using Cons.prems(1) by (auto simp: result_simps split: if_splits option.splits)
  have "bt_get m a = None" using n(4) by (simp add: bt_contains_key_def)
  then have "set (bt_values (bt_insert a n m)) = insert n (set (bt_values m))"
    using bt_values_insert_same [OF Cons.prems(2), of a n] by simp
  then show ?case using Cons.IH [OF n(5)] Cons.prems n(3) by (simp add: list_all_iff)
qed simp

lemma read_allocations_nonneg:
  "read_allocations op key e e' = Inr m \<Longrightarrow> bt_sorted m \<and> list_all (\<lambda>n. 0 \<le> n) (bt_values m) \<and>
     (\<exists>x. bt_get (rf_fields op) key = Some x \<and> allocations x = Inr m)"
  using alloc_loop_nonneg [of _ "[]" m]
  by (auto simp: read_allocations_def allocations_def split: option.splits sum.splits sexpr.splits if_splits)

definition wf_instance :: "escrow_instance \<Rightarrow> bool" where
  "wf_instance inst \<longleftrightarrow> bt_sorted (i_initial inst) \<and> list_all (\<lambda>n. 0 \<le> n) (bt_values (i_initial inst)) \<and>
     pred_option (\<lambda>h. bt_sorted h \<and> list_all (\<lambda>n. 0 \<le> n) (bt_values h) \<and> bt_keys h = bt_keys (i_initial inst))
       (i_headroom inst)"

lemma initial_headroom_wf:
  "initial_headroom c op initial = Inr h \<Longrightarrow>
     pred_option (\<lambda>h. bt_sorted h \<and> list_all (\<lambda>n. 0 \<le> n) (bt_values h) \<and> bt_keys h = bt_keys initial) h"
  by (auto simp: initial_headroom_def dest!: read_allocations_nonneg split: option.splits sum.splits if_splits)

lemma read_instance_wf:
  assumes "read_instance c facts present = Inr inst"
  shows "wf_instance inst \<and> i_opener inst \<in> set (bt_values facts) \<and> rf_verb (i_opener inst) = initial_verb c \<and>
    (\<exists>x. bt_get (rf_fields (i_opener inst)) (initial_key c) = Some x \<and> allocations x = Inr (i_initial inst))"
proof -
  obtain op where op: "filter (\<lambda>a. rf_verb a = initial_verb c) (bt_values facts) = [op]"
    using assms by (auto simp: read_instance_def split: list.splits if_splits)
  then have mem: "op \<in> set (bt_values facts)" "rf_verb op = initial_verb c"
    using filter_set [of "\<lambda>a. rf_verb a = initial_verb c" "bt_values facts"] by auto
  obtain pred where pred: "rf_predecessors op = [pred]"
    using assms op by (auto simp: read_instance_def split: list.splits)
  obtain root bindings where root: "bt_get facts pred = Some root" "rf_bindings root = Some bindings"
    using assms op pred by (auto simp: read_instance_def split: option.splits)
  obtain members issuers where st: "cast_bindings (issuer c) bindings ([], []) = Inr (members, issuers)"
    using assms op pred root by (auto simp: read_instance_def split: sum.splits)
  obtain initial headroom where i: "read_allocations op (initial_key c) ''missing initial allocations''
       ''invalid initial allocations'' = Inr initial"
    "initial_headroom c op initial = Inr headroom"
    "inst = \<lparr>i_opener = op, i_issuers = issuers, i_initial = initial, i_headroom = headroom\<rparr>"
    using assms op pred root st
    by (auto simp: read_instance_def result_simps split: sum.splits option.splits if_splits)
  show ?thesis
    using mem i(3) read_allocations_nonneg [OF i(1)] initial_headroom_wf [OF i(2)]
    by (auto simp: wf_instance_def)
qed

section \<open>The nodes\<close>

definition fact_net :: "counter_rule \<Rightarrow> resource_fact \<Rightarrow> int" where
  "fact_net c a = (case operation c a of
       Some (kind, amount, _) \<Rightarrow> (case number_of amount of
           Some n \<Rightarrow> (case kind of KIncrement \<Rightarrow> n | KDecrement \<Rightarrow> - n | _ \<Rightarrow> 0)
         | None \<Rightarrow> 0)
     | None \<Rightarrow> 0)"

definition wf_node :: "escrow_instance \<Rightarrow> escrow_node \<Rightarrow> bool" where
  "wf_node inst n \<longleftrightarrow> 0 < n_amount n \<and> rf_signer (n_fact n) \<in> set (bt_keys (i_initial inst)) \<and>
     (n_kind n = KTransfer \<or> n_kind n = KHeadroom \<longrightarrow>
        (\<exists>r. n_recipient n = Some r \<and> r \<in> set (bt_keys (i_initial inst)) \<and> r \<noteq> rf_signer (n_fact n)))"

lemma node_recipient_Some:
  assumes "node_recipient inst a kind expr = Inr recipient" "kind = KTransfer \<or> kind = KHeadroom"
  shows "\<exists>r. recipient = Some r \<and> r \<in> set (bt_keys (i_initial inst)) \<and> r \<noteq> rf_signer a"
proof (cases "Option.bind expr account_of")
  case None
  then show ?thesis using assms by (simp add: node_recipient_def)
next
  case (Some r)
  then show ?thesis using assms
    by (cases recipient) (auto simp: node_recipient_def bt_contains_key_iff simp del: set_map split: if_splits)
qed

lemma make_node_wf:
  assumes "make_node c inst a = Inr n"
  shows "n_fact n = a \<and> node_net n = fact_net c a \<and> wf_node inst n"
proof -
  obtain kind amount_expr recipient_expr where op: "operation c a = Some (kind, amount_expr, recipient_expr)"
    using assms by (cases "operation c a") (auto simp: make_node_def split: if_splits)
  obtain amount recipient where am: "number_of amount_expr = Some amount" "0 < amount"
    "bt_contains_key (i_initial inst) (rf_signer a)" "node_recipient inst a kind recipient_expr = Inr recipient"
    "n_fact n = a" "n_kind n = kind" "n_amount n = amount" "n_recipient n = recipient"
    using assms op
    by (cases "number_of amount_expr") (auto simp: make_node_def result_simps split: if_splits)
  have "node_net n = fact_net c a" using am op by (cases kind) (simp_all add: node_net_def fact_net_def)
  moreover have "wf_node inst n"
    using am node_recipient_Some [OF am(4)]
    by (auto simp: wf_node_def bt_contains_key_iff simp del: set_map)
  ultimately show ?thesis using am(5) by blast
qed

lemma sum_bt_insert_new:
  "bt_get m k = None \<Longrightarrow> sum_list (map f (bt_values (bt_insert k v m))) = sum_list (map f (bt_values m)) + (f v :: int)"
  by (induction k v m rule: bt_insert.induct) (auto split: if_splits)

text \<open>What the loop over the operation facts has built when it ends.\<close>

definition built :: "counter_rule \<Rightarrow> escrow_instance \<Rightarrow> resource_fact set \<Rightarrow> nodes \<Rightarrow> children \<Rightarrow> bool" where
  "built c inst F nodes children \<longleftrightarrow> bt_sorted nodes \<and> bt_sorted children \<and>
     (\<forall>a n. bt_get nodes a = Some n \<longleftrightarrow> (\<exists>f \<in> F. rf_address f = a \<and> make_node c inst f = Inr n)) \<and>
     (\<forall>s p a. bt_get children (s, p) = Some a \<longleftrightarrow>
        (\<exists>f \<in> F. rf_address f = a \<and> rf_signer f = s \<and> (\<exists>n. make_node c inst f = Inr n \<and> n_prev n = p)))"

lemma built_node:
  "built c inst F nodes children \<Longrightarrow>
     bt_get nodes a = Some n \<longleftrightarrow> (\<exists>f \<in> F. rf_address f = a \<and> make_node c inst f = Inr n)"
  unfolding built_def by blast

lemma built_child:
  "built c inst F nodes children \<Longrightarrow> bt_get children (s, p) = Some a \<longleftrightarrow>
     (\<exists>f \<in> F. rf_address f = a \<and> rf_signer f = s \<and> (\<exists>n. make_node c inst f = Inr n \<and> n_prev n = p))"
  unfolding built_def by blast

lemma built_insert:
  assumes "built c inst F nodes children" "make_node c inst f = Inr n" "rf_address f \<notin> rf_address ` F"
    "bt_get children (rf_signer f, n_prev n) = None"
  shows "built c inst (insert f F) (bt_insert (rf_address f) n nodes)
    (bt_insert (rf_signer f, n_prev n) (rf_address f) children)"
proof -
  have "bt_get (bt_insert (rf_address f) n nodes) a = Some m \<longleftrightarrow>
      (\<exists>g \<in> insert f F. rf_address g = a \<and> make_node c inst g = Inr m)" for a m
  proof (cases "a = rf_address f")
    case True
    then have "\<not> (\<exists>g \<in> F. rf_address g = a)" using assms(3) by (metis image_eqI)
    then show ?thesis using True assms(2) by auto
  next
    case False
    then show ?thesis using built_node [OF assms(1), of a m] by auto
  qed
  moreover have "bt_get (bt_insert (rf_signer f, n_prev n) (rf_address f) children) (s, p) = Some a \<longleftrightarrow>
      (\<exists>g \<in> insert f F. rf_address g = a \<and> rf_signer g = s \<and> (\<exists>m. make_node c inst g = Inr m \<and> n_prev m = p))"
    for s p a
  proof (cases "(s, p) = (rf_signer f, n_prev n)")
    case True
    have "\<not> (\<exists>g \<in> F. rf_signer g = s \<and> (\<exists>m. make_node c inst g = Inr m \<and> n_prev m = p))"
      using built_child [OF assms(1), of s p] assms(4) True by auto
    then show ?thesis using True assms(2) by auto
  next
    case False
    then show ?thesis using built_child [OF assms(1), of s p a] assms(2) by auto
  qed
  moreover have "bt_sorted (bt_insert (rf_address f) n nodes)"
    "bt_sorted (bt_insert (rf_signer f, n_prev n) (rf_address f) children)"
    using assms(1) by (simp_all add: built_def)
  ultimately show ?thesis unfolding built_def by blast
qed

lemma nodes_loop_built:
  assumes "nodes_loop c inst facts nodes children = Inr (nodes', children')" "built c inst F nodes children"
    "distinct (map rf_address facts)" "rf_address ` set facts \<inter> rf_address ` F = {}"
  shows "built c inst (F \<union> set facts) nodes' children' \<and>
    sum_list (map node_net (bt_values nodes')) = sum_list (map node_net (bt_values nodes)) + sum_list (map (fact_net c) facts)"
  using assms
proof (induction facts arbitrary: nodes children F)
  case (Cons f facts)
  obtain n where n: "make_node c inst f = Inr n" "bt_get children (rf_signer f, n_prev n) = None"
    "nodes_loop c inst facts (bt_insert (rf_address f) n nodes)
       (bt_insert (rf_signer f, n_prev n) (rf_address f) children) = Inr (nodes', children')"
    using Cons.prems(1) by (auto split: sum.splits option.splits)
  have fresh: "rf_address f \<notin> rf_address ` F" using Cons.prems(4) by auto
  then have "bt_get nodes (rf_address f) = None"
    using built_node [OF Cons.prems(2)] by (metis image_eqI option.exhaust)
  then have "sum_list (map node_net (bt_values (bt_insert (rf_address f) n nodes))) =
      sum_list (map node_net (bt_values nodes)) + fact_net c f"
    using sum_bt_insert_new [of nodes "rf_address f" node_net n] make_node_wf [OF n(1)] by simp
  moreover have "built c inst (insert f F \<union> set facts) nodes' children' \<and>
      sum_list (map node_net (bt_values nodes')) =
        sum_list (map node_net (bt_values (bt_insert (rf_address f) n nodes))) + sum_list (map (fact_net c) facts)"
    using Cons.prems(3,4) by (intro Cons.IH [OF n(3) built_insert [OF Cons.prems(2) n(1) fresh n(2)]]) auto
  ultimately show ?case by simp
qed simp

section \<open>The links\<close>

definition links_ok :: "string \<Rightarrow> nodes \<Rightarrow> escrow_node \<Rightarrow> string \<Rightarrow> bool" where
  "links_ok op nodes n d \<longleftrightarrow> d = op \<or>
     (\<exists>p. bt_get nodes d = Some p \<and> (d = n_prev n \<longrightarrow> rf_signer (n_fact p) = rf_signer (n_fact n)))"

lemma link_loop_ok:
  "link_loop op nodes known n deps missing = Inr missing' \<Longrightarrow>
     set missing \<subseteq> set missing' \<and> (\<forall>d \<in> set deps. links_ok op nodes n d \<or> d \<in> set missing')"
proof (induction op nodes known n deps missing rule: link_loop.induct)
  case (2 op nodes known n dep deps missing)
  show ?case
  proof (cases "dep = op")
    case True
    then show ?thesis using 2 by (auto simp: links_ok_def)
  next
    case False
    then show ?thesis using 2
      by (cases "bt_get nodes dep") (auto simp: links_ok_def split: if_splits)
  qed
qed simp

lemma links_loop_ok:
  "links_loop op nodes known ns missing = Inr missing' \<Longrightarrow>
     set missing \<subseteq> set missing' \<and>
     (\<forall>n \<in> set ns. \<forall>d \<in> set (n_prev n # n_deps n). links_ok op nodes n d \<or> d \<in> set missing')"
proof (induction ns arbitrary: missing)
  case (Cons n ns)
  then obtain m where m: "link_loop op nodes known n (n_prev n # n_deps n) missing = Inr m"
    "links_loop op nodes known ns m = Inr missing'" by (auto simp: result_simps)
  show ?case using link_loop_ok [OF m(1)] Cons.IH [OF m(2)] by (simp del: link_loop.simps) blast
qed simp

definition well_linked :: "escrow_instance \<Rightarrow> nodes \<Rightarrow> bool" where
  "well_linked inst nodes \<longleftrightarrow> wf_instance inst \<and> bt_sorted nodes \<and>
     (\<forall>a n. bt_get nodes a = Some n \<longrightarrow> rf_address (n_fact n) = a \<and> wf_node inst n \<and>
        (\<forall>d \<in> set (n_prev n # n_deps n). links_ok (rf_address (i_opener inst)) nodes n d)) \<and>
     (\<forall>a b n m. bt_get nodes a = Some n \<longrightarrow> bt_get nodes b = Some m \<longrightarrow>
        rf_signer (n_fact n) = rf_signer (n_fact m) \<longrightarrow> n_prev n = n_prev m \<longrightarrow> a = b)"

lemma well_linkedI:
  assumes "wf_instance inst" "built c inst F nodes children"
    "links_loop (rf_address (i_opener inst)) nodes known (bt_values nodes) [] = Inr []"
  shows "well_linked inst nodes"
proof -
  have sorted: "bt_sorted nodes" using assms(2) by (simp add: built_def)
  have node: "rf_address (n_fact n) = a \<and> wf_node inst n \<and>
      (\<forall>d \<in> set (n_prev n # n_deps n). links_ok (rf_address (i_opener inst)) nodes n d)"
    if get: "bt_get nodes a = Some n" for a n
  proof -
    obtain f where f: "rf_address f = a" "make_node c inst f = Inr n"
      using built_node [OF assms(2)] get by blast
    have "n \<in> set (bt_values nodes)" using get bt_values_iff [OF sorted] by blast
    then have "\<forall>d \<in> set (n_prev n # n_deps n). links_ok (rf_address (i_opener inst)) nodes n d"
      using links_loop_ok [OF assms(3)] by (metis empty_iff list.set(1))
    then show ?thesis using f(1) make_node_wf [OF f(2)] by blast
  qed
  have "a = b" if "bt_get nodes a = Some n" "bt_get nodes b = Some m"
    "rf_signer (n_fact n) = rf_signer (n_fact m)" "n_prev n = n_prev m" for a b n m
  proof -
    have "bt_get children (rf_signer (n_fact n), n_prev n) = Some a"
      "bt_get children (rf_signer (n_fact m), n_prev m) = Some b"
      using built_node [OF assms(2)] built_child [OF assms(2)] that(1,2) make_node_wf by metis+
    then show ?thesis using that by simp
  qed
  then show ?thesis using assms(1) sorted node unfolding well_linked_def by blast
qed

section \<open>What a ready observation has checked\<close>

lemma sum_checked_eq_Some: "sum_checked ns acc = Some v \<Longrightarrow> v = acc + sum_list ns"
  by (induction ns arbitrary: acc) (force simp: checked_i128_def bind_eq_Some_conv split: if_splits)+

lemma total_eq_Some: "total m = Some v \<Longrightarrow> v = sum_list (bt_values m)"
  by (auto simp: total_def dest: sum_checked_eq_Some)

lemma checked_i128_eq_Some: "checked_i128 n = Some v \<longleftrightarrow> in_i128 n \<and> v = n"
  by (auto simp: checked_i128_def)

text \<open>Every stage before the final balances refuses with another outcome than a ready one, and never
  for a negative budget.\<close>

definition refuses :: "outcome \<Rightarrow> bool" where
  "refuses f = (case f of Ready _ \<Rightarrow> False | Pending _ \<Rightarrow> True | Fault e _ \<Rightarrow> e \<noteq> ''negative escrow budget'')"

definition plain_error :: "string \<Rightarrow> bool" where
  "plain_error e \<longleftrightarrow> e \<noteq> ''negative escrow budget''"

lemma refuses_simps [simp]: "refuses (Pending xs)" "refuses (Fault e xs) = plain_error e" "\<not> refuses (Ready s)"
  by (simp_all add: refuses_def plain_error_def)

lemma plain_cast_keys: "cast_keys b keys st = Inl e \<Longrightarrow> plain_error e"
  by (induction b keys st rule: cast_keys.induct) (auto simp: plain_error_def split: option.splits)

lemma plain_cast_bindings: "cast_bindings r bs st = Inl e \<Longrightarrow> plain_error e"
proof (induction r bs st rule: cast_bindings.induct)
  case (2 r b bs st)
  show ?case
  proof (cases "\<exists>x keys role. b = List (x # keys) \<and> text_of x = Some role")
    case True
    then obtain x keys role where b: "b = List (x # keys)" "text_of x = Some role" by blast
    then show ?thesis
      using 2 plain_cast_keys by (cases "cast_keys (role = r) keys st") auto
  next
    case False
    then show ?thesis
      using 2(2) by (auto simp: plain_error_def split: sexpr.splits list.splits option.splits)
  qed
qed simp

lemma plain_initial_headroom: "initial_headroom c op initial = Inl f \<Longrightarrow> refuses f"
  by (auto simp: initial_headroom_def plain_error_def split: option.splits sum.splits if_splits)

lemma plain_initial_conserved: "initial_conserved c op initial h = Some f \<Longrightarrow> refuses f"
  by (auto simp: initial_conserved_def plain_error_def split: option.splits if_splits)

lemma plain_read_allocations:
  "read_allocations op key e e' = Inl e'' \<Longrightarrow> plain_error e \<Longrightarrow> plain_error e' \<Longrightarrow> plain_error e''"
  by (auto simp: read_allocations_def split: option.splits sum.splits)

lemma bind_result_eq_Inl:
  "bind_result r f = Inl e \<longleftrightarrow> r = Inl e \<or> (\<exists>a. r = Inr a \<and> f a = Inl e)"
  by (cases r) auto

lemma plain_read_instance: "read_instance c facts present = Inl f \<Longrightarrow> refuses f"
  unfolding read_instance_def
  by (auto simp: plain_error_def bind_result_eq_Inl
      dest: plain_cast_bindings plain_initial_headroom plain_initial_conserved plain_read_allocations
      split: list.splits option.splits sum.splits if_splits prod.splits)

lemma plain_read_deps: "read_deps prev xs seen deps = Inl e \<Longrightarrow> plain_error e"
  by (induction prev xs seen deps rule: read_deps.induct)
     (auto simp: plain_error_def split: option.splits if_splits)

lemma plain_node_links: "node_links a = Inl e \<Longrightarrow> plain_error e"
proof (cases "Option.bind (bt_get (rf_fields a) PREV) text_of")
  case (Some prev)
  assume e: "node_links a = Inl e"
  show ?thesis
  proof (cases "\<exists>xs. bt_get (rf_fields a) DEPS = Some (List xs)")
    case True
    then show ?thesis using e Some plain_read_deps
      by (auto simp: node_links_def bind_result_eq_Inl plain_error_def split: if_splits)
  next
    case False
    then show ?thesis using e Some
      by (auto simp: node_links_def plain_error_def split: if_splits option.splits sexpr.splits)
  qed
qed (auto simp: node_links_def plain_error_def)

lemma plain_node_recipient: "node_recipient inst a kind expr = Inl e \<Longrightarrow> plain_error e"
  by (auto simp: node_recipient_def plain_error_def split: if_splits option.splits)

lemma plain_make_node:
  assumes "make_node c inst a = Inl e" shows "plain_error e"
proof (cases "operation c a")
  case None
  then show ?thesis using assms by (auto simp: make_node_def plain_error_def split: if_splits)
next
  case (Some op)
  obtain kind amount_expr recipient_expr where op: "op = (kind, amount_expr, recipient_expr)" by (cases op)
  show ?thesis
    using assms Some op
    by (cases "number_of amount_expr")
       (auto simp: make_node_def bind_result_eq_Inl plain_error_def
         dest!: plain_node_links plain_node_recipient split: if_splits)
qed

lemma refuses_nodes_loop: "nodes_loop c inst facts nodes children = Inl f \<Longrightarrow> refuses f"
  by (induction facts arbitrary: nodes children)
     (auto simp: plain_error_def dest!: plain_make_node split: sum.splits option.splits)

lemma refuses_link_loop: "link_loop op nodes known n deps missing = Inl f \<Longrightarrow> refuses f"
  by (induction op nodes known n deps missing rule: link_loop.induct)
     (auto simp: plain_error_def split: if_splits option.splits)

lemma refuses_links_loop: "links_loop op nodes known ns missing = Inl f \<Longrightarrow> refuses f"
  by (induction ns arbitrary: missing) (auto simp: bind_result_eq_Inl dest: refuses_link_loop simp del: link_loop.simps)

lemma plain_add_balance: "add_balance m k n = Inl e \<Longrightarrow> plain_error e"
  by (auto simp: add_balance_def bind_result_eq_Inl ok_or_def plain_error_def split: option.splits)

lemma plain_apply_node: "apply_node n st = Inl e \<Longrightarrow> plain_error e"
  by (auto simp: apply_node_def Let_def bind_result_eq_Inl add_headroom_def ok_or_def plain_error_def
      dest!: plain_add_balance split: prod.splits op_kind.splits option.splits)

lemma refuses_apply_nodes: "apply_nodes ns st = Inl f \<Longrightarrow> refuses f"
  by (induction ns arbitrary: st) (auto dest: plain_apply_node split: sum.splits)

lemma plain_checked_balance: "checked_balance v a b sent = Inl e \<Longrightarrow> plain_error e"
  by (auto simp: checked_balance_def bind_result_eq_Inl ok_or_def plain_error_def split: option.splits)

lemma plain_receive_loop: "receive_loop owner summaries tips b = Some (Inl e) \<Longrightarrow> plain_error e"
  by (induction owner summaries tips b rule: receive_loop.induct)
     (auto simp: plain_error_def split: if_splits option.splits)

lemma plain_local_budgets: "local_budgets owner initial headroom own tips summaries = Some (Inl e) \<Longrightarrow> plain_error e"
  by (auto simp: local_budgets_def dest: plain_checked_balance plain_receive_loop
      split: option.splits sum.splits)

lemma plain_record_node: "record_node s n = Inl e \<Longrightarrow> plain_error e"
  by (auto simp: record_node_def Let_def bind_result_eq_Inl ok_or_def plain_error_def
      split: if_splits op_kind.splits option.splits)

lemma refuses_admit:
  assumes "admit n address own tips budgets = Inl f" "\<And>e. budgets = Inl e \<Longrightarrow> plain_error e"
  shows "refuses f"
  using assms plain_record_node
  by (auto simp: admit_def Let_def plain_error_def split: sum.splits if_splits)

lemma refuses_visit: "visit inst nodes summaries address = Some (Inl f) \<Longrightarrow> refuses f"
  by (auto simp: visit_def Let_def dest!: plain_local_budgets refuses_admit split: option.splits if_splits)

lemma refuses_traverse: "traverse inst nodes t summaries = Some (Inl f) \<Longrightarrow> refuses f"
proof (induction inst nodes t summaries rule: traverse.induct)
  case (1 inst nodes t summaries)
  show ?case
    using 1(3) unfolding traverse.simps [of inst nodes t summaries]
    by (auto simp: Let_def dest: refuses_visit 1(1,2) split: list.splits option.splits sum.splits)
qed

lemma settle_Ready:
  assumes "settle c inst nodes children = Ready s"
  shows "apply_nodes (bt_values nodes) (i_initial inst, i_headroom inst) = Inr (sn_rights s, sn_headroom s) \<and>
    list_all (\<lambda>n. 0 \<le> n) (bt_values (sn_rights s)) \<and>
    pred_option (\<lambda>h. list_all (\<lambda>n. 0 \<le> n) (bt_values h)) (sn_headroom s) \<and>
    sn_value s = sum_list (bt_values (sn_rights s)) + floor_bound c \<and>
    (\<forall>u. ceiling_bound c = Some u \<longrightarrow> (\<exists>h. sn_headroom s = Some h \<and> sn_value s + sum_list (bt_values h) = u))"
proof -
  obtain r h where rh: "apply_nodes (bt_values nodes) (i_initial inst, i_headroom inst) = Inr (r, h)"
    using assms refuses_apply_nodes by (fastforce simp: settle_def refuses_def split: sum.splits)
  have pos: "\<not> list_ex (\<lambda>n. n < 0) (bt_values r)"
    "\<not> (case h of Some h \<Rightarrow> list_ex (\<lambda>n. n < 0) (bt_values h) | None \<Rightarrow> False)"
    using assms rh by (auto simp: settle_def split: if_splits)
  obtain v where v: "Option.bind (total r) (\<lambda>v. checked_i128 (v + floor_bound c)) = Some v"
    using assms rh pos by (cases "Option.bind (total r) (\<lambda>v. checked_i128 (v + floor_bound c))") (auto simp: settle_def)
  have s: "sn_value s = v" "sn_rights s = r" "sn_headroom s = h"
    "\<not> (case ceiling_bound c of None \<Rightarrow> False | Some ceiling \<Rightarrow>
       Option.bind (Option.bind h total) (\<lambda>h. checked_i128 (v + h)) \<noteq> Some ceiling)"
    using assms rh pos v by (auto simp: settle_def split: if_splits)
  have "v = sum_list (bt_values r) + floor_bound c"
    using v by (auto simp: bind_eq_Some_conv checked_i128_eq_Some dest: total_eq_Some)
  moreover have "\<exists>h'. h = Some h' \<and> v + sum_list (bt_values h') = u" if "ceiling_bound c = Some u" for u
    using s(4) that by (auto simp: bind_eq_Some_conv checked_i128_eq_Some dest: total_eq_Some)
  moreover have "pred_option (\<lambda>h. list_all (\<lambda>n. 0 \<le> n) (bt_values h)) h"
    using pos(2) by (cases h) (auto simp: list_all_iff list_ex_iff not_less)
  ultimately show ?thesis
    using rh s pos(1) by (auto simp: list_all_iff list_ex_iff not_less)
qed

text \<open>An observation that no stage refuses has gone through all of them.\<close>

lemma unsupported_refuses: "unsupported c = Some f \<Longrightarrow> refuses f"
  by (auto simp: unsupported_def plain_error_def split: if_splits)

lemma observe_facts_settled:
  assumes "observe_facts c facts present = Some f" "\<not> refuses f"
  obtains inst nodes children summaries where "read_instance c facts present = Inr inst"
    "nodes_loop c inst (operation_facts c facts) [] [] = Inr (nodes, children)"
    "links_loop (rf_address (i_opener inst)) nodes
       (\<lambda>dep. bt_contains_key facts dep \<or> present dep) (bt_values nodes) [] = Inr []"
    "traverse inst nodes (start_traversal (rf_address (i_opener inst)) nodes) [] = Some (Inr summaries)"
    "length summaries = length nodes" "settle c inst nodes children = f"
proof -
  have un: "unsupported c = None"
    using assms unsupported_refuses by (cases "unsupported c") (auto simp: observe_facts_def)
  obtain inst where inst: "read_instance c facts present = Inr inst"
    using assms un plain_read_instance by (cases "read_instance c facts present") (auto simp: observe_facts_def)
  obtain nodes children where nodes: "nodes_loop c inst (operation_facts c facts) [] [] = Inr (nodes, children)"
    using assms un inst refuses_nodes_loop
    by (cases "nodes_loop c inst (operation_facts c facts) [] []") (auto simp: observe_facts_def)
  let ?op = "rf_address (i_opener inst)" and ?known = "\<lambda>dep. bt_contains_key facts dep \<or> present dep"
  obtain missing where missing: "links_loop ?op nodes ?known (bt_values nodes) [] = Inr missing"
    using assms un inst nodes refuses_links_loop
    by (cases "links_loop ?op nodes ?known (bt_values nodes) []") (auto simp: observe_facts_def Let_def)
  have m: "missing = []"
    using assms un inst nodes missing by (cases missing) (auto simp: observe_facts_def Let_def)
  obtain r where r: "traverse inst nodes (start_traversal ?op nodes) [] = Some r"
    using assms un inst nodes missing m
    by (cases "traverse inst nodes (start_traversal ?op nodes) []") (auto simp: observe_facts_def Let_def)
  obtain summaries where s: "r = Inr summaries"
    using assms un inst nodes missing m r refuses_traverse by (cases r) (auto simp: observe_facts_def Let_def)
  have "length summaries = length nodes \<and> settle c inst nodes children = f"
    using assms un inst nodes missing m r s
    by (cases "length summaries = length nodes") (auto simp: observe_facts_def Let_def plain_error_def)
  then show thesis using that inst nodes missing m r s by blast
qed

definition keyed :: "(string, resource_fact) btmap \<Rightarrow> bool" where
  "keyed facts \<longleftrightarrow> bt_sorted facts \<and> (\<forall>(k, f) \<in> set facts. k = rf_address f)"

lemma keyed_history_facts: "keyed (history_facts sha256 c history)"
proof -
  let ?kvs = "map (\<lambda>f. (rf_address f, f)) (List.map_filter (project_unchecked sha256 c) (bt_values history))"
  have "k = rf_address f" if kf: "(k, f) \<in> set (bt_of_list ?kvs)" for k f
  proof -
    have "map_of (rev ?kvs) k = Some f"
      using kf bt_get_eq_Some [OF bt_sorted_of_list] by (metis bt_get_of_list)
    then have "(k, f) \<in> set ?kvs" by (metis map_of_SomeD set_rev)
    then show ?thesis by auto
  qed
  then show ?thesis by (auto simp: keyed_def history_facts_def)
qed

lemma keyed_addresses: "keyed facts \<Longrightarrow> map rf_address (bt_values facts) = bt_keys facts"
  unfolding keyed_def by (induction facts) (auto simp: bt_sorted_def)

lemma distinct_operation_facts: "keyed facts \<Longrightarrow> distinct (map rf_address (operation_facts c facts))"
  unfolding operation_facts_def
  by (metis bt_sorted_distinct distinct_map_filter keyed_addresses keyed_def)

lemma built_empty: "built c inst {} [] []"
  by (simp add: built_def)

lemma observe_settled:
  assumes "observe sha256 c acts = Some f" "\<not> refuses f"
  obtains history where "history_loop sha256 acts [] = Inr history"
    "observe_facts c (history_facts sha256 c history) (bt_contains_key history) = Some f"
proof -
  have un: "unsupported c = None"
    using assms unsupported_refuses by (cases "unsupported c") (auto simp: observe_def)
  have "refuses g" if "history_loop sha256 acts m = Inl g" for g m
    using that
  proof (induction sha256 acts m rule: history_loop.induct)
    case (2 sha256 a acts m)
    show ?case
    proof (cases "from_message sha256 (act_message a) (act_signer a)")
      case (Inl e)
      then have "plain_error e"
        by (auto simp: from_message_def bind_result_eq_Inl ok_or_def plain_error_def split: option.splits)
      then show ?thesis using 2(2) Inl by auto
    next
      case (Inr b)
      then show ?thesis using 2 by (auto simp: plain_error_def split: if_splits)
    qed
  qed simp
  then obtain history where h: "history_loop sha256 acts [] = Inr history"
    using assms un by (cases "history_loop sha256 acts []") (auto simp: observe_def)
  then show thesis using that assms(1) un by (simp add: observe_def)
qed

lemma settled_balances:
  assumes "read_instance c facts present = Inr inst" "keyed facts"
    "nodes_loop c inst (operation_facts c facts) [] [] = Inr (nodes, children)"
    "apply_nodes (bt_values nodes) (i_initial inst, i_headroom inst) = Inr (r, h)"
  shows "sum_list (bt_values r) =
      sum_list (bt_values (i_initial inst)) + sum_list (map (fact_net c) (operation_facts c facts))"
proof -
  have wf: "bt_sorted (i_initial inst)" "pred_option bt_sorted (i_headroom inst)"
    using read_instance_wf [OF assms(1)] by (auto simp: wf_instance_def pred_option_def)
  have "sum_list (map node_net (bt_values nodes)) = sum_list (map (fact_net c) (operation_facts c facts))"
    using nodes_loop_built [OF assms(3) built_empty distinct_operation_facts [OF assms(2)]] by simp
  then show ?thesis using apply_nodes_moved [OF wf assms(4)] by (simp add: moved_def)
qed

end
