(* ===== verification/Cbcl_Traversal.thy ===== *)
theory Cbcl_Traversal
  imports Cbcl_Budget
begin

text \<open>
  The traversal of the operations of a bounded counter: every operation is visited once, after the
  operations it depends on, and no entry it reads is missing. A visit leaves a summary that counts
  exactly the operations of its issuer up to it, and a balance that is not negative.
\<close>

section \<open>Dependencies\<close>

abbreviation opener_address :: "escrow_instance \<Rightarrow> string" where
  "opener_address inst \<equiv> rf_address (i_opener inst)"

definition node_at :: "nodes \<Rightarrow> string \<Rightarrow> escrow_node" where
  "node_at nodes a = the (bt_get nodes a)"

definition signer_at :: "nodes \<Rightarrow> string \<Rightarrow> string" where
  "signer_at nodes a = rf_signer (n_fact (node_at nodes a))"

definition parents :: "escrow_instance \<Rightarrow> nodes \<Rightarrow> string \<Rightarrow> string set" where
  "parents inst nodes a = set (dependencies (opener_address inst) (node_at nodes a))"

lemma set_dependencies: "set (dependencies op n) = set (n_prev n # n_deps n) - {op}"
  by (auto simp: dependencies_def)

lemma length_dependencies: "length (dependencies op n) = card (set (dependencies op n))"
  unfolding dependencies_def using bs_sorted_distinct [OF bs_sorted_of_list] by (metis distinct_card)

lemma dependencies_Nil: "dependencies op n = [] \<longleftrightarrow> set (dependencies op n) = {}"
  by simp

lemma finite_parents [simp]: "finite (parents inst nodes a)"
  by (simp add: parents_def)

lemma well_linked_node:
  "well_linked inst nodes \<Longrightarrow> bt_get nodes a = Some n \<Longrightarrow> rf_address (n_fact n) = a \<and> wf_node inst n \<and>
     (\<forall>d \<in> set (n_prev n # n_deps n). links_ok (opener_address inst) nodes n d)"
  unfolding well_linked_def by blast

lemma well_linked_fork:
  "well_linked inst nodes \<Longrightarrow> bt_get nodes a = Some n \<Longrightarrow> bt_get nodes b = Some m \<Longrightarrow>
     rf_signer (n_fact n) = rf_signer (n_fact m) \<Longrightarrow> n_prev n = n_prev m \<Longrightarrow> a = b"
  unfolding well_linked_def by blast

section \<open>The start of the traversal\<close>

lemma add_waiting_all:
  assumes "distinct ds"
  shows "get_or_default (foldl (add_waiting child) w ds) p =
    get_or_default w p @ (if p \<in> set ds then [child] else [])"
  using assms by (induction ds arbitrary: w) (auto simp: add_waiting_def)

lemma sorted_add_waiting: "bt_sorted w \<Longrightarrow> bt_sorted (foldl (add_waiting child) w ds)"
  by (induction ds arbitrary: w) (auto simp: add_waiting_def)

text \<open>The traversal after enrolling a list of nodes with distinct addresses.\<close>

definition enrolled :: "string \<Rightarrow> nodes \<Rightarrow> traversal \<Rightarrow> bool" where
  "enrolled op ns t \<longleftrightarrow> bt_sorted (t_waiting t) \<and> bt_sorted (t_remaining t) \<and> bs_sorted (t_ready t) \<and>
     (\<forall>p. get_or_default (t_waiting t) p = map fst (filter (\<lambda>(a, n). p \<in> set (dependencies op n)) ns)) \<and>
     (\<forall>(a, n) \<in> set ns. bt_get (t_remaining t) a = Some (card (set (dependencies op n)))) \<and>
     set (t_ready t) = {a. \<exists>n. (a, n) \<in> set ns \<and> set (dependencies op n) = {}}"

lemma enrolled_snoc:
  assumes "enrolled op ns t" "a \<notin> fst ` set ns"
  shows "enrolled op (ns @ [(a, n)]) (enroll op t (a, n))"
proof -
  have dist: "distinct (dependencies op n)"
    unfolding dependencies_def by (rule bs_sorted_distinct) simp
  have "bt_get (t_remaining (enroll op t (a, n))) b = Some (card (set (dependencies op m)))"
    if "(b, m) \<in> set (ns @ [(a, n)])" for b m
  proof (cases "b = a")
    case True
    then have "m = n" using that assms(2) by force
    then show ?thesis using True by (simp add: enroll_def Let_def length_dependencies)
  next
    case False
    then have "(b, m) \<in> set ns" using that by simp
    then show ?thesis using False assms(1) by (auto simp: enrolled_def enroll_def Let_def)
  qed
  then have "\<forall>(b, m) \<in> set (ns @ [(a, n)]).
      bt_get (t_remaining (enroll op t (a, n))) b = Some (card (set (dependencies op m)))" by blast
  moreover have "set (t_ready (enroll op t (a, n))) =
      {b. \<exists>m. (b, m) \<in> set (ns @ [(a, n)]) \<and> set (dependencies op m) = {}}"
    using assms(1) by (auto simp: enrolled_def enroll_def Let_def)
  ultimately show ?thesis
    using assms(1) unfolding enrolled_def
    by (simp add: enroll_def Let_def add_waiting_all [OF dist] sorted_add_waiting del: set_append)
qed

lemma enrolled_all:
  assumes "distinct (map fst ms)" "enrolled op ns t" "fst ` set ms \<inter> fst ` set ns = {}"
  shows "enrolled op (ns @ ms) (foldl (enroll op) t ms)"
  using assms
proof (induction ms arbitrary: ns t)
  case (Cons an ms)
  obtain a n where an: "an = (a, n)" by (cases an)
  have "enrolled op ((ns @ [(a, n)]) @ ms) (foldl (enroll op) (enroll op t (a, n)) ms)"
    using Cons.prems an by (intro Cons.IH enrolled_snoc) auto
  then show ?case using an by simp
qed simp

lemma enrolled_start: "bt_sorted nodes \<Longrightarrow> enrolled op nodes (start_traversal op nodes)"
proof -
  assume "bt_sorted nodes"
  moreover have "enrolled op [] \<lparr>t_waiting = [], t_remaining = [], t_ready = []\<rparr>"
    by (simp add: enrolled_def get_or_default_def)
  ultimately have "enrolled op ([] @ nodes) (start_traversal op nodes)"
    unfolding start_traversal_def by (intro enrolled_all) (simp_all add: bt_sorted_distinct)
  then show ?thesis by simp
qed

section \<open>The shape of the traversal\<close>

definition on_course :: "escrow_instance \<Rightarrow> nodes \<Rightarrow> traversal \<Rightarrow> string set \<Rightarrow> bool" where
  "on_course inst nodes t V \<longleftrightarrow> bt_sorted (t_waiting t) \<and> bs_sorted (t_ready t) \<and> V \<subseteq> set (bt_keys nodes) \<and>
     (\<forall>a \<in> V. parents inst nodes a \<subseteq> V) \<and>
     set (t_ready t) = {a \<in> set (bt_keys nodes). a \<notin> V \<and> parents inst nodes a \<subseteq> V} \<and>
     (\<forall>a \<in> set (bt_keys nodes). bt_get (t_remaining t) a = Some (card (parents inst nodes a - V))) \<and>
     (\<forall>p. p \<notin> V \<longrightarrow> get_or_default (t_waiting t) p = filter (\<lambda>a. p \<in> parents inst nodes a) (bt_keys nodes))"

lemma node_at_mem: "bt_sorted nodes \<Longrightarrow> (a, n) \<in> set nodes \<Longrightarrow> node_at nodes a = n"
  by (simp add: node_at_def flip: bt_get_eq_Some)

lemma on_course_start:
  assumes "bt_sorted nodes"
  shows "on_course inst nodes (start_traversal (opener_address inst) nodes) {}"
proof -
  let ?t = "start_traversal (opener_address inst) nodes"
  have e: "enrolled (opener_address inst) nodes ?t" by (rule enrolled_start [OF assms])
  have par: "parents inst nodes a = set (dependencies (opener_address inst) n)" if "(a, n) \<in> set nodes" for a n
    using node_at_mem [OF assms that] by (simp add: parents_def)
  have "map fst (filter (\<lambda>(a, n). p \<in> set (dependencies (opener_address inst) n)) nodes) =
      filter (\<lambda>a. p \<in> parents inst nodes a) (bt_keys nodes)" for p
    unfolding filter_map by (rule arg_cong [of _ _ "map fst"], rule filter_cong) (auto simp: par)
  moreover have "bt_get (t_remaining ?t) a = Some (card (parents inst nodes a))" if a: "a \<in> set (bt_keys nodes)" for a
  proof -
    obtain n where "(a, n) \<in> set nodes" using a by auto
    then show ?thesis using e par [of a n] unfolding enrolled_def by auto
  qed
  moreover have "set (t_ready ?t) = {a \<in> set (bt_keys nodes). parents inst nodes a = {}}"
  proof -
    have "set (t_ready ?t) = {a. \<exists>n. (a, n) \<in> set nodes \<and> set (dependencies (opener_address inst) n) = {}}"
      using e unfolding enrolled_def by blast
    also have "\<dots> = {a. \<exists>n. (a, n) \<in> set nodes \<and> parents inst nodes a = {}}" using par by metis
    finally show ?thesis by force
  qed
  ultimately show ?thesis using e by (simp add: on_course_def enrolled_def)
qed

lemma release_children_spec:
  assumes "distinct cs" "\<forall>c \<in> set cs. \<exists>n. bt_get remaining c = Some (Suc n)" "bs_sorted ready"
  shows "\<exists>remaining' ready'. release_children cs remaining ready = Some (remaining', ready') \<and> bs_sorted ready' \<and>
    set ready' = set ready \<union> {c \<in> set cs. bt_get remaining c = Some 1} \<and>
    (\<forall>a. bt_get remaining' a = (if a \<in> set cs then map_option (\<lambda>n. n - 1) (bt_get remaining a) else bt_get remaining a))"
  using assms
proof (induction cs arbitrary: remaining ready)
  case (Cons c cs)
  obtain n where n: "bt_get remaining c = Some (Suc n)" using Cons.prems(2) by auto
  let ?rem = "bt_insert c n remaining" and ?ready = "if n = 0 then bs_insert c ready else ready"
  have "\<forall>d \<in> set cs. \<exists>n. bt_get ?rem d = Some (Suc n)" "bs_sorted ?ready" "distinct cs"
    using Cons.prems by auto
  then obtain remaining' ready' where r: "release_children cs ?rem ?ready = Some (remaining', ready')" "bs_sorted ready'"
    "set ready' = set ?ready \<union> {d \<in> set cs. bt_get ?rem d = Some 1}"
    "\<forall>a. bt_get remaining' a = (if a \<in> set cs then map_option (\<lambda>n. n - 1) (bt_get ?rem a) else bt_get ?rem a)"
    using Cons.IH [of ?rem ?ready] by blast
  have c: "c \<notin> set cs" using Cons.prems(1) by simp
  have "{d \<in> set cs. bt_get ?rem d = Some 1} = {d \<in> set cs. bt_get remaining d = Some 1}" using c by auto
  moreover have "set ?ready = set ready \<union> {d. d = c \<and> bt_get remaining d = Some 1}" using n by auto
  ultimately have "set ready' = set ready \<union> {d \<in> set (c # cs). bt_get remaining d = Some 1}"
    using r(3) by auto
  moreover have "bt_get remaining' a =
      (if a \<in> set (c # cs) then map_option (\<lambda>n. n - 1) (bt_get remaining a) else bt_get remaining a)" for a
    using r(4) n c by (cases "a = c") simp_all
  moreover have "release_children (c # cs) remaining ready = Some (remaining', ready')" using r(1) n by simp
  ultimately show ?case using r(2) by blast
qed simp

lemma card_minus_insert:
  assumes "finite A" "x \<in> A" "x \<notin> V"
  shows "card (A - V) = Suc (card (A - insert x V))"
proof -
  have "A - V = insert x (A - insert x V)" using assms(2,3) by blast
  then show ?thesis using assms(1) by (metis DiffD2 card_insert_disjoint finite_Diff insertI1)
qed

lemma on_course_next:
  assumes "on_course inst nodes t V" "t_ready t = x # ready"
  shows "x \<in> set (bt_keys nodes) \<and> x \<notin> V \<and> parents inst nodes x \<subseteq> V"
proof -
  have "x \<in> set (t_ready t)" using assms(2) by simp
  then show ?thesis using assms(1) unfolding on_course_def by blast
qed

text \<open>The nodes that become ready with a visit are those whose last open dependency it was.\<close>

lemma ready_after:
  assumes "on_course inst nodes t V" "t_ready t = x # ready"
  shows "set ready \<union> {c \<in> set (bt_keys nodes). x \<in> parents inst nodes c \<and> card (parents inst nodes c - V) = 1} =
    {a \<in> set (bt_keys nodes). a \<notin> insert x V \<and> parents inst nodes a \<subseteq> insert x V}"
proof -
  have x: "x \<notin> V" "parents inst nodes x \<subseteq> V" using on_course_next [OF assms] by blast+
  have old: "set (x # ready) = {a \<in> set (bt_keys nodes). a \<notin> V \<and> parents inst nodes a \<subseteq> V}"
    using assms unfolding on_course_def by (simp del: set_map)
  have "bs_sorted (x # ready)" using assms by (simp add: on_course_def)
  then have "x \<notin> set ready" by (simp add: bs_sorted_def) (metis less_irrefl)
  then have ready: "set ready = {a \<in> set (bt_keys nodes). a \<notin> V \<and> parents inst nodes a \<subseteq> V} - {x}"
    unfolding old [symmetric] by auto
  have closed: "\<forall>a \<in> V. parents inst nodes a \<subseteq> V" using assms(1) unfolding on_course_def by blast
  have one: "card (parents inst nodes c - V) = 1 \<longleftrightarrow> parents inst nodes c \<subseteq> insert x V"
    if "x \<in> parents inst nodes c" for c
    using card_minus_insert [OF finite_parents that x(1)] by auto
  show ?thesis unfolding ready using one closed x by blast
qed

lemma on_course_step:
  assumes "on_course inst nodes t V" "t_ready t = x # ready" "bt_sorted nodes"
  shows "case bt_get (t_waiting t) x of
      None \<Rightarrow> on_course inst nodes (t\<lparr>t_ready := ready\<rparr>) (insert x V)
    | Some cs \<Rightarrow> \<exists>remaining' ready'. release_children cs (t_remaining t) ready = Some (remaining', ready') \<and>
        on_course inst nodes (t\<lparr>t_waiting := bt_remove x (t_waiting t), t_remaining := remaining',
          t_ready := ready'\<rparr>) (insert x V)"
proof -
  note x = on_course_next [OF assms(1,2)]
  have sorted: "bt_sorted (t_waiting t)" "bs_sorted ready"
    using assms(1,2) by (auto simp: on_course_def bs_sorted_def)
  have rem: "bt_get (t_remaining t) a = Some (card (parents inst nodes a - V))" if "a \<in> set (bt_keys nodes)" for a
    using assms(1) that unfolding on_course_def by blast
  have wait: "get_or_default (t_waiting t) p = filter (\<lambda>a. p \<in> parents inst nodes a) (bt_keys nodes)" if "p \<notin> V" for p
    using assms(1) that unfolding on_course_def by blast
  have V: "insert x V \<subseteq> set (bt_keys nodes)" "\<forall>a \<in> insert x V. parents inst nodes a \<subseteq> insert x V"
    using assms(1) x unfolding on_course_def by blast+
  let ?cs = "filter (\<lambda>a. x \<in> parents inst nodes a) (bt_keys nodes)"
  show ?thesis
  proof (cases "bt_get (t_waiting t) x")
    case None
    then have "?cs = []" using wait [of x] x by (simp add: get_or_default_def)
    then have none: "x \<notin> parents inst nodes a" if "a \<in> set (bt_keys nodes)" for a
      using that by (metis (mono_tags, lifting) filter_empty_conv)
    then have "{c \<in> set (bt_keys nodes). x \<in> parents inst nodes c \<and> card (parents inst nodes c - V) = 1} = {}"
      by blast
    then have "set ready = {a \<in> set (bt_keys nodes). a \<notin> insert x V \<and> parents inst nodes a \<subseteq> insert x V}"
      using ready_after [OF assms(1,2)] by (simp only: Un_empty_right)
    moreover have "bt_get (t_remaining t) a = Some (card (parents inst nodes a - insert x V))"
      if "a \<in> set (bt_keys nodes)" for a
      using rem [OF that] none [OF that] by (simp add: Diff_insert0)
    ultimately show ?thesis using None sorted V wait by (simp add: on_course_def del: set_map)
  next
    case (Some cs)
    then have cs: "cs = ?cs" using wait [of x] x by (simp add: get_or_default_def)
    have mem: "set cs = {c \<in> set (bt_keys nodes). x \<in> parents inst nodes c}" using cs by auto
    have succ: "bt_get (t_remaining t) c = Some (Suc (card (parents inst nodes c - insert x V)))" if "c \<in> set cs" for c
      using rem [of c] card_minus_insert [OF finite_parents, of x inst nodes c V] that mem x by simp
    have "distinct cs" using cs bt_sorted_distinct [OF assms(3)] by simp
    then obtain remaining' ready' where r: "release_children cs (t_remaining t) ready = Some (remaining', ready')"
      "bs_sorted ready'" "set ready' = set ready \<union> {c \<in> set cs. bt_get (t_remaining t) c = Some 1}"
      "\<forall>a. bt_get remaining' a =
        (if a \<in> set cs then map_option (\<lambda>n. n - 1) (bt_get (t_remaining t) a) else bt_get (t_remaining t) a)"
      using release_children_spec [of cs "t_remaining t" ready] succ sorted(2) by blast
    have "{c \<in> set cs. bt_get (t_remaining t) c = Some 1} =
        {c \<in> set (bt_keys nodes). x \<in> parents inst nodes c \<and> card (parents inst nodes c - V) = 1}"
    proof (rule Collect_cong)
      fix c
      show "c \<in> set cs \<and> bt_get (t_remaining t) c = Some 1 \<longleftrightarrow>
          c \<in> set (bt_keys nodes) \<and> x \<in> parents inst nodes c \<and> card (parents inst nodes c - V) = 1"
        using mem rem [of c] by (cases "c \<in> set (bt_keys nodes)") (simp_all del: set_map)
    qed
    then have "set ready' = {a \<in> set (bt_keys nodes). a \<notin> insert x V \<and> parents inst nodes a \<subseteq> insert x V}"
      using r(3) ready_after [OF assms(1,2)] by simp
    moreover have "bt_get remaining' a = Some (card (parents inst nodes a - insert x V))"
      if "a \<in> set (bt_keys nodes)" for a
    proof (cases "a \<in> set cs")
      case True
      then show ?thesis using r(4) succ by simp
    next
      case False
      then have "x \<notin> parents inst nodes a" using mem that by simp
      then show ?thesis using r(4) False rem [OF that] by (simp add: Diff_insert0)
    qed
    moreover have "get_or_default (bt_remove x (t_waiting t)) p = filter (\<lambda>a. p \<in> parents inst nodes a) (bt_keys nodes)"
      if "p \<notin> insert x V" for p
      using wait [of p] that by (simp add: get_or_default_def)
    ultimately show ?thesis using Some sorted V r(1,2) by (simp add: on_course_def del: set_map)
  qed
qed

section \<open>Chains of summaries\<close>

type_synonym summaries = "(string, summary) btmap"

definition summary_at :: "summaries \<Rightarrow> string \<Rightarrow> summary" where
  "summary_at S a = the (bt_get S a)"

definition seq_at :: "summaries \<Rightarrow> string \<Rightarrow> nat" where
  "seq_at S a = s_sequence (summary_at S a)"

definition prev_at :: "nodes \<Rightarrow> string \<Rightarrow> string" where
  "prev_at nodes a = n_prev (node_at nodes a)"

definition chained :: "escrow_instance \<Rightarrow> nodes \<Rightarrow> summaries \<Rightarrow> bool" where
  "chained inst nodes S \<longleftrightarrow> bt_sorted S \<and> set (bt_keys S) \<subseteq> set (bt_keys nodes) \<and>
     (\<forall>a \<in> set (bt_keys S).
        if prev_at nodes a = opener_address inst then seq_at S a = 1
        else prev_at nodes a \<in> set (bt_keys S) \<and> seq_at S a = Suc (seq_at S (prev_at nodes a)))"

lemma bt_key_get: "k \<in> set (bt_keys m) \<longleftrightarrow> (\<exists>v. bt_get m k = Some v)"
  by (metis bt_contains_key_def bt_contains_key_iff not_None_eq)

lemma node_at_get: "a \<in> set (bt_keys nodes) \<Longrightarrow> bt_get nodes a = Some (node_at nodes a)"
  unfolding bt_key_get node_at_def by auto

lemma summary_at_get: "a \<in> set (bt_keys S) \<Longrightarrow> bt_get S a = Some (summary_at S a)"
  unfolding bt_key_get summary_at_def by auto

lemma prev_signer:
  assumes "well_linked inst nodes" "a \<in> set (bt_keys nodes)" "prev_at nodes a \<noteq> opener_address inst"
  shows "prev_at nodes a \<in> set (bt_keys nodes) \<and> signer_at nodes (prev_at nodes a) = signer_at nodes a"
proof -
  have "links_ok (opener_address inst) nodes (node_at nodes a) (prev_at nodes a)"
    using well_linked_node [OF assms(1) node_at_get [OF assms(2)]] by (simp add: prev_at_def)
  then obtain p where "bt_get nodes (prev_at nodes a) = Some p"
    "rf_signer (n_fact p) = rf_signer (n_fact (node_at nodes a))"
    using assms(3) by (auto simp: links_ok_def prev_at_def)
  then show ?thesis unfolding signer_at_def by (metis bt_key_get node_at_def option.sel)
qed

lemma fork_free:
  "well_linked inst nodes \<Longrightarrow> a \<in> set (bt_keys nodes) \<Longrightarrow> b \<in> set (bt_keys nodes) \<Longrightarrow>
     signer_at nodes a = signer_at nodes b \<Longrightarrow> prev_at nodes a = prev_at nodes b \<Longrightarrow> a = b"
  unfolding signer_at_def prev_at_def using well_linked_fork node_at_get by blast

lemma chained_cases:
  assumes "chained inst nodes S" "a \<in> set (bt_keys S)"
  obtains "prev_at nodes a = opener_address inst" "seq_at S a = 1"
  | "prev_at nodes a \<noteq> opener_address inst" "prev_at nodes a \<in> set (bt_keys S)"
    "seq_at S a = Suc (seq_at S (prev_at nodes a))"
  using assms unfolding chained_def by metis

lemma chained_keys: "chained inst nodes S \<Longrightarrow> a \<in> set (bt_keys S) \<Longrightarrow> a \<in> set (bt_keys nodes)"
  unfolding chained_def by blast

lemma seq_pos: "chained inst nodes S \<Longrightarrow> a \<in> set (bt_keys S) \<Longrightarrow> 1 \<le> seq_at S a"
  by (erule chained_cases) auto

lemma seq_inject:
  assumes "well_linked inst nodes" "chained inst nodes S" "a \<in> set (bt_keys S)" "b \<in> set (bt_keys S)"
    "signer_at nodes a = signer_at nodes b" "seq_at S a = seq_at S b"
  shows "a = b"
  using assms(3-)
proof (induction "seq_at S a" arbitrary: a b rule: less_induct)
  case less
  have keys: "a \<in> set (bt_keys nodes)" "b \<in> set (bt_keys nodes)"
    using chained_keys [OF assms(2)] less.prems by blast+
  have "prev_at nodes a = prev_at nodes b"
  proof (rule chained_cases [OF assms(2) less.prems(1)])
    assume a: "prev_at nodes a = opener_address inst" "seq_at S a = 1"
    show ?thesis
      by (rule chained_cases [OF assms(2) less.prems(2)])
         (use a less.prems(4) seq_pos [OF assms(2)] in fastforce)+
  next
    assume a: "prev_at nodes a \<noteq> opener_address inst" "prev_at nodes a \<in> set (bt_keys S)"
      "seq_at S a = Suc (seq_at S (prev_at nodes a))"
    show ?thesis
    proof (rule chained_cases [OF assms(2) less.prems(2)])
      assume b: "prev_at nodes b \<noteq> opener_address inst" "prev_at nodes b \<in> set (bt_keys S)"
        "seq_at S b = Suc (seq_at S (prev_at nodes b))"
      show ?thesis
        using less.hyps [of "prev_at nodes a" "prev_at nodes b"] a b less.prems
          prev_signer [OF assms(1) keys(1) a(1)] prev_signer [OF assms(1) keys(2) b(1)] by simp
    qed (use a less.prems(4) seq_pos [OF assms(2) a(2)] in simp)
  qed
  then show ?case using fork_free [OF assms(1) keys] less.prems(3) by blast
qed

lemma seq_below:
  assumes "well_linked inst nodes" "chained inst nodes S" "a \<in> set (bt_keys S)" "1 \<le> k" "k \<le> seq_at S a"
  shows "\<exists>b \<in> set (bt_keys S). signer_at nodes b = signer_at nodes a \<and> seq_at S b = k"
  using assms(3-)
proof (induction "seq_at S a" arbitrary: a rule: less_induct)
  case less
  show ?case
  proof (cases "k = seq_at S a")
    case True
    then show ?thesis using less.prems by blast
  next
    case False
    show ?thesis
    proof (rule chained_cases [OF assms(2) less.prems(1)])
      assume a: "prev_at nodes a \<noteq> opener_address inst" "prev_at nodes a \<in> set (bt_keys S)"
        "seq_at S a = Suc (seq_at S (prev_at nodes a))"
      show ?thesis
        using less.hyps [of "prev_at nodes a"] a less.prems False
          prev_signer [OF assms(1) chained_keys [OF assms(2) less.prems(1)] a(1)] by auto
    qed (use False less.prems in simp)
  qed
qed

text \<open>An operation that is not summarised comes after every summarised one of its issuer.\<close>

definition next_seq :: "escrow_instance \<Rightarrow> nodes \<Rightarrow> summaries \<Rightarrow> string \<Rightarrow> nat" where
  "next_seq inst nodes S x =
     (if prev_at nodes x = opener_address inst then 1 else Suc (seq_at S (prev_at nodes x)))"

definition visitable :: "escrow_instance \<Rightarrow> nodes \<Rightarrow> summaries \<Rightarrow> string \<Rightarrow> bool" where
  "visitable inst nodes S x \<longleftrightarrow> x \<in> set (bt_keys nodes) \<and> x \<notin> set (bt_keys S) \<and>
     (prev_at nodes x = opener_address inst \<or> prev_at nodes x \<in> set (bt_keys S))"

lemma next_seq_top:
  assumes "well_linked inst nodes" "chained inst nodes S" "visitable inst nodes S x"
    "b \<in> set (bt_keys S)" "signer_at nodes b = signer_at nodes x"
  shows "seq_at S b < next_seq inst nodes S x"
proof (rule ccontr)
  assume "\<not> ?thesis"
  then have "next_seq inst nodes S x \<le> seq_at S b" by simp
  moreover have "1 \<le> next_seq inst nodes S x" by (simp add: next_seq_def)
  ultimately obtain b' where b': "b' \<in> set (bt_keys S)" "signer_at nodes b' = signer_at nodes x"
    "seq_at S b' = next_seq inst nodes S x"
    using seq_below [OF assms(1,2,4)] assms(5) by metis
  have x: "x \<in> set (bt_keys nodes)" "x \<notin> set (bt_keys S)" using assms(3) by (auto simp: visitable_def)
  have "prev_at nodes b' = prev_at nodes x"
  proof (rule chained_cases [OF assms(2) b'(1)])
    assume p: "prev_at nodes b' = opener_address inst" "seq_at S b' = 1"
    have "prev_at nodes x = opener_address inst"
    proof (rule ccontr)
      assume px: "\<not> ?thesis"
      then have "1 \<le> seq_at S (prev_at nodes x)"
        using assms(3) seq_pos [OF assms(2)] by (simp add: visitable_def del: set_map)
      then show False using px p(2) b'(3) by (simp add: next_seq_def)
    qed
    then show ?thesis using p(1) by simp
  next
    assume p: "prev_at nodes b' \<noteq> opener_address inst" "prev_at nodes b' \<in> set (bt_keys S)"
      "seq_at S b' = Suc (seq_at S (prev_at nodes b'))"
    have "1 \<le> seq_at S (prev_at nodes b')" by (rule seq_pos [OF assms(2) p(2)])
    then have px: "prev_at nodes x \<noteq> opener_address inst" using p(3) b'(3) by (auto simp: next_seq_def)
    then have "seq_at S (prev_at nodes b') = seq_at S (prev_at nodes x)" "prev_at nodes x \<in> set (bt_keys S)"
      using p(3) b'(3) assms(3) by (auto simp: next_seq_def visitable_def)
    moreover have "signer_at nodes (prev_at nodes b') = signer_at nodes (prev_at nodes x)"
      using prev_signer [OF assms(1) chained_keys [OF assms(2) b'(1)] p(1)] prev_signer [OF assms(1) x(1) px] b'(2)
      by simp
    ultimately show ?thesis using seq_inject [OF assms(1,2)] p(2) by blast
  qed
  then have "b' = x" using fork_free [OF assms(1) chained_keys [OF assms(2) b'(1)] x(1)] b'(2) by blast
  then show False using b'(1) x(2) by blast
qed

section \<open>What a summary counts\<close>

definition own :: "nodes \<Rightarrow> summaries \<Rightarrow> string \<Rightarrow> string set" where
  "own nodes S a = {b \<in> set (bt_keys S). signer_at nodes b = signer_at nodes a \<and> seq_at S b \<le> seq_at S a}"

text \<open>A quantity of the summaries that adds up a quantity of the operations.\<close>

definition counts :: "nodes \<Rightarrow> summaries \<Rightarrow> (escrow_node \<Rightarrow> int) \<Rightarrow> (summary \<Rightarrow> int) \<Rightarrow> bool" where
  "counts nodes S f g \<longleftrightarrow> (\<forall>a \<in> set (bt_keys S). g (summary_at S a) = (\<Sum>b \<in> own nodes S a. f (node_at nodes b)))"

lemma finite_own [simp]: "finite (own nodes S a)"
  by (simp add: own_def)

lemma summary_at_insert: "summary_at (bt_insert x s S) a = (if a = x then s else summary_at S a)"
  by (simp add: summary_at_def)

lemma seq_at_insert: "seq_at (bt_insert x s S) a = (if a = x then s_sequence s else seq_at S a)"
  by (simp add: seq_at_def summary_at_insert)

lemma chained_insert:
  assumes "well_linked inst nodes" "chained inst nodes S" "visitable inst nodes S x" "s_sequence s = next_seq inst nodes S x"
  shows "chained inst nodes (bt_insert x s S)"
proof -
  have x: "x \<notin> set (bt_keys S)" "x \<in> set (bt_keys nodes)" using assms(3) by (auto simp: visitable_def)
  have "if prev_at nodes a = opener_address inst then seq_at (bt_insert x s S) a = 1
      else prev_at nodes a \<in> set (bt_keys (bt_insert x s S)) \<and>
        seq_at (bt_insert x s S) a = Suc (seq_at (bt_insert x s S) (prev_at nodes a))"
    if a: "a \<in> set (bt_keys (bt_insert x s S))" for a
  proof (cases "a = x")
    case True
    then show ?thesis using assms(3,4) x(1)
      by (auto simp: seq_at_insert next_seq_def visitable_def simp del: set_map)
  next
    case False
    then have "a \<in> set (bt_keys S)" using a by simp
    then show ?thesis
      by (rule chained_cases [OF assms(2)]) (use False x(1) in \<open>auto simp: seq_at_insert simp del: set_map\<close>)
  qed
  moreover have "bt_sorted (bt_insert x s S)" "set (bt_keys (bt_insert x s S)) \<subseteq> set (bt_keys nodes)"
    using assms(2) x(2) by (simp_all add: chained_def del: set_map)
  ultimately show ?thesis unfolding chained_def by blast
qed

lemma own_insert_old:
  assumes "well_linked inst nodes" "chained inst nodes S" "visitable inst nodes S x"
    "s_sequence s = next_seq inst nodes S x" "a \<in> set (bt_keys S)"
  shows "own nodes (bt_insert x s S) a = own nodes S a"
proof -
  have x: "x \<notin> set (bt_keys S)" using assms(3) by (simp add: visitable_def del: set_map)
  then have ax: "a \<noteq> x" using assms(5) by blast
  have "\<not> (signer_at nodes x = signer_at nodes a \<and> s_sequence s \<le> seq_at S a)"
    using next_seq_top [OF assms(1-3,5)] assms(4) by auto
  then show ?thesis using x ax unfolding own_def by (auto simp: seq_at_insert simp del: set_map)
qed

lemma own_insert_new:
  assumes "well_linked inst nodes" "chained inst nodes S" "visitable inst nodes S x"
    "s_sequence s = next_seq inst nodes S x"
  shows "own nodes (bt_insert x s S) x =
    insert x (if prev_at nodes x = opener_address inst then {} else own nodes S (prev_at nodes x))"
proof -
  have x: "x \<notin> set (bt_keys S)" "x \<in> set (bt_keys nodes)" using assms(3) by (simp_all add: visitable_def del: set_map)
  have below: "seq_at S b < s_sequence s" if "b \<in> set (bt_keys S)" "signer_at nodes b = signer_at nodes x" for b
    using next_seq_top [OF assms(1-3) that] assms(4) by simp
  have "own nodes (bt_insert x s S) x = insert x {b \<in> set (bt_keys S). signer_at nodes b = signer_at nodes x}"
    unfolding own_def using x(1) below by (auto simp: seq_at_insert less_imp_le simp del: set_map)
  moreover have "{b \<in> set (bt_keys S). signer_at nodes b = signer_at nodes x} =
      (if prev_at nodes x = opener_address inst then {} else own nodes S (prev_at nodes x))"
  proof (cases "prev_at nodes x = opener_address inst")
    case True
    then have "s_sequence s = 1" using assms(4) by (simp add: next_seq_def)
    then show ?thesis using True below seq_pos [OF assms(2)] by fastforce
  next
    case False
    then have "s_sequence s = Suc (seq_at S (prev_at nodes x))" using assms(4) by (simp add: next_seq_def)
    then show ?thesis using False below prev_signer [OF assms(1) x(2) False]
      unfolding own_def by (auto simp: less_Suc_eq_le)
  qed
  ultimately show ?thesis by simp
qed

lemma counts_insert:
  assumes "well_linked inst nodes" "chained inst nodes S" "visitable inst nodes S x"
    "s_sequence s = next_seq inst nodes S x" "counts nodes S f g"
    "g s = (if prev_at nodes x = opener_address inst then 0 else g (summary_at S (prev_at nodes x))) + f (node_at nodes x)"
  shows "counts nodes (bt_insert x s S) f g"
  unfolding counts_def
proof
  fix a assume a: "a \<in> set (bt_keys (bt_insert x s S))"
  have x: "x \<notin> set (bt_keys S)" using assms(3) by (simp add: visitable_def del: set_map)
  show "g (summary_at (bt_insert x s S) a) = (\<Sum>b \<in> own nodes (bt_insert x s S) a. f (node_at nodes b))"
  proof (cases "a = x")
    case True
    have "x \<notin> own nodes S p" for p using x by (simp add: own_def del: set_map)
    moreover have "g (summary_at S (prev_at nodes x)) = (\<Sum>b \<in> own nodes S (prev_at nodes x). f (node_at nodes b))"
      if "prev_at nodes x \<noteq> opener_address inst"
      using assms(3,5) that by (simp add: visitable_def counts_def del: set_map)
    ultimately show ?thesis
      using True assms(6) own_insert_new [OF assms(1-4)] by (simp add: summary_at_insert)
  next
    case False
    then have "a \<in> set (bt_keys S)" using a by simp
    then show ?thesis
      using False assms(5) own_insert_old [OF assms(1-4)] by (simp add: summary_at_insert counts_def del: set_map)
  qed
qed

lemma counts_mono:
  assumes "counts nodes S f g" "\<And>b. b \<in> set (bt_keys S) \<Longrightarrow> 0 \<le> f (node_at nodes b)"
    "a \<in> set (bt_keys S)" "b \<in> set (bt_keys S)" "signer_at nodes a = signer_at nodes b" "seq_at S a \<le> seq_at S b"
  shows "g (summary_at S a) \<le> g (summary_at S b)"
proof -
  have "own nodes S a \<subseteq> own nodes S b" using assms(5,6) by (auto simp: own_def)
  then have "(\<Sum>b \<in> own nodes S a. f (node_at nodes b)) \<le> (\<Sum>b \<in> own nodes S b. f (node_at nodes b))"
    using assms(2) by (intro sum_mono2) (auto simp: own_def)
  then show ?thesis using assms(1,3,4) by (simp add: counts_def del: set_map)
qed

lemma counts_nonneg:
  assumes "counts nodes S f g" "\<And>b. b \<in> set (bt_keys S) \<Longrightarrow> 0 \<le> f (node_at nodes b)" "a \<in> set (bt_keys S)"
  shows "0 \<le> g (summary_at S a)"
  using assms unfolding counts_def by (metis (no_types, lifting) mem_Collect_eq own_def sum_nonneg)

section \<open>Tips\<close>

definition tips_ok :: "nodes \<Rightarrow> summaries \<Rightarrow> (string, string) btmap \<Rightarrow> bool" where
  "tips_ok nodes S tips \<longleftrightarrow> bt_sorted tips \<and>
     (\<forall>k t. bt_get tips k = Some t \<longrightarrow> t \<in> set (bt_keys S) \<and> signer_at nodes t = k)"

definition grows :: "summaries \<Rightarrow> (string, string) btmap \<Rightarrow> (string, string) btmap \<Rightarrow> bool" where
  "grows S tips tips' \<longleftrightarrow> (\<forall>k t. bt_get tips k = Some t \<longrightarrow>
     (\<exists>t'. bt_get tips' k = Some t' \<and> seq_at S t \<le> seq_at S t'))"

lemma grows_refl [simp]: "grows S tips tips"
  by (simp add: grows_def)

lemma grows_trans: "grows S a b \<Longrightarrow> grows S b c \<Longrightarrow> grows S a c"
  unfolding grows_def by (meson order_trans)

lemma tips_ok_insert:
  "tips_ok nodes S tips \<Longrightarrow> t \<in> set (bt_keys S) \<Longrightarrow> signer_at nodes t = k \<Longrightarrow> tips_ok nodes S (bt_insert k t tips)"
  unfolding tips_ok_def by simp

lemma tips_ok_mem: "tips_ok nodes S tips \<Longrightarrow> (k, t) \<in> set tips \<Longrightarrow> t \<in> set (bt_keys S) \<and> signer_at nodes t = k"
proof -
  assume ok: "tips_ok nodes S tips" and "(k, t) \<in> set tips"
  then have "bt_get tips k = Some t" using bt_get_eq_Some [of tips k t] by (simp add: tips_ok_def)
  then show ?thesis using ok unfolding tips_ok_def by blast
qed

lemma merge_tips_ok:
  assumes "tips_ok nodes S tips" "\<forall>(k, t) \<in> set ps. t \<in> set (bt_keys S) \<and> signer_at nodes t = k"
  shows "\<exists>tips'. merge_tips S ps tips = Some tips' \<and> tips_ok nodes S tips' \<and> grows S tips tips'"
  using assms
proof (induction ps arbitrary: tips)
  case (Cons p ps)
  obtain k t where p: "p = (k, t)" by (cases p)
  have t: "t \<in> set (bt_keys S)" "signer_at nodes t = k" using Cons.prems(2) p by auto
  have rest: "\<forall>(k, t) \<in> set ps. t \<in> set (bt_keys S) \<and> signer_at nodes t = k" using Cons.prems(2) by auto
  have ins: "tips_ok nodes S (bt_insert k t tips)" by (rule tips_ok_insert [OF Cons.prems(1) t])
  show ?case
  proof (cases "bt_get tips k")
    case None
    then have "grows S tips (bt_insert k t tips)" by (auto simp: grows_def)
    moreover obtain tips' where "merge_tips S ps (bt_insert k t tips) = Some tips'" "tips_ok nodes S tips'"
      "grows S (bt_insert k t tips) tips'"
      using Cons.IH [OF ins rest] by blast
    ultimately show ?thesis using None p grows_trans by auto
  next
    case (Some old)
    then have old: "old \<in> set (bt_keys S)" using Cons.prems(1) unfolding tips_ok_def by blast
    let ?tips = "if seq_at S old < seq_at S t then bt_insert k t tips else tips"
    have ok: "tips_ok nodes S ?tips" using ins Cons.prems(1) by simp
    have "grows S tips ?tips" using Some by (auto simp: grows_def)
    moreover obtain tips' where "merge_tips S ps ?tips = Some tips'" "tips_ok nodes S tips'" "grows S ?tips tips'"
      using Cons.IH [OF ok rest] by blast
    moreover have "merge_tips S (p # ps) tips = merge_tips S ps ?tips"
      using Some p summary_at_get [OF old] summary_at_get [OF t(1)] by (simp add: seq_at_def)
    ultimately show ?thesis using grows_trans by metis
  qed
qed simp

lemma merge_deps_ok:
  assumes "tips_ok nodes S tips" "\<forall>d \<in> set deps. d = op \<or> d \<in> set (bt_keys S)"
    "\<forall>a \<in> set (bt_keys S). tips_ok nodes S (s_tips (summary_at S a))"
  shows "\<exists>tips'. merge_deps op S deps tips = Some tips' \<and> tips_ok nodes S tips' \<and> grows S tips tips'"
  using assms(1,2)
proof (induction deps arbitrary: tips)
  case (Cons d deps)
  show ?case
  proof (cases "d = op")
    case True
    then show ?thesis using Cons by simp
  next
    case False
    then have d: "d \<in> set (bt_keys S)" using Cons.prems(2) by simp
    then have "tips_ok nodes S (s_tips (summary_at S d))" using assms(3) by blast
    then have "\<forall>(k, t) \<in> set (s_tips (summary_at S d)). t \<in> set (bt_keys S) \<and> signer_at nodes t = k"
      using tips_ok_mem by blast
    then obtain t1 where t1: "merge_tips S (s_tips (summary_at S d)) tips = Some t1" "tips_ok nodes S t1" "grows S tips t1"
      using merge_tips_ok [OF Cons.prems(1)] by blast
    moreover obtain t2 where "merge_deps op S deps t1 = Some t2" "tips_ok nodes S t2" "grows S t1 t2"
      using Cons.IH [OF t1(2)] Cons.prems(2) by auto
    ultimately show ?thesis using False summary_at_get [OF d] grows_trans by auto
  qed
qed simp

section \<open>Budgets\<close>

text \<open>What an account has been sent by the operations at the given tips.\<close>

definition received :: "summaries \<Rightarrow> string \<Rightarrow> (summary \<Rightarrow> int) \<Rightarrow> (string, string) btmap \<Rightarrow> int" where
  "received S owner g tips = (\<Sum>(k, t) \<leftarrow> tips. if k = owner then 0 else g (summary_at S t))"

lemma received_sum:
  assumes "bt_sorted tips"
  shows "received S owner g tips = (\<Sum>k \<in> set (bt_keys tips) - {owner}. g (summary_at S (the (bt_get tips k))))"
proof -
  let ?f = "\<lambda>k. if k = owner then 0 else g (summary_at S (the (bt_get tips k)))"
  have dist: "distinct (bt_keys tips)" by (rule bt_sorted_distinct [OF assms])
  have "received S owner g tips = (\<Sum>p \<leftarrow> tips. ?f (fst p))"
    unfolding received_def by (rule arg_cong [of _ _ sum_list], rule map_cong) (auto simp: dist)
  also have "\<dots> = (\<Sum>k \<leftarrow> bt_keys tips. ?f k)" by (simp add: comp_def)
  also have "\<dots> = (\<Sum>k \<in> set (bt_keys tips). ?f k)" by (rule sum_list_distinct_conv_sum_set [OF dist])
  also have "\<dots> = (\<Sum>k \<in> set (bt_keys tips) - {owner}. g (summary_at S (the (bt_get tips k))))"
    by (rule sum.mono_neutral_cong_right) auto
  finally show ?thesis .
qed

lemma received_mono:
  assumes "tips_ok nodes S tips" "tips_ok nodes S tips'" "grows S tips tips'" "counts nodes S f g"
    "\<And>b. b \<in> set (bt_keys S) \<Longrightarrow> 0 \<le> f (node_at nodes b)"
  shows "received S owner g tips \<le> received S owner g tips'"
proof -
  have sorted: "bt_sorted tips" "bt_sorted tips'" using assms(1,2) by (auto simp: tips_ok_def)
  have sub: "set (bt_keys tips) \<subseteq> set (bt_keys tips')"
    using assms(3) unfolding grows_def by (meson bt_key_get subsetI)
  have le: "g (summary_at S (the (bt_get tips k))) \<le> g (summary_at S (the (bt_get tips' k)))"
    if k: "k \<in> set (bt_keys tips)" for k
  proof -
    obtain t where t: "bt_get tips k = Some t" using k bt_key_get by metis
    then obtain t' where t': "bt_get tips' k = Some t'" "seq_at S t \<le> seq_at S t'"
      using assms(3) unfolding grows_def by blast
    then show ?thesis using assms(1,2) t counts_mono [OF assms(4,5), of t t'] unfolding tips_ok_def by auto
  qed
  have nn: "0 \<le> g (summary_at S (the (bt_get tips' k)))" if k: "k \<in> set (bt_keys tips')" for k
  proof -
    obtain t where "bt_get tips' k = Some t" using k bt_key_get by metis
    then show ?thesis using assms(2) counts_nonneg [OF assms(4,5)] unfolding tips_ok_def by auto
  qed
  have "(\<Sum>k \<in> set (bt_keys tips) - {owner}. g (summary_at S (the (bt_get tips k)))) \<le>
      (\<Sum>k \<in> set (bt_keys tips) - {owner}. g (summary_at S (the (bt_get tips' k))))"
    using le by (intro sum_mono) blast
  also have "\<dots> \<le> (\<Sum>k \<in> set (bt_keys tips') - {owner}. g (summary_at S (the (bt_get tips' k))))"
    using sub nn by (intro sum_mono2) auto
  finally show ?thesis using received_sum [OF sorted(1)] received_sum [OF sorted(2)] by simp
qed

lemma receive_loop_total:
  "\<forall>(k, t) \<in> set tips. t \<in> set (bt_keys S) \<Longrightarrow> receive_loop owner S tips b \<noteq> None"
proof (induction owner S tips b rule: receive_loop.induct)
  case (2 owner S other tip tips rights space)
  have tip: "bt_get S tip = Some (summary_at S tip)" using 2(4) by (intro summary_at_get) simp
  have rest: "\<forall>(k, t) \<in> set tips. t \<in> set (bt_keys S)" using 2(4) by simp
  show ?case using 2(1-3) tip rest by (auto split: option.splits)
qed simp

lemma receive_loop_sum:
  "receive_loop owner S tips (r, h) = Some (Inr (r', h')) \<Longrightarrow>
     r' = r + received S owner (\<lambda>s. get_or_zero (s_sent_rights s) owner) tips \<and>
     h' = map_option (\<lambda>v. v + received S owner (\<lambda>s. get_or_zero (s_sent_headroom s) owner) tips) h"
proof (induction owner S tips "(r, h)" arbitrary: r h rule: receive_loop.induct)
  case (1 owner S)
  then show ?case by (cases h) (auto simp: received_def)
next
  case (2 owner S other tip tips r h)
  show ?case
  proof (cases "other = owner")
    case True
    then show ?thesis using 2(1,4) by (simp add: received_def)
  next
    case False
    then obtain s where s: "bt_get S tip = Some s" using 2(4) by (cases "bt_get S tip") auto
    then have at: "summary_at S tip = s" by (simp add: summary_at_def)
    let ?r = "r + get_or_zero (s_sent_rights s) owner"
    have r: "checked_i128 ?r = Some ?r"
      using 2(4) False s by (cases "checked_i128 ?r") (auto simp: checked_i128_eq_Some)
    show ?thesis
    proof (cases h)
      case None
      then show ?thesis using 2(2) [OF False s r None] 2(4) False s r at by (simp add: received_def)
    next
      case (Some v)
      let ?v = "v + get_or_zero (s_sent_headroom s) owner"
      have v: "checked_i128 ?v = Some ?v"
        using 2(4) False s r Some by (cases "checked_i128 ?v") (auto simp: checked_i128_eq_Some)
      then show ?thesis using 2(3) [OF False s r Some v] 2(4) False s r at Some by (simp add: received_def)
    qed
  qed
qed

lemma received_old:
  assumes "tips_ok nodes S tips" "x \<notin> set (bt_keys S)"
  shows "received (bt_insert x s S) owner g tips = received S owner g tips"
  unfolding received_def
proof (rule arg_cong [of _ _ sum_list], rule map_cong)
  fix p assume "p \<in> set tips"
  then have "snd p \<noteq> x" using tips_ok_mem [OF assms(1), of "fst p" "snd p"] assms(2) by auto
  then show "(case p of (k, t) \<Rightarrow> if k = owner then 0 else g (summary_at (bt_insert x s S) t)) =
      (case p of (k, t) \<Rightarrow> if k = owner then 0 else g (summary_at S t))"
    by (cases p) (simp add: summary_at_insert)
qed simp

lemma received_own_tip:
  assumes "bt_sorted tips"
  shows "received S owner g (bt_insert owner x tips) = received S owner g tips"
  unfolding received_sum [OF assms] received_sum [OF bt_sorted_insert [OF assms]]
  by (rule sum.cong) auto

lemma checked_balance_sum:
  "checked_balance v a b sent = Inr w \<Longrightarrow> w = v + a - b - sum_list (bt_values sent)"
  by (auto simp: checked_balance_def result_simps checked_i128_eq_Some bind_eq_Some_conv dest!: total_eq_Some)

lemma local_budgets_sum:
  assumes "local_budgets owner initial headroom s tips S = Some (Inr (rb, hb))" "bt_get initial owner = Some v"
  shows "rb = v + s_credited s - s_debited s - sum_list (bt_values (s_sent_rights s)) +
      received S owner (\<lambda>s. get_or_zero (s_sent_rights s) owner) tips \<and>
    (\<forall>h w. headroom = Some h \<longrightarrow> bt_get h owner = Some w \<longrightarrow>
       hb = Some (w + s_debited s - s_credited s - sum_list (bt_values (s_sent_headroom s)) +
         received S owner (\<lambda>s. get_or_zero (s_sent_headroom s) owner) tips))"
proof -
  obtain r where r: "checked_balance v (s_credited s) (s_debited s) (s_sent_rights s) = Inr r"
    using assms by (cases "checked_balance v (s_credited s) (s_debited s) (s_sent_rights s)") (auto simp: local_budgets_def)
  show ?thesis
  proof (cases headroom)
    case None
    then show ?thesis
      using assms r checked_balance_sum [OF r] receive_loop_sum [of owner S tips r None rb hb]
      by (simp add: local_budgets_def)
  next
    case (Some h)
    then obtain w where w: "bt_get h owner = Some w"
      using assms r by (cases "bt_get h owner") (auto simp: local_budgets_def)
    then obtain sp where sp: "checked_balance w (s_debited s) (s_credited s) (s_sent_headroom s) = Inr sp"
      using assms r Some
      by (cases "checked_balance w (s_debited s) (s_credited s) (s_sent_headroom s)") (auto simp: local_budgets_def)
    then show ?thesis
      using assms r w Some checked_balance_sum [OF r] checked_balance_sum [OF sp]
        receive_loop_sum [of owner S tips r "Some sp" rb hb]
      by (simp add: local_budgets_def)
  qed
qed

lemma headroom_account:
  assumes "wf_instance inst" "i_headroom inst = Some h" "owner \<in> set (bt_keys (i_initial inst))"
  shows "\<exists>w. bt_get h owner = Some w"
proof -
  have "bt_keys h = bt_keys (i_initial inst)" using assms(1,2) by (simp add: wf_instance_def)
  then show ?thesis using assms(3) by (simp only: bt_key_get [symmetric])
qed

lemma local_budgets_total:
  assumes "tips_ok nodes S tips" "wf_instance inst" "owner \<in> set (bt_keys (i_initial inst))"
  shows "local_budgets owner (i_initial inst) (i_headroom inst) s tips S \<noteq> None"
proof -
  obtain v where v: "bt_get (i_initial inst) owner = Some v" using assms(3) bt_key_get by metis
  have h: "\<exists>w. bt_get h owner = Some w" if "i_headroom inst = Some h" for h
    by (rule headroom_account [OF assms(2) that assms(3)])
  have loop: "receive_loop owner S tips b \<noteq> None" for b
  proof (rule receive_loop_total)
    show "\<forall>(k, t) \<in> set tips. t \<in> set (bt_keys S)" using tips_ok_mem [OF assms(1)] by blast
  qed
  show ?thesis
    using v h loop
    by (cases "checked_balance v (s_credited s) (s_debited s) (s_sent_rights s)"; cases "i_headroom inst")
       (force simp: local_budgets_def split: sum.splits)+
qed

section \<open>The invariant of the traversal\<close>

definition increments :: "escrow_node \<Rightarrow> int" where
  "increments n = (if n_kind n = KIncrement then n_amount n else 0)"
definition decrements :: "escrow_node \<Rightarrow> int" where
  "decrements n = (if n_kind n = KDecrement then n_amount n else 0)"
definition sends :: "op_kind \<Rightarrow> escrow_node \<Rightarrow> int" where
  "sends k n = (if n_kind n = k then n_amount n else 0)"
definition sends_to :: "op_kind \<Rightarrow> string \<Rightarrow> escrow_node \<Rightarrow> int" where
  "sends_to k r n = (if n_kind n = k \<and> n_recipient n = Some r then n_amount n else 0)"

definition summed :: "nodes \<Rightarrow> summaries \<Rightarrow> bool" where
  "summed nodes S \<longleftrightarrow> counts nodes S increments s_credited \<and> counts nodes S decrements s_debited \<and>
     counts nodes S (sends KTransfer) (\<lambda>s. sum_list (bt_values (s_sent_rights s))) \<and>
     counts nodes S (sends KHeadroom) (\<lambda>s. sum_list (bt_values (s_sent_headroom s))) \<and>
     (\<forall>r. counts nodes S (sends_to KTransfer r) (\<lambda>s. get_or_zero (s_sent_rights s) r)) \<and>
     (\<forall>r. counts nodes S (sends_to KHeadroom r) (\<lambda>s. get_or_zero (s_sent_headroom s) r)) \<and>
     (\<forall>a \<in> set (bt_keys S). bt_sorted (s_sent_rights (summary_at S a)) \<and> bt_sorted (s_sent_headroom (summary_at S a)))"

definition rights_after :: "escrow_instance \<Rightarrow> summaries \<Rightarrow> string \<Rightarrow> summary \<Rightarrow> (string, string) btmap \<Rightarrow> int" where
  "rights_after inst S owner s tips = the (bt_get (i_initial inst) owner) + s_credited s - s_debited s -
     sum_list (bt_values (s_sent_rights s)) + received S owner (\<lambda>s. get_or_zero (s_sent_rights s) owner) tips"

definition headroom_after :: "(string, int) btmap \<Rightarrow> summaries \<Rightarrow> string \<Rightarrow> summary \<Rightarrow> (string, string) btmap \<Rightarrow> int" where
  "headroom_after h S owner s tips = the (bt_get h owner) + s_debited s - s_credited s -
     sum_list (bt_values (s_sent_headroom s)) + received S owner (\<lambda>s. get_or_zero (s_sent_headroom s) owner) tips"

definition solvent :: "escrow_instance \<Rightarrow> summaries \<Rightarrow> string \<Rightarrow> summary \<Rightarrow> (string, string) btmap \<Rightarrow> bool" where
  "solvent inst S owner s tips \<longleftrightarrow> 0 \<le> rights_after inst S owner s tips \<and>
     (\<forall>h. i_headroom inst = Some h \<longrightarrow> 0 \<le> headroom_after h S owner s tips)"

definition sound_summaries :: "escrow_instance \<Rightarrow> nodes \<Rightarrow> summaries \<Rightarrow> bool" where
  "sound_summaries inst nodes S \<longleftrightarrow> chained inst nodes S \<and> summed nodes S \<and>
     (\<forall>a \<in> set (bt_keys S). tips_ok nodes S (s_tips (summary_at S a)) \<and>
        solvent inst S (signer_at nodes a) (summary_at S a) (s_tips (summary_at S a)))"

lemma sound_summaries_empty: "sound_summaries inst nodes []"
  by (simp add: sound_summaries_def chained_def summed_def counts_def)

lemma get_or_zero_insert: "get_or_zero (bt_insert k v m) r = (if r = k then v else get_or_zero m r)"
  by (simp add: get_or_zero_def)

lemma sum_values_set:
  assumes "bt_sorted m"
  shows "sum_list (bt_values (bt_insert k (get_or_zero m k + n) m)) = sum_list (bt_values m) + n"
proof (cases "bt_get m k")
  case None
  then show ?thesis using sum_bt_insert_new [of m k "\<lambda>x. x"] by (simp add: get_or_zero_def)
next
  case (Some v)
  then show ?thesis using bt_insert_present [OF assms Some] by (simp add: get_or_zero_def)
qed

lemma record_node_spec:
  assumes "record_node s n = Inr s'" "bt_sorted (s_sent_rights s)" "bt_sorted (s_sent_headroom s)"
  shows "s_sequence s' = Suc (s_sequence s) \<and> s_credited s' = s_credited s + increments n \<and>
    s_debited s' = s_debited s + decrements n \<and>
    sum_list (bt_values (s_sent_rights s')) = sum_list (bt_values (s_sent_rights s)) + sends KTransfer n \<and>
    sum_list (bt_values (s_sent_headroom s')) = sum_list (bt_values (s_sent_headroom s)) + sends KHeadroom n \<and>
    (\<forall>r. get_or_zero (s_sent_rights s') r = get_or_zero (s_sent_rights s) r + sends_to KTransfer r n) \<and>
    (\<forall>r. get_or_zero (s_sent_headroom s') r = get_or_zero (s_sent_headroom s) r + sends_to KHeadroom r n) \<and>
    bt_sorted (s_sent_rights s') \<and> bt_sorted (s_sent_headroom s')"
  using assms
  by (cases "n_kind n")
     (auto simp: record_node_def Let_def result_simps checked_i128_eq_Some increments_def decrements_def
       sends_def sends_to_def sum_values_set get_or_zero_insert split: if_splits)

text \<open>The summary an operation starts from: that of its predecessor, or none.\<close>

definition own_summary :: "escrow_instance \<Rightarrow> nodes \<Rightarrow> summaries \<Rightarrow> string \<Rightarrow> summary" where
  "own_summary inst nodes S x =
     (if prev_at nodes x = opener_address inst then summary_default else summary_at S (prev_at nodes x))"

lemma own_summary_sound:
  assumes "well_linked inst nodes" "sound_summaries inst nodes S" "visitable inst nodes S x"
  defines "s \<equiv> own_summary inst nodes S x" and "w \<equiv> signer_at nodes x"
  shows "Suc (s_sequence s) = next_seq inst nodes S x" "tips_ok nodes S (s_tips s)"
    "bt_sorted (s_sent_rights s)" "bt_sorted (s_sent_headroom s)" "solvent inst S w s (s_tips s)"
proof -
  have x: "x \<in> set (bt_keys nodes)" using assms(3) by (simp add: visitable_def del: set_map)
  have wf: "wf_instance inst" "w \<in> set (bt_keys (i_initial inst))"
    using assms(1) well_linked_node [OF assms(1) node_at_get [OF x]]
    by (auto simp: well_linked_def wf_node_def w_def signer_at_def simp del: set_map)
  have init: "0 \<le> the (bt_get m w)" if m: "list_all (\<lambda>n. 0 \<le> n) (bt_values m)" "w \<in> set (bt_keys m)" for m :: "(string, int) btmap"
  proof -
    obtain v where v: "bt_get m w = Some v" using m(2) unfolding bt_key_get by blast
    then have "v \<in> set (bt_values m)" using map_of_SomeD by force
    then show ?thesis using m(1) v by (simp add: list_all_iff del: set_map)
  qed
  have zero: "solvent inst S w summary_default []"
    using init wf unfolding solvent_def
    by (auto simp: rights_after_def headroom_after_def received_def summary_default_def wf_instance_def simp del: set_map)
  have prev: "prev_at nodes x \<in> set (bt_keys S) \<and> signer_at nodes (prev_at nodes x) = w"
    if "prev_at nodes x \<noteq> opener_address inst"
    using assms(3) that prev_signer [OF assms(1) x that] by (simp add: visitable_def w_def del: set_map)
  show "Suc (s_sequence s) = next_seq inst nodes S x"
    by (simp add: s_def own_summary_def next_seq_def seq_at_def summary_default_def)
  show "tips_ok nodes S (s_tips s)"
    using prev assms(2) by (auto simp: s_def own_summary_def summary_default_def tips_ok_def sound_summaries_def simp del: set_map)
  show "bt_sorted (s_sent_rights s)" "bt_sorted (s_sent_headroom s)"
    using prev assms(2)
    by (auto simp: s_def own_summary_def summary_default_def sound_summaries_def summed_def simp del: set_map)
  show "solvent inst S w s (s_tips s)"
  proof (cases "prev_at nodes x = opener_address inst")
    case True
    then show ?thesis using zero by (simp add: s_def own_summary_def summary_default_def)
  next
    case False
    then show ?thesis using prev assms(2) unfolding sound_summaries_def s_def own_summary_def by (metis)
  qed
qed

lemma solvent_grows:
  assumes "solvent inst S w s tips" "tips_ok nodes S tips" "tips_ok nodes S tips'" "grows S tips tips'"
    "summed nodes S" "\<forall>b \<in> set (bt_keys S). 0 < n_amount (node_at nodes b)"
  shows "solvent inst S w s tips'"
proof -
  have pos: "0 \<le> sends_to k r (node_at nodes b)" if "b \<in> set (bt_keys S)" for k r b
    using assms(6) that by (auto simp: sends_to_def less_imp_le simp del: set_map)
  have "received S w (\<lambda>s. get_or_zero (s_sent_rights s) w) tips \<le> received S w (\<lambda>s. get_or_zero (s_sent_rights s) w) tips'"
    "received S w (\<lambda>s. get_or_zero (s_sent_headroom s) w) tips \<le> received S w (\<lambda>s. get_or_zero (s_sent_headroom s) w) tips'"
    using assms(5) pos unfolding summed_def by (blast intro: received_mono [OF assms(2-4)])+
  then show ?thesis using assms(1) unfolding solvent_def rights_after_def headroom_after_def by fastforce
qed

text \<open>An admitted operation leaves its issuer solvent.\<close>

lemma admit_solvent:
  assumes "admit n x s tips (Inr (rb, hb)) = Inr s'" "rb = rights_after inst S w s tips"
    "\<forall>h. i_headroom inst = Some h \<longrightarrow> hb = Some (headroom_after h S w s tips)"
    "solvent inst S w s tips" "bt_sorted (s_sent_rights s)" "bt_sorted (s_sent_headroom s)" "0 < n_amount n"
  shows "solvent inst S w s' tips"
proof -
  obtain s0 where s0: "record_node s n = Inr s0" "s' = s0\<lparr>s_tips := bt_insert (rf_signer (n_fact n)) x tips\<rparr>"
    using assms(1) by (auto simp: admit_def Let_def split: if_splits sum.splits)
  have ok: "spends_headroom (n_kind n) \<Longrightarrow> hb = Some b \<Longrightarrow> n_amount n \<le> b"
    "\<not> spends_headroom (n_kind n) \<Longrightarrow> n_amount n \<le> rb" for b
    using assms(1) by (auto simp: admit_def Let_def not_less split: if_splits)
  note spec = record_node_spec [OF s0(1) assms(5,6)]
  have "rights_after inst S w s' tips = rb + increments n - decrements n - sends KTransfer n"
    using spec s0(2) assms(2) by (simp add: rights_after_def)
  then have "0 \<le> rights_after inst S w s' tips"
    using ok(2) assms(2,4,7)
    by (cases "n_kind n") (auto simp: increments_def decrements_def sends_def spends_headroom_def solvent_def)
  moreover have "0 \<le> headroom_after h S w s' tips" if "i_headroom inst = Some h" for h
  proof -
    have "headroom_after h S w s' tips = headroom_after h S w s tips + decrements n - increments n - sends KHeadroom n"
      using spec s0(2) by (simp add: headroom_after_def)
    then show ?thesis using ok(1) assms(3,4,7) that
      by (cases "n_kind n") (auto simp: increments_def decrements_def sends_def spends_headroom_def solvent_def)
  qed
  ultimately show ?thesis by (simp add: solvent_def)
qed

lemma solvent_insert:
  assumes "tips_ok nodes S tips" "x \<notin> set (bt_keys S)"
  shows "solvent inst (bt_insert x s' S) w s tips \<longleftrightarrow> solvent inst S w s tips"
  by (simp add: solvent_def rights_after_def headroom_after_def received_old [OF assms])

lemma solvent_own_tip: "bt_sorted tips \<Longrightarrow> solvent inst S w s (bt_insert w x tips) \<longleftrightarrow> solvent inst S w s tips"
  by (simp add: solvent_def rights_after_def headroom_after_def received_own_tip)

lemma tips_ok_mono: "tips_ok nodes S tips \<Longrightarrow> tips_ok nodes (bt_insert x s S) tips"
  by (auto simp: tips_ok_def)

lemma summed_insert:
  assumes "well_linked inst nodes" "sound_summaries inst nodes S" "visitable inst nodes S x"
    "record_node (own_summary inst nodes S x) (node_at nodes x) = Inr s0" "s = s0\<lparr>s_tips := tips\<rparr>"
  shows "s_sequence s = next_seq inst nodes S x \<and> summed nodes (bt_insert x s S)"
proof -
  note own = own_summary_sound [OF assms(1-3)]
  note spec = record_node_spec [OF assms(4) own(3,4)]
  have ch: "chained inst nodes S" and sm: "summed nodes S" using assms(2) by (auto simp: sound_summaries_def)
  have seq: "s_sequence s = next_seq inst nodes S x" using spec own(1) assms(5) by simp
  have ins: "counts nodes (bt_insert x s S) f g"
    if "counts nodes S f g" "g s = g (own_summary inst nodes S x) + f (node_at nodes x)" "g summary_default = 0" for f g
    using counts_insert [OF assms(1) ch assms(3) seq that(1)] that(2,3) by (simp add: own_summary_def)
  have "counts nodes (bt_insert x s S) increments s_credited"
    by (rule ins) (use sm spec assms(5) in \<open>simp_all add: summed_def summary_default_def\<close>)
  moreover have "counts nodes (bt_insert x s S) decrements s_debited"
    by (rule ins) (use sm spec assms(5) in \<open>simp_all add: summed_def summary_default_def\<close>)
  moreover have "counts nodes (bt_insert x s S) (sends KTransfer) (\<lambda>s. sum_list (bt_values (s_sent_rights s)))"
    by (rule ins) (use sm spec assms(5) in \<open>simp_all add: summed_def summary_default_def\<close>)
  moreover have "counts nodes (bt_insert x s S) (sends KHeadroom) (\<lambda>s. sum_list (bt_values (s_sent_headroom s)))"
    by (rule ins) (use sm spec assms(5) in \<open>simp_all add: summed_def summary_default_def\<close>)
  moreover have "counts nodes (bt_insert x s S) (sends_to KTransfer r) (\<lambda>s. get_or_zero (s_sent_rights s) r)" for r
    by (rule ins) (use sm spec assms(5) in \<open>simp_all add: summed_def summary_default_def get_or_zero_def [of "[]"]\<close>)
  moreover have "counts nodes (bt_insert x s S) (sends_to KHeadroom r) (\<lambda>s. get_or_zero (s_sent_headroom s) r)" for r
    by (rule ins) (use sm spec assms(5) in \<open>simp_all add: summed_def summary_default_def get_or_zero_def [of "[]"]\<close>)
  moreover have "bt_sorted (s_sent_rights (summary_at (bt_insert x s S) a)) \<and> bt_sorted (s_sent_headroom (summary_at (bt_insert x s S) a))"
    if "a \<in> set (bt_keys (bt_insert x s S))" for a
    using that spec sm assms(5) by (cases "a = x") (simp_all add: summary_at_insert summed_def del: set_map)
  ultimately show ?thesis using seq unfolding summed_def by blast
qed

text \<open>A visit of a node whose dependencies are summarised reads no missing entry and keeps the invariant.\<close>

lemma visit_sound:
  assumes "well_linked inst nodes" "sound_summaries inst nodes S" "x \<in> set (bt_keys nodes)" "x \<notin> set (bt_keys S)"
    "parents inst nodes x \<subseteq> set (bt_keys S)"
  shows "\<exists>r. visit inst nodes S x = Some r \<and> (\<forall>s. r = Inr s \<longrightarrow> sound_summaries inst nodes (bt_insert x s S))"
proof -
  let ?n = "node_at nodes x" and ?op = "opener_address inst" and ?w = "signer_at nodes x"
  let ?own = "own_summary inst nodes S x"
  have n: "bt_get nodes x = Some ?n" by (rule node_at_get [OF assms(3)])
  have par: "d = ?op \<or> d \<in> set (bt_keys S)" if "d \<in> set (n_prev ?n # n_deps ?n)" for d
    using assms(5) that unfolding parents_def set_dependencies by blast
  then have vis: "visitable inst nodes S x"
    using assms(3,4) by (simp add: visitable_def prev_at_def del: set_map)
  note own = own_summary_sound [OF assms(1,2) vis]
  have wfn: "wf_node inst ?n" "wf_instance inst"
    using well_linked_node [OF assms(1) n] assms(1) by (auto simp: well_linked_def)
  have ch: "chained inst nodes S" and sm: "summed nodes S"
    and tips: "\<forall>a \<in> set (bt_keys S). tips_ok nodes S (s_tips (summary_at S a))"
    using assms(2) unfolding sound_summaries_def by blast+
  have pos: "\<forall>b \<in> set (bt_keys S). 0 < n_amount (node_at nodes b)"
    using chained_keys [OF ch] well_linked_node [OF assms(1) node_at_get] by (metis wf_node_def)
  obtain tips' where t: "merge_deps ?op S (n_deps ?n) (s_tips ?own) = Some tips'" "tips_ok nodes S tips'"
    "grows S (s_tips ?own) tips'"
    using merge_deps_ok [OF own(2) _ tips, of "n_deps ?n" ?op] par by auto
  obtain b where b: "local_budgets ?w (i_initial inst) (i_headroom inst) ?own tips' S = Some b"
    using local_budgets_total [OF t(2) wfn(2)] wfn(1) by (metis not_None_eq signer_at_def wf_node_def)
  have own_get: "(if n_prev ?n = ?op then Some summary_default else bt_get S (n_prev ?n)) = Some ?own"
    using par [of "n_prev ?n"] summary_at_get [of "n_prev ?n" S]
    by (auto simp: own_summary_def prev_at_def simp del: set_map)
  have v: "visit inst nodes S x = Some (admit ?n x ?own tips' b)"
    unfolding visit_def Let_def n option.case own_get t(1) using b by (simp add: signer_at_def)
  have "sound_summaries inst nodes (bt_insert x s S)" if adm: "admit ?n x ?own tips' b = Inr s" for s
  proof -
    obtain rb hb where rb: "b = Inr (rb, hb)" using adm by (cases b) (auto simp: admit_def)
    obtain s0 where s0: "record_node ?own ?n = Inr s0" "s = s0\<lparr>s_tips := bt_insert ?w x tips'\<rparr>"
      using adm rb by (auto simp: admit_def Let_def signer_at_def split: if_splits sum.splits)
    obtain v0 where v0: "bt_get (i_initial inst) ?w = Some v0"
      using wfn(1) unfolding wf_node_def signer_at_def bt_key_get by blast
    have hr: "\<exists>w0. bt_get h ?w = Some w0" if "i_headroom inst = Some h" for h
      using headroom_account [OF wfn(2) that, of ?w] wfn(1) by (simp add: wf_node_def signer_at_def del: set_map)
    have budgets: "rb = rights_after inst S ?w ?own tips'"
      "\<forall>h. i_headroom inst = Some h \<longrightarrow> hb = Some (headroom_after h S ?w ?own tips')"
      using local_budgets_sum [OF b [unfolded rb] v0] v0 hr
      by (auto simp: rights_after_def headroom_after_def)
    have "solvent inst S ?w ?own tips'" by (rule solvent_grows [OF own(5,2) t(2,3) sm pos])
    then have solv: "solvent inst S ?w s tips'"
      using admit_solvent [OF adm [unfolded rb] budgets] own(3,4) wfn(1) by (simp add: wf_node_def)
    have new: "s_sequence s = next_seq inst nodes S x" "summed nodes (bt_insert x s S)"
      using summed_insert [OF assms(1,2) vis s0] by blast+
    have "tips_ok nodes (bt_insert x s S) (s_tips s)"
      using tips_ok_insert [OF tips_ok_mono [OF t(2)], of x x s ?w] s0(2) by simp
    moreover have "solvent inst (bt_insert x s S) ?w s (s_tips s)"
      using solv s0(2) solvent_insert [OF t(2) assms(4)] solvent_own_tip t(2) by (simp add: tips_ok_def)
    moreover have "tips_ok nodes (bt_insert x s S) (s_tips (summary_at S a)) \<and>
        solvent inst (bt_insert x s S) (signer_at nodes a) (summary_at S a) (s_tips (summary_at S a))"
      if "a \<in> set (bt_keys S)" for a
      using assms(2) that tips_ok_mono solvent_insert [OF _ assms(4)] unfolding sound_summaries_def by metis
    ultimately have "tips_ok nodes (bt_insert x s S) (s_tips (summary_at (bt_insert x s S) a)) \<and>
        solvent inst (bt_insert x s S) (signer_at nodes a) (summary_at (bt_insert x s S) a)
          (s_tips (summary_at (bt_insert x s S) a))"
      if "a \<in> set (bt_keys (bt_insert x s S))" for a
      using that by (cases "a = x") (simp_all add: summary_at_insert)
    then show ?thesis
      using chained_insert [OF assms(1) ch vis new(1)] new(2) unfolding sound_summaries_def by blast
  qed
  then show ?thesis using v by blast
qed

lemma traverse_sound:
  assumes "well_linked inst nodes"
  shows "on_course inst nodes t (set (bt_keys S)) \<Longrightarrow> sound_summaries inst nodes S \<Longrightarrow>
    \<exists>r. traverse inst nodes t S = Some r \<and> (\<forall>S'. r = Inr S' \<longrightarrow> sound_summaries inst nodes S')"
  using assms
proof (induction inst nodes t S rule: traverse.induct)
  case (1 inst nodes t S)
  have sorted: "bt_sorted nodes" using 1(5) by (simp add: well_linked_def)
  show ?case
  proof (cases "t_ready t")
    case Nil
    then show ?thesis using 1(4) by (simp add: traverse.simps [of inst nodes t S])
  next
    case (Cons x ready)
    note x = on_course_next [OF 1(3) Cons]
    obtain r where r: "visit inst nodes S x = Some r" "\<forall>s. r = Inr s \<longrightarrow> sound_summaries inst nodes (bt_insert x s S)"
      using visit_sound [OF 1(5,4)] x by blast
    show ?thesis
    proof (cases r)
      case (Inl f)
      then show ?thesis using Cons r(1) by (simp add: traverse.simps [of inst nodes t S])
    next
      case (Inr s)
      then have sound: "sound_summaries inst nodes (bt_insert x s S)" using r(2) by blast
      have keys: "set (bt_keys (bt_insert x s S)) = insert x (set (bt_keys S))" by simp
      have v: "visit inst nodes S x = Some (Inr s)" using r(1) Inr by simp
      note step = on_course_step [OF 1(3) Cons sorted]
      show ?thesis
      proof (cases "bt_get (t_waiting t) x")
        case None
        have "traverse inst nodes t S = traverse inst nodes (t\<lparr>t_ready := ready\<rparr>) (bt_insert x s S)"
          using Cons v None by (simp add: traverse.simps [of inst nodes t S] Let_def)
        then show ?thesis
          using 1(1) [OF Cons v refl refl None _ sound 1(5)] step None keys by (simp del: set_map)
      next
        case (Some cs)
        obtain rem' ready' where rel: "release_children cs (t_remaining t) ready = Some (rem', ready')"
          "on_course inst nodes (t\<lparr>t_waiting := bt_remove x (t_waiting t), t_remaining := rem', t_ready := ready'\<rparr>)
             (insert x (set (bt_keys S)))"
          using step Some by auto
        have "traverse inst nodes t S = traverse inst nodes
            (t\<lparr>t_waiting := bt_remove x (t_waiting t), t_remaining := rem', t_ready := ready'\<rparr>) (bt_insert x s S)"
          using Cons v Some rel(1) by (simp add: traverse.simps [of inst nodes t S] Let_def)
        then show ?thesis
          using 1(2) [OF Cons v refl refl Some rel(1) refl _ sound 1(5)] rel(2) keys by (simp del: set_map)
      qed
    qed
  qed
qed

section \<open>No overdraft\<close>

lemma sum_values_keys:
  assumes "bt_sorted m"
  shows "sum_list (map f (bt_values m)) = (\<Sum>k \<in> set (bt_keys m). f (the (bt_get m k)))"
proof -
  have dist: "distinct (bt_keys m)" by (rule bt_sorted_distinct [OF assms])
  have "map f (bt_values m) = map (\<lambda>k. f (the (bt_get m k))) (bt_keys m)" using dist by auto
  then show ?thesis
    using sum_list_distinct_conv_sum_set [OF dist, of "\<lambda>k. f (the (bt_get m k))"] by (simp only:)
qed

text \<open>What any account has been sent is at most what all operations sent it.\<close>

lemma received_bound:
  assumes "chained inst nodes S" "tips_ok nodes S tips" "counts nodes S f g"
    "\<And>b. b \<in> set (bt_keys S) \<Longrightarrow> 0 \<le> f (node_at nodes b)"
  shows "received S owner g tips \<le> (\<Sum>b \<in> set (bt_keys S). f (node_at nodes b))"
proof -
  let ?V = "set (bt_keys S)" and ?K = "set (bt_keys tips) - {owner}"
  let ?of = "\<lambda>k. \<Sum>b \<in> ?V. if signer_at nodes b = k then f (node_at nodes b) else 0"
  have "g (summary_at S (the (bt_get tips k))) \<le> ?of k" if k: "k \<in> ?K" for k
  proof -
    obtain t where t: "bt_get tips k = Some t" using k bt_key_get [of k tips] by auto
    then have tk: "t \<in> ?V" "signer_at nodes t = k" using assms(2) unfolding tips_ok_def by blast+
    have "g (summary_at S t) = (\<Sum>b \<in> own nodes S t. f (node_at nodes b))"
      using assms(3) tk(1) by (simp add: counts_def del: set_map)
    also have "\<dots> \<le> (\<Sum>b \<in> {b \<in> ?V. signer_at nodes b = k}. f (node_at nodes b))"
      using assms(4) tk(2) by (intro sum_mono2) (auto simp: own_def)
    also have "\<dots> = ?of k" by (simp add: sum.inter_filter)
    finally show ?thesis using t by simp
  qed
  then have "(\<Sum>k \<in> ?K. g (summary_at S (the (bt_get tips k)))) \<le> (\<Sum>k \<in> ?K. ?of k)" by (rule sum_mono)
  also have "\<dots> = (\<Sum>b \<in> ?V. \<Sum>k \<in> ?K. if signer_at nodes b = k then f (node_at nodes b) else 0)" by (rule sum.swap)
  also have "\<dots> \<le> (\<Sum>b \<in> ?V. f (node_at nodes b))"
    using assms(4) by (intro sum_mono) (simp add: sum.delta del: set_map)
  finally show ?thesis using received_sum assms(2) by (simp add: tips_ok_def del: set_map)
qed

lemma last_own:
  assumes "well_linked inst nodes" "chained inst nodes S" "b \<in> set (bt_keys S)" "signer_at nodes b = k"
  obtains a where "a \<in> set (bt_keys S)" "signer_at nodes a = k"
    "own nodes S a = {b \<in> set (bt_keys S). signer_at nodes b = k}"
proof -
  let ?B = "{b \<in> set (bt_keys S). signer_at nodes b = k}"
  have "finite ?B" "?B \<noteq> {}" using assms(3,4) by auto
  then have "Max (seq_at S ` ?B) \<in> seq_at S ` ?B" by (intro Max_in) auto
  moreover have "\<forall>b \<in> ?B. seq_at S b \<le> Max (seq_at S ` ?B)" by simp
  ultimately obtain a where a: "a \<in> ?B" "\<forall>b \<in> ?B. seq_at S b \<le> seq_at S a" by (metis (no_types, lifting) imageE)
  then have "own nodes S a = ?B" unfolding own_def by fastforce
  then show thesis using that a(1) by blast
qed

lemma account_covered:
  assumes "well_linked inst nodes" "chained inst nodes S" "0 \<le> v"
    "counts nodes S gain g1" "counts nodes S loss g2" "counts nodes S out g3" "counts nodes S to g4"
    "\<And>b. b \<in> set (bt_keys S) \<Longrightarrow> 0 \<le> to (node_at nodes b)"
    "\<And>a. a \<in> set (bt_keys S) \<Longrightarrow> signer_at nodes a = k \<Longrightarrow> tips_ok nodes S (s_tips (summary_at S a)) \<and>
      0 \<le> v + g1 (summary_at S a) - g2 (summary_at S a) - g3 (summary_at S a) + received S k g4 (s_tips (summary_at S a))"
  shows "0 \<le> v + (\<Sum>b \<in> set (bt_keys S). (if signer_at nodes b = k
    then gain (node_at nodes b) - loss (node_at nodes b) - out (node_at nodes b) else 0) + to (node_at nodes b))"
proof -
  let ?V = "set (bt_keys S)" and ?B = "{b \<in> set (bt_keys S). signer_at nodes b = k}"
  let ?own = "\<lambda>b. gain (node_at nodes b) - loss (node_at nodes b) - out (node_at nodes b)"
  have split: "(\<Sum>b \<in> ?V. (if signer_at nodes b = k then ?own b else 0) + to (node_at nodes b)) =
      (\<Sum>b \<in> ?B. ?own b) + (\<Sum>b \<in> ?V. to (node_at nodes b))"
    by (simp add: sum.distrib sum.inter_filter)
  have nn: "0 \<le> (\<Sum>b \<in> ?V. to (node_at nodes b))" using assms(8) by (rule sum_nonneg)
  show ?thesis
  proof (cases "?B = {}")
    case True
    have "(\<Sum>b \<in> ?B. ?own b) = 0" unfolding True by simp
    then show ?thesis using split nn assms(3) by linarith
  next
    case False
    then obtain b where b: "b \<in> ?V" "signer_at nodes b = k" by blast
    obtain a where a: "a \<in> ?V" "signer_at nodes a = k" "own nodes S a = ?B"
      by (rule last_own [OF assms(1,2) b])
    have "g1 (summary_at S a) - g2 (summary_at S a) - g3 (summary_at S a) = (\<Sum>b \<in> ?B. ?own b)"
      using assms(4-6) a by (simp add: counts_def sum_subtractf del: set_map)
    moreover have "received S k g4 (s_tips (summary_at S a)) \<le> (\<Sum>b \<in> ?V. to (node_at nodes b))"
      using received_bound [OF assms(2) _ assms(7,8)] assms(9) a(1,2) by blast
    ultimately show ?thesis using assms(9) [OF a(1,2)] split by linarith
  qed
qed

lemma rights_delta_split:
  "rights_delta n k = (if rf_signer (n_fact n) = k then increments n - decrements n - sends KTransfer n else 0) +
     sends_to KTransfer k n"
  by (cases "n_kind n") (auto simp: rights_delta_def increments_def decrements_def sends_def sends_to_def)

lemma headroom_delta_split:
  "headroom_delta n k = (if rf_signer (n_fact n) = k then decrements n - increments n - sends KHeadroom n else 0) +
     sends_to KHeadroom k n"
  by (cases "n_kind n") (auto simp: headroom_delta_def increments_def decrements_def sends_def sends_to_def)

lemma moved_nonneg:
  assumes "moved m m' (\<lambda>k. \<Sum>n\<leftarrow>bt_values nodes. d n k) x" "bt_sorted m" "bt_sorted nodes"
    "\<And>k v. bt_get m k = Some v \<Longrightarrow> 0 \<le> v + (\<Sum>b \<in> set (bt_keys nodes). d (node_at nodes b) k)"
  shows "list_all (\<lambda>n. 0 \<le> n) (bt_values m')"
  unfolding list_all_iff
proof
  fix w assume "w \<in> set (bt_values m')"
  moreover have "bt_sorted m'" "bt_keys m' = bt_keys m" using assms(1) by (auto simp: moved_def)
  ultimately obtain k where k: "bt_get m' k = Some w" "k \<in> set (bt_keys m)"
    using bt_values_iff bt_key_get by metis
  then obtain v where v: "bt_get m k = Some v" using bt_key_get by metis
  then have "w = v + (\<Sum>n\<leftarrow>bt_values nodes. d n k)" using assms(1) k(1) by (simp add: moved_def)
  then show "0 \<le> w"
    using assms(4) [OF v] sum_values_keys [OF assms(3), of "\<lambda>n. d n k"] by (simp add: node_at_def)
qed

lemma settled_solvent:
  assumes "well_linked inst nodes" "sound_summaries inst nodes S" "set (bt_keys S) = set (bt_keys nodes)"
    "apply_nodes (bt_values nodes) (i_initial inst, i_headroom inst) = Inr (r, h)"
  shows "list_all (\<lambda>n. 0 \<le> n) (bt_values r) \<and> pred_option (\<lambda>h. list_all (\<lambda>n. 0 \<le> n) (bt_values h)) h"
proof -
  have wf: "wf_instance inst" "bt_sorted nodes" using assms(1) by (auto simp: well_linked_def)
  then have sorted: "bt_sorted (i_initial inst)" "pred_option bt_sorted (i_headroom inst)"
    by (auto simp: wf_instance_def pred_option_def)
  note mv = apply_nodes_moved [OF sorted assms(4)]
  have ch: "chained inst nodes S" and sm: "summed nodes S" using assms(2) by (auto simp: sound_summaries_def)
  have amt: "0 < n_amount (node_at nodes b)" if "b \<in> set (bt_keys S)" for b
    using well_linked_node [OF assms(1) node_at_get] that assms(3) unfolding wf_node_def by blast
  have pos: "0 \<le> sends_to c k (node_at nodes b)" if "b \<in> set (bt_keys S)" for c k b
    using amt [OF that] by (simp add: sends_to_def)
  have init: "0 \<le> v" if "bt_sorted m" "list_all (\<lambda>n. 0 \<le> n) (bt_values m)" "bt_get m k = Some v" for m k and v :: int
    using that bt_values_iff [OF that(1), of v] by (auto simp: list_all_iff simp del: set_map)
  have sound: "tips_ok nodes S (s_tips (summary_at S a)) \<and>
      solvent inst S (signer_at nodes a) (summary_at S a) (s_tips (summary_at S a))" if "a \<in> set (bt_keys S)" for a
    using assms(2) that unfolding sound_summaries_def by blast
  have "list_all (\<lambda>n. 0 \<le> n) (bt_values r)"
  proof (rule moved_nonneg [OF conjunct1 [OF mv] sorted(1) wf(2)])
    fix k v assume v: "bt_get (i_initial inst) k = Some v"
    have "0 \<le> v + (\<Sum>b \<in> set (bt_keys S). (if signer_at nodes b = k
        then increments (node_at nodes b) - decrements (node_at nodes b) - sends KTransfer (node_at nodes b) else 0) +
        sends_to KTransfer k (node_at nodes b))"
    proof (rule account_covered [OF assms(1) ch])
      show "0 \<le> v" using init [OF sorted(1) _ v] wf(1) by (simp add: wf_instance_def)
    next
      fix a assume "a \<in> set (bt_keys S)" "signer_at nodes a = k"
      then show "tips_ok nodes S (s_tips (summary_at S a)) \<and> 0 \<le> v + s_credited (summary_at S a) -
          s_debited (summary_at S a) - sum_list (bt_values (s_sent_rights (summary_at S a))) +
          received S k (\<lambda>s. get_or_zero (s_sent_rights s) k) (s_tips (summary_at S a))"
        using sound v unfolding solvent_def rights_after_def by fastforce
    qed (use sm pos in \<open>simp_all add: summed_def del: set_map\<close>)
    then show "0 \<le> v + (\<Sum>b \<in> set (bt_keys nodes). rights_delta (node_at nodes b) k)"
      unfolding rights_delta_split assms(3) signer_at_def .
  qed
  moreover have "list_all (\<lambda>n. 0 \<le> n) (bt_values h')" if h': "h = Some h'" for h'
  proof -
    obtain h0 where h0: "i_headroom inst = Some h0" using mv h' by (cases "i_headroom inst") (auto simp: moved_opt_def)
    have m: "moved h0 h' (\<lambda>k. \<Sum>n\<leftarrow>bt_values nodes. headroom_delta n k) (- (\<Sum>n\<leftarrow>bt_values nodes. node_net n))"
      using mv h0 h' by (simp add: moved_opt_def)
    have s0: "bt_sorted h0" "list_all (\<lambda>n. 0 \<le> n) (bt_values h0)" using wf(1) h0 by (auto simp: wf_instance_def)
    show ?thesis
    proof (rule moved_nonneg [OF m s0(1) wf(2)])
      fix k v assume v: "bt_get h0 k = Some v"
      have "0 \<le> v + (\<Sum>b \<in> set (bt_keys S). (if signer_at nodes b = k
          then decrements (node_at nodes b) - increments (node_at nodes b) - sends KHeadroom (node_at nodes b) else 0) +
          sends_to KHeadroom k (node_at nodes b))"
      proof (rule account_covered [OF assms(1) ch])
        show "0 \<le> v" using init [OF s0 v] .
      next
        fix a assume "a \<in> set (bt_keys S)" "signer_at nodes a = k"
        then show "tips_ok nodes S (s_tips (summary_at S a)) \<and> 0 \<le> v + s_debited (summary_at S a) -
            s_credited (summary_at S a) - sum_list (bt_values (s_sent_headroom (summary_at S a))) +
            received S k (\<lambda>s. get_or_zero (s_sent_headroom s) k) (s_tips (summary_at S a))"
          using sound v h0 unfolding solvent_def headroom_after_def by fastforce
      qed (use sm pos in \<open>simp_all add: summed_def del: set_map\<close>)
      then show "0 \<le> v + (\<Sum>b \<in> set (bt_keys nodes). headroom_delta (node_at nodes b) k)"
        unfolding headroom_delta_split assms(3) signer_at_def .
    qed
  qed
  ultimately show ?thesis by (cases h) auto
qed

lemma all_visited:
  assumes "chained inst nodes S" "bt_sorted nodes" "length S = length nodes"
  shows "set (bt_keys S) = set (bt_keys nodes)"
proof (rule card_subset_eq)
  have "bt_sorted S" "set (bt_keys S) \<subseteq> set (bt_keys nodes)" using assms(1) by (auto simp: chained_def)
  then show "set (bt_keys S) \<subseteq> set (bt_keys nodes)" "card (set (bt_keys S)) = card (set (bt_keys nodes))"
    using assms(2,3) bt_sorted_distinct distinct_card by (metis length_map)+
qed simp

lemma linked_instance:
  assumes "read_instance c facts present = Inr inst" "keyed facts"
    "nodes_loop c inst (operation_facts c facts) [] [] = Inr (nodes, children)"
    "links_loop (opener_address inst) nodes known (bt_values nodes) [] = Inr []"
  shows "well_linked inst nodes"
proof (rule well_linkedI [OF _ _ assms(4)])
  show "wf_instance inst" using read_instance_wf [OF assms(1)] by blast
  show "built c inst ({} \<union> set (operation_facts c facts)) nodes children"
    using nodes_loop_built [OF assms(3) built_empty distinct_operation_facts [OF assms(2)]] by simp
qed

lemma traverse_start:
  "well_linked inst nodes \<Longrightarrow> \<exists>r. traverse inst nodes (start_traversal (opener_address inst) nodes) [] = Some r \<and>
     (\<forall>S. r = Inr S \<longrightarrow> sound_summaries inst nodes S)"
  using traverse_sound [of inst nodes "start_traversal (opener_address inst) nodes" "[]"]
    on_course_start [of nodes inst] sound_summaries_empty by (simp add: well_linked_def)

lemma observe_facts_total:
  assumes "keyed facts" shows "observe_facts c facts present \<noteq> None"
proof (cases "unsupported c")
  case None
  show ?thesis
  proof (cases "read_instance c facts present")
    case (Inr inst)
    show ?thesis
    proof (cases "nodes_loop c inst (operation_facts c facts) [] []")
      case (Inl f)
      then show ?thesis using None Inr by (simp add: observe_facts_def)
    next
      case nodes: (Inr p)
      obtain nodes children where p: "p = (nodes, children)" by (cases p)
      let ?known = "\<lambda>dep. bt_contains_key facts dep \<or> present dep"
      show ?thesis
      proof (cases "links_loop (opener_address inst) nodes ?known (bt_values nodes) []")
        case (Inl f)
        then show ?thesis using None Inr nodes p by (simp add: observe_facts_def)
      next
        case links: (Inr missing)
        show ?thesis
        proof (cases "missing = []")
          case True
          then obtain r where "traverse inst nodes (start_traversal (opener_address inst) nodes) [] = Some r"
            using traverse_start [OF linked_instance [OF Inr assms nodes [unfolded p]]] links by blast
          then show ?thesis using None Inr nodes p links True
            by (cases r) (simp_all add: observe_facts_def Let_def)
        next
          case False
          then show ?thesis using None Inr nodes p links by (simp add: observe_facts_def)
        qed
      qed
    qed
  qed (use None in \<open>simp add: observe_facts_def\<close>)
qed (simp add: observe_facts_def)

lemma observe_total: "observe sha256 c acts \<noteq> None"
  using observe_facts_total [OF keyed_history_facts]
  by (auto simp: observe_def split: option.splits sum.splits)

lemma settle_not_negative:
  assumes "well_linked inst nodes" "sound_summaries inst nodes S" "length S = length nodes"
  shows "settle c inst nodes children \<noteq> Fault ''negative escrow budget'' evidence"
proof (cases "apply_nodes (bt_values nodes) (i_initial inst, i_headroom inst)")
  case (Inl f)
  then show ?thesis using refuses_apply_nodes [OF Inl] by (auto simp: settle_def plain_error_def)
next
  case (Inr rh)
  obtain r h where rh: "rh = (r, h)" by (cases rh)
  have "set (bt_keys S) = set (bt_keys nodes)"
    using assms by (intro all_visited) (auto simp: sound_summaries_def well_linked_def)
  then have "list_all (\<lambda>n. 0 \<le> n) (bt_values r)" "pred_option (\<lambda>h. list_all (\<lambda>n. 0 \<le> n) (bt_values h)) h"
    using settled_solvent [OF assms(1,2)] Inr rh by blast+
  then have "\<not> list_ex (\<lambda>n. n < 0) (bt_values r)"
    "\<not> (case h of Some h \<Rightarrow> list_ex (\<lambda>n. n < 0) (bt_values h) | None \<Rightarrow> False)"
    by (auto simp: list_all_iff list_ex_iff not_less simp del: set_map split: option.splits)
  then show ?thesis using Inr rh by (auto simp: settle_def split: option.splits)
qed

section \<open>Properties\<close>

text \<open>C21: no issuer can overdraw a bounded counter. The traversal admits an operation when the issuer's
  own operations and those it names as seen leave enough rights or headroom; whatever the issuers do
  concurrently, the final balances then are never negative, so the last check of the observation never
  fails. The observation also never reads a missing entry: it always returns an outcome.\<close>

theorem no_overdraft:
  "observe sha256 c acts \<noteq> None \<and> observe sha256 c acts \<noteq> Some (Fault ''negative escrow budget'' evidence)"
proof -
  let ?f = "Fault ''negative escrow budget'' evidence"
  have False if obs: "observe sha256 c acts = Some ?f"
  proof -
    have nr: "\<not> refuses ?f" by (simp add: plain_error_def)
    obtain history where h: "observe_facts c (history_facts sha256 c history) (bt_contains_key history) = Some ?f"
      by (rule observe_settled [OF obs nr])
    obtain inst nodes children S where st: "read_instance c (history_facts sha256 c history) (bt_contains_key history) = Inr inst"
      "nodes_loop c inst (operation_facts c (history_facts sha256 c history)) [] [] = Inr (nodes, children)"
      "links_loop (opener_address inst) nodes (\<lambda>dep. bt_contains_key (history_facts sha256 c history) dep \<or>
         bt_contains_key history dep) (bt_values nodes) [] = Inr []"
      "traverse inst nodes (start_traversal (opener_address inst) nodes) [] = Some (Inr S)"
      "length S = length nodes" "settle c inst nodes children = ?f"
      by (rule observe_facts_settled [OF h nr])
    have wl: "well_linked inst nodes" by (rule linked_instance [OF st(1) keyed_history_facts st(2,3)])
    then have "sound_summaries inst nodes S" using traverse_start [OF wl] st(4) by auto
    then show False using settle_not_negative [OF wl _ st(5)] st(6) by blast
  qed
  then show ?thesis using observe_total by blast
qed

text \<open>C22: a ready bounded counter keeps its bounds: its value lies between the floor and the ceiling, no
  account holds negative rights, and the value is the floor plus the initial allocations plus the
  increments less the decrements of the accepted operations, so transfers neither create nor destroy
  anything.\<close>

theorem bounded_counter_safe:
  assumes "observe sha256 c acts = Some (Ready s)"
  shows "floor_bound c \<le> sn_value s \<and> pred_option (\<lambda>u. sn_value s \<le> u) (ceiling_bound c) \<and>
    list_all (\<lambda>n. 0 \<le> n) (bt_values (sn_rights s)) \<and>
    sn_value s = floor_bound c + sum_list (bt_values (sn_rights s)) \<and>
    (\<exists>history opener x initial. history_loop sha256 acts [] = Inr history \<and>
       opener \<in> set (bt_values (history_facts sha256 c history)) \<and> rf_verb opener = initial_verb c \<and>
       bt_get (rf_fields opener) (initial_key c) = Some x \<and> allocations x = Inr initial \<and>
       sn_value s = floor_bound c + sum_list (bt_values initial) +
         sum_list (map (fact_net c) (operation_facts c (history_facts sha256 c history))))"
proof -
  obtain history where h: "history_loop sha256 acts [] = Inr history"
    "observe_facts c (history_facts sha256 c history) (bt_contains_key history) = Some (Ready s)"
    by (rule observe_settled [OF assms]) simp
  obtain inst nodes children S where st: "read_instance c (history_facts sha256 c history) (bt_contains_key history) = Inr inst"
    "nodes_loop c inst (operation_facts c (history_facts sha256 c history)) [] [] = Inr (nodes, children)"
    "settle c inst nodes children = Ready s"
    by (rule observe_facts_settled [OF h(2)]) simp
  note ready = settle_Ready [OF st(3)]
  have sum: "sum_list (bt_values (sn_rights s)) = sum_list (bt_values (i_initial inst)) +
      sum_list (map (fact_net c) (operation_facts c (history_facts sha256 c history)))"
    using settled_balances [OF st(1) keyed_history_facts st(2)] ready by blast
  have nn: "0 \<le> sum_list (bt_values m)" if "list_all (\<lambda>n. 0 \<le> n) (bt_values m)" for m :: "(string, int) btmap"
    using that by (intro sum_list_nonneg) (simp add: list_all_iff del: set_map)
  have "pred_option (\<lambda>u. sn_value s \<le> u) (ceiling_bound c)"
    using ready nn by (cases "ceiling_bound c") fastforce+
  moreover have "floor_bound c \<le> sn_value s" using ready nn [of "sn_rights s"] by simp
  moreover obtain x where "bt_get (rf_fields (i_opener inst)) (initial_key c) = Some x"
    "allocations x = Inr (i_initial inst)" "i_opener inst \<in> set (bt_values (history_facts sha256 c history))"
    "rf_verb (i_opener inst) = initial_verb c"
    using read_instance_wf [OF st(1)] by blast
  moreover have "sn_value s = floor_bound c + sum_list (bt_values (i_initial inst)) +
      sum_list (map (fact_net c) (operation_facts c (history_facts sha256 c history)))" using ready sum by linarith
  moreover have "sn_value s = floor_bound c + sum_list (bt_values (sn_rights s))" using ready by linarith
  ultimately show ?thesis using ready h(1) by blast
qed

text \<open>A counter between 2 and 12 with one account: the cast and the opener with 3 rights and 7 of headroom.\<close>

definition sample_rule :: counter_rule where
  "sample_rule = \<lparr>ownership = Account, certification = HostGate, floor_bound = 2, ceiling_bound = Some 12,
     initial_verb = ''open'', initial_key = ''rights'', headroom_key = Some ''room'', issuer = ''bank'',
     increment = (''mint'', ''n''), decrement = (''burn'', ''n''), transfer_op = None, transfer_headroom = None\<rparr>"

definition sample_digest :: "string \<Rightarrow> string" where
  "sample_digest x = (if CHR ''R'' \<in> set x then ''R'' else ''-'')"

definition sample_hello :: message where
  "sample_hello = Simple \<lparr>m_performative = Core Hello, m_recipient = None, m_content = List [], m_params = [],
     m_thread = Some ''t'', m_sender = None, m_caused_by = None\<rparr>"

definition sample_open :: message where
  "sample_open = Simple \<lparr>m_performative = Custom ''open'', m_recipient = None, m_content = Sym ''R'',
     m_params = [Kw ''rights'', List [List [Sym ''@a'', Atom (Num 3)]],
                 Kw ''room'', List [List [Sym ''@a'', Atom (Num 7)]]],
     m_thread = Some ''t'', m_sender = None, m_caused_by = Some (Single ''sha256-2d'')\<rparr>"

lemma sample_addresses:
  "wire_address sample_digest sample_hello = ''sha256-2d''"
  "wire_address sample_digest sample_open = ''sha256-52''"
  by code_simp+

definition sample_history :: "act list" where
  "sample_history =
     [\<lparr>act_address = ''sha256-2d'', act_verb = ''hello'', act_signer = ''@a'', act_predecessors = [],
       act_recipients = [], act_fields = [],
       act_message = Wrapped WithRoles [List [List [Sym ''bank'', Sym ''@a'']]] sample_hello\<rparr>,
      \<lparr>act_address = ''sha256-52'', act_verb = ''open'', act_signer = ''@a'', act_predecessors = [''sha256-2d''],
       act_recipients = [], act_fields = [(''rights'', List [List [Sym ''@a'', Atom (Num 3)]]),
         (''room'', List [List [Sym ''@a'', Atom (Num 7)]])],
       act_message = sample_open\<rparr>]"

lemma sample_genuine: "list_all (genuine sample_digest) sample_history"
  unfolding genuine_def from_message_eq_Inr sample_history_def
  by (simp add: sample_addresses [unfolded sample_hello_def sample_open_def] sample_hello_def sample_open_def
      performative_of_def performative_name_def caused_refs_def caused_by_of_def recipient_set_def
      keyword_fields_def ROUTING_KEYWORDS_def core_as_str_def)

definition sample_map :: "(string, act) btmap" where
  "sample_map = [(''sha256-2d'', sample_history ! 0), (''sha256-52'', sample_history ! 1)]"

lemma sample_history_loop: "history_loop sample_digest sample_history [] = Inr sample_map"
  using sample_genuine by (simp add: sample_history_def sample_map_def genuine_def same_view_def)

lemma sample_observe:
  "observe sample_digest sample_rule sample_history = Some (Ready \<lparr>sn_value = 5, sn_rights = [(''@a'', 3)],
     sn_headroom = Some [(''@a'', 7)], sn_tips = [], sn_opener = ''sha256-52''\<rparr>)"
proof -
  have "unsupported sample_rule = None" by code_simp
  moreover have "observe_facts sample_rule (history_facts sample_digest sample_rule sample_map)
      (bt_contains_key sample_map) = Some (Ready \<lparr>sn_value = 5, sn_rights = [(''@a'', 3)],
        sn_headroom = Some [(''@a'', 7)], sn_tips = [], sn_opener = ''sha256-52''\<rparr>)" by code_simp
  ultimately show ?thesis using sample_history_loop by (simp add: observe_def)
qed

theorem bounded_counter_safe_witness:
  "floor_bound sample_rule \<le> 5 \<and> pred_option (\<lambda>u. 5 \<le> u) (ceiling_bound sample_rule) \<and>
    (\<exists>history. history_loop sample_digest sample_history [] = Inr history \<and>
       5 = floor_bound sample_rule + sum_list (bt_values [(''@a'', 3)]) +
         sum_list (map (fact_net sample_rule) (operation_facts sample_rule (history_facts sample_digest sample_rule history))))"
proof -
  note safe = bounded_counter_safe [OF sample_observe]
  have ops: "operation_facts sample_rule (history_facts sample_digest sample_rule sample_map) = []" by code_simp
  show ?thesis using safe sample_history_loop ops by (auto simp: sample_rule_def)
qed

end
