(* ===== verification/Cbcl_State.thy ===== *)
theory Cbcl_State
  imports Cbcl_Traversal "HOL-Library.Multiset"
begin

text \<open>
  The state fold of \<open>cbcl-core/src/state.rs\<close>: the kernel with its domain filters, the selection of
  live writes, the grouping and reduction functions, every rule of a state clause, and the fold over a
  clause, with the accepted positions of \<open>repeat.rs\<close> that the progress rule reads. A panic of the
  source (an act that wraps no simple message) is \<^const>\<open>None\<close>. The main result is that the fold is a
  function of the set of accepted acts.
\<close>

section \<open>The kernel\<close>

record kernel =
  k_acts :: "act list"
  k_domains :: "(string \<times> string \<times> state_value list) list"

fun dedup_acts :: "act list \<Rightarrow> string btset \<Rightarrow> act list" where
  "dedup_acts [] seen = []"
| "dedup_acts (a # acts) seen =
     (if act_address a \<in> set seen then dedup_acts acts seen
      else a # dedup_acts acts (bs_insert (act_address a) seen))"

definition dedup_by_address :: "act list \<Rightarrow> act list" where
  "dedup_by_address acts = dedup_acts acts []"

definition field_of :: "act \<Rightarrow> string \<Rightarrow> state_value option" where
  "field_of a key = map_option from_sexpr (bt_get (act_fields a) key)"

definition in_domains :: "(string \<times> string \<times> state_value list) list \<Rightarrow> string \<Rightarrow> act \<Rightarrow> bool" where
  "in_domains domains verb a = list_all (\<lambda>(v, key, allowed).
     if v \<noteq> verb then True
     else (case field_of a key of
         Some val \<Rightarrow> list_ex (\<lambda>x. render x = render val) allowed
       | None \<Rightarrow> False)) domains"

definition acts_of :: "kernel \<Rightarrow> string \<Rightarrow> act list" where
  "acts_of k verb = filter (\<lambda>a. act_verb a = verb \<and> in_domains (k_domains k) verb a) (k_acts k)"

text \<open>The addresses an act names in \<open>:replaces\<close>.\<close>

definition replaces_of :: "act \<Rightarrow> string list" where
  "replaces_of a = (case bt_get (act_fields a) RESERVED_REPLACES of
       Some (List items) \<Rightarrow> List.map_filter text_of items
     | _ \<Rightarrow> [])"

definition key_of :: "string option \<Rightarrow> act \<Rightarrow> string" where
  "key_of key a = (case key of
       Some k \<Rightarrow> (case field_of a k of Some v \<Rightarrow> render v | None \<Rightarrow> '''')
     | None \<Rightarrow> '''')"

definition current :: "kernel \<Rightarrow> string \<Rightarrow> string option \<Rightarrow> string option \<Rightarrow> act list" where
  "current k verb key delete =
     (let writes = acts_of k verb;
          replacers = writes @ (case delete of Some d \<Rightarrow> acts_of k d | None \<Rightarrow> []);
          replaced = bs_of_list (concat (map (\<lambda>r. map (\<lambda>a. (key_of key r, a)) (replaces_of r)) replacers))
      in filter (\<lambda>w. (key_of key w, act_address w) \<notin> set replaced) writes)"

definition current_by_signer :: "kernel \<Rightarrow> string \<Rightarrow> act list" where
  "current_by_signer k verb =
     (let writes = acts_of k verb;
          replaced = bs_of_list (concat (map (\<lambda>r. map (\<lambda>a. (act_signer r, a)) (replaces_of r)) writes))
      in filter (\<lambda>w. (act_signer w, act_address w) \<notin> set replaced) writes)"

definition initial_value :: "act list \<Rightarrow> string \<Rightarrow> state_value" where
  "initial_value table key = (case table of
       [a] \<Rightarrow> (case field_of a key of Some v \<Rightarrow> v | None \<Rightarrow> VAbsent)
     | _ \<Rightarrow> VAbsent)"

definition group_by_signer :: "act list \<Rightarrow> (string, act list) btmap" where
  "group_by_signer table = foldl (\<lambda>m a.
     bt_insert (act_signer a) (get_or_default m (act_signer a) @ [a]) m) [] table"

definition group_key_step ::
  "string \<Rightarrow> (string, state_value \<times> act list) btmap \<Rightarrow> act \<Rightarrow> (string, state_value \<times> act list) btmap" where
  "group_key_step key m a = (case field_of a key of
       None \<Rightarrow> m
     | Some k \<Rightarrow> (case bt_get m (render k) of
           Some (k', acts) \<Rightarrow> bt_insert (render k) (k', acts @ [a]) m
         | None \<Rightarrow> bt_insert (render k) (k, [a]) m))"

definition group_by_key :: "act list \<Rightarrow> string \<Rightarrow> (state_value \<times> act list) list" where
  "group_by_key table key = bt_values (foldl (group_key_step key) [] table)"

definition distinct_field :: "act list \<Rightarrow> string \<Rightarrow> state_value" where
  "distinct_field table key = VSet (sorted_distinct (List.map_filter (\<lambda>a. field_of a key) table))"

definition sum_field :: "act list \<Rightarrow> string \<Rightarrow> int" where
  "sum_field table key = sum_list (List.map_filter as_int (List.map_filter (\<lambda>a. field_of a key) table))"

definition lww_candidate :: "string \<Rightarrow> act \<Rightarrow> ((hlc \<times> string \<times> string) \<times> act) option" where
  "lww_candidate clock a = (case bt_get (act_fields a) clock of
       Some (Atom (Str text)) \<Rightarrow> (case hlc_parse text of
           Some ts \<Rightarrow> Some ((ts, act_signer a, act_address a), a)
         | None \<Rightarrow> None)
     | _ \<Rightarrow> None)"

definition pick_lww :: "act list \<Rightarrow> string \<Rightarrow> string \<Rightarrow> state_value" where
  "pick_lww acts key clock = (case max_by_key fst (List.map_filter (lww_candidate clock) acts) of
       Some (_, a) \<Rightarrow> (case field_of a key of Some v \<Rightarrow> v | None \<Rightarrow> VAbsent)
     | None \<Rightarrow> VAbsent)"

section \<open>Progress\<close>

definition progress_store :: "(string \<Rightarrow> string) \<Rightarrow> threaded_store \<Rightarrow> act \<Rightarrow> threaded_store" where
  "progress_store sha256 s a = (case act_simple a of
       None \<Rightarrow> s
     | Some simple \<Rightarrow> (case thread_of simple of
           None \<Rightarrow> s
         | Some thread \<Rightarrow>
             fst (append (act_address a) thread (act_message a)
               (fst (append (message_content_hash sha256 simple) thread (act_message a) s)))))"

definition progress_threads :: "act list \<Rightarrow> (string, act list) btmap" where
  "progress_threads acts = foldl (\<lambda>m a. case Option.bind (act_simple a) thread_of of
       None \<Rightarrow> m
     | Some thread \<Rightarrow> bt_insert thread (get_or_default m thread @ [a]) m) [] acts"

definition thread_root :: "(string \<Rightarrow> string) \<Rightarrow> act list \<Rightarrow> content_hash option" where
  "thread_root sha256 members = Option.bind (min_by_key act_address
     (filter (\<lambda>a. wrapper_type_of (act_message a) = Some WithRoles \<and> act_predecessors a = []) members))
     (\<lambda>a. map_option (message_content_hash sha256) (act_simple a))"

text \<open>The ranks, counted from one, at which an act stands in the chain of positions.\<close>

definition act_ranks :: "rows_table \<Rightarrow> string list \<Rightarrow> act \<Rightarrow> nat list" where
  "act_ranks rows chain a = map fst (filter (\<lambda>(_, name). bt_get rows (act_address a, name) = Some Valid)
     (zip [1..<Suc (length chain)] chain))"

definition accepted_positions ::
  "(string \<Rightarrow> string) \<Rightarrow> causal_protocol \<Rightarrow> string \<Rightarrow> act list \<Rightarrow> nat list option" where
  "accepted_positions sha256 cp verb acts = (case position_chain cp verb of
       Inl _ \<Rightarrow> Some []
     | Inr chain \<Rightarrow>
         if list_ex (\<lambda>a. act_simple a = None) acts then None
         else (let store = foldl (progress_store sha256) new_store acts
               in Some (concat (map (\<lambda>(thread, members).
                    let rows = resolution_rows store cp thread (thread_root sha256 members) (map act_address members)
                    in concat (map (act_ranks rows chain) (filter (\<lambda>a. act_verb a = verb) members)))
                    (progress_threads acts)))))"

section \<open>Rules\<close>

definition histogram_step ::
  "(string, state_value \<times> int) btmap \<Rightarrow> state_value \<times> state_value \<Rightarrow> (string, state_value \<times> int) btmap" where
  "histogram_step hist entry =
     (let v = (case snd entry of VPair _ value \<Rightarrow> value | other \<Rightarrow> other)
      in if v = VAbsent then hist
         else (case bt_get hist (render v) of
             Some (w, n) \<Rightarrow> bt_insert (render v) (w, n + 1) hist
           | None \<Rightarrow> bt_insert (render v) (v, 1) hist))"

definition done_map :: "(string \<times> state_value) list \<Rightarrow> string \<Rightarrow> (state_value \<times> state_value) list" where
  "done_map done field = (case find (\<lambda>(n, _). n = field) done of
       Some (_, VMap es) \<Rightarrow> es | _ \<Rightarrow> [])"

definition event_entry :: "string \<Rightarrow> act \<Rightarrow> (state_value \<times> state_value) option" where
  "event_entry key a = map_option (\<lambda>v. (VStr (act_address a), VPair (act_signer a) v)) (field_of a key)"

definition list_max :: "nat list \<Rightarrow> nat" where
  "list_max ns = foldl max 0 ns"

definition eval_rule ::
  "(string \<Rightarrow> string) \<Rightarrow> kernel \<Rightarrow> (string \<times> state_value) list \<Rightarrow> causal_protocol option \<Rightarrow> rule \<Rightarrow>
    state_value option" where
  "eval_rule sha256 k done protocol r = (case r of
       BoundedCounter c \<Rightarrow> map_option outcome_value (observe sha256 c (k_acts k))
     | LwwRegister verb key clock \<Rightarrow> Some (pick_lww (acts_of k verb) key clock)
     | LwwPerSigner verb key clock \<Rightarrow> Some (VMap (map (\<lambda>(s, t). (VStr s, pick_lww t key clock))
         (group_by_signer (current_by_signer k verb))))
     | LwwMap verb key v clock delete \<Rightarrow> Some (VMap (map (\<lambda>(kk, t). (kk, pick_lww t v clock))
         (group_by_key (current k verb (Some key) delete) key)))
     | Initial verb key \<Rightarrow> Some (initial_value (filter (\<lambda>a. act_verb a = verb) (k_acts k)) key)
     | Exists verb \<Rightarrow> Some (VBool (acts_of k verb \<noteq> []))
     | Count verb \<Rightarrow> Some (VInt (int (length (acts_of k verb))))
     | Progress verb \<Rightarrow> (case protocol of
           None \<Rightarrow> Some (VInt 0)
         | Some cp \<Rightarrow> map_option (\<lambda>ps. VInt (int (list_max ps))) (accepted_positions sha256 cp verb (k_acts k)))
     | Events verb key \<Rightarrow> Some (VMap (sort_key (\<lambda>e. render (fst e))
         (List.map_filter (event_entry key) (acts_of k verb))))
     | SetUnion verb key \<Rightarrow> Some (distinct_field (acts_of k verb) key)
     | Values verb key \<Rightarrow> Some (distinct_field (current k verb None None) key)
     | ValuesPerKey verb key v delete \<Rightarrow> Some (VMap (map (\<lambda>(kk, t). (kk, distinct_field t v))
         (group_by_key (current k verb (Some key) delete) key)))
     | ObservedSet add remove key \<Rightarrow> Some (distinct_field (current k add (Some key) (Some remove)) key)
     | Counter inc dec key \<Rightarrow> Some (VInt (sum_field (acts_of k inc) key - sum_field (acts_of k dec) key))
     | Histogram field \<Rightarrow> Some (VMap (map (\<lambda>(v, n). (v, VInt n))
         (bt_values (foldl histogram_step [] (done_map done field)))))
     | SumOf field \<Rightarrow> Some (VInt (sum_list (List.map_filter (\<lambda>(_, v). as_int v) (done_map done field)))))"

definition allowed_values :: "(string \<Rightarrow> string) \<Rightarrow> kernel \<Rightarrow> rule option \<Rightarrow> state_value list option" where
  "allowed_values sha256 bare r = (case r of
       None \<Rightarrow> Some []
     | Some r \<Rightarrow> map_option (\<lambda>v. case v of VList items \<Rightarrow> items | VSet items \<Rightarrow> items | _ \<Rightarrow> [])
         (eval_rule sha256 bare [] None r))"

definition kernel_for :: "(string \<Rightarrow> string) \<Rightarrow> state_clause \<Rightarrow> act list \<Rightarrow> kernel option" where
  "kernel_for sha256 clause acts =
     (let accepted = dedup_by_address acts;
          bare = \<lparr>k_acts = accepted, k_domains = []\<rparr>
      in map_option (\<lambda>domains. \<lparr>k_acts = accepted, k_domains = domains\<rparr>)
           (those (map (\<lambda>(verb, key, field). map_option (\<lambda>allowed. (verb, key, allowed))
              (allowed_values sha256 bare (rule_of clause field))) (clause_domains clause))))"

fun fold_fields ::
  "(string \<Rightarrow> string) \<Rightarrow> kernel \<Rightarrow> causal_protocol option \<Rightarrow> act list \<Rightarrow> (string \<times> rule) list \<Rightarrow>
    (string \<times> state_value) list \<Rightarrow> (string \<times> state_value) list option" where
  "fold_fields sha256 k protocol acts [] done = Some done"
| "fold_fields sha256 k protocol acts ((name, r) # rest) done =
     (case (case r of
         BoundedCounter c \<Rightarrow> map_option outcome_value (observe sha256 c acts)
       | _ \<Rightarrow> eval_rule sha256 k done protocol r) of
        None \<Rightarrow> None
      | Some v \<Rightarrow> fold_fields sha256 k protocol acts rest (done @ [(name, v)]))"

definition fold_state ::
  "(string \<Rightarrow> string) \<Rightarrow> state_clause \<Rightarrow> causal_protocol option \<Rightarrow> act list \<Rightarrow> (string \<times> state_value) list option" where
  "fold_state sha256 clause protocol acts =
     Option.bind (kernel_for sha256 clause acts)
       (\<lambda>k. fold_fields sha256 k protocol acts (clause_fields clause) [])"

section \<open>The accepted set\<close>

lemma set_dedup_acts:
  "inj_on act_address (set acts) \<Longrightarrow> set (dedup_acts acts seen) = {a \<in> set acts. act_address a \<notin> set seen}"
proof (induction acts seen rule: dedup_acts.induct)
  case (2 a acts seen)
  have inj: "inj_on act_address (set acts)" using 2(3) by simp
  have same: "b = a" if "b \<in> set acts" "act_address b = act_address a" for b
    using inj_onD [OF 2(3), of b a] that by simp
  show ?case
  proof (cases "act_address a \<in> set seen")
    case True
    then show ?thesis using 2(1) [OF True inj] by auto
  next
    case False
    then show ?thesis using 2(2) [OF False inj] same by auto
  qed
qed simp

lemma addresses_dedup_acts: "distinct (map act_address (dedup_acts acts seen)) \<and>
    act_address ` set (dedup_acts acts seen) \<inter> set seen = {}"
  by (induction acts seen rule: dedup_acts.induct) auto

lemma distinct_dedup: "distinct (map act_address (dedup_by_address acts))"
  unfolding dedup_by_address_def using addresses_dedup_acts by blast

text \<open>Lists of acts that hold the same acts, each address once.\<close>

definition alike :: "act list \<Rightarrow> act list \<Rightarrow> bool" where
  "alike xs ys \<longleftrightarrow> mset xs = mset ys \<and> distinct (map act_address xs)"

lemma alike_dedup:
  assumes "inj_on act_address (set xs)" "set xs = set ys"
  shows "alike (dedup_by_address xs) (dedup_by_address ys)"
proof -
  have "set (dedup_by_address xs) = set (dedup_by_address ys)"
    using assms by (simp add: dedup_by_address_def set_dedup_acts)
  moreover have "distinct (dedup_by_address xs)" "distinct (dedup_by_address ys)"
    using distinct_dedup by (metis distinct_map)+
  ultimately show ?thesis using distinct_dedup by (simp add: alike_def set_eq_iff_mset_eq_distinct)
qed

lemma alike_filter: "alike xs ys \<Longrightarrow> alike (filter P xs) (filter P ys)"
  by (simp add: alike_def mset_filter distinct_map_filter)

lemma alike_set: "alike xs ys \<Longrightarrow> set xs = set ys"
  unfolding alike_def by (metis set_mset_mset)

lemma alike_length: "alike xs ys \<Longrightarrow> length xs = length ys"
  unfolding alike_def by (metis size_mset)

lemma alike_inj: "alike xs ys \<Longrightarrow> inj_on act_address (set xs)"
  by (simp add: alike_def distinct_map)

lemma mset_map_filter: "mset (List.map_filter f xs) = image_mset (\<lambda>x. the (f x)) (filter_mset (\<lambda>x. f x \<noteq> None) (mset xs))"
  by (simp add: map_filter_def mset_filter comp_def)

lemma alike_map_filter: "alike xs ys \<Longrightarrow> mset (List.map_filter f xs) = mset (List.map_filter f ys)"
  by (simp add: alike_def mset_map_filter)

lemma alike_empty: "alike xs ys \<Longrightarrow> xs = [] \<longleftrightarrow> ys = []"
  using alike_length by fastforce

section \<open>Reductions\<close>

lemma data_value_field: "field_of a key = Some v \<Longrightarrow> data_value v"
  by (auto simp: field_of_def)

lemma alike_acts_of:
  "alike (k_acts k) (k_acts k') \<Longrightarrow> k_domains k = k_domains k' \<Longrightarrow> alike (acts_of k verb) (acts_of k' verb)"
  unfolding acts_of_def by (simp add: alike_filter)

lemma alike_current:
  assumes "alike (k_acts k) (k_acts k')" "k_domains k = k_domains k'"
  shows "alike (current k verb key delete) (current k' verb key delete)"
proof -
  have w: "alike (acts_of k verb) (acts_of k' verb)" by (rule alike_acts_of [OF assms])
  have "set (acts_of k v) = set (acts_of k' v)" for v by (rule alike_set [OF alike_acts_of [OF assms]])
  then have "set (concat (map (\<lambda>r. map (\<lambda>a. (key_of key r, a)) (replaces_of r))
        (acts_of k verb @ (case delete of Some d \<Rightarrow> acts_of k d | None \<Rightarrow> [])))) =
      set (concat (map (\<lambda>r. map (\<lambda>a. (key_of key r, a)) (replaces_of r))
        (acts_of k' verb @ (case delete of Some d \<Rightarrow> acts_of k' d | None \<Rightarrow> []))))"
    by (cases delete) simp_all
  then show ?thesis unfolding current_def Let_def set_bs_of_list using alike_filter [OF w] by simp
qed

lemma alike_current_by_signer:
  assumes "alike (k_acts k) (k_acts k')" "k_domains k = k_domains k'"
  shows "alike (current_by_signer k verb) (current_by_signer k' verb)"
proof -
  have w: "alike (acts_of k verb) (acts_of k' verb)" by (rule alike_acts_of [OF assms])
  show ?thesis
    unfolding current_by_signer_def Let_def set_bs_of_list set_concat set_map alike_set [OF w]
    by (rule alike_filter [OF w])
qed

lemma alike_initial: "alike xs ys \<Longrightarrow> initial_value xs key = initial_value ys key"
proof -
  assume a: "alike xs ys"
  show ?thesis
  proof (cases "length xs = 1")
    case True
    then obtain x where x: "xs = [x]" by (cases xs) auto
    then have "ys = [x]" using alike_length [OF a] alike_set [OF a] by (cases ys) auto
    then show ?thesis using x by simp
  next
    case False
    then have "length ys \<noteq> 1" using alike_length [OF a] by simp
    then show ?thesis using False by (auto simp: initial_value_def split: list.splits)
  qed
qed

lemma alike_distinct_field:
  assumes "alike xs ys" shows "distinct_field xs key = distinct_field ys key"
proof -
  have "list_all data_value (List.map_filter (\<lambda>a. field_of a key) xs)"
    using data_value_field by (auto simp: list_all_iff set_map_filter)
  moreover have "set (List.map_filter (\<lambda>a. field_of a key) xs) = set (List.map_filter (\<lambda>a. field_of a key) ys)"
    using alike_set [OF assms] by (simp add: set_map_filter)
  ultimately show ?thesis unfolding distinct_field_def by (simp add: sorted_distinct_cong)
qed

lemma alike_sum_field: "alike xs ys \<Longrightarrow> sum_field xs key = sum_field ys key"
proof -
  assume "alike xs ys"
  then have "mset (List.map_filter (\<lambda>a. field_of a key) xs) = mset (List.map_filter (\<lambda>a. field_of a key) ys)"
    by (rule alike_map_filter)
  then have "mset (List.map_filter as_int (List.map_filter (\<lambda>a. field_of a key) xs)) =
      mset (List.map_filter as_int (List.map_filter (\<lambda>a. field_of a key) ys))" by (simp add: mset_map_filter)
  then show ?thesis unfolding sum_field_def by (metis sum_mset_sum_list)
qed

lemma alike_pick_lww:
  assumes "alike xs ys" shows "pick_lww xs key clock = pick_lww ys key clock"
proof -
  let ?f = "List.map_filter (lww_candidate clock)"
  have cand: "snd c = a \<and> snd (snd (fst c)) = act_address a" if "lww_candidate clock a = Some c" for a c
    using that by (auto simp: lww_candidate_def split: option.splits sexpr.splits atom.splits)
  have "inj_on fst (set (?f xs))"
  proof (rule inj_onI)
    fix c d assume "c \<in> set (?f xs)" "d \<in> set (?f xs)" "fst c = fst d"
    then show "c = d"
      using alike_inj [OF assms] cand by (auto simp: set_map_filter inj_on_def prod_eq_iff)
  qed
  moreover have "set (?f xs) = set (?f ys)" using alike_set [OF assms] by (simp add: set_map_filter)
  ultimately have "max_by_key fst (?f xs) = max_by_key fst (?f ys)" by (intro max_by_key_cong)
  then show ?thesis by (simp only: pick_lww_def)
qed

section \<open>Groups\<close>

text \<open>Collecting acts under a key, in order of arrival: the grouping by signer and by thread.\<close>

definition group_on :: "(act \<Rightarrow> string option) \<Rightarrow> act list \<Rightarrow> (string, act list) btmap" where
  "group_on key xs = foldl (\<lambda>m a. case key a of
     None \<Rightarrow> m | Some k \<Rightarrow> bt_insert k (get_or_default m k @ [a]) m) [] xs"

lemma group_by_signer_eq: "group_by_signer xs = group_on (\<lambda>a. Some (act_signer a)) xs"
  by (simp add: group_by_signer_def group_on_def)

lemma progress_threads_eq: "progress_threads xs = group_on (\<lambda>a. Option.bind (act_simple a) thread_of) xs"
  by (simp add: progress_threads_def group_on_def)

definition some_list :: "'a list \<Rightarrow> 'a list option" where
  "some_list xs = (if xs = [] then None else Some xs)"

lemma group_on_spec:
  "bt_sorted (group_on key xs) \<and> (\<forall>k. bt_get (group_on key xs) k = some_list (filter (\<lambda>a. key a = Some k) xs))"
proof (induction xs rule: rev_induct)
  case (snoc a xs)
  then show ?case
    by (cases "key a") (auto simp: group_on_def some_list_def get_or_default_def)
qed (simp add: group_on_def some_list_def)

lemma bt_get_map: "bt_get (map (\<lambda>(k, v). (k, h k v)) m) k = map_option (h k) (bt_get m k)"
  by (induction m) auto

lemma bt_sorted_map: "bt_sorted m \<Longrightarrow> bt_sorted (map (\<lambda>(k, v). (k, h k v)) m)"
  by (simp add: bt_sorted_def comp_def case_prod_beta)

lemma group_on_alike:
  assumes "alike xs ys" "\<And>k a b. alike a b \<Longrightarrow> set a \<subseteq> set xs \<Longrightarrow> h k a = h k b"
  shows "map (\<lambda>(k, t). (k, h k t)) (group_on key xs) = map (\<lambda>(k, t). (k, h k t)) (group_on key ys)"
proof (rule bt_sorted_eqI)
  have "map_option (h k) (some_list (filter (\<lambda>a. key a = Some k) xs)) =
      map_option (h k) (some_list (filter (\<lambda>a. key a = Some k) ys))" for k
  proof -
    have al: "alike (filter (\<lambda>a. key a = Some k) xs) (filter (\<lambda>a. key a = Some k) ys)"
      by (rule alike_filter [OF assms(1)])
    have "h k (filter (\<lambda>a. key a = Some k) xs) = h k (filter (\<lambda>a. key a = Some k) ys)"
      by (rule assms(2) [OF al]) auto
    then show ?thesis
      using alike_empty [OF al]
      by (cases "filter (\<lambda>a. key a = Some k) xs = []") (simp_all add: some_list_def del: filter_empty_conv)
  qed
  then show "bt_get (map (\<lambda>(k, t). (k, h k t)) (group_on key xs)) = bt_get (map (\<lambda>(k, t). (k, h k t)) (group_on key ys))"
    by (simp add: fun_eq_iff bt_get_map group_on_spec)
qed (simp_all add: bt_sorted_map group_on_spec)

definition has_rendering :: "string \<Rightarrow> string \<Rightarrow> act \<Rightarrow> bool" where
  "has_rendering key r a \<longleftrightarrow> map_option render (field_of a key) = Some r"

lemma group_key_spec:
  "bt_sorted (foldl (group_key_step key) [] xs) \<and>
   (\<forall>r. bt_get (foldl (group_key_step key) [] xs) r =
      map_option (\<lambda>t. (the (field_of (hd t) key), t)) (some_list (filter (has_rendering key r) xs)))"
proof (induction xs rule: rev_induct)
  case (snoc a xs)
  then show ?case
    by (cases "field_of a key") (auto simp: group_key_step_def some_list_def has_rendering_def)
qed (simp add: some_list_def)

lemma has_rendering_same:
  "has_rendering key r a \<Longrightarrow> has_rendering key r b \<Longrightarrow> the (field_of a key) = the (field_of b key)"
  unfolding has_rendering_def using data_value_field render_inject by (metis map_option_eq_Some option.sel)

lemma group_by_key_alike:
  assumes "alike xs ys" "\<And>a b. alike a b \<Longrightarrow> h a = h b"
  shows "map (\<lambda>(k, t). (k, h t)) (group_by_key xs key) = map (\<lambda>(k, t). (k, h t)) (group_by_key ys key)"
proof -
  let ?g = "\<lambda>xs. foldl (group_key_step key) [] xs" and ?H = "\<lambda>(k, t). (k, h t)"
  have "map_option ?H (bt_get (?g xs) r) = map_option ?H (bt_get (?g ys) r)" for r
  proof -
    let ?f = "filter (has_rendering key r)"
    have al: "alike (?f xs) (?f ys)" by (rule alike_filter [OF assms(1)])
    show ?thesis
    proof (cases "?f xs = []")
      case True
      then show ?thesis using alike_empty [OF al] group_key_spec by (simp add: some_list_def)
    next
      case False
      then have ne: "?f ys \<noteq> []" using alike_empty [OF al] by simp
      have "has_rendering key r (hd (?f xs))" "has_rendering key r (hd (?f ys))"
        using hd_in_set [OF False] hd_in_set [OF ne] by simp_all
      then have "the (field_of (hd (?f xs)) key) = the (field_of (hd (?f ys)) key)"
        by (rule has_rendering_same)
      then show ?thesis using False ne assms(2) [OF al] group_key_spec by (simp add: some_list_def)
    qed
  qed
  then have "map (\<lambda>(r, v). (r, ?H v)) (?g xs) = map (\<lambda>(r, v). (r, ?H v)) (?g ys)"
    by (intro bt_sorted_eqI) (simp_all add: fun_eq_iff bt_get_map bt_sorted_map group_key_spec)
  then have "map snd (map (\<lambda>(r, v). (r, ?H v)) (?g xs)) = map snd (map (\<lambda>(r, v). (r, ?H v)) (?g ys))"
    by (rule arg_cong)
  then show ?thesis by (simp add: group_by_key_def comp_def case_prod_beta)
qed

lemma sort_key_unique:
  assumes "mset xs = mset ys" "distinct (map f xs)" shows "sort_key f xs = sort_key f ys"
proof (rule strict_sorted_key_unique [of f])
  have d: "distinct (map f zs) \<Longrightarrow> sorted_wrt (<) (map f (sort_key f zs))" for zs
    by (simp add: strict_sorted_iff distinct_map)
  show "sorted_wrt (<) (map f (sort_key f xs))" by (rule d [OF assms(2)])
  have "mset (map f xs) = mset (map f ys)" using assms(1) by simp
  then have "distinct (map f ys)" using assms(2) by (metis mset_eq_imp_distinct_iff)
  then show "sorted_wrt (<) (map f (sort_key f ys))" by (rule d)
  show "set (sort_key f xs) = set (sort_key f ys)" using assms(1) by (metis set_mset_mset set_sort)
qed

lemma alike_events:
  assumes "alike xs ys"
  shows "sort_key (\<lambda>e. render (fst e)) (List.map_filter (event_entry key) xs) =
    sort_key (\<lambda>e. render (fst e)) (List.map_filter (event_entry key) ys)"
proof (rule sort_key_unique)
  show "mset (List.map_filter (event_entry key) xs) = mset (List.map_filter (event_entry key) ys)"
    by (rule alike_map_filter [OF assms])
  have "map (\<lambda>e. render (fst e)) (List.map_filter (event_entry key) xs) =
      map (\<lambda>a. render (VStr (act_address a))) (filter (\<lambda>a. field_of a key \<noteq> None) xs)"
    by (induction xs) (auto simp: map_filter_simps event_entry_def)
  moreover have "distinct (map act_address (filter (\<lambda>a. field_of a key \<noteq> None) xs))"
    using assms by (simp add: alike_def distinct_map_filter)
  moreover have "inj_on (\<lambda>a. render (VStr (act_address a))) A \<longleftrightarrow> inj_on act_address A" for A :: "act set"
    using render_inject [of "VStr _" "VStr _"] by (auto simp: inj_on_def simp del: render.simps)
  ultimately show "distinct (map (\<lambda>e. render (fst e)) (List.map_filter (event_entry key) xs))"
    by (simp add: distinct_map del: render.simps)
qed

section \<open>Progress is a function of the set\<close>

definition meta_rel :: "threaded_store \<Rightarrow> thread_id \<Rightarrow> (content_hash \<times> content_hash) set" where
  "meta_rel s t = {(a, b). \<exists>verb cause. metadata s a t = Some (verb, cause) \<and> b \<in> set (caused_refs cause)}"

lemma resolve_loop_get:
  assumes "meta_rel s t `` set seen \<subseteq> set seen \<union> set todo" "bt_sorted ms"
    "\<forall>h. bt_get ms h = (if h \<in> set seen then metadata s h t else None)"
  shows "bt_sorted (resolve_loop s t todo seen ms) \<and>
    (\<forall>h. bt_get (resolve_loop s t todo seen ms) h =
       (if h \<in> (meta_rel s t)\<^sup>* `` (set seen \<union> set todo) then metadata s h t else None))"
  using assms
proof (induction s t todo seen ms rule: resolve_loop.induct)
  case (1 s t seen ms)
  then show ?case using closed_reach [of "meta_rel s t" "set seen"] by simp
next
  case (2 s t h todo seen ms)
  show ?case
  proof (cases "h \<in> set seen")
    case True
    then have "insert h (set seen \<union> set todo) = set seen \<union> set todo" by blast
    then show ?thesis using 2(1) [OF True] 2(4-6) True by simp
  next
    case False
    show ?thesis
    proof (cases "metadata s h t")
      case None
      then have "meta_rel s t `` {h} = {}" by (auto simp: meta_rel_def)
      then have "meta_rel s t `` set (bs_insert h seen) \<subseteq> set (bs_insert h seen) \<union> set todo"
        using 2(4) by auto
      then show ?thesis
        using 2(2) [OF False None] 2(5,6) False None by (simp add: insert_commute)
    next
      case (Some vc)
      obtain verb cause where vc: "vc = (verb, cause)" by (cases vc)
      let ?seen = "bs_insert h seen" and ?todo = "push_refs [] (caused_refs cause) todo"
      have refs: "set (caused_refs cause) = meta_rel s t `` {h}" using Some vc by (auto simp: meta_rel_def)
      have closed: "meta_rel s t `` set ?seen \<subseteq> set ?seen \<union> set ?todo"
        using 2(4) refs by (auto simp: set_push_refs)
      have reach: "(meta_rel s t)\<^sup>* `` (set ?seen \<union> set ?todo) = (meta_rel s t)\<^sup>* `` (set seen \<union> set (h # todo))"
      proof -
        have "set ?seen \<union> set ?todo = insert h (set seen) \<union> (set todo \<union> (set (caused_refs cause) - insert h (set seen)))"
          by (auto simp: set_push_refs)
        then show ?thesis using reach_push [OF refs, of "set seen" "set todo"] by simp
      qed
      have "\<forall>k. bt_get (bt_insert h (verb, cause) ms) k = (if k \<in> set ?seen then metadata s k t else None)"
        using 2(6) Some vc by simp
      then show ?thesis
        using 2(3) [OF False Some vc [symmetric] closed] 2(5) False Some vc reach by simp
    qed
  qed
qed

text \<open>Two stores that give the same evidence about the messages of a thread.\<close>

definition same_evidence :: "threaded_store \<Rightarrow> threaded_store \<Rightarrow> thread_id \<Rightarrow> bool" where
  "same_evidence s s' t \<longleftrightarrow> (\<forall>h. metadata s h t = metadata s' h t) \<and>
     (\<forall>h. predecessor_type s h t = predecessor_type s' h t)"

lemma resolve_loop_cong:
  assumes "same_evidence s s' t" "set hs = set hs'"
  shows "resolve_loop s t (rev hs) [] [] = resolve_loop s' t (rev hs') [] []"
proof (rule bt_sorted_eqI)
  have rel: "meta_rel s t = meta_rel s' t" using assms(1) by (simp add: meta_rel_def same_evidence_def)
  have g: "bt_sorted (resolve_loop q t (rev ks) [] []) \<and> (\<forall>h. bt_get (resolve_loop q t (rev ks) [] []) h =
      (if h \<in> (meta_rel q t)\<^sup>* `` set ks then metadata q h t else None))" for q ks
    using resolve_loop_get [of q t "[]" "rev ks" "[]"] by simp
  show "bt_sorted (resolve_loop s t (rev hs) [] [])" "bt_sorted (resolve_loop s' t (rev hs') [] [])" using g by blast+
  show "bt_get (resolve_loop s t (rev hs) [] []) = bt_get (resolve_loop s' t (rev hs') [] [])"
    using g assms rel by (simp add: fun_eq_iff same_evidence_def)
qed

lemma same_evidenceD:
  "same_evidence s s' t \<Longrightarrow> metadata s h t = metadata s' h t"
  "same_evidence s s' t \<Longrightarrow> predecessor_type s h t = predecessor_type s' h t"
  by (simp_all add: same_evidence_def)

lemma wrong_cong: "same_evidence s s' t \<Longrightarrow> wrong s t h expected = wrong s' t h expected"
  by (simp add: wrong_def same_evidence_def)

lemma row_at_cong:
  assumes "same_evidence s s' t" shows "row_at s cp t rows h = row_at s' cp t rows h"
  unfolding row_at_def wrong_cong [OF assms] same_evidenceD [OF assms] ..

lemma fan_hashes_cong:
  assumes "same_evidence s s' t"
  shows "fan_hashes s cp t rows all_set hs found possible missing =
    fan_hashes s' cp t rows all_set hs found possible missing"
  by (induction hs arbitrary: found possible missing)
     (simp_all add: row_at_cong [OF assms] wrong_cong [OF assms] same_evidenceD [OF assms] Let_def)

lemma step_verdict_cong:
  assumes "same_evidence s s' t"
  shows "step_verdict s cp t root rows step cause = step_verdict s' cp t root rows step cause"
proof -
  have alt: "alternatives s cp t rows h allowed = alternatives s' cp t rows h allowed" for h allowed
    unfolding alternatives_def row_at_cong [OF assms] wrong_cong [OF assms] same_evidenceD [OF assms] ..
  show ?thesis unfolding step_verdict_def Let_def alt fan_hashes_cong [OF assms] wrong_cong [OF assms] ..
qed

lemma row_messages_cong:
  assumes "same_evidence s s' t"
  shows "row_messages s cp t root name step ms rows = row_messages s' cp t root name step ms rows"
  by (induction ms arbitrary: rows) (auto simp: step_verdict_cong [OF assms])

lemma row_steps_cong:
  assumes "same_evidence s s' t"
  shows "row_steps s cp t root ms names rows = row_steps s' cp t root ms names rows"
  by (induction names arbitrary: rows) (simp_all add: row_messages_cong [OF assms] cong: option.case_cong)

lemma resolution_rows_cong:
  assumes "same_evidence s s' t" "set hs = set hs'"
  shows "resolution_rows s cp t root hs = resolution_rows s' cp t root hs'"
  unfolding resolution_rows_def Let_def resolve_loop_cong [OF assms] row_steps_cong [OF assms(1)] ..

definition progress_entries :: "(string \<Rightarrow> string) \<Rightarrow> act \<Rightarrow> (content_hash \<times> thread_id \<times> message) list" where
  "progress_entries sha256 a = (case act_simple a of
       None \<Rightarrow> []
     | Some simple \<Rightarrow> (case thread_of simple of
           None \<Rightarrow> []
         | Some t \<Rightarrow> [(message_content_hash sha256 simple, t, act_message a), (act_address a, t, act_message a)]))"

lemma progress_store_deliver:
  "foldl (progress_store sha256) s acts = deliver s (concat (map (progress_entries sha256) acts))"
proof (induction acts arbitrary: s)
  case (Cons a acts)
  have "progress_store sha256 s a = deliver s (progress_entries sha256 a)"
    by (simp add: progress_store_def progress_entries_def deliver_def split: option.split)
  then show ?case using Cons by (simp add: deliver_def)
qed (simp add: deliver_def)

lemma genuine_address:
  "genuine sha256 a \<Longrightarrow> act_simple a = Some simple \<Longrightarrow>
     act_address a = ''sha256-'' @ hex32 (t_root (build_tree sha256 simple))"
  by (auto simp: genuine_def from_message_eq_Inr act_simple_def wire_address_eq)

lemma consistent_progress:
  assumes "coherent sha256 acts"
  shows "consistent_entries (concat (map (progress_entries sha256) acts))"
proof -
  have mem: "\<exists>a \<in> set acts. \<exists>simple. act_simple a = Some simple \<and> thread_of simple = Some t \<and> m = act_message a \<and>
      (h = ''sha256:'' @ hex32 (t_root (build_tree sha256 simple)) \<or>
       h = ''sha256-'' @ hex32 (t_root (build_tree sha256 simple))) \<and>
      act_address a = ''sha256-'' @ hex32 (t_root (build_tree sha256 simple))"
    if e: "(h, t, m) \<in> set (concat (map (progress_entries sha256) acts))" for h t m
  proof -
    obtain a where a: "a \<in> set acts" "(h, t, m) \<in> set (progress_entries sha256 a)" using e by auto
    obtain simple where s: "act_simple a = Some simple" "thread_of simple = Some t" "m = act_message a"
        "h = message_content_hash sha256 simple \<or> h = act_address a"
    proof (cases "act_simple a")
      case (Some simple)
      show ?thesis using a(2) Some by (cases "thread_of simple") (auto simp: progress_entries_def intro: that)
    qed (use a(2) in \<open>simp add: progress_entries_def\<close>)
    have "genuine sha256 a" using assms a(1) by (simp add: coherent_def)
    from genuine_address [OF this s(1)] show ?thesis
      using a(1) s by (intro bexI [of _ a] exI [of _ simple]) (auto simp: message_content_hash_def typed_root_def)
  qed
  show ?thesis
    unfolding consistent_entries_def
  proof (intro allI impI)
    fix h t m t' m'
    assume 1: "(h, t, m) \<in> set (concat (map (progress_entries sha256) acts))"
      "(h, t', m') \<in> set (concat (map (progress_entries sha256) acts))"
    obtain a sa where a: "a \<in> set acts" "act_simple a = Some sa" "thread_of sa = Some t" "m = act_message a"
      "h = ''sha256:'' @ hex32 (t_root (build_tree sha256 sa)) \<or> h = ''sha256-'' @ hex32 (t_root (build_tree sha256 sa))"
      "act_address a = ''sha256-'' @ hex32 (t_root (build_tree sha256 sa))" using mem [OF 1(1)] by blast
    obtain b sb where b: "b \<in> set acts" "act_simple b = Some sb" "thread_of sb = Some t'" "m' = act_message b"
      "h = ''sha256:'' @ hex32 (t_root (build_tree sha256 sb)) \<or> h = ''sha256-'' @ hex32 (t_root (build_tree sha256 sb))"
      "act_address b = ''sha256-'' @ hex32 (t_root (build_tree sha256 sb))" using mem [OF 1(2)] by blast
    have "act_address a = act_address b" using a(5,6) b(5,6) by auto
    then have "a = b" using a(1) b(1) assms by (auto simp: coherent_def dest: inj_onD)
    then show "t = t' \<and> m = m'" using a b by simp
  qed
qed

lemma deliver_shelves: "envelopes (deliver s xs) = envelopes s" "opened (deliver s xs) = opened s"
  by (induction xs arbitrary: s) (auto simp: deliver_def)

lemma progress_evidence:
  assumes "coherent sha256 xs" "set xs = set ys"
  shows "same_evidence (foldl (progress_store sha256) new_store xs) (foldl (progress_store sha256) new_store ys) t"
proof -
  let ?e = "\<lambda>xs. concat (map (progress_entries sha256) xs)"
  have look: "lookup_in_thread (deliver new_store (?e ys)) = lookup_in_thread (deliver new_store (?e xs))"
    using deliver_converges [OF reachable_wf [of sha256 new_store] consistent_progress [OF assms(1)], of "?e ys"] assms(2)
    by simp
  have shelf: "envelope_in_thread (deliver new_store (?e ys)) = envelope_in_thread (deliver new_store (?e xs))"
    "opened_in_thread (deliver new_store (?e ys)) = opened_in_thread (deliver new_store (?e xs))"
    by (intro ext; simp only: envelope_in_thread_def opened_in_thread_def deliver_shelves)+
  show ?thesis
    unfolding progress_store_deliver same_evidence_def metadata_def predecessor_type_def look shelf by blast
qed

lemma list_max_eq: "list_max ns = Max (insert 0 (set ns))"
proof -
  have "foldl max m ns = Max (insert m (set ns))" for m
  proof (induction ns arbitrary: m)
    case (Cons n ns)
    then show ?case by (cases "ns = []") (simp_all add: max.commute max.left_commute)
  qed simp
  then show ?thesis by (simp add: list_max_def)
qed

lemma progress_alike:
  assumes "coherent sha256 xs" "alike xs ys"
  shows "map_option list_max (accepted_positions sha256 cp verb xs) =
    map_option list_max (accepted_positions sha256 cp verb ys)"
proof (cases "position_chain cp verb")
  case (Inr chain)
  have sets: "set xs = set ys" by (rule alike_set [OF assms(2)])
  have gen: "\<not> list_ex (\<lambda>a. act_simple a = None) xs" "\<not> list_ex (\<lambda>a. act_simple a = None) ys"
    using assms(1) sets genuine_simple by (auto simp: coherent_def list_ex_iff)
  let ?s = "\<lambda>xs. foldl (progress_store sha256) new_store xs"
  define F where "F store thread members =
    (let rows = resolution_rows store cp thread (thread_root sha256 members) (map act_address members)
     in concat (map (act_ranks rows chain) (filter (\<lambda>a. act_verb a = verb) members)))" for store thread members
  have ap: "accepted_positions sha256 cp verb zs =
      Some (concat (map (\<lambda>(t, ms). F (?s zs) t ms) (progress_threads zs)))"
    if "\<not> list_ex (\<lambda>a. act_simple a = None) zs" for zs
    using that Inr by (simp add: accepted_positions_def F_def Let_def)
  have store: "F (?s xs) t ms = F (?s ys) t ms" for t ms
    unfolding F_def Let_def resolution_rows_cong [OF progress_evidence [OF assms(1) sets] refl] ..
  have "set (F (?s ys) t a) = set (F (?s ys) t b)" if al: "alike a b" for t a b
  proof -
    let ?P = "\<lambda>a. wrapper_type_of (act_message a) = Some WithRoles \<and> act_predecessors a = []"
    have "thread_root sha256 a = thread_root sha256 b"
      unfolding thread_root_def
      using min_by_key_cong [OF alike_set [OF alike_filter [OF al, of ?P]] alike_inj [OF alike_filter [OF al, of ?P]]]
      by simp
    moreover have "resolution_rows (?s ys) cp t root (map act_address a) = resolution_rows (?s ys) cp t root (map act_address b)"
      for root
      using alike_set [OF al] by (intro resolution_rows_cong) (simp_all add: same_evidence_def)
    ultimately show ?thesis using alike_set [OF al] by (simp add: F_def Let_def)
  qed
  then have "map (\<lambda>(t, ms). (t, set (F (?s ys) t ms))) (progress_threads xs) =
      map (\<lambda>(t, ms). (t, set (F (?s ys) t ms))) (progress_threads ys)"
    unfolding progress_threads_eq by (intro group_on_alike [OF assms(2)]) blast
  then have "\<Union> (set (map snd (map (\<lambda>(t, ms). (t, set (F (?s ys) t ms))) (progress_threads xs)))) =
      \<Union> (set (map snd (map (\<lambda>(t, ms). (t, set (F (?s ys) t ms))) (progress_threads ys))))" by simp
  then have "set (concat (map (\<lambda>(t, ms). F (?s ys) t ms) (progress_threads xs))) =
      set (concat (map (\<lambda>(t, ms). F (?s ys) t ms) (progress_threads ys)))"
    by (simp add: case_prod_beta)
  then show ?thesis unfolding ap [OF gen(1)] ap [OF gen(2)] store by (simp add: list_max_eq)
qed (simp add: accepted_positions_def)

section \<open>The fold is a function of the set of acts\<close>

lemma coherent_dedup: "coherent sha256 xs \<Longrightarrow> coherent sha256 (dedup_by_address xs)"
  by (auto simp: coherent_def dedup_by_address_def set_dedup_acts inj_on_def)

lemma eval_rule_alike:
  assumes "coherent sha256 (k_acts k)" "alike (k_acts k) (k_acts k')" "k_domains k = k_domains k'"
  shows "eval_rule sha256 k done protocol r = eval_rule sha256 k' done protocol r"
proof -
  note al = alike_acts_of [OF assms(2,3)]
  note cur = alike_current [OF assms(2,3)]
  show ?thesis
  proof (cases r)
    case (BoundedCounter c)
    then show ?thesis using observe_cong [OF assms(1) alike_set [OF assms(2)]] by (simp add: eval_rule_def)
  next
    case (LwwPerSigner verb key clock)
    have split: "map (\<lambda>(s, t). (VStr s, pick_lww t key clock)) m =
        map (\<lambda>(s, v). (VStr s, v)) (map (\<lambda>(s, t). (s, pick_lww t key clock)) m)" for m :: "(string, act list) btmap"
      by (simp add: case_prod_beta)
    have "map (\<lambda>(s, t). (s, pick_lww t key clock)) (group_on (\<lambda>a. Some (act_signer a)) (current_by_signer k verb)) =
        map (\<lambda>(s, t). (s, pick_lww t key clock)) (group_on (\<lambda>a. Some (act_signer a)) (current_by_signer k' verb))"
      by (rule group_on_alike [OF alike_current_by_signer [OF assms(2,3)]]) (rule alike_pick_lww)
    then show ?thesis unfolding LwwPerSigner eval_rule_def group_by_signer_eq rule.case split by simp
  next
    case (LwwMap verb key v clock delete)
    then show ?thesis
      using group_by_key_alike [OF cur, of "\<lambda>t. pick_lww t v clock"] alike_pick_lww by (simp add: eval_rule_def)
  next
    case (ValuesPerKey verb key v delete)
    then show ?thesis
      using group_by_key_alike [OF cur, of "\<lambda>t. distinct_field t v"] alike_distinct_field by (simp add: eval_rule_def)
  next
    case (Progress verb)
    have "map_option (\<lambda>ps. VInt (int (list_max ps))) p = map_option (\<lambda>n. VInt (int n)) (map_option list_max p)" for p
      by (simp add: option.map_comp comp_def)
    then show ?thesis
      using Progress progress_alike [OF assms(1,2)] by (cases protocol) (simp_all add: eval_rule_def)
  qed (use alike_pick_lww [OF al] alike_initial [OF alike_filter [OF assms(2)]] alike_empty [OF al] alike_length [OF al]
        alike_events [OF al] alike_distinct_field [OF al] alike_distinct_field [OF cur] alike_sum_field [OF al]
      in \<open>simp_all add: eval_rule_def\<close>)
qed

lemma kernel_for_alike:
  assumes "coherent sha256 xs" "set xs = set ys"
  shows "rel_option (\<lambda>k k'. k_acts k = dedup_by_address xs \<and> k_acts k' = dedup_by_address ys \<and> k_domains k = k_domains k')
    (kernel_for sha256 clause xs) (kernel_for sha256 clause ys)"
proof -
  let ?bare = "\<lambda>zs. \<lparr>k_acts = dedup_by_address zs, k_domains = []\<rparr>"
  have "alike (dedup_by_address xs) (dedup_by_address ys)"
    using assms by (intro alike_dedup) (simp_all add: coherent_def)
  then have "eval_rule sha256 (?bare xs) [] None r = eval_rule sha256 (?bare ys) [] None r" for r
    using coherent_dedup [OF assms(1)] by (intro eval_rule_alike) simp_all
  then have "allowed_values sha256 (?bare xs) r = allowed_values sha256 (?bare ys) r" for r
    by (cases r) (simp_all add: allowed_values_def)
  then show ?thesis unfolding kernel_for_def Let_def by (simp add: option.rel_map option.rel_refl)
qed

lemma fold_fields_alike:
  assumes "coherent sha256 xs" "set xs = set ys" "k_acts k = dedup_by_address xs" "k_acts k' = dedup_by_address ys"
    "k_domains k = k_domains k'"
  shows "fold_fields sha256 k protocol xs rules done = fold_fields sha256 k' protocol ys rules done"
proof (induction rules arbitrary: "done")
  case (Cons nr rules)
  have "alike (k_acts k) (k_acts k')"
    using assms by (simp add: alike_dedup coherent_def)
  then have "eval_rule sha256 k done protocol r = eval_rule sha256 k' done protocol r" for r
    using coherent_dedup [OF assms(1)] assms(3,5) by (intro eval_rule_alike) simp_all
  then show ?case
    using Cons observe_cong [OF assms(1,2)] by (cases nr; cases "snd nr") (simp_all cong: option.case_cong)
qed simp

section \<open>The fold always has a value\<close>

lemma accepted_positions_total:
  "\<forall>a \<in> set acts. genuine sha256 a \<Longrightarrow> accepted_positions sha256 cp verb acts \<noteq> None"
  using genuine_simple by (fastforce simp: accepted_positions_def list_ex_iff Let_def split: sum.split)

lemma eval_rule_total:
  "\<forall>a \<in> set (k_acts k). genuine sha256 a \<Longrightarrow> eval_rule sha256 k done protocol r \<noteq> None"
  using observe_total accepted_positions_total
  by (cases r) (auto simp: eval_rule_def split: option.splits)

lemma set_dedup_subset: "set (dedup_by_address acts) \<subseteq> set acts"
proof -
  have "set (dedup_acts acts seen) \<subseteq> set acts" for seen
    by (induction acts seen rule: dedup_acts.induct) auto
  then show ?thesis by (simp add: dedup_by_address_def)
qed

lemma kernel_for_total:
  assumes "\<forall>a \<in> set acts. genuine sha256 a"
  obtains k where "kernel_for sha256 clause acts = Some k" "k_acts k = dedup_by_address acts"
proof -
  let ?bare = "\<lparr>k_acts = dedup_by_address acts, k_domains = []\<rparr>"
  have "\<forall>a \<in> set (k_acts ?bare). genuine sha256 a" using set_dedup_subset assms by fastforce
  then have "allowed_values sha256 ?bare r \<noteq> None" for r
    using eval_rule_total [of ?bare] by (cases r) (auto simp: allowed_values_def)
  moreover have "those (map (\<lambda>(verb, key, field). map_option (\<lambda>allowed. (verb, key, allowed))
      (allowed_values sha256 ?bare (rule_of clause field))) ds) \<noteq> None" for ds
  proof (induction ds)
    case (Cons d ds)
    obtain verb key field where d: "d = (verb, key, field)" by (cases d)
    show ?case using Cons calculation [of "rule_of clause field"] by (auto simp: d)
  qed simp
  ultimately show ?thesis using that unfolding kernel_for_def Let_def by fastforce
qed

lemma fold_fields_total:
  assumes "\<forall>a \<in> set (k_acts k). genuine sha256 a"
  shows "\<exists>vs. fold_fields sha256 k protocol acts rules done = Some (done @ vs) \<and> map fst vs = map fst rules"
proof (induction rules arbitrary: "done")
  case (Cons nr rules)
  obtain name r where nr: "nr = (name, r)" by (cases nr)
  obtain v where v: "(case r of BoundedCounter c \<Rightarrow> map_option outcome_value (observe sha256 c acts)
       | _ \<Rightarrow> eval_rule sha256 k done protocol r) = Some v"
    using eval_rule_total [OF assms, of "done" protocol r] observe_total [of sha256 _ acts] by (cases r) fastforce+
  obtain vs where "fold_fields sha256 k protocol acts rules (done @ [(name, v)]) = Some ((done @ [(name, v)]) @ vs)"
    "map fst vs = map fst rules" using Cons by blast
  then show ?case by (intro exI [of _ "(name, v) # vs"]) (simp add: nr v)
qed simp

section \<open>The observed set\<close>

lemma in_current:
  "a \<in> set (current k verb key delete) \<longleftrightarrow> a \<in> set (acts_of k verb) \<and>
     \<not> (\<exists>r \<in> set (acts_of k verb) \<union> (case delete of Some d \<Rightarrow> set (acts_of k d) | None \<Rightarrow> {}).
          key_of key r = key_of key a \<and> act_address a \<in> set (replaces_of r))"
  by (cases delete) (fastforce simp: current_def Let_def image_iff)+

lemma set_distinct_field:
  "distinct_field table key = VSet vs \<Longrightarrow> set vs = {v. \<exists>a \<in> set table. field_of a key = Some v}"
proof -
  have "list_all data_value (List.map_filter (\<lambda>a. field_of a key) table)"
    using data_value_field by (auto simp: list_all_iff set_map_filter)
  then have "inj_on render (set (List.map_filter (\<lambda>a. field_of a key) table))" by (rule inj_on_render)
  from set_sorted_distinct [OF this] show "distinct_field table key = VSet vs \<Longrightarrow> ?thesis"
    by (auto simp: distinct_field_def set_map_filter)
qed

section \<open>Properties\<close>

text \<open>C23: The fold of a state clause is a function of the set of accepted acts. For a history of acts that are the
  views of their messages and share no address, every other presentation of the same acts (reordered, with
  repetitions) folds, under every clause and protocol and whatever the digest, to the same fields with the same
  values; and the fold has a value, with the fields of the clause in their order.\<close>

theorem fold_set_function:
  assumes "coherent sha256 acts"
  shows "(\<exists>vs. fold_state sha256 clause protocol acts = Some vs \<and> map fst vs = map fst (clause_fields clause) \<and>
    (\<forall>other. set other = set acts \<longrightarrow> fold_state sha256 clause protocol other = Some vs))"
proof -
  have gen: "\<forall>a \<in> set acts. genuine sha256 a" using assms by (simp add: coherent_def)
  obtain k where k: "kernel_for sha256 clause acts = Some k" "k_acts k = dedup_by_address acts"
    using kernel_for_total [OF gen] by blast
  have "\<forall>a \<in> set (k_acts k). genuine sha256 a" using gen k(2) set_dedup_subset by fastforce
  from fold_fields_total [OF this, of protocol acts "clause_fields clause" "[]"] obtain vs where
    vs: "fold_state sha256 clause protocol acts = Some vs" "map fst vs = map fst (clause_fields clause)"
    using k(1) by (auto simp: fold_state_def)
  have "fold_state sha256 clause protocol other = fold_state sha256 clause protocol acts" if o: "set other = set acts" for other
  proof -
    obtain k' where k': "kernel_for sha256 clause other = Some k'" "k_acts k' = dedup_by_address other"
        "k_domains k = k_domains k'"
      using kernel_for_alike [OF assms o [symmetric], of clause] k by (cases "kernel_for sha256 clause other") auto
    from fold_fields_alike [OF assms o [symmetric] k(2) k'(2,3)] show ?thesis
      unfolding fold_state_def k(1) k'(1) bind.bind_lunit by (rule sym)
  qed
  then show ?thesis using vs by auto
qed

definition sample_clause :: state_clause where
  "sample_clause = \<lparr>entries = [EField ''rights'' (BoundedCounter sample_rule), EField ''opened'' (Count ''open''),
     EField ''writes'' (Events ''open'' ''room'')]\<rparr>"

lemma sample_coherent: "coherent sample_digest sample_history"
  using sample_genuine by (simp add: coherent_def list_all_iff sample_history_def)

theorem fold_set_function_witness:
  "fold_state sample_digest sample_clause None (rev sample_history @ sample_history) =
     fold_state sample_digest sample_clause None sample_history"
proof -
  have "set (rev sample_history @ sample_history) = set sample_history" by simp
  then show ?thesis using fold_set_function [OF sample_coherent, of sample_clause None] by metis
qed

text \<open>An observed set keeps concurrent adds: a value is in the folded set exactly when some add carries it that
  no add and no remove of the same key names among the writes it replaces. A remove that has not seen an add
  does not undo it. The values come in the strict order of their renderings, each once.\<close>

lemma observed_set_add_wins:
  "\<exists>vs. eval_rule sha256 k done protocol (ObservedSet add remove key) = Some (VSet vs) \<and>
     sorted_wrt (<) (map render vs) \<and>
     (\<forall>v. v \<in> set vs \<longleftrightarrow> (\<exists>a \<in> set (acts_of k add). field_of a key = Some v \<and>
        \<not> (\<exists>r \<in> set (acts_of k add) \<union> set (acts_of k remove).
             key_of (Some key) r = render v \<and> act_address a \<in> set (replaces_of r))))"
proof -
  obtain vs where vs: "distinct_field (current k add (Some key) (Some remove)) key = VSet vs"
      "sorted_wrt (<) (map render vs)"
    using sorted_distinct_rendering by (auto simp: distinct_field_def)
  have "key_of (Some key) a = render v" if "field_of a key = Some v" for a v
    using that by (simp add: key_of_def)
  then show ?thesis using vs set_distinct_field [OF vs(1)] by (auto simp: eval_rule_def in_current)
qed

lemma observed_set_add_wins_witness:
  "\<exists>vs. eval_rule sample_digest \<lparr>k_acts = sample_history, k_domains = []\<rparr> [] None (ObservedSet ''open'' ''close'' ''room'') =
      Some (VSet vs) \<and> VList [VList [VStr ''@a'', VInt 7]] \<in> set vs"
proof -
  let ?k = "\<lparr>k_acts = sample_history, k_domains = []\<rparr>"
  have "sample_history ! 1 \<in> set (acts_of ?k ''open'')" by code_simp
  moreover have "field_of (sample_history ! 1) ''room'' = Some (VList [VList [VStr ''@a'', VInt 7]])" by code_simp
  moreover have "list_all (\<lambda>r. replaces_of r = []) (acts_of ?k ''open'' @ acts_of ?k ''close'')" by code_simp
  ultimately show ?thesis
    using observed_set_add_wins [of sample_digest ?k "[]" None "''open''" "''close''" "''room''"]
    by (fastforce simp: list_all_iff)
qed

text \<open>Two acts of one address that differ in their signer fold in the order of the slice: keeping the first act of an
  address does not make the fold a function of the set of an arbitrary slice.\<close>

lemma fold_slice_order:
  "\<exists>clause a b. act_address a = act_address b \<and> fold_state sha256 clause None [a, b] \<noteq> fold_state sha256 clause None [b, a]"
proof -
  let ?clause = "\<lparr>entries = [EField ''log'' (Events ''say'' ''x'')]\<rparr>"
  let ?a = "\<lambda>by. \<lparr>act_address = ''sha256-00'', act_verb = ''say'', act_signer = by, act_predecessors = [],
    act_recipients = [], act_fields = [(''x'', Atom (Num 1))],
    act_message = sample_hello\<rparr>"
  have "fold_state sha256 ?clause None [?a ''@a'', ?a ''@b''] \<noteq> fold_state sha256 ?clause None [?a ''@b'', ?a ''@a'']"
    by (simp add: fold_state_def kernel_for_def clause_domains_def clause_fields_def dedup_by_address_def eval_rule_def
        acts_of_def in_domains_def event_entry_def field_of_def map_filter_simps)
  then show ?thesis by (intro exI [of _ ?clause] exI [of _ "?a ''@a''"] exI [of _ "?a ''@b''"]) simp
qed

end
