(* ===== verification/Cbcl_Monotone.thy ===== *)
theory Cbcl_Monotone
  imports Cbcl_State
begin

text \<open>
  Verdicts of the causal verifier only become more informed as messages arrive, for protocols with repeat copies
  too: the resolver walks more citations and fills more rows, but a row that was decided keeps its verdict.
\<close>

section \<open>More informed verdicts\<close>

definition violated :: "verification_result \<Rightarrow> bool" where
  "violated v \<longleftrightarrow> v \<noteq> Valid \<and> v \<noteq> Unknown"

definition improves :: "verification_result \<Rightarrow> verification_result \<Rightarrow> bool" where
  "improves v v' \<longleftrightarrow> (v = Valid \<longrightarrow> v' = Valid) \<and> (violated v \<longrightarrow> violated v')"

lemma violated_simps [simp]: "violated (Violation e)" "\<not> violated Valid" "\<not> violated Unknown"
  by (simp_all add: violated_def)

lemma violated_wrong [simp]: "violated (wrong s t h expected)"
  by (simp add: wrong_def)

lemma improves_simps [simp]: "improves v v" "improves Unknown v" "improves Valid v \<longleftrightarrow> v = Valid" "improves (Violation e) v \<longleftrightarrow> violated v"
  by (auto simp: improves_def)

lemma improves_iff: "improves v v' \<longleftrightarrow> partial_cmp v v' \<in> {Some Less, Some Equal}"
  by (cases v; cases v') (simp_all add: improves_def partial_cmp_def)

text \<open>The verdict of a list of alternatives: valid if one is, else open if one is, else a violation.\<close>

lemma improves_alternatives:
  assumes "v = Valid \<longleftrightarrow> (\<exists>x \<in> A. f x = Valid)" "violated v \<longleftrightarrow> \<not> miss \<and> (\<forall>x \<in> A. violated (f x))"
    "v' = Valid \<longleftrightarrow> (\<exists>x \<in> A. f' x = Valid)" "violated v' \<longleftrightarrow> \<not> miss' \<and> (\<forall>x \<in> A. violated (f' x))"
    "\<And>x. x \<in> A \<Longrightarrow> improves (f x) (f' x)" "miss' \<longrightarrow> miss"
  shows "improves v v'"
  using assms unfolding improves_def by metis

section \<open>Rows\<close>

definition row_improves :: "verification_result option \<Rightarrow> verification_result option \<Rightarrow> bool" where
  "row_improves a b = (case (a, b) of (None, None) \<Rightarrow> True | (Some v, Some v') \<Rightarrow> improves v v' | _ \<Rightarrow> False)"

definition rows_improve :: "content_hash set \<Rightarrow> rows_table \<Rightarrow> rows_table \<Rightarrow> bool" where
  "rows_improve M rows rows' \<longleftrightarrow> (\<forall>h \<in> M. \<forall>n. row_improves (bt_get rows (h, n)) (bt_get rows' (h, n)))"

text \<open>The later store knows what the earlier one knows, types and causes.\<close>

definition knows_more :: "threaded_store \<Rightarrow> threaded_store \<Rightarrow> thread_id \<Rightarrow> bool" where
  "knows_more s s' t \<longleftrightarrow> extends s s' t \<and> (\<forall>h vc. metadata s h t = Some vc \<longrightarrow> metadata s' h t = Some vc)"

definition resolved_in :: "threaded_store \<Rightarrow> thread_id \<Rightarrow> content_hash set \<Rightarrow> content_hash list \<Rightarrow> bool" where
  "resolved_in s t M hs \<longleftrightarrow> (\<forall>h \<in> set hs. metadata s h t \<noteq> None \<longrightarrow> h \<in> M)"

lemma knows_moreD:
  assumes "knows_more s s' t"
  shows "predecessor_type s h t = Some p \<Longrightarrow> predecessor_type s' h t = Some p" "metadata s h t = Some vc \<Longrightarrow> metadata s' h t = Some vc"
    "predecessor_type s' h t = None \<Longrightarrow> predecessor_type s h t = None"
proof -
  show type: "predecessor_type s h t = Some p \<Longrightarrow> predecessor_type s' h t = Some p" for p
    using assms by (simp add: knows_more_def extends_def)
  show "metadata s h t = Some vc \<Longrightarrow> metadata s' h t = Some vc" using assms by (cases vc) (simp add: knows_more_def)
  show "predecessor_type s' h t = None \<Longrightarrow> predecessor_type s h t = None" using type by (cases "predecessor_type s h t") auto
qed

lemma row_at_improves:
  assumes "knows_more s s' t" "rows_improve M rows rows'" "metadata s h t \<noteq> None \<longrightarrow> h \<in> M"
  shows "improves (row_at s cp t rows h n) (row_at s' cp t rows' h n)"
proof (cases "predecessor_type s h t")
  case None
  then show ?thesis by (simp add: row_at_def)
next
  case (Some p)
  note p' = knows_moreD(1) [OF assms(1) Some]
  show ?thesis
  proof (cases "metadata s h t")
    case None
    then show ?thesis using Some p' by (simp add: row_at_def wrong_def)
  next
    case meta: (Some vc)
    then have "row_improves (bt_get rows (h, n)) (bt_get rows' (h, n))" using assms by (simp add: rows_improve_def)
    then show ?thesis
      using knows_moreD(2) [OF assms(1) meta] Some p' meta by (auto simp: row_at_def wrong_def row_improves_def split: option.splits)
  qed
qed

lemma alternatives_loop_spec:
  "case alternatives_loop f allowed miss of
     (Some r, _) \<Rightarrow> r = Valid \<and> (\<exists>n \<in> set allowed. f n = Valid)
   | (None, missing) \<Rightarrow> (\<forall>n \<in> set allowed. f n \<noteq> Valid) \<and> (missing \<longleftrightarrow> miss \<or> (\<exists>n \<in> set allowed. f n = Unknown))"
  by (induction f allowed miss rule: alternatives_loop.induct) (auto split: verification_result.splits option.splits prod.splits)

lemma alternatives_spec:
  "alternatives s cp t rows h allowed = Valid \<longleftrightarrow> (\<exists>n \<in> set allowed. row_at s cp t rows h n = Valid)"
  "violated (alternatives s cp t rows h allowed) \<longleftrightarrow>
     predecessor_type s h t \<noteq> None \<and> (\<forall>n \<in> set allowed. violated (row_at s cp t rows h n))"
  using alternatives_loop_spec [of allowed "row_at s cp t rows h" "predecessor_type s h t = None"]
  unfolding alternatives_def
  by (auto simp: violated_def wrong_def split: prod.splits option.splits bool.splits)

lemma alternatives_improve:
  assumes "knows_more s s' t" "rows_improve M rows rows'" "metadata s h t \<noteq> None \<longrightarrow> h \<in> M"
  shows "improves (alternatives s cp t rows h allowed) (alternatives s' cp t rows' h allowed)"
proof (rule improves_alternatives [OF alternatives_spec(1)])
  show "violated (alternatives s cp t rows h allowed) \<longleftrightarrow>
      \<not> predecessor_type s h t = None \<and> (\<forall>n \<in> set allowed. violated (row_at s cp t rows h n))"
    using alternatives_spec(2) by blast
  show "alternatives s' cp t rows' h allowed = Valid \<longleftrightarrow> (\<exists>n \<in> set allowed. row_at s' cp t rows' h n = Valid)"
    by (rule alternatives_spec(1))
  show "violated (alternatives s' cp t rows' h allowed) \<longleftrightarrow>
      \<not> predecessor_type s' h t = None \<and> (\<forall>n \<in> set allowed. violated (row_at s' cp t rows' h n))"
    using alternatives_spec(2) by blast
  show "predecessor_type s' h t = None \<longrightarrow> predecessor_type s h t = None"
    using knows_moreD(3) [OF assms(1)] by blast
qed (rule row_at_improves [OF assms])

section \<open>Fan-ins\<close>

lemma fan_types_spec:
  "set (fs_found (fan_types f names st)) = set (fs_found st) \<union> {n \<in> set names. f n = Valid}"
  "set (fs_possible (fan_types f names st)) = set (fs_possible st) \<union> {n \<in> set names. f n = Unknown}"
  "fs_matched (fan_types f names st) \<longleftrightarrow> fs_matched st \<or> (\<exists>n \<in> set names. f n = Valid)"
  "fs_unknown (fan_types f names st) \<longleftrightarrow> fs_unknown st \<or> (\<exists>n \<in> set names. f n = Unknown)"
  by (induction names arbitrary: st) (auto split: verification_result.split)

text \<open>A fan-in over given row verdicts: a hash that matches no type, a hash that may still match one, the types met.\<close>

definition stray :: "(content_hash \<Rightarrow> string \<Rightarrow> verification_result) \<Rightarrow> (content_hash \<Rightarrow> bool) \<Rightarrow> string list \<Rightarrow> content_hash \<Rightarrow> bool" where
  "stray f known types h \<longleftrightarrow> known h \<and> (\<forall>n \<in> set types. violated (f h n))"

definition matched :: "(content_hash \<Rightarrow> string \<Rightarrow> verification_result) \<Rightarrow> string list \<Rightarrow> content_hash \<Rightarrow> bool" where
  "matched f types h \<longleftrightarrow> (\<exists>n \<in> set types. f h n = Valid)"

lemma fan_hashes_spec:
  fixes s cp t rows types
  defines "f \<equiv> row_at s cp t rows" and "known \<equiv> (\<lambda>h. predecessor_type s h t \<noteq> None)"
  shows "case fan_hashes s cp t rows types hs found possible missing of
     Inl v \<Rightarrow> violated v \<and> (\<exists>h \<in> set hs. stray f known types h)
   | Inr (found', possible', missing') \<Rightarrow> (\<forall>h \<in> set hs. \<not> stray f known types h) \<and>
       set found' = set found \<union> {n \<in> set types. \<exists>h \<in> set hs. f h n = Valid} \<and>
       set possible' = set possible \<union> {n \<in> set types. \<exists>h \<in> set hs. f h n = Unknown} \<and>
       (missing' \<longleftrightarrow> missing \<or> (\<exists>h \<in> set hs. \<not> matched f types h))"
proof (induction hs arbitrary: found possible missing)
  case (Cons h hs)
  let ?st = "fan_types (f h) types \<lparr>fs_found = found, fs_possible = possible, fs_matched = False, fs_unknown = (predecessor_type s h t = None)\<rparr>"
  have m: "fs_matched ?st \<longleftrightarrow> matched f types h" by (simp add: fan_types_spec matched_def)
  have st: "\<not> fs_matched ?st \<and> \<not> fs_unknown ?st \<longleftrightarrow> stray f known types h"
    by (auto simp: fan_types_spec stray_def known_def violated_def)
  have eq: "fan_hashes s cp t rows types (h # hs) found possible missing =
      (if stray f known types h then Inl (wrong s t h types)
       else fan_hashes s cp t rows types hs (fs_found ?st) (fs_possible ?st) (missing \<or> \<not> matched f types h))"
    using st m by (auto simp: Let_def f_def)
  show ?case
  proof (cases "stray f known types h")
    case True
    then show ?thesis unfolding eq by auto
  next
    case False
    show ?thesis
      unfolding eq using False Cons.IH [of "fs_found ?st" "fs_possible ?st" "missing \<or> \<not> matched f types h"]
      by (auto simp: fan_types_spec split: sum.splits prod.splits)
  qed
qed simp

definition fan_verdict ::
  "(verification_result, string btset \<times> string btset \<times> bool) result \<Rightarrow> string list \<Rightarrow> verification_result" where
  "fan_verdict r types = (case r of
       Inl v \<Rightarrow> v
     | Inr (found, possible, missing) \<Rightarrow>
         (let absent_types = filter (\<lambda>n. n \<notin> set found) types
          in if missing \<or> list_ex (\<lambda>n. n \<in> set possible) absent_types then Unknown
             else if absent_types = [] then Valid
             else Violation (IncompleteFanIn absent_types)))"

lemma fan_verdict_spec:
  fixes s cp t rows types hs
  defines "f \<equiv> row_at s cp t rows" and "known \<equiv> (\<lambda>h. predecessor_type s h t \<noteq> None)"
    and "v \<equiv> fan_verdict (fan_hashes s cp t rows types hs [] [] False) types"
  shows "v = Valid \<longleftrightarrow> (\<forall>h \<in> set hs. matched f types h) \<and> (\<forall>n \<in> set types. \<exists>h \<in> set hs. f h n = Valid)"
    "violated v \<longleftrightarrow> (\<exists>h \<in> set hs. stray f known types h) \<or>
       (\<forall>h \<in> set hs. matched f types h) \<and> (\<exists>n \<in> set types. \<forall>h \<in> set hs. f h n \<noteq> Valid) \<and>
       (\<forall>n \<in> set types. (\<exists>h \<in> set hs. f h n = Valid) \<or> (\<forall>h \<in> set hs. violated (f h n)))"
proof -
  note spec = fan_hashes_spec [where hs = hs and found = "[]" and possible = "[]" and missing = False
    and s = s and cp = cp and t = t and rows = rows and types = types, folded f_def known_def]
  have no: "\<not> matched f types h" if "stray f known types h" for h using that by (auto simp: stray_def matched_def)
  show "v = Valid \<longleftrightarrow> (\<forall>h \<in> set hs. matched f types h) \<and> (\<forall>n \<in> set types. \<exists>h \<in> set hs. f h n = Valid)"
  proof (cases "fan_hashes s cp t rows types hs [] [] False")
    case (Inl e)
    then show ?thesis using spec no by (auto simp: v_def fan_verdict_def)
  next
    case (Inr r)
    obtain found possible missing where "r = (found, possible, missing)" by (cases r) auto
    then show ?thesis
      using spec Inr unfolding v_def fan_verdict_def by (auto simp: Let_def list_ex_iff filter_empty_conv)
  qed
  show "violated v \<longleftrightarrow> (\<exists>h \<in> set hs. stray f known types h) \<or>
       (\<forall>h \<in> set hs. matched f types h) \<and> (\<exists>n \<in> set types. \<forall>h \<in> set hs. f h n \<noteq> Valid) \<and>
       (\<forall>n \<in> set types. (\<exists>h \<in> set hs. f h n = Valid) \<or> (\<forall>h \<in> set hs. violated (f h n)))"
  proof (cases "fan_hashes s cp t rows types hs [] [] False")
    case (Inl e)
    then show ?thesis using spec by (auto simp: v_def fan_verdict_def)
  next
    case (Inr r)
    obtain found possible missing where r: "r = (found, possible, missing)" by (cases r) auto
    have sp: "\<forall>h \<in> set hs. \<not> stray f known types h" "set found = {n \<in> set types. \<exists>h \<in> set hs. f h n = Valid}"
        "set possible = {n \<in> set types. \<exists>h \<in> set hs. f h n = Unknown}" "missing \<longleftrightarrow> (\<exists>h \<in> set hs. \<not> matched f types h)"
      using spec Inr r by auto
    have "violated v \<longleftrightarrow> \<not> missing \<and> (\<forall>n \<in> set types. n \<in> set found \<or> n \<notin> set possible) \<and> (\<exists>n \<in> set types. n \<notin> set found)"
      unfolding v_def fan_verdict_def Inr r by (auto simp: Let_def list_ex_iff filter_empty_conv)
    then show ?thesis unfolding sp(2-4) using sp(1) unfolding violated_def by auto
  qed
qed

lemma fan_improves:
  assumes "knows_more s s' t" "rows_improve M rows rows'" "resolved_in s t M hs"
  shows "improves (fan_verdict (fan_hashes s cp t rows types hs [] [] False) types)
    (fan_verdict (fan_hashes s' cp t rows' types hs [] [] False) types)"
proof -
  let ?f = "row_at s cp t rows" and ?f' = "row_at s' cp t rows'"
  let ?known = "\<lambda>h. predecessor_type s h t \<noteq> None" and ?known' = "\<lambda>h. predecessor_type s' h t \<noteq> None"
  have imp: "improves (?f h n) (?f' h n)" if "h \<in> set hs" for h n
    using row_at_improves [OF assms(1,2)] assms(3) that by (simp add: resolved_in_def)
  have ok: "?f h n = Valid \<Longrightarrow> ?f' h n = Valid" and bad: "violated (?f h n) \<Longrightarrow> violated (?f' h n)" if "h \<in> set hs" for h n
    using imp [OF that, of n] by (simp_all add: improves_def)
  have m: "matched ?f types h \<Longrightarrow> matched ?f' types h" if "h \<in> set hs" for h
    using ok that by (auto simp: matched_def)
  have st: "stray ?f ?known types h \<Longrightarrow> stray ?f' ?known' types h" if "h \<in> set hs" for h
    using bad that knows_moreD(3) [OF assms(1), of h] unfolding stray_def by metis
  have types: "(\<exists>h \<in> set hs. ?f' h n = Valid) \<or> (\<forall>h \<in> set hs. violated (?f' h n))"
    if "(\<exists>h \<in> set hs. ?f h n = Valid) \<or> (\<forall>h \<in> set hs. violated (?f h n))" for n
    using that ok bad by blast
  have "(\<forall>h \<in> set hs. ?f' h n \<noteq> Valid)" if "\<forall>h \<in> set hs. violated (?f h n)" for n
    using that bad by (metis violated_simps(2))
  then have unmet: "\<exists>n \<in> set types. \<forall>h \<in> set hs. ?f' h n \<noteq> Valid"
    if "\<exists>n \<in> set types. \<forall>h \<in> set hs. ?f h n \<noteq> Valid"
      "\<forall>n \<in> set types. (\<exists>h \<in> set hs. ?f h n = Valid) \<or> (\<forall>h \<in> set hs. violated (?f h n))"
    using that by blast
  show ?thesis
    unfolding improves_def fan_verdict_spec
  proof (intro conjI impI)
    assume "(\<exists>h \<in> set hs. stray ?f ?known types h) \<or>
       (\<forall>h \<in> set hs. matched ?f types h) \<and> (\<exists>n \<in> set types. \<forall>h \<in> set hs. ?f h n \<noteq> Valid) \<and>
       (\<forall>n \<in> set types. (\<exists>h \<in> set hs. ?f h n = Valid) \<or> (\<forall>h \<in> set hs. violated (?f h n)))"
    then show "(\<exists>h \<in> set hs. stray ?f' ?known' types h) \<or>
       (\<forall>h \<in> set hs. matched ?f' types h) \<and> (\<exists>n \<in> set types. \<forall>h \<in> set hs. ?f' h n \<noteq> Valid) \<and>
       (\<forall>n \<in> set types. (\<exists>h \<in> set hs. ?f' h n = Valid) \<or> (\<forall>h \<in> set hs. violated (?f' h n)))"
    proof
      assume "\<exists>h \<in> set hs. stray ?f ?known types h"
      then show ?thesis using st by blast
    next
      assume all: "(\<forall>h \<in> set hs. matched ?f types h) \<and> (\<exists>n \<in> set types. \<forall>h \<in> set hs. ?f h n \<noteq> Valid) \<and>
         (\<forall>n \<in> set types. (\<exists>h \<in> set hs. ?f h n = Valid) \<or> (\<forall>h \<in> set hs. violated (?f h n)))"
      then have "\<forall>h \<in> set hs. matched ?f' types h" using m by blast
      moreover have "\<exists>n \<in> set types. \<forall>h \<in> set hs. ?f' h n \<noteq> Valid" by (rule unmet) (use all in simp_all)
      moreover have "\<forall>n \<in> set types. (\<exists>h \<in> set hs. ?f' h n = Valid) \<or> (\<forall>h \<in> set hs. violated (?f' h n))"
        using all types by (metis (no_types, lifting))
      ultimately show ?thesis by blast
    qed
  qed (use ok m in blast)+
qed

section \<open>Steps and rows of a run\<close>

lemma resolved_rewritten: "resolved_in s t M (caused_refs cause) \<Longrightarrow> resolved_in s t M (caused_refs (rewrite_root cause root))"
  by (auto simp: resolved_in_def rewrite_root_def caused_refs_def split: option.splits caused_by.splits if_splits)

lemma step_verdict_improves:
  assumes "knows_more s s' t" "rows_improve M rows rows'" "resolved_in s t M (caused_refs cause)"
  shows "improves (step_verdict s cp t root rows step cause) (step_verdict s' cp t root rows' step cause)"
proof -
  note refs = resolved_rewritten [OF assms(3), of root]
  consider "rewrite_root cause root = None" | "rewrite_root cause root = Some Begin"
    | h where "rewrite_root cause root = Some (Single h)" | hs where "rewrite_root cause root = Some (Multiple hs)"
    by (metis caused_by.exhaust option.exhaust)
  then show ?thesis
  proof cases
    case 3
    then show ?thesis
      using alternatives_improve [OF assms(1,2)] refs by (simp add: step_verdict_def resolved_in_def caused_refs_def)
  next
    case 4
    then have "resolved_in s t M hs" using refs by (simp add: caused_refs_def)
    note fan = fan_improves [OF assms(1,2) this]
    have "step_verdict q cp t root rs step cause = (case first_all (predecessors step) of
        None \<Rightarrow> Violation (FanInWithoutAllDecl (step_performative step))
      | Some types \<Rightarrow> fan_verdict (fan_hashes q cp t rs types hs [] [] False) types)" for q rs
      unfolding step_verdict_def 4 fan_verdict_def by simp
    then show ?thesis using fan by (simp split: option.split)
  qed (simp_all add: step_verdict_def Let_def wrong_def)
qed


lemma rows_improve_insert:
  assumes "rows_improve M rows rows'"
  shows "improves v v' \<Longrightarrow> rows_improve M (bt_insert (h, n) v rows) (bt_insert (h, n) v' rows')"
    "h \<notin> M \<Longrightarrow> rows_improve M rows (bt_insert (h, n) v' rows')"
proof -
  have old: "row_improves (bt_get rows (k, m)) (bt_get rows' (k, m))" if "k \<in> M" for k m
    using assms that by (simp add: rows_improve_def)
  show "improves v v' \<Longrightarrow> rows_improve M (bt_insert (h, n) v rows) (bt_insert (h, n) v' rows')"
    unfolding rows_improve_def bt_get_insert using old by (simp add: row_improves_def)
  show "h \<notin> M \<Longrightarrow> rows_improve M rows (bt_insert (h, n) v' rows')"
    unfolding rows_improve_def bt_get_insert using old by auto
qed

definition keys_in :: "content_hash set \<Rightarrow> messages_table \<Rightarrow> messages_table" where
  "keys_in M ms = filter (\<lambda>(h, _). h \<in> M) ms"

lemma row_messages_improve:
  assumes "knows_more s s' t" "rows_improve M rows rows'" "keys_in M ms' = ms"
    "\<forall>(h, verb, cause) \<in> set ms. resolved_in s t M (caused_refs cause)"
  shows "rows_improve M (row_messages s cp t root name step ms rows) (row_messages s' cp t root name step ms' rows')"
  using assms(2-4)
proof (induction ms' arbitrary: ms rows rows')
  case Nil
  then show ?case by (simp add: keys_in_def)
next
  case (Cons m ms')
  obtain h verb cause where m: "m = (h, verb, cause)" by (cases m) auto
  let ?v' = "step_verdict s' cp t root rows' step cause"
  let ?rows' = "if verb \<noteq> repeat_base_name name then rows' else bt_insert (h, name) ?v' rows'"
  have step': "row_messages s' cp t root name step (m # ms') rows' = row_messages s' cp t root name step ms' ?rows'"
    by (simp add: m)
  show ?case
  proof (cases "h \<in> M")
    case False
    then have "rows_improve M rows ?rows'" "keys_in M ms' = ms"
      using Cons.prems(1,2) rows_improve_insert(2) [OF Cons.prems(1) False] by (simp_all add: keys_in_def m)
    then show ?thesis using Cons.IH Cons.prems(3) unfolding step' by blast
  next
    case True
    let ?v = "step_verdict s cp t root rows step cause"
    let ?rows = "if verb \<noteq> repeat_base_name name then rows else bt_insert (h, name) ?v rows"
    have ms: "ms = m # keys_in M ms'" using True Cons.prems(2) by (simp add: keys_in_def m)
    have "improves ?v ?v'" using step_verdict_improves [OF assms(1) Cons.prems(1)] Cons.prems(3) by (simp add: ms m)
    then have "rows_improve M ?rows ?rows'"
      using Cons.prems(1) rows_improve_insert(1) [OF Cons.prems(1)] by simp
    moreover have "row_messages s cp t root name step ms rows = row_messages s cp t root name step (keys_in M ms') ?rows"
      by (simp add: m ms)
    ultimately show ?thesis using Cons.IH [of ?rows ?rows'] Cons.prems(3) unfolding step' by (simp add: ms)
  qed
qed

lemma row_steps_improve:
  assumes "knows_more s s' t" "rows_improve M rows rows'" "keys_in M ms' = ms"
    "\<forall>(h, verb, cause) \<in> set ms. resolved_in s t M (caused_refs cause)"
  shows "rows_improve M (row_steps s cp t root ms names rows) (row_steps s' cp t root ms' names rows')"
  using assms(2)
proof (induction names arbitrary: rows rows')
  case (Cons name names)
  then show ?case
    using row_messages_improve [OF assms(1) Cons.prems assms(3,4)] by (simp split: option.split)
qed simp

section \<open>The resolver\<close>

text \<open>The hashes that the walk over the citations resolves.\<close>

definition walked :: "threaded_store \<Rightarrow> thread_id \<Rightarrow> content_hash list \<Rightarrow> content_hash set" where
  "walked s t hs = {h \<in> (meta_rel s t)\<^sup>* `` set hs. metadata s h t \<noteq> None}"

lemma resolve_loop_walked:
  "bt_sorted (resolve_loop s t (rev hs) [] [])"
  "bt_get (resolve_loop s t (rev hs) [] []) h = (if h \<in> walked s t hs then metadata s h t else None)"
  using resolve_loop_get [of s t "[]" "rev hs" "[]"] by (simp_all add: walked_def del: not_None_eq)

lemma walked_refs:
  assumes "h \<in> walked s t hs" "metadata s h t = Some (verb, cause)"
  shows "resolved_in s t (walked s t hs) (caused_refs cause)"
proof -
  have "x \<in> (meta_rel s t)\<^sup>* `` set hs" if "x \<in> set (caused_refs cause)" for x
  proof -
    have "(h, x) \<in> meta_rel s t" using assms(2) that by (auto simp: meta_rel_def)
    then show ?thesis using assms(1) by (auto simp: walked_def intro: rtrancl_into_rtrancl)
  qed
  then show ?thesis by (auto simp: resolved_in_def walked_def)
qed

lemma walked_mono:
  assumes "knows_more s s' t"
  shows "walked s t hs \<subseteq> walked s' t hs"
proof -
  have "meta_rel s t \<subseteq> meta_rel s' t" using knows_moreD(2) [OF assms] by (fastforce simp: meta_rel_def)
  then have "(meta_rel s t)\<^sup>* `` set hs \<subseteq> (meta_rel s' t)\<^sup>* `` set hs" using rtrancl_mono by blast
  then show ?thesis using knows_moreD(2) [OF assms] unfolding walked_def by fastforce
qed

lemma bt_get_keys_in: "bt_get (keys_in M ms) h = (if h \<in> M then bt_get ms h else None)"
  by (induction ms) (auto simp: keys_in_def)

lemma sorted_keys_in: "bt_sorted ms \<Longrightarrow> bt_sorted (keys_in M ms)"
  unfolding bt_sorted_def keys_in_def sorted_wrt_map by (rule sorted_wrt_filter)

lemma resolution_rows_improve:
  assumes "knows_more s s' t"
  shows "rows_improve (walked s t hs) (resolution_rows s cp t root hs) (resolution_rows s' cp t root hs)"
proof -
  let ?M = "walked s t hs" and ?ms = "resolve_loop s t (rev hs) [] []" and ?ms' = "resolve_loop s' t (rev hs) [] []"
  have keys: "keys_in ?M ?ms' = ?ms"
  proof (rule bt_sorted_eqI)
    show "bt_get (keys_in ?M ?ms') = bt_get ?ms"
    proof
      fix h
      show "bt_get (keys_in ?M ?ms') h = bt_get ?ms h"
      proof (cases "h \<in> ?M")
        case True
        then obtain vc where "metadata s h t = Some vc" by (auto simp: walked_def)
        moreover from this have "metadata s' h t = Some vc" by (rule knows_moreD(2) [OF assms])
        moreover have "h \<in> walked s' t hs" using True walked_mono [OF assms] by blast
        ultimately show ?thesis using True by (simp add: bt_get_keys_in resolve_loop_walked)
      qed (simp add: bt_get_keys_in resolve_loop_walked)
    qed
  qed (simp_all add: sorted_keys_in resolve_loop_walked)
  have refs: "resolved_in s t ?M (caused_refs cause)" if "(h, verb, cause) \<in> set ?ms" for h verb cause
  proof -
    have "bt_get ?ms h = Some (verb, cause)" using that bt_get_eq_Some [OF resolve_loop_walked(1)] by simp
    then have "h \<in> ?M" "metadata s h t = Some (verb, cause)" unfolding resolve_loop_walked(2) by (simp_all split: if_splits)
    then show ?thesis by (rule walked_refs)
  qed
  have start: "rows_improve ?M [] []" by (simp add: rows_improve_def row_improves_def)
  have rows: "resolution_rows q cp t root hs = row_steps q cp t root (resolve_loop q t (rev hs) [] []) (order_loop cp [] []) []" for q
  proof -
    have "row_steps q cp t root [] names rows = rows" for names rows
      by (induction names) (simp_all split: option.split)
    then show ?thesis by (simp add: resolution_rows_def Let_def)
  qed
  show ?thesis unfolding rows by (rule row_steps_improve [OF assms start keys]) (use refs in auto)
qed

lemma resolution_verify_spec:
  fixes s cp t root rows cause verb
  defines "f \<equiv> (\<lambda>step. step_verdict s cp t root rows step cause)"
    and "A \<equiv> (\<lambda>sts. {step. \<exists>name. (name, step) \<in> set sts \<and> name \<noteq> BEGIN_KEYWORD \<and> repeat_base_name name = verb})"
  shows "violated err \<Longrightarrow>
     (resolution_verify s cp t root rows verb cause sts unknown err = Valid \<longleftrightarrow> (\<exists>step \<in> A sts. f step = Valid)) \<and>
     (violated (resolution_verify s cp t root rows verb cause sts unknown err) \<longleftrightarrow> \<not> unknown \<and> (\<forall>step \<in> A sts. violated (f step)))"
proof (induction sts arbitrary: unknown err)
  case Nil
  then show ?case by (auto simp: A_def violated_def)
next
  case (Cons ns sts)
  obtain name step where ns: "ns = (name, step)" by (cases ns)
  have A: "A (ns # sts) = (if name = BEGIN_KEYWORD \<or> repeat_base_name name \<noteq> verb then A sts else insert step (A sts))"
    by (auto simp: A_def ns)
  show ?case
    using Cons.IH [OF Cons.prems] Cons.IH [of "Violation _"] unfolding A
    by (cases "f step") (auto simp: ns f_def)
qed

lemma repeat_verify_improves:
  assumes "knows_more s s' t"
  shows "improves (repeat_verify verb cause s cp t root) (repeat_verify verb cause s' cp t root)"
proof -
  let ?hs = "caused_refs cause"
  have refs: "resolved_in s t (walked s t ?hs) ?hs" by (auto simp: resolved_in_def walked_def)
  have err: "violated (Violation MissingCausedBy)" by simp
  have "improves (resolution_verify s cp t root (resolution_rows s cp t root ?hs) verb cause (steps cp) False (Violation MissingCausedBy))
      (resolution_verify s' cp t root (resolution_rows s' cp t root ?hs) verb cause (steps cp) False (Violation MissingCausedBy))"
    by (rule improves_alternatives [OF conjunct1 [OF resolution_verify_spec [OF err]] conjunct2 [OF resolution_verify_spec [OF err]]
          conjunct1 [OF resolution_verify_spec [OF err]] conjunct2 [OF resolution_verify_spec [OF err]]])
      (rule step_verdict_improves [OF assms resolution_rows_improve [OF assms] refs], rule impI)
  then show ?thesis by (simp add: repeat_verify_def)
qed

section \<open>Deliveries\<close>

text \<open>What the resolver reads of a message: its performative and its causes.\<close>

definition message_metadata :: "message \<Rightarrow> (string \<times> caused_by option) option" where
  "message_metadata m = Option.bind (innermost_simple m) (\<lambda>simple.
     map_option (\<lambda>p. (performative_name p, caused_by_of simple)) (performative_of simple))"

text \<open>A message delivered under a hash whose message is not stored has the type and the causes that a shelved
  envelope of that hash declares.\<close>

definition agrees_on_causes :: "threaded_store \<Rightarrow> (content_hash \<times> thread_id \<times> message) list \<Rightarrow> bool" where
  "agrees_on_causes s xs = list_all (\<lambda>(h, t, m).
     (case envelope_in_thread s h t of
        Some e \<Rightarrow> message_metadata m = Some (h_performative (e_header e), h_caused_by (e_header e))
      | None \<Rightarrow> (case Option.bind (opened_in_thread s h t) (\<lambda>op.
            Option.bind (opened_performative op) (\<lambda>p. map_option (\<lambda>c. (p, c)) (opened_causal_reference op))) of
          Some vc \<Rightarrow> message_metadata m = Some vc | None \<Rightarrow> True))) xs"

lemma metadata_append:
  assumes "wf_store s" "agrees_on_causes s [(h, t', m)]" "metadata s h' t = Some vc"
  shows "metadata (fst (append h t' m s)) h' t = Some vc"
proof (cases "snd (append h t' m s) \<and> h' = h \<and> t = t'")
  case True
  then have "lookup_in_thread s h' t = None" using append_result [OF assms(1)] by simp
  then have "message_metadata m = Some vc"
    using assms(2,3) True unfolding metadata_def agrees_on_causes_def by (auto split: option.splits)
  then show ?thesis
    using True lookup_append [OF assms(1), of h t' m h' t] by (simp add: metadata_def message_metadata_def)
next
  case False
  then have same: "lookup_in_thread (fst (append h t' m s)) h' t = lookup_in_thread s h' t"
    using lookup_append [OF assms(1), of h t' m h' t] by (simp only: if_False)
  show ?thesis using assms(3) unfolding metadata_def same shelf_lookups_append .
qed

lemma metadata_deliver:
  "wf_store s \<Longrightarrow> agrees_on_causes s xs \<Longrightarrow> metadata s h t = Some vc \<Longrightarrow> metadata (deliver s xs) h t = Some vc"
proof (induction xs arbitrary: s)
  case (Cons x xs)
  obtain h' t' m where x: "x = (h', t', m)" by (cases x)
  let ?s = "fst (append h' t' m s)"
  have "agrees_on_causes s [(h', t', m)]" "agrees_on_causes ?s xs"
    using Cons.prems(2) unfolding x agrees_on_causes_def shelf_lookups_append by (simp_all only: list.pred_inject prod.case simp_thms)
  then have "metadata (deliver ?s xs) h t = Some vc"
    using Cons.IH [OF wf_append [OF Cons.prems(1)]] metadata_append [OF Cons.prems(1) _ Cons.prems(3)] by blast
  then show ?case by (simp add: x deliver_def)
qed (simp add: deliver_def)

section \<open>Properties\<close>

text \<open>C6: verdicts only become more informed: delivering more messages to a reachable store, in agreement with
  the envelopes already shelved, moves a verdict upwards in the information order or leaves it where it was; a
  resolved verdict never flips. Agreement is on the type of a message, and in a protocol with repeat copies, where
  the resolver follows the citations of shelved envelopes, on its causes too.\<close>

theorem verify_causal_monotone:
  assumes "store_reachable sha256 s" "agrees_with_shelves s xs" "has_repeat cp \<longrightarrow> agrees_on_causes s xs"
  shows "\<exists>r r'. verify_causal p caused s cp t = Some r \<and> verify_causal p caused (deliver s xs) cp t = Some r' \<and>
    partial_cmp r r' \<in> {Some Less, Some Equal}"
proof (cases "has_repeat cp")
  case True
  have wf: "wf_store s" by (rule reachable_wf [OF assms(1)])
  have "knows_more s (deliver s xs) t"
    using extends_deliver [OF wf assms(2)] metadata_deliver [OF wf] assms(3) True by (simp add: knows_more_def)
  then show ?thesis
    using repeat_verify_improves True unfolding improves_iff by (simp add: verify_causal_def)
next
  case False
  from verify_causal_mono [OF False extends_deliver [OF reachable_wf [OF assms(1)] assms(2)]] show ?thesis .
qed

text \<open>A protocol that repeats a step twice.\<close>

definition twice_protocol :: causal_protocol where
  "twice_protocol = \<lparr>steps = [
     (''begin'', \<lparr>step_performative = ''begin'', predecessors = [], successors = [NSingle ''tell#1'']\<rparr>),
     (''tell#1'', \<lparr>step_performative = ''tell#1'', predecessors = [NSingle ''begin''],
        successors = [NSingle ''tell#2'']\<rparr>),
     (''tell#2'', \<lparr>step_performative = ''tell#2'',
        predecessors = [NSingle ''tell#1''], successors = []\<rparr>)]\<rparr>"

theorem verify_causal_monotone_witness:
  "has_repeat twice_protocol \<and>
   (\<exists>r. verify_causal ''tell'' (Some (Single ''h1'')) new_store twice_protocol ''t'' = Some Unknown \<and>
     verify_causal ''tell'' (Some (Single ''h1'')) (deliver new_store [(''h1'', ''t'', sample_tell)])
       twice_protocol ''t'' = Some r \<and> partial_cmp Unknown r \<in> {Some Less, Some Equal})"
proof -
  have "has_repeat twice_protocol" "agrees_with_shelves new_store [(''h1'', ''t'', sample_tell)]"
      "agrees_on_causes new_store [(''h1'', ''t'', sample_tell)]"
      "verify_causal ''tell'' (Some (Single ''h1'')) new_store twice_protocol ''t'' = Some Unknown"
    by code_simp+
  then show ?thesis
    using verify_causal_monotone [of head32 new_store
        "[(''h1'', ''t'', sample_tell)]" twice_protocol "''tell''" "Some (Single ''h1'')" "''t''"]
    by auto
qed

end
