(* ===== verification/Cbcl_Schema.thy ===== *)
theory Cbcl_Schema
  imports Cbcl_State
begin

text \<open>
  The published schema of a state clause (\<open>cbcl-core/src/state.rs\<close>): the scalar types, the type of each
  rule's field, their JSON rendering, and the result that a fold over acts whose fields fit the declared
  shapes yields values of the types the schema names.
\<close>

datatype scalar_type = SStr | SHlc | SInt | SBool | SList

definition from_constraint :: "type_constraint \<Rightarrow> scalar_type option" where
  "from_constraint tc = (case tc of
       TString \<Rightarrow> Some SStr | THlc \<Rightarrow> Some SHlc | TNumber \<Rightarrow> Some SInt | TBool \<Rightarrow> Some SBool
     | TList \<Rightarrow> Some SList | TSymbol \<Rightarrow> None | TKeyword \<Rightarrow> None)"

definition scalar_as_str :: "scalar_type \<Rightarrow> string" where
  "scalar_as_str t = (case t of
       SStr \<Rightarrow> ''string'' | SHlc \<Rightarrow> ''hlc'' | SInt \<Rightarrow> ''number'' | SBool \<Rightarrow> ''bool'' | SList \<Rightarrow> ''list'')"

datatype state_type =
    TyBoundedCounter
  | TyOptScalar scalar_type
  | TyInt
  | TyBool
  | TySet scalar_type
  | TyMap scalar_type state_type
  | TyEvents scalar_type
  | TyHistogram scalar_type
  | TyUnknown

text \<open>A member of a JSON object whose key needs no escape.\<close>

definition json_member :: "string \<Rightarrow> string \<Rightarrow> string" where
  "json_member key v = [CHR 0x22] @ key @ [CHR 0x22, CHR '':''] @ v"

definition json_plain :: "string \<Rightarrow> string" where
  "json_plain s = [CHR 0x22] @ s @ [CHR 0x22]"

definition json_object :: "string list \<Rightarrow> string" where
  "json_object members = ''{'' @ comma_join members @ ''}''"

fun render_type :: "state_type \<Rightarrow> string" where
  "render_type TyBoundedCounter = json_object [json_member ''type'' (json_plain ''bounded-counter'')]"
| "render_type (TyOptScalar t) =
     json_object [json_member ''type'' (json_plain ''opt-scalar''), json_member ''of'' (json_plain (scalar_as_str t))]"
| "render_type TyInt = json_object [json_member ''type'' (json_plain ''int'')]"
| "render_type TyBool = json_object [json_member ''type'' (json_plain ''bool'')]"
| "render_type (TySet t) =
     json_object [json_member ''type'' (json_plain ''set''), json_member ''of'' (json_plain (scalar_as_str t))]"
| "render_type (TyMap k v) =
     json_object [json_member ''type'' (json_plain ''map''), json_member ''key'' (json_plain (scalar_as_str k)),
       json_member ''value'' (render_type v)]"
| "render_type (TyEvents t) =
     json_object [json_member ''type'' (json_plain ''events''), json_member ''of'' (json_plain (scalar_as_str t))]"
| "render_type (TyHistogram t) =
     json_object [json_member ''type'' (json_plain ''histogram''), json_member ''of'' (json_plain (scalar_as_str t))]"
| "render_type TyUnknown = json_object [json_member ''type'' (json_plain ''unknown'')]"

definition scalar_of :: "shape_constraint list \<Rightarrow> string \<Rightarrow> string \<Rightarrow> scalar_type" where
  "scalar_of shapes verb key = (case Option.bind (field_type shapes verb key) from_constraint of
       Some t \<Rightarrow> t | None \<Rightarrow> SStr)"

definition rule_type :: "shape_constraint list \<Rightarrow> (string \<times> state_type) list \<Rightarrow> rule \<Rightarrow> state_type" where
  "rule_type shapes out r = (case r of
       BoundedCounter _ \<Rightarrow> TyBoundedCounter
     | Initial verb key \<Rightarrow> TyOptScalar (scalar_of shapes verb key)
     | LwwRegister verb key _ \<Rightarrow> TyOptScalar (scalar_of shapes verb key)
     | LwwPerSigner verb key _ \<Rightarrow> TyMap SStr (TyOptScalar (scalar_of shapes verb key))
     | LwwMap verb key v _ _ \<Rightarrow> TyMap (scalar_of shapes verb key) (TyOptScalar (scalar_of shapes verb v))
     | Exists _ \<Rightarrow> TyBool
     | Count _ \<Rightarrow> TyInt
     | Progress _ \<Rightarrow> TyInt
     | Counter _ _ _ \<Rightarrow> TyInt
     | SumOf _ \<Rightarrow> TyInt
     | Events verb key \<Rightarrow> TyEvents (scalar_of shapes verb key)
     | SetUnion verb key \<Rightarrow> TySet (scalar_of shapes verb key)
     | Values verb key \<Rightarrow> TySet (scalar_of shapes verb key)
     | ValuesPerKey verb key v _ \<Rightarrow> TyMap (scalar_of shapes verb key) (TySet (scalar_of shapes verb v))
     | ObservedSet add _ key \<Rightarrow> TySet (scalar_of shapes add key)
     | Histogram field \<Rightarrow> (case find (\<lambda>(n, _). n = field) out of
           Some (_, TyMap _ (TyOptScalar t)) \<Rightarrow> TyHistogram t
         | _ \<Rightarrow> TyUnknown))"

definition schema_step ::
  "shape_constraint list \<Rightarrow> (string \<times> state_type) list \<Rightarrow> string \<times> rule \<Rightarrow> (string \<times> state_type) list" where
  "schema_step shapes out nr = out @ [(fst nr, rule_type shapes out (snd nr))]"

definition state_schema :: "state_clause \<Rightarrow> shape_constraint list \<Rightarrow> (string \<times> state_type) list" where
  "state_schema clause shapes = foldl (schema_step shapes) [] (clause_fields clause)"

definition render_schema :: "(string \<times> state_type) list \<Rightarrow> string" where
  "render_schema schema = ''{'' @ comma_join (map (\<lambda>(name, ty). json_string name @ '':'' @ render_type ty) schema) @ ''}''"

section \<open>Values of a type\<close>

fun has_scalar :: "scalar_type \<Rightarrow> state_value \<Rightarrow> bool" where
  "has_scalar SStr (VStr _) = True"
| "has_scalar SHlc (VStr _) = True"
| "has_scalar SInt (VInt _) = True"
| "has_scalar SBool (VBool _) = True"
| "has_scalar SList (VList _) = True"
| "has_scalar _ _ = False"

definition map_of_type :: "(state_value \<Rightarrow> bool) \<Rightarrow> (state_value \<Rightarrow> bool) \<Rightarrow> state_value \<Rightarrow> bool" where
  "map_of_type P Q v = (case v of VMap es \<Rightarrow> list_all (\<lambda>(x, y). P x \<and> Q y) es | _ \<Rightarrow> False)"

definition is_int :: "state_value \<Rightarrow> bool" where
  "is_int v = (case v of VInt _ \<Rightarrow> True | _ \<Rightarrow> False)"

fun has_type :: "state_type \<Rightarrow> state_value \<Rightarrow> bool" where
  "has_type TyBoundedCounter v = (case v of
       VMap es \<Rightarrow> list_ex (\<lambda>s. (VStr ''status'', VStr s) \<in> set es) [''ready'', ''pending'', ''fault''] | _ \<Rightarrow> False)"
| "has_type (TyOptScalar t) v = (v = VAbsent \<or> has_scalar t v)"
| "has_type TyInt v = is_int v"
| "has_type TyBool v = (case v of VBool _ \<Rightarrow> True | _ \<Rightarrow> False)"
| "has_type (TySet t) v = (case v of VSet vs \<Rightarrow> list_all (has_scalar t) vs | _ \<Rightarrow> False)"
| "has_type (TyMap k ty) v = map_of_type (has_scalar k) (has_type ty) v"
| "has_type (TyEvents t) v = map_of_type (has_scalar SStr)
     (\<lambda>e. case e of VPair _ x \<Rightarrow> has_scalar t x | _ \<Rightarrow> False) v"
| "has_type (TyHistogram t) v = map_of_type (has_scalar t) is_int v"
| "has_type TyUnknown v = map_of_type (\<lambda>_. True) is_int v"

text \<open>Every field a rule or a domain of the clause reads has a declared type that its value fits.\<close>

definition fitting_acts :: "shape_constraint list \<Rightarrow> state_clause \<Rightarrow> act list \<Rightarrow> bool" where
  "fitting_acts shapes clause acts = list_all (\<lambda>(verb, key). list_all (\<lambda>a.
     act_verb a = verb \<longrightarrow> (case bt_get (act_fields a) key of
         None \<Rightarrow> True
       | Some e \<Rightarrow> (case field_type shapes verb key of None \<Rightarrow> False | Some tc \<Rightarrow> type_matches tc e))) acts)
     (clause_data_fields clause)"

lemma is_int_VInt [simp]: "is_int (VInt n)"
  by (simp add: is_int_def)

lemma type_matches_scalar:
  "type_matches tc e \<Longrightarrow> has_scalar (case from_constraint tc of Some t \<Rightarrow> t | None \<Rightarrow> SStr) (from_sexpr e)"
  by (cases tc; cases e; simp add: type_matches_def from_constraint_def split: atom.splits)

lemma fitting_field:
  assumes "fitting_acts shapes clause acts" "(verb, key) \<in> set (clause_data_fields clause)" "a \<in> set acts"
    "act_verb a = verb" "field_of a key = Some v"
  shows "has_scalar (scalar_of shapes verb key) v"
proof -
  obtain e where e: "bt_get (act_fields a) key = Some e" "v = from_sexpr e" using assms(5) by (auto simp: field_of_def)
  then obtain tc where "field_type shapes verb key = Some tc" "type_matches tc e"
    using assms(1-4) by (fastforce simp: fitting_acts_def list_all_iff split: option.splits)
  then show ?thesis using type_matches_scalar e(2) by (simp add: scalar_of_def)
qed

section \<open>The types of the reductions\<close>

definition fits :: "string \<Rightarrow> scalar_type \<Rightarrow> act list \<Rightarrow> bool" where
  "fits key t acts \<longleftrightarrow> (\<forall>a \<in> set acts. \<forall>v. field_of a key = Some v \<longrightarrow> has_scalar t v)"

lemma fits_subset: "fits key t acts \<Longrightarrow> set xs \<subseteq> set acts \<Longrightarrow> fits key t xs"
  by (auto simp: fits_def)

lemma max_by_key_mem: "max_by_key f xs = Some m \<Longrightarrow> m \<in> set xs"
  using foldl_max_by [of f] by (cases xs) (auto simp: max_by_key_def)

lemma pick_lww_type: "fits key t acts \<Longrightarrow> has_type (TyOptScalar t) (pick_lww acts key clock)"
proof -
  assume f: "fits key t acts"
  show ?thesis
  proof (cases "max_by_key fst (List.map_filter (lww_candidate clock) acts)")
    case (Some c)
    then have "c \<in> set (List.map_filter (lww_candidate clock) acts)" by (rule max_by_key_mem)
    moreover have "snd c = a" if "lww_candidate clock a = Some c" for a
      using that by (auto simp: lww_candidate_def split: option.splits sexpr.splits atom.splits)
    ultimately have "snd c \<in> set acts" by (fastforce simp: set_map_filter)
    then show ?thesis
      using f Some by (cases "field_of (snd c) key") (auto simp: pick_lww_def fits_def split: prod.splits)
  qed (simp add: pick_lww_def max_by_key_def)
qed

lemma distinct_field_type: "fits key t acts \<Longrightarrow> has_type (TySet t) (distinct_field acts key)"
  using set_distinct_field [of acts key] by (auto simp: distinct_field_def list_all_iff fits_def)

lemma initial_value_type: "fits key t acts \<Longrightarrow> has_type (TyOptScalar t) (initial_value acts key)"
  by (auto simp: initial_value_def fits_def split: list.splits option.splits)

lemma bt_get_self: "bt_sorted m \<Longrightarrow> (k, v) \<in> set m \<Longrightarrow> bt_get m k = Some v"
  by (simp add: bt_get_eq_Some)

lemma group_by_signer_mem: "(s, t) \<in> set (group_by_signer acts) \<Longrightarrow> set t \<subseteq> set acts"
proof -
  assume "(s, t) \<in> set (group_by_signer acts)"
  then have "bt_get (group_by_signer acts) s = Some t"
    using group_on_spec by (intro bt_get_self) (simp_all add: group_by_signer_eq)
  then show ?thesis by (auto simp: group_by_signer_eq group_on_spec some_list_def split: if_splits)
qed

lemma group_by_key_mem:
  assumes "(k, t) \<in> set (group_by_key acts key)"
  shows "set t \<subseteq> set acts \<and> (\<exists>a \<in> set acts. field_of a key = Some k)"
proof -
  obtain r where "(r, k, t) \<in> set (foldl (group_key_step key) [] acts)" using assms by (auto simp: group_by_key_def)
  then have "bt_get (foldl (group_key_step key) [] acts) r = Some (k, t)"
    using group_key_spec by (intro bt_get_self) simp_all
  then have k: "k = the (field_of (hd t) key)" "t = filter (has_rendering key r) acts" "t \<noteq> []"
    by (auto simp: group_key_spec some_list_def split: if_splits)
  have "hd t \<in> set acts" "has_rendering key r (hd t)" using hd_in_set [OF k(3)] k(2) by auto
  then show ?thesis using k(1,2) by (auto simp: has_rendering_def)
qed

lemma fits_acts_of:
  "fitting_acts shapes clause (k_acts k) \<Longrightarrow> (verb, key) \<in> set (clause_data_fields clause) \<Longrightarrow>
     fits key (scalar_of shapes verb key) (acts_of k verb)"
  using fitting_field by (auto simp: fits_def acts_of_def)

lemma set_current: "set (current k verb key delete) \<subseteq> set (acts_of k verb)"
  "set (current_by_signer k verb) \<subseteq> set (acts_of k verb)"
  by (auto simp: current_def current_by_signer_def Let_def)

lemma histogram_type:
  assumes "list_all (\<lambda>(_, v). v = VAbsent \<or> P (case v of VPair _ x \<Rightarrow> x | _ \<Rightarrow> v)) es"
  shows "map_of_type P is_int (VMap (map (\<lambda>(v, n). (v, VInt n)) (bt_values (foldl histogram_step [] es))))"
proof -
  have "(\<forall>r. pred_option (\<lambda>e. P (fst e)) (bt_get (foldl histogram_step m es) r)) \<and> bt_sorted (foldl histogram_step m es)"
    if "\<forall>r. pred_option (\<lambda>e. P (fst e)) (bt_get m r)" "bt_sorted m" for m :: "(string, state_value \<times> int) btmap"
    using assms that
  proof (induction es arbitrary: m)
    case (Cons e es)
    define x where "x = (case snd e of VPair _ v \<Rightarrow> v | other \<Rightarrow> other)"
    have step: "histogram_step m e = (if x = VAbsent then m else (case bt_get m (render x) of
        Some (w, n) \<Rightarrow> bt_insert (render x) (w, n + 1) m | None \<Rightarrow> bt_insert (render x) (x, 1) m))"
      unfolding histogram_step_def x_def Let_def ..
    have "x = VAbsent \<or> P x" using Cons.prems(1) by (cases e; cases "snd e") (auto simp: x_def)
    moreover have "pred_option (\<lambda>e. P (fst e)) (bt_get m (render x))" using Cons.prems(2) by blast
    ultimately have "(\<forall>r. pred_option (\<lambda>e. P (fst e)) (bt_get (histogram_step m e) r)) \<and> bt_sorted (histogram_step m e)"
      using Cons.prems(2,3) by (cases "bt_get m (render x)") (auto simp: step)
    then show ?case using Cons by simp
  qed simp
  from this [of "[]"] have h: "pred_option (\<lambda>e. P (fst e)) (bt_get (foldl histogram_step [] es) r)"
      "bt_sorted (foldl histogram_step [] es)" for r by simp_all
  have "P v" if "(r, v, n) \<in> set (foldl histogram_step [] es)" for r v n
    using bt_get_self [OF h(2) that] h(1) [of r] by simp
  then show ?thesis by (auto simp: map_of_type_def list_all_iff)
qed

lemma outcome_type: "has_type TyBoundedCounter (outcome_value out)"
  by (cases out) (auto simp: outcome_value_def Let_def split: option.splits)

section \<open>The types of the fields\<close>

definition typed_fields :: "(string \<times> state_value) list \<Rightarrow> (string \<times> state_type) list \<Rightarrow> bool" where
  "typed_fields vs ts = list_all2 (\<lambda>(n, v) (m, ty). n = m \<and> has_type ty v) vs ts"

lemma typed_find:
  "typed_fields done out \<Longrightarrow>
     rel_option (\<lambda>(n, v) (m, ty). n = m \<and> has_type ty v) (find (\<lambda>(n, _). n = field) done) (find (\<lambda>(n, _). n = field) out)"
  unfolding typed_fields_def by (induction rule: list_all2_induct) auto

lemma histogram_rule_type:
  assumes "typed_fields done out"
  shows "has_type (rule_type shapes out (Histogram field))
    (VMap (map (\<lambda>(v, n). (v, VInt n)) (bt_values (foldl histogram_step [] (done_map done field)))))"
proof (cases "find (\<lambda>(n, _). n = field) out")
  case (Some nt)
  obtain m ty where nt: "nt = (m, ty)" by (cases nt)
  obtain n v where nv: "find (\<lambda>(n, _). n = field) done = Some (n, v)" "has_type ty v"
    using typed_find [OF assms, of field] Some nt by (cases "find (\<lambda>(n, _). n = field) done") auto
  show ?thesis
  proof (cases "\<exists>k t. ty = TyMap k (TyOptScalar t)")
    case True
    then obtain k t where ty: "ty = TyMap k (TyOptScalar t)" by blast
    then obtain es where es: "v = VMap es" "list_all (\<lambda>(x, y). has_scalar k x \<and> has_type (TyOptScalar t) y) es"
      using nv(2) by (cases v) (auto simp: map_of_type_def)
    have "list_all (\<lambda>(_, v). v = VAbsent \<or> has_scalar t (case v of VPair _ x \<Rightarrow> x | _ \<Rightarrow> v)) es"
      using es(2) by (fastforce simp: list_all_iff split: state_value.split)
    from histogram_type [OF this] show ?thesis using Some nt ty nv(1) es(1) by (simp add: rule_type_def done_map_def)
  next
    case False
    then have "rule_type shapes out (Histogram field) = TyUnknown"
      using Some nt by (auto simp: rule_type_def split: state_type.splits)
    then show ?thesis using histogram_type [of "\<lambda>_. True" "done_map done field"] by (simp add: list_all_iff)
  qed
next
  case None
  then show ?thesis
    using histogram_type [of "\<lambda>_. True" "done_map done field"] by (simp add: rule_type_def list_all_iff)
qed

lemma eval_rule_type:
  assumes "fitting_acts shapes clause (k_acts k)" "set (rule_data_fields r) \<subseteq> set (clause_data_fields clause)"
    "typed_fields done out" "eval_rule sha256 k done protocol r = Some v"
  shows "has_type (rule_type shapes out r) v"
proof -
  note fit = fits_acts_of [OF assms(1)]
  note live = fits_subset [OF fit set_current(1)] fits_subset [OF fit set_current(2)]
  show ?thesis
  proof (cases r)
    case (LwwRegister verb key clock)
    then show ?thesis using assms(2,4) pick_lww_type [OF fit] by (fastforce simp: eval_rule_def rule_type_def rule_data_fields_def)
  next
    case (LwwPerSigner verb key clock)
    have "has_type (TyOptScalar (scalar_of shapes verb key)) (pick_lww t key clock)"
      if "(s, t) \<in> set (group_by_signer (current_by_signer k verb))" for s t
      using assms(2) LwwPerSigner group_by_signer_mem [OF that]
      by (intro pick_lww_type fits_subset [OF live(2)]) (simp_all add: rule_data_fields_def)
    then show ?thesis
      using LwwPerSigner assms(4) by (fastforce simp: eval_rule_def rule_type_def map_of_type_def list_all_iff)
  next
    case (LwwMap verb key w clock delete)
    have f: "fits key (scalar_of shapes verb key) (current k verb (Some key) delete)"
      "fits w (scalar_of shapes verb w) (current k verb (Some key) delete)"
      using assms(2) LwwMap by (auto intro!: live(1) simp: rule_data_fields_def)
    have "has_scalar (scalar_of shapes verb key) kk \<and> has_type (TyOptScalar (scalar_of shapes verb w)) (pick_lww t w clock)"
      if "(kk, t) \<in> set (group_by_key (current k verb (Some key) delete) key)" for kk t
      using group_by_key_mem [OF that] f pick_lww_type [OF fits_subset [OF f(2)]] by (auto simp: fits_def)
    then show ?thesis using LwwMap assms(4) by (fastforce simp: eval_rule_def rule_type_def map_of_type_def list_all_iff)
  next
    case (ValuesPerKey verb key w delete)
    have f: "fits key (scalar_of shapes verb key) (current k verb (Some key) delete)"
      "fits w (scalar_of shapes verb w) (current k verb (Some key) delete)"
      using assms(2) ValuesPerKey by (auto intro!: live(1) simp: rule_data_fields_def)
    have "has_scalar (scalar_of shapes verb key) kk \<and> has_type (TySet (scalar_of shapes verb w)) (distinct_field t w)"
      if "(kk, t) \<in> set (group_by_key (current k verb (Some key) delete) key)" for kk t
      using group_by_key_mem [OF that] f distinct_field_type [OF fits_subset [OF f(2)]] by (auto simp: fits_def)
    then show ?thesis using ValuesPerKey assms(4) by (fastforce simp: eval_rule_def rule_type_def map_of_type_def list_all_iff)
  next
    case (Initial verb key)
    have "fits key (scalar_of shapes verb key) (filter (\<lambda>a. act_verb a = verb) (k_acts k))"
      using fitting_field [OF assms(1)] assms(2) Initial by (auto simp: fits_def rule_data_fields_def)
    then show ?thesis using Initial assms(4) initial_value_type by (auto simp: eval_rule_def rule_type_def)
  next
    case (Events verb key)
    have "fits key (scalar_of shapes verb key) (acts_of k verb)"
      using assms(2) Events by (intro fit) (simp add: rule_data_fields_def)
    then show ?thesis
      using Events assms(4)
      by (auto simp: eval_rule_def rule_type_def map_of_type_def list_all_iff set_map_filter event_entry_def fits_def)
  next
    case (Histogram field)
    then show ?thesis using histogram_rule_type [OF assms(3)] assms(4) by (auto simp: eval_rule_def)
  next
    case (BoundedCounter c)
    then show ?thesis using assms(4) outcome_type by (auto simp: eval_rule_def rule_type_def simp del: has_type.simps)
  next
    case (Progress verb)
    then show ?thesis using assms(4) by (auto simp: eval_rule_def rule_type_def split: option.splits)
  qed (use assms(2,4) distinct_field_type [OF fit] distinct_field_type [OF live(1)]
      in \<open>auto simp: eval_rule_def rule_type_def rule_data_fields_def simp del: has_type.simps(5)\<close>)
qed

lemma fold_fields_type:
  assumes "fitting_acts shapes clause (k_acts k)" "set (concat (map (\<lambda>(_, r). rule_data_fields r) rules)) \<subseteq> set (clause_data_fields clause)"
    "typed_fields done out" "fold_fields sha256 k protocol acts rules done = Some vs"
  shows "typed_fields vs (foldl (schema_step shapes) out rules)"
  using assms(2-4)
proof (induction rules arbitrary: "done" out)
  case (Cons nr rules)
  obtain name r where nr: "nr = (name, r)" by (cases nr)
  obtain v where v: "(case r of BoundedCounter c \<Rightarrow> map_option outcome_value (observe sha256 c acts)
       | _ \<Rightarrow> eval_rule sha256 k done protocol r) = Some v"
      "fold_fields sha256 k protocol acts rules (done @ [(name, v)]) = Some vs"
    using Cons.prems(3) nr by (auto split: option.splits)
  have "has_type (rule_type shapes out r) v"
  proof (cases "\<exists>c. r = BoundedCounter c")
    case True
    then show ?thesis using v(1) outcome_type by (auto simp: rule_type_def simp del: has_type.simps)
  next
    case False
    then have "eval_rule sha256 k done protocol r = Some v" using v(1) by (cases r) auto
    then show ?thesis using Cons.prems(1,2) nr by (intro eval_rule_type [OF assms(1)]) auto
  qed
  then have "typed_fields (done @ [(name, v)]) (schema_step shapes out nr)"
    using Cons.prems(2) nr by (simp add: typed_fields_def schema_step_def list_all2_appendI)
  then show ?case using Cons.IH v(2) Cons.prems(1) by simp
qed simp

section \<open>Properties\<close>

text \<open>C24: The schema a dialect publishes is sound: folding any acts whose state-bearing fields fit the declared
  shapes gives, field by field and in the order of the clause, a value of the type that \<open>state_schema\<close> names
  for it, the derived histograms included.\<close>

theorem fold_has_schema_type:
  assumes "fitting_acts shapes clause acts" "fold_state sha256 clause protocol acts = Some vs"
  shows "list_all2 (\<lambda>(n, v) (m, ty). n = m \<and> has_type ty v) vs (state_schema clause shapes)"
proof -
  obtain k where k: "kernel_for sha256 clause acts = Some k"
      "fold_fields sha256 k protocol acts (clause_fields clause) [] = Some vs"
    using assms(2) by (auto simp: fold_state_def bind_eq_Some_conv)
  have "set (k_acts k) \<subseteq> set acts" using k(1) set_dedup_subset [of acts] by (auto simp: kernel_for_def Let_def)
  then have "fitting_acts shapes clause (k_acts k)"
    using assms(1) unfolding fitting_acts_def list_all_iff by blast
  from fold_fields_type [OF this _ _ k(2), of "[]"] show ?thesis
    by (auto simp: typed_fields_def state_schema_def clause_data_fields_def)
qed

theorem fold_has_schema_type_witness:
  "\<exists>vs. fold_state sample_digest \<lparr>entries = [EField ''room'' (SetUnion ''open'' ''room''), EField ''opened'' (Count ''open'')]\<rparr>
      None sample_history = Some vs \<and>
    list_all2 (\<lambda>(n, v) (m, ty). n = m \<and> has_type ty v) vs [(''room'', TySet SList), (''opened'', TyInt)]"
proof -
  let ?c = "\<lparr>entries = [EField ''room'' (SetUnion ''open'' ''room''), EField ''opened'' (Count ''open'')]\<rparr>"
  let ?s = "[\<lparr>shape_performative = ''open'', shape_rules = [Require ''room'' (Some TList) []]\<rparr>]"
  have fit: "fitting_acts ?s ?c sample_history" by code_simp
  have schema: "state_schema ?c ?s = [(''room'', TySet SList), (''opened'', TyInt)]" by code_simp
  obtain k where "kernel_for sample_digest ?c sample_history = Some k"
    using kernel_for_total sample_coherent by (metis coherent_def)
  then obtain vs where "fold_state sample_digest ?c None sample_history = Some vs"
    by (auto simp: fold_state_def clause_fields_def eval_rule_def map_filter_simps)
  then show ?thesis using fold_has_schema_type [OF fit] schema by metis
qed

end
