(* ===== verification/Cbcl_Stateshape.thy ===== *)
theory Cbcl_Stateshape
  imports Cbcl_State
begin

text \<open>
  The message side of R7 (\<open>cbcl-core/src/r7.rs\<close>): the fields a compiler inserts into the shapes of
  state-bearing verbs, and the check every message of such a verb passes before it is folded. A message
  that passes carries what the fold reads: a parseable clock and a list of distinct addresses to replace.
\<close>

section \<open>Inserted fields\<close>

fun push_rule :: "shape_constraint list \<Rightarrow> string \<Rightarrow> shape_rule \<Rightarrow> shape_constraint list" where
  "push_rule [] verb r = [\<lparr>shape_performative = verb, shape_rules = [r]\<rparr>]"
| "push_rule (s # ss) verb r =
     (if shape_performative s = verb then s\<lparr>shape_rules := shape_rules s @ [r]\<rparr> # ss
      else s # push_rule ss verb r)"

definition ensure_field ::
  "string \<Rightarrow> type_constraint \<Rightarrow> shape_constraint list \<Rightarrow> string \<Rightarrow> shape_constraint list" where
  "ensure_field keyword ty shapes verb =
     (if field_type shapes verb keyword \<noteq> None then shapes
      else push_rule shapes verb (Require keyword (Some ty) []))"

definition ensure_links :: "shape_constraint list \<Rightarrow> string \<Rightarrow> shape_constraint list" where
  "ensure_links shapes verb = ensure_field DEPS TList (ensure_field PREV TSymbol shapes verb) verb"

definition ensure_replaces :: "shape_constraint list \<Rightarrow> string \<Rightarrow> shape_constraint list" where
  "ensure_replaces shapes verb =
     (if shape_has_replaces shapes verb then shapes
      else push_rule shapes verb (Require RESERVED_REPLACES (Some TList) []))"

definition escrow_verbs :: "state_clause \<Rightarrow> string list" where
  "escrow_verbs clause = concat (map (\<lambda>(_, r). case r of
       BoundedCounter c \<Rightarrow> operation_verbs c | _ \<Rightarrow> []) (clause_fields clause))"

definition quorum_verbs :: "state_clause \<Rightarrow> string list" where
  "quorum_verbs clause = concat (map (\<lambda>(_, r). case r of
       BoundedCounter c \<Rightarrow> if is_quorum (certification c) then operation_verbs c else []
     | _ \<Rightarrow> []) (clause_fields clause))"

definition insert_replaces :: "dialect \<Rightarrow> dialect" where
  "insert_replaces d = (case d_state d of
       None \<Rightarrow> d
     | Some clause \<Rightarrow>
         (let linked = foldl ensure_links (d_shapes d) (escrow_verbs clause);
              nonced = foldl (ensure_field NONCE TString) linked (quorum_verbs clause)
          in d\<lparr>d_shapes := foldl ensure_replaces nonced (clause_replaces_verbs clause)\<rparr>))"

section \<open>The message check\<close>

definition violation :: "string \<Rightarrow> string option \<Rightarrow> string \<Rightarrow> shape_violation" where
  "violation rule field detail =
     \<lparr>v_rule = rule, v_field = map_option (\<lambda>f. '':'' @ f) field, v_expected = None, v_found = None,
      v_detail = detail\<rparr>"

definition is_scalar_value :: "sexpr \<Rightarrow> bool" where
  "is_scalar_value v = (case v of Atom (Str _) \<Rightarrow> True | Atom (Num _) \<Rightarrow> True | Atom (Bool _) \<Rightarrow> True | _ \<Rightarrow> False)"

definition size_violation :: "string \<Rightarrow> string \<Rightarrow> string \<Rightarrow> shape_violation" where
  "size_violation verb key what = violation ''size'' (Some key) ('':'' @ key @ '' of '' @ quoted verb @ what)"

text \<open>The source casts lengths to \<open>u32\<close> before it compares them.\<close>

fun check_bounds :: "string \<Rightarrow> string \<Rightarrow> sexpr \<Rightarrow> state_bounds \<Rightarrow> (shape_violation, unit) result"
  and check_items :: "string \<Rightarrow> string \<Rightarrow> sexpr list \<Rightarrow> state_bounds \<Rightarrow> (shape_violation, unit) result" where
  "check_bounds verb key (Atom (Str s)) b =
     (if max_string b < of_nat (length s)
      then Inl (size_violation verb key ('' exceeds max-string '' @ show_nat (unat (max_string b)))) else Inr ())"
| "check_bounds verb key (Atom (Num n)) b =
     (if i64_as_u64 (max_number b) < abs n
      then Inl (size_violation verb key ('' exceeds max-number '' @ show_int (max_number b))) else Inr ())"
| "check_bounds verb key (List items) b =
     (if max_list b < of_nat (length items)
      then Inl (size_violation verb key ('' exceeds max-list '' @ show_nat (unat (max_list b))))
      else check_items verb key items b)"
| "check_bounds verb key _ b = Inr ()"
| "check_items verb key [] b = Inr ()"
| "check_items verb key (x # xs) b =
     (if \<not> is_scalar_value x then Inl (size_violation verb key '' holds a non-scalar element'')
      else case check_bounds verb key x b of Inl e \<Rightarrow> Inl e | Inr _ \<Rightarrow> check_items verb key xs b)"

fun closed_scan :: "string btset \<Rightarrow> string \<Rightarrow> sexpr list \<Rightarrow> (shape_violation, unit) result" where
  "closed_scan declared verb [] = Inr ()"
| "closed_scan declared verb (x # xs) = (case x of
       Atom (Keyword k) \<Rightarrow>
         if k \<notin> set declared \<and> k \<notin> set ROUTING_KEYWORDS
         then Inl (violation ''closed'' (Some k) (''undeclared field :'' @ k @ '' on '' @ quoted verb))
         else closed_scan declared verb (drop 1 xs)
     | other \<Rightarrow> Inl (violation ''closed'' None
         (''positional parameter '' @ display_sexpr other @ '' on '' @ quoted verb)))"

fun clock_scan :: "string \<Rightarrow> (string, sexpr) btmap \<Rightarrow> (string \<times> rule) list \<Rightarrow> (shape_violation, unit) result" where
  "clock_scan verb flds [] = Inr ()"
| "clock_scan verb flds ((_, r) # rest) = (case clock_field r of
       Some (writer, clock) \<Rightarrow>
         if writer = verb \<and> \<not> (case bt_get flds clock of Some v \<Rightarrow> type_matches THlc v | None \<Rightarrow> False)
         then Inl (violation ''hlc'' (Some clock) ''expected canonical hlc-<16 lower hex>-<8 lower hex> string'')
         else clock_scan verb flds rest
     | None \<Rightarrow> clock_scan verb flds rest)"

definition allocation_field :: "state_clause \<Rightarrow> string \<Rightarrow> string \<Rightarrow> bool" where
  "allocation_field clause verb key = list_ex (\<lambda>(_, r). case r of
       BoundedCounter c \<Rightarrow> ownership c = Account \<and> initial_verb c = verb \<and>
         (initial_key c = key \<or> headroom_key c = Some key)
     | _ \<Rightarrow> False) (clause_fields clause)"

definition account_key :: "state_bounds \<Rightarrow> sexpr \<Rightarrow> bool" where
  "account_key b v = (case text_of v of
       Some s \<Rightarrow> starts_with_at s \<and> 1 < length s \<and> length s \<le> unat (max_string b)
     | None \<Rightarrow> False)"

definition check_field ::
  "dialect \<Rightarrow> state_clause \<Rightarrow> string \<Rightarrow> string \<Rightarrow> sexpr \<Rightarrow> (shape_violation, unit) result" where
  "check_field d clause verb key v =
     (let b = bounds_of d
      in if allocation_field clause verb key then
           (case allocations v of
              Inl e \<Rightarrow> Inl (violation ''allocations'' (Some key) e)
            | Inr parsed \<Rightarrow>
                if unat (max_list b) < length parsed \<or>
                   list_ex (\<lambda>(a, n). unat (max_string b) < length a \<or> max_number b < n) parsed
                then Inl (violation ''allocations'' (Some key) ''allocation bounds exceeded'') else Inr ())
         else if recipient_field d verb key then
           (if account_key b v then Inr ()
            else Inl (violation ''recipient'' (Some key) ''recipient must be an account key''))
         else check_bounds verb key v b)"

fun field_scan ::
  "dialect \<Rightarrow> state_clause \<Rightarrow> string \<Rightarrow> (string, sexpr) btmap \<Rightarrow> string list \<Rightarrow> (shape_violation, unit) result" where
  "field_scan d clause verb flds [] = Inr ()"
| "field_scan d clause verb flds (key # rest) = (case bt_get flds key of
       None \<Rightarrow> field_scan d clause verb flds rest
     | Some v \<Rightarrow> (case check_field d clause verb key v of
           Inl e \<Rightarrow> Inl e | Inr _ \<Rightarrow> field_scan d clause verb flds rest))"

fun dep_scan :: "string \<Rightarrow> sexpr list \<Rightarrow> string option \<Rightarrow> bool" where
  "dep_scan prev [] prior = True"
| "dep_scan prev (x # xs) prior = (case x of
       Atom (Symbol s) \<Rightarrow>
         if content_address s \<and> s \<noteq> prev \<and> pred_option (\<lambda>p. p < s) prior then dep_scan prev xs (Some s) else False
     | _ \<Rightarrow> False)"

definition valid_nonce :: "sexpr option \<Rightarrow> bool" where
  "valid_nonce v = (case v of Some (Atom (Str s)) \<Rightarrow> s \<noteq> [] \<and> length s \<le> 256 | _ \<Rightarrow> False)"

definition escrow_links ::
  "dialect \<Rightarrow> string \<Rightarrow> (string, sexpr) btmap \<Rightarrow> (shape_violation, unit) result" where
  "escrow_links d verb flds = (case rule_for d verb of
       None \<Rightarrow> Inr ()
     | Some (_, c) \<Rightarrow>
         if is_quorum (certification c) \<and> \<not> valid_nonce (bt_get flds NONCE)
         then Inl (violation ''escrow'' (Some NONCE) ''missing or invalid transaction nonce'')
         else (case bt_get flds PREV of
             Some (Atom (Symbol prev)) \<Rightarrow>
               if \<not> content_address prev
               then Inl (violation ''escrow'' (Some PREV) ''missing or invalid escrow-prev'')
               else (case bt_get flds DEPS of
                   Some (List deps) \<Rightarrow>
                     if unat (max_list (bounds_of d)) < length deps
                     then Inl (violation ''escrow'' (Some DEPS) ''missing or oversized escrow-deps'')
                     else if dep_scan prev deps None then Inr ()
                     else Inl (violation ''escrow'' (Some DEPS) ''dependencies must be sorted distinct addresses'')
                 | _ \<Rightarrow> Inl (violation ''escrow'' (Some DEPS) ''missing or oversized escrow-deps''))
           | _ \<Rightarrow> Inl (violation ''escrow'' (Some PREV) ''missing or invalid escrow-prev'')))"

definition replaces_violation :: "string \<Rightarrow> shape_violation" where
  "replaces_violation detail = violation ''replaces'' (Some RESERVED_REPLACES) detail"

fun replaces_scan :: "sexpr list \<Rightarrow> string btset \<Rightarrow> (shape_violation, unit) result" where
  "replaces_scan [] seen = Inr ()"
| "replaces_scan (x # xs) seen = (case text_of x of
       None \<Rightarrow> Inl (replaces_violation '':replaces holds a non-address'')
     | Some text \<Rightarrow>
         if \<not> content_address text then Inl (replaces_violation (quoted text @ '' is not a content address''))
         else if text \<in> set seen then Inl (replaces_violation (quoted text @ '' named twice''))
         else replaces_scan xs (bs_insert text seen))"

definition replaces_check ::
  "dialect \<Rightarrow> state_clause \<Rightarrow> string \<Rightarrow> (string, sexpr) btmap \<Rightarrow> (shape_violation, unit) result" where
  "replaces_check d clause verb flds = (case bt_get flds RESERVED_REPLACES of
       None \<Rightarrow> if verb \<in> set (clause_replaces_verbs clause)
         then Inl (replaces_violation ''missing required :replaces list'') else Inr ()
     | Some (List items) \<Rightarrow>
         if max_list (bounds_of d) < of_nat (length items)
         then Inl (replaces_violation ('':replaces names more than '' @
           show_nat (unat (max_list (bounds_of d))) @ '' addresses''))
         else replaces_scan items []
     | Some _ \<Rightarrow> Inl (replaces_violation '':replaces must be a list''))"

definition then_check ::
  "(shape_violation, unit) result \<Rightarrow> (shape_violation, unit) result \<Rightarrow> (shape_violation, unit) result" where
  "then_check a b = (case a of Inl e \<Rightarrow> Inl e | Inr _ \<Rightarrow> b)"

definition state_check :: "dialect \<Rightarrow> state_clause \<Rightarrow> string \<Rightarrow> simple_message \<Rightarrow> (shape_violation, unit) result" where
  "state_check d clause verb s =
     (let flds = keyword_fields (Simple s);
          named = bs_of_list (map snd (filter (\<lambda>(v, _). v = verb) (clause_data_fields clause)))
      in then_check (closed_scan (declared_keywords (d_shapes d) verb) verb (m_params s))
        (then_check (clock_scan verb flds (clause_fields clause))
        (then_check (field_scan d clause verb flds named)
        (then_check (escrow_links d verb flds)
           (replaces_check d clause verb flds)))))"

definition verify_state_shape :: "dialect \<Rightarrow> message \<Rightarrow> (shape_violation, unit) result" where
  "verify_state_shape d msg = (case d_state d of
       None \<Rightarrow> Inr ()
     | Some clause \<Rightarrow> (case innermost_simple msg of
           Some (Simple s) \<Rightarrow> (case performative_of (Simple s) of
               None \<Rightarrow> Inr ()
             | Some p \<Rightarrow>
                 if performative_name p \<notin> set (state_bearing_verbs clause) then Inr ()
                 else state_check d clause (performative_name p) s)
         | _ \<Rightarrow> Inr ()))"

section \<open>What insertion declares\<close>

text \<open>The declarations of a keyword in the shapes of a verb, in the order the checks meet them.\<close>

definition decls :: "shape_constraint list \<Rightarrow> string \<Rightarrow> string \<Rightarrow> (string \<times> type_constraint option) list" where
  "decls shapes v key = filter (\<lambda>(k, _). k = key) (List.map_filter keyword_type (verb_rules shapes v))"

lemma decls_simps [simp]:
  "decls [] v key = []"
  "decls (s # ss) v key = (if shape_performative s = v
     then filter (\<lambda>(k, _). k = key) (List.map_filter keyword_type (shape_rules s)) else []) @ decls ss v key"
  by (simp_all add: decls_def verb_rules_def map_filter_def)

lemma find_filter: "find P xs = (case filter P xs of [] \<Rightarrow> None | x # _ \<Rightarrow> Some x)"
  by (induction xs) auto

lemma field_type_decls: "field_type shapes v key = (case decls shapes v key of [] \<Rightarrow> None | d # _ \<Rightarrow> snd d)"
  by (auto simp: field_type_def decls_def find_filter split: list.splits)

lemma decls_mem: "key \<in> fst ` set (List.map_filter keyword_type (verb_rules shapes v)) \<longleftrightarrow> decls shapes v key \<noteq> []"
  by (force simp: decls_def filter_empty_conv)

lemma has_replaces_decls: "shape_has_replaces shapes v \<longleftrightarrow> decls shapes v RESERVED_REPLACES \<noteq> []"
  unfolding shape_has_replaces_def set_map decls_mem by (auto simp: field_type_decls)

lemma declared_decls: "key \<in> set (declared_keywords shapes v) \<longleftrightarrow> decls shapes v key \<noteq> []"
  by (simp add: declared_keywords_def decls_mem)

lemma decls_push_other:
  "v \<noteq> verb \<or> key \<noteq> k \<Longrightarrow> decls (push_rule shapes verb (Require k tc [])) v key = decls shapes v key"
  by (induction shapes verb "Require k tc []" rule: push_rule.induct)
     (auto simp: map_filter_def keyword_type_def)

lemma decls_push_nonempty: "decls (push_rule shapes verb (Require k tc [])) verb k \<noteq> []"
  by (induction shapes verb "Require k tc []" rule: push_rule.induct) (auto simp: map_filter_def keyword_type_def)

lemma decls_push_new:
  "decls shapes verb k = [] \<Longrightarrow> decls (push_rule shapes verb (Require k tc [])) verb k = [(k, tc)]"
  by (induction shapes verb "Require k tc []" rule: push_rule.induct)
     (auto simp: map_filter_def keyword_type_def split: if_splits)

definition typed_key :: "string \<Rightarrow> shape_constraint list \<Rightarrow> bool" where
  "typed_key key shapes \<longleftrightarrow> (\<forall>v. decls shapes v key \<noteq> [] \<longrightarrow> field_type shapes v key \<noteq> None)"

text \<open>An insertion never takes a declared type away and leaves typed keywords typed.\<close>

definition extends_shapes :: "shape_constraint list \<Rightarrow> shape_constraint list \<Rightarrow> bool" where
  "extends_shapes s s' \<longleftrightarrow>
     (\<forall>v key. field_type s v key \<noteq> None \<longrightarrow> field_type s' v key = field_type s v key) \<and>
     (\<forall>v key. decls s v key \<noteq> [] \<longrightarrow> decls s' v key \<noteq> []) \<and>
     (\<forall>key. typed_key key s \<longrightarrow> typed_key key s')"

lemma extends_shapes_refl: "extends_shapes s s"
  by (simp add: extends_shapes_def)

lemma extends_shapes_trans: "extends_shapes s t \<Longrightarrow> extends_shapes t u \<Longrightarrow> extends_shapes s u"
  unfolding extends_shapes_def by metis

lemma extends_foldl: "(\<And>s v. extends_shapes s (f s v)) \<Longrightarrow> extends_shapes s (foldl f s vs)"
  by (induction vs arbitrary: s) (auto intro: extends_shapes_refl extends_shapes_trans)

lemma extends_push:
  assumes "field_type s verb k = None" shows "extends_shapes s (push_rule s verb (Require k (Some ty) []))"
proof -
  let ?s = "push_rule s verb (Require k (Some ty) [])"
  have other: "decls ?s v key = decls s v key" if "(v, key) \<noteq> (verb, k)" for v key
    using that decls_push_other by simp
  have "field_type ?s v key = field_type s v key" if "field_type s v key \<noteq> None" for v key
    using that assms other by (cases "(v, key) = (verb, k)") (auto simp: field_type_decls)
  moreover have "decls ?s v key \<noteq> []" if "decls s v key \<noteq> []" for v key
    using that other decls_push_nonempty by (cases "(v, key) = (verb, k)") auto
  moreover have "field_type ?s v key \<noteq> None" if "typed_key key s" "decls ?s v key \<noteq> []" for v key
  proof (cases "(v, key) = (verb, k)")
    case True
    then have "decls s verb k = []" using that(1) assms by (auto simp: typed_key_def)
    from decls_push_new [OF this] show ?thesis using True by (simp add: field_type_decls)
  next
    case False
    then show ?thesis using other that by (simp add: typed_key_def field_type_decls)
  qed
  ultimately show ?thesis by (auto simp: extends_shapes_def typed_key_def)
qed

lemma extends_ensure:
  "extends_shapes s (ensure_field k ty s v)" "extends_shapes s (ensure_links s v)" "extends_shapes s (ensure_replaces s v)"
proof -
  show field: "extends_shapes s (ensure_field k ty s v)" for k ty s v
    by (auto simp: ensure_field_def intro: extends_shapes_refl extends_push)
  show "extends_shapes s (ensure_links s v)" unfolding ensure_links_def by (rule extends_shapes_trans [OF field field])
  show "extends_shapes s (ensure_replaces s v)"
    by (auto simp: ensure_replaces_def has_replaces_decls field_type_decls intro: extends_shapes_refl extends_push)
qed

lemma ensure_field_typed: "typed_key k s \<Longrightarrow> field_type (ensure_field k ty s v) v k \<noteq> None"
proof (cases "field_type s v k")
  case None
  assume "typed_key k s"
  then have "decls s v k = []" using None by (auto simp: typed_key_def)
  from decls_push_new [OF this] show ?thesis using None by (simp add: ensure_field_def field_type_decls)
qed (simp add: ensure_field_def)

lemma ensure_links_typed:
  assumes "typed_key PREV s" "typed_key DEPS s"
  shows "field_type (ensure_links s w) w PREV \<noteq> None \<and> field_type (ensure_links s w) w DEPS \<noteq> None"
proof -
  let ?p = "ensure_field PREV TSymbol s w"
  have "typed_key DEPS ?p" using assms(2) extends_ensure(1) [of s PREV TSymbol w] by (simp add: extends_shapes_def)
  then have "field_type (ensure_links s w) w DEPS \<noteq> None" unfolding ensure_links_def by (rule ensure_field_typed)
  moreover have "field_type (ensure_links s w) w PREV \<noteq> None"
    using ensure_field_typed [OF assms(1), of TSymbol w] extends_ensure(1) [of ?p DEPS TList w]
    unfolding ensure_links_def extends_shapes_def by auto
  ultimately show ?thesis by simp
qed

lemma foldl_reached:
  assumes "\<And>s v. extends_shapes s (f s v)" "\<And>s v. I s \<Longrightarrow> Q (f s v) v" "\<And>s v. I s \<Longrightarrow> I (f s v)"
    "\<And>s t v. extends_shapes s t \<Longrightarrow> Q s v \<Longrightarrow> Q t v" "I s" "v \<in> set vs"
  shows "Q (foldl f s vs) v"
  using assms(5,6)
proof (induction vs arbitrary: s)
  case (Cons w vs)
  show ?case
  proof (cases "v = w")
    case True
    then have "Q (f s w) v" using assms(2) Cons.prems by simp
    then show ?thesis using assms(4) [OF extends_foldl [of f, OF assms(1)]] by simp
  qed (use Cons assms(3) in simp)
qed simp

lemma foldl_fixed: "\<forall>v \<in> set vs. f s v = s \<Longrightarrow> foldl f s vs = s"
  by (induction vs) auto

text \<open>The shapes after an insertion, as each of its three passes leaves them.\<close>

definition linked :: "dialect \<Rightarrow> shape_constraint list \<Rightarrow> bool" where
  "linked d shapes \<longleftrightarrow> (\<forall>clause. d_state d = Some clause \<longrightarrow>
     (\<forall>v \<in> set (escrow_verbs clause). field_type shapes v PREV \<noteq> None \<and> field_type shapes v DEPS \<noteq> None) \<and>
     (\<forall>v \<in> set (quorum_verbs clause). field_type shapes v NONCE \<noteq> None) \<and>
     (\<forall>v \<in> set (clause_replaces_verbs clause). RESERVED_REPLACES \<in> set (declared_keywords shapes v)))"

lemma linked_fixed: "linked d (d_shapes d) \<Longrightarrow> insert_replaces d = d"
  by (cases "d_state d")
     (auto simp: linked_def insert_replaces_def Let_def foldl_fixed ensure_links_def ensure_field_def ensure_replaces_def
       declared_decls has_replaces_decls)

lemma insert_linked:
  assumes "typed_key PREV (d_shapes d)" "typed_key DEPS (d_shapes d)" "typed_key NONCE (d_shapes d)"
  shows "linked d (d_shapes (insert_replaces d))"
proof -
  have "(v \<in> set (escrow_verbs clause) \<longrightarrow> field_type (d_shapes (insert_replaces d)) v PREV \<noteq> None \<and>
        field_type (d_shapes (insert_replaces d)) v DEPS \<noteq> None) \<and>
      (v \<in> set (quorum_verbs clause) \<longrightarrow> field_type (d_shapes (insert_replaces d)) v NONCE \<noteq> None) \<and>
      (v \<in> set (clause_replaces_verbs clause) \<longrightarrow> RESERVED_REPLACES \<in> set (declared_keywords (d_shapes (insert_replaces d)) v))"
    if st: "d_state d = Some clause" for clause v
  proof -
    define a where "a = foldl ensure_links (d_shapes d) (escrow_verbs clause)"
    define b where "b = foldl (ensure_field NONCE TString) a (quorum_verbs clause)"
    have c: "d_shapes (insert_replaces d) = foldl ensure_replaces b (clause_replaces_verbs clause)"
      using st by (simp add: insert_replaces_def a_def b_def)
    have ext: "extends_shapes (d_shapes d) a" "extends_shapes a b" "extends_shapes b (d_shapes (insert_replaces d))"
      by (simp_all add: a_def b_def c extends_foldl extends_ensure)
    have keep: "field_type (d_shapes (insert_replaces d)) v key \<noteq> None" if "field_type a v key \<noteq> None \<or> field_type b v key \<noteq> None" for key
      using that ext(2,3) unfolding extends_shapes_def by metis
    have links: "field_type (d_shapes (insert_replaces d)) v PREV \<noteq> None \<and> field_type (d_shapes (insert_replaces d)) v DEPS \<noteq> None"
      if v: "v \<in> set (escrow_verbs clause)"
    proof -
      have "field_type a v PREV \<noteq> None \<and> field_type a v DEPS \<noteq> None"
        unfolding a_def
        by (rule foldl_reached [where I = "\<lambda>s. typed_key PREV s \<and> typed_key DEPS s" and
              Q = "\<lambda>s v. field_type s v PREV \<noteq> None \<and> field_type s v DEPS \<noteq> None", OF extends_ensure(2)])
           (use assms v ensure_links_typed extends_ensure(2) in \<open>auto simp: extends_shapes_def\<close>)
      then show ?thesis using keep by simp
    qed
    have nonce: "field_type (d_shapes (insert_replaces d)) v NONCE \<noteq> None" if v: "v \<in> set (quorum_verbs clause)"
    proof -
      have t: "typed_key NONCE a" using ext(1) assms(3) by (simp add: extends_shapes_def)
      have "field_type b v NONCE \<noteq> None"
        unfolding b_def
        by (rule foldl_reached [where I = "typed_key NONCE" and Q = "\<lambda>s v. field_type s v NONCE \<noteq> None", OF extends_ensure(1) ensure_field_typed])
           (use v t extends_ensure(1) in \<open>auto simp: extends_shapes_def\<close>)
      then show ?thesis using keep by simp
    qed
    have "RESERVED_REPLACES \<in> set (declared_keywords (d_shapes (insert_replaces d)) v)"
      if v: "v \<in> set (clause_replaces_verbs clause)"
        unfolding c declared_decls
        by (rule foldl_reached [where I = "\<lambda>_. True" and Q = "\<lambda>s v. decls s v RESERVED_REPLACES \<noteq> []", OF extends_ensure(3)])
           (use v decls_push_nonempty in \<open>auto simp: extends_shapes_def ensure_replaces_def has_replaces_decls\<close>)
    then show ?thesis using links nonce by blast
  qed
  then show ?thesis unfolding linked_def by blast
qed

section \<open>What a checked message carries\<close>

lemma then_check_Inr: "then_check a b = Inr () \<longleftrightarrow> a = Inr () \<and> b = Inr ()"
  by (cases a) (simp_all add: then_check_def)

lemma closed_scan_iff:
  "closed_scan declared verb params = Inr () \<longleftrightarrow>
     (\<forall>i < length params. even i \<longrightarrow> (\<exists>k. params ! i = Atom (Keyword k) \<and> (k \<in> set declared \<or> k \<in> set ROUTING_KEYWORDS)))"
proof (induction declared verb params rule: closed_scan.induct)
  case (2 declared verb x xs)
  have shift: "(\<forall>i < length (x # xs). even i \<longrightarrow> P ((x # xs) ! i)) \<longleftrightarrow> P x \<and> (\<forall>i < length (drop 1 xs). even i \<longrightarrow> P (drop 1 xs ! i))"
    for P
  proof (intro iffI conjI allI impI)
    assume a: "P x \<and> (\<forall>i < length (drop 1 xs). even i \<longrightarrow> P (drop 1 xs ! i))"
    fix i assume i: "i < length (x # xs)" "even i"
    show "P ((x # xs) ! i)"
    proof (cases "i = 0")
      case False
      then obtain j where "i = Suc (Suc j)" using i(2) by (metis dvd_0_right even_Suc not0_implies_Suc)
      then show ?thesis using a i by (auto dest: spec [of _ j])
    qed (use a in simp)
  next
    assume a: "\<forall>i < length (x # xs). even i \<longrightarrow> P ((x # xs) ! i)"
    then show "P x" by auto
    fix i assume "i < length (drop 1 xs)" "even i"
    then show "P (drop 1 xs ! i)" using a [rule_format, of "Suc (Suc i)"] by simp
  qed
  let ?ok = "\<lambda>e. \<exists>k. e = Atom (Keyword k) \<and> (k \<in> set declared \<or> k \<in> set ROUTING_KEYWORDS)"
  show ?case
  proof (cases "?ok x")
    case True
    then obtain k where k: "x = Atom (Keyword k)" "k \<in> set declared \<or> k \<in> set ROUTING_KEYWORDS" by blast
    then have "closed_scan declared verb (x # xs) = closed_scan declared verb (drop 1 xs)" by auto
    moreover have "closed_scan declared verb (drop 1 xs) = Inr () \<longleftrightarrow>
        (\<forall>i < length (drop 1 xs). even i \<longrightarrow> ?ok (drop 1 xs ! i))" using 2 [OF k(1)] k(2) by blast
    ultimately show ?thesis using True shift [of ?ok] by presburger
  next
    case False
    then have "closed_scan declared verb (x # xs) \<noteq> Inr ()" by (auto split: sexpr.split atom.split)
    then show ?thesis using False shift [of ?ok] by presburger
  qed
qed simp

lemma clock_scan_iff:
  "clock_scan verb flds rules = Inr () \<longleftrightarrow>
     (\<forall>(n, r) \<in> set rules. \<forall>clock. clock_field r = Some (verb, clock) \<longrightarrow>
        (\<exists>text. bt_get flds clock = Some (Atom (Str text)) \<and> hlc_parse text \<noteq> None))"
proof (induction verb flds rules rule: clock_scan.induct)
  case (2 verb flds n r rest)
  have "type_matches THlc v \<longleftrightarrow> (\<exists>text. v = Atom (Str text) \<and> hlc_parse text \<noteq> None)" for v
    by (auto simp: type_matches_def split: sexpr.splits atom.splits)
  then have ok: "(case bt_get flds clock of Some v \<Rightarrow> type_matches THlc v | None \<Rightarrow> False) \<longleftrightarrow>
      (\<exists>text. bt_get flds clock = Some (Atom (Str text)) \<and> hlc_parse text \<noteq> None)" for clock
    by (cases "bt_get flds clock") auto
  show ?case
  proof (cases "clock_field r")
    case (Some wc)
    then show ?thesis using 2 by (cases wc) (auto simp: ok)
  qed (use 2 in simp)
qed simp

lemma replaces_scan_iff:
  "replaces_scan items seen = Inr () \<longleftrightarrow> list_all (\<lambda>x. text_of x \<noteq> None) items \<and>
     list_all content_address (List.map_filter text_of items) \<and> distinct (List.map_filter text_of items) \<and>
     set (List.map_filter text_of items) \<inter> set seen = {}"
  by (induction items seen rule: replaces_scan.induct) (auto simp: map_filter_simps split: option.split)

lemma state_check_iff:
  "state_check d clause verb s = Inr () \<longleftrightarrow>
     closed_scan (declared_keywords (d_shapes d) verb) verb (m_params s) = Inr () \<and>
     clock_scan verb (keyword_fields (Simple s)) (clause_fields clause) = Inr () \<and>
     field_scan d clause verb (keyword_fields (Simple s))
       (bs_of_list (map snd (filter (\<lambda>(v, _). v = verb) (clause_data_fields clause)))) = Inr () \<and>
     escrow_links d verb (keyword_fields (Simple s)) = Inr () \<and>
     replaces_check d clause verb (keyword_fields (Simple s)) = Inr ()"
  by (simp add: state_check_def Let_def then_check_Inr)

lemma innermost_is_simple: "innermost_simple m = Some x \<Longrightarrow> \<exists>s. x = Simple s"
  by (induction m rule: innermost_simple.induct) auto

lemma checked_act:
  assumes "verify_state_shape d (act_message a) = Inr ()" "genuine sha256 a" "d_state d = Some clause"
    "act_verb a \<in> set (state_bearing_verbs clause)"
  obtains s where "state_check d clause (act_verb a) s = Inr ()" "act_fields a = keyword_fields (Simple s)"
    "innermost_simple (act_message a) = Some (Simple s)"
proof -
  obtain m where m: "act_simple a = Some m" using genuine_simple [OF assms(2)] by auto
  then obtain s where s: "innermost_simple (act_message a) = Some (Simple s)"
    using innermost_is_simple by (auto simp: act_simple_def)
  then show ?thesis
    using that assms by (auto simp: genuine_def from_message_eq_Inr verify_state_shape_def split: option.splits if_splits)
qed

lemma map_filter_length: "list_all (\<lambda>x. f x \<noteq> None) xs \<Longrightarrow> length (List.map_filter f xs) = length xs"
  by (induction xs) (auto simp: map_filter_simps)

lemma replaces_check_list:
  assumes "replaces_check d clause verb (act_fields a) = Inr ()"
  shows "distinct (replaces_of a) \<and> list_all content_address (replaces_of a) \<and>
    (verb \<in> set (clause_replaces_verbs clause) \<longrightarrow>
       (\<exists>items. bt_get (act_fields a) RESERVED_REPLACES = Some (List items) \<and> length (replaces_of a) = length items))"
proof (cases "bt_get (act_fields a) RESERVED_REPLACES")
  case None
  then show ?thesis using assms by (auto simp: replaces_check_def replaces_of_def split: if_splits)
next
  case (Some e)
  then obtain items where e: "e = List items" "replaces_scan items [] = Inr ()"
    using assms by (cases e) (auto simp: replaces_check_def split: if_splits)
  then show ?thesis
    using Some by (simp add: replaces_of_def replaces_scan_iff map_filter_length)
qed

section \<open>Properties\<close>

text \<open>The compiler's insertion declares what the run-time checks ask for, and is idempotent: when no shape declares
  a bookkeeping keyword without a type, then after \<open>insert_replaces\<close> every operation verb of a counter declares its
  links, every operation of a quorum counter its nonce, every replacement writer \<open>:replaces\<close>, no declared type
  has changed, and a second insertion changes nothing.\<close>

lemma insert_replaces_idempotent:
  assumes "\<forall>v. \<forall>key \<in> {PREV, DEPS, NONCE}. key \<in> set (declared_keywords (d_shapes d) v) \<longrightarrow> field_type (d_shapes d) v key \<noteq> None"
  shows "insert_replaces (insert_replaces d) = insert_replaces d \<and>
    linked d (d_shapes (insert_replaces d)) \<and>
    (\<forall>v key tc. field_type (d_shapes d) v key = Some tc \<longrightarrow> field_type (d_shapes (insert_replaces d)) v key = Some tc)"
proof -
  have l: "linked d (d_shapes (insert_replaces d))"
    using assms by (intro insert_linked) (auto simp: typed_key_def declared_decls)
  have st: "d_state (insert_replaces d) = d_state d"
    by (cases "d_state d") (simp_all add: insert_replaces_def Let_def)
  then have "linked (insert_replaces d) (d_shapes (insert_replaces d))" using l by (simp add: linked_def)
  moreover have "extends_shapes (d_shapes d) (d_shapes (insert_replaces d))"
  proof (cases "d_state d")
    case (Some clause)
    show ?thesis
      unfolding insert_replaces_def Some Let_def
      by (simp, intro extends_shapes_trans [OF extends_foldl extends_shapes_trans [OF extends_foldl extends_foldl]] extends_ensure)
  qed (simp add: insert_replaces_def extends_shapes_refl)
  ultimately show ?thesis using l linked_fixed by (auto simp: extends_shapes_def)
qed

definition counter_dialect :: "shape_constraint list \<Rightarrow> dialect" where
  "counter_dialect shapes = base_dialect\<lparr>d_shapes := shapes, d_state := Some sample_clause\<rparr>"

lemma insert_replaces_idempotent_witness:
  "insert_replaces (insert_replaces (counter_dialect [])) = insert_replaces (counter_dialect []) \<and>
     field_type (d_shapes (insert_replaces (counter_dialect []))) ''mint'' PREV \<noteq> None"
proof -
  have "d_shapes (counter_dialect []) = []" by (simp add: counter_dialect_def)
  moreover have "''mint'' \<in> set (escrow_verbs sample_clause)" by code_simp
  ultimately show ?thesis
    using insert_replaces_idempotent [of "counter_dialect []"]
    by (auto simp: declared_keywords_def verb_rules_def map_filter_def linked_def counter_dialect_def)
qed

text \<open>A keyword declared without a type is taken for missing, and the insertion declares it once more each time.\<close>

lemma insert_not_idempotent:
  "insert_replaces (insert_replaces (counter_dialect [\<lparr>shape_performative = ''mint'', shape_rules = [Require PREV None []]\<rparr>])) \<noteq>
   insert_replaces (counter_dialect [\<lparr>shape_performative = ''mint'', shape_rules = [Require PREV None []]\<rparr>])"
proof -
  let ?d = "counter_dialect [\<lparr>shape_performative = ''mint'', shape_rules = [Require PREV None []]\<rparr>]"
  have "length (verb_rules (d_shapes (insert_replaces ?d)) ''mint'') = 3" by code_simp
  moreover have "length (verb_rules (d_shapes (insert_replaces (insert_replaces ?d))) ''mint'') = 4" by code_simp
  ultimately show ?thesis by auto
qed

text \<open>C25: What the state-shape check lets through the fold can read. When a message of a state-bearing verb passes
  \<open>verify_state_shape\<close>, its act stands in every last-writer-wins register its verb writes (its clock parses, so
  no accepted write is dropped in silence), its \<open>:replaces\<close> list names distinct content addresses and all of them
  are read, a replacement writer has such a list, and every parameter is a declared or routing keyword followed by
  its value.\<close>

theorem checked_acts_are_read:
  assumes "verify_state_shape d (act_message a) = Inr ()" "genuine sha256 a" "d_state d = Some clause"
    "act_verb a \<in> set (state_bearing_verbs clause)"
  shows "(\<forall>(n, r) \<in> set (clause_fields clause). \<forall>clock. clock_field r = Some (act_verb a, clock) \<longrightarrow> lww_candidate clock a \<noteq> None) \<and>
    distinct (replaces_of a) \<and> list_all content_address (replaces_of a) \<and>
    (act_verb a \<in> set (clause_replaces_verbs clause) \<longrightarrow>
       (\<exists>items. bt_get (act_fields a) RESERVED_REPLACES = Some (List items) \<and> length (replaces_of a) = length items)) \<and>
    (\<forall>s. innermost_simple (act_message a) = Some (Simple s) \<longrightarrow> (\<forall>i < length (m_params s). even i \<longrightarrow>
       (\<exists>k. m_params s ! i = Atom (Keyword k) \<and>
          (k \<in> set (declared_keywords (d_shapes d) (act_verb a)) \<or> k \<in> set ROUTING_KEYWORDS))))"
proof -
  obtain s where s: "state_check d clause (act_verb a) s = Inr ()" "act_fields a = keyword_fields (Simple s)"
      "innermost_simple (act_message a) = Some (Simple s)"
    using checked_act [OF assms] by metis
  note checks = s(1) [unfolded state_check_iff closed_scan_iff clock_scan_iff]
  have "\<forall>(n, r) \<in> set (clause_fields clause). \<forall>clock. clock_field r = Some (act_verb a, clock) \<longrightarrow> lww_candidate clock a \<noteq> None"
    using checks s(2) by (fastforce simp: lww_candidate_def)
  moreover have "distinct (replaces_of a) \<and> list_all content_address (replaces_of a) \<and>
      (act_verb a \<in> set (clause_replaces_verbs clause) \<longrightarrow>
        (\<exists>items. bt_get (act_fields a) RESERVED_REPLACES = Some (List items) \<and> length (replaces_of a) = length items))"
    by (rule replaces_check_list [of d]) (use checks s(2) in simp)
  ultimately show ?thesis using checks s(3) by auto
qed

definition opening_shapes :: "shape_constraint list" where
  "opening_shapes = [\<lparr>shape_performative = ''open'',
     shape_rules = [Require ''rights'' (Some TList) [], Require ''room'' (Some TList) []]\<rparr>]"

theorem checked_acts_are_read_witness:
  "distinct (replaces_of (sample_history ! 1)) \<and> list_all content_address (replaces_of (sample_history ! 1))"
proof -
  have "verify_state_shape (counter_dialect opening_shapes) (act_message (sample_history ! 1)) = Inr ()" by code_simp
  moreover have "genuine sample_digest (sample_history ! 1)" using sample_genuine by (simp add: sample_history_def)
  moreover have "d_state (counter_dialect opening_shapes) = Some sample_clause" by (simp add: counter_dialect_def)
  moreover have "act_verb (sample_history ! 1) \<in> set (state_bearing_verbs sample_clause)" by code_simp
  ultimately show ?thesis using checked_acts_are_read by blast
qed

end
