(* ===== verification/Cbcl_Projection.thy ===== *)
theory Cbcl_Projection
  imports Cbcl_R6 Cbcl_Causal
begin

text \<open>
  Endpoint projection and role-local verification (\<open>cbcl-core/src/projection.rs\<close>), with the rendering of
  role violations of \<open>role.rs\<close>. Projection maps a dialect to the local steps of an endpoint. The monitor
  meets the conformance of a message to the sealed cast, the causal verdict of the dialect's protocol with
  the root read as \<open>begin\<close>, and the occupant-counted fan-in. \<^const>\<open>None\<close> is a panic of the source; it does not occur.
\<close>

section \<open>Rendering\<close>

text \<open>The \<open>Debug\<close> form of a string, for the octets of ASCII; octets of other characters stand for themselves.\<close>

definition debug_char :: "char \<Rightarrow> string" where
  "debug_char c =
     (if c = CHR 0x22 then [CHR 0x5C, CHR 0x22]
      else if c = CHR 0x5C then [CHR 0x5C, CHR 0x5C]
      else if c = CHR 0x0A then [CHR 0x5C, CHR ''n'']
      else if c = CHR 0x0D then [CHR 0x5C, CHR ''r'']
      else if c = CHR 0x09 then [CHR 0x5C, CHR ''t'']
      else if c = CHR 0x00 then [CHR 0x5C, CHR ''0'']
      else if byte c < 32 \<or> byte c = 127
        then [CHR 0x5C, CHR ''u'', CHR 0x7B] @ hex_fixed (if byte c < 16 then 1 else 2) (byte c) @ [CHR 0x7D]
      else [c])"

definition debug_str :: "string \<Rightarrow> string" where
  "debug_str s = [CHR 0x22] @ concat (map debug_char s) @ [CHR 0x22]"

fun comma_space :: "string list \<Rightarrow> string" where
  "comma_space [] = []"
| "comma_space [x] = x"
| "comma_space (x # y # zs) = x @ '', '' @ comma_space (y # zs)"

definition debug_list :: "string list \<Rightarrow> string" where
  "debug_list xs = ''['' @ comma_space (map debug_str xs) @ '']''"

definition debug_set :: "string btset \<Rightarrow> string" where
  "debug_set xs = ''{'' @ comma_space (map debug_str xs) @ ''}''"

definition em_dash :: string where "em_dash = [CHR 0xE2, CHR 0x80, CHR 0x94]"

definition display_r6_violation :: "r6_violation \<Rightarrow> string" where
  "display_r6_violation v = ''R6 violation: '' @ (case v of
       MissingFromTo p \<Rightarrow> ''performative '' @ quoted p @ '' lacks :from or :to (REQ-601)''
     | UndeclaredRole p r \<Rightarrow> ''performative '' @ quoted p @ '' names undeclared role '' @ quoted r @ '' (REQ-602)''
     | StrayAnnotation p \<Rightarrow>
         ''performative '' @ quoted p @ '' carries :from/:to but the dialect declares no :roles (REQ-602)''
     | ChooserIncoherent ms \<Rightarrow> ''choice '' @ debug_list ms @ '' has no common sender role (REQ-603)''
     | NotCausallyLocal p q r \<Rightarrow>
         ''role '' @ quoted r @ '' is an endpoint of '' @ quoted p @ '' but not of its predecessor '' @ quoted q @ '' (REQ-604)''
     | UnreachableRole r \<Rightarrow>
         ''role '' @ quoted r @ '' is not an endpoint of any performative reachable from begin (REQ-605)''
     | MalformedRoles d \<Rightarrow> ''malformed :roles '' @ em_dash @ '' '' @ d @ '' (CON-600)''
     | MalformedFromTo p d \<Rightarrow> ''malformed :from/:to on '' @ quoted p @ '' '' @ em_dash @ '' '' @ d @ '' (CON-600)''
     | MalformedCast d \<Rightarrow> ''malformed cast '' @ em_dash @ '' '' @ d @ '' (CON-601)''
     | UnknownRole r \<Rightarrow> ''cast binds unknown role '' @ quoted r @ '' (CON-601)''
     | ArityMismatch r n \<Rightarrow> ''singleton role '' @ quoted r @ '' bound to '' @ show_nat n @ '' keys (CON-601)''
     | PerOccupantLocalityFailure p k \<Rightarrow>
         quoted p @ '' fails per-occupant causal locality at occupant '' @ quoted k @ '' (REQ-608)''
     | DialectPinMismatch a b \<Rightarrow>
         ''root pins dialect '' @ quoted a @ '' but the installed dialect hashes to '' @ quoted b @ '' (REQ-628)'')"

section \<open>Local protocols\<close>

datatype local_step = Send | Recv

record local_protocol =
  l_steps :: "(string, local_step) btmap"
  expect_envelopes :: "string btset"
  l_protocol :: "causal_protocol option"

definition local_step_of :: "endpoint \<Rightarrow> performative_def \<Rightarrow> (string, local_step) btmap \<Rightarrow> (string, local_step) btmap" where
  "local_step_of ep p m = (case p_role p of
       None \<Rightarrow> m
     | Some ann \<Rightarrow>
         if ann_from ann = ep_role ep then bt_insert (p_name p) Send m
         else if ep_role ep \<in> set (ann_to ann) then bt_insert (p_name p) Recv m
         else m)"

definition routed_names :: "(string, string btset) btmap \<Rightarrow> string \<Rightarrow> string list" where
  "routed_names table who = map fst (filter (\<lambda>(_, whos). who \<in> set whos) table)"

definition project :: "dialect \<Rightarrow> endpoint \<Rightarrow> cast option \<Rightarrow> local_protocol" where
  "project d ep c =
     \<lparr>l_steps = foldl (\<lambda>m p. local_step_of ep p m) [] (d_performatives d),
      expect_envelopes = (case d_causal_locality d of
          Reject \<Rightarrow> []
        | Derive table \<Rightarrow> bs_of_list (routed_names table (ep_role ep) @
            (case (c, ep_occupant ep) of
               (Some c, Some occupant) \<Rightarrow> routed_names (derive_occupant_envelope_routes d c) occupant
             | _ \<Rightarrow> []))),
      l_protocol = d_causal_protocol d\<rparr>"

section \<open>Conformance\<close>

fun signer_of :: "message \<Rightarrow> string option" where
  "signer_of (Wrapped Signed params content) = (case params of
       Atom (Symbol s) # _ \<Rightarrow> Some s
     | _ \<Rightarrow> signer_of content)"
| "signer_of (Wrapped _ params content) = signer_of content"
| "signer_of (Dialect _ inner) = signer_of inner"
| "signer_of (Simple _) = None"
| "signer_of (Meta _) = None"

definition role_violation :: "string \<Rightarrow> verification_result" where
  "role_violation reason = Violation (RoleConformance reason)"

definition role_keys :: "cast \<Rightarrow> string \<Rightarrow> agent_key list" where
  "role_keys c role =
     (case bt_get (c_singleton c) role of Some k \<Rightarrow> [k] | None \<Rightarrow> []) @
     (case bt_get (c_indexed c) role of Some ks \<Rightarrow> ks | None \<Rightarrow> [])"

definition expected_recipient_keys :: "role_annotation \<Rightarrow> cast \<Rightarrow> string btset" where
  "expected_recipient_keys ann c = bs_of_list (concat (map (role_keys c) (ann_to ann)))"

definition check_conformance :: "message \<Rightarrow> message \<Rightarrow> role_annotation \<Rightarrow> cast \<Rightarrow> verification_result" where
  "check_conformance outer simple ann c = (case signer_of outer of
       None \<Rightarrow> role_violation ''role-annotated message carries no sender key''
     | Some sender \<Rightarrow>
         if \<not> cast_admits c (ann_from ann) sender
         then role_violation (''sender '' @ quoted sender @ '' is not the cast'' @ [CHR 0x27] @ ''s occupant of role '' @
           quoted (ann_from ann) @ '' (REQ-612)'')
         else (let expected = expected_recipient_keys ann c; actual = recipient_set simple
           in if expected \<noteq> actual
              then role_violation (''recipients '' @ debug_set actual @ '' do not match the cast keys '' @
                debug_set expected @ '' for :to roles '' @ debug_set (ann_to ann) @ '' (REQ-615)'')
              else Valid))"

definition verify_cast_wrapper ::
  "sexpr list \<Rightarrow> message \<Rightarrow> message \<Rightarrow> dialect \<Rightarrow> cast \<Rightarrow> threaded_store \<Rightarrow> thread_id \<Rightarrow> content_hash \<Rightarrow> verification_result" where
  "verify_cast_wrapper params content msg d c s thread root = (case parse_wrapper_cast params (d_roles d) of
       Inl v \<Rightarrow> role_violation (display_r6_violation v)
     | Inr parsed \<Rightarrow>
         if parsed \<noteq> c
         then role_violation (''with-roles wrapper does not match the thread'' @ [CHR 0x27] @ ''s root cast (REQ-613)'')
         else if wrapper_type_of content \<noteq> Some Signed
         then role_violation ''with-roles payload must be a signed message (CON-601)''
         else if (case lookup_in_thread s root thread of Some root_msg \<Rightarrow> root_msg \<noteq> msg | None \<Rightarrow> False)
         then role_violation ''a second with-roles wrapper is not the thread root (REQ-613)''
         else if Option.bind (innermost_simple content) caused_by_of = Some Begin then Valid
         else role_violation (''with-roles wrapper must be the thread'' @ [CHR 0x27] @ ''s causal root (REQ-613)''))"

definition rewrite_root_references :: "caused_by \<Rightarrow> content_hash \<Rightarrow> caused_by" where
  "rewrite_root_references cb root = (if cb = Single root then Begin else cb)"

section \<open>The occupant-counted fan-in\<close>

definition counted_types :: "dialect \<Rightarrow> cast \<Rightarrow> step_decl \<Rightarrow> (string \<times> agent_key btset) list" where
  "counted_types d c step = concat (map (\<lambda>nr. case nr of
       NAll preds \<Rightarrow> List.map_filter (\<lambda>pred.
         case Option.bind (find_performative d (repeat_base_name pred)) p_role of
           None \<Rightarrow> None
         | Some ann \<Rightarrow> map_option (\<lambda>occupants. (pred, occupants)) (bt_get (c_indexed c) (ann_from ann))) preds
     | _ \<Rightarrow> []) (predecessors step))"

fun resolve_members :: "threaded_store \<Rightarrow> thread_id \<Rightarrow> content_hash list \<Rightarrow> (content_hash \<times> message) list option" where
  "resolve_members s thread [] = Some []"
| "resolve_members s thread (h # hs) = (case lookup_in_thread s h thread of
       None \<Rightarrow> None
     | Some m \<Rightarrow> map_option (\<lambda>ms. (h, m) # ms) (resolve_members s thread hs))"

text \<open>The test that a cited message counts for a type: its performative, or its row when the protocol has copies.\<close>

definition counts_for :: "(content_hash \<Rightarrow> string \<Rightarrow> verification_result) option \<Rightarrow> string \<Rightarrow> content_hash \<times> message \<Rightarrow> bool" where
  "counts_for rows pred hm = (case innermost_simple (snd hm) of
       None \<Rightarrow> False
     | Some simple \<Rightarrow> (case rows of
           Some at_row \<Rightarrow> at_row (fst hm) pred = Valid
         | None \<Rightarrow> map_option performative_name (performative_of simple) = Some pred))"

definition counted_senders ::
  "(content_hash \<Rightarrow> string \<Rightarrow> verification_result) option \<Rightarrow> (content_hash \<times> message) list \<Rightarrow> string \<Rightarrow> agent_key btset \<Rightarrow> string list" where
  "counted_senders rows resolved pred occupants =
     filter (\<lambda>k. k \<in> set occupants) (List.map_filter (\<lambda>hm. signer_of (snd hm)) (filter (counts_for rows pred) resolved))"

fun coverage ::
  "(content_hash \<Rightarrow> string \<Rightarrow> verification_result) option \<Rightarrow> (content_hash \<times> message) list \<Rightarrow>
    (string \<times> agent_key btset) list \<Rightarrow> verification_result" where
  "coverage rows resolved [] = Valid"
| "coverage rows resolved ((pred, occupants) # rest) =
     (let senders = counted_senders rows resolved pred occupants;
          missing = filter (\<lambda>k. k \<notin> set senders) occupants
      in if missing \<noteq> []
         then role_violation (''fan-in over '' @ quoted pred @ '' lacks instances from sealed occupant(s) '' @
           debug_list missing @ '' (REQ-618)'')
         else coverage rows resolved rest)"

definition occupant_fanin ::
  "string \<Rightarrow> caused_by option \<Rightarrow> dialect \<Rightarrow> cast \<Rightarrow> threaded_store \<Rightarrow> thread_id \<Rightarrow>
    (content_hash \<Rightarrow> string \<Rightarrow> verification_result) option \<Rightarrow> verification_result" where
  "occupant_fanin perf caused d c s thread rows = (case d_causal_protocol d of
       None \<Rightarrow> Valid
     | Some cp \<Rightarrow> (case bt_get (steps cp) perf of
           None \<Rightarrow> Valid
         | Some step \<Rightarrow>
             (let counted = counted_types d c step
              in if counted = [] then Valid
                 else (case caused of
                     Some (Multiple hs) \<Rightarrow> (case resolve_members s thread hs of
                         None \<Rightarrow> Unknown
                       | Some resolved \<Rightarrow> coverage rows resolved counted)
                   | _ \<Rightarrow> Valid))))"

fun repeat_fanin_loop ::
  "(step_decl \<Rightarrow> verification_result) \<Rightarrow> (string \<Rightarrow> verification_result) \<Rightarrow> string \<Rightarrow> (string \<times> step_decl) list \<Rightarrow>
    verification_result option \<Rightarrow> verification_result" where
  "repeat_fanin_loop at_step fanin perf [] result = (case result of Some v \<Rightarrow> v | None \<Rightarrow> Valid)"
| "repeat_fanin_loop at_step fanin perf ((name, step) # rest) result =
     (if repeat_base_name name \<noteq> perf \<or> at_step step \<noteq> Valid then repeat_fanin_loop at_step fanin perf rest result
      else (case fanin name of
          Valid \<Rightarrow> Valid
        | Unknown \<Rightarrow> repeat_fanin_loop at_step fanin perf rest (Some Unknown)
        | Violation v \<Rightarrow> repeat_fanin_loop at_step fanin perf rest
            (if result \<noteq> Some Unknown then Some (Violation v) else result)))"

definition repeat_occupant_fanin ::
  "string \<Rightarrow> caused_by option \<Rightarrow> dialect \<Rightarrow> cast \<Rightarrow> threaded_store \<Rightarrow> thread_id \<Rightarrow> content_hash \<Rightarrow> verification_result" where
  "repeat_occupant_fanin perf caused d c s thread root = (case d_causal_protocol d of
       None \<Rightarrow> occupant_fanin perf caused d c s thread None
     | Some cp \<Rightarrow>
         if \<not> has_repeat cp then occupant_fanin perf caused d c s thread None
         else (let rows = resolution_rows s cp thread (Some root) (caused_refs caused)
               in repeat_fanin_loop (\<lambda>step. step_verdict s cp thread (Some root) rows step caused)
                    (\<lambda>name. occupant_fanin name caused d c s thread (Some (row_at s cp thread rows)))
                    perf (steps cp) None))"

section \<open>The monitor\<close>

definition pin_conflict :: "dialect \<Rightarrow> cast \<Rightarrow> verification_result option" where
  "pin_conflict d c = (case (dialect_pin c, d_hash d) of
       (Some pinned, Some installed) \<Rightarrow>
         if pinned \<noteq> installed then Some (role_violation (display_r6_violation (DialectPinMismatch pinned installed))) else None
     | _ \<Rightarrow> None)"

definition role_r5 ::
  "string \<Rightarrow> caused_by option \<Rightarrow> dialect \<Rightarrow> threaded_store \<Rightarrow> thread_id \<Rightarrow> content_hash \<Rightarrow> verification_result option" where
  "role_r5 perf caused d s thread root = (case d_causal_protocol d of
       None \<Rightarrow> Some Valid
     | Some cp \<Rightarrow>
         if has_repeat cp then Some (repeat_verify perf caused s cp thread (Some root))
         else verify_causal perf (map_option (\<lambda>cb. rewrite_root_references cb root) caused) s cp thread)"

definition verify_for_role ::
  "message \<Rightarrow> dialect \<Rightarrow> cast \<Rightarrow> threaded_store \<Rightarrow> thread_id \<Rightarrow> content_hash \<Rightarrow> verification_result option" where
  "verify_for_role msg d c s thread root = (case innermost_simple msg of
       None \<Rightarrow> Some Valid
     | Some simple \<Rightarrow> (case performative_of simple of
           None \<Rightarrow> Some Valid
         | Some p \<Rightarrow>
             (let perf = performative_name p;
                  conformance = (case Option.bind (find_performative d perf) p_role of
                      Some ann \<Rightarrow> check_conformance msg simple ann c
                    | None \<Rightarrow> Valid)
              in case conformance of
                   Violation v \<Rightarrow> Some (Violation v)
                 | _ \<Rightarrow> map_option (\<lambda>r5. vr_meet (vr_meet conformance r5)
                     (repeat_occupant_fanin perf (caused_by_of simple) d c s thread root))
                     (role_r5 perf (caused_by_of simple) d s thread root))))"

definition verify_causal_for_role ::
  "message \<Rightarrow> endpoint \<Rightarrow> dialect \<Rightarrow> cast \<Rightarrow> threaded_store \<Rightarrow> thread_id \<Rightarrow> content_hash \<Rightarrow> verification_result option" where
  "verify_causal_for_role msg ep d c s thread root = (case pin_conflict d c of
       Some v \<Rightarrow> Some v
     | None \<Rightarrow> (case msg of
           Wrapped WithRoles params content \<Rightarrow> Some (verify_cast_wrapper params content msg d c s thread root)
         | _ \<Rightarrow> verify_for_role msg d c s thread root))"

section \<open>What a projection keeps\<close>

lemma bt_get_local_steps:
  assumes "distinct (map p_name ps)"
  shows "bt_get (foldl (\<lambda>m p. local_step_of ep p m) m ps) n = (case find (\<lambda>p. p_name p = n) ps of
      None \<Rightarrow> bt_get m n
    | Some p \<Rightarrow> (case p_role p of
        None \<Rightarrow> bt_get m n
      | Some ann \<Rightarrow> if ann_from ann = ep_role ep then Some Send
          else if ep_role ep \<in> set (ann_to ann) then Some Recv else bt_get m n))"
  using assms
proof (induction ps arbitrary: m)
  case (Cons p ps)
  have "find (\<lambda>q. p_name q = p_name p) ps = None" using Cons.prems by (fastforce simp: find_None_iff image_iff)
  then show ?case
    using Cons by (cases "p_name p = n") (auto simp: local_step_of_def split: option.splits)
qed simp

section \<open>Coverage\<close>

lemma resolve_members_Some:
  "resolve_members s t hs = Some ms \<longleftrightarrow> list_all2 (\<lambda>h hm. fst hm = h \<and> lookup_in_thread s h t = Some (snd hm)) hs ms"
  by (induction hs arbitrary: ms) (auto simp: list_all2_Cons1 split: option.splits)

lemma resolve_members_None: "resolve_members s t hs = None \<longleftrightarrow> (\<exists>h \<in> set hs. lookup_in_thread s h t = None)"
  by (induction hs) (auto split: option.splits)

lemma resolved_mem:
  "resolve_members s t hs = Some ms \<Longrightarrow> (h, m) \<in> set ms \<longleftrightarrow> h \<in> set hs \<and> lookup_in_thread s h t = Some m"
  by (induction hs arbitrary: ms) (auto split: option.splits)

definition member_sent :: "threaded_store \<Rightarrow> thread_id \<Rightarrow> content_hash \<Rightarrow> string \<Rightarrow> agent_key \<Rightarrow> bool" where
  "member_sent s t h pred k \<longleftrightarrow> (\<exists>m. lookup_in_thread s h t = Some m \<and> innermost_name m = Some pred \<and> signer_of m = Some k)"

lemma counts_for_name: "counts_for None pred (h, m) \<longleftrightarrow> innermost_name m = Some pred"
  by (auto simp: counts_for_def innermost_name_def split: option.splits)

lemma coverage_valid:
  "coverage rows resolved counted = Valid \<longleftrightarrow>
     (\<forall>(pred, occupants) \<in> set counted. set occupants \<subseteq> set (counted_senders rows resolved pred occupants))"
proof (induction rows resolved counted rule: coverage.induct)
  case (2 rows resolved pred occupants rest)
  have "filter (\<lambda>k. k \<notin> set (counted_senders rows resolved pred occupants)) occupants = [] \<longleftrightarrow>
      set occupants \<subseteq> set (counted_senders rows resolved pred occupants)" by (auto simp: filter_empty_conv)
  then show ?case using 2 by (auto simp: Let_def role_violation_def simp del: filter_empty_conv)
qed simp

lemma coverage_decided: "coverage rows resolved counted \<noteq> Unknown"
  by (induction rows resolved counted rule: coverage.induct) (auto simp: Let_def role_violation_def)

definition fully_cited ::
  "dialect \<Rightarrow> cast \<Rightarrow> threaded_store \<Rightarrow> thread_id \<Rightarrow> step_decl \<Rightarrow> caused_by option \<Rightarrow> bool" where
  "fully_cited d c s t step caused = (case caused of
       Some (Multiple hs) \<Rightarrow> counted_types d c step = [] \<or>
         (\<forall>h \<in> set hs. lookup_in_thread s h t \<noteq> None) \<and>
         (\<forall>(pred, occupants) \<in> set (counted_types d c step). \<forall>k \<in> set occupants. \<exists>h \<in> set hs. member_sent s t h pred k)
     | _ \<Rightarrow> True)"

definition members_missing ::
  "dialect \<Rightarrow> cast \<Rightarrow> threaded_store \<Rightarrow> thread_id \<Rightarrow> step_decl \<Rightarrow> caused_by option \<Rightarrow> bool" where
  "members_missing d c s t step caused = (case caused of
       Some (Multiple hs) \<Rightarrow> counted_types d c step \<noteq> [] \<and> (\<exists>h \<in> set hs. lookup_in_thread s h t = None)
     | _ \<Rightarrow> False)"

lemma occupant_fanin_exact:
  assumes "d_causal_protocol d = Some cp" "bt_get (steps cp) perf = Some step"
  shows "(occupant_fanin perf caused d c s t None = Valid \<longleftrightarrow> fully_cited d c s t step caused) \<and>
    (occupant_fanin perf caused d c s t None = Unknown \<longleftrightarrow> members_missing d c s t step caused)"
proof (cases "\<exists>hs. caused = Some (Multiple hs) \<and> counted_types d c step \<noteq> []")
  case True
  then obtain hs where hs: "caused = Some (Multiple hs)" "counted_types d c step \<noteq> []" by blast
  show ?thesis
  proof (cases "resolve_members s t hs")
    case None
    then show ?thesis
      using hs assms resolve_members_None [of s t hs]
      by (auto simp: occupant_fanin_def fully_cited_def members_missing_def Let_def)
  next
    case (Some ms)
    have all: "\<forall>h \<in> set hs. lookup_in_thread s h t \<noteq> None" using Some resolve_members_None [of s t hs] by auto
    have "set occupants \<subseteq> set (counted_senders None ms pred occupants) \<longleftrightarrow>
        (\<forall>k \<in> set occupants. \<exists>h \<in> set hs. member_sent s t h pred k)" for pred occupants
      using resolved_mem [OF Some] counts_for_name
      by (fastforce simp: counted_senders_def set_map_filter member_sent_def subset_iff)
    then show ?thesis
      using hs assms Some all coverage_decided
      by (simp add: occupant_fanin_def fully_cited_def members_missing_def Let_def coverage_valid)
  qed
next
  case False
  then show ?thesis
    using assms by (auto simp: occupant_fanin_def fully_cited_def members_missing_def Let_def split: option.splits caused_by.splits)
qed

section \<open>The verdict\<close>

definition pins_agree :: "dialect \<Rightarrow> cast \<Rightarrow> bool" where
  "pins_agree d c \<longleftrightarrow> (\<forall>a b. dialect_pin c = Some a \<longrightarrow> d_hash d = Some b \<longrightarrow> a = b)"

lemma pin_conflict_None: "pin_conflict d c = None \<longleftrightarrow> pins_agree d c"
  by (auto simp: pin_conflict_def pins_agree_def split: option.splits)

lemma pin_conflict_Some: "pin_conflict d c = Some v \<Longrightarrow> \<exists>e. v = Violation e"
  by (auto simp: pin_conflict_def role_violation_def split: option.splits if_splits)

lemma check_conformance_valid:
  "check_conformance msg simple ann c = Valid \<longleftrightarrow>
     (\<exists>k. signer_of msg = Some k \<and> cast_admits c (ann_from ann) k) \<and> recipient_set simple = expected_recipient_keys ann c"
  by (auto simp: check_conformance_def role_violation_def Let_def split: option.split)

lemma check_conformance_decided: "check_conformance msg simple ann c \<noteq> Unknown"
  by (simp add: check_conformance_def role_violation_def Let_def split: option.split)

lemma for_role_unwrapped:
  "wrapper_type_of msg \<noteq> Some WithRoles \<Longrightarrow> verify_causal_for_role msg ep d c s t root =
     (case pin_conflict d c of Some v \<Rightarrow> Some v | None \<Rightarrow> verify_for_role msg d c s t root)"
  by (cases msg) (auto simp: verify_causal_for_role_def wrapper_type_of_def split: option.splits wrapper_type.splits)

lemma vr_meet_valid: "vr_meet a b = Valid \<longleftrightarrow> a = Valid \<and> b = Valid"
  by (cases a; cases b) (simp_all add: vr_meet_def)

lemma vr_meet_mono: "refines a a' \<Longrightarrow> refines b b' \<Longrightarrow> refines (vr_meet a b) (vr_meet a' b')"
  by (cases a; cases a'; cases b; cases b') (simp_all add: refines_def vr_meet_def partial_cmp_def)

lemma refines_refl: "refines a a"
  by (cases a) (simp_all add: refines_def partial_cmp_def)

lemma verify_for_role_simps:
  assumes "innermost_simple msg = Some simple" "performative_of simple = Some p"
    "conf = (case Option.bind (find_performative d (performative_name p)) p_role of
       Some ann \<Rightarrow> check_conformance msg simple ann c | None \<Rightarrow> Valid)"
  shows "conf \<noteq> Valid \<Longrightarrow> \<exists>e. verify_for_role msg d c s t root = Some (Violation e)"
    "conf = Valid \<Longrightarrow> verify_for_role msg d c s t root = map_option (\<lambda>r5. vr_meet r5
       (repeat_occupant_fanin (performative_name p) (caused_by_of simple) d c s t root))
       (role_r5 (performative_name p) (caused_by_of simple) d s t root)"
proof -
  have v: "vr_meet Valid r = r" for r by (cases r) (simp_all add: vr_meet_def)
  have "conf \<noteq> Unknown" using assms(3) check_conformance_decided by (auto split: option.splits)
  moreover have eq: "verify_for_role msg d c s t root = (case conf of
       Violation v \<Rightarrow> Some (Violation v)
     | _ \<Rightarrow> map_option (\<lambda>r5. vr_meet (vr_meet conf r5)
         (repeat_occupant_fanin (performative_name p) (caused_by_of simple) d c s t root))
         (role_r5 (performative_name p) (caused_by_of simple) d s t root))"
    unfolding verify_for_role_def assms(1,2) option.case Let_def assms(3) ..
  ultimately show "conf \<noteq> Valid \<Longrightarrow> \<exists>e. verify_for_role msg d c s t root = Some (Violation e)"
    by (cases conf) simp_all
  show "conf = Valid \<Longrightarrow> verify_for_role msg d c s t root = map_option (\<lambda>r5. vr_meet r5
       (repeat_occupant_fanin (performative_name p) (caused_by_of simple) d c s t root))
       (role_r5 (performative_name p) (caused_by_of simple) d s t root)"
    by (simp add: eq v)
qed

lemma fanin_mono:
  assumes "\<And>h m. lookup_in_thread s h t = Some m \<Longrightarrow> lookup_in_thread s' h t = Some m"
    "d_causal_protocol d = Some cp" "\<not> has_repeat cp"
  shows "refines (repeat_occupant_fanin perf caused d c s t root) (repeat_occupant_fanin perf caused d c s' t root)"
proof (cases "bt_get (steps cp) perf")
  case None
  then show ?thesis
    using assms by (simp add: repeat_occupant_fanin_def occupant_fanin_def refines_refl)
next
  case (Some step)
  let ?f = "\<lambda>s. occupant_fanin perf caused d c s t None"
  have eq: "repeat_occupant_fanin perf caused d c q t root = ?f q" for q
    using assms(2,3) by (simp add: repeat_occupant_fanin_def)
  note ex = occupant_fanin_exact [OF assms(2) Some, of caused c]
  show ?thesis
  proof (cases "members_missing d c s t step caused")
    case True
    then have "?f s = Unknown" using ex [of s t] by simp
    then show ?thesis unfolding eq by (cases "?f s'") (simp_all add: refines_def partial_cmp_def)
  next
    case False
    have same: "lookup_in_thread s' h t = lookup_in_thread s h t" if "lookup_in_thread s h t \<noteq> None" for h
      using that assms(1) by auto
    have "\<not> members_missing d c s' t step caused \<and> fully_cited d c s' t step caused = fully_cited d c s t step caused"
    proof (cases "\<exists>hs. caused = Some (Multiple hs) \<and> counted_types d c step \<noteq> []")
      case True
      then obtain hs where hs: "caused = Some (Multiple hs)" "counted_types d c step \<noteq> []" by blast
      then have known: "\<forall>h \<in> set hs. lookup_in_thread s h t \<noteq> None"
        using False by (simp add: members_missing_def)
      then have "\<forall>h \<in> set hs. member_sent s' t h pred k = member_sent s t h pred k" for pred k
        using same by (simp add: member_sent_def)
      then show ?thesis using hs known same by (simp add: members_missing_def fully_cited_def)
    qed (auto simp: members_missing_def fully_cited_def split: option.splits caused_by.splits)
    then show ?thesis
      using ex [of s t] ex [of s' t] False unfolding eq by (cases "?f s"; cases "?f s'") (simp_all add: refines_def partial_cmp_def)
  qed
qed

lemma role_r5_total: "role_r5 perf caused d s t root \<noteq> None"
  using verify_causal_total by (fastforce simp: role_r5_def split: option.split)

lemma verify_for_role_total: "verify_causal_for_role msg ep d c s t root \<noteq> None"
  using role_r5_total
  by (auto simp: verify_causal_for_role_def verify_for_role_def Let_def split: option.splits message.splits wrapper_type.splits verification_result.splits)

text \<open>More evidence refines the verdict on a message that is not a cast wrapper.\<close>

lemma for_role_mono:
  assumes "d_causal_protocol d = Some cp" "\<not> has_repeat cp" "wrapper_type_of msg \<noteq> Some WithRoles" "extends s s' t"
    and keep: "\<And>h m. lookup_in_thread s h t = Some m \<Longrightarrow> lookup_in_thread s' h t = Some m"
  shows "\<exists>r r'. verify_causal_for_role msg ep d c s t root = Some r \<and>
    verify_causal_for_role msg ep d c s' t root = Some r' \<and> refines r r'"
proof -
  have "\<exists>r r'. verify_for_role msg d c s t root = Some r \<and> verify_for_role msg d c s' t root = Some r' \<and> refines r r'"
  proof (cases "\<exists>simple p. innermost_simple msg = Some simple \<and> performative_of simple = Some p")
    case True
    then obtain simple p where sp: "innermost_simple msg = Some simple" "performative_of simple = Some p" by blast
    let ?p = "performative_name p" and ?cb = "caused_by_of simple"
    let ?conf = "case Option.bind (find_performative d ?p) p_role of
       Some ann \<Rightarrow> check_conformance msg simple ann c | None \<Rightarrow> Valid"
    obtain r5 r5' where r5: "role_r5 ?p ?cb d s t root = Some r5" "role_r5 ?p ?cb d s' t root = Some r5'" "refines r5 r5'"
      using verify_causal_mono [OF assms(2,4), of ?p "map_option (\<lambda>cb. rewrite_root_references cb root) ?cb"] assms(1,2)
      by (auto simp: role_r5_def refines_def)
    show ?thesis
    proof (cases "?conf = Valid")
      case True
      show ?thesis
        unfolding verify_for_role_simps(2) [OF sp refl True] r5
        using vr_meet_mono [OF r5(3) fanin_mono [OF keep assms(1,2)]] by simp
    next
      case False
      show ?thesis
        using verify_for_role_simps(1) [OF sp refl False, of s] verify_for_role_simps(1) [OF sp refl False, of "s'"]
        by (fastforce simp: refines_def partial_cmp_def)
    qed
  qed (auto simp: verify_for_role_def refines_refl split: option.splits)
  then show ?thesis
    unfolding for_role_unwrapped [OF assms(3)] by (cases "pin_conflict d c") (auto simp: refines_def partial_cmp_def split: verification_result.splits)
qed

section \<open>Properties\<close>

text \<open>C14: The role monitor is exact. On a repeat-free protocol, for a message of a declared and annotated performative
  that is not a cast wrapper, the monitor returns a verdict, and it is \<open>Valid\<close> exactly when the dialect pin agrees,
  the key of the enclosing signature is one the sealed cast admits for the sender role (an unsigned message, whatever
  its sender field claims, never is), the recipients are exactly the keys of the recipient roles, the causal
  reference, with the root read as \<open>begin\<close>, justifies the step, and every sealed occupant of an indexed
  predecessor role has an instance among the cited messages.\<close>

theorem role_verdict_exact:
  assumes "d_causal_protocol d = Some cp" "\<not> has_repeat cp" "wrapper_type_of msg \<noteq> Some WithRoles"
    "innermost_simple msg = Some simple" "performative_of simple = Some p"
    "bt_get (steps cp) (performative_name p) = Some step"
    "find_performative d (performative_name p) = Some pd" "p_role pd = Some ann"
  shows "\<exists>r. verify_causal_for_role msg ep d c s t root = Some r \<and>
    (r = Valid \<longleftrightarrow> pins_agree d c \<and> (\<exists>k. signer_of msg = Some k \<and> cast_admits c (ann_from ann) k) \<and>
       recipient_set simple = expected_recipient_keys ann c \<and>
       link_valid (\<lambda>h. predecessor_type s h t) step (map_option (\<lambda>cb. rewrite_root_references cb root) (caused_by_of simple)) \<and>
       fully_cited d c s t step (caused_by_of simple))"
proof (cases "pin_conflict d c")
  case None
  note simps = verify_for_role_simps [OF assms(4,5) refl, of c d s t root]
  have ann: "Option.bind (find_performative d (performative_name p)) p_role = Some ann" using assms(7,8) by simp
  obtain r5 where r5: "role_r5 (performative_name p) (caused_by_of simple) d s t root = Some r5"
      "r5 = Valid \<longleftrightarrow> link_valid (\<lambda>h. predecessor_type s h t) step
        (map_option (\<lambda>cb. rewrite_root_references cb root) (caused_by_of simple))"
    using verify_causal_decides [OF assms(2,6), of "map_option (\<lambda>cb. rewrite_root_references cb root) (caused_by_of simple)" s t]
      assms(1,2) by (auto simp: role_r5_def decides_def)
  have fan: "repeat_occupant_fanin (performative_name p) (caused_by_of simple) d c s t root = Valid \<longleftrightarrow>
      fully_cited d c s t step (caused_by_of simple)"
    using occupant_fanin_exact [OF assms(1,6)] assms(1,2) by (simp add: repeat_occupant_fanin_def)
  have eq: "verify_causal_for_role msg ep d c s t root = verify_for_role msg d c s t root"
    using None by (simp add: for_role_unwrapped [OF assms(3)])
  have agree: "pins_agree d c" using None pin_conflict_None by blast
  show ?thesis
  proof (cases "check_conformance msg simple ann c = Valid")
    case True
    have "verify_for_role msg d c s t root = Some (vr_meet r5
        (repeat_occupant_fanin (performative_name p) (caused_by_of simple) d c s t root))"
      using simps(2) True r5(1) ann by simp
    then show ?thesis using True [unfolded check_conformance_valid] r5(2) fan agree unfolding eq by (simp add: vr_meet_valid)
  next
    case False
    then obtain e where "verify_for_role msg d c s t root = Some (Violation e)" using simps(1) ann by auto
    then show ?thesis using False [unfolded check_conformance_valid] unfolding eq by auto
  qed
next
  case (Some v)
  then show ?thesis
    using pin_conflict_Some pin_conflict_None [of d c] by (fastforce simp: for_role_unwrapped [OF assms(3)])
qed

definition role_dialect :: dialect where
  "role_dialect = base_dialect\<lparr>d_name := ''talk'',
     d_performatives := [\<lparr>p_name = ''tell'', p_params = [], p_template = List [],
       p_role = Some \<lparr>ann_from = ''a'', ann_to = [''b'']\<rparr>\<rparr>],
     d_roles := [\<lparr>role_name = ''a'', cardinality = Singleton\<rparr>, \<lparr>role_name = ''b'', cardinality = Singleton\<rparr>],
     d_causal_protocol := Some sample_protocol\<rparr>"

definition role_cast :: cast where
  "role_cast = \<lparr>c_singleton = [(''a'', ''@a''), (''b'', ''@b'')], c_indexed = [], dialect_pin = None\<rparr>"

theorem role_verdict_exact_witness:
  "verify_causal_for_role (Wrapped Signed [Sym ''@a''] sample_tell) \<lparr>ep_role = ''b'', ep_occupant = None\<rparr> role_dialect
     role_cast new_store ''t'' ''h0'' = Some Valid"
proof -
  let ?m = "Wrapped Signed [Sym ''@a''] sample_tell"
  let ?step = "\<lparr>step_performative = ''tell'', predecessors = [NSingle ''begin''], successors = [NSingle ''reply'']\<rparr>"
  let ?ann = "\<lparr>ann_from = ''a'', ann_to = [''b'']\<rparr>"
  have "d_causal_protocol role_dialect = Some sample_protocol" "\<not> has_repeat sample_protocol"
      "wrapper_type_of ?m \<noteq> Some WithRoles" "innermost_simple ?m = Some sample_tell"
      "performative_of sample_tell = Some (Core Tell)"
      "bt_get (steps sample_protocol) (performative_name (Core Tell)) = Some ?step"
    by code_simp+
  moreover have "find_performative role_dialect (performative_name (Core Tell)) = Some (hd (d_performatives role_dialect))"
      "p_role (hd (d_performatives role_dialect)) = Some ?ann" by code_simp+
  moreover have "signer_of ?m = Some ''@a''" "cast_admits role_cast ''a'' ''@a''" "caused_by_of sample_tell = Some Begin"
      "recipient_set sample_tell = expected_recipient_keys ?ann role_cast"
      "BEGIN_KEYWORD \<in> set (allowed_single_predecessors ?step)" by code_simp+
  ultimately show ?thesis
    using role_verdict_exact [of role_dialect sample_protocol ?m sample_tell "Core Tell" ?step
        "hd (d_performatives role_dialect)" ?ann "\<lparr>ep_role = ''b'', ep_occupant = None\<rparr>" role_cast new_store "''t''" "''h0''"]
    by (auto simp: pins_agree_def role_cast_def link_valid_def rewrite_root_references_def fully_cited_def)
qed

text \<open>A verdict of the role monitor is permanent: when messages are delivered that agree with the shelved envelopes,
  \<open>Valid\<close> and \<open>Violation\<close> stay what they are and only \<open>Unknown\<close> may change, for every message that is not
  itself a cast wrapper, under a repeat-free protocol.\<close>

lemma role_verdict_permanent:
  assumes "d_causal_protocol d = Some cp" "\<not> has_repeat cp" "wrapper_type_of msg \<noteq> Some WithRoles"
    "store_reachable sha256 s" "agrees_with_shelves s xs"
  shows "\<exists>r r'. verify_causal_for_role msg ep d c s t root = Some r \<and>
    verify_causal_for_role msg ep d c (deliver s xs) t root = Some r' \<and> partial_cmp r r' \<in> {Some Less, Some Equal}"
proof -
  have wf: "wf_store s" by (rule reachable_wf [OF assms(4)])
  have ext: "extends s (deliver s xs) t" by (rule extends_deliver [OF wf assms(5)])
  have keep: "lookup_in_thread (deliver s xs) h t = Some m" if "lookup_in_thread s h t = Some m" for h m
    using threaded.lookup_persists [OF wf that] by (simp add: deliver_def)
  show ?thesis using for_role_mono [OF assms(1-3) ext keep] unfolding refines_def by simp
qed

lemma role_verdict_permanent_witness:
  "\<exists>r r'. verify_causal_for_role (Wrapped Signed [Sym ''@a''] sample_tell) \<lparr>ep_role = ''b'', ep_occupant = None\<rparr> role_dialect
      role_cast new_store ''t'' ''h0'' = Some r \<and>
    verify_causal_for_role (Wrapped Signed [Sym ''@a''] sample_tell) \<lparr>ep_role = ''b'', ep_occupant = None\<rparr> role_dialect
      role_cast (deliver new_store [(''h1'', ''t'', sample_tell)]) ''t'' ''h0'' = Some r' \<and>
    partial_cmp r r' \<in> {Some Less, Some Equal}"
proof (rule role_verdict_permanent)
  show "d_causal_protocol role_dialect = Some sample_protocol" "\<not> has_repeat sample_protocol"
      "wrapper_type_of (Wrapped Signed [Sym ''@a''] sample_tell) \<noteq> Some WithRoles"
      "agrees_with_shelves new_store [(''h1'', ''t'', sample_tell)]" by code_simp+
qed (rule rtranclp.rtrancl_refl)

text \<open>The verdict on a cast wrapper is not permanent: a wrapper that repeats the cast over another signed message is
  accepted while the root is not stored, and becomes a violation when the root arrives.\<close>

definition root_wrapper :: "string \<Rightarrow> message" where
  "root_wrapper k = Wrapped WithRoles [List [List [Sym ''a'', Sym ''@a''], List [Sym ''b'', Sym ''@b'']]]
     (Wrapped Signed [Sym k] sample_tell)"

lemma wrapper_verdict_not_permanent:
  "verify_causal_for_role (root_wrapper ''@a'') ep role_dialect role_cast new_store ''t'' ''h0'' = Some Valid \<and>
   (\<exists>e. verify_causal_for_role (root_wrapper ''@a'') ep role_dialect role_cast
      (deliver new_store [(''h0'', ''t'', root_wrapper ''@b'')]) ''t'' ''h0'' = Some (Violation e))"
proof -
  have "parse_wrapper_cast [List [List [Sym ''a'', Sym ''@a''], List [Sym ''b'', Sym ''@b'']]] (d_roles role_dialect) = Inr role_cast"
    by code_simp
  moreover have "pin_conflict role_dialect role_cast = None" by code_simp
  moreover have "lookup_in_thread new_store ''h0'' ''t'' = None" by code_simp
  moreover have "lookup_in_thread (deliver new_store [(''h0'', ''t'', root_wrapper ''@b'')]) ''h0'' ''t'' = Some (root_wrapper ''@b'')"
    by code_simp
  moreover have "caused_by_of sample_tell = Some Begin" "innermost_simple sample_tell = Some sample_tell" by code_simp+
  ultimately show ?thesis
    by (simp add: verify_causal_for_role_def root_wrapper_def verify_cast_wrapper_def wrapper_type_of_def role_violation_def)
qed

text \<open>Projection is faithful and dual: in a dialect whose performatives have distinct names, an endpoint sends
  exactly the performatives annotated with its role as sender, receives exactly those that name it as recipient and
  that it does not send, keeps no step of any other, and every local protocol carries the dialect's causal
  protocol unchanged.\<close>

lemma projection_dual:
  assumes "distinct (map p_name (d_performatives d))" "find_performative d n = Some pd"
  shows "(bt_get (l_steps (project d ep c)) n = Some Send \<longleftrightarrow> (\<exists>ann. p_role pd = Some ann \<and> ann_from ann = ep_role ep)) \<and>
    (bt_get (l_steps (project d ep c)) n = Some Recv \<longleftrightarrow>
       (\<exists>ann. p_role pd = Some ann \<and> ep_role ep \<in> set (ann_to ann) \<and> ann_from ann \<noteq> ep_role ep)) \<and>
    (\<forall>n'. find_performative d n' = None \<longrightarrow> bt_get (l_steps (project d ep c)) n' = None) \<and>
    l_protocol (project d ep c) = d_causal_protocol d"
  using assms(2) by (auto simp: project_def bt_get_local_steps [OF assms(1)] find_performative_def split: option.splits)

lemma projection_dual_witness:
  "bt_get (l_steps (project role_dialect \<lparr>ep_role = ''a'', ep_occupant = None\<rparr> None)) ''tell'' = Some Send \<and>
   bt_get (l_steps (project role_dialect \<lparr>ep_role = ''b'', ep_occupant = None\<rparr> None)) ''tell'' = Some Recv"
proof -
  have d: "distinct (map p_name (d_performatives role_dialect))" by code_simp
  have "find_performative role_dialect ''tell'' = Some (hd (d_performatives role_dialect))"
      "p_role (hd (d_performatives role_dialect)) = Some \<lparr>ann_from = ''a'', ann_to = [''b'']\<rparr>" by code_simp+
  then show ?thesis using projection_dual [OF d, of "''tell''"] by simp
qed

end
