(* ===== verification/Cbcl_Evidence.thy ===== *)
theory Cbcl_Evidence
  imports Cbcl_Projection
begin

text \<open>
  The evidence that the role monitor's verdict reads, for protocols with repeat copies too. The walk over a
  message's citations stays inside every set of hashes that holds them and is closed under citation, so the
  verdict is the same on two stores that agree on such a set, and it is decided when the store holds the set.
\<close>

section \<open>Agreement on a closed set\<close>

definition same_on :: "threaded_store \<Rightarrow> threaded_store \<Rightarrow> thread_id \<Rightarrow> content_hash set \<Rightarrow> bool" where
  "same_on s s' t H \<longleftrightarrow> envelopes s = envelopes s' \<and> opened s = opened s' \<and>
     (\<forall>h \<in> H. lookup_in_thread s h t = lookup_in_thread s' h t)"

definition closed_on :: "threaded_store \<Rightarrow> thread_id \<Rightarrow> content_hash set \<Rightarrow> bool" where
  "closed_on s t H \<longleftrightarrow> (\<forall>h \<in> H. \<forall>verb cause. metadata s h t = Some (verb, cause) \<longrightarrow> set (caused_refs cause) \<subseteq> H)"

lemma same_onD:
  assumes "same_on s s' t H" "h \<in> H"
  shows "predecessor_type s h t = predecessor_type s' h t" "metadata s h t = metadata s' h t"
    "wrong s t h expected = wrong s' t h expected"
proof -
  show type: "predecessor_type s h t = predecessor_type s' h t"
    using assms by (simp add: same_on_def predecessor_type_def envelope_in_thread_def opened_in_thread_def cong: option.case_cong)
  show "metadata s h t = metadata s' h t"
    using assms by (simp add: same_on_def metadata_def envelope_in_thread_def opened_in_thread_def cong: option.case_cong)
  show "wrong s t h expected = wrong s' t h expected" by (simp add: wrong_def type)
qed

lemma row_at_on:
  assumes "same_on s s' t H" "h \<in> H"
  shows "row_at s cp t rows h = row_at s' cp t rows h"
  unfolding row_at_def [abs_def] same_onD [OF assms] ..

lemma fan_hashes_on:
  assumes "same_on s s' t H" "set hs \<subseteq> H"
  shows "fan_hashes s cp t rows all_set hs found possible missing =
    fan_hashes s' cp t rows all_set hs found possible missing"
  using assms(2)
  by (induction hs arbitrary: found possible missing)
     (simp_all add: row_at_on [OF assms(1)] same_onD [OF assms(1)] Let_def)

lemma rewrite_root_refs: "set (caused_refs (rewrite_root cause root)) \<subseteq> set (caused_refs cause)"
  by (auto simp: rewrite_root_def caused_refs_def split: option.splits caused_by.splits if_splits)

text \<open>A rejected \<open>begin\<close> citation reports the type stored under the hash \<open>begin\<close>.\<close>

definition same_begin :: "threaded_store \<Rightarrow> threaded_store \<Rightarrow> thread_id \<Rightarrow> bool" where
  "same_begin s s' t \<longleftrightarrow> predecessor_type s BEGIN_KEYWORD t = predecessor_type s' BEGIN_KEYWORD t"

lemma step_verdict_on:
  assumes "same_on s s' t H" "same_begin s s' t" "set (caused_refs cause) \<subseteq> H"
  shows "step_verdict s cp t root rows step cause = step_verdict s' cp t root rows step cause"
proof -
  have refs: "set (caused_refs (rewrite_root cause root)) \<subseteq> H" using rewrite_root_refs assms(3) by blast
  show ?thesis
  proof (cases "rewrite_root cause root")
    case (Some cb)
    show ?thesis
    proof (cases cb)
      case Begin
      then show ?thesis using Some assms(2) by (simp add: step_verdict_def same_begin_def wrong_def Let_def)
    next
      case (Single h)
      then have h: "h \<in> H" using refs Some by (simp add: caused_refs_def)
      have "alternatives s cp t rows h allowed = alternatives s' cp t rows h allowed" for allowed
        unfolding alternatives_def row_at_on [OF assms(1) h] same_onD [OF assms(1) h] ..
      then show ?thesis using Some Single by (simp add: step_verdict_def)
    next
      case (Multiple hs)
      then have "set hs \<subseteq> H" using refs Some by (simp add: caused_refs_def)
      then show ?thesis
        using Some Multiple fan_hashes_on [OF assms(1)] by (simp add: step_verdict_def cong: option.case_cong)
    qed
  qed (simp add: step_verdict_def)
qed

section \<open>The rows of a closed set\<close>

definition refs_within :: "messages_table \<Rightarrow> content_hash set \<Rightarrow> bool" where
  "refs_within ms H = list_all (\<lambda>(h, verb, cause). set (caused_refs cause) \<subseteq> H) ms"

lemma refs_within_insert:
  "refs_within ms H \<Longrightarrow> set (caused_refs cause) \<subseteq> H \<Longrightarrow> refs_within (bt_insert h (verb, cause) ms) H"
  by (induction ms) (auto simp: refs_within_def)

lemma resolve_loop_on:
  assumes "same_on s s' t H" "closed_on s t H" "set todo \<subseteq> H" "refs_within ms H"
  shows "resolve_loop s t todo seen ms = resolve_loop s' t todo seen ms \<and> refs_within (resolve_loop s t todo seen ms) H"
  using assms
proof (induction s t todo seen ms rule: resolve_loop.induct)
  case (2 s t h todo seen ms)
  have todo: "set todo \<subseteq> H" using "2.prems"(3) by simp
  have meta: "metadata s h t = metadata s' h t" using same_onD(2) [OF "2.prems"(1)] "2.prems"(3) by simp
  show ?case
  proof (cases "h \<in> set seen")
    case True
    from "2.IH"(1) [OF True "2.prems"(1,2) todo "2.prems"(4)] show ?thesis unfolding resolve_loop.simps if_P [OF True] .
  next
    case new: False
    show ?thesis
    proof (cases "metadata s h t")
      case None
      from "2.IH"(2) [OF new None "2.prems"(1,2) todo "2.prems"(4)] show ?thesis
        unfolding resolve_loop.simps if_not_P [OF new] meta [symmetric] None option.case .
    next
      case (Some vc)
      obtain verb cause where vc: "vc = (verb, cause)" by fastforce
      have refs: "set (caused_refs cause) \<subseteq> H" using "2.prems"(2,3) Some vc by (auto simp: closed_on_def)
      then have "set (push_refs [] (caused_refs cause) todo) \<subseteq> H" using "2.prems"(3) set_push_refs by fastforce
      from "2.IH"(3) [OF new Some vc [symmetric] "2.prems"(1,2) this refs_within_insert [OF "2.prems"(4) refs]]
      show ?thesis unfolding resolve_loop.simps if_not_P [OF new] meta [symmetric] Some vc option.case prod.case .
    qed
  qed
qed simp

lemma row_messages_on:
  assumes "same_on s s' t H" "same_begin s s' t" "refs_within ms H"
  shows "row_messages s cp t root name step ms rows = row_messages s' cp t root name step ms rows"
  using assms(3)
proof (induction ms arbitrary: rows)
  case (Cons m ms)
  obtain h verb cause where m: "m = (h, verb, cause)" by (cases m) auto
  have "set (caused_refs cause) \<subseteq> H" "refs_within ms H" using Cons.prems by (auto simp: m refs_within_def)
  then show ?case using Cons.IH step_verdict_on [OF assms(1,2)] by (simp add: m)
qed simp

lemma row_steps_on:
  assumes "same_on s s' t H" "same_begin s s' t" "refs_within ms H"
  shows "row_steps s cp t root ms names rows = row_steps s' cp t root ms names rows"
  by (induction names arbitrary: rows) (simp_all add: row_messages_on [OF assms] cong: option.case_cong)

lemma resolution_rows_on:
  assumes "same_on s s' t H" "closed_on s t H" "same_begin s s' t" "set hs \<subseteq> H"
  shows "resolution_rows s cp t root hs = resolution_rows s' cp t root hs"
proof -
  have "set (rev hs) \<subseteq> H" "refs_within [] H" using assms(4) by (simp_all add: refs_within_def)
  note walk = resolve_loop_on [OF assms(1,2) this, of "[]"]
  then show ?thesis
    unfolding resolution_rows_def Let_def using row_steps_on [OF assms(1,3)] by metis
qed

section \<open>The verdict on a closed set\<close>

lemma resolution_verify_on:
  assumes "same_on s s' t H" "same_begin s s' t" "set (caused_refs cause) \<subseteq> H"
  shows "resolution_verify s cp t root rows verb cause sts unknown err =
    resolution_verify s' cp t root rows verb cause sts unknown err"
  by (induction sts arbitrary: unknown err) (auto simp: step_verdict_on [OF assms] split: verification_result.split)

lemma repeat_verify_on:
  assumes "same_on s s' t H" "closed_on s t H" "same_begin s s' t" "set (caused_refs cause) \<subseteq> H"
  shows "repeat_verify verb cause s cp t root = repeat_verify verb cause s' cp t root"
  unfolding repeat_verify_def resolution_rows_on [OF assms] resolution_verify_on [OF assms(1,3,4)] ..

lemma counted_senders_on:
  assumes "\<And>h m. (h, m) \<in> set resolved \<Longrightarrow> f h = g h"
  shows "counted_senders (Some f) resolved pred occupants = counted_senders (Some g) resolved pred occupants"
proof -
  have "filter (counts_for (Some f) pred) resolved = filter (counts_for (Some g) pred) resolved"
    using assms by (intro filter_cong) (auto simp: counts_for_def split: option.splits)
  then show ?thesis by (simp add: counted_senders_def)
qed

lemma coverage_on:
  assumes "\<And>h m. (h, m) \<in> set resolved \<Longrightarrow> f h = g h"
  shows "coverage (Some f) resolved counted = coverage (Some g) resolved counted"
  by (induction counted) (auto simp: counted_senders_on [OF assms] Let_def)

lemma resolve_members_on: "same_on s s' t H \<Longrightarrow> set hs \<subseteq> H \<Longrightarrow> resolve_members s t hs = resolve_members s' t hs"
  by (induction hs) (simp_all add: same_on_def cong: option.case_cong)

lemma occupant_fanin_on:
  assumes "same_on s s' t H" "set (caused_refs cause) \<subseteq> H" "rows = map_option (row_at s cp t) tbl" "rows' = map_option (row_at s' cp t) tbl"
  shows "occupant_fanin p cause d c s t rows = occupant_fanin p cause d c s' t rows'"
proof -
  have "(case resolve_members s t hs of None \<Rightarrow> Unknown | Some ms \<Rightarrow> coverage rows ms counted) =
      (case resolve_members s' t hs of None \<Rightarrow> Unknown | Some ms \<Rightarrow> coverage rows' ms counted)"
    if "cause = Some (Multiple hs)" for hs counted
  proof -
    have hs: "set hs \<subseteq> H" using assms(2) that by (simp add: caused_refs_def)
    have "coverage rows ms counted = coverage rows' ms counted" if "resolve_members s t hs = Some ms" for ms
    proof (cases tbl)
      case (Some tb)
      have "row_at s cp t tb h = row_at s' cp t tb h" if "(h, m) \<in> set ms" for h m
        using row_at_on [OF assms(1)] hs resolved_mem [OF \<open>resolve_members s t hs = Some ms\<close>] that by blast
      then show ?thesis using coverage_on [of ms "row_at s cp t tb" "row_at s' cp t tb"] assms(3,4) Some by simp
    qed (simp add: assms(3,4))
    then show ?thesis using resolve_members_on [OF assms(1) hs] by (simp split: option.split)
  qed
  then show ?thesis unfolding occupant_fanin_def by (auto simp: Let_def split: option.split caused_by.split)
qed

lemma repeat_fanin_loop_on:
  assumes "\<And>step. f step = f' step" "\<And>name. g name = g' name"
  shows "repeat_fanin_loop f g p sts r = repeat_fanin_loop f' g' p sts r"
proof -
  have "f = f'" "g = g'" using assms by auto
  then show ?thesis by simp
qed

lemma repeat_occupant_fanin_on:
  assumes "same_on s s' t H" "closed_on s t H" "same_begin s s' t" "set (caused_refs cause) \<subseteq> H"
  shows "repeat_occupant_fanin p cause d c s t root = repeat_occupant_fanin p cause d c s' t root"
proof -
  have "occupant_fanin p cause d c s t None = occupant_fanin p cause d c s' t None"
    using occupant_fanin_on [OF assms(1,4), of None _ None] by simp
  moreover have "occupant_fanin p' cause d c s t (Some (row_at s cp t tb)) = occupant_fanin p' cause d c s' t (Some (row_at s' cp t tb))" for p' cp tb
    using occupant_fanin_on [OF assms(1,4), of _ cp "Some tb"] by simp
  ultimately show ?thesis
    unfolding repeat_occupant_fanin_def resolution_rows_on [OF assms] step_verdict_on [OF assms(1,3,4)]
    by (simp split: option.split)
qed

section \<open>Decided verdicts\<close>

text \<open>The store holds every hash of a closed set, under a message that has a performative.\<close>

definition known_on :: "threaded_store \<Rightarrow> thread_id \<Rightarrow> content_hash set \<Rightarrow> bool" where
  "known_on s t H \<longleftrightarrow> (\<forall>h \<in> H. lookup_in_thread s h t \<noteq> None \<and> metadata s h t \<noteq> None)"

lemma known_type: "known_on s t H \<Longrightarrow> h \<in> H \<Longrightarrow> \<exists>p. predecessor_type s h t = Some p"
  by (auto simp: known_on_def predecessor_type_def)

definition rows_decided :: "rows_table \<Rightarrow> bool" where
  "rows_decided rows \<longleftrightarrow> (\<forall>k. bt_get rows k \<noteq> Some Unknown)"

lemma wrong_decided [simp]: "wrong s t h expected \<noteq> Unknown"
  by (simp add: wrong_def)

lemma row_at_decided:
  assumes "known_on s t H" "rows_decided rows" "h \<in> H"
  shows "row_at s cp t rows h n \<noteq> Unknown"
proof -
  obtain p where "predecessor_type s h t = Some p" using known_type [OF assms(1,3)] by blast
  then show ?thesis
    using assms by (auto simp: row_at_def known_on_def rows_decided_def split: option.split)
qed

lemma alternatives_decided:
  assumes "known_on s t H" "rows_decided rows" "h \<in> H"
  shows "alternatives s cp t rows h allowed \<noteq> Unknown"
proof -
  have "(case alternatives_loop f allowed False of (Some r, _) \<Rightarrow> r | (None, True) \<Rightarrow> Unknown | (None, False) \<Rightarrow> w) \<noteq> Unknown"
    if "\<And>n. f n \<noteq> Unknown" "w \<noteq> Unknown" for f w
    using that by (induction allowed) (auto split: verification_result.split)
  then show ?thesis
    using known_type [OF assms(1,3)] row_at_decided [OF assms] by (fastforce simp: alternatives_def)
qed

lemma fan_types_decided:
  assumes "\<And>n. f n \<noteq> Unknown"
  shows "fs_possible (fan_types f names st) = fs_possible st \<and> fs_unknown (fan_types f names st) = fs_unknown st"
  using assms by (induction names arbitrary: st) (auto split: verification_result.split)

lemma fan_hashes_decided:
  assumes "known_on s t H" "rows_decided rows" "set hs \<subseteq> H"
  shows "case fan_hashes s cp t rows all_set hs found possible False of
    Inl v \<Rightarrow> v \<noteq> Unknown | Inr (_, possible', missing) \<Rightarrow> possible' = possible \<and> \<not> missing"
  using assms(3)
proof (induction hs arbitrary: found)
  case (Cons h hs)
  let ?st = "fan_types (row_at s cp t rows h) all_set
    \<lparr>fs_found = found, fs_possible = possible, fs_matched = False, fs_unknown = (predecessor_type s h t = None)\<rparr>"
  have h: "h \<in> H" "set hs \<subseteq> H" using Cons.prems by simp_all
  have "fs_possible ?st = possible" "\<not> fs_unknown ?st"
    using fan_types_decided [OF row_at_decided [OF assms(1,2) h(1)]] known_type [OF assms(1) h(1)] by auto
  then show ?case using Cons.IH [OF h(2), of "fs_found ?st"] by (simp add: Let_def)
qed simp

lemma step_verdict_decided:
  assumes "known_on s t H" "rows_decided rows" "set (caused_refs cause) \<subseteq> H"
  shows "step_verdict s cp t root rows step cause \<noteq> Unknown"
proof -
  have refs: "set (caused_refs (rewrite_root cause root)) \<subseteq> H" using rewrite_root_refs assms(3) by blast
  show ?thesis
  proof (cases "rewrite_root cause root")
    case (Some cb)
    show ?thesis
    proof (cases cb)
      case Begin
      then show ?thesis using Some by (simp add: step_verdict_def Let_def)
    next
      case (Single h)
      then show ?thesis
        using Some refs alternatives_decided [OF assms(1,2)] by (simp add: step_verdict_def caused_refs_def)
    next
      case (Multiple hs)
      then have "set hs \<subseteq> H" using refs Some by (simp add: caused_refs_def)
      note fan = fan_hashes_decided [OF assms(1,2) this, where cp = cp and found = "[]" and possible = "[]"]
      show ?thesis
      proof (cases "first_all (predecessors step)")
        case (Some all_set)
        from fan [where all_set = all_set] show ?thesis
          using Some \<open>rewrite_root cause root = Some cb\<close> Multiple
          by (auto simp: step_verdict_def Let_def list_ex_iff split: sum.splits prod.splits)
      qed (simp add: step_verdict_def Some Multiple)
    qed
  qed (simp add: step_verdict_def)
qed

lemma row_messages_decided:
  assumes "known_on s t H" "rows_decided rows" "refs_within ms H"
  shows "rows_decided (row_messages s cp t root name step ms rows)"
  using assms(2,3)
proof (induction ms arbitrary: rows)
  case (Cons m ms)
  obtain h verb cause where m: "m = (h, verb, cause)" by (cases m) auto
  have refs: "set (caused_refs cause) \<subseteq> H" "refs_within ms H" using Cons.prems(2) by (auto simp: m refs_within_def)
  have "rows_decided (bt_insert (h, name) (step_verdict s cp t root rows step cause) rows)"
    using Cons.prems(1) step_verdict_decided [OF assms(1) Cons.prems(1) refs(1)] by (simp add: rows_decided_def)
  then show ?case using Cons.IH refs(2) Cons.prems(1) by (simp add: m)
qed simp

lemma row_steps_decided:
  assumes "known_on s t H" "rows_decided rows" "refs_within ms H"
  shows "rows_decided (row_steps s cp t root ms names rows)"
  using assms(2)
  by (induction names arbitrary: rows) (simp_all add: row_messages_decided [OF assms(1) _ assms(3)] split: option.split)

lemma resolution_rows_decided:
  assumes "known_on s t H" "closed_on s t H" "set hs \<subseteq> H"
  shows "rows_decided (resolution_rows s cp t root hs)"
proof -
  have none: "rows_decided []" by (simp add: rows_decided_def)
  have "same_on s s t H" "set (rev hs) \<subseteq> H" "refs_within [] H" using assms(3) by (simp_all add: same_on_def refs_within_def)
  then have "refs_within (resolve_loop s t (rev hs) [] []) H" using resolve_loop_on [OF _ assms(2)] by blast
  then show ?thesis using row_steps_decided [OF assms(1) none] none by (simp add: resolution_rows_def Let_def)
qed

lemma repeat_verify_decided:
  assumes "known_on s t H" "closed_on s t H" "set (caused_refs cause) \<subseteq> H"
  shows "repeat_verify verb cause s cp t root \<noteq> Unknown"
proof -
  note at = step_verdict_decided [OF assms(1) resolution_rows_decided [OF assms] assms(3)]
  have "resolution_verify s cp t root (resolution_rows s cp t root (caused_refs cause)) verb cause sts False err \<noteq> Unknown"
    if "err \<noteq> Unknown" for sts err
    using that at [of cp root cp root] by (induction sts arbitrary: err) (auto split: verification_result.splits if_splits)
  then show ?thesis by (simp add: repeat_verify_def)
qed

lemma occupant_fanin_decided:
  assumes "known_on s t H" "set (caused_refs cause) \<subseteq> H"
  shows "occupant_fanin p cause d c s t rows \<noteq> Unknown"
proof -
  have "resolve_members s t hs \<noteq> None" if "cause = Some (Multiple hs)" for hs
    using assms that unfolding resolve_members_None by (auto simp: known_on_def caused_refs_def)
  then show ?thesis
    using coverage_decided by (auto simp: occupant_fanin_def Let_def split: option.split caused_by.split)
qed

lemma repeat_occupant_fanin_decided:
  assumes "known_on s t H" "set (caused_refs cause) \<subseteq> H"
  shows "repeat_occupant_fanin p cause d c s t root \<noteq> Unknown"
proof -
  have "repeat_fanin_loop f g p sts r \<noteq> Unknown" if "\<And>name. g name \<noteq> Unknown" "r \<noteq> Some Unknown" for f g sts r
    using that by (induction sts arbitrary: r) (auto split: verification_result.splits option.splits if_splits)
  then show ?thesis
    using occupant_fanin_decided [OF assms] by (simp add: repeat_occupant_fanin_def Let_def split: option.split)
qed

end
