(* ===== verification/Cbcl_Admission.thy ===== *)
theory Cbcl_Admission
  imports Cbcl_Projection
begin

text \<open>
  The admission monitor (\<open>cbcl-core/src/admission.rs\<close>): one pinned thread seen from one endpoint. Received
  candidates wait in a queue; a step takes the oldest one, and only accepted messages are evidence for the
  verdict that accepts, rejects or requeues it. The authenticating gate of the host is a parameter.
  \<^const>\<open>None\<close> is a panic of the source; reachable monitors never panic.
\<close>

section \<open>The monitor\<close>

datatype admission_error =
    Authentication string
  | Context string
  | MessageError string
  | ConflictingIdentity content_hash

datatype admission_state = Pending | Accepted | Rejected causal_violation

record admission_event =
  ev_hash :: content_hash
  ev_state :: admission_state

record candidate =
  cand_message :: message
  cand_state :: admission_state

record monitor =
  mo_dialect :: dialect
  mo_cast :: cast
  mo_endpoint :: endpoint
  mo_key :: agent_key
  mo_thread :: thread_id
  mo_root :: content_hash
  received :: "(content_hash, candidate) btmap"
  mo_pending :: "content_hash list"
  accepted :: threaded_store

type_synonym gate = "message \<Rightarrow> (string, content_hash) result"

definition mon_state :: "monitor \<Rightarrow> content_hash \<Rightarrow> admission_state option" where
  "mon_state mo h = map_option cand_state (bt_get (received mo) h)"

definition received_message :: "monitor \<Rightarrow> content_hash \<Rightarrow> message option" where
  "received_message mo h = map_option cand_message (bt_get (received mo) h)"

definition mon_pending_len :: "monitor \<Rightarrow> nat" where
  "mon_pending_len mo = length (mo_pending mo)"

section \<open>The static check of a message\<close>

text \<open>The walk through the wrappers: the signer it found, or the error it stopped with. The flag is set on the
  outermost message only.\<close>

fun wrapper_walk ::
  "string \<Rightarrow> bool \<Rightarrow> bool \<Rightarrow> message \<Rightarrow> string option \<Rightarrow> (admission_error, string option) result" where
  "wrapper_walk name is_root outer (Wrapped w params content) signer =
     (if w = WithRoles \<and> \<not> (is_root \<and> outer)
      then Inl (MessageError ''only the pinned outer root may carry a cast'')
      else if w = Signed then
        (if signer \<noteq> None then Inl (MessageError ''ambiguous nested signatures'')
         else (case params of
             Atom (Symbol key) # _ \<Rightarrow> wrapper_walk name is_root False content (Some key)
           | _ \<Rightarrow> Inl (MessageError ''signed wrapper requires a signer key'')))
      else wrapper_walk name is_root False content signer)"
| "wrapper_walk name is_root outer (Dialect n inner) signer =
     (if n \<noteq> name then Inl (MessageError ''wrong dialect wrapper'')
      else wrapper_walk name is_root False inner signer)"
| "wrapper_walk name is_root outer (Simple s) signer = Inr signer"
| "wrapper_walk name is_root outer (Meta e) signer = Inr signer"

definition explicit_predecessors :: "caused_by option \<Rightarrow> bool" where
  "explicit_predecessors cb = (case cb of
       Some (Single _) \<Rightarrow> True | Some (Multiple hs) \<Rightarrow> hs \<noteq> [] | _ \<Rightarrow> False)"

definition relevant :: "monitor \<Rightarrow> string \<Rightarrow> simple_message \<Rightarrow> role_annotation \<Rightarrow> bool" where
  "relevant mo signer s ann \<longleftrightarrow>
     ann_from ann = ep_role (mo_endpoint mo) \<and> signer = mo_key mo \<or>
     ep_role (mo_endpoint mo) \<in> set (ann_to ann) \<and> mo_key mo \<in> set (recipient_set (Simple s))"

definition check_step :: "monitor \<Rightarrow> string \<Rightarrow> simple_message \<Rightarrow> (admission_error, unit) result option" where
  "check_step mo signer s =
     (if \<not> explicit_predecessors (m_caused_by s)
      then Some (Inl (MessageError ''non-root messages require explicit predecessor hashes''))
      else (let perf = performative_name (m_performative s) in
        case d_causal_protocol (mo_dialect mo) of
          None \<Rightarrow> None
        | Some cp \<Rightarrow> Some (
            if \<not> list_ex (\<lambda>name. repeat_base_name name = perf) (bt_keys (steps cp)) \<or> perf = BEGIN_KEYWORD
            then Inl (MessageError ''performative is not a protocol step'')
            else (case Option.bind (find_performative (mo_dialect mo) perf) p_role of
                None \<Rightarrow> Inl (MessageError ''missing role annotation'')
              | Some ann \<Rightarrow>
                  if relevant mo signer s ann then Inr ()
                  else Inl (MessageError ''message is not relevant to this endpoint'')))))"

definition check_message :: "monitor \<Rightarrow> content_hash \<Rightarrow> message \<Rightarrow> (admission_error, unit) result option" where
  "check_message mo hash msg = (case innermost_simple msg of
       Some (Simple s) \<Rightarrow>
         if m_thread s \<noteq> Some (mo_thread mo)
         then Some (Inl (MessageError ''message must explicitly name the pinned thread''))
         else (let is_root = (hash = mo_root mo) in
           case wrapper_walk (d_name (mo_dialect mo)) is_root True msg None of
             Inl e \<Rightarrow> Some (Inl e)
           | Inr None \<Rightarrow> Some (Inl (MessageError ''authenticated signed wrapper required''))
           | Inr (Some signer) \<Rightarrow>
               if is_root then Some (
                 if wrapper_type_of msg \<noteq> Some WithRoles \<or> m_caused_by s \<noteq> Some Begin
                 then Inl (MessageError ''root must be predecessor-free with-roles nomination'') else Inr ())
               else check_step mo signer s)
     | _ \<Rightarrow> Some (Inl (MessageError ''simple payload required'')))"

section \<open>Scheduling\<close>

definition mon_verify :: "monitor \<Rightarrow> message \<Rightarrow> verification_result option" where
  "mon_verify mo msg = verify_causal_for_role msg (mo_endpoint mo) (mo_dialect mo) (mo_cast mo) (accepted mo)
     (mo_thread mo) (mo_root mo)"

definition resolved :: "monitor \<Rightarrow> content_hash \<Rightarrow> message \<Rightarrow> bool" where
  "resolved mo hash msg =
     (if hash = mo_root mo then True
      else if \<not> store_contains (accepted mo) (mo_root mo) (mo_thread mo) then False
      else (case Option.bind (innermost_simple msg) caused_by_of of
          Some (Single h) \<Rightarrow> store_contains (accepted mo) h (mo_thread mo)
        | Some (Multiple hs) \<Rightarrow> list_all (\<lambda>h. store_contains (accepted mo) h (mo_thread mo)) hs
        | _ \<Rightarrow> False))"

definition decide :: "monitor \<Rightarrow> content_hash \<Rightarrow> message \<Rightarrow> admission_state option" where
  "decide mo hash msg =
     (if \<not> resolved mo hash msg then Some Pending
      else map_option (\<lambda>v. case v of
          Valid \<Rightarrow> Accepted | Unknown \<Rightarrow> Pending | Violation e \<Rightarrow> Rejected e) (mon_verify mo msg))"

text \<open>The queue visit. The inner \<^const>\<open>None\<close> is an empty queue.\<close>

definition mon_step :: "monitor \<Rightarrow> (monitor \<times> admission_event) option option" where
  "mon_step mo = (case mo_pending mo of
       [] \<Rightarrow> Some None
     | hash # rest \<Rightarrow> (case bt_get (received mo) hash of
           None \<Rightarrow> None
         | Some cand \<Rightarrow> (case decide mo hash (cand_message cand) of
               None \<Rightarrow> None
             | Some st \<Rightarrow>
                 Some (Some (mo\<lparr>
                   mo_pending := rest @ (if st = Pending then [hash] else []),
                   accepted := (if st = Accepted then fst (append hash (mo_thread mo) (cand_message cand) (accepted mo))
                     else accepted mo),
                   received := bt_insert hash (cand\<lparr>cand_state := st\<rparr>) (received mo)\<rparr>,
                   \<lparr>ev_hash = hash, ev_state = st\<rparr>)))))"

fun drain_round :: "nat \<Rightarrow> monitor \<Rightarrow> admission_event list \<Rightarrow> (monitor \<times> admission_event list) option" where
  "drain_round 0 mo events = Some (mo, events)"
| "drain_round (Suc n) mo events = (case mon_step mo of
       Some (Some (mo', ev)) \<Rightarrow> drain_round n mo' (if ev_state ev = Pending then events else events @ [ev])
     | _ \<Rightarrow> None)"

lemma mon_step_length:
  "mon_step mo = Some (Some (mo', ev)) \<Longrightarrow>
     length (mo_pending mo') + (if ev_state ev = Pending then 0 else 1) = length (mo_pending mo)"
  by (auto simp: mon_step_def split: list.splits option.splits if_splits)

lemma drain_round_length:
  "drain_round n mo events = Some (mo', events') \<Longrightarrow>
     length (mo_pending mo') + length events' = length (mo_pending mo) + length events"
proof (induction n mo events rule: drain_round.induct)
  case (2 n mo events)
  then obtain m1 ev where m1: "mon_step mo = Some (Some (m1, ev))"
      "drain_round n m1 (if ev_state ev = Pending then events else events @ [ev]) = Some (mo', events')"
    by (auto split: option.splits)
  from 2(1) [OF m1(1) refl refl m1(2)] mon_step_length [OF m1(1)] show ?case by (auto split: if_splits)
qed simp

text \<open>Rounds continue while one of their visits decided a candidate; each such round shortens the queue.\<close>

function drain_loop :: "monitor \<Rightarrow> admission_event list \<Rightarrow> (monitor \<times> admission_event list) option" where
  "drain_loop mo events = (case drain_round (length (mo_pending mo)) mo [] of
       None \<Rightarrow> None
     | Some (mo', new) \<Rightarrow> if new = [] then Some (mo', events) else drain_loop mo' (events @ new))"
  by pat_completeness auto
termination
proof (relation "measure (\<lambda>(mo, _). length (mo_pending mo))")
  fix mo events x mo' new
  assume "drain_round (length (mo_pending mo)) mo [] = Some x" "(mo', new) = x" "new \<noteq> []"
  then show "((mo', events @ new), mo, events) \<in> measure (\<lambda>(mo, _). length (mo_pending mo))"
    using drain_round_length [of "length (mo_pending mo)" mo "[]" mo' new] by (cases new) auto
qed simp

declare drain_loop.simps [simp del]

definition drain_ready :: "monitor \<Rightarrow> (monitor \<times> admission_event list) option" where
  "drain_ready mo = drain_loop mo []"

section \<open>Receipt\<close>

definition enter :: "content_hash \<Rightarrow> message \<Rightarrow> monitor \<Rightarrow> monitor" where
  "enter hash msg mo = mo\<lparr>
     received := bt_insert hash \<lparr>cand_message = msg, cand_state = Pending\<rparr> (received mo),
     mo_pending := mo_pending mo @ [hash]\<rparr>"

definition receive :: "gate \<Rightarrow> message \<Rightarrow> monitor \<Rightarrow> (admission_error, monitor \<times> content_hash) result option" where
  "receive gate msg mo = (case gate msg of
       Inl e \<Rightarrow> Some (Inl (Authentication e))
     | Inr hash \<Rightarrow> (case bt_get (received mo) hash of
           Some existing \<Rightarrow>
             Some (if cand_message existing = msg then Inr (mo, hash) else Inl (ConflictingIdentity hash))
         | None \<Rightarrow> (case check_message mo hash msg of
               None \<Rightarrow> None
             | Some (Inl e) \<Rightarrow> Some (Inl e)
             | Some (Inr _) \<Rightarrow> Some (Inr (enter hash msg mo, hash)))))"

section \<open>Opening\<close>

definition protocol_sound :: "dialect \<Rightarrow> causal_protocol \<Rightarrow> bool" where
  "protocol_sound d cp \<longleftrightarrow> verify_r5_protocol cp (performative_names d) = [] \<and>
     list_all (\<lambda>(name, step). name = step_performative step) (steps cp) \<and> r6_violations d = []"

definition steps_annotated :: "dialect \<Rightarrow> causal_protocol \<Rightarrow> bool" where
  "steps_annotated d cp = list_all (\<lambda>name. name = BEGIN_KEYWORD \<or>
     Option.bind (find_performative d (repeat_base_name name)) p_role \<noteq> None) (bt_keys (steps cp))"

definition endpoint_occupant :: "endpoint \<Rightarrow> cast \<Rightarrow> agent_key option" where
  "endpoint_occupant ep c = (case (ep_occupant ep, bt_get (c_singleton c) (ep_role ep)) of
       (None, Some key) \<Rightarrow> Some key
     | (Some key, None) \<Rightarrow> (case bt_get (c_indexed c) (ep_role ep) of
           Some keys \<Rightarrow> if key \<in> set keys then Some key else None
         | None \<Rightarrow> None)
     | _ \<Rightarrow> None)"

definition begin_step_ok :: "causal_protocol \<Rightarrow> bool" where
  "begin_step_ok cp = (case bt_get (steps cp) BEGIN_KEYWORD of Some s \<Rightarrow> predecessors s = [] | None \<Rightarrow> False)"

text \<open>The checks of the dialect, in the order of the source, then the checks of the root against it.\<close>

definition check_dialect :: "dialect \<Rightarrow> (admission_error, causal_protocol) result" where
  "check_dialect d =
     (if d_causal_locality d \<noteq> Reject then Inl (Context ''admission requires full-message causal locality'')
      else if \<not> distinct (performative_names d) then Inl (Context ''duplicate performative annotations'')
      else if \<not> distinct (map role_name (d_roles d)) then Inl (Context ''duplicate roles'')
      else (case d_causal_protocol d of
          None \<Rightarrow> Inl (Context ''a causal protocol is required'')
        | Some cp \<Rightarrow>
            if \<not> begin_step_ok cp then Inl (Context ''protocol requires a predecessor-free begin step'')
            else if \<not> protocol_sound d cp then Inl (Context ''dialect fails R5/R6 or step-name consistency'')
            else if \<not> steps_annotated d cp then Inl (Context ''every protocol step needs a base role annotation'')
            else Inr cp))"

definition check_root :: "(string \<Rightarrow> string) \<Rightarrow> dialect \<Rightarrow> endpoint \<Rightarrow> message \<Rightarrow> (admission_error, cast \<times> agent_key \<times> thread_id) result" where
  "check_root sha256 d ep root = (case root of
       Wrapped WithRoles params content \<Rightarrow> (case parse_wrapper_cast params (d_roles d) of
           Inl e \<Rightarrow> Inl (Context (display_r6_violation e))
         | Inr c \<Rightarrow>
             (let pin = dialect_hash sha256 d
              in if d_hash d \<noteq> Some pin \<or> dialect_pin c \<noteq> Some pin
                 then Inl (Context ''root and installed dialect must pin the computed dialect hash'')
                 else if r6_instantiated_violations d c \<noteq> []
                 then Inl (Context ''cast fails per-occupant causal locality'')
                 else (case endpoint_occupant ep c of
                     None \<Rightarrow> Inl (Context ''endpoint must name a sealed cast occupant'')
                   | Some key \<Rightarrow> (case Option.bind (innermost_simple root) thread_of of
                         None \<Rightarrow> Inl (Context ''root requires an explicit thread'')
                       | Some thread \<Rightarrow> Inr (c, key, thread)))))
     | _ \<Rightarrow> Inl (Context ''root must be the outer with-roles wrapper''))"

definition mon_new ::
  "(string \<Rightarrow> string) \<Rightarrow> gate \<Rightarrow> dialect \<Rightarrow> endpoint \<Rightarrow> message \<Rightarrow> (admission_error, monitor) result option" where
  "mon_new sha256 gate d ep root = (case check_dialect d of
       Inl e \<Rightarrow> Some (Inl e)
     | Inr _ \<Rightarrow> (case check_root sha256 d ep root of
           Inl e \<Rightarrow> Some (Inl e)
         | Inr (c, key, thread) \<Rightarrow> (case gate root of
               Inl e \<Rightarrow> Some (Inl (Authentication e))
             | Inr hash \<Rightarrow>
                 (let mo = \<lparr>mo_dialect = d, mo_cast = c, mo_endpoint = ep, mo_key = key, mo_thread = thread,
                        mo_root = hash, received = [], mo_pending = [], accepted = new_store\<rparr>
                  in case check_message mo hash root of
                       None \<Rightarrow> None
                     | Some (Inl e) \<Rightarrow> Some (Inl e)
                     | Some (Inr _) \<Rightarrow> (case mon_verify mo root of
                           None \<Rightarrow> None
                         | Some v \<Rightarrow> Some (if v \<noteq> Valid then Inl (Context ''invalid root nomination'')
                             else Inr (enter hash root mo)))))))"

end
