(* ===== verification/Cbcl_Monitor.thy ===== *)
theory Cbcl_Monitor
  imports Cbcl_Admission Cbcl_Evidence
begin

text \<open>
  Runs of the admission monitor: the evidence a verdict reads, the transitions of a monitor, the invariant of
  every reachable one, and the outcome of a drain, which does not depend on the order of receipt.
\<close>

section \<open>The evidence a verdict reads\<close>

definition cited :: "message \<Rightarrow> content_hash list" where
  "cited m = caused_refs (Option.bind (innermost_simple m) caused_by_of)"

lemma fan_fold_on:
  assumes "same_on s s' t H" "set hs \<subseteq> H"
  shows "foldl (fan_step s t types) acc hs = foldl (fan_step s' t types) acc hs"
  using assms(2)
proof (induction hs arbitrary: acc)
  case (Cons h hs)
  have "fan_step s t types acc h = fan_step s' t types acc h"
    using same_onD(1) [OF assms(1), of h] Cons.prems by (simp add: fan_step_def)
  then show ?case using Cons by simp
qed simp

lemma verify_causal_on:
  assumes "\<not> has_repeat cp" "same_on s s' t H" "set (caused_refs cb) \<subseteq> H"
  shows "verify_causal p cb s cp t = verify_causal p cb s' cp t"
proof (cases "bt_get (steps cp) p")
  case (Some step)
  have "verify_single h s t step = verify_single h s' t step" if "cb = Some (Single h)" for h
    using same_onD(1) [OF assms(2), of h] assms(3) that by (simp add: verify_single_def caused_refs_def)
  moreover have "verify_fan_in p hs s t step = verify_fan_in p hs s' t step" if "cb = Some (Multiple hs)" for hs
    using fan_fold_on [OF assms(2), of hs] assms(3) that by (simp add: verify_fan_in_def caused_refs_def cong: option.case_cong)
  ultimately show ?thesis
    using assms(1) Some by (auto simp: verify_causal_def split: option.splits caused_by.splits)
qed (use assms(1) in \<open>simp add: verify_causal_def\<close>)

lemma rewritten_refs: "set (caused_refs (map_option (\<lambda>cb. rewrite_root_references cb root) cb)) \<subseteq> set (caused_refs cb)"
  by (auto simp: caused_refs_def rewrite_root_references_def split: option.splits caused_by.splits)

text \<open>The verdict reads nothing outside a closed set that holds the citations, except that with repeat copies a
  rejected \<open>begin\<close> citation reports what is stored under that name.\<close>

lemma for_role_on:
  assumes "d_causal_protocol d = Some cp" "wrapper_type_of msg \<noteq> Some WithRoles" "set (cited msg) \<subseteq> H"
    "same_on s s' t H" "closed_on s t H" "has_repeat cp \<longrightarrow> same_begin s s' t"
  shows "verify_causal_for_role msg ep d c s t root = verify_causal_for_role msg ep d c s' t root"
proof -
  have eqs: "role_r5 p (caused_by_of simple) d s t root = role_r5 p (caused_by_of simple) d s' t root \<and>
      repeat_occupant_fanin p (caused_by_of simple) d c s t root = repeat_occupant_fanin p (caused_by_of simple) d c s' t root"
    if "innermost_simple msg = Some simple" for simple p
  proof -
    let ?cb = "caused_by_of simple"
    have refs: "set (caused_refs ?cb) \<subseteq> H" using assms(3) that by (simp add: cited_def)
    show ?thesis
    proof (cases "has_repeat cp")
      case True
      then have "same_begin s s' t" using assms(6) by simp
      from repeat_verify_on [OF assms(4,5) this refs] repeat_occupant_fanin_on [OF assms(4,5) this refs] show ?thesis
        using assms(1) True by (simp add: role_r5_def)
    next
      case False
      have "verify_causal p (map_option (\<lambda>cb. rewrite_root_references cb root) ?cb) s cp t =
          verify_causal p (map_option (\<lambda>cb. rewrite_root_references cb root) ?cb) s' cp t"
        by (rule verify_causal_on [OF False assms(4) subset_trans [OF rewritten_refs refs]])
      moreover have "occupant_fanin p ?cb d c s t None = occupant_fanin p ?cb d c s' t None"
        using occupant_fanin_on [OF assms(4) refs, of None _ None] by simp
      ultimately show ?thesis using assms(1) False by (simp add: role_r5_def repeat_occupant_fanin_def)
    qed
  qed
  have "verify_for_role msg d c s t root = verify_for_role msg d c s' t root"
  proof (cases "innermost_simple msg")
    case (Some simple)
    with eqs have here: "role_r5 p (caused_by_of simple) d s t root = role_r5 p (caused_by_of simple) d s' t root"
        "repeat_occupant_fanin p (caused_by_of simple) d c s t root = repeat_occupant_fanin p (caused_by_of simple) d c s' t root" for p
      by blast+
    show ?thesis unfolding verify_for_role_def Some option.case here ..
  qed (simp add: verify_for_role_def)
  then show ?thesis by (simp add: for_role_unwrapped [OF assms(2)] cong: option.case_cong)
qed

text \<open>With everything in a closed set that holds the citations at hand the verdict is decided.\<close>

lemma role_r5_decided:
  assumes "d_causal_protocol d = Some cp" "known_on s t H" "closed_on s t H" "set (caused_refs cb) \<subseteq> H"
  shows "role_r5 p cb d s t root \<noteq> Some Unknown"
proof (cases "has_repeat cp")
  case True
  then show ?thesis using assms(1) repeat_verify_decided [OF assms(2-4)] by (simp add: role_r5_def)
next
  case False
  let ?cb = "map_option (\<lambda>cb. rewrite_root_references cb root) cb"
  have here: "predecessor_type s h t \<noteq> None" if "h \<in> set (caused_refs ?cb)" for h
    using known_type [OF assms(2), of h] rewritten_refs [of root cb] assms(4) that by auto
  then have closed: "\<not> link_open (\<lambda>h. predecessor_type s h t) step ?cb" for step
    unfolding link_open_def caused_refs_def by (fastforce split: option.splits caused_by.splits)
  show ?thesis
  proof (cases "bt_get (steps cp) p")
    case None
    then show ?thesis using assms(1) False by (simp add: role_r5_def verify_causal_def)
  next
    case (Some step)
    show ?thesis
      using verify_causal_decides [OF False Some, of ?cb s t] closed [of step] assms(1) False
      by (simp add: role_r5_def decides_def)
  qed
qed

lemma for_role_decided:
  assumes "d_causal_protocol d = Some cp" "wrapper_type_of msg \<noteq> Some WithRoles"
    "known_on s t H" "closed_on s t H" "set (cited msg) \<subseteq> H"
  shows "verify_causal_for_role msg ep d c s t root \<noteq> Some Unknown"
proof -
  have "verify_for_role msg d c s t root \<noteq> Some Unknown"
  proof (cases "\<exists>simple p. innermost_simple msg = Some simple \<and> performative_of simple = Some p")
    case True
    then obtain simple p where sp: "innermost_simple msg = Some simple" "performative_of simple = Some p" by blast
    have refs: "set (caused_refs (caused_by_of simple)) \<subseteq> H" using assms(5) sp(1) by (simp add: cited_def)
    have meet: "vr_meet a b \<noteq> Unknown" if "a \<noteq> Unknown" "b \<noteq> Unknown" for a b
      using that by (cases a; cases b) (simp_all add: vr_meet_def)
    have r5: "role_r5 (performative_name p) (caused_by_of simple) d s t root \<noteq> Some Unknown"
      and fan: "repeat_occupant_fanin (performative_name p) (caused_by_of simple) d c s t root \<noteq> Unknown"
      by (rule role_r5_decided [OF assms(1,3,4) refs], rule repeat_occupant_fanin_decided [OF assms(3) refs])
    show ?thesis
      using verify_for_role_simps [OF sp refl, of c d s t root] r5 fan meet by fastforce
  qed (auto simp: verify_for_role_def split: option.splits)
  then show ?thesis
    unfolding for_role_unwrapped [OF assms(2)] by (auto simp: pin_conflict_def role_violation_def split: option.splits)
qed

section \<open>Transitions\<close>

inductive mon_trans :: "gate \<Rightarrow> monitor \<Rightarrow> monitor \<Rightarrow> bool" for gate :: gate where
  tr_receive: "receive gate msg mo = Some (Inr (mo', h)) \<Longrightarrow> mon_trans gate mo mo'"
| tr_step: "mon_step mo = Some (Some (mo', ev)) \<Longrightarrow> mon_trans gate mo mo'"

inductive_cases mon_transE: "mon_trans gate mo mo'"

definition same_context :: "monitor \<Rightarrow> monitor \<Rightarrow> bool" where
  "same_context mo mo' \<longleftrightarrow> mo_dialect mo' = mo_dialect mo \<and> mo_cast mo' = mo_cast mo \<and> mo_endpoint mo' = mo_endpoint mo \<and>
     mo_key mo' = mo_key mo \<and> mo_thread mo' = mo_thread mo \<and> mo_root mo' = mo_root mo"

lemma check_message_context:
  assumes "same_context mo mo'"
  shows "check_message mo' = check_message mo"
proof (intro ext)
  have eqs: "mo_dialect mo' = mo_dialect mo" "mo_endpoint mo' = mo_endpoint mo" "mo_key mo' = mo_key mo"
      "mo_thread mo' = mo_thread mo" "mo_root mo' = mo_root mo"
    using assms by (simp_all add: same_context_def)
  show "check_message mo' h m = check_message mo h m" for h m
    unfolding check_message_def check_step_def relevant_def eqs ..
qed

lemma same_context_trans: "same_context a b \<Longrightarrow> same_context b c \<Longrightarrow> same_context a c"
  by (simp add: same_context_def)

definition is_accepted :: "monitor \<Rightarrow> content_hash \<Rightarrow> bool" where
  "is_accepted mo h \<longleftrightarrow> mon_state mo h = Some Accepted"

definition verdict_state :: "verification_result \<Rightarrow> admission_state" where
  "verdict_state v = (case v of Valid \<Rightarrow> Accepted | Unknown \<Rightarrow> Pending | Violation e \<Rightarrow> Rejected e)"

lemma decide_alt: "decide mo h m = (if \<not> resolved mo h m then Some Pending else map_option verdict_state (mon_verify mo m))"
  unfolding decide_def verdict_state_def ..

section \<open>The invariant\<close>

text \<open>The accepted store holds exactly the accepted candidates, under the pinned thread.\<close>

definition evidence_ok :: "monitor \<Rightarrow> bool" where
  "evidence_ok mo \<longleftrightarrow> wf_store (accepted mo) \<and> envelopes (accepted mo) = [] \<and> opened (accepted mo) = [] \<and>
     (\<forall>h t m. lookup_in_thread (accepted mo) h t = Some m \<longleftrightarrow>
        t = mo_thread mo \<and> is_accepted mo h \<and> received_message mo h = Some m)"

definition queue_ok :: "monitor \<Rightarrow> bool" where
  "queue_ok mo \<longleftrightarrow> distinct (mo_pending mo) \<and> (\<forall>h. h \<in> set (mo_pending mo) \<longleftrightarrow> mon_state mo h = Some Pending)"

definition screened :: "gate \<Rightarrow> monitor \<Rightarrow> bool" where
  "screened gate mo \<longleftrightarrow> d_causal_protocol (mo_dialect mo) \<noteq> None \<and>
     (\<forall>h m. received_message mo h = Some m \<longrightarrow> gate m = Inr h \<and> check_message mo h m = Some (Inr ()))"

text \<open>The root waits with an empty store and a valid verdict, or has been accepted.\<close>

definition root_ok :: "message \<Rightarrow> monitor \<Rightarrow> bool" where
  "root_ok root mo \<longleftrightarrow> received_message mo (mo_root mo) = Some root \<and>
     (is_accepted mo (mo_root mo) \<or>
      mon_state mo (mo_root mo) = Some Pending \<and> accepted mo = new_store \<and> mon_verify mo root = Some Valid)"

text \<open>A decided candidate other than the root was decided after the root and everything it cites was accepted.\<close>

definition decided_late :: "monitor \<Rightarrow> bool" where
  "decided_late mo \<longleftrightarrow> (\<forall>h m. h \<noteq> mo_root mo \<longrightarrow> received_message mo h = Some m \<longrightarrow> mon_state mo h \<noteq> Some Pending \<longrightarrow>
     is_accepted mo (mo_root mo) \<and> (\<forall>x \<in> set (cited m). is_accepted mo x))"

definition mon_inv :: "gate \<Rightarrow> message \<Rightarrow> monitor \<Rightarrow> bool" where
  "mon_inv gate root mo \<longleftrightarrow> evidence_ok mo \<and> queue_ok mo \<and> screened gate mo \<and> root_ok root mo \<and> decided_late mo"

lemma mon_invD:
  assumes "mon_inv gate root mo"
  shows "evidence_ok mo" "queue_ok mo" "screened gate mo" "root_ok root mo" "decided_late mo"
  using assms by (simp_all add: mon_inv_def)

lemma contains_accepted:
  assumes "evidence_ok mo"
  shows "store_contains (accepted mo) h (mo_thread mo) \<longleftrightarrow> is_accepted mo h"
proof -
  have "store_contains (accepted mo) h (mo_thread mo) \<longleftrightarrow> lookup_in_thread (accepted mo) h (mo_thread mo) \<noteq> None"
    using contains_iff [of "accepted mo"] assms by (simp add: evidence_ok_def wf_store_def)
  moreover have "is_accepted mo h \<Longrightarrow> received_message mo h \<noteq> None"
    by (auto simp: is_accepted_def mon_state_def received_message_def)
  ultimately show ?thesis using assms unfolding evidence_ok_def by (metis option.exhaust option.simps(3))
qed

lemma resolved_iff:
  assumes "evidence_ok mo"
  shows "resolved mo h m \<longleftrightarrow> h = mo_root mo \<or> is_accepted mo (mo_root mo) \<and>
    (case Option.bind (innermost_simple m) caused_by_of of Some Begin \<Rightarrow> False | None \<Rightarrow> False | _ \<Rightarrow> True) \<and>
    (\<forall>x \<in> set (cited m). is_accepted mo x)"
  unfolding resolved_def contains_accepted [OF assms] cited_def
  by (auto simp: caused_refs_def list_all_iff split: option.splits caused_by.splits)

text \<open>A screened candidate other than the root cites explicit predecessors and is not a cast wrapper.\<close>

lemma screened_nonroot:
  assumes "screened gate mo" "received_message mo h = Some m" "h \<noteq> mo_root mo"
  shows "wrapper_type_of m \<noteq> Some WithRoles"
    "(case Option.bind (innermost_simple m) caused_by_of of Some Begin \<Rightarrow> False | None \<Rightarrow> False | _ \<Rightarrow> True)"
proof -
  have ok: "check_message mo h m = Some (Inr ())" using assms(1,2) by (simp add: screened_def)
  obtain s signer where s: "innermost_simple m = Some (Simple s)"
      "wrapper_walk (d_name (mo_dialect mo)) (h = mo_root mo) True m None = Inr (Some signer)"
      "check_step mo signer s = Some (Inr ())"
    using ok assms(3) by (auto simp: check_message_def Let_def split: option.splits message.splits if_splits sum.splits)
  show "wrapper_type_of m \<noteq> Some WithRoles"
    using s(2) assms(3) by (cases m) (auto simp: wrapper_type_of_def)
  show "(case Option.bind (innermost_simple m) caused_by_of of Some Begin \<Rightarrow> False | None \<Rightarrow> False | _ \<Rightarrow> True)"
  proof -
    have "explicit_predecessors (m_caused_by s)"
      using s(3) unfolding check_step_def by (rule contrapos_pp) simp
    then show ?thesis
      using s(1) by (auto simp: explicit_predecessors_def caused_by_of_def split: option.splits caused_by.splits)
  qed
qed

lemma resolved_nonroot:
  assumes "mon_inv gate root mo" "received_message mo h = Some m" "h \<noteq> mo_root mo"
  shows "resolved mo h m \<longleftrightarrow> is_accepted mo (mo_root mo) \<and> (\<forall>x \<in> set (cited m). is_accepted mo x)"
  using resolved_iff [OF mon_invD(1) [OF assms(1)], of h m] screened_nonroot(2) [OF mon_invD(3) [OF assms(1)] assms(2,3)] assms(3)
  by simp

section \<open>Preservation\<close>

lemma enter_simps [simp]:
  "mon_state (enter h m mo) = (mon_state mo)(h \<mapsto> Pending)"
  "received_message (enter h m mo) = (received_message mo)(h \<mapsto> m)"
  "mo_pending (enter h m mo) = mo_pending mo @ [h]"
  "accepted (enter h m mo) = accepted mo" "mo_root (enter h m mo) = mo_root mo" "mo_thread (enter h m mo) = mo_thread mo"
  "mo_dialect (enter h m mo) = mo_dialect mo" "mon_verify (enter h m mo) = mon_verify mo"
  by (auto simp: enter_def mon_state_def received_message_def mon_verify_def)

lemma same_context_enter: "same_context mo (enter h m mo)"
  by (simp add: same_context_def enter_def)

lemma received_iff: "received_message mo h = None \<longleftrightarrow> mon_state mo h = None"
  by (simp add: mon_state_def received_message_def)

lemma enter_inv:
  assumes inv: "mon_inv gate root mo" and fresh: "received_message mo h = None"
    and ok: "gate m = Inr h" "check_message mo h m = Some (Inr ())"
  shows "mon_inv gate root (enter h m mo)"
proof -
  note inv = mon_invD [OF inv]
  have st: "mon_state mo h = None" using fresh received_iff by blast
  then have neq: "is_accepted mo x \<Longrightarrow> x \<noteq> h" for x by (auto simp: is_accepted_def)
  have acc: "is_accepted (enter h m mo) x \<longleftrightarrow> is_accepted mo x" for x
    using st by (simp add: is_accepted_def)
  have root: "mo_root mo \<noteq> h" using inv(4) fresh by (auto simp: root_ok_def)
  have "evidence_ok (enter h m mo)"
    using inv(1) neq unfolding evidence_ok_def acc by auto
  moreover have "queue_ok (enter h m mo)" using inv(2) st by (auto simp: queue_ok_def)
  moreover have "screened gate (enter h m mo)"
    using inv(3) ok by (auto simp: screened_def check_message_context [OF same_context_enter])
  moreover have "root_ok root (enter h m mo)" using inv(4) root by (simp add: root_ok_def acc)
  moreover have "decided_late (enter h m mo)" using inv(5) by (auto simp: decided_late_def acc)
  ultimately show ?thesis by (simp add: mon_inv_def)
qed

text \<open>What a queue visit does to the monitor.\<close>

lemma mon_step_cases:
  assumes inv: "mon_inv gate root mo" and step: "mon_step mo = Some (Some (mo', ev))"
  obtains h rest m st where "mo_pending mo = h # rest" "received_message mo h = Some m" "mon_state mo h = Some Pending"
    "decide mo h m = Some st" "ev = \<lparr>ev_hash = h, ev_state = st\<rparr>" "same_context mo mo'"
    "mo_pending mo' = rest @ (if st = Pending then [h] else [])" "received_message mo' = received_message mo"
    "mon_state mo' = (mon_state mo)(h \<mapsto> st)"
    "accepted mo' = (if st = Accepted then fst (append h (mo_thread mo) m (accepted mo)) else accepted mo)"
proof -
  obtain h rest cand st where v: "mo_pending mo = h # rest" "bt_get (received mo) h = Some cand"
      "decide mo h (cand_message cand) = Some st" "ev = \<lparr>ev_hash = h, ev_state = st\<rparr>"
      "mo' = mo\<lparr>mo_pending := rest @ (if st = Pending then [h] else []),
         accepted := (if st = Accepted then fst (append h (mo_thread mo) (cand_message cand) (accepted mo)) else accepted mo),
         received := bt_insert h (cand\<lparr>cand_state := st\<rparr>) (received mo)\<rparr>"
    using step by (auto simp: mon_step_def split: list.splits option.splits)
  have "mon_state mo h = Some Pending" using mon_invD(2) [OF inv] v(1) by (auto simp: queue_ok_def)
  then show thesis
    using v by (intro that [of h rest "cand_message cand" st])
      (auto simp: received_message_def mon_state_def same_context_def)
qed

lemma step_lookup:
  assumes "evidence_ok mo" "mon_state mo h = Some Pending"
  shows "lookup_in_thread (fst (append h (mo_thread mo) m (accepted mo))) h' t' =
    (if h' = h \<and> t' = mo_thread mo then Some m else lookup_in_thread (accepted mo) h' t')"
proof -
  have "lookup_in_thread (accepted mo) h t = None" for t
    using assms by (cases "lookup_in_thread (accepted mo) h t") (auto simp: evidence_ok_def is_accepted_def)
  moreover have wf: "wf_store (accepted mo)" using assms(1) by (simp add: evidence_ok_def)
  ultimately show ?thesis
    using lookup_append [OF wf, of h "mo_thread mo" m h' t'] append_result [OF wf, of h "mo_thread mo" m] by auto
qed

lemma mon_verify_context: "same_context mo mo' \<Longrightarrow> accepted mo' = accepted mo \<Longrightarrow> mon_verify mo' = mon_verify mo"
  by (intro ext) (simp add: same_context_def mon_verify_def)

lemma step_inv:
  assumes inv: "mon_inv gate root mo" and step: "mon_step mo = Some (Some (mo', ev))"
  shows "mon_inv gate root mo'"
proof -
  obtain h rest m st where v: "mo_pending mo = h # rest" "received_message mo h = Some m" "mon_state mo h = Some Pending"
      "decide mo h m = Some st" "ev = \<lparr>ev_hash = h, ev_state = st\<rparr>" "same_context mo mo'"
      "mo_pending mo' = rest @ (if st = Pending then [h] else [])" "received_message mo' = received_message mo"
      "mon_state mo' = (mon_state mo)(h \<mapsto> st)"
      "accepted mo' = (if st = Accepted then fst (append h (mo_thread mo) m (accepted mo)) else accepted mo)"
    by (rule mon_step_cases [OF inv step])
  note I = mon_invD [OF inv]
  have ctx: "mo_thread mo' = mo_thread mo" "mo_root mo' = mo_root mo" "mo_dialect mo' = mo_dialect mo"
    using v(6) by (simp_all add: same_context_def)
  have acc: "is_accepted mo' x \<longleftrightarrow> is_accepted mo x \<or> x = h \<and> st = Accepted" for x
    using v(3,9) by (auto simp: is_accepted_def)
  have lk: "lookup_in_thread (accepted mo') h' t' =
      (if st = Accepted \<and> h' = h \<and> t' = mo_thread mo then Some m else lookup_in_thread (accepted mo) h' t')" for h' t'
    using step_lookup [OF I(1) v(3), of m h' t'] v(10) by auto
  have late: "is_accepted mo (mo_root mo) \<and> (\<forall>x \<in> set (cited m). is_accepted mo x)" if "h \<noteq> mo_root mo" "st \<noteq> Pending"
    using resolved_nonroot [OF inv v(2)] that v(4) by (auto simp: decide_alt split: if_splits)
  have root_st: "st = Accepted" if "h = mo_root mo"
    using I(4) v(2,3,4) that by (auto simp: root_ok_def is_accepted_def decide_alt resolved_def verdict_state_def)
  have "evidence_ok mo'"
  proof -
    have "wf_store (accepted mo')" "envelopes (accepted mo') = []" "opened (accepted mo') = []"
      using I(1) v(10) by (auto simp: evidence_ok_def intro: wf_append)
    moreover have "lookup_in_thread (accepted mo') h' t' = Some m' \<longleftrightarrow>
        t' = mo_thread mo' \<and> is_accepted mo' h' \<and> received_message mo' h' = Some m'" for h' t' m'
      using I(1) v(2,3) unfolding lk ctx acc v(8) evidence_ok_def by (auto simp: is_accepted_def)
    ultimately show ?thesis by (simp add: evidence_ok_def)
  qed
  moreover have "queue_ok mo'"
    using I(2) v(1,7,9) by (auto simp: queue_ok_def)
  moreover have "screened gate mo'"
    using I(3) unfolding screened_def ctx v(8) check_message_context [OF v(6)] .
  moreover have "root_ok root mo'"
  proof (cases "h = mo_root mo \<or> st \<noteq> Pending")
    case True
    then show ?thesis using I(4) late root_st by (auto simp: root_ok_def ctx v(8) acc)
  next
    case False
    then show ?thesis
      using I(4) v(10) mon_verify_context [OF v(6)] by (auto simp: root_ok_def ctx v(8,9) acc)
  qed
  moreover have "decided_late mo'"
    using I(5) late v(2) unfolding decided_late_def ctx v(8) acc v(9) by (auto split: if_splits)
  ultimately show ?thesis by (simp add: mon_inv_def)
qed

lemma receive_cases:
  assumes "receive gate m mo = Some (Inr (mo', h))"
  shows "mo' = mo \<or> received_message mo h = None \<and> gate m = Inr h \<and> check_message mo h m = Some (Inr ()) \<and> mo' = enter h m mo"
  using assms by (auto simp: receive_def received_message_def split: sum.splits option.splits if_splits)

lemma trans_inv: "mon_trans gate mo mo' \<Longrightarrow> mon_inv gate root mo \<Longrightarrow> mon_inv gate root mo'"
  by (erule mon_transE) (auto dest: receive_cases intro: enter_inv step_inv)

lemma run_inv: "(mon_trans gate)\<^sup>*\<^sup>* mo mo' \<Longrightarrow> mon_inv gate root mo \<Longrightarrow> mon_inv gate root mo'"
  by (induction rule: rtranclp_induct) (auto intro: trans_inv)

lemma new_inv:
  assumes "mon_new sha256 gate d ep root = Some (Inr mo)"
  shows "mon_inv gate root mo \<and> mo_dialect mo = d"
proof -
  let ?m0 = "\<lambda>c key thread hash. \<lparr>mo_dialect = d, mo_cast = c, mo_endpoint = ep, mo_key = key, mo_thread = thread,
      mo_root = hash, received = [], mo_pending = [], accepted = new_store\<rparr>"
  obtain cp c key thread hash where cp: "check_dialect d = Inr cp" and gt: "gate root = Inr hash"
    and mo: "mo = enter hash root (?m0 c key thread hash)"
    and ok: "check_message (?m0 c key thread hash) hash root = Some (Inr ())"
      "mon_verify (?m0 c key thread hash) root = Some Valid"
    using assms by (auto simp: mon_new_def Let_def split: sum.splits option.splits if_splits)
  have "d_causal_protocol d \<noteq> None" using cp by (auto simp: check_dialect_def split: if_splits option.splits)
  moreover have "lookup_in_thread new_store h t = None" for h t
    by (simp add: lookup_in_thread_def new_store_def hi_lookup_def)
  moreover have "envelopes new_store = []" "opened new_store = []" by (simp_all add: new_store_def)
  moreover have "mon_state (?m0 c key thread hash) h = None" "received_message (?m0 c key thread hash) h = None" for h
    by (simp_all add: mon_state_def received_message_def)
  ultimately show ?thesis
    using gt ok wf_new_store unfolding mo mon_inv_def
    by (simp add: evidence_ok_def queue_ok_def screened_def root_ok_def decided_late_def is_accepted_def
        check_message_context [OF same_context_enter])
qed

section \<open>No panics\<close>

lemma mon_verify_total: "mon_verify mo m \<noteq> None"
  by (simp add: mon_verify_def verify_for_role_total)

lemma mon_step_total:
  assumes "mon_inv gate root mo"
  shows "mon_step mo \<noteq> None" "mo_pending mo \<noteq> [] \<Longrightarrow> \<exists>mo' ev. mon_step mo = Some (Some (mo', ev))"
proof -
  have "\<exists>mo' ev. mon_step mo = Some (Some (mo', ev))" if pend: "mo_pending mo = h # rest" for h rest
  proof -
    have "mon_state mo h = Some Pending" using mon_invD(2) [OF assms] pend by (auto simp: queue_ok_def)
    then obtain cand where cand: "bt_get (received mo) h = Some cand" by (auto simp: mon_state_def)
    have "decide mo h (cand_message cand) \<noteq> None"
      using mon_verify_total [of mo "cand_message cand"] by (simp add: decide_alt)
    then show ?thesis using pend cand by (auto simp: mon_step_def)
  qed
  moreover have "mo_pending mo = [] \<Longrightarrow> mon_step mo = Some None" by (simp add: mon_step_def)
  ultimately show "mon_step mo \<noteq> None" "mo_pending mo \<noteq> [] \<Longrightarrow> \<exists>mo' ev. mon_step mo = Some (Some (mo', ev))"
    by (cases "mo_pending mo"; fastforce)+
qed

lemma receive_total: "screened gate mo \<Longrightarrow> receive gate m mo \<noteq> None"
  by (auto simp: receive_def screened_def check_message_def check_step_def Let_def
      split: sum.splits option.splits message.splits if_splits)

lemma drain_round_total:
  "mon_inv gate root mo \<Longrightarrow> n \<le> length (mo_pending mo) \<Longrightarrow> drain_round n mo events \<noteq> None"
proof (induction n mo events rule: drain_round.induct)
  case (2 n mo events)
  then obtain mo' ev where step: "mon_step mo = Some (Some (mo', ev))"
    using mon_step_total(2) [OF "2.prems"(1)] by fastforce
  have "n \<le> length (mo_pending mo')"
    using mon_step_length [OF step] "2.prems"(2) by (auto split: if_splits)
  from "2.IH" [OF step refl refl step_inv [OF "2.prems"(1) step] this] show ?case by (simp add: step)
qed simp

lemma drain_round_run: "drain_round n mo events = Some (mo', events') \<Longrightarrow> (mon_trans gate)\<^sup>*\<^sup>* mo mo'"
proof (induction n mo events rule: drain_round.induct)
  case (2 n mo events)
  then obtain m1 ev where m1: "mon_step mo = Some (Some (m1, ev))"
      "drain_round n m1 (if ev_state ev = Pending then events else events @ [ev]) = Some (mo', events')"
    by (auto split: option.splits)
  from tr_step [OF m1(1)] "2.IH" [OF m1(1) refl refl m1(2)] show ?case by (rule converse_rtranclp_into_rtranclp)
qed simp

lemma drain_loop_run: "drain_loop mo events = Some (mo', events') \<Longrightarrow> (mon_trans gate)\<^sup>*\<^sup>* mo mo'"
proof (induction mo events rule: drain_loop.induct)
  case (1 mo events)
  then obtain m1 new where m1: "drain_round (length (mo_pending mo)) mo [] = Some (m1, new)"
      "if new = [] then (m1, events) = (mo', events') else drain_loop m1 (events @ new) = Some (mo', events')"
    by (auto simp: drain_loop.simps [of mo] split: option.splits if_splits)
  show ?case
    using drain_round_run [OF m1(1)] "1.IH" [OF m1(1) refl] m1(2) by (cases "new = []") (auto intro: rtranclp_trans)
qed

lemma drain_loop_total: "mon_inv gate root mo \<Longrightarrow> drain_loop mo events \<noteq> None"
proof (induction mo events rule: drain_loop.induct)
  case (1 mo events)
  obtain m1 new where m1: "drain_round (length (mo_pending mo)) mo [] = Some (m1, new)"
    using drain_round_total [OF "1.prems", of "length (mo_pending mo)" "[]"] by auto
  show ?case
    using "1.IH" [OF m1 refl] run_inv [OF drain_round_run [OF m1] "1.prems"]
    by (auto simp: drain_loop.simps [of mo] m1)
qed

section \<open>Drained monitors\<close>

definition settled :: "monitor \<Rightarrow> bool" where
  "settled mo \<longleftrightarrow> (\<forall>h m. mon_state mo h = Some Pending \<longrightarrow> received_message mo h = Some m \<longrightarrow> decide mo h m = Some Pending)"

lemma decide_context:
  assumes "same_context mo mo'" "accepted mo' = accepted mo"
  shows "decide mo' = decide mo"
proof (intro ext)
  have eqs: "mo_root mo' = mo_root mo" "mo_thread mo' = mo_thread mo" "mon_verify mo' = mon_verify mo"
    using assms(1) mon_verify_context [OF assms] by (simp_all add: same_context_def)
  show "decide mo' h m = decide mo h m" for h m unfolding decide_def resolved_def assms(2) eqs ..
qed

lemma drain_round_events: "drain_round n mo events = Some (mo', events') \<Longrightarrow> length events \<le> length events'"
proof (induction n mo events rule: drain_round.induct)
  case (2 n mo events)
  then obtain m1 ev where m1: "mon_step mo = Some (Some (m1, ev))"
      "drain_round n m1 (if ev_state ev = Pending then events else events @ [ev]) = Some (mo', events')"
    by (auto split: option.splits)
  from "2.IH" [OF m1(1) refl refl m1(2)] show ?case by (simp split: if_splits)
qed simp

text \<open>A round without a decision leaves every candidate as it was and has visited the front of the queue.\<close>

lemma drain_round_quiet:
  "mon_inv gate root mo \<Longrightarrow> drain_round n mo events = Some (mo', events) \<Longrightarrow> n \<le> length (mo_pending mo) \<Longrightarrow>
     same_context mo mo' \<and> accepted mo' = accepted mo \<and> mon_state mo' = mon_state mo \<and>
     received_message mo' = received_message mo \<and>
     (\<forall>h \<in> set (take n (mo_pending mo)). \<forall>m. received_message mo h = Some m \<longrightarrow> decide mo h m = Some Pending)"
proof (induction n mo events rule: drain_round.induct)
  case (1 mo events)
  then show ?case by (simp add: same_context_def)
next
  case (2 n mo events)
  then obtain m1 ev where m1: "mon_step mo = Some (Some (m1, ev))"
      "drain_round n m1 (if ev_state ev = Pending then events else events @ [ev]) = Some (mo', events)"
    by (auto split: option.splits)
  have quiet: "ev_state ev = Pending" using drain_round_events [OF m1(2)] by (auto split: if_splits)
  obtain h rest m st where v: "mo_pending mo = h # rest" "received_message mo h = Some m" "mon_state mo h = Some Pending"
      "decide mo h m = Some st" "ev = \<lparr>ev_hash = h, ev_state = st\<rparr>" "same_context mo m1"
      "mo_pending m1 = rest @ (if st = Pending then [h] else [])" "received_message m1 = received_message mo"
      "mon_state m1 = (mon_state mo)(h \<mapsto> st)"
      "accepted m1 = (if st = Accepted then fst (append h (mo_thread mo) m (accepted mo)) else accepted mo)"
    by (rule mon_step_cases [OF "2.prems"(1) m1(1)])
  have st: "st = Pending" using quiet v(5) by simp
  have n: "n \<le> length rest" using "2.prems"(3) v(1) by simp
  have len: "n \<le> length (mo_pending m1)" using n v(7) by simp
  have same: "mon_state m1 = mon_state mo" "accepted m1 = accepted mo" using v(3,9,10) st by auto
  have next_round: "drain_round n m1 events = Some (mo', events)" using m1(2) quiet by simp
  have dec: "decide m1 = decide mo" by (rule decide_context [OF v(6) same(2)])
  from "2.IH" [OF m1(1) refl refl step_inv [OF "2.prems"(1) m1(1)], simplified quiet if_True simp_thms, OF next_round len]
  show ?case
    using same_context_trans [OF v(6)] v(1,2,4,7,8) same dec st n by (auto simp: fun_upd_idem)
qed

lemma drain_loop_settled:
  "mon_inv gate root mo \<Longrightarrow> drain_loop mo events = Some (mo', events') \<Longrightarrow> settled mo'"
proof (induction mo events rule: drain_loop.induct)
  case (1 mo events)
  then obtain m1 new where m1: "drain_round (length (mo_pending mo)) mo [] = Some (m1, new)"
      "if new = [] then (m1, events) = (mo', events') else drain_loop m1 (events @ new) = Some (mo', events')"
    by (auto simp: drain_loop.simps [of mo] split: option.splits if_splits)
  show ?case
  proof (cases "new = []")
    case True
    have q: "same_context mo m1" "accepted m1 = accepted mo" "mon_state m1 = mon_state mo" "received_message m1 = received_message mo"
        "\<forall>h \<in> set (mo_pending mo). \<forall>m. received_message mo h = Some m \<longrightarrow> decide mo h m = Some Pending"
      using drain_round_quiet [OF "1.prems"(1), of _ "[]" m1] m1(1) True by fastforce+
    have "settled m1"
      using q(5) mon_invD(2) [OF "1.prems"(1)] unfolding settled_def q(3,4) decide_context [OF q(1,2)] queue_ok_def by blast
    then show ?thesis using m1(2) True by simp
  next
    case False
    then show ?thesis using "1.IH" [OF m1(1) refl] m1(2) run_inv [OF drain_round_run [OF m1(1)] "1.prems"(1)] by simp
  qed
qed

lemma drain_round_received:
  "mon_inv gate root mo \<Longrightarrow> drain_round n mo events = Some (mo', events') \<Longrightarrow> received_message mo' = received_message mo"
proof (induction n mo events rule: drain_round.induct)
  case (2 n mo events)
  then obtain m1 ev where m1: "mon_step mo = Some (Some (m1, ev))"
      "drain_round n m1 (if ev_state ev = Pending then events else events @ [ev]) = Some (mo', events')"
    by (auto split: option.splits)
  have "received_message m1 = received_message mo" using mon_step_cases [OF "2.prems"(1) m1(1)] by metis
  then show ?case using "2.IH" [OF m1(1) refl refl step_inv [OF "2.prems"(1) m1(1)] m1(2)] by simp
qed simp

lemma drain_loop_received:
  "mon_inv gate root mo \<Longrightarrow> drain_loop mo events = Some (mo', events') \<Longrightarrow> received_message mo' = received_message mo"
proof (induction mo events rule: drain_loop.induct)
  case (1 mo events)
  then obtain m1 new where m1: "drain_round (length (mo_pending mo)) mo [] = Some (m1, new)"
      "if new = [] then (m1, events) = (mo', events') else drain_loop m1 (events @ new) = Some (mo', events')"
    by (auto simp: drain_loop.simps [of mo] split: option.splits if_splits)
  show ?case
    using drain_round_received [OF "1.prems"(1) m1(1)] run_inv [OF drain_round_run [OF m1(1)] "1.prems"(1)]
      "1.IH" [OF m1(1) refl] m1(2) by (cases "new = []") auto
qed

lemma run_received:
  "(mon_trans gate)\<^sup>*\<^sup>* mo mo' \<Longrightarrow> mon_inv gate root mo \<Longrightarrow>
     same_context mo mo' \<and> received_message mo \<subseteq>\<^sub>m received_message mo'"
proof (induction rule: rtranclp_induct)
  case base
  then show ?case by (simp add: same_context_def)
next
  case (step m1 m2)
  have "mon_inv gate root m1" by (rule run_inv [OF step(1) step.prems])
  then have "same_context m1 m2 \<and> received_message m1 \<subseteq>\<^sub>m received_message m2"
    using step(2)
  proof (elim mon_transE)
    fix msg h assume "receive gate msg m1 = Some (Inr (m2, h))"
    then show ?thesis
      using receive_cases same_context_enter [of m1 h msg] by (fastforce simp: map_le_def same_context_def)
  next
    fix ev assume inv: "mon_inv gate root m1" and "mon_step m1 = Some (Some (m2, ev))"
    then show ?thesis by (auto elim: mon_step_cases)
  qed
  then show ?case using step same_context_trans map_le_trans by blast
qed

section \<open>Decisions are final\<close>

lemma accepted_lookup:
  assumes "mon_inv gate root mo" "is_accepted mo x"
  obtains m s where "lookup_in_thread (accepted mo) x (mo_thread mo) = Some m" "received_message mo x = Some m"
    "innermost_simple m = Some (Simple s)" "set (caused_refs (m_caused_by s)) \<subseteq> {y. is_accepted mo y}"
proof -
  obtain m where m: "received_message mo x = Some m" using assms(2) received_iff [of mo x] by (force simp: is_accepted_def)
  then have look: "lookup_in_thread (accepted mo) x (mo_thread mo) = Some m"
    using mon_invD(1) [OF assms(1)] assms(2) by (simp add: evidence_ok_def)
  have ok: "check_message mo x m = Some (Inr ())" using mon_invD(3) [OF assms(1)] m by (simp add: screened_def)
  then obtain s where s: "innermost_simple m = Some (Simple s)" by (auto simp: check_message_def split: option.splits message.splits)
  have "set (caused_refs (m_caused_by s)) \<subseteq> {y. is_accepted mo y}"
  proof (cases "x = mo_root mo")
    case True
    then have "m_caused_by s = Some Begin"
      using ok s by (auto simp: check_message_def Let_def split: if_splits sum.splits option.splits)
    then show ?thesis by (simp add: caused_refs_def)
  next
    case False
    then have "\<forall>y \<in> set (cited m). is_accepted mo y"
      using mon_invD(5) [OF assms(1)] m assms(2) by (simp add: decided_late_def is_accepted_def)
    then show ?thesis using s by (auto simp: cited_def caused_by_of_def)
  qed
  with look m s show thesis by (rule that)
qed

text \<open>What a monitor accepted is closed under citation and at hand.\<close>

lemma accepted_closed:
  assumes "mon_inv gate root mo"
  shows "closed_on (accepted mo) (mo_thread mo) {x. is_accepted mo x}" "known_on (accepted mo) (mo_thread mo) {x. is_accepted mo x}"
proof -
  have "lookup_in_thread (accepted mo) x (mo_thread mo) \<noteq> None \<and>
      (\<exists>verb cause. metadata (accepted mo) x (mo_thread mo) = Some (verb, cause) \<and> set (caused_refs cause) \<subseteq> {y. is_accepted mo y})"
    if "is_accepted mo x" for x
    by (rule accepted_lookup [OF assms that]) (simp add: metadata_def performative_of_def caused_by_of_def)
  then show "closed_on (accepted mo) (mo_thread mo) {x. is_accepted mo x}" "known_on (accepted mo) (mo_thread mo) {x. is_accepted mo x}"
    by (fastforce simp: closed_on_def known_on_def)+
qed

lemma nothing_at_begin:
  assumes "mon_inv gate root mo" "\<forall>m. gate m \<noteq> Inr BEGIN_KEYWORD"
  shows "predecessor_type (accepted mo) BEGIN_KEYWORD (mo_thread mo) = None"
proof -
  note ev = mon_invD(1) [OF assms(1)]
  have "received_message mo BEGIN_KEYWORD = None"
    using mon_invD(3) [OF assms(1)] assms(2) unfolding screened_def by (metis not_None_eq)
  then have "lookup_in_thread (accepted mo) BEGIN_KEYWORD (mo_thread mo) = None"
    using ev unfolding evidence_ok_def by (metis not_None_eq)
  then show ?thesis using ev by (simp add: predecessor_type_def envelope_in_thread_def opened_in_thread_def evidence_ok_def)
qed

text \<open>A monitor that accepted all that another one of the same opening accepted gives the same verdict on what the
  other one could decide.\<close>

lemma verdict_agrees:
  assumes "mon_inv gate root mo" "mon_inv gate root mo'" "same_context mo mo'"
    "d_causal_protocol (mo_dialect mo) = Some cp" "has_repeat cp \<longrightarrow> (\<forall>m. gate m \<noteq> Inr BEGIN_KEYWORD)"
    "wrapper_type_of m \<noteq> Some WithRoles" "\<forall>x \<in> set (cited m). is_accepted mo x"
    "\<forall>x. is_accepted mo x \<longrightarrow> is_accepted mo' x \<and> received_message mo' x = received_message mo x"
  shows "mon_verify mo' m = mon_verify mo m"
proof -
  let ?H = "{x. is_accepted mo x}" and ?t = "mo_thread mo"
  have t: "mo_thread mo' = ?t" using assms(3) by (simp add: same_context_def)
  have "lookup_in_thread (accepted mo) x ?t = lookup_in_thread (accepted mo') x ?t" if "is_accepted mo x" for x
    using accepted_lookup [OF assms(1) that] accepted_lookup [OF assms(2), of x] assms(8) that t by (metis option.inject)
  then have "same_on (accepted mo) (accepted mo') ?t ?H"
    using mon_invD(1) [OF assms(1)] mon_invD(1) [OF assms(2)] by (simp add: same_on_def evidence_ok_def)
  moreover have "has_repeat cp \<longrightarrow> same_begin (accepted mo) (accepted mo') ?t"
    using nothing_at_begin [OF assms(1)] nothing_at_begin [OF assms(2)] assms(5) t by (simp add: same_begin_def)
  ultimately show ?thesis
    using for_role_on [OF assms(4,6) _ _ accepted_closed(1) [OF assms(1)]] assms(3,7)
    by (simp add: mon_verify_def same_context_def subset_iff)
qed

lemma verdict_decided:
  assumes "mon_inv gate root mo" "d_causal_protocol (mo_dialect mo) = Some cp"
    "wrapper_type_of m \<noteq> Some WithRoles" "\<forall>x \<in> set (cited m). is_accepted mo x"
  shows "mon_verify mo m \<noteq> Some Unknown"
  unfolding mon_verify_def using for_role_decided [OF assms(2,3) accepted_closed(2,1) [OF assms(1)]] assms(4) by blast

text \<open>The decision on a candidate is the verdict on the evidence at hand.\<close>

definition verdicts_ok :: "monitor \<Rightarrow> bool" where
  "verdicts_ok mo \<longleftrightarrow> (\<forall>h m st. h \<noteq> mo_root mo \<longrightarrow> received_message mo h = Some m \<longrightarrow> mon_state mo h = Some st \<longrightarrow>
     st \<noteq> Pending \<longrightarrow> map_option verdict_state (mon_verify mo m) = Some st)"

lemma trans_accepted:
  assumes "mon_inv gate root mo" "mon_trans gate mo mo'"
  shows "is_accepted mo x \<Longrightarrow> is_accepted mo' x" "is_accepted mo x \<Longrightarrow> received_message mo' x = received_message mo x"
proof -
  have sub: "received_message mo \<subseteq>\<^sub>m received_message mo'"
    using run_received [OF r_into_rtranclp] assms by fast
  show "is_accepted mo x \<Longrightarrow> received_message mo' x = received_message mo x"
    using sub received_iff [of mo x] by (auto simp: is_accepted_def map_le_def dom_def)
  show "is_accepted mo x \<Longrightarrow> is_accepted mo' x"
    using assms(2)
  proof (elim mon_transE)
    fix msg h assume "is_accepted mo x" "receive gate msg mo = Some (Inr (mo', h))"
    then show ?thesis using receive_cases received_iff by (fastforce simp: is_accepted_def)
  next
    fix ev assume "is_accepted mo x" "mon_step mo = Some (Some (mo', ev))"
    then obtain h st where "mon_state mo h = Some Pending" "mon_state mo' = (mon_state mo)(h \<mapsto> st)"
      using mon_step_cases [OF assms(1)] by metis
    with \<open>is_accepted mo x\<close> show ?thesis by (auto simp: is_accepted_def)
  qed
qed

lemma trans_verdicts:
  assumes inv: "mon_inv gate root mo" and tr: "mon_trans gate mo mo'" and ok: "verdicts_ok mo"
    and cp: "d_causal_protocol (mo_dialect mo) = Some cp" "has_repeat cp \<longrightarrow> (\<forall>m. gate m \<noteq> Inr BEGIN_KEYWORD)"
  shows "verdicts_ok mo'"
proof -
  have inv': "mon_inv gate root mo'" by (rule trans_inv [OF tr inv])
  have ctx: "same_context mo mo'" and sub: "received_message mo \<subseteq>\<^sub>m received_message mo'"
    using run_received [OF r_into_rtranclp, OF tr inv] by simp_all
  have root: "mo_root mo' = mo_root mo" using ctx by (simp add: same_context_def)
  have kept: "map_option verdict_state (mon_verify mo' m) = Some st"
    if "h \<noteq> mo_root mo" "received_message mo h = Some m" "st \<noteq> Pending"
      "\<forall>x \<in> set (cited m). is_accepted mo x" "map_option verdict_state (mon_verify mo m) = Some st" for h m st
    using verdict_agrees [OF inv inv' ctx cp screened_nonroot(1) [OF mon_invD(3) [OF inv] that(2,1)]]
      trans_accepted [OF inv tr] that(4,5) by simp
  have old: "map_option verdict_state (mon_verify mo' m) = Some st"
    if "h \<noteq> mo_root mo" "received_message mo h = Some m" "mon_state mo h = Some st" "st \<noteq> Pending" for h m st
  proof (rule kept [OF that(1,2,4)])
    show "\<forall>x \<in> set (cited m). is_accepted mo x"
      using mon_invD(5) [OF inv] that by (simp add: decided_late_def)
    show "map_option verdict_state (mon_verify mo m) = Some st"
      using ok that by (simp add: verdicts_ok_def)
  qed
  show ?thesis
    using tr
  proof (rule mon_transE)
    fix msg h assume "receive gate msg mo = Some (Inr (mo', h))"
    from receive_cases [OF this] show ?thesis
      using ok old root by (auto simp: verdicts_ok_def split: if_splits)
  next
    fix ev assume "mon_step mo = Some (Some (mo', ev))"
    then obtain h m st where v: "received_message mo h = Some m" "decide mo h m = Some st"
        "received_message mo' = received_message mo" "mon_state mo' = (mon_state mo)(h \<mapsto> st)"
      using mon_step_cases [OF inv] by metis
    have new: "map_option verdict_state (mon_verify mo' m) = Some st" if "h \<noteq> mo_root mo" "st \<noteq> Pending"
      using kept [OF that(1) v(1) that(2)] resolved_nonroot [OF inv v(1) that(1)] v(2) that(2)
      by (simp add: decide_alt split: if_splits)
    show ?thesis
      unfolding verdicts_ok_def v(3,4) root using old new v(1) by (auto split: if_splits)
  qed
qed

lemma run_verdicts:
  assumes "(mon_trans gate)\<^sup>*\<^sup>* mo mo'" "mon_inv gate root mo" "verdicts_ok mo"
    "d_causal_protocol (mo_dialect mo) = Some cp" "has_repeat cp \<longrightarrow> (\<forall>m. gate m \<noteq> Inr BEGIN_KEYWORD)"
  shows "verdicts_ok mo'"
  using assms(1)
proof (induction rule: rtranclp_induct)
  case (step m1 m2)
  have "same_context mo m1" using run_received [OF step(1) assms(2)] by simp
  then show ?case
    using trans_verdicts [OF run_inv [OF step(1) assms(2)] step(2) step.IH] assms(4,5) by (simp add: same_context_def)
qed (rule assms(3))

section \<open>The outcome of a drain\<close>

lemma settled_root:
  assumes "mon_inv gate root mo" "settled mo"
  shows "is_accepted mo (mo_root mo)"
  using mon_invD(4) [OF assms(1)] assms(2)
  by (auto simp: root_ok_def settled_def decide_alt resolved_def verdict_state_def)

lemma settled_state:
  assumes inv: "mon_inv gate root mo" and "settled mo" "verdicts_ok mo"
    and cp: "d_causal_protocol (mo_dialect mo) = Some cp" "has_repeat cp \<longrightarrow> (\<forall>m. gate m \<noteq> Inr BEGIN_KEYWORD)"
    and h: "h \<noteq> mo_root mo" "received_message mo h = Some m"
  shows "mon_state mo h = (if \<forall>x \<in> set (cited m). is_accepted mo x then map_option verdict_state (mon_verify mo m) else Some Pending)"
proof -
  obtain st where st: "mon_state mo h = Some st" using h(2) received_iff [of mo h] by fastforce
  have res: "resolved mo h m \<longleftrightarrow> (\<forall>x \<in> set (cited m). is_accepted mo x)"
    using resolved_nonroot [OF inv h(2,1)] settled_root [OF inv assms(2)] by simp
  show ?thesis
  proof (cases "st = Pending")
    case True
    then have pend: "decide mo h m = Some Pending" using assms(2) st h(2) by (simp add: settled_def)
    then show ?thesis using res st True by (auto simp: decide_alt split: if_splits)
  next
    case False
    have "\<forall>x \<in> set (cited m). is_accepted mo x" using mon_invD(5) [OF inv] h st False by (simp add: decided_late_def)
    moreover have "map_option verdict_state (mon_verify mo m) = Some st" using assms(3) h st False by (simp add: verdicts_ok_def)
    ultimately show ?thesis using st by (simp del: map_option_eq_Some)
  qed
qed

text \<open>What one run decides, a settled monitor that received the same messages decides too.\<close>

lemma decision_transfers:
  assumes run: "(mon_trans gate)\<^sup>*\<^sup>* mo m1" and inv: "mon_inv gate root mo" "mon_inv gate root m2"
    and m2: "settled m2" "verdicts_ok m2" and cp: "d_causal_protocol (mo_dialect mo) = Some cp" "has_repeat cp \<longrightarrow> (\<forall>m. gate m \<noteq> Inr BEGIN_KEYWORD)"
    and ctx: "same_context mo m2" and new: "\<forall>h. mon_state mo h \<in> {None, Some Pending}"
    and sub: "received_message m1 \<subseteq>\<^sub>m received_message m2"
  shows "mon_state m1 h = Some st \<Longrightarrow> st \<noteq> Pending \<Longrightarrow> mon_state m2 h = Some st"
  using run sub
proof (induction arbitrary: h st rule: rtranclp_induct)
  case base
  then show ?case using new by (metis insertE option.distinct(1) option.inject singletonD)
next
  case (step a b)
  have inva: "mon_inv gate root a" by (rule run_inv [OF step(1) inv(1)])
  have mid: "received_message a \<subseteq>\<^sub>m received_message b" "same_context a b"
    using run_received [OF r_into_rtranclp, OF step(2) inva] by simp_all
  then have suba: "received_message a \<subseteq>\<^sub>m received_message m2" using step.prems(3) map_le_trans by blast
  have ctxa: "same_context a m2" "mo_dialect a = mo_dialect mo"
    using run_received [OF step(1) inv(1)] ctx by (simp_all add: same_context_def)
  show ?case
  proof (cases "mon_state a h = Some st")
    case True
    then show ?thesis using step.IH step.prems(2) suba by blast
  next
    case False
    obtain ev where ev: "mon_step a = Some (Some (b, ev))"
      using step(2)
    proof (cases rule: mon_trans.cases)
      case (tr_receive msg h')
      from receive_cases [OF this] have False
        using False step.prems(1,2) by (auto split: if_splits)
      then show ?thesis ..
    qed
    obtain h' m st' where v: "received_message a h' = Some m" "decide a h' m = Some st'"
        "mon_state a h' = Some Pending" "mon_state b = (mon_state a)(h' \<mapsto> st')"
      using mon_step_cases [OF inva ev] by metis
    have h: "h' = h" "st' = st" using False v(4) step.prems(1) by (auto split: if_splits)
    have recv: "received_message m2 h = Some m" using suba v(1) h by (auto simp: map_le_def dom_def)
    show ?thesis
    proof (cases "h = mo_root a")
      case True
      have "st = Accepted"
        using mon_invD(4) [OF inva] v True h by (auto simp: root_ok_def is_accepted_def decide_alt resolved_def verdict_state_def)
      then show ?thesis using settled_root [OF inv(2) m2(1)] True ctxa by (simp add: is_accepted_def same_context_def)
    next
      case False
      have acc: "\<forall>x \<in> set (cited m). is_accepted a x"
        using resolved_nonroot [OF inva v(1)] False v(2) h step.prems(2) by (auto simp: decide_alt split: if_splits)
      have "is_accepted m2 x \<and> received_message m2 x = received_message a x" if "is_accepted a x" for x
        using step.IH [of x Accepted] suba received_iff [of a x] that by (auto simp: is_accepted_def map_le_def dom_def)
      then have "mon_verify m2 m = mon_verify a m" "\<forall>x \<in> set (cited m). is_accepted m2 x"
        using verdict_agrees [OF inva inv(2) ctxa(1) _ cp(2) screened_nonroot(1) [OF mon_invD(3) [OF inva] v(1)]] acc False h cp(1) ctxa(2)
        by simp_all
      moreover have "map_option verdict_state (mon_verify a m) = Some st"
        using v(2) h step.prems(2) by (auto simp: decide_alt split: if_splits)
      ultimately show ?thesis
        using settled_state [OF inv(2) m2 _ cp(2) _ recv] False ctxa cp(1) by (simp add: same_context_def)
    qed
  qed
qed

section \<open>Properties\<close>

lemma new_state: "mon_new sha256 gate d ep root = Some (Inr mo) \<Longrightarrow> mon_state mo h \<in> {None, Some Pending}"
  by (auto simp: mon_new_def mon_state_def enter_def Let_def split: sum.splits option.splits if_splits)

lemma new_verdicts:
  assumes "mon_new sha256 gate d ep root = Some (Inr mo)"
  shows "verdicts_ok mo"
  unfolding verdicts_ok_def
proof (intro allI impI)
  fix h m st assume "mon_state mo h = Some st" "st \<noteq> Pending"
  then show "map_option verdict_state (mon_verify mo m) = Some st" using new_state [OF assms, of h] by simp
qed

text \<open>A conversation of two roles: the root tells, the other side replies.\<close>

definition talk_protocol :: causal_protocol where
  "talk_protocol = \<lparr>steps = [
     (''begin'', \<lparr>step_performative = ''begin'', predecessors = [], successors = [NSingle ''tell'']\<rparr>),
     (''reply'', \<lparr>step_performative = ''reply'', predecessors = [NSingle ''tell''], successors = []\<rparr>),
     (''tell'', \<lparr>step_performative = ''tell'', predecessors = [NSingle ''begin''], successors = [NSingle ''reply'']\<rparr>)]\<rparr>"

definition talk_pin :: string where
  "talk_pin = ''sha256:'' @ replicate 64 (CHR ''0'')"

definition talk_dialect :: dialect where
  "talk_dialect = base_dialect\<lparr>d_name := ''talk'', d_hash := Some talk_pin,
     d_performatives := [
       \<lparr>p_name = ''tell'', p_params = [], p_template = List [], p_role = Some \<lparr>ann_from = ''a'', ann_to = [''b'']\<rparr>\<rparr>,
       \<lparr>p_name = ''reply'', p_params = [], p_template = List [], p_role = Some \<lparr>ann_from = ''b'', ann_to = [''a'']\<rparr>\<rparr>],
     d_roles := [\<lparr>role_name = ''a'', cardinality = Singleton\<rparr>, \<lparr>role_name = ''b'', cardinality = Singleton\<rparr>],
     d_causal_protocol := Some talk_protocol\<rparr>"

definition talk_root :: message where
  "talk_root = Wrapped WithRoles [List [List [Sym ''a'', Sym ''@a''], List [Sym ''b'', Sym ''@b'']],
     Atom (Keyword ''dialect''), Sym talk_pin] (Wrapped Signed [Sym ''@a''] sample_tell)"

definition talk_reply :: "string \<Rightarrow> message" where
  "talk_reply h = Wrapped Signed [Sym ''@b''] (Simple \<lparr>m_performative = Core Reply, m_recipient = Some (One ''@a''),
     m_content = Atom (Num 7), m_params = [], m_thread = Some ''t'', m_sender = Some ''@b'',
     m_caused_by = Some (Single h)\<rparr>)"

definition talk_gate :: gate where
  "talk_gate m = (if m = talk_root then Inr ''h0'' else if m = talk_reply ''h0'' then Inr ''h1''
     else if m = talk_reply ''h1'' then Inr ''h2'' else Inl ''unknown signer'')"

definition talk_endpoint :: endpoint where
  "talk_endpoint = \<lparr>ep_role = ''b'', ep_occupant = None\<rparr>"

definition talk_cast :: cast where
  "talk_cast = \<lparr>c_singleton = [(''a'', ''@a''), (''b'', ''@b'')], c_indexed = [], dialect_pin = Some talk_pin\<rparr>"

definition talk_monitor :: monitor where
  "talk_monitor = enter ''h0'' talk_root \<lparr>mo_dialect = talk_dialect,
     mo_cast = talk_cast, mo_endpoint = talk_endpoint, mo_key = ''@b'', mo_thread = ''t'', mo_root = ''h0'', received = [], mo_pending = [],
     accepted = new_store\<rparr>"

lemma hex32_zeros: "hex32 (replicate n (CHR 0x00)) = replicate (2 * n) (CHR ''0'')"
proof -
  have "hex_digit (byte (CHR 0x00) div 16) = CHR ''0''" "hex_digit (byte (CHR 0x00) mod 16) = CHR ''0''" by code_simp+
  then show ?thesis by (induction n) (simp_all add: hex32_def)
qed

lemma talk_check_dialect: "check_dialect talk_dialect = Inr talk_protocol"
proof -
  have "begin_step_ok talk_protocol" by code_simp
  moreover have "verify_r5_protocol talk_protocol (performative_names talk_dialect) = []" by code_simp
  moreover have "list_all (\<lambda>(name, step). name = step_performative step) (steps talk_protocol)" by code_simp
  moreover have "r6_violations talk_dialect = []" by code_simp
  moreover have "steps_annotated talk_dialect talk_protocol" by code_simp
  moreover have "distinct (performative_names talk_dialect)" "distinct (map role_name (d_roles talk_dialect))" by code_simp+
  moreover have "d_causal_locality talk_dialect = Reject" "d_causal_protocol talk_dialect = Some talk_protocol"
    by (simp_all add: talk_dialect_def base_dialect_def)
  ultimately show ?thesis by (simp add: check_dialect_def protocol_sound_def)
qed

lemma talk_check_root:
  "check_root (\<lambda>_. replicate 32 (CHR 0x00)) talk_dialect talk_endpoint talk_root = Inr (talk_cast, ''@b'', ''t'')"
proof -
  have "parse_cast (List [List [Sym ''a'', Sym ''@a''], List [Sym ''b'', Sym ''@b'']]) (d_roles talk_dialect) =
      Inr (talk_cast\<lparr>dialect_pin := None\<rparr>)" by code_simp
  moreover have "parse_dialect_pin (Sym talk_pin) = Inr talk_pin" by code_simp
  ultimately have cast: "parse_wrapper_cast [List [List [Sym ''a'', Sym ''@a''], List [Sym ''b'', Sym ''@b'']],
      Atom (Keyword ''dialect''), Sym talk_pin] (d_roles talk_dialect) = Inr talk_cast"
    by (simp add: parse_wrapper_cast_def result_simps talk_cast_def)
  moreover have "dialect_hash (\<lambda>_. replicate 32 (CHR 0x00)) talk_dialect = talk_pin"
    by (simp only: dialect_hash_def hex32_zeros talk_pin_def) simp
  moreover have "r6_instantiated_violations talk_dialect talk_cast = []" by code_simp
  moreover have "endpoint_occupant talk_endpoint talk_cast = Some ''@b''" by code_simp
  moreover have "Option.bind (innermost_simple talk_root) thread_of = Some ''t''" by code_simp
  moreover have "d_hash talk_dialect = Some talk_pin" "dialect_pin talk_cast = Some talk_pin"
    by (simp_all add: talk_dialect_def talk_cast_def)
  ultimately show ?thesis
    by (simp add: check_root_def Let_def talk_root_def)
qed

lemma talk_checked:
  "check_message talk_monitor ''h0'' talk_root = Some (Inr ())"
  "check_message talk_monitor ''h1'' (talk_reply ''h0'') = Some (Inr ())"
  "check_message talk_monitor ''h2'' (talk_reply ''h1'') = Some (Inr ())"
  "mon_verify talk_monitor talk_root = Some Valid"
  by code_simp+

lemma talk_opening:
  "mon_new (\<lambda>_. replicate 32 (CHR 0x00)) talk_gate talk_dialect talk_endpoint talk_root = Some (Inr talk_monitor)"
  using talk_checked
  by (simp add: mon_new_def talk_check_dialect talk_check_root talk_gate_def Let_def talk_monitor_def
      check_message_context [OF same_context_enter])

lemma talk_reply_neq: "talk_reply h = talk_reply h' \<longleftrightarrow> h = h'" "talk_reply h \<noteq> talk_root"
  by (simp_all add: talk_reply_def talk_root_def)

lemma talk_receive:
  assumes "same_context talk_monitor mo"
  shows "received_message mo ''h1'' = None \<Longrightarrow> mon_trans talk_gate mo (enter ''h1'' (talk_reply ''h0'') mo)"
    "received_message mo ''h2'' = None \<Longrightarrow> mon_trans talk_gate mo (enter ''h2'' (talk_reply ''h1'') mo)"
proof -
  show "received_message mo ''h1'' = None \<Longrightarrow> mon_trans talk_gate mo (enter ''h1'' (talk_reply ''h0'') mo)"
    by (rule tr_receive [where msg = "talk_reply ''h0''" and h = "''h1''"])
      (simp add: receive_def received_message_def talk_gate_def talk_reply_neq check_message_context [OF assms] talk_checked)
  show "received_message mo ''h2'' = None \<Longrightarrow> mon_trans talk_gate mo (enter ''h2'' (talk_reply ''h1'') mo)"
    by (rule tr_receive [where msg = "talk_reply ''h1''" and h = "''h2''"])
      (simp add: receive_def received_message_def talk_gate_def talk_reply_neq check_message_context [OF assms] talk_checked)
qed

text \<open>C13: In every monitor that an opening, receipts and queue visits can build, the queue lists each undecided
  candidate once, the accepted store holds exactly the accepted candidates under the pinned thread, every
  candidate passed the host's gate under its hash, no candidate but the root is decided before the root and
  everything it cites is accepted, and no receipt, visit or drain panics.\<close>

theorem admission_invariant:
  assumes "mon_new sha256 gate d ep root = Some (Inr mo0)" "(mon_trans gate)\<^sup>*\<^sup>* mo0 mo"
  shows "distinct (mo_pending mo) \<and> (\<forall>h. h \<in> set (mo_pending mo) \<longleftrightarrow> mon_state mo h = Some Pending) \<and>
    (\<forall>h t m. lookup_in_thread (accepted mo) h t = Some m \<longleftrightarrow>
       t = mo_thread mo \<and> mon_state mo h = Some Accepted \<and> received_message mo h = Some m) \<and>
    (\<forall>h m. received_message mo h = Some m \<longrightarrow> gate m = Inr h) \<and>
    (\<forall>h m. h \<noteq> mo_root mo \<longrightarrow> received_message mo h = Some m \<longrightarrow> mon_state mo h \<noteq> Some Pending \<longrightarrow>
       (\<forall>x \<in> insert (mo_root mo) (set (cited m)). mon_state mo x = Some Accepted)) \<and>
    receive gate msg mo \<noteq> None \<and> mon_step mo \<noteq> None \<and> drain_ready mo \<noteq> None"
proof -
  have inv: "mon_inv gate root mo" using run_inv [OF assms(2)] new_inv [OF assms(1)] by simp
  note I = mon_invD [OF inv, unfolded evidence_ok_def queue_ok_def screened_def decided_late_def is_accepted_def]
  show ?thesis
    using I(1,2,3,5) receive_total [OF mon_invD(3) [OF inv]] mon_step_total(1) [OF inv] drain_loop_total [OF inv]
    by (simp add: drain_ready_def)
qed

theorem admission_invariant_witness:
  "mo_pending talk_monitor = [''h0''] \<and> drain_ready talk_monitor \<noteq> None"
proof
  show "mo_pending talk_monitor = [''h0'']" by (simp add: talk_monitor_def)
  show "drain_ready talk_monitor \<noteq> None" using admission_invariant [OF talk_opening rtranclp.rtrancl_refl] by blast
qed

text \<open>C12: A drain settles everything that can be settled: after a drain the root is accepted, a candidate is still
  pending exactly when something it cites is not accepted, and every other one is accepted or rejected as the role
  monitor judges it on the accepted messages. For a protocol with repeat copies the content address that the gate
  returns is assumed not to be the keyword \<open>begin\<close>.\<close>

theorem drain_settles:
  assumes "mon_new sha256 gate d ep root = Some (Inr mo0)" "(mon_trans gate)\<^sup>*\<^sup>* mo0 mo"
    "d_causal_protocol d = Some cp" "has_repeat cp \<longrightarrow> (\<forall>m. gate m \<noteq> Inr BEGIN_KEYWORD)" "drain_ready mo = Some (mo', events)"
  shows "mon_state mo' (mo_root mo') = Some Accepted \<and>
    (\<forall>h m. h \<noteq> mo_root mo' \<longrightarrow> received_message mo' h = Some m \<longrightarrow>
       (mon_state mo' h = Some Pending \<longleftrightarrow> (\<exists>x \<in> set (cited m). mon_state mo' x \<noteq> Some Accepted)) \<and>
       (mon_state mo' h = Some Accepted \<longleftrightarrow> (\<forall>x \<in> set (cited m). mon_state mo' x = Some Accepted) \<and> mon_verify mo' m = Some Valid) \<and>
       (\<forall>e. mon_state mo' h = Some (Rejected e) \<longleftrightarrow>
          (\<forall>x \<in> set (cited m). mon_state mo' x = Some Accepted) \<and> mon_verify mo' m = Some (Violation e)))"
proof -
  have run: "(mon_trans gate)\<^sup>*\<^sup>* mo mo'" using drain_loop_run assms(5) by (simp add: drain_ready_def)
  have inv0: "mon_inv gate root mo0" "mo_dialect mo0 = d" using new_inv [OF assms(1)] by simp_all
  have inv: "mon_inv gate root mo" "mon_inv gate root mo'" using run_inv assms(2) run inv0(1) by blast+
  have dia: "mo_dialect mo' = d" using run_received [OF rtranclp_trans [OF assms(2) run] inv0(1)] inv0(2) by (simp add: same_context_def)
  have set: "settled mo'" using drain_loop_settled [OF inv(1)] assms(5) by (simp add: drain_ready_def)
  have ok: "verdicts_ok mo'"
    using run_verdicts [OF rtranclp_trans [OF assms(2) run] inv0(1) new_verdicts [OF assms(1)]] assms(3,4) inv0(2) by simp
  have cp: "d_causal_protocol (mo_dialect mo') = Some cp" using dia assms(3) by simp
  { fix h m assume h: "h \<noteq> mo_root mo'" "received_message mo' h = Some m"
    note st = settled_state [OF inv(2) set ok cp assms(4) h]
    have unk: "mon_verify mo' m \<noteq> Some Unknown" if "\<forall>x \<in> set (cited m). is_accepted mo' x"
      by (rule verdict_decided [OF inv(2) cp screened_nonroot(1) [OF mon_invD(3) [OF inv(2)] h(2,1)] that])
    obtain v where v: "mon_verify mo' m = Some v" using mon_verify_total by blast
    have "(mon_state mo' h = Some Pending \<longleftrightarrow> (\<exists>x \<in> set (cited m). mon_state mo' x \<noteq> Some Accepted)) \<and>
       (mon_state mo' h = Some Accepted \<longleftrightarrow> (\<forall>x \<in> set (cited m). mon_state mo' x = Some Accepted) \<and> mon_verify mo' m = Some Valid) \<and>
       (\<forall>e. mon_state mo' h = Some (Rejected e) \<longleftrightarrow>
          (\<forall>x \<in> set (cited m). mon_state mo' x = Some Accepted) \<and> mon_verify mo' m = Some (Violation e))"
      using st unk v by (cases v) (auto simp: is_accepted_def verdict_state_def split: if_splits) }
  then show ?thesis using settled_root [OF inv(2) set] by (simp add: is_accepted_def)
qed

lemma talk_drains:
  "(mon_trans talk_gate)\<^sup>*\<^sup>* talk_monitor mo \<Longrightarrow> \<exists>mo' events. drain_ready mo = Some (mo', events)"
  using drain_loop_total [OF run_inv] new_inv [OF talk_opening] by (fastforce simp: drain_ready_def)

lemma talk_simple:
  "d_causal_protocol talk_dialect = Some talk_protocol"
  "has_repeat talk_protocol \<longrightarrow> (\<forall>m. gate m \<noteq> Inr BEGIN_KEYWORD)"
proof -
  show "d_causal_protocol talk_dialect = Some talk_protocol" by (simp add: talk_dialect_def)
  have "\<not> has_repeat talk_protocol" by code_simp
  then show "has_repeat talk_protocol \<longrightarrow> (\<forall>m. gate m \<noteq> Inr BEGIN_KEYWORD)" by simp
qed

theorem drain_settles_witness:
  "\<exists>mo events. drain_ready talk_monitor = Some (mo, events) \<and> mon_state mo (mo_root mo) = Some Accepted"
proof -
  obtain mo events where d: "drain_ready talk_monitor = Some (mo, events)" using talk_drains by blast
  then show ?thesis using drain_settles [OF talk_opening rtranclp.rtrancl_refl talk_simple d] by blast
qed

text \<open>C11: Admission does not depend on the order of receipt. Two monitors of one opening that received the same
  messages, however the receipts, visits and drains were interleaved, agree after a drain on the state of
  every candidate, down to the reported violation. For a protocol with repeat copies the content address that the
  gate returns is assumed not to be the keyword \<open>begin\<close>, under which the resolver looks up what a rejected
  \<open>begin\<close> citation reports.\<close>

theorem admission_confluent:
  assumes "mon_new sha256 gate d ep root = Some (Inr mo0)" "d_causal_protocol d = Some cp" "has_repeat cp \<longrightarrow> (\<forall>m. gate m \<noteq> Inr BEGIN_KEYWORD)"
    "(mon_trans gate)\<^sup>*\<^sup>* mo0 m1" "(mon_trans gate)\<^sup>*\<^sup>* mo0 m2"
    "drain_ready m1 = Some (d1, ev1)" "drain_ready m2 = Some (d2, ev2)"
    "\<forall>h. received_message m1 h = received_message m2 h"
  shows "mon_state d1 h = mon_state d2 h"
proof -
  have inv0: "mon_inv gate root mo0" "mo_dialect mo0 = d" using new_inv [OF assms(1)] by simp_all
  have runs: "(mon_trans gate)\<^sup>*\<^sup>* mo0 d1" "(mon_trans gate)\<^sup>*\<^sup>* mo0 d2"
    using assms(4-7) drain_loop_run by (auto simp: drain_ready_def intro: rtranclp_trans)
  have inv: "mon_inv gate root d1" "mon_inv gate root d2" using runs run_inv inv0(1) by blast+
  have same: "received_message d1 = received_message d2"
    using drain_loop_received [OF run_inv [OF assms(4) inv0(1)]] drain_loop_received [OF run_inv [OF assms(5) inv0(1)]] assms(6-8)
    by (fastforce simp: drain_ready_def)
  have ctx: "same_context mo0 d1" "same_context mo0 d2" using runs run_received inv0(1) by blast+
  have sets: "settled d1" "settled d2"
    using assms(4-7) drain_loop_settled run_inv inv0(1) unfolding drain_ready_def by blast+
  have cp: "d_causal_protocol (mo_dialect mo0) = Some cp" using assms(2) inv0(2) by simp
  have oks: "verdicts_ok d1" "verdicts_ok d2"
    using run_verdicts [OF _ inv0(1) new_verdicts [OF assms(1)] cp assms(3)] runs by simp_all
  have new: "\<forall>h. mon_state mo0 h \<in> {None, Some Pending}" using new_state [OF assms(1)] by simp
  have le: "received_message d1 \<subseteq>\<^sub>m received_message d2" "received_message d2 \<subseteq>\<^sub>m received_message d1"
    using same by simp_all
  have one: "mon_state d1 h = Some st \<Longrightarrow> st \<noteq> Pending \<Longrightarrow> mon_state d2 h = Some st"
    and two: "mon_state d2 h = Some st \<Longrightarrow> st \<noteq> Pending \<Longrightarrow> mon_state d1 h = Some st" for st
    using decision_transfers [OF runs(1) inv0(1) inv(2) sets(2) oks(2) cp assms(3) ctx(2) new le(1)]
      decision_transfers [OF runs(2) inv0(1) inv(1) sets(1) oks(1) cp assms(3) ctx(1) new le(2)] by blast+
  show ?thesis
    using one two same received_iff [of d1 h] received_iff [of d2 h]
    by (metis option.exhaust)
qed

text \<open>A reply and a reply to it, received in either order.\<close>

theorem admission_confluent_witness:
  "\<exists>d1 ev1 d2 ev2. drain_ready (enter ''h2'' (talk_reply ''h1'') (enter ''h1'' (talk_reply ''h0'') talk_monitor)) = Some (d1, ev1) \<and>
     drain_ready (enter ''h1'' (talk_reply ''h0'') (enter ''h2'' (talk_reply ''h1'') talk_monitor)) = Some (d2, ev2) \<and>
     mon_state d1 ''h2'' = mon_state d2 ''h2''"
proof -
  let ?a = "enter ''h2'' (talk_reply ''h1'') (enter ''h1'' (talk_reply ''h0'') talk_monitor)"
  let ?b = "enter ''h1'' (talk_reply ''h0'') (enter ''h2'' (talk_reply ''h1'') talk_monitor)"
  have none: "received_message talk_monitor ''h1'' = None" "received_message talk_monitor ''h2'' = None"
    by (simp_all add: talk_monitor_def) (simp_all add: received_message_def)
  have refl: "same_context talk_monitor talk_monitor" by (simp add: same_context_def)
  have a: "(mon_trans talk_gate)\<^sup>*\<^sup>* talk_monitor ?a"
    using talk_receive(1) [OF refl none(1)] talk_receive(2) [OF same_context_enter, of "''h1''" "talk_reply ''h0''"] none
    by (simp add: converse_rtranclp_into_rtranclp [of _ _ "enter ''h1'' (talk_reply ''h0'') talk_monitor"])
  have b: "(mon_trans talk_gate)\<^sup>*\<^sup>* talk_monitor ?b"
    using talk_receive(2) [OF refl none(2)] talk_receive(1) [OF same_context_enter, of "''h2''" "talk_reply ''h1''"] none
    by (simp add: converse_rtranclp_into_rtranclp [of _ _ "enter ''h2'' (talk_reply ''h1'') talk_monitor"])
  obtain d1 ev1 where d1: "drain_ready ?a = Some (d1, ev1)" using talk_drains [OF a] by blast
  obtain d2 ev2 where d2: "drain_ready ?b = Some (d2, ev2)" using talk_drains [OF b] by blast
  have "\<forall>h. received_message ?a h = received_message ?b h" by simp
  from admission_confluent [OF talk_opening talk_simple a b d1 d2 this, of "''h2''"] show ?thesis using d1 d2 by blast
qed

end
