(* ===== verification/Cbcl_Equivocation.thy ===== *)
theory Cbcl_Equivocation
  imports Cbcl_R6 Cbcl_Causal
begin

text \<open>
  Equivocation (\<open>cbcl-core/src/equivocation.rs\<close>): the detection predicate over a store, the transferable
  proof of a conflicting pair with its verification, and the choice-transparency lint. Signatures
  and SHA-256 are parameters.
\<close>

section \<open>Choice points and obligations\<close>

definition choice_step :: "string btset list \<Rightarrow> node_ref \<Rightarrow> string btset list" where
  "choice_step sets nr = (case nr of
       NAny ss \<Rightarrow>
         (let named = filter (\<lambda>m. m \<noteq> BEGIN_KEYWORD) ss
          in if 2 \<le> length named \<and> named \<notin> set sets then sets @ [named] else sets)
     | _ \<Rightarrow> sets)"

definition any_choice_sets :: "causal_protocol \<Rightarrow> string btset list" where
  "any_choice_sets cp =
     foldl choice_step [] (concat (map (\<lambda>(_, step). predecessors step @ successors step) (steps cp)))"

definition protocol_performatives :: "causal_protocol \<Rightarrow> string btset" where
  "protocol_performatives cp =
     foldl (\<lambda>names (name, step). foldl insert_unless_begin (insert_unless_begin names name)
       (concat (map performatives_of (predecessors step @ successors step)))) [] (steps cp)"

section \<open>Detection\<close>

datatype equivocation_kind = ChoiceKind "string btset" | ObligationKind string

record equivocation_evidence =
  ev_key :: key_id
  ev_thread :: thread_id
  ev_kind :: equivocation_kind
  ev_first :: "content_hash \<times> message"
  ev_second :: "content_hash \<times> message"

definition closure_hashes :: "threaded_store \<Rightarrow> thread_id \<Rightarrow> content_hash btset" where
  "closure_hashes s t =
     foldl (\<lambda>hs leaf. foldl (\<lambda>hs h. bs_insert h hs) hs (causal_closure s leaf t)) [] (frontier s t)"

definition thread_messages :: "threaded_store \<Rightarrow> thread_id \<Rightarrow> (content_hash \<times> message) list" where
  "thread_messages s t = List.map_filter (\<lambda>h. map_option (Pair h) (lookup_in_thread s h t)) (closure_hashes s t)"

text \<open>The performative of a message of the key, if it is one.\<close>

definition owned_performative :: "key_id \<Rightarrow> message \<Rightarrow> string option" where
  "owned_performative key m = (case innermost_simple m of
       None \<Rightarrow> None
     | Some simple \<Rightarrow> (case sender_of simple of
           None \<Rightarrow> None
         | Some sender \<Rightarrow> (case key_id_parse sender of
               Inl _ \<Rightarrow> None
             | Inr sender_id \<Rightarrow> if sender_id \<noteq> key then None
                 else map_option performative_name (performative_of simple))))"

definition owned :: "key_id \<Rightarrow> (content_hash \<times> message) list \<Rightarrow> (content_hash \<times> string \<times> message) list" where
  "owned key ms = List.map_filter (\<lambda>(h, m). map_option (\<lambda>p. (h, p, m)) (owned_performative key m)) ms"

definition conflict_kind :: "string btset list \<Rightarrow> string btset \<Rightarrow> string \<Rightarrow> string \<Rightarrow> equivocation_kind option" where
  "conflict_kind choices obligations p1 p2 =
     (if p1 = p2 then (if p1 \<in> set obligations then Some (ObligationKind p1) else None)
      else map_option ChoiceKind (List.find (\<lambda>ss. p1 \<in> set ss \<and> p2 \<in> set ss) choices))"

text \<open>The double loop over the pairs of a list, in order.\<close>

fun first_partner :: "('a \<Rightarrow> 'a \<Rightarrow> 'b option) \<Rightarrow> 'a \<Rightarrow> 'a list \<Rightarrow> ('a \<times> 'a \<times> 'b) option" where
  "first_partner f x [] = None"
| "first_partner f x (y # ys) = (case f x y of Some k \<Rightarrow> Some (x, y, k) | None \<Rightarrow> first_partner f x ys)"

fun first_pair :: "('a \<Rightarrow> 'a \<Rightarrow> 'b option) \<Rightarrow> 'a list \<Rightarrow> ('a \<times> 'a \<times> 'b) option" where
  "first_pair f [] = None"
| "first_pair f (x # xs) = (case first_partner f x xs of Some r \<Rightarrow> Some r | None \<Rightarrow> first_pair f xs)"

definition equivocation :: "key_id \<Rightarrow> thread_id \<Rightarrow> threaded_store \<Rightarrow> dialect \<Rightarrow> equivocation_evidence option" where
  "equivocation key t s d = (case d_causal_protocol d of
       None \<Rightarrow> None
     | Some cp \<Rightarrow>
         (let choices = any_choice_sets cp; obligations = protocol_performatives cp
          in map_option (\<lambda>((h1, p1, m1), (h2, p2, m2), kind).
               \<lparr>ev_key = key, ev_thread = t, ev_kind = kind, ev_first = (h1, m1), ev_second = (h2, m2)\<rparr>)
             (first_pair (\<lambda>(_, p1, _) (_, p2, _). conflict_kind choices obligations p1 p2)
               (owned key (thread_messages s t)))))"

section \<open>The transferable proof\<close>

datatype proof_member =
    SignedMessage message string
  | EnvelopeMember redacted_envelope
  | OpenedMember opened_envelope

record equivocation_proof =
  pr_key :: key_id
  pr_thread :: string
  pr_dialect_hash :: string
  pr_first :: proof_member
  pr_second :: proof_member

datatype proof_error =
    DialectUnhashed
  | DialectHashMismatch string string
  | MalformedMember nat member_defect
  | ProofKeyMismatch nat
  | ThreadMismatch nat
  | IdenticalMembers
  | ProofSignature nat attest_error
  | CompatiblePair string string

record checked_member =
  cm_performative :: string
  cm_content_hash :: string

definition opened_attest_error :: "opened_error \<Rightarrow> attest_error" where
  "opened_attest_error e = (case e of Attestation a \<Rightarrow> a | _ \<Rightarrow> InvalidSignature)"

definition check_opened_member ::
  "(string \<Rightarrow> string) \<Rightarrow> opened_envelope \<Rightarrow> nat \<Rightarrow> equivocation_proof \<Rightarrow> signer \<Rightarrow> (proof_error, checked_member) result" where
  "check_opened_member sha256 env index pr signer = (case opened_from_spelling env of
       None \<Rightarrow> Inl (MalformedMember index MissingSender)
     | Some spelling \<Rightarrow> (case key_id_parse spelling of
           Inl e \<Rightarrow> Inl (MalformedMember index (SenderSpelling e))
         | Inr from \<Rightarrow>
             if from \<noteq> pr_key pr then Inl (ProofKeyMismatch index)
             else (case opened_thread env of
                 None \<Rightarrow> Inl (MalformedMember index MissingThread)
               | Some thread \<Rightarrow>
                   if thread \<noteq> pr_thread pr then Inl (ThreadMismatch index)
                   else (case verify_opened sha256 env signer of
                       Inl e \<Rightarrow> Inl (ProofSignature index (opened_attest_error e))
                     | Inr _ \<Rightarrow> (case opened_performative env of
                           None \<Rightarrow> Inl (MalformedMember index NotSimple)
                         | Some p \<Rightarrow> Inr \<lparr>cm_performative = p, cm_content_hash = oe_root env\<rparr>)))))"

definition check_header_member ::
  "attestation_header \<Rightarrow> string \<Rightarrow> nat \<Rightarrow> equivocation_proof \<Rightarrow> signer \<Rightarrow> (proof_error, checked_member) result" where
  "check_header_member header sig index pr signer =
     (if h_from header \<noteq> pr_key pr then Inl (ProofKeyMismatch index)
      else if h_thread header \<noteq> pr_thread pr then Inl (ThreadMismatch index)
      else (case verify_attestation_v2 signer (pr_key pr) header sig of
          Inl e \<Rightarrow> Inl (ProofSignature index e)
        | Inr _ \<Rightarrow> Inr \<lparr>cm_performative = h_performative header, cm_content_hash = h_content_hash header\<rparr>))"

definition check_member ::
  "(string \<Rightarrow> string) \<Rightarrow> proof_member \<Rightarrow> nat \<Rightarrow> equivocation_proof \<Rightarrow> signer \<Rightarrow> (proof_error, checked_member) result" where
  "check_member sha256 member index pr signer = (case member of
       SignedMessage m sig \<Rightarrow> (case attestation_header_for sha256 m of
           Inl defect \<Rightarrow> Inl (MalformedMember index defect)
         | Inr header \<Rightarrow> check_header_member header sig index pr signer)
     | EnvelopeMember env \<Rightarrow> check_header_member (e_header env) (e_signature env) index pr signer
     | OpenedMember env \<Rightarrow> check_opened_member sha256 env index pr signer)"

definition pair_conflicts :: "dialect \<Rightarrow> string \<Rightarrow> string \<Rightarrow> bool" where
  "pair_conflicts d p1 p2 = (case d_causal_protocol d of
       None \<Rightarrow> False
     | Some cp \<Rightarrow>
         if p1 = p2 then p1 \<in> set (protocol_performatives cp)
         else list_ex (\<lambda>ss. p1 \<in> set ss \<and> p2 \<in> set ss) (any_choice_sets cp))"

definition verify_equivocation_proof ::
  "(string \<Rightarrow> string) \<Rightarrow> equivocation_proof \<Rightarrow> dialect \<Rightarrow> signer \<Rightarrow> (proof_error, key_id) result" where
  "verify_equivocation_proof sha256 pr d signer = (case d_hash d of
       None \<Rightarrow> Inl DialectUnhashed
     | Some installed \<Rightarrow>
         if installed \<noteq> pr_dialect_hash pr then Inl (DialectHashMismatch (pr_dialect_hash pr) installed)
         else bind_result (check_member sha256 (pr_first pr) 0 pr signer) (\<lambda>a.
           bind_result (check_member sha256 (pr_second pr) 1 pr signer) (\<lambda>b.
             if cm_content_hash a = cm_content_hash b then Inl IdenticalMembers
             else if \<not> pair_conflicts d (cm_performative a) (cm_performative b)
             then Inl (CompatiblePair (cm_performative a) (cm_performative b))
             else Inr (pr_key pr))))"

section \<open>The choice-transparency lint\<close>

record transparency_warning =
  tw_alternatives :: "string btset"
  tw_chooser :: string

fun all_annotations :: "(string, role_annotation) btmap \<Rightarrow> string list \<Rightarrow> role_annotation list option" where
  "all_annotations anns [] = Some []"
| "all_annotations anns (a # as) = (case bt_get anns a of
       None \<Rightarrow> None | Some ann \<Rightarrow> map_option ((#) ann) (all_annotations anns as))"

definition common_recipients :: "role_annotation list \<Rightarrow> string btset" where
  "common_recipients anns = (case anns of
       [] \<Rightarrow> []
     | a # rest \<Rightarrow> foldl (\<lambda>common ann. filter (\<lambda>r. r \<in> set (ann_to ann)) common) (bs_of_list (ann_to a)) rest)"

definition lint_choice :: "dialect \<Rightarrow> string btset \<Rightarrow> transparency_warning option" where
  "lint_choice d alts = (case all_annotations (annotations d) alts of
       None \<Rightarrow> None
     | Some anns \<Rightarrow> (case bs_of_list (map ann_from anns) of
           [chooser] \<Rightarrow>
             if filter (\<lambda>r. r \<noteq> chooser) (common_recipients anns) = []
             then Some \<lparr>tw_alternatives = alts, tw_chooser = chooser\<rparr> else None
         | _ \<Rightarrow> None))"

definition choice_transparency_lint :: "dialect \<Rightarrow> bool \<Rightarrow> transparency_warning list" where
  "choice_transparency_lint d enabled =
     (if \<not> enabled then []
      else (case d_causal_protocol d of
          None \<Rightarrow> []
        | Some cp \<Rightarrow> List.map_filter (lint_choice d) (any_choice_sets cp)))"

section \<open>What the loops find\<close>

lemma first_partner_None: "first_partner f x ys = None \<longleftrightarrow> (\<forall>y \<in> set ys. f x y = None)"
  by (induction ys) (auto split: option.splits)

lemma first_pair_None: "first_pair f xs = None \<longleftrightarrow> sorted_wrt (\<lambda>x y. f x y = None) xs"
proof (induction xs)
  case (Cons x xs)
  show ?case
    using Cons first_partner_None [of f x xs] by (cases "first_partner f x xs") auto
qed simp

lemma first_partner_Some: "first_partner f x ys = Some (a, b, k) \<Longrightarrow> a = x \<and> b \<in> set ys \<and> f x b = Some k"
  by (induction ys) (auto split: option.splits)

lemma first_pair_Some:
  "first_pair f xs = Some (a, b, k) \<Longrightarrow> distinct (map g xs) \<Longrightarrow> a \<in> set xs \<and> b \<in> set xs \<and> f a b = Some k \<and> g a \<noteq> g b"
  by (induction xs) (fastforce split: option.splits dest: first_partner_Some)+

lemma sorted_wrt_distinct:
  assumes "\<And>x y. P x y \<Longrightarrow> P y x" "distinct (map g xs)"
  shows "sorted_wrt P xs \<longleftrightarrow> (\<forall>x \<in> set xs. \<forall>y \<in> set xs. g x \<noteq> g y \<longrightarrow> P x y)"
  using assms(2)
proof (induction xs)
  case (Cons a xs)
  then have "g a \<noteq> g y" if "y \<in> set xs" for y using that by (auto simp: image_iff)
  with Cons assms(1) show ?case by fastforce
qed simp

lemma conflict_kind_iff:
  "d_causal_protocol d = Some cp \<Longrightarrow>
     conflict_kind (any_choice_sets cp) (protocol_performatives cp) p1 p2 \<noteq> None \<longleftrightarrow> pair_conflicts d p1 p2"
  using find_None_iff [of "\<lambda>ss. p1 \<in> set ss \<and> p2 \<in> set ss" "any_choice_sets cp"]
  by (auto simp: conflict_kind_def pair_conflicts_def list_ex_iff simp del: not_None_eq)

lemma pair_conflicts_sym: "pair_conflicts d p1 p2 = pair_conflicts d p2 p1"
  by (auto simp: pair_conflicts_def list_ex_iff split: option.splits)

lemma set_choice_fold:
  "set (foldl choice_step sets refs) = set sets \<union>
     {filter (\<lambda>m. m \<noteq> BEGIN_KEYWORD) ss |ss. NAny ss \<in> set refs \<and> 2 \<le> length (filter (\<lambda>m. m \<noteq> BEGIN_KEYWORD) ss)}"
proof (induction refs arbitrary: sets)
  case (Cons r refs)
  then show ?case by (cases r) (auto simp: choice_step_def Let_def)
qed simp

lemma set_any_choice_sets:
  "alts \<in> set (any_choice_sets cp) \<longleftrightarrow> 2 \<le> length alts \<and>
     (\<exists>(name, step) \<in> set (steps cp). \<exists>ss. NAny ss \<in> set (predecessors step) \<union> set (successors step) \<and>
        alts = filter (\<lambda>m. m \<noteq> BEGIN_KEYWORD) ss)"
  unfolding any_choice_sets_def set_choice_fold by fastforce

lemma set_protocol_performatives: "set (protocol_performatives cp) = mentioned cp - {BEGIN_KEYWORD}"
  using set_all_referenced [of cp] unfolding protocol_performatives_def all_referenced_performatives_def .

section \<open>The messages of a thread\<close>

text \<open>Citations of stored messages do not form cycles: what content addressing gives.\<close>

lemma set_closure_fold:
  "set (foldl (\<lambda>hs leaf. foldl (\<lambda>hs h. bs_insert h hs) hs (f leaf)) acc tips) = set acc \<union> (\<Union>leaf \<in> set tips. set (f leaf))"
  by (induction tips arbitrary: acc) (auto simp: set_foldl_bs_insert)

lemma sorted_insert_fold: "bs_sorted acc \<Longrightarrow> bs_sorted (foldl (\<lambda>hs h. bs_insert h hs) acc hs)"
  by (induction hs arbitrary: acc) simp_all

lemma sorted_closure_fold:
  "bs_sorted acc \<Longrightarrow> bs_sorted (foldl (\<lambda>hs leaf. foldl (\<lambda>hs h. bs_insert h hs) hs (f leaf)) acc tips)"
  by (induction tips arbitrary: acc) (simp_all add: sorted_insert_fold)

lemma cites_rel_iff:
  "(a, b) \<in> cites_rel s t \<longleftrightarrow> (\<exists>m. lookup_in_thread s a t = Some m \<and> b \<in> set (caused_refs (caused_by_of m)))"
  by (cases "lookup_in_thread s a t") (auto simp: cites_rel_def cites_def)

lemma leaf_above:
  assumes "wf_store s" "acyclic (cites_rel s t)" "lookup_in_thread s h t \<noteq> None"
  shows "\<exists>leaf \<in> set (frontier s t). (leaf, h) \<in> (cites_rel s t)\<^sup>*"
proof -
  let ?R = "cites_rel s t"
  have "finite {a. lookup_in_thread s a t \<noteq> None}"
    using lookup_in_thread_None [of s _ t] assms(1) by (simp add: wf_store_def)
  then have "finite (SIGMA a : {a. lookup_in_thread s a t \<noteq> None}. set (cites s t a))" by (intro finite_SigmaI) auto
  moreover have "?R \<subseteq> (SIGMA a : {a. lookup_in_thread s a t \<noteq> None}. set (cites s t a))"
    using cites_rel_iff [of _ _ s t] by (auto simp: cites_rel_def)
  ultimately have "finite ?R" by (rule finite_subset [rotated])
  then have "wf ?R" using assms(2) by (rule finite_acyclic_wf)
  then show ?thesis
    using assms(3)
  proof (induction h rule: wf_induct_rule)
    case (less h)
    show ?case
    proof (cases "h \<in> set (frontier s t)")
      case False
      then obtain h' m where "lookup_in_thread s h' t = Some m" "h \<in> set (caused_refs (caused_by_of m))"
        using frontier_iff [OF assms(1), of h t] less.prems by auto
      then have "(h', h) \<in> ?R" "lookup_in_thread s h' t \<noteq> None" by (auto simp: cites_rel_iff)
      then show ?thesis using less.IH by (meson rtrancl.rtrancl_into_rtrancl)
    qed blast
  qed
qed

lemma thread_messages_spec:
  assumes "wf_store s" "acyclic (cites_rel s t)"
  shows "(h, m) \<in> set (thread_messages s t) \<longleftrightarrow> lookup_in_thread s h t = Some m" "distinct (map fst (thread_messages s t))"
proof -
  have reach: "set (closure_hashes s t) = (\<Union>leaf \<in> set (frontier s t). set (causal_closure s leaf t))"
    by (simp add: closure_hashes_def set_closure_fold)
  have "h \<in> set (closure_hashes s t)" if stored: "lookup_in_thread s h t = Some m"
  proof -
    obtain leaf where leaf: "leaf \<in> set (frontier s t)" "(leaf, h) \<in> (cites_rel s t)\<^sup>*"
      using leaf_above [OF assms, of h] stored by auto
    have "lookup_in_thread s leaf t \<noteq> None" using frontier_iff [OF assms(1)] leaf(1) by blast
    then have "h \<in> set (causal_closure s leaf t)" using causal_closure_reach [OF assms(1), of leaf t] leaf(2) by auto
    then show ?thesis using leaf(1) reach by blast
  qed
  then show "(h, m) \<in> set (thread_messages s t) \<longleftrightarrow> lookup_in_thread s h t = Some m"
    by (auto simp: thread_messages_def set_map_filter)
  have d: "distinct (closure_hashes s t)"
    unfolding closure_hashes_def by (intro bs_sorted_distinct sorted_closure_fold) simp
  have "map fst (List.map_filter (\<lambda>h. map_option (Pair h) (lookup_in_thread s h t)) hs) =
      filter (\<lambda>h. lookup_in_thread s h t \<noteq> None) hs" for hs
    by (induction hs) (auto simp: List.map_filter_simps split: option.splits)
  then show "distinct (map fst (thread_messages s t))" using d by (simp add: thread_messages_def)
qed

lemma owned_spec:
  assumes "wf_store s" "acyclic (cites_rel s t)"
  shows "(h, p, m) \<in> set (owned key (thread_messages s t)) \<longleftrightarrow>
      lookup_in_thread s h t = Some m \<and> owned_performative key m = Some p"
    "distinct (map fst (owned key (thread_messages s t)))"
proof -
  show "(h, p, m) \<in> set (owned key (thread_messages s t)) \<longleftrightarrow>
      lookup_in_thread s h t = Some m \<and> owned_performative key m = Some p"
    using thread_messages_spec(1) [OF assms] by (force simp: owned_def set_map_filter)
  have "map fst (owned key ms) = map fst (filter (\<lambda>(h, m). owned_performative key m \<noteq> None) ms)" for ms
    by (induction ms) (auto simp: owned_def List.map_filter_simps split: option.splits)
  then show "distinct (map fst (owned key (thread_messages s t)))"
    using thread_messages_spec(2) [OF assms] by (simp add: distinct_map_filter)
qed

text \<open>The specification: two different stored messages of the key whose performatives conflict.\<close>

definition conflicting_pair ::
  "key_id \<Rightarrow> thread_id \<Rightarrow> threaded_store \<Rightarrow> dialect \<Rightarrow> content_hash \<times> message \<Rightarrow> content_hash \<times> message \<Rightarrow> bool" where
  "conflicting_pair key t s d a b \<longleftrightarrow> fst a \<noteq> fst b \<and>
     lookup_in_thread s (fst a) t = Some (snd a) \<and> lookup_in_thread s (fst b) t = Some (snd b) \<and>
     (\<exists>p q. owned_performative key (snd a) = Some p \<and> owned_performative key (snd b) = Some q \<and> pair_conflicts d p q)"

lemma equivocation_None:
  assumes "wf_store s" "acyclic (cites_rel s t)"
  shows "equivocation key t s d = None \<longleftrightarrow> (\<nexists>a b. conflicting_pair key t s d a b)"
proof (cases "d_causal_protocol d")
  case None
  then show ?thesis by (simp add: equivocation_def conflicting_pair_def pair_conflicts_def)
next
  case (Some cp)
  let ?f = "\<lambda>(_, p1, _) (_, p2, _). conflict_kind (any_choice_sets cp) (protocol_performatives cp) p1 p2"
  let ?P = "\<lambda>x y :: content_hash \<times> string \<times> message. \<not> pair_conflicts d (fst (snd x)) (fst (snd y))"
  have f: "(?f x y = None) = ?P x y" for x y
    using conflict_kind_iff [OF Some, of "fst (snd x)" "fst (snd y)"] by (cases x; cases y) auto
  have sym: "?P x y \<Longrightarrow> ?P y x" for x y using pair_conflicts_sym by blast
  have dist: "sorted_wrt ?P (owned key (thread_messages s t)) \<longleftrightarrow>
      (\<forall>x \<in> set (owned key (thread_messages s t)). \<forall>y \<in> set (owned key (thread_messages s t)). fst x \<noteq> fst y \<longrightarrow> ?P x y)"
    by (rule sorted_wrt_distinct [OF _ owned_spec(2) [OF assms]]) (rule sym)
  have "equivocation key t s d = None \<longleftrightarrow> sorted_wrt ?P (owned key (thread_messages s t))"
    by (simp add: equivocation_def Some first_pair_None f Let_def)
  also have "\<dots> \<longleftrightarrow> (\<nexists>a b. conflicting_pair key t s d a b)"
    unfolding dist conflicting_pair_def Ball_def split_paired_All split_paired_Ex fst_conv snd_conv owned_spec(1) [OF assms]
    by blast
  finally show ?thesis .
qed

lemma equivocation_Some:
  assumes "wf_store s" "acyclic (cites_rel s t)" "equivocation key t s d = Some ev"
  shows "ev_key ev = key \<and> ev_thread ev = t \<and> conflicting_pair key t s d (ev_first ev) (ev_second ev)"
proof -
  obtain cp where cp: "d_causal_protocol d = Some cp" using assms(3) by (cases "d_causal_protocol d") (auto simp: equivocation_def)
  obtain h1 p1 m1 h2 p2 m2 kind where
      pair: "first_pair (\<lambda>(_, p1, _) (_, p2, _). conflict_kind (any_choice_sets cp) (protocol_performatives cp) p1 p2)
        (owned key (thread_messages s t)) = Some ((h1, p1, m1), (h2, p2, m2), kind)" and
      ev: "ev = \<lparr>ev_key = key, ev_thread = t, ev_kind = kind, ev_first = (h1, m1), ev_second = (h2, m2)\<rparr>"
    using assms(3) by (auto simp: equivocation_def cp Let_def)
  have mem: "(h1, p1, m1) \<in> set (owned key (thread_messages s t))" "(h2, p2, m2) \<in> set (owned key (thread_messages s t))"
      "conflict_kind (any_choice_sets cp) (protocol_performatives cp) p1 p2 = Some kind" "h1 \<noteq> h2"
    using first_pair_Some [OF pair owned_spec(2) [OF assms(1,2)]] by simp_all
  then show ?thesis
    using owned_spec(1) [OF assms(1,2)] conflict_kind_iff [OF cp, of p1 p2] by (simp add: ev conflicting_pair_def)
qed

section \<open>What a proof attests\<close>

text \<open>A member attests a performative and a content hash of the key in the thread when a signature that
  covers them verifies.\<close>

definition header_attested :: "signer \<Rightarrow> key_id \<Rightarrow> string \<Rightarrow> attestation_header \<Rightarrow> string \<Rightarrow> bool" where
  "header_attested signer key thread header sig \<longleftrightarrow> h_from header = key \<and> h_thread header = thread \<and>
     key_suite key = Ed25519 \<and> signer_verify signer (attestation_preimage header) sig"

definition opened_attested :: "(string \<Rightarrow> string) \<Rightarrow> signer \<Rightarrow> key_id \<Rightarrow> string \<Rightarrow> opened_envelope \<Rightarrow> bool" where
  "opened_attested sha256 signer key thread env \<longleftrightarrow>
     (\<exists>spelling. opened_from_spelling env = Some spelling \<and> key_id_parse spelling = Inr key) \<and>
     opened_thread env = Some thread \<and> oe_suite env = Ed25519 \<and>
     signer_verify signer (attestation_v3_preimage (oe_suite env) (oe_root env)) (oe_signature env) \<and>
     list_all (\<lambda>op. verify_opening sha256 (oe_root env) (o_field op) (o_value op) op) (oe_openings env)"

definition member_attests ::
  "(string \<Rightarrow> string) \<Rightarrow> signer \<Rightarrow> key_id \<Rightarrow> string \<Rightarrow> proof_member \<Rightarrow> string \<Rightarrow> string \<Rightarrow> bool" where
  "member_attests sha256 signer key thread member p h \<longleftrightarrow> (case member of
       SignedMessage m sig \<Rightarrow> (\<exists>header. attestation_header_for sha256 m = Inr header \<and>
         header_attested signer key thread header sig \<and> p = h_performative header \<and> h = message_content_hash sha256 m)
     | EnvelopeMember env \<Rightarrow> header_attested signer key thread (e_header env) (e_signature env) \<and>
         p = h_performative (e_header env) \<and> h = h_content_hash (e_header env)
     | OpenedMember env \<Rightarrow> opened_attested sha256 signer key thread env \<and>
         opened_performative env = Some p \<and> h = oe_root env)"

lemma check_header_member_iff:
  "check_header_member header sig i pr signer = Inr c \<longleftrightarrow> header_attested signer (pr_key pr) (pr_thread pr) header sig \<and>
     c = \<lparr>cm_performative = h_performative header, cm_content_hash = h_content_hash header\<rparr>"
  by (auto simp: check_header_member_def header_attested_def verify_attestation_v2_def
      split: sum.splits if_splits signature_suite.splits)

lemma check_opened_member_iff:
  "check_opened_member sha256 env i pr signer = Inr c \<longleftrightarrow> opened_attested sha256 signer (pr_key pr) (pr_thread pr) env \<and>
     opened_performative env = Some (cm_performative c) \<and> cm_content_hash c = oe_root env"
proof -
  have v: "verify_opened sha256 env signer = Inr () \<longleftrightarrow> oe_suite env = Ed25519 \<and>
      signer_verify signer (attestation_v3_preimage (oe_suite env) (oe_root env)) (oe_signature env) \<and>
      list_all (\<lambda>op. verify_opening sha256 (oe_root env) (o_field op) (o_value op) op) (oe_openings env)"
    by (auto simp: verify_opened_iff verify_attestation_v3_def split: signature_suite.splits if_splits)
  have c: "\<lparr>cm_performative = p, cm_content_hash = h\<rparr> = c \<longleftrightarrow> p = cm_performative c \<and> h = cm_content_hash c" for p h
    by (cases c) auto
  have "check_opened_member sha256 env i pr signer = Inr c \<longleftrightarrow>
      (\<exists>spelling. opened_from_spelling env = Some spelling \<and> key_id_parse spelling = Inr (pr_key pr)) \<and>
      opened_thread env = Some (pr_thread pr) \<and> verify_opened sha256 env signer = Inr () \<and>
      opened_performative env = Some (cm_performative c) \<and> oe_root env = cm_content_hash c"
    by (auto simp: check_opened_member_def c split: option.splits sum.splits if_splits)
  then show ?thesis unfolding v opened_attested_def by auto
qed

lemma header_content_hash: "attestation_header_for sha256 m = Inr header \<Longrightarrow> h_content_hash header = message_content_hash sha256 m"
  by (auto simp: attestation_header_for_def split: message.splits option.splits sum.splits)

lemma check_member_iff:
  "check_member sha256 member i pr signer = Inr c \<longleftrightarrow>
     member_attests sha256 signer (pr_key pr) (pr_thread pr) member (cm_performative c) (cm_content_hash c)"
proof (cases member)
  case (SignedMessage m sig)
  then show ?thesis
    by (cases c) (auto simp: check_member_def member_attests_def check_header_member_iff header_content_hash split: sum.splits)
next
  case (EnvelopeMember env)
  then show ?thesis by (cases c) (auto simp: check_member_def member_attests_def check_header_member_iff)
next
  case (OpenedMember env)
  then show ?thesis by (auto simp: check_member_def member_attests_def check_opened_member_iff)
qed

lemma verified_iff:
  "verify_equivocation_proof sha256 pr d signer = Inr k \<longleftrightarrow> k = pr_key pr \<and> d_hash d = Some (pr_dialect_hash pr) \<and>
     (\<exists>p1 h1 p2 h2. member_attests sha256 signer (pr_key pr) (pr_thread pr) (pr_first pr) p1 h1 \<and>
        member_attests sha256 signer (pr_key pr) (pr_thread pr) (pr_second pr) p2 h2 \<and>
        h1 \<noteq> h2 \<and> pair_conflicts d p1 p2)"
proof -
  have member: "(\<exists>c. check_member sha256 m i pr signer = Inr c \<and> P (cm_performative c) (cm_content_hash c)) \<longleftrightarrow>
      (\<exists>p h. member_attests sha256 signer (pr_key pr) (pr_thread pr) m p h \<and> P p h)" for m i P
    unfolding check_member_iff by (metis checked_member.select_convs(1,2))
  have "verify_equivocation_proof sha256 pr d signer = Inr k \<longleftrightarrow> d_hash d = Some (pr_dialect_hash pr) \<and>
      (\<exists>a. check_member sha256 (pr_first pr) 0 pr signer = Inr a \<and>
        (\<exists>b. check_member sha256 (pr_second pr) 1 pr signer = Inr b \<and> cm_content_hash a \<noteq> cm_content_hash b \<and>
           pair_conflicts d (cm_performative a) (cm_performative b) \<and> k = pr_key pr))"
    by (auto simp: verify_equivocation_proof_def result_simps split: option.splits if_splits)
  also have "\<dots> \<longleftrightarrow> d_hash d = Some (pr_dialect_hash pr) \<and>
     (\<exists>p1 h1. member_attests sha256 signer (pr_key pr) (pr_thread pr) (pr_first pr) p1 h1 \<and>
       (\<exists>p2 h2. member_attests sha256 signer (pr_key pr) (pr_thread pr) (pr_second pr) p2 h2 \<and> h1 \<noteq> h2 \<and>
          pair_conflicts d p1 p2 \<and> k = pr_key pr))"
    unfolding member [of "pr_second pr" 1 "\<lambda>p h. h' \<noteq> h \<and> pair_conflicts d p' p \<and> k = pr_key pr" for h' p']
    unfolding member [of "pr_first pr" 0 "\<lambda>p h. \<exists>p2 h2. member_attests sha256 signer (pr_key pr) (pr_thread pr) (pr_second pr) p2 h2 \<and>
       h \<noteq> h2 \<and> pair_conflicts d p p2 \<and> k = pr_key pr"] ..
  finally show ?thesis by blast
qed

section \<open>Properties\<close>

text \<open>C19: Detection is exact and permanent. In a store without citation cycles the predicate convicts a key exactly
  when the thread holds two different messages of that key, under any spelling of it, that are two alternatives
  of one choice or two discharges of one obligation; the evidence it returns is such a pair; and no later
  delivery of messages after which the citations of the thread are still acyclic takes a conviction back. (The
  store does not verify hashes: a delivery that closes a cycle can empty the frontier detection starts from.)\<close>

theorem equivocation_exact:
  assumes "store_reachable sha256 s" "acyclic (cites_rel s t)" "acyclic (cites_rel (deliver s xs) t)"
  shows "(equivocation key t s d \<noteq> None \<longleftrightarrow> (\<exists>a b. conflicting_pair key t s d a b)) \<and>
    (\<forall>ev. equivocation key t s d = Some ev \<longrightarrow> ev_key ev = key \<and> ev_thread ev = t \<and>
       conflicting_pair key t s d (ev_first ev) (ev_second ev)) \<and>
    (equivocation key t s d \<noteq> None \<longrightarrow> equivocation key t (deliver s xs) d \<noteq> None)"
proof -
  have wf: "wf_store s" by (rule reachable_wf [OF assms(1)])
  then have wf': "wf_store (deliver s xs)" unfolding deliver_def by (rule threaded.inv_deliver)
  have "conflicting_pair key t (deliver s xs) d a b" if "conflicting_pair key t s d a b" for a b
    using that threaded.lookup_persists [OF wf] unfolding conflicting_pair_def deliver_def by blast
  then show ?thesis
    using equivocation_None [OF wf assms(2)] equivocation_None [OF wf' assms(3)] equivocation_Some [OF wf assms(2)]
    by blast
qed

definition other_tell :: message where
  "other_tell = Simple \<lparr>m_performative = Core Tell, m_recipient = Some (One ''@b''), m_content = Atom (Num 8), m_params = [],
     m_thread = Some ''t'', m_sender = Some ''@ed25519:a'', m_caused_by = Some Begin\<rparr>"

definition telling_dialect :: dialect where
  "telling_dialect = base_dialect\<lparr>d_causal_protocol := Some sample_protocol\<rparr>"

lemma no_citations:
  assumes "consistent_entries xs" "\<forall>(h, t, m) \<in> set xs. caused_refs (caused_by_of m) = []"
  shows "acyclic (cites_rel (deliver new_store xs) t)"
proof -
  have none: "lookup_in_thread new_store h t = None" for h t
    by (simp add: lookup_in_thread_def new_store_def hi_lookup_def)
  have "cites_rel (deliver new_store xs) t = {}"
    using assms(2) threaded.deliver_lookup [OF wf_new_store assms(1), folded deliver_def]
    by (force simp: cites_rel_iff none)
  then show ?thesis by (simp add: acyclic_def)
qed

theorem equivocation_exact_witness:
  "equivocation (KeyId Ed25519 ''a'') ''t'' (deliver new_store [(''h1'', ''t'', sample_tell), (''h2'', ''t'', other_tell)])
     telling_dialect \<noteq> None"
proof -
  let ?xs = "[(''h1'', ''t'', sample_tell), (''h2'', ''t'', other_tell)]"
  let ?s = "deliver new_store ?xs"
  have acyc: "acyclic (cites_rel ?s ''t'')"
    by (rule no_citations) (auto simp: consistent_entries_def caused_refs_def sample_tell_def other_tell_def caused_by_of_def)
  have reach: "store_reachable head32 ?s" by (rule reachable_deliver) simp
  have "lookup_in_thread ?s ''h1'' ''t'' = Some sample_tell" "lookup_in_thread ?s ''h2'' ''t'' = Some other_tell" by code_simp+
  moreover have "owned_performative (KeyId Ed25519 ''a'') sample_tell = Some ''tell''"
      "owned_performative (KeyId Ed25519 ''a'') other_tell = Some ''tell''" by code_simp+
  moreover have "pair_conflicts telling_dialect ''tell'' ''tell''" by code_simp
  ultimately have "conflicting_pair (KeyId Ed25519 ''a'') ''t'' ?s telling_dialect (''h1'', sample_tell) (''h2'', other_tell)"
    by (simp add: conflicting_pair_def)
  then show ?thesis
    using equivocation_exact [OF reach acyc, of "[]" "KeyId Ed25519 ''a''" telling_dialect] acyc
    by (auto simp: deliver_def)
qed

text \<open>C20: A transferable proof convicts exactly on authentic evidence: it is accepted exactly when the verifier's
  dialect is the pinned one, each of the two members, whichever of the three forms it takes, carries a
  verifying signature of the accused key over a performative, the thread and a content hash, the
  two hashes differ and the performatives conflict; and the key convicted is the accused one.\<close>

theorem proof_verification_exact:
  "verify_equivocation_proof sha256 pr d signer = Inr k \<longleftrightarrow> k = pr_key pr \<and> d_hash d = Some (pr_dialect_hash pr) \<and>
     (\<exists>p1 h1 p2 h2. member_attests sha256 signer (pr_key pr) (pr_thread pr) (pr_first pr) p1 h1 \<and>
        member_attests sha256 signer (pr_key pr) (pr_thread pr) (pr_second pr) p2 h2 \<and>
        h1 \<noteq> h2 \<and> pair_conflicts d p1 p2)"
  by (rule verified_iff)

text \<open>Messages keep their base name on the wire while the copies of a repeated step have synthesised names, so a
  performative that occurs only in repeated steps never conflicts: two different messages of one key for the same
  copy, or for two alternatives of a repeated choice, are not detected.\<close>

lemma repeated_step_never_conflicts:
  assumes "d_causal_protocol d = Some cp" "p \<notin> mentioned cp"
  shows "\<not> pair_conflicts d p q" "\<not> pair_conflicts d q p"
proof -
  have "p \<notin> set alts" if "alts \<in> set (any_choice_sets cp)" for alts
  proof
    assume "p \<in> set alts"
    with that obtain name step ss where m: "(name, step) \<in> set (steps cp)" "NAny ss \<in> set (predecessors step @ successors step)" "p \<in> set ss"
      by (force simp: set_any_choice_sets)
    have "p \<in> step_mentions name step"
      using m(2,3) performatives_of_def [of "NAny ss"] by (auto simp: step_mentions_def intro: bexI [of _ "NAny ss"])
    then have "p \<in> mentioned cp" using m(1) unfolding mentioned_def by blast
    then show False using assms(2) by blast
  qed
  then show "\<not> pair_conflicts d p q" "\<not> pair_conflicts d q p"
    using assms by (auto simp: pair_conflicts_def list_ex_iff set_protocol_performatives)
qed

text \<open>A proof over two signed messages is the packaged form of store evidence: when it is accepted and a store of the
  same thread holds the two messages under their content hashes, detection convicts the key too.\<close>

lemma header_owned:
  assumes "attestation_header_for sha256 m = Inr header"
  shows "owned_performative (h_from header) m = Some (h_performative header)"
  using assms
  by (auto simp: attestation_header_for_def owned_performative_def sender_of_def performative_of_def
      split: message.splits option.splits sum.splits)

lemma proof_confirmed_by_store:
  assumes "verify_equivocation_proof sha256 pr d signer = Inr k" "pr_first pr = SignedMessage m1 sig1" "pr_second pr = SignedMessage m2 sig2"
    "store_reachable sha256 s" "acyclic (cites_rel s (pr_thread pr))"
    "lookup_in_thread s (message_content_hash sha256 m1) (pr_thread pr) = Some m1"
    "lookup_in_thread s (message_content_hash sha256 m2) (pr_thread pr) = Some m2"
  shows "equivocation k (pr_thread pr) s d \<noteq> None"
proof -
  obtain p1 h1 p2 h2 where v: "k = pr_key pr" "member_attests sha256 signer (pr_key pr) (pr_thread pr) (pr_first pr) p1 h1"
      "member_attests sha256 signer (pr_key pr) (pr_thread pr) (pr_second pr) p2 h2" "h1 \<noteq> h2" "pair_conflicts d p1 p2"
    using assms(1) unfolding verified_iff by blast
  then have "conflicting_pair k (pr_thread pr) s d (h1, m1) (h2, m2)"
    using assms(6,7) header_owned by (fastforce simp: conflicting_pair_def assms(2,3) member_attests_def header_attested_def)
  then show ?thesis using equivocation_None [OF reachable_wf [OF assms(4)] assms(5)] by blast
qed

lemma all_annotations_iff: "all_annotations anns as = Some rs \<longleftrightarrow> map (bt_get anns) as = map Some rs"
  by (induction as arbitrary: rs) (auto split: option.splits simp: Cons_eq_map_conv)

lemma set_common_recipients: "anns \<noteq> [] \<Longrightarrow> set (common_recipients anns) = (\<Inter>ann \<in> set anns. set (ann_to ann))"
proof (induction anns rule: rev_induct)
  case (snoc a anns)
  then show ?case by (cases anns) (auto simp: common_recipients_def)
qed simp

lemma single_sender: "bs_of_list xs = [c] \<longleftrightarrow> set xs = {c}"
proof
  show "bs_of_list xs = [c] \<Longrightarrow> set xs = {c}" using set_bs_of_list [of xs] by simp
  assume "set xs = {c}"
  then have "set (bs_of_list xs) = set [c]" "bs_sorted [c]" by (simp_all add: bs_sorted_def)
  then show "bs_of_list xs = [c]" using bs_sorted_eqI [of "bs_of_list xs" "[c]"] by simp
qed

text \<open>The lint warns of a choice exactly when all its alternatives are annotated with one sender and share no
  recipient but that sender.\<close>

lemma lint_choice_exact:
  assumes "alts \<noteq> []"
  shows "lint_choice d alts = Some w \<longleftrightarrow> tw_alternatives w = alts \<and>
    (\<exists>anns. map (bt_get (annotations d)) alts = map Some anns \<and> ann_from ` set anns = {tw_chooser w} \<and>
       (\<Inter>ann \<in> set anns. set (ann_to ann)) \<subseteq> {tw_chooser w})"
proof -
  have w: "\<lparr>tw_alternatives = alts, tw_chooser = c\<rparr> = w \<longleftrightarrow> tw_alternatives w = alts \<and> tw_chooser w = c" for c by (cases w) auto
  have one: "(case bs_of_list (map ann_from anns) of
        [chooser] \<Rightarrow> if filter (\<lambda>r. r \<noteq> chooser) (common_recipients anns) = []
          then Some \<lparr>tw_alternatives = alts, tw_chooser = chooser\<rparr> else None
      | _ \<Rightarrow> None) = Some w \<longleftrightarrow> tw_alternatives w = alts \<and> ann_from ` set anns = {tw_chooser w} \<and>
        (\<Inter>ann \<in> set anns. set (ann_to ann)) \<subseteq> {tw_chooser w}" if "anns \<noteq> []" for anns
    using single_sender [of "map ann_from anns" "tw_chooser w"] set_common_recipients [OF that]
    by (auto simp: w filter_empty_conv split: list.splits if_splits)
  show ?thesis
  proof (cases "all_annotations (annotations d) alts")
    case None
    then show ?thesis using all_annotations_iff [of "annotations d" alts] by (auto simp: lint_choice_def)
  next
    case (Some anns)
    then have eq: "map (bt_get (annotations d)) alts = map Some anns" by (simp add: all_annotations_iff)
    then have "anns \<noteq> []" using assms by auto
    have "map Some rs = map Some anns \<longleftrightarrow> rs = anns" for rs :: "role_annotation list" by (simp add: inj_map_eq_map)
    then show ?thesis using one [OF \<open>anns \<noteq> []\<close>] by (auto simp: lint_choice_def Some eq)
  qed
qed

end
