(* ===== verification/Cbcl_Gossip.thy ===== *)
theory Cbcl_Gossip
  imports Complex_Main "HOL-Library.Multiset" Cbcl_Store Cbcl_Dialect
begin

text \<open>
  Epidemic propagation of dialects (\<open>cbcl-core/src/gossip.rs\<close>): the network with its topology, the
  propagations with their seeded generator, reception, peer selection and the simulation. The
  generator's draws are fractions of \<open>2\<^sup>3\<^sup>1\<close>, exact as doubles, so probabilities are rationals here (the
  default \<open>4 / 5\<close> stands for the double nearest to it);
  the estimate of the convergence time, which is floating-point arithmetic only, is left out.
  \<^const>\<open>None\<close> is a panic of the source or a simulation that does not end; reachable networks have neither.
\<close>

section \<open>The network\<close>

datatype topology_kind = FullyConnected | Ring | Random rat

record gossip_config =
  transmission_probability :: rat
  max_rounds :: u32
  topology_of :: topology_kind

record propagation =
  pg_dialect :: dialect
  infected :: "string btset"
  susceptible :: "string btset"
  pg_round :: u32
  transmission_prob :: rat

record gossip_stats =
  total_rounds :: u64
  successful_propagations :: u64
  failed_propagations :: u64

type_synonym links = "(string, string btset) btmap"

record network =
  gn_agents :: "(string, string btset) btmap"
  gn_topology :: links
  gn_active :: "(string, propagation) btmap"
  gn_stats :: gossip_stats
  gn_config :: gossip_config
  gn_rng :: u64

definition default_config :: gossip_config where
  "default_config = \<lparr>transmission_probability = 4 / 5, max_rounds = 100, topology_of = FullyConnected\<rparr>"

definition network_new :: "gossip_config \<Rightarrow> u64 \<Rightarrow> network" where
  "network_new config seed = \<lparr>gn_agents = [], gn_topology = [], gn_active = [],
     gn_stats = \<lparr>total_rounds = 0, successful_propagations = 0, failed_propagations = 0\<rparr>,
     gn_config = config, gn_rng = seed\<rparr>"

definition with_defaults :: network where
  "with_defaults = network_new default_config 1234567"

text \<open>The linear congruential generator.\<close>

definition next_seed :: "u64 \<Rightarrow> u64" where
  "next_seed seed = (seed * 1103515245 + 12345) mod 2147483648"

definition draw :: "u64 \<Rightarrow> rat" where
  "draw seed = of_nat (unat seed) / 2147483648"

definition is_complete :: "propagation \<Rightarrow> bool" where
  "is_complete p \<longleftrightarrow> susceptible p = []"

definition pg_coverage :: "propagation \<Rightarrow> rat" where
  "pg_coverage p = (let total = length (infected p) + length (susceptible p)
     in if total = 0 then 1 else of_nat (length (infected p)) / of_nat total)"

section \<open>Agents and topology\<close>

definition insert_neighbor :: "string \<Rightarrow> string \<Rightarrow> links \<Rightarrow> links option" where
  "insert_neighbor ag n topo = map_option (\<lambda>ns. bt_insert ag (bs_insert n ns) topo) (bt_get topo ag)"

definition link :: "string \<Rightarrow> string \<Rightarrow> links \<Rightarrow> links option" where
  "link new ag topo = Option.bind (insert_neighbor new ag topo) (insert_neighbor ag new)"

fun link_all :: "string \<Rightarrow> string list \<Rightarrow> links \<Rightarrow> links option" where
  "link_all new [] topo = Some topo"
| "link_all new (ag # ids) topo =
     (if ag = new then link_all new ids topo else Option.bind (link new ag topo) (link_all new ids))"

fun link_random :: "rat \<Rightarrow> string \<Rightarrow> string list \<Rightarrow> links \<Rightarrow> u64 \<Rightarrow> (links \<times> u64) option" where
  "link_random p new [] topo seed = Some (topo, seed)"
| "link_random p new (ag # ids) topo seed =
     (if ag = new then link_random p new ids topo seed
      else let seed' = next_seed seed
        in if draw seed' < p then Option.bind (link new ag topo) (\<lambda>topo'. link_random p new ids topo' seed')
           else link_random p new ids topo seed')"

definition update_topology :: "string \<Rightarrow> network \<Rightarrow> network option" where
  "update_topology new net = (let all_ids = bt_keys (gn_agents net) in
     case topology_of (gn_config net) of
       FullyConnected \<Rightarrow> map_option (\<lambda>topo. net\<lparr>gn_topology := topo\<rparr>) (link_all new all_ids (gn_topology net))
     | Ring \<Rightarrow>
         if 1 < length all_ids
         then (let others = filter (\<lambda>ag. ag \<noteq> new) all_ids
               in map_option (\<lambda>topo. net\<lparr>gn_topology := topo\<rparr>)
                    (link_all new (take (min (length others) 2) others) (gn_topology net)))
         else Some net
     | Random p \<Rightarrow> map_option (\<lambda>(topo, seed). net\<lparr>gn_topology := topo, gn_rng := seed\<rparr>)
         (link_random p new all_ids (gn_topology net) (gn_rng net)))"

definition add_agent :: "string \<Rightarrow> network \<Rightarrow> (network \<times> bool) option" where
  "add_agent ag net =
     (if bt_contains_key (gn_agents net) ag then Some (net, False)
      else map_option (\<lambda>net'. (net', True))
        (update_topology ag (net\<lparr>gn_agents := bt_insert ag [] (gn_agents net),
           gn_topology := bt_insert ag [] (gn_topology net)\<rparr>)))"

definition bs_without :: "string \<Rightarrow> string btset \<Rightarrow> string btset" where
  "bs_without x s = filter (\<lambda>y. y \<noteq> x) s"

definition remove_agent :: "string \<Rightarrow> network \<Rightarrow> network \<times> bool" where
  "remove_agent ag net =
     (if \<not> bt_contains_key (gn_agents net) ag then (net, False)
      else (net\<lparr>gn_agents := bt_remove ag (gn_agents net),
        gn_topology := map (\<lambda>(k, ns). (k, bs_without ag ns)) (bt_remove ag (gn_topology net)),
        gn_active := map (\<lambda>(k, p). (k, p\<lparr>infected := bs_without ag (infected p),
          susceptible := bs_without ag (susceptible p)\<rparr>)) (gn_active net)\<rparr>, True))"

definition agent_has_dialect :: "network \<Rightarrow> string \<Rightarrow> string \<Rightarrow> bool" where
  "agent_has_dialect net ag name = (case bt_get (gn_agents net) ag of Some ds \<Rightarrow> name \<in> set ds | None \<Rightarrow> False)"

section \<open>Propagation\<close>

definition mark_installed :: "string \<Rightarrow> string \<Rightarrow> (string, string btset) btmap \<Rightarrow> (string, string btset) btmap" where
  "mark_installed ag name as = (case bt_get as ag of
       Some ds \<Rightarrow> bt_insert ag (bs_insert name ds) as | None \<Rightarrow> as)"

definition announce_dialect :: "dialect \<Rightarrow> string \<Rightarrow> network \<Rightarrow> network \<times> string option" where
  "announce_dialect d ag net =
     (if \<not> bt_contains_key (gn_agents net) ag \<or> bt_contains_key (gn_active net) (d_name d) then (net, None)
      else (net\<lparr>gn_agents := mark_installed ag (d_name d) (gn_agents net),
        gn_active := bt_insert (d_name d) \<lparr>pg_dialect = d, infected = [ag],
          susceptible = filter (\<lambda>k. k \<noteq> ag) (bt_keys (gn_agents net)), pg_round = 0,
          transmission_prob = transmission_probability (gn_config net)\<rparr> (gn_active net)\<rparr>, Some (d_name d)))"

fun attempts :: "string btset \<Rightarrow> rat \<Rightarrow> string list \<Rightarrow> u64 \<times> string list \<Rightarrow> u64 \<times> string list" where
  "attempts susc prob [] acc = acc"
| "attempts susc prob (n # ns) (seed, newly) =
     (if n \<in> set susc
      then (let seed' = next_seed seed
            in attempts susc prob ns (seed', if draw seed' < prob then newly @ [n] else newly))
      else attempts susc prob ns (seed, newly))"

definition infections :: "links \<Rightarrow> propagation \<Rightarrow> u64 \<Rightarrow> u64 \<times> string list" where
  "infections topo p seed =
     foldl (\<lambda>acc ag. attempts (susceptible p) (transmission_prob p)
       (case bt_get topo ag of Some ns \<Rightarrow> ns | None \<Rightarrow> []) acc) (seed, []) (infected p)"

definition infect :: "string list \<Rightarrow> propagation \<Rightarrow> propagation" where
  "infect newly p = foldl (\<lambda>p ag. p\<lparr>infected := bs_insert ag (infected p), susceptible := bs_without ag (susceptible p)\<rparr>) p newly"

definition step_propagation :: "string \<Rightarrow> network \<Rightarrow> network \<times> string list" where
  "step_propagation name net = (case bt_get (gn_active net) name of
       None \<Rightarrow> (net, [])
     | Some p \<Rightarrow> (case infections (gn_topology net) p (gn_rng net) of
           (seed, newly) \<Rightarrow> (net\<lparr>gn_rng := seed,
             gn_active := bt_insert name ((infect newly p)\<lparr>pg_round := pg_round p + 1\<rparr>) (gn_active net),
             gn_agents := foldl (\<lambda>as ag. mark_installed ag name as) (gn_agents net) newly\<rparr>, newly)))"

definition finished :: "u32 \<Rightarrow> propagation \<Rightarrow> bool" where
  "finished limit p \<longleftrightarrow> susceptible p = [] \<or> limit \<le> pg_round p"

definition count_finished :: "gossip_stats \<Rightarrow> string \<times> propagation \<Rightarrow> gossip_stats" where
  "count_finished st np = (if susceptible (snd np) = []
     then st\<lparr>successful_propagations := successful_propagations st + 1\<rparr>
     else st\<lparr>failed_propagations := failed_propagations st + 1\<rparr>)"

definition cleanup :: "network \<Rightarrow> network" where
  "cleanup net = (let limit = max_rounds (gn_config net); gone = filter (\<lambda>(_, p). finished limit p) (gn_active net)
     in net\<lparr>gn_active := foldl (\<lambda>act np. bt_remove (fst np) act) (gn_active net) gone,
          gn_stats := foldl count_finished (gn_stats net) gone\<rparr>)"

definition gossip_step :: "network \<Rightarrow> network \<times> (string \<times> string list) list" where
  "gossip_step net =
     (case foldl (\<lambda>(net, results) name. case step_propagation name net of
          (net', newly) \<Rightarrow> (net', if newly = [] then results else results @ [(name, newly)]))
        (net, []) (bt_keys (gn_active net)) of
      (net', results) \<Rightarrow> (let net2 = cleanup net'
        in (net2\<lparr>gn_stats := (gn_stats net2)\<lparr>total_rounds := total_rounds (gn_stats net2) + 1\<rparr>\<rparr>, results)))"

section \<open>Reception and peers\<close>

definition gossip_violations :: "dialect \<Rightarrow> string list" where
  "gossip_violations d =
     (if verify_r1_dialect d then [] else r1_violations d) @
     (if verify_r2 d then [] else [''R2 violation: invalid resource bounds in '' @ quoted (d_name d)]) @
     (if verify_r3 d then [] else map (\<lambda>v. ''R3 violation: '' @ v) (r3_violations d))"

definition receive_gossip :: "string \<Rightarrow> dialect \<Rightarrow> network \<Rightarrow> (string list, network) result" where
  "receive_gossip ag d net =
     (if gossip_violations d \<noteq> [] then Inl (gossip_violations d)
      else Inr (net\<lparr>gn_agents := mark_installed ag (d_name d) (gn_agents net),
        gn_active := (case bt_get (gn_active net) (d_name d) of
            Some p \<Rightarrow> bt_insert (d_name d) (p\<lparr>susceptible := bs_without ag (susceptible p),
              infected := bs_insert ag (infected p)\<rparr>) (gn_active net)
          | None \<Rightarrow> gn_active net)\<rparr>))"

definition swap_at :: "'a list \<Rightarrow> nat \<Rightarrow> nat \<Rightarrow> 'a list" where
  "swap_at xs i j = xs[i := xs ! j, j := xs ! i]"

text \<open>The shuffle from index \<open>i\<close> down to 1.\<close>

fun shuffle_from :: "nat \<Rightarrow> 'a list \<Rightarrow> u64 \<Rightarrow> 'a list \<times> u64" where
  "shuffle_from 0 xs seed = (xs, seed)"
| "shuffle_from (Suc i) xs seed =
     (let seed' = next_seed seed; j = min (unat seed' * (Suc i + 1) div 2147483648) (Suc i)
      in shuffle_from i (swap_at xs (Suc i) j) seed')"

definition select_peers :: "string \<Rightarrow> nat \<Rightarrow> network \<Rightarrow> network \<times> string list" where
  "select_peers ag k net = (case bt_get (gn_topology net) ag of
       None \<Rightarrow> (net, [])
     | Some ns \<Rightarrow>
         if length ns \<le> k then (net, ns)
         else (case shuffle_from (length ns - 1) ns (gn_rng net) of
             (shuffled, seed) \<Rightarrow> (net\<lparr>gn_rng := seed\<rparr>, take k shuffled)))"

section \<open>Connectivity and simulation\<close>

definition all_neighbors :: "links \<Rightarrow> string set" where
  "all_neighbors topo = (\<Union>ns \<in> snd ` set topo. set ns)"

text \<open>The work list is a stack; its top is the head of the list here.\<close>

definition push_unvisited :: "string btset \<Rightarrow> string list \<Rightarrow> string list \<Rightarrow> string list" where
  "push_unvisited visited ns stack = foldl (\<lambda>q n. if n \<in> set visited then q else n # q) stack ns"

lemma set_push_unvisited: "set (push_unvisited v ns q) = set q \<union> (set ns - set v)"
  unfolding push_unvisited_def by (induction ns arbitrary: q) auto

lemma neighbors_known: "bt_get topo c = Some ns \<Longrightarrow> set ns \<subseteq> all_neighbors topo"
  unfolding all_neighbors_def by (force dest: map_of_SomeD)

function connect_loop :: "links \<Rightarrow> string list \<Rightarrow> string btset \<Rightarrow> string btset" where
  "connect_loop topo [] visited = visited"
| "connect_loop topo (c # stack) visited =
     (if c \<in> set visited then connect_loop topo stack visited
      else connect_loop topo (push_unvisited (bs_insert c visited)
             (case bt_get topo c of Some ns \<Rightarrow> ns | None \<Rightarrow> []) stack) (bs_insert c visited))"
  by pat_completeness auto
termination
proof (relation "measures [\<lambda>(topo, stack, visited). unseen (all_neighbors topo) stack visited, \<lambda>(_, stack, _). length stack]")
  fix topo c stack and visited :: "string btset"
  have fin: "finite (all_neighbors topo)" by (simp add: all_neighbors_def)
  show "((topo, stack, visited), topo, c # stack, visited) \<in>
      measures [\<lambda>(topo, stack, visited). unseen (all_neighbors topo) stack visited, \<lambda>(_, stack, _). length stack]"
    using unseen_pop [OF fin, of stack visited c] by auto
  assume new: "c \<notin> set visited"
  have "set (push_unvisited (bs_insert c visited) (case bt_get topo c of Some ns \<Rightarrow> ns | None \<Rightarrow> []) stack) \<subseteq> all_neighbors topo \<union> set stack"
    using neighbors_known [of topo c] by (cases "bt_get topo c") (auto simp: set_push_unvisited)
  from unseen_visit [OF fin new this]
  show "((topo, push_unvisited (bs_insert c visited) (case bt_get topo c of Some ns \<Rightarrow> ns | None \<Rightarrow> []) stack, bs_insert c visited),
      topo, c # stack, visited) \<in>
      measures [\<lambda>(topo, stack, visited). unseen (all_neighbors topo) stack visited, \<lambda>(_, stack, _). length stack]"
    by simp
qed simp

definition is_connected :: "network \<Rightarrow> bool" where
  "is_connected net = (case bt_keys (gn_agents net) of
       [] \<Rightarrow> True
     | start # _ \<Rightarrow> length (connect_loop (gn_topology net) [start] []) = length (gn_agents net))"




section \<open>Reachable networks\<close>

text \<open>The transitions of a network beside the receipts for strangers: the pairs of a name that was no agent of
  the network and the dialect that gossip was received for it under.\<close>

type_synonym receipts = "(string \<times> string) set"

definition stranger_receipt :: "string \<Rightarrow> dialect \<Rightarrow> network \<Rightarrow> receipts" where
  "stranger_receipt ag d net = (if bt_contains_key (gn_agents net) ag then {} else {(ag, d_name d)})"

inductive gossip_trans :: "network \<times> receipts \<Rightarrow> network \<times> receipts \<Rightarrow> bool" where
  gt_add: "add_agent ag net = Some (net', b) \<Longrightarrow> gossip_trans (net, out) (net', out)"
| gt_remove: "gossip_trans (net, out) (fst (remove_agent ag net), out)"
| gt_announce: "gossip_trans (net, out) (fst (announce_dialect d ag net), out)"
| gt_step: "gossip_trans (net, out) (fst (gossip_step net), out)"
| gt_receive: "receive_gossip ag d net = Inr net' \<Longrightarrow> gossip_trans (net, out) (net', out \<union> stranger_receipt ag d net)"
| gt_select: "gossip_trans (net, out) (fst (select_peers ag k net), out)"

inductive_cases gossip_transE: "gossip_trans (net, out) (net', out')"

definition linked :: "links \<Rightarrow> string \<Rightarrow> string \<Rightarrow> bool" where
  "linked topo a b \<longleftrightarrow> (\<exists>ns. bt_get topo a = Some ns \<and> b \<in> set ns)"

text \<open>The topology is a simple undirected graph over the agents.\<close>

definition topo_ok :: "network \<Rightarrow> bool" where
  "topo_ok net \<longleftrightarrow> dom (bt_get (gn_topology net)) = dom (bt_get (gn_agents net)) \<and>
     (\<forall>a b. linked (gn_topology net) a b \<longrightarrow> a \<noteq> b \<and> linked (gn_topology net) b a)"

text \<open>No agent is infected and susceptible at once, and whoever is infected has the dialect or is a stranger that received it.\<close>

definition prop_ok :: "receipts \<Rightarrow> network \<Rightarrow> string \<Rightarrow> propagation \<Rightarrow> bool" where
  "prop_ok out net name p \<longleftrightarrow> d_name (pg_dialect p) = name \<and> set (infected p) \<inter> set (susceptible p) = {} \<and>
     set (susceptible p) \<subseteq> dom (bt_get (gn_agents net)) \<and> (\<forall>a \<in> set (infected p). agent_has_dialect net a name \<or> (a, name) \<in> out)"

definition round_ok :: "network \<Rightarrow> propagation \<Rightarrow> bool" where
  "round_ok net p \<longleftrightarrow> pg_round p = 0 \<or> pg_round p < max_rounds (gn_config net)"

definition gossip_inv :: "receipts \<Rightarrow> network \<Rightarrow> bool" where
  "gossip_inv out net \<longleftrightarrow> bt_sorted (gn_agents net) \<and> bt_sorted (gn_active net) \<and> topo_ok net \<and>
     (\<forall>name p. bt_get (gn_active net) name = Some p \<longrightarrow> prop_ok out net name p)"

definition rounds_inv :: "network \<Rightarrow> bool" where
  "rounds_inv net \<longleftrightarrow> (\<forall>name p. bt_get (gn_active net) name = Some p \<longrightarrow> round_ok net p)"

lemma bs_without_set [simp]: "set (bs_without x s) = set s - {x}"
  by (auto simp: bs_without_def)

lemma insert_neighbor_Some:
  "bt_get topo a = Some ns \<Longrightarrow> \<exists>topo'. insert_neighbor a n topo = Some topo' \<and> dom (bt_get topo') = dom (bt_get topo) \<and>
     (\<forall>x y. linked topo' x y \<longleftrightarrow> linked topo x y \<or> x = a \<and> y = n)"
  by (auto simp: insert_neighbor_def linked_def)

lemma link_Some:
  assumes "a \<in> dom (bt_get topo)" "b \<in> dom (bt_get topo)"
  shows "\<exists>topo'. link a b topo = Some topo' \<and> dom (bt_get topo') = dom (bt_get topo) \<and>
    (\<forall>x y. linked topo' x y \<longleftrightarrow> linked topo x y \<or> x = a \<and> y = b \<or> x = b \<and> y = a)"
proof -
  obtain t1 where t1: "insert_neighbor a b topo = Some t1" "dom (bt_get t1) = dom (bt_get topo)"
      "\<forall>x y. linked t1 x y \<longleftrightarrow> linked topo x y \<or> x = a \<and> y = b"
    using insert_neighbor_Some [of topo a _ b] assms(1) by fast
  obtain t2 where t2: "insert_neighbor b a t1 = Some t2" "dom (bt_get t2) = dom (bt_get t1)"
      "\<forall>x y. linked t2 x y \<longleftrightarrow> linked t1 x y \<or> x = b \<and> y = a"
    using insert_neighbor_Some [of t1 b _ a] assms(2) t1(2) by fast
  have l: "link a b topo = Some t2" by (simp add: link_def t1(1) t2(1))
  have e: "linked t2 x y \<longleftrightarrow> linked topo x y \<or> x = a \<and> y = b \<or> x = b \<and> y = a" for x y
    using t1(3) t2(3) by simp
  show ?thesis unfolding l using t1(2) t2(2) by (intro exI [of _ t2]) (simp add: e)
qed

definition simple_links :: "links \<Rightarrow> bool" where
  "simple_links topo \<longleftrightarrow> (\<forall>a b. linked topo a b \<longrightarrow> a \<noteq> b \<and> linked topo b a)"

lemma link_simple:
  assumes "simple_links topo" "a \<in> dom (bt_get topo)" "b \<in> dom (bt_get topo)" "a \<noteq> b"
  shows "\<exists>topo'. link a b topo = Some topo' \<and> dom (bt_get topo') = dom (bt_get topo) \<and> simple_links topo'"
  using link_Some [OF assms(2,3)] assms(1,4) unfolding simple_links_def by metis

lemma link_all_simple:
  "simple_links topo \<Longrightarrow> new \<in> dom (bt_get topo) \<Longrightarrow> set ids \<subseteq> dom (bt_get topo) \<Longrightarrow>
     \<exists>topo'. link_all new ids topo = Some topo' \<and> dom (bt_get topo') = dom (bt_get topo) \<and> simple_links topo'"
proof (induction ids arbitrary: topo)
  case (Cons i ids)
  show ?case
  proof (cases "i = new")
    case False
    then obtain t where "link new i topo = Some t" "dom (bt_get t) = dom (bt_get topo)" "simple_links t"
      using link_simple [of topo new i] Cons.prems by auto
    then show ?thesis using Cons.IH [of t] Cons.prems False by auto
  qed (use Cons in auto)
qed simp

lemma link_random_simple:
  "simple_links topo \<Longrightarrow> new \<in> dom (bt_get topo) \<Longrightarrow> set ids \<subseteq> dom (bt_get topo) \<Longrightarrow>
     \<exists>topo' seed'. link_random p new ids topo seed = Some (topo', seed') \<and> dom (bt_get topo') = dom (bt_get topo) \<and> simple_links topo'"
proof (induction ids arbitrary: topo seed)
  case (Cons i ids)
  show ?case
  proof (cases "i = new \<or> \<not> draw (next_seed seed) < p")
    case True
    then show ?thesis using Cons by (auto simp: Let_def)
  next
    case False
    then obtain t where "link new i topo = Some t" "dom (bt_get t) = dom (bt_get topo)" "simple_links t"
      using link_simple [of topo new i] Cons.prems by auto
    then show ?thesis using Cons.IH [of t "next_seed seed"] Cons.prems False by (auto simp: Let_def)
  qed
qed simp

lemma update_topology_ok:
  assumes "topo_ok net" "bt_contains_key (gn_agents net) new"
  shows "\<exists>net'. update_topology new net = Some net' \<and> topo_ok net' \<and> gn_agents net' = gn_agents net \<and>
    gn_active net' = gn_active net \<and> gn_config net' = gn_config net"
proof -
  let ?ids = "bt_keys (gn_agents net)"
  have s: "simple_links (gn_topology net)" "dom (bt_get (gn_topology net)) = set ?ids" "new \<in> set ?ids"
    using assms by (auto simp: topo_ok_def simple_links_def dom_map_of_conv_image_fst bt_contains_key_def map_of_eq_None_iff)
  have all: "\<exists>topo'. link_all new ids (gn_topology net) = Some topo' \<and> dom (bt_get topo') = set ?ids \<and> simple_links topo'"
    if "set ids \<subseteq> set ?ids" for ids
    using link_all_simple [OF s(1)] s(2,3) that by simp
  have one: "\<exists>topo'. link_all new ?ids (gn_topology net) = Some topo' \<and> dom (bt_get topo') = set ?ids \<and> simple_links topo'"
    using all by blast
  have two: "\<exists>topo'. link_all new (take n (filter (\<lambda>ag. ag \<noteq> new) ?ids)) (gn_topology net) = Some topo' \<and>
      dom (bt_get topo') = set ?ids \<and> simple_links topo'" for n
    by (rule all) (auto dest: in_set_takeD)
  have three: "\<exists>topo' seed'. link_random p new ?ids (gn_topology net) (gn_rng net) = Some (topo', seed') \<and>
      dom (bt_get topo') = set ?ids \<and> simple_links topo'" for p
    using link_random_simple [OF s(1)] s(2,3) by simp
  have ok: "topo_ok (net\<lparr>gn_topology := topo'\<rparr>)" "topo_ok (net\<lparr>gn_topology := topo', gn_rng := seed\<rparr>)"
    if "dom (bt_get topo') = set ?ids" "simple_links topo'" for topo' seed
    using that by (simp_all add: topo_ok_def simple_links_def dom_map_of_conv_image_fst)
  show ?thesis
  proof (cases "topology_of (gn_config net)")
    case FullyConnected
    then show ?thesis using one ok(1) by (auto simp: update_topology_def Let_def)
  next
    case Ring
    then show ?thesis
      using two [of "min (length (filter (\<lambda>ag. ag \<noteq> new) ?ids)) 2"] ok(1) assms(1) by (auto simp: update_topology_def Let_def)
  next
    case (Random p)
    then show ?thesis using three [of p] ok(2) by (auto simp: update_topology_def Let_def)
  qed
qed

section \<open>Preservation\<close>

lemma add_agent_ok:
  assumes "gossip_inv out net"
  shows "\<exists>net' b. add_agent ag net = Some (net', b) \<and> gossip_inv out net' \<and> gn_active net' = gn_active net \<and> gn_config net' = gn_config net"
proof (cases "bt_contains_key (gn_agents net) ag")
  case False
  let ?n0 = "net\<lparr>gn_agents := bt_insert ag [] (gn_agents net), gn_topology := bt_insert ag [] (gn_topology net)\<rparr>"
  have fresh: "bt_get (gn_agents net) ag = None" using False by (simp add: bt_contains_key_def)
  then have "ag \<notin> dom (bt_get (gn_topology net))" using assms by (auto simp: gossip_inv_def topo_ok_def)
  then have free: "bt_get (gn_topology net) ag = None" by blast
  have sym: "linked (gn_topology net) a b \<Longrightarrow> a \<noteq> b \<and> linked (gn_topology net) b a" for a b
    using assms by (simp add: gossip_inv_def topo_ok_def)
  have l: "linked (bt_insert ag [] (gn_topology net)) a b \<longleftrightarrow> linked (gn_topology net) a b" for a b
    using free by (auto simp: linked_def)
  have "topo_ok ?n0" using assms sym by (auto simp: gossip_inv_def topo_ok_def l)
  then obtain net' where net': "update_topology ag ?n0 = Some net'" "topo_ok net'" "gn_agents net' = bt_insert ag [] (gn_agents net)"
      "gn_active net' = gn_active net" "gn_config net' = gn_config net"
    using update_topology_ok [of ?n0 ag] by (auto simp: bt_contains_key_def)
  have "prop_ok out net' name p" if "prop_ok out net name p" for name p
    using that fresh by (auto simp: prop_ok_def agent_has_dialect_def net'(3) split: option.splits)
  then have "gossip_inv out net'" using assms net' by (simp add: gossip_inv_def)
  then show ?thesis using False net' by (intro exI [of _ net'] exI [of _ True]) (simp add: add_agent_def)
qed (use assms in \<open>auto simp: add_agent_def\<close>)

lemma bt_get_map_values: "bt_get (map (\<lambda>(k, v). (k, f v)) m) k = map_option f (bt_get m k)"
  by (induction m) auto

lemma bt_sorted_map_values: "bt_sorted (map (\<lambda>(k, v). (k, f v)) m) = bt_sorted m"
  by (simp add: bt_sorted_def comp_def case_prod_unfold)

lemma remove_agent_ok:
  assumes "gossip_inv out net"
  shows "gossip_inv out (fst (remove_agent ag net))"
proof (cases "bt_contains_key (gn_agents net) ag")
  case True
  let ?net = "fst (remove_agent ag net)"
  have topo: "bt_get (gn_topology ?net) k = (if k = ag then None else map_option (bs_without ag) (bt_get (gn_topology net) k))" for k
    using True by (simp add: remove_agent_def bt_get_map_values)
  have agents: "bt_get (gn_agents ?net) = (bt_get (gn_agents net))(ag := None)" using True by (simp add: remove_agent_def)
  have l: "linked (gn_topology ?net) a b \<longleftrightarrow> linked (gn_topology net) a b \<and> a \<noteq> ag \<and> b \<noteq> ag" for a b
    by (auto simp: linked_def topo split: if_splits)
  have "dom (bt_get (gn_topology ?net)) = dom (bt_get (gn_topology net)) - {ag}" by (auto simp: topo split: if_splits)
  then have "topo_ok ?net" using assms by (auto simp: gossip_inv_def topo_ok_def l agents)
  moreover have "prop_ok out ?net name p" if p: "bt_get (gn_active ?net) name = Some p" for name p
  proof -
    obtain q where q: "bt_get (gn_active net) name = Some q"
        "p = q\<lparr>infected := bs_without ag (infected q), susceptible := bs_without ag (susceptible q)\<rparr>"
      using p True by (auto simp: remove_agent_def bt_get_map_values)
    have "prop_ok out net name q" using assms q(1) by (simp add: gossip_inv_def)
    then show ?thesis unfolding q(2) prop_ok_def agents agent_has_dialect_def by auto
  qed
  moreover have "bt_sorted (gn_agents ?net)" "bt_sorted (gn_active ?net)"
    using True assms by (simp_all add: remove_agent_def gossip_inv_def bt_sorted_map_values)
  ultimately show ?thesis by (simp add: gossip_inv_def)
qed (use assms in \<open>simp add: remove_agent_def\<close>)

lemma dom_mark_installed [simp]: "dom (bt_get (mark_installed a name as)) = dom (bt_get as)"
  by (auto simp: mark_installed_def split: option.splits)

lemma sorted_mark_installed: "bt_sorted as \<Longrightarrow> bt_sorted (mark_installed a name as)"
  by (simp add: mark_installed_def split: option.split)

definition installed :: "(string, string btset) btmap \<Rightarrow> string \<Rightarrow> string \<Rightarrow> bool" where
  "installed as a name \<longleftrightarrow> (\<exists>ds. bt_get as a = Some ds \<and> name \<in> set ds)"

lemma agent_has_dialect_installed: "agent_has_dialect net a name \<longleftrightarrow> installed (gn_agents net) a name"
  by (simp add: agent_has_dialect_def installed_def split: option.split)

lemma installed_mark:
  "installed (mark_installed a name as) b n \<longleftrightarrow> installed as b n \<or> (b = a \<and> n = name \<and> a \<in> dom (bt_get as))"
  by (auto simp: installed_def mark_installed_def split: option.splits)

lemma prop_ok_mono:
  assumes "prop_ok out net name p" "out \<subseteq> out'" "dom (bt_get (gn_agents net)) \<subseteq> dom (bt_get (gn_agents net'))"
    "\<And>a. installed (gn_agents net) a name \<Longrightarrow> installed (gn_agents net') a name"
  shows "prop_ok out' net' name p"
  using assms unfolding prop_ok_def agent_has_dialect_installed by blast

lemma announce_ok:
  assumes "gossip_inv out net"
  shows "gossip_inv out (fst (announce_dialect d ag net))"
proof (cases "\<not> bt_contains_key (gn_agents net) ag \<or> bt_contains_key (gn_active net) (d_name d)")
  case False
  let ?net = "fst (announce_dialect d ag net)"
  have ag: "ag \<in> dom (bt_get (gn_agents net))" using False by (auto simp: bt_contains_key_def)
  have agents: "gn_agents ?net = mark_installed ag (d_name d) (gn_agents net)" "gn_topology ?net = gn_topology net"
    using False by (auto simp: announce_dialect_def)
  have act: "bt_get (gn_active ?net) = (bt_get (gn_active net))(d_name d \<mapsto> \<lparr>pg_dialect = d, infected = [ag],
      susceptible = filter (\<lambda>k. k \<noteq> ag) (bt_keys (gn_agents net)), pg_round = 0,
      transmission_prob = transmission_probability (gn_config net)\<rparr>)"
    using False by (auto simp: announce_dialect_def)
  have "topo_ok ?net" using assms by (simp add: gossip_inv_def topo_ok_def agents)
  moreover have "prop_ok out ?net name p" if "bt_get (gn_active ?net) name = Some p" for name p
  proof (cases "name = d_name d")
    case True
    then show ?thesis
      using that ag by (auto simp: act prop_ok_def agents agent_has_dialect_installed installed_mark) (metis weak_map_of_SomeI)
  next
    case False
    then have "prop_ok out net name p" using that assms by (simp add: act gossip_inv_def)
    then show ?thesis by (rule prop_ok_mono) (simp_all add: agents installed_mark)
  qed
  moreover have "bt_sorted (gn_agents ?net)" "bt_sorted (gn_active ?net)"
    using assms False by (auto simp: gossip_inv_def announce_dialect_def sorted_mark_installed)
  ultimately show ?thesis by (simp add: gossip_inv_def)
qed (use assms in \<open>auto simp: announce_dialect_def\<close>)

lemma receive_ok:
  assumes "gossip_inv out net" "receive_gossip ag d net = Inr net'"
  shows "gossip_inv (out \<union> stranger_receipt ag d net) net'"
proof -
  have agents: "gn_agents net' = mark_installed ag (d_name d) (gn_agents net)" "gn_topology net' = gn_topology net"
    and act: "gn_active net' = (case bt_get (gn_active net) (d_name d) of
        Some p \<Rightarrow> bt_insert (d_name d) (p\<lparr>susceptible := bs_without ag (susceptible p), infected := bs_insert ag (infected p)\<rparr>) (gn_active net)
      | None \<Rightarrow> gn_active net)"
    using assms(2) by (auto simp: receive_gossip_def split: if_splits)
  let ?out = "out \<union> stranger_receipt ag d net"
  have ag: "ag \<in> dom (bt_get (gn_agents net)) \<or> (ag, d_name d) \<in> ?out"
    by (auto simp: stranger_receipt_def bt_contains_key_def)
  have "topo_ok net'" using assms(1) by (simp add: gossip_inv_def topo_ok_def agents)
  moreover have "prop_ok ?out net' name p" if p: "bt_get (gn_active net') name = Some p" for name p
  proof (cases "name = d_name d \<and> bt_get (gn_active net) name \<noteq> None")
    case True
    then obtain q where q: "bt_get (gn_active net) name = Some q"
        "p = q\<lparr>susceptible := bs_without ag (susceptible q), infected := bs_insert ag (infected q)\<rparr>"
      using p by (auto simp: act)
    have "prop_ok out net name q" using assms(1) q(1) by (simp add: gossip_inv_def)
    then show ?thesis
      using True ag unfolding q(2) by (auto simp: prop_ok_def agents agent_has_dialect_installed installed_mark)
  next
    case False
    then have "bt_get (gn_active net) name = Some p" using p by (auto simp: act split: option.splits if_splits)
    then have "prop_ok out net name p" using assms(1) by (simp add: gossip_inv_def)
    then show ?thesis by (rule prop_ok_mono) (simp_all add: agents installed_mark)
  qed
  moreover have "bt_sorted (gn_agents net')" "bt_sorted (gn_active net')"
    using assms(1) by (auto simp: gossip_inv_def agents sorted_mark_installed act split: option.splits)
  ultimately show ?thesis by (simp add: gossip_inv_def)
qed

text \<open>A round infects susceptible agents only.\<close>

lemma attempts_susceptible: "set (snd (attempts susc prob ns (seed, newly))) \<subseteq> set newly \<union> set susc"
  by (induction ns arbitrary: seed newly) (force simp: Let_def split: if_splits)+

lemma infections_susceptible:
  assumes "infections topo p seed = (seed', newly)"
  shows "set newly \<subseteq> set (susceptible p)"
proof -
  have "set (snd (foldl (\<lambda>acc ag. attempts (susceptible p) (transmission_prob p)
      (case bt_get topo ag of Some ns \<Rightarrow> ns | None \<Rightarrow> []) acc) acc ags)) \<subseteq> set (snd acc) \<union> set (susceptible p)" for acc ags
  proof (induction ags arbitrary: acc)
    case (Cons a ags)
    then show ?case using attempts_susceptible [of "susceptible p" "transmission_prob p" _ "fst acc" "snd acc"] by fastforce
  qed simp
  from this [of "(seed, [])" "infected p"] show ?thesis using assms by (simp add: infections_def)
qed

lemma infect_simps [simp]:
  "set (infected (infect newly p)) = set (infected p) \<union> set newly"
  "set (susceptible (infect newly p)) = set (susceptible p) - set newly"
  "pg_dialect (infect newly p) = pg_dialect p" "pg_round (infect newly p) = pg_round p"
  unfolding infect_def by (induction newly arbitrary: p) auto

lemma mark_all:
  "dom (bt_get (foldl (\<lambda>as ag. mark_installed ag name as) as newly)) = dom (bt_get as)"
  "bt_sorted as \<Longrightarrow> bt_sorted (foldl (\<lambda>as ag. mark_installed ag name as) as newly)"
  "installed (foldl (\<lambda>as ag. mark_installed ag name as) as newly) b n \<longleftrightarrow>
     installed as b n \<or> (b \<in> set newly \<and> n = name \<and> b \<in> dom (bt_get as))"
  by (induction newly arbitrary: as) (auto simp: sorted_mark_installed installed_mark)

lemma step_propagation_effect:
  assumes "step_propagation name net = (net', newly)"
  shows "gn_topology net' = gn_topology net" "gn_config net' = gn_config net"
    "n \<noteq> name \<Longrightarrow> bt_get (gn_active net') n = bt_get (gn_active net) n"
    "map_option pg_round (bt_get (gn_active net') name) = map_option (\<lambda>p. pg_round p + 1) (bt_get (gn_active net) name)"
  using assms by (auto simp: step_propagation_def split: option.splits prod.splits)

lemma step_propagation_ok:
  assumes "gossip_inv out net" "step_propagation name net = (net', newly)"
  shows "gossip_inv out net'"
proof (cases "bt_get (gn_active net) name")
  case (Some p)
  obtain seed ns where ns: "infections (gn_topology net) p (gn_rng net) = (seed, ns)" by fastforce
  have net': "gn_active net' = bt_insert name ((infect ns p)\<lparr>pg_round := pg_round p + 1\<rparr>) (gn_active net)"
      "gn_agents net' = foldl (\<lambda>as ag. mark_installed ag name as) (gn_agents net) ns" "gn_topology net' = gn_topology net"
    using assms(2) by (auto simp: step_propagation_def Some ns)
  note sub = infections_susceptible [OF ns]
  have "prop_ok out net' n q" if q: "bt_get (gn_active net') n = Some q" for n q
  proof (cases "n = name")
    case True
    have "prop_ok out net name p" using assms(1) Some by (simp add: gossip_inv_def)
    moreover have "q = (infect ns p)\<lparr>pg_round := pg_round p + 1\<rparr>" using q True by (simp add: net')
    ultimately show ?thesis
      using sub True by (auto simp: prop_ok_def agent_has_dialect_installed net' mark_all)
  next
    case False
    then have "prop_ok out net n q" using q assms(1) by (simp add: net' gossip_inv_def)
    then show ?thesis by (rule prop_ok_mono) (simp_all add: net' mark_all)
  qed
  moreover have "topo_ok net'" using assms(1) by (simp add: gossip_inv_def topo_ok_def net' mark_all)
  ultimately show ?thesis using assms(1) by (simp add: gossip_inv_def net' mark_all)
qed (use assms in \<open>simp add: step_propagation_def\<close>)

lemma fold_steps:
  assumes "foldl (\<lambda>(net, results) name. case step_propagation name net of
      (net', newly) \<Rightarrow> (net', if newly = [] then results else results @ [(name, newly)])) (net, results) names = (net', results')"
    "gossip_inv out net" "distinct names"
  shows "gossip_inv out net' \<and> gn_config net' = gn_config net \<and>
    (\<forall>n. map_option pg_round (bt_get (gn_active net') n) =
       map_option (\<lambda>p. if n \<in> set names then pg_round p + 1 else pg_round p) (bt_get (gn_active net) n))"
  using assms
proof (induction names arbitrary: net results)
  case Nil
  then show ?case by simp
next
  case (Cons name names)
  obtain n1 newly where n1: "step_propagation name net = (n1, newly)" by fastforce
  have inv: "gossip_inv out n1" by (rule step_propagation_ok [OF Cons.prems(2) n1])
  have IH: "gossip_inv out net' \<and> gn_config net' = gn_config n1 \<and>
      (\<forall>n. map_option pg_round (bt_get (gn_active net') n) =
         map_option (\<lambda>p. if n \<in> set names then pg_round p + 1 else pg_round p) (bt_get (gn_active n1) n))"
    using Cons.IH [OF _ inv, of "if newly = [] then results else results @ [(name, newly)]"] Cons.prems(1,3) by (simp add: n1)
  note eff = step_propagation_effect [OF n1]
  have "map_option pg_round (bt_get (gn_active net') n) =
      map_option (\<lambda>p. if n \<in> set (name # names) then pg_round p + 1 else pg_round p) (bt_get (gn_active net) n)" for n
  proof (cases "n = name")
    case True
    then have "map_option pg_round (bt_get (gn_active net') n) = map_option pg_round (bt_get (gn_active n1) n)"
      using IH Cons.prems(3) by simp
    then show ?thesis using eff(4) True by simp
  next
    case False
    then show ?thesis using IH eff(3) [OF False] by simp
  qed
  then show ?case using IH eff(2) by simp
qed

lemma bt_get_remove_all: "bt_get (foldl (\<lambda>act np. bt_remove (fst np) act) m gone) k = (if k \<in> fst ` set gone then None else bt_get m k)"
  by (induction gone arbitrary: m) auto

lemma sorted_remove_all: "bt_sorted m \<Longrightarrow> bt_sorted (foldl (\<lambda>act np. bt_remove (fst np) act) m gone)"
  by (induction gone arbitrary: m) auto

lemma cleanup_active:
  assumes "bt_sorted (gn_active net)"
  shows "bt_get (gn_active (cleanup net)) n = (case bt_get (gn_active net) n of
      Some p \<Rightarrow> if finished (max_rounds (gn_config net)) p then None else Some p | None \<Rightarrow> None)"
proof -
  let ?limit = "max_rounds (gn_config net)"
  have "distinct (bt_keys (gn_active net))" using bt_sorted_distinct [OF assms] .
  then have "n \<in> fst ` set (filter (\<lambda>(_, p). finished ?limit p) (gn_active net)) \<longleftrightarrow>
      (\<exists>p. bt_get (gn_active net) n = Some p \<and> finished ?limit p)"
    by (force simp: image_iff dest: map_of_SomeD)
  then show ?thesis by (auto simp: cleanup_def Let_def bt_get_remove_all split: option.splits)
qed

lemma cleanup_simps [simp]:
  "gn_agents (cleanup net) = gn_agents net" "gn_topology (cleanup net) = gn_topology net" "gn_config (cleanup net) = gn_config net"
  by (simp_all add: cleanup_def Let_def)

lemma gossip_step_effect:
  assumes "gossip_inv out net"
  shows "gossip_inv out (fst (gossip_step net))" "rounds_inv (fst (gossip_step net))" "gn_config (fst (gossip_step net)) = gn_config net"
    "bt_get (gn_active (fst (gossip_step net))) n = Some p' \<Longrightarrow>
       \<exists>p. bt_get (gn_active net) n = Some p \<and> pg_round p' = pg_round p + 1 \<and> pg_round p' < max_rounds (gn_config net)"
proof -
  obtain n1 results where fold: "foldl (\<lambda>(net, results) name. case step_propagation name net of
      (net', newly) \<Rightarrow> (net', if newly = [] then results else results @ [(name, newly)])) (net, []) (bt_keys (gn_active net)) = (n1, results)"
    by fastforce
  have keys: "distinct (bt_keys (gn_active net))" using assms by (simp add: gossip_inv_def bt_sorted_distinct)
  note F = fold_steps [OF fold assms keys]
  have inv1: "gossip_inv out n1" and cfg: "gn_config n1 = gn_config net" using F by auto
  have fin: "gn_agents (fst (gossip_step net)) = gn_agents n1" "gn_topology (fst (gossip_step net)) = gn_topology n1"
      "gn_active (fst (gossip_step net)) = gn_active (cleanup n1)" "gn_config (fst (gossip_step net)) = gn_config n1"
    unfolding gossip_step_def fold prod.case Let_def by simp_all
  have act: "bt_get (gn_active (fst (gossip_step net))) n = Some q \<longleftrightarrow>
      bt_get (gn_active n1) n = Some q \<and> \<not> finished (max_rounds (gn_config net)) q" for n q
    using cleanup_active [of n1 n] inv1 by (auto simp: fin(3) gossip_inv_def cfg split: option.splits if_splits)
  have "prop_ok out (fst (gossip_step net)) n q" if "bt_get (gn_active (fst (gossip_step net))) n = Some q" for n q
  proof -
    have "prop_ok out n1 n q" using that inv1 by (simp add: act gossip_inv_def)
    then show ?thesis by (rule prop_ok_mono) (simp_all add: fin)
  qed
  moreover have "bt_sorted (gn_active (cleanup n1))"
    using inv1 by (simp add: gossip_inv_def cleanup_def Let_def sorted_remove_all)
  ultimately show "gossip_inv out (fst (gossip_step net))" using inv1 by (simp add: gossip_inv_def topo_ok_def fin)
  show "gn_config (fst (gossip_step net)) = gn_config net" by (simp add: fin cfg)
  show "rounds_inv (fst (gossip_step net))"
    unfolding rounds_inv_def
  proof (intro allI impI)
    fix n q assume "bt_get (gn_active (fst (gossip_step net))) n = Some q"
    then have "\<not> finished (max_rounds (gn_config net)) q" using act by blast
    then show "round_ok (fst (gossip_step net)) q" by (simp add: round_ok_def finished_def fin cfg not_le)
  qed
  assume p': "bt_get (gn_active (fst (gossip_step net))) n = Some p'"
  then have n1: "bt_get (gn_active n1) n = Some p'" "pg_round p' < max_rounds (gn_config net)" by (auto simp: act finished_def)
  have "map_option pg_round (bt_get (gn_active n1) n) =
      map_option (\<lambda>p. if n \<in> set (bt_keys (gn_active net)) then pg_round p + 1 else pg_round p) (bt_get (gn_active net) n)"
    using F by blast
  then obtain p where p: "bt_get (gn_active net) n = Some p"
      "pg_round p' = (if n \<in> set (bt_keys (gn_active net)) then pg_round p + 1 else pg_round p)"
    using n1(1) by (cases "bt_get (gn_active net) n") auto
  moreover have "n \<in> set (bt_keys (gn_active net))" using p(1) by (force dest: map_of_SomeD)
  ultimately show "\<exists>p. bt_get (gn_active net) n = Some p \<and> pg_round p' = pg_round p + 1 \<and> pg_round p' < max_rounds (gn_config net)"
    using n1(2) by simp
qed

lemma shuffle_from_set: "i < length xs \<Longrightarrow> mset (fst (shuffle_from i xs seed)) = mset xs \<and> length (fst (shuffle_from i xs seed)) = length xs"
proof (induction i arbitrary: xs seed)
  case (Suc i)
  let ?j = "min (unat (next_seed seed) * (Suc i + 1) div 2147483648) (Suc i)"
  have j: "?j < length xs" using Suc.prems by simp
  have "mset (swap_at xs (Suc i) ?j) = mset xs"
    unfolding swap_at_def by (rule mset_swap [OF j Suc.prems])
  then show ?case using Suc.IH [of "swap_at xs (Suc i) ?j" "next_seed seed"] Suc.prems by (simp add: swap_at_def Let_def)
qed simp

text \<open>Selected peers are neighbours, without repetition, as many as asked for or as there are.\<close>

lemma select_peers_exact:
  assumes "bt_get (gn_topology net) ag = Some ns" "distinct ns"
  shows "distinct (snd (select_peers ag k net)) \<and> set (snd (select_peers ag k net)) \<subseteq> set ns \<and>
    length (snd (select_peers ag k net)) = min k (length ns)"
proof (cases "length ns \<le> k")
  case False
  then have i: "length ns - 1 < length ns" by simp
  obtain xs seed where xs: "shuffle_from (length ns - 1) ns (gn_rng net) = (xs, seed)" by fastforce
  have "mset xs = mset ns" "length xs = length ns" using shuffle_from_set [OF i, of "gn_rng net"] xs by simp_all
  then have "distinct xs" "set xs = set ns" using assms(2) by (metis mset_eq_imp_distinct_iff, metis set_mset_mset)
  then show ?thesis
    using False assms \<open>length xs = length ns\<close> set_take_subset [of k xs] xs by (auto simp: select_peers_def)
qed (use assms in \<open>simp add: select_peers_def\<close>)

lemma select_peers_keeps:
  "gossip_inv out net \<Longrightarrow> gossip_inv out (fst (select_peers ag k net))" "rounds_inv net \<Longrightarrow> rounds_inv (fst (select_peers ag k net))"
  by (auto simp: select_peers_def gossip_inv_def rounds_inv_def topo_ok_def prop_ok_def round_ok_def agent_has_dialect_installed
      split: option.splits prod.splits)

lemma rounds_invI:
  assumes "rounds_inv net" "gn_config net' = gn_config net"
    "\<And>n p. bt_get (gn_active net') n = Some p \<Longrightarrow> pg_round p = 0 \<or> (\<exists>m q. bt_get (gn_active net) m = Some q \<and> pg_round p = pg_round q)"
  shows "rounds_inv net'"
  using assms unfolding rounds_inv_def round_ok_def by metis

lemma rounds_kept:
  assumes "rounds_inv net"
  shows "rounds_inv (fst (remove_agent ag net))" "rounds_inv (fst (announce_dialect d ag net))"
    "receive_gossip ag d net = Inr net' \<Longrightarrow> rounds_inv net'"
proof -
  show "rounds_inv (fst (remove_agent ag net))"
    by (rule rounds_invI [OF assms]) (fastforce simp: remove_agent_def bt_get_map_values split: if_splits)+
  show "rounds_inv (fst (announce_dialect d ag net))"
    by (rule rounds_invI [OF assms]) (auto simp: announce_dialect_def split: if_splits)
  show "receive_gossip ag d net = Inr net' \<Longrightarrow> rounds_inv net'"
    by (rule rounds_invI [OF assms]) (fastforce simp: receive_gossip_def split: option.splits if_splits)+
qed

lemma gossip_trans_inv:
  assumes "gossip_trans (net, out) (net', out')" "gossip_inv out net \<and> rounds_inv net"
  shows "gossip_inv out' net' \<and> rounds_inv net'"
  using assms(1)
proof (rule gossip_transE)
  fix ag b assume "add_agent ag net = Some (net', b)" "out' = out"
  then show ?thesis
    using add_agent_ok [of out net ag] assms(2) by (auto simp: rounds_inv_def round_ok_def)
next
  fix ag assume "net' = fst (remove_agent ag net)" "out' = out"
  then show ?thesis using remove_agent_ok rounds_kept(1) assms(2) by blast
next
  fix d ag assume "net' = fst (announce_dialect d ag net)" "out' = out"
  then show ?thesis using announce_ok rounds_kept(2) assms(2) by blast
next
  assume "net' = fst (gossip_step net)" "out' = out"
  then show ?thesis using gossip_step_effect(1,2) assms(2) by blast
next
  fix ag d assume "receive_gossip ag d net = Inr net'" "out' = out \<union> stranger_receipt ag d net"
  then show ?thesis using receive_ok rounds_kept(3) assms(2) by blast
next
  fix ag k assume "net' = fst (select_peers ag k net)" "out' = out"
  then show ?thesis using select_peers_keeps assms(2) by blast
qed

lemma gossip_reachable_inv:
  "gossip_trans\<^sup>*\<^sup>* (network_new config seed, {}) (net, out) \<Longrightarrow> gossip_inv out net \<and> rounds_inv net"
proof (induction rule: rtranclp_induct2)
  case refl
  show ?case by (simp add: network_new_def gossip_inv_def rounds_inv_def topo_ok_def linked_def)
qed (rule gossip_trans_inv)

section \<open>The simulation ends\<close>




section \<open>Connectivity\<close>

definition link_rel :: "links \<Rightarrow> (string \<times> string) set" where
  "link_rel topo = {(a, b). linked topo a b}"

lemma connect_loop_exact:
  assumes "bs_sorted visited" "\<And>a b. a \<in> set visited \<Longrightarrow> (a, b) \<in> link_rel topo \<Longrightarrow> b \<in> set visited \<union> set stack"
  shows "bs_sorted (connect_loop topo stack visited) \<and>
    set (connect_loop topo stack visited) = (link_rel topo)\<^sup>* `` (set visited \<union> set stack)"
  using assms
proof (induction topo stack visited rule: connect_loop.induct)
  case (1 topo visited)
  then have "link_rel topo `` set visited \<subseteq> set visited" by auto
  then show ?case using "1.prems"(1) by (simp add: Image_closed_trancl)
next
  case (2 topo c stack visited)
  show ?case
  proof (cases "c \<in> set visited")
    case True
    have "\<And>a b. a \<in> set visited \<Longrightarrow> (a, b) \<in> link_rel topo \<Longrightarrow> b \<in> set visited \<union> set stack"
      using "2.prems"(2) True by fastforce
    from "2.IH"(1) [OF True "2.prems"(1) this] show ?thesis using True by (simp add: insert_absorb)
  next
    case False
    let ?ns = "case bt_get topo c of Some ns \<Rightarrow> ns | None \<Rightarrow> []"
    let ?v = "bs_insert c visited" and ?st = "push_unvisited (bs_insert c visited) ?ns stack"
    have ns: "b \<in> set ?ns \<longleftrightarrow> (c, b) \<in> link_rel topo" for b
      by (cases "bt_get topo c") (auto simp: link_rel_def linked_def)
    have step: "b \<in> set ?v \<union> set ?st" if "a \<in> set ?v" "(a, b) \<in> link_rel topo" for a b
      using that "2.prems"(2) [of a b] ns [of b] by (cases "a = c") (auto simp: set_push_unvisited)
    have IH: "bs_sorted (connect_loop topo ?st ?v) \<and> set (connect_loop topo ?st ?v) = (link_rel topo)\<^sup>* `` (set ?v \<union> set ?st)"
      by (rule "2.IH"(2) [OF False _ step]) (use "2.prems"(1) in simp_all)
    have sub: "set ?st \<subseteq> set stack \<union> link_rel topo `` {c}" using ns by (auto simp: set_push_unvisited)
    have "(link_rel topo)\<^sup>* `` (set ?v \<union> set ?st) = (link_rel topo)\<^sup>* `` (set visited \<union> set (c # stack))"
    proof
      show "(link_rel topo)\<^sup>* `` (set ?v \<union> set ?st) \<subseteq> (link_rel topo)\<^sup>* `` (set visited \<union> set (c # stack))"
        using sub by (auto intro: converse_rtrancl_into_rtrancl)
      have "set visited \<union> set (c # stack) \<subseteq> set ?v \<union> set ?st" by (auto simp: set_push_unvisited)
      then show "(link_rel topo)\<^sup>* `` (set visited \<union> set (c # stack)) \<subseteq> (link_rel topo)\<^sup>* `` (set ?v \<union> set ?st)" by blast
    qed
    then show ?thesis using IH False by simp
  qed
qed

section \<open>Properties\<close>

text \<open>C39: In every network that its operations can build from an empty one (adding, removing, announcing, stepping,
  receiving for any name and selecting peers), the topology is a simple undirected graph over exactly the agents,
  the infected and the susceptible of a propagation are disjoint, the susceptible are agents of the network, whoever
  is infected is an agent that has the dialect or a name for which gossip of that dialect was received while it was
  no agent, the round counter of a running propagation is zero or below the limit and so never wraps, and
  adding an agent does not panic. With no such receipt the infected are agents that have the dialect.\<close>

theorem gossip_invariant:
  assumes "gossip_trans\<^sup>*\<^sup>* (network_new config seed, {}) (net, out)"
  shows "dom (bt_get (gn_topology net)) = dom (bt_get (gn_agents net)) \<and>
    (\<forall>a b. linked (gn_topology net) a b \<longrightarrow> a \<noteq> b \<and> linked (gn_topology net) b a) \<and>
    (\<forall>name p. bt_get (gn_active net) name = Some p \<longrightarrow>
       set (infected p) \<inter> set (susceptible p) = {} \<and> set (susceptible p) \<subseteq> dom (bt_get (gn_agents net)) \<and>
       (\<forall>a \<in> set (infected p). agent_has_dialect net a name \<or> (a, name) \<in> out) \<and>
       (pg_round p = 0 \<or> pg_round p < max_rounds (gn_config net))) \<and>
    add_agent ag net \<noteq> None"
  using gossip_reachable_inv [OF assms] add_agent_ok [of out net ag]
  unfolding gossip_inv_def rounds_inv_def topo_ok_def prop_ok_def round_ok_def by force

definition gossip_sample :: network where
  "gossip_sample = fst (the (add_agent ''b'' (fst (the (add_agent ''a'' with_defaults)))))"

lemma gossip_sample_reachable: "gossip_trans\<^sup>*\<^sup>* (network_new default_config 1234567, {}) (gossip_sample, {})"
proof -
  have ok: "\<exists>net' b. add_agent ag net = Some (net', b) \<and> gossip_inv {} net'" if "gossip_inv {} net" for ag net
    using add_agent_ok [OF that] by blast
  have "gossip_inv {} with_defaults" using gossip_reachable_inv [OF rtranclp.rtrancl_refl] by (simp add: with_defaults_def)
  then obtain n1 b1 where n1: "add_agent ''a'' with_defaults = Some (n1, b1)" "gossip_inv {} n1" using ok by blast
  obtain n2 b2 where n2: "add_agent ''b'' n1 = Some (n2, b2)" using ok [OF n1(2)] by blast
  have "gossip_sample = n2" by (simp add: gossip_sample_def n1 n2)
  then show ?thesis
    using gt_add [OF n1(1), of "{}"] gt_add [OF n2, of "{}"] unfolding with_defaults_def by (auto intro: rtranclp.rtrancl_into_rtrancl)
qed

theorem gossip_invariant_witness:
  "dom (bt_get (gn_topology gossip_sample)) = dom (bt_get (gn_agents gossip_sample)) \<and> add_agent ''c'' gossip_sample \<noteq> None"
  using gossip_invariant [OF gossip_sample_reachable, of "''c''"] by blast



text \<open>The connectivity test is exact: it answers yes exactly when any two agents are joined by a path.\<close>

lemma connected_exact:
  assumes "gossip_trans\<^sup>*\<^sup>* (network_new config seed, {}) (net, out)"
  shows "is_connected net \<longleftrightarrow> (\<forall>a \<in> dom (bt_get (gn_agents net)). \<forall>b \<in> dom (bt_get (gn_agents net)). (a, b) \<in> (link_rel (gn_topology net))\<^sup>*)"
proof (cases "bt_keys (gn_agents net)")
  case Nil
  then show ?thesis by (simp add: is_connected_def)
next
  case (Cons start rest)
  let ?R = "link_rel (gn_topology net)" and ?V = "connect_loop (gn_topology net) [start] []" and ?A = "dom (bt_get (gn_agents net))"
  have inv: "gossip_inv out net" using gossip_reachable_inv [OF assms] by simp
  have A: "?A = set (bt_keys (gn_agents net))" by (simp add: dom_map_of_conv_image_fst)
  have dist: "distinct (bt_keys (gn_agents net))" using inv by (simp add: gossip_inv_def bt_sorted_distinct)
  have V: "bs_sorted ?V" "set ?V = ?R\<^sup>* `` {start}" using connect_loop_exact [of "[]" "gn_topology net" "[start]"] by (auto simp: bs_sorted_def)
  have sym: "sym ?R" using inv by (auto simp: sym_def link_rel_def gossip_inv_def topo_ok_def)
  have dom: "dom (bt_get (gn_topology net)) = ?A" using inv by (simp add: gossip_inv_def topo_ok_def)
  have "b \<in> ?A" if "(a, b) \<in> ?R" for a b
    using symD [OF sym that] unfolding dom [symmetric] by (auto simp: link_rel_def linked_def)
  then have sub: "?R `` ?A \<subseteq> ?A" by blast
  have "set ?V \<subseteq> ?A"
    using V(2) Image_closed_trancl [OF sub] A Cons by (metis Image_mono list.set_intros(1) order_refl singletonD subsetI)
  have "is_connected net \<longleftrightarrow> length ?V = length (bt_keys (gn_agents net))"
    unfolding is_connected_def Cons list.case length_map [of fst "gn_agents net", symmetric] ..
  also have "\<dots> \<longleftrightarrow> card (set ?V) = card ?A"
    using distinct_card [OF bs_sorted_distinct [OF V(1)]] distinct_card [OF dist] A by simp
  also have "\<dots> \<longleftrightarrow> set ?V = ?A"
    using card_subset_eq [OF _ \<open>set ?V \<subseteq> ?A\<close>] A by auto
  also have "\<dots> \<longleftrightarrow> (\<forall>a \<in> ?A. \<forall>b \<in> ?A. (a, b) \<in> ?R\<^sup>*)"
  proof
    assume "set ?V = ?A"
    then have all: "(start, a) \<in> ?R\<^sup>*" if "a \<in> ?A" for a using V(2) that by blast
    then show "\<forall>a \<in> ?A. \<forall>b \<in> ?A. (a, b) \<in> ?R\<^sup>*" using sym_rtrancl [OF sym] by (meson rtrancl_trans symD)
  next
    assume "\<forall>a \<in> ?A. \<forall>b \<in> ?A. (a, b) \<in> ?R\<^sup>*"
    moreover have "start \<in> ?A" using A Cons by simp
    ultimately show "set ?V = ?A" using V(2) \<open>set ?V \<subseteq> ?A\<close> by blast
  qed
  finally show ?thesis .
qed

text \<open>The ring topology is not a ring: a new agent is linked to the two existing agents of least name, so these collect
  all links.\<close>

definition ring_of_five :: "network option" where
  "ring_of_five = foldl (\<lambda>net ag. Option.bind net (\<lambda>n. map_option fst (add_agent ag n)))
     (Some (network_new (default_config\<lparr>topology_of := Ring\<rparr>) 1)) [''a'', ''b'', ''c'', ''d'', ''e'']"

lemma ring_is_no_ring: "map_option (\<lambda>n. bt_get (gn_topology n) ''a'') ring_of_five = Some (Some [''b'', ''c'', ''d'', ''e''])"
  by code_simp

text \<open>Gossip received for an unknown agent makes it infected; when the agent joins later, it counts as infected
  without having the dialect, and the propagation is complete without it.\<close>

lemma unknown_agent_infected:
  assumes "gossip_violations d = []" "bt_get (gn_active net) (d_name d) = Some p" "\<not> bt_contains_key (gn_agents net) ag"
    "receive_gossip ag d net = Inr net'" "add_agent ag net' = Some (net2, b)" "gossip_inv out net"
  shows "(\<exists>q. bt_get (gn_active net2) (d_name d) = Some q \<and> ag \<in> set (infected q)) \<and> \<not> agent_has_dialect net2 ag (d_name d)"
proof -
  have none: "bt_get (gn_agents net) ag = None" using assms(3) by (simp add: bt_contains_key_def)
  have net': "net' = net\<lparr>gn_active := bt_insert (d_name d) (p\<lparr>susceptible := bs_without ag (susceptible p),
      infected := bs_insert ag (infected p)\<rparr>) (gn_active net)\<rparr>"
    using assms(4) by (simp add: receive_gossip_def assms(1,2) mark_installed_def none)
  have "topo_ok net" using assms(6) by (simp add: gossip_inv_def)
  let ?n0 = "net'\<lparr>gn_agents := bt_insert ag [] (gn_agents net'), gn_topology := bt_insert ag [] (gn_topology net')\<rparr>"
  have up: "update_topology ag ?n0 = Some net2"
    using assms(5) none by (auto simp: add_agent_def net' bt_contains_key_def)
  have "gn_agents net2 = gn_agents ?n0 \<and> gn_active net2 = gn_active ?n0"
    using up by (auto simp: update_topology_def Let_def split: topology_kind.splits if_splits)
  then show ?thesis by (simp add: net' agent_has_dialect_def)
qed

end
