(* ===== verification/Cbcl_Protoparse.thy ===== *)
theory Cbcl_Protoparse
  imports Cbcl_Protocol
begin

text \<open>
  The parser of \<open>(protocol (then ...)+)\<close> declarations, \<open>cbcl-parser/src/protocol_parser.rs\<close>: node
  references, the macro-expansion of \<open>(repeat k step ...)\<close> with its budget of \<open>u64\<close> charges, the pairwise
  desugaring of a chain, and the step table. The parser is shown to succeed exactly on the declarations of
  the grammar whose expansion fits the ceiling, with the table of the edges of the expanded chains; the
  copies it synthesises never collide, with each other or with a declared name.
\<close>

section \<open>Errors\<close>

datatype protocol_parse_error =
    NotAList
  | NotProtocol
  | NoThenClauses
  | ThenTooFew
  | ExpectedThen string
  | InvalidNodeRef string
  | GroupTooFew string
  | GroupNonSymbol string
  | RepeatCountNotNat string
  | RepeatEmptyBody
  | RepeatContainsBegin
  | RepeatBudgetExceeded u64

definition REPEAT_EXPANSION_CEILING :: u64 where "REPEAT_EXPANSION_CEILING = 8192"

definition display_protocol_parse_error :: "protocol_parse_error \<Rightarrow> string" where
  "display_protocol_parse_error e = (case e of
       NotAList \<Rightarrow> ''protocol declaration must be a list''
     | NotProtocol \<Rightarrow> ''expected '' @ quoted ''protocol'' @ '' keyword''
     | NoThenClauses \<Rightarrow> ''protocol must contain at least one (then ...) clause''
     | ThenTooFew \<Rightarrow> ''(then ...) requires at least 2 node-refs''
     | ExpectedThen found \<Rightarrow> ''expected (then ...) clause, found: '' @ found
     | InvalidNodeRef detail \<Rightarrow> ''invalid node-ref: '' @ detail
     | GroupTooFew kind \<Rightarrow> ''('' @ kind @ '' ...) requires at least 2 performative-refs''
     | GroupNonSymbol kind \<Rightarrow> ''('' @ kind @ '' ...) arguments must be symbols''
     | RepeatCountNotNat found \<Rightarrow>
         ''(repeat ...) count must be a positive integer (CON-701 nat), found: '' @ found
     | RepeatEmptyBody \<Rightarrow> ''(repeat ...) requires at least one protocol-step''
     | RepeatContainsBegin \<Rightarrow> ''(repeat ...) body must not reference '' @ quoted ''begin''
     | RepeatBudgetExceeded n \<Rightarrow> ''(repeat ...) expands to '' @ show_nat (unat n) @
         '' step instances, exceeding the R2 expansion ceiling '' @
         show_nat (unat REPEAT_EXPANSION_CEILING))"

section \<open>Node references\<close>

definition check_user_symbol :: "string \<Rightarrow> (protocol_parse_error, unit) result" where
  "check_user_symbol s =
     (if REPEAT_SEPARATOR \<in> set s
      then Inl (InvalidNodeRef (quoted s @ '' contains '' @ quoted [REPEAT_SEPARATOR] @
        '', reserved for synthesised repeat copies''))
      else Inr ())"

fun group_names ::
  "string \<Rightarrow> sexpr list \<Rightarrow> string btset \<Rightarrow> (protocol_parse_error, string btset) result" where
  "group_names kind [] acc = Inr acc"
| "group_names kind (item # items) acc = (case item of
       Atom (Symbol s) \<Rightarrow> bind_result (check_user_symbol s) (\<lambda>_.
         group_names kind items (bs_insert s acc))
     | _ \<Rightarrow> Inl (GroupNonSymbol kind))"

definition parse_node_ref :: "sexpr \<Rightarrow> (protocol_parse_error, node_ref) result" where
  "parse_node_ref e = (case e of
       Atom (Symbol s) \<Rightarrow> bind_result (check_user_symbol s) (\<lambda>_. Inr (NSingle s))
     | List (item # items) \<Rightarrow> (case item of
           Atom (Symbol head) \<Rightarrow>
             if head = ''any'' \<or> head = ''all''
             then if length (item # items) < 3 then Inl (GroupTooFew head)
                  else bind_result (group_names head items []) (\<lambda>names.
                    Inr (if head = ''any'' then NAny names else NAll names))
             else Inl (InvalidNodeRef (''unknown node-ref head: '' @ head))
         | _ \<Rightarrow> Inl (InvalidNodeRef (''list head is not a symbol: '' @ display_sexpr item)))
     | _ \<Rightarrow> Inl (InvalidNodeRef (display_sexpr e)))"

section \<open>Repetition\<close>

definition is_repeat_form :: "sexpr \<Rightarrow> bool" where
  "is_repeat_form e = (case e of List (h # _) \<Rightarrow> is_symbol h ''repeat'' | _ \<Rightarrow> False)"

definition parse_nat :: "sexpr \<Rightarrow> (protocol_parse_error, u64) result" where
  "parse_nat e = (case e of
       Atom (Num n) \<Rightarrow> if n \<ge> 1 then Inr (word_of_int n) else Inl (RepeatCountNotNat (display_sexpr e))
     | _ \<Rightarrow> Inl (RepeatCountNotNat (display_sexpr e)))"

definition charge_expansion :: "u64 \<Rightarrow> u64 \<Rightarrow> (protocol_parse_error, u64) result" where
  "charge_expansion used n = (let total = saturating_add used n in
     if total > REPEAT_EXPANSION_CEILING then Inl (RepeatBudgetExceeded total) else Inr total)"

definition checked_mul :: "u64 \<Rightarrow> u64 \<Rightarrow> u64 option" where
  "checked_mul a b = (if unat a * unat b < 2 ^ 64 then Some (a * b) else None)"

definition suffix_name :: "nat \<Rightarrow> string \<Rightarrow> string" where
  "suffix_name i s = s @ REPEAT_SEPARATOR # show_nat i"

definition suffix_node_ref :: "nat \<Rightarrow> node_ref \<Rightarrow> node_ref" where
  "suffix_node_ref i nr = (case nr of
       NSingle s \<Rightarrow> NSingle (suffix_name i s)
     | NAny ss \<Rightarrow> NAny (bs_of_list (map (suffix_name i) ss))
     | NAll ss \<Rightarrow> NAll (bs_of_list (map (suffix_name i) ss)))"

text \<open>\<open>for i in 1..=k\<close>: the copies of a body, in order.\<close>

definition copies :: "nat \<Rightarrow> node_ref list \<Rightarrow> node_ref list" where
  "copies k body = concat (map (\<lambda>i. map (suffix_node_ref i) body) [1..<Suc k])"

text \<open>
  The appended references and the charge are threaded: \<open>out\<close> and \<open>used\<close> are the \<open>&mut\<close> arguments of the source.
\<close>

fun expand_repeat ::
  "sexpr \<Rightarrow> node_ref list \<Rightarrow> u64 \<Rightarrow> (protocol_parse_error, node_ref list \<times> u64) result"
and repeat_body ::
  "sexpr list \<Rightarrow> node_ref list \<Rightarrow> u64 \<Rightarrow> (protocol_parse_error, node_ref list \<times> u64) result" where
  "expand_repeat (Atom a) out used = Inl (InvalidNodeRef (display_sexpr (Atom a)))"
| "expand_repeat (List []) out used = Inl (InvalidNodeRef (display_sexpr (List [])))"
| "expand_repeat (List [h]) out used =
     (if is_symbol h ''repeat'' then Inl (RepeatCountNotNat ''<missing>'')
      else Inl (InvalidNodeRef (display_sexpr (List [h]))))"
| "expand_repeat (List (h # c # body_steps)) out used =
     (if is_symbol h ''repeat''
      then bind_result (parse_nat c) (\<lambda>k.
        if body_steps = [] then Inl RepeatEmptyBody
        else bind_result (repeat_body body_steps [] used) (\<lambda>(body, used).
          bind_result (ok_or (RepeatBudgetExceeded (- 1)) (checked_mul (k - 1) (of_nat (length body))))
            (\<lambda>extra. bind_result (charge_expansion used extra) (\<lambda>used.
              Inr (out @ copies (unat k) body, used)))))
      else Inl (InvalidNodeRef (display_sexpr (List (h # c # body_steps)))))"
| "repeat_body [] body used = Inr (body, used)"
| "repeat_body (step # rest) body used =
     (if is_repeat_form step
      then bind_result (expand_repeat step body used) (\<lambda>(body, used). repeat_body rest body used)
      else bind_result (parse_node_ref step) (\<lambda>nr.
        if BEGIN_KEYWORD \<in> set (performatives_of nr) then Inl RepeatContainsBegin
        else bind_result (charge_expansion used 1) (\<lambda>used. repeat_body rest (body @ [nr]) used)))"

section \<open>Chains and the step table\<close>

fun then_refs ::
  "sexpr list \<Rightarrow> node_ref list \<Rightarrow> u64 \<Rightarrow> (protocol_parse_error, node_ref list \<times> u64) result" where
  "then_refs [] refs used = Inr (refs, used)"
| "then_refs (item # items) refs used =
     (if is_repeat_form item
      then bind_result (expand_repeat item refs used) (\<lambda>(refs, used). then_refs items refs used)
      else bind_result (parse_node_ref item) (\<lambda>nr. then_refs items (refs @ [nr]) used))"

definition parse_then_clause ::
  "sexpr \<Rightarrow> u64 \<Rightarrow> (protocol_parse_error, (node_ref \<times> node_ref) list \<times> u64) result" where
  "parse_then_clause e used = (case e of
       List (h # items) \<Rightarrow>
         if is_symbol h ''then''
         then bind_result (then_refs items [] used) (\<lambda>(refs, used).
           if length refs < 2 then Inl ThenTooFew else Inr (zip refs (tl refs), used))
         else Inl (ExpectedThen (display_sexpr h))
     | List [] \<Rightarrow> Inl (ExpectedThen ''empty list'')
     | _ \<Rightarrow> Inl (ExpectedThen (display_sexpr e)))"

text \<open>\<open>entry(p).or_insert_with(...)\<close>.\<close>

definition step_entry :: "(string, step_decl) btmap \<Rightarrow> string \<Rightarrow> step_decl" where
  "step_entry ss p = (case bt_get ss p of
       Some s \<Rightarrow> s
     | None \<Rightarrow> \<lparr>step_performative = p, predecessors = [], successors = []\<rparr>)"

definition push_successor ::
  "node_ref \<Rightarrow> (string, step_decl) btmap \<Rightarrow> string \<Rightarrow> (string, step_decl) btmap" where
  "push_successor succ ss p =
     bt_insert p ((step_entry ss p)\<lparr>successors := successors (step_entry ss p) @ [succ]\<rparr>) ss"

definition push_predecessor ::
  "node_ref \<Rightarrow> (string, step_decl) btmap \<Rightarrow> string \<Rightarrow> (string, step_decl) btmap" where
  "push_predecessor pred ss s =
     bt_insert s ((step_entry ss s)\<lparr>predecessors := predecessors (step_entry ss s) @ [pred]\<rparr>) ss"

definition record_edge ::
  "(string, step_decl) btmap \<Rightarrow> node_ref \<times> node_ref \<Rightarrow> (string, step_decl) btmap" where
  "record_edge ss e = (case e of (pred, succ) \<Rightarrow>
     foldl (push_predecessor pred) (foldl (push_successor succ) ss (performatives_of pred))
       (performatives_of succ))"

fun parse_clauses ::
  "sexpr list \<Rightarrow> (string, step_decl) btmap \<Rightarrow> u64 \<Rightarrow> (protocol_parse_error, (string, step_decl) btmap) result" where
  "parse_clauses [] ss used = Inr ss"
| "parse_clauses (clause # clauses) ss used =
     bind_result (parse_then_clause clause used) (\<lambda>(edges, used).
       parse_clauses clauses (foldl record_edge ss edges) used)"

definition parse_protocol :: "sexpr \<Rightarrow> (protocol_parse_error, causal_protocol) result" where
  "parse_protocol e = (case e of
       List items \<Rightarrow>
         (case items of
            h # clauses \<Rightarrow>
              if \<not> is_symbol h ''protocol'' then Inl NotProtocol
              else if clauses = [] then Inl NoThenClauses
              else bind_result (parse_clauses clauses [] 0) (\<lambda>ss. Inr \<lparr>steps = ss\<rparr>)
          | [] \<Rightarrow> Inl NotProtocol)
     | _ \<Rightarrow> Inl NotAList)"

section \<open>The grammar\<close>

text \<open>
  What a step of a chain stands for, without budgets: \<open>expansion\<close> for a \<open>repeat\<close> form, \<open>body_expansion\<close> for
  the steps of its body, where \<open>begin\<close> is not allowed.
\<close>

definition plain_step :: "sexpr \<Rightarrow> node_ref option" where
  "plain_step e = (case parse_node_ref e of Inr nr \<Rightarrow> Some nr | Inl _ \<Rightarrow> None)"

definition body_step :: "sexpr \<Rightarrow> node_ref list option" where
  "body_step e = (case plain_step e of
       Some nr \<Rightarrow> if BEGIN_KEYWORD \<in> set (performatives_of nr) then None else Some [nr]
     | None \<Rightarrow> None)"

definition repeat_count :: "sexpr \<Rightarrow> nat option" where
  "repeat_count c = (case parse_nat c of Inr k \<Rightarrow> if 0 < k then Some (unat k) else None | Inl _ \<Rightarrow> None)"

definition opt_append :: "'a list option \<Rightarrow> 'a list option \<Rightarrow> 'a list option" where
  "opt_append a b = (case a of None \<Rightarrow> None | Some x \<Rightarrow> map_option (\<lambda>y. x @ y) b)"

fun expansion :: "sexpr \<Rightarrow> node_ref list option"
and body_expansion :: "sexpr list \<Rightarrow> node_ref list option" where
  "expansion (Atom a) = None"
| "expansion (List []) = None"
| "expansion (List [h]) = None"
| "expansion (List (h # c # body_steps)) =
     (if is_symbol h ''repeat'' \<and> body_steps \<noteq> []
      then case repeat_count c of
          Some k \<Rightarrow> map_option (copies k) (body_expansion body_steps)
        | None \<Rightarrow> None
      else None)"
| "body_expansion [] = Some []"
| "body_expansion (step # rest) =
     opt_append (if is_repeat_form step then expansion step else body_step step) (body_expansion rest)"

definition chain_step :: "sexpr \<Rightarrow> node_ref list option" where
  "chain_step e = (if is_repeat_form e then expansion e else map_option (\<lambda>nr. [nr]) (plain_step e))"

fun chain_refs :: "sexpr list \<Rightarrow> node_ref list option" where
  "chain_refs [] = Some []"
| "chain_refs (item # items) = opt_append (chain_step item) (chain_refs items)"

text \<open>The number of synthesised references of a chain.\<close>

definition step_cost :: "sexpr \<Rightarrow> nat" where
  "step_cost e = (if is_repeat_form e then (case expansion e of Some xs \<Rightarrow> length xs | None \<Rightarrow> 0) else 0)"

definition chain_cost :: "sexpr list \<Rightarrow> nat" where
  "chain_cost items = sum_list (map step_cost items)"

section \<open>Budgets\<close>

lemma unat_ceiling [simp]: "unat REPEAT_EXPANSION_CEILING = 8192"
  by (simp add: REPEAT_EXPANSION_CEILING_def)

lemma unat_max_u64 [simp]: "unat (- 1 :: u64) = 2 ^ 64 - 1"
  by (simp add: unsigned_minus_1_eq_mask mask_eq_exp_minus_1)

lemma unat_saturating_add:
  "unat (saturating_add a b :: u64) = min (unat a + unat b) (2 ^ 64 - 1)"
proof (cases "unat a + unat b < 2 ^ 64")
  case True
  then have "unat (a + b) = unat a + unat b" by (intro unat_add_no_wrap) simp
  then show ?thesis using True by (auto simp: saturating_add_def)
next
  case False
  then show ?thesis by (auto simp: saturating_add_def)
qed

lemma charge_expansion_iff:
  "charge_expansion used n = Inr used' \<longleftrightarrow>
     unat used + unat n \<le> 8192 \<and> unat used' = unat used + unat n"
proof -
  have "charge_expansion used n = Inr used' \<longleftrightarrow>
      unat (saturating_add used n) \<le> 8192 \<and> used' = saturating_add used n"
    by (auto simp: charge_expansion_def Let_def word_less_nat_alt split: if_splits)
  also have "\<dots> \<longleftrightarrow> unat (saturating_add used n) \<le> 8192 \<and> unat used' = unat (saturating_add used n)"
    by (simp add: word_unat_eq_iff)
  finally show ?thesis by (auto simp: unat_saturating_add)
qed

lemma checked_mul_iff: "checked_mul a b = Some c \<longleftrightarrow> unat a * unat b < 2 ^ 64 \<and> unat c = unat a * unat b"
proof -
  have "unat (a * b) = unat a * unat b" if "unat a * unat b < 2 ^ 64"
    using that by (simp add: unat_word_ariths)
  then show ?thesis by (auto simp: checked_mul_def word_unat_eq_iff split: if_splits)
qed

lemma length_copies [simp]: "length (copies k body) = k * length body"
  by (induction k) (auto simp: copies_def)

lemma copies_charge_iff:
  assumes "0 < length body" "unat used + length body \<le> 8192"
  shows "(\<exists>extra. checked_mul (k - 1) (of_nat (length body)) = Some extra \<and>
      charge_expansion (used + of_nat (length body)) extra = Inr used') \<longleftrightarrow>
    0 < k \<and> unat used + unat k * length body \<le> 8192 \<and> unat used' = unat used + unat k * length body"
proof -
  let ?n = "length body"
  have n: "unat (of_nat ?n :: u64) = ?n" using assms by (intro unat_of_nat_no_wrap) simp
  have u: "unat (used + of_nat ?n) = unat used + ?n"
    using assms n by (subst unat_add_no_wrap) auto
  show ?thesis
  proof (cases "k = 0")
    case True
    then have "unat (k - 1) = 2 ^ 64 - 1" by simp
    moreover have "(2 ^ 64 - 1) * 1 \<le> (2 ^ 64 - 1) * ?n" using assms(1) by (intro mult_le_mono) (auto simp: Suc_le_eq)
    ultimately show ?thesis using True n u by (auto simp: checked_mul_iff charge_expansion_iff)
  next
    case False
    then obtain m where m: "unat k = Suc m" by (metis not0_implies_Suc unat_eq_zero)
    then have "unat (k - 1) = m" using False by (simp add: unat_minus_one)
    moreover have "\<exists>extra :: u64. unat extra = m * ?n" if "m * ?n < 2 ^ 64"
      using that unat_of_nat_no_wrap [of "m * ?n", where 'a = 64] by auto
    ultimately show ?thesis using False n u m
      by (fastforce simp: checked_mul_iff charge_expansion_iff word_gt_0)
  qed
qed

section \<open>What the expansion succeeds on\<close>

text \<open>\<open>charged xs out used r\<close>: \<open>r\<close> appends the references \<open>xs\<close> to \<open>out\<close> and charges one for each.\<close>

definition charged :: "node_ref list option \<Rightarrow> node_ref list \<Rightarrow> u64 \<Rightarrow> node_ref list \<times> u64 \<Rightarrow> bool" where
  "charged e out used r \<longleftrightarrow> (\<exists>xs. e = Some xs \<and> fst r = out @ xs \<and>
     unat (snd r) = unat used + length xs \<and> unat (snd r) \<le> 8192)"

lemma opt_append_eq_Some:
  "opt_append a b = Some z \<longleftrightarrow> (\<exists>x y. a = Some x \<and> b = Some y \<and> z = x @ y)"
  by (auto simp: opt_append_def split: option.splits)

lemma charged_append:
  assumes "unat used \<le> 8192"
  shows "(\<exists>r1. charged a out used r1 \<and> charged b (fst r1) (snd r1) r) \<longleftrightarrow> charged (opt_append a b) out used r"
proof
  assume "charged (opt_append a b) out used r"
  then obtain x y where xy: "a = Some x" "b = Some y" "fst r = out @ x @ y"
      "unat (snd r) = unat used + (length x + length y)" "unat (snd r) \<le> 8192"
    by (auto simp: charged_def opt_append_eq_Some)
  have "unat (used + of_nat (length x)) = unat used + length x"
    using xy(4,5) unat_of_nat_no_wrap [of "length x", where 'a = 64] by (subst unat_add_no_wrap) auto
  then have "charged a out used (out @ x, used + of_nat (length x)) \<and>
      charged b (out @ x) (used + of_nat (length x)) r"
    using xy by (auto simp: charged_def)
  then show "\<exists>r1. charged a out used r1 \<and> charged b (fst r1) (snd r1) r" by auto
qed (auto simp: charged_def opt_append_eq_Some)

lemma charged_bind:
  assumes "\<And>r. X = Inr r \<longleftrightarrow> charged a out used r" "unat used \<le> 8192"
    "\<And>r1. X = Inr r1 \<Longrightarrow> unat (snd r1) \<le> 8192 \<Longrightarrow> F r1 = Inr r \<longleftrightarrow> charged b (fst r1) (snd r1) r"
  shows "bind_result X F = Inr r \<longleftrightarrow> charged (opt_append a b) out used r"
proof -
  have "unat (snd r1) \<le> 8192" if "charged a out used r1" for r1 using that by (auto simp: charged_def)
  then have "bind_result X F = Inr r \<longleftrightarrow> (\<exists>r1. charged a out used r1 \<and> charged b (fst r1) (snd r1) r)"
    using assms(1,3) unfolding bind_result_eq_Inr by blast
  then show ?thesis by (simp only: charged_append [OF assms(2)])
qed

lemma is_repeat_form_Cons [simp]: "is_repeat_form (List (h # xs)) = is_symbol h ''repeat''"
  by (simp add: is_repeat_form_def)

lemma expansion_nonempty:
  "expansion e = Some xs \<Longrightarrow> xs \<noteq> []"
  "body_expansion ss = Some xs \<Longrightarrow> ss \<noteq> [] \<Longrightarrow> xs \<noteq> []"
proof (induction e and ss arbitrary: xs and xs rule: expansion_body_expansion.induct)
  case (4 h c body_steps)
  then obtain k body where "repeat_count c = Some k" "body_expansion body_steps = Some body" "body_steps \<noteq> []"
      "xs = copies k body" "is_symbol h ''repeat''"
    by (auto split: if_splits option.splits)
  moreover from this have "0 < k" "body \<noteq> []" using 4 unat_gt_0
    by (auto simp: repeat_count_def word_gt_0 split: sum.splits if_splits)
  ultimately show ?case by (metis length_0_conv length_copies mult_is_0 not_gr_zero)
next
  case (6 step rest)
  then show ?case by (auto simp: opt_append_eq_Some body_step_def split: if_splits option.splits)
qed auto

definition parse_body_step ::
  "sexpr \<Rightarrow> node_ref list \<Rightarrow> u64 \<Rightarrow> (protocol_parse_error, node_ref list \<times> u64) result" where
  "parse_body_step step body used = bind_result (parse_node_ref step) (\<lambda>nr.
     if BEGIN_KEYWORD \<in> set (performatives_of nr) then Inl RepeatContainsBegin
     else bind_result (charge_expansion used 1) (\<lambda>used. Inr (body @ [nr], used)))"

lemma parse_body_step_iff:
  "unat used \<le> 8192 \<Longrightarrow> parse_body_step step body used = Inr r \<longleftrightarrow> charged (body_step step) body used r"
  by (cases "parse_node_ref step"; cases r)
    (auto simp: charged_def body_step_def parse_body_step_def plain_step_def charge_expansion_iff result_simps)

lemma repeat_body_plain:
  "\<not> is_repeat_form step \<Longrightarrow> repeat_body (step # rest) body used =
     bind_result (parse_body_step step body used) (\<lambda>(body, used). repeat_body rest body used)"
  by (cases "parse_node_ref step"; cases "charge_expansion used 1") (auto simp: parse_body_step_def)

lemma expand_copies_iff:
  assumes "is_symbol h ''repeat''" "ss \<noteq> []" "unat used \<le> 8192"
    "\<And>r. repeat_body ss [] used = Inr r \<longleftrightarrow> charged (body_expansion ss) [] used r"
  shows "expand_repeat (List (h # c # ss)) out used = Inr r \<longleftrightarrow>
    charged (expansion (List (h # c # ss))) out used r"
proof (cases "parse_nat c")
  case (Inl e)
  then show ?thesis using assms by (auto simp: charged_def repeat_count_def)
next
  case (Inr k)
  show ?thesis
  proof (cases "body_expansion ss")
    case None
    then have "\<exists>e. repeat_body ss [] used = Inl e" using assms(4)
      by (cases "repeat_body ss [] used") (auto simp: charged_def)
    then show ?thesis using assms Inr None by (auto simp: charged_def split: option.splits)
  next
    case (Some body)
    have ne: "0 < length body" using expansion_nonempty(2) [OF Some assms(2)] by simp
    have rb: "repeat_body ss [] used = Inr p \<longleftrightarrow>
        fst p = body \<and> unat (snd p) = unat used + length body \<and> unat used + length body \<le> 8192" for p
      by (auto simp: assms(4) charged_def Some)
    show ?thesis
    proof (cases "unat used + length body \<le> 8192")
      case True
      let ?u = "used + of_nat (length body) :: u64"
      have "unat ?u = unat used + length body"
        using True unat_of_nat_no_wrap [of "length body", where 'a = 64] by (subst unat_add_no_wrap) auto
      then have "repeat_body ss [] used = Inr (body, ?u)" using rb True by simp
      then have "expand_repeat (List (h # c # ss)) out used = Inr r \<longleftrightarrow>
          (\<exists>extra. checked_mul (k - 1) (of_nat (length body)) = Some extra \<and>
             charge_expansion ?u extra = Inr (snd r)) \<and> fst r = out @ copies (unat k) body"
        using assms(1,2) Inr by (cases r) (auto simp: result_simps)
      also have "\<dots> \<longleftrightarrow> charged (expansion (List (h # c # ss))) out used r"
        using assms(1,2) Inr Some copies_charge_iff [OF ne True, of k "snd r"]
        by (auto simp: charged_def repeat_count_def)
      finally show ?thesis .
    next
      case False
      then have "\<exists>e. repeat_body ss [] used = Inl e" using rb by (cases "repeat_body ss [] used") auto
      moreover have "8192 < unat used + unat k * length body" if "0 < k"
        using that False by (cases "unat k") (auto simp: word_gt_0 unat_eq_zero)
      ultimately show ?thesis using assms(1,2) Inr Some
        by (cases "0 < k") (auto simp: charged_def repeat_count_def)
    qed
  qed
qed

lemma expand_repeat_iff:
  "unat used \<le> 8192 \<Longrightarrow> expand_repeat e out used = Inr r \<longleftrightarrow> charged (expansion e) out used r"
  "unat used \<le> 8192 \<Longrightarrow> repeat_body ss body used = Inr r \<longleftrightarrow> charged (body_expansion ss) body used r"
proof (induction e out used and ss body used arbitrary: r and r rule: expand_repeat_repeat_body.induct)
  case (4 h c body_steps out used)
  show ?case
  proof (cases "is_symbol h ''repeat'' \<and> body_steps \<noteq> [] \<and> is_ok (parse_nat c)")
    case True
    then obtain k where "parse_nat c = Inr k" by (cases "parse_nat c") auto
    then show ?thesis using True 4 by (intro expand_copies_iff) auto
  next
    case False
    then show ?thesis by (cases "parse_nat c") (auto simp: charged_def repeat_count_def)
  qed
next
  case (6 step rest body used)
  show ?case
  proof (cases "is_repeat_form step")
    case True
    have "bind_result (expand_repeat step body used) (\<lambda>(body, used). repeat_body rest body used) = Inr r \<longleftrightarrow>
        charged (opt_append (expansion step) (body_expansion rest)) body used r"
      by (rule charged_bind [OF 6(1) [OF True 6(4)] 6(4)]) (simp only: case_prod_unfold 6(2) [OF True])
    then show ?thesis using True by (simp only: repeat_body.simps body_expansion.simps if_True)
  next
    case False
    have "bind_result (parse_body_step step body used) (\<lambda>(body, used). repeat_body rest body used) = Inr r \<longleftrightarrow>
        charged (opt_append (body_step step) (body_expansion rest)) body used r"
    proof (rule charged_bind [OF parse_body_step_iff [OF 6(4)] 6(4)])
      fix r1 assume r1: "parse_body_step step body used = Inr r1" "unat (snd r1) \<le> 8192"
      then obtain nr where "BEGIN_KEYWORD \<notin> set (performatives_of nr)" "fst r1 = body @ [nr]"
        by (auto simp: parse_body_step_def result_simps split: if_splits)
      then show "(case r1 of (body, used) \<Rightarrow> repeat_body rest body used) = Inr r \<longleftrightarrow>
          charged (body_expansion rest) (fst r1) (snd r1) r"
        using 6(3) [OF False _ r1(2), of nr] by (simp add: case_prod_unfold)
    qed
    then show ?thesis using False by (simp only: repeat_body_plain [OF False] body_expansion.simps if_False)
  qed
qed (auto simp: charged_def word_unat_eq_iff)

section \<open>Chains and clauses\<close>

lemma then_refs_iff:
  "unat used \<le> 8192 \<Longrightarrow> then_refs items refs used = Inr (refs', used') \<longleftrightarrow>
     (\<exists>xs. chain_refs items = Some xs \<and> refs' = refs @ xs \<and>
       unat used' = unat used + chain_cost items \<and> unat used' \<le> 8192)"
proof (induction items arbitrary: refs used)
  case (Cons item items)
  show ?case
  proof (cases "is_repeat_form item")
    case True
    show ?thesis
    proof (cases "expansion item")
      case None
      then have "\<exists>e. expand_repeat item refs used = Inl e" using Cons.prems
        by (cases "expand_repeat item refs used") (auto simp: expand_repeat_iff charged_def)
      then show ?thesis using True None by (auto simp: chain_step_def opt_append_def)
    next
      case (Some ys)
      have ex: "expand_repeat item refs used = Inr r \<longleftrightarrow>
          fst r = refs @ ys \<and> unat (snd r) = unat used + length ys \<and> unat (snd r) \<le> 8192" for r
        using Cons.prems Some by (auto simp: expand_repeat_iff charged_def)
      have cost: "chain_cost (item # items) = length ys + chain_cost items"
        using True Some by (simp add: chain_cost_def step_cost_def)
      show ?thesis
      proof (cases "unat used + length ys \<le> 8192")
        case le: True
        let ?u = "used + of_nat (length ys) :: u64"
        have u: "unat ?u = unat used + length ys"
          using le unat_of_nat_no_wrap [of "length ys", where 'a = 64] by (subst unat_add_no_wrap) auto
        then have "expand_repeat item refs used = Inr (refs @ ys, ?u)" using ex le by simp
        then show ?thesis using True Some u le cost Cons.IH [of ?u "refs @ ys"]
          by (auto simp: chain_step_def opt_append_eq_Some)
      next
        case False
        then have "\<exists>e. expand_repeat item refs used = Inl e"
          using ex by (cases "expand_repeat item refs used") fastforce+
        then show ?thesis using True False cost by auto
      qed
    qed
  next
    case False
    then show ?thesis using Cons
      by (cases "parse_node_ref item")
        (auto simp: chain_step_def plain_step_def opt_append_eq_Some chain_cost_def step_cost_def)
  qed
qed (auto simp: chain_cost_def word_unat_eq_iff)

definition then_chain :: "sexpr \<Rightarrow> node_ref list option" where
  "then_chain e = (case e of
       List (h # items) \<Rightarrow>
         if is_symbol h ''then''
         then case chain_refs items of Some xs \<Rightarrow> if 2 \<le> length xs then Some xs else None | None \<Rightarrow> None
         else None
     | _ \<Rightarrow> None)"

definition clause_cost :: "sexpr \<Rightarrow> nat" where
  "clause_cost e = (case e of List (h # items) \<Rightarrow> chain_cost items | _ \<Rightarrow> 0)"

lemma parse_then_clause_iff:
  assumes "unat used \<le> 8192"
  shows "parse_then_clause e used = Inr (es, used') \<longleftrightarrow>
    (\<exists>xs. then_chain e = Some xs \<and> es = zip xs (tl xs) \<and>
      unat used' = unat used + clause_cost e \<and> unat used' \<le> 8192)"
proof (cases "\<exists>h items. e = List (h # items) \<and> is_symbol h ''then''")
  case True
  then obtain h items where e: "e = List (h # items)" "is_symbol h ''then''" by auto
  then have "parse_then_clause e used = Inr (es, used') \<longleftrightarrow>
      (\<exists>refs. then_refs items [] used = Inr (refs, used') \<and> 2 \<le> length refs \<and> es = zip refs (tl refs))"
    by (cases "then_refs items [] used") (auto simp: parse_then_clause_def split: if_splits)
  then show ?thesis using e assms
    by (auto simp: then_refs_iff then_chain_def clause_cost_def split: option.splits)
next
  case False
  then show ?thesis
    by (auto simp: parse_then_clause_def then_chain_def split: sexpr.splits list.splits)
qed

fun chains_of :: "sexpr list \<Rightarrow> node_ref list list option" where
  "chains_of [] = Some []"
| "chains_of (clause # clauses) = opt_append (map_option (\<lambda>xs. [xs]) (then_chain clause)) (chains_of clauses)"

definition chain_edges :: "node_ref list list \<Rightarrow> (node_ref \<times> node_ref) list" where
  "chain_edges css = concat (map (\<lambda>xs. zip xs (tl xs)) css)"

lemma parse_clauses_iff:
  "unat used \<le> 8192 \<Longrightarrow> parse_clauses clauses tbl used = Inr tbl' \<longleftrightarrow>
     (\<exists>css. chains_of clauses = Some css \<and> unat used + sum_list (map clause_cost clauses) \<le> 8192 \<and>
        tbl' = foldl record_edge tbl (chain_edges css))"
proof (induction clauses arbitrary: tbl used)
  case (Cons clause clauses)
  show ?case
  proof (cases "parse_then_clause clause used")
    case (Inl err)
    moreover have "then_chain clause = None \<or> 8192 < unat used + clause_cost clause"
    proof (rule ccontr)
      assume "\<not> ?thesis"
      moreover from this have "unat (of_nat (unat used + clause_cost clause) :: u64) = unat used + clause_cost clause"
        by (intro unat_of_nat_no_wrap) simp
      ultimately have "\<exists>es used'. parse_then_clause clause used = Inr (es, used')"
        unfolding parse_then_clause_iff [OF Cons.prems] by auto
      then show False using Inl by simp
    qed
    ultimately show ?thesis by (auto simp: opt_append_eq_Some)
  next
    case (Inr r)
    then obtain xs used' where xs: "then_chain clause = Some xs" "r = (zip xs (tl xs), used')"
        "unat used' = unat used + clause_cost clause" "unat used' \<le> 8192"
      using parse_then_clause_iff [OF Cons.prems, of clause "fst r" "snd r"] by (cases r) auto
    then show ?thesis using Inr Cons.IH [OF xs(4)]
      by (auto simp: opt_append_eq_Some chain_edges_def add.assoc)
  qed
qed (auto simp: chain_edges_def)

section \<open>The step table\<close>

definition edge_names :: "(node_ref \<times> node_ref) list \<Rightarrow> string list" where
  "edge_names es = concat (map (\<lambda>(a, b). performatives_of a @ performatives_of b) es)"

definition edge_step :: "(node_ref \<times> node_ref) list \<Rightarrow> string \<Rightarrow> step_decl" where
  "edge_step es p =
     \<lparr>step_performative = p,
      predecessors = map fst (filter (\<lambda>(a, b). p \<in> set (performatives_of b)) es),
      successors = map snd (filter (\<lambda>(a, b). p \<in> set (performatives_of a)) es)\<rparr>"

text \<open>The protocol of a list of edges: a step for every name, with the other ends of its edges in order.\<close>

definition edge_table :: "(node_ref \<times> node_ref) list \<Rightarrow> (string, step_decl) btmap" where
  "edge_table es = map (\<lambda>p. (p, edge_step es p)) (bs_of_list (edge_names es))"

definition distinct_ref :: "node_ref \<Rightarrow> bool" where
  "distinct_ref nr \<longleftrightarrow> distinct (performatives_of nr)"

lemma bt_get_push_successors:
  "distinct ps \<Longrightarrow> bt_get (foldl (push_successor b) tbl ps) p =
     (if p \<in> set ps then Some ((step_entry tbl p)\<lparr>successors := successors (step_entry tbl p) @ [b]\<rparr>)
      else bt_get tbl p)"
proof (induction ps arbitrary: tbl)
  case (Cons q ps)
  have "bt_get (push_successor b tbl q) p =
      (if p = q then Some ((step_entry tbl p)\<lparr>successors := successors (step_entry tbl p) @ [b]\<rparr>)
       else bt_get tbl p)" for p
    by (simp add: push_successor_def)
  moreover from this have "step_entry (push_successor b tbl q) p = step_entry tbl p" if "p \<noteq> q" for p
    using that by (simp add: step_entry_def)
  ultimately show ?case using Cons by (cases "p = q") auto
qed simp

lemma bt_get_push_predecessors:
  "distinct ps \<Longrightarrow> bt_get (foldl (push_predecessor a) tbl ps) p =
     (if p \<in> set ps then Some ((step_entry tbl p)\<lparr>predecessors := predecessors (step_entry tbl p) @ [a]\<rparr>)
      else bt_get tbl p)"
proof (induction ps arbitrary: tbl)
  case (Cons q ps)
  have "bt_get (push_predecessor a tbl q) p =
      (if p = q then Some ((step_entry tbl p)\<lparr>predecessors := predecessors (step_entry tbl p) @ [a]\<rparr>)
       else bt_get tbl p)" for p
    by (simp add: push_predecessor_def)
  moreover from this have "step_entry (push_predecessor a tbl q) p = step_entry tbl p" if "p \<noteq> q" for p
    using that by (simp add: step_entry_def)
  ultimately show ?case using Cons by (cases "p = q") auto
qed simp

lemma bt_get_record_edges:
  "list_all (\<lambda>(a, b). distinct_ref a \<and> distinct_ref b) es \<Longrightarrow>
     bt_get (foldl record_edge [] es) p = (if p \<in> set (edge_names es) then Some (edge_step es p) else None)"
proof (induction es arbitrary: p rule: rev_induct)
  case (snoc e es)
  obtain a b where e: "e = (a, b)" by (cases e)
  have entry: "step_entry (foldl record_edge [] es) p = edge_step es p" for p
  proof (cases "p \<in> set (edge_names es)")
    case False
    then have "predecessors (edge_step es p) = []" "successors (edge_step es p) = []"
      by (auto simp: edge_names_def edge_step_def filter_empty_conv)
    then show ?thesis using snoc False by (simp add: step_entry_def edge_step_def)
  qed (use snoc in \<open>simp add: step_entry_def\<close>)
  define tbl where "tbl = foldl (push_successor b) (foldl record_edge [] es) (performatives_of a)"
  have get: "bt_get tbl p =
      (if p \<in> set (performatives_of a)
       then Some ((edge_step es p)\<lparr>successors := successors (edge_step es p) @ [b]\<rparr>)
       else if p \<in> set (edge_names es) then Some (edge_step es p) else None)" for p
    using snoc e entry by (simp add: tbl_def bt_get_push_successors distinct_ref_def)
  then have "step_entry tbl p =
      (if p \<in> set (performatives_of a)
       then (edge_step es p)\<lparr>successors := successors (edge_step es p) @ [b]\<rparr> else edge_step es p)" for p
    using entry [of p] snoc by (simp add: step_entry_def)
  moreover have "foldl record_edge [] (es @ [e]) = foldl (push_predecessor a) tbl (performatives_of b)"
    by (simp add: e tbl_def record_edge_def)
  moreover have "edge_step (es @ [e]) p = (edge_step es p)\<lparr>
      predecessors := predecessors (edge_step es p) @ (if p \<in> set (performatives_of b) then [a] else []),
      successors := successors (edge_step es p) @ (if p \<in> set (performatives_of a) then [b] else [])\<rparr>"
    by (simp add: edge_step_def e)
  moreover have "p \<in> set (edge_names (es @ [e])) \<longleftrightarrow>
      p \<in> set (performatives_of a) \<or> p \<in> set (performatives_of b) \<or> p \<in> set (edge_names es)"
    by (auto simp: edge_names_def e)
  ultimately show ?case using snoc.prems e get [of p]
    by (simp add: bt_get_push_predecessors distinct_ref_def)
qed (simp add: edge_names_def)

lemma bt_sorted_foldl: "(\<And>tbl x. bt_sorted tbl \<Longrightarrow> bt_sorted (f tbl x)) \<Longrightarrow> bt_sorted tbl \<Longrightarrow> bt_sorted (foldl f tbl xs)"
  by (induction xs arbitrary: tbl) auto

lemma record_edges_exact:
  assumes "list_all (\<lambda>(a, b). distinct_ref a \<and> distinct_ref b) es"
  shows "foldl record_edge [] es = edge_table es"
proof (rule bt_sorted_eqI)
  show "bt_sorted (foldl record_edge [] es)"
    by (intro bt_sorted_foldl) (auto simp: record_edge_def push_successor_def push_predecessor_def
        split: prod.splits intro!: bt_sorted_foldl)
  show "bt_sorted (edge_table es)"
    using bs_sorted_of_list [of "edge_names es"] by (simp add: bt_sorted_def edge_table_def bs_sorted_def comp_def)
  show "bt_get (foldl record_edge [] es) = bt_get (edge_table es)"
    using bt_get_record_edges [OF assms]
    by (auto simp: edge_table_def map_of_map_restrict restrict_map_def)
qed

section \<open>Names\<close>

fun symbols_in :: "sexpr \<Rightarrow> string set" where
  "symbols_in (Atom a) = (case a of Symbol s \<Rightarrow> {s} | _ \<Rightarrow> {})"
| "symbols_in (List items) = (\<Union>e \<in> set items. symbols_in e)"

text \<open>A reference over the symbols of a source: distinct names whose base names are among them.\<close>

definition ref_over :: "string set \<Rightarrow> node_ref \<Rightarrow> bool" where
  "ref_over S nr \<longleftrightarrow> distinct_ref nr \<and> performatives_of nr \<noteq> [] \<and>
     (\<forall>p \<in> set (performatives_of nr). repeat_base_name p \<in> S)"

lemma repeat_base_name_user: "REPEAT_SEPARATOR \<notin> set s \<Longrightarrow> repeat_base_name s = s"
  by (auto simp: repeat_base_name_def)

lemma repeat_base_name_suffix [simp]: "repeat_base_name (suffix_name i s) = repeat_base_name s"
  by (induction s) (auto simp: repeat_base_name_def suffix_name_def)

lemma set_performatives_suffix:
  "set (performatives_of (suffix_node_ref i nr)) = suffix_name i ` set (performatives_of nr)"
  by (cases nr) (auto simp: suffix_node_ref_def performatives_of_def)

lemma ref_over_suffix: "ref_over S nr \<Longrightarrow> ref_over S (suffix_node_ref i nr)"
  using set_performatives_suffix [of i nr] bs_sorted_distinct [OF bs_sorted_of_list]
  by (cases nr) (auto simp: ref_over_def distinct_ref_def suffix_node_ref_def performatives_of_def)

lemma group_names_ok:
  "group_names kind items acc = Inr names \<Longrightarrow> bs_sorted acc \<Longrightarrow>
     bs_sorted names \<and> set acc \<subseteq> set names \<and> (items \<noteq> [] \<longrightarrow> names \<noteq> []) \<and>
     (\<forall>p \<in> set names - set acc. repeat_base_name p \<in> (\<Union>e \<in> set items. symbols_in e))"
proof (induction kind items acc rule: group_names.induct)
  case (2 kind item items acc)
  then obtain s where s: "item = Atom (Symbol s)" "REPEAT_SEPARATOR \<notin> set s"
      "group_names kind items (bs_insert s acc) = Inr names"
    by (auto simp: check_user_symbol_def split: sexpr.splits atom.splits if_splits)
  then have "bs_sorted names" "set (bs_insert s acc) \<subseteq> set names"
      "\<forall>p \<in> set names - set (bs_insert s acc). repeat_base_name p \<in> (\<Union>e \<in> set items. symbols_in e)"
    using 2 by (auto simp: check_user_symbol_def)
  then show ?case using s repeat_base_name_user [OF s(2)] by auto
qed auto

lemma plain_step_ok: "plain_step e = Some nr \<Longrightarrow> symbols_in e \<subseteq> S \<Longrightarrow> ref_over S nr"
proof -
  assume e: "plain_step e = Some nr" "symbols_in e \<subseteq> S"
  then consider s where "e = Atom (Symbol s)" "REPEAT_SEPARATOR \<notin> set s" "nr = NSingle s"
    | h items kind names where "e = List (h # items)" "\<not> length items < 2"
        "group_names kind items [] = Inr names" "nr = NAny names \<or> nr = NAll names"
    by (auto simp: plain_step_def parse_node_ref_def check_user_symbol_def
          result_simps
        split: sum.splits sexpr.splits atom.splits list.splits if_splits)
  then show ?thesis
  proof cases
    case 1
    then show ?thesis using e by (simp add: ref_over_def distinct_ref_def performatives_of_def repeat_base_name_user)
  next
    case 2
    then have "items \<noteq> []" by auto
    then show ?thesis using 2 e group_names_ok [OF 2(3)] bs_sorted_distinct
      by (auto simp: ref_over_def distinct_ref_def performatives_of_def)
  qed
qed

lemma expansion_ok:
  "expansion e = Some xs \<Longrightarrow> symbols_in e \<subseteq> S \<Longrightarrow> list_all (ref_over S) xs"
  "body_expansion ss = Some xs \<Longrightarrow> (\<Union>e \<in> set ss. symbols_in e) \<subseteq> S \<Longrightarrow> list_all (ref_over S) xs"
proof (induction e and ss arbitrary: xs and xs rule: expansion_body_expansion.induct)
  case (4 h c body_steps)
  then show ?case by (auto simp: copies_def list_all_iff ref_over_suffix split: if_splits option.splits)
next
  case (6 step rest)
  then show ?case
    by (auto simp: opt_append_eq_Some body_step_def plain_step_ok split: if_splits option.splits)
qed auto

lemma chain_refs_ok:
  "chain_refs items = Some xs \<Longrightarrow> (\<Union>e \<in> set items. symbols_in e) \<subseteq> S \<Longrightarrow> list_all (ref_over S) xs"
  by (induction items arbitrary: xs)
    (auto simp: opt_append_eq_Some chain_step_def plain_step_ok expansion_ok split: if_splits)

lemma chains_of_ok:
  "chains_of clauses = Some css \<Longrightarrow> (\<Union>e \<in> set clauses. symbols_in e) \<subseteq> S \<Longrightarrow> list_all (list_all (ref_over S)) css"
proof (induction clauses arbitrary: css)
  case (Cons clause clauses)
  then obtain xs css' where css: "then_chain clause = Some xs" "chains_of clauses = Some css'" "css = xs # css'"
    by (auto simp: opt_append_eq_Some)
  then have "list_all (ref_over S) xs" using Cons.prems(2)
    by (auto simp: then_chain_def intro!: chain_refs_ok split: sexpr.splits list.splits if_splits option.splits)
  then show ?case using Cons css by simp
qed simp

lemma chain_edges_ok:
  assumes "list_all (list_all (ref_over S)) css"
  shows "list_all (\<lambda>(a, b). ref_over S a \<and> ref_over S b) (chain_edges css)"
proof -
  have "ref_over S a \<and> ref_over S b" if "(a, b) \<in> set (zip xs (tl xs))" "xs \<in> set css" for a b xs
    using that assms set_zip_leftD [OF that(1)] list.set_sel(2) [OF _ set_zip_rightD [OF that(1)]]
    by (cases xs) (auto simp: list_all_iff)
  then show ?thesis by (auto simp: chain_edges_def list_all_iff)
qed

section \<open>Copies never collide\<close>

lemma show_nat_no_separator: "REPEAT_SEPARATOR \<notin> set (show_nat n)"
  using show_nat_digits [of n] by (auto simp: list_all_iff is_ascii_digit_def REPEAT_SEPARATOR_def)

lemma append_last_separator:
  assumes "s @ c # xs = t @ c # ys" "c \<notin> set xs" "c \<notin> set ys"
  shows "s = t \<and> xs = ys"
  using assms by (auto simp: append_eq_append_conv2 append_eq_Cons_conv Cons_eq_append_conv)

lemma show_nat_inj: "show_nat i = show_nat j \<Longrightarrow> i = j"
  using digits_value_show_nat by metis

lemma suffix_name_inject: "suffix_name i s = suffix_name j t \<longleftrightarrow> i = j \<and> s = t"
  using append_last_separator [OF _ show_nat_no_separator show_nat_no_separator, of s i t j] show_nat_inj
  by (auto simp: suffix_name_def)

text \<open>The names of two copies of a body overlap only when they are the same copy of overlapping
  references, and no copy has a name a source can declare.\<close>

lemma copies_disjoint:
  assumes "p \<in> set (performatives_of (suffix_node_ref i a))"
  shows "REPEAT_SEPARATOR \<in> set p \<and>
    (p \<in> set (performatives_of (suffix_node_ref j b)) \<longleftrightarrow>
       i = j \<and> p \<in> suffix_name i ` (set (performatives_of a) \<inter> set (performatives_of b)))"
  using assms by (auto simp: set_performatives_suffix suffix_name_inject) (auto simp: suffix_name_def)

section \<open>The parser decides the grammar\<close>

definition protocol_chains :: "sexpr \<Rightarrow> node_ref list list option" where
  "protocol_chains e = (case e of
       List (h # clauses) \<Rightarrow> if is_symbol h ''protocol'' \<and> clauses \<noteq> [] then chains_of clauses else None
     | _ \<Rightarrow> None)"

definition protocol_cost :: "sexpr \<Rightarrow> nat" where
  "protocol_cost e = (case e of List (h # clauses) \<Rightarrow> sum_list (map clause_cost clauses) | _ \<Rightarrow> 0)"

lemma protocol_chains_ok:
  "protocol_chains e = Some css \<Longrightarrow> list_all (\<lambda>(a, b). ref_over (symbols_in e) a \<and> ref_over (symbols_in e) b) (chain_edges css)"
  by (rule chain_edges_ok)
    (auto simp: protocol_chains_def intro!: chains_of_ok split: sexpr.splits list.splits if_splits)

lemma parse_protocol_iff:
  "parse_protocol e = Inr cp \<longleftrightarrow>
     (\<exists>css. protocol_chains e = Some css \<and> protocol_cost e \<le> 8192 \<and> cp = \<lparr>steps = edge_table (chain_edges css)\<rparr>)"
proof (cases "\<exists>h clauses. e = List (h # clauses) \<and> is_symbol h ''protocol'' \<and> clauses \<noteq> []")
  case True
  then obtain h clauses where e: "e = List (h # clauses)" "is_symbol h ''protocol''" "clauses \<noteq> []" by auto
  have "foldl record_edge [] (chain_edges css) = edge_table (chain_edges css)" if "chains_of clauses = Some css" for css
    using protocol_chains_ok [of e css] that e
    by (intro record_edges_exact) (auto simp: protocol_chains_def list_all_iff ref_over_def)
  then show ?thesis using e
    by (auto simp: parse_protocol_def protocol_chains_def protocol_cost_def bind_result_eq_Inr parse_clauses_iff)
next
  case False
  then show ?thesis by (auto simp: parse_protocol_def protocol_chains_def split: sexpr.splits list.splits)
qed

lemma parse_protocol_table:
  assumes "parse_protocol e = Inr cp"
  obtains es where "cp = \<lparr>steps = edge_table es\<rparr>"
    "list_all (\<lambda>(a, b). ref_over (symbols_in e) a \<and> ref_over (symbols_in e) b) es"
  using assms protocol_chains_ok unfolding parse_protocol_iff by blast

lemma step_edges_table:
  "step_edges (edge_table es) =
     {(p, q). \<exists>(a, b) \<in> set es. p \<in> set (performatives_of a) \<and> q \<in> set (performatives_of b)}"
  by (force simp: step_edges_def edge_table_def edge_step_def edge_names_def)

text \<open>The relation the verifier consults: \<open>p\<close> is named by a predecessor reference of the step \<open>q\<close>.\<close>

definition precedes :: "causal_protocol \<Rightarrow> (string \<times> string) set" where
  "precedes cp = {(p, q). \<exists>step. bt_get (steps cp) q = Some step \<and>
     (\<exists>nr \<in> set (predecessors step). p \<in> set (performatives_of nr))}"

lemma bt_get_edge_table:
  "bt_get (edge_table es) p = (if p \<in> set (edge_names es) then Some (edge_step es p) else None)"
  by (simp add: edge_table_def map_of_map_restrict restrict_map_def)

lemma precedes_table: "precedes \<lparr>steps = edge_table es\<rparr> = step_edges (edge_table es)"
  unfolding step_edges_table
  by (force simp: precedes_def bt_get_edge_table edge_step_def edge_names_def split: if_splits)

lemma repeat_base_name_no_separator: "REPEAT_SEPARATOR \<notin> set (repeat_base_name p)"
  by (auto simp: repeat_base_name_def dest: set_takeWhileD)

section \<open>Properties\<close>

text \<open>C17: a protocol declaration parses exactly when it is a \<open>protocol\<close> form whose clauses are \<open>then\<close>
  chains of the grammar of at least two references after the expansion of their \<open>repeat\<close> forms, and the
  expansions charge at most 8192 references in all. The result is the step table of the edges
  between neighbours in the expanded chains.\<close>

theorem protocol_parse_exact:
  "parse_protocol e = Inr cp \<longleftrightarrow>
     (\<exists>css. protocol_chains e = Some css \<and> protocol_cost e \<le> 8192 \<and> cp = \<lparr>steps = edge_table (chain_edges css)\<rparr>)"
  by (rule parse_protocol_iff)

text \<open>In a parsed protocol the predecessor references that causal verification reads are exactly the
  converse of the successor references that the R5 checks walk, so a protocol without R5 findings
  orders its steps acyclically for the verifier too. Every name is a symbol of the source or a copy of
  one, and every name a reference mentions has a step.\<close>

lemma parsed_protocol_sound:
  assumes "parse_protocol e = Inr cp"
  shows "precedes cp = step_edges (steps cp) \<and>
    (check_acyclicity cp = [] \<longrightarrow> acyclic (precedes cp)) \<and>
    bt_sorted (steps cp) \<and>
    (\<forall>(p, step) \<in> set (steps cp). step_performative step = p \<and> repeat_base_name p \<in> symbols_in e) \<and>
    mentioned cp = set (bt_keys (steps cp))"
proof (intro conjI impI)
  obtain es where es: "cp = \<lparr>steps = edge_table es\<rparr>"
      "list_all (\<lambda>(a, b). ref_over (symbols_in e) a \<and> ref_over (symbols_in e) b) es"
    using parse_protocol_table [OF assms] .
  show pre: "precedes cp = step_edges (steps cp)" by (simp add: es(1) precedes_table)
  show "check_acyclicity cp = [] \<Longrightarrow> acyclic (precedes cp)"
    by (simp add: pre check_acyclicity_ok)
  show "bt_sorted (steps cp)"
    using bs_sorted_of_list [of "edge_names es"] by (simp add: es(1) bt_sorted_def edge_table_def bs_sorted_def comp_def)
  show "\<forall>(p, step) \<in> set (steps cp). step_performative step = p \<and> repeat_base_name p \<in> symbols_in e"
    using es(2) by (fastforce simp: es(1) edge_table_def edge_step_def edge_names_def list_all_iff ref_over_def)
  show "mentioned cp = set (bt_keys (steps cp))"
    by (fastforce simp: es(1) mentioned_def step_mentions_def edge_table_def edge_step_def edge_names_def)
qed

definition sample_declaration :: sexpr where
  "sample_declaration = List [Sym ''protocol'',
     List [Sym ''then'', Sym ''begin'', List [Sym ''repeat'', Atom (Num 2), Sym ''bid''], Sym ''done'']]"

definition sample_chain :: "node_ref list" where
  "sample_chain = [NSingle ''begin'', NSingle ''bid#1'', NSingle ''bid#2'', NSingle ''done'']"

lemma sample_nodes:
  "parse_node_ref (Sym ''begin'') = Inr (NSingle ''begin'')" "parse_node_ref (Sym ''bid'') = Inr (NSingle ''bid'')"
  "parse_node_ref (Sym ''done'') = Inr (NSingle ''done'')"
  by (simp_all add: parse_node_ref_def check_user_symbol_def REPEAT_SEPARATOR_def)

lemma sample_repeat:
  "expansion (List [Sym ''repeat'', Atom (Num 2), Sym ''bid'']) = Some [NSingle ''bid#1'', NSingle ''bid#2'']"
proof -
  have "[1..<Suc 2] = [1, 2]" by (simp add: upt_rec)
  then have "copies 2 [NSingle ''bid''] = [NSingle ''bid#1'', NSingle ''bid#2'']"
    by (simp add: copies_def suffix_node_ref_def suffix_name_def REPEAT_SEPARATOR_def show_nat.simps digit_char_def
        char_of_def bit_iff_odd)
  moreover have "repeat_count (Atom (Num 2)) = Some 2" by (simp add: repeat_count_def parse_nat_def)
  ultimately show ?thesis
    by (simp add: sample_nodes is_symbol_def body_step_def plain_step_def opt_append_def performatives_of_def
        BEGIN_KEYWORD_def is_repeat_form_def)
qed

lemma sample_chains: "protocol_chains sample_declaration = Some [sample_chain]" "protocol_cost sample_declaration = 2"
  by (simp_all add: sample_repeat sample_nodes sample_declaration_def protocol_chains_def protocol_cost_def clause_cost_def
      chain_cost_def step_cost_def then_chain_def chain_step_def plain_step_def opt_append_def is_repeat_form_def
      is_symbol_def sample_chain_def del: expansion.simps)

lemma parsed_protocol_sound_witness:
  "\<exists>cp. parse_protocol sample_declaration = Inr cp \<and> acyclic (precedes cp) \<and> mentioned cp = set (bt_keys (steps cp))"
proof -
  let ?cp = "\<lparr>steps = edge_table (chain_edges [sample_chain])\<rparr>"
  have parsed: "parse_protocol sample_declaration = Inr ?cp"
    using sample_chains by (simp add: parse_protocol_iff)
  have "step_edges (steps ?cp) \<subseteq> measure (\<lambda>p. length (takeWhile (\<lambda>q. q \<noteq> p) [''begin'', ''bid#1'', ''bid#2'', ''done'']))"
    by (auto simp: step_edges_table chain_edges_def sample_chain_def performatives_of_def)
  then have "check_acyclicity ?cp = []"
    unfolding check_acyclicity_ok by (intro wf_acyclic) (rule wf_subset [OF wf_measure])
  then show ?thesis using parsed parsed_protocol_sound [OF parsed] by blast
qed

text \<open>The budget counts references, not the step instances they name: a repetition of a choice of two
  steps is accepted up to 8192 copies and makes twice as many instances as the ceiling allows.\<close>

lemma group_copies_undercharged:
  assumes "1 \<le> k" "k \<le> 8192"
  shows "\<exists>refs. expand_repeat (List [Sym ''repeat'', Atom (Num (int k)), List [Sym ''any'', Sym ''a'', Sym ''b'']]) [] 0 =
      Inr (refs, of_nat k) \<and> length (concat (map performatives_of refs)) = 2 * k"
proof -
  let ?g = "List [Sym ''any'', Sym ''a'', Sym ''b'']"
  let ?e = "List [Sym ''repeat'', Atom (Num (int k)), ?g]"
  have k: "unat (of_nat k :: u64) = k" using assms by (intro unat_of_nat_no_wrap) simp
  have g: "parse_node_ref ?g = Inr (NAny [''a'', ''b''])" "\<not> is_repeat_form ?g"
    by (simp_all add: parse_node_ref_def check_user_symbol_def REPEAT_SEPARATOR_def is_repeat_form_def is_symbol_def)
  have "repeat_count (Atom (Num (int k))) = Some k"
    using assms k by (auto simp: repeat_count_def parse_nat_def word_less_nat_alt)
  then have e: "expansion ?e = Some (copies k [NAny [''a'', ''b'']])"
    using g by (simp add: is_symbol_def body_step_def plain_step_def opt_append_def performatives_of_def BEGIN_KEYWORD_def)
  then have "expand_repeat ?e [] 0 = Inr (copies k [NAny [''a'', ''b'']], of_nat k)"
    using assms k by (simp add: expand_repeat_iff charged_def del: expand_repeat.simps)
  moreover have "length (performatives_of (suffix_node_ref i (NAny [''a'', ''b'']))) = 2" for i
  proof -
    have "card (suffix_name i ` {''a'', ''b''}) = 2"
      by (simp add: suffix_name_inject)
    then show ?thesis
      using distinct_card [OF bs_sorted_distinct [OF bs_sorted_of_list [of "map (suffix_name i) [''a'', ''b'']"]]]
      by (simp add: suffix_node_ref_def performatives_of_def)
  qed
  then have "length (concat (map performatives_of (copies k [NAny [''a'', ''b'']]))) = 2 * k"
    by (induction k) (auto simp: copies_def)
  ultimately show ?thesis by blast
qed

end
