(* ===== verification/Cbcl_Stateparse.thy ===== *)
theory Cbcl_Stateparse
  imports Cbcl_Clause
begin

text \<open>
  The parser of \<open>(state entry ...)\<close> and \<open>(:state-bounds bound ...)\<close> clauses,
  \<open>cbcl-parser/src/state_parser.rs\<close>: rules, the bounded-counter declaration with its options and
  certification profile, entries and bounds. The canonical options of a parsed counter are shown to parse
  back to the same counter.
\<close>

section \<open>Atoms\<close>

definition clause_symbol :: "sexpr \<Rightarrow> string \<Rightarrow> (string, string) result" where
  "clause_symbol s what = (case s of
       Atom (Symbol x) \<Rightarrow> Inr x
     | _ \<Rightarrow> Inl (what @ '' must be a symbol, got '' @ display_sexpr s))"

definition clause_keyword :: "sexpr \<Rightarrow> string \<Rightarrow> (string, string) result" where
  "clause_keyword s what = (case s of
       Atom (Keyword x) \<Rightarrow> Inr x
     | _ \<Rightarrow> Inl (what @ '' must be a keyword field (:name), got '' @ display_sexpr s))"

definition is_ascii_lowercase :: "char \<Rightarrow> bool" where
  "is_ascii_lowercase c \<longleftrightarrow> byte CHR ''a'' \<le> byte c \<and> byte c \<le> byte CHR ''z''"

definition is_field_name :: "string \<Rightarrow> bool" where
  "is_field_name s \<longleftrightarrow> s \<noteq> [] \<and> length s \<le> 48 \<and> is_ascii_lowercase (hd s) \<and>
     list_all (\<lambda>c. is_ascii_lowercase c \<or> is_ascii_digit c \<or> c = CHR ''-'') s"

section \<open>Certification\<close>

fun parse_symbols :: "sexpr list \<Rightarrow> string \<Rightarrow> (string, string list) result" where
  "parse_symbols [] what = Inr []"
| "parse_symbols (x # xs) what = bind_result (clause_symbol x what) (\<lambda>s.
     bind_result (parse_symbols xs what) (\<lambda>ss. Inr (s # ss)))"

definition parse_faults :: "sexpr \<Rightarrow> (string, u32) result" where
  "parse_faults e = (case e of
       Atom (Num n) \<Rightarrow> if 0 \<le> n \<and> n < 2 ^ 32 then Inr (word_of_int n)
         else Inl ''faults must be a nonnegative 32-bit integer''
     | _ \<Rightarrow> Inl ''faults requires an integer'')"

text \<open>The loop over the options of a \<open>quorum-budget\<close> profile, with the names already seen.\<close>

fun certification_options ::
  "sexpr list \<Rightarrow> string list \<Rightarrow> string list option \<Rightarrow> u32 option \<Rightarrow>
   (string, string list option \<times> u32 option) result" where
  "certification_options [] seen vs fs = Inr (vs, fs)"
| "certification_options (opt # opts) seen vs fs = (case opt of
       Atom _ \<Rightarrow> Inl ''certification option must be a list''
     | List [] \<Rightarrow> Inl ''empty certification option''
     | List (head # xs) \<Rightarrow> bind_result (clause_symbol head ''certification option'') (\<lambda>name.
         if name \<in> set seen then Inl (''duplicate certification option '' @ quoted name)
         else if name = ''validators''
         then if xs = [] then Inl ''validators requires at least one key''
           else bind_result (parse_symbols xs ''validator key'') (\<lambda>keys.
             certification_options opts (name # seen) (Some keys) fs)
         else if name = ''faults'' \<and> length xs = 1
         then bind_result (parse_faults (hd xs)) (\<lambda>f. certification_options opts (name # seen) vs (Some f))
         else Inl (''unknown or malformed certification option '' @ quoted name)))"

definition parse_certification :: "sexpr list \<Rightarrow> (string, certification) result" where
  "parse_certification args = (case args of
       [] \<Rightarrow> Inl ''certification requires a profile''
     | mode # opts \<Rightarrow> bind_result (clause_symbol mode ''certification profile'') (\<lambda>profile.
         if profile = ''host-gate'' \<and> opts = [] then Inr HostGate
         else if profile = ''quorum-budget''
         then bind_result (certification_options opts [] None None) (\<lambda>(vs, fs). quorum_budget vs fs)
         else Inl ''unknown or malformed certification profile''))"

section \<open>Counters\<close>

definition COUNTER_OPTIONS :: "string list" where
  "COUNTER_OPTIONS = [''floor'', ''ceiling'', ''certification'', ''ownership'', ''initial'', ''initial-rights'',
     ''initial-headroom'', ''issuers'', ''increment'', ''decrement'', ''transfer'', ''transfer-headroom'']"

type_synonym counter_options = "(string, sexpr list) btmap"

fun collect_options :: "sexpr list \<Rightarrow> counter_options \<Rightarrow> (string, counter_options) result" where
  "collect_options [] opts = Inr opts"
| "collect_options (opt # rest) opts = (case opt of
       Atom _ \<Rightarrow> Inl ''counter option must be a list''
     | List [] \<Rightarrow> Inl ''empty counter option''
     | List (head # xs) \<Rightarrow> bind_result (clause_symbol head ''counter option'') (\<lambda>name.
         if name \<notin> set COUNTER_OPTIONS then Inl (''unknown bounded-counter option '' @ quoted name)
         else if bt_contains_key opts name then Inl (''duplicate bounded-counter option '' @ quoted name)
         else collect_options rest (bt_insert name xs opts)))"

definition option_get :: "counter_options \<Rightarrow> string \<Rightarrow> nat \<Rightarrow> (string, sexpr list) result" where
  "option_get opts name n = bind_result (ok_or (''missing bounded-counter option '' @ quoted name) (bt_get opts name)) (\<lambda>xs.
     if length xs \<noteq> n then Inl (quoted name @ '' takes '' @ show_nat n @ '' arguments'') else Inr xs)"

definition option_integer :: "counter_options \<Rightarrow> string \<Rightarrow> (string, int) result" where
  "option_integer opts name = bind_result (option_get opts name 1) (\<lambda>xs. case xs ! 0 of
       Atom (Num n) \<Rightarrow> Inr n
     | _ \<Rightarrow> Inl (quoted name @ '' requires an integer''))"

definition option_pair :: "counter_options \<Rightarrow> string \<Rightarrow> (string, string \<times> string) result" where
  "option_pair opts name = bind_result (option_get opts name 2) (\<lambda>xs.
     bind_result (clause_symbol (xs ! 0) ''verb'') (\<lambda>v.
     bind_result (clause_keyword (xs ! 1) ''field'') (\<lambda>k. Inr (v, k))))"

definition option_triple :: "counter_options \<Rightarrow> string \<Rightarrow> (string, string \<times> string \<times> string) result" where
  "option_triple opts name = bind_result (option_get opts name 3) (\<lambda>xs.
     bind_result (clause_symbol (xs ! 0) ''verb'') (\<lambda>v.
     bind_result (clause_keyword (xs ! 1) ''recipient field'') (\<lambda>r.
     bind_result (clause_keyword (xs ! 2) ''amount field'') (\<lambda>k. Inr (v, r, k)))))"

text \<open>\<open>if options.contains_key(name) { Some(f(name)?) } else { None }\<close>.\<close>

definition optional_of ::
  "counter_options \<Rightarrow> string \<Rightarrow> (counter_options \<Rightarrow> string \<Rightarrow> (string, 'a) result) \<Rightarrow> (string, 'a option) result" where
  "optional_of opts name f =
     (if bt_contains_key opts name then bind_result (f opts name) (\<lambda>x. Inr (Some x)) else Inr None)"

definition parse_ownership :: "counter_options \<Rightarrow> (string, ownership) result" where
  "parse_ownership opts = (case bt_get opts ''ownership'' of
       None \<Rightarrow> Inr Account
     | Some [x] \<Rightarrow> bind_result (clause_symbol x ''ownership'') (\<lambda>s.
         if s = ''account'' then Inr Account
         else if s = ''collective'' then Inr Collective
         else Inl ''ownership must be account or collective'')
     | Some _ \<Rightarrow> Inl ''ownership takes one argument'')"

definition option_issuer :: "counter_options \<Rightarrow> (string, string) result" where
  "option_issuer opts = bind_result (option_get opts ''issuers'' 1) (\<lambda>xs. case xs ! 0 of
       List [] \<Rightarrow> Inr []
     | x \<Rightarrow> clause_symbol x ''issuer role or ()'')"

definition option_certification :: "counter_options \<Rightarrow> (string, certification) result" where
  "option_certification opts = (case bt_get opts ''certification'' of
       Some xs \<Rightarrow> parse_certification xs
     | None \<Rightarrow> Inr HostGate)"

definition counter_of_options :: "counter_options \<Rightarrow> (string, counter_rule) result" where
  "counter_of_options opts =
     bind_result (parse_ownership opts) (\<lambda>own.
     if own = Collective \<and> list_ex (bt_contains_key opts)
          [''initial-rights'', ''initial-headroom'', ''transfer'', ''transfer-headroom'']
     then Inl ''collective counters use scalar initial and do not accept account allocation/transfer options''
     else if own \<noteq> Collective \<and> bt_contains_key opts ''initial''
     then Inl ''account ownership requires initial-rights''
     else
     bind_result (option_pair opts (if own = Collective then ''initial'' else ''initial-rights'')) (\<lambda>(iv, ik).
     bind_result (optional_of opts ''ceiling'' option_integer) (\<lambda>ceil.
     bind_result (optional_of opts ''initial-headroom'' option_pair) (\<lambda>head.
     if own \<noteq> Collective \<and> (ceil \<noteq> None) \<noteq> (head \<noteq> None)
     then Inl ''ceiling and initial-headroom must occur together''
     else if (case head of Some (v, k) \<Rightarrow> v \<noteq> iv \<or> k = ik | None \<Rightarrow> False)
     then Inl ''headroom needs the same opener and a distinct field''
     else
     bind_result (optional_of opts ''transfer-headroom'' option_triple) (\<lambda>th.
     if th \<noteq> None \<and> ceil = None then Inl ''headroom transfer requires ceiling''
     else
     bind_result (option_certification opts) (\<lambda>cert.
     if own = Collective \<and> \<not> is_quorum cert
     then Inl ''collective counters require quorum-budget certification''
     else
     bind_result (option_integer opts ''floor'') (\<lambda>floor.
     bind_result (option_issuer opts) (\<lambda>iss.
     bind_result (option_pair opts ''increment'') (\<lambda>inc.
     bind_result (option_pair opts ''decrement'') (\<lambda>dec.
     bind_result (if own = Collective then Inr None
                  else bind_result (option_triple opts ''transfer'') (\<lambda>t. Inr (Some t))) (\<lambda>tr.
     Inr \<lparr>ownership = own, certification = cert, floor_bound = floor, ceiling_bound = ceil,
          initial_verb = iv, initial_key = ik, headroom_key = map_option snd head, issuer = iss,
          increment = inc, decrement = dec, transfer_op = tr, transfer_headroom = th\<rparr>)))))))))))"

definition parse_counter :: "sexpr list \<Rightarrow> (string, counter_rule) result" where
  "parse_counter args = bind_result (collect_options args []) counter_of_options"

section \<open>Rules\<close>

definition arity :: "string \<Rightarrow> sexpr list \<Rightarrow> nat \<Rightarrow> (string, unit) result" where
  "arity head args n =
     (if length args = n then Inr ()
      else Inl (head @ '' takes '' @ show_nat n @ '' argument(s), got '' @ show_nat (length args)))"

definition arity_of_two :: "string \<Rightarrow> sexpr list \<Rightarrow> nat \<Rightarrow> nat \<Rightarrow> (string, unit) result" where
  "arity_of_two head args n m =
     (if length args \<noteq> n \<and> length args \<noteq> m
      then Inl (head @ '' takes '' @ show_nat n @ '' or '' @ show_nat m @ '' arguments, got '' @
        show_nat (length args))
      else Inr ())"

definition rule_verb :: "sexpr list \<Rightarrow> nat \<Rightarrow> (string, string) result" where
  "rule_verb args i = clause_symbol (args ! i) ''verb''"

definition rule_key :: "sexpr list \<Rightarrow> nat \<Rightarrow> (string, string) result" where
  "rule_key args i = clause_keyword (args ! i) ''field''"

text \<open>The rules of a verb, of a verb and a field, of two verbs and a field, and of a verb and two fields.\<close>

definition verb_rule :: "string \<Rightarrow> sexpr list \<Rightarrow> (string \<Rightarrow> rule) \<Rightarrow> (string, rule) result" where
  "verb_rule head args mk = bind_result (arity head args 1) (\<lambda>_.
     bind_result (rule_verb args 0) (\<lambda>v. Inr (mk v)))"

definition verb_key_rule :: "string \<Rightarrow> sexpr list \<Rightarrow> (string \<Rightarrow> string \<Rightarrow> rule) \<Rightarrow> (string, rule) result" where
  "verb_key_rule head args mk = bind_result (arity head args 2) (\<lambda>_.
     bind_result (rule_verb args 0) (\<lambda>v. bind_result (rule_key args 1) (\<lambda>k. Inr (mk v k))))"

definition two_verb_rule ::
  "string \<Rightarrow> sexpr list \<Rightarrow> (string \<Rightarrow> string \<Rightarrow> string \<Rightarrow> rule) \<Rightarrow> (string, rule) result" where
  "two_verb_rule head args mk = bind_result (arity head args 3) (\<lambda>_.
     bind_result (rule_verb args 0) (\<lambda>v. bind_result (rule_verb args 1) (\<lambda>w.
     bind_result (rule_key args 2) (\<lambda>k. Inr (mk v w k)))))"

definition clock_rule ::
  "string \<Rightarrow> sexpr list \<Rightarrow> (string \<Rightarrow> string \<Rightarrow> string \<Rightarrow> rule) \<Rightarrow> (string, rule) result" where
  "clock_rule head args mk = bind_result (arity head args 3) (\<lambda>_.
     bind_result (rule_verb args 0) (\<lambda>v. bind_result (rule_key args 1) (\<lambda>k.
     bind_result (rule_key args 2) (\<lambda>c. Inr (mk v k c)))))"

definition field_rule :: "string \<Rightarrow> sexpr list \<Rightarrow> (string \<Rightarrow> rule) \<Rightarrow> (string, rule) result" where
  "field_rule head args mk = bind_result (arity head args 1) (\<lambda>_.
     bind_result (clause_symbol (args ! 0) ''field name'') (\<lambda>f. Inr (mk f)))"

definition optional_verb :: "sexpr list \<Rightarrow> nat \<Rightarrow> (string, string option) result" where
  "optional_verb args i =
     (if length args = Suc i then bind_result (rule_verb args i) (\<lambda>v. Inr (Some v)) else Inr None)"

definition lww_map_rule :: "string \<Rightarrow> sexpr list \<Rightarrow> (string, rule) result" where
  "lww_map_rule head args = bind_result (arity_of_two head args 4 5) (\<lambda>_.
     bind_result (rule_verb args 0) (\<lambda>v. bind_result (rule_key args 1) (\<lambda>k.
     bind_result (rule_key args 2) (\<lambda>val. bind_result (rule_key args 3) (\<lambda>c.
     bind_result (optional_verb args 4) (\<lambda>d. Inr (LwwMap v k val c d)))))))"

definition values_per_key_rule :: "string \<Rightarrow> sexpr list \<Rightarrow> (string, rule) result" where
  "values_per_key_rule head args = bind_result (arity_of_two head args 3 4) (\<lambda>_.
     bind_result (optional_verb args 3) (\<lambda>d.
     bind_result (rule_verb args 0) (\<lambda>v. bind_result (rule_key args 1) (\<lambda>k.
     bind_result (rule_key args 2) (\<lambda>val. Inr (ValuesPerKey v k val d))))))"

definition rule_of_head :: "string \<Rightarrow> sexpr list \<Rightarrow> (string, rule) result" where
  "rule_of_head head args =
     (if head = ''bounded-counter'' then bind_result (parse_counter args) (\<lambda>c. Inr (BoundedCounter c))
      else if head = ''lww-register'' then clock_rule head args LwwRegister
      else if head = ''lww-per-signer'' then clock_rule head args LwwPerSigner
      else if head = ''lww-map'' then lww_map_rule head args
      else if head \<in> set [''last'', ''latest-per-signer'', ''latest-per-key'', ''register-per-key'']
      then Inl (''retired state rule '' @ quoted head @
        '': use initial for opener fields or an explicit lww-* rule with a clock'')
      else if head = ''initial'' then verb_key_rule head args Initial
      else if head = ''exists'' then verb_rule head args Exists
      else if head = ''count'' then verb_rule head args Count
      else if head = ''progress'' then verb_rule head args Progress
      else if head = ''events'' then verb_key_rule head args Events
      else if head = ''set-union'' then verb_key_rule head args SetUnion
      else if head = ''values'' \<or> head = ''multi-value-register'' then verb_key_rule head args Values
      else if head = ''values-per-key'' \<or> head = ''multi-value-map'' then values_per_key_rule head args
      else if head = ''observed-set'' then two_verb_rule head args ObservedSet
      else if head = ''counter'' then two_verb_rule head args Counter
      else if head = ''histogram'' then field_rule head args Histogram
      else if head = ''sum'' then field_rule head args SumOf
      else Inl (''unknown rule '' @ quoted head @ '' (SPEC-019 REQ-1901)''))"

definition parse_rule :: "sexpr \<Rightarrow> (string, rule) result" where
  "parse_rule e = (case e of
       List (h # args) \<Rightarrow> bind_result (clause_symbol h ''rule head'') (\<lambda>head. rule_of_head head args)
     | _ \<Rightarrow> Inl ''a rule must be a non-empty list'')"

section \<open>Clauses\<close>

definition ellipsis :: string where "ellipsis = [CHR 0xE2, CHR 0x80, CHR 0xA6]"

definition parse_entry :: "sexpr \<Rightarrow> (string, clause_entry) result" where
  "parse_entry e = (case e of
       List (p # ps) \<Rightarrow>
         if is_symbol p ''domain''
         then if length ps \<noteq> 3 then Inl ''domain takes: verb :key field''
           else bind_result (clause_symbol (ps ! 0) ''domain verb'') (\<lambda>v.
             bind_result (clause_keyword (ps ! 1) ''domain key'') (\<lambda>k.
             bind_result (clause_symbol (ps ! 2) ''domain field'') (\<lambda>f. Inr (EDomain v k f))))
         else if length ps \<noteq> 1 then Inl (''a field entry is: (name (rule '' @ ellipsis @ ''))'')
         else bind_result (clause_symbol p ''field name'') (\<lambda>name.
           if \<not> is_field_name name
           then Inl (quoted name @ '' is not a field name ([a-z][a-z0-9-]{0,47})'')
           else bind_result (parse_rule (ps ! 0)) (\<lambda>r. Inr (EField name r)))
     | _ \<Rightarrow> Inl ''a state entry must be a non-empty list'')"

fun parse_entries :: "sexpr list \<Rightarrow> clause_entry list \<Rightarrow> (string, clause_entry list) result" where
  "parse_entries [] acc = Inr acc"
| "parse_entries (e # es) acc = bind_result (parse_entry e) (\<lambda>entry. parse_entries es (acc @ [entry]))"

definition parse_state :: "sexpr \<Rightarrow> (string, state_clause) result" where
  "parse_state e = (case e of
       List items \<Rightarrow>
         if length items < 2 \<or> \<not> is_symbol (items ! 0) ''state''
         then Inl (''state clause requires: state entry'' @ ellipsis)
         else bind_result (parse_entries (tl items) []) (\<lambda>es. Inr \<lparr>entries = es\<rparr>)
     | Atom _ \<Rightarrow> Inl ''state clause must be a list'')"

definition set_bound :: "string \<Rightarrow> int \<Rightarrow> state_bounds \<Rightarrow> (string, state_bounds) result" where
  "set_bound name n b =
     (if name = ''max-string'' then Inr (b\<lparr>max_string := word_of_int n\<rparr>)
      else if name = ''max-list'' then Inr (b\<lparr>max_list := word_of_int n\<rparr>)
      else if name = ''max-number'' then Inr (b\<lparr>max_number := n\<rparr>)
      else if name = ''max-fields'' then Inr (b\<lparr>max_fields := word_of_int n\<rparr>)
      else Inl (''unknown bound '' @ quoted name))"

fun parse_bounds_loop :: "sexpr list \<Rightarrow> string list \<Rightarrow> state_bounds \<Rightarrow> (string, state_bounds) result" where
  "parse_bounds_loop [] seen b = Inr b"
| "parse_bounds_loop (bound # rest) seen b = (case bound of
       List [p, v] \<Rightarrow> bind_result (clause_symbol p ''bound name'') (\<lambda>name.
         bind_result (case v of
             Atom (Num n) \<Rightarrow> if n > 0 then Inr n
               else Inl (''bound '' @ name @ '' must be a positive number, got '' @ display_sexpr v)
           | _ \<Rightarrow> Inl (''bound '' @ name @ '' must be a positive number, got '' @ display_sexpr v)) (\<lambda>n.
         if name \<in> set seen then Inl (''duplicate bound '' @ name)
         else bind_result (set_bound name n b) (parse_bounds_loop rest (seen @ [name]))))
     | _ \<Rightarrow> Inl (''a bound is: (max-'' @ ellipsis @ '' n)''))"

definition parse_state_bounds :: "sexpr \<Rightarrow> (string, state_bounds) result" where
  "parse_state_bounds e = (case e of
       List items \<Rightarrow> (case items of
           Atom (Keyword k) # bounds \<Rightarrow>
             if k = ''state-bounds'' then parse_bounds_loop bounds [] default_bounds
             else Inl ('':state-bounds clause requires: :state-bounds bound'' @ ellipsis)
         | _ \<Rightarrow> Inl ('':state-bounds clause requires: :state-bounds bound'' @ ellipsis))
     | Atom _ \<Rightarrow> Inl '':state-bounds clause must be a list'')"

section \<open>Parsed counters are well formed\<close>

lemma clause_symbol_Sym [simp]: "clause_symbol (Sym s) what = Inr s"
  by (simp add: clause_symbol_def)

lemma clause_keyword_Kw [simp]: "clause_keyword (Kw s) what = Inr s"
  by (simp add: clause_keyword_def)

lemma parse_symbols_map [simp]: "parse_symbols (map Sym ss) what = Inr ss"
  by (induction ss) auto

definition cert_normal :: "certification \<Rightarrow> bool" where
  "cert_normal c = (case c of
       HostGate \<Rightarrow> True
     | QuorumBudget None fs \<Rightarrow> True
     | QuorumBudget (Some vs) None \<Rightarrow> False
     | QuorumBudget (Some vs) (Some f) \<Rightarrow>
         list_all validator_key vs \<and> distinct vs \<and> sorted vs \<and> length vs = 3 * unat f + 1)"

definition counter_wf :: "counter_rule \<Rightarrow> bool" where
  "counter_wf c \<longleftrightarrow>
     (ownership c = Collective \<longrightarrow> transfer_op c = None \<and> headroom_key c = None \<and> transfer_headroom c = None \<and>
        is_quorum (certification c)) \<and>
     (ownership c = Account \<longrightarrow> transfer_op c \<noteq> None \<and> (ceiling_bound c \<noteq> None \<longleftrightarrow> headroom_key c \<noteq> None)) \<and>
     headroom_key c \<noteq> Some (initial_key c) \<and> (transfer_headroom c \<noteq> None \<longrightarrow> ceiling_bound c \<noteq> None) \<and>
     cert_normal (certification c)"

lemma quorum_budget_normal: "quorum_budget vs fs = Inr c \<Longrightarrow> cert_normal c"
  by (auto simp: quorum_budget_def result_simps committee_new_iff cert_normal_def list_all_iff split: option.splits)

lemma quorum_budget_fixed:
  assumes "cert_normal (QuorumBudget vs fs)"
  shows "quorum_budget vs fs = Inr (QuorumBudget vs fs)"
proof (cases vs)
  case (Some keys)
  then obtain f where f: "fs = Some f" "list_all validator_key keys" "distinct keys" "sorted keys"
      "length keys = 3 * unat f + 1" using assms by (cases fs) (auto simp: cert_normal_def)
  then have "committee_new keys (Some f) = Inr \<lparr>validators = keys, faults = f, quorum = 2 * unat f + 1\<rparr>"
    by (simp add: committee_new_iff sorted_sort_id)
  then show ?thesis using Some f by (simp add: quorum_budget_def)
qed (simp add: quorum_budget_def)

lemma parse_certification_normal: "parse_certification args = Inr c \<Longrightarrow> cert_normal c"
  by (auto simp: parse_certification_def result_simps split: list.splits if_splits prod.splits
      dest!: quorum_budget_normal) (auto simp: cert_normal_def)

lemma parse_certification_option:
  assumes "cert_normal c" "canonical_option c = Some e"
  shows "\<exists>xs. e = List (Sym ''certification'' # xs) \<and> parse_certification xs = Inr c"
proof -
  obtain vs fs where c: "c = QuorumBudget vs fs" using assms(2) by (cases c) (auto simp: canonical_option_def)
  have faults: "parse_faults (Atom (Num (uint f))) = Inr f" for f :: u32
    using uint_lt2p [of f] by (simp add: parse_faults_def)
  have fixed: "quorum_budget vs fs = Inr c" using quorum_budget_fixed assms(1) c by simp
  show ?thesis
  proof (cases vs)
    case None
    then show ?thesis using assms c fixed faults
      by (cases fs) (auto simp: canonical_option_def parse_certification_def)
  next
    case (Some keys)
    then obtain f where f: "fs = Some f" "sorted keys" "length keys = 3 * unat f + 1" "list_all validator_key keys" "distinct keys"
      using assms(1) c by (cases fs) (auto simp: cert_normal_def)
    then have "committee_new keys (Some f) = Inr \<lparr>validators = keys, faults = f, quorum = 2 * unat f + 1\<rparr>"
      by (simp add: committee_new_iff sorted_sort_id)
    moreover have "keys \<noteq> []" using f(3) by auto
    ultimately show ?thesis using assms(2) c fixed faults Some f
      by (auto simp: canonical_option_def parse_certification_def sorted_sort_id)
  qed
qed

definition account_options :: "string list" where
  "account_options = [''initial-rights'', ''initial-headroom'', ''transfer'', ''transfer-headroom'']"

text \<open>What the options of a counter say, field by field.\<close>

definition counter_declared :: "counter_options \<Rightarrow> counter_rule \<Rightarrow> bool" where
  "counter_declared opts c \<longleftrightarrow>
     parse_ownership opts = Inr (ownership c) \<and>
     option_pair opts (if ownership c = Collective then ''initial'' else ''initial-rights'') =
       Inr (initial_verb c, initial_key c) \<and>
     optional_of opts ''ceiling'' option_integer = Inr (ceiling_bound c) \<and>
     optional_of opts ''initial-headroom'' option_pair =
       Inr (map_option (\<lambda>k. (initial_verb c, k)) (headroom_key c)) \<and>
     optional_of opts ''transfer-headroom'' option_triple = Inr (transfer_headroom c) \<and>
     option_certification opts = Inr (certification c) \<and>
     option_integer opts ''floor'' = Inr (floor_bound c) \<and>
     option_issuer opts = Inr (issuer c) \<and>
     option_pair opts ''increment'' = Inr (increment c) \<and>
     option_pair opts ''decrement'' = Inr (decrement c) \<and>
     (ownership c = Account \<longrightarrow> (\<exists>t. option_triple opts ''transfer'' = Inr t \<and> transfer_op c = Some t) \<and>
        \<not> bt_contains_key opts ''initial'' \<and> (ceiling_bound c \<noteq> None \<longleftrightarrow> headroom_key c \<noteq> None)) \<and>
     (ownership c = Collective \<longrightarrow> transfer_op c = None \<and> \<not> list_ex (bt_contains_key opts) account_options \<and>
        is_quorum (certification c)) \<and>
     headroom_key c \<noteq> Some (initial_key c) \<and> (transfer_headroom c \<noteq> None \<longrightarrow> ceiling_bound c \<noteq> None)"

lemma ownership_other: "own \<noteq> Collective \<longleftrightarrow> own = Account"
  by (cases own) auto

lemma counter_of_options_sound:
  assumes "counter_of_options opts = Inr c"
  shows "counter_declared opts c"
proof -
  obtain own where own: "parse_ownership opts = Inr own" using assms
    by (cases "parse_ownership opts") (auto simp: counter_of_options_def)
  show ?thesis
  proof (cases own)
    case Account
    then show ?thesis using assms own
      by (auto simp: counter_of_options_def counter_declared_def bind_result_eq_Inr split: if_splits option.splits)
  next
    case Collective
    then show ?thesis using assms own
      by (auto simp: counter_of_options_def counter_declared_def account_options_def bind_result_eq_Inr
          split: if_splits option.splits)
  qed
qed

lemma counter_of_options_complete:
  assumes "counter_declared opts c"
  shows "counter_of_options opts = Inr c"
  using assms by (cases "ownership c"; cases "headroom_key c")
    (auto simp: counter_of_options_def counter_declared_def account_options_def)

lemma counter_declared_wf:
  assumes "counter_declared opts c"
  shows "counter_wf c"
proof -
  have "cert_normal (certification c)" using assms parse_certification_normal
    by (auto simp: counter_declared_def option_certification_def cert_normal_def [of HostGate] split: option.splits)
  moreover have "headroom_key c = None \<and> transfer_headroom c = None" if "ownership c = Collective"
    using assms that by (auto simp: counter_declared_def account_options_def optional_of_def)
  ultimately show ?thesis using assms by (auto simp: counter_declared_def counter_wf_def)
qed

section \<open>Canonical options parse back\<close>

definition option_form :: "string \<times> sexpr list \<Rightarrow> sexpr" where
  "option_form o' = List (Sym (fst o') # snd o')"

lemma collect_options_forms:
  "distinct (map fst nas) \<Longrightarrow> set (map fst nas) \<subseteq> set COUNTER_OPTIONS \<Longrightarrow> set (map fst nas) \<inter> set (bt_keys opts) = {} \<Longrightarrow>
     collect_options (map option_form nas) opts = Inr (foldl (\<lambda>m (k, v). bt_insert k v m) opts nas)"
  by (induction nas arbitrary: opts) (auto simp: option_form_def bt_contains_key_iff)

definition certification_pairs :: "certification \<Rightarrow> (string \<times> sexpr list) list" where
  "certification_pairs cert = (case canonical_option cert of
       Some (List (h # xs)) \<Rightarrow> [(''certification'', xs)] | _ \<Rightarrow> [])"

definition counter_pairs :: "counter_rule \<Rightarrow> (string \<times> sexpr list) list" where
  "counter_pairs c =
     [(''floor'', [Atom (Num (floor_bound c))])] @
     map (\<lambda>n. (''ceiling'', [Atom (Num n)])) (opt_list (ceiling_bound c)) @
     certification_pairs (certification c) @
     (if ownership c = Collective then [(''ownership'', [Sym ''collective''])] else []) @
     [(if ownership c = Collective then ''initial'' else ''initial-rights'', [Sym (initial_verb c), Kw (initial_key c)])] @
     map (\<lambda>k. (''initial-headroom'', [Sym (initial_verb c), Kw k])) (opt_list (headroom_key c)) @
     [(''issuers'', [if issuer c = [] then List [] else Sym (issuer c)]),
      (''increment'', [Sym (fst (increment c)), Kw (snd (increment c))]),
      (''decrement'', [Sym (fst (decrement c)), Kw (snd (decrement c))])] @
     map (\<lambda>(v, r, k). (''transfer'', [Sym v, Kw r, Kw k])) (opt_list (transfer_op c)) @
     map (\<lambda>(v, r, k). (''transfer-headroom'', [Sym v, Kw r, Kw k])) (opt_list (transfer_headroom c))"

lemma certification_pairs_cases:
  assumes "cert_normal cert"
  obtains (host) "cert = HostGate" "certification_pairs cert = []" "canonical_option cert = None"
  | (quorum) xs where "certification_pairs cert = [(''certification'', xs)]"
      "canonical_option cert = Some (List (Sym ''certification'' # xs))" "parse_certification xs = Inr cert"
proof (cases "canonical_option cert")
  case None
  then show ?thesis using that(1) by (cases cert) (auto simp: canonical_option_def certification_pairs_def)
next
  case (Some e)
  then show ?thesis using that(2) parse_certification_option [OF assms Some] by (auto simp: certification_pairs_def)
qed

lemma canonical_options_pairs:
  "cert_normal (certification c) \<Longrightarrow> canonical_options c = map option_form (counter_pairs c)"
  by (erule certification_pairs_cases)
    (auto simp: canonical_options_def counter_pairs_def option_form_def opt_list_def split: option.splits)

lemma counter_pairs_names:
  assumes "cert_normal (certification c)"
  shows "distinct (map fst (counter_pairs c)) \<and> set (map fst (counter_pairs c)) \<subseteq> set COUNTER_OPTIONS"
  using assms by (rule certification_pairs_cases)
    (auto simp: counter_pairs_def opt_list_def COUNTER_OPTIONS_def split: option.splits)

lemma counter_pairs_declared:
  assumes "counter_wf c"
  shows "counter_declared (bt_of_list (counter_pairs c)) c"
proof -
  define opts where "opts = bt_of_list (counter_pairs c)"
  have cert: "cert_normal (certification c)" using assms by (simp add: counter_wf_def)
  have get: "bt_get opts k = map_of (counter_pairs c) k" for k
    using counter_pairs_names [OF cert] unfolding opts_def by (intro bt_get_of_list_distinct) auto
  note defs = counter_declared_def parse_ownership_def option_pair_def option_triple_def option_integer_def option_get_def
    optional_of_def option_issuer_def option_certification_def bt_contains_key_def get account_options_def
  from cert have "counter_declared opts c"
  proof (cases rule: certification_pairs_cases)
    case host
    then obtain t where "ownership c = Account" "transfer_op c = Some t"
      using assms ownership_other [of "ownership c"] by (auto simp: counter_wf_def is_quorum_def)
    then show ?thesis using assms host
      by (cases "ceiling_bound c"; cases "headroom_key c"; cases "transfer_headroom c"; cases t)
        (simp_all add: counter_wf_def defs counter_pairs_def opt_list_def case_prod_unfold)
  next
    case (quorum xs)
    show ?thesis
    proof (cases "ownership c")
      case Account
      then obtain t where "transfer_op c = Some t" using assms by (auto simp: counter_wf_def)
      then show ?thesis using assms quorum Account
        by (cases "ceiling_bound c"; cases "headroom_key c"; cases "transfer_headroom c"; cases t)
          (simp_all add: counter_wf_def defs counter_pairs_def opt_list_def case_prod_unfold)
    next
      case Collective
      then show ?thesis using assms quorum
        by (cases "ceiling_bound c") (simp_all add: counter_wf_def defs counter_pairs_def opt_list_def case_prod_unfold)
    qed
  qed
  then show ?thesis by (simp add: opts_def)
qed

text \<open>C18: the canonical options of a counter that was parsed, in any order and spelling of its options, parse
  back to that counter: two declarations with the same canonical options declare the same counter.\<close>

theorem counter_options_roundtrip:
  assumes "parse_counter args = Inr c"
  shows "parse_counter (canonical_options c) = Inr c"
proof -
  obtain opts where "counter_of_options opts = Inr c" using assms by (auto simp: parse_counter_def result_simps)
  then have wf: "counter_wf c" by (intro counter_declared_wf counter_of_options_sound)
  then have cert: "cert_normal (certification c)" by (simp add: counter_wf_def)
  have "collect_options (canonical_options c) [] = Inr (bt_of_list (counter_pairs c))"
    unfolding canonical_options_pairs [OF cert] bt_of_list_def
    using counter_pairs_names [OF cert] by (intro collect_options_forms) auto
  then show ?thesis using counter_of_options_complete [OF counter_pairs_declared [OF wf]]
    by (simp add: parse_counter_def)
qed

definition sample_pairs :: "(string \<times> sexpr list) list" where
  "sample_pairs =
     [(''issuers'', [List []]), (''increment'', [Sym ''mint'', Kw ''n'']),
      (''certification'', [Sym ''quorum-budget'', List [Sym ''validators'', Sym ''@d'', Sym ''@b'', Sym ''@a'', Sym ''@c''],
        List [Sym ''faults'', Atom (Num 1)]]),
      (''transfer'', [Sym ''pay'', Kw ''payee'', Kw ''n'']), (''floor'', [Atom (Num 0)]),
      (''decrement'', [Sym ''burn'', Kw ''n'']), (''initial-rights'', [Sym ''open'', Kw ''rights''])]"

definition sample_counter :: counter_rule where
  "sample_counter =
     \<lparr>ownership = Account, certification = QuorumBudget (Some [''@a'', ''@b'', ''@c'', ''@d'']) (Some 1), floor_bound = 0,
      ceiling_bound = None, initial_verb = ''open'', initial_key = ''rights'', headroom_key = None, issuer = [],
      increment = (''mint'', ''n''), decrement = (''burn'', ''n''), transfer_op = Some (''pay'', ''payee'', ''n''),
      transfer_headroom = None\<rparr>"

lemma sample_counter_parses: "parse_counter (map option_form sample_pairs) = Inr sample_counter"
proof -
  define opts where "opts = bt_of_list sample_pairs"
  have names: "distinct (map fst sample_pairs)" "set (map fst sample_pairs) \<subseteq> set COUNTER_OPTIONS"
    by (simp_all add: sample_pairs_def COUNTER_OPTIONS_def)
  have "committee_new [''@d'', ''@b'', ''@a'', ''@c''] (Some 1) =
      Inr \<lparr>validators = [''@a'', ''@b'', ''@c'', ''@d''], faults = 1, quorum = 3\<rparr>" by code_simp
  then have "parse_certification [Sym ''quorum-budget'', List [Sym ''validators'', Sym ''@d'', Sym ''@b'', Sym ''@a'', Sym ''@c''],
        List [Sym ''faults'', Atom (Num 1)]] =
      Inr (certification sample_counter)"
    by (simp add: parse_certification_def parse_faults_def quorum_budget_def sample_counter_def)
  moreover have "bt_get opts k = map_of sample_pairs k" for k
    unfolding opts_def using names(1) by (rule bt_get_of_list_distinct)
  ultimately have "counter_declared opts sample_counter"
    by (simp add: counter_declared_def parse_ownership_def option_pair_def option_triple_def option_integer_def option_get_def
      optional_of_def option_issuer_def option_certification_def bt_contains_key_def account_options_def sample_pairs_def
      sample_counter_def)
  moreover have "collect_options (map option_form sample_pairs) [] = Inr opts"
    unfolding opts_def bt_of_list_def using names by (intro collect_options_forms) auto
  ultimately show ?thesis by (simp add: parse_counter_def counter_of_options_complete)
qed

theorem counter_options_roundtrip_witness:
  "parse_counter (canonical_options sample_counter) = Inr sample_counter"
  by (rule counter_options_roundtrip [OF sample_counter_parses])

text \<open>The bounds are cast to \<open>u32\<close> without a range check: a positive bound can be declared as zero.\<close>

lemma state_bound_truncated:
  "parse_state_bounds (List [Kw ''state-bounds'', List [Sym ''max-string'', Atom (Num (2 ^ 32))]]) =
     Inr (default_bounds\<lparr>max_string := 0\<rparr>)"
proof -
  have "word_of_int (2 ^ 32) = (0 :: u32)" by (simp add: word_of_int_eq_iff take_bit_eq_mod)
  then show ?thesis by (simp add: parse_state_bounds_def set_bound_def)
qed

end
