(* ===== verification/Cbcl_Dialectparse.thy ===== *)
theory Cbcl_Dialectparse
  imports Cbcl_Protoparse Cbcl_Stateparse Cbcl_Stateshape Cbcl_Projection
begin

text \<open>
  The parser of \<open>(define name (parent ...) author clause ...)\<close> forms, \<open>cbcl-parser/src/dialect_parser.rs\<close>,
  with the shape clauses of \<open>shape_parser.rs\<close>. A dialect that was parsed is shown to be determined by the octets
  its signature covers, up to the label fields, and its reserved shape fields to be the compiler's.
\<close>

section \<open>Shape clauses\<close>

definition extract_keyword :: "sexpr \<Rightarrow> (string, string) result" where
  "extract_keyword e = (case e of
       Atom (Keyword k) \<Rightarrow> Inr k
     | _ \<Rightarrow> Inl ''expected a keyword (e.g. :name)'')"

text \<open>The position after the constraint, where there is one.\<close>

definition extract_type_constraint_at :: "sexpr list \<Rightarrow> nat \<Rightarrow> type_constraint option \<times> nat" where
  "extract_type_constraint_at items idx =
     (if idx < length items
      then case items ! idx of
          Atom (Symbol s) \<Rightarrow> (case type_constraint_from_str s of
              Some tc \<Rightarrow> (Some tc, idx + 1)
            | None \<Rightarrow> (None, idx))
        | _ \<Rightarrow> (None, idx)
      else (None, idx))"

definition is_child_rule :: "sexpr \<Rightarrow> bool" where
  "is_child_rule e = (case e of
       List (Atom (Symbol s) # _) \<Rightarrow> s \<in> set [''require'', ''optional'', ''max-depth'']
     | _ \<Rightarrow> False)"

definition extract_default_value :: "sexpr list \<Rightarrow> nat \<Rightarrow> sexpr option \<times> nat" where
  "extract_default_value items idx =
     (if idx \<ge> length items then (None, idx)
      else if is_child_rule (items ! idx) then (None, idx)
      else (Some (items ! idx), idx + 1))"

definition parse_max_depth_rule :: "sexpr list \<Rightarrow> (string, shape_rule) result" where
  "parse_max_depth_rule items =
     (if length items \<noteq> 2 then Inl ''max-depth rule requires exactly one number''
      else case items ! 1 of
          Atom (Num n) \<Rightarrow> if n > 0 then Inr (MaxDepth (word_of_int n))
            else Inl (''max-depth must be positive, got '' @ show_int n)
        | _ \<Rightarrow> Inl ''max-depth value must be a number'')"

text \<open>\<open>parse_child_rules items start\<close> reads the rules from the index \<open>start\<close> on.\<close>

fun parse_shape_rule :: "sexpr \<Rightarrow> (string, shape_rule) result"
and parse_child_rules :: "sexpr list \<Rightarrow> nat \<Rightarrow> (string, shape_rule list) result" where
  "parse_shape_rule (Atom a) = Inl ''shape rule must be a non-empty list''"
| "parse_shape_rule (List items) =
     (if items = [] then Inl ''shape rule must be a non-empty list''
      else case items ! 0 of
          Atom (Symbol head) \<Rightarrow>
            if head = ''require''
            then if length items < 2 then Inl ''require rule needs at least a keyword''
              else bind_result (extract_keyword (items ! 1)) (\<lambda>keyword.
                let (tc, idx) = extract_type_constraint_at items 2
                in bind_result (parse_child_rules items idx) (\<lambda>children. Inr (Require keyword tc children)))
            else if head = ''optional''
            then if length items < 2 then Inl ''optional rule needs at least a keyword''
              else bind_result (extract_keyword (items ! 1)) (\<lambda>keyword.
                let (tc, idx) = extract_type_constraint_at items 2;
                    (dflt, idx) = extract_default_value items idx
                in bind_result (parse_child_rules items idx) (\<lambda>children. Inr (Optional keyword tc dflt children)))
            else if head = ''max-depth'' then parse_max_depth_rule items
            else Inl (''unknown shape rule: '' @ head)
        | _ \<Rightarrow> Inl ''shape rule must start with a symbol'')"
| "parse_child_rules [] start = Inr []"
| "parse_child_rules (item # items) (Suc start) = parse_child_rules items start"
| "parse_child_rules (item # items) 0 = bind_result (parse_shape_rule item) (\<lambda>r.
     bind_result (parse_child_rules items 0) (\<lambda>rs. Inr (r # rs)))"

definition parse_shape :: "sexpr \<Rightarrow> (string, shape_constraint) result" where
  "parse_shape e = (case e of
       List items \<Rightarrow>
         if length items < 3 then Inl ''shape clause requires at least: shape, performative-name, rule''
         else if \<not> is_symbol (items ! 0) ''shape'' then Inl (''shape clause must start with '' @ quoted ''shape'')
         else (case items ! 1 of
             Atom (Symbol p) \<Rightarrow> bind_result (parse_child_rules items 2) (\<lambda>rs.
               Inr \<lparr>shape_performative = p, shape_rules = rs\<rparr>)
           | _ \<Rightarrow> Inl ''performative name must be a symbol'')
     | Atom _ \<Rightarrow> Inl ''shape clause must be a list'')"

section \<open>Values\<close>

definition map_err :: "('e \<Rightarrow> 'f) \<Rightarrow> ('e, 'a) result \<Rightarrow> ('f, 'a) result" where
  "map_err f r = (case r of Inl e \<Rightarrow> Inl (f e) | Inr a \<Rightarrow> Inr a)"

definition extract_symbol :: "sexpr \<Rightarrow> string \<Rightarrow> (string, string) result" where
  "extract_symbol e ctxt = (case e of
       Atom (Symbol s) \<Rightarrow> Inr s
     | _ \<Rightarrow> Inl (ctxt @ '' must be a symbol''))"

fun extends_loop :: "sexpr list \<Rightarrow> string list \<Rightarrow> (string, string list) result" where
  "extends_loop [] acc = Inr acc"
| "extends_loop (item # items) acc =
     bind_result (extract_symbol item ''extends entry'') (\<lambda>s. extends_loop items (acc @ [s]))"

definition extract_extends :: "sexpr \<Rightarrow> (string, string list) result" where
  "extract_extends e = (case e of
       List items \<Rightarrow> extends_loop items []
     | Atom _ \<Rightarrow> Inl ''extends must be a list'')"

definition extract_author :: "sexpr \<Rightarrow> (string, string option) result" where
  "extract_author e = (case e of
       Atom (Symbol s) \<Rightarrow> Inr (Some s)
     | Atom (Str s) \<Rightarrow> Inr (Some s)
     | _ \<Rightarrow> Inl ''author must be a symbol or string'')"

definition extract_param_list :: "sexpr \<Rightarrow> (string, sexpr list) result" where
  "extract_param_list e = (case e of List items \<Rightarrow> Inr items | Atom _ \<Rightarrow> Inl ''parameter list must be a list'')"

definition extract_signature_bytes :: "sexpr \<Rightarrow> string" where
  "extract_signature_bytes e = (case e of Atom (Str s) \<Rightarrow> s | Atom (Symbol s) \<Rightarrow> s | _ \<Rightarrow> [])"

definition dialect_string_or_symbol :: "sexpr \<Rightarrow> string" where
  "dialect_string_or_symbol e = (case e of Atom (Str s) \<Rightarrow> s | Atom (Symbol s) \<Rightarrow> s | _ \<Rightarrow> display_sexpr e)"

definition clause_head_description :: "sexpr \<Rightarrow> string" where
  "clause_head_description e = (case e of
       Atom (Symbol s) \<Rightarrow> s
     | Atom (Keyword k) \<Rightarrow> '':'' @ k
     | _ \<Rightarrow> ''<non-symbol>'')"

definition default_resources :: resource_bounds where
  "default_resources = \<lparr>rb_max_depth = 16, rb_max_expansion_size = 1024, verification_time_ms = 50\<rparr>"

text \<open>Items that are no pair of a symbol and a number are skipped; the number is cast to \<open>u32\<close>.\<close>

definition resource_item :: "resource_bounds \<Rightarrow> sexpr \<Rightarrow> resource_bounds" where
  "resource_item b item = (case item of
       List [Atom (Symbol key), Atom (Num n)] \<Rightarrow>
         if key = ''max-depth'' then b\<lparr>rb_max_depth := word_of_int n\<rparr>
         else if key = ''max-expansion-size'' then b\<lparr>rb_max_expansion_size := word_of_int n\<rparr>
         else if key = ''verification-time'' then b\<lparr>verification_time_ms := word_of_int n\<rparr>
         else b
     | _ \<Rightarrow> b)"

definition parse_resource_requirements :: "sexpr \<Rightarrow> (string, resource_bounds) result" where
  "parse_resource_requirements e = (case e of
       List items \<Rightarrow> Inr (foldl resource_item default_resources items)
     | Atom _ \<Rightarrow> Inl ''resource-requirements must be a list'')"

section \<open>Extend clauses\<close>

record extend_state =
  x_template :: "sexpr option"
  x_from :: "string option"
  x_to :: "string btset option"

fun extend_loop :: "string \<Rightarrow> sexpr list \<Rightarrow> extend_state \<Rightarrow> (string, extend_state) result" where
  "extend_loop p [] x = Inr x"
| "extend_loop p (item # rest) x = (case item of
       Atom (Keyword kw) \<Rightarrow>
         if kw = ''from''
         then (case rest of
             [] \<Rightarrow> Inl ('':from on '' @ quoted p @ '' needs a value'')
           | value # rest' \<Rightarrow>
               if x_from x \<noteq> None then Inl (''duplicate :from on '' @ quoted p)
               else bind_result (map_err display_r6_violation (parse_from p value)) (\<lambda>f.
                 extend_loop p rest' (x\<lparr>x_from := Some f\<rparr>)))
         else if kw = ''to''
         then (case rest of
             [] \<Rightarrow> Inl ('':to on '' @ quoted p @ '' needs a value'')
           | value # rest' \<Rightarrow>
               if x_to x \<noteq> None then Inl (''duplicate :to on '' @ quoted p)
               else bind_result (map_err display_r6_violation (parse_recipient_set p value)) (\<lambda>t.
                 extend_loop p rest' (x\<lparr>x_to := Some t\<rparr>)))
         else Inl (''extend '' @ quoted p @ '' has unknown keyword :'' @ kw)
     | _ \<Rightarrow>
         if x_template x \<noteq> None then Inl (''extend '' @ quoted p @ '' has more than one template form'')
         else extend_loop p rest (x\<lparr>x_template := Some item\<rparr>))"

definition extend_role :: "string \<Rightarrow> extend_state \<Rightarrow> (string, role_annotation option) result" where
  "extend_role p x = (case (x_from x, x_to x) of
       (Some f, Some t) \<Rightarrow> Inr (Some \<lparr>ann_from = f, ann_to = t\<rparr>)
     | (None, None) \<Rightarrow> Inr None
     | _ \<Rightarrow> Inl (''extend '' @ quoted p @ '' must carry both :from and :to or neither (CON-600)''))"

definition parse_extend :: "sexpr list \<Rightarrow> (string, performative_def) result" where
  "parse_extend items =
     (if length items < 4 then Inl ''extend clause requires: extend name (params) template''
      else bind_result (extract_symbol (items ! 1) ''performative name'') (\<lambda>p.
        bind_result (extract_param_list (items ! 2)) (\<lambda>params.
        bind_result (extend_loop p (drop 3 items) \<lparr>x_template = None, x_from = None, x_to = None\<rparr>) (\<lambda>x.
        bind_result (ok_or (''extend '' @ quoted p @ '' is missing its template'') (x_template x)) (\<lambda>template.
        bind_result (extend_role p x) (\<lambda>role.
        Inr \<lparr>p_name = p, p_params = params, p_template = template, p_role = role\<rparr>))))))"

section \<open>Clauses\<close>

definition parse_locality :: "sexpr \<Rightarrow> (string, causal_locality) result" where
  "parse_locality e = (case e of
       Atom (Symbol mode) \<Rightarrow>
         if mode = ''derive'' then Inr (Derive [])
         else if mode = ''reject'' then Inr Reject
         else Inl ('':causal-locality must be derive or reject, got '' @ display_sexpr e @ '' (REQ-709)'')
     | _ \<Rightarrow> Inl ('':causal-locality must be derive or reject, got '' @ display_sexpr e @ '' (REQ-709)''))"

text \<open>The accumulators of the source are the fields of the dialect under construction.\<close>

definition parse_keyword_clause :: "string \<Rightarrow> sexpr list \<Rightarrow> dialect \<Rightarrow> (string, dialect) result" where
  "parse_keyword_clause kw items d =
     (if kw = ''resource-requirements''
      then if length items < 2 then Inl ''resource-requirements needs a value''
        else bind_result (parse_resource_requirements (items ! 1)) (\<lambda>r. Inr (d\<lparr>d_resources := r\<rparr>))
      else if kw = ''examples'' then Inr (d\<lparr>d_examples := d_examples d @ drop 1 items\<rparr>)
      else if kw = ''signature'' \<or> kw = ''signed''
      then Inr (if length items \<ge> 2 then d\<lparr>d_signature := Some (extract_signature_bytes (items ! 1))\<rparr> else d)
      else if kw = ''hash''
      then Inr (if length items \<ge> 2 then d\<lparr>d_hash := Some (dialect_string_or_symbol (items ! 1))\<rparr> else d)
      else if kw = ''protocol''
      then Inr (if length items \<ge> 2 then d\<lparr>d_protocol := Some (dialect_string_or_symbol (items ! 1))\<rparr> else d)
      else if kw = ''roles''
      then if length items \<noteq> 2 then Inl '':roles takes exactly one value (CON-600)''
        else bind_result (map_err display_r6_violation (parse_roles (items ! 1))) (\<lambda>rs. Inr (d\<lparr>d_roles := rs\<rparr>))
      else if kw = ''causal-locality''
      then if length items \<noteq> 2 then Inl '':causal-locality takes exactly one value (REQ-709)''
        else bind_result (parse_locality (items ! 1)) (\<lambda>l. Inr (d\<lparr>d_causal_locality := l\<rparr>))
      else if kw = ''state-bounds''
      then if d_state_bounds d \<noteq> None then Inl ''duplicate :state-bounds clause''
        else bind_result (parse_state_bounds (List items)) (\<lambda>b. Inr (d\<lparr>d_state_bounds := Some b\<rparr>))
      else Inl (''unknown keyword clause: :'' @ kw))"

definition parse_symbol_clause :: "sexpr list \<Rightarrow> dialect \<Rightarrow> (string, dialect) result" where
  "parse_symbol_clause items d =
     (if is_symbol (hd items) ''state''
      then if d_state d \<noteq> None then Inl ''duplicate state clause''
        else bind_result (parse_state (List items)) (\<lambda>c. Inr (d\<lparr>d_state := Some c\<rparr>))
      else if is_symbol (hd items) ''extend''
      then bind_result (parse_extend items) (\<lambda>p. Inr (d\<lparr>d_performatives := d_performatives d @ [p]\<rparr>))
      else if is_symbol (hd items) ''protocol''
      then bind_result (map_err (\<lambda>e. ''protocol parse error: '' @ display_protocol_parse_error e) (parse_protocol (List items)))
        (\<lambda>cp. Inr (d\<lparr>d_causal_protocol := Some cp\<rparr>))
      else if is_symbol (hd items) ''shape''
      then bind_result (parse_shape (List items)) (\<lambda>s. Inr (d\<lparr>d_shapes := d_shapes d @ [s]\<rparr>))
      else Inl (''unknown clause type: '' @ clause_head_description (hd items)))"

definition parse_clause :: "sexpr \<Rightarrow> dialect \<Rightarrow> (string, dialect) result" where
  "parse_clause clause d = (case clause of
       List items \<Rightarrow>
         if items = [] then Inl ''clause must be a non-empty list''
         else (case hd items of
             Atom (Keyword kw) \<Rightarrow> parse_keyword_clause kw items d
           | _ \<Rightarrow> parse_symbol_clause items d)
     | Atom _ \<Rightarrow> Inl ''clause must be a non-empty list'')"

fun parse_dialect_clauses :: "sexpr list \<Rightarrow> dialect \<Rightarrow> (string, dialect) result" where
  "parse_dialect_clauses [] d = Inr d"
| "parse_dialect_clauses (clause # clauses) d =
     bind_result (parse_clause clause d) (parse_dialect_clauses clauses)"

section \<open>Dialects\<close>

definition rule_declares_reserved :: "shape_rule \<Rightarrow> bool" where
  "rule_declares_reserved r = (case r of
       Require k _ _ \<Rightarrow> k \<in> set [RESERVED_REPLACES, PREV, DEPS, NONCE]
     | Optional k _ _ _ \<Rightarrow> k \<in> set [RESERVED_REPLACES, PREV, DEPS, NONCE]
     | MaxDepth _ \<Rightarrow> False)"

definition reserved_shape :: "dialect \<Rightarrow> shape_constraint option" where
  "reserved_shape d = (if d_state d = None then None
     else find (\<lambda>s. list_ex rule_declares_reserved (shape_rules s)) (d_shapes d))"

definition empty_dialect :: "string \<Rightarrow> string list \<Rightarrow> string option \<Rightarrow> dialect" where
  "empty_dialect name exts author =
     \<lparr>d_name = name, d_extends = exts, d_author = author, d_performatives = [], d_resources = default_resources,
      d_examples = [], d_signature = None, d_hash = None, d_protocol = None, d_causal_protocol = None, d_shapes = [],
      d_roles = [], d_causal_locality = Reject, d_state = None, d_state_bounds = None\<rparr>"

definition parse_dialect :: "sexpr \<Rightarrow> (string, dialect) result" where
  "parse_dialect e = (case e of
       List items \<Rightarrow>
         if items = [] then Inl ''empty dialect definition''
         else if \<not> is_symbol (items ! 0) ''define'' then Inl (''dialect definition must start with '' @ quoted ''define'')
         else if length items < 4
         then Inl ''dialect definition requires at least: define, name, extends, author''
         else bind_result (extract_symbol (items ! 1) ''dialect name'') (\<lambda>name.
           bind_result (extract_extends (items ! 2)) (\<lambda>exts.
           bind_result (extract_author (items ! 3)) (\<lambda>author.
           bind_result (parse_dialect_clauses (drop 4 items) (empty_dialect name exts author)) (\<lambda>d.
           case reserved_shape d of
             Some s \<Rightarrow> Inl (''shape '' @ quoted (shape_performative s) @
               '' declares compiler bookkeeping (:replaces or :escrow-*), which is reserved and inserted by the compiler (SPEC-019 REQ-1907)'')
           | None \<Rightarrow> Inr (insert_replaces d)))))
     | Atom _ \<Rightarrow> Inl ''dialect definition must be a list'')"

definition parse_meta_define :: "sexpr \<Rightarrow> (string, dialect) result" where
  "parse_meta_define e = (case e of
       List items \<Rightarrow>
         if length items \<noteq> 2 then Inl ''meta message must have exactly 2 elements''
         else if \<not> is_symbol (items ! 0) ''meta'' then Inl (''expected '' @ quoted ''meta'' @ '' keyword'')
         else parse_dialect (items ! 1)
     | Atom _ \<Rightarrow> Inl ''meta message must be a list'')"

section \<open>What every parsed dialect satisfies\<close>

lemma map_err_Inr [simp]: "map_err f r = Inr a \<longleftrightarrow> r = Inr a"
  by (cases r) (auto simp: map_err_def)

definition entry_parsed :: "clause_entry \<Rightarrow> bool" where
  "entry_parsed e = (case e of
       EField name r \<Rightarrow> is_field_name name \<and> (case r of BoundedCounter c \<Rightarrow> counter_wf c | _ \<Rightarrow> True)
     | EDomain _ _ _ \<Rightarrow> True)"

definition authored :: "dialect \<Rightarrow> bool" where
  "authored d \<longleftrightarrow>
     pred_option (\<lambda>cp. \<exists>e. parse_protocol e = Inr cp) (d_causal_protocol d) \<and>
     d_causal_locality d \<in> {Reject, Derive []} \<and>
     distinct (map role_name (d_roles d)) \<and>
     pred_option (\<lambda>c. list_all entry_parsed (entries c)) (d_state d)"

lemma parse_counter_wf: "parse_counter args = Inr c \<Longrightarrow> counter_wf c"
  by (auto simp: parse_counter_def result_simps intro: counter_declared_wf counter_of_options_sound)

lemma rule_of_head_parsed:
  assumes "rule_of_head head args = Inr (BoundedCounter c)"
  shows "counter_wf c"
proof (cases "head = ''bounded-counter''")
  case True
  then show ?thesis using assms by (auto simp: rule_of_head_def result_simps intro: parse_counter_wf)
next
  case False
  then show ?thesis using assms
    by (auto simp: rule_of_head_def clock_rule_def lww_map_rule_def verb_key_rule_def verb_rule_def
        values_per_key_rule_def two_verb_rule_def field_rule_def bind_result_eq_Inr split: if_splits)
qed

lemma parse_entry_parsed: "parse_entry e = Inr entry \<Longrightarrow> entry_parsed entry"
  by (auto simp: parse_entry_def entry_parsed_def bind_result_eq_Inr parse_rule_def rule_of_head_parsed
      split: sexpr.splits list.splits if_splits rule.splits)

lemma parse_entries_parsed:
  "parse_entries es acc = Inr xs \<Longrightarrow> list_all entry_parsed acc \<Longrightarrow> list_all entry_parsed xs"
  by (induction es arbitrary: acc) (auto simp: result_simps dest!: parse_entry_parsed)

lemma parse_state_parsed: "parse_state e = Inr c \<Longrightarrow> list_all entry_parsed (entries c)"
  by (auto simp: parse_state_def result_simps dest: parse_entries_parsed split: sexpr.splits if_splits)

lemma parse_roles_distinct: "parse_roles e = Inr rs \<Longrightarrow> distinct (map role_name rs)"
proof -
  have "parse_roles_loop items decls = Inr rs \<Longrightarrow> distinct (map role_name decls) \<Longrightarrow> distinct (map role_name rs)" for items decls
    by (induction items arbitrary: decls) (auto simp: result_simps split: if_splits)
  then show "parse_roles e = Inr rs \<Longrightarrow> ?thesis"
    by (auto simp: parse_roles_def split: sexpr.splits if_splits)
qed

lemma parse_locality_authored: "parse_locality e = Inr l \<Longrightarrow> l = Reject \<or> l = Derive []"
  by (auto simp: parse_locality_def split: sexpr.splits atom.splits if_splits)

definition authored_fields :: "dialect \<Rightarrow> causal_protocol option \<times> causal_locality \<times> role_decl list \<times> state_clause option" where
  "authored_fields d = (d_causal_protocol d, d_causal_locality d, d_roles d, d_state d)"

lemma keyword_clause_fields:
  assumes "parse_keyword_clause kw items d = Inr d'" "kw \<noteq> ''roles''" "kw \<noteq> ''causal-locality''"
  shows "authored_fields d' = authored_fields d"
proof -
  note split_simps = parse_keyword_clause_def authored_fields_def bind_result_eq_Inr
  consider "kw = ''resource-requirements''" | "kw = ''examples''" | "kw = ''signature''" | "kw = ''signed''" | "kw = ''hash''"
    | "kw = ''protocol''" | "kw = ''state-bounds''"
    | "kw \<notin> set [''resource-requirements'', ''examples'', ''signature'', ''signed'', ''hash'', ''protocol'', ''state-bounds'']"
    by auto
  then show ?thesis
  proof cases
    case 1 then show ?thesis using assms(1) by (auto simp: split_simps split: if_split_asm)
  next
    case 2 then show ?thesis using assms(1) by (auto simp: split_simps)
  next
    case 3 then show ?thesis using assms(1) by (auto simp: split_simps)
  next
    case 4 then show ?thesis using assms(1) by (auto simp: split_simps)
  next
    case 5 then show ?thesis using assms(1) by (auto simp: split_simps)
  next
    case 6 then show ?thesis using assms(1) by (auto simp: split_simps)
  next
    case 7 then show ?thesis using assms(1) by (auto simp: split_simps split: if_split_asm)
  next
    case 8 then show ?thesis using assms by (simp add: parse_keyword_clause_def)
  qed
qed

lemma keyword_clause_authored:
  assumes "parse_keyword_clause kw items d = Inr d'" "authored d"
  shows "authored d'"
proof -
  consider "kw = ''roles''" | "kw = ''causal-locality''" | "kw \<noteq> ''roles''" "kw \<noteq> ''causal-locality''" by blast
  then show ?thesis
  proof cases
    case 1
    then obtain rs where "d' = d\<lparr>d_roles := rs\<rparr>" "parse_roles (items ! 1) = Inr rs"
      using assms(1) by (auto simp: parse_keyword_clause_def bind_result_eq_Inr split: if_split_asm)
    then show ?thesis using assms(2) parse_roles_distinct by (simp add: authored_def)
  next
    case 2
    then obtain l where "d' = d\<lparr>d_causal_locality := l\<rparr>" "parse_locality (items ! 1) = Inr l"
      using assms(1) by (auto simp: parse_keyword_clause_def bind_result_eq_Inr split: if_split_asm)
    then show ?thesis using assms(2) parse_locality_authored [of "items ! 1" l] by (auto simp: authored_def)
  next
    case 3
    then show ?thesis using assms keyword_clause_fields by (simp add: authored_def authored_fields_def)
  qed
qed

lemma symbol_clause_authored:
  assumes "parse_symbol_clause items d = Inr d'" "authored d"
  shows "authored d'"
  using assms parse_state_parsed
  by (auto simp: parse_symbol_clause_def authored_def result_simps split: if_splits)

lemma parse_clause_authored:
  assumes "parse_clause clause d = Inr d'" "authored d"
  shows "authored d'"
  using assms keyword_clause_authored symbol_clause_authored
  by (auto simp: parse_clause_def split: sexpr.splits atom.splits if_splits)

lemma parse_clauses_authored:
  "parse_dialect_clauses clauses d = Inr d' \<Longrightarrow> authored d \<Longrightarrow> authored d'"
  by (induction clauses arbitrary: d) (auto simp: result_simps intro: parse_clause_authored)

lemma parse_dialect_cases:
  assumes "parse_dialect e = Inr d"
  obtains d0 where "d = insert_replaces d0" "authored d0" "reserved_shape d0 = None"
proof -
  obtain d0 clauses name exts author where "parse_dialect_clauses clauses (empty_dialect name exts author) = Inr d0"
      "reserved_shape d0 = None" "d = insert_replaces d0"
    using assms by (auto simp: parse_dialect_def result_simps split: sexpr.splits if_splits option.splits)
  moreover have "authored (empty_dialect name exts author)" for name exts author
    by (simp add: authored_def empty_dialect_def)
  ultimately show ?thesis using that parse_clauses_authored by blast
qed

lemma insert_replaces_fields:
  "d_state (insert_replaces d) = d_state d" "d_causal_protocol (insert_replaces d) = d_causal_protocol d"
  "d_causal_locality (insert_replaces d) = d_causal_locality d" "d_roles (insert_replaces d) = d_roles d"
  by (cases "d_state d"; simp add: insert_replaces_def Let_def)+

lemma parse_dialect_authored: "parse_dialect e = Inr d \<Longrightarrow> authored d"
  by (erule parse_dialect_cases) (auto simp: authored_def insert_replaces_fields)

section \<open>Reserved fields\<close>

lemma unreserved_decls:
  assumes "reserved_shape d = None" "d_state d \<noteq> None" "key \<in> {RESERVED_REPLACES, PREV, DEPS, NONCE}"
  shows "decls (d_shapes d) v key = []"
proof -
  have "k \<noteq> key" if "s \<in> set (d_shapes d)" "r \<in> set (shape_rules s)" "keyword_type r = Some (k, tc)" for s r k tc
  proof -
    have "\<not> rule_declares_reserved r" using assms(1,2) that(1,2)
      by (auto simp: reserved_shape_def find_None_iff list_ex_iff)
    then show ?thesis using that(3) assms(3)
      by (cases r) (auto simp: rule_declares_reserved_def keyword_type_def)
  qed
  then show ?thesis
    by (force simp: decls_def filter_empty_conv verb_rules_def set_map_filter)
qed

section \<open>Properties\<close>

lemma cert_norm_id: "cert_normal c \<Longrightarrow> cert_norm c = c"
proof (cases c)
  case (QuorumBudget vs fs)
  assume n: "cert_normal c"
  show ?thesis
  proof (cases vs)
    case (Some keys)
    then obtain f where f: "fs = Some f" "sorted keys" "list_all validator_key keys" "distinct keys" "length keys = 3 * unat f + 1"
      using n QuorumBudget by (cases fs) (auto simp: cert_normal_def)
    then have "committee_new keys (Some f) = Inr \<lparr>validators = keys, faults = f, quorum = 2 * unat f + 1\<rparr>"
      by (simp add: committee_new_iff sorted_sort_id)
    then show ?thesis using QuorumBudget Some f by (simp add: cert_norm_def sorted_sort_id)
  qed (simp add: cert_norm_def QuorumBudget)
qed (simp add: cert_norm_def)

lemma clause_norm_id: "list_all entry_parsed (entries c) \<Longrightarrow> clause_norm c = c"
proof -
  assume "list_all entry_parsed (entries c)"
  then have "map entry_norm (entries c) = entries c"
    by (intro map_idI) (auto simp: list_all_iff entry_parsed_def entry_norm_def rule_norm_def counter_norm_def counter_wf_def
        cert_norm_id split: clause_entry.splits rule.splits)
  then show ?thesis by (cases c) (simp add: clause_norm_def)
qed

lemma signed_part_authored:
  assumes "authored d"
  shows "signed_part d = d\<lparr>d_signature := None, d_hash := None, d_protocol := None\<rparr>"
proof -
  have "map_option clause_norm (d_state d) = d_state d"
    using assms clause_norm_id by (cases "d_state d") (auto simp: authored_def)
  then show ?thesis using assms by (cases d) (auto simp: signed_part_def authored_def split: causal_locality.splits)
qed

lemma parsed_protocol_keyed: "parse_protocol e = Inr cp \<Longrightarrow> keyed_by_step cp"
  by (erule parse_protocol_table) (auto simp: keyed_by_step_def edge_table_def edge_step_def list_all_iff)

text \<open>C16: the octets that a dialect's signature covers determine the dialect a source declares: two dialects that
  were parsed have the same signed octets exactly when they agree on everything but the signature, hash and
  label fields. Rosters, routes and step keys leave no freedom, since the parser writes them in one form.\<close>

theorem parsed_dialect_binding:
  assumes "parse_dialect e = Inr d" "parse_dialect e' = Inr d'"
  shows "dialect_canonical_bytes d = dialect_canonical_bytes d' \<longleftrightarrow>
    d\<lparr>d_signature := None, d_hash := None, d_protocol := None\<rparr> =
    d'\<lparr>d_signature := None, d_hash := None, d_protocol := None\<rparr>"
proof -
  have a: "authored d" "authored d'" using assms parse_dialect_authored by auto
  have "pred_option keyed_by_step (d_causal_protocol x)" if "authored x" for x
    using that parsed_protocol_keyed by (cases "d_causal_protocol x") (auto simp: authored_def)
  then show ?thesis using a signable_inject [of d d'] by (simp add: signed_part_authored)
qed

definition sample_source :: "sexpr list \<Rightarrow> sexpr" where
  "sample_source clauses = List ([Sym ''define'', Sym ''lang'', List [], Sym ''@me''] @ clauses)"

lemma sample_source_parses:
  "parse_dialect (sample_source clauses) =
     bind_result (parse_dialect_clauses clauses (empty_dialect ''lang'' [] (Some ''@me''))) (\<lambda>d.
       case reserved_shape d of
         Some s \<Rightarrow> Inl (''shape '' @ quoted (shape_performative s) @
           '' declares compiler bookkeeping (:replaces or :escrow-*), which is reserved and inserted by the compiler (SPEC-019 REQ-1907)'')
       | None \<Rightarrow> Inr (insert_replaces d))"
  by (simp add: sample_source_def parse_dialect_def is_symbol_def extract_symbol_def extract_extends_def extract_author_def)

theorem parsed_dialect_binding_witness:
  "\<exists>d d'. parse_dialect (sample_source [List [Kw ''hash'', Sym ''x'']]) = Inr d \<and> parse_dialect (sample_source []) = Inr d' \<and>
     d \<noteq> d' \<and> dialect_canonical_bytes d = dialect_canonical_bytes d'"
proof -
  let ?d = "(empty_dialect ''lang'' [] (Some ''@me''))\<lparr>d_hash := Some ''x''\<rparr>"
  let ?d' = "empty_dialect ''lang'' [] (Some ''@me'')"
  have p: "parse_dialect (sample_source [List [Kw ''hash'', Sym ''x'']]) = Inr ?d" "parse_dialect (sample_source []) = Inr ?d'"
    by (simp_all add: sample_source_parses parse_clause_def parse_keyword_clause_def dialect_string_or_symbol_def
        reserved_shape_def empty_dialect_def insert_replaces_def)
  have "dialect_canonical_bytes ?d = dialect_canonical_bytes ?d'"
    using parsed_dialect_binding [OF p] by (simp add: empty_dialect_def)
  then show ?thesis using p by (auto simp: empty_dialect_def)
qed

text \<open>Compiler bookkeeping is never authored. A parsed dialect is the compilation of declarations none of whose
  shapes declares a reserved field when there is a state clause; compiling it again changes nothing, every
  operation verb of a counter declares its links, and every replacement writer \<open>:replaces\<close>.\<close>

lemma parsed_dialect_compiled:
  assumes "parse_dialect e = Inr d"
  shows "insert_replaces d = d \<and> linked d (d_shapes d) \<and>
    (\<exists>d0. d = insert_replaces d0 \<and>
      (d_state d \<noteq> None \<longrightarrow> (\<forall>v. \<forall>key \<in> {RESERVED_REPLACES, PREV, DEPS, NONCE}.
         key \<notin> set (declared_keywords (d_shapes d0) v))))"
proof -
  obtain d0 where d0: "d = insert_replaces d0" "reserved_shape d0 = None" using assms by (rule parse_dialect_cases)
  have none: "key \<notin> set (declared_keywords (d_shapes d0) v)"
    if "d_state d0 \<noteq> None" "key \<in> {RESERVED_REPLACES, PREV, DEPS, NONCE}" for v key
    unfolding declared_decls using unreserved_decls [OF d0(2) that] by simp
  show ?thesis
  proof (cases "d_state d0")
    case None
    then have "insert_replaces d0 = d0" by (simp add: insert_replaces_def)
    then show ?thesis using d0 None by (intro conjI exI [of _ d0]) (auto simp: linked_def)
  next
    case (Some c)
    have "insert_replaces (insert_replaces d0) = insert_replaces d0 \<and> linked d0 (d_shapes (insert_replaces d0))"
      using insert_replaces_idempotent [of d0] none Some by auto
    then show ?thesis using none d0 Some by (auto simp: linked_def insert_replaces_fields)
  qed
qed

definition register_source :: sexpr where
  "register_source = sample_source
     [List [Sym ''extend'', Sym ''put'', List [Sym ''k''], List [Sym ''effect'', Sym ''put'']],
      List [Sym ''state'', List [Sym ''seen'', List [Sym ''values'', Sym ''put'', Kw ''k'']]]]"

lemma parsed_dialect_compiled_witness:
  "\<exists>d. parse_dialect register_source = Inr d \<and> insert_replaces d = d \<and>
     RESERVED_REPLACES \<in> set (declared_keywords (d_shapes d) ''put'')"
proof -
  let ?clause = "\<lparr>entries = [EField ''seen'' (Values ''put'' ''k'')]\<rparr>"
  let ?d = "(empty_dialect ''lang'' [] (Some ''@me''))\<lparr>d_state := Some ?clause,
     d_performatives := [\<lparr>p_name = ''put'', p_params = [Sym ''k''], p_template = List [Sym ''effect'', Sym ''put''], p_role = None\<rparr>]\<rparr>"
  have "is_field_name ''seen''" by code_simp
  then have p: "parse_dialect register_source = Inr (insert_replaces ?d)"
    by (simp add: register_source_def sample_source_parses parse_clause_def parse_symbol_clause_def is_symbol_def parse_extend_def
        extract_symbol_def extract_param_list_def extend_role_def parse_state_def parse_entry_def parse_rule_def rule_of_head_def
        verb_key_rule_def arity_def rule_verb_def rule_key_def reserved_shape_def empty_dialect_def)
  have "d_state (insert_replaces ?d) = Some ?clause" by (simp add: insert_replaces_fields)
  moreover have "''put'' \<in> set (clause_replaces_verbs ?clause)"
    by (simp add: clause_replaces_verbs_def clause_fields_def map_filter_def rule_replaces_verbs_def)
  ultimately have "RESERVED_REPLACES \<in> set (declared_keywords (d_shapes (insert_replaces ?d)) ''put'')"
    using parsed_dialect_compiled [OF p] unfolding linked_def by blast
  then show ?thesis using p parsed_dialect_compiled [OF p] by blast
qed

text \<open>Depths and resource bounds are cast to \<open>u32\<close> without a range check: a positive depth can be declared as zero, and
  a declaration far out of range or negative can become a valid bound.\<close>

lemma depth_truncated:
  "parse_shape_rule (List [Sym ''max-depth'', Atom (Num (2 ^ 32))]) = Inr (MaxDepth 0)"
proof -
  have "word_of_int (2 ^ 32) = (0 :: u32)" by (simp add: word_of_int_eq_iff take_bit_eq_mod)
  then show ?thesis by (simp add: parse_max_depth_rule_def)
qed

lemma resources_truncated:
  "parse_resource_requirements (List [List [Sym ''max-depth'', Atom (Num (8 - 2 ^ 32))]]) =
     Inr (default_resources\<lparr>rb_max_depth := 8\<rparr>) \<and> bounds_is_valid (default_resources\<lparr>rb_max_depth := 8\<rparr>)"
proof -
  have "word_of_int (8 - 2 ^ 32) = (8 :: u32)" by (simp add: word_of_int_eq_iff take_bit_eq_mod)
  then show ?thesis
    by (simp add: parse_resource_requirements_def resource_item_def bounds_is_valid_def default_resources_def)
qed

text \<open>The documented spelling of resource bounds, a dotted pair, is a list of three items to the wire parser, and such an
  item is skipped: the declared bound is ignored and the default stands.\<close>

lemma documented_resources_ignored:
  "\<exists>e. parse ''((max-depth . 8))'' = Inr e \<and> parse_resource_requirements e = Inr default_resources"
proof -
  have "parse ''((max-depth . 8))'' = Inr (List [List [Sym ''max-depth'', Sym ''.'', Atom (Num 8)]])" by code_simp
  then show ?thesis by (simp add: parse_resource_requirements_def resource_item_def)
qed

end
