(* ===== verification/Spec2Isabelle.thy ===== *)
theory Spec2Isabelle
  imports
    Cbcl_Prelude Cbcl_Sexpr Cbcl_Parser Cbcl_Message
    Cbcl_Template Cbcl_Hlc Cbcl_Shape
    Cbcl_Graph Cbcl_Protocol
    Cbcl_Canonical Cbcl_Keyid Cbcl_Address Cbcl_Attest Cbcl_Envelope
    Cbcl_Store Cbcl_Causal Cbcl_Bundle
    Cbcl_Role Cbcl_Clause Cbcl_Dialect Cbcl_R6 Cbcl_Position Cbcl_R7 Cbcl_Registry
    Cbcl_Evaluator Cbcl_Policy Cbcl_Agent
    Cbcl_Act Cbcl_Value Cbcl_Escrow Cbcl_Budget Cbcl_Traversal Cbcl_State Cbcl_Monotone Cbcl_Schema Cbcl_Stateshape
    Cbcl_Projection Cbcl_Evidence Cbcl_Admission Cbcl_Monitor Cbcl_Equivocation Cbcl_Gossip
    Cbcl_Protoparse Cbcl_Stateparse Cbcl_Dialectparse
begin

text \<open>
  A verification library for CBCL, a language of causally linked agent messages implemented in Rust
  (\<open>src/crates\<close>). The implementation that carries the logic is the core crate (\<open>cbcl-core\<close>) and the parser
  crate (\<open>cbcl-parser\<close>); file names below are those of their \<open>src\<close> directories.

  \<^bold>\<open>The program.\<close> Bytes are parsed to S-expressions, S-expressions are recognised as messages, and a
  message is stored under its content address in a thread. A message cites the messages it responds
  to; a protocol declares which performatives may cite which, and the verifier answers \<open>Valid\<close>,
  \<open>Unknown\<close> (evidence is missing) or \<open>Violation\<close>. Messages travel in signed envelopes that may hide
  their payload, and in bundles that carry the causal closure of a target. Vocabulary comes from
  dialects with templates, shapes, a protocol, roles and a state clause, parsed from source, checked by
  R1 to R7 when they are installed, and spread by gossip. An agent evaluates messages against its registry,
  buffers those whose predecessors are unknown and releases them when the evidence arrives. A monitor
  admits the messages of one pinned thread; a fold turns the accepted acts of a thread into state, with
  bounded counters whose rights are tracked in escrow; two messages that no honest signer sends
  together make a transferable proof of equivocation.

  \<^bold>\<open>Conventions.\<close> Strings are lists of bytes (\<open>char\<close>). A \<open>BTreeMap\<close> or \<open>BTreeSet\<close> is a sorted association
  list or list (\<open>btmap\<close>, \<open>btset\<close>) with the order of iteration of the source; \<open>Result\<close> is a sum with the error on
  the left; \<open>u32\<close> and \<open>u64\<close> are machine words where the code computes with them, with saturation, checked
  operations and \<open>as\<close> casts written out; \<open>i64\<close> atoms are integers with a range predicate where it matters.
  A \<open>&mut\<close> argument is threaded through the result. SHA-256, signature schemes, clocks, random choices and the
  authenticating gate are parameters; what a theorem needs of them is a hypothesis it names (collision
  freedom on the inputs used, correctness of a signature scheme), and its witness instantiates them.

  \<^bold>\<open>The theories\<close>, in the order of the layers, with the code they model:

  \<^item> \<open>Cbcl_Prelude\<close>: words, results, ordered maps and sets (with the locales \<open>ordered_map\<close> and \<open>ordered_set\<close> of their
    collecting folds), characters and decimals.
  \<^item> \<open>Cbcl_Sexpr\<close> (\<open>sexpr.rs\<close>, \<open>serializer.rs\<close>), \<open>Cbcl_Parser\<close> (parser crate, \<open>parser.rs\<close>), \<open>Cbcl_Message\<close>
    (\<open>message.rs\<close>, \<open>msg_tag.rs\<close>, \<open>pattern.rs\<close>): the wire syntax and the recogniser of messages. Printing and parsing are
    inverse; the recogniser accepts exactly the well-formed messages; the default fuel never runs out.
  \<^item> \<open>Cbcl_Template\<close> (\<open>template.rs\<close>, \<open>r2.rs\<close>), \<open>Cbcl_Hlc\<close> (\<open>hlc.rs\<close>, \<open>clock.rs\<close>), \<open>Cbcl_Shape\<close> (\<open>shape.rs\<close>): template expansion
    with resource accounting, timestamps, and shape checks against a reference predicate.
  \<^item> \<open>Cbcl_Graph\<close>, \<open>Cbcl_Protocol\<close> (\<open>protocol.rs\<close>, the R5 checks and the verdict lattice), \<open>Cbcl_Causal\<close> and \<open>Cbcl_Monotone\<close> (the
    causal verifier with the resolver of repeat copies): cycle search and reachability are exact; in a protocol without
    copies a verdict is characterised by the thread's evidence, and in every protocol it never changes once it is
    resolved.
  \<^item> \<open>Cbcl_Canonical\<close> (\<open>canonical.rs\<close>), \<open>Cbcl_Keyid\<close> (\<open>keyid.rs\<close>), \<open>Cbcl_Address\<close> (\<open>typed_addr.rs\<close>), \<open>Cbcl_Attest\<close>
    (\<open>attest.rs\<close>, \<open>r4.rs\<close>), \<open>Cbcl_Envelope\<close> (\<open>envelope.rs\<close>): what is hashed and signed determines what it stands for;
    envelopes print and parse back.
  \<^item> \<open>Cbcl_Store\<close>, \<open>Cbcl_Bundle\<close> (\<open>store.rs\<close>): the threaded store converges under reordered and repeated delivery,
    its frontier and closures are exact, bundles list a closure in causal order.
  \<^item> \<open>Cbcl_Role\<close>, \<open>Cbcl_R6\<close> (\<open>role.rs\<close>, \<open>r6.rs\<close>), \<open>Cbcl_Clause\<close> (\<open>certification.rs\<close>, the clause data of \<open>state.rs\<close>
    and \<open>escrow.rs\<close>), \<open>Cbcl_Dialect\<close> (\<open>dialect.rs\<close>, \<open>r1.rs\<close>, \<open>r3.rs\<close>, \<open>r5.rs\<close>), \<open>Cbcl_Position\<close> (\<open>repeat.rs\<close>), \<open>Cbcl_R7\<close> (\<open>r7.rs\<close>),
    \<open>Cbcl_Registry\<close>: every install-time check against its specification, and the invariant of a registry under any
    sequence of installs.
  \<^item> \<open>Cbcl_Evaluator\<close> (\<open>evaluator.rs\<close>), \<open>Cbcl_Policy\<close> (\<open>policy.rs\<close>), \<open>Cbcl_Agent\<close> (\<open>agent.rs\<close>): evaluation fails closed, live
    and re-evaluated verdicts agree, and a buffered message is released when its evidence arrives; the agent's
    invariant holds in every reachable state.
  \<^item> \<open>Cbcl_Act\<close>, \<open>Cbcl_Value\<close>, \<open>Cbcl_State\<close>, \<open>Cbcl_Schema\<close>, \<open>Cbcl_Stateshape\<close> (\<open>state.rs\<close>, \<open>r7.rs\<close>), \<open>Cbcl_Escrow\<close>,
    \<open>Cbcl_Budget\<close>, \<open>Cbcl_Traversal\<close> (\<open>escrow.rs\<close>): the fold of a thread is a function of its set of acts, has the published
    type, and counters never settle below their floor or on a negative balance.
  \<^item> \<open>Cbcl_Projection\<close> and \<open>Cbcl_Evidence\<close> (\<open>projection.rs\<close>), \<open>Cbcl_Admission\<close> and \<open>Cbcl_Monitor\<close> (\<open>admission.rs\<close>): the
    role monitor's verdict and the evidence it reads, and the admission of a thread: every delivery order ends with the same decisions, and draining leaves no candidate
    pending whose evidence is accepted.
  \<^item> \<open>Cbcl_Equivocation\<close> (\<open>equivocation.rs\<close>): detection convicts exactly the conflicting pairs, and a proof is
    accepted exactly when it holds two signed conflicting messages.
  \<^item> \<open>Cbcl_Gossip\<close> (\<open>gossip.rs\<close>): the invariant of a network under every operation, and the end of a simulation.
  \<^item> \<open>Cbcl_Protoparse\<close>, \<open>Cbcl_Stateparse\<close>, \<open>Cbcl_Dialectparse\<close> (parser crate: \<open>protocol_parser.rs\<close>, \<open>state_parser.rs\<close>,
    \<open>shape_parser.rs\<close>, \<open>dialect_parser.rs\<close>): the source language of dialects. The protocol parser decides its grammar,
    canonical counter options parse back, and the signed octets of a parsed dialect determine it.
  \<^item> this theory: the property that spans source, install and verification.

  \<^bold>\<open>Interfaces.\<close> What a client relies on is a locale, interpreted on the model's own definitions in the theory that
  provides them: ordered collections and their collecting folds (\<open>ordered_map\<close>, \<open>ordered_set\<close> in \<open>Cbcl_Prelude\<close>), clocks
  (\<open>event_clock\<close> in \<open>Cbcl_Hlc\<close>), the threaded store (\<open>message_store\<close> in \<open>Cbcl_Store\<close>), the buffers of the pending queue
  (\<open>fifo_buffer\<close> in \<open>Cbcl_Policy\<close>) and the two install paths of the registry (\<open>install_path\<close> in \<open>Cbcl_Registry\<close>). State
  machines (registry, agent, monitor, network) are inductive reachability predicates over the operations, and their
  invariants are proved by rule induction.

  \<^bold>\<open>Scope of the statements.\<close> A protocol whose source repeats steps is verified by another path of the code, which
  resolves a message to a copy of its step. Monotonicity of verdicts and the outcome of admission are proved for
  both paths; the exact characterisations of a verdict (\<open>verify_causal_exact\<close>, \<open>role_verdict_exact\<close>) and the release of a
  buffered message are stated for protocols without copies. The store takes the hashes it is given on trust, so
  permanence of a conviction assumes that the citations of a thread stay acyclic. Gossip may be received for names
  outside a network; the invariant of a network carries those receipts. A thread of the pending queue keeps one entry
  even when \<open>max_pending\<close> is zero, and the bound proved says so.

  \<^bold>\<open>Bounds and fuel.\<close> Fuel appears where the source has it: the wire parser, whose default is the input length and is
  shown never to run out, and bounded evaluation, whose limit is the caller's. Every other loop is a total
  function, structural or with a measure: graph searches and closures decrease the unvisited nodes, draining the
  pending candidates, the traversal of a counter its remaining operations. The one loop whose end is not
  evident from its arguments, the gossip simulation, is an option-valued partial function, and it is proved to
  return within the round limit.

  \<^bold>\<open>Not modelled.\<close> The intent binder (\<open>intend.rs\<close>), the quorum-budget runtime (\<open>quorum/\<close>) and the checkpoint crate
  that builds on it: replicated protocols of their own on top of the state layer. Blame and splicing (\<open>blame.rs\<close>,
  \<open>splice.rs\<close>), which render and recombine verdicts and dialects. The issuance lane of \<open>escrow.rs\<close> and the
  materialized position index of \<open>repeat.rs\<close>, which cache what the modelled functions compute. The floating-point
  estimate of \<open>gossip.rs\<close>, the system clock, the rendering of most error values. The message front end, contract
  and description exports of the parser crate, and the command line and language bindings, which compose the
  modelled functions with input and output.
\<close>

section \<open>From source to verification\<close>

lemma installed_protocol_checks:
  assumes "install sha256 reg d = Inr reg'" "d_causal_protocol d = Some cp"
  shows "verify_r5_protocol cp (performative_names d @ concat (map performative_names (resolve_ancestors reg d))) = []"
    and "expansion_size_of cp < rb_max_expansion_size (d_resources d)"
proof -
  have gates: "r1_to_r5_error reg d = None" using assms(1) by (simp add: install_def split: option.splits)
  then have "check_protocol_expansion_budget d = None" "verify_r5_with_ancestors d (resolve_ancestors reg d)"
    by (auto simp: r1_to_r5_error_def Let_def split: if_splits option.splits)
  then show "verify_r5_protocol cp (performative_names d @ concat (map performative_names (resolve_ancestors reg d))) = []"
    "expansion_size_of cp < rb_max_expansion_size (d_resources d)"
    using assms(2) by (auto simp: check_protocol_expansion_budget_def verify_r5_with_ancestors_def
        r5_violations_with_ancestors_def not_le split: if_splits)
qed

lemma installed_entry:
  assumes "install sha256 reg d = Inr reg'"
  obtains d' where "dialects reg' = dialects reg @ [d']" "d_causal_protocol d' = d_causal_protocol d"
    "dialect_canonical_bytes d' = dialect_canonical_bytes d"
proof -
  obtain d1 where d1: "apply_r6 d = Inr d1" "reg' = registry_push reg (ensure_hash sha256 d1)"
    using assms by (auto simp: install_def Let_def split: option.splits sum.splits if_splits)
  have "d_causal_protocol (ensure_hash sha256 d1) = d_causal_protocol d"
    using apply_r6_form [OF d1(1)] by (auto simp: ensure_hash_def)
  then show ?thesis using that [of "ensure_hash sha256 d1"] installed_bytes(4) [OF d1(1)] d1(2)
    by (simp add: registry_push_def)
qed

text \<open>C15: from the source text of a dialect to the order its messages are held to. When a parsed dialect is
  installed, the entry that is appended carries the parsed protocol under the signed octets of the source,
  the predecessor relation that causal verification reads is acyclic, every step follows from \<open>begin\<close> by
  it, every step is a copy of a performative that the dialect or an ancestor defines, and the number of
  steps stays below the declared expansion bound.\<close>

theorem installed_source_protocol:
  assumes "parse_dialect e = Inr d" "install sha256 reg d = Inr reg'" "d_causal_protocol d = Some cp"
  shows "(\<exists>d'. dialects reg' = dialects reg @ [d'] \<and> d_causal_protocol d' = Some cp \<and>
      dialect_canonical_bytes d' = dialect_canonical_bytes d) \<and>
    acyclic (precedes cp) \<and>
    (\<forall>p \<in> set (bt_keys (steps cp)). (BEGIN_KEYWORD, p) \<in> (precedes cp)\<^sup>*) \<and>
    repeat_base_name ` (set (bt_keys (steps cp)) - {BEGIN_KEYWORD}) \<subseteq>
      set (performative_names d @ concat (map performative_names (resolve_ancestors reg d))) \<and>
    length (filter (\<lambda>p. p \<noteq> BEGIN_KEYWORD) (bt_keys (steps cp))) < unat (rb_max_expansion_size (d_resources d))"
proof -
  obtain e' where "parse_protocol e' = Inr cp" using parse_dialect_authored [OF assms(1)] assms(3) by (auto simp: authored_def)
  then obtain es where cp: "cp = \<lparr>steps = edge_table es\<rparr>" by (rule parse_protocol_table)
  have pre: "precedes cp = step_edges (steps cp)" by (simp add: cp precedes_table)
  note checks = installed_protocol_checks [OF assms(2,3)]
  have r5: "acyclic (step_edges (steps cp))" "set (bt_keys (steps cp)) \<subseteq> (step_edges (steps cp))\<^sup>* `` {BEGIN_KEYWORD}"
    "repeat_base_name ` (mentioned cp - {BEGIN_KEYWORD}) \<subseteq>
       set (performative_names d @ concat (map performative_names (resolve_ancestors reg d)))"
    using checks(1) unfolding verify_r5_protocol_def append_is_Nil_conv check_acyclicity_ok check_reachability_ok
      check_definedness_ok by blast+
  have "set (bt_keys (steps cp)) \<subseteq> mentioned cp" by (force simp: mentioned_def step_mentions_def)
  moreover have "length (filter (\<lambda>p. p \<noteq> BEGIN_KEYWORD) (bt_keys (steps cp))) < unat (rb_max_expansion_size (d_resources d))"
  proof -
    let ?n = "length (filter (\<lambda>p. p \<noteq> BEGIN_KEYWORD) (bt_keys (steps cp)))"
    have "?n < 2 ^ 32" using checks(2) by (auto simp: expansion_size_of_def Let_def split: if_splits)
    then show ?thesis using checks(2) unat_of_nat_no_wrap [of ?n, where 'a = 32]
      by (simp add: expansion_size_of_def word_less_nat_alt)
  qed
  moreover have "\<exists>d'. dialects reg' = dialects reg @ [d'] \<and> d_causal_protocol d' = Some cp \<and>
      dialect_canonical_bytes d' = dialect_canonical_bytes d"
    using installed_entry [OF assms(2)] assms(3) by metis
  ultimately show ?thesis using r5 pre by auto
qed

definition auction_source :: sexpr where
  "auction_source = sample_source
     [List [Sym ''extend'', Sym ''bid'', List [], List [Sym ''effect'', Sym ''submit'']],
      List [Sym ''protocol'', List [Sym ''then'', Sym ''begin'', List [Sym ''repeat'', Atom (Num 2), Sym ''bid'']]]]"

definition auction_protocol :: causal_protocol where
  "auction_protocol = \<lparr>steps = bt_of_list (map (\<lambda>s. (step_performative s, s))
     [\<lparr>step_performative = ''begin'', predecessors = [], successors = [NSingle ''bid#1'']\<rparr>,
      \<lparr>step_performative = ''bid#1'', predecessors = [NSingle ''begin''], successors = [NSingle ''bid#2'']\<rparr>,
      \<lparr>step_performative = ''bid#2'', predecessors = [NSingle ''bid#1''], successors = []\<rparr>])\<rparr>"

definition auction :: dialect where
  "auction = (empty_dialect ''lang'' [] (Some ''@me''))\<lparr>d_causal_protocol := Some auction_protocol,
     d_performatives := [\<lparr>p_name = ''bid'', p_params = [], p_template = List [Sym ''effect'', Sym ''submit''], p_role = None\<rparr>]\<rparr>"

lemma auction_chain:
  "protocol_chains (List [Sym ''protocol'', List [Sym ''then'', Sym ''begin'', List [Sym ''repeat'', Atom (Num 2), Sym ''bid'']]]) =
     Some [[NSingle ''begin'', NSingle ''bid#1'', NSingle ''bid#2'']]"
  "protocol_cost (List [Sym ''protocol'', List [Sym ''then'', Sym ''begin'', List [Sym ''repeat'', Atom (Num 2), Sym ''bid'']]]) = 2"
  by (simp_all add: sample_repeat sample_nodes protocol_chains_def protocol_cost_def clause_cost_def
      chain_cost_def step_cost_def then_chain_def chain_step_def plain_step_def opt_append_def is_repeat_form_def is_symbol_def
      del: expansion.simps)

lemma auction_parses: "parse_dialect auction_source = Inr auction"
proof -
  have "edge_table (chain_edges [[NSingle ''begin'', NSingle ''bid#1'', NSingle ''bid#2'']]) = steps auction_protocol"
    by code_simp
  then have "parse_protocol (List [Sym ''protocol'', List [Sym ''then'', Sym ''begin'', List [Sym ''repeat'', Atom (Num 2), Sym ''bid'']]]) =
      Inr auction_protocol"
    using auction_chain by (simp add: parse_protocol_iff)
  then show ?thesis
    by (simp add: auction_source_def sample_source_parses parse_clause_def parse_symbol_clause_def is_symbol_def parse_extend_def
        extract_symbol_def extract_param_list_def extend_role_def reserved_shape_def empty_dialect_def insert_replaces_def
        map_err_def auction_def)
qed

lemma auction_checks:
  "verify_r1_dialect auction" "verify_r3 auction" "resolve_ancestors registry_new auction = []"
  "verify_r5_with_ancestors auction []" "r6_violations auction = []" "r7_violations id auction = []"
  by code_simp+

theorem installed_source_protocol_witness:
  "\<exists>reg. parse_dialect auction_source = Inr auction \<and> install id registry_new auction = Inr reg \<and>
     acyclic (precedes auction_protocol) \<and> (''begin'', ''bid#2'') \<in> (precedes auction_protocol)\<^sup>*"
proof -
  have cp: "d_causal_protocol auction = Some auction_protocol" by (simp add: auction_def)
  have res: "d_resources auction = default_resources" by (simp add: auction_def empty_dialect_def)
  have keys: "bt_keys (steps auction_protocol) = [''begin'', ''bid#1'', ''bid#2'']" by code_simp
  then have "expansion_size_of auction_protocol = 2" by (simp add: expansion_size_of_def BEGIN_KEYWORD_def)
  then have "r1_to_r5_error registry_new auction = None"
    by (simp add: r1_to_r5_error_def auction_checks verify_r2_def bounds_is_valid_def res default_resources_def
        check_protocol_expansion_budget_def cp)
  moreover have "apply_r6 auction = Inr auction"
    by (simp add: apply_r6_def auction_checks) (simp add: auction_def empty_dialect_def)
  ultimately have "install id registry_new auction = Inr (registry_push registry_new (ensure_hash id auction))"
    by (simp add: install_def auction_checks)
  then show ?thesis using installed_source_protocol [OF auction_parses _ cp] auction_parses keys
    by (auto simp: BEGIN_KEYWORD_def)
qed

end
